(* ===== verification/Prelude.thy ===== *)
theory Prelude
  imports Main "HOL-Library.Word"
begin

text \<open>
  Shared vocabulary of the development: the machine integer types of the C sources, the
  rotation and byte-order helpers of \<^verbatim>\<open>sph_types.h\<close>, and the facts on bits, words and lists
  that the component theories use.
\<close>

unbundle bit_operations_syntax

section \<open>Machine integers\<close>

type_synonym u8 = "8 word"
type_synonym u16 = "16 word"
type_synonym u32 = "32 word"
type_synonym u64 = "64 word"
type_synonym byte = u8
type_synonym bytes = "u8 list"

named_theorems bit_pointwise \<open>reading one bit of a bitwise expression\<close>
named_theorems lane_rules \<open>bitwise operators act lane by lane\<close>
named_theorems word_eval \<open>evaluation of bitwise expressions over word numerals\<close>

declare bit_xor_iff [bit_pointwise] bit_and_iff [bit_pointwise] bit_or_iff [bit_pointwise]

lemma bit_not_word [bit_pointwise]:
  "n < LENGTH('a) \<Longrightarrow> bit (NOT (x :: 'a::len word)) n \<longleftrightarrow> \<not> bit x n"
  by (simp add: bit_not_iff)

lemma word_bits_eqI:
  "(\<And>n. n < LENGTH('a) \<Longrightarrow> bit x n \<longleftrightarrow> bit y n) \<Longrightarrow> x = (y :: 'a::len word)"
  by (rule bit_word_eqI)

lemma xor_left_cancel [simp]: "(x :: 'a::len word) XOR (x XOR y) = y"
  by (simp flip: xor.assoc)

lemma word_rotl_alt:
  assumes "0 < s" and "s < LENGTH('a)"
  shows "push_bit s x OR drop_bit (LENGTH('a) - s) x = word_rotl s (x :: 'a::len word)"
proof (rule word_bits_eqI)
  fix n assume "n < LENGTH('a)"
  moreover have "\<not> bit x (LENGTH('a) - s + n)" if "s \<le> n"
    using that assms by (auto dest: bit_imp_le_length)
  ultimately show "bit (push_bit s x OR drop_bit (LENGTH('a) - s) x) n = bit (word_rotl s x) n"
    using assms
    by (cases "n < s") (auto simp: bit_or_iff bit_push_bit_iff bit_drop_bit_eq bit_word_rotl_iff mod_if ac_simps)
qed

lemma word_rotl_0 [simp]: "word_rotl 0 x = x"
  by (rule word_bits_eqI) (simp add: bit_word_rotl_iff)

text \<open>Exclusive or of truth values, as an operator with its own algebra.\<close>

definition bxor :: "bool \<Rightarrow> bool \<Rightarrow> bool" where
  "bxor P Q \<longleftrightarrow> P \<noteq> Q"

lemma bxor_ac: "bxor P Q = bxor Q P" "bxor (bxor P Q) R = bxor P (bxor Q R)"
  "bxor P (bxor Q R) = bxor Q (bxor P R)"
  by (auto simp: bxor_def)

lemma bxor_cancel: "bxor P P \<longleftrightarrow> False" "bxor P (bxor P Q) \<longleftrightarrow> Q" "bxor P False \<longleftrightarrow> P" "bxor False P \<longleftrightarrow> P"
  by (auto simp: bxor_def)

lemma bit_xor_bxor: "bit (x XOR y :: 'a::len word) n \<longleftrightarrow> bxor (bit x n) (bit y n)"
  by (simp add: bit_xor_iff bxor_def)

section \<open>Lane-wise circuits\<close>

text \<open>
  A circuit built from bitwise operators computes every bit position (lane) independently.
  \<open>lane n m x y\<close> says that lane \<open>n\<close> of \<open>x\<close> carries the same bit as lane \<open>m\<close> of \<open>y\<close>; the
  two words may have different lengths. Every bitwise gate preserves it, so the behaviour
  of a circuit on one lane can be read off any other run of the same circuit.
\<close>

definition lane :: "nat \<Rightarrow> nat \<Rightarrow> 'a::len word \<Rightarrow> 'b::len word \<Rightarrow> bool" where
  "lane n m x y \<longleftrightarrow> n < LENGTH('a) \<and> m < LENGTH('b) \<and> (bit x n \<longleftrightarrow> bit y m)"

lemma lane_xor [lane_rules]: "lane n m x y \<Longrightarrow> lane n m x' y' \<Longrightarrow> lane n m (x XOR x') (y XOR y')"
  by (simp add: lane_def bit_pointwise)

lemma lane_and [lane_rules]: "lane n m x y \<Longrightarrow> lane n m x' y' \<Longrightarrow> lane n m (x AND x') (y AND y')"
  by (simp add: lane_def bit_pointwise)

lemma lane_or [lane_rules]: "lane n m x y \<Longrightarrow> lane n m x' y' \<Longrightarrow> lane n m (x OR x') (y OR y')"
  by (simp add: lane_def bit_pointwise)

lemma lane_not [lane_rules]: "lane n m x y \<Longrightarrow> lane n m (NOT x) (NOT y)"
  by (simp add: lane_def bit_pointwise)

lemma lane_Let_prod:
  "lane n m a b \<Longrightarrow> (\<And>x y. lane n m x y \<Longrightarrow> rel_prod A B (f x) (g y)) \<Longrightarrow> rel_prod A B (Let a f) (Let b g)"
  by (simp add: Let_def)

lemma lane_Let_list:
  "lane n m a b \<Longrightarrow> (\<And>x y. lane n m x y \<Longrightarrow> list_all2 A (f x) (g y)) \<Longrightarrow> list_all2 A (Let a f) (Let b g)"
  by (simp add: Let_def)

section \<open>Evaluation of bitwise expressions\<close>

text \<open>
  Rules that evaluate closed bitwise expressions digit by digit on the binary numerals; they
  are much faster than the arithmetic of the default simplifier set on long words.
\<close>

lemma word_numeral_xor [word_eval]:
  "(numeral m :: 'a::len word) XOR numeral n = (case xor_num m n of None \<Rightarrow> 0 | Some k \<Rightarrow> numeral k)"
proof -
  have "of_nat (numeral m XOR numeral n) = (of_nat (numeral m) XOR of_nat (numeral n) :: 'a word)"
    by (rule of_nat_xor_eq)
  then show ?thesis by (simp add: numeral_xor_num split: option.splits)
qed

lemma word_numeral_and [word_eval]:
  "(numeral m :: 'a::len word) AND numeral n = (case and_num m n of None \<Rightarrow> 0 | Some k \<Rightarrow> numeral k)"
proof -
  have "of_nat (numeral m AND numeral n) = (of_nat (numeral m) AND of_nat (numeral n) :: 'a word)"
    by (rule of_nat_and_eq)
  then show ?thesis by (simp add: numeral_and_num split: option.splits)
qed

lemma word_numeral_or [word_eval]: "(numeral m :: 'a::len word) OR numeral n = numeral (or_num m n)"
  by (metis of_nat_numeral of_nat_or_eq numeral_or_num)

lemma word_zero_gates [word_eval]:
  "0 XOR x = (x :: 'a::len word)" "x XOR 0 = x" "0 AND x = 0" "x AND 0 = 0" "0 OR x = x" "x OR 0 = x"
  by simp_all

lemmas num_gates [word_eval] =
  xor_num.simps and_num.simps or_num.simps option.case option.map

section \<open>Fixed-size arrays\<close>

text \<open>Lists of a fixed small length, as their elements.\<close>

lemma length8_cases:
  assumes "length xs = 8"
  obtains a b c d e f g h where "xs = [a, b, c, d, e, f, g, h]"
proof -
  from assms have "length xs = Suc (Suc (Suc (Suc (Suc (Suc (Suc (Suc 0)))))))" by simp
  then show ?thesis by (auto simp: length_Suc_conv intro: that)
qed

lemma nth8:
  "[a0, a1, a2, a3, a4, a5, a6, a7] ! 0 = a0" "[a0, a1, a2, a3, a4, a5, a6, a7] ! 1 = a1"
  "[a0, a1, a2, a3, a4, a5, a6, a7] ! 2 = a2" "[a0, a1, a2, a3, a4, a5, a6, a7] ! 3 = a3"
  "[a0, a1, a2, a3, a4, a5, a6, a7] ! 4 = a4" "[a0, a1, a2, a3, a4, a5, a6, a7] ! 5 = a5"
  "[a0, a1, a2, a3, a4, a5, a6, a7] ! 6 = a6" "[a0, a1, a2, a3, a4, a5, a6, a7] ! 7 = a7"
  by simp_all

lemma upt8: "[0..<8] = [0, 1, 2, 3, 4, 5, 6, 7::nat]"
  by (simp add: upt_rec)

lemma upt4: "[0..<4] = [0, 1, 2, 3::nat]"
  by (simp add: upt_rec)

lemma less8_cases: "(i::nat) < 8 \<longleftrightarrow> i \<in> {0, 1, 2, 3, 4, 5, 6, 7}"
  by auto

lemma less4_cases: "(i::nat) < 4 \<longleftrightarrow> i \<in> {0, 1, 2, 3}"
  by auto

text \<open>The invariant rule for a counted loop \<^verbatim>\<open>for (i = a; i < b; i++)\<close>.\<close>

lemma fold_upt_invariant:
  assumes "P a x" and "a \<le> b" and "\<And>i y. a \<le> i \<Longrightarrow> i < b \<Longrightarrow> P i y \<Longrightarrow> P (Suc i) (f i y)"
  shows "P b (fold f [a..<b] x)"
proof -
  have "P (a + n) (fold f [a..<a + n] x)" if "a + n \<le> b" for n
    using that assms(1,3) by (induction n) auto
  from this [of "b - a"] assms(2) show ?thesis by simp
qed

text \<open>\<^verbatim>\<open>memcpy(dst + off, src, len)\<close> for a source list of \<open>len\<close> elements.\<close>

definition memcpy :: "'a list \<Rightarrow> nat \<Rightarrow> 'a list \<Rightarrow> 'a list" where
  "memcpy dst off src = take off dst @ src @ drop (off + length src) dst"

lemma length_memcpy [simp]:
  "off + length src \<le> length dst \<Longrightarrow> length (memcpy dst off src) = length dst"
  by (simp add: memcpy_def)

end
