(* ===== verification/Bytes.thy ===== *)
theory Bytes
  imports Prelude
begin

text \<open>
  Byte encodings of machine words: the little- and big-endian readers and writers of
  \<^verbatim>\<open>src/algo/sph_types.h\<close> in the byte-by-byte form they have on every platform, and the general
  encodings \<open>le_word\<close>, \<open>le_bytes\<close>, \<open>be_word\<close>, \<open>be_bytes\<close> they are instances of.
\<close>

section \<open>General encodings\<close>

primrec le_word :: "bytes \<Rightarrow> 'a::len word" where
  "le_word [] = 0"
| "le_word (b # bs) = ucast b OR push_bit 8 (le_word bs)"

definition le_bytes :: "nat \<Rightarrow> 'a::len word \<Rightarrow> bytes" where
  "le_bytes k w = map (\<lambda>i. ucast (drop_bit (8 * i) w)) [0..<k]"

definition be_word :: "bytes \<Rightarrow> 'a::len word" where
  "be_word bs = le_word (rev bs)"

definition be_bytes :: "nat \<Rightarrow> 'a::len word \<Rightarrow> bytes" where
  "be_bytes k w = rev (le_bytes k w)"

lemma length_le_bytes [simp]: "length (le_bytes k w) = k" "length (be_bytes k w) = k"
  by (simp_all add: le_bytes_def be_bytes_def)

lemma bit_le_word:
  "bit (le_word bs :: 'a::len word) n \<longleftrightarrow>
    n < LENGTH('a) \<and> n div 8 < length bs \<and> bit (bs ! (n div 8)) (n mod 8)"
proof (induction bs arbitrary: n)
  case (Cons b bs)
  show ?case
  proof (cases "n < 8")
    case True
    then show ?thesis by (auto simp: bit_or_iff bit_unsigned_iff bit_push_bit_iff dest: bit_imp_le_length)
  next
    case False
    then have "n div 8 = Suc ((n - 8) div 8)" and "n mod 8 = (n - 8) mod 8"
      by (simp_all add: div_if mod_if)
    moreover have "\<not> bit b n" using False by (auto dest: bit_imp_le_length)
    ultimately show ?thesis
      using False Cons.IH [of "n - 8"] by (auto simp: bit_or_iff bit_unsigned_iff bit_push_bit_iff)
  qed
qed simp

lemma bit_le_bytes:
  "i < k \<Longrightarrow> j < 8 \<Longrightarrow> bit (le_bytes k w ! i) j \<longleftrightarrow> bit (w :: 'a::len word) (8 * i + j)"
  by (auto simp: le_bytes_def bit_unsigned_iff bit_drop_bit_eq ac_simps)

lemma le_word_bytes: "8 * k = LENGTH('a) \<Longrightarrow> le_word (le_bytes k w) = (w :: 'a::len word)"
  by (rule word_bits_eqI) (simp add: bit_le_word bit_le_bytes less_mult_imp_div_less mult.commute)

lemma le_bytes_word: "8 * length bs = LENGTH('a) \<Longrightarrow> le_bytes (length bs) (le_word bs :: 'a::len word) = bs"
  by (intro nth_equalityI word_bits_eqI) (simp_all add: bit_le_bytes bit_le_word)

lemma be_word_bytes: "8 * k = LENGTH('a) \<Longrightarrow> be_word (be_bytes k w) = (w :: 'a::len word)"
  by (simp add: be_word_def be_bytes_def le_word_bytes)

lemma be_bytes_word: "8 * length bs = LENGTH('a) \<Longrightarrow> be_bytes (length bs) (be_word bs :: 'a::len word) = bs"
  using le_bytes_word [of "rev bs", where 'a = 'a] by (simp add: be_word_def be_bytes_def)

lemma le_word_xor:
  "length as = length bs \<Longrightarrow> le_word (map2 (XOR) as bs) = le_word as XOR (le_word bs :: 'a::len word)"
  by (rule word_bits_eqI) (auto simp: bit_le_word bit_xor_iff)

lemma le_word_zeros: "le_word (replicate k 0) = 0"
  by (rule word_bits_eqI) (simp add: bit_le_word)

lemma le_word_append_zeros: "le_word (bs @ replicate k 0) = le_word bs"
  by (rule word_bits_eqI) (auto simp: bit_le_word nth_append)

text \<open>The \<open>i\<close>-th block of \<open>k\<close> bytes.\<close>

definition chunk :: "nat \<Rightarrow> nat \<Rightarrow> bytes \<Rightarrow> bytes" where
  "chunk k i xs = take k (drop (k * i) xs)"

section \<open>The readers and writers of sph\_types.h\<close>

definition sph_dec32le :: "bytes \<Rightarrow> u32" where
  "sph_dec32le src = ucast (src ! 0) OR push_bit 8 (ucast (src ! 1)) OR push_bit 16 (ucast (src ! 2))
    OR push_bit 24 (ucast (src ! 3))"

definition sph_dec32be :: "bytes \<Rightarrow> u32" where
  "sph_dec32be src = push_bit 24 (ucast (src ! 0)) OR push_bit 16 (ucast (src ! 1)) OR push_bit 8 (ucast (src ! 2))
    OR ucast (src ! 3)"

definition sph_enc32le :: "u32 \<Rightarrow> bytes" where
  "sph_enc32le val = [ucast val, ucast (drop_bit 8 val), ucast (drop_bit 16 val), ucast (drop_bit 24 val)]"

definition sph_enc32be :: "u32 \<Rightarrow> bytes" where
  "sph_enc32be val = [ucast (drop_bit 24 val), ucast (drop_bit 16 val), ucast (drop_bit 8 val), ucast val]"

definition sph_dec64le :: "bytes \<Rightarrow> u64" where
  "sph_dec64le src = ucast (src ! 0) OR push_bit 8 (ucast (src ! 1)) OR push_bit 16 (ucast (src ! 2))
    OR push_bit 24 (ucast (src ! 3)) OR push_bit 32 (ucast (src ! 4)) OR push_bit 40 (ucast (src ! 5))
    OR push_bit 48 (ucast (src ! 6)) OR push_bit 56 (ucast (src ! 7))"

definition sph_dec64be :: "bytes \<Rightarrow> u64" where
  "sph_dec64be src = push_bit 56 (ucast (src ! 0)) OR push_bit 48 (ucast (src ! 1)) OR push_bit 40 (ucast (src ! 2))
    OR push_bit 32 (ucast (src ! 3)) OR push_bit 24 (ucast (src ! 4)) OR push_bit 16 (ucast (src ! 5))
    OR push_bit 8 (ucast (src ! 6)) OR ucast (src ! 7)"

definition sph_enc64le :: "u64 \<Rightarrow> bytes" where
  "sph_enc64le val = [ucast val, ucast (drop_bit 8 val), ucast (drop_bit 16 val), ucast (drop_bit 24 val),
    ucast (drop_bit 32 val), ucast (drop_bit 40 val), ucast (drop_bit 48 val), ucast (drop_bit 56 val)]"

definition sph_enc64be :: "u64 \<Rightarrow> bytes" where
  "sph_enc64be val = [ucast (drop_bit 56 val), ucast (drop_bit 48 val), ucast (drop_bit 40 val),
    ucast (drop_bit 32 val), ucast (drop_bit 24 val), ucast (drop_bit 16 val), ucast (drop_bit 8 val), ucast val]"

lemma take4_conv: "4 \<le> length xs \<Longrightarrow> take 4 xs = [xs ! 0, xs ! 1, xs ! 2, xs ! 3]"
  by (rule nth_equalityI) (auto simp: less_Suc_eq numeral_eq_Suc)

lemma take8_conv:
  "8 \<le> length xs \<Longrightarrow> take 8 xs = [xs ! 0, xs ! 1, xs ! 2, xs ! 3, xs ! 4, xs ! 5, xs ! 6, xs ! 7]"
  by (rule nth_equalityI) (auto simp: less_Suc_eq numeral_eq_Suc)

lemma sph_dec32_conv:
  assumes "4 \<le> length src"
  shows "sph_dec32le src = le_word (take 4 src)" "sph_dec32be src = be_word (take 4 src)"
  unfolding take4_conv [OF assms] be_word_def sph_dec32le_def sph_dec32be_def
  by (simp_all add: push_bit_or push_bit_push_bit ac_simps)

lemma sph_dec64_conv:
  assumes "8 \<le> length src"
  shows "sph_dec64le src = le_word (take 8 src)" "sph_dec64be src = be_word (take 8 src)"
  unfolding take8_conv [OF assms] be_word_def sph_dec64le_def sph_dec64be_def
  by (simp_all add: push_bit_or push_bit_push_bit ac_simps)

lemma sph_enc32_conv: "sph_enc32le val = le_bytes 4 val" "sph_enc32be val = be_bytes 4 val"
  by (simp_all add: sph_enc32le_def sph_enc32be_def le_bytes_def be_bytes_def upt_rec)

lemma sph_enc64_conv: "sph_enc64le val = le_bytes 8 val" "sph_enc64be val = be_bytes 8 val"
  by (simp_all add: sph_enc64le_def sph_enc64be_def le_bytes_def be_bytes_def upt_rec)

lemma length_sph_enc [simp]:
  "length (sph_enc32le v) = 4" "length (sph_enc32be v) = 4" "length (sph_enc64le w) = 8" "length (sph_enc64be w) = 8"
  by (simp_all add: sph_enc32_conv sph_enc64_conv)

section \<open>Truncation and rotation\<close>

definition SPH_T32 :: "u32 \<Rightarrow> u32" where
  "SPH_T32 x = x AND 0xFFFFFFFF"

definition SPH_ROTL32 :: "u32 \<Rightarrow> nat \<Rightarrow> u32" where
  "SPH_ROTL32 x n = SPH_T32 (push_bit n x OR drop_bit (32 - n) x)"

definition SPH_ROTR32 :: "u32 \<Rightarrow> nat \<Rightarrow> u32" where
  "SPH_ROTR32 x n = SPH_ROTL32 x (32 - n)"

definition SPH_T64 :: "u64 \<Rightarrow> u64" where
  "SPH_T64 x = x AND 0xFFFFFFFFFFFFFFFF"

definition SPH_ROTL64 :: "u64 \<Rightarrow> nat \<Rightarrow> u64" where
  "SPH_ROTL64 x n = SPH_T64 (push_bit n x OR drop_bit (64 - n) x)"

definition SPH_ROTR64 :: "u64 \<Rightarrow> nat \<Rightarrow> u64" where
  "SPH_ROTR64 x n = SPH_ROTL64 x (64 - n)"

lemma SPH_T_id [simp]: "SPH_T32 x = x" "SPH_T64 y = y"
proof -
  have "(0xFFFFFFFF :: u32) = - 1" "(0xFFFFFFFFFFFFFFFF :: u64) = - 1" by simp_all
  then show "SPH_T32 x = x" "SPH_T64 y = y" by (simp_all only: SPH_T32_def SPH_T64_def and.right_neutral)
qed

lemma SPH_ROT_conv:
  "0 < n \<Longrightarrow> n < 32 \<Longrightarrow> SPH_ROTL32 x n = word_rotl n x"
  "0 < n \<Longrightarrow> n < 64 \<Longrightarrow> SPH_ROTL64 y n = word_rotl n y"
  using word_rotl_alt [where 'a = 32, of n x] word_rotl_alt [where 'a = 64, of n y]
  by (simp_all add: SPH_ROTL32_def SPH_ROTL64_def)

lemma SPH_ROTR_conv:
  "0 < n \<Longrightarrow> n < 32 \<Longrightarrow> SPH_ROTR32 x n = word_rotr n x"
  "0 < n \<Longrightarrow> n < 64 \<Longrightarrow> SPH_ROTR64 y n = word_rotr n y"
  by (simp_all add: SPH_ROTR32_def SPH_ROTR64_def SPH_ROT_conv word_rotl_eq_word_rotr)

section \<open>The little-endian readers and writers of common.h\<close>

definition ReadLE16 :: "bytes \<Rightarrow> u16" where "ReadLE16 ptr = le_word (take 2 ptr)"
definition ReadLE32 :: "bytes \<Rightarrow> u32" where "ReadLE32 ptr = le_word (take 4 ptr)"
definition WriteLE16 :: "u16 \<Rightarrow> bytes" where "WriteLE16 x = le_bytes 2 x"
definition WriteLE32 :: "u32 \<Rightarrow> bytes" where "WriteLE32 x = le_bytes 4 x"
definition WriteLE64 :: "u64 \<Rightarrow> bytes" where "WriteLE64 x = le_bytes 8 x"

end
