(* ===== verification/Arith_Uint256.thy ===== *)
theory Arith_Uint256
  imports Bytes
begin

text \<open>
  \<^verbatim>\<open>src/arith_uint256.h\<close> and \<^verbatim>\<open>src/arith_uint256.cpp\<close>: the 256-bit unsigned integers of the consensus code.
  A \<^verbatim>\<open>base_uint<256>\<close> is the array \<^verbatim>\<open>pn\<close> of eight 32-bit limbs, least significant first, here a list; a
  loop over the limbs with a 64-bit carry is a recursion along the list. Division throws \<^verbatim>\<open>uint_error\<close> on a
  zero divisor (\<open>None\<close>); \<^verbatim>\<open>GetCompact\<close> has two assertions (\<open>None\<close> when one fails).

  The abstraction is the number \<open>uval\<close> that the limbs represent: each operation computes its arithmetic
  counterpart modulo \<open>2 ^ 256\<close>.
\<close>

section \<open>The operations\<close>

type_synonym base_uint = "u32 list"

definition WIDTH :: nat where
  "WIDTH = 8"

definition base_uint_of :: "u64 \<Rightarrow> base_uint" where
  "base_uint_of b = [ucast b, ucast (drop_bit 32 b)] @ replicate (WIDTH - 2) 0"

definition uint_is_zero :: "base_uint \<Rightarrow> bool" where
  "uint_is_zero pn = (\<forall>p \<in> set pn. p = 0)"

definition uint_not :: "base_uint \<Rightarrow> base_uint" where
  "uint_not pn = map (\<lambda>p. NOT p) pn"

definition uint_xor :: "base_uint \<Rightarrow> base_uint \<Rightarrow> base_uint" where
  "uint_xor pn b = map2 (XOR) pn b"

definition uint_and :: "base_uint \<Rightarrow> base_uint \<Rightarrow> base_uint" where
  "uint_and pn b = map2 (AND) pn b"

definition uint_or :: "base_uint \<Rightarrow> base_uint \<Rightarrow> base_uint" where
  "uint_or pn b = map2 (OR) pn b"

text \<open>The operators on a 64-bit operand touch the two low limbs only.\<close>

definition uint_xor64 :: "base_uint \<Rightarrow> u64 \<Rightarrow> base_uint" where
  "uint_xor64 pn b = (pn[0 := pn ! 0 XOR ucast b])[1 := pn ! 1 XOR ucast (drop_bit 32 b)]"

definition uint_or64 :: "base_uint \<Rightarrow> u64 \<Rightarrow> base_uint" where
  "uint_or64 pn b = (pn[0 := pn ! 0 OR ucast b])[1 := pn ! 1 OR ucast (drop_bit 32 b)]"

fun uint_add_loop :: "u64 \<Rightarrow> u32 list \<Rightarrow> u32 list \<Rightarrow> u32 list" where
  "uint_add_loop carry (p # ps) (b # bs) =
    (let n = carry + ucast p + ucast b
     in ucast (n AND 0xffffffff) # uint_add_loop (drop_bit 32 n) ps bs)"
| "uint_add_loop carry _ _ = []"

definition uint_add :: "base_uint \<Rightarrow> base_uint \<Rightarrow> base_uint" where
  "uint_add pn b = uint_add_loop 0 pn b"

primrec uint_inc :: "base_uint \<Rightarrow> base_uint" where
  "uint_inc [] = []"
| "uint_inc (p # ps) = (let p = p + 1 in if p = 0 then p # uint_inc ps else p # ps)"

primrec uint_dec :: "base_uint \<Rightarrow> base_uint" where
  "uint_dec [] = []"
| "uint_dec (p # ps) = (let p = p - 1 in if p = - 1 then p # uint_dec ps else p # ps)"

definition uint_neg :: "base_uint \<Rightarrow> base_uint" where
  "uint_neg pn = uint_inc (uint_not pn)"

definition uint_sub :: "base_uint \<Rightarrow> base_uint \<Rightarrow> base_uint" where
  "uint_sub pn b = uint_add pn (uint_neg b)"

definition uint_add64 :: "base_uint \<Rightarrow> u64 \<Rightarrow> base_uint" where
  "uint_add64 pn b64 = uint_add pn (base_uint_of b64)"

definition uint_sub64 :: "base_uint \<Rightarrow> u64 \<Rightarrow> base_uint" where
  "uint_sub64 pn b64 = uint_add pn (uint_neg (base_uint_of b64))"

definition uint_shl_step :: "base_uint \<Rightarrow> nat \<Rightarrow> nat \<Rightarrow> nat \<Rightarrow> base_uint \<Rightarrow> base_uint" where
  "uint_shl_step a k shift i pn =
    (let pn = (if i + k + 1 < WIDTH \<and> shift \<noteq> 0
               then pn[i + k + 1 := pn ! (i + k + 1) OR drop_bit (32 - shift) (a ! i)] else pn)
     in if i + k < WIDTH then pn[i + k := pn ! (i + k) OR push_bit shift (a ! i)] else pn)"

definition uint_shl :: "base_uint \<Rightarrow> nat \<Rightarrow> base_uint" where
  "uint_shl a shift =
    (let k = shift div 32; shift = shift mod 32
     in fold (uint_shl_step a k shift) [0..<WIDTH] (replicate WIDTH 0))"

definition uint_shr_step :: "base_uint \<Rightarrow> nat \<Rightarrow> nat \<Rightarrow> nat \<Rightarrow> base_uint \<Rightarrow> base_uint" where
  "uint_shr_step a k shift i pn =
    (let pn = (if i \<ge> k + 1 \<and> shift \<noteq> 0
               then pn[i - k - 1 := pn ! (i - k - 1) OR push_bit (32 - shift) (a ! i)] else pn)
     in if i \<ge> k then pn[i - k := pn ! (i - k) OR drop_bit shift (a ! i)] else pn)"

definition uint_shr :: "base_uint \<Rightarrow> nat \<Rightarrow> base_uint" where
  "uint_shr a shift =
    (let k = shift div 32; shift = shift mod 32
     in fold (uint_shr_step a k shift) [0..<WIDTH] (replicate WIDTH 0))"

primrec uint_mul32_loop :: "u64 \<Rightarrow> u32 \<Rightarrow> u32 list \<Rightarrow> u32 list" where
  "uint_mul32_loop carry b32 [] = []"
| "uint_mul32_loop carry b32 (p # ps) =
    (let n = carry + ucast b32 * ucast p
     in ucast (n AND 0xffffffff) # uint_mul32_loop (drop_bit 32 n) b32 ps)"

definition uint_mul32 :: "base_uint \<Rightarrow> u32 \<Rightarrow> base_uint" where
  "uint_mul32 pn b32 = uint_mul32_loop 0 b32 pn"

text \<open>The inner loop of the product for one limb \<open>a\<close>, over the limbs \<^verbatim>\<open>pn[i + j]\<close> from \<open>i = 0\<close> on.\<close>

fun uint_mul_row :: "u64 \<Rightarrow> u32 \<Rightarrow> u32 list \<Rightarrow> u32 list \<Rightarrow> u32 list" where
  "uint_mul_row carry a (p # ps) (b # bs) =
    (let n = carry + ucast p + ucast a * ucast b
     in ucast (n AND 0xffffffff) # uint_mul_row (drop_bit 32 n) a ps bs)"
| "uint_mul_row carry a _ _ = []"

definition uint_mul :: "base_uint \<Rightarrow> base_uint \<Rightarrow> base_uint" where
  "uint_mul a b =
    fold (\<lambda>j pn. take j pn @ uint_mul_row 0 (a ! j) (drop j pn) b) [0..<WIDTH] (replicate WIDTH 0)"

text \<open>
  That is the product with another object. In \<^verbatim>\<open>x *= x\<close> both operands are the object that \<^verbatim>\<open>*this = 0\<close> clears first, and the inner loop
  reads \<^verbatim>\<open>b.pn[i]\<close> from the limbs that it is writing; only the copy \<open>a\<close> keeps the value.
\<close>

definition uint_mul_self_step :: "base_uint \<Rightarrow> nat \<Rightarrow> nat \<Rightarrow> u64 \<times> base_uint \<Rightarrow> u64 \<times> base_uint" where
  "uint_mul_self_step a j i = (\<lambda>(carry, pn).
    let n = carry + ucast (pn ! (i + j)) + ucast (a ! j) * ucast (pn ! i)
    in (drop_bit 32 n, pn[i + j := ucast (n AND 0xffffffff)]))"

definition uint_mul_self :: "base_uint \<Rightarrow> base_uint" where
  "uint_mul_self a =
    fold (\<lambda>j pn. snd (fold (uint_mul_self_step a j) [0..<WIDTH - j] (0, pn))) [0..<WIDTH] (replicate WIDTH 0)"

primrec uint_compare_loop :: "base_uint \<Rightarrow> base_uint \<Rightarrow> nat \<Rightarrow> int" where
  "uint_compare_loop pn b 0 = 0"
| "uint_compare_loop pn b (Suc i) =
    (if pn ! i < b ! i then - 1 else if pn ! i > b ! i then 1 else uint_compare_loop pn b i)"

definition CompareTo :: "base_uint \<Rightarrow> base_uint \<Rightarrow> int" where
  "CompareTo pn b = uint_compare_loop pn b WIDTH"

definition EqualTo :: "base_uint \<Rightarrow> u64 \<Rightarrow> bool" where
  "EqualTo pn b =
    (if \<exists>i \<in> {2..<WIDTH}. pn ! i \<noteq> 0 then False
     else if pn ! 1 \<noteq> ucast (drop_bit 32 b) then False
     else if pn ! 0 \<noteq> ucast (b AND 0xffffffff) then False
     else True)"

primrec limb_bits :: "u32 \<Rightarrow> nat \<Rightarrow> nat" where
  "limb_bits p 0 = 1"
| "limb_bits p (Suc nbits) = (if p AND push_bit (Suc nbits) 1 \<noteq> 0 then Suc nbits + 1 else limb_bits p nbits)"

primrec uint_bits_loop :: "base_uint \<Rightarrow> nat \<Rightarrow> nat" where
  "uint_bits_loop pn 0 = 0"
| "uint_bits_loop pn (Suc pos) = (if pn ! pos \<noteq> 0 then 32 * pos + limb_bits (pn ! pos) 31 else uint_bits_loop pn pos)"

definition uint_bits :: "base_uint \<Rightarrow> nat" where
  "uint_bits pn = uint_bits_loop pn WIDTH"

definition uint_set_bit :: "base_uint \<Rightarrow> nat \<Rightarrow> base_uint" where
  "uint_set_bit pn shift = pn[shift div 32 := pn ! (shift div 32) OR push_bit (shift mod 32) 1]"

definition uint_div_step :: "nat \<Rightarrow> base_uint \<times> base_uint \<times> base_uint \<Rightarrow> base_uint \<times> base_uint \<times> base_uint" where
  "uint_div_step shift = (\<lambda>(num, div', pn).
    let (num, pn) = (if CompareTo num div' \<ge> 0 then (uint_sub num div', uint_set_bit pn shift) else (num, pn))
    in (num, uint_shr div' 1, pn))"

primrec uint_div_loop :: "nat \<Rightarrow> base_uint \<times> base_uint \<times> base_uint \<Rightarrow> base_uint \<times> base_uint \<times> base_uint" where
  "uint_div_loop 0 st = uint_div_step 0 st"
| "uint_div_loop (Suc shift) st = uint_div_loop shift (uint_div_step (Suc shift) st)"

definition uint_div :: "base_uint \<Rightarrow> base_uint \<Rightarrow> base_uint option" where
  "uint_div num b =
    (let num_bits = uint_bits num; div_bits = uint_bits b
     in if div_bits = 0 then None
        else if div_bits > num_bits then Some (base_uint_of 0)
        else
          (let shift = num_bits - div_bits;
               (num, div', pn) = uint_div_loop shift (num, uint_shl b shift, base_uint_of 0)
           in Some pn))"

definition GetLow64 :: "base_uint \<Rightarrow> u64" where
  "GetLow64 pn = ucast (pn ! 0) OR push_bit 32 (ucast (pn ! 1))"

section \<open>The compact encoding\<close>

text \<open>The value with the two flags \<^verbatim>\<open>pfNegative\<close> and \<^verbatim>\<open>pfOverflow\<close>.\<close>

definition SetCompact :: "u32 \<Rightarrow> base_uint \<times> bool \<times> bool" where
  "SetCompact nCompact =
    (let nSize = unat (drop_bit 24 nCompact);
         nWord = nCompact AND 0x007fffff;
         (nWord, v) =
           (if nSize \<le> 3 then
              (let nWord = drop_bit (8 * (3 - nSize)) nWord in (nWord, base_uint_of (ucast nWord)))
            else (nWord, uint_shl (base_uint_of (ucast nWord)) (8 * (nSize - 3))));
         fNegative = (nWord \<noteq> 0 \<and> nCompact AND 0x00800000 \<noteq> 0);
         fOverflow = (nWord \<noteq> 0 \<and> (nSize > 34 \<or> nWord > 0xff \<and> nSize > 33 \<or> nWord > 0xffff \<and> nSize > 32))
     in (v, fNegative, fOverflow))"

definition GetCompact :: "base_uint \<Rightarrow> bool \<Rightarrow> u32 option" where
  "GetCompact pn fNegative =
    (let nSize = (uint_bits pn + 7) div 8;
         nCompact =
           (if nSize \<le> 3 then ucast (push_bit (8 * (3 - nSize)) (GetLow64 pn))
            else ucast (GetLow64 (uint_shr pn (8 * (nSize - 3)))));
         (nCompact, nSize) =
           (if nCompact AND 0x00800000 \<noteq> 0 then (drop_bit 8 nCompact, nSize + 1) else (nCompact, nSize))
     in if nCompact AND NOT 0x007fffff \<noteq> 0 then None
        else if \<not> nSize < 256 then None
        else
          (let nCompact = nCompact OR push_bit 24 (of_nat nSize)
           in Some (nCompact OR (if fNegative \<and> nCompact AND 0x007fffff \<noteq> 0 then 0x00800000 else 0))))"

definition ArithToUint256 :: "base_uint \<Rightarrow> bytes" where
  "ArithToUint256 a = concat (map (\<lambda>x. le_bytes 4 (a ! x)) [0..<WIDTH])"

definition UintToArith256 :: "bytes \<Rightarrow> base_uint" where
  "UintToArith256 a = map (\<lambda>x. le_word (take 4 (drop (x * 4) a))) [0..<WIDTH]"

section \<open>The number that the limbs represent\<close>

primrec uval :: "u32 list \<Rightarrow> nat" where
  "uval [] = 0"
| "uval (p # ps) = unat p + 2 ^ 32 * uval ps"

lemma uval_append: "uval (xs @ ys) = uval xs + 2 ^ (32 * length xs) * uval ys"
  by (induction xs) (simp_all add: algebra_simps power_add)

lemma uval_replicate_0 [simp]: "uval (replicate n 0) = 0"
  by (induction n) simp_all

lemma uval_bound: "uval xs < 2 ^ (32 * length xs)"
proof (induction xs)
  case (Cons x xs)
  have "unat x < 2 ^ 32" using unsigned_less [of x] by simp
  moreover have "Suc (uval xs) \<le> 2 ^ (32 * length xs)" using Cons by simp
  then have "2 ^ 32 * Suc (uval xs) \<le> 2 ^ 32 * 2 ^ (32 * length xs)" by (rule mult_le_mono2)
  ultimately show ?case by (simp add: power_add)
qed simp

text \<open>One step of a carry loop: the low half of \<open>n\<close> is the limb, the high half the next carry.\<close>

lemma uval_carry_step:
  assumes "uval ys = (unat (drop_bit 32 n) + r) mod 2 ^ (32 * k)"
  shows "uval (ucast ((n :: u64) AND 0xffffffff) # ys) = (unat n + 2 ^ 32 * r) mod 2 ^ (32 * Suc k)"
proof -
  have low: "unat (ucast (n AND 0xffffffff) :: u32) = unat n mod 2 ^ 32"
  proof -
    have "n AND 0xffffffff = take_bit 32 n" by (simp add: take_bit_eq_mask mask_numeral)
    then show ?thesis by (simp add: unsigned_ucast_eq take_bit_eq_mod unat_mod_distrib)
  qed
  have high: "unat (drop_bit 32 n) = unat n div 2 ^ 32"
    by (simp add: drop_bit_eq_div unat_div_distrib)
  have "(unat n + 2 ^ 32 * r) mod (2 ^ 32 * 2 ^ (32 * k)) =
      2 ^ 32 * ((unat n + 2 ^ 32 * r) div 2 ^ 32 mod 2 ^ (32 * k)) + (unat n + 2 ^ 32 * r) mod 2 ^ 32"
    by (rule mod_mult2_eq)
  also have "\<dots> = 2 ^ 32 * ((unat n div 2 ^ 32 + r) mod 2 ^ (32 * k)) + unat n mod 2 ^ 32"
    by (simp add: add.commute)
  finally show ?thesis using assms by (simp add: low high power_add)
qed

section \<open>Addition, subtraction, products\<close>

lemma unat_ucast_64 [simp]: "unat (ucast (x :: u32) :: u64) = unat x"
  by (simp add: unsigned_ucast_eq take_bit_nat_eq_self_iff less_le_trans [OF unsigned_less])

lemma unat_less_32: "unat (x :: u32) < 2 ^ 32"
  using unsigned_less [of x] by simp

lemma unat_drop_32: "unat (drop_bit 32 (n :: u64)) < 2 ^ 32"
proof -
  have "unat n < 2 ^ 32 * 2 ^ 32" using unsigned_less [of n] by simp
  then show ?thesis
    by (simp add: drop_bit_eq_div unat_div_distrib less_mult_imp_div_less)
qed

lemma unat_add3:
  assumes "unat a + unat b + unat c < 2 ^ 64"
  shows "unat (a + b + c :: u64) = unat a + unat b + unat c"
  using assms by (simp add: unat_word_ariths)

lemma length_add_loop [simp]: "length ps = length bs \<Longrightarrow> length (uint_add_loop c ps bs) = length bs"
  by (induction c ps bs rule: uint_add_loop.induct) (simp_all add: Let_def)

lemma uval_add_loop:
  "length ps = length bs \<Longrightarrow> unat c < 2 ^ 32 \<Longrightarrow>
    uval (uint_add_loop c ps bs) = (unat c + uval ps + uval bs) mod 2 ^ (32 * length ps)"
proof (induction c ps bs rule: uint_add_loop.induct)
  case (1 c p ps b bs)
  define n where "n = c + ucast p + ucast b"
  have n: "unat n = unat c + unat p + unat b"
    unfolding n_def using 1(3) unat_less_32 [of p] unat_less_32 [of b] by (subst unat_add3) simp_all
  have "uval (uint_add_loop (drop_bit 32 n) ps bs) =
      (unat (drop_bit 32 n) + (uval ps + uval bs)) mod 2 ^ (32 * length ps)"
    using 1(1) [OF n_def] 1(2) unat_drop_32 by (simp add: add.assoc)
  note step = uval_carry_step [OF this]
  have "uint_add_loop c (p # ps) (b # bs) = ucast (n AND 0xffffffff) # uint_add_loop (drop_bit 32 n) ps bs"
    by (simp only: uint_add_loop.simps Let_def n_def)
  then show ?case unfolding n using step by (simp add: n algebra_simps)
qed simp_all

lemma uval_add:
  "length a = length b \<Longrightarrow> uval (uint_add a b) = (uval a + uval b) mod 2 ^ (32 * length a)"
  by (simp add: uint_add_def uval_add_loop)

lemma length_uint_add [simp]: "length a = length b \<Longrightarrow> length (uint_add a b) = length b"
  by (simp add: uint_add_def)

lemma length_uint_inc [simp]: "length (uint_inc ps) = length ps"
  by (induction ps) (simp_all add: Let_def)

lemma length_uint_not [simp]: "length (uint_not ps) = length ps"
  by (simp add: uint_not_def)

lemma length_uint_neg [simp]: "length (uint_neg ps) = length ps"
  by (simp add: uint_neg_def)

lemma unat_plus_one_32: "(p :: u32) + 1 \<noteq> 0 \<Longrightarrow> unat (p + 1) = unat p + 1"
  using unatSuc [of p] by (simp add: add.commute)

lemma uval_inc: "uval (uint_inc ps) = (uval ps + 1) mod 2 ^ (32 * length ps)"
proof (induction ps)
  case (Cons p ps)
  show ?case
  proof (cases "p + 1 = 0")
    case True
    then have "p = - 1" by (simp add: eq_neg_iff_add_eq_0)
    then have "unat p = 2 ^ 32 - 1" by (simp add: unsigned_minus_1_eq_mask mask_eq_exp_minus_1)
    then have "uval (p # ps) + 1 = 2 ^ 32 * (uval ps + 1)" by simp
    moreover have "uval (uint_inc (p # ps)) = 2 ^ 32 * ((uval ps + 1) mod 2 ^ (32 * length ps))"
      using True Cons by (simp add: Let_def)
    ultimately show ?thesis by (simp only: mult_mod_right power_add list.size add_Suc_right add_0_right mult_Suc_right)
  next
    case False
    have "uval ((p + 1) # ps) < 2 ^ (32 * Suc (length ps))" using uval_bound [of "(p + 1) # ps"] by simp
    with False show ?thesis by (simp add: Let_def unat_plus_one_32)
  qed
qed simp

lemma unat_not_32: "unat (NOT (p :: u32)) = 2 ^ 32 - 1 - unat p"
proof -
  have "NOT p = - 1 - p" by (simp add: not_eq_complement)
  then show ?thesis using unat_sub [of p "- 1"] by (simp add: unsigned_minus_1_eq_mask mask_eq_exp_minus_1)
qed

lemma uval_not: "uval (uint_not ps) + uval ps + 1 = 2 ^ (32 * length ps)"
proof (induction ps)
  case (Cons p ps)
  have "unat (NOT p) + unat p + 1 = 2 ^ 32" using unat_less_32 [of p] by (simp add: unat_not_32)
  with Cons show ?case by (simp add: uint_not_def power_add algebra_simps)
qed (simp add: uint_not_def)

lemma uval_neg: "uval (uint_neg ps) = (2 ^ (32 * length ps) - uval ps) mod 2 ^ (32 * length ps)"
proof -
  have "uval (uint_not ps) + 1 = 2 ^ (32 * length ps) - uval ps" using uval_not [of ps] by simp
  then show ?thesis by (simp add: uint_neg_def uval_inc)
qed

lemma uval_sub:
  assumes "length a = length b"
  shows "uval (uint_sub a b) = (uval a + (2 ^ (32 * length a) - uval b)) mod 2 ^ (32 * length a)"
  using assms by (simp add: uint_sub_def uval_add uval_neg mod_add_right_eq)

lemma uval_sub_le:
  assumes "length a = length b" and "uval b \<le> uval a"
  shows "uval (uint_sub a b) = uval a - uval b"
proof -
  define M where "M = (2 ^ (32 * length a) :: nat)"
  have "uval a + (M - uval b) = uval a - uval b + M"
    using assms uval_bound [of b] by (simp add: M_def)
  moreover have "uval a - uval b < M" using uval_bound [of a] by (simp add: M_def)
  ultimately show ?thesis using uval_sub [OF assms(1)] by (simp flip: M_def)
qed

lemma length_uint_sub [simp]: "length a = length b \<Longrightarrow> length (uint_sub a b) = length b"
  by (simp add: uint_sub_def)

lemma limb_product_bound:
  assumes "a < 2 ^ 32" "b < 2 ^ 32" "c < 2 ^ 32" "d < (2 ^ 32 :: nat)"
  shows "c + d + a * b < 2 ^ 64"
proof -
  have "a * b \<le> (2 ^ 32 - 1) * (2 ^ 32 - 1)" using assms by (intro mult_le_mono) simp_all
  with assms show ?thesis by simp
qed

lemma unat_mul_carry:
  assumes "unat c < 2 ^ 32"
  shows "unat (c + ucast p + ucast a * ucast b :: u64) = unat c + unat (p :: u32) + unat (a :: u32) * unat (b :: u32)"
proof -
  have bound: "unat c + unat p + unat a * unat b < 2 ^ 64" for p :: u32
    using assms unat_less_32 limb_product_bound by blast
  from bound [of 0] have "unat (ucast a * ucast b :: u64) = unat a * unat b" by (simp add: unat_word_ariths)
  with bound [of p] show ?thesis by (subst unat_add3) simp_all
qed

lemma length_mul_row [simp]: "length ps \<le> length bs \<Longrightarrow> length (uint_mul_row c a ps bs) = length ps"
  by (induction c a ps bs rule: uint_mul_row.induct) (simp_all add: Let_def)

lemma uval_mul_row:
  "length ps \<le> length bs \<Longrightarrow> unat c < 2 ^ 32 \<Longrightarrow>
    uval (uint_mul_row c a ps bs) = (unat c + uval ps + unat a * uval bs) mod 2 ^ (32 * length ps)"
proof (induction c a ps bs rule: uint_mul_row.induct)
  case (1 c a p ps b bs)
  define n where "n = c + ucast p + ucast a * ucast b"
  have n: "unat n = unat c + unat p + unat a * unat b" unfolding n_def by (rule unat_mul_carry [OF 1(3)])
  have "uval (uint_mul_row (drop_bit 32 n) a ps bs) =
      (unat (drop_bit 32 n) + (uval ps + unat a * uval bs)) mod 2 ^ (32 * length ps)"
    using 1(1) [OF n_def] 1(2) unat_drop_32 by (simp add: add.assoc)
  note step = uval_carry_step [OF this]
  have "uint_mul_row c a (p # ps) (b # bs) = ucast (n AND 0xffffffff) # uint_mul_row (drop_bit 32 n) a ps bs"
    by (simp only: uint_mul_row.simps Let_def n_def)
  then show ?case using step by (simp add: n algebra_simps)
qed simp_all

lemma uval_take_drop: "j \<le> length xs \<Longrightarrow> uval xs = uval (take j xs) + 2 ^ (32 * j) * uval (drop j xs)"
  using uval_append [of "take j xs" "drop j xs"] by (simp add: min_def)

lemma uval_mul:
  assumes a: "length a = WIDTH" and b: "length b = WIDTH"
  shows "uval (uint_mul a b) = (uval a * uval b) mod 2 ^ 256 \<and> length (uint_mul a b) = WIDTH"
proof -
  define step where "step = (\<lambda>j pn. take j pn @ uint_mul_row 0 (a ! j) (drop j pn) b)"
  have "uval (fold step [0..<k] (replicate WIDTH 0)) = (uval (take k a) * uval b) mod 2 ^ 256
      \<and> length (fold step [0..<k] (replicate WIDTH 0)) = WIDTH" if "k \<le> WIDTH" for k
    using that
  proof (induction k)
    case (Suc k)
    define pn where "pn = fold step [0..<k] (replicate WIDTH 0)"
    have IH: "uval pn = (uval (take k a) * uval b) mod 2 ^ 256" "length pn = WIDTH" and k: "k < WIDTH"
      using Suc by (simp_all add: pn_def)
    define M where "M = (2 ^ (32 * (WIDTH - k)) :: nat)"
    have M: "2 ^ (32 * k) * M = (2 ^ 256 :: nat)"
    proof -
      have "32 * k + 32 * (WIDTH - k) = 256" using k by (simp add: WIDTH_def)
      then show ?thesis unfolding M_def by (simp only: flip: power_add)
    qed
    have row: "uval (uint_mul_row 0 (a ! k) (drop k pn) b) = (uval (drop k pn) + unat (a ! k) * uval b) mod M"
      using IH b by (simp add: uval_mul_row M_def)
    have "uval (step k pn) = uval (take k pn) + 2 ^ (32 * k) * ((uval (drop k pn) + unat (a ! k) * uval b) mod M)"
      using IH k by (simp add: step_def uval_append row)
    also have "\<dots> = uval (take k pn) + (2 ^ (32 * k) * (uval (drop k pn) + unat (a ! k) * uval b)) mod 2 ^ 256"
      by (simp add: mult_mod_right M)
    also have "\<dots> = (uval pn + 2 ^ (32 * k) * unat (a ! k) * uval b) mod 2 ^ 256"
    proof -
      have "uval (take k pn) < 2 ^ (32 * k)" using uval_bound [of "take k pn"] IH k by simp
      then have small: "uval (take k pn) + (2 ^ (32 * k) * x) mod 2 ^ 256 < 2 ^ 256" for x
      proof -
        have "(2 ^ (32 * k) * x) mod 2 ^ 256 = 2 ^ (32 * k) * (x mod M)" by (simp add: mult_mod_right M)
        also have "uval (take k pn) + \<dots> < 2 ^ (32 * k) * Suc (x mod M)" using \<open>uval (take k pn) < 2 ^ (32 * k)\<close> by simp
        also have "\<dots> \<le> 2 ^ (32 * k) * M" by (intro mult_le_mono2) (simp add: Suc_leI M_def)
        finally show ?thesis using M by simp
      qed
      have "uval (take k pn) + (2 ^ (32 * k) * (uval (drop k pn) + unat (a ! k) * uval b)) mod 2 ^ 256 =
          (uval (take k pn) + 2 ^ (32 * k) * (uval (drop k pn) + unat (a ! k) * uval b)) mod 2 ^ 256"
        using small by (metis mod_add_right_eq mod_less)
      also have "uval (take k pn) + 2 ^ (32 * k) * (uval (drop k pn) + unat (a ! k) * uval b) =
          uval pn + 2 ^ (32 * k) * unat (a ! k) * uval b"
        using uval_take_drop [of k pn] IH k by (simp add: algebra_simps)
      finally show ?thesis .
    qed
    also have "\<dots> = ((uval (take k a) + 2 ^ (32 * k) * unat (a ! k)) * uval b) mod 2 ^ 256"
      unfolding IH(1) add_mult_distrib by (rule mod_add_left_eq)
    also have "uval (take k a) + 2 ^ (32 * k) * unat (a ! k) = uval (take (Suc k) a)"
      using k a by (simp add: take_Suc_conv_app_nth uval_append)
    finally have "uval (step k pn) = (uval (take (Suc k) a) * uval b) mod 2 ^ 256" .
    moreover have "length (step k pn) = WIDTH" using IH b k by (simp add: step_def)
    ultimately show ?case by (simp add: pn_def)
  qed simp
  from this [of WIDTH] a show ?thesis by (simp add: uint_mul_def step_def)
qed

lemma uval_mul32_loop:
  "unat c < 2 ^ 32 \<Longrightarrow>
    uval (uint_mul32_loop c b ps) = (unat c + unat b * uval ps) mod 2 ^ (32 * length ps)"
proof (induction ps arbitrary: c)
  case (Cons p ps)
  define n where "n = c + ucast b * ucast p"
  have n: "unat n = unat c + unat b * unat p"
    using unat_mul_carry [OF Cons.prems, of 0 b p] by (simp add: n_def)
  have "uval (uint_mul32_loop (drop_bit 32 n) b ps) =
      (unat (drop_bit 32 n) + unat b * uval ps) mod 2 ^ (32 * length ps)"
    using Cons.IH unat_drop_32 by simp
  note step = uval_carry_step [OF this]
  have "uint_mul32_loop c b (p # ps) = ucast (n AND 0xffffffff) # uint_mul32_loop (drop_bit 32 n) b ps"
    by (simp only: uint_mul32_loop.simps Let_def n_def)
  then show ?case using step by (simp add: n algebra_simps)
qed simp

lemma length_mul32_loop [simp]: "length (uint_mul32_loop c b ps) = length ps"
  by (induction ps arbitrary: c) (simp_all add: Let_def)

lemma uval_mul32: "uval (uint_mul32 pn b) = (uval pn * unat b) mod 2 ^ (32 * length pn)"
  by (simp add: uint_mul32_def uval_mul32_loop mult.commute)

lemma length_uint_mul32 [simp]: "length (uint_mul32 pn b) = length pn"
  by (simp add: uint_mul32_def)

section \<open>Bits and shifts\<close>

lemma bit_uval:
  "bit (uval ps) n \<longleftrightarrow> n div 32 < length ps \<and> bit (ps ! (n div 32)) (n mod 32)"
proof (induction ps arbitrary: n)
  case (Cons p ps)
  have "uval (p # ps) = unat p + push_bit 32 (uval ps)" by (simp add: push_bit_eq_mult)
  also have "\<dots> = unat p OR push_bit 32 (uval ps)"
  proof (rule disjunctive_add_eq_or, rule bit_eqI)
    fix n
    show "bit (unat p AND push_bit 32 (uval ps)) n \<longleftrightarrow> bit (0::nat) n"
      by (auto simp: bit_and_iff bit_push_bit_iff bit_unsigned_iff dest: bit_imp_le_length)
  qed
  finally have or: "uval (p # ps) = unat p OR push_bit 32 (uval ps)" .
  show ?case
  proof (cases "n < 32")
    case True
    then show ?thesis unfolding or by (simp add: bit_or_iff bit_push_bit_iff bit_unsigned_iff)
  next
    case False
    then have "n div 32 = Suc ((n - 32) div 32)" and "n mod 32 = (n - 32) mod 32"
      by (simp_all add: le_div_geq le_mod_geq)
    moreover have "\<not> bit p n" using False by (auto dest: bit_imp_le_length)
    ultimately show ?thesis
      using False Cons.IH [of "n - 32"] unfolding or by (simp add: bit_or_iff bit_push_bit_iff bit_unsigned_iff)
  qed
qed simp

lemma uval_eqI: "length xs = length ys \<Longrightarrow> uval xs = uval ys \<Longrightarrow> xs = ys"
proof (induction xs ys rule: list_induct2)
  case (Cons x xs y ys)
  have "unat x = uval (x # xs) mod 2 ^ 32" "unat y = uval (y # ys) mod 2 ^ 32"
    using unat_less_32 by simp_all
  then have "unat x = unat y" by (simp only: Cons.prems)
  moreover from this Cons have "xs = ys" by simp
  ultimately show ?case by (simp add: word_unat_eq_iff)
qed simp

text \<open>The value of a limb list is determined by its bits.\<close>

lemma uval_bitI:
  assumes "length ps = WIDTH" and "\<And>i j. i < WIDTH \<Longrightarrow> j < 32 \<Longrightarrow> bit (ps ! i) j \<longleftrightarrow> bit m (32 * i + j)"
    and "m < 2 ^ 256"
  shows "uval ps = m"
proof (rule bit_eqI)
  fix n
  show "bit (uval ps) n \<longleftrightarrow> bit m n"
  proof (cases "n div 32 < WIDTH")
    case True
    then show ?thesis using assms(2) [of "n div 32" "n mod 32"] assms(1) by (simp add: bit_uval)
  next
    case False
    then have "256 \<le> n" by (simp add: WIDTH_def)
    then have "m < 2 ^ n" using assms(3) by (meson less_le_trans one_le_numeral power_increasing)
    then have "\<not> bit m n" by (simp add: bit_iff_odd)
    with False assms(1) show ?thesis by (simp add: bit_uval)
  qed
qed

lemma uint_shl_step_bits:
  assumes "length q = WIDTH"
  shows "length (uint_shl_step a k s t q) = WIDTH"
    and "m < WIDTH \<Longrightarrow> j < 32 \<Longrightarrow> bit (uint_shl_step a k s t q ! m) j \<longleftrightarrow>
      bit (q ! m) j \<or> m = t + k + 1 \<and> s \<noteq> 0 \<and> bit (a ! t) (32 - s + j) \<or> m = t + k \<and> s \<le> j \<and> bit (a ! t) (j - s)"
  using assms
  by (auto simp: uint_shl_step_def Let_def nth_list_update bit_or_iff bit_drop_bit_eq bit_push_bit_iff)

lemma shl_loop:
  assumes "s < 32" and "t \<le> WIDTH"
  shows "length (fold (uint_shl_step a k s) [0..<t] (replicate WIDTH 0)) = WIDTH \<and>
    (\<forall>m<WIDTH. \<forall>j<32. bit (fold (uint_shl_step a k s) [0..<t] (replicate WIDTH 0) ! m) j \<longleftrightarrow>
      (if s \<le> j then k \<le> m \<and> m - k < t \<and> bit (a ! (m - k)) (j - s)
       else k + 1 \<le> m \<and> m - k - 1 < t \<and> bit (a ! (m - k - 1)) (32 + j - s)))"
  using assms(2)
proof (induction t)
  case (Suc t)
  define q where "q = fold (uint_shl_step a k s) [0..<t] (replicate WIDTH 0)"
  have q: "length q = WIDTH" "\<And>m j. m < WIDTH \<Longrightarrow> j < 32 \<Longrightarrow> bit (q ! m) j \<longleftrightarrow>
    (if s \<le> j then k \<le> m \<and> m - k < t \<and> bit (a ! (m - k)) (j - s)
     else k + 1 \<le> m \<and> m - k - 1 < t \<and> bit (a ! (m - k - 1)) (32 + j - s))"
    using Suc by (simp_all add: q_def)
  have "bit (uint_shl_step a k s t q ! m) j \<longleftrightarrow>
    (if s \<le> j then k \<le> m \<and> m - k < Suc t \<and> bit (a ! (m - k)) (j - s)
     else k + 1 \<le> m \<and> m - k - 1 < Suc t \<and> bit (a ! (m - k - 1)) (32 + j - s))"
    if "m < WIDTH" "j < 32" for m j
  proof (cases "s \<le> j")
    case True
    have "\<not> bit (a ! t) (32 - s + j)" using True by (auto dest: bit_imp_le_length)
    moreover have "k \<le> m \<and> m - k < Suc t \<longleftrightarrow> k \<le> m \<and> m - k < t \<or> m = t + k" by auto
    ultimately show ?thesis using that True q(2) uint_shl_step_bits(2) [OF q(1)] by auto
  next
    case False
    have "k + 1 \<le> m \<and> m - k - 1 < Suc t \<longleftrightarrow> k + 1 \<le> m \<and> m - k - 1 < t \<or> m = t + k + 1" by auto
    moreover have "32 - s + j = 32 + j - s" using assms(1) by simp
    ultimately show ?thesis using that False q(2) uint_shl_step_bits(2) [OF q(1)] by auto
  qed
  then show ?case using uint_shl_step_bits(1) [OF q(1)] by (simp flip: q_def)
qed simp

lemma length_uint_shl [simp]: "length (uint_shl a n) = WIDTH"
  using shl_loop [of "n mod 32" WIDTH] by (simp add: uint_shl_def Let_def)

lemma uval_shl:
  assumes "length a = WIDTH"
  shows "uval (uint_shl a n) = (uval a * 2 ^ n) mod 2 ^ 256"
proof (rule uval_bitI)
  fix i j assume i: "i < WIDTH" and j: "j < (32::nat)"
  define k where "k = n div 32"
  define s where "s = n mod 32"
  have n: "n = 32 * k + s" and s: "s < 32" by (simp_all add: k_def s_def)
  have "32 * i + j < 256" using i j by (simp add: WIDTH_def)
  then have "bit (uval a * 2 ^ n mod 2 ^ 256) (32 * i + j) \<longleftrightarrow> n \<le> 32 * i + j \<and> bit (uval a) (32 * i + j - n)"
    by (simp only: flip: push_bit_eq_mult take_bit_eq_mod) (simp add: bit_take_bit_iff bit_push_bit_iff)
  also have "\<dots> \<longleftrightarrow> (if s \<le> j then k \<le> i \<and> bit (a ! (i - k)) (j - s)
       else k + 1 \<le> i \<and> bit (a ! (i - k - 1)) (32 + j - s))"
  proof (cases "s \<le> j")
    case True
    then have "n \<le> 32 * i + j \<longleftrightarrow> k \<le> i" using n s j by auto
    moreover have "32 * i + j - n = 32 * (i - k) + (j - s)" if "k \<le> i" using that True n by (simp add: diff_mult_distrib2)
    moreover have "(32 * (i - k) + (j - s)) div 32 = i - k" "(32 * (i - k) + (j - s)) mod 32 = j - s" using j by simp_all
    moreover have "i - k < WIDTH" using i by simp
    ultimately show ?thesis using True assms by (auto simp: bit_uval)
  next
    case False
    then have "n \<le> 32 * i + j \<longleftrightarrow> k + 1 \<le> i" using n s j by auto
    moreover have "32 * i + j - n = 32 * (i - k - 1) + (32 + j - s)" if "k + 1 \<le> i"
    proof -
      from le_Suc_ex [OF that] obtain d where "i = k + 1 + d" by blast
      then show ?thesis using False n s by simp
    qed
    moreover have "(32 * (i - k - 1) + (32 + j - s)) div 32 = i - k - 1"
      "(32 * (i - k - 1) + (32 + j - s)) mod 32 = 32 + j - s" using False by simp_all
    ultimately show ?thesis using False i assms by (auto simp: bit_uval)
  qed
  also have "\<dots> \<longleftrightarrow> bit (uint_shl a n ! i) j"
    using shl_loop [OF s, of WIDTH a k] i j unfolding uint_shl_def Let_def k_def [symmetric] s_def [symmetric] by auto
  finally show "bit (uint_shl a n ! i) j = bit (uval a * 2 ^ n mod 2 ^ 256) (32 * i + j)" by simp
qed simp_all

lemma uint_shr_step_bits:
  assumes "length q = WIDTH" and "t < WIDTH" and "s < 32"
  shows "length (uint_shr_step a k s t q) = WIDTH"
    and "m < WIDTH \<Longrightarrow> j < 32 \<Longrightarrow> bit (uint_shr_step a k s t q ! m) j \<longleftrightarrow>
      bit (q ! m) j \<or> m + k + 1 = t \<and> s \<noteq> 0 \<and> 32 - s \<le> j \<and> bit (a ! t) (j - (32 - s)) \<or> m + k = t \<and> bit (a ! t) (s + j)"
  using assms
  by (auto simp: uint_shr_step_def Let_def nth_list_update bit_or_iff bit_drop_bit_eq bit_push_bit_iff)

lemma shr_loop:
  assumes "s < 32" and "t \<le> WIDTH"
  shows "length (fold (uint_shr_step a k s) [0..<t] (replicate WIDTH 0)) = WIDTH \<and>
    (\<forall>m<WIDTH. \<forall>j<32. bit (fold (uint_shr_step a k s) [0..<t] (replicate WIDTH 0) ! m) j \<longleftrightarrow>
      m + k < t \<and> bit (a ! (m + k)) (s + j) \<or>
      m + k + 1 < t \<and> s \<noteq> 0 \<and> 32 - s \<le> j \<and> bit (a ! (m + k + 1)) (j - (32 - s)))"
  using assms(2)
proof (induction t)
  case (Suc t)
  define q where "q = fold (uint_shr_step a k s) [0..<t] (replicate WIDTH 0)"
  have q: "length q = WIDTH" "\<And>m j. m < WIDTH \<Longrightarrow> j < 32 \<Longrightarrow> bit (q ! m) j \<longleftrightarrow>
      m + k < t \<and> bit (a ! (m + k)) (s + j) \<or>
      m + k + 1 < t \<and> s \<noteq> 0 \<and> 32 - s \<le> j \<and> bit (a ! (m + k + 1)) (j - (32 - s))"
    using Suc by (simp_all add: q_def)
  have t: "t < WIDTH" using Suc.prems by simp
  show ?case
    using uint_shr_step_bits [OF q(1) t assms(1)] q(2) by (auto simp: less_Suc_eq simp flip: q_def)
qed simp

lemma length_uint_shr [simp]: "length (uint_shr a n) = WIDTH"
  using shr_loop [of "n mod 32" WIDTH] by (simp add: uint_shr_def Let_def)

lemma uval_shr:
  assumes "length a = WIDTH"
  shows "uval (uint_shr a n) = uval a div 2 ^ n"
proof (rule uval_bitI)
  have bound: "uval a < 2 ^ 256" using uval_bound [of a] assms by (simp add: WIDTH_def)
  then show "uval a div 2 ^ n < 2 ^ 256" by (rule le_less_trans [rotated]) (rule div_le_dividend)
  fix i j assume i: "i < WIDTH" and j: "j < (32::nat)"
  define k where "k = n div 32"
  define s where "s = n mod 32"
  have n: "n = 32 * k + s" and s: "s < 32" by (simp_all add: k_def s_def)
  have pos: "(n + (32 * i + j)) div 32 = (if s + j < 32 then i + k else i + k + 1)"
    "(n + (32 * i + j)) mod 32 = (if s + j < 32 then s + j else j - (32 - s))"
  proof -
    have split: "n + (32 * i + j) = (if s + j < 32 then 32 * (i + k) + (s + j) else 32 * (i + k + 1) + (j - (32 - s)))"
      using n s j by simp
    have limb: "(32 * q + r) div 32 = q" "(32 * q + r) mod 32 = r" if "r < 32" for q r :: nat
      using that by simp_all
    show "(n + (32 * i + j)) div 32 = (if s + j < 32 then i + k else i + k + 1)"
      unfolding split using limb(1) [of "s + j" "i + k"] limb(1) [of "j - (32 - s)" "i + k + 1"] s j by auto
    show "(n + (32 * i + j)) mod 32 = (if s + j < 32 then s + j else j - (32 - s))"
      unfolding split using limb(2) [of "s + j" "i + k"] limb(2) [of "j - (32 - s)" "i + k + 1"] s j by auto
  qed
  have "bit (uval a div 2 ^ n) (32 * i + j) \<longleftrightarrow> bit (uval a) (n + (32 * i + j))"
    by (simp flip: drop_bit_eq_div add: bit_drop_bit_eq)
  also have "\<dots> \<longleftrightarrow> (if s + j < 32 then i + k < WIDTH \<and> bit (a ! (i + k)) (s + j)
      else i + k + 1 < WIDTH \<and> bit (a ! (i + k + 1)) (j - (32 - s)))"
    unfolding bit_uval pos using assms by simp
  also have "\<dots> \<longleftrightarrow> i + k < WIDTH \<and> bit (a ! (i + k)) (s + j) \<or>
      i + k + 1 < WIDTH \<and> s \<noteq> 0 \<and> 32 - s \<le> j \<and> bit (a ! (i + k + 1)) (j - (32 - s))"
    using s j by (auto dest: bit_imp_le_length)
  also have "\<dots> \<longleftrightarrow> bit (uint_shr a n ! i) j"
    using shr_loop [OF s, of WIDTH a k] i j unfolding uint_shr_def Let_def k_def [symmetric] s_def [symmetric] by auto
  finally show "bit (uint_shr a n ! i) j = bit (uval a div 2 ^ n) (32 * i + j)" by simp
qed simp

section \<open>Comparison and number of bits\<close>

lemma uval_split_top: "length a = Suc n \<Longrightarrow> uval a = uval (take n a) + 2 ^ (32 * n) * unat (a ! n)"
  using uval_take_drop [of n a] by (simp add: Cons_nth_drop_Suc [symmetric])

lemma uval_take_Suc: "n < length a \<Longrightarrow> uval (take (Suc n) a) = uval (take n a) + 2 ^ (32 * n) * unat (a ! n)"
  by (simp add: take_Suc_conv_app_nth uval_append)

lemma limb_order:
  assumes "x < 2 ^ m" and "p < (q::nat)"
  shows "x + 2 ^ m * p < y + 2 ^ m * q"
proof -
  have "x + 2 ^ m * p < 2 ^ m * Suc p" using assms(1) by simp
  also have "\<dots> \<le> 2 ^ m * q" using assms(2) by (intro mult_le_mono2) simp
  finally show ?thesis by simp
qed

lemma uint_compare_loop_sign:
  assumes "length a = length b"
  shows "n \<le> length a \<Longrightarrow> uint_compare_loop a b n =
    (if uval (take n a) < uval (take n b) then - 1 else if uval (take n a) = uval (take n b) then 0 else 1)"
proof (induction n)
  case (Suc n)
  have bound: "uval (take n a) < 2 ^ (32 * n)" "uval (take n b) < 2 ^ (32 * n)"
    using uval_bound [of "take n a"] uval_bound [of "take n b"] Suc.prems assms by simp_all
  have step: "uval (take (Suc n) a) = uval (take n a) + 2 ^ (32 * n) * unat (a ! n)"
    "uval (take (Suc n) b) = uval (take n b) + 2 ^ (32 * n) * unat (b ! n)"
    using Suc.prems assms by (simp_all add: uval_take_Suc)
  consider "unat (a ! n) < unat (b ! n)" | "unat (b ! n) < unat (a ! n)" | "unat (a ! n) = unat (b ! n)"
    by linarith
  then show ?case
  proof cases
    case 1
    then show ?thesis using limb_order [OF bound(1) 1] step by (simp add: word_less_nat_alt)
  next
    case 2
    then show ?thesis using limb_order [OF bound(2) 2, of "uval (take n a)"] step by (auto simp: word_less_nat_alt)
  next
    case 3
    then show ?thesis using Suc step by (simp add: word_less_nat_alt)
  qed
qed simp

lemma CompareTo_sign:
  assumes "length a = WIDTH" and "length b = WIDTH"
  shows "CompareTo a b = (if uval a < uval b then - 1 else if uval a = uval b then 0 else 1)"
  using uint_compare_loop_sign [of a b WIDTH] assms by (simp add: CompareTo_def)

lemma limb_bits_bound: "p \<noteq> 0 \<Longrightarrow> unat (p :: u32) < 2 ^ Suc n \<Longrightarrow> n < 32 \<Longrightarrow>
    2 ^ (limb_bits p n - 1) \<le> unat p \<and> unat p < 2 ^ limb_bits p n \<and> 0 < limb_bits p n \<and> limb_bits p n \<le> Suc n"
proof (induction n)
  case 0
  then show ?case by (simp add: unat_gt_0 Suc_le_eq)
next
  case (Suc n)
  have "p AND push_bit (Suc n) 1 \<noteq> 0 \<longleftrightarrow> bit p (Suc n)"
    using and_exp_eq_0_iff_not_bit [of p "Suc n"] by (simp add: push_bit_eq_mult)
  moreover have "bit p (Suc n) \<longleftrightarrow> 2 ^ Suc n \<le> unat p"
  proof -
    have odd: "bit p (Suc n) \<longleftrightarrow> odd (unat p div 2 ^ Suc n)"
      using bit_unsigned_iff [where 'a = nat and 'b = 32, of p "Suc n"] by (simp add: bit_iff_odd)
    have "unat p div 2 ^ Suc n < 2" using Suc.prems(2) by (simp add: less_mult_imp_div_less)
    then have "odd (unat p div 2 ^ Suc n) \<longleftrightarrow> unat p div 2 ^ Suc n \<noteq> 0" by (auto simp: less_2_cases_iff)
    also have "\<dots> \<longleftrightarrow> 2 ^ Suc n \<le> unat p" by (simp add: div_eq_0_iff not_less del: power_Suc)
    finally show ?thesis using odd by simp
  qed
  ultimately show ?case using Suc by (cases "bit p (Suc n)") auto
qed

lemma uint_bits_loop_bound:
  "n \<le> length a \<Longrightarrow>
    (if uval (take n a) = 0 then uint_bits_loop a n = 0
     else 0 < uint_bits_loop a n \<and> uint_bits_loop a n \<le> 32 * n \<and>
       2 ^ (uint_bits_loop a n - 1) \<le> uval (take n a) \<and> uval (take n a) < 2 ^ uint_bits_loop a n)"
proof (induction n)
  case (Suc n)
  have step: "uval (take (Suc n) a) = uval (take n a) + 2 ^ (32 * n) * unat (a ! n)"
    using Suc.prems by (simp add: uval_take_Suc)
  show ?case
  proof (cases "a ! n = 0")
    case True
    then show ?thesis using Suc step by auto
  next
    case False
    define p where "p = a ! n"
    define l where "l = limb_bits p 31"
    have l: "2 ^ (l - 1) \<le> unat p" "unat p < 2 ^ l" "0 < l" "l \<le> 32"
      using limb_bits_bound [of p 31] False unat_less_32 [of p] by (simp_all add: p_def l_def)
    have low: "uval (take n a) < 2 ^ (32 * n)" using uval_bound [of "take n a"] Suc.prems by simp
    have bits: "uint_bits_loop a (Suc n) = 32 * n + l" using False by (simp add: p_def l_def)
    have "2 ^ (32 * n + l - 1) = 2 ^ (32 * n) * (2 ^ (l - 1) :: nat)" using l(3) by (simp flip: power_add)
    also have "\<dots> \<le> 2 ^ (32 * n) * unat p" using l(1) by simp
    finally have lower: "2 ^ (32 * n + l - 1) \<le> uval (take (Suc n) a)" by (simp add: step p_def)
    have "uval (take (Suc n) a) < 2 ^ (32 * n) * 2 ^ l"
      using limb_order [OF low l(2), of 0] by (simp add: step p_def)
    then have upper: "uval (take (Suc n) a) < 2 ^ (32 * n + l)" by (simp add: power_add)
    have "uval (take (Suc n) a) \<noteq> 0" using False step by (simp add: unat_gt_0 unat_eq_0)
    then show ?thesis unfolding bits using lower upper l by simp
  qed
qed simp

lemma uint_bits_bound:
  assumes "length a = WIDTH"
  shows "uint_bits a = 0 \<longleftrightarrow> uval a = 0"
    and "uval a \<noteq> 0 \<Longrightarrow> 2 ^ (uint_bits a - 1) \<le> uval a"
    and "uval a < 2 ^ uint_bits a"
    and "uint_bits a \<le> 256"
  using uint_bits_loop_bound [of WIDTH a] assms by (auto simp: uint_bits_def WIDTH_def split: if_splits)

section \<open>Division\<close>

lemma length_base_uint_of [simp]: "length (base_uint_of b) = WIDTH"
  by (simp add: base_uint_of_def WIDTH_def)

lemma uval_base_uint_of [simp]: "uval (base_uint_of b) = unat b"
proof -
  have "uval (base_uint_of b) = unat (ucast b :: u32) + 2 ^ 32 * unat (ucast (drop_bit 32 b) :: u32)"
    by (simp add: base_uint_of_def WIDTH_def)
  also have "unat (ucast b :: u32) = unat b mod 2 ^ 32" by (simp add: unsigned_ucast_eq take_bit_eq_mod)
  also have "unat (ucast (drop_bit 32 b) :: u32) = unat b div 2 ^ 32"
    using unat_drop_32 [of b] by (simp add: unsigned_ucast_eq take_bit_eq_mod drop_bit_eq_div unat_div_distrib)
  finally show ?thesis by simp
qed

lemma length_uint_set_bit [simp]: "length (uint_set_bit pn s) = length pn"
  by (simp add: uint_set_bit_def)

lemma uval_set_bit:
  assumes "length pn = WIDTH" and "s < 256" and "2 ^ Suc s dvd uval pn"
  shows "uval (uint_set_bit pn s) = uval pn + 2 ^ s"
proof -
  have s: "s div 32 < WIDTH" using assms(2) by (simp add: WIDTH_def)
  have "bit (uint_set_bit pn s ! (n div 32)) (n mod 32) \<longleftrightarrow> bit (pn ! (n div 32)) (n mod 32) \<or> n = s"
    if "n div 32 < WIDTH" for n
  proof (cases "n div 32 = s div 32")
    case True
    have "n = s \<longleftrightarrow> n mod 32 = s mod 32" using True by (metis div_mult_mod_eq)
    then show ?thesis using True that assms(1)
      by (auto simp: uint_set_bit_def bit_or_iff bit_exp_iff possible_bit_word)
  next
    case False
    then show ?thesis using that assms(1) by (auto simp: uint_set_bit_def)
  qed
  then have "uval (uint_set_bit pn s) = uval pn OR 2 ^ s"
    using assms(1) s by (intro bit_eqI) (auto simp: bit_uval bit_or_iff bit_exp_iff)
  moreover have "uval pn AND 2 ^ s = 0"
  proof -
    obtain q where "uval pn = 2 ^ s * (2 * q)" using assms(3) by (auto elim!: dvdE simp: mult.assoc)
    then have "\<not> bit (uval pn) s" by (simp add: bit_iff_odd)
    then show ?thesis by (simp add: and_exp_eq_0_iff_not_bit)
  qed
  ultimately show ?thesis by (simp add: disjunctive_add_eq_or)
qed

definition div_inv :: "nat \<Rightarrow> nat \<Rightarrow> nat \<Rightarrow> base_uint \<times> base_uint \<times> base_uint \<Rightarrow> bool" where
  "div_inv N D s = (\<lambda>(num, dv, pn).
    length num = WIDTH \<and> length dv = WIDTH \<and> length pn = WIDTH \<and> uval dv = D * 2 ^ s \<and>
    uval num < D * 2 ^ Suc s \<and> 2 ^ Suc s dvd uval pn \<and> uval pn * D + uval num = N)"

lemma uint_div_step_inv:
  assumes "div_inv N D s st" and "s < 256"
  shows "case uint_div_step s st of (num, dv, pn) \<Rightarrow>
    length num = WIDTH \<and> length dv = WIDTH \<and> length pn = WIDTH \<and> uval dv = D * 2 ^ s div 2 \<and>
    uval num < D * 2 ^ s \<and> 2 ^ s dvd uval pn \<and> uval pn * D + uval num = N"
proof -
  obtain num dv pn where st: "st = (num, dv, pn)" by (cases st)
  have inv: "length num = WIDTH" "length dv = WIDTH" "length pn = WIDTH" "uval dv = D * 2 ^ s"
    "uval num < D * 2 ^ Suc s" "2 ^ Suc s dvd uval pn" "uval pn * D + uval num = N"
    using assms(1) by (simp_all add: div_inv_def st)
  have shr: "uval (uint_shr dv 1) = D * 2 ^ s div 2" using inv(2,4) by (simp add: uval_shr)
  have dvd: "2 ^ s dvd uval pn" using inv(6) by (rule dvd_trans [rotated]) simp
  show ?thesis
  proof (cases "uval dv \<le> uval num")
    case True
    then have "uint_div_step s st = (uint_sub num dv, uint_shr dv 1, uint_set_bit pn s)"
      using CompareTo_sign [OF inv(1,2)] by (simp add: uint_div_step_def st)
    moreover have "uval (uint_sub num dv) = uval num - D * 2 ^ s"
      using True inv(1,2,4) by (simp add: uval_sub_le)
    moreover have "uval (uint_set_bit pn s) = uval pn + 2 ^ s" by (rule uval_set_bit [OF inv(3) assms(2) inv(6)])
    ultimately show ?thesis using inv shr dvd True by (simp add: algebra_simps)
  next
    case False
    then have "uint_div_step s st = (num, uint_shr dv 1, pn)"
      using CompareTo_sign [OF inv(1,2)] by (simp add: uint_div_step_def st)
    then show ?thesis using inv shr dvd False by simp
  qed
qed

lemma uint_div_loop_quotient:
  "div_inv N D s st \<Longrightarrow> s < 256 \<Longrightarrow> 0 < D \<Longrightarrow>
    (case uint_div_loop s st of (num, dv, pn) \<Rightarrow> length pn = WIDTH \<and> uval pn = N div D)"
proof (induction s arbitrary: st)
  case 0
  obtain num dv pn where r: "uint_div_step 0 st = (num, dv, pn)" by (cases "uint_div_step 0 st")
  with uint_div_step_inv [OF 0(1)] have "length pn = WIDTH" "uval num < D" "uval pn * D + uval num = N" by simp_all
  moreover from this have "N div D = uval pn" using \<open>0 < D\<close> by (auto intro: div_nat_eqI)
  ultimately show ?case using r by simp
next
  case (Suc s)
  obtain num dv pn where r: "uint_div_step (Suc s) st = (num, dv, pn)" by (cases "uint_div_step (Suc s) st")
  with uint_div_step_inv [OF Suc.prems(1,2)] have "div_inv N D s (num, dv, pn)"
    by (simp add: div_inv_def)
  with Suc r show ?case by simp
qed

lemma uint_div_zero: "length b = WIDTH \<Longrightarrow> uint_div a b = None \<longleftrightarrow> uval b = 0"
  using uint_bits_bound(1) [of b] by (simp add: uint_div_def Let_def split: prod.split)

lemma uint_div_quotient:
  assumes a: "length a = WIDTH" and b: "length b = WIDTH" and pos: "uval b \<noteq> 0"
  shows "\<exists>q. uint_div a b = Some q \<and> length q = WIDTH \<and> uval q = uval a div uval b"
proof (cases "uint_bits b > uint_bits a")
  case True
  have "uval a < 2 ^ uint_bits a" by (rule uint_bits_bound(3) [OF a])
  also have "\<dots> \<le> 2 ^ (uint_bits b - 1)" using True by simp
  also have "\<dots> \<le> uval b" by (rule uint_bits_bound(2) [OF b pos])
  finally show ?thesis
    using True pos uint_bits_bound(1) [OF b] by (simp add: uint_div_def)
next
  case False
  define s where "s = uint_bits a - uint_bits b"
  have bits: "0 < uint_bits b" "uint_bits a \<le> 256" using uint_bits_bound [OF b] uint_bits_bound [OF a] pos by auto
  then have s: "s < 256" "uint_bits a = s + uint_bits b" using False by (auto simp: s_def)
  have "uval b * 2 ^ s < 2 ^ uint_bits b * 2 ^ s" using uint_bits_bound(3) [OF b] by simp
  also have "\<dots> = 2 ^ uint_bits a" by (simp add: s flip: power_add)
  also have "\<dots> \<le> 2 ^ 256" using bits(2) by (intro power_increasing) simp_all
  finally have shl: "uval (uint_shl b s) = uval b * 2 ^ s" by (simp add: uval_shl [OF b])
  have "uval a < 2 ^ uint_bits a" by (rule uint_bits_bound(3) [OF a])
  also have "\<dots> = 2 ^ (uint_bits b - 1) * 2 ^ Suc s" using bits(1) by (simp add: s flip: power_add power_Suc)
  also have "\<dots> \<le> uval b * 2 ^ Suc s" using uint_bits_bound(2) [OF b pos] by (rule mult_le_mono1)
  finally have "div_inv (uval a) (uval b) s (a, uint_shl b s, base_uint_of 0)"
    using a shl by (simp add: div_inv_def)
  from uint_div_loop_quotient [OF this s(1)] show ?thesis
    using pos False bits(1) by (auto simp: uint_div_def Let_def simp flip: s_def split: prod.splits)
qed

section \<open>The value of the compact encoding\<close>

lemma unat_drop_bit_nat: "unat (drop_bit k (x :: 'a::len word)) = unat x div 2 ^ k"
  unfolding unat_drop_bit_eq by (rule drop_bit_eq_div)

lemma unat_push_bit_nat: "unat (push_bit k (x :: u64)) = (unat x * 2 ^ k) mod 2 ^ 64"
  by (simp only: unsigned_push_bit_eq) (simp add: take_bit_eq_mod push_bit_eq_mult)

lemma unat_and_mask_nat: "unat (x AND mask k :: 'a::len word) = unat x mod 2 ^ k"
  unfolding take_bit_eq_mask [symmetric] unsigned_take_bit_eq by (rule take_bit_eq_mod)

lemma unat_low23: "unat (n AND 0x007fffff :: u32) = unat n mod 2 ^ 23"
  using unat_and_mask_nat [of n 23] by (simp add: mask_numeral)

lemma bit23: "(n :: u32) AND 0x00800000 \<noteq> 0 \<longleftrightarrow> bit n 23"
  using and_exp_eq_0_iff_not_bit [of n 23] by simp

lemma nat_shift_overflow:
  fixes m e :: nat
  assumes "m < 2 ^ 23" and "3 < e"
  shows "m \<noteq> 0 \<and> (34 < e \<or> 0xff < m \<and> 33 < e \<or> 0xffff < m \<and> 32 < e) \<longleftrightarrow> 2 ^ 256 \<le> m * 256 ^ (e - 3)"
proof -
  have pw: "m * 256 ^ (e - 3) = m * 2 ^ (8 * (e - 3))" by (simp add: power_mult)
  consider "34 < e" | "e = 34" | "e = 33" | "e \<le> 32" by linarith
  then show ?thesis
  proof cases
    case 1
    have "(2 ^ 256 :: nat) = 1 * 2 ^ 256" by simp
    also have "\<dots> \<le> m * 2 ^ (8 * (e - 3))" if "m \<noteq> 0"
      using that 1 by (intro mult_le_mono power_increasing) simp_all
    finally show ?thesis using 1 pw by (cases "m = 0") auto
  next
    case 2
    then show ?thesis by simp linarith
  next
    case 3
    then show ?thesis by simp linarith
  next
    case 4
    have "m * 2 ^ (8 * (e - 3)) < 2 ^ 23 * 2 ^ (8 * 29)" using assms 4
      by (intro mult_less_le_imp_less power_increasing) simp_all
    also have "\<dots> \<le> 2 ^ 256" by simp
    finally show ?thesis unfolding pw using 4 by simp
  qed
qed

lemma SetCompact_value:
  assumes "e = unat n div 2 ^ 24" and "m = unat n mod 2 ^ 23"
    and "m' = (if e \<le> 3 then m div 256 ^ (3 - e) else m)"
  obtains v where "SetCompact n = (v, m' \<noteq> 0 \<and> bit n 23, 3 < e \<and> 2 ^ 256 \<le> m * 256 ^ (e - 3))"
    and "length v = WIDTH" and "uval v = (if e \<le> 3 then m' else (m * 256 ^ (e - 3)) mod 2 ^ 256)"
proof -
  have e: "unat (drop_bit 24 n) = e" by (simp add: assms(1) unat_drop_bit_nat)
  define w where "w = n AND 0x007fffff"
  have w: "unat w = m" by (simp add: w_def unat_low23 assms(2))
  have m: "m < 2 ^ 23" by (simp add: assms(2))
  show ?thesis
  proof (cases "e \<le> 3")
    case True
    have "unat (drop_bit (8 * (3 - e)) w) = m'" using True by (simp add: assms(3) unat_drop_bit_nat w power_mult)
    moreover from this have "drop_bit (8 * (3 - e)) w \<noteq> 0 \<longleftrightarrow> m' \<noteq> 0" by (simp flip: unat_eq_0)
    ultimately show ?thesis
      using True that [of "base_uint_of (ucast (drop_bit (8 * (3 - e)) w))"] 
      by (simp add: SetCompact_def Let_def e bit23 flip: w_def)
  next
    case False
    have gt: "w > 0xff \<longleftrightarrow> m > 0xff" "w > 0xffff \<longleftrightarrow> m > 0xffff" "w \<noteq> 0 \<longleftrightarrow> m \<noteq> 0"
      using w by (simp_all add: word_less_nat_alt flip: unat_eq_0)
    have "uval (uint_shl (base_uint_of (ucast w)) (8 * (e - 3))) = (m * 256 ^ (e - 3)) mod 2 ^ 256"
      by (simp add: uval_shl w power_mult)
    then show ?thesis
      using False that [of "uint_shl (base_uint_of (ucast w)) (8 * (e - 3))"] nat_shift_overflow [OF m, of e]
      by (simp add: SetCompact_def Let_def e bit23 assms(3) gt flip: w_def)
  qed
qed

lemma unat_GetLow64:
  assumes "length pn = WIDTH"
  shows "unat (GetLow64 pn) = uval pn mod 2 ^ 64"
proof -
  obtain p q r where pn: "pn = p # q # r" using assms by (cases pn; cases "tl pn") (auto simp: WIDTH_def)
  have "ucast p AND push_bit 32 (ucast q) = (0 :: u64)"
    by (rule word_bits_eqI) (auto simp: bit_and_iff bit_push_bit_iff bit_unsigned_iff dest: bit_imp_le_length)
  then have "GetLow64 pn = ucast p + push_bit 32 (ucast q)"
    by (simp add: GetLow64_def pn disjunctive_add_eq_or)
  moreover have "unat (push_bit 32 (ucast q) :: u64) = 2 ^ 32 * unat q"
    using unat_less_32 [of q] by (simp add: push_bit_eq_mult unat_word_ariths)
  moreover have small: "unat p + 2 ^ 32 * unat q < 2 ^ 64"
    using unat_less_32 [of p] unat_less_32 [of q] by simp
  ultimately have "unat (GetLow64 pn) = unat p + 2 ^ 32 * unat q"
    by (simp add: unat_word_ariths)
  also have "\<dots> = uval pn mod 2 ^ 64"
  proof -
    have "uval pn = (unat p + 2 ^ 32 * unat q) + 2 ^ 64 * uval r" by (simp add: pn)
    then show ?thesis using small by simp
  qed
  finally show ?thesis .
qed


text \<open>The three leading bytes of \<open>v\<close>, a number of \<open>k\<close> bytes, and the mantissa and exponent of its encoding.\<close>

definition leading_bytes :: "nat \<Rightarrow> nat \<Rightarrow> nat" where
  "leading_bytes v k = (if k \<le> 3 then v * 256 ^ (3 - k) else v div 256 ^ (k - 3))"

definition compact_parts :: "nat \<Rightarrow> nat \<Rightarrow> nat \<times> nat" where
  "compact_parts v k =
    (let c = leading_bytes v k in if 2 ^ 23 \<le> c then (c div 256, k + 1) else (c, k))"

definition byte_size :: "nat \<Rightarrow> nat \<Rightarrow> bool" where
  "byte_size v k \<longleftrightarrow> v < 256 ^ k \<and> (k = 0 \<or> 256 ^ (k - 1) \<le> v)"

lemma byte_size_bits:
  assumes "length a = WIDTH" and "k = (uint_bits a + 7) div 8"
  shows "byte_size (uval a) k" and "k \<le> 32"
proof -
  define b where "b = uint_bits a"
  have b: "b \<le> 8 * k" "8 * k \<le> b + 7" using assms(2) by (simp_all add: b_def)
  have "uval a < 2 ^ b" using uint_bits_bound(3) [OF assms(1)] by (simp add: b_def)
  also have "\<dots> \<le> 2 ^ (8 * k)" using b(1) by simp
  finally have "uval a < 256 ^ k" by (simp add: power_mult)
  moreover have "256 ^ (k - 1) \<le> uval a" if "k \<noteq> 0"
  proof -
    have "b \<noteq> 0" using that b(2) by (cases b) auto
    then have "uval a \<noteq> 0" using uint_bits_bound(1) [OF assms(1)] by (simp add: b_def)
    have "256 ^ (k - 1) = (2 :: nat) ^ (8 * (k - 1))" by (simp add: power_mult)
    also have "\<dots> \<le> 2 ^ (b - 1)" using b(2) \<open>b \<noteq> 0\<close> by (intro power_increasing) simp_all
    also have "\<dots> \<le> uval a" using uint_bits_bound(2) [OF assms(1) \<open>uval a \<noteq> 0\<close>] by (simp add: b_def)
    finally show ?thesis .
  qed
  ultimately show "byte_size (uval a) k" by (auto simp: byte_size_def)
  show "k \<le> 32" using uint_bits_bound(4) [OF assms(1)] assms(2) by simp
qed

lemma byte_size_unique: "byte_size v k \<Longrightarrow> byte_size v l \<Longrightarrow> k = l"
proof -
  have "k \<le> l" if "byte_size v k" "byte_size v l" for k l
  proof (rule ccontr)
    assume "\<not> k \<le> l"
    then have "l \<le> k - 1" by simp
    then have "256 ^ l \<le> (256 :: nat) ^ (k - 1)" by (intro power_increasing) simp_all
    moreover have "v < 256 ^ l" "256 ^ (k - 1) \<le> v" using that \<open>\<not> k \<le> l\<close> by (auto simp: byte_size_def)
    ultimately show False by linarith
  qed
  then show "byte_size v k \<Longrightarrow> byte_size v l \<Longrightarrow> k = l" by (meson le_antisym)
qed

lemma leading_bytes_bound:
  assumes "v < 256 ^ k"
  shows "leading_bytes v k < 2 ^ 24"
proof (cases "k \<le> 3")
  case True
  have "v * 256 ^ (3 - k) < 256 ^ k * 256 ^ (3 - k)" using assms by simp
  also have "\<dots> = 256 ^ 3" using True by (simp flip: power_add)
  finally show ?thesis using True by (simp add: leading_bytes_def)
next
  case False
  then have "v < 256 ^ (k - 3) * 256 ^ 3"
    using assms power_add [of "256 :: nat" "k - 3" 3] by simp
  then show ?thesis using False by (simp add: leading_bytes_def less_mult_imp_div_less mult.commute)
qed

lemma compact_parts_bound:
  assumes "byte_size v k" and "compact_parts v k = (m, e)"
  shows "m < 2 ^ 23" and "k \<le> e" and "e \<le> k + 1"
  using leading_bytes_bound [of v k] assms
  by (auto simp: byte_size_def compact_parts_def Let_def split: if_splits)

lemma nat_or_shift: "m < 2 ^ k \<Longrightarrow> m OR push_bit k e = m + 2 ^ k * (e :: nat)"
proof -
  assume m: "m < 2 ^ k"
  have "m AND push_bit k e = 0"
  proof (rule bit_eqI)
    fix n
    have "\<not> bit m n" if "k \<le> n"
    proof -
      have "m < 2 ^ n" using m that by (meson less_le_trans one_le_numeral power_increasing)
      then show ?thesis by (simp add: bit_iff_odd)
    qed
    then show "bit (m AND push_bit k e) n \<longleftrightarrow> bit (0::nat) n" by (auto simp: bit_and_iff bit_push_bit_iff)
  qed
  then show ?thesis by (simp add: disjunctive_add_eq_or push_bit_eq_mult mult.commute flip: disjunctive_add_eq_or)
qed

lemma GetCompact_value:
  assumes a: "length a = WIDTH" and k: "byte_size (uval a) k" and parts: "compact_parts (uval a) k = (m, e)"
  shows "GetCompact a neg = Some (of_nat (m + 2 ^ 24 * e + (if neg \<and> m \<noteq> 0 then 2 ^ 23 else 0)))"
proof -
  have size: "(uint_bits a + 7) div 8 = k" "k \<le> 32"
    using byte_size_bits [OF a refl] byte_size_unique [OF _ k] by auto
  define c where "c = leading_bytes (uval a) k"
  define nc :: u32 where "nc = (if k \<le> 3 then ucast (push_bit (8 * (3 - k)) (GetLow64 a))
            else ucast (GetLow64 (uint_shr a (8 * (k - 3)))))"
  note bound = compact_parts_bound [OF k parts]
  have me: "(if 2 ^ 23 \<le> c then (c div 256, k + 1) else (c, k)) = (m, e)"
    using parts by (simp only: compact_parts_def c_def Let_def)
  have c: "c < 2 ^ 24" using k leading_bytes_bound by (simp add: c_def byte_size_def)
  have ucast_small: "unat (ucast x :: u32) = unat x" if "unat x < 2 ^ 24" for x :: u64
    using that by (simp add: unsigned_ucast_eq take_bit_eq_mod)
  have nc: "unat nc = c"
  proof (cases "k \<le> 3")
    case True
    have "uval a \<le> c" using True by (simp add: c_def leading_bytes_def)
    with c have "unat (GetLow64 a) = uval a" by (simp add: unat_GetLow64 [OF a])
    then have "unat (push_bit (8 * (3 - k)) (GetLow64 a)) = c"
      using True c by (simp add: unat_push_bit_nat c_def leading_bytes_def power_mult)
    then show ?thesis using True c ucast_small by (simp add: nc_def)
  next
    case False
    have "uval (uint_shr a (8 * (k - 3))) = c"
      using False by (simp add: uval_shr [OF a] c_def leading_bytes_def power_mult)
    then have "unat (GetLow64 (uint_shr a (8 * (k - 3)))) = c" using c by (simp add: unat_GetLow64)
    then show ?thesis using False c ucast_small by (simp add: nc_def)
  qed
  have high: "nc AND 0x00800000 \<noteq> 0 \<longleftrightarrow> 2 ^ 23 \<le> c"
  proof -
    have "bit nc 23 \<longleftrightarrow> odd (c div 2 ^ 23)"
      using bit_unsigned_iff [where 'a = nat and 'b = 32, of nc 23] nc by (simp add: bit_iff_odd)
    moreover have "c div 2 ^ 23 < 2" using c by simp
    then have "odd (c div 2 ^ 23) \<longleftrightarrow> c div 2 ^ 23 \<noteq> 0" by (auto simp: less_2_cases_iff)
    ultimately show ?thesis by (simp add: bit23 div_eq_0_iff not_less)
  qed
  define nc' where "nc' = (if 2 ^ 23 \<le> c then drop_bit 8 nc else nc)"
  have "unat nc' = m" using me nc by (auto simp: nc'_def unat_drop_bit_nat split: if_splits)
  then have nc': "nc' = of_nat m" by (simp flip: \<open>unat nc' = m\<close>)
  have clear: "of_nat m AND NOT 0x007fffff = (0 :: u32)"
  proof -
    have "(of_nat m :: u32) AND mask 23 = of_nat (m AND mask 23)" by (simp only: of_nat_and_eq of_nat_mask_eq)
    also have "m AND mask 23 = m" using bound(1) by (simp add: take_bit_nat_eq_self flip: take_bit_eq_mask)
    finally have "(of_nat m :: u32) AND 0x007fffff = of_nat m" by (simp add: mask_numeral)
    then show ?thesis by (metis and.assoc and.right_idem bit.conj_cancel_right and_zero_eq)
  qed
  have join: "of_nat m OR push_bit 24 (of_nat e) = (of_nat (m + 2 ^ 24 * e) :: u32)"
    using bound(1) nat_or_shift [of m 24 e] by (simp flip: of_nat_push_bit of_nat_or_eq)
  define x where "x = m + 2 ^ 24 * e"
  have "e \<le> 33" using size(2) bound(3) by simp
  then have "x < 2 ^ 32" using bound(1) by (simp add: x_def)
  then have x: "unat (of_nat x :: u32) = x" by (simp add: unat_of_nat take_bit_nat_eq_self)
  have "x = 2 ^ 23 * (2 * e) + m" by (simp add: x_def)
  then have "x mod 2 ^ 23 = m" "x div 2 ^ 23 = 2 * e"
    using bound(1) by (simp_all only: mod_mult_self4 div_mult_self4 mod_less div_less)
  then have low: "of_nat x AND 0x007fffff \<noteq> (0 :: u32) \<longleftrightarrow> m \<noteq> 0" and "\<not> bit x 23"
    using unat_low23 [of "of_nat x"] x by (simp_all flip: unat_eq_0 add: bit_iff_odd)
  then have "x AND 2 ^ 23 = 0" using and_exp_eq_0_iff_not_bit by blast
  then have "x OR 2 ^ 23 = x + 2 ^ 23" by (rule disjunctive_add_eq_or [symmetric])
  then have sign: "of_nat x OR 0x00800000 = (of_nat (x + 2 ^ 23) :: u32)"
    using of_nat_or_eq [of x "2 ^ 23", where 'a = u32] by simp
  have "GetCompact a neg =
      (if of_nat m AND NOT 0x007fffff \<noteq> (0 :: u32) then None else if \<not> e < 256 then None
       else Some (of_nat x OR (if neg \<and> of_nat x AND 0x007fffff \<noteq> (0 :: u32) then 0x00800000 else 0)))"
    unfolding GetCompact_def Let_def size(1) nc_def [symmetric] high x_def
    using me join nc' unfolding nc'_def by (auto split: if_splits prod.splits)
  then show ?thesis using clear \<open>e \<le> 33\<close> low sign by (simp add: x_def)
qed


text \<open>Decoding an encoded number drops the digits below the mantissa.\<close>

definition compact_floor :: "nat \<Rightarrow> nat \<Rightarrow> nat" where
  "compact_floor v e = v div 256 ^ (e - 3) * 256 ^ (e - 3)"

lemma compact_parts_cases:
  assumes "byte_size v k" and "compact_parts v k = (m, e)"
  obtains "e \<le> 3" and "m = v * 256 ^ (3 - e)"
  | "3 < e" and "m = v div 256 ^ (e - 3)" and "2 ^ 15 \<le> m" and "e = k" and "m < 2 ^ 23"
  | "3 < e" and "m = v div 256 ^ (e - 3)" and "2 ^ 15 \<le> m" and "e = k + 1" and "2 ^ 23 \<le> leading_bytes v k"
proof (cases "2 ^ 23 \<le> leading_bytes v k")
  case high: True
  then have me: "m = leading_bytes v k div 256" "e = k + 1" using assms(2) by (simp_all add: compact_parts_def Let_def)
  have m: "2 ^ 15 \<le> m" using high me(1) by simp
  show thesis
  proof (cases "k < 3")
    case True
    then have "3 - k = Suc (2 - k)" by simp
    then have "m = v * 256 ^ (3 - e)" using True me by (simp add: leading_bytes_def)
    then show thesis using that(1) True me(2) by simp
  next
    case False
    have "m = v div 256 ^ (e - 3)"
    proof (cases "k = 3")
      case True
      then show ?thesis using me by (simp add: leading_bytes_def)
    next
      case k: False
      then have "e - 3 = Suc (k - 3)" using False me(2) by simp
      then have "256 ^ (e - 3) = 256 ^ (k - 3) * (256 :: nat)" by simp
      then have "v div 256 ^ (e - 3) = v div 256 ^ (k - 3) div 256" by (simp only: div_mult2_eq)
      then show ?thesis using me k False by (simp add: leading_bytes_def)
    qed
    then show thesis using that(3) m me False high by simp
  qed
next
  case low: False
  then have me: "m = leading_bytes v k" "e = k" using assms(2) by (auto simp: compact_parts_def Let_def)
  show thesis
  proof (cases "k \<le> 3")
    case True
    then show thesis using that(1) me by (simp add: leading_bytes_def)
  next
    case False
    have "256 ^ (k - 1) = 256 ^ (k - 3) * (256 ^ 2 :: nat)" 
    proof -
      have "k - 1 = k - 3 + 2" using False by simp
      then show ?thesis by (simp only: power_add)
    qed
    then have "256 ^ (k - 3) * 256 ^ 2 \<le> v" using assms(1) False by (auto simp: byte_size_def)
    then have "256 ^ 2 \<le> m" using me False by (simp add: leading_bytes_def less_eq_div_iff_mult_less_eq mult.commute)
    then show thesis using that(2) me False low by (simp add: leading_bytes_def)
  qed
qed

lemma compact_decode:
  assumes "byte_size v k" and "compact_parts v k = (m, e)"
  shows "(if e \<le> 3 then m div 256 ^ (3 - e) else m * 256 ^ (e - 3)) = compact_floor v e"
  using assms by (rule compact_parts_cases) (simp_all add: compact_floor_def)

lemma compact_floor_error:
  assumes "byte_size v k" and "compact_parts v k = (m, e)"
  shows "compact_floor v e \<le> v" and "(v - compact_floor v e) * 2 ^ 15 \<le> v"
proof -
  show "compact_floor v e \<le> v" by (simp add: compact_floor_def)
  show "(v - compact_floor v e) * 2 ^ 15 \<le> v"
  proof (cases "e \<le> 3")
    case True
    then show ?thesis by (simp add: compact_floor_def)
  next
    case False
    with assms have m: "m = v div 256 ^ (e - 3)" "2 ^ 15 \<le> m" by (auto elim: compact_parts_cases)
    have "v - compact_floor v e = v mod 256 ^ (e - 3)" by (simp add: compact_floor_def minus_div_mult_eq_mod)
    also have "\<dots> \<le> 256 ^ (e - 3)" by (simp add: less_imp_le)
    finally have "(v - compact_floor v e) * 2 ^ 15 \<le> 256 ^ (e - 3) * m" using m(2) by (rule mult_le_mono)
    also have "\<dots> \<le> v" using m(1) by (metis mult.commute div_times_less_eq_dividend)
    finally show ?thesis .
  qed
qed

lemma compact_floor_parts:
  assumes "byte_size v k" and "compact_parts v k = (m, e)"
  shows "byte_size (compact_floor v e) k" and "compact_parts (compact_floor v e) k = (m, e)"
proof -
  have "compact_floor v e < 256 ^ k"
    using compact_floor_error(1) [OF assms] assms(1) by (simp add: byte_size_def)
  moreover have "256 ^ (k - 1) \<le> compact_floor v e" if "k \<noteq> 0"
  proof -
    have "e - 3 \<le> k - 1" using compact_parts_bound(3) [OF assms] by simp
    then have split: "256 ^ (k - 1) = 256 ^ (k - 1 - (e - 3)) * (256 ^ (e - 3) :: nat)" by (simp flip: power_add)
    moreover have "256 ^ (k - 1) \<le> v" using assms(1) that by (simp add: byte_size_def)
    ultimately have "256 ^ (k - 1 - (e - 3)) \<le> v div 256 ^ (e - 3)" by (simp add: less_eq_div_iff_mult_less_eq)
    then show ?thesis unfolding compact_floor_def split by (rule mult_le_mono1)
  qed
  ultimately show "byte_size (compact_floor v e) k" by (auto simp: byte_size_def)
  show "compact_parts (compact_floor v e) k = (m, e)"
    using assms
  proof (rule compact_parts_cases)
    assume "e \<le> 3"
    then show ?thesis using assms(2) by (simp add: compact_floor_def)
  next
    assume "3 < e" "m = v div 256 ^ (e - 3)" "e = k" "m < 2 ^ 23"
    then show ?thesis by (simp add: compact_floor_def compact_parts_def leading_bytes_def Let_def)
  next
    assume a: "3 < e" "m = v div 256 ^ (e - 3)" "2 ^ 15 \<le> m" "e = k + 1" "2 ^ 23 \<le> leading_bytes v k"
    have "leading_bytes (compact_floor v e) k = m * 256"
    proof (cases "k = 3")
      case True
      then show ?thesis using a by (simp add: compact_floor_def leading_bytes_def)
    next
      case False
      then have "e - 3 = Suc (k - 3)" using a by simp
      then show ?thesis using a False by (simp add: compact_floor_def leading_bytes_def)
    qed
    then show ?thesis using a by (simp add: compact_parts_def Let_def)
  qed
qed

lemma unat_of_nat_32: "x < 2 ^ 32 \<Longrightarrow> unat (of_nat x :: u32) = x"
  by (simp add: unat_of_nat)

lemma SetCompact_GetCompact:
  assumes a: "length a = WIDTH"
  obtains c v where "GetCompact a False = Some c" and "SetCompact c = (v, False, False)" and "length v = WIDTH"
    and "uval v \<le> uval a" and "(uval a - uval v) * 2 ^ 15 \<le> uval a" and "GetCompact v False = Some c"
proof -
  define k where "k = (uint_bits a + 7) div 8"
  have k: "byte_size (uval a) k" "k \<le> 32" using byte_size_bits [OF a k_def] by auto
  obtain m e where parts: "compact_parts (uval a) k = (m, e)" by (cases "compact_parts (uval a) k")
  note bound = compact_parts_bound [OF k(1) parts]
  define c :: u32 where "c = of_nat (m + 2 ^ 24 * e)"
  have get: "GetCompact a False = Some c" using GetCompact_value [OF a k(1) parts] by (simp add: c_def)
  have "m + 2 ^ 24 * e < 2 ^ 32" using bound k(2) by simp
  then have "unat c = m + 2 ^ 24 * e"
    using unat_of_nat_32 [of "m + 2 ^ 24 * e"] by (simp only: c_def)
  then have c: "unat c = 2 ^ 24 * e + m" "unat c = 2 ^ 23 * (2 * e) + m" by simp_all
  have ce: "unat c div 2 ^ 24 = e" unfolding c(1) using bound(1) by simp
  have cm: "unat c mod 2 ^ 23 = m" "unat c div 2 ^ 23 = 2 * e"
    using bound(1) unfolding c(2) by (simp_all only: mod_mult_self4 div_mult_self4 mod_less div_less)
  have sign: "\<not> bit c 23"
    using bit_unsigned_iff [where 'a = nat and 'b = 32, of c 23] cm(2) by (simp add: bit_iff_odd)
  define m' where "m' = (if e \<le> 3 then m div 256 ^ (3 - e) else m)"
  obtain v where v: "SetCompact c = (v, m' \<noteq> 0 \<and> bit c 23, 3 < e \<and> 2 ^ 256 \<le> m * 256 ^ (e - 3))" "length v = WIDTH"
    "uval v = (if e \<le> 3 then m' else (m * 256 ^ (e - 3)) mod 2 ^ 256)"
    using SetCompact_value [OF ce [symmetric] cm(1) [symmetric] m'_def] by metis
  note decode = compact_decode [OF k(1) parts]
  have "uval a < 2 ^ 256" using uval_bound [of a] a by (simp add: WIDTH_def)
  then have "compact_floor (uval a) e < 2 ^ 256" using compact_floor_error(1) [OF k(1) parts] by simp
  then have "uval v = compact_floor (uval a) e" and "\<not> (3 < e \<and> 2 ^ 256 \<le> m * 256 ^ (e - 3))"
    using v(3) decode by (auto simp: m'_def split: if_splits)
  moreover from this have "GetCompact v False = Some c"
    using GetCompact_value [OF v(2), of k m e False] compact_floor_parts [OF k(1) parts] by (simp add: c_def)
  ultimately show thesis
    using that [OF get, of v] v(1,2) sign compact_floor_error [OF k(1) parts] by simp
qed

section \<open>Conversion to and from blobs\<close>

lemma UintToArith256_ArithToUint256: "length a = WIDTH \<Longrightarrow> UintToArith256 (ArithToUint256 a) = a"
proof (rule nth_equalityI)
  assume a: "length a = WIDTH"
  fix i assume "i < length (UintToArith256 (ArithToUint256 a))"
  then have i: "i < WIDTH" by (simp add: UintToArith256_def)
  have len: "length (concat (map (\<lambda>x. le_bytes 4 (a ! x)) [0..<n])) = 4 * n" for n by (induction n) simp_all
  have "[0..<WIDTH] = [0..<i] @ i # [Suc i..<WIDTH]" 
    using i upt_add_eq_append [of 0 i "WIDTH - i"] by (simp add: upt_conv_Cons)
  then have "drop (i * 4) (ArithToUint256 a) = le_bytes 4 (a ! i) @ concat (map (\<lambda>x. le_bytes 4 (a ! x)) [Suc i..<WIDTH])"
    by (simp add: ArithToUint256_def len mult.commute)
  then show "UintToArith256 (ArithToUint256 a) ! i = a ! i"
    using i by (simp add: UintToArith256_def le_word_bytes)
qed (simp add: UintToArith256_def)

lemma length_UintToArith256 [simp]: "length (UintToArith256 b) = WIDTH"
  by (simp add: UintToArith256_def)

lemma concat_chunks4: "concat (map (\<lambda>x. take 4 (drop (x * 4) b)) [0..<n]) = take (4 * n) b"
proof (induction n)
  case (Suc n)
  have "take (4 * n) b @ take 4 (drop (4 * n) b) = take (4 * n + 4) b" by (rule take_add [symmetric])
  with Suc show ?case by (simp add: mult.commute add.commute)
qed simp

lemma ArithToUint256_UintToArith256:
  assumes "length b = 32"
  shows "ArithToUint256 (UintToArith256 b) = b"
proof -
  have "le_bytes 4 (le_word (take 4 (drop (x * 4) b)) :: u32) = take 4 (drop (x * 4) b)" if "x < WIDTH" for x
    using le_bytes_word [where 'a = 32, of "take 4 (drop (x * 4) b)"] that assms
    by (simp add: WIDTH_def)
  then have "ArithToUint256 (UintToArith256 b) = concat (map (\<lambda>x. take 4 (drop (x * 4) b)) [0..<WIDTH])"
    unfolding ArithToUint256_def UintToArith256_def by (intro arg_cong [where f = concat] map_cong) simp_all
  then show ?thesis using assms by (simp add: concat_chunks4 WIDTH_def)
qed

lemma uint_mul_self_zero: "uint_mul_self a = replicate WIDTH 0"
proof -
  have zero: "(replicate n 0)[i := 0] = replicate n (0 :: u32)" for n i by (cases "i < n") (auto intro!: nth_equalityI simp: nth_list_update)
  have row: "fold (uint_mul_self_step a j) is (0, replicate WIDTH 0) = (0, replicate WIDTH 0)" if "\<forall>i\<in>set is. i + j < WIDTH" for j "is"
    using that by (induction "is") (auto simp: uint_mul_self_step_def zero)
  have "fold (\<lambda>j pn. snd (fold (uint_mul_self_step a j) [0..<WIDTH - j] (0, pn))) js (replicate WIDTH 0) = replicate WIDTH 0" for js
  proof (induction js)
    case (Cons j js)
    have "\<forall>i\<in>set [0..<WIDTH - j]. i + j < WIDTH" by auto
    from Cons row [OF this] show ?case by simp
  qed simp
  then show ?thesis by (simp add: uint_mul_self_def)
qed

section \<open>The properties of the number type\<close>

text \<open>C34. The limb-and-carry loops of \<^verbatim>\<open>arith_uint256\<close> are arithmetic modulo \<open>2 ^ 256\<close>: sum, difference (as the
  sum with the two's complement), product of two objects, product with a 32-bit word, both shifts and the three-way
  comparison act on the represented numbers as the operations on naturals, for every pair of values. The product of an
  object with itself in place, \<^verbatim>\<open>x *= x\<close>, is zero whatever its value, as the operand is cleared before it is read.\<close>

theorem arith_uint256_refines_nat:
  assumes "length a = WIDTH" and "length b = WIDTH"
  shows "uval (uint_add a b) = (uval a + uval b) mod 2 ^ 256
    \<and> uval (uint_sub a b) = (uval a + 2 ^ 256 - uval b) mod 2 ^ 256
    \<and> uval (uint_mul a b) = (uval a * uval b) mod 2 ^ 256
    \<and> uval (uint_mul_self a) = 0
    \<and> uval (uint_mul32 a w) = (uval a * unat w) mod 2 ^ 256
    \<and> uval (uint_shl a n) = (uval a * 2 ^ n) mod 2 ^ 256
    \<and> uval (uint_shr a n) = uval a div 2 ^ n
    \<and> CompareTo a b = sgn (int (uval a) - int (uval b))"
proof (intro conjI)
  have len: "32 * length a = 256" "length a = length b" using assms by (simp_all add: WIDTH_def)
  show "uval (uint_add a b) = (uval a + uval b) mod 2 ^ 256" using uval_add [OF len(2)] by (simp only: len(1))
  have "uval b \<le> 2 ^ 256" using uval_bound [of b] len by simp
  then show "uval (uint_sub a b) = (uval a + 2 ^ 256 - uval b) mod 2 ^ 256"
    using uval_sub [OF len(2)] by (simp only: len(1) Nat.add_diff_assoc)
  show "uval (uint_mul a b) = (uval a * uval b) mod 2 ^ 256" using uval_mul [OF assms] by simp
  show "uval (uint_mul_self a) = 0" using uval_replicate_0 [of WIDTH] by (simp add: uint_mul_self_zero)
  show "uval (uint_mul32 a w) = (uval a * unat w) mod 2 ^ 256" using uval_mul32 [of a w] by (simp only: len(1))
  show "uval (uint_shl a n) = (uval a * 2 ^ n) mod 2 ^ 256" by (rule uval_shl [OF assms(1)])
  show "uval (uint_shr a n) = uval a div 2 ^ n" by (rule uval_shr [OF assms(1)])
  show "CompareTo a b = sgn (int (uval a) - int (uval b))" using CompareTo_sign [OF assms] by simp
qed

theorem arith_uint256_refines_nat_witness:
  "uval (uint_add (base_uint_of 7) (base_uint_of 5)) = 12
    \<and> uval (uint_sub (base_uint_of 5) (base_uint_of 7)) = 2 ^ 256 - 2
    \<and> uval (uint_mul (base_uint_of 0xffffffffffffffff) (base_uint_of 3)) = 3 * (2 ^ 64 - 1)"
  using arith_uint256_refines_nat [of "base_uint_of 7" "base_uint_of 5" 0 0]
    arith_uint256_refines_nat [of "base_uint_of 5" "base_uint_of 7" 0 0]
    arith_uint256_refines_nat [of "base_uint_of 0xffffffffffffffff" "base_uint_of 3" 0 0]
  by simp

text \<open>The shift-and-subtract division of \<^verbatim>\<open>arith_uint256\<close> throws exactly on a zero divisor and otherwise returns
  the quotient of the represented numbers.\<close>

theorem uint_div_correct:
  assumes "length a = WIDTH" and "length b = WIDTH"
  shows "map_option uval (uint_div a b) = (if uval b = 0 then None else Some (uval a div uval b))"
  using uint_div_zero [OF assms(2), of a] uint_div_quotient [OF assms] by auto

theorem uint_div_correct_witness:
  "map_option uval (uint_div (base_uint_of 1000) (base_uint_of 7)) = Some 142
    \<and> uint_div (base_uint_of 1000) (base_uint_of 0) = None"
  using uint_div_correct [of "base_uint_of 1000" "base_uint_of 7"]
    uint_div_correct [of "base_uint_of 1000" "base_uint_of 0"] by simp

text \<open>\<^verbatim>\<open>SetCompact\<close> decodes an exponent byte \<open>e\<close> and a 23-bit mantissa \<open>m\<close> to \<open>m * 256 ^ (e - 3)\<close>, truncated
  for exponents below three; the overflow flag is raised exactly when that number does not fit 256 bits and the
  sign flag exactly for a set sign bit on a nonzero mantissa.\<close>

theorem SetCompact_decodes:
  "let e = unat n div 2 ^ 24; m = unat n mod 2 ^ 23;
       v = (if e \<le> 3 then m div 256 ^ (3 - e) else m * 256 ^ (e - 3));
       (a, fNegative, fOverflow) = SetCompact n
   in length a = WIDTH \<and> uval a = v mod 2 ^ 256 \<and> (fOverflow \<longleftrightarrow> 2 ^ 256 \<le> v)
     \<and> (fNegative \<longleftrightarrow> bit n 23 \<and> v \<noteq> 0)"
proof -
  define e m where "e = unat n div 2 ^ 24" and "m = unat n mod 2 ^ 23"
  define m' where "m' = (if e \<le> 3 then m div 256 ^ (3 - e) else m)"
  obtain a where a: "SetCompact n = (a, m' \<noteq> 0 \<and> bit n 23, 3 < e \<and> 2 ^ 256 \<le> m * 256 ^ (e - 3))"
    "length a = WIDTH" "uval a = (if e \<le> 3 then m' else (m * 256 ^ (e - 3)) mod 2 ^ 256)"
    using SetCompact_value [OF e_def m_def m'_def] by metis
  have "m < 2 ^ 23" by (simp add: m_def)
  then have "m div 256 ^ (3 - e) < 2 ^ 23" using div_le_dividend le_less_trans by blast
  then have small: "m div 256 ^ (3 - e) < 2 ^ 256" by (rule less_le_trans) simp
  show ?thesis
    unfolding Let_def e_def [symmetric] m_def [symmetric] a(1) using small a(2,3)
    by (cases "e \<le> 3") (auto simp: m'_def)
qed

text \<open>\<^verbatim>\<open>GetCompact\<close> never violates its two assertions; decoding its result raises neither flag and gives a
  number at most the original and below it by at most one part in \<open>2 ^ 15\<close>; encoding that number again gives the
  same word.\<close>

theorem GetCompact_roundtrip:
  assumes "length a = WIDTH"
  shows "\<exists>c v. GetCompact a False = Some c \<and> SetCompact c = (v, False, False)
    \<and> uval v \<le> uval a \<and> (uval a - uval v) * 2 ^ 15 \<le> uval a \<and> GetCompact v False = Some c"
  using SetCompact_GetCompact [OF assms] by metis

theorem GetCompact_roundtrip_witness:
  "\<exists>c v. GetCompact (base_uint_of 0x12345678) False = Some c \<and> SetCompact c = (v, False, False)
    \<and> uval v \<le> 0x12345678 \<and> (0x12345678 - uval v) * 2 ^ 15 \<le> 0x12345678 \<and> GetCompact v False = Some c"
  using GetCompact_roundtrip [of "base_uint_of 0x12345678"] by simp

text \<open>C0. \<^verbatim>\<open>ArithToUint256\<close> and \<^verbatim>\<open>UintToArith256\<close> are inverse to each other: eight limbs and a 32-byte blob.\<close>

theorem uint256_conversion_roundtrip:
  assumes "length a = WIDTH" and "length b = 32"
  shows "UintToArith256 (ArithToUint256 a) = a \<and> ArithToUint256 (UintToArith256 b) = b"
  using UintToArith256_ArithToUint256 [OF assms(1)] ArithToUint256_UintToArith256 [OF assms(2)] by simp

theorem uint256_conversion_roundtrip_witness:
  "UintToArith256 (ArithToUint256 (base_uint_of 0x123456789abcdef0)) = base_uint_of 0x123456789abcdef0
    \<and> ArithToUint256 (UintToArith256 (replicate 31 0 @ [5])) = replicate 31 0 @ [5]"
  using uint256_conversion_roundtrip [of "base_uint_of 0x123456789abcdef0" "replicate 31 0 @ [5]"] by simp

end
