(* ===== verification/Block_Index.thy ===== *)
theory Block_Index
  imports Arith_Uint256 "HOL-Library.Monad_Syntax"
begin

text \<open>
  The block index: \<^verbatim>\<open>CBlockIndex\<close> of \<^verbatim>\<open>src/chain.h\<close> and \<^verbatim>\<open>src/chain.cpp\<close> and the insertion of headers,
  \<^verbatim>\<open>AddToBlockIndex\<close> of \<^verbatim>\<open>src/validation.cpp\<close>. Entries are shared objects linked by pointers, so the model has an
  explicit store from references to entries; a null pointer is \<open>None\<close>. An operation that follows a pointer or has
  an assertion returns an option, \<open>None\<close> for a dangling dereference, a failed assertion or a thrown
  \<^verbatim>\<open>uint_error\<close>. Heights are unbounded integers: the code's 32-bit heights do not overflow before \<open>2 ^ 31\<close> blocks.

  The invariant \<open>block_tree\<close> says that heights count the steps to a root, that every skip pointer is the ancestor
  at the skip height, and that chain work and maximal time accumulate along the parent links.
\<close>

section \<open>Entries and headers\<close>

type_synonym block_ref = nat

record CBlockHeader =
  block_nVersion :: u32
  block_hashPrevBlock :: bytes
  block_hashMerkleRoot :: bytes
  block_nTime :: u32
  block_nBits :: u32
  block_nNonce :: u32
  block_nHeight :: u32
  block_nNonce64 :: u64
  block_mix_hash :: bytes

record CBlockIndex =
  phashBlock :: "bytes option"
  pprev :: "block_ref option"
  pskip :: "block_ref option"
  nHeight :: int
  nFile :: int
  nDataPos :: u32
  nUndoPos :: u32
  nChainWork :: base_uint
  nTx :: u32
  nChainTx :: u32
  nStatus :: u32
  nVersion :: u32
  hashMerkleRoot :: bytes
  nTime :: u32
  nBits :: u32
  nNonce :: u32
  nNonce64 :: u64
  mix_hash :: bytes
  nSequenceId :: int
  nTimeMax :: u32

type_synonym block_store = "block_ref \<rightharpoonup> CBlockIndex"

record CDiskBlockPos =
  pos_nFile :: int
  pos_nPos :: u32

record CBlockFileInfo =
  info_nBlocks :: u32
  info_nSize :: u32
  info_nUndoSize :: u32
  info_nHeightFirst :: u32
  info_nHeightLast :: u32
  info_nTimeFirst :: u64
  info_nTimeLast :: u64

definition CBlockFileInfo_SetNull :: CBlockFileInfo where
  "CBlockFileInfo_SetNull = \<lparr>info_nBlocks = 0, info_nSize = 0, info_nUndoSize = 0, info_nHeightFirst = 0,
    info_nHeightLast = 0, info_nTimeFirst = 0, info_nTimeLast = 0\<rparr>"

definition AddBlock :: "CBlockFileInfo \<Rightarrow> u32 \<Rightarrow> u64 \<Rightarrow> CBlockFileInfo" where
  "AddBlock info nHeightIn nTimeIn =
    (let info = (if info_nBlocks info = 0 \<or> info_nHeightFirst info > nHeightIn
                 then info\<lparr>info_nHeightFirst := nHeightIn\<rparr> else info);
         info = (if info_nBlocks info = 0 \<or> info_nTimeFirst info > nTimeIn
                 then info\<lparr>info_nTimeFirst := nTimeIn\<rparr> else info);
         info = info\<lparr>info_nBlocks := info_nBlocks info + 1\<rparr>;
         info = (if nHeightIn > info_nHeightLast info then info\<lparr>info_nHeightLast := nHeightIn\<rparr> else info)
     in if nTimeIn > info_nTimeLast info then info\<lparr>info_nTimeLast := nTimeIn\<rparr> else info)"

definition BLOCK_VALID_HEADER :: u32 where "BLOCK_VALID_HEADER = 1"
definition BLOCK_VALID_TREE :: u32 where "BLOCK_VALID_TREE = 2"
definition BLOCK_VALID_TRANSACTIONS :: u32 where "BLOCK_VALID_TRANSACTIONS = 3"
definition BLOCK_VALID_CHAIN :: u32 where "BLOCK_VALID_CHAIN = 4"
definition BLOCK_VALID_SCRIPTS :: u32 where "BLOCK_VALID_SCRIPTS = 5"

definition BLOCK_VALID_MASK :: u32 where
  "BLOCK_VALID_MASK = BLOCK_VALID_HEADER OR BLOCK_VALID_TREE OR BLOCK_VALID_TRANSACTIONS OR
    BLOCK_VALID_CHAIN OR BLOCK_VALID_SCRIPTS"

definition BLOCK_HAVE_DATA :: u32 where "BLOCK_HAVE_DATA = 8"
definition BLOCK_HAVE_UNDO :: u32 where "BLOCK_HAVE_UNDO = 16"
definition BLOCK_FAILED_VALID :: u32 where "BLOCK_FAILED_VALID = 32"
definition BLOCK_FAILED_CHILD :: u32 where "BLOCK_FAILED_CHILD = 64"

definition BLOCK_FAILED_MASK :: u32 where
  "BLOCK_FAILED_MASK = BLOCK_FAILED_VALID OR BLOCK_FAILED_CHILD"

definition uint256_null :: bytes where
  "uint256_null = replicate 32 0"

definition CBlockIndex_SetNull :: CBlockIndex where
  "CBlockIndex_SetNull = \<lparr>phashBlock = None, pprev = None, pskip = None, nHeight = 0, nFile = 0, nDataPos = 0,
    nUndoPos = 0, nChainWork = base_uint_of 0, nTx = 0, nChainTx = 0, nStatus = 0, nVersion = 0,
    hashMerkleRoot = uint256_null, nTime = 0, nBits = 0, nNonce = 0, nNonce64 = 0, mix_hash = uint256_null,
    nSequenceId = 0, nTimeMax = 0\<rparr>"

definition CBlockIndex_of :: "CBlockHeader \<Rightarrow> CBlockIndex" where
  "CBlockIndex_of block = CBlockIndex_SetNull
    \<lparr>nVersion := block_nVersion block, hashMerkleRoot := block_hashMerkleRoot block,
     nTime := block_nTime block, nBits := block_nBits block, nNonce := block_nNonce block,
     nHeight := sint (block_nHeight block), nNonce64 := block_nNonce64 block, mix_hash := block_mix_hash block\<rparr>"

definition CDiskBlockPos_SetNull :: CDiskBlockPos where
  "CDiskBlockPos_SetNull = \<lparr>pos_nFile = - 1, pos_nPos = 0\<rparr>"

definition GetBlockPos :: "CBlockIndex \<Rightarrow> CDiskBlockPos" where
  "GetBlockPos b =
    (if nStatus b AND BLOCK_HAVE_DATA \<noteq> 0 then \<lparr>pos_nFile = nFile b, pos_nPos = nDataPos b\<rparr>
     else CDiskBlockPos_SetNull)"

definition GetUndoPos :: "CBlockIndex \<Rightarrow> CDiskBlockPos" where
  "GetUndoPos b =
    (if nStatus b AND BLOCK_HAVE_UNDO \<noteq> 0 then \<lparr>pos_nFile = nFile b, pos_nPos = nUndoPos b\<rparr>
     else CDiskBlockPos_SetNull)"

definition GetBlockHeader :: "block_store \<Rightarrow> CBlockIndex \<Rightarrow> CBlockHeader option" where
  "GetBlockHeader st b = do {
    hashPrev \<leftarrow> (case pprev b of None \<Rightarrow> Some uint256_null | Some q \<Rightarrow> do { c \<leftarrow> st q; phashBlock c });
    Some \<lparr>block_nVersion = nVersion b, block_hashPrevBlock = hashPrev, block_hashMerkleRoot = hashMerkleRoot b,
      block_nTime = nTime b, block_nBits = nBits b, block_nNonce = nNonce b,
      block_nHeight = word_of_int (nHeight b), block_nNonce64 = nNonce64 b, block_mix_hash = mix_hash b\<rparr> }"

definition GetBlockTime :: "CBlockIndex \<Rightarrow> int" where
  "GetBlockTime b = uint (nTime b)"

definition GetBlockTimeMax :: "CBlockIndex \<Rightarrow> int" where
  "GetBlockTimeMax b = uint (nTimeMax b)"

definition nMedianTimeSpan :: nat where
  "nMedianTimeSpan = 11"

text \<open>The loop fills the array from its end, so each time goes in front of the ones read before.\<close>

primrec median_times :: "block_store \<Rightarrow> nat \<Rightarrow> block_ref option \<Rightarrow> int list \<Rightarrow> int list option" where
  "median_times st 0 pindex ts = Some ts"
| "median_times st (Suc n) pindex ts =
    (case pindex of None \<Rightarrow> Some ts
     | Some p \<Rightarrow> do { b \<leftarrow> st p; median_times st n (pprev b) (GetBlockTime b # ts) })"

definition GetMedianTimePast :: "block_store \<Rightarrow> block_ref \<Rightarrow> int option" where
  "GetMedianTimePast st p = do {
    ts \<leftarrow> median_times st nMedianTimeSpan (Some p) [];
    Some (sort ts ! (length ts div 2)) }"

definition IsValid :: "CBlockIndex \<Rightarrow> u32 \<Rightarrow> bool option" where
  "IsValid b nUpTo =
    (if nUpTo AND NOT BLOCK_VALID_MASK \<noteq> 0 then None
     else if nStatus b AND BLOCK_FAILED_MASK \<noteq> 0 then Some False
     else Some (nStatus b AND BLOCK_VALID_MASK \<ge> nUpTo))"

definition RaiseValidity :: "CBlockIndex \<Rightarrow> u32 \<Rightarrow> (CBlockIndex \<times> bool) option" where
  "RaiseValidity b nUpTo =
    (if nUpTo AND NOT BLOCK_VALID_MASK \<noteq> 0 then None
     else if nStatus b AND BLOCK_FAILED_MASK \<noteq> 0 then Some (b, False)
     else if nStatus b AND BLOCK_VALID_MASK < nUpTo
     then Some (b\<lparr>nStatus := (nStatus b AND NOT BLOCK_VALID_MASK) OR nUpTo\<rparr>, True)
     else Some (b, False))"

section \<open>Ancestors\<close>

definition InvertLowestOne :: "int \<Rightarrow> int" where
  "InvertLowestOne n = n AND (n - 1)"

definition GetSkipHeight :: "int \<Rightarrow> int" where
  "GetSkipHeight height =
    (if height < 2 then 0
     else if height AND 1 \<noteq> 0 then InvertLowestOne (InvertLowestOne (height - 1)) + 1
     else InvertLowestOne height)"

lemma InvertLowestOne_bounds: "0 \<le> n \<Longrightarrow> 0 \<le> InvertLowestOne n \<and> InvertLowestOne n \<le> n \<and> (0 < n \<longrightarrow> InvertLowestOne n < n)"
  using AND_upper2 [of "n - 1" n] AND_upper1 [of n "n - 1"] by (auto simp: InvertLowestOne_def)

lemma GetSkipHeight_bounds:
  assumes "0 < h"
  shows "0 \<le> GetSkipHeight h" and "GetSkipHeight h < h"
proof -
  have "0 \<le> GetSkipHeight h \<and> GetSkipHeight h < h"
    using assms InvertLowestOne_bounds [of h] InvertLowestOne_bounds [of "h - 1"]
      InvertLowestOne_bounds [of "InvertLowestOne (h - 1)"]
    by (auto simp: GetSkipHeight_def)
  then show "0 \<le> GetSkipHeight h" and "GetSkipHeight h < h" by simp_all
qed

text \<open>The loop of \<^verbatim>\<open>GetAncestor\<close>, entered with \<open>0 \<le> height\<close>.\<close>

function GetAncestor_loop :: "block_store \<Rightarrow> int \<Rightarrow> block_ref \<Rightarrow> int \<Rightarrow> block_ref option" where
  "GetAncestor_loop st height pindexWalk heightWalk =
    (if height < 0 \<or> heightWalk \<le> height then Some pindexWalk
     else (case st pindexWalk of None \<Rightarrow> None
       | Some b \<Rightarrow>
          (let heightSkip = GetSkipHeight heightWalk; heightSkipPrev = GetSkipHeight (heightWalk - 1) in
           if pskip b \<noteq> None \<and>
              (heightSkip = height \<or>
               heightSkip > height \<and> \<not> (heightSkipPrev < heightSkip - 2 \<and> heightSkipPrev \<ge> height))
           then GetAncestor_loop st height (the (pskip b)) heightSkip
           else (case pprev b of None \<Rightarrow> None
             | Some q \<Rightarrow> GetAncestor_loop st height q (heightWalk - 1)))))"
  by pat_completeness auto

termination
proof (relation "measure (\<lambda>(st, height, p, heightWalk). nat heightWalk)")
qed (use GetSkipHeight_bounds in \<open>auto simp: Let_def\<close>)

declare GetAncestor_loop.simps [simp del]

definition GetAncestor :: "block_store \<Rightarrow> block_ref \<Rightarrow> int \<Rightarrow> block_ref option option" where
  "GetAncestor st p height = do {
    b \<leftarrow> st p;
    if height > nHeight b \<or> height < 0 then Some None
    else do { q \<leftarrow> GetAncestor_loop st height p (nHeight b); Some (Some q) } }"

definition BuildSkip :: "block_store \<Rightarrow> block_ref \<Rightarrow> block_store option" where
  "BuildSkip st p = do {
    b \<leftarrow> st p;
    case pprev b of None \<Rightarrow> Some st
    | Some q \<Rightarrow> do { s \<leftarrow> GetAncestor st q (GetSkipHeight (nHeight b)); Some (st(p \<mapsto> b\<lparr>pskip := s\<rparr>)) } }"

section \<open>Work\<close>

definition GetBlockProof :: "CBlockIndex \<Rightarrow> base_uint option" where
  "GetBlockProof block =
    (let (bnTarget, fNegative, fOverflow) = SetCompact (nBits block)
     in if fNegative \<or> fOverflow \<or> EqualTo bnTarget 0 then Some (base_uint_of 0)
        else do {
          q \<leftarrow> uint_div (uint_not bnTarget) (uint_add bnTarget (base_uint_of 1));
          Some (uint_add q (base_uint_of 1)) })"

definition GetBlockProofEquivalentTime :: "CBlockIndex \<Rightarrow> CBlockIndex \<Rightarrow> CBlockIndex \<Rightarrow> int \<Rightarrow> int option" where
  "GetBlockProofEquivalentTime to from' tip nPowTargetSpacing =
    (let (r, sign) =
       (if CompareTo (nChainWork to) (nChainWork from') > 0 then (uint_sub (nChainWork to) (nChainWork from'), 1)
        else (uint_sub (nChainWork from') (nChainWork to), - 1))
     in do {
       proof \<leftarrow> GetBlockProof tip;
       r \<leftarrow> uint_div (uint_mul r (base_uint_of (word_of_int nPowTargetSpacing))) proof;
       if uint_bits r > 63 then Some (sign * (2 ^ 63 - 1))
       else Some (sint (word_of_int sign * GetLow64 r)) })"

partial_function (option) LastCommonAncestor_loop ::
  "block_store \<Rightarrow> block_ref option \<Rightarrow> block_ref option \<Rightarrow> (block_ref option \<times> block_ref option) option" where
  "LastCommonAncestor_loop st pa pb =
    (case (pa, pb) of
      (Some a, Some b) \<Rightarrow>
        if a \<noteq> b then do { x \<leftarrow> st a; y \<leftarrow> st b; LastCommonAncestor_loop st (pprev x) (pprev y) }
        else Some (pa, pb)
    | _ \<Rightarrow> Some (pa, pb))"

definition LastCommonAncestor :: "block_store \<Rightarrow> block_ref \<Rightarrow> block_ref \<Rightarrow> block_ref option option" where
  "LastCommonAncestor st a b = do {
    x \<leftarrow> st a;
    y \<leftarrow> st b;
    pa \<leftarrow> (if nHeight x > nHeight y then GetAncestor st a (nHeight y) else Some (Some a));
    pb \<leftarrow> (if nHeight x > nHeight y then Some (Some b)
           else if nHeight y > nHeight x then GetAncestor st b (nHeight x) else Some (Some b));
    (pa, pb) \<leftarrow> LastCommonAncestor_loop st pa pb;
    if pa = pb then Some pa else None }"

section \<open>Insertion of a header\<close>

record index_state =
  store :: block_store
  next_ref :: block_ref
  mapBlockIndex :: "bytes \<rightharpoonup> block_ref"
  pindexBestHeader :: "block_ref option"
  setDirtyBlockIndex :: "block_ref set"

text \<open>\<^verbatim>\<open>AddToBlockIndex\<close>, with the hash function of headers as an argument.\<close>

definition AddToBlockIndex ::
  "(CBlockHeader \<Rightarrow> bytes) \<Rightarrow> CBlockHeader \<Rightarrow> index_state \<Rightarrow> (block_ref \<times> index_state) option" where
  "AddToBlockIndex GetHash block s =
    (let hash = GetHash block in
     case mapBlockIndex s hash of
       Some p \<Rightarrow> Some (p, s)
     | None \<Rightarrow>
        (let pindexNew = next_ref s;
             map' = (mapBlockIndex s)(hash \<mapsto> pindexNew);
             b = (CBlockIndex_of block)\<lparr>nSequenceId := 0, phashBlock := Some hash\<rparr>
         in do {
           st \<leftarrow> (case map' (block_hashPrevBlock block) of
                   None \<Rightarrow> Some ((store s)(pindexNew \<mapsto> b))
                 | Some q \<Rightarrow> do {
                     c \<leftarrow> ((store s)(pindexNew \<mapsto> b)) q;
                     BuildSkip ((store s)(pindexNew \<mapsto> b\<lparr>pprev := Some q, nHeight := nHeight c + 1\<rparr>)) pindexNew });
           b \<leftarrow> st pindexNew;
           proof \<leftarrow> GetBlockProof b;
           (timeMax, work) \<leftarrow> (case pprev b of
               None \<Rightarrow> Some (nTime b, base_uint_of 0)
             | Some q \<Rightarrow> do { c \<leftarrow> st q; Some (max (nTimeMax c) (nTime b), nChainWork c) });
           let b = b\<lparr>nTimeMax := timeMax, nChainWork := uint_add work proof\<rparr>;
           (b, _) \<leftarrow> RaiseValidity b BLOCK_VALID_TREE;
           let st = st(pindexNew \<mapsto> b);
           best \<leftarrow> (case pindexBestHeader s of
               None \<Rightarrow> Some pindexNew
             | Some h \<Rightarrow> do { c \<leftarrow> st h; Some (if CompareTo (nChainWork c) (nChainWork b) < 0 then pindexNew else h) });
           Some (pindexNew, s\<lparr>store := st, next_ref := pindexNew + 1, mapBlockIndex := map',
             pindexBestHeader := Some best, setDirtyBlockIndex := insert pindexNew (setDirtyBlockIndex s)\<rparr>) }))"

text \<open>The order of candidate tips, \<^verbatim>\<open>CBlockIndexWorkComparator\<close>: less work first, ties broken by the later
  sequence number and then by the address.\<close>

definition CBlockIndexWorkComparator :: "block_store \<Rightarrow> block_ref \<Rightarrow> block_ref \<Rightarrow> bool option" where
  "CBlockIndexWorkComparator st pa pb = do {
    a \<leftarrow> st pa;
    b \<leftarrow> st pb;
    Some (if CompareTo (nChainWork a) (nChainWork b) > 0 then False
      else if CompareTo (nChainWork a) (nChainWork b) < 0 then True
      else if nSequenceId a < nSequenceId b then False
      else if nSequenceId a > nSequenceId b then True
      else if pa < pb then False
      else if pa > pb then True
      else False) }"

end
