(* ===== verification/Block_Tree.thy ===== *)
theory Block_Tree
  imports Block_Index "HOL-Library.Multiset"
begin

text \<open>
  The invariant of the block index and what it gives: ancestors found through skip pointers are the ones found by
  walking parents, insertion keeps the index a tree whose work, times and best header are right, and two entries
  have a last common ancestor.
\<close>

section \<open>The work of a block\<close>

definition block_work :: "u32 \<Rightarrow> nat" where
  "block_work bits =
    (let (t, fNegative, fOverflow) = SetCompact bits
     in if fNegative \<or> fOverflow \<or> uval t = 0 then 0 else 2 ^ 256 div (uval t + 1))"

lemma length_8_conv: "length a = WIDTH \<Longrightarrow> a = [a ! 0, a ! 1, a ! 2, a ! 3, a ! 4, a ! 5, a ! 6, a ! 7]"
  by (rule nth_equalityI) (auto simp: WIDTH_def less_Suc_eq nth_Cons' numeral_eq_Suc)

lemma EqualTo_zero:
  assumes "length a = WIDTH"
  shows "EqualTo a 0 \<longleftrightarrow> uval a = 0"
proof -
  have idx: "{2..<WIDTH} = {2, 3, 4, 5, 6, 7}" by (auto simp: WIDTH_def)
  have val: "uval a = 0 \<longleftrightarrow> (\<forall>i \<in> {0, 1, 2, 3, 4, 5, 6, 7}. a ! i = 0)"
    by (subst length_8_conv [OF assms]) (simp add: unat_eq_0)
  show ?thesis unfolding val EqualTo_def idx by auto
qed

text \<open>A decoded target is never \<open>2 ^ 256 - 1\<close>: the successor does not wrap.\<close>

lemma SetCompact_target:
  assumes "SetCompact n = (t, fNegative, False)"
  shows "length t = WIDTH" and "uval t + 1 < 2 ^ 256"
proof -
  define e m where "e = unat n div 2 ^ 24" and "m = unat n mod 2 ^ 23"
  define m' where "m' = (if e \<le> 3 then m div 256 ^ (3 - e) else m)"
  obtain a where a: "SetCompact n = (a, m' \<noteq> 0 \<and> bit n 23, 3 < e \<and> 2 ^ 256 \<le> m * 256 ^ (e - 3))"
    "length a = WIDTH" "uval a = (if e \<le> 3 then m' else (m * 256 ^ (e - 3)) mod 2 ^ 256)"
    using SetCompact_value [OF e_def m_def m'_def] by metis
  with assms have t: "t = a" "3 < e \<Longrightarrow> m * 256 ^ (e - 3) < 2 ^ 256" by auto
  show "length t = WIDTH" using t(1) a(2) by simp
  show "uval t + 1 < 2 ^ 256"
  proof (cases "e \<le> 3")
    case True
    have "m < 2 ^ 23" by (simp add: m_def)
    then have "m div 256 ^ (3 - e) < 2 ^ 23" using div_le_dividend le_less_trans by blast
    then show ?thesis using True a(3) t(1) by (simp add: m'_def)
  next
    case False
    then have "uval t = m * 256 ^ (e - 3)" using a(3) t by simp
    moreover have "256 ^ (e - 3) = 2 * (128 * 256 ^ (e - 4) :: nat)"
    proof -
      have "e - 3 = Suc (e - 4)" using False by simp
      then show ?thesis by simp
    qed
    ultimately have "even (uval t)" by simp
    then have "uval t + 1 \<noteq> 2 ^ 256" by (metis even_numeral even_plus_one_iff even_power zero_less_numeral)
    then show ?thesis using uval_bound [of t] t(1) a(2) by (simp add: WIDTH_def)
  qed
qed

lemma proof_formula:
  fixes t :: nat
  assumes "t + 1 \<le> N"
  shows "(N - 1 - t) div (t + 1) + 1 = N div (t + 1)"
proof -
  have "N = (N - 1 - t) + (t + 1)" using assms by simp
  then have "N div (t + 1) = ((N - 1 - t) + (t + 1)) div (t + 1)" by simp
  also have "\<dots> = (N - 1 - t) div (t + 1) + 1" by (rule div_add_self2) simp
  finally show ?thesis by simp
qed

lemma GetBlockProof_value:
  obtains w where "GetBlockProof b = Some w" and "length w = WIDTH" and "uval w = block_work (nBits b)"
proof -
  obtain t fNegative fOverflow where sc: "SetCompact (nBits b) = (t, fNegative, fOverflow)"
    by (cases "SetCompact (nBits b)") auto
  show thesis
  proof (cases "fNegative \<or> fOverflow \<or> uval t = 0")
    case True
    then have "fNegative \<or> fOverflow \<or> EqualTo t 0"
      using EqualTo_zero [of t] SetCompact_target(1) [of "nBits b" t fNegative] sc by (cases fOverflow) auto
    with sc True show thesis using that [of "base_uint_of 0"] by (auto simp: GetBlockProof_def block_work_def)
  next
    case False
    with sc have sc: "SetCompact (nBits b) = (t, False, False)" and pos: "uval t \<noteq> 0" by auto
    note t = SetCompact_target [OF sc]
    have len: "32 * length t = 256" using t(1) by (simp add: WIDTH_def)
    have succ: "uval (uint_add t (base_uint_of 1)) = uval t + 1"
      using uval_add [of t "base_uint_of 1"] t by (simp add: WIDTH_def)
    have compl: "uval (uint_not t) = 2 ^ 256 - 1 - uval t" using uval_not [of t] by (simp only: len)
    obtain q where q: "uint_div (uint_not t) (uint_add t (base_uint_of 1)) = Some q" "length q = WIDTH"
      "uval q = (2 ^ 256 - 1 - uval t) div (uval t + 1)"
      using uint_div_quotient [of "uint_not t" "uint_add t (base_uint_of 1)"] t(1) by (auto simp: succ compl)
    have "uval q + 1 = 2 ^ 256 div (uval t + 1)"
      unfolding q(3) by (rule proof_formula) (use t(2) in simp)
    moreover have "\<dots> \<le> 2 ^ 256 div 2" using pos by (intro div_le_mono2) simp_all
    ultimately have "uval (uint_add q (base_uint_of 1)) = 2 ^ 256 div (uval t + 1)"
      using uval_add [of q "base_uint_of 1"] q(2) by (simp add: WIDTH_def)
    moreover have "\<not> EqualTo t 0" using EqualTo_zero [OF t(1)] pos by simp
    ultimately show thesis
      using that [of "uint_add q (base_uint_of 1)"] sc q pos by (simp add: GetBlockProof_def block_work_def)
  qed
qed

section \<open>Walking the parents\<close>

primrec anc :: "block_store \<Rightarrow> nat \<Rightarrow> block_ref \<Rightarrow> block_ref option" where
  "anc st 0 p = Some p"
| "anc st (Suc n) p = do { b \<leftarrow> st p; q \<leftarrow> pprev b; anc st n q }"

lemma anc_add: "anc st (m + n) p = do { q \<leftarrow> anc st m p; anc st n q }"
  by (induction m arbitrary: p) (auto split: bind_splits)

lemma anc_Suc_end: "anc st (Suc n) p = do { q \<leftarrow> anc st n p; b \<leftarrow> st q; pprev b }"
  using anc_add [of st n 1 p] by (auto split: bind_splits)

lemma map_leD: "st \<subseteq>\<^sub>m st' \<Longrightarrow> st p = Some b \<Longrightarrow> st' p = Some b"
  by (metis map_le_def domI)

lemma anc_mono: "st \<subseteq>\<^sub>m st' \<Longrightarrow> anc st n p = Some q \<Longrightarrow> anc st' n p = Some q"
proof (induction n arbitrary: p)
  case (Suc n)
  then show ?case by (auto simp: map_le_def bind_eq_Some_conv dom_def)
qed simp

section \<open>The invariant\<close>

definition parent_ok :: "block_store \<Rightarrow> CBlockIndex \<Rightarrow> bool" where
  "parent_ok st b \<longleftrightarrow>
    (case pprev b of
       None \<Rightarrow> nHeight b = 0 \<and> uval (nChainWork b) = block_work (nBits b) \<and> nTimeMax b = nTime b
     | Some q \<Rightarrow> (\<exists>c. st q = Some c \<and> nHeight b = nHeight c + 1
         \<and> uval (nChainWork b) = (uval (nChainWork c) + block_work (nBits b)) mod 2 ^ 256
         \<and> nTimeMax b = max (nTimeMax c) (nTime b)))"

definition skip_ok :: "block_store \<Rightarrow> block_ref \<Rightarrow> CBlockIndex \<Rightarrow> bool" where
  "skip_ok st p b \<longleftrightarrow>
    (case pprev b of
       None \<Rightarrow> pskip b = None
     | Some q \<Rightarrow> (\<exists>s. pskip b = Some s \<and> anc st (nat (nHeight b - GetSkipHeight (nHeight b))) p = Some s))"

lemma skip_okD: "skip_ok st p b \<Longrightarrow> pskip b = Some s \<Longrightarrow> anc st (nat (nHeight b - GetSkipHeight (nHeight b))) p = Some s"
  by (auto simp: skip_ok_def split: option.splits)

definition block_tree :: "block_store \<Rightarrow> bool" where
  "block_tree st \<longleftrightarrow>
    (\<forall>p b. st p = Some b \<longrightarrow> 0 \<le> nHeight b \<and> length (nChainWork b) = WIDTH \<and> parent_ok st b \<and> skip_ok st p b)"

lemma block_treeD:
  assumes "block_tree st" and "st p = Some b"
  shows "0 \<le> nHeight b" and "length (nChainWork b) = WIDTH" and "parent_ok st b" and "skip_ok st p b"
  using assms unfolding block_tree_def by blast+

lemma parent_step:
  assumes "block_tree st" and "st p = Some b" and "0 < nHeight b"
  obtains q c where "pprev b = Some q" and "st q = Some c" and "nHeight c = nHeight b - 1"
  using block_treeD(3) [OF assms(1,2)] assms(3) by (auto simp: parent_ok_def split: option.splits)

lemma anc_height:
  assumes "block_tree st" and "st p = Some b" and "int n \<le> nHeight b"
  obtains q c where "anc st n p = Some q" and "st q = Some c" and "nHeight c = nHeight b - int n"
  using assms(2,3)
proof (induction n arbitrary: p b thesis)
  case (Suc n)
  then have "0 < nHeight b" by simp
  then obtain q c where q: "pprev b = Some q" "st q = Some c" "nHeight c = nHeight b - 1"
    using parent_step [OF assms(1) Suc.prems(2)] by blast
  moreover have "int n \<le> nHeight c" using q(3) Suc.prems(3) by simp
  ultimately obtain r d where "anc st n q = Some r" "st r = Some d" "nHeight d = nHeight c - int n"
    using Suc.IH by blast
  then show ?case using Suc.prems(1) [of r d] Suc.prems(2) q by simp
qed simp

lemma anc_bounded:
  assumes "block_tree st" and "anc st n p = Some q" and "st p = Some b"
  shows "int n \<le> nHeight b"
  using assms(2,3)
proof (induction n arbitrary: p b)
  case 0
  then show ?case using block_treeD(1) [OF assms(1)] by simp
next
  case (Suc n)
  then obtain r where r: "pprev b = Some r" "anc st n r = Some q" by (auto simp: bind_eq_Some_conv)
  then obtain c where "st r = Some c" "nHeight b = nHeight c + 1"
    using block_treeD(3) [OF assms(1) Suc.prems(2)] by (auto simp: parent_ok_def)
  with Suc.IH [OF r(2)] show ?case by simp
qed

section \<open>Skip pointers\<close>

lemma GetAncestor_loop_anc:
  assumes "block_tree st"
  shows "st p = Some b \<Longrightarrow> nHeight b = hw \<Longrightarrow> 0 \<le> height \<Longrightarrow> height \<le> hw \<Longrightarrow>
    GetAncestor_loop st height p hw = anc st (nat (hw - height)) p"
proof (induction "nat hw" arbitrary: p b hw rule: less_induct)
  case less
  show ?case
  proof (cases "hw = height")
    case True
    then show ?thesis by (simp add: GetAncestor_loop.simps)
  next
    case False
    then have pos: "0 < hw" "height < hw" using less.prems by simp_all
    note skip = GetSkipHeight_bounds [OF pos(1)]
    show ?thesis
    proof (cases "pskip b \<noteq> None \<and> (GetSkipHeight hw = height \<or> GetSkipHeight hw > height \<and>
        \<not> (GetSkipHeight (hw - 1) < GetSkipHeight hw - 2 \<and> GetSkipHeight (hw - 1) \<ge> height))")
      case True
      then obtain s where s: "pskip b = Some s" and le: "height \<le> GetSkipHeight hw" by auto
      have walk: "anc st (nat (hw - GetSkipHeight hw)) p = Some s"
        using skip_okD [OF block_treeD(4) [OF assms less.prems(1)] s] less.prems(2) by simp
      obtain c where c: "st s = Some c" "nHeight c = GetSkipHeight hw"
        
        by (rule anc_height [OF assms less.prems(1), of "nat (hw - GetSkipHeight hw)"])
          (use less.prems(2) skip walk in auto)
      have "GetAncestor_loop st height p hw = GetAncestor_loop st height s (GetSkipHeight hw)"
        using True pos less.prems s by (subst GetAncestor_loop.simps) (simp add: Let_def)
      also have "\<dots> = anc st (nat (GetSkipHeight hw - height)) s"
        using less.hyps [of "GetSkipHeight hw" s c] c le skip less.prems(3) pos by simp
      also have "\<dots> = anc st (nat (hw - GetSkipHeight hw) + nat (GetSkipHeight hw - height)) p"
        by (simp add: anc_add walk)
      also have "nat (hw - GetSkipHeight hw) + nat (GetSkipHeight hw - height) = nat (hw - height)"
        using le skip by simp
      finally show ?thesis .
    next
      case no_skip: False
      obtain q c where q: "pprev b = Some q" "st q = Some c" "nHeight c = hw - 1"
        using parent_step [OF assms less.prems(1)] less.prems(2) pos(1) by metis
      have "GetAncestor_loop st height p hw = GetAncestor_loop st height q (hw - 1)"
        using no_skip pos less.prems q by (subst GetAncestor_loop.simps) (auto simp: Let_def)
      also have "\<dots> = anc st (nat (hw - 1 - height)) q"
        using less.hyps [of "hw - 1" q c] q pos less.prems by simp
      also have "\<dots> = anc st (Suc (nat (hw - 1 - height))) p" using q less.prems by simp
      also have "Suc (nat (hw - 1 - height)) = nat (hw - height)" using pos by simp
      finally show ?thesis .
    qed
  qed
qed


lemma GetAncestor_anc:
  assumes "block_tree st" and "st p = Some b"
  shows "GetAncestor st p height =
    Some (if height < 0 \<or> nHeight b < height then None else anc st (nat (nHeight b - height)) p)"
proof (cases "height < 0 \<or> nHeight b < height")
  case True
  then show ?thesis using assms(2) by (auto simp: GetAncestor_def)
next
  case False
  obtain q c where "anc st (nat (nHeight b - height)) p = Some q"
    using anc_height [OF assms, of "nat (nHeight b - height)"] False by fastforce
  then show ?thesis
    using GetAncestor_loop_anc [OF assms, of "nHeight b" height] False assms(2) by (simp add: GetAncestor_def)
qed

lemma GetAncestor_height:
  assumes "block_tree st" and "st p = Some b" and "0 \<le> height" and "height \<le> nHeight b"
  obtains q c where "GetAncestor st p height = Some (Some q)" and "anc st (nat (nHeight b - height)) p = Some q"
    and "st q = Some c" and "nHeight c = height"
proof -
  obtain q c where "anc st (nat (nHeight b - height)) p = Some q" "st q = Some c" "nHeight c = height"
    by (rule anc_height [OF assms(1,2), of "nat (nHeight b - height)"]) (use assms(3,4) in auto)
  then show thesis using that GetAncestor_anc [OF assms(1,2), of height] assms(3,4) by auto
qed

section \<open>Insertion\<close>

lemma parent_ok_mono: "st \<subseteq>\<^sub>m st' \<Longrightarrow> parent_ok st b \<Longrightarrow> parent_ok st' b"
  by (auto simp: parent_ok_def map_le_def dom_def split: option.splits)

lemma skip_ok_mono: "st \<subseteq>\<^sub>m st' \<Longrightarrow> skip_ok st p b \<Longrightarrow> skip_ok st' p b"
  using anc_mono by (auto simp: skip_ok_def split: option.splits)

lemma fresh_map_le: "st p = None \<Longrightarrow> st \<subseteq>\<^sub>m st(p \<mapsto> b)"
  by (auto simp: map_le_def)

lemma block_tree_insert:
  assumes "block_tree st" and "st p = None"
    and "0 \<le> nHeight b" and "length (nChainWork b) = WIDTH"
    and "parent_ok (st(p \<mapsto> b)) b" and "skip_ok (st(p \<mapsto> b)) p b"
  shows "block_tree (st(p \<mapsto> b))"
proof -
  have "st \<subseteq>\<^sub>m st(p \<mapsto> b)" using assms(2) by (rule fresh_map_le)
  note mono = parent_ok_mono [OF this] skip_ok_mono [OF this]
  show ?thesis using assms mono by (auto simp: block_tree_def)
qed

text \<open>A walk that succeeds is the same in every extension of the store.\<close>

lemma GetAncestor_loop_mono:
  "st \<subseteq>\<^sub>m st' \<Longrightarrow> GetAncestor_loop st height p hw = Some q \<Longrightarrow> GetAncestor_loop st' height p hw = Some q"
proof (induction st height p hw rule: GetAncestor_loop.induct)
  case (1 st height p hw)
  show ?case
  proof (cases "height < 0 \<or> hw \<le> height")
    case True
    with 1 show ?thesis by (simp add: GetAncestor_loop.simps)
  next
    case False
    have run: "GetAncestor_loop st height p hw = Some q" using 1(4) .
    obtain b where b: "st p = Some b"
      using run unfolding GetAncestor_loop.simps [of st height p hw] if_not_P [OF False] by (cases "st p") simp_all
    have b2: "st' p = Some b" using map_leD [OF 1(3) b] .
    show ?thesis
    proof (cases "pskip b \<noteq> None \<and> (GetSkipHeight hw = height \<or> GetSkipHeight hw > height \<and>
        \<not> (GetSkipHeight (hw - 1) < GetSkipHeight hw - 2 \<and> GetSkipHeight (hw - 1) \<ge> height))")
      case True
      note step = GetAncestor_loop.simps [of _ height p hw, unfolded Let_def]
      have "GetAncestor_loop st height (the (pskip b)) (GetSkipHeight hw) = Some q"
        using run unfolding step if_not_P [OF False] b option.case if_P [OF True] .
      then have "GetAncestor_loop st' height (the (pskip b)) (GetSkipHeight hw) = Some q"
        using 1(1) [OF False b refl refl True 1(3)] by blast
      then show ?thesis unfolding step if_not_P [OF False] b2 option.case if_P [OF True] .
    next
      case no_skip: False
      note step = GetAncestor_loop.simps [of _ height p hw, unfolded Let_def]
      obtain r where r: "pprev b = Some r" "GetAncestor_loop st height r (hw - 1) = Some q"
        using run unfolding step if_not_P [OF False] b option.case if_not_P [OF no_skip]
        by (cases "pprev b") auto
      then have "GetAncestor_loop st' height r (hw - 1) = Some q"
        using 1(2) [OF False b refl refl no_skip r(1) 1(3)] by blast
      then show ?thesis unfolding step if_not_P [OF False] b2 option.case if_not_P [OF no_skip] r(1) .
    qed
  qed
qed

lemma GetAncestor_mono: "st \<subseteq>\<^sub>m st' \<Longrightarrow> GetAncestor st p height = Some r \<Longrightarrow> GetAncestor st' p height = Some r"
  using GetAncestor_loop_mono [of st st' height p]
  by (auto simp: GetAncestor_def bind_eq_Some_conv map_le_def dom_def split: if_splits)

text \<open>The whole index: the hash map and the entries correspond one to one, and the best header has the most work.\<close>

definition index_inv :: "index_state \<Rightarrow> bool" where
  "index_inv s \<longleftrightarrow> block_tree (store s)
    \<and> (\<forall>p b. store s p = Some b \<longrightarrow> p < next_ref s \<and> phashBlock b \<noteq> None)
    \<and> (\<forall>h p. mapBlockIndex s h = Some p \<longleftrightarrow> (\<exists>b. store s p = Some b \<and> phashBlock b = Some h))
    \<and> (\<forall>p b. store s p = Some b \<longrightarrow>
        (\<exists>q c. pindexBestHeader s = Some q \<and> store s q = Some c \<and> uval (nChainWork b) \<le> uval (nChainWork c)))
    \<and> (\<forall>q. pindexBestHeader s = Some q \<longrightarrow> (\<exists>c. store s q = Some c))"

definition index_empty :: index_state where
  "index_empty = \<lparr>store = Map.empty, next_ref = 0, mapBlockIndex = Map.empty, pindexBestHeader = None,
    setDirtyBlockIndex = {}\<rparr>"

text \<open>A header that the callers hand to \<^verbatim>\<open>AddToBlockIndex\<close>: its parent is known, or it is a genesis header.\<close>

definition header_ok :: "(CBlockHeader \<Rightarrow> bytes) \<Rightarrow> index_state \<Rightarrow> CBlockHeader \<Rightarrow> bool" where
  "header_ok GetHash s block \<longleftrightarrow>
    mapBlockIndex s (block_hashPrevBlock block) \<noteq> None \<or>
    block_nHeight block = 0 \<and> block_hashPrevBlock block \<noteq> GetHash block"

lemma BLOCK_VALID_TREE_flag: "BLOCK_VALID_TREE AND NOT BLOCK_VALID_MASK = 0"
  by (simp add: BLOCK_VALID_TREE_def BLOCK_VALID_MASK_def BLOCK_VALID_HEADER_def BLOCK_VALID_TRANSACTIONS_def
      BLOCK_VALID_CHAIN_def BLOCK_VALID_SCRIPTS_def)

lemma RaiseValidity_status:
  obtains x r where "RaiseValidity b BLOCK_VALID_TREE = Some (b\<lparr>nStatus := x\<rparr>, r)"
proof -
  have "b = b\<lparr>nStatus := nStatus b\<rparr>" by simp
  then show thesis using that BLOCK_VALID_TREE_flag unfolding RaiseValidity_def by metis
qed

lemma CBlockIndex_of_simps [simp]:
  "pprev (CBlockIndex_of block) = None" "pskip (CBlockIndex_of block) = None"
  "nHeight (CBlockIndex_of block) = sint (block_nHeight block)" "nBits (CBlockIndex_of block) = block_nBits block"
  "nTime (CBlockIndex_of block) = block_nTime block"
  by (simp_all add: CBlockIndex_of_def CBlockIndex_SetNull_def)

lemma GetAncestor_skip:
  assumes "block_tree st" and "st q = Some c"
  obtains s where "GetAncestor st q (GetSkipHeight (nHeight c + 1)) = Some (Some s)"
    and "anc st (nat (nHeight c - GetSkipHeight (nHeight c + 1))) q = Some s"
    and "GetSkipHeight (nHeight c + 1) \<le> nHeight c"
proof -
  have "0 \<le> nHeight c" by (rule block_treeD(1) [OF assms])
  then have "0 \<le> GetSkipHeight (nHeight c + 1)" "GetSkipHeight (nHeight c + 1) \<le> nHeight c"
    using GetSkipHeight_bounds [of "nHeight c + 1"] by simp_all
  with GetAncestor_height [OF assms] that show thesis by metis
qed

text \<open>A new entry: its fields, and that no step of the insertion aborts.\<close>

definition new_entry :: "(CBlockHeader \<Rightarrow> bytes) \<Rightarrow> CBlockHeader \<Rightarrow> index_state \<Rightarrow> CBlockIndex \<Rightarrow> bool" where
  "new_entry GetHash block s b \<longleftrightarrow>
    phashBlock b = Some (GetHash block) \<and> nBits b = block_nBits block \<and> nTime b = block_nTime block
    \<and> pprev b = mapBlockIndex s (block_hashPrevBlock block)
    \<and> 0 \<le> nHeight b \<and> length (nChainWork b) = WIDTH
    \<and> parent_ok (store s) b \<and> skip_ok ((store s)(next_ref s \<mapsto> b)) (next_ref s) b"

definition insert_entry :: "bytes \<Rightarrow> CBlockIndex \<Rightarrow> index_state \<Rightarrow> (block_ref \<times> index_state) option" where
  "insert_entry hash b s =
    (let n = next_ref s; st = (store s)(n \<mapsto> b) in do {
      best \<leftarrow> (case pindexBestHeader s of None \<Rightarrow> Some n
        | Some h \<Rightarrow> do { c \<leftarrow> st h; Some (if CompareTo (nChainWork c) (nChainWork b) < 0 then n else h) });
      Some (n, s\<lparr>store := st, next_ref := n + 1, mapBlockIndex := (mapBlockIndex s)(hash \<mapsto> n),
        pindexBestHeader := Some best, setDirtyBlockIndex := insert n (setDirtyBlockIndex s)\<rparr>) })"

lemma index_invD:
  assumes "index_inv s"
  shows "block_tree (store s)" and "store s (next_ref s) = None"
    and "mapBlockIndex s h = Some p \<longleftrightarrow> (\<exists>b. store s p = Some b \<and> phashBlock b = Some h)"
  using assms unfolding index_inv_def by (blast, metis less_irrefl not_None_eq, blast)

lemma AddToBlockIndex_child:
  assumes inv: "index_inv s" and new: "mapBlockIndex s (GetHash block) = None"
    and prev: "mapBlockIndex s (block_hashPrevBlock block) = Some q"
  obtains b where "new_entry GetHash block s b"
    and "AddToBlockIndex GetHash block s = insert_entry (GetHash block) b s"
proof -
  define n where "n = next_ref s"
  note tree = index_invD(1) [OF inv] and fresh = index_invD(2) [OF inv, folded n_def]
  obtain c where c: "store s q = Some c" using index_invD(3) [OF inv] prev by blast
  have qn: "q \<noteq> n" using c fresh by auto
  define b0 where "b0 = (CBlockIndex_of block)\<lparr>nSequenceId := 0, phashBlock := Some (GetHash block)\<rparr>"
  define b1 where "b1 = b0\<lparr>pprev := Some q, nHeight := nHeight c + 1\<rparr>"
  obtain sk where sk: "GetAncestor (store s) q (GetSkipHeight (nHeight c + 1)) = Some (Some sk)"
    "anc (store s) (nat (nHeight c - GetSkipHeight (nHeight c + 1))) q = Some sk"
    "GetSkipHeight (nHeight c + 1) \<le> nHeight c"
    using GetAncestor_skip [OF tree c] by blast
  define b2 where "b2 = b1\<lparr>pskip := Some sk\<rparr>"
  have build: "BuildSkip ((store s)(n \<mapsto> b1)) n = Some ((store s)(n \<mapsto> b2))"
    using GetAncestor_mono [OF fresh_map_le [of "store s" n b1, OF fresh] sk(1)]
    by (simp add: BuildSkip_def b1_def b2_def)
  obtain w where w: "GetBlockProof b2 = Some w" "length w = WIDTH" "uval w = block_work (nBits b2)"
    by (rule GetBlockProof_value)
  define b3 where "b3 = b2\<lparr>nTimeMax := max (nTimeMax c) (nTime b2), nChainWork := uint_add (nChainWork c) w\<rparr>"
  obtain x r where x: "RaiseValidity b3 BLOCK_VALID_TREE = Some (b3\<lparr>nStatus := x\<rparr>, r)" by (rule RaiseValidity_status)
  define b4 where "b4 = b3\<lparr>nStatus := x\<rparr>"
  note fields = b4_def b3_def b2_def b1_def b0_def
  have cw: "length (nChainWork c) = WIDTH" by (rule block_treeD(2) [OF tree c])
  then have "uval (nChainWork b4) = (uval (nChainWork c) + block_work (nBits b4)) mod 2 ^ 256"
    using uval_add [of "nChainWork c" w] w by (simp add: fields WIDTH_def)
  then have parent: "parent_ok (store s) b4" using c by (simp add: parent_ok_def fields)
  have "nat (nHeight b4 - GetSkipHeight (nHeight b4)) = Suc (nat (nHeight c - GetSkipHeight (nHeight c + 1)))"
    using sk(3) by (simp add: fields Suc_nat_eq_nat_zadd1)
  moreover have "anc ((store s)(n \<mapsto> b4)) (nat (nHeight c - GetSkipHeight (nHeight c + 1))) q = Some sk"
    by (rule anc_mono [OF fresh_map_le sk(2)]) (rule fresh)
  ultimately have skip: "skip_ok ((store s)(n \<mapsto> b4)) n b4" by (simp add: skip_ok_def fields)
  have "new_entry GetHash block s b4"
    using parent skip cw w(2) block_treeD(1) [OF tree c] prev by (simp add: new_entry_def fields n_def)
  moreover have "AddToBlockIndex GetHash block s = insert_entry (GetHash block) b4 s"
  proof -
    have "GetHash block \<noteq> block_hashPrevBlock block" using new prev by auto
    then have map': "((mapBlockIndex s)(GetHash block \<mapsto> n)) (block_hashPrevBlock block) = Some q" using prev by simp
    have c': "((store s)(n \<mapsto> b0)) q = Some c" "((store s)(n \<mapsto> b2)) q = Some c" using c qn by simp_all
    have prev2: "pprev b2 = Some q" by (simp add: fields)
    show ?thesis
      unfolding AddToBlockIndex_def Let_def n_def [symmetric] b0_def [symmetric] new option.case map' c'(1)
        Option.bind.bind_lunit b1_def [symmetric] build fun_upd_same w(1) prev2 c'(2) prod.case
        b3_def [symmetric] x b4_def [symmetric] fun_upd_upd insert_entry_def by (rule refl)
  qed
  ultimately show thesis using that unfolding n_def by blast
qed


lemma AddToBlockIndex_root:
  assumes inv: "index_inv s" and new: "mapBlockIndex s (GetHash block) = None"
    and prev: "mapBlockIndex s (block_hashPrevBlock block) = None"
    and root: "block_nHeight block = 0" "block_hashPrevBlock block \<noteq> GetHash block"
  obtains b where "new_entry GetHash block s b"
    and "AddToBlockIndex GetHash block s = insert_entry (GetHash block) b s"
proof -
  define n where "n = next_ref s"
  define b0 where "b0 = (CBlockIndex_of block)\<lparr>nSequenceId := 0, phashBlock := Some (GetHash block)\<rparr>"
  obtain w where w: "GetBlockProof b0 = Some w" "length w = WIDTH" "uval w = block_work (nBits b0)"
    by (rule GetBlockProof_value)
  define b3 where "b3 = b0\<lparr>nTimeMax := nTime b0, nChainWork := uint_add (base_uint_of 0) w\<rparr>"
  obtain x r where x: "RaiseValidity b3 BLOCK_VALID_TREE = Some (b3\<lparr>nStatus := x\<rparr>, r)" by (rule RaiseValidity_status)
  define b4 where "b4 = b3\<lparr>nStatus := x\<rparr>"
  note fields = b4_def b3_def b0_def
  have "uval (nChainWork b4) = block_work (nBits b4)"
    using uval_add [of "base_uint_of 0" w] uval_bound [of w] w by (simp add: fields)
  then have "new_entry GetHash block s b4"
    using w(2) prev root by (simp add: new_entry_def parent_ok_def skip_ok_def fields)
  moreover have "AddToBlockIndex GetHash block s = insert_entry (GetHash block) b4 s"
  proof -
    have map': "((mapBlockIndex s)(GetHash block \<mapsto> n)) (block_hashPrevBlock block) = None" using prev root(2) by simp
    have prev0: "pprev b0 = None" by (simp add: fields)
    show ?thesis
      unfolding AddToBlockIndex_def Let_def n_def [symmetric] b0_def [symmetric] new option.case map'
        Option.bind.bind_lunit fun_upd_same w(1) prev0 prod.case
        b3_def [symmetric] x b4_def [symmetric] fun_upd_upd insert_entry_def by (rule refl)
  qed
  ultimately show thesis by (rule that)
qed

lemma parent_ok_insert: "store s (next_ref s) = None \<Longrightarrow> parent_ok (store s) b \<Longrightarrow> parent_ok ((store s)(next_ref s \<mapsto> b)) b"
  by (rule parent_ok_mono [OF fresh_map_le])

lemma insert_entry_inv:
  assumes inv: "index_inv s" and new: "mapBlockIndex s (GetHash block) = None" and b: "new_entry GetHash block s b"
  obtains s' where "insert_entry (GetHash block) b s = Some (next_ref s, s')" and "index_inv s'"
    and "store s' = (store s)(next_ref s \<mapsto> b)"
proof -
  define n where "n = next_ref s"
  note tree = index_invD(1) [OF inv] and fresh = index_invD(2) [OF inv, folded n_def]
  have tree': "block_tree ((store s)(n \<mapsto> b))"
    using b by (intro block_tree_insert [OF tree fresh]) (auto simp: new_entry_def n_def intro: parent_ok_insert fresh [unfolded n_def])
  have sign: "CompareTo (nChainWork c) (nChainWork b) < 0 \<longleftrightarrow> uval (nChainWork c) < uval (nChainWork b)"
    if "store s q = Some c" for q c
    using CompareTo_sign [OF block_treeD(2) [OF tree that], of "nChainWork b"] b by (simp add: new_entry_def)
  obtain best where best: "insert_entry (GetHash block) b s =
      Some (n, s\<lparr>store := (store s)(n \<mapsto> b), next_ref := n + 1, mapBlockIndex := (mapBlockIndex s)(GetHash block \<mapsto> n),
        pindexBestHeader := Some best, setDirtyBlockIndex := insert n (setDirtyBlockIndex s)\<rparr>)"
    and most: "\<And>p d. ((store s)(n \<mapsto> b)) p = Some d \<Longrightarrow>
      \<exists>c. ((store s)(n \<mapsto> b)) best = Some c \<and> uval (nChainWork d) \<le> uval (nChainWork c)"
  proof (cases "pindexBestHeader s")
    case None
    then have "store s p = None" for p using inv unfolding index_inv_def by (metis not_None_eq)
    then show thesis
      by (intro that [of n]) (use None in \<open>auto simp: insert_entry_def Let_def n_def split: if_splits\<close>)
  next
    case (Some h)
    then obtain c where c: "store s h = Some c" "\<And>p d. store s p = Some d \<Longrightarrow> uval (nChainWork d) \<le> uval (nChainWork c)"
      using inv unfolding index_inv_def by (metis option.inject)
    have hn: "h \<noteq> n" using c fresh by auto
    show thesis
    proof (rule that [of "if uval (nChainWork c) < uval (nChainWork b) then n else h"])
      show "\<exists>e. ((store s)(n \<mapsto> b)) (if uval (nChainWork c) < uval (nChainWork b) then n else h) = Some e
          \<and> uval (nChainWork d) \<le> uval (nChainWork e)" if "((store s)(n \<mapsto> b)) p = Some d" for p d
        using that c(1) c(2) [of p d] hn by (auto split: if_splits)
    qed (use Some c(1) hn sign [OF c(1)] in \<open>simp add: insert_entry_def Let_def flip: n_def\<close>)
  qed
  define s' where "s' = s\<lparr>store := (store s)(n \<mapsto> b), next_ref := n + 1,
    mapBlockIndex := (mapBlockIndex s)(GetHash block \<mapsto> n), pindexBestHeader := Some best,
    setDirtyBlockIndex := insert n (setDirtyBlockIndex s)\<rparr>"
  have hash: "phashBlock b = Some (GetHash block)" using b by (simp add: new_entry_def)
  have map': "mapBlockIndex s' h = Some p \<longleftrightarrow> (\<exists>d. store s' p = Some d \<and> phashBlock d = Some h)" for h p
    using index_invD(3) [OF inv, of h p] index_invD(3) [OF inv, of "GetHash block" p] new hash fresh
    by (auto simp: s'_def)
  have "index_inv s'"
    unfolding index_inv_def
  proof (intro conjI allI impI)
    show "block_tree (store s')" using tree' by (simp add: s'_def)
    show "p < next_ref s'" "phashBlock d \<noteq> None" if "store s' p = Some d" for p d
      using that inv hash unfolding index_inv_def s'_def n_def by (auto split: if_splits intro: less_SucI)
    show "mapBlockIndex s' h = Some p \<longleftrightarrow> (\<exists>d. store s' p = Some d \<and> phashBlock d = Some h)" for h p by (rule map')
    show "\<exists>q c. pindexBestHeader s' = Some q \<and> store s' q = Some c \<and> uval (nChainWork d) \<le> uval (nChainWork c)"
      if "store s' p = Some d" for p d using most [of p d] that by (auto simp: s'_def)
    show "\<exists>c. store s' q = Some c" if "pindexBestHeader s' = Some q" for q
      using most [of n b] that by (auto simp: s'_def)
  qed
  then show thesis using that [of s'] best by (simp add: s'_def n_def)
qed

lemma AddToBlockIndex_new:
  assumes inv: "index_inv s" and new: "mapBlockIndex s (GetHash block) = None" and ok: "header_ok GetHash s block"
  obtains b where "new_entry GetHash block s b" and "AddToBlockIndex GetHash block s = insert_entry (GetHash block) b s"
proof (cases "mapBlockIndex s (block_hashPrevBlock block)")
  case (Some q)
  show thesis by (rule AddToBlockIndex_child [where GetHash = GetHash, OF inv new Some]) (rule that)
next
  case None
  then have "block_nHeight block = 0" "block_hashPrevBlock block \<noteq> GetHash block" using ok by (simp_all add: header_ok_def)
  from AddToBlockIndex_root [where GetHash = GetHash, OF inv new None this] show thesis using that .
qed

lemma AddToBlockIndex_inv:
  assumes "index_inv s" and "header_ok GetHash s block"
  obtains p s' where "AddToBlockIndex GetHash block s = Some (p, s')" and "index_inv s'"
    and "mapBlockIndex s' (GetHash block) = Some p" and "store s \<subseteq>\<^sub>m store s'"
proof (cases "mapBlockIndex s (GetHash block)")
  case (Some p)
  then show thesis using that [of p s] assms(1) by (simp add: AddToBlockIndex_def)
next
  case None
  obtain b where b: "new_entry GetHash block s b" "AddToBlockIndex GetHash block s = insert_entry (GetHash block) b s"
    by (rule AddToBlockIndex_new [OF assms(1) None assms(2)])
  obtain s' where s': "insert_entry (GetHash block) b s = Some (next_ref s, s')" "index_inv s'"
    "store s' = (store s)(next_ref s \<mapsto> b)"
    using insert_entry_inv [where block = block, OF assms(1) None b(1)] by blast
  moreover have "mapBlockIndex s' (GetHash block) = Some (next_ref s)"
    using index_invD(3) [OF s'(2)] s'(3) b(1) by (simp add: new_entry_def)
  moreover have "store s \<subseteq>\<^sub>m store s'" unfolding s'(3) by (rule fresh_map_le) (rule index_invD(2) [OF assms(1)])
  ultimately show thesis using that b(2) by metis
qed

section \<open>Common ancestors\<close>

lemma genesis_no_parent:
  assumes "block_tree st" and "st p = Some b" and "nHeight b = 0"
  shows "pprev b = None"
proof (rule ccontr)
  assume "pprev b \<noteq> None"
  then obtain q c where "st q = Some c" "nHeight b = nHeight c + 1"
    using block_treeD(3) [OF assms(1,2)] by (auto simp: parent_ok_def)
  then show False using block_treeD(1) [OF assms(1)] assms(3) by fastforce
qed

definition ancestor :: "block_store \<Rightarrow> block_ref \<Rightarrow> block_ref \<Rightarrow> bool" where
  "ancestor st p q \<longleftrightarrow> (\<exists>n. anc st n p = Some q)"

lemma ancestor_at_height:
  assumes "block_tree st" and "st p = Some b" and "anc st n p = Some q"
  obtains c where "st q = Some c" and "nHeight c = nHeight b - int n" and "int n \<le> nHeight b"
  using anc_height [OF assms(1,2)] anc_bounded [OF assms(1,3,2)] assms(3) by (metis option.inject)

lemma LastCommonAncestor_loop_least:
  assumes "block_tree st"
  shows "st a = Some x \<Longrightarrow> st b = Some y \<Longrightarrow> nHeight x = nHeight y \<Longrightarrow>
    \<exists>n. LastCommonAncestor_loop st (Some a) (Some b) = Some (anc st n a, anc st n a)
      \<and> anc st n a = anc st n b \<and> (\<forall>m < n. anc st m a \<noteq> anc st m b)"
proof (induction "nat (nHeight x)" arbitrary: a b x y)
  case 0
  then have "nHeight x = 0" using block_treeD(1) [OF assms 0(2)] by simp
  then have root: "pprev x = None" "pprev y = None"
    using 0 genesis_no_parent [OF assms] by simp_all
  show ?case
  proof (cases "a = b")
    case True
    then show ?thesis by (intro exI [of _ 0]) (simp add: LastCommonAncestor_loop.simps)
  next
    case False
    then show ?thesis using 0 root
      by (intro exI [of _ 1])
        (simp add: LastCommonAncestor_loop.simps [of st "Some a"] LastCommonAncestor_loop.simps [of st None])
  qed
next
  case (Suc h)
  show ?case
  proof (cases "a = b")
    case True
    then show ?thesis by (intro exI [of _ 0]) (simp add: LastCommonAncestor_loop.simps)
  next
    case False
    obtain p u where p: "pprev x = Some p" "st p = Some u" "nHeight u = nHeight x - 1"
      using parent_step [OF assms Suc.prems(1)] Suc.hyps(2) by (metis zero_less_nat_eq zero_less_Suc)
    obtain q v where q: "pprev y = Some q" "st q = Some v" "nHeight v = nHeight x - 1"
      using parent_step [OF assms Suc.prems(2)] Suc.hyps(2) Suc.prems(3) by (metis zero_less_nat_eq zero_less_Suc)
    obtain n where "LastCommonAncestor_loop st (Some p) (Some q) = Some (anc st n p, anc st n p)"
      "anc st n p = anc st n q" "\<forall>m < n. anc st m p \<noteq> anc st m q"
      using Suc.hyps(1) [of u p q v, OF _ p(2) q(2)] Suc.hyps(2) p(3) q(3) by fastforce
    then show ?thesis
      using False Suc.prems p q
      by (intro exI [of _ "Suc n"]) (auto simp: LastCommonAncestor_loop.simps [of st "Some a"] less_Suc_eq_0_disj)
  qed
qed

lemma common_ancestors_level:
  assumes tree: "block_tree st" and a: "st a = Some x" and b: "st b = Some y" and "nHeight x = nHeight y"
    and "ancestor st a q" and "ancestor st b q"
  obtains m where "anc st m a = Some q" and "anc st m b = Some q"
proof -
  obtain i j where i: "anc st i a = Some q" and j: "anc st j b = Some q" using assms(5,6) by (auto simp: ancestor_def)
  have "i = j" using ancestor_at_height [OF tree a i] ancestor_at_height [OF tree b j] assms(4)
    by (metis diff_left_imp_eq option.inject of_nat_eq_iff)
  then show thesis using that i j by simp
qed

text \<open>Ancestors of \<open>a\<close> at or below the height of an ancestor \<open>c\<close> of \<open>a\<close> are ancestors of \<open>c\<close>.\<close>

lemma ancestor_lift:
  assumes tree: "block_tree st" and a: "st a = Some x" and c: "anc st i a = Some c"
    and q: "ancestor st a q" "st q = Some u" "nHeight u \<le> nHeight x - int i"
  shows "ancestor st c q"
proof -
  obtain j where j: "anc st j a = Some q" using q(1) by (auto simp: ancestor_def)
  then have "i \<le> j" using ancestor_at_height [OF tree a j] q by fastforce
  then have "anc st (j - i) c = Some q" using anc_add [of st i "j - i" a] c j by simp
  then show ?thesis by (auto simp: ancestor_def)
qed

lemma ancestor_trans: "ancestor st a b \<Longrightarrow> ancestor st b c \<Longrightarrow> ancestor st a c"
  unfolding ancestor_def using anc_add by (metis bind.bind_lunit)

lemma ancestor_below:
  assumes "block_tree st" "st a = Some x" "ancestor st a q"
  obtains u where "st q = Some u" and "nHeight u \<le> nHeight x"
  using assms(3) ancestor_at_height [OF assms(1,2)] unfolding ancestor_def
  by (metis diff_le_eq le_add_same_cancel1 of_nat_0_le_iff)

lemma LastCommonAncestor_level:
  assumes tree: "block_tree st" and a: "st a = Some x" and b: "st b = Some y" and lev: "nHeight x = nHeight y"
  shows "\<exists>r. LastCommonAncestor_loop st (Some a) (Some b) = Some (r, r)
    \<and> (\<forall>q. ancestor st a q \<and> ancestor st b q \<longleftrightarrow> (\<exists>c. r = Some c \<and> ancestor st c q))"
proof -
  obtain n where n: "LastCommonAncestor_loop st (Some a) (Some b) = Some (anc st n a, anc st n a)"
    "anc st n a = anc st n b" "\<forall>m < n. anc st m a \<noteq> anc st m b"
    using LastCommonAncestor_loop_least [OF tree a b lev] by blast
  have "\<exists>c. anc st n a = Some c \<and> ancestor st c q" if common: "ancestor st a q" "ancestor st b q" for q
  proof -
    obtain m where m: "anc st m a = Some q" "anc st m b = Some q"
      using common_ancestors_level [OF tree a b lev common] by blast
    then have "n \<le> m" using n(3) by (metis not_le)
    then have "anc st m a = do { c \<leftarrow> anc st n a; anc st (m - n) c }" using anc_add [of st n "m - n" a] by simp
    then have "do { c \<leftarrow> anc st n a; anc st (m - n) c } = Some q" using m(1) by simp
    then show ?thesis unfolding bind_eq_Some_conv ancestor_def by blast
  qed
  moreover have "ancestor st a q \<and> ancestor st b q" if "anc st n a = Some c" "ancestor st c q" for c q
    using that n(2) ancestor_trans unfolding ancestor_def by metis
  ultimately show ?thesis using n(1) by blast
qed

text \<open>The jump to the height of the lower entry keeps the ancestors at or below that height.\<close>

lemma GetAncestor_lift:
  assumes tree: "block_tree st" and c: "st c = Some z" and h: "0 \<le> h" "h \<le> nHeight z"
  obtains p u where "GetAncestor st c h = Some (Some p)" and "st p = Some u" and "nHeight u = h"
    and "\<And>q w. st q = Some w \<Longrightarrow> nHeight w \<le> h \<Longrightarrow> ancestor st p q \<longleftrightarrow> ancestor st c q"
proof -
  obtain p u where p: "GetAncestor st c h = Some (Some p)" "anc st (nat (nHeight z - h)) c = Some p"
    "st p = Some u" "nHeight u = h"
    using GetAncestor_height [OF tree c h] by blast
  moreover have "ancestor st p q \<longleftrightarrow> ancestor st c q" if "st q = Some w" "nHeight w \<le> h" for q w
    using ancestor_lift [OF tree c p(2) _ that(1)] that(2) h ancestor_trans [of st c p q] p(2)
    by (auto simp: ancestor_def)
  ultimately show thesis using that by blast
qed

lemma LastCommonAncestor_spec:
  assumes tree: "block_tree st" and a: "st a = Some x" and b: "st b = Some y"
  shows "\<exists>r. LastCommonAncestor st a b = Some r
    \<and> (\<forall>q. ancestor st a q \<and> ancestor st b q \<longleftrightarrow> (\<exists>c. r = Some c \<and> ancestor st c q))"
proof -
  have level: "\<exists>r. do { (pa, pb) \<leftarrow> LastCommonAncestor_loop st (Some p) (Some s); if pa = pb then Some pa else None } = Some r
      \<and> (\<forall>q. ancestor st p q \<and> ancestor st s q \<longleftrightarrow> (\<exists>c. r = Some c \<and> ancestor st c q))"
    if "st p = Some u" "st s = Some v" "nHeight u = nHeight v" for p s u v
    using LastCommonAncestor_level [OF tree that] by auto
  note pos = block_treeD(1) [OF tree a] block_treeD(1) [OF tree b]
  consider "nHeight x > nHeight y" | "nHeight y > nHeight x" | "nHeight x = nHeight y" by linarith
  then show ?thesis
  proof cases
    case 1
    then obtain p u where p: "GetAncestor st a (nHeight y) = Some (Some p)" "st p = Some u" "nHeight u = nHeight y"
      "\<And>q w. st q = Some w \<Longrightarrow> nHeight w \<le> nHeight y \<Longrightarrow> ancestor st p q \<longleftrightarrow> ancestor st a q"
      using GetAncestor_lift [OF tree a pos(2)] by (metis less_imp_le)
    then have "ancestor st p q \<and> ancestor st b q \<longleftrightarrow> ancestor st a q \<and> ancestor st b q" for q
      using ancestor_below [OF tree b] by metis
    then show ?thesis using level [OF p(2) b p(3)] 1 a b p(1) by (simp add: LastCommonAncestor_def)
  next
    case 2
    then obtain p u where p: "GetAncestor st b (nHeight x) = Some (Some p)" "st p = Some u" "nHeight u = nHeight x"
      "\<And>q w. st q = Some w \<Longrightarrow> nHeight w \<le> nHeight x \<Longrightarrow> ancestor st p q \<longleftrightarrow> ancestor st b q"
      using GetAncestor_lift [OF tree b pos(1)] by (metis less_imp_le)
    then have "ancestor st a q \<and> ancestor st p q \<longleftrightarrow> ancestor st a q \<and> ancestor st b q" for q
      using ancestor_below [OF tree a] by metis
    then show ?thesis using level [OF a p(2)] p(3) 2 a b p(1) by (simp add: LastCommonAncestor_def)
  next
    case 3
    then show ?thesis using level [OF a b 3] a b by (simp add: LastCommonAncestor_def)
  qed
qed

section \<open>Median time\<close>

text \<open>At most \<open>n\<close> entries from a pointer down to a root, newest first.\<close>

primrec path :: "block_store \<Rightarrow> nat \<Rightarrow> block_ref option \<Rightarrow> CBlockIndex list" where
  "path st 0 pindex = []"
| "path st (Suc n) pindex =
    (case pindex of None \<Rightarrow> [] | Some p \<Rightarrow> (case st p of None \<Rightarrow> [] | Some b \<Rightarrow> b # path st n (pprev b)))"

lemma parent_in_store:
  assumes "block_tree st" and "st p = Some b" and "pprev b = Some q"
  obtains c where "st q = Some c" and "nHeight c = nHeight b - 1"
  using block_treeD(3) [OF assms(1,2)] assms(3) by (auto simp: parent_ok_def)

lemma median_times_path:
  assumes "block_tree st"
  shows "pindex = None \<or> (\<exists>p b. pindex = Some p \<and> st p = Some b) \<Longrightarrow>
    median_times st n pindex ts = Some (rev (map GetBlockTime (path st n pindex)) @ ts)"
proof (induction n arbitrary: pindex ts)
  case (Suc n)
  show ?case
  proof (cases pindex)
    case (Some p)
    then obtain b where b: "st p = Some b" using Suc.prems by auto
    then have "pprev b = None \<or> (\<exists>q c. pprev b = Some q \<and> st q = Some c)"
      using parent_in_store [OF assms b] by (cases "pprev b") auto
    from Suc.IH [OF this] show ?thesis using Some b by simp
  qed simp
qed simp

lemma length_path:
  assumes "block_tree st"
  shows "st p = Some b \<Longrightarrow> length (path st n (Some p)) = min n (nat (nHeight b) + 1)"
proof (induction n arbitrary: p b)
  case (Suc n)
  note pos = block_treeD(1) [OF assms Suc.prems]
  show ?case
  proof (cases "pprev b")
    case None
    then have "nHeight b = 0" using block_treeD(3) [OF assms Suc.prems] by (simp add: parent_ok_def)
    moreover have "path st n None = []" by (cases n) simp_all
    ultimately show ?thesis using Suc.prems None by simp
  next
    case (Some q)
    then obtain c where c: "st q = Some c" "nHeight c = nHeight b - 1" using parent_in_store [OF assms Suc.prems] by blast
    moreover have "0 \<le> nHeight c" by (rule block_treeD(1) [OF assms c(1)])
    ultimately have "Suc (nat (nHeight c)) = nat (nHeight b)" by simp
    then show ?thesis using Suc.IH [OF c(1)] Suc.prems Some by simp
  qed
qed simp

lemma median_bounds:
  fixes ts :: "int list"
  assumes "ts \<noteq> []" and m: "m = sort ts ! (length ts div 2)"
  shows "m \<in> set ts" and "length ts < 2 * length (filter (\<lambda>t. t \<le> m) ts)"
    and "length ts \<le> 2 * length (filter (\<lambda>t. m \<le> t) ts)"
proof -
  define xs k where "xs = sort ts" and "k = length ts div 2"
  have len: "length xs = length ts" and k: "k < length xs" using assms(1) by (simp_all add: xs_def k_def)
  have m: "m = xs ! k" by (simp add: m xs_def k_def)
  show "m \<in> set ts" using nth_mem [OF k] by (simp add: m xs_def)
  have cnt: "length (filter P ts) = length (filter P xs)" for P
    by (metis xs_def mset_filter mset_sort size_mset)
  have sorted: "sorted xs" by (simp add: xs_def)
  have low: "filter (\<lambda>t. t \<le> m) (take (Suc k) xs) = take (Suc k) xs"
    using sorted_nth_mono [OF sorted] k by (auto simp: m in_set_conv_nth filter_id_conv less_Suc_eq_le)
  have high: "filter (\<lambda>t. m \<le> t) (drop k xs) = drop k xs"
    using sorted_nth_mono [OF sorted] by (auto simp: m in_set_conv_nth filter_id_conv)
  have "Suc k \<le> length (filter (\<lambda>t. t \<le> m) ts)"
  proof -
    have "length (take (Suc k) xs) \<le> length (filter (\<lambda>t. t \<le> m) (take (Suc k) xs @ drop (Suc k) xs))"
      unfolding filter_append low by simp
    then show ?thesis using k by (simp add: cnt)
  qed
  then show "length ts < 2 * length (filter (\<lambda>t. t \<le> m) ts)" by (simp add: k_def)
  have "length xs - k \<le> length (filter (\<lambda>t. m \<le> t) ts)"
  proof -
    have "length (drop k xs) \<le> length (filter (\<lambda>t. m \<le> t) (take k xs @ drop k xs))"
      unfolding filter_append high by simp
    then show ?thesis by (simp add: cnt)
  qed
  then show "length ts \<le> 2 * length (filter (\<lambda>t. m \<le> t) ts)" by (simp add: k_def len)
qed

lemma GetMedianTimePast_path:
  assumes "block_tree st" and "st p = Some b"
  shows "GetMedianTimePast st p =
    Some (let ts = map GetBlockTime (path st nMedianTimeSpan (Some p)) in sort ts ! (length ts div 2))"
proof -
  have "sort (rev ts) = sort ts" for ts :: "int list" by (simp add: properties_for_sort)
  then show ?thesis
    using median_times_path [OF assms(1), of "Some p"] assms(2) by (auto simp: GetMedianTimePast_def Let_def)
qed

section \<open>The order of candidate tips\<close>

definition work_less :: "block_store \<Rightarrow> block_ref \<Rightarrow> block_ref \<Rightarrow> bool" where
  "work_less st p q \<longleftrightarrow> CBlockIndexWorkComparator st p q = Some True"

definition work_key :: "block_store \<Rightarrow> block_ref \<Rightarrow> nat \<times> int \<times> int" where
  "work_key st p = (uval (nChainWork (the (st p))), - nSequenceId (the (st p)), - int p)"

lemma work_less_key:
  assumes "block_tree st" and "st p = Some a" and "st q = Some b"
  shows "work_less st p q \<longleftrightarrow> (case (work_key st p, work_key st q) of
    ((w, s, r), (w', s', r')) \<Rightarrow> w < w' \<or> w = w' \<and> (s < s' \<or> s = s' \<and> r < r'))"
  using assms CompareTo_sign [OF block_treeD(2) [OF assms(1,2)] block_treeD(2) [OF assms(1,3)]]
  by (auto simp: work_less_def CBlockIndexWorkComparator_def work_key_def)


section \<open>Properties of the block index\<close>

text \<open>The states that the callers of \<^verbatim>\<open>AddToBlockIndex\<close> can produce from an empty index.\<close>

inductive index_reach :: "(CBlockHeader \<Rightarrow> bytes) \<Rightarrow> index_state \<Rightarrow> bool" for GetHash where
  reach_empty: "index_reach GetHash index_empty"
| reach_add: "index_reach GetHash s \<Longrightarrow> header_ok GetHash s block \<Longrightarrow>
    AddToBlockIndex GetHash block s = Some (p, s') \<Longrightarrow> index_reach GetHash s'"

lemma index_inv_empty: "index_inv index_empty"
  by (simp add: index_inv_def index_empty_def block_tree_def)

lemma index_reach_inv: "index_reach GetHash s \<Longrightarrow> index_inv s"
proof (induction rule: index_reach.induct)
  case reach_empty
  show ?case by (rule index_inv_empty)
next
  case (reach_add s block p s')
  then show ?case by (metis AddToBlockIndex_inv option.inject prod.inject)
qed

text \<open>
  The callers add a header whose parent is known, or the one genesis header of the network (\<^verbatim>\<open>AcceptBlockHeader\<close>, \<^verbatim>\<open>LoadGenesisBlock\<close>);
  \<^verbatim>\<open>AddToBlockIndex\<close> itself would start a new tree for any header without a parent. With one genesis header there is one tree.
\<close>

inductive index_from :: "(CBlockHeader \<Rightarrow> bytes) \<Rightarrow> bytes \<Rightarrow> index_state \<Rightarrow> bool" for GetHash genesis where
  from_empty: "index_from GetHash genesis index_empty"
| from_add: "index_from GetHash genesis s \<Longrightarrow> header_ok GetHash s block \<Longrightarrow>
    mapBlockIndex s (block_hashPrevBlock block) \<noteq> None \<or> GetHash block = genesis \<Longrightarrow>
    AddToBlockIndex GetHash block s = Some (p, s') \<Longrightarrow> index_from GetHash genesis s'"

definition one_root :: "index_state \<Rightarrow> bool" where
  "one_root s \<longleftrightarrow> (\<exists>r. \<forall>p b. store s p = Some b \<longrightarrow> anc (store s) (nat (nHeight b)) p = Some r)"

lemma AddToBlockIndex_entries:
  assumes "index_inv s" and "header_ok GetHash s block" and "AddToBlockIndex GetHash block s = Some (q, s')"
    and "store s' p = Some b" and "store s p \<noteq> Some b"
  shows "phashBlock b = Some (GetHash block) \<and> pprev b = mapBlockIndex s (block_hashPrevBlock block)"
proof (cases "mapBlockIndex s (GetHash block)")
  case (Some r)
  then show ?thesis using assms(3-5) by (simp add: AddToBlockIndex_def)
next
  case None
  obtain d where d: "new_entry GetHash block s d" "AddToBlockIndex GetHash block s = insert_entry (GetHash block) d s"
    by (rule AddToBlockIndex_new [OF assms(1) None assms(2)])
  obtain s'' where "insert_entry (GetHash block) d s = Some (next_ref s, s'')" "store s'' = (store s)(next_ref s \<mapsto> d)"
    using insert_entry_inv [where block = block, OF assms(1) None d(1)] by blast
  then have "b = d" using assms(3-5) d(2) by (auto split: if_splits)
  then show ?thesis using d(1) by (simp add: new_entry_def)
qed

lemma index_from_roots:
  "index_from GetHash genesis s \<Longrightarrow>
    index_inv s \<and> (\<forall>p b. store s p = Some b \<longrightarrow> pprev b = None \<longrightarrow> phashBlock b = Some genesis)"
proof (induction rule: index_from.induct)
  case from_empty
  show ?case using index_inv_empty by (simp add: index_empty_def)
next
  case (from_add s block p s')
  then have inv: "index_inv s" by blast
  have "index_inv s'" using AddToBlockIndex_inv [OF inv from_add(2)] from_add(4) by (metis option.inject prod.inject)
  moreover have "phashBlock b = Some genesis" if "store s' q = Some b" "pprev b = None" for q b
    using AddToBlockIndex_entries [OF inv from_add(2,4) that(1)] from_add.IH from_add(3) that(2) by (cases "store s q = Some b") auto
  ultimately show ?case by blast
qed

lemma index_from_one_root:
  assumes "index_from GetHash genesis s"
  shows "one_root s"
  unfolding one_root_def
proof (intro exI allI impI)
  note inv = conjunct1 [OF index_from_roots [OF assms]]
  note tree = index_invD(1) [OF inv]
  fix p b assume b: "store s p = Some b"
  have "0 \<le> nHeight b" by (rule block_treeD(1) [OF tree b])
  then obtain q c where q: "anc (store s) (nat (nHeight b)) p = Some q" "store s q = Some c" "nHeight c = 0"
    using anc_height [OF tree b, of "nat (nHeight b)"] by auto
  have "phashBlock c = Some genesis" using index_from_roots [OF assms] genesis_no_parent [OF tree q(2,3)] q(2) by blast
  then have "mapBlockIndex s genesis = Some q" using index_invD(3) [OF inv] q(2) by blast
  then show "anc (store s) (nat (nHeight b)) p = Some (the (mapBlockIndex s genesis))" using q(1) by simp
qed

definition sample_header :: CBlockHeader where
  "sample_header = \<lparr>block_nVersion = 4, block_hashPrevBlock = uint256_null, block_hashMerkleRoot = replicate 32 1,
    block_nTime = 1000, block_nBits = 0x1e00ffff, block_nNonce = 7, block_nHeight = 0, block_nNonce64 = 0,
    block_mix_hash = uint256_null\<rparr>"

lemma sample_header_ok: "header_ok block_hashMerkleRoot index_empty sample_header"
  by (simp add: header_ok_def sample_header_def uint256_null_def)

lemma sample_index:
  obtains p s b where "AddToBlockIndex block_hashMerkleRoot sample_header index_empty = Some (p, s)"
    and "index_reach block_hashMerkleRoot s" and "store s p = Some b"
proof -
  obtain p s where step: "AddToBlockIndex block_hashMerkleRoot sample_header index_empty = Some (p, s)" "index_inv s"
    "mapBlockIndex s (block_hashMerkleRoot sample_header) = Some p"
    by (rule AddToBlockIndex_inv [OF index_inv_empty sample_header_ok])
  moreover from this have "index_reach block_hashMerkleRoot s" by (intro reach_add [OF reach_empty sample_header_ok])
  moreover obtain b where "store s p = Some b" using index_invD(3) [OF step(2)] step(3) by blast
  ultimately show thesis using that by blast
qed

text \<open>C1. Every state of the block index that insertions reach is a forest in which heights count the parent links to a
  root, every entry with a parent has a skip pointer and it leads to the ancestor at the skip height, chain work is the
  parent's work plus the block's own modulo \<open>2 ^ 256\<close>, the maximal time is that of the chain, hashes and entries
  correspond one to one, and the best header has the most work of all entries. If only one genesis header is ever added
  without a known parent, the forest is one tree: all entries have the same ancestor at height zero.\<close>

theorem block_index_invariant:
  assumes "index_reach GetHash s"
  shows "index_inv s \<and> (index_from GetHash genesis s \<longrightarrow> one_root s)"
  using index_reach_inv [OF assms] index_from_one_root by blast

theorem block_index_invariant_witness:
  "index_inv (snd (the (AddToBlockIndex block_hashMerkleRoot sample_header index_empty))) \<and>
    one_root (snd (the (AddToBlockIndex block_hashMerkleRoot sample_header index_empty)))"
proof -
  obtain p s where step: "AddToBlockIndex block_hashMerkleRoot sample_header index_empty = Some (p, s)"
    and reach: "index_reach block_hashMerkleRoot s"
    by (rule sample_index)
  have "index_from block_hashMerkleRoot (replicate 32 1) s"
    by (rule from_add [OF from_empty sample_header_ok _ step]) (simp add: sample_header_def)
  then show ?thesis using block_index_invariant [OF reach] step by auto
qed

text \<open>C33. Inserting a header whose parent is known, or a genesis header, never fails an assertion or a dereference;
  the header is found under its hash afterwards and every entry present before is unchanged.\<close>

theorem AddToBlockIndex_total:
  assumes "index_reach GetHash s" and "header_ok GetHash s block"
  shows "\<exists>p s'. AddToBlockIndex GetHash block s = Some (p, s') \<and> mapBlockIndex s' (GetHash block) = Some p
    \<and> (\<forall>q b. store s q = Some b \<longrightarrow> store s' q = Some b)"
proof -
  obtain p s' where run: "AddToBlockIndex GetHash block s = Some (p, s')" "mapBlockIndex s' (GetHash block) = Some p"
    and sub: "store s \<subseteq>\<^sub>m store s'"
    by (rule AddToBlockIndex_inv [OF index_reach_inv [OF assms(1)] assms(2)])
  have "\<forall>q b. store s q = Some b \<longrightarrow> store s' q = Some b" using map_leD [OF sub] by simp
  with run show ?thesis by (intro exI conjI)
qed

theorem AddToBlockIndex_total_witness:
  "\<exists>p s'. AddToBlockIndex block_hashMerkleRoot sample_header index_empty = Some (p, s')
    \<and> mapBlockIndex s' (replicate 32 1) = Some p"
  using AddToBlockIndex_total [OF reach_empty sample_header_ok] by (auto simp: sample_header_def)

text \<open>C2. On every reachable index \<^verbatim>\<open>GetAncestor\<close>, which jumps along skip pointers, terminates without a failed
  assertion and returns the entry that walking \<open>nHeight - height\<close> parent links gives; that entry exists and has the
  requested height. It returns null exactly for a height below zero or above the entry's own.\<close>

theorem GetAncestor_walks_parents:
  assumes "index_reach GetHash s" and "store s p = Some b"
  shows "GetAncestor (store s) p height =
      Some (if height < 0 \<or> nHeight b < height then None else anc (store s) (nat (nHeight b - height)) p)
    \<and> (0 \<le> height \<and> height \<le> nHeight b \<longrightarrow>
        (\<exists>q c. GetAncestor (store s) p height = Some (Some q) \<and> store s q = Some c \<and> nHeight c = height))"
proof -
  have tree: "block_tree (store s)" by (rule index_invD(1) [OF index_reach_inv [OF assms(1)]])
  have "\<exists>q c. GetAncestor (store s) p height = Some (Some q) \<and> store s q = Some c \<and> nHeight c = height"
    if "0 \<le> height" "height \<le> nHeight b"
    by (rule GetAncestor_height [OF tree assms(2) that]) blast
  then show ?thesis using GetAncestor_anc [OF tree assms(2), of height] by (intro conjI impI) simp_all
qed

theorem GetAncestor_walks_parents_witness:
  "\<exists>p s. AddToBlockIndex block_hashMerkleRoot sample_header index_empty = Some (p, s)
    \<and> GetAncestor (store s) p (- 1) = Some None"
proof -
  obtain p s b where step: "AddToBlockIndex block_hashMerkleRoot sample_header index_empty = Some (p, s)"
    and reach: "index_reach block_hashMerkleRoot s" and b: "store s p = Some b"
    by (rule sample_index)
  show ?thesis using GetAncestor_walks_parents [OF reach b, of "- 1"] step by simp
qed

text \<open>\<^verbatim>\<open>LastCommonAncestor\<close> returns on every two entries of a reachable index, and the common ancestors of the two
  are exactly the ancestors of its result (none when the result is null): the result is the highest one.\<close>

theorem LastCommonAncestor_highest:
  assumes "index_reach GetHash s" and "store s a = Some x" and "store s b = Some y"
  shows "\<exists>r. LastCommonAncestor (store s) a b = Some r
    \<and> (\<forall>q. ancestor (store s) a q \<and> ancestor (store s) b q \<longleftrightarrow> (\<exists>c. r = Some c \<and> ancestor (store s) c q))"
  using LastCommonAncestor_spec [OF index_invD(1) [OF index_reach_inv [OF assms(1)]] assms(2,3)] .

theorem LastCommonAncestor_highest_witness:
  "\<exists>p s r. AddToBlockIndex block_hashMerkleRoot sample_header index_empty = Some (p, s)
    \<and> LastCommonAncestor (store s) p p = Some r
    \<and> (\<forall>q. ancestor (store s) p q \<longleftrightarrow> (\<exists>c. r = Some c \<and> ancestor (store s) c q))"
proof -
  obtain p s b where step: "AddToBlockIndex block_hashMerkleRoot sample_header index_empty = Some (p, s)"
    and reach: "index_reach block_hashMerkleRoot s" and b: "store s p = Some b"
    by (rule sample_index)
  show ?thesis using LastCommonAncestor_highest [OF reach b b] step by auto
qed

text \<open>\<^verbatim>\<open>GetBlockProof\<close> never throws and its result is the expected number of hashes \<open>2 ^ 256 div (target + 1)\<close>,
  or zero when the target is negative, overflows or is zero, although \<open>2 ^ 256\<close> itself does not fit the type.\<close>

theorem GetBlockProof_expected_hashes:
  "map_option uval (GetBlockProof b) =
    Some (case SetCompact (nBits b) of (target, fNegative, fOverflow) \<Rightarrow>
      if fNegative \<or> fOverflow \<or> uval target = 0 then 0 else 2 ^ 256 div (uval target + 1))"
  by (rule GetBlockProof_value [of b]) (simp add: block_work_def Let_def)

text \<open>The comparator of candidate tips is a strict total order on the entries of a reachable index, as the ordered
  set of candidates requires: irreflexive, transitive and total.\<close>

theorem work_order_strict_total:
  assumes "index_reach GetHash s" and "store s p = Some a" and "store s q = Some b" and "store s r = Some c"
  shows "\<not> work_less (store s) p p \<and> (work_less (store s) p q \<and> work_less (store s) q r \<longrightarrow> work_less (store s) p r)
    \<and> (work_less (store s) p q \<or> work_less (store s) q p \<or> p = q)"
proof -
  have tree: "block_tree (store s)" by (rule index_invD(1) [OF index_reach_inv [OF assms(1)]])
  note key = work_less_key [OF tree]
  show ?thesis
    unfolding key [OF assms(2,2)] key [OF assms(2,3)] key [OF assms(3,4)] key [OF assms(2,4)] key [OF assms(3,2)]
    by (auto simp: work_key_def)
qed

theorem work_order_strict_total_witness:
  "\<exists>p s. AddToBlockIndex block_hashMerkleRoot sample_header index_empty = Some (p, s)
    \<and> \<not> work_less (store s) p p"
proof -
  obtain p s b where step: "AddToBlockIndex block_hashMerkleRoot sample_header index_empty = Some (p, s)"
    and reach: "index_reach block_hashMerkleRoot s" and b: "store s p = Some b"
    by (rule sample_index)
  show ?thesis using work_order_strict_total [OF reach b b b] step by auto
qed

text \<open>\<^verbatim>\<open>GetMedianTimePast\<close> returns on every entry of a reachable index; the result is one of the times of the last
  eleven blocks (fewer near the root), more than half of them are at most the result and at least half are not
  below it.\<close>

theorem GetMedianTimePast_median:
  assumes "index_reach GetHash s" and "store s p = Some b" and "ts = map GetBlockTime (path (store s) 11 (Some p))"
  shows "length ts = min 11 (nat (nHeight b) + 1)
    \<and> (\<exists>m \<in> set ts. GetMedianTimePast (store s) p = Some m
        \<and> length ts < 2 * length (filter (\<lambda>t. t \<le> m) ts) \<and> length ts \<le> 2 * length (filter (\<lambda>t. m \<le> t) ts))"
proof -
  have tree: "block_tree (store s)" by (rule index_invD(1) [OF index_reach_inv [OF assms(1)]])
  have len: "length ts = min 11 (nat (nHeight b) + 1)" using length_path [OF tree assms(2)] assms(3) by simp
  then have "ts \<noteq> []" by auto
  from median_bounds [OF this refl] len show ?thesis
    using GetMedianTimePast_path [OF tree assms(2)] assms(3) by (auto simp: nMedianTimeSpan_def Let_def)
qed

theorem GetMedianTimePast_median_witness:
  "\<exists>p s m. AddToBlockIndex block_hashMerkleRoot sample_header index_empty = Some (p, s)
    \<and> GetMedianTimePast (store s) p = Some m"
proof -
  obtain p s b where step: "AddToBlockIndex block_hashMerkleRoot sample_header index_empty = Some (p, s)"
    and reach: "index_reach block_hashMerkleRoot s" and b: "store s p = Some b"
    by (rule sample_index)
  show ?thesis using GetMedianTimePast_median [OF reach b refl] step by auto
qed

end
