(* ===== verification/Chain_Vector.thy ===== *)
theory Chain_Vector
  imports Block_Tree
begin

text \<open>
  \<^verbatim>\<open>CChain\<close> of \<^verbatim>\<open>src/chain.h\<close> and \<^verbatim>\<open>src/chain.cpp\<close>: a chain of blocks as a vector of pointers indexed by height, with
  the operations that set its tip, test membership, find the fork with another branch, find a block by time and build
  a locator, and \<^verbatim>\<open>FindForkInGlobalIndex\<close> of \<^verbatim>\<open>src/validation.cpp\<close>. Loops that follow parent pointers are partial
  functions in the option monad; on a block tree they are shown to return.
\<close>

section \<open>The operations\<close>

type_synonym CChain = "block_ref option list"

definition Genesis :: "CChain \<Rightarrow> block_ref option" where
  "Genesis vChain = (if length vChain > 0 then vChain ! 0 else None)"

definition Tip :: "CChain \<Rightarrow> block_ref option" where
  "Tip vChain = (if length vChain > 0 then vChain ! (length vChain - 1) else None)"

definition chain_at :: "CChain \<Rightarrow> int \<Rightarrow> block_ref option" where
  "chain_at vChain height = (if height < 0 \<or> height \<ge> int (length vChain) then None else vChain ! nat height)"

text \<open>The comparison reads the last element of both vectors; on two empty vectors that is outside of them.\<close>

definition chain_equal :: "CChain \<Rightarrow> CChain \<Rightarrow> bool option" where
  "chain_equal a b =
    (if length a \<noteq> length b then Some False
     else if length a = 0 then None
     else Some (a ! (length a - 1) = b ! (length b - 1)))"

definition Contains :: "block_store \<Rightarrow> CChain \<Rightarrow> block_ref \<Rightarrow> bool option" where
  "Contains st vChain p = do { b \<leftarrow> st p; Some (chain_at vChain (nHeight b) = Some p) }"

definition Next :: "block_store \<Rightarrow> CChain \<Rightarrow> block_ref \<Rightarrow> block_ref option option" where
  "Next st vChain p = do {
    inside \<leftarrow> Contains st vChain p;
    if inside then do { b \<leftarrow> st p; Some (chain_at vChain (nHeight b + 1)) } else Some None }"

definition Height :: "CChain \<Rightarrow> int" where
  "Height vChain = int (length vChain) - 1"

definition resize :: "nat \<Rightarrow> CChain \<Rightarrow> CChain" where
  "resize n vChain = take n vChain @ replicate (n - length vChain) None"

partial_function (option) SetTip_loop :: "block_store \<Rightarrow> CChain \<Rightarrow> block_ref option \<Rightarrow> CChain option" where
  "SetTip_loop st vChain pindex =
    (case pindex of None \<Rightarrow> Some vChain
     | Some p \<Rightarrow> do {
         b \<leftarrow> st p;
         if \<not> (0 \<le> nHeight b \<and> nHeight b < int (length vChain)) then None
         else if vChain ! nat (nHeight b) \<noteq> Some p
         then SetTip_loop st (vChain[nat (nHeight b) := Some p]) (pprev b)
         else Some vChain })"

definition SetTip :: "block_store \<Rightarrow> CChain \<Rightarrow> block_ref option \<Rightarrow> CChain option" where
  "SetTip st vChain pindex =
    (case pindex of None \<Rightarrow> Some []
     | Some p \<Rightarrow> do { b \<leftarrow> st p; SetTip_loop st (resize (nat (nHeight b + 1)) vChain) (Some p) })"

partial_function (option) GetLocator_loop ::
  "block_store \<Rightarrow> CChain \<Rightarrow> int \<Rightarrow> bytes list \<Rightarrow> block_ref option \<Rightarrow> bytes list option" where
  "GetLocator_loop st vChain nStep vHave pindex =
    (case pindex of None \<Rightarrow> Some vHave
     | Some p \<Rightarrow> do {
         b \<leftarrow> st p;
         hash \<leftarrow> phashBlock b;
         if nHeight b = 0 then Some (vHave @ [hash])
         else do {
           inside \<leftarrow> Contains st vChain p;
           next' \<leftarrow> (if inside then Some (chain_at vChain (max (nHeight b - nStep) 0))
                     else GetAncestor st p (max (nHeight b - nStep) 0));
           GetLocator_loop st vChain (if length (vHave @ [hash]) > 10 then nStep * 2 else nStep) (vHave @ [hash]) next' } })"

definition GetLocator :: "block_store \<Rightarrow> CChain \<Rightarrow> block_ref option \<Rightarrow> bytes list option" where
  "GetLocator st vChain pindex =
    GetLocator_loop st vChain 1 [] (case pindex of None \<Rightarrow> Tip vChain | Some p \<Rightarrow> Some p)"

partial_function (option) FindFork_loop :: "block_store \<Rightarrow> CChain \<Rightarrow> block_ref option \<Rightarrow> block_ref option option" where
  "FindFork_loop st vChain pindex =
    (case pindex of None \<Rightarrow> Some None
     | Some p \<Rightarrow> do {
         inside \<leftarrow> Contains st vChain p;
         if inside then Some (Some p) else do { b \<leftarrow> st p; FindFork_loop st vChain (pprev b) } })"

definition FindFork :: "block_store \<Rightarrow> CChain \<Rightarrow> block_ref option \<Rightarrow> block_ref option option" where
  "FindFork st vChain pindex =
    (case pindex of None \<Rightarrow> Some None
     | Some p \<Rightarrow> do {
         b \<leftarrow> st p;
         pindex \<leftarrow> (if nHeight b > Height vChain then GetAncestor st p (Height vChain) else Some (Some p));
         FindFork_loop st vChain pindex })"

text \<open>\<^verbatim>\<open>std::lower_bound\<close>: halving the range \<open>first\<close>, \<open>first + len\<close> with a test of its middle.\<close>

function lower_bound :: "(nat \<Rightarrow> bool option) \<Rightarrow> nat \<Rightarrow> nat \<Rightarrow> nat option" where
  "lower_bound less_at first len =
    (if len = 0 then Some first
     else (case less_at (first + len div 2) of
         None \<Rightarrow> None
       | Some True \<Rightarrow> lower_bound less_at (first + len div 2 + 1) (len - (len div 2 + 1))
       | Some False \<Rightarrow> lower_bound less_at first (len div 2)))"
  by pat_completeness auto

termination by (relation "measure (\<lambda>(less_at, first, len). len)") auto

declare lower_bound.simps [simp del]

definition FindEarliestAtLeast :: "block_store \<Rightarrow> CChain \<Rightarrow> int \<Rightarrow> block_ref option option" where
  "FindEarliestAtLeast st vChain time = do {
    lower \<leftarrow> lower_bound (\<lambda>i. do { p \<leftarrow> vChain ! i; b \<leftarrow> st p; Some (GetBlockTimeMax b < time) }) 0 (length vChain);
    Some (if lower = length vChain then None else vChain ! lower) }"

primrec FindForkInGlobalIndex ::
  "block_store \<Rightarrow> (bytes \<rightharpoonup> block_ref) \<Rightarrow> CChain \<Rightarrow> bytes list \<Rightarrow> block_ref option option" where
  "FindForkInGlobalIndex st blocks chain [] = Some (Genesis chain)"
| "FindForkInGlobalIndex st blocks chain (hash # vHave) =
    (case blocks hash of
       None \<Rightarrow> FindForkInGlobalIndex st blocks chain vHave
     | Some p \<Rightarrow> do {
         inside \<leftarrow> Contains st chain p;
         if inside then Some (Some p)
         else do {
           q \<leftarrow> GetAncestor st p (Height chain);
           if q = Tip chain then Some (Tip chain)
           else FindForkInGlobalIndex st blocks chain vHave } })"

section \<open>Chains\<close>

text \<open>Position \<open>i\<close> holds an entry of height \<open>i\<close> whose parent is at position \<open>i - 1\<close>.\<close>

definition link_at :: "block_store \<Rightarrow> CChain \<Rightarrow> nat \<Rightarrow> bool" where
  "link_at st v i \<longleftrightarrow>
    (\<exists>p b. v ! i = Some p \<and> st p = Some b \<and> nHeight b = int i \<and> (i \<noteq> 0 \<longrightarrow> pprev b = v ! (i - 1)))"

definition chain_inv :: "block_store \<Rightarrow> CChain \<Rightarrow> bool" where
  "chain_inv st v \<longleftrightarrow> (\<forall>i < length v. link_at st v i)"

lemma link_at_cong: "v ! i = w ! i \<Longrightarrow> (i \<noteq> 0 \<Longrightarrow> v ! (i - 1) = w ! (i - 1)) \<Longrightarrow> link_at st v i \<longleftrightarrow> link_at st w i"
  by (auto simp: link_at_def)

lemma link_at_down:
  assumes tree: "block_tree st"
  shows "(\<forall>i \<le> h. v ! i = None \<or> link_at st v i) \<Longrightarrow> v ! h \<noteq> None \<Longrightarrow> i \<le> h \<Longrightarrow> link_at st v i"
proof (induction h)
  case (Suc h)
  then have top: "link_at st v (Suc h)" by auto
  then have "v ! h \<noteq> None" using parent_step [OF tree] unfolding link_at_def by fastforce
  with Suc top show ?case by (cases "i = Suc h") auto
qed auto

lemma SetTip_loop_chain:
  assumes tree: "block_tree st"
  shows "st q = Some c \<Longrightarrow> nHeight c = int h \<Longrightarrow> h < length v \<Longrightarrow> (\<forall>i \<le> h. v ! i = None \<or> link_at st v i) \<Longrightarrow>
    \<exists>w. SetTip_loop st v (Some q) = Some w \<and> length w = length v \<and> (\<forall>i > h. w ! i = v ! i)
      \<and> w ! h = Some q \<and> (\<forall>i \<le> h. link_at st w i)"
proof (induction h arbitrary: q c v)
  case 0
  have "pprev c = None" using genesis_no_parent [OF tree 0(1)] 0(2) by simp
  show ?case
  proof (cases "v ! 0 = Some q")
    case True
    then show ?thesis using 0 by (intro exI [of _ v]) (auto simp: SetTip_loop.simps [of st v "Some q"] link_at_def)
  next
    case False
    have "SetTip_loop st (v[0 := Some q]) None = Some (v[0 := Some q])" by (simp add: SetTip_loop.simps)
    then have "SetTip_loop st v (Some q) = Some (v[0 := Some q])"
      using False 0(1-3) \<open>pprev c = None\<close> by (simp add: SetTip_loop.simps [of st v "Some q"])
    moreover have "link_at st (v[0 := Some q]) 0" using 0(1-3) by (simp add: link_at_def)
    ultimately show ?thesis using 0(3) by simp
  qed
next
  case (Suc h)
  obtain r d where r: "pprev c = Some r" "st r = Some d" "nHeight d = int h"
    by (rule parent_step [OF tree Suc.prems(1)]) (use Suc.prems(2) in auto)
  have [simp]: "nat (1 + int h) = Suc h" by simp
  show ?case
  proof (cases "v ! Suc h = Some q")
    case True
    then have "\<forall>i \<le> Suc h. link_at st v i" using link_at_down [OF tree Suc.prems(4)] by simp
    then show ?thesis using True Suc.prems by (intro exI [of _ v]) (simp add: SetTip_loop.simps [of st v "Some q"])
  next
    case False
    define v1 where "v1 = v[Suc h := Some q]"
    have step: "SetTip_loop st v (Some q) = SetTip_loop st v1 (Some r)"
      using False Suc.prems r by (simp add: SetTip_loop.simps [of st v "Some q"] v1_def)
    have "\<forall>i \<le> h. v1 ! i = None \<or> link_at st v1 i"
    proof (intro allI impI)
      fix i assume "i \<le> h"
      then have "v1 ! i = v ! i" "i \<noteq> 0 \<Longrightarrow> v1 ! (i - 1) = v ! (i - 1)" by (simp_all add: v1_def)
      then show "v1 ! i = None \<or> link_at st v1 i" using link_at_cong [of v1 i v st] Suc.prems(4) \<open>i \<le> h\<close> by auto
    qed
    then obtain w where w: "SetTip_loop st v1 (Some r) = Some w" "length w = length v1" "\<forall>i > h. w ! i = v1 ! i"
      "w ! h = Some r" "\<forall>i \<le> h. link_at st w i"
      using Suc.IH [OF r(2,3), of v1] Suc.prems(3) by (auto simp: v1_def)
    have top: "w ! Suc h = Some q" using w(3) Suc.prems(3) by (simp add: v1_def)
    then have "link_at st w (Suc h)" using Suc.prems r w(4) by (simp add: link_at_def)
    with w top show ?thesis
      by (intro exI [of _ w]) (auto simp: step v1_def le_Suc_eq)
  qed
qed

lemma SetTip_chain:
  assumes tree: "block_tree st" and v: "chain_inv st v" and p: "st p = Some b"
  obtains w where "SetTip st v (Some p) = Some w" and "chain_inv st w" and "Tip w = Some p"
    and "length w = nat (nHeight b + 1)"
proof -
  define h where "h = nat (nHeight b)"
  have h: "nHeight b = int h" using block_treeD(1) [OF tree p] by (simp add: h_def)
  define u where "u = resize (Suc h) v"
  have u: "length u = Suc h" by (simp add: u_def resize_def)
  have "\<forall>i \<le> h. u ! i = None \<or> link_at st u i"
  proof (intro allI impI)
    fix i assume i: "i \<le> h"
    show "u ! i = None \<or> link_at st u i"
    proof (cases "i < length v")
      case True
      then have "u ! i = v ! i" "i \<noteq> 0 \<Longrightarrow> u ! (i - 1) = v ! (i - 1)"
        using i by (auto simp: u_def resize_def nth_append)
      then show ?thesis using link_at_cong [of u i v st] v True by (simp add: chain_inv_def)
    next
      case False
      then show ?thesis using i by (simp add: u_def resize_def nth_append)
    qed
  qed
  then obtain w where w: "SetTip_loop st u (Some p) = Some w" "length w = length u" "w ! h = Some p"
    "\<forall>i \<le> h. link_at st w i"
    using SetTip_loop_chain [OF tree p h, of u] u by auto
  show thesis
  proof (rule that)
    show "SetTip st v (Some p) = Some w" using w(1) p h by (simp add: SetTip_def u_def nat_add_distrib)
    show "chain_inv st w" using w u by (simp add: chain_inv_def)
    show "Tip w = Some p" using w u by (simp add: Tip_def)
    show "length w = nat (nHeight b + 1)" using w(2) u h by (simp add: nat_add_distrib)
  qed
qed


section \<open>Membership and forks\<close>

lemma chain_inv_anc:
  assumes v: "chain_inv st v" and t: "v ! h = Some t" "h < length v"
  shows "i \<le> h \<Longrightarrow> anc st (h - i) t = v ! i"
proof (induction "h - i" arbitrary: i)
  case 0
  then show ?case using t(1) by simp
next
  case (Suc n)
  have eq: "anc st (h - Suc i) t = v ! Suc i" using Suc by simp
  have "link_at st v (Suc i)" using v t(2) Suc by (simp add: chain_inv_def)
  then obtain p b where p: "v ! Suc i = Some p" "st p = Some b" "pprev b = v ! i" by (auto simp: link_at_def)
  have "h - i = Suc (h - Suc i)" using Suc by simp
  then show ?case using anc_Suc_end [of st "h - Suc i" t] eq p by simp
qed

lemma chain_tip:
  assumes "chain_inv st v" and "Tip v = Some t"
  obtains b where "st t = Some b" and "length v = nat (nHeight b) + 1" and "nHeight b = Height v"
    and "v ! nat (nHeight b) = Some t"
proof -
  obtain n where n: "length v = Suc n" using assms(2) by (cases v) (auto simp: Tip_def)
  then have t: "link_at st v n" "v ! n = Some t"
    using assms by (simp_all add: chain_inv_def Tip_def)
  then obtain b where "st t = Some b" "nHeight b = int n" by (auto simp: link_at_def)
  then show thesis using that n t(2) by (simp add: Height_def)
qed

lemma Contains_ancestor:
  assumes tree: "block_tree st" and v: "chain_inv st v" and tip: "Tip v = Some t" and p: "st p = Some b"
  shows "Contains st v p = Some (ancestor st t p)"
proof -
  obtain c where c: "st t = Some c" "length v = nat (nHeight c) + 1" "v ! nat (nHeight c) = Some t"
    by (rule chain_tip [OF v tip])
  have pos: "0 \<le> nHeight b" "0 \<le> nHeight c" using block_treeD(1) [OF tree] p c(1) by blast+
  have "chain_at v (nHeight b) = Some p" if anc_t: "ancestor st t p"
  proof -
    obtain n where n: "anc st n t = Some p" using anc_t by (auto simp: ancestor_def)
    obtain d where "st p = Some d" "nHeight d = nHeight c - int n" "int n \<le> nHeight c"
      by (rule ancestor_at_height [OF tree c(1) n])
    then have nb: "nHeight b = nHeight c - int n" "int n \<le> nHeight c" using p by auto
    then have "nat (nHeight c) - nat (nHeight b) = n" by auto
    then have "v ! nat (nHeight b) = Some p" using chain_inv_anc [OF v c(3), of "nat (nHeight b)"] c(2) nb n by simp
    then show ?thesis using nb pos c(2) by (simp add: chain_at_def)
  qed
  moreover have "ancestor st t p" if "chain_at v (nHeight b) = Some p"
  proof -
    from that have "v ! nat (nHeight b) = Some p" "nat (nHeight b) \<le> nat (nHeight c)"
      using c(2) by (auto simp: chain_at_def split: if_splits)
    then show ?thesis using chain_inv_anc [OF v c(3), of "nat (nHeight b)"] c(2) unfolding ancestor_def by auto
  qed
  ultimately show ?thesis using p by (auto simp: Contains_def)
qed

lemma FindFork_loop_spec:
  assumes tree: "block_tree st" and v: "chain_inv st v" and tip: "Tip v = Some t"
  shows "st p = Some b \<Longrightarrow> \<exists>r. FindFork_loop st v (Some p) = Some r
    \<and> (\<forall>q. ancestor st p q \<and> ancestor st t q \<longleftrightarrow> (\<exists>c. r = Some c \<and> ancestor st c q))"
proof (induction "nat (nHeight b)" arbitrary: p b rule: less_induct)
  case less
  note contains = Contains_ancestor [OF tree v tip less.prems]
  show ?case
  proof (cases "ancestor st t p")
    case True
    then show ?thesis using contains ancestor_trans [of st t p]
      by (intro exI [of _ "Some p"]) (auto simp: FindFork_loop.simps)
  next
    case False
    have up: "ancestor st p q \<longleftrightarrow> q = p \<or> (\<exists>r. pprev b = Some r \<and> ancestor st r q)" for q
    proof
      assume "ancestor st p q"
      then obtain n where "anc st n p = Some q" by (auto simp: ancestor_def)
      then show "q = p \<or> (\<exists>r. pprev b = Some r \<and> ancestor st r q)"
        using less.prems by (cases n) (auto simp: ancestor_def bind_eq_Some_conv)
    next
      assume "q = p \<or> (\<exists>r. pprev b = Some r \<and> ancestor st r q)"
      moreover have "anc st 0 p = Some p" by simp
      moreover have "anc st (Suc n) p = anc st n r" if "pprev b = Some r" for r n using that less.prems by simp
      ultimately show "ancestor st p q" unfolding ancestor_def by metis
    qed
    show ?thesis
    proof (cases "pprev b")
      case None
      have "FindFork_loop st v (Some p) = Some None"
        using contains False less.prems None
        by (simp add: FindFork_loop.simps [of st v "Some p"] FindFork_loop.simps [of st v None])
      moreover have "\<not> (ancestor st p q \<and> ancestor st t q)" for q using False None by (simp add: up)
      ultimately show ?thesis by simp
    next
      case (Some r)
      then obtain c where c: "st r = Some c" "nHeight c = nHeight b - 1" by (rule parent_in_store [OF tree less.prems])
      moreover have "0 \<le> nHeight c" by (rule block_treeD(1) [OF tree c(1)])
      ultimately obtain s where s: "FindFork_loop st v (Some r) = Some s"
        "\<forall>q. ancestor st r q \<and> ancestor st t q \<longleftrightarrow> (\<exists>c. s = Some c \<and> ancestor st c q)"
        using less.hyps [of c r] by auto
      have "FindFork_loop st v (Some p) = Some s"
        using contains False less.prems Some s(1) by (simp add: FindFork_loop.simps [of st v "Some p"])
      moreover have "ancestor st p q \<and> ancestor st t q \<longleftrightarrow> ancestor st r q \<and> ancestor st t q" for q
        using False Some up by auto
      ultimately show ?thesis using s(2) by auto
    qed
  qed
qed

lemma FindFork_spec:
  assumes tree: "block_tree st" and v: "chain_inv st v" and tip: "Tip v = Some t" and p: "st p = Some b"
  shows "\<exists>r. FindFork st v (Some p) = Some r
    \<and> (\<forall>q. ancestor st p q \<and> ancestor st t q \<longleftrightarrow> (\<exists>c. r = Some c \<and> ancestor st c q))"
proof -
  obtain c where c: "st t = Some c" "nHeight c = Height v" by (rule chain_tip [OF v tip])
  show ?thesis
  proof (cases "nHeight b > Height v")
    case True
    have "0 \<le> Height v" using block_treeD(1) [OF tree c(1)] c(2) by simp
    then obtain s u where s: "GetAncestor st p (Height v) = Some (Some s)" "st s = Some u"
      "\<And>q w. st q = Some w \<Longrightarrow> nHeight w \<le> Height v \<Longrightarrow> ancestor st s q \<longleftrightarrow> ancestor st p q"
      using GetAncestor_lift [OF tree p, of "Height v"] True by (metis less_imp_le)
    have "ancestor st s q \<and> ancestor st t q \<longleftrightarrow> ancestor st p q \<and> ancestor st t q" for q
      using s(3) ancestor_below [OF tree c(1), of q] c(2) by metis
    then show ?thesis using FindFork_loop_spec [OF tree v tip s(2)] s(1) p True by (simp add: FindFork_def)
  next
    case False
    then show ?thesis using FindFork_loop_spec [OF tree v tip p] p by (simp add: FindFork_def)
  qed
qed

section \<open>Search by time\<close>

lemma lower_bound_least:
  assumes "\<And>i. i < n \<Longrightarrow> less_at i = Some (P i)" and "\<And>i j. i \<le> j \<Longrightarrow> j < n \<Longrightarrow> P j \<Longrightarrow> P i"
    and "first + len \<le> n" and "\<And>i. i < first \<Longrightarrow> P i" and "\<And>i. first + len \<le> i \<Longrightarrow> i < n \<Longrightarrow> \<not> P i"
  shows "\<exists>k. lower_bound less_at first len = Some k \<and> k \<le> n \<and> (\<forall>i < k. P i) \<and> (\<forall>i. k \<le> i \<and> i < n \<longrightarrow> \<not> P i)"
  using assms
proof (induction less_at first len rule: lower_bound.induct)
  case (1 less_at first len)
  show ?case
  proof (cases "len = 0")
    case True
    then show ?thesis using 1(5-7) by (intro exI [of _ first]) (auto simp: lower_bound.simps)
  next
    case False
    define mid where "mid = first + len div 2"
    have mid: "mid < n" "mid < first + len" using False 1(5) by (simp_all add: mid_def)
    show ?thesis
    proof (cases "P mid")
      case True
      then have at: "less_at mid = Some True" using 1(3) [OF mid(1)] by simp
      have "lower_bound less_at first len = lower_bound less_at (mid + 1) (len - (len div 2 + 1))"
        using False at by (simp add: lower_bound.simps [of less_at first len] mid_def)
      moreover have "mid + 1 + (len - (len div 2 + 1)) = first + len" using False by (simp add: mid_def)
      ultimately show ?thesis
        using 1(1) [OF False at [unfolded mid_def] refl, folded mid_def, OF 1(3) 1(4)] 1(4) [of _ mid] mid True 1(5,7)
        by (auto simp: less_Suc_eq_le)
    next
      case no: False
      then have at: "less_at mid = Some False" using 1(3) [OF mid(1)] by simp
      have "lower_bound less_at first len = lower_bound less_at first (len div 2)"
        using False at by (simp add: lower_bound.simps [of less_at first len] mid_def)
      moreover have "\<not> P i" if "first + len div 2 \<le> i" "i < n" for i
        using 1(4) [of mid i] that no by (auto simp: mid_def)
      ultimately show ?thesis
        using 1(2) [OF False at [unfolded mid_def] refl, OF 1(3) 1(4) _ 1(6)] mid by (auto simp: mid_def)
    qed
  qed
qed


lemma chain_time_mono:
  assumes tree: "block_tree st" and v: "chain_inv st v"
  shows "i \<le> j \<Longrightarrow> j < length v \<Longrightarrow> v ! i = Some p \<Longrightarrow> st p = Some b \<Longrightarrow> v ! j = Some q \<Longrightarrow> st q = Some c \<Longrightarrow>
    nTimeMax b \<le> nTimeMax c"
proof (induction j arbitrary: q c rule: dec_induct)
  case (step j)
  have "link_at st v (Suc j)" using v step.prems(1) by (simp add: chain_inv_def)
  then have link: "pprev c = v ! j" using step.prems by (auto simp: link_at_def)
  have "link_at st v j" using v step.prems(1) by (simp add: chain_inv_def)
  then obtain r d where r: "v ! j = Some r" "st r = Some d" by (auto simp: link_at_def)
  then have "nTimeMax c = max (nTimeMax d) (nTime c)"
    using block_treeD(3) [OF tree step.prems(5)] link by (auto simp: parent_ok_def)
  moreover have "nTimeMax b \<le> nTimeMax d" using step.IH [OF _ step.prems(2,3) r] step.prems(1) by simp
  ultimately show ?case by (simp add: le_max_iff_disj)
qed simp

lemma FindEarliestAtLeast_spec:
  assumes tree: "block_tree st" and v: "chain_inv st v"
  obtains k where "k \<le> length v" and "FindEarliestAtLeast st v time = Some (if k = length v then None else v ! k)"
    and "\<And>i p b. i < k \<Longrightarrow> v ! i = Some p \<Longrightarrow> st p = Some b \<Longrightarrow> GetBlockTimeMax b < time"
    and "\<And>i p b. k \<le> i \<Longrightarrow> i < length v \<Longrightarrow> v ! i = Some p \<Longrightarrow> st p = Some b \<Longrightarrow> time \<le> GetBlockTimeMax b"
proof -
  define less_at where "less_at i = do { p \<leftarrow> v ! i; b \<leftarrow> st p; Some (GetBlockTimeMax b < time) }" for i
  define P where "P i = (less_at i = Some True)" for i
  have at: "\<exists>p b. v ! i = Some p \<and> st p = Some b \<and> less_at i = Some (GetBlockTimeMax b < time)" if "i < length v" for i
    using v that unfolding chain_inv_def link_at_def less_at_def by fastforce
  have total: "less_at i = Some (P i)" if "i < length v" for i using at [OF that] by (auto simp: P_def)
  have mono: "P i" if le: "i \<le> j" "j < length v" and "P j" for i j
  proof -
    have "i < length v" using le by simp
    then obtain p b q c where "v ! i = Some p" "st p = Some b" "less_at i = Some (GetBlockTimeMax b < time)"
      "v ! j = Some q" "st q = Some c" "less_at j = Some (GetBlockTimeMax c < time)" using at [of i] at [OF le(2)] by metis
    moreover from this have "GetBlockTimeMax b \<le> GetBlockTimeMax c"
      using chain_time_mono [OF tree v le] by (simp add: GetBlockTimeMax_def word_le_def)
    ultimately show ?thesis using \<open>P j\<close> by (simp add: P_def)
  qed
  have "\<exists>k. lower_bound less_at 0 (length v) = Some k \<and> k \<le> length v \<and> (\<forall>i < k. P i)
      \<and> (\<forall>i. k \<le> i \<and> i < length v \<longrightarrow> \<not> P i)"
    by (rule lower_bound_least) (use total mono in auto)
  then obtain k where k: "lower_bound less_at 0 (length v) = Some k" "k \<le> length v" "\<forall>i < k. P i"
    "\<forall>i. k \<le> i \<and> i < length v \<longrightarrow> \<not> P i" by blast
  show thesis
  proof (rule that [OF k(2)])
    show "FindEarliestAtLeast st v time = Some (if k = length v then None else v ! k)"
      using k(1) unfolding FindEarliestAtLeast_def less_at_def [abs_def] by simp
    show "GetBlockTimeMax b < time" if "i < k" "v ! i = Some p" "st p = Some b" for i p b
      using k(3) that by (auto simp: P_def less_at_def)
    show "time \<le> GetBlockTimeMax b" if "k \<le> i" "i < length v" "v ! i = Some p" "st p = Some b" for i p b
      using k(4) that by (auto simp: P_def less_at_def)
  qed
qed

section \<open>Locators\<close>

lemma locator_jump:
  assumes tree: "block_tree st" and v: "chain_inv st v" and p: "st p = Some b" and h: "0 \<le> h" "h \<le> nHeight b"
    and inside: "Contains st v p = Some inside"
  obtains q c where "(if inside then Some (chain_at v h) else GetAncestor st p h) = Some (Some q)"
    and "st q = Some c" and "nHeight c = h" and "ancestor st p q"
proof -
  obtain q c where q: "GetAncestor st p h = Some (Some q)" "anc st (nat (nHeight b - h)) p = Some q"
    "st q = Some c" "nHeight c = h"
    by (rule GetAncestor_height [OF tree p h])
  have "chain_at v h = Some q" if inside
  proof -
    have at: "v ! nat (nHeight b) = Some p" "nat (nHeight b) < length v" "0 \<le> nHeight b"
      using inside that p by (auto simp: Contains_def chain_at_def split: if_splits)
    have "nat (nHeight b) - nat h = nat (nHeight b - h)" using h by (simp add: nat_diff_distrib)
    then have "v ! nat h = Some q" using chain_inv_anc [OF v at(1,2), of "nat h"] q(2) h by simp
    then show ?thesis using at(2,3) h by (simp add: chain_at_def)
  qed
  then have "(if inside then Some (chain_at v h) else GetAncestor st p h) = Some (Some q)" using q(1) by simp
  moreover have "ancestor st p q" unfolding ancestor_def using q(2) by (rule exI)
  ultimately show thesis by (rule that [OF _ q(3,4)])
qed

lemma GetLocator_loop_spec:
  assumes tree: "block_tree st" and v: "chain_inv st v"
    and hashes: "\<And>p b. st p = Some b \<Longrightarrow> \<exists>h. phashBlock b = Some h"
  shows "st p = Some b \<Longrightarrow> 1 \<le> nStep \<Longrightarrow>
    \<exists>ps. GetLocator_loop st v nStep vHave (Some p) = Some (vHave @ map (\<lambda>q. the (phashBlock (the (st q)))) ps)
      \<and> ps \<noteq> [] \<and> hd ps = p \<and> (\<forall>q \<in> set ps. ancestor st p q) \<and> (\<exists>g. st (last ps) = Some g \<and> nHeight g = 0)"
proof (induction "nat (nHeight b)" arbitrary: p b nStep vHave rule: less_induct)
  case less
  obtain hash where hash: "phashBlock b = Some hash" using hashes [OF less.prems(1)] by blast
  have self: "ancestor st p p" unfolding ancestor_def by (rule exI [of _ 0]) simp
  show ?case
  proof (cases "nHeight b = 0")
    case True
    then show ?thesis using less.prems hash self
      by (intro exI [of _ "[p]"]) (simp add: GetLocator_loop.simps [of st v nStep vHave "Some p"])
  next
    case False
    then have pos: "0 < nHeight b" using block_treeD(1) [OF tree less.prems(1)] by simp
    define h where "h = max (nHeight b - nStep) 0"
    have h: "0 \<le> h" "h \<le> nHeight b" "h < nHeight b" using less.prems(2) pos by (auto simp: h_def)
    obtain inside where inside: "Contains st v p = Some inside" using less.prems(1) by (simp add: Contains_def)
    obtain q c where q: "(if inside then Some (chain_at v h) else GetAncestor st p h) = Some (Some q)"
      "st q = Some c" "nHeight c = h" "ancestor st p q"
      by (rule locator_jump [OF tree v less.prems(1) h(1,2) inside])
    define step' have' where "step' = (if length (vHave @ [hash]) > 10 then nStep * 2 else nStep)" and "have' = vHave @ [hash]"
    have "1 \<le> step'" using less.prems(2) by (simp add: step'_def)
    moreover have "nat (nHeight c) < nat (nHeight b)" using q(3) h by simp
    ultimately obtain ps where ps: "GetLocator_loop st v step' have' (Some q) =
        Some (have' @ map (\<lambda>q. the (phashBlock (the (st q)))) ps)" "ps \<noteq> []" "hd ps = q"
      "\<forall>r \<in> set ps. ancestor st q r" "\<exists>g. st (last ps) = Some g \<and> nHeight g = 0"
      using less.hyps [OF _ q(2), of step' have'] by blast
    have "GetLocator_loop st v nStep vHave (Some p) = GetLocator_loop st v step' have' (Some q)"
      using less.prems(1) hash False inside q(1)
      by (cases inside) (simp_all add: GetLocator_loop.simps [of st v nStep vHave "Some p"] step'_def have'_def flip: h_def)
    then show ?thesis
      using ps less.prems(1) hash self ancestor_trans [OF q(4)]
      by (intro exI [of _ "p # ps"]) (auto simp: have'_def)
  qed
qed


section \<open>Properties of the chain vector\<close>

lemma chain_inv_mono:
  assumes "chain_inv st v" and le: "st \<subseteq>\<^sub>m st'"
  shows "chain_inv st' v"
  unfolding chain_inv_def link_at_def
proof (intro allI impI)
  fix i assume "i < length v"
  then obtain p b where "v ! i = Some p" "st p = Some b" "nHeight b = int i" "i \<noteq> 0 \<longrightarrow> pprev b = v ! (i - 1)"
    using assms(1) unfolding chain_inv_def link_at_def by blast
  moreover from this have "st' p = Some b" using map_leD [OF le] by blast
  ultimately show "\<exists>p b. v ! i = Some p \<and> st' p = Some b \<and> nHeight b = int i \<and> (i \<noteq> 0 \<longrightarrow> pprev b = v ! (i - 1))"
    by blast
qed

text \<open>An index and a chain over it: insertions of headers and changes of the tip in any order.\<close>

inductive node_reach :: "(CBlockHeader \<Rightarrow> bytes) \<Rightarrow> index_state \<Rightarrow> CChain \<Rightarrow> bool" for GetHash where
  node_empty: "node_reach GetHash index_empty []"
| node_add: "node_reach GetHash s v \<Longrightarrow> header_ok GetHash s block \<Longrightarrow>
    AddToBlockIndex GetHash block s = Some (p, s') \<Longrightarrow> node_reach GetHash s' v"
| node_tip: "node_reach GetHash s v \<Longrightarrow> store s p = Some b \<Longrightarrow>
    SetTip (store s) v (Some p) = Some w \<Longrightarrow> node_reach GetHash s w"

lemma node_reach_inv: "node_reach GetHash s v \<Longrightarrow> index_inv s \<and> chain_inv (store s) v"
proof (induction rule: node_reach.induct)
  case node_empty
  show ?case using index_inv_empty by (simp add: chain_inv_def)
next
  case (node_add s v block p s')
  obtain q t where "AddToBlockIndex GetHash block s = Some (q, t)" "index_inv t" and le: "store s \<subseteq>\<^sub>m store t"
    by (rule AddToBlockIndex_inv [OF conjunct1 [OF node_add.IH] node_add.hyps(2)])
  with node_add show ?case using chain_inv_mono [OF _ le] by simp
next
  case (node_tip s v p b w)
  obtain u where "SetTip (store s) v (Some p) = Some u" "chain_inv (store s) u"
    using SetTip_chain [OF index_invD(1) [OF conjunct1 [OF node_tip.IH]] conjunct2 [OF node_tip.IH] node_tip.hyps(2)] by blast
  with node_tip show ?case by simp
qed

lemma node_reachD:
  assumes "node_reach GetHash s v"
  shows "block_tree (store s)" and "chain_inv (store s) v" and "store s p = Some b \<Longrightarrow> \<exists>h. phashBlock b = Some h"
proof -
  note inv = node_reach_inv [OF assms]
  show "block_tree (store s)" by (rule index_invD(1) [OF conjunct1 [OF inv]])
  show "chain_inv (store s) v" by (rule conjunct2 [OF inv])
  show "\<exists>h. phashBlock b = Some h" if "store s p = Some b" using inv that unfolding index_inv_def by auto
qed

text \<open>A chain of one block, for the witnesses.\<close>

lemma sample_chain:
  obtains p s b v where "AddToBlockIndex block_hashMerkleRoot sample_header index_empty = Some (p, s)"
    and "node_reach block_hashMerkleRoot s []" and "store s p = Some b"
    and "SetTip (store s) [] (Some p) = Some v" and "node_reach block_hashMerkleRoot s v" and "Tip v = Some p"
proof -
  obtain p s b where step: "AddToBlockIndex block_hashMerkleRoot sample_header index_empty = Some (p, s)"
    and b: "store s p = Some b"
    by (rule sample_index)
  have reach: "node_reach block_hashMerkleRoot s []" by (rule node_add [OF node_empty sample_header_ok step])
  obtain v where v: "SetTip (store s) [] (Some p) = Some v" "Tip v = Some p"
    using SetTip_chain [OF node_reachD(1,2) [OF reach] b] by blast
  show thesis by (rule that [OF step reach b v(1) node_tip [OF reach b v(1)] v(2)])
qed

text \<open>Whatever chain the vector held before, setting the tip to a known block returns, and afterwards position \<open>i\<close>
  holds the tip's ancestor at height \<open>i\<close>: stopping at the first entry that is already in place is sound.\<close>

theorem SetTip_holds_ancestors:
  assumes "node_reach GetHash s v" and "store s p = Some b"
  shows "\<exists>w. SetTip (store s) v (Some p) = Some w \<and> Tip w = Some p \<and> int (length w) = nHeight b + 1
    \<and> (\<forall>i. int i \<le> nHeight b \<longrightarrow> w ! i \<noteq> None \<and> w ! i = anc (store s) (nat (nHeight b) - i) p)"
proof -
  note tree = node_reachD(1) [OF assms(1)]
  obtain w where w: "SetTip (store s) v (Some p) = Some w" "chain_inv (store s) w" "Tip w = Some p"
    "length w = nat (nHeight b + 1)"
    by (rule SetTip_chain [OF node_reachD(1,2) [OF assms(1)] assms(2)])
  have pos: "0 \<le> nHeight b" by (rule block_treeD(1) [OF tree assms(2)])
  then have top: "w ! nat (nHeight b) = Some p" "nat (nHeight b) < length w"
    using w(3,4) by (auto simp: Tip_def nat_add_distrib split: if_splits)
  have "w ! i \<noteq> None \<and> w ! i = anc (store s) (nat (nHeight b) - i) p" if "int i \<le> nHeight b" for i
  proof -
    have i: "i \<le> nat (nHeight b)" using that by simp
    moreover have "link_at (store s) w i" using w(2) top(2) i by (simp add: chain_inv_def)
    ultimately show ?thesis using chain_inv_anc [OF w(2) top i] by (auto simp: link_at_def)
  qed
  moreover have "int (length w) = nHeight b + 1" using w(4) pos by simp
  ultimately show ?thesis using w(1,3) by blast
qed

theorem SetTip_holds_ancestors_witness:
  "\<exists>p s w. AddToBlockIndex block_hashMerkleRoot sample_header index_empty = Some (p, s)
    \<and> SetTip (store s) [] (Some p) = Some w \<and> Tip w = Some p"
proof -
  obtain p s b where "AddToBlockIndex block_hashMerkleRoot sample_header index_empty = Some (p, s)"
    and "node_reach block_hashMerkleRoot s []" and "store s p = Some b"
    by (rule sample_chain)
  then show ?thesis using SetTip_holds_ancestors by metis
qed

text \<open>Membership in the chain is being an ancestor of the tip, and \<^verbatim>\<open>FindFork\<close> returns on every known block the
  last block it shares with the chain: the common ancestors with the tip are exactly the ancestors of the result.\<close>

theorem FindFork_last_common:
  assumes "node_reach GetHash s v" and "Tip v = Some t" and "store s p = Some b"
  shows "Contains (store s) v p = Some (ancestor (store s) t p)
    \<and> (\<exists>r. FindFork (store s) v (Some p) = Some r
      \<and> (\<forall>q. ancestor (store s) p q \<and> ancestor (store s) t q \<longleftrightarrow> (\<exists>c. r = Some c \<and> ancestor (store s) c q)))"
  using Contains_ancestor [OF node_reachD(1,2) [OF assms(1)] assms(2,3)]
    FindFork_spec [OF node_reachD(1,2) [OF assms(1)] assms(2,3)] by simp

theorem FindFork_last_common_witness:
  "\<exists>p s v r. AddToBlockIndex block_hashMerkleRoot sample_header index_empty = Some (p, s)
    \<and> SetTip (store s) [] (Some p) = Some v \<and> FindFork (store s) v (Some p) = Some r"
proof -
  obtain p s b v where "AddToBlockIndex block_hashMerkleRoot sample_header index_empty = Some (p, s)"
    and b: "store s p = Some b" and "SetTip (store s) [] (Some p) = Some v"
    and reach: "node_reach block_hashMerkleRoot s v" and tip: "Tip v = Some p"
    by (rule sample_chain)
  then show ?thesis using FindFork_last_common [OF reach tip b] by metis
qed

text \<open>\<^verbatim>\<open>FindEarliestAtLeast\<close> finds, by binary search on the vector, the lowest block whose maximal time is not below
  the given time, and null exactly when there is none.\<close>

theorem FindEarliestAtLeast_first:
  assumes "node_reach GetHash s v"
  shows "\<exists>k \<le> length v. FindEarliestAtLeast (store s) v time = Some (if k = length v then None else v ! k)
    \<and> (\<forall>i < length v. \<exists>p b. v ! i = Some p \<and> store s p = Some b \<and> (GetBlockTimeMax b < time \<longleftrightarrow> i < k))"
proof -
  obtain k where k: "k \<le> length v" "FindEarliestAtLeast (store s) v time = Some (if k = length v then None else v ! k)"
    "\<And>i p b. i < k \<Longrightarrow> v ! i = Some p \<Longrightarrow> store s p = Some b \<Longrightarrow> GetBlockTimeMax b < time"
    "\<And>i p b. k \<le> i \<Longrightarrow> i < length v \<Longrightarrow> v ! i = Some p \<Longrightarrow> store s p = Some b \<Longrightarrow> time \<le> GetBlockTimeMax b"
    by (rule FindEarliestAtLeast_spec [OF node_reachD(1,2) [OF assms]]) blast
  have "\<exists>p b. v ! i = Some p \<and> store s p = Some b \<and> (GetBlockTimeMax b < time \<longleftrightarrow> i < k)" if i: "i < length v" for i
  proof -
    obtain p b where p: "v ! i = Some p" "store s p = Some b"
      using node_reachD(2) [OF assms] i unfolding chain_inv_def link_at_def by blast
    then show ?thesis using k(3) [OF _ p] k(4) [OF _ i p] by (meson not_le)
  qed
  with k(1,2) show ?thesis by blast
qed

theorem FindEarliestAtLeast_first_witness:
  "\<exists>p s v. AddToBlockIndex block_hashMerkleRoot sample_header index_empty = Some (p, s)
    \<and> SetTip (store s) [] (Some p) = Some v \<and> FindEarliestAtLeast (store s) v 5 \<noteq> None"
proof -
  obtain p s v where "AddToBlockIndex block_hashMerkleRoot sample_header index_empty = Some (p, s)"
    and "SetTip (store s) [] (Some p) = Some v" and reach: "node_reach block_hashMerkleRoot s v"
    by (rule sample_chain)
  then show ?thesis using FindEarliestAtLeast_first [OF reach, of 5] by (metis option.distinct(1))
qed

text \<open>\<^verbatim>\<open>GetLocator\<close> returns for every known block, with growing steps and both ways to jump back: the locator holds
  the hashes of a list of ancestors that starts with the block itself and ends with a block of height zero.\<close>

theorem GetLocator_reaches_genesis:
  assumes "node_reach GetHash s v" and "store s p = Some b"
  shows "\<exists>ps. GetLocator (store s) v (Some p) = Some (map (\<lambda>q. the (phashBlock (the (store s q)))) ps)
    \<and> ps \<noteq> [] \<and> hd ps = p \<and> (\<forall>q \<in> set ps. ancestor (store s) p q)
    \<and> (\<exists>g. store s (last ps) = Some g \<and> nHeight g = 0)"
  using GetLocator_loop_spec [OF node_reachD(1,2) [OF assms(1)] _ assms(2), of 1 "[]"] node_reachD(3) [OF assms(1)]
  by (simp add: GetLocator_def)

theorem GetLocator_reaches_genesis_witness:
  "\<exists>p s v hs. AddToBlockIndex block_hashMerkleRoot sample_header index_empty = Some (p, s)
    \<and> SetTip (store s) [] (Some p) = Some v \<and> GetLocator (store s) v (Some p) = Some hs \<and> hs \<noteq> []"
proof -
  obtain p s b v where "AddToBlockIndex block_hashMerkleRoot sample_header index_empty = Some (p, s)"
    and b: "store s p = Some b" and "SetTip (store s) [] (Some p) = Some v"
    and reach: "node_reach block_hashMerkleRoot s v"
    by (rule sample_chain)
  moreover obtain hs where "GetLocator (store s) v (Some p) = Some hs" "hs \<noteq> []"
    using GetLocator_reaches_genesis [OF reach b] by (metis map_is_Nil_conv)
  ultimately show ?thesis by metis
qed

end
