(* ===== verification/Pow.thy ===== *)
theory Pow
  imports Chain_Vector "HOL-Library.Signed_Division"
begin

text \<open>
  Proof of work: \<^verbatim>\<open>src/pow.cpp\<close> with the consensus parameters of \<^verbatim>\<open>src/consensus/params.h\<close>. The difficulty rules
  read the block index of the previous theories; \<open>None\<close> is a failed assertion, a dangling dereference or a thrown
  \<^verbatim>\<open>uint_error\<close>. The 64-bit signed times and spans are integers (they do not overflow for times of 32 bits);
  division and remainder truncate towards zero as in C++. \<^verbatim>\<open>bnNew *= nActualTimespan\<close> selects the 32-bit operator, so
  the span is truncated to 32 bits there, and \<^verbatim>\<open>bnNew /= ...\<close> converts its operand to 64 unsigned bits.
\<close>

section \<open>Consensus parameters\<close>

record BIP9Deployment =
  dep_bit :: nat
  nStartTime :: int
  nTimeout :: int
  nOverrideMinerConfirmationWindow :: u32
  nOverrideRuleChangeActivationThreshold :: u32

record Params =
  hashGenesisBlock :: bytes
  nSubsidyHalvingInterval :: int
  nBIP34Enabled :: bool
  nBIP65Enabled :: bool
  nBIP66Enabled :: bool
  nRuleChangeActivationThreshold :: u32
  nMinerConfirmationWindow :: u32
  vDeployments :: "BIP9Deployment list"
  powLimit :: bytes
  kawpowLimit :: bytes
  fPowAllowMinDifficultyBlocks :: bool
  fPowNoRetargeting :: bool
  nPowTargetSpacing :: int
  nPowTargetTimespan :: int
  nMinimumChainWork :: bytes
  defaultAssumeValid :: bytes
  nSegwitEnabled :: bool
  nCSVEnabled :: bool

definition DifficultyAdjustmentInterval :: "Params \<Rightarrow> int" where
  "DifficultyAdjustmentInterval params = nPowTargetTimespan params sdiv nPowTargetSpacing params"

text \<open>The two settings that \<^verbatim>\<open>pow.cpp\<close> reads outside the parameters: the global \<^verbatim>\<open>nKAWPOWActivationTime\<close> and the
  height of \<^verbatim>\<open>DGWActivationBlock()\<close>.\<close>

record pow_globals =
  nKAWPOWActivationTime :: u32
  nDGWActivationBlock :: u32

definition IsDGWActive :: "pow_globals \<Rightarrow> u32 \<Rightarrow> bool" where
  "IsDGWActive g nBlockNumber \<longleftrightarrow> nBlockNumber \<ge> nDGWActivationBlock g"

section \<open>Difficulty\<close>

definition header_time :: "CBlockHeader \<Rightarrow> int" where
  "header_time block = uint (block_nTime block)"

partial_function (option) last_regular_bits :: "block_store \<Rightarrow> Params \<Rightarrow> u32 \<Rightarrow> block_ref \<Rightarrow> u32 option" where
  "last_regular_bits st params nProofOfWorkLimit pindex = do {
    b \<leftarrow> st pindex;
    case pprev b of
      Some q \<Rightarrow>
        if nHeight b smod DifficultyAdjustmentInterval params \<noteq> 0 \<and> nBits b = nProofOfWorkLimit
        then last_regular_bits st params nProofOfWorkLimit q else Some (nBits b)
    | None \<Rightarrow> Some (nBits b) }"

definition nPastBlocks :: nat where
  "nPastBlocks = 180"

definition dgw_step ::
  "block_store \<Rightarrow> pow_globals \<Rightarrow> nat \<Rightarrow> block_ref \<times> base_uint \<times> nat \<Rightarrow> (block_ref \<times> base_uint \<times> nat) option" where
  "dgw_step st g nCountBlocks = (\<lambda>(pindex, bnPastTargetAvg, nKAWPOWBlocksFound). do {
    b \<leftarrow> st pindex;
    let bnTarget = fst (SetCompact (nBits b));
    bnPastTargetAvg \<leftarrow>
      (if nCountBlocks = 1 then Some bnTarget
       else uint_div (uint_add (uint_mul32 bnPastTargetAvg (of_nat nCountBlocks)) bnTarget)
              (base_uint_of (of_nat (nCountBlocks + 1))));
    let nKAWPOWBlocksFound = (if nTime b \<ge> nKAWPOWActivationTime g then nKAWPOWBlocksFound + 1 else nKAWPOWBlocksFound);
    pindex \<leftarrow> (if nCountBlocks \<noteq> nPastBlocks then pprev b else Some pindex);
    Some (pindex, bnPastTargetAvg, nKAWPOWBlocksFound) })"

primrec dgw_loop ::
  "block_store \<Rightarrow> pow_globals \<Rightarrow> nat list \<Rightarrow> block_ref \<times> base_uint \<times> nat \<Rightarrow> (block_ref \<times> base_uint \<times> nat) option" where
  "dgw_loop st g [] s = Some s"
| "dgw_loop st g (n # ns) s = do { s \<leftarrow> dgw_step st g n s; dgw_loop st g ns s }"

definition DarkGravityWave ::
  "block_store \<Rightarrow> pow_globals \<Rightarrow> Params \<Rightarrow> block_ref \<Rightarrow> CBlockHeader \<Rightarrow> u32 option" where
  "DarkGravityWave st g params pindexLast pblock = do {
    let bnPowLimit = UintToArith256 (powLimit params);
    nProofOfWorkLimit \<leftarrow> GetCompact bnPowLimit False;
    tip \<leftarrow> st pindexLast;
    if nHeight tip < int nPastBlocks then GetCompact bnPowLimit False
    else if fPowAllowMinDifficultyBlocks params \<and> fPowNoRetargeting params then
      (if header_time pblock > GetBlockTime tip + nPowTargetSpacing params * 2 then Some nProofOfWorkLimit
       else last_regular_bits st params nProofOfWorkLimit pindexLast)
    else do {
      (pindex, bnPastTargetAvg, nKAWPOWBlocksFound) \<leftarrow>
        dgw_loop st g [1..<nPastBlocks + 1] (pindexLast, base_uint_of 0, 0);
      if block_nTime pblock \<ge> nKAWPOWActivationTime g \<and> nKAWPOWBlocksFound \<noteq> nPastBlocks
      then GetCompact (UintToArith256 (kawpowLimit params)) False
      else do {
        first \<leftarrow> st pindex;
        let nTargetTimespan = int nPastBlocks * nPowTargetSpacing params;
        let nActualTimespan = GetBlockTime tip - GetBlockTime first;
        let nActualTimespan = (if nActualTimespan < nTargetTimespan sdiv 3 then nTargetTimespan sdiv 3 else nActualTimespan);
        let nActualTimespan = (if nActualTimespan > nTargetTimespan * 3 then nTargetTimespan * 3 else nActualTimespan);
        bnNew \<leftarrow> uint_div (uint_mul32 bnPastTargetAvg (word_of_int nActualTimespan))
                   (base_uint_of (word_of_int nTargetTimespan));
        let bnNew = (if CompareTo bnNew bnPowLimit > 0 then bnPowLimit else bnNew);
        GetCompact bnNew False } } }"

definition CalculateNextWorkRequired :: "CBlockIndex \<Rightarrow> int \<Rightarrow> Params \<Rightarrow> u32 option" where
  "CalculateNextWorkRequired tip nFirstBlockTime params =
    (if fPowNoRetargeting params then Some (nBits tip)
     else do {
       let nActualTimespan = GetBlockTime tip - nFirstBlockTime;
       let nActualTimespan = (if nActualTimespan < nPowTargetTimespan params sdiv 4
                              then nPowTargetTimespan params sdiv 4 else nActualTimespan);
       let nActualTimespan = (if nActualTimespan > nPowTargetTimespan params * 4
                              then nPowTargetTimespan params * 4 else nActualTimespan);
       let bnPowLimit = UintToArith256 (powLimit params);
       bnNew \<leftarrow> uint_div (uint_mul32 (fst (SetCompact (nBits tip))) (word_of_int nActualTimespan))
                  (base_uint_of (word_of_int (nPowTargetTimespan params)));
       let bnNew = (if CompareTo bnNew bnPowLimit > 0 then bnPowLimit else bnNew);
       GetCompact bnNew False })"

definition GetNextWorkRequiredBTC :: "block_store \<Rightarrow> Params \<Rightarrow> block_ref \<Rightarrow> CBlockHeader \<Rightarrow> u32 option" where
  "GetNextWorkRequiredBTC st params pindexLast pblock = do {
    nProofOfWorkLimit \<leftarrow> GetCompact (UintToArith256 (powLimit params)) False;
    tip \<leftarrow> st pindexLast;
    if (nHeight tip + 1) smod DifficultyAdjustmentInterval params \<noteq> 0 then
      (if fPowAllowMinDifficultyBlocks params then
         (if header_time pblock > GetBlockTime tip + nPowTargetSpacing params * 2 then Some nProofOfWorkLimit
          else last_regular_bits st params nProofOfWorkLimit pindexLast)
       else Some (nBits tip))
    else do {
      let nHeightFirst = nHeight tip - (DifficultyAdjustmentInterval params - 1);
      if nHeightFirst < 0 then None
      else do {
        pindexFirst \<leftarrow> GetAncestor st pindexLast nHeightFirst;
        pindexFirst \<leftarrow> pindexFirst;
        first \<leftarrow> st pindexFirst;
        CalculateNextWorkRequired tip (GetBlockTime first) params } } }"

definition GetNextWorkRequired ::
  "block_store \<Rightarrow> pow_globals \<Rightarrow> Params \<Rightarrow> block_ref \<Rightarrow> CBlockHeader \<Rightarrow> u32 option" where
  "GetNextWorkRequired st g params pindexLast pblock = do {
    tip \<leftarrow> st pindexLast;
    if IsDGWActive g (word_of_int (nHeight tip + 1)) then DarkGravityWave st g params pindexLast pblock
    else GetNextWorkRequiredBTC st params pindexLast pblock }"

definition CheckProofOfWork :: "bytes \<Rightarrow> u32 \<Rightarrow> Params \<Rightarrow> bool" where
  "CheckProofOfWork hash bits params =
    (let (bnTarget, fNegative, fOverflow) = SetCompact bits
     in if fNegative \<or> EqualTo bnTarget 0 \<or> fOverflow \<or> CompareTo bnTarget (UintToArith256 (powLimit params)) > 0
        then False
        else if CompareTo (UintToArith256 hash) bnTarget > 0 then False
        else True)"


section \<open>Retargeting\<close>

lemma length_fst_SetCompact [simp]: "length (fst (SetCompact n)) = WIDTH"
  using SetCompact_decodes [of n] by (auto simp: Let_def split: prod.splits)

text \<open>The common end of both rules: scale by a ratio of spans, cap at the limit, encode.\<close>

lemma retarget_value:
  assumes a: "length a = WIDTH" and l: "length l = WIDTH" and T: "(word_of_int T :: u64) \<noteq> 0"
  obtains c v where
    "do { bnNew \<leftarrow> uint_div (uint_mul32 a w) (base_uint_of (word_of_int T));
          let bnNew = (if CompareTo bnNew l > 0 then l else bnNew);
          GetCompact bnNew False } = Some c"
    and "SetCompact c = (v, False, False)"
    and "uval v \<le> min (uval l) ((uval a * unat w) mod 2 ^ 256 div unat (word_of_int T :: u64))"
    and "(min (uval l) ((uval a * unat w) mod 2 ^ 256 div unat (word_of_int T :: u64)) - uval v) * 2 ^ 15
      \<le> min (uval l) ((uval a * unat w) mod 2 ^ 256 div unat (word_of_int T :: u64))"
proof -
  define N where "N = (uval a * unat w) mod 2 ^ 256 div unat (word_of_int T :: u64)"
  have mul: "length (uint_mul32 a w) = WIDTH" "uval (uint_mul32 a w) = (uval a * unat w) mod 2 ^ 256"
    using a uval_mul32 [of a w] by (simp_all add: WIDTH_def)
  obtain q where q: "uint_div (uint_mul32 a w) (base_uint_of (word_of_int T)) = Some q" "length q = WIDTH" "uval q = N"
    using uint_div_quotient [OF mul(1), of "base_uint_of (word_of_int T)"] T mul(2) by (auto simp: N_def unat_eq_0)
  define r where "r = (if CompareTo q l > 0 then l else q)"
  have r: "length r = WIDTH" "uval r = min (uval l) N"
    using CompareTo_sign [OF q(2) l] l q(2,3) by (auto simp: r_def)
  obtain c v where cv: "GetCompact r False = Some c" "SetCompact c = (v, False, False)" "uval v \<le> uval r"
    "(uval r - uval v) * 2 ^ 15 \<le> uval r"
    using SetCompact_GetCompact [OF r(1)] by metis
  show thesis
  proof (rule that [of c v, folded N_def])
    show "do { bnNew \<leftarrow> uint_div (uint_mul32 a w) (base_uint_of (word_of_int T));
          let bnNew = (if CompareTo bnNew l > 0 then l else bnNew);
          GetCompact bnNew False } = Some c"
      using q(1) cv(1) by (simp flip: r_def)
  qed (use cv r(2) in simp_all)
qed

lemma GetCompact_limit:
  obtains c v where "GetCompact (UintToArith256 l) False = Some c" and "SetCompact c = (v, False, False)"
    and "uval v \<le> uval (UintToArith256 l)"
  using SetCompact_GetCompact [of "UintToArith256 l"] by (metis length_UintToArith256)

lemma last_regular_bits_total:
  assumes "block_tree st"
  shows "st p = Some b \<Longrightarrow> \<exists>c. last_regular_bits st params l p = Some c"
proof (induction "nat (nHeight b)" arbitrary: p b rule: less_induct)
  case less
  show ?case
  proof (cases "pprev b")
    case None
    then show ?thesis using less.prems by (simp add: last_regular_bits.simps)
  next
    case (Some q)
    then obtain d where d: "st q = Some d" "nHeight d = nHeight b - 1" by (rule parent_in_store [OF assms less.prems])
    moreover have "0 \<le> nHeight d" by (rule block_treeD(1) [OF assms d(1)])
    ultimately have "\<exists>c. last_regular_bits st params l q = Some c" using less.hyps [of d q] by simp
    then show ?thesis using less.prems Some by (simp add: last_regular_bits.simps [of st params l p])
  qed
qed

lemma unat_of_nat_64: "x < 2 ^ 64 \<Longrightarrow> unat (of_nat x :: u64) = x"
  by (simp add: unat_of_nat)

lemma dgw_step_total:
  assumes tree: "block_tree st" and b: "st p = Some b" and n: "1 \<le> n" "n \<le> nPastBlocks"
    and h: "nHeight b > int nPastBlocks - int n" and avg: "length avg = WIDTH"
  obtains q c avg' f' where "dgw_step st g n (p, avg, f) = Some (q, avg', f')" and "st q = Some c"
    and "length avg' = WIDTH" and "nHeight c > int nPastBlocks - int (Suc n)"
proof -
  have small: "n + 1 < 2 ^ 64" using n(2) by (simp add: nPastBlocks_def)
  have "uval (base_uint_of (of_nat (n + 1))) = n + 1"
    unfolding uval_base_uint_of by (rule unat_of_nat_64 [OF small])
  then have "uval (base_uint_of (of_nat (n + 1))) \<noteq> 0" by (simp only:)
  then obtain a where a: "(if n = 1 then Some (fst (SetCompact (nBits b)))
      else uint_div (uint_add (uint_mul32 avg (of_nat n)) (fst (SetCompact (nBits b)))) (base_uint_of (of_nat (n + 1)))) = Some a"
    "length a = WIDTH"
    using uint_div_quotient [of "uint_add (uint_mul32 avg (of_nat n)) (fst (SetCompact (nBits b)))"
        "base_uint_of (of_nat (n + 1))"] avg
    by (cases "n = 1") auto
  obtain q c where q: "(if n \<noteq> nPastBlocks then pprev b else Some p) = Some q" "st q = Some c"
    "nHeight c > int nPastBlocks - int (Suc n)"
  proof (cases "n = nPastBlocks")
    case True
    then show thesis using that [of p b] b h by simp
  next
    case False
    then have "0 < nHeight b" using h n(2) by simp
    then show thesis using parent_step [OF tree b] that False h by fastforce
  qed
  show thesis
    by (rule that [OF _ q(2) a(2) q(3)]) (use b a(1) q(1) in \<open>simp add: dgw_step_def Let_def\<close>)
qed

lemma dgw_loop_total:
  assumes tree: "block_tree st"
  shows "st p = Some b \<Longrightarrow> n = nPastBlocks + 1 - k \<Longrightarrow> k \<le> nPastBlocks \<Longrightarrow> nHeight b > int nPastBlocks - int n \<Longrightarrow>
    length avg = WIDTH \<Longrightarrow>
    \<exists>q c avg' f'. dgw_loop st g [n..<nPastBlocks + 1] (p, avg, f) = Some (q, avg', f') \<and> st q = Some c \<and> length avg' = WIDTH"
proof (induction k arbitrary: p b n avg f)
  case (Suc k)
  have n: "1 \<le> n" "n \<le> nPastBlocks" "Suc n = nPastBlocks + 1 - k" using Suc.prems(2,3) by simp_all
  obtain q c avg' f' where step: "dgw_step st g n (p, avg, f) = Some (q, avg', f')" "st q = Some c"
    "length avg' = WIDTH" "nHeight c > int nPastBlocks - int (Suc n)"
    by (rule dgw_step_total [OF tree Suc.prems(1) n(1,2) Suc.prems(4,5)])
  have "[n..<nPastBlocks + 1] = n # [Suc n..<nPastBlocks + 1]" using n(2) by (simp add: upt_conv_Cons)
  then show ?case using Suc.IH [OF step(2) n(3) _ step(4,3), of f'] Suc.prems(3) step(1) by simp
qed simp


text \<open>Parameters as every network of \<^verbatim>\<open>src/chainparams.cpp\<close> has them: positive spans that fit 32 bits when scaled.\<close>

definition params_ok :: "Params \<Rightarrow> bool" where
  "params_ok params \<longleftrightarrow> 0 < nPowTargetSpacing params \<and> nPowTargetSpacing params \<le> nPowTargetTimespan params
    \<and> nPowTargetTimespan params * 4 < 2 ^ 32 \<and> nPowTargetSpacing params * 540 < 2 ^ 32"

lemma unat_word_of_int: "0 \<le> T \<Longrightarrow> T < 2 ^ LENGTH('a::len) \<Longrightarrow> unat (word_of_int T :: 'a word) = nat T"
  by (simp add: unsigned_of_int take_bit_int_eq_self)

lemma params_okD:
  assumes "params_ok params"
  shows "(word_of_int (nPowTargetTimespan params) :: u64) \<noteq> 0"
    and "unat (word_of_int (nPowTargetTimespan params) :: u64) = nat (nPowTargetTimespan params)"
    and "(word_of_int (int nPastBlocks * nPowTargetSpacing params) :: u64) \<noteq> 0"
    and "1 \<le> DifficultyAdjustmentInterval params"
proof -
  let ?T = "nPowTargetTimespan params" and ?S = "nPowTargetSpacing params"
  have T: "0 < ?T" "?T < 2 ^ 64" "0 < int nPastBlocks * ?S" "int nPastBlocks * ?S < 2 ^ 64"
    using assms by (simp_all add: params_ok_def nPastBlocks_def)
  have nz: "(word_of_int x :: u64) \<noteq> 0" if "0 < x" "x < 2 ^ 64" for x
    using unat_word_of_int [where 'a = 64, of x] that by (auto simp flip: unat_eq_0)
  show "(word_of_int ?T :: u64) \<noteq> 0" "(word_of_int (int nPastBlocks * ?S) :: u64) \<noteq> 0" using nz T by blast+
  show "unat (word_of_int ?T :: u64) = nat ?T" using unat_word_of_int [where 'a = 64, of ?T] T by simp
  have "1 \<le> ?T div ?S" using assms by (simp add: params_ok_def pos_imp_zdiv_pos_iff int_one_le_iff_zero_less)
  then show "1 \<le> DifficultyAdjustmentInterval params"
    using assms by (simp add: DifficultyAdjustmentInterval_def params_ok_def signed_divide_int_eq_divide_int)
qed

lemma CalculateNextWorkRequired_total:
  assumes "params_ok params"
  obtains c where "CalculateNextWorkRequired tip t params = Some c"
proof (cases "fPowNoRetargeting params")
  case False
  define w :: u32 where "w = word_of_int (let t = GetBlockTime tip - t;
    t = (if t < nPowTargetTimespan params sdiv 4 then nPowTargetTimespan params sdiv 4 else t)
    in if t > nPowTargetTimespan params * 4 then nPowTargetTimespan params * 4 else t)"
  obtain c where "do { bnNew \<leftarrow> uint_div (uint_mul32 (fst (SetCompact (nBits tip))) w)
              (base_uint_of (word_of_int (nPowTargetTimespan params)));
          let bnNew = (if CompareTo bnNew (UintToArith256 (powLimit params)) > 0 then UintToArith256 (powLimit params) else bnNew);
          GetCompact bnNew False } = Some c"
    by (rule retarget_value [OF length_fst_SetCompact length_UintToArith256 params_okD(1) [OF assms]])
  then have "CalculateNextWorkRequired tip t params = Some c"
    unfolding CalculateNextWorkRequired_def w_def Let_def if_not_P [OF False] .
  then show thesis by (rule that)
qed (use that in \<open>simp add: CalculateNextWorkRequired_def\<close>)

lemma GetNextWorkRequiredBTC_total:
  assumes ok: "params_ok params" and tree: "block_tree st" and b: "st p = Some b"
  obtains c where "GetNextWorkRequiredBTC st params p block = Some c"
proof -
  obtain l where l: "GetCompact (UintToArith256 (powLimit params)) False = Some l" by (rule GetCompact_limit)
  show thesis
  proof (cases "(nHeight b + 1) smod DifficultyAdjustmentInterval params = 0")
    case False
    obtain c where "last_regular_bits st params l p = Some c" using last_regular_bits_total [OF tree b] by blast
    with False l b show thesis
      by (cases "fPowAllowMinDifficultyBlocks params"; cases "header_time block > GetBlockTime b + nPowTargetSpacing params * 2")
        (auto simp: GetNextWorkRequiredBTC_def intro: that)
  next
    case True
    let ?I = "DifficultyAdjustmentInterval params"
    have pos: "0 \<le> nHeight b" by (rule block_treeD(1) [OF tree b])
    note I = params_okD(4) [OF ok]
    have "(nHeight b + 1) mod ?I = 0" using True pos I by (simp add: signed_modulo_int_eq_modulo_int)
    then have "?I \<le> nHeight b + 1" using pos by (intro zdvd_imp_le) (auto simp: dvd_eq_mod_eq_0)
    then have h: "0 \<le> nHeight b - (?I - 1)" "nHeight b - (?I - 1) \<le> nHeight b" using I by simp_all
    obtain q c where q: "GetAncestor st p (nHeight b - (?I - 1)) = Some (Some q)" "st q = Some c"
      by (rule GetAncestor_height [OF tree b h])
    obtain r where "CalculateNextWorkRequired b (GetBlockTime c) params = Some r"
      by (rule CalculateNextWorkRequired_total [OF ok])
    then show thesis
      using that True l b q h(1) by (simp add: GetNextWorkRequiredBTC_def)
  qed
qed

text \<open>On a network that retargets, every target the moving average produces is within a limit.\<close>

lemma DarkGravityWave_bound:
  assumes ok: "params_ok params" and tree: "block_tree st" and b: "st p = Some b"
    and live: "\<not> (fPowAllowMinDifficultyBlocks params \<and> fPowNoRetargeting params)"
  obtains c v where "DarkGravityWave st g params p block = Some c" and "SetCompact c = (v, False, False)"
    and "uval v \<le> max (uval (UintToArith256 (powLimit params))) (uval (UintToArith256 (kawpowLimit params)))"
proof -
  obtain l lv where l: "GetCompact (UintToArith256 (powLimit params)) False = Some l" "SetCompact l = (lv, False, False)"
    "uval lv \<le> uval (UintToArith256 (powLimit params))"
    by (rule GetCompact_limit)
  obtain k kv where k: "GetCompact (UintToArith256 (kawpowLimit params)) False = Some k" "SetCompact k = (kv, False, False)"
    "uval kv \<le> uval (UintToArith256 (kawpowLimit params))"
    by (rule GetCompact_limit)
  show thesis
  proof (cases "nHeight b < int nPastBlocks")
    case True
    then show thesis by (intro that [of l lv]) (use l b in \<open>simp_all add: DarkGravityWave_def Let_def\<close>)
  next
    case False
    obtain q c avg f where loop: "dgw_loop st g [1..<nPastBlocks + 1] (p, base_uint_of 0, 0) = Some (q, avg, f)"
      "st q = Some c" "length avg = WIDTH"
      using dgw_loop_total [OF tree b, of 1 nPastBlocks "base_uint_of 0" g 0] False by auto
    show thesis
    proof (cases "block_nTime block \<ge> nKAWPOWActivationTime g \<and> f \<noteq> nPastBlocks")
      case True
      have "DarkGravityWave st g params p block = Some k"
        using False live True b l k loop by (auto simp: DarkGravityWave_def Let_def simp del: upt_Suc)
      then show thesis by (rule that [OF _ k(2)]) (use k(3) in \<open>simp add: le_max_iff_disj\<close>)
    next
      case kawpow: False
      define w :: u32 where "w = word_of_int (let T = int nPastBlocks * nPowTargetSpacing params;
        t = GetBlockTime b - GetBlockTime c; t = (if t < T sdiv 3 then T sdiv 3 else t) in if t > T * 3 then T * 3 else t)"
      obtain r v where r: "do { bnNew \<leftarrow> uint_div (uint_mul32 avg w) (base_uint_of (word_of_int (int nPastBlocks * nPowTargetSpacing params)));
          let bnNew = (if CompareTo bnNew (UintToArith256 (powLimit params)) > 0 then UintToArith256 (powLimit params) else bnNew);
          GetCompact bnNew False } = Some r" "SetCompact r = (v, False, False)"
        "uval v \<le> min (uval (UintToArith256 (powLimit params)))
          ((uval avg * unat w) mod 2 ^ 256 div unat (word_of_int (int nPastBlocks * nPowTargetSpacing params) :: u64))"
        by (rule retarget_value [OF loop(3) length_UintToArith256 params_okD(3) [OF ok]])
      have "DarkGravityWave st g params p block = Some r"
        unfolding r(1) [symmetric] w_def using False live kawpow b l(1) loop
        by (auto simp: DarkGravityWave_def Let_def simp del: upt_Suc)
      then show thesis by (rule that [OF _ r(2)]) (use r(3) in \<open>simp add: le_max_iff_disj\<close>)
    qed
  qed
qed

lemma GetNextWorkRequired_returns:
  assumes ok: "params_ok params" and tree: "block_tree st" and b: "st p = Some b"
  shows "\<exists>c. GetNextWorkRequired st g params p block = Some c"
proof (cases "IsDGWActive g (word_of_int (nHeight b + 1))")
  case False
  obtain c where "GetNextWorkRequiredBTC st params p block = Some c" by (rule GetNextWorkRequiredBTC_total [OF ok tree b])
  with False b show ?thesis by (simp add: GetNextWorkRequired_def)
next
  case dgw: True
  have "\<exists>c. DarkGravityWave st g params p block = Some c"
  proof (cases "fPowAllowMinDifficultyBlocks params \<and> fPowNoRetargeting params")
    case True
    obtain l where l: "GetCompact (UintToArith256 (powLimit params)) False = Some l" by (rule GetCompact_limit)
    obtain c where "last_regular_bits st params l p = Some c" using last_regular_bits_total [OF tree b] by blast
    with True l b show ?thesis by (auto simp: DarkGravityWave_def Let_def)
  next
    case False
    show ?thesis by (rule DarkGravityWave_bound [OF ok tree b False]) blast
  qed
  with dgw b show ?thesis by (simp add: GetNextWorkRequired_def)
qed


section \<open>Properties of the proof-of-work rules\<close>

text \<open>The exact number that a compact word denotes, before it is cut to 256 bits.\<close>

definition compact_value :: "u32 \<Rightarrow> nat" where
  "compact_value n =
    (let e = unat n div 2 ^ 24; m = unat n mod 2 ^ 23
     in if e \<le> 3 then m div 256 ^ (3 - e) else m * 256 ^ (e - 3))"

lemma SetCompact_compact_value:
  obtains a where "SetCompact n = (a, bit n 23 \<and> compact_value n \<noteq> 0, 2 ^ 256 \<le> compact_value n)"
    and "length a = WIDTH" and "uval a = compact_value n mod 2 ^ 256"
  using SetCompact_decodes [of n] that unfolding Let_def compact_value_def by (cases "SetCompact n") auto

definition sample_params :: Params where
  "sample_params = \<lparr>hashGenesisBlock = uint256_null, nSubsidyHalvingInterval = 2100000,
    nBIP34Enabled = True, nBIP65Enabled = True, nBIP66Enabled = True, nRuleChangeActivationThreshold = 1613,
    nMinerConfirmationWindow = 2016, vDeployments = [], powLimit = replicate 29 0xff @ [0x0f, 0, 0],
    kawpowLimit = replicate 27 0xff @ replicate 5 0, fPowAllowMinDifficultyBlocks = False, fPowNoRetargeting = False,
    nPowTargetSpacing = 60, nPowTargetTimespan = 120960, nMinimumChainWork = uint256_null,
    defaultAssumeValid = uint256_null, nSegwitEnabled = True, nCSVEnabled = True\<rparr>"

lemma sample_params_ok: "params_ok sample_params"
  by (simp add: params_ok_def sample_params_def)

text \<open>C4. \<^verbatim>\<open>CheckProofOfWork\<close> accepts a hash exactly when the claimed target, as the mathematical value of the compact
  word, is not negative, positive and at most the network limit, and the hash as a number is at most that target:
  no negative, zero, overflowing or too easy target passes.\<close>

theorem CheckProofOfWork_iff:
  "CheckProofOfWork hash bits params \<longleftrightarrow>
    \<not> bit bits 23 \<and> 0 < compact_value bits \<and> compact_value bits \<le> uval (UintToArith256 (powLimit params))
    \<and> uval (UintToArith256 hash) \<le> compact_value bits"
proof -
  obtain a where a: "SetCompact bits = (a, bit bits 23 \<and> compact_value bits \<noteq> 0, 2 ^ 256 \<le> compact_value bits)"
    "length a = WIDTH" "uval a = compact_value bits mod 2 ^ 256"
    by (rule SetCompact_compact_value)
  have limit: "uval (UintToArith256 (powLimit params)) < 2 ^ 256"
    using uval_bound [of "UintToArith256 (powLimit params)"] by (simp add: WIDTH_def)
  show ?thesis
  proof (cases "2 ^ 256 \<le> compact_value bits")
    case True
    then show ?thesis using limit a(1) by (simp add: CheckProofOfWork_def)
  next
    case False
    then have v: "uval a = compact_value bits" using a(3) by simp
    have "CompareTo a (UintToArith256 (powLimit params)) > 0 \<longleftrightarrow> uval (UintToArith256 (powLimit params)) < uval a"
      "CompareTo (UintToArith256 hash) a > 0 \<longleftrightarrow> uval a < uval (UintToArith256 hash)"
      using CompareTo_sign [OF a(2) length_UintToArith256] CompareTo_sign [OF length_UintToArith256 a(2)] by simp_all
    then show ?thesis
      unfolding CheckProofOfWork_def Let_def a(1) prod.case EqualTo_zero [OF a(2)] v using False by auto
  qed
qed

text \<open>C21. On every reachable index and for parameters as the networks have them, \<^verbatim>\<open>GetNextWorkRequired\<close> returns: neither
  rule fails an assertion, follows a null pointer or divides by zero, whatever the recorded difficulties and times.\<close>

theorem GetNextWorkRequired_total:
  assumes "index_reach GetHash s" and "store s p = Some b" and "params_ok params"
  shows "\<exists>c. GetNextWorkRequired (store s) g params p block = Some c"
  using GetNextWorkRequired_returns [OF assms(3) index_invD(1) [OF index_reach_inv [OF assms(1)]] assms(2)] .

theorem GetNextWorkRequired_total_witness:
  "\<exists>p s c. AddToBlockIndex block_hashMerkleRoot sample_header index_empty = Some (p, s)
    \<and> GetNextWorkRequired (store s) \<lparr>nKAWPOWActivationTime = 9, nDGWActivationBlock = 10\<rparr> sample_params p sample_header
      = Some c"
proof -
  obtain p s b where "AddToBlockIndex block_hashMerkleRoot sample_header index_empty = Some (p, s)"
    and reach: "index_reach block_hashMerkleRoot s" and b: "store s p = Some b"
    by (rule sample_index)
  then show ?thesis using GetNextWorkRequired_total [OF reach b sample_params_ok] by metis
qed

text \<open>The target that the moving average of \<^verbatim>\<open>DarkGravityWave\<close> sets never exceeds the network's limits and is a
  well-formed compact word, neither negative nor overflowing, on every network that retargets.\<close>

theorem DarkGravityWave_within_limit:
  assumes "index_reach GetHash s" and "store s p = Some b" and "params_ok params"
    and "\<not> (fPowAllowMinDifficultyBlocks params \<and> fPowNoRetargeting params)"
  shows "\<exists>c v. DarkGravityWave (store s) g params p block = Some c \<and> SetCompact c = (v, False, False)
    \<and> uval v \<le> max (uval (UintToArith256 (powLimit params))) (uval (UintToArith256 (kawpowLimit params)))"
  by (rule DarkGravityWave_bound [OF assms(3) index_invD(1) [OF index_reach_inv [OF assms(1)]] assms(2,4)]) blast

theorem DarkGravityWave_within_limit_witness:
  "\<exists>p s c v. AddToBlockIndex block_hashMerkleRoot sample_header index_empty = Some (p, s)
    \<and> DarkGravityWave (store s) \<lparr>nKAWPOWActivationTime = 9, nDGWActivationBlock = 10\<rparr> sample_params p sample_header
      = Some c \<and> SetCompact c = (v, False, False)"
proof -
  obtain p s b where "AddToBlockIndex block_hashMerkleRoot sample_header index_empty = Some (p, s)"
    and reach: "index_reach block_hashMerkleRoot s" and b: "store s p = Some b"
    by (rule sample_index)
  moreover have "\<not> (fPowAllowMinDifficultyBlocks sample_params \<and> fPowNoRetargeting sample_params)"
    by (simp add: sample_params_def)
  ultimately show ?thesis using DarkGravityWave_within_limit [OF reach b sample_params_ok] by metis
qed

text \<open>The periodic retarget multiplies the old target by the time the last period took, limited to a quarter and to
  four times the intended span, divides by that span, caps the result at the network limit and encodes it: the new
  target is that number up to the precision of the encoding, provided the product fits 256 bits.\<close>

theorem CalculateNextWorkRequired_scales:
  assumes "params_ok params" and "\<not> fPowNoRetargeting params"
    and "T = nPowTargetTimespan params" and "t = max (T div 4) (min (T * 4) (GetBlockTime tip - first))"
    and "old = compact_value (nBits tip)" and "old * nat (T * 4) < 2 ^ 256"
    and "new = min (uval (UintToArith256 (powLimit params))) (old * nat t div nat T)"
  shows "\<exists>c v. CalculateNextWorkRequired tip first params = Some c \<and> SetCompact c = (v, False, False)
    \<and> uval v \<le> new \<and> (new - uval v) * 2 ^ 15 \<le> new"
proof -
  have T: "0 < T" "T * 4 < 2 ^ 32" using assms(1,3) by (simp_all add: params_ok_def)
  have t: "0 \<le> t" "t \<le> T * 4" using T by (auto simp: assms(4))
  have w: "unat (word_of_int t :: u32) = nat t" using unat_word_of_int [where 'a = 32, of t] t T by simp
  have clamp: "(let t' = GetBlockTime tip - first; t' = (if t' < T sdiv 4 then T sdiv 4 else t')
      in if t' > T * 4 then T * 4 else t') = t"
    using T by (auto simp: assms(4) Let_def signed_divide_int_eq_divide_int)
  have small: "old < 2 ^ 256" using assms(6) T by (cases "old = 0") (auto intro: le_less_trans [rotated])
  obtain a where a: "SetCompact (nBits tip) = (a, bit (nBits tip) 23 \<and> old \<noteq> 0, 2 ^ 256 \<le> old)" "length a = WIDTH"
    "uval a = old mod 2 ^ 256"
    unfolding assms(5) by (rule SetCompact_compact_value)
  have ua: "uval (fst (SetCompact (nBits tip))) = old" using a small by simp
  have "old * nat t \<le> old * nat (T * 4)" using t by (intro mult_le_mono) simp_all
  then have "old * nat t < 2 ^ 256" using assms(6) by (rule le_less_trans)
  then have prod: "(old * nat t) mod 2 ^ 256 = old * nat t" by (rule mod_less)
  obtain c v where cv: "do { bnNew \<leftarrow> uint_div (uint_mul32 (fst (SetCompact (nBits tip))) (word_of_int t)) (base_uint_of (word_of_int T));
          let bnNew = (if CompareTo bnNew (UintToArith256 (powLimit params)) > 0 then UintToArith256 (powLimit params) else bnNew);
          GetCompact bnNew False } = Some c" "SetCompact c = (v, False, False)"
    "uval v \<le> new" "(new - uval v) * 2 ^ 15 \<le> new"
    using retarget_value [OF length_fst_SetCompact [of "nBits tip"] length_UintToArith256 [of "powLimit params"]
        params_okD(1) [OF assms(1)], folded assms(3), of "word_of_int t"]
    unfolding ua w prod params_okD(2) [OF assms(1), folded assms(3)] assms(7) [symmetric] by blast
  moreover have "CalculateNextWorkRequired tip first params = Some c"
    using cv(1) assms(2) clamp unfolding CalculateNextWorkRequired_def Let_def assms(3) by simp
  ultimately show ?thesis by blast
qed

theorem CalculateNextWorkRequired_scales_witness:
  "\<exists>c v. CalculateNextWorkRequired (CBlockIndex_SetNull\<lparr>nBits := 0x1b00ffff, nTime := 120960 * 9\<rparr>) 0 sample_params = Some c
    \<and> SetCompact c = (v, False, False)"
proof -
  have "compact_value 0x1b00ffff = 0xffff * 256 ^ 24" by (simp add: compact_value_def Let_def)
  then have "compact_value (nBits (CBlockIndex_SetNull\<lparr>nBits := 0x1b00ffff, nTime := 120960 * 9\<rparr>))
      * nat (nPowTargetTimespan sample_params * 4) < 2 ^ 256"
    by (simp add: sample_params_def)
  moreover have "\<not> fPowNoRetargeting sample_params" by (simp add: sample_params_def)
  ultimately show ?thesis using CalculateNextWorkRequired_scales [OF sample_params_ok _ refl refl refl _ refl] by blast
qed

end
