(* ===== verification/Versionbits.thy ===== *)
theory Versionbits
  imports Pow
begin

text \<open>
  Deployment of rule changes by miner signalling: \<^verbatim>\<open>src/versionbits.cpp\<close> and \<^verbatim>\<open>src/versionbits.h\<close>. The abstract class
  \<^verbatim>\<open>AbstractThresholdConditionChecker\<close> is a record of its virtual functions at given parameters, which
  \<^verbatim>\<open>VersionBitsConditionChecker\<close> fills in; the cache is a map from block pointers to states that every query extends.

  The reference is the state that the transition rule gives period by period without a cache. The theorems show that
  cached queries return it, that the cache stays right while the block index grows, and, for chains that obey the
  median-time rule, that the states only move along the edges of the deployment state machine.
\<close>

section \<open>The state machine\<close>

datatype ThresholdState =
  THRESHOLD_DEFINED | THRESHOLD_STARTED | THRESHOLD_LOCKED_IN | THRESHOLD_ACTIVE | THRESHOLD_FAILED

record checker =
  Condition :: "CBlockIndex \<Rightarrow> bool"
  BeginTime :: int
  EndTime :: int
  Period :: int
  Threshold :: int

type_synonym ThresholdConditionCache = "block_ref option \<rightharpoonup> ThresholdState"

text \<open>The counting loop over one period.\<close>

primrec count_signals :: "block_store \<Rightarrow> checker \<Rightarrow> nat \<Rightarrow> block_ref option \<Rightarrow> int \<Rightarrow> int option" where
  "count_signals st ck 0 pindexCount n = Some n"
| "count_signals st ck (Suc i) pindexCount n = do {
    p \<leftarrow> pindexCount;
    b \<leftarrow> st p;
    count_signals st ck i (pprev b) (if Condition ck b then n + 1 else n) }"

definition stateNext :: "block_store \<Rightarrow> checker \<Rightarrow> block_ref \<Rightarrow> ThresholdState \<Rightarrow> ThresholdState option" where
  "stateNext st ck p state =
    (case state of
       THRESHOLD_DEFINED \<Rightarrow> do {
         mtp \<leftarrow> GetMedianTimePast st p;
         Some (if mtp \<ge> EndTime ck then THRESHOLD_FAILED
               else if mtp \<ge> BeginTime ck then THRESHOLD_STARTED else THRESHOLD_DEFINED) }
     | THRESHOLD_STARTED \<Rightarrow> do {
         mtp \<leftarrow> GetMedianTimePast st p;
         if mtp \<ge> EndTime ck then Some THRESHOLD_FAILED
         else do {
           n \<leftarrow> count_signals st ck (nat (Period ck)) (Some p) 0;
           Some (if n \<ge> Threshold ck then THRESHOLD_LOCKED_IN else THRESHOLD_STARTED) } }
     | THRESHOLD_LOCKED_IN \<Rightarrow> Some THRESHOLD_ACTIVE
     | THRESHOLD_FAILED \<Rightarrow> Some THRESHOLD_FAILED
     | THRESHOLD_ACTIVE \<Rightarrow> Some THRESHOLD_ACTIVE)"

partial_function (option) walk_back ::
  "block_store \<Rightarrow> checker \<Rightarrow> ThresholdConditionCache \<Rightarrow> block_ref option \<Rightarrow> block_ref list
    \<Rightarrow> (ThresholdConditionCache \<times> block_ref option \<times> block_ref list) option" where
  "walk_back st ck cache pindexPrev vToCompute =
    (if cache pindexPrev \<noteq> None then Some (cache, pindexPrev, vToCompute)
     else (case pindexPrev of
         None \<Rightarrow> Some (cache(pindexPrev \<mapsto> THRESHOLD_DEFINED), pindexPrev, vToCompute)
       | Some p \<Rightarrow> do {
           mtp \<leftarrow> GetMedianTimePast st p;
           if mtp < BeginTime ck then Some (cache(pindexPrev \<mapsto> THRESHOLD_DEFINED), pindexPrev, vToCompute)
           else do {
             b \<leftarrow> st p;
             q \<leftarrow> GetAncestor st p (nHeight b - Period ck);
             walk_back st ck cache q (p # vToCompute) } }))"

primrec walk_forward ::
  "block_store \<Rightarrow> checker \<Rightarrow> ThresholdConditionCache \<Rightarrow> ThresholdState \<Rightarrow> block_ref list
    \<Rightarrow> (ThresholdState \<times> ThresholdConditionCache) option" where
  "walk_forward st ck cache state [] = Some (state, cache)"
| "walk_forward st ck cache state (p # vToCompute) = do {
    state \<leftarrow> stateNext st ck p state;
    walk_forward st ck (cache(Some p \<mapsto> state)) state vToCompute }"

definition period_parent :: "block_store \<Rightarrow> checker \<Rightarrow> block_ref option \<Rightarrow> block_ref option option" where
  "period_parent st ck pindexPrev =
    (case pindexPrev of None \<Rightarrow> Some None
     | Some p \<Rightarrow> do { b \<leftarrow> st p; GetAncestor st p (nHeight b - ((nHeight b + 1) smod Period ck)) })"

definition GetStateFor ::
  "block_store \<Rightarrow> checker \<Rightarrow> ThresholdConditionCache \<Rightarrow> block_ref option
    \<Rightarrow> (ThresholdState \<times> ThresholdConditionCache) option" where
  "GetStateFor st ck cache pindexPrev = do {
    pindexPrev \<leftarrow> period_parent st ck pindexPrev;
    (cache, pindexPrev, vToCompute) \<leftarrow> walk_back st ck cache pindexPrev [];
    state \<leftarrow> cache pindexPrev;
    walk_forward st ck cache state vToCompute }"

record BIP9Stats =
  stats_period :: int
  stats_threshold :: int
  stats_elapsed :: int
  stats_count :: int
  stats_possible :: bool

partial_function (option) count_back ::
  "block_store \<Rightarrow> checker \<Rightarrow> int \<Rightarrow> block_ref option \<Rightarrow> int \<Rightarrow> int option" where
  "count_back st ck endHeight currentIndex n = do {
    p \<leftarrow> currentIndex;
    b \<leftarrow> st p;
    if endHeight \<noteq> nHeight b then count_back st ck endHeight (pprev b) (if Condition ck b then n + 1 else n)
    else Some n }"

definition GetStateStatisticsFor :: "block_store \<Rightarrow> checker \<Rightarrow> block_ref option \<Rightarrow> BIP9Stats option" where
  "GetStateStatisticsFor st ck pindex =
    (case pindex of
       None \<Rightarrow> Some \<lparr>stats_period = Period ck, stats_threshold = Threshold ck, stats_elapsed = 0, stats_count = 0,
         stats_possible = False\<rparr>
     | Some p \<Rightarrow> do {
         b \<leftarrow> st p;
         pindexEndOfPrevPeriod \<leftarrow> GetAncestor st p (nHeight b - ((nHeight b + 1) smod Period ck));
         q \<leftarrow> pindexEndOfPrevPeriod;
         e \<leftarrow> st q;
         n \<leftarrow> count_back st ck (nHeight e) (Some p) 0;
         Some \<lparr>stats_period = Period ck, stats_threshold = Threshold ck, stats_elapsed = nHeight b - nHeight e,
           stats_count = n, stats_possible = Period ck - Threshold ck \<ge> nHeight b - nHeight e - n\<rparr> })"

partial_function (option) since_loop ::
  "block_store \<Rightarrow> checker \<Rightarrow> ThresholdState \<Rightarrow> ThresholdConditionCache \<Rightarrow> block_ref \<Rightarrow> block_ref option
    \<Rightarrow> (block_ref \<times> ThresholdConditionCache) option" where
  "since_loop st ck initialState cache pindexPrev previousPeriodParent =
    (case previousPeriodParent of
       None \<Rightarrow> Some (pindexPrev, cache)
     | Some q \<Rightarrow> do {
         (state, cache) \<leftarrow> GetStateFor st ck cache (Some q);
         if state = initialState then do {
           b \<leftarrow> st q;
           r \<leftarrow> GetAncestor st q (nHeight b - Period ck);
           since_loop st ck initialState cache q r }
         else Some (pindexPrev, cache) })"

definition GetStateSinceHeightFor ::
  "block_store \<Rightarrow> checker \<Rightarrow> ThresholdConditionCache \<Rightarrow> block_ref option \<Rightarrow> (int \<times> ThresholdConditionCache) option" where
  "GetStateSinceHeightFor st ck cache pindexPrev = do {
    (initialState, cache) \<leftarrow> GetStateFor st ck cache pindexPrev;
    if initialState = THRESHOLD_DEFINED then Some (0, cache)
    else do {
      p \<leftarrow> pindexPrev;
      b \<leftarrow> st p;
      pindexPrev \<leftarrow> GetAncestor st p (nHeight b - ((nHeight b + 1) smod Period ck));
      p \<leftarrow> pindexPrev;
      b \<leftarrow> st p;
      previousPeriodParent \<leftarrow> GetAncestor st p (nHeight b - Period ck);
      (p, cache) \<leftarrow> since_loop st ck initialState cache p previousPeriodParent;
      b \<leftarrow> st p;
      Some (nHeight b + 1, cache) } }"

section \<open>The deployments of the parameters\<close>

definition Mask :: "BIP9Deployment \<Rightarrow> u32" where
  "Mask dep = push_bit (dep_bit dep) 1"

definition VersionBitsConditionChecker :: "Params \<Rightarrow> BIP9Deployment \<Rightarrow> checker" where
  "VersionBitsConditionChecker params dep =
    \<lparr>Condition = (\<lambda>pindex. nVersion pindex AND Mask dep \<noteq> 0),
     BeginTime = nStartTime dep,
     EndTime = nTimeout dep,
     Period = (if nOverrideMinerConfirmationWindow dep > 0 then sint (nOverrideMinerConfirmationWindow dep)
               else sint (nMinerConfirmationWindow params)),
     Threshold = (if nOverrideRuleChangeActivationThreshold dep > 0 then sint (nOverrideRuleChangeActivationThreshold dep)
                  else sint (nRuleChangeActivationThreshold params))\<rparr>"

type_synonym VersionBitsCache = "ThresholdConditionCache list"

text \<open>The deployment \<^verbatim>\<open>pos\<close> indexes both arrays; outside of them there is no result.\<close>

definition VersionBitsState ::
  "block_store \<Rightarrow> block_ref option \<Rightarrow> Params \<Rightarrow> nat \<Rightarrow> VersionBitsCache \<Rightarrow> (ThresholdState \<times> VersionBitsCache) option" where
  "VersionBitsState st pindexPrev params pos caches =
    (if pos < length (vDeployments params) \<and> pos < length caches then do {
       (state, c) \<leftarrow> GetStateFor st (VersionBitsConditionChecker params (vDeployments params ! pos)) (caches ! pos) pindexPrev;
       Some (state, caches[pos := c]) }
     else None)"

definition VersionBitsStatistics :: "block_store \<Rightarrow> block_ref option \<Rightarrow> Params \<Rightarrow> nat \<Rightarrow> BIP9Stats option" where
  "VersionBitsStatistics st pindexPrev params pos =
    (if pos < length (vDeployments params)
     then GetStateStatisticsFor st (VersionBitsConditionChecker params (vDeployments params ! pos)) pindexPrev
     else None)"

definition VersionBitsStateSinceHeight ::
  "block_store \<Rightarrow> block_ref option \<Rightarrow> Params \<Rightarrow> nat \<Rightarrow> VersionBitsCache \<Rightarrow> (int \<times> VersionBitsCache) option" where
  "VersionBitsStateSinceHeight st pindexPrev params pos caches =
    (if pos < length (vDeployments params) \<and> pos < length caches then do {
       (height, c) \<leftarrow> GetStateSinceHeightFor st (VersionBitsConditionChecker params (vDeployments params ! pos))
         (caches ! pos) pindexPrev;
       Some (height, caches[pos := c]) }
     else None)"

definition VersionBitsMask :: "Params \<Rightarrow> nat \<Rightarrow> u32 option" where
  "VersionBitsMask params pos =
    (if pos < length (vDeployments params) then Some (Mask (vDeployments params ! pos)) else None)"

definition VersionBitsCache_Clear :: "VersionBitsCache \<Rightarrow> VersionBitsCache" where
  "VersionBitsCache_Clear caches = map (\<lambda>_. Map.empty) caches"


section \<open>The reference without a cache\<close>

primrec ref_state :: "block_store \<Rightarrow> checker \<Rightarrow> nat \<Rightarrow> block_ref option \<Rightarrow> ThresholdState" where
  "ref_state st ck 0 pindex = THRESHOLD_DEFINED"
| "ref_state st ck (Suc k) pindex =
    (case pindex of None \<Rightarrow> THRESHOLD_DEFINED
     | Some p \<Rightarrow>
        if the (GetMedianTimePast st p) < BeginTime ck then THRESHOLD_DEFINED
        else the (stateNext st ck p (ref_state st ck k (anc st (nat (Period ck)) p))))"

text \<open>The last block of the \<open>k\<close>-th period; before the first period there is none.\<close>

definition boundary :: "block_store \<Rightarrow> checker \<Rightarrow> nat \<Rightarrow> block_ref option \<Rightarrow> bool" where
  "boundary st ck k pindex \<longleftrightarrow>
    (case pindex of None \<Rightarrow> k = 0
     | Some p \<Rightarrow> 0 < k \<and> (\<exists>b. st p = Some b \<and> nHeight b + 1 = int k * Period ck))"

definition cache_ok :: "block_store \<Rightarrow> checker \<Rightarrow> ThresholdConditionCache \<Rightarrow> bool" where
  "cache_ok st ck cache \<longleftrightarrow>
    (\<forall>pindex s. cache pindex = Some s \<longrightarrow> (\<exists>k. boundary st ck k pindex \<and> s = ref_state st ck k pindex))"

definition period_start :: "block_store \<Rightarrow> checker \<Rightarrow> block_ref option \<Rightarrow> nat \<times> block_ref option" where
  "period_start st ck pindex =
    (case pindex of None \<Rightarrow> (0, None)
     | Some p \<Rightarrow>
        (let h = nHeight (the (st p)) + 1; k = nat (h div Period ck)
         in (k, if k = 0 then None else anc st (nat (h mod Period ck)) p)))"

definition deployment_state :: "block_store \<Rightarrow> checker \<Rightarrow> block_ref option \<Rightarrow> ThresholdState" where
  "deployment_state st ck pindex = (case period_start st ck pindex of (k, q) \<Rightarrow> ref_state st ck k q)"

lemma count_signals_path:
  assumes tree: "block_tree st"
  shows "st p = Some b \<Longrightarrow> int i \<le> nHeight b + 1 \<Longrightarrow>
    count_signals st ck i (Some p) n = Some (n + int (length (filter (Condition ck) (path st i (Some p)))))"
proof (induction i arbitrary: p b n)
  case (Suc i)
  show ?case
  proof (cases "pprev b")
    case None
    then have "nHeight b = 0" using block_treeD(3) [OF tree Suc.prems(1)] by (simp add: parent_ok_def)
    then have "i = 0" using Suc.prems(2) by simp
    then show ?thesis using Suc.prems(1) None by simp
  next
    case (Some q)
    then obtain c where "st q = Some c" "nHeight c = nHeight b - 1" by (rule parent_in_store [OF tree Suc.prems(1)])
    then show ?thesis using Suc Some by simp
  qed
qed simp

lemma stateNext_total:
  assumes tree: "block_tree st" and p: "st p = Some b" and h: "Period ck \<le> nHeight b + 1"
  obtains s where "stateNext st ck p x = Some s"
proof -
  have "0 \<le> nHeight b + 1" using block_treeD(1) [OF tree p] by simp
  then have "int (nat (Period ck)) \<le> nHeight b + 1" using h by simp
  from count_signals_path [OF tree p this] obtain n where n: "count_signals st ck (nat (Period ck)) (Some p) 0 = Some n"
    by blast
  obtain m where m: "GetMedianTimePast st p = Some m" using GetMedianTimePast_path [OF tree p] by blast
  from n m have "\<exists>s. stateNext st ck p x = Some s" by (cases x) (simp_all add: stateNext_def)
  then show thesis using that by blast
qed

lemma boundary_prev:
  assumes tree: "block_tree st" and P: "0 < Period ck" and "boundary st ck (Suc k) (Some p)" and p: "st p = Some b"
  shows "GetAncestor st p (nHeight b - Period ck) = Some (anc st (nat (Period ck)) p)"
    and "boundary st ck k (anc st (nat (Period ck)) p)" and "Period ck \<le> nHeight b + 1"
proof -
  have h: "nHeight b + 1 = int (Suc k) * Period ck" using assms(3) p by (auto simp: boundary_def)
  have eq: "nHeight b - Period ck = int k * Period ck - 1" using h by (simp add: algebra_simps)
  show "Period ck \<le> nHeight b + 1" using h P by (simp add: algebra_simps)
  show "GetAncestor st p (nHeight b - Period ck) = Some (anc st (nat (Period ck)) p)"
    and "boundary st ck k (anc st (nat (Period ck)) p)"
  proof (atomize (full), cases "k = 0")
    case True
    then have "anc st (nat (Period ck)) p = None"
      using anc_bounded [OF tree _ p, of "nat (Period ck)"] h P by (cases "anc st (nat (Period ck)) p") fastforce+
    then show "GetAncestor st p (nHeight b - Period ck) = Some (anc st (nat (Period ck)) p)
        \<and> boundary st ck k (anc st (nat (Period ck)) p)"
      using True eq P GetAncestor_anc [OF tree p, of "nHeight b - Period ck"] by (simp add: boundary_def)
  next
    case False
    then have "1 \<le> int k * Period ck" using P by (metis mult_pos_pos of_nat_0_less_iff neq0_conv int_one_le_iff_zero_less)
    then have range: "0 \<le> nHeight b - Period ck" "nHeight b - Period ck \<le> nHeight b" using eq P by simp_all
    obtain q c where q: "GetAncestor st p (nHeight b - Period ck) = Some (Some q)"
      "anc st (nat (nHeight b - (nHeight b - Period ck))) p = Some q" "st q = Some c" "nHeight c = nHeight b - Period ck"
      by (rule GetAncestor_height [OF tree p range])
    have "nHeight b - (nHeight b - Period ck) = Period ck" by simp
    with q(2) have "anc st (nat (Period ck)) p = Some q" by (simp only:)
    with q(1,3,4) show "GetAncestor st p (nHeight b - Period ck) = Some (anc st (nat (Period ck)) p)
        \<and> boundary st ck k (anc st (nat (Period ck)) p)"
      using False eq by (simp add: boundary_def)
  qed
qed

lemma ref_state_next:
  assumes tree: "block_tree st" and P: "0 < Period ck" and bd: "boundary st ck (Suc k) (Some p)"
    and m: "\<not> the (GetMedianTimePast st p) < BeginTime ck"
  shows "stateNext st ck p (ref_state st ck k (anc st (nat (Period ck)) p)) = Some (ref_state st ck (Suc k) (Some p))"
proof -
  obtain b where b: "st p = Some b" using bd by (auto simp: boundary_def)
  obtain s where "stateNext st ck p (ref_state st ck k (anc st (nat (Period ck)) p)) = Some s"
    by (rule stateNext_total [OF tree b boundary_prev(3) [OF tree P bd b]])
  then show ?thesis using m by simp
qed

lemma cache_ok_update:
  "cache_ok st ck cache \<Longrightarrow> boundary st ck k pindex \<Longrightarrow> cache_ok st ck (cache(pindex \<mapsto> ref_state st ck k pindex))"
  by (auto simp: cache_ok_def)

lemma boundary_unique:
  assumes "0 < Period ck" and "boundary st ck k pindex" and "boundary st ck j pindex"
  shows "k = j"
proof (cases pindex)
  case None
  then show ?thesis using assms by (simp add: boundary_def)
next
  case (Some p)
  then have "int k * Period ck = int j * Period ck" using assms(2,3) by (auto simp: boundary_def)
  then show ?thesis using assms(1) by simp
qed

text \<open>The two walks together compute the reference, whatever the cache already holds.\<close>

lemma walk_spec:
  assumes tree: "block_tree st" and P: "0 < Period ck"
  shows "cache_ok st ck cache \<Longrightarrow> boundary st ck k pindex \<Longrightarrow>
    \<exists>cache'. cache_ok st ck cache' \<and>
      do { (cache, q, v) \<leftarrow> walk_back st ck cache pindex vec; state \<leftarrow> cache q; walk_forward st ck cache state v }
      = walk_forward st ck cache' (ref_state st ck k pindex) vec"
proof (induction k arbitrary: pindex vec)
  case 0
  then have n: "pindex = None" by (auto simp: boundary_def split: option.splits)
  show ?case
  proof (cases "cache pindex")
    case None
    define c where "c = cache(pindex \<mapsto> THRESHOLD_DEFINED)"
    have "walk_back st ck cache pindex vec = Some (c, pindex, vec)" using n None by (simp add: walk_back.simps c_def)
    moreover have "cache_ok st ck c" "c pindex = Some THRESHOLD_DEFINED" using cache_ok_update [OF 0] by (simp_all add: c_def)
    ultimately show ?thesis by (intro exI [of _ c]) simp
  next
    case (Some s)
    then have "s = ref_state st ck 0 pindex" using 0(1) boundary_unique [OF P 0(2)] unfolding cache_ok_def by metis
    then show ?thesis using 0(1) Some by (intro exI [of _ cache]) (simp add: walk_back.simps)
  qed
next
  case (Suc k)
  then obtain p b where p: "pindex = Some p" "st p = Some b" by (auto simp: boundary_def split: option.splits)
  show ?case
  proof (cases "cache pindex")
    case (Some s)
    then have "s = ref_state st ck (Suc k) pindex"
      using Suc.prems(1) boundary_unique [OF P Suc.prems(2)] unfolding cache_ok_def by metis
    then show ?thesis using Suc.prems(1) Some by (intro exI [of _ cache]) (simp add: walk_back.simps)
  next
    case miss: None
    obtain m where m: "GetMedianTimePast st p = Some m" using GetMedianTimePast_path [OF tree p(2)] by blast
    show ?thesis
    proof (cases "m < BeginTime ck")
      case True
      then have ref: "ref_state st ck (Suc k) pindex = THRESHOLD_DEFINED" using p m by simp
      define c where "c = cache(pindex \<mapsto> THRESHOLD_DEFINED)"
      have "walk_back st ck cache pindex vec = Some (c, pindex, vec)"
        using p miss m True by (simp add: walk_back.simps c_def)
      moreover have "cache_ok st ck c" "c pindex = Some THRESHOLD_DEFINED"
        using cache_ok_update [OF Suc.prems] by (simp_all only: c_def ref fun_upd_same)
      ultimately show ?thesis unfolding ref by (intro exI [of _ c]) simp
    next
      case False
      define q where "q = anc st (nat (Period ck)) p"
      note prev = boundary_prev [OF tree P Suc.prems(2) [unfolded p(1)] p(2), folded q_def]
      have unfold: "walk_back st ck cache pindex vec = walk_back st ck cache q (p # vec)"
        using p miss m False prev(1) by (simp add: walk_back.simps [of st ck cache "Some p"])
      obtain c where c: "cache_ok st ck c"
        "do { (cache, q, v) \<leftarrow> walk_back st ck cache q (p # vec); state \<leftarrow> cache q; walk_forward st ck cache state v }
          = walk_forward st ck c (ref_state st ck k q) (p # vec)"
        using Suc.IH [OF Suc.prems(1) prev(2)] by blast
      have "stateNext st ck p (ref_state st ck k q) = Some (ref_state st ck (Suc k) pindex)"
        using ref_state_next [OF tree P Suc.prems(2) [unfolded p(1)]] m False unfolding q_def p(1) by (simp only: option.sel not_False_eq_True)
      then have "walk_forward st ck c (ref_state st ck k q) (p # vec) =
          walk_forward st ck (c(pindex \<mapsto> ref_state st ck (Suc k) pindex)) (ref_state st ck (Suc k) pindex) vec"
        by (simp only: walk_forward.simps bind.bind_lunit p(1))
      then show ?thesis using c unfold cache_ok_update [OF c(1) Suc.prems(2)] by metis
    qed
  qed
qed

lemma period_start_boundary:
  assumes tree: "block_tree st" and P: "0 < Period ck" and "pindex = None \<or> (\<exists>p b. pindex = Some p \<and> st p = Some b)"
    and "period_start st ck pindex = (k, q)"
  shows "period_parent st ck pindex = Some q" and "boundary st ck k q"
proof (atomize (full), cases pindex)
  case None
  then show "period_parent st ck pindex = Some q \<and> boundary st ck k q"
    using assms(4) by (auto simp: period_parent_def period_start_def boundary_def)
next
  case (Some p)
  then obtain b where b: "st p = Some b" using assms(3) by auto
  define h where "h = nHeight b + 1"
  have h: "0 < h" using block_treeD(1) [OF tree b] by (simp add: h_def)
  have k: "k = nat (h div Period ck)" "q = (if k = 0 then None else anc st (nat (h mod Period ck)) p)"
    using assms(4) Some b by (auto simp: period_start_def h_def Let_def)
  have mod: "h smod Period ck = h mod Period ck" using h P by (simp add: signed_modulo_int_eq_modulo_int)
  have div: "0 \<le> h div Period ck" using h P by (simp add: pos_imp_zdiv_nonneg_iff)
  have split: "nHeight b - h mod Period ck = int k * Period ck - 1"
    using div minus_mod_eq_div_mult [of h "Period ck"] by (simp add: k(1) h_def)
  have parent: "period_parent st ck pindex = GetAncestor st p (nHeight b - h mod Period ck)"
    using Some b mod by (simp add: period_parent_def flip: h_def)
  show "period_parent st ck pindex = Some q \<and> boundary st ck k q"
  proof (cases "k = 0")
    case True
    then show ?thesis using parent split k GetAncestor_anc [OF tree b, of "-1"] by (simp add: boundary_def)
  next
    case False
    then have "1 \<le> int k * Period ck" using P by (metis mult_pos_pos of_nat_0_less_iff neq0_conv int_one_le_iff_zero_less)
    moreover have "0 \<le> h mod Period ck" using P by simp
    ultimately have range: "0 \<le> nHeight b - h mod Period ck" "nHeight b - h mod Period ck \<le> nHeight b"
      using split by simp_all
    obtain r c where r: "GetAncestor st p (nHeight b - h mod Period ck) = Some (Some r)"
      "anc st (nat (nHeight b - (nHeight b - h mod Period ck))) p = Some r" "st r = Some c"
      "nHeight c = nHeight b - h mod Period ck"
      by (rule GetAncestor_height [OF tree b range])
    have "nHeight b - (nHeight b - h mod Period ck) = h mod Period ck" by simp
    with r(2) k(2) False have "q = Some r" by (simp only: if_False)
    moreover have "period_parent st ck pindex = Some (Some r)" using parent r(1) by (simp only:)
    moreover have "boundary st ck k (Some r)" using False r(3,4) split by (simp only: boundary_def option.case) simp
    ultimately show ?thesis by simp
  qed
qed

lemma GetStateFor_reference:
  assumes tree: "block_tree st" and P: "0 < Period ck" and "pindex = None \<or> (\<exists>p b. pindex = Some p \<and> st p = Some b)"
    and cache: "cache_ok st ck cache"
  obtains cache' where "GetStateFor st ck cache pindex = Some (deployment_state st ck pindex, cache')"
    and "cache_ok st ck cache'"
proof -
  obtain k q where kq: "period_start st ck pindex = (k, q)" by (cases "period_start st ck pindex")
  note start = period_start_boundary [OF tree P assms(3) kq]
  obtain c where "cache_ok st ck c" "GetStateFor st ck cache pindex = walk_forward st ck c (ref_state st ck k q) []"
    using walk_spec [OF tree P cache start(2), of "[]"] start(1) by (auto simp: GetStateFor_def)
  then show thesis using that kq by (simp add: deployment_state_def)
qed


section \<open>Growth of the block index\<close>

lemma parent_pointer: "block_tree st \<Longrightarrow> st p = Some b \<Longrightarrow> pprev b = None \<or> (\<exists>q c. pprev b = Some q \<and> st q = Some c)"
  using block_treeD(3) by (fastforce simp: parent_ok_def split: option.splits)

lemma path_mono:
  assumes tree: "block_tree st" and le: "st \<subseteq>\<^sub>m st'"
  shows "pindex = None \<or> (\<exists>p b. pindex = Some p \<and> st p = Some b) \<Longrightarrow> path st' n pindex = path st n pindex"
proof (induction n arbitrary: pindex)
  case (Suc n)
  show ?case
  proof (cases pindex)
    case (Some p)
    then obtain b where b: "st p = Some b" using Suc.prems by auto
    from Suc.IH [OF parent_pointer [OF tree b]] show ?thesis using Some b map_leD [OF le b] by simp
  qed simp
qed simp

lemma GetMedianTimePast_mono:
  assumes tree: "block_tree st" "block_tree st'" and le: "st \<subseteq>\<^sub>m st'" and p: "st p = Some b"
  shows "GetMedianTimePast st' p = GetMedianTimePast st p"
  using GetMedianTimePast_path [OF tree(1) p] GetMedianTimePast_path [OF tree(2) map_leD [OF le p]]
    path_mono [OF tree(1) le, of "Some p"] p by simp

lemma stateNext_mono:
  assumes tree: "block_tree st" "block_tree st'" and le: "st \<subseteq>\<^sub>m st'" and p: "st p = Some b"
    and h: "Period ck \<le> nHeight b + 1"
  shows "stateNext st' ck p x = stateNext st ck p x"
proof -
  have h: "int (nat (Period ck)) \<le> nHeight b + 1" using h block_treeD(1) [OF tree(1) p] by simp
  have cnt: "count_signals st' ck (nat (Period ck)) (Some p) 0 = count_signals st ck (nat (Period ck)) (Some p) 0"
    using count_signals_path [OF tree(1) p h] count_signals_path [OF tree(2) map_leD [OF le p] h]
      path_mono [OF tree(1) le, of "Some p"] p by simp
  show ?thesis by (simp only: stateNext_def GetMedianTimePast_mono [OF assms(1-4)] cnt)
qed

lemma boundary_anc_mono:
  assumes tree: "block_tree st" "block_tree st'" and le: "st \<subseteq>\<^sub>m st'" and p: "st p = Some b"
  shows "anc st' n p = anc st n p"
proof (cases "anc st n p")
  case None
  have "anc st' n p \<noteq> Some q" for q
  proof
    assume q: "anc st' n p = Some q"
    then have "int n \<le> nHeight b" using anc_bounded [OF tree(2) q map_leD [OF le p]] by simp
    then obtain r where "anc st n p = Some r" using anc_height [OF tree(1) p] by blast
    with None show False by simp
  qed
  with None show ?thesis by (cases "anc st' n p") auto
next
  case (Some q)
  with anc_mono [OF le Some] show ?thesis by simp
qed

lemma boundary_mono: "st \<subseteq>\<^sub>m st' \<Longrightarrow> boundary st ck k pindex \<Longrightarrow> boundary st' ck k pindex"
  unfolding boundary_def by (cases pindex) (auto dest: map_leD)

lemma ref_state_mono:
  assumes tree: "block_tree st" "block_tree st'" and le: "st \<subseteq>\<^sub>m st'" and P: "0 < Period ck"
  shows "boundary st ck k pindex \<Longrightarrow> ref_state st' ck k pindex = ref_state st ck k pindex"
proof (induction k arbitrary: pindex)
  case (Suc k)
  then obtain p b where p: "pindex = Some p" "st p = Some b" by (auto simp: boundary_def split: option.splits)
  note prev = boundary_prev [OF tree(1) P Suc.prems [unfolded p(1)] p(2)]
  show ?case
    using p(1) Suc.IH [OF prev(2)] stateNext_mono [OF tree le p(2) prev(3)] GetMedianTimePast_mono [OF tree le p(2)]
      boundary_anc_mono [OF tree le p(2)] by simp
qed simp

lemma cache_ok_mono:
  assumes "block_tree st" and "block_tree st'" and "st \<subseteq>\<^sub>m st'" and "0 < Period ck" and "cache_ok st ck cache"
  shows "cache_ok st' ck cache"
  unfolding cache_ok_def
proof (intro allI impI)
  fix pindex s assume "cache pindex = Some s"
  then obtain k where "boundary st ck k pindex" "s = ref_state st ck k pindex" using assms(5) unfolding cache_ok_def by blast
  then show "\<exists>k. boundary st' ck k pindex \<and> s = ref_state st' ck k pindex"
    using boundary_mono [OF assms(3)] ref_state_mono [OF assms(1-4)] by metis
qed

section \<open>Median times along a chain\<close>

text \<open>The rule of \<^verbatim>\<open>ContextualCheckBlockHeader\<close>: a block is later than the median time of its parent.\<close>

definition median_rule :: "block_store \<Rightarrow> bool" where
  "median_rule st \<longleftrightarrow> (\<forall>p b q m. st p = Some b \<longrightarrow> pprev b = Some q \<longrightarrow> GetMedianTimePast st q = Some m \<longrightarrow> m < GetBlockTime b)"

lemma median_ge:
  fixes ts :: "int list"
  assumes "ts \<noteq> []" and half: "length ts \<le> 2 * length (filter (\<lambda>t. m \<le> t) ts)"
  shows "m \<le> sort ts ! (length ts div 2)"
proof (rule ccontr)
  define xs k where "xs = sort ts" and "k = length ts div 2"
  assume "\<not> m \<le> sort ts ! (length ts div 2)"
  then have small: "xs ! k < m" by (simp add: xs_def k_def)
  have len: "length xs = length ts" and k: "k < length xs" using assms(1) by (simp_all add: xs_def k_def)
  have "sorted xs" by (simp add: xs_def)
  then have below: "\<not> m \<le> xs ! i" if "i \<le> k" for i using sorted_nth_mono [of xs i k] that small k by simp
  then have "filter (\<lambda>t. m \<le> t) (take (Suc k) xs) = []"
    using k by (auto simp: filter_empty_conv in_set_conv_nth less_Suc_eq_le dest: below)
  then have "filter (\<lambda>t. m \<le> t) xs = filter (\<lambda>t. m \<le> t) (drop (Suc k) xs)"
    by (metis append_take_drop_id append_Nil filter_append)
  then have "length (filter (\<lambda>t. m \<le> t) xs) \<le> length xs - Suc k" by (metis length_drop length_filter_le)
  moreover have "length (filter (\<lambda>t. m \<le> t) ts) = length (filter (\<lambda>t. m \<le> t) xs)"
    by (metis xs_def mset_filter mset_sort size_mset)
  moreover have "length ts \<le> 2 * k + 1" by (simp add: k_def)
  ultimately show False using half len k by linarith
qed

lemma path_take: "path st n pindex = take n (path st (Suc n) pindex)"
proof (induction n arbitrary: pindex)
  case (Suc n)
  have "path st (Suc k) pindex = b # path st k (pprev b)" if "pindex = Some p" "st p = Some b" for k p b
    using that by simp
  then show ?case
    using Suc.IH by (cases pindex; cases "st (the pindex)") (simp, simp, simp, metis option.sel take_Suc_Cons)
qed simp

lemma filter_take_le: "length (filter P xs) \<le> length (filter P (take n xs)) + (length xs - n)"
proof -
  have "length (filter P xs) = length (filter P (take n xs)) + length (filter P (drop n xs))"
    by (metis append_take_drop_id filter_append length_append)
  moreover have "length (filter P (drop n xs)) \<le> length xs - n" by (metis length_drop length_filter_le)
  ultimately show ?thesis by simp
qed

lemma median_parent_le:
  assumes tree: "block_tree st" and rule: "median_rule st" and p: "st p = Some b" and q: "pprev b = Some q"
  shows "the (GetMedianTimePast st q) \<le> the (GetMedianTimePast st p)"
proof -
  obtain c where c: "st q = Some c" by (rule parent_in_store [OF tree p q])
  define W where "W = map GetBlockTime (path st 11 (Some q))"
  define m where "m = sort W ! (length W div 2)"
  have len: "length W = min 11 (nat (nHeight c) + 1)" using length_path [OF tree c] by (simp add: W_def)
  then have W: "W \<noteq> []" "length W \<le> 11" by auto
  have mq: "GetMedianTimePast st q = Some m"
    using GetMedianTimePast_path [OF tree c] by (simp add: nMedianTimeSpan_def W_def m_def Let_def)
  then have later: "m < GetBlockTime b" using rule p q unfolding median_rule_def by blast
  define V where "V = GetBlockTime b # take 10 W"
  have ten: "path st 10 (Some q) = take 10 (path st 11 (Some q))" using path_take [of st 10 "Some q"] by simp
  have eleven: "(11 :: nat) = Suc 10" by simp
  have "path st 11 (Some p) = b # path st 10 (Some q)" unfolding eleven path.simps(2) using p q by simp
  then have "map GetBlockTime (path st 11 (Some p)) = V" by (simp add: V_def W_def take_map ten)
  then have mp: "GetMedianTimePast st p = Some (sort V ! (length V div 2))"
    using GetMedianTimePast_path [OF tree p] unfolding nMedianTimeSpan_def by (simp add: Let_def)
  have "length W \<le> 2 * length (filter (\<lambda>t. m \<le> t) W)" by (rule median_bounds(3) [OF W(1) m_def])
  moreover have "length (filter (\<lambda>t. m \<le> t) W) \<le> length (filter (\<lambda>t. m \<le> t) (take 10 W)) + (length W - 10)"
    by (rule filter_take_le)
  moreover have "length V = min 11 (length W + 1)" using W(2) by (simp add: V_def)
  moreover have "length (filter (\<lambda>t. m \<le> t) V) = length (filter (\<lambda>t. m \<le> t) (take 10 W)) + 1"
    using later by (simp add: V_def)
  ultimately have "length V \<le> 2 * length (filter (\<lambda>t. m \<le> t) V)" using W(2) by linarith
  then have "m \<le> sort V ! (length V div 2)" by (intro median_ge) (auto simp: V_def)
  with mq mp show ?thesis by simp
qed

lemma median_ancestor_le:
  assumes tree: "block_tree st" and rule: "median_rule st"
  shows "st p = Some b \<Longrightarrow> anc st n p = Some q \<Longrightarrow> the (GetMedianTimePast st q) \<le> the (GetMedianTimePast st p)"
proof (induction n arbitrary: p b)
  case (Suc n)
  then obtain r where r: "pprev b = Some r" "anc st n r = Some q" by (auto simp: bind_eq_Some_conv)
  obtain c where c: "st r = Some c" by (rule parent_in_store [OF tree Suc.prems(1) r(1)])
  show ?case using Suc.IH [OF c r(2)] median_parent_le [OF tree rule Suc.prems(1) r(1)] by simp
qed simp


section \<open>Transitions\<close>

inductive threshold_step :: "ThresholdState \<Rightarrow> ThresholdState \<Rightarrow> bool" where
  "threshold_step THRESHOLD_DEFINED THRESHOLD_DEFINED"
| "threshold_step THRESHOLD_DEFINED THRESHOLD_STARTED"
| "threshold_step THRESHOLD_DEFINED THRESHOLD_FAILED"
| "threshold_step THRESHOLD_STARTED THRESHOLD_STARTED"
| "threshold_step THRESHOLD_STARTED THRESHOLD_LOCKED_IN"
| "threshold_step THRESHOLD_STARTED THRESHOLD_FAILED"
| "threshold_step THRESHOLD_LOCKED_IN THRESHOLD_ACTIVE"
| "threshold_step THRESHOLD_ACTIVE THRESHOLD_ACTIVE"
| "threshold_step THRESHOLD_FAILED THRESHOLD_FAILED"

inductive_simps threshold_step_simps [simp]:
  "threshold_step THRESHOLD_DEFINED y" "threshold_step THRESHOLD_STARTED y" "threshold_step THRESHOLD_LOCKED_IN y"
  "threshold_step THRESHOLD_ACTIVE y" "threshold_step THRESHOLD_FAILED y"

lemma stateNext_step: "stateNext st ck p x = Some y \<Longrightarrow> threshold_step x y"
  by (cases x) (auto simp: stateNext_def bind_eq_Some_conv split: if_splits)

lemma threshold_terminal:
  "threshold_step\<^sup>*\<^sup>* x y \<Longrightarrow> (x = THRESHOLD_ACTIVE \<longrightarrow> y = THRESHOLD_ACTIVE) \<and> (x = THRESHOLD_FAILED \<longrightarrow> y = THRESHOLD_FAILED)"
  by (induction rule: rtranclp_induct) auto

lemma ref_state_step:
  assumes tree: "block_tree st" and rule: "median_rule st" and P: "0 < Period ck" and bd: "boundary st ck (Suc k) (Some p)"
  shows "threshold_step (ref_state st ck k (anc st (nat (Period ck)) p)) (ref_state st ck (Suc k) (Some p))"
proof (cases "the (GetMedianTimePast st p) < BeginTime ck")
  case True
  obtain b where b: "st p = Some b" using bd by (auto simp: boundary_def)
  define q where "q = anc st (nat (Period ck)) p"
  have "ref_state st ck k q = THRESHOLD_DEFINED"
  proof (cases k; cases q)
    fix j r assume kq: "k = Suc j" "q = Some r"
    then have "the (GetMedianTimePast st r) \<le> the (GetMedianTimePast st p)"
      using median_ancestor_le [OF tree rule b] by (simp add: q_def)
    then show ?thesis using True kq by simp
  qed simp_all
  then show ?thesis using True by (simp flip: q_def)
next
  case False
  show ?thesis by (rule stateNext_step [OF ref_state_next [OF tree P bd False]])
qed

lemma ref_state_chain:
  assumes tree: "block_tree st" and rule: "median_rule st" and P: "0 < Period ck" and r: "boundary st ck j r"
  shows "boundary st ck k pindex \<Longrightarrow> j \<le> k \<Longrightarrow> (\<And>x. r = Some x \<Longrightarrow> \<exists>y. pindex = Some y \<and> ancestor st y x) \<Longrightarrow>
    threshold_step\<^sup>*\<^sup>* (ref_state st ck j r) (ref_state st ck k pindex)"
proof (induction k arbitrary: pindex)
  case 0
  then show ?case by simp
next
  case (Suc k)
  then obtain p b where p: "pindex = Some p" "st p = Some b" "nHeight b + 1 = int (Suc k) * Period ck"
    by (auto simp: boundary_def split: option.splits)
  note prev = boundary_prev [OF tree P Suc.prems(1) [unfolded p(1)] p(2)]
  show ?case
  proof (cases "j = Suc k")
    case True
    then obtain x c where x: "r = Some x" "st x = Some c" "nHeight c + 1 = int j * Period ck"
      using r by (auto simp: boundary_def split: option.splits)
    then obtain n where n: "anc st n p = Some x" using Suc.prems(3) p(1) by (auto simp: ancestor_def)
    have "nHeight c = nHeight b - int n" using ancestor_at_height [OF tree p(2) n] x(2) by (metis option.inject)
    then have "n = 0" using x(3) p(3) True by simp
    then show ?thesis using n x(1) p(1) True by simp
  next
    case False
    then have j: "j \<le> k" using Suc.prems(2) by simp
    define q where "q = anc st (nat (Period ck)) p"
    have "\<exists>y. q = Some y \<and> ancestor st y x" if rx: "r = Some x" for x
    proof -
      obtain c where c: "st x = Some c" "nHeight c + 1 = int j * Period ck" "0 < j" using r rx by (auto simp: boundary_def)
      then obtain y where y: "q = Some y" using prev(2) j by (auto simp: boundary_def q_def split: option.splits)
      have "nHeight c \<le> nHeight b - int (nat (Period ck))"
      proof -
        have "int j * Period ck \<le> int k * Period ck" using j P by (simp add: mult_right_mono)
        moreover have "nHeight b + 1 = int k * Period ck + Period ck" using p(3) by (simp add: algebra_simps)
        moreover have "int (nat (Period ck)) = Period ck" using P by simp
        ultimately show ?thesis using c(2) by linarith
      qed
      then have "ancestor st y x"
        using ancestor_lift [OF tree p(2) y [unfolded q_def] _ c(1)] Suc.prems(3) [OF rx] p(1) by auto
      then show ?thesis using y by simp
    qed
    then have "threshold_step\<^sup>*\<^sup>* (ref_state st ck j r) (ref_state st ck k q)"
      using Suc.IH [OF prev(2) j] by (simp add: q_def)
    also have "threshold_step (ref_state st ck k q) (ref_state st ck (Suc k) pindex)"
      using ref_state_step [OF tree rule P Suc.prems(1) [unfolded p(1)]] unfolding q_def p(1) .
    finally show ?thesis .
  qed
qed

lemma period_start_anc:
  assumes tree: "block_tree st" and P: "0 < Period ck" and p: "st p = Some b" and ps: "period_start st ck (Some p) = (k, Some y)"
  obtains i c where "anc st i p = Some y" and "st y = Some c" and "nHeight c = nHeight b - int i"
    and "nHeight c + 1 = int k * Period ck"
proof -
  obtain i where i: "anc st i p = Some y" using ps p by (auto simp: period_start_def Let_def split: if_splits)
  obtain c where c: "st y = Some c" "nHeight c = nHeight b - int i" by (rule ancestor_at_height [OF tree p i])
  have "boundary st ck k (Some y)" by (rule period_start_boundary(2) [OF tree P _ ps]) (use p in auto)
  then show thesis using that [OF i c] c(1) by (simp add: boundary_def)
qed

lemma deployment_state_chain:
  assumes tree: "block_tree st" and rule: "median_rule st" and P: "0 < Period ck"
    and p: "st p = Some b" and anc: "ancestor st p q"
  shows "threshold_step\<^sup>*\<^sup>* (deployment_state st ck (Some q)) (deployment_state st ck (Some p))"
proof -
  obtain c where c: "st q = Some c" "nHeight c \<le> nHeight b" by (rule ancestor_below [OF tree p anc])
  obtain k y j r where k: "period_start st ck (Some p) = (k, y)" and j: "period_start st ck (Some q) = (j, r)"
    by (cases "period_start st ck (Some p)"; cases "period_start st ck (Some q)")
  have bk: "boundary st ck k y" by (rule period_start_boundary(2) [OF tree P _ k]) (use p in auto)
  have bj: "boundary st ck j r" by (rule period_start_boundary(2) [OF tree P _ j]) (use c in auto)
  have "(nHeight c + 1) div Period ck \<le> (nHeight b + 1) div Period ck" using c(2) P by (intro zdiv_mono1) simp_all
  then have jk: "j \<le> k" using j k p c by (auto simp: period_start_def Let_def intro: nat_mono)
  have "\<exists>z. y = Some z \<and> ancestor st z x" if rx: "r = Some x" for x
  proof -
    obtain i' d where x: "anc st i' q = Some x" "st x = Some d" "nHeight d + 1 = int j * Period ck"
      by (rule period_start_anc [OF tree P c(1) j [unfolded rx]])
    have "0 < k" using bj rx jk by (simp add: boundary_def)
    then obtain z where z: "y = Some z" using bk by (auto simp: boundary_def split: option.splits)
    obtain i e where zi: "anc st i p = Some z" "st z = Some e" "nHeight e = nHeight b - int i" "nHeight e + 1 = int k * Period ck"
      by (rule period_start_anc [OF tree P p k [unfolded z]])
    have "int j * Period ck \<le> int k * Period ck" using jk P by (simp add: mult_right_mono)
    then have "nHeight d \<le> nHeight b - int i" using zi(3,4) x(3) by linarith
    moreover have "ancestor st p x" using ancestor_trans [OF anc] x(1) unfolding ancestor_def by blast
    ultimately have "ancestor st z x" using ancestor_lift [OF tree p zi(1) _ x(2)] by blast
    then show ?thesis using z by simp
  qed
  from ref_state_chain [OF tree rule P bj bk jk this] show ?thesis by (simp add: deployment_state_def j k)
qed


section \<open>Statistics\<close>

lemma count_back_path:
  assumes tree: "block_tree st" and "0 \<le> e"
  shows "st p = Some b \<Longrightarrow> e \<le> nHeight b \<Longrightarrow> count_back st ck e (Some p) n =
    Some (n + int (length (filter (Condition ck) (path st (nat (nHeight b - e)) (Some p)))))"
proof (induction "nat (nHeight b - e)" arbitrary: p b n)
  case 0
  then show ?case by (simp add: count_back.simps)
next
  case (Suc k)
  then have "0 < nHeight b" using assms(2) by simp
  then obtain q c where q: "pprev b = Some q" "st q = Some c" "nHeight c = nHeight b - 1"
    by (rule parent_step [OF tree Suc.prems(1)])
  have k: "k = nat (nHeight c - e)" "e \<le> nHeight c" "e \<noteq> nHeight b" using Suc(2) q(3) by simp_all
  have "count_back st ck e (Some p) n = count_back st ck e (Some q) (if Condition ck b then n + 1 else n)"
    using Suc.prems(1) q(1) k(3) by (simp add: count_back.simps [of st ck e "Some p"])
  moreover have "path st (nat (nHeight b - e)) (Some p) = b # path st (nat (nHeight c - e)) (Some q)"
    using Suc.prems(1) q(1) Suc(2) k(1) by (simp flip: Suc(2))
  ultimately show ?case using Suc(1) [OF k(1) q(2) k(2)] by simp
qed

section \<open>Properties of the deployments\<close>

text \<open>One deployment over time: headers arrive and states are queried in any order, every query leaving its results in
  the cache.\<close>

inductive vb_reach :: "(CBlockHeader \<Rightarrow> bytes) \<Rightarrow> checker \<Rightarrow> index_state \<Rightarrow> ThresholdConditionCache \<Rightarrow> bool"
  for GetHash ck where
  vb_empty: "vb_reach GetHash ck index_empty Map.empty"
| vb_add: "vb_reach GetHash ck s cache \<Longrightarrow> header_ok GetHash s block \<Longrightarrow>
    AddToBlockIndex GetHash block s = Some (p, s') \<Longrightarrow> vb_reach GetHash ck s' cache"
| vb_query: "vb_reach GetHash ck s cache \<Longrightarrow> pindex = None \<or> (\<exists>p b. pindex = Some p \<and> store s p = Some b) \<Longrightarrow>
    GetStateFor (store s) ck cache pindex = Some (state, cache') \<Longrightarrow> vb_reach GetHash ck s cache'"

lemma vb_reach_inv:
  assumes P: "0 < Period ck"
  shows "vb_reach GetHash ck s cache \<Longrightarrow> index_inv s \<and> cache_ok (store s) ck cache"
proof (induction rule: vb_reach.induct)
  case vb_empty
  show ?case using index_inv_empty by (simp add: cache_ok_def)
next
  case (vb_add s cache block p s')
  obtain q t where "AddToBlockIndex GetHash block s = Some (q, t)" and t: "index_inv t" and le: "store s \<subseteq>\<^sub>m store t"
    by (rule AddToBlockIndex_inv [OF conjunct1 [OF vb_add.IH] vb_add.hyps(2)])
  then show ?case
    using vb_add cache_ok_mono [OF index_invD(1) [OF conjunct1 [OF vb_add.IH]] index_invD(1) [OF t] le P] by simp
next
  case (vb_query s cache pindex state cache')
  obtain c where "GetStateFor (store s) ck cache pindex = Some (deployment_state (store s) ck pindex, c)"
    "cache_ok (store s) ck c"
    by (rule GetStateFor_reference [OF index_invD(1) [OF conjunct1 [OF vb_query.IH]] P vb_query.hyps(2)
          conjunct2 [OF vb_query.IH]])
  with vb_query show ?case by simp
qed

definition sample_checker :: checker where
  "sample_checker = VersionBitsConditionChecker sample_params
    \<lparr>dep_bit = 28, nStartTime = 500, nTimeout = 5000, nOverrideMinerConfirmationWindow = 0,
     nOverrideRuleChangeActivationThreshold = 0\<rparr>"

lemma sample_checker_period: "Period sample_checker = 2016"
  by (simp add: sample_checker_def VersionBitsConditionChecker_def sample_params_def)

text \<open>C24. In every reachable state of index and cache a query returns the state that the transition rule gives period by
  period from the genesis block, computed without any cache: neither the cached results of earlier queries nor the
  growth of the index in between can change an answer, and no query fails an assertion.\<close>

theorem GetStateFor_cache_transparent:
  assumes "vb_reach GetHash ck s cache" and "0 < Period ck"
    and "pindex = None \<or> (\<exists>p b. pindex = Some p \<and> store s p = Some b)"
  shows "map_option fst (GetStateFor (store s) ck cache pindex) = Some (deployment_state (store s) ck pindex)"
proof -
  note inv = vb_reach_inv [OF assms(2,1)]
  show ?thesis
    by (rule GetStateFor_reference [OF index_invD(1) [OF conjunct1 [OF inv]] assms(2,3) conjunct2 [OF inv]]) simp
qed

theorem GetStateFor_cache_transparent_witness:
  "map_option fst (GetStateFor (store index_empty) sample_checker Map.empty None) = Some THRESHOLD_DEFINED"
  using GetStateFor_cache_transparent [OF vb_empty [of block_hashMerkleRoot sample_checker], of None] sample_checker_period
  by (simp add: deployment_state_def period_start_def)

text \<open>On an index whose blocks obey the median-time rule, the state of a block's deployment is reached from the state
  of each of its ancestors along the edges defined, started, locked in, active and the two edges to failed; an active
  deployment stays active and a failed one failed on every descendant.\<close>

theorem deployment_states_advance:
  assumes "index_reach GetHash s" and "median_rule (store s)" and "0 < Period ck"
    and "store s p = Some b" and "ancestor (store s) p q"
    and "x = deployment_state (store s) ck (Some q)" and "y = deployment_state (store s) ck (Some p)"
  shows "threshold_step\<^sup>*\<^sup>* x y \<and> (x = THRESHOLD_ACTIVE \<longrightarrow> y = THRESHOLD_ACTIVE) \<and> (x = THRESHOLD_FAILED \<longrightarrow> y = THRESHOLD_FAILED)"
proof -
  have "threshold_step\<^sup>*\<^sup>* x y"
    unfolding assms(6,7)
    by (rule deployment_state_chain [OF index_invD(1) [OF index_reach_inv [OF assms(1)]] assms(2-5)])
  then show ?thesis using threshold_terminal by blast
qed

theorem deployment_states_advance_witness:
  "\<exists>p s. AddToBlockIndex block_hashMerkleRoot sample_header index_empty = Some (p, s)
    \<and> threshold_step\<^sup>*\<^sup>* (deployment_state (store s) sample_checker (Some p)) (deployment_state (store s) sample_checker (Some p))"
proof -
  obtain p s b where step: "AddToBlockIndex block_hashMerkleRoot sample_header index_empty = Some (p, s)"
    and reach: "index_reach block_hashMerkleRoot s" and b: "store s p = Some b"
    by (rule sample_index)
  have "mapBlockIndex index_empty (block_hashPrevBlock sample_header) = None" by (simp add: index_empty_def)
  moreover have "mapBlockIndex index_empty (block_hashMerkleRoot sample_header) = None" by (simp add: index_empty_def)
  moreover have "block_nHeight sample_header = 0" "block_hashPrevBlock sample_header \<noteq> block_hashMerkleRoot sample_header"
    by (simp_all add: sample_header_def uint256_null_def)
  ultimately obtain c where c: "new_entry block_hashMerkleRoot sample_header index_empty c"
    and add: "AddToBlockIndex block_hashMerkleRoot sample_header index_empty = insert_entry (block_hashMerkleRoot sample_header) c index_empty"
    using AddToBlockIndex_root [where GetHash = block_hashMerkleRoot, OF index_inv_empty] by blast
  have "store s = [0 \<mapsto> c]" using add step by (auto simp: insert_entry_def index_empty_def Let_def)
  moreover have "pprev c = None" using c by (simp add: new_entry_def index_empty_def)
  ultimately have rule: "median_rule (store s)" by (simp add: median_rule_def)
  have "ancestor (store s) p p" unfolding ancestor_def by (rule exI [of _ 0]) simp
  then show ?thesis
    using deployment_states_advance [OF reach rule _ b _ refl refl, of sample_checker p] step sample_checker_period by auto
qed

text \<open>C35. \<^verbatim>\<open>GetStateStatisticsFor\<close> dereferences a null pointer exactly if the height of the block and one are less
  than the period, that is for every block of the first period except its last one, of height \<open>Period - 1\<close>; for that block
  and all later ones it reports the blocks elapsed in the current period, the signals among them and whether
  the threshold can still be reached.\<close>

theorem GetStateStatisticsFor_outcome:
  assumes "index_reach GetHash s" and "store s p = Some b" and "0 < Period ck"
    and "n = nat ((nHeight b + 1) mod Period ck)"
    and "k = length (filter (Condition ck) (path (store s) n (Some p)))"
  shows "GetStateStatisticsFor (store s) ck (Some p) =
    (if nHeight b + 1 < Period ck then None
     else Some \<lparr>stats_period = Period ck, stats_threshold = Threshold ck, stats_elapsed = int n, stats_count = int k,
       stats_possible = (Threshold ck \<le> Period ck - (int n - int k))\<rparr>)"
proof -
  have tree: "block_tree (store s)" by (rule index_invD(1) [OF index_reach_inv [OF assms(1)]])
  define h where "h = nHeight b + 1"
  have h: "0 < h" using block_treeD(1) [OF tree assms(2)] by (simp add: h_def)
  have mod: "h smod Period ck = int n" using h assms(3) by (simp add: signed_modulo_int_eq_modulo_int assms(4) h_def)
  have n: "int n = h mod Period ck" using assms(3) by (simp add: assms(4) h_def)
  show ?thesis
  proof (cases "h < Period ck")
    case True
    then have "int n = h" using n h by simp
    then have "GetAncestor (store s) p (nHeight b - int n) = Some None"
      using GetAncestor_anc [OF tree assms(2), of "- 1"] by (simp add: h_def)
    then show ?thesis using True assms(2) mod by (simp add: GetStateStatisticsFor_def flip: h_def)
  next
    case False
    have "Period ck \<le> h div Period ck * Period ck"
      using False assms(3) by (simp add: pos_imp_zdiv_pos_iff int_one_le_iff_zero_less)
    moreover have "h - int n = h div Period ck * Period ck" using minus_mod_eq_div_mult [of h "Period ck"] n by simp
    ultimately have range: "0 \<le> nHeight b - int n" "nHeight b - int n \<le> nHeight b"
      using assms(3) h_def by linarith+
    obtain q c where q: "GetAncestor (store s) p (nHeight b - int n) = Some (Some q)" "store s q = Some c"
      "nHeight c = nHeight b - int n"
      by (rule GetAncestor_height [OF tree assms(2) range])
    have "count_back (store s) ck (nHeight c) (Some p) 0 = Some (int k)"
      using count_back_path [OF tree range(1) assms(2) range(2), of ck 0] q(3) by (simp add: assms(5))
    then show ?thesis
      using False assms(2) mod q by (auto simp: GetStateStatisticsFor_def simp flip: h_def)
  qed
qed

theorem GetStateStatisticsFor_outcome_witness:
  "\<exists>p s. AddToBlockIndex block_hashMerkleRoot sample_header index_empty = Some (p, s)
    \<and> (nHeight (the (store s p)) < 2015 \<and> GetStateStatisticsFor (store s) sample_checker (Some p) = None
       \<or> 2015 \<le> nHeight (the (store s p)) \<and> GetStateStatisticsFor (store s) sample_checker (Some p) \<noteq> None)"
proof -
  obtain p s b where step: "AddToBlockIndex block_hashMerkleRoot sample_header index_empty = Some (p, s)"
    and reach: "index_reach block_hashMerkleRoot s" and b: "store s p = Some b"
    by (rule sample_index)
  have "0 < Period sample_checker" by (simp add: sample_checker_period)
  from GetStateStatisticsFor_outcome [OF reach b this refl refl] show ?thesis
    using step b by (auto simp: sample_checker_period)
qed

end
