(* ===== verification/Transactions.thy ===== *)
theory Transactions
  imports Block_Tree
begin

text \<open>
  Transactions (\<^verbatim>\<open>src/primitives/transaction.h\<close>), the range of amounts (\<^verbatim>\<open>src/amount.h\<close>) and the time locks of
  \<^verbatim>\<open>src/consensus/tx_verify.cpp\<close>: absolute locks (\<^verbatim>\<open>IsFinalTx\<close>) and the relative locks of BIP 68, which are computed
  against the block index. Amounts are integers; the code keeps them within \<open>int64_t\<close> by its range checks.
\<close>

section \<open>The data\<close>

type_synonym script = bytes

record COutPoint =
  op_hash :: bytes
  op_n :: u32

record CTxIn =
  prevout :: COutPoint
  scriptSig :: script
  nSequence :: u32
  scriptWitness :: "bytes list"

record CTxOut =
  nValue :: int
  scriptPubKey :: script

record CTransaction =
  vin :: "CTxIn list"
  vout :: "CTxOut list"
  tx_nVersion :: u32
  nLockTime :: u32
  tx_hash :: bytes

definition COutPoint_IsNull :: "COutPoint \<Rightarrow> bool" where
  "COutPoint_IsNull p \<longleftrightarrow> op_hash p = uint256_null \<and> op_n p = - 1"

definition CTxOut_SetNull :: CTxOut where
  "CTxOut_SetNull = \<lparr>nValue = - 1, scriptPubKey = []\<rparr>"

definition CTxOut_IsNull :: "CTxOut \<Rightarrow> bool" where
  "CTxOut_IsNull out \<longleftrightarrow> nValue out = - 1"

definition IsCoinBase :: "CTransaction \<Rightarrow> bool" where
  "IsCoinBase tx \<longleftrightarrow> length (vin tx) = 1 \<and> COutPoint_IsNull (prevout (vin tx ! 0))"

definition HasWitness :: "CTransaction \<Rightarrow> bool" where
  "HasWitness tx \<longleftrightarrow> (\<exists>txin\<in>set (vin tx). scriptWitness txin \<noteq> [])"

definition SEQUENCE_FINAL :: u32 where "SEQUENCE_FINAL = 0xffffffff"
definition SEQUENCE_LOCKTIME_DISABLE_FLAG :: u32 where "SEQUENCE_LOCKTIME_DISABLE_FLAG = push_bit 31 1"
definition SEQUENCE_LOCKTIME_TYPE_FLAG :: u32 where "SEQUENCE_LOCKTIME_TYPE_FLAG = push_bit 22 1"
definition SEQUENCE_LOCKTIME_MASK :: u32 where "SEQUENCE_LOCKTIME_MASK = 0x0000ffff"
definition SEQUENCE_LOCKTIME_GRANULARITY :: nat where "SEQUENCE_LOCKTIME_GRANULARITY = 9"
definition LOCKTIME_THRESHOLD :: int where "LOCKTIME_THRESHOLD = 500000000"
definition LOCKTIME_VERIFY_SEQUENCE :: u32 where "LOCKTIME_VERIFY_SEQUENCE = 1"

definition COIN :: int where "COIN = 100000000"
definition MAX_MONEY :: int where "MAX_MONEY = 1000000000 * COIN"
definition MoneyRange :: "int \<Rightarrow> bool" where "MoneyRange v \<longleftrightarrow> v \<ge> 0 \<and> v \<le> MAX_MONEY"

section \<open>Absolute locks\<close>

definition IsFinalTx :: "CTransaction \<Rightarrow> int \<Rightarrow> int \<Rightarrow> bool" where
  "IsFinalTx tx nBlockHeight nBlockTime =
    (if nLockTime tx = 0 then True
     else if uint (nLockTime tx) < (if uint (nLockTime tx) < LOCKTIME_THRESHOLD then nBlockHeight else nBlockTime) then True
     else list_all (\<lambda>txin. nSequence txin = SEQUENCE_FINAL) (vin tx))"

section \<open>Relative locks\<close>

text \<open>
  The loop over the inputs and the heights of the coins they spend: the least height and time and the heights, where
  those of inputs without a lock are reset to zero. The loop dereferences an ancestor of the block, \<open>None\<close> if it is null.
\<close>

fun sequence_locks_loop ::
  "block_store \<Rightarrow> block_ref \<Rightarrow> CTxIn list \<Rightarrow> int list \<Rightarrow> int \<Rightarrow> int \<Rightarrow> (int \<times> int \<times> int list) option" where
  "sequence_locks_loop st block (txin # txins) (nCoinHeight # heights) nMinHeight nMinTime =
    (if nSequence txin AND SEQUENCE_LOCKTIME_DISABLE_FLAG \<noteq> 0 then do {
       (h, t, hs) \<leftarrow> sequence_locks_loop st block txins heights nMinHeight nMinTime;
       Some (h, t, 0 # hs) }
     else if nSequence txin AND SEQUENCE_LOCKTIME_TYPE_FLAG \<noteq> 0 then do {
       p \<leftarrow> GetAncestor st block (max (nCoinHeight - 1) 0);
       p \<leftarrow> p;
       nCoinTime \<leftarrow> GetMedianTimePast st p;
       let nMinTime = max nMinTime
         (nCoinTime + uint (push_bit SEQUENCE_LOCKTIME_GRANULARITY (nSequence txin AND SEQUENCE_LOCKTIME_MASK)) - 1);
       (h, t, hs) \<leftarrow> sequence_locks_loop st block txins heights nMinHeight nMinTime;
       Some (h, t, nCoinHeight # hs) }
     else do {
       let nMinHeight = max nMinHeight (nCoinHeight + uint (nSequence txin AND SEQUENCE_LOCKTIME_MASK) - 1);
       (h, t, hs) \<leftarrow> sequence_locks_loop st block txins heights nMinHeight nMinTime;
       Some (h, t, nCoinHeight # hs) })"
| "sequence_locks_loop st block txins heights nMinHeight nMinTime = Some (nMinHeight, nMinTime, heights)"

definition CalculateSequenceLocks ::
  "block_store \<Rightarrow> CTransaction \<Rightarrow> u32 \<Rightarrow> int list \<Rightarrow> block_ref \<Rightarrow> (int \<times> int \<times> int list) option" where
  "CalculateSequenceLocks st tx flags prevHeights block =
    (if length prevHeights \<noteq> length (vin tx) then None
     else
       (let fEnforceBIP68 = (tx_nVersion tx \<ge> 2 \<and> flags AND LOCKTIME_VERIFY_SEQUENCE \<noteq> 0)
        in if \<not> fEnforceBIP68 then Some (- 1, - 1, prevHeights)
           else sequence_locks_loop st block (vin tx) prevHeights (- 1) (- 1)))"

definition EvaluateSequenceLocks :: "block_store \<Rightarrow> block_ref \<Rightarrow> int \<Rightarrow> int \<Rightarrow> bool option" where
  "EvaluateSequenceLocks st block lockHeight lockTime = do {
    b \<leftarrow> st block;
    q \<leftarrow> pprev b;
    nBlockTime \<leftarrow> GetMedianTimePast st q;
    Some (if lockHeight \<ge> nHeight b \<or> lockTime \<ge> nBlockTime then False else True) }"

definition SequenceLocks ::
  "block_store \<Rightarrow> CTransaction \<Rightarrow> u32 \<Rightarrow> int list \<Rightarrow> block_ref \<Rightarrow> (bool \<times> int list) option" where
  "SequenceLocks st tx flags prevHeights block = do {
    (lockHeight, lockTime, prevHeights) \<leftarrow> CalculateSequenceLocks st tx flags prevHeights block;
    r \<leftarrow> EvaluateSequenceLocks st block lockHeight lockTime;
    Some (r, prevHeights) }"

section \<open>The meaning of the relative locks\<close>

text \<open>
  An input with sequence number \<open>n\<close> that spends a coin of height \<open>h\<close> may be in the block if its lock is switched off, or
  \<open>n AND 0xffff\<close> blocks, or as many units of 512 seconds of median time, have passed since the coin was mined.
\<close>

definition lock_passed :: "block_store \<Rightarrow> block_ref \<Rightarrow> CTxIn \<Rightarrow> int \<Rightarrow> bool" where
  "lock_passed st block txin h \<longleftrightarrow>
    (let n = nSequence txin; units = int (unat n mod 2 ^ 16) in
     bit n 31 \<or>
     (\<exists>b q. st block = Some b \<and> pprev b = Some q \<and>
       (if bit n 22 then
          \<exists>a ta tq. GetAncestor st block (max (h - 1) 0) = Some (Some a) \<and> GetMedianTimePast st a = Some ta \<and>
            GetMedianTimePast st q = Some tq \<and> ta + units * 512 \<le> tq
        else h + units \<le> nHeight b)))"

lemma flag_bit: "n AND push_bit k 1 \<noteq> 0 \<longleftrightarrow> bit (n :: u32) k"
  by (simp add: push_bit_eq_mult and_exp_eq_0_iff_not_bit)

lemma sequence_mask: "uint (n AND SEQUENCE_LOCKTIME_MASK) = int (unat (n :: u32) mod 2 ^ 16)"
proof -
  have "SEQUENCE_LOCKTIME_MASK = mask 16" by (simp add: SEQUENCE_LOCKTIME_MASK_def mask_eq_exp_minus_1)
  then have "n AND SEQUENCE_LOCKTIME_MASK = take_bit 16 n" by (simp add: take_bit_eq_mask)
  then have "uint (n AND SEQUENCE_LOCKTIME_MASK) = take_bit 16 (uint n)" by (simp only: unsigned_take_bit_eq)
  then show ?thesis by (simp add: take_bit_eq_mod zmod_int)
qed

lemma sequence_units:
  "uint (push_bit SEQUENCE_LOCKTIME_GRANULARITY (n AND SEQUENCE_LOCKTIME_MASK)) = int (unat (n :: u32) mod 2 ^ 16) * 512"
proof -
  define m where "m = n AND SEQUENCE_LOCKTIME_MASK"
  have m: "uint m = int (unat n mod 2 ^ 16)" by (simp add: m_def sequence_mask)
  moreover have "int (unat n mod 2 ^ 16) < 65536" by simp
  ultimately have "uint m * 512 < 4294967296" by linarith
  then have "uint (push_bit 9 m) = uint m * 512" by (simp add: push_bit_eq_mult uint_word_ariths)
  then show ?thesis by (simp add: m m_def [symmetric] SEQUENCE_LOCKTIME_GRANULARITY_def)
qed

lemma sequence_locks_loop_meaning:
  assumes tree: "block_tree st" and block: "st block = Some b" "pprev b = Some q" and T: "GetMedianTimePast st q = Some T"
    and "length heights = length txins" and "\<forall>h\<in>set heights. h \<le> nHeight b"
  shows "\<exists>H' T'. sequence_locks_loop st block txins heights H0 T0 =
      Some (H', T', map2 (\<lambda>txin h. if bit (nSequence txin) 31 then 0 else h) txins heights) \<and>
    (H' < nHeight b \<and> T' < T \<longleftrightarrow>
      H0 < nHeight b \<and> T0 < T \<and> (\<forall>i<length txins. lock_passed st block (txins ! i) (heights ! i)))"
  using assms(5,6)
proof (induction txins arbitrary: heights H0 T0)
  case (Cons txin txins)
  then obtain h hs where heights: "heights = h # hs" and hs: "length hs = length txins" "\<forall>h\<in>set hs. h \<le> nHeight b" and h: "h \<le> nHeight b"
    by (cases heights) auto
  define n units where "n = nSequence txin" and "units = int (unat n mod 65536)"
  note IH = Cons.IH [OF hs]
  have all: "(\<forall>i<length (txin # txins). lock_passed st block ((txin # txins) ! i) (heights ! i)) \<longleftrightarrow>
      lock_passed st block txin h \<and> (\<forall>i<length txins. lock_passed st block (txins ! i) (hs ! i))"
    by (simp add: heights All_less_Suc2)
  have flags: "n AND SEQUENCE_LOCKTIME_DISABLE_FLAG \<noteq> 0 \<longleftrightarrow> bit n 31" "n AND SEQUENCE_LOCKTIME_TYPE_FLAG \<noteq> 0 \<longleftrightarrow> bit n 22"
    by (simp_all only: SEQUENCE_LOCKTIME_DISABLE_FLAG_def SEQUENCE_LOCKTIME_TYPE_FLAG_def flag_bit)
  consider (off) "bit n 31" | (time) "\<not> bit n 31" "bit n 22" | (height) "\<not> bit n 31" "\<not> bit n 22" by blast
  then show ?case
  proof cases
    case off
    then have "lock_passed st block txin h" by (simp add: lock_passed_def n_def)
    with IH [of H0 T0] off show ?thesis unfolding all by (auto simp: heights flags n_def [symmetric])
  next
    case time
    obtain a c where a: "GetAncestor st block (max (h - 1) 0) = Some (Some a)" "st a = Some c"
      by (rule GetAncestor_height [OF tree block(1), of "max (h - 1) 0"]) (use h block_treeD(1) [OF tree block(1)] in auto)
    obtain ta where ta: "GetMedianTimePast st a = Some ta" using GetMedianTimePast_path [OF tree a(2)] by blast
    have "lock_passed st block txin h \<longleftrightarrow> ta + units * 512 \<le> T"
      using time block T a ta by (auto simp: lock_passed_def n_def [symmetric] units_def [symmetric] Let_def)
    with IH [of H0 "max T0 (ta + units * 512 - 1)"] time a ta show ?thesis
      unfolding all by (auto simp: heights flags n_def [symmetric] sequence_units units_def simp del: push_bit_and)
  next
    case height
    have "lock_passed st block txin h \<longleftrightarrow> h + units \<le> nHeight b"
      using height block by (auto simp: lock_passed_def n_def [symmetric] units_def [symmetric] Let_def)
    with IH [of "max H0 (h + units - 1)" T0] height show ?thesis
      unfolding all by (auto simp: heights flags n_def [symmetric] sequence_mask units_def)
  qed
qed auto

lemma GetMedianTimePast_nonneg:
  assumes "block_tree st" and "st p = Some b" and "GetMedianTimePast st p = Some T"
  shows "0 \<le> T"
proof -
  define ts where "ts = map GetBlockTime (path st nMedianTimeSpan (Some p))"
  have T: "T = sort ts ! (length ts div 2)"
    using GetMedianTimePast_path [OF assms(1,2)] assms(3) by (simp add: ts_def Let_def)
  have "0 < length ts"
    using length_path [OF assms(1,2), of nMedianTimeSpan] by (simp add: ts_def nMedianTimeSpan_def)
  then have "T \<in> set ts" using median_bounds(1) [of ts T] T by auto
  then show ?thesis by (auto simp: ts_def GetBlockTime_def)
qed

text \<open>
  C32. BIP 68: on every reachable index the relative lock check returns for each block with a parent, and accepts exactly if
  the transaction or the flags do not ask for it or every input's lock has passed. The heights that it returns are those it was given,
  except that, where the rule applies, the heights of the inputs whose lock is switched off are reset to zero.
\<close>

theorem SequenceLocks_iff:
  assumes "index_reach GetHash s" and "store s block = Some b" and "pprev b = Some q"
    and "length prevHeights = length (vin tx)" and "\<forall>h\<in>set prevHeights. h \<le> nHeight b"
  shows "SequenceLocks (store s) tx flags prevHeights block = Some
    (tx_nVersion tx < 2 \<or> \<not> bit flags 0 \<or>
       (\<forall>i<length (vin tx). lock_passed (store s) block (vin tx ! i) (prevHeights ! i)),
     if tx_nVersion tx < 2 \<or> \<not> bit flags 0 then prevHeights
     else map2 (\<lambda>txin h. if bit (nSequence txin) 31 then 0 else h) (vin tx) prevHeights)"
proof -
  have tree: "block_tree (store s)" by (rule index_invD(1) [OF index_reach_inv [OF assms(1)]])
  obtain c where c: "store s q = Some c"
    using block_treeD(3) [OF tree assms(2)] assms(3) by (auto simp: parent_ok_def)
  obtain T where T: "GetMedianTimePast (store s) q = Some T" using GetMedianTimePast_path [OF tree c] by blast
  have low: "- 1 < nHeight b" "- 1 < T"
    using block_treeD(1) [OF tree assms(2)] GetMedianTimePast_nonneg [OF tree c T] by simp_all
  have bip: "tx_nVersion tx \<ge> 2 \<and> flags AND LOCKTIME_VERIFY_SEQUENCE \<noteq> 0 \<longleftrightarrow> \<not> (tx_nVersion tx < 2 \<or> \<not> bit flags 0)"
    using flag_bit [of flags 0] by (auto simp: LOCKTIME_VERIFY_SEQUENCE_def not_less)
  have eval: "EvaluateSequenceLocks (store s) block H' T' = Some (H' < nHeight b \<and> T' < T)" for H' T'
    using assms(2,3) T by (auto simp: EvaluateSequenceLocks_def)
  show ?thesis
  proof (cases "tx_nVersion tx < 2 \<or> \<not> bit flags 0")
    case True
    then show ?thesis using bip low eval [of "- 1" "- 1"] assms(4) by (auto simp: SequenceLocks_def CalculateSequenceLocks_def)
  next
    case False
    define hs where "hs = map2 (\<lambda>txin h. if bit (nSequence txin) 31 then 0 else h) (vin tx) prevHeights"
    obtain H' T' where loop: "sequence_locks_loop (store s) block (vin tx) prevHeights (- 1) (- 1) = Some (H', T', hs)"
      and iff: "H' < nHeight b \<and> T' < T \<longleftrightarrow> - 1 < nHeight b \<and> - 1 < T \<and>
        (\<forall>i<length (vin tx). lock_passed (store s) block (vin tx ! i) (prevHeights ! i))"
      using sequence_locks_loop_meaning [OF tree assms(2,3) T assms(4,5), of "- 1" "- 1"] by (auto simp: hs_def)
    have "CalculateSequenceLocks (store s) tx flags prevHeights block = Some (H', T', hs)"
      using False bip loop assms(4) unfolding CalculateSequenceLocks_def Let_def by auto
    with False iff low show ?thesis by (simp add: SequenceLocks_def eval hs_def [symmetric])
  qed
qed

definition sample_child :: CBlockHeader where
  "sample_child = sample_header\<lparr>block_hashPrevBlock := replicate 32 1, block_hashMerkleRoot := replicate 32 2\<rparr>"

lemma sample_lock_chain:
  obtains s p b q where "index_reach block_hashMerkleRoot s" and "store s p = Some b" and "pprev b = Some q"
proof -
  obtain q s where 1: "AddToBlockIndex block_hashMerkleRoot sample_header index_empty = Some (q, s)" "index_inv s"
    by (rule AddToBlockIndex_inv [OF index_inv_empty sample_header_ok])
  have m: "mapBlockIndex s = [replicate 32 1 \<mapsto> q]"
    using 1(1)
    by (auto simp: AddToBlockIndex_def index_empty_def sample_header_def Let_def uint256_null_def
        split: option.splits bind_splits prod.splits)
  have reach: "index_reach block_hashMerkleRoot s" by (rule reach_add [OF reach_empty sample_header_ok 1(1)])
  have new: "mapBlockIndex s (block_hashMerkleRoot sample_child) = None"
    and prev: "mapBlockIndex s (block_hashPrevBlock sample_child) = Some q"
    by (simp_all add: m sample_child_def)
  obtain b where b: "new_entry block_hashMerkleRoot sample_child s b"
    "AddToBlockIndex block_hashMerkleRoot sample_child s = insert_entry (block_hashMerkleRoot sample_child) b s"
    by (rule AddToBlockIndex_child [where GetHash = block_hashMerkleRoot, OF 1(2) new prev])
  have ok: "header_ok block_hashMerkleRoot s sample_child" using prev by (simp add: header_ok_def)
  obtain p s' where 2: "AddToBlockIndex block_hashMerkleRoot sample_child s = Some (p, s')"
    by (rule AddToBlockIndex_inv [OF 1(2) ok])
  then have "store s' p = Some b" using b(2) by (auto simp: insert_entry_def Let_def split: option.splits bind_splits)
  then show thesis using that reach_add [OF reach ok 2] b(1) prev by (auto simp: new_entry_def)
qed

definition sample_tx :: CTransaction where
  "sample_tx = \<lparr>vin = [\<lparr>prevout = \<lparr>op_hash = replicate 32 3, op_n = 0\<rparr>, scriptSig = [], nSequence = 0x80000000, scriptWitness = []\<rparr>],
    vout = [], tx_nVersion = 2, nLockTime = 0, tx_hash = replicate 32 4\<rparr>"

theorem SequenceLocks_iff_witness:
  "\<exists>s block b. index_reach block_hashMerkleRoot s \<and> store s block = Some b \<and>
    SequenceLocks (store s) sample_tx LOCKTIME_VERIFY_SEQUENCE [nHeight b] block = Some (True, [0])"
proof -
  obtain s p b q where s: "index_reach block_hashMerkleRoot s" "store s p = Some b" "pprev b = Some q" by (rule sample_lock_chain)
  have "SequenceLocks (store s) sample_tx LOCKTIME_VERIFY_SEQUENCE [nHeight b] p = Some (True, [0])"
    using SequenceLocks_iff [OF s, of "[nHeight b]" sample_tx LOCKTIME_VERIFY_SEQUENCE]
    by (simp add: sample_tx_def lock_passed_def bit_iff_odd LOCKTIME_VERIFY_SEQUENCE_def)
  with s(1,2) show ?thesis by blast
qed

end
