(* ===== verification/Sph_Buffer.thy ===== *)
theory Sph_Buffer
  imports Bytes
begin

text \<open>
  The input side that the hash functions of \<^verbatim>\<open>src/algo\<close> share: a context holds a buffer \<^verbatim>\<open>buf\<close>, the number
  \<^verbatim>\<open>ptr\<close> of bytes in it and a chaining state; the \<^verbatim>\<open>core\<close> function appends its input to the buffer and
  compresses the buffer whenever it is full. Every hash writes this loop out in its own \<^verbatim>\<open>core\<close>; the loop
  is one definition here, with the size of the buffer and the compression as arguments.

  The locale \<open>buffered_hash\<close> is the contract that the \<^verbatim>\<open>core\<close> functions fulfil and that their \<^verbatim>\<open>close\<close>
  functions rely on: after any sequence of calls the context represents the concatenation of the inputs.
\<close>

section \<open>The loop over the input\<close>

text \<open>
  The loop of the \<^verbatim>\<open>core\<close> functions. They keep \<open>ptr < n\<close> between iterations; with a full buffer at the
  start of an iteration the C loop would not advance, and the model stops.
\<close>

function core_loop ::
  "nat \<Rightarrow> (bytes \<Rightarrow> 's \<Rightarrow> 's) \<Rightarrow> bytes \<Rightarrow> nat \<Rightarrow> 's \<Rightarrow> bytes \<Rightarrow> nat \<Rightarrow> bytes \<times> nat \<times> 's" where
  "core_loop n step buf ptr st data len =
    (if len > 0 \<and> ptr < n then
       (let clen = n - ptr;
            clen = (if clen > len then len else clen);
            buf = memcpy buf ptr (take clen data);
            ptr = ptr + clen;
            data = drop clen data;
            len = len - clen
        in if ptr = n then core_loop n step buf 0 (step buf st) data len
           else core_loop n step buf ptr st data len)
     else (buf, ptr, st))"
  by pat_completeness auto
termination by (relation "measure (\<lambda>(n, step, buf, ptr, st, data, len). len)") auto

declare core_loop.simps [simp del]

definition core_update ::
  "nat \<Rightarrow> (bytes \<Rightarrow> 's \<Rightarrow> 's) \<Rightarrow> bytes \<times> nat \<times> 's \<Rightarrow> bytes \<Rightarrow> nat \<Rightarrow> bytes \<times> nat \<times> 's" where
  "core_update n step = (\<lambda>(buf, ptr, st) data len.
    if len < n - ptr then (memcpy buf ptr (take len data), ptr + len, st)
    else core_loop n step buf ptr st data len)"

section \<open>The message that a context represents\<close>

definition absorb_blocks :: "nat \<Rightarrow> (bytes \<Rightarrow> 's \<Rightarrow> 's) \<Rightarrow> bytes \<Rightarrow> 's \<Rightarrow> 's" where
  "absorb_blocks n step m st = fold step (map (\<lambda>i. chunk n i m) [0..<length m div n]) st"

definition rest_of :: "nat \<Rightarrow> bytes \<Rightarrow> bytes" where
  "rest_of n m = drop (n * (length m div n)) m"

definition represents :: "nat \<Rightarrow> (bytes \<Rightarrow> 's \<Rightarrow> 's) \<Rightarrow> 's \<Rightarrow> bytes \<Rightarrow> bytes \<times> nat \<times> 's \<Rightarrow> bool" where
  "represents n step st0 m = (\<lambda>(buf, ptr, st).
    length buf = n \<and> ptr = length m mod n \<and> take ptr buf = rest_of n m \<and> st = absorb_blocks n step m st0)"

lemma length_rest_of [simp]: "length (rest_of n m) = length m mod n"
  by (simp add: rest_of_def minus_mult_div_eq_mod)

lemma represents_init: "length buf = n \<Longrightarrow> represents n step st0 [] (buf, 0, st0)"
  by (simp add: represents_def rest_of_def absorb_blocks_def)

lemma absorb_blocks_short:
  assumes "length m mod n + length d < n"
  shows "absorb_blocks n step (m @ d) st = absorb_blocks n step m st"
    and "rest_of n (m @ d) = rest_of n m @ d"
    and "length (m @ d) mod n = length m mod n + length d"
proof -
  have n: "0 < n" using assms by auto
  have len: "length (m @ d) = n * (length m div n) + (length m mod n + length d)" by simp
  have q: "length (m @ d) div n = length m div n"
    unfolding len using assms n by (simp only: div_mult_self4 div_less add_0_right neq0_conv)
  show "length (m @ d) mod n = length m mod n + length d"
    unfolding len using assms by (simp only: mod_mult_self4 mod_less)
  have "chunk n i (m @ d) = chunk n i m" if "i < length m div n" for i
  proof -
    have "n * i + n \<le> n * (length m div n)" using that by (metis Suc_leI mult_Suc_right mult_le_mono2 add.commute)
    also have "\<dots> \<le> length m" by simp
    finally show ?thesis by (simp add: chunk_def)
  qed
  then show "absorb_blocks n step (m @ d) st = absorb_blocks n step m st"
    unfolding absorb_blocks_def q by (intro fold_cong map_cong) simp_all
  show "rest_of n (m @ d) = rest_of n m @ d"
    unfolding rest_of_def q by simp
qed

lemma absorb_blocks_full:
  assumes "0 < n" and "length m mod n + length d = n"
  shows "absorb_blocks n step (m @ d) st = step (rest_of n m @ d) (absorb_blocks n step m st)"
    and "rest_of n (m @ d) = []"
    and "length (m @ d) mod n = 0"
proof -
  define q where "q = length m div n"
  have m: "length m = n * q + length m mod n" by (simp add: q_def)
  have len: "length (m @ d) = n * Suc q" using assms(2) m by simp
  then have q': "length (m @ d) div n = Suc q" using assms(1) by simp
  show "length (m @ d) mod n = 0" using len by simp
  show "rest_of n (m @ d) = []" unfolding rest_of_def q' using len by simp
  have nq: "n * q \<le> length m" by (simp add: q_def)
  have "chunk n i (m @ d) = chunk n i m" if "i < q" for i
  proof -
    have "n * i + n \<le> n * q" using that by (metis Suc_leI mult_Suc_right mult_le_mono2 add.commute)
    with nq show ?thesis by (simp add: chunk_def)
  qed
  moreover have "chunk n q (m @ d) = rest_of n m @ d"
    using nq assms(2) m unfolding chunk_def rest_of_def q_def [symmetric] by simp
  ultimately show "absorb_blocks n step (m @ d) st = step (rest_of n m @ d) (absorb_blocks n step m st)"
    unfolding absorb_blocks_def q' q_def [symmetric] by simp (intro arg_cong [where f = "step _"] fold_cong map_cong; simp)
qed

lemma represents_append:
  assumes "represents n step st0 m (buf, ptr, st)" and "0 < n" and "ptr + length d \<le> n"
  shows "represents n step st0 (m @ d)
    (if ptr + length d = n then (memcpy buf ptr d, 0, step (memcpy buf ptr d) st)
     else (memcpy buf ptr d, ptr + length d, st))"
proof -
  have ptr: "ptr = length m mod n" and buf: "length buf = n" "take ptr buf = rest_of n m"
    and st: "st = absorb_blocks n step m st0"
    using assms(1) unfolding represents_def by auto
  have copy: "take (ptr + length d) (memcpy buf ptr d) = rest_of n m @ d" "length (memcpy buf ptr d) = n"
    using assms(3) buf ptr by (simp_all add: memcpy_def)
  show ?thesis
  proof (cases "ptr + length d = n")
    case True
    then have full: "length m mod n + length d = n" and "memcpy buf ptr d = rest_of n m @ d"
      using copy ptr by simp_all
    with True copy st show ?thesis
      using absorb_blocks_full(2,3) [OF assms(2) full]
      by (simp add: represents_def absorb_blocks_full(1) [OF assms(2) full])
  next
    case False
    then have "length m mod n + length d < n" using assms(3) ptr by simp
    with False copy st ptr show ?thesis
      using absorb_blocks_short(2,3) [of m n d] by (simp add: represents_def absorb_blocks_short(1))
  qed
qed

lemma core_loop_represents:
  "0 < n \<Longrightarrow> represents n step st0 m (buf, ptr, st) \<Longrightarrow> len = length data \<Longrightarrow>
    represents n step st0 (m @ data) (core_loop n step buf ptr st data len)"
proof (induction n step buf ptr st data len arbitrary: m rule: core_loop.induct)
  case (1 n step buf ptr st data len)
  have ptr: "ptr < n" using 1(3,4) by (simp add: represents_def)
  show ?case
  proof (cases "len > 0")
    case True
    define clen where "clen = (if n - ptr > len then len else n - ptr)"
    define buf' where "buf' = memcpy buf ptr (take clen data)"
    have clen: "length (take clen data) = clen" "ptr + clen \<le> n" using 1(5) ptr by (auto simp: clen_def)
    note step = represents_append [OF 1(4,3), of "take clen data", unfolded clen(1), OF clen(2), folded buf'_def]
    have whole: "m @ data = (m @ take clen data) @ drop clen data" by simp
    have loop: "core_loop n step buf ptr st data len =
      (if ptr + clen = n then core_loop n step buf' 0 (step buf' st) (drop clen data) (len - clen)
       else core_loop n step buf' (ptr + clen) st (drop clen data) (len - clen))"
      using True ptr by (subst core_loop.simps) (simp add: Let_def clen_def buf'_def)
    show ?thesis
    proof (cases "ptr + clen = n")
      case t: True
      show ?thesis
        unfolding loop whole using t step 1(1) [OF _ refl refl refl refl refl refl, of "m @ take clen data"] True ptr 1(3,5)
        by (simp add: clen_def buf'_def)
    next
      case f: False
      show ?thesis
        unfolding loop whole using f step 1(2) [OF _ refl refl refl refl refl refl, of "m @ take clen data"] True ptr 1(3,5)
        by (simp add: clen_def buf'_def)
    qed
  next
    case False
    with 1(4,5) show ?thesis by (simp add: core_loop.simps)
  qed
qed

lemma core_update_represents:
  assumes "0 < n" and "represents n step st0 m c"
  shows "represents n step st0 (m @ d) (core_update n step c d (length d))"
proof -
  obtain buf ptr st where c: "c = (buf, ptr, st)" by (cases c)
  show ?thesis
  proof (cases "length d < n - ptr")
    case True
    then have "ptr + length d \<le> n" and "ptr + length d \<noteq> n" by simp_all
    with True show ?thesis
      using represents_append [of n step st0 m buf ptr st d] assms c by (simp add: core_update_def)
  next
    case False
    then show ?thesis
      using core_loop_represents [of n step st0 m buf ptr st "length d" d] assms c by (simp add: core_update_def)
  qed
qed

section \<open>The contract of a core function\<close>

locale buffered_hash =
  fixes n :: nat
    and step :: "bytes \<Rightarrow> 's \<Rightarrow> 's"
    and view :: "'c \<Rightarrow> bytes \<times> nat \<times> 's"
    and core :: "'c \<Rightarrow> bytes \<Rightarrow> nat \<Rightarrow> 'c"
  assumes n_pos: "0 < n"
    and view_core: "view (core c d len) = core_update n step (view c) d len"
begin

definition holds :: "'s \<Rightarrow> bytes \<Rightarrow> 'c \<Rightarrow> bool" where
  "holds st0 m c \<longleftrightarrow> represents n step st0 m (view c)"

lemma holds_core: "holds st0 m c \<Longrightarrow> holds st0 (m @ d) (core c d (length d))"
  unfolding holds_def view_core by (rule core_update_represents [OF n_pos])

lemma holds_run:
  "holds st0 m c \<Longrightarrow> holds st0 (m @ concat ds) (fold (\<lambda>d c. core c d (length d)) ds c)"
  by (induction ds arbitrary: m c) (use holds_core in \<open>force\<close>)+

lemma holds_bound: "holds st0 m c \<Longrightarrow> view c = (buf, ptr, st) \<Longrightarrow> ptr < n \<and> length buf = n"
  using n_pos by (auto simp: holds_def represents_def)

lemma holds_unique:
  "holds st0 m c \<Longrightarrow> holds st0 m c' \<Longrightarrow> view c = (buf, ptr, st) \<Longrightarrow> view c' = (buf', ptr', st') \<Longrightarrow>
    ptr = ptr' \<and> st = st' \<and> take ptr buf = take ptr' buf'"
  by (auto simp: holds_def represents_def)

end

end
