(* ===== verification/Sha256.thy ===== *)
theory Sha256
  imports Sph_Buffer
begin

text \<open>
  SHA-256: \<^verbatim>\<open>src/crypto/sha256.cpp\<close> and \<^verbatim>\<open>src/crypto/sha256.h\<close> in the portable implementation, with the readers and
  writers of \<^verbatim>\<open>src/crypto/common.h\<close>, and the double hash \<^verbatim>\<open>CHash256\<close> of \<^verbatim>\<open>src/hash.h\<close>. The transformation is written out
  in four groups of sixteen rounds in which the registers rotate by renaming and the sixteen schedule words are
  updated in place; the second to fourth group differ in their constants only, which are an argument here (the last
  two words of the last group are not stored any more in the code; nothing reads them).

  The reference is FIPS 180-4: the message schedule of 64 words, one round function applied 64 times, the padding.
\<close>

section \<open>Words and bytes\<close>

definition ReadBE32 :: "bytes \<Rightarrow> u32" where
  "ReadBE32 ptr = be_word (take 4 ptr)"

definition WriteBE32 :: "u32 \<Rightarrow> bytes" where
  "WriteBE32 x = be_bytes 4 x"

definition WriteBE64 :: "u64 \<Rightarrow> bytes" where
  "WriteBE64 x = be_bytes 8 x"

section \<open>The transformation\<close>

type_synonym sha256_regs = "u32 \<times> u32 \<times> u32 \<times> u32 \<times> u32 \<times> u32 \<times> u32 \<times> u32"

definition sha256_Ch :: "u32 \<Rightarrow> u32 \<Rightarrow> u32 \<Rightarrow> u32" where
  "sha256_Ch x y z = z XOR (x AND (y XOR z))"

definition sha256_Maj :: "u32 \<Rightarrow> u32 \<Rightarrow> u32 \<Rightarrow> u32" where
  "sha256_Maj x y z = (x AND y) OR (z AND (x OR y))"

definition sha256_Sigma0 :: "u32 \<Rightarrow> u32" where
  "sha256_Sigma0 x = (drop_bit 2 x OR push_bit 30 x) XOR (drop_bit 13 x OR push_bit 19 x) XOR (drop_bit 22 x OR push_bit 10 x)"

definition sha256_Sigma1 :: "u32 \<Rightarrow> u32" where
  "sha256_Sigma1 x = (drop_bit 6 x OR push_bit 26 x) XOR (drop_bit 11 x OR push_bit 21 x) XOR (drop_bit 25 x OR push_bit 7 x)"

definition sha256_sigma0 :: "u32 \<Rightarrow> u32" where
  "sha256_sigma0 x = (drop_bit 7 x OR push_bit 25 x) XOR (drop_bit 18 x OR push_bit 14 x) XOR drop_bit 3 x"

definition sha256_sigma1 :: "u32 \<Rightarrow> u32" where
  "sha256_sigma1 x = (drop_bit 17 x OR push_bit 15 x) XOR (drop_bit 19 x OR push_bit 13 x) XOR drop_bit 10 x"

text \<open>The new values of the two registers that a round assigns, \<^verbatim>\<open>d\<close> and \<^verbatim>\<open>h\<close>.\<close>

definition sha256_Round ::
  "u32 \<Rightarrow> u32 \<Rightarrow> u32 \<Rightarrow> u32 \<Rightarrow> u32 \<Rightarrow> u32 \<Rightarrow> u32 \<Rightarrow> u32 \<Rightarrow> u32 \<Rightarrow> u32 \<Rightarrow> u32 \<times> u32" where
  "sha256_Round a b c d e f g h k w =
    (let t1 = h + sha256_Sigma1 e + sha256_Ch e f g + k + w;
         t2 = sha256_Sigma0 a + sha256_Maj a b c
     in (d + t1, t1 + t2))"

definition sha256_Initialize :: "u32 list" where
  "sha256_Initialize =
    [0x6a09e667, 0xbb67ae85, 0x3c6ef372, 0xa54ff53a, 0x510e527f, 0x9b05688c, 0x1f83d9ab, 0x5be0cd19]"

text \<open>The constants in the order of the rounds.\<close>

definition sha256_K :: "u32 list" where
  "sha256_K =
    [0x428A2F98, 0x71374491, 0xB5C0FBCF, 0xE9B5DBA5, 0x3956C25B, 0x59F111F1, 0x923F82A4, 0xAB1C5ED5,
     0xD807AA98, 0x12835B01, 0x243185BE, 0x550C7DC3, 0x72BE5D74, 0x80DEB1FE, 0x9BDC06A7, 0xC19BF174,
     0xE49B69C1, 0xEFBE4786, 0x0FC19DC6, 0x240CA1CC, 0x2DE92C6F, 0x4A7484AA, 0x5CB0A9DC, 0x76F988DA,
     0x983E5152, 0xA831C66D, 0xB00327C8, 0xBF597FC7, 0xC6E00BF3, 0xD5A79147, 0x06CA6351, 0x14292967,
     0x27B70A85, 0x2E1B2138, 0x4D2C6DFC, 0x53380D13, 0x650A7354, 0x766A0ABB, 0x81C2C92E, 0x92722C85,
     0xA2BFE8A1, 0xA81A664B, 0xC24B8B70, 0xC76C51A3, 0xD192E819, 0xD6990624, 0xF40E3585, 0x106AA070,
     0x19A4C116, 0x1E376C08, 0x2748774C, 0x34B0BCB5, 0x391C0CB3, 0x4ED8AA4A, 0x5B9CCA4F, 0x682E6FF3,
     0x748F82EE, 0x78A5636F, 0x84C87814, 0x8CC70208, 0x90BEFFFA, 0xA4506CEB, 0xBEF9A3F7, 0xC67178F2]"

definition sha256_rounds_0 :: "bytes \<Rightarrow> sha256_regs \<Rightarrow> sha256_regs \<times> u32 list" where
  "sha256_rounds_0 blk = (\<lambda>(a, b, c, d, e, f, g, h).
    let
      w0 = ReadBE32 (drop 0 blk);
      (d, h) = sha256_Round a b c d e f g h 0x428a2f98 w0;
      w1 = ReadBE32 (drop 4 blk);
      (c, g) = sha256_Round h a b c d e f g 0x71374491 w1;
      w2 = ReadBE32 (drop 8 blk);
      (b, f) = sha256_Round g h a b c d e f 0xb5c0fbcf w2;
      w3 = ReadBE32 (drop 12 blk);
      (a, e) = sha256_Round f g h a b c d e 0xe9b5dba5 w3;
      w4 = ReadBE32 (drop 16 blk);
      (h, d) = sha256_Round e f g h a b c d 0x3956c25b w4;
      w5 = ReadBE32 (drop 20 blk);
      (g, c) = sha256_Round d e f g h a b c 0x59f111f1 w5;
      w6 = ReadBE32 (drop 24 blk);
      (f, b) = sha256_Round c d e f g h a b 0x923f82a4 w6;
      w7 = ReadBE32 (drop 28 blk);
      (e, a) = sha256_Round b c d e f g h a 0xab1c5ed5 w7;
      w8 = ReadBE32 (drop 32 blk);
      (d, h) = sha256_Round a b c d e f g h 0xd807aa98 w8;
      w9 = ReadBE32 (drop 36 blk);
      (c, g) = sha256_Round h a b c d e f g 0x12835b01 w9;
      w10 = ReadBE32 (drop 40 blk);
      (b, f) = sha256_Round g h a b c d e f 0x243185be w10;
      w11 = ReadBE32 (drop 44 blk);
      (a, e) = sha256_Round f g h a b c d e 0x550c7dc3 w11;
      w12 = ReadBE32 (drop 48 blk);
      (h, d) = sha256_Round e f g h a b c d 0x72be5d74 w12;
      w13 = ReadBE32 (drop 52 blk);
      (g, c) = sha256_Round d e f g h a b c 0x80deb1fe w13;
      w14 = ReadBE32 (drop 56 blk);
      (f, b) = sha256_Round c d e f g h a b 0x9bdc06a7 w14;
      w15 = ReadBE32 (drop 60 blk);
      (e, a) = sha256_Round b c d e f g h a 0xc19bf174 w15
    in ((a, b, c, d, e, f, g, h), [w0, w1, w2, w3, w4, w5, w6, w7, w8, w9, w10, w11, w12, w13, w14, w15]))"

definition sha256_rounds :: "u32 list \<Rightarrow> sha256_regs \<times> u32 list \<Rightarrow> sha256_regs \<times> u32 list" where
  "sha256_rounds ks = (\<lambda>((a, b, c, d, e, f, g, h), w).
    let
      w0 = w ! 0; w1 = w ! 1; w2 = w ! 2; w3 = w ! 3; w4 = w ! 4; w5 = w ! 5; w6 = w ! 6; w7 = w ! 7;
      w8 = w ! 8; w9 = w ! 9; w10 = w ! 10; w11 = w ! 11; w12 = w ! 12; w13 = w ! 13; w14 = w ! 14; w15 = w ! 15;
      w0 = w0 + (sha256_sigma1 w14 + w9 + sha256_sigma0 w1);
      (d, h) = sha256_Round a b c d e f g h (ks ! 0) w0;
      w1 = w1 + (sha256_sigma1 w15 + w10 + sha256_sigma0 w2);
      (c, g) = sha256_Round h a b c d e f g (ks ! 1) w1;
      w2 = w2 + (sha256_sigma1 w0 + w11 + sha256_sigma0 w3);
      (b, f) = sha256_Round g h a b c d e f (ks ! 2) w2;
      w3 = w3 + (sha256_sigma1 w1 + w12 + sha256_sigma0 w4);
      (a, e) = sha256_Round f g h a b c d e (ks ! 3) w3;
      w4 = w4 + (sha256_sigma1 w2 + w13 + sha256_sigma0 w5);
      (h, d) = sha256_Round e f g h a b c d (ks ! 4) w4;
      w5 = w5 + (sha256_sigma1 w3 + w14 + sha256_sigma0 w6);
      (g, c) = sha256_Round d e f g h a b c (ks ! 5) w5;
      w6 = w6 + (sha256_sigma1 w4 + w15 + sha256_sigma0 w7);
      (f, b) = sha256_Round c d e f g h a b (ks ! 6) w6;
      w7 = w7 + (sha256_sigma1 w5 + w0 + sha256_sigma0 w8);
      (e, a) = sha256_Round b c d e f g h a (ks ! 7) w7;
      w8 = w8 + (sha256_sigma1 w6 + w1 + sha256_sigma0 w9);
      (d, h) = sha256_Round a b c d e f g h (ks ! 8) w8;
      w9 = w9 + (sha256_sigma1 w7 + w2 + sha256_sigma0 w10);
      (c, g) = sha256_Round h a b c d e f g (ks ! 9) w9;
      w10 = w10 + (sha256_sigma1 w8 + w3 + sha256_sigma0 w11);
      (b, f) = sha256_Round g h a b c d e f (ks ! 10) w10;
      w11 = w11 + (sha256_sigma1 w9 + w4 + sha256_sigma0 w12);
      (a, e) = sha256_Round f g h a b c d e (ks ! 11) w11;
      w12 = w12 + (sha256_sigma1 w10 + w5 + sha256_sigma0 w13);
      (h, d) = sha256_Round e f g h a b c d (ks ! 12) w12;
      w13 = w13 + (sha256_sigma1 w11 + w6 + sha256_sigma0 w14);
      (g, c) = sha256_Round d e f g h a b c (ks ! 13) w13;
      w14 = w14 + (sha256_sigma1 w12 + w7 + sha256_sigma0 w15);
      (f, b) = sha256_Round c d e f g h a b (ks ! 14) w14;
      w15 = w15 + (sha256_sigma1 w13 + w8 + sha256_sigma0 w0);
      (e, a) = sha256_Round b c d e f g h a (ks ! 15) w15
    in ((a, b, c, d, e, f, g, h), [w0, w1, w2, w3, w4, w5, w6, w7, w8, w9, w10, w11, w12, w13, w14, w15]))"

definition sha256_block :: "u32 list \<Rightarrow> bytes \<Rightarrow> u32 list" where
  "sha256_block s blk =
    (let st = sha256_rounds_0 blk (s ! 0, s ! 1, s ! 2, s ! 3, s ! 4, s ! 5, s ! 6, s ! 7);
         st = sha256_rounds (take 16 (drop 16 sha256_K)) st;
         st = sha256_rounds (take 16 (drop 32 sha256_K)) st;
         ((a, b, c, d, e, f, g, h), _) = sha256_rounds (take 16 (drop 48 sha256_K)) st
     in [s ! 0 + a, s ! 1 + b, s ! 2 + c, s ! 3 + d, s ! 4 + e, s ! 5 + f, s ! 6 + g, s ! 7 + h])"

primrec sha256_Transform :: "u32 list \<Rightarrow> bytes \<Rightarrow> nat \<Rightarrow> u32 list" where
  "sha256_Transform s blk 0 = s"
| "sha256_Transform s blk (Suc blocks) = sha256_Transform (sha256_block s blk) (drop 64 blk) blocks"

section \<open>The hasher\<close>

record CSHA256 =
  sha_s :: "u32 list"
  sha_buf :: bytes
  sha_bytes :: u64

text \<open>The constructor leaves the buffer as it is in memory.\<close>

definition CSHA256_new :: "bytes \<Rightarrow> CSHA256" where
  "CSHA256_new buf = \<lparr>sha_s = sha256_Initialize, sha_buf = buf, sha_bytes = 0\<rparr>"

definition CSHA256_Write :: "CSHA256 \<Rightarrow> bytes \<Rightarrow> CSHA256" where
  "CSHA256_Write sha data =
    (let bufsize = unat (sha_bytes sha) mod 64;
         (sha, data, bufsize) =
           (if bufsize \<noteq> 0 \<and> bufsize + length data \<ge> 64 then
              (let buf = memcpy (sha_buf sha) bufsize (take (64 - bufsize) data)
               in (sha\<lparr>sha_buf := buf, sha_bytes := sha_bytes sha + of_nat (64 - bufsize),
                       sha_s := sha256_Transform (sha_s sha) buf 1\<rparr>, drop (64 - bufsize) data, 0))
            else (sha, data, bufsize));
         (sha, data) =
           (if length data \<ge> 64 then
              (let blocks = length data div 64
               in (sha\<lparr>sha_s := sha256_Transform (sha_s sha) data blocks,
                       sha_bytes := sha_bytes sha + of_nat (64 * blocks)\<rparr>, drop (64 * blocks) data))
            else (sha, data))
     in if length data > 0 then
          sha\<lparr>sha_buf := memcpy (sha_buf sha) bufsize data, sha_bytes := sha_bytes sha + of_nat (length data)\<rparr>
        else sha)"

definition CSHA256_Finalize :: "CSHA256 \<Rightarrow> CSHA256 \<times> bytes" where
  "CSHA256_Finalize sha =
    (let pad = 0x80 # replicate 63 0;
         sizedesc = WriteBE64 (push_bit 3 (sha_bytes sha));
         sha = CSHA256_Write sha (take (1 + (119 - unat (sha_bytes sha) mod 64) mod 64) pad);
         sha = CSHA256_Write sha sizedesc
     in (sha, concat (map (\<lambda>i. WriteBE32 (sha_s sha ! i)) [0..<8])))"

definition CSHA256_Reset :: "CSHA256 \<Rightarrow> CSHA256" where
  "CSHA256_Reset sha = sha\<lparr>sha_bytes := 0, sha_s := sha256_Initialize\<rparr>"

text \<open>\<^verbatim>\<open>CHash256\<close> wraps one hasher.\<close>

definition CHash256_Write :: "CSHA256 \<Rightarrow> bytes \<Rightarrow> CSHA256" where
  "CHash256_Write sha data = CSHA256_Write sha data"

definition CHash256_Reset :: "CSHA256 \<Rightarrow> CSHA256" where
  "CHash256_Reset sha = CSHA256_Reset sha"

definition CHash256_Finalize :: "CSHA256 \<Rightarrow> CSHA256 \<times> bytes" where
  "CHash256_Finalize sha =
    (let (sha, buf) = CSHA256_Finalize sha
     in CSHA256_Finalize (CSHA256_Write (CSHA256_Reset sha) buf))"

section \<open>FIPS 180-4\<close>

definition fips_rotr :: "nat \<Rightarrow> u32 \<Rightarrow> u32" where
  "fips_rotr n x = word_rotr n x"

definition fips_round :: "u32 \<Rightarrow> u32 \<Rightarrow> sha256_regs \<Rightarrow> sha256_regs" where
  "fips_round k w = (\<lambda>(a, b, c, d, e, f, g, h).
    let T1 = h + (fips_rotr 6 e XOR fips_rotr 11 e XOR fips_rotr 25 e) + ((e AND f) XOR (NOT e AND g)) + k + w;
        T2 = (fips_rotr 2 a XOR fips_rotr 13 a XOR fips_rotr 22 a) + ((a AND b) XOR (a AND c) XOR (b AND c))
    in (T1 + T2, a, b, c, d + T1, e, f, g))"

fun fips_W :: "(nat \<Rightarrow> u32) \<Rightarrow> nat \<Rightarrow> u32" where
  "fips_W M t =
    (if t < 16 then M t
     else (fips_rotr 17 (fips_W M (t - 2)) XOR fips_rotr 19 (fips_W M (t - 2)) XOR drop_bit 10 (fips_W M (t - 2)))
       + fips_W M (t - 7)
       + (fips_rotr 7 (fips_W M (t - 15)) XOR fips_rotr 18 (fips_W M (t - 15)) XOR drop_bit 3 (fips_W M (t - 15)))
       + fips_W M (t - 16))"

declare fips_W.simps [simp del]

definition fips_compress :: "bytes \<Rightarrow> u32 list \<Rightarrow> u32 list" where
  "fips_compress blk H =
    (let M = (\<lambda>t. be_word (take 4 (drop (4 * t) blk)));
         (a, b, c, d, e, f, g, h) =
           fold (\<lambda>t. fips_round (sha256_K ! t) (fips_W M t)) [0..<64] (H ! 0, H ! 1, H ! 2, H ! 3, H ! 4, H ! 5, H ! 6, H ! 7)
     in [a + H ! 0, b + H ! 1, c + H ! 2, d + H ! 3, e + H ! 4, f + H ! 5, g + H ! 6, h + H ! 7])"

text \<open>One bit, then zeros up to eight bytes below a multiple of 64, then the length in bits.\<close>

definition fips_pad :: "bytes \<Rightarrow> bytes" where
  "fips_pad m = m @ 0x80 # replicate ((119 - length m mod 64) mod 64) 0 @ be_bytes 8 (of_nat (8 * length m) :: u64)"

definition fips_sha256 :: "bytes \<Rightarrow> bytes" where
  "fips_sha256 m = concat (map (be_bytes 4) (absorb_blocks 64 fips_compress (fips_pad m) sha256_Initialize))"

section \<open>The logical functions are those of the standard\<close>

lemma rotr32: "0 < n \<Longrightarrow> n < 32 \<Longrightarrow> drop_bit n x OR push_bit (32 - n) x = fips_rotr n (x :: u32)"
  using SPH_ROTR_conv(1) [of n x] by (simp add: SPH_ROTR32_def SPH_ROTL32_def fips_rotr_def or.commute)

lemma sha256_Sigma_fips:
  "sha256_Sigma0 x = fips_rotr 2 x XOR fips_rotr 13 x XOR fips_rotr 22 x"
  "sha256_Sigma1 x = fips_rotr 6 x XOR fips_rotr 11 x XOR fips_rotr 25 x"
  "sha256_sigma0 x = fips_rotr 7 x XOR fips_rotr 18 x XOR drop_bit 3 x"
  "sha256_sigma1 x = fips_rotr 17 x XOR fips_rotr 19 x XOR drop_bit 10 x"
  by (simp_all add: sha256_Sigma0_def sha256_Sigma1_def sha256_sigma0_def sha256_sigma1_def
      rotr32 [of 2, simplified] rotr32 [of 13, simplified] rotr32 [of 22, simplified]
      rotr32 [of 6, simplified] rotr32 [of 11, simplified] rotr32 [of 25, simplified]
      rotr32 [of 7, simplified] rotr32 [of 18, simplified] rotr32 [of 17, simplified] rotr32 [of 19, simplified])

lemma sha256_Ch_fips: "sha256_Ch x y z = (x AND y) XOR (NOT x AND z)"
  by (rule word_bits_eqI) (auto simp: sha256_Ch_def bit_pointwise)

lemma sha256_Maj_fips: "sha256_Maj x y z = (x AND y) XOR (x AND z) XOR (y AND z)"
  by (rule word_bits_eqI) (auto simp: sha256_Maj_def bit_pointwise)

section \<open>The rounds\<close>

text \<open>
  One round of the code is one round of the standard up to the naming of the registers; the two rules below run
  the straight-line code one assignment at a time.
\<close>

lemma round_eqI:
  assumes "\<And>d' h'. fips_round k w (a, b, c, d, e, f, g, h) = (h', a, b, c, d', e, f, g) \<Longrightarrow> F d' h' = Z"
  shows "(let (d', h') = sha256_Round a b c d e f g h k w in F d' h') = Z"
  using assms
  by (simp add: sha256_Round_def fips_round_def Let_def sha256_Sigma_fips sha256_Ch_fips sha256_Maj_fips)

lemma let_eqI: "a = b \<Longrightarrow> F b = Z \<Longrightarrow> Let a F = Z"
  by simp

lemma nth16:
  "[a0, a1, a2, a3, a4, a5, a6, a7, a8, a9, a10, a11, a12, a13, a14, a15] ! 0 = a0"
  "[a0, a1, a2, a3, a4, a5, a6, a7, a8, a9, a10, a11, a12, a13, a14, a15] ! 1 = a1"
  "[a0, a1, a2, a3, a4, a5, a6, a7, a8, a9, a10, a11, a12, a13, a14, a15] ! 2 = a2"
  "[a0, a1, a2, a3, a4, a5, a6, a7, a8, a9, a10, a11, a12, a13, a14, a15] ! 3 = a3"
  "[a0, a1, a2, a3, a4, a5, a6, a7, a8, a9, a10, a11, a12, a13, a14, a15] ! 4 = a4"
  "[a0, a1, a2, a3, a4, a5, a6, a7, a8, a9, a10, a11, a12, a13, a14, a15] ! 5 = a5"
  "[a0, a1, a2, a3, a4, a5, a6, a7, a8, a9, a10, a11, a12, a13, a14, a15] ! 6 = a6"
  "[a0, a1, a2, a3, a4, a5, a6, a7, a8, a9, a10, a11, a12, a13, a14, a15] ! 7 = a7"
  "[a0, a1, a2, a3, a4, a5, a6, a7, a8, a9, a10, a11, a12, a13, a14, a15] ! 8 = a8"
  "[a0, a1, a2, a3, a4, a5, a6, a7, a8, a9, a10, a11, a12, a13, a14, a15] ! 9 = a9"
  "[a0, a1, a2, a3, a4, a5, a6, a7, a8, a9, a10, a11, a12, a13, a14, a15] ! 10 = a10"
  "[a0, a1, a2, a3, a4, a5, a6, a7, a8, a9, a10, a11, a12, a13, a14, a15] ! 11 = a11"
  "[a0, a1, a2, a3, a4, a5, a6, a7, a8, a9, a10, a11, a12, a13, a14, a15] ! 12 = a12"
  "[a0, a1, a2, a3, a4, a5, a6, a7, a8, a9, a10, a11, a12, a13, a14, a15] ! 13 = a13"
  "[a0, a1, a2, a3, a4, a5, a6, a7, a8, a9, a10, a11, a12, a13, a14, a15] ! 14 = a14"
  "[a0, a1, a2, a3, a4, a5, a6, a7, a8, a9, a10, a11, a12, a13, a14, a15] ! 15 = a15"
  by simp_all

lemma upt16: "[0..<16] = [0, 1, 2, 3, 4, 5, 6, 7, 8, 9, 10, 11, 12, 13, 14, 15 :: nat]"
  by (simp add: upt_rec)

lemma upt16_32: "[16..<32] = [16, 17, 18, 19, 20, 21, 22, 23, 24, 25, 26, 27, 28, 29, 30, 31 :: nat]"
  by (simp add: upt_rec)

lemma fold16:
  "fold F [0..<16] x = F 15 (F 14 (F 13 (F 12 (F 11 (F 10 (F 9 (F 8 (F 7 (F 6 (F 5 (F 4 (F 3 (F 2 (F 1 (F (0::nat) x)))))))))))))))"
  by (simp add: upt16)

lemma sha256_rounds_run:
  assumes g: "\<And>i. i < 16 \<Longrightarrow> g (i + 16) = g i + (sha256_sigma1 (g (i + 14)) + g (i + 9) + sha256_sigma0 (g (i + 1)))"
  shows "sha256_rounds ks (st, map g [0..<16]) =
    (fold (\<lambda>i. fips_round (ks ! i) (g (i + 16))) [0..<16] st, map g [16..<32])"
proof -
  obtain a b c d e f' g' h where st: "st = (a, b, c, d, e, f', g', h)" by (metis surj_pair)
  note One_nat_def [simp del]
  note r =
    g [of 0, simplified, symmetric] g [of 1, simplified, symmetric] g [of 2, simplified, symmetric]
    g [of 3, simplified, symmetric] g [of 4, simplified, symmetric] g [of 5, simplified, symmetric]
    g [of 6, simplified, symmetric] g [of 7, simplified, symmetric] g [of 8, simplified, symmetric]
    g [of 9, simplified, symmetric] g [of 10, simplified, symmetric] g [of 11, simplified, symmetric]
    g [of 12, simplified, symmetric] g [of 13, simplified, symmetric] g [of 14, simplified, symmetric]
    g [of 15, simplified, symmetric]
  show ?thesis
    unfolding st fold16 upt16 upt16_32 list.map sha256_rounds_def prod.case
    by (((rule let_eqI, rule nth16 r) | rule round_eqI)+, simp)
qed

definition block_word :: "bytes \<Rightarrow> nat \<Rightarrow> u32" where
  "block_word blk t = be_word (take 4 (drop (4 * t) blk))"

lemma sha256_rounds_0_run:
  "sha256_rounds_0 blk st =
    (fold (\<lambda>i. fips_round (sha256_K ! i) (block_word blk i)) [0..<16] st, map (block_word blk) [0..<16])"
proof -
  obtain a b c d e f g h where st: "st = (a, b, c, d, e, f, g, h)" by (metis surj_pair)
  have K: "sha256_K ! 0 = 0x428a2f98" "sha256_K ! 1 = 0x71374491" "sha256_K ! 2 = 0xb5c0fbcf"
    "sha256_K ! 3 = 0xe9b5dba5" "sha256_K ! 4 = 0x3956c25b" "sha256_K ! 5 = 0x59f111f1" "sha256_K ! 6 = 0x923f82a4"
    "sha256_K ! 7 = 0xab1c5ed5" "sha256_K ! 8 = 0xd807aa98" "sha256_K ! 9 = 0x12835b01" "sha256_K ! 10 = 0x243185be"
    "sha256_K ! 11 = 0x550c7dc3" "sha256_K ! 12 = 0x72be5d74" "sha256_K ! 13 = 0x80deb1fe"
    "sha256_K ! 14 = 0x9bdc06a7" "sha256_K ! 15 = 0xc19bf174"
    by (simp_all add: sha256_K_def)
  have r: "ReadBE32 (drop n blk) = block_word blk (n div 4)" if "n mod 4 = 0" for n
    using mult_div_mod_eq [of 4 n] that by (simp add: block_word_def ReadBE32_def)
  note One_nat_def [simp del]
  note rs = r [of 0, simplified] r [of 4, simplified] r [of 8, simplified] r [of 12, simplified] r [of 16, simplified]
    r [of 20, simplified] r [of 24, simplified] r [of 28, simplified] r [of 32, simplified] r [of 36, simplified]
    r [of 40, simplified] r [of 44, simplified] r [of 48, simplified] r [of 52, simplified] r [of 56, simplified]
    r [of 60, simplified]
  show ?thesis
    unfolding st fold16 upt16 list.map sha256_rounds_0_def prod.case drop_0
    by (((rule let_eqI, rule rs) | rule round_eqI)+, simp add: K)
qed

lemma fold_upt_shift: "fold F [n..<n + k] x = fold (\<lambda>i. F (n + i)) [0..<k] x"
  by (induction k) simp_all

lemma fips_W_first: "i < 16 \<Longrightarrow> fips_W M i = M i"
  by (simp add: fips_W.simps)

lemma fips_W_next:
  "fips_W M (n + 16) =
    fips_W M n + (sha256_sigma1 (fips_W M (n + 14)) + fips_W M (n + 9) + sha256_sigma0 (fips_W M (n + 1)))"
  by (subst fips_W.simps) (simp add: sha256_Sigma_fips ac_simps)

lemma sha256_group:
  assumes "n + 32 \<le> 64"
  shows "sha256_rounds (take 16 (drop (n + 16) sha256_K)) (st, map (\<lambda>i. fips_W M (n + i)) [0..<16]) =
    (fold (\<lambda>t. fips_round (sha256_K ! t) (fips_W M t)) [n + 16..<n + 32] st,
     map (\<lambda>i. fips_W M (n + 16 + i)) [0..<16])"
proof -
  have K: "take 16 (drop (n + 16) sha256_K) ! i = sha256_K ! (n + 16 + i)" if "i < 16" for i
    using that assms by (simp add: sha256_K_def)
  have "sha256_rounds (take 16 (drop (n + 16) sha256_K)) (st, map (\<lambda>i. fips_W M (n + i)) [0..<16]) =
    (fold (\<lambda>i. fips_round (take 16 (drop (n + 16) sha256_K) ! i) (fips_W M (n + (i + 16)))) [0..<16] st,
     map (\<lambda>i. fips_W M (n + i)) [16..<32])"
    by (rule sha256_rounds_run) (use fips_W_next [of M "n + _"] in \<open>simp add: ac_simps\<close>)
  also have "map (\<lambda>i. fips_W M (n + i)) [16..<32] = map (\<lambda>i. fips_W M (n + 16 + i)) [0..<16]"
    by (simp add: upt16 upt16_32 ac_simps)
  also have "fold (\<lambda>i. fips_round (take 16 (drop (n + 16) sha256_K) ! i) (fips_W M (n + (i + 16)))) [0..<16] st =
    fold (\<lambda>t. fips_round (sha256_K ! t) (fips_W M t)) [n + 16..<n + 16 + 16] st"
    unfolding fold_upt_shift by (intro fold_cong) (simp_all add: K ac_simps del: nth_take)
  finally show ?thesis by (simp add: ac_simps)
qed

text \<open>The transformation of one block is the compression function of the standard.\<close>

lemma sha256_block_fips: "sha256_block s blk = fips_compress blk s"
proof -
  define M where "M = block_word blk"
  define F where "F = (\<lambda>t. fips_round (sha256_K ! t) (fips_W M t))"
  define st where "st = (s ! 0, s ! 1, s ! 2, s ! 3, s ! 4, s ! 5, s ! 6, s ! 7)"
  have g0: "sha256_rounds_0 blk st = (fold F [0..<16] st, map (\<lambda>i. fips_W M (0 + i)) [0..<16])"
    unfolding sha256_rounds_0_run F_def by (intro arg_cong2 [where f = Pair] fold_cong) (simp_all add: M_def fips_W_first)
  note num = add_0 numeral_plus_numeral add_num_simps Num.numeral_le_iff le_num_simps less_num_simps
  have g1: "sha256_rounds (take 16 (drop 16 sha256_K)) (x, map (\<lambda>i. fips_W M (0 + i)) [0..<16]) =
      (fold F [16..<32] x, map (\<lambda>i. fips_W M (16 + i)) [0..<16])" for x
    unfolding F_def using sha256_group [of 0 x M] by (simp only: num)
  have g2: "sha256_rounds (take 16 (drop 32 sha256_K)) (x, map (\<lambda>i. fips_W M (16 + i)) [0..<16]) =
      (fold F [32..<48] x, map (\<lambda>i. fips_W M (32 + i)) [0..<16])" for x
    unfolding F_def using sha256_group [of 16 x M] by (simp only: num)
  have g3: "sha256_rounds (take 16 (drop 48 sha256_K)) (x, map (\<lambda>i. fips_W M (32 + i)) [0..<16]) =
      (fold F [48..<64] x, map (\<lambda>i. fips_W M (48 + i)) [0..<16])" for x
    unfolding F_def using sha256_group [of 32 x M] by (simp only: num)
  have "[0..<64] = [0..<16] @ [16..<32] @ [32..<48] @ [48..<64 :: nat]"
    by (simp add: upt_rec)
  then have all: "fold F [48..<64] (fold F [32..<48] (fold F [16..<32] (fold F [0..<16] st))) = fold F [0..<64] st"
    by (simp only: fold_append comp_apply)
  have F': "F = (\<lambda>t. fips_round (sha256_K ! t) (fips_W (\<lambda>t. be_word (take 4 (drop (4 * t) blk))) t))"
    by (simp add: F_def M_def block_word_def [abs_def])
  show ?thesis
    unfolding sha256_block_def fips_compress_def Let_def F' [symmetric] st_def [symmetric] g0 g1 g2 g3 all
    by (cases "fold F [0..<64] st" rule: prod_cases7) (auto simp: add.commute split: prod.split)
qed

section \<open>The hasher as a stream\<close>

text \<open>
  The hasher holds the message \<open>m\<close> when its buffer and chaining state represent \<open>m\<close> and the byte counter is the
  length of \<open>m\<close> in its 64 bits.
\<close>

definition sha_holds :: "bytes \<Rightarrow> CSHA256 \<Rightarrow> bool" where
  "sha_holds m sha \<longleftrightarrow>
    represents 64 fips_compress sha256_Initialize m (sha_buf sha, length m mod 64, sha_s sha) \<and>
    sha_bytes sha = of_nat (length m)"

lemma sha_holds_new: "length buf = 64 \<Longrightarrow> sha_holds [] (CSHA256_new buf)"
  by (simp add: sha_holds_def CSHA256_new_def represents_init)

lemma sha_holds_reset: "length (sha_buf sha) = 64 \<Longrightarrow> sha_holds [] (CSHA256_Reset sha)"
  by (simp add: sha_holds_def CSHA256_Reset_def represents_init)

lemma sha_holds_buf: "sha_holds m sha \<Longrightarrow> length (sha_buf sha) = 64"
  by (simp add: sha_holds_def represents_def)

lemma unat_len_mod64: "unat (of_nat n :: u64) mod 64 = n mod 64"
  by (simp add: unat_of_nat mod_mod_cancel)

lemma sha_holds_bufsize: "sha_holds m sha \<Longrightarrow> unat (sha_bytes sha) mod 64 = length m mod 64"
  by (simp add: sha_holds_def unat_len_mod64)

lemma represents_Transform:
  "represents 64 fips_compress st0 m (buf, 0, s) \<Longrightarrow> 64 * blocks \<le> length data \<Longrightarrow>
    represents 64 fips_compress st0 (m @ take (64 * blocks) data) (buf, 0, sha256_Transform s data blocks)"
proof (induction blocks arbitrary: m s data)
  case (Suc blocks)
  have m0: "length m mod 64 = 0" and len: "length (take 64 data) = 64" using Suc.prems by (simp_all add: represents_def)
  have blk: "fips_compress (take 64 data) x = fips_compress data x" for x
  proof -
    have "take 4 (drop (4 * t) (take 64 data)) = take 4 (drop (4 * t) data)" if "t < 16" for t
      using that by (simp add: drop_take)
    then have W: "fips_W (\<lambda>t. be_word (take 4 (drop (4 * t) (take 64 data)))) t =
        fips_W (\<lambda>t. be_word (take 4 (drop (4 * t) data))) t" for t
      by (induction t rule: less_induct) (subst (1 2) fips_W.simps, simp)
    then show ?thesis unfolding fips_compress_def by (simp only: W Let_def)
  qed
  have "represents 64 fips_compress st0 (m @ take 64 data) (buf, 0, fips_compress (take 64 data) s)"
    using absorb_blocks_full(1) [of 64 m "take 64 data" fips_compress st0] absorb_blocks_full(2,3) [of 64 m "take 64 data"]
      Suc.prems m0 len
    by (auto simp: represents_def rest_of_def)
  from Suc.IH [OF this, of "drop 64 data"] show ?case
    using Suc.prems(2) by (simp add: sha256_block_fips blk take_add)
qed simp

text \<open>The part of \<^verbatim>\<open>Write\<close> after the buffer has been filled up.\<close>

lemma sha_holds_tail:
  assumes "sha_holds m sha" and "length m mod 64 = 0 \<or> length m mod 64 + length data < 64"
  shows "sha_holds (m @ data)
    (let (sha, data) =
           (if length data \<ge> 64 then
              (let blocks = length data div 64
               in (sha\<lparr>sha_s := sha256_Transform (sha_s sha) data blocks,
                       sha_bytes := sha_bytes sha + of_nat (64 * blocks)\<rparr>, drop (64 * blocks) data))
            else (sha, data))
     in if length data > 0 then
          sha\<lparr>sha_buf := memcpy (sha_buf sha) (length m mod 64) data, sha_bytes := sha_bytes sha + of_nat (length data)\<rparr>
        else sha)"
proof -
  have tail: "sha_holds (m' @ d)
      (if length d > 0 then
         s'\<lparr>sha_buf := memcpy (sha_buf s') (length m' mod 64) d, sha_bytes := sha_bytes s' + of_nat (length d)\<rparr> else s')"
    if "sha_holds m' s'" and "length m' mod 64 + length d < 64" for m' s' d
    using that represents_append [of 64 fips_compress sha256_Initialize m' "sha_buf s'" "length m' mod 64" "sha_s s'" d]
      absorb_blocks_short(3) [of m' 64 d]
    by (simp add: sha_holds_def)
  show ?thesis
  proof (cases "length data \<ge> 64")
    case True
    define n where "n = 64 * (length data div 64)"
    have m0: "length m mod 64 = 0" using True assms(2) by auto
    have n: "n \<le> length data" "length data - n < 64" by (simp_all add: n_def minus_mult_div_eq_mod)
    have m': "length (m @ take n data) mod 64 = 0" using m0 n by (simp add: n_def mod_add_eq [symmetric])
    have "sha_holds (m @ take n data)
      (sha\<lparr>sha_s := sha256_Transform (sha_s sha) data (length data div 64), sha_bytes := sha_bytes sha + of_nat n\<rparr>)"
      using represents_Transform [of _ m "sha_buf sha" "sha_s sha" "length data div 64" data] assms(1) m0 m' n
      by (simp add: sha_holds_def n_def)
    from tail [OF this, of "drop n data"] True m0 m' n show ?thesis
      unfolding Let_def n_def [symmetric] by (cases "n < length data") simp_all
  next
    case False
    with tail [OF assms(1), of data] assms(2) show ?thesis by auto
  qed
qed

lemma sha_holds_fill:
  assumes "sha_holds m sha" and "k = 64 - length m mod 64" and "k \<le> length data" and "length m mod 64 \<noteq> 0"
    and "buf = memcpy (sha_buf sha) (length m mod 64) (take k data)"
  shows "sha_holds (m @ take k data)
    (sha\<lparr>sha_buf := buf, sha_bytes := sha_bytes sha + of_nat k, sha_s := sha256_Transform (sha_s sha) buf 1\<rparr>)"
    and "length (m @ take k data) mod 64 = 0"
proof -
  have k: "length m mod 64 + k = 64" "length (take k data) = k" using assms(2,3) by (simp_all add: less_imp_le)
  show 0: "length (m @ take k data) mod 64 = 0"
    using absorb_blocks_full(3) [of 64 m "take k data"] k by simp
  show "sha_holds (m @ take k data)
    (sha\<lparr>sha_buf := buf, sha_bytes := sha_bytes sha + of_nat k, sha_s := sha256_Transform (sha_s sha) buf 1\<rparr>)"
    using represents_append [of 64 fips_compress sha256_Initialize m "sha_buf sha" "length m mod 64" "sha_s sha" "take k data"]
      assms(1,5) k 0 assms(3)
    by (simp add: sha_holds_def sha256_block_fips)
qed

text \<open>Every \<^verbatim>\<open>Write\<close> appends its bytes to the message.\<close>

lemma sha_holds_Write:
  assumes "sha_holds m sha"
  shows "sha_holds (m @ data) (CSHA256_Write sha data)"
proof (cases "length m mod 64 \<noteq> 0 \<and> length m mod 64 + length data \<ge> 64")
  case True
  define k where "k = 64 - length m mod 64"
  have k: "k \<le> length data" using True unfolding k_def by arith
  note fill = sha_holds_fill [OF assms k_def k conjunct1 [OF True] refl]
  have "(0::nat) = 0 \<or> 0 + length (drop k data) < 64" by simp
  note tail = sha_holds_tail [OF fill(1), unfolded fill(2), OF this]
  show ?thesis
    unfolding CSHA256_Write_def Let_def sha_holds_bufsize [OF assms] if_P [OF True] k_def [symmetric] prod.case
    using tail unfolding Let_def append_assoc append_take_drop_id .
next
  case False
  then have "length m mod 64 = 0 \<or> length m mod 64 + length data < 64" by arith
  note tail = sha_holds_tail [OF assms this]
  show ?thesis
    unfolding CSHA256_Write_def Let_def sha_holds_bufsize [OF assms] if_not_P [OF False] prod.case
    using tail unfolding Let_def .
qed

lemma sha_holds_run: "sha_holds m sha \<Longrightarrow> sha_holds (m @ concat ds) (fold (\<lambda>d sha. CSHA256_Write sha d) ds sha)"
  by (induction ds arbitrary: m sha) (use sha_holds_Write in force)+

section \<open>The digest\<close>

lemma sha_pad_conv:
  "take (1 + (119 - length m mod 64) mod 64) (0x80 # replicate 63 0) =
    0x80 # replicate ((119 - length m mod 64) mod 64) (0 :: u8)"
proof -
  have "(119 - length m mod 64) mod 64 < (64 :: nat)" by simp
  then show ?thesis by (simp add: min_def)
qed

lemma sha_pad_length: "length (fips_pad m) mod 64 = 0"
proof -
  define r where "r = length m mod 64"
  have "r < 64" by (simp add: r_def)
  then have "(r + (119 - r) mod 64 + 9) mod 64 = 0"
  proof (cases "r \<le> 55")
    case True
    then have "119 - r = 55 - r + 64" by simp
    then have "(119 - r) mod 64 = 55 - r" by (simp only: mod_add_self2) simp
    with True show ?thesis by simp
  qed simp
  moreover have "length (fips_pad m) = length m + ((119 - r) mod 64 + 9)" by (simp add: fips_pad_def r_def)
  ultimately show ?thesis by (metis r_def mod_add_left_eq add.assoc)
qed

lemma CSHA256_Finalize_holds:
  assumes "sha_holds m sha"
  shows "sha_holds (fips_pad m) (fst (CSHA256_Finalize sha))"
    and "snd (CSHA256_Finalize sha) = fips_sha256 m"
proof -
  have size: "WriteBE64 (push_bit 3 (sha_bytes sha)) = be_bytes 8 (of_nat (8 * length m) :: u64)"
    using assms by (simp add: sha_holds_def WriteBE64_def push_bit_eq_mult mult.commute)
  show fst: "sha_holds (fips_pad m) (fst (CSHA256_Finalize sha))"
    unfolding CSHA256_Finalize_def Let_def sha_holds_bufsize [OF assms] sha_pad_conv fst_conv size
    using sha_holds_Write [OF sha_holds_Write [OF assms], of "0x80 # replicate ((119 - length m mod 64) mod 64) 0"]
    by (simp add: fips_pad_def)
  then have s: "sha_s (fst (CSHA256_Finalize sha)) = absorb_blocks 64 fips_compress (fips_pad m) sha256_Initialize"
    by (simp add: sha_holds_def represents_def)
  have "length (fold fips_compress bs st) = 8" if "length st = 8" for bs st
    using that by (induction bs arbitrary: st) (simp_all add: fips_compress_def Let_def split_beta)
  then have "length (absorb_blocks 64 fips_compress x sha256_Initialize) = 8" for x
    by (simp add: absorb_blocks_def sha256_Initialize_def)
  then have "map (\<lambda>i. WriteBE32 (sha_s (fst (CSHA256_Finalize sha)) ! i)) [0..<8] =
      map (be_bytes 4) (sha_s (fst (CSHA256_Finalize sha)))"
    unfolding s by (intro nth_equalityI) (simp_all add: WriteBE32_def)
  then show "snd (CSHA256_Finalize sha) = fips_sha256 m"
    unfolding fips_sha256_def s [symmetric] by (simp add: CSHA256_Finalize_def Let_def)
qed

text \<open>
  C36. Feeding a message to a new \<^verbatim>\<open>CSHA256\<close> in any pieces and finalising it gives the SHA-256 digest of the
  concatenated pieces as FIPS 180-4 defines it, whatever the buffer held at construction.
\<close>

theorem CSHA256_refines_fips:
  assumes "length buf = 64"
  shows "snd (CSHA256_Finalize (fold (\<lambda>d sha. CSHA256_Write sha d) ds (CSHA256_new buf))) = fips_sha256 (concat ds)"
  using CSHA256_Finalize_holds(2) [OF sha_holds_run [OF sha_holds_new [OF assms]]] by simp

theorem CSHA256_refines_fips_witness:
  "snd (CSHA256_Finalize (fold (\<lambda>d sha. CSHA256_Write sha d) [[97, 98], [], [99]] (CSHA256_new (replicate 64 7)))) =
    fips_sha256 [97, 98, 99]"
  using CSHA256_refines_fips [of "replicate 64 7" "[[97, 98], [], [99]]"] by simp

text \<open>
  \<^verbatim>\<open>CHash256\<close> over the same stream gives SHA-256 applied twice: after the first \<^verbatim>\<open>Finalize\<close> the hasher is
  reset and used again without clearing its buffer.
\<close>

theorem CHash256_double:
  assumes "length buf = 64"
  shows "snd (CHash256_Finalize (fold (\<lambda>d sha. CHash256_Write sha d) ds (CSHA256_new buf))) =
    fips_sha256 (fips_sha256 (concat ds))"
proof -
  define sha where "sha = fold (\<lambda>d sha. CSHA256_Write sha d) ds (CSHA256_new buf)"
  have sha: "sha_holds (concat ds) sha" using sha_holds_run [OF sha_holds_new [OF assms]] by (simp add: sha_def)
  note 1 = CSHA256_Finalize_holds [OF sha]
  have "sha_holds (fips_sha256 (concat ds))
      (CSHA256_Write (CSHA256_Reset (fst (CSHA256_Finalize sha))) (snd (CSHA256_Finalize sha)))"
    using sha_holds_Write [OF sha_holds_reset [OF sha_holds_buf [OF 1(1)]]] 1(2) by fastforce
  from CSHA256_Finalize_holds(2) [OF this] show ?thesis
    by (simp add: CHash256_Finalize_def CHash256_Write_def sha_def split_beta)
qed

theorem CHash256_double_witness:
  "snd (CHash256_Finalize (fold (\<lambda>d sha. CHash256_Write sha d) [[1], [2, 3]] (CSHA256_new (replicate 64 0)))) =
    fips_sha256 (fips_sha256 [1, 2, 3])"
  using CHash256_double [of "replicate 64 0" "[[1], [2, 3]]"] by simp

end
