(* ===== verification/Merkle.thy ===== *)
theory Merkle
  imports Sha256
begin

text \<open>
  Merkle roots and branches: \<^verbatim>\<open>src/consensus/merkle.cpp\<close>. The constant-space calculator \<^verbatim>\<open>MerkleComputation\<close> is modelled
  loop by loop, with its 32-bit counter and its array of 32 eagerly computed subtree hashes; a shift by the width
  of the counter, which is undefined in C++ and would index beyond that array, is the result \<open>None\<close>.

  The reference is the textbook tree: each level pairs the hashes of the one below and repeats the last hash when
  their number is odd.
\<close>

section \<open>The calculator\<close>

text \<open>
  \<^verbatim>\<open>CHash256().Write(a, 32).Write(b, 32).Finalize(..)\<close>, which is also \<^verbatim>\<open>Hash(BEGIN(a), END(a), BEGIN(b), END(b))\<close>. The
  buffer of the new hasher is uninitialised memory; the digest does not depend on it.
\<close>

definition Hash_pair :: "bytes \<Rightarrow> bytes \<Rightarrow> bytes" where
  "Hash_pair a b = snd (CHash256_Finalize (CHash256_Write (CHash256_Write (CSHA256_new (replicate 64 0)) a) b))"

definition uint256_zero :: bytes where
  "uint256_zero = replicate 32 0"

text \<open>What the loops do with the branch before they hash: it is present only if the caller asks for it.\<close>

definition push_branch ::
  "bytes list option \<Rightarrow> bool \<Rightarrow> int \<Rightarrow> nat \<Rightarrow> bytes \<Rightarrow> bytes \<Rightarrow> bytes list option \<times> bool" where
  "push_branch pbranch matchh matchlevel level inner_level h =
    (case pbranch of
       None \<Rightarrow> (None, matchh)
     | Some br \<Rightarrow>
         if matchh then (Some (br @ [inner_level]), matchh)
         else if matchlevel = int level then (Some (br @ [h]), True)
         else (Some br, matchh))"

function MerkleComputation_for ::
  "u32 \<Rightarrow> bytes list \<Rightarrow> int \<Rightarrow> nat \<Rightarrow> bytes \<Rightarrow> bool \<Rightarrow> bool \<Rightarrow> bytes list option \<Rightarrow>
    (nat \<times> bytes \<times> bool \<times> bool \<times> bytes list option) option" where
  "MerkleComputation_for count inner matchlevel level h matchh mutated pbranch =
    (if level \<ge> 32 then None
     else if count AND push_bit level 1 = 0 then
       (let (pbranch, matchh) = push_branch pbranch matchh matchlevel level (inner ! level) h;
            mutated = (mutated \<or> inner ! level = h);
            h = Hash_pair (inner ! level) h
        in MerkleComputation_for count inner matchlevel (level + 1) h matchh mutated pbranch)
     else Some (level, h, matchh, mutated, pbranch))"
  by pat_completeness auto
termination by (relation "measure (\<lambda>(count, inner, matchlevel, level, _). 32 - level)") auto

declare MerkleComputation_for.simps [simp del]

fun MerkleComputation_leaves ::
  "u32 \<Rightarrow> u32 \<Rightarrow> bytes list \<Rightarrow> bytes list \<Rightarrow> int \<Rightarrow> bool \<Rightarrow> bytes list option \<Rightarrow>
    (u32 \<times> bytes list \<times> int \<times> bool \<times> bytes list option) option" where
  "MerkleComputation_leaves branchpos count [] inner matchlevel mutated pbranch =
    Some (count, inner, matchlevel, mutated, pbranch)"
| "MerkleComputation_leaves branchpos count (h # leaves) inner matchlevel mutated pbranch =
    (let matchh = (count = branchpos);
         count = count + 1
     in case MerkleComputation_for count inner matchlevel 0 h matchh mutated pbranch of
          None \<Rightarrow> None
        | Some (level, h, matchh, mutated, pbranch) \<Rightarrow>
            MerkleComputation_leaves branchpos count leaves (inner[level := h])
              (if matchh then int level else matchlevel) mutated pbranch)"

function MerkleComputation_skip :: "u32 \<Rightarrow> nat \<Rightarrow> nat option" where
  "MerkleComputation_skip count level =
    (if level \<ge> 32 then None
     else if count AND push_bit level 1 = 0 then MerkleComputation_skip count (level + 1)
     else Some level)"
  by pat_completeness auto
termination by (relation "measure (\<lambda>(count, level). 32 - level)") auto

declare MerkleComputation_skip.simps [simp del]

function MerkleComputation_propagate ::
  "u32 \<Rightarrow> bytes list \<Rightarrow> int \<Rightarrow> nat \<Rightarrow> bytes \<Rightarrow> bool \<Rightarrow> bytes list option \<Rightarrow>
    (nat \<times> bytes \<times> bool \<times> bytes list option) option" where
  "MerkleComputation_propagate count inner matchlevel level h matchh pbranch =
    (if level \<ge> 32 then None
     else if count AND push_bit level 1 = 0 then
       (let (pbranch, matchh) = push_branch pbranch matchh matchlevel level (inner ! level) h;
            h = Hash_pair (inner ! level) h
        in MerkleComputation_propagate count inner matchlevel (level + 1) h matchh pbranch)
     else Some (level, h, matchh, pbranch))"
  by pat_completeness auto
termination by (relation "measure (\<lambda>(count, inner, matchlevel, level, _). 32 - level)") auto

declare MerkleComputation_propagate.simps [simp del]

lemma propagate_level:
  "MerkleComputation_propagate count inner m level h mh pb = Some (level', r) \<Longrightarrow> level \<le> level'"
proof (induction count inner m level h mh pb rule: MerkleComputation_propagate.induct)
  case (1 count inner m level h mh pb)
  obtain pb' mh' where p: "push_branch pb mh m level (inner ! level) h = (pb', mh')" by (metis surj_pair)
  from 1(2) show ?case
    using 1(1) [OF _ _ refl p [symmetric] refl] p
    by (subst (asm) MerkleComputation_propagate.simps) (auto simp: Let_def split: if_splits)
qed

function MerkleComputation_sweep ::
  "u32 \<Rightarrow> bytes list \<Rightarrow> int \<Rightarrow> nat \<Rightarrow> bytes \<Rightarrow> bool \<Rightarrow> bytes list option \<Rightarrow>
    (bytes \<times> bytes list option) option" where
  "MerkleComputation_sweep count inner matchlevel level h matchh pbranch =
    (if level \<ge> 32 then None
     else if count \<noteq> push_bit level 1 then
       (let pbranch = (if matchh then map_option (\<lambda>br. br @ [h]) pbranch else pbranch);
            h = Hash_pair h h;
            count = count + push_bit level 1;
            level = level + 1
        in case MerkleComputation_propagate count inner matchlevel level h matchh pbranch of
             None \<Rightarrow> None
           | Some (level, h, matchh, pbranch) \<Rightarrow> MerkleComputation_sweep count inner matchlevel level h matchh pbranch)
     else Some (h, pbranch))"
  by pat_completeness auto
termination
  by (relation "measure (\<lambda>(count, inner, matchlevel, level, _). 32 - level)") (auto dest: propagate_level)

declare MerkleComputation_sweep.simps [simp del]

text \<open>The root, the mutation flag and the branch; a null pointer only drops the corresponding result.\<close>

definition MerkleComputation ::
  "bytes list \<Rightarrow> u32 \<Rightarrow> bool \<Rightarrow> (bytes \<times> bool \<times> bytes list option) option" where
  "MerkleComputation leaves branchpos want_branch =
    (let pbranch = (if want_branch then Some [] else None)
     in if length leaves = 0 then Some (uint256_zero, False, pbranch)
        else case MerkleComputation_leaves branchpos 0 leaves (replicate 32 uint256_zero) (-1) False pbranch of
          None \<Rightarrow> None
        | Some (count, inner, matchlevel, mutated, pbranch) \<Rightarrow>
            (case MerkleComputation_skip count 0 of
               None \<Rightarrow> None
             | Some level \<Rightarrow>
                 (case MerkleComputation_sweep count inner matchlevel level (inner ! level) (matchlevel = int level) pbranch of
                    None \<Rightarrow> None
                  | Some (h, pbranch) \<Rightarrow> Some (h, mutated, pbranch))))"

definition ComputeMerkleRoot :: "bytes list \<Rightarrow> (bytes \<times> bool) option" where
  "ComputeMerkleRoot leaves = map_option (\<lambda>(h, mutated, _). (h, mutated)) (MerkleComputation leaves (-1) False)"

definition ComputeMerkleBranch :: "bytes list \<Rightarrow> u32 \<Rightarrow> bytes list option" where
  "ComputeMerkleBranch leaves position = Option.bind (MerkleComputation leaves position True) (\<lambda>(_, _, pbranch). pbranch)"

fun ComputeMerkleRootFromBranch :: "bytes \<Rightarrow> bytes list \<Rightarrow> u32 \<Rightarrow> bytes" where
  "ComputeMerkleRootFromBranch hash [] nIndex = hash"
| "ComputeMerkleRootFromBranch hash (it # vMerkleBranch) nIndex =
    ComputeMerkleRootFromBranch (if nIndex AND 1 \<noteq> 0 then Hash_pair it hash else Hash_pair hash it)
      vMerkleBranch (drop_bit 1 nIndex)"

text \<open>
  The wrappers for a block take the hashes of its transactions, \<^verbatim>\<open>GetHash\<close> and \<^verbatim>\<open>GetWitnessHash\<close>. Writing \<^verbatim>\<open>leaves[0]\<close>
  of an empty vector is undefined, \<open>None\<close>.
\<close>

definition BlockMerkleRoot :: "('tx \<Rightarrow> bytes) \<Rightarrow> 'tx list \<Rightarrow> (bytes \<times> bool) option" where
  "BlockMerkleRoot GetHash vtx = ComputeMerkleRoot (map GetHash vtx)"

definition BlockWitnessMerkleRoot :: "('tx \<Rightarrow> bytes) \<Rightarrow> 'tx list \<Rightarrow> (bytes \<times> bool) option" where
  "BlockWitnessMerkleRoot GetWitnessHash vtx =
    (case vtx of [] \<Rightarrow> None | _ # rest \<Rightarrow> ComputeMerkleRoot (uint256_zero # map GetWitnessHash rest))"

definition BlockMerkleBranch :: "('tx \<Rightarrow> bytes) \<Rightarrow> 'tx list \<Rightarrow> u32 \<Rightarrow> bytes list option" where
  "BlockMerkleBranch GetHash vtx position = ComputeMerkleBranch (map GetHash vtx) position"

section \<open>The textbook tree\<close>

fun pair_up :: "bytes list \<Rightarrow> bytes list" where
  "pair_up [] = []"
| "pair_up [x] = [Hash_pair x x]"
| "pair_up (x # y # zs) = Hash_pair x y # pair_up zs"

lemma length_pair_up: "length (pair_up xs) = (length xs + 1) div 2"
  by (induction xs rule: pair_up.induct) auto

function merkle_root :: "bytes list \<Rightarrow> bytes" where
  "merkle_root xs = (if xs = [] then uint256_zero else if length xs = 1 then hd xs else merkle_root (pair_up xs))"
  by pat_completeness auto
termination
proof (relation "measure length")
  fix xs :: "bytes list"
  assume "xs \<noteq> []" and "length xs \<noteq> 1"
  then have "1 < length xs" by (cases xs) auto
  then show "(pair_up xs, xs) \<in> measure length" by (simp add: length_pair_up)
qed simp

declare merkle_root.simps [simp del]

text \<open>The nodes of the tree by level and position.\<close>

definition tree_width :: "nat \<Rightarrow> nat \<Rightarrow> nat" where
  "tree_width n l = (n + 2 ^ l - 1) div 2 ^ l"

primrec tree_node :: "bytes list \<Rightarrow> nat \<Rightarrow> nat \<Rightarrow> bytes" where
  "tree_node xs 0 i = xs ! i"
| "tree_node xs (Suc l) i =
    Hash_pair (tree_node xs l (2 * i))
      (if 2 * i + 1 < tree_width (length xs) l then tree_node xs l (2 * i + 1) else tree_node xs l (2 * i))"

lemma tree_width_0 [simp]: "tree_width n 0 = n"
  by (simp add: tree_width_def)

lemma tree_width_Suc: "tree_width n (Suc l) = (tree_width n l + 1) div 2"
proof -
  have "(1::nat) \<le> 2 ^ l" by simp
  then have "n + 2 ^ Suc l - 1 = n + 2 ^ l - 1 + 2 ^ l" by (simp only: power_Suc)
  then have "tree_width n (Suc l) = (n + 2 ^ l - 1 + 2 ^ l) div 2 ^ l div 2"
    unfolding div_mult2_eq [symmetric] by (simp only: tree_width_def power_Suc2)
  then show ?thesis unfolding tree_width_def by (simp only: div_add_self2 power_not_zero zero_neq_numeral [symmetric] not_False_eq_True)
qed

lemma tree_width_pos: "0 < n \<Longrightarrow> 0 < tree_width n l"
  by (induction l) (simp_all add: tree_width_Suc)

lemma pair_up_nth:
  "i < length (pair_up xs) \<Longrightarrow>
    pair_up xs ! i = Hash_pair (xs ! (2 * i)) (if 2 * i + 1 < length xs then xs ! (2 * i + 1) else xs ! (2 * i))"
  by (induction xs arbitrary: i rule: pair_up.induct) (auto simp: nth_Cons' less_Suc_eq_0_disj split: nat.split)

lemma pair_up_levels: "(pair_up ^^ l) xs = map (tree_node xs l) [0..<tree_width (length xs) l]"
proof (induction l)
  case 0
  show ?case by (simp add: map_nth)
next
  case (Suc l)
  let ?ys = "map (tree_node xs l) [0..<tree_width (length xs) l]"
  have "(pair_up ^^ Suc l) xs = pair_up ?ys" using Suc by simp
  also have "\<dots> = map (tree_node xs (Suc l)) [0..<tree_width (length xs) (Suc l)]"
    by (rule nth_equalityI) (auto simp: length_pair_up tree_width_Suc pair_up_nth)
  finally show ?case .
qed

lemma merkle_root_levels:
  "(\<forall>j<l. 1 < length ((pair_up ^^ j) xs)) \<Longrightarrow> merkle_root xs = merkle_root ((pair_up ^^ l) xs)"
proof (induction l)
  case (Suc l)
  then have "1 < length ((pair_up ^^ l) xs)" by blast
  then have "merkle_root ((pair_up ^^ l) xs) = merkle_root ((pair_up ^^ Suc l) xs)"
    by (subst merkle_root.simps) auto
  with Suc show ?case by simp
qed simp

text \<open>The root is the only node of the lowest level of width one.\<close>

lemma merkle_root_node:
  assumes "tree_width (length xs) L = 1" and "\<And>j. j < L \<Longrightarrow> 1 < tree_width (length xs) j"
  shows "merkle_root xs = tree_node xs L 0"
  using merkle_root_levels [of L xs] assms by (simp add: pair_up_levels merkle_root.simps)

section \<open>The first loop\<close>

lemma bit_test: "(count AND push_bit level 1 = 0) \<longleftrightarrow> even (unat (count :: u32) div 2 ^ level)" if "level < 32"
proof -
  have "(count AND push_bit level 1 = 0) \<longleftrightarrow> \<not> bit count level"
    using that by (simp add: and_exp_eq_0_iff_not_bit push_bit_eq_mult)
  also have "\<not> bit count level \<longleftrightarrow> even (unat count div 2 ^ level)"
    using bit_iff_odd [of "unat count" level] bit_unsigned_iff [of count level, where ?'a = nat] by simp
  finally show ?thesis .
qed

text \<open>The sibling that the branch of position \<open>p\<close> has at a level.\<close>

definition sibling :: "bytes list \<Rightarrow> nat \<Rightarrow> nat \<Rightarrow> bytes" where
  "sibling xs p l =
    (let i = p div 2 ^ l
     in tree_node xs l (if odd i then i - 1 else if i + 1 < tree_width (length xs) l then i + 1 else i))"

text \<open>After \<open>c\<close> leaves the entry of level \<open>l\<close> is the last complete subtree of that level, if it has no sibling yet.\<close>

definition inner_ok :: "bytes list \<Rightarrow> nat \<Rightarrow> bytes list \<Rightarrow> bool" where
  "inner_ok xs c inner \<longleftrightarrow>
    length inner = 32 \<and> (\<forall>l<32. odd (c div 2 ^ l) \<longrightarrow> inner ! l = tree_node xs l (c div 2 ^ l - 1))"

text \<open>
  The branch so far: the path from position \<open>p\<close> is being followed with the current hash at position \<open>i\<close> of
  level \<open>l\<close>, or it waits in the entry of level \<open>matchlevel\<close>, at \<open>l\<close> or above, or has not been met.
\<close>

definition following :: "bytes list \<Rightarrow> nat \<Rightarrow> nat \<Rightarrow> nat \<Rightarrow> bytes list \<Rightarrow> bool" where
  "following xs p l i br \<longleftrightarrow> p div 2 ^ l = i \<and> br = map (sibling xs p) [0..<l]"

definition waiting :: "bytes list \<Rightarrow> nat \<Rightarrow> nat \<Rightarrow> nat \<Rightarrow> int \<Rightarrow> bytes list \<Rightarrow> bool" where
  "waiting xs p c l m br \<longleftrightarrow>
    (if c \<le> p then m = -1 \<and> br = []
     else \<exists>k\<ge>l. m = int k \<and> odd (c div 2 ^ k) \<and> p div 2 ^ k = c div 2 ^ k - 1 \<and> br = map (sibling xs p) [0..<k])"

definition tracked :: "bytes list \<Rightarrow> nat \<Rightarrow> nat \<Rightarrow> nat \<Rightarrow> nat \<Rightarrow> int \<Rightarrow> bool \<Rightarrow> bytes list option \<Rightarrow> bool" where
  "tracked xs p c l i m matchh pb \<longleftrightarrow>
    (case pb of None \<Rightarrow> True | Some br \<Rightarrow> if matchh then following xs p l i br else waiting xs p c l m br)"

text \<open>Equal complete siblings among the first \<open>c\<close> leaves.\<close>

definition equal_siblings :: "bytes list \<Rightarrow> nat \<Rightarrow> bool" where
  "equal_siblings xs c \<longleftrightarrow> (\<exists>l i. (2 * i + 2) * 2 ^ l \<le> c \<and> tree_node xs l (2 * i) = tree_node xs l (2 * i + 1))"

lemma tree_node_pair:
  assumes "i + 1 < tree_width (length xs) l" and "even i"
  shows "tree_node xs (Suc l) (i div 2) = Hash_pair (tree_node xs l i) (tree_node xs l (i + 1))"
  using assms by (auto elim!: evenE)

lemma width_above: "(i + 1) * 2 ^ l \<le> n \<Longrightarrow> i < tree_width n l"
proof -
  assume a: "(i + 1) * 2 ^ l \<le> n"
  have "(1::nat) \<le> 2 ^ l" by simp
  then have "(i + 1) * 2 ^ l \<le> n + 2 ^ l - 1" using a by linarith
  then show ?thesis unfolding tree_width_def by (simp add: less_eq_div_iff_mult_less_eq flip: Suc_le_eq)
qed

lemma push_tracked:
  assumes track: "tracked xs p c l i m matchh pb"
    and odd: "odd i" and c: "c div 2 ^ l = i" and i: "i < tree_width (length xs) l"
    and push: "push_branch pb matchh m l (tree_node xs l (i - 1)) (tree_node xs l i) = (pb', matchh')"
  shows "tracked xs p c (Suc l) (i div 2) m matchh' pb'"
proof (cases pb)
  case (Some br)
  have sib: "sibling xs p l = (if p div 2 ^ l = i then tree_node xs l (i - 1) else tree_node xs l i)"
    if "p div 2 ^ l = i \<or> p div 2 ^ l = i - 1"
  proof -
    from odd obtain b where b: "i = 2 * b + 1" by (rule oddE)
    show ?thesis
    proof (cases "p div 2 ^ l = i")
      case True
      with b show ?thesis by (simp add: sibling_def)
    next
      case False
      with that b have "p div 2 ^ l = 2 * b" by simp
      with b i show ?thesis by (simp add: sibling_def)
    qed
  qed
  have half: "p div 2 ^ Suc l = i div 2" if "p div 2 ^ l = i \<or> p div 2 ^ l = i - 1"
  proof -
    have "p div 2 ^ Suc l = p div 2 ^ l div 2" by (simp only: power_Suc2 div_mult2_eq)
    with that odd show ?thesis by (auto elim!: oddE)
  qed
  show ?thesis
  proof (cases matchh)
    case True
    with track push Some sib half show ?thesis
      by (auto simp: tracked_def following_def push_branch_def split: if_splits)
  next
    case False
    show ?thesis
    proof (cases "c \<le> p")
      case True
      with track push Some \<open>\<not> matchh\<close> show ?thesis
        by (auto simp: tracked_def waiting_def push_branch_def split: if_splits)
    next
      case pc: False
      then obtain k where k: "l \<le> k" "m = int k" "odd (c div 2 ^ k)" "p div 2 ^ k = c div 2 ^ k - 1"
          "br = map (sibling xs p) [0..<k]"
        using track Some \<open>\<not> matchh\<close> by (auto simp: tracked_def waiting_def)
      show ?thesis
      proof (cases "k = l")
        case True
        then have "p div 2 ^ l = i - 1" "i - 1 \<noteq> i" using k c odd by (auto elim: oddE)
        with True k Some push \<open>\<not> matchh\<close> sib half show ?thesis
          by (auto simp: tracked_def following_def push_branch_def split: if_splits)
      next
        case False
        with k Some push \<open>\<not> matchh\<close> pc show ?thesis
          by (auto simp: tracked_def waiting_def push_branch_def intro!: exI [of _ k] split: if_splits)
      qed
    qed
  qed
qed (use push in \<open>auto simp: tracked_def push_branch_def\<close>)

text \<open>The number of leaves that the loop at level \<open>l\<close> has merged into the current hash: \<open>c + 1 = q * 2 ^ l\<close>.\<close>

lemma full_div:
  assumes "Suc c = q * 2 ^ l"
  shows "c div 2 ^ l = q - 1" and "0 < q" and "Suc c div 2 ^ l = q"
proof -
  show q: "0 < q" using assms by (cases q) auto
  show "Suc c div 2 ^ l = q" by (simp add: assms)
  obtain r where r: "q = Suc r" using q by (cases q) auto
  have "(1::nat) \<le> 2 ^ l" by simp
  moreover have "Suc c = 2 ^ l * r + 2 ^ l" using assms unfolding r by simp
  ultimately have "2 ^ l * r \<le> c" and "c < 2 ^ l * Suc r" unfolding mult_Suc_right by linarith+
  then show "c div 2 ^ l = q - 1" using div_nat_eqI [of "2 ^ l" r c] by (simp add: r)
qed

lemma div_above:
  assumes "Suc c = q * 2 ^ l" and "odd q" and "l < k"
  shows "Suc c div 2 ^ k = c div 2 ^ k"
proof -
  obtain d where k: "k = l + Suc d" using assms(3) less_imp_Suc_add [of l k] by auto
  have *: "x div 2 ^ k = x div 2 ^ l div 2 div 2 ^ d" for x :: nat
    unfolding k by (simp only: power_add power_Suc div_mult2_eq)
  show ?thesis using assms(2) unfolding * full_div [OF assms(1)] by (auto elim!: oddE)
qed

lemma equal_siblings_Suc:
  assumes "Suc c = q * 2 ^ L" and "odd q"
  shows "equal_siblings xs (Suc c) \<longleftrightarrow>
    equal_siblings xs c \<or> (\<exists>l<L. tree_node xs l (Suc c div 2 ^ l - 2) = tree_node xs l (Suc c div 2 ^ l - 1))"
  (is "?lhs \<longleftrightarrow> _ \<or> ?new")
proof
  assume ?lhs
  then obtain l i where li: "(2 * i + 2) * 2 ^ l \<le> Suc c" "tree_node xs l (2 * i) = tree_node xs l (2 * i + 1)"
    by (auto simp: equal_siblings_def)
  show "equal_siblings xs c \<or> ?new"
  proof (cases "(2 * i + 2) * 2 ^ l = Suc c")
    case True
    have "l < L"
    proof (rule ccontr)
      assume "\<not> l < L"
      then obtain d where "l = L + d" using le_Suc_ex [of L l] by auto
      then have "q * 2 ^ L = (2 * i + 2) * 2 ^ d * 2 ^ L" using True assms(1) by (simp only: power_add ac_simps)
      then have "q = (2 * i + 2) * 2 ^ d" by simp
      with assms(2) show False by simp
    qed
    moreover have "Suc c div 2 ^ l = 2 * i + 2" by (simp flip: True)
    ultimately show ?thesis using li(2) by auto
  next
    case False
    then have "(2 * i + 2) * 2 ^ l \<le> c" using li(1) by simp
    with li(2) show ?thesis unfolding equal_siblings_def by blast
  qed
next
  assume r: "equal_siblings xs c \<or> ?new"
  show ?lhs
  proof (cases "equal_siblings xs c")
    case True
    then show ?thesis unfolding equal_siblings_def using le_Suc_eq by blast
  next
    case False
    then obtain l where l: "l < L" "tree_node xs l (Suc c div 2 ^ l - 2) = tree_node xs l (Suc c div 2 ^ l - 1)"
      using r by blast
    from l(1) obtain d where "L = l + Suc d" using less_imp_Suc_add [of l L] by auto
    then have c: "Suc c = (2 * (q * 2 ^ d)) * 2 ^ l" using assms(1) by (simp add: power_add)
    obtain i where i: "q * 2 ^ d = Suc i" using c by (cases "q * 2 ^ d") auto
    have "Suc c = (2 * i + 2) * 2 ^ l" using c i by simp
    moreover from this have "Suc c div 2 ^ l = 2 * i + 2" by simp
    ultimately show ?thesis
      using l(2) unfolding equal_siblings_def by (intro exI [of _ l] exI [of _ i]) simp
  qed
qed

lemma inner_ok_store:
  assumes "inner_ok xs c inner" and q: "Suc c = q * 2 ^ L" "odd q"
  shows "inner_ok xs (Suc c) (inner[L := tree_node xs L (q - 1)])"
  unfolding inner_ok_def
proof (intro conjI allI impI)
  show "length (inner[L := tree_node xs L (q - 1)]) = 32" using assms(1) by (simp add: inner_ok_def)
  fix l assume l: "l < 32" "odd (Suc c div 2 ^ l)"
  consider "l < L" | "l = L" | "L < l" by linarith
  then show "inner[L := tree_node xs L (q - 1)] ! l = tree_node xs l (Suc c div 2 ^ l - 1)"
  proof cases
    case 1
    then obtain d where "L = l + Suc d" using less_imp_Suc_add [of l L] by auto
    then have "Suc c = (2 * (q * 2 ^ d)) * 2 ^ l" using q(1) by (simp add: power_add)
    then have "Suc c div 2 ^ l = 2 * (q * 2 ^ d)" by (simp only: nonzero_mult_div_cancel_right power_not_zero) simp
    with l(2) show ?thesis by simp
  next
    case 2
    then show ?thesis using assms(1) l(1) full_div(3) [OF q(1)] by (simp add: inner_ok_def)
  next
    case 3
    then show ?thesis using assms(1) l div_above [OF q 3] by (simp add: inner_ok_def)
  qed
qed

lemma tracked_store:
  assumes track: "tracked xs p c L (q - 1) m matchh pb" and q: "Suc c = q * 2 ^ L" "odd q"
    and ne: "\<not> matchh \<Longrightarrow> pb \<noteq> None \<Longrightarrow> c \<noteq> p"
  shows "tracked xs p (Suc c) 0 i (if matchh then int L else m) False pb"
proof (cases pb)
  case (Some br)
  show ?thesis
  proof (cases matchh)
    case True
    then have f: "p div 2 ^ L = q - 1" "br = map (sibling xs p) [0..<L]"
      using track Some by (auto simp: tracked_def following_def)
    have "\<not> Suc c \<le> p"
      using f(1) full_div(2,3) [OF q(1)] div_le_mono [of "Suc c" p "2 ^ L"] by fastforce
    then show ?thesis
      using True Some f q full_div(3) [OF q(1)] by (auto simp: tracked_def waiting_def intro!: exI [of _ L])
  next
    case False
    show ?thesis
    proof (cases "c \<le> p")
      case True
      with ne False Some have "Suc c \<le> p" by auto
      with True track False Some show ?thesis by (auto simp: tracked_def waiting_def)
    next
      case cp: False
      then obtain k where k: "L \<le> k" "m = int k" "odd (c div 2 ^ k)" "p div 2 ^ k = c div 2 ^ k - 1"
          "br = map (sibling xs p) [0..<k]"
        using track Some False by (auto simp: tracked_def waiting_def)
      have "k \<noteq> L" using k(3) q(2) full_div(1,2) [OF q(1)] by auto
      then have "Suc c div 2 ^ k = c div 2 ^ k" using k(1) div_above [OF q] by simp
      with k cp False Some show ?thesis by (auto simp: tracked_def waiting_def intro!: exI [of _ k])
    qed
  qed
qed (simp add: tracked_def)

lemma push_branch_None: "push_branch pb mh m l a b = (pb', mh') \<Longrightarrow> (pb' = None \<longleftrightarrow> pb = None) \<and> (mh \<longrightarrow> mh')"
  by (auto simp: push_branch_def split: option.splits if_splits)

lemma for_loop:
  assumes "unat count = Suc c" and "Suc c \<le> length xs" and "length xs \<le> 2 ^ 31" and "inner_ok xs c inner"
    and "Suc c = q * 2 ^ l" and "h = tree_node xs l (q - 1)" and "tracked xs p c l (q - 1) m matchh pb"
    and "\<not> matchh \<Longrightarrow> pb \<noteq> None \<Longrightarrow> c \<noteq> p"
    and "mut \<longleftrightarrow> equal_siblings xs c \<or>
      (\<exists>l'<l. tree_node xs l' (Suc c div 2 ^ l' - 2) = tree_node xs l' (Suc c div 2 ^ l' - 1))"
  shows "\<exists>L q' matchh' pb'. MerkleComputation_for count inner m l h matchh mut pb =
      Some (L, tree_node xs L (q' - 1), matchh', equal_siblings xs (Suc c), pb') \<and>
    Suc c = q' * 2 ^ L \<and> odd q' \<and> tracked xs p c L (q' - 1) m matchh' pb' \<and>
    (\<not> matchh' \<longrightarrow> pb' \<noteq> None \<longrightarrow> c \<noteq> p) \<and> (pb' = None \<longleftrightarrow> pb = None)"
  using assms
proof (induction "32 - l" arbitrary: l q h matchh mut pb)
  case 0
  have "(2::nat) ^ 32 \<le> 2 ^ l" using 0 by (intro power_increasing) auto
  also have "\<dots> \<le> q * 2 ^ l" using full_div(2) [OF 0(6)] by simp
  finally show ?case using 0 by simp
next
  case (Suc n)
  note count = Suc(3) and c = Suc(4,5) and inner = Suc(6) and q = Suc(7) and h = Suc(8) and track = Suc(9)
    and ne = Suc(10) and mut = Suc(11)
  have l: "l < 32" using Suc(2) by simp
  have test: "count AND push_bit l 1 = 0 \<longleftrightarrow> even q" using bit_test [OF l] count full_div(3) [OF q] by simp
  show ?case
  proof (cases "even q")
    case True
    then obtain r where r: "q = 2 * r" by (rule evenE)
    have q': "Suc c = r * 2 ^ Suc l" using q r by simp
    have r0: "0 < r" using full_div(2) [OF q'] .
    have odd: "odd (q - 1)" "q - 1 - 1 = q - 2" using True full_div(2) [OF q] by auto
    have inn: "inner ! l = tree_node xs l (q - 2)"
      using inner l odd full_div(1) [OF q] unfolding inner_ok_def by metis
    have w: "q - 1 < tree_width (length xs) l"
      using c(1) q full_div(2) [OF q] by (intro width_above) simp
    obtain pb1 mh1 where push: "push_branch pb matchh m l (inner ! l) h = (pb1, mh1)" by (metis surj_pair)
    have half: "(q - 1) div 2 = r - 1" using r r0 by simp
    note step = push_tracked [OF track odd(1) full_div(1) [OF q] w push [unfolded inn h odd(2) [symmetric]], unfolded half]
    have node: "Hash_pair (inner ! l) h = tree_node xs (Suc l) (r - 1)"
      using tree_node_pair [of "q - 2" xs l] w r r0 unfolding inn h
      by (simp add: Suc_diff_Suc numeral_2_eq_2 diff_mult_distrib2)
    have mut1: "mut \<or> inner ! l = h \<longleftrightarrow> equal_siblings xs c \<or>
      (\<exists>l'<Suc l. tree_node xs l' (Suc c div 2 ^ l' - 2) = tree_node xs l' (Suc c div 2 ^ l' - 1))"
      unfolding mut inn h using full_div(3) [OF q] by (auto simp: less_Suc_eq)
    have "\<exists>L q' matchh' pb'. MerkleComputation_for count inner m (Suc l) (Hash_pair (inner ! l) h) mh1 (mut \<or> inner ! l = h) pb1 =
        Some (L, tree_node xs L (q' - 1), matchh', equal_siblings xs (Suc c), pb') \<and>
      Suc c = q' * 2 ^ L \<and> odd q' \<and> tracked xs p c L (q' - 1) m matchh' pb' \<and>
      (\<not> matchh' \<longrightarrow> pb' \<noteq> None \<longrightarrow> c \<noteq> p) \<and> (pb' = None \<longleftrightarrow> pb1 = None)"
      using step push_branch_None [OF push] ne Suc(2)
      by (intro Suc(1) [OF _ count c inner q' node _ _ mut1]) auto
    then show ?thesis
      using l True test push push_branch_None [OF push]
      by (subst MerkleComputation_for.simps) (simp add: Let_def)
  next
    case False
    with mut have "mut = equal_siblings xs (Suc c)" using equal_siblings_Suc [OF q] by simp
    with False show ?thesis
      using l test h q track ne by (subst MerkleComputation_for.simps) auto
  qed
qed

lemma leaves_loop:
  assumes "unat count = c" and "drop c xs = ys" and "c + length ys = length xs" and "length xs \<le> 2 ^ 31"
    and "inner_ok xs c inner" and "tracked xs (unat branchpos) c 0 0 m False pb" and "mut = equal_siblings xs c"
  shows "\<exists>inner' m' pb'. MerkleComputation_leaves branchpos count ys inner m mut pb =
      Some (of_nat (length xs), inner', m', equal_siblings xs (length xs), pb') \<and>
    inner_ok xs (length xs) inner' \<and> tracked xs (unat branchpos) (length xs) 0 0 m' False pb' \<and> (pb' = None \<longleftrightarrow> pb = None)"
  using assms
proof (induction ys arbitrary: count c inner m mut pb)
  case Nil
  moreover have "of_nat (unat count) = count" by simp
  ultimately have "count = of_nat (length xs)" by simp
  with Nil show ?case by auto
next
  case (Cons y ys)
  define p where "p = unat branchpos"
  have c: "Suc c \<le> length xs" using Cons.prems(3) by simp
  have count: "unat (count + 1) = Suc c"
    using Cons.prems(1,4) c by (simp add: unat_word_ariths)
  have y: "y = tree_node xs 0 (Suc c - 1)" using Cons.prems(2) c by (metis nth_via_drop tree_node.simps(1) diff_Suc_1)
  have eq: "count = branchpos \<longleftrightarrow> c = p" using Cons.prems(1) by (auto simp: p_def word_unat_eq_iff)
  have track: "tracked xs p c 0 (Suc c - 1) m (count = branchpos) pb"
    using Cons.prems(6) unfolding eq p_def [symmetric]
    by (auto simp: tracked_def waiting_def following_def split: option.splits)
  have q: "Suc c = Suc c * 2 ^ 0" by simp
  have ne: "c \<noteq> p" if "count \<noteq> branchpos" "pb \<noteq> None" using eq that by simp
  have mut: "mut \<longleftrightarrow> equal_siblings xs c \<or>
      (\<exists>l'<0. tree_node xs l' (Suc c div 2 ^ l' - 2) = tree_node xs l' (Suc c div 2 ^ l' - 1))"
    using Cons.prems(7) by simp
  from for_loop [OF count c Cons.prems(4,5) q y track ne mut]
  obtain L q' mh' pb' where for':
      "MerkleComputation_for (count + 1) inner m 0 y (count = branchpos) mut pb =
        Some (L, tree_node xs L (q' - 1), mh', equal_siblings xs (Suc c), pb')"
      "Suc c = q' * 2 ^ L" "odd q'" "tracked xs p c L (q' - 1) m mh' pb'"
      "\<not> mh' \<longrightarrow> pb' \<noteq> None \<longrightarrow> c \<noteq> p" "pb' = None \<longleftrightarrow> pb = None"
    by blast
  have "drop (Suc c) xs = ys" using Cons.prems(2) by (metis drop_Suc tl_drop list.sel(3))
  with Cons.IH [OF count _ _ Cons.prems(4) inner_ok_store [OF Cons.prems(5) for'(2,3)]
      tracked_store [OF for'(4,2,3), of 0, unfolded p_def] refl] for'(5) Cons.prems(3)
  obtain inner' m'' pb'' where
    "MerkleComputation_leaves branchpos (count + 1) ys (inner[L := tree_node xs L (q' - 1)]) (if mh' then int L else m)
        (equal_siblings xs (Suc c)) pb' = Some (of_nat (length xs), inner', m'', equal_siblings xs (length xs), pb'')"
    "inner_ok xs (length xs) inner'" "tracked xs p (length xs) 0 0 m'' False pb''" "pb'' = None \<longleftrightarrow> pb' = None"
    unfolding p_def by auto
  with for'(1,6) show ?case by (auto simp: Let_def p_def)
qed

section \<open>The sweep\<close>

lemma unat_lt2p32: "unat (x :: u32) < 2 ^ 32"
  using unsigned_less [of x] by simp

lemma skip_loop:
  assumes "0 < unat count" and "2 ^ l dvd unat count"
  shows "\<exists>L. MerkleComputation_skip count l = Some L \<and> l \<le> L \<and> L < 32 \<and> 2 ^ L dvd unat count \<and> odd (unat count div 2 ^ L)"
  using assms(2)
proof (induction "32 - l" arbitrary: l)
  case 0
  have "(2::nat) ^ 32 \<le> 2 ^ l" using 0 by (intro power_increasing) auto
  also have "\<dots> \<le> unat count" using 0 assms(1) by (intro dvd_imp_le)
  finally show ?case using unat_lt2p32 [of count] by simp
next
  case (Suc n)
  then have l: "l < 32" by simp
  show ?case
  proof (cases "even (unat count div 2 ^ l)")
    case True
    then have "2 ^ Suc l dvd unat count" using Suc.prems by (auto simp: dvd_def)
    moreover have "n = 32 - Suc l" using Suc.hyps(2) by simp
    ultimately obtain L where
      "MerkleComputation_skip count (Suc l) = Some L" "Suc l \<le> L" "L < 32" "2 ^ L dvd unat count" "odd (unat count div 2 ^ L)"
      using Suc.hyps(1) [of "Suc l"] by blast
    with True l bit_test [OF l, of count] show ?thesis
      by (subst MerkleComputation_skip.simps) auto
  next
    case False
    with l bit_test [OF l, of count] Suc.prems show ?thesis
      by (subst MerkleComputation_skip.simps) auto
  qed
qed

lemma width_mult: "n \<le> tree_width n l * 2 ^ l"
proof -
  have "n + 2 ^ l - 1 = tree_width n l * 2 ^ l + (n + 2 ^ l - 1) mod 2 ^ l"
    unfolding tree_width_def by (rule div_mult_mod_eq [symmetric])
  moreover have "(n + 2 ^ l - 1) mod 2 ^ l < 2 ^ l" by simp
  ultimately show ?thesis by linarith
qed

lemma width_le: "n \<le> a * 2 ^ l \<Longrightarrow> tree_width n l \<le> a"
proof -
  assume "n \<le> a * 2 ^ l"
  moreover have "(1::nat) \<le> 2 ^ l" by simp
  ultimately have "n + 2 ^ l - 1 < Suc a * 2 ^ l" unfolding mult_Suc by linarith
  then show ?thesis unfolding tree_width_def by (metis less_Suc_eq_le less_mult_imp_div_less)
qed

lemma width_dvd: "2 ^ l dvd n \<Longrightarrow> tree_width n l = n div 2 ^ l"
proof -
  assume "2 ^ l dvd n"
  then obtain q where q: "n = q * 2 ^ l" by (metis dvdE mult.commute)
  have "q * 2 ^ l \<le> tree_width n l * 2 ^ l" using width_mult [of n l] q by simp
  then show ?thesis using width_le [of n q l] q by simp
qed

lemma width_bound: "n \<le> 2 ^ 31 \<Longrightarrow> l \<le> 31 \<Longrightarrow> tree_width n l * 2 ^ l \<le> 2 ^ 31"
proof -
  assume n: "n \<le> 2 ^ 31" and l: "l \<le> 31"
  have "(2::nat) ^ 31 = 2 ^ (31 - l) * 2 ^ l" using l by (simp flip: power_add)
  with n width_le [of n "2 ^ (31 - l)" l] show ?thesis by (metis mult_le_mono1)
qed

lemma propagate_loop:
  assumes "0 < length xs" and "inner_ok xs (length xs) inner"
    and "unat count = tree_width (length xs) l * 2 ^ l" and "length xs div 2 ^ l = tree_width (length xs) l - 1"
    and "h = tree_node xs l (tree_width (length xs) l - 1)"
    and "tracked xs p (length xs) l (tree_width (length xs) l - 1) m matchh pb"
  shows "\<exists>L matchh' pb'. MerkleComputation_propagate count inner m l h matchh pb =
      Some (L, tree_node xs L (tree_width (length xs) L - 1), matchh', pb') \<and> l \<le> L \<and> L < 32 \<and>
    odd (tree_width (length xs) L) \<and> unat count = tree_width (length xs) L * 2 ^ L \<and>
    length xs div 2 ^ L = tree_width (length xs) L - 1 \<and>
    tracked xs p (length xs) L (tree_width (length xs) L - 1) m matchh' pb' \<and>
    (\<forall>j. l \<le> j \<longrightarrow> j < L \<longrightarrow> 1 < tree_width (length xs) j) \<and> (pb' = None \<longleftrightarrow> pb = None)"
  using assms(3-)
proof (induction "32 - l" arbitrary: l h matchh pb)
  case 0
  have "(2::nat) ^ 32 \<le> 2 ^ l" using 0 by (intro power_increasing) auto
  also have "\<dots> \<le> unat count" using 0 tree_width_pos [OF assms(1), of l] by simp
  finally show ?case using unat_lt2p32 [of count] by simp
next
  case (Suc n)
  define w where "w = tree_width (length xs) l"
  note count = Suc(3) [folded w_def] and low = Suc(4) [folded w_def] and h = Suc(5) [folded w_def]
    and track = Suc(6) [folded w_def]
  have l: "l < 32" and n: "n = 32 - Suc l" using Suc(2) by simp_all
  have w0: "0 < w" using tree_width_pos [OF assms(1)] by (simp add: w_def)
  have test: "count AND push_bit l 1 = 0 \<longleftrightarrow> even w" using bit_test [OF l] count by simp
  show ?case
  proof (cases "even w")
    case True
    then obtain r where r: "w = 2 * r" by (rule evenE)
    have w': "tree_width (length xs) (Suc l) = r" unfolding tree_width_Suc w_def [symmetric] r by simp
    have odd: "odd (w - 1)" "w - 1 - 1 = w - 2" "w - 1 < tree_width (length xs) l" "(w - 1) div 2 = r - 1"
      using True w0 r by (auto simp flip: w_def)
    have inn: "inner ! l = tree_node xs l (w - 2)"
      using assms(2) l odd low unfolding inner_ok_def by metis
    obtain pb1 mh1 where push: "push_branch pb matchh m l (inner ! l) h = (pb1, mh1)" by (metis surj_pair)
    note step = push_tracked [OF track odd(1) low odd(3) push [unfolded inn h odd(2) [symmetric]], unfolded odd(4)]
    have node: "Hash_pair (inner ! l) h = tree_node xs (Suc l) (r - 1)"
      using tree_node_pair [of "w - 2" xs l] w_def r w0 unfolding inn h
      by (simp add: Suc_diff_Suc numeral_2_eq_2 diff_mult_distrib2)
    have low': "length xs div 2 ^ Suc l = r - 1"
      using low odd(4) by (simp only: power_Suc2 div_mult2_eq)
    have count': "unat count = r * 2 ^ Suc l" using count r by simp
    obtain L mh' pb' where "MerkleComputation_propagate count inner m (Suc l) (Hash_pair (inner ! l) h) mh1 pb1 =
        Some (L, tree_node xs L (tree_width (length xs) L - 1), mh', pb')" "Suc l \<le> L" "L < 32"
      "odd (tree_width (length xs) L)" "unat count = tree_width (length xs) L * 2 ^ L"
      "length xs div 2 ^ L = tree_width (length xs) L - 1"
      "tracked xs p (length xs) L (tree_width (length xs) L - 1) m mh' pb'"
      "\<forall>j. Suc l \<le> j \<longrightarrow> j < L \<longrightarrow> 1 < tree_width (length xs) j" "pb' = None \<longleftrightarrow> pb1 = None"
      using Suc(1) [OF n, unfolded w', OF count' low' node step] by auto
    moreover have "1 < tree_width (length xs) j" if "l \<le> j" "j < L" for j
    proof (cases "j = l")
      case True
      then show ?thesis using r w0 by (simp flip: w_def)
    next
      case False
      then show ?thesis using that calculation(8) by simp
    qed
    ultimately show ?thesis
      using l True test push push_branch_None [OF push]
      by (subst MerkleComputation_propagate.simps) (auto simp: Let_def)
  next
    case False
    then show ?thesis
      using l test count low h track unfolding w_def by (subst MerkleComputation_propagate.simps) auto
  qed
qed

text \<open>A path that waits at an even level waits above it.\<close>

lemma waiting_above:
  assumes "tracked xs p c l i m False (Some br)" and "even (c div 2 ^ l)"
  shows "m \<noteq> int l"
  using assms by (auto simp: tracked_def waiting_def split: if_splits)

lemma self_tracked:
  assumes track: "tracked xs p c l (w - 1) m matchh pb" and w: "w = tree_width (length xs) l" "odd w"
    and above: "\<not> matchh \<Longrightarrow> pb \<noteq> None \<Longrightarrow> m \<noteq> int l"
  shows "tracked xs p c (Suc l) ((w - 1) div 2) m matchh
    (if matchh then map_option (\<lambda>br. br @ [tree_node xs l (w - 1)]) pb else pb)"
proof (cases pb)
  case (Some br)
  have w1: "even (w - 1)" "\<not> w - 1 + 1 < tree_width (length xs) l" using w by (auto elim: oddE)
  show ?thesis
  proof (cases matchh)
    case True
    then have f: "p div 2 ^ l = w - 1" "br = map (sibling xs p) [0..<l]"
      using track Some by (auto simp: tracked_def following_def)
    then have "sibling xs p l = tree_node xs l (w - 1)" using w1 by (simp add: sibling_def Let_def)
    moreover have "p div 2 ^ Suc l = (w - 1) div 2" unfolding f(1) [symmetric] by (simp only: power_Suc2 div_mult2_eq)
    ultimately show ?thesis using True Some f by (simp add: tracked_def following_def)
  next
    case False
    show ?thesis
    proof (cases "c \<le> p")
      case True
      with False track Some show ?thesis by (auto simp: tracked_def waiting_def)
    next
      case cp: False
      then obtain k where k: "l \<le> k" "m = int k" "odd (c div 2 ^ k)" "p div 2 ^ k = c div 2 ^ k - 1"
          "br = map (sibling xs p) [0..<k]"
        using track Some False by (auto simp: tracked_def waiting_def)
      moreover have "k \<noteq> l" using above False Some k(2) by auto
      ultimately show ?thesis using False cp Some by (auto simp: tracked_def waiting_def intro!: exI [of _ k])
    qed
  qed
qed (simp add: tracked_def)

lemma sweep_loop:
  assumes "0 < length xs" and "length xs \<le> 2 ^ 31" and "inner_ok xs (length xs) inner"
    and "l < 32" and "odd (tree_width (length xs) l)" and "unat count = tree_width (length xs) l * 2 ^ l"
    and "tree_width (length xs) l = length xs div 2 ^ l \<or> length xs div 2 ^ l = tree_width (length xs) l - 1"
    and "h = tree_node xs l (tree_width (length xs) l - 1)"
    and "tracked xs p (length xs) l (tree_width (length xs) l - 1) m matchh pb"
    and "\<not> matchh \<Longrightarrow> pb \<noteq> None \<Longrightarrow> m \<noteq> int l"
  shows "\<exists>L matchh' pb'. MerkleComputation_sweep count inner m l h matchh pb = Some (tree_node xs L 0, pb') \<and>
    tree_width (length xs) L = 1 \<and> (\<forall>j. l \<le> j \<longrightarrow> j < L \<longrightarrow> 1 < tree_width (length xs) j) \<and>
    tracked xs p (length xs) L 0 m matchh' pb' \<and> (\<not> matchh' \<longrightarrow> pb' \<noteq> None \<longrightarrow> m \<noteq> int L) \<and> (pb' = None \<longleftrightarrow> pb = None)"
  using assms(4-)
proof (induction "32 - l" arbitrary: l count h matchh pb rule: less_induct)
  case less
  define w where "w = tree_width (length xs) l"
  note l = less(2) and odd = less(3) [folded w_def] and count = less(4) [folded w_def] and low = less(5) [folded w_def]
    and h = less(6) [folded w_def] and track = less(7) [folded w_def] and above = less(8)
  have unit: "unat (push_bit l 1 :: u32) = 2 ^ l"
    using l power_strict_increasing [of l 32 "2::nat"] unat_of_nat [of "2 ^ l", where ?'a = 32]
    by (simp add: push_bit_eq_mult)
  have test: "count = push_bit l 1 \<longleftrightarrow> w = 1" using count unit by (simp add: word_unat_eq_iff)
  show ?case
  proof (cases "w = 1")
    case True
    then show ?thesis
      using l test h track above w_def by (subst MerkleComputation_sweep.simps) (auto intro!: exI [of _ l])
  next
    case False
    from odd obtain r where r: "w = 2 * r + 1" by (rule oddE)
    have r0: "0 < r" using False r by simp
    have l': "Suc l \<le> 31"
    proof (rule ccontr)
      assume "\<not> Suc l \<le> 31"
      then have "l = 31" using l by simp
      then show False using width_bound [OF assms(2), of l] w_def r r0 by simp
    qed
    have w': "tree_width (length xs) (Suc l) = Suc r" unfolding tree_width_Suc w_def [symmetric] r by simp
    have "unat count + unat (push_bit l 1 :: u32) = Suc r * 2 ^ Suc l" unfolding count unit r by simp
    moreover have "Suc r * 2 ^ Suc l < 2 ^ 32" using width_bound [OF assms(2) l'] w' by simp
    ultimately have count': "unat (count + push_bit l 1) = Suc r * 2 ^ Suc l" by (simp add: unat_word_ariths)
    have low': "length xs div 2 ^ Suc l = Suc r - 1"
      using low r by (simp only: power_Suc2 div_mult2_eq) auto
    have node: "Hash_pair h h = tree_node xs (Suc l) (Suc r - 1)" by (simp add: h r flip: w_def)
    have half: "(w - 1) div 2 = Suc r - 1" using r by simp
    define pb1 where "pb1 = (if matchh then map_option (\<lambda>br. br @ [h]) pb else pb)"
    have step: "tracked xs p (length xs) (Suc l) (Suc r - 1) m matchh pb1"
      using self_tracked [OF track w_def odd above] unfolding half pb1_def h .
    from propagate_loop [OF assms(1,3), of "count + push_bit l 1" "Suc l", unfolded w', OF count' low' node step]
    obtain L mh' pb' where pr: "MerkleComputation_propagate (count + push_bit l 1) inner m (Suc l) (Hash_pair h h) matchh pb1 =
        Some (L, tree_node xs L (tree_width (length xs) L - 1), mh', pb')" "Suc l \<le> L" "L < 32"
      "odd (tree_width (length xs) L)" "unat (count + push_bit l 1) = tree_width (length xs) L * 2 ^ L"
      "length xs div 2 ^ L = tree_width (length xs) L - 1"
      "tracked xs p (length xs) L (tree_width (length xs) L - 1) m mh' pb'"
      "\<forall>j. Suc l \<le> j \<longrightarrow> j < L \<longrightarrow> 1 < tree_width (length xs) j" "pb' = None \<longleftrightarrow> pb1 = None"
      by blast
    have "m \<noteq> int L" if "\<not> mh'" "pb' \<noteq> None"
      using that waiting_above pr(4,6,7) by fastforce
    then obtain L' mh'' pb'' where
      "MerkleComputation_sweep (count + push_bit l 1) inner m L (tree_node xs L (tree_width (length xs) L - 1)) mh' pb' =
        Some (tree_node xs L' 0, pb'')"
      "tree_width (length xs) L' = 1" "\<forall>j. L \<le> j \<longrightarrow> j < L' \<longrightarrow> 1 < tree_width (length xs) j"
      "tracked xs p (length xs) L' 0 m mh'' pb''" "\<not> mh'' \<longrightarrow> pb'' \<noteq> None \<longrightarrow> m \<noteq> int L'" "pb'' = None \<longleftrightarrow> pb' = None"
      using less(1) [OF _ pr(3,4,5) disjI2 [OF pr(6)] refl pr(7)] pr(2,3) by force
    moreover have "1 < tree_width (length xs) j" if "l \<le> j" "j < L'" for j
    proof (cases "j < L")
      case True
      then show ?thesis using that pr(8) r r0 by (cases "j = l") (auto simp flip: w_def)
    next
      case False
      then show ?thesis using that calculation(3) by simp
    qed
    moreover have "pb1 = None \<longleftrightarrow> pb = None" by (auto simp: pb1_def)
    ultimately show ?thesis
      using l test False pr(1,9) by (subst MerkleComputation_sweep.simps) (auto simp: Let_def pb1_def)
  qed
qed

section \<open>The calculator computes the textbook tree\<close>

lemma tracked_root:
  assumes "tracked xs p (length xs) L 0 m matchh (Some br)" and "\<not> matchh \<Longrightarrow> m \<noteq> int L"
    and "tree_width (length xs) L = 1" and "p < length xs"
  shows "br = map (sibling xs p) [0..<L]"
proof (cases matchh)
  case False
  then obtain k where k: "L \<le> k" "m = int k" "odd (length xs div 2 ^ k)"
    using assms(1,4) by (auto simp: tracked_def waiting_def)
  with assms(2) False have "L < k" by auto
  have "length xs \<le> 2 ^ L" using width_mult [of "length xs" L] assms(3) by simp
  also have "(2::nat) ^ L < 2 ^ k" using \<open>L < k\<close> by simp
  finally have "length xs div 2 ^ k = 0" by simp
  with k show ?thesis by simp
qed (use assms in \<open>auto simp: tracked_def following_def\<close>)

lemma MerkleComputation_tree:
  assumes "xs \<noteq> []" and "length xs \<le> 2 ^ 31"
  shows "\<exists>L pb. MerkleComputation xs branchpos want = Some (tree_node xs L 0, equal_siblings xs (length xs), pb) \<and>
    tree_width (length xs) L = 1 \<and> (\<forall>j<L. 1 < tree_width (length xs) j) \<and> (pb = None \<longleftrightarrow> \<not> want) \<and>
    (want \<longrightarrow> unat branchpos < length xs \<longrightarrow> pb = Some (map (sibling xs (unat branchpos)) [0..<L]))"
proof -
  define pb0 :: "bytes list option" where "pb0 = (if want then Some [] else None)"
  have n: "0 < length xs" using assms(1) by simp
  have "tracked xs (unat branchpos) 0 0 0 (-1) False pb0" and "inner_ok xs 0 (replicate 32 uint256_zero)"
    by (simp_all add: tracked_def waiting_def pb0_def inner_ok_def)
  moreover have "\<not> equal_siblings xs 0" by (auto simp: equal_siblings_def)
  ultimately obtain inner m pb where leaves:
      "MerkleComputation_leaves branchpos 0 xs (replicate 32 uint256_zero) (-1) False pb0 =
        Some (of_nat (length xs), inner, m, equal_siblings xs (length xs), pb)"
      "inner_ok xs (length xs) inner" "tracked xs (unat branchpos) (length xs) 0 0 m False pb" "pb = None \<longleftrightarrow> pb0 = None"
    using leaves_loop [of 0 0 xs xs "replicate 32 uint256_zero" branchpos "-1" pb0 False] assms(2) by auto
  define count :: u32 where "count = of_nat (length xs)"
  have count: "unat count = length xs" using assms(2) by (simp add: count_def unat_of_nat)
  obtain l where skip: "MerkleComputation_skip count 0 = Some l" "l < 32" "2 ^ l dvd length xs" "odd (length xs div 2 ^ l)"
    using skip_loop [of count 0] n unfolding count by auto
  have w: "tree_width (length xs) l = length xs div 2 ^ l" using width_dvd [OF skip(3)] .
  have start: "tracked xs (unat branchpos) (length xs) l (tree_width (length xs) l - 1) m (m = int l) pb"
  proof (cases pb)
    case (Some br)
    have ge: "l \<le> k" if "odd (length xs div 2 ^ k)" for k
    proof (rule ccontr)
      assume "\<not> l \<le> k"
      then obtain d where "l = k + Suc d" using less_imp_Suc_add [of k l] by auto
      with skip(3) have "2 ^ k * 2 dvd length xs" by (auto simp: power_add dvd_def)
      with that show False by (auto simp: dvd_def)
    qed
    from leaves(3) Some have "waiting xs (unat branchpos) (length xs) 0 m br" by (simp add: tracked_def)
    with ge w Some show ?thesis by (auto simp: tracked_def waiting_def following_def split: if_splits)
  qed (simp add: tracked_def)
  have "unat count = tree_width (length xs) l * 2 ^ l" and "odd (tree_width (length xs) l)"
    and "inner ! l = tree_node xs l (tree_width (length xs) l - 1)"
    using leaves(2) skip w count by (simp_all add: inner_ok_def)
  with sweep_loop [OF n assms(2) leaves(2) skip(2) _ _ disjI1 [OF w] _ start]
  obtain L mh' pb' where sweep: "MerkleComputation_sweep count inner m l (inner ! l) (m = int l) pb = Some (tree_node xs L 0, pb')"
    "tree_width (length xs) L = 1" "\<forall>j. l \<le> j \<longrightarrow> j < L \<longrightarrow> 1 < tree_width (length xs) j"
    "tracked xs (unat branchpos) (length xs) L 0 m mh' pb'" "\<not> mh' \<longrightarrow> pb' \<noteq> None \<longrightarrow> m \<noteq> int L" "pb' = None \<longleftrightarrow> pb = None"
    by blast
  have "1 < tree_width (length xs) j" if "j < L" for j
  proof (cases "l \<le> j")
    case False
    then have "2 ^ j dvd length xs" "2 ^ Suc j dvd length xs"
      using dvd_trans [OF le_imp_power_dvd [of _ l] skip(3)] by (simp_all del: power_Suc)
    then have "2 ^ Suc j \<le> length xs" using n by (intro dvd_imp_le)
    then have "2 \<le> length xs div 2 ^ j" by (simp add: less_eq_div_iff_mult_less_eq)
    moreover have "tree_width (length xs) j = length xs div 2 ^ j" using \<open>2 ^ j dvd length xs\<close> by (rule width_dvd)
    ultimately show ?thesis by simp
  qed (use sweep(3) that in blast)
  moreover have "pb' = Some (map (sibling xs (unat branchpos)) [0..<L])"
    if want: "want" and pos: "unat branchpos < length xs"
  proof -
    obtain br where "pb' = Some br" using want sweep(6) leaves(4) by (auto simp: pb0_def)
    with tracked_root [of xs "unat branchpos" L m mh' br] sweep pos show ?thesis by auto
  qed
  ultimately show ?thesis
    using assms(1) leaves(1,4) skip(1) sweep unfolding MerkleComputation_def pb0_def [symmetric] count_def [symmetric]
    by (auto simp: pb0_def intro!: exI [of _ L])
qed

lemma ComputeMerkleRoot_tree:
  assumes "length leaves \<le> 2 ^ 31"
  shows "ComputeMerkleRoot leaves = Some (merkle_root leaves, equal_siblings leaves (length leaves))"
proof (cases "leaves = []")
  case True
  then show ?thesis
    by (simp add: ComputeMerkleRoot_def MerkleComputation_def merkle_root.simps equal_siblings_def)
next
  case False
  from MerkleComputation_tree [OF this assms, of "-1" False] obtain L pb where
    "MerkleComputation leaves (-1) False = Some (tree_node leaves L 0, equal_siblings leaves (length leaves), pb)"
    "tree_width (length leaves) L = 1" "\<forall>j<L. 1 < tree_width (length leaves) j" by blast
  then show ?thesis by (simp add: ComputeMerkleRoot_def merkle_root_node)
qed

text \<open>
  C27. For at most \<open>2 ^ 31\<close> leaves \<^verbatim>\<open>ComputeMerkleRoot\<close> stays within its array and its counter, its root is the root of the
  textbook tree, zero for no leaves, and its flag tells whether two complete sibling subtrees have the same hash.
\<close>

theorem ComputeMerkleRoot_correct:
  assumes "length leaves \<le> 2 ^ 31"
  shows "ComputeMerkleRoot leaves = Some (merkle_root leaves, equal_siblings leaves (length leaves))"
  using assms by (rule ComputeMerkleRoot_tree)

theorem ComputeMerkleRoot_correct_witness:
  "ComputeMerkleRoot [[1], [2], [3]] =
    Some (merkle_root [[1], [2], [3]], equal_siblings [[1], [2], [3]] 3)"
  using ComputeMerkleRoot_correct [of "[[1], [2], [3]]"] by (simp add: numeral_3_eq_3)

lemma position_width: "p < n \<Longrightarrow> p div 2 ^ l < tree_width n l"
proof -
  assume "p < n"
  moreover have "p div 2 ^ l * 2 ^ l \<le> p" by simp
  ultimately have "p div 2 ^ l * 2 ^ l < tree_width n l * 2 ^ l" using width_mult [of n l] by linarith
  then show ?thesis by simp
qed

lemma node_from_sibling:
  assumes "p < length xs" and i: "i = p div 2 ^ l"
  shows "(if odd i then Hash_pair (sibling xs p l) (tree_node xs l i) else Hash_pair (tree_node xs l i) (sibling xs p l)) =
    tree_node xs (Suc l) (p div 2 ^ Suc l)"
proof -
  have half: "p div 2 ^ Suc l = i div 2" by (simp only: i power_Suc2 div_mult2_eq)
  have w: "i < tree_width (length xs) l" using position_width [OF assms(1)] i by simp
  show ?thesis
    unfolding half using w by (auto simp: sibling_def Let_def i [symmetric] elim!: oddE evenE)
qed

lemma branch_fold:
  assumes "unat pos < length xs" and "l \<le> L"
  shows "ComputeMerkleRootFromBranch (tree_node xs l (unat pos div 2 ^ l)) (map (sibling xs (unat pos)) [l..<L]) (drop_bit l pos) =
    tree_node xs L (unat pos div 2 ^ L)"
  using assms(2)
proof (induction "L - l" arbitrary: l)
  case (Suc k)
  then have l: "l < L" by simp
  then have upt: "[l..<L] = l # [Suc l..<L]" by (rule upt_conv_Cons)
  have bit: "(drop_bit l pos AND 1 \<noteq> 0) \<longleftrightarrow> odd (unat pos div 2 ^ l)"
    using bit_unsigned_iff [of pos l, where ?'a = nat] bit_iff_odd [of "unat pos" l]
    by (simp add: and_one_eq odd_iff_mod_2_eq_one [of "drop_bit l pos", symmetric] bit_iff_odd_drop_bit [symmetric])
  have "(if drop_bit l pos AND 1 \<noteq> 0 then Hash_pair (sibling xs (unat pos) l) (tree_node xs l (unat pos div 2 ^ l))
      else Hash_pair (tree_node xs l (unat pos div 2 ^ l)) (sibling xs (unat pos) l)) =
    tree_node xs (Suc l) (unat pos div 2 ^ Suc l)"
    unfolding bit using node_from_sibling [OF assms(1) refl] .
  moreover have "drop_bit 1 (drop_bit l pos) = drop_bit (Suc l) pos" by (simp add: drop_bit_drop_bit)
  ultimately show ?case
    unfolding upt using Suc.hyps(1) [of "Suc l"] Suc.hyps(2) l
    by (simp only: list.map ComputeMerkleRootFromBranch.simps)
qed simp

text \<open>
  A branch verifies: for every position of at most \<open>2 ^ 31\<close> leaves \<^verbatim>\<open>ComputeMerkleBranch\<close> returns a branch with one
  hash per level from which \<^verbatim>\<open>ComputeMerkleRootFromBranch\<close> recomputes the root of the tree.
\<close>

theorem ComputeMerkleBranch_verifies:
  assumes "length leaves \<le> 2 ^ 31" and "unat position < length leaves"
  shows "\<exists>branch. ComputeMerkleBranch leaves position = Some branch \<and>
    ComputeMerkleRootFromBranch (leaves ! unat position) branch position = merkle_root leaves \<and>
    tree_width (length leaves) (length branch) = 1 \<and> (\<forall>j < length branch. 1 < tree_width (length leaves) j)"
proof -
  have "leaves \<noteq> []" using assms(2) by auto
  from MerkleComputation_tree [OF this assms(1), of position True] assms(2) obtain L where
    L: "MerkleComputation leaves position True =
      Some (tree_node leaves L 0, equal_siblings leaves (length leaves), Some (map (sibling leaves (unat position)) [0..<L]))"
    "tree_width (length leaves) L = 1" "\<forall>j<L. 1 < tree_width (length leaves) j" by auto
  have "unat position div 2 ^ L = 0" using position_width [OF assms(2), of L] L(2) by simp
  then have "ComputeMerkleRootFromBranch (leaves ! unat position) (map (sibling leaves (unat position)) [0..<L]) position =
      merkle_root leaves"
    using branch_fold [OF assms(2), of 0 L] L(2,3) by (simp add: merkle_root_node)
  with L show ?thesis by (simp add: ComputeMerkleBranch_def)
qed

theorem ComputeMerkleBranch_verifies_witness:
  "\<exists>branch. ComputeMerkleBranch [[1], [2], [3]] 2 = Some branch \<and>
    ComputeMerkleRootFromBranch [3] branch 2 = merkle_root [[1], [2], [3]]"
  using ComputeMerkleBranch_verifies [of "[[1], [2], [3]]" 2] by auto

section \<open>Repeated transactions\<close>

lemma pair_up_append: "even (length xs) \<Longrightarrow> pair_up (xs @ ys) = pair_up xs @ pair_up ys"
  by (induction xs rule: pair_up.induct) auto

lemma pair_up_repeat_last: "odd (length xs) \<Longrightarrow> pair_up (xs @ [last xs]) = pair_up xs"
  by (induction xs rule: pair_up.induct) auto

lemma pair_up_pow_append: "2 ^ l dvd length xs \<Longrightarrow> (pair_up ^^ l) (xs @ ys) = (pair_up ^^ l) xs @ (pair_up ^^ l) ys"
proof (induction l arbitrary: xs ys)
  case (Suc l)
  have "even (length xs)" using Suc.prems by (auto simp: dvd_def)
  moreover have "2 ^ l dvd length (pair_up xs)"
    using Suc.prems by (auto simp: dvd_def length_pair_up)
  ultimately show ?case using Suc.IH by (simp add: funpow_Suc_right pair_up_append del: funpow.simps)
qed simp

lemma length_levels: "length ((pair_up ^^ l) xs) = tree_width (length xs) l"
  by (simp add: pair_up_levels)

lemma merkle_root_multiple:
  assumes "length xs = q * 2 ^ l" and "1 < q"
  shows "merkle_root xs = merkle_root (pair_up ((pair_up ^^ l) xs))"
proof -
  have "1 < length ((pair_up ^^ j) xs)" if "j < Suc l" for j
  proof -
    obtain d where "l = j + d" using \<open>j < Suc l\<close> le_Suc_ex [of j l] by auto
    then have len: "length xs = q * 2 ^ d * 2 ^ j" using assms(1) by (simp add: power_add)
    then have "tree_width (length xs) j = q * 2 ^ d" using width_dvd [of j "length xs"] by simp
    moreover have "1 < q * 2 ^ d" using assms(2) by (metis less_le_trans mult.right_neutral mult_le_mono2 one_le_numeral one_le_power)
    ultimately show ?thesis by (simp add: length_levels)
  qed
  then show ?thesis using merkle_root_levels [of "Suc l" xs] by simp
qed

text \<open>
  The ambiguity of this tree and its detection (CVE-2012-2459): repeating the last \<open>2 ^ l\<close> leaves of a list of an
  odd number \<open>q > 1\<close> of blocks of \<open>2 ^ l\<close> leaves does not change the root, and \<^verbatim>\<open>ComputeMerkleRoot\<close> reports the list as mutated.
\<close>

theorem ComputeMerkleRoot_repeated:
  assumes "length leaves = q * 2 ^ l" and "odd q" and "1 < q" and "(q + 1) * 2 ^ l \<le> 2 ^ 31"
  shows "ComputeMerkleRoot (leaves @ drop (length leaves - 2 ^ l) leaves) = Some (merkle_root leaves, True)"
proof -
  define zs where "zs = drop (length leaves - 2 ^ l) leaves"
  define as where "as = take (length leaves - 2 ^ l) leaves"
  have split: "leaves = as @ zs" by (simp add: as_def zs_def)
  have le: "2 ^ l \<le> length leaves" using assms(1,3) by simp
  have as: "2 ^ l dvd length as" and z: "length zs = 2 ^ l" using le assms(1) by (simp_all add: as_def zs_def)
  have len: "length (leaves @ zs) = (q + 1) * 2 ^ l" using assms(1) z by simp
  have "length ((pair_up ^^ l) zs) = 1" using width_dvd [of l "length zs"] z by (simp add: length_levels)
  then obtain b where b: "(pair_up ^^ l) zs = [b]" by (auto simp: length_Suc_conv)
  define ys where "ys = (pair_up ^^ l) leaves"
  have ys: "ys = (pair_up ^^ l) as @ [b]" using pair_up_pow_append [OF as, of zs] split b by (simp add: ys_def)
  have lys: "length ys = q" using width_dvd [of l "length leaves"] assms(1) by (simp add: ys_def length_levels)
  have both: "(pair_up ^^ l) (leaves @ zs) = ys @ [last ys]"
    using pair_up_pow_append [of l leaves zs] assms(1) b ys by (simp flip: ys_def)
  have "merkle_root (leaves @ zs) = merkle_root (pair_up ys)"
    using merkle_root_multiple [of "leaves @ zs" "q + 1" l] len assms(2,3) both pair_up_repeat_last [of ys] lys by simp
  also have "\<dots> = merkle_root leaves" using merkle_root_multiple [OF assms(1,3)] by (simp add: ys_def)
  finally have root: "merkle_root (leaves @ zs) = merkle_root leaves" .
  obtain i where i: "q = 2 * i + 1" using assms(2) by (rule oddE)
  have "tree_width (length (leaves @ zs)) l = q + 1" using width_dvd [of l "length (leaves @ zs)"] unfolding len by simp
  then have "ys @ [last ys] = map (tree_node (leaves @ zs) l) [0..<q + 1]"
    using both pair_up_levels [of l "leaves @ zs"] by (simp only:)
  then have nodes: "tree_node (leaves @ zs) l j = (ys @ [last ys]) ! j" if "j < q + 1" for j
    using that by (simp only: nth_map_upt diff_zero add_0)
  have "tree_node (leaves @ zs) l (2 * i) = tree_node (leaves @ zs) l (2 * i + 1)"
    using nodes [of "2 * i"] nodes [of "2 * i + 1"] i lys last_conv_nth [of ys]
    by (cases "ys = []") (simp_all add: nth_append)
  then have "equal_siblings (leaves @ zs) (length (leaves @ zs))"
    unfolding equal_siblings_def len i by (intro exI [of _ l] exI [of _ i]) simp
  then show ?thesis
    using ComputeMerkleRoot_tree [of "leaves @ zs"] root len assms(4) by (simp add: zs_def)
qed

theorem ComputeMerkleRoot_repeated_witness:
  "ComputeMerkleRoot [[1], [2], [3], [4], [5], [6], [5], [6]] = Some (merkle_root [[1], [2], [3], [4], [5], [6]], True)"
  using ComputeMerkleRoot_repeated [of "[[1], [2], [3], [4], [5], [6]]" 3 1] by simp

end
