(* ===== verification/Partial_Merkle.thy ===== *)
theory Partial_Merkle
  imports Merkle
begin

text \<open>
  Partial Merkle trees: \<^verbatim>\<open>CPartialMerkleTree\<close> of \<^verbatim>\<open>src/merkleblock.h\<close> and \<^verbatim>\<open>src/merkleblock.cpp\<close>, the proof that a set of
  transactions belongs to a block. The constructor walks the tree depth first and records one bit per visited
  node and the hashes of the subtrees it does not enter; \<^verbatim>\<open>ExtractMatches\<close> repeats the walk over received data that
  may be malformed.

  The builder reads its vectors without checks: an index out of range and a shift of the \<^verbatim>\<open>int\<close> 1 by 31 or more are
  undefined and give \<open>None\<close>. The extractor checks every access and is total. The counters \<^verbatim>\<open>nBitsUsed\<close> and
  \<^verbatim>\<open>nHashUsed\<close> are bounded by the sizes of the vectors they index and are natural numbers.
\<close>

section \<open>The data and the builder\<close>

record CPartialMerkleTree =
  nTransactions :: u32
  vBits :: "bool list"
  vHash :: "bytes list"
  fBad :: bool

definition CalcTreeWidth :: "u32 \<Rightarrow> nat \<Rightarrow> u32" where
  "CalcTreeWidth nTx height = drop_bit height (nTx + push_bit height 1 - 1)"

primrec CalcHash :: "u32 \<Rightarrow> nat \<Rightarrow> u32 \<Rightarrow> bytes list \<Rightarrow> bytes option" where
  "CalcHash nTx 0 pos vTxid = (if unat pos < length vTxid then Some (vTxid ! unat pos) else None)"
| "CalcHash nTx (Suc height) pos vTxid =
    (case CalcHash nTx height (pos * 2) vTxid of
       None \<Rightarrow> None
     | Some left \<Rightarrow>
         (case (if pos * 2 + 1 < CalcTreeWidth nTx height then CalcHash nTx height (pos * 2 + 1) vTxid else Some left) of
            None \<Rightarrow> None
          | Some right \<Rightarrow> Some (Hash_pair left right)))"

text \<open>The loop that sets \<^verbatim>\<open>fParentOfMatch\<close>, over the positions from \<open>p\<close> to the smaller of the two bounds.\<close>

function parent_of_match :: "bool list \<Rightarrow> nat \<Rightarrow> nat \<Rightarrow> bool \<Rightarrow> bool option" where
  "parent_of_match vMatch p bound fParentOfMatch =
    (if p < bound then
       (if p < length vMatch then parent_of_match vMatch (p + 1) bound (fParentOfMatch \<or> vMatch ! p) else None)
     else Some fParentOfMatch)"
  by pat_completeness auto
termination by (relation "measure (\<lambda>(vMatch, p, bound, f). bound - p)") auto

declare parent_of_match.simps [simp del]

primrec TraverseAndBuild ::
  "nat \<Rightarrow> u32 \<Rightarrow> bytes list \<Rightarrow> bool list \<Rightarrow> CPartialMerkleTree \<Rightarrow> CPartialMerkleTree option" where
  "TraverseAndBuild 0 pos vTxid vMatch t =
    (case parent_of_match vMatch (unat pos) (min (unat (pos + 1)) (unat (nTransactions t))) False of
       None \<Rightarrow> None
     | Some fParentOfMatch \<Rightarrow>
         (case CalcHash (nTransactions t) 0 pos vTxid of
            None \<Rightarrow> None
          | Some h \<Rightarrow> Some (t\<lparr>vBits := vBits t @ [fParentOfMatch], vHash := vHash t @ [h]\<rparr>)))"
| "TraverseAndBuild (Suc height) pos vTxid vMatch t =
    (case parent_of_match vMatch (unat (push_bit (Suc height) pos))
        (min (unat (push_bit (Suc height) (pos + 1))) (unat (nTransactions t))) False of
       None \<Rightarrow> None
     | Some fParentOfMatch \<Rightarrow>
         (let t = t\<lparr>vBits := vBits t @ [fParentOfMatch]\<rparr>
          in if \<not> fParentOfMatch then
               (case CalcHash (nTransactions t) (Suc height) pos vTxid of
                  None \<Rightarrow> None
                | Some h \<Rightarrow> Some (t\<lparr>vHash := vHash t @ [h]\<rparr>))
             else
               (case TraverseAndBuild height (pos * 2) vTxid vMatch t of
                  None \<Rightarrow> None
                | Some t \<Rightarrow>
                    if pos * 2 + 1 < CalcTreeWidth (nTransactions t) height
                    then TraverseAndBuild height (pos * 2 + 1) vTxid vMatch t
                    else Some t)))"

function calc_height :: "u32 \<Rightarrow> nat \<Rightarrow> nat option" where
  "calc_height nTx nHeight =
    (if nHeight \<ge> 31 then None
     else if CalcTreeWidth nTx nHeight > 1 then calc_height nTx (nHeight + 1)
     else Some nHeight)"
  by pat_completeness auto
termination by (relation "measure (\<lambda>(nTx, nHeight). 31 - nHeight)") auto

declare calc_height.simps [simp del]

definition CPartialMerkleTree_new :: "bytes list \<Rightarrow> bool list \<Rightarrow> CPartialMerkleTree option" where
  "CPartialMerkleTree_new vTxid vMatch =
    (let t = \<lparr>nTransactions = of_nat (length vTxid), vBits = [], vHash = [], fBad = False\<rparr>
     in case calc_height (nTransactions t) 0 of
          None \<Rightarrow> None
        | Some nHeight \<Rightarrow> TraverseAndBuild nHeight 0 vTxid vMatch t)"

text \<open>The tree before anything is read into it: bad, so that nothing is extracted from it.\<close>

definition CPartialMerkleTree_empty :: CPartialMerkleTree where
  "CPartialMerkleTree_empty = \<lparr>nTransactions = 0, vBits = [], vHash = [], fBad = True\<rparr>"

section \<open>The extractor\<close>

record extraction =
  x_tree :: CPartialMerkleTree
  nBitsUsed :: nat
  nHashUsed :: nat
  x_vMatch :: "bytes list"
  x_vnIndex :: "u32 list"

definition mark_bad :: "extraction \<Rightarrow> extraction" where
  "mark_bad x = x\<lparr>x_tree := (x_tree x)\<lparr>fBad := True\<rparr>\<rparr>"

text \<open>A node whose hash is stored.\<close>

definition extract_stored :: "bool \<Rightarrow> u32 \<Rightarrow> extraction \<Rightarrow> bytes \<times> extraction" where
  "extract_stored matched pos x =
    (if nHashUsed x \<ge> length (vHash (x_tree x)) then (uint256_zero, mark_bad x)
     else
       (let h = vHash (x_tree x) ! nHashUsed x;
            x = x\<lparr>nHashUsed := nHashUsed x + 1\<rparr>
        in (h, if matched then x\<lparr>x_vMatch := x_vMatch x @ [h], x_vnIndex := x_vnIndex x @ [pos]\<rparr> else x)))"

primrec TraverseAndExtract :: "nat \<Rightarrow> u32 \<Rightarrow> extraction \<Rightarrow> bytes \<times> extraction" where
  "TraverseAndExtract 0 pos x =
    (if nBitsUsed x \<ge> length (vBits (x_tree x)) then (uint256_zero, mark_bad x)
     else
       (let fParentOfMatch = vBits (x_tree x) ! nBitsUsed x;
            x = x\<lparr>nBitsUsed := nBitsUsed x + 1\<rparr>
        in extract_stored fParentOfMatch pos x))"
| "TraverseAndExtract (Suc height) pos x =
    (if nBitsUsed x \<ge> length (vBits (x_tree x)) then (uint256_zero, mark_bad x)
     else
       (let fParentOfMatch = vBits (x_tree x) ! nBitsUsed x;
            x = x\<lparr>nBitsUsed := nBitsUsed x + 1\<rparr>
        in if \<not> fParentOfMatch then extract_stored False pos x
           else
             (let (left, x) = TraverseAndExtract height (pos * 2) x;
                  (right, x) =
                    (if pos * 2 + 1 < CalcTreeWidth (nTransactions (x_tree x)) height then
                       (let (right, x) = TraverseAndExtract height (pos * 2 + 1) x
                        in (right, if right = left then mark_bad x else x))
                     else (left, x))
              in (Hash_pair left right, x))))"

text \<open>\<^verbatim>\<open>GetMaxBlockWeight() / MIN_TRANSACTION_WEIGHT\<close>.\<close>

definition GetMaxBlockWeight :: nat where
  "GetMaxBlockWeight = 8000000"

definition MIN_TRANSACTION_WEIGHT :: nat where
  "MIN_TRANSACTION_WEIGHT = 4 * 60"

text \<open>
  \<^verbatim>\<open>vMatch\<close> is cleared, \<^verbatim>\<open>vnIndex\<close> is appended to. The height of an accepted tree is at most 16, so the loop that computes it
  does not reach an undefined shift.
\<close>

definition ExtractMatches ::
  "CPartialMerkleTree \<Rightarrow> u32 list \<Rightarrow> (bytes \<times> bytes list \<times> u32 list \<times> CPartialMerkleTree) option" where
  "ExtractMatches t vnIndex =
    (if nTransactions t = 0 then Some (uint256_zero, [], vnIndex, t)
     else if unat (nTransactions t) > GetMaxBlockWeight div MIN_TRANSACTION_WEIGHT then Some (uint256_zero, [], vnIndex, t)
     else if length (vHash t) > unat (nTransactions t) then Some (uint256_zero, [], vnIndex, t)
     else if length (vBits t) < length (vHash t) then Some (uint256_zero, [], vnIndex, t)
     else case calc_height (nTransactions t) 0 of
       None \<Rightarrow> None
     | Some nHeight \<Rightarrow>
         (let (hashMerkleRoot, x) = TraverseAndExtract nHeight 0
                \<lparr>x_tree = t, nBitsUsed = 0, nHashUsed = 0, x_vMatch = [], x_vnIndex = vnIndex\<rparr>;
              res = (if fBad (x_tree x) then uint256_zero
                     else if (nBitsUsed x + 7) div 8 \<noteq> (length (vBits t) + 7) div 8 then uint256_zero
                     else if nHashUsed x \<noteq> length (vHash t) then uint256_zero
                     else hashMerkleRoot)
          in Some (res, x_vMatch x, x_vnIndex x, x_tree x)))"

section \<open>The serialised flag bits\<close>

text \<open>\<^verbatim>\<open>vBytes[p / 8] |= vBits[p] << (p % 8)\<close> over all positions, on a vector of zero bytes.\<close>

definition pack_bits :: "bool list \<Rightarrow> bytes" where
  "pack_bits bs =
    fold (\<lambda>p v. v[p div 8 := v ! (p div 8) OR push_bit (p mod 8) (of_bool (bs ! p))]) [0..<length bs]
      (replicate ((length bs + 7) div 8) 0)"

definition unpack_bits :: "bytes \<Rightarrow> bool list" where
  "unpack_bits v = map (\<lambda>p. v ! (p div 8) AND push_bit (p mod 8) 1 \<noteq> 0) [0..<length v * 8]"

text \<open>A tree that was written to a stream and read back.\<close>

definition pmt_reload :: "CPartialMerkleTree \<Rightarrow> CPartialMerkleTree" where
  "pmt_reload t =
    \<lparr>nTransactions = nTransactions t, vBits = unpack_bits (pack_bits (vBits t)), vHash = vHash t, fBad = False\<rparr>"

section \<open>Widths and positions\<close>

lemma unat_small: "n < 2 ^ 32 \<Longrightarrow> unat (of_nat n :: u32) = n"
  by (simp add: unat_of_nat)

lemma unat_push1: "h < 32 \<Longrightarrow> unat (push_bit h 1 :: u32) = 2 ^ h"
  using unat_small [of "2 ^ h"] power_strict_increasing [of h 32 "2::nat"] by (simp add: push_bit_eq_mult)

lemma CalcTreeWidth_conv:
  assumes "unat nTx \<le> 2 ^ 30" and "h \<le> 30"
  shows "unat (CalcTreeWidth nTx h) = tree_width (unat nTx) h"
proof -
  have p: "(2::nat) ^ h \<le> 2 ^ 30" "(1::nat) \<le> 2 ^ h" using assms(2) power_increasing [of h 30 "2::nat"] by simp_all
  have u: "unat (push_bit h 1 :: u32) = 2 ^ h" using assms(2) by (intro unat_push1) simp
  have a: "unat (nTx + push_bit h 1) = unat nTx + 2 ^ h"
    using assms p u by (simp add: unat_word_ariths)
  have "(1 :: u32) \<le> nTx + push_bit h 1" unfolding word_le_nat_alt a using p(2) by (simp only: unsigned_1)
  then have "unat (nTx + push_bit h 1 - 1) = unat nTx + 2 ^ h - 1"
    using unat_sub [of 1 "nTx + push_bit h 1"] by (simp only: a unsigned_1)
  moreover have "unat (drop_bit h x) = unat x div 2 ^ h" for x :: u32
    using unat_lt2p32 [of x] by (simp only: unsigned_drop_bit_eq) (simp add: drop_bit_eq_div take_bit_nat_eq_self)
  ultimately show ?thesis by (simp only: CalcTreeWidth_def tree_width_def)
qed

lemma tree_width_antimono: "tree_width n (Suc l) \<le> tree_width n l"
  by (simp add: tree_width_Suc)

lemma tree_width_le: "tree_width n l \<le> n"
  by (induction l) (simp, meson tree_width_antimono le_trans)

lemma calc_height_correct:
  assumes "0 < unat nTx" and "unat nTx \<le> 2 ^ 30" and "h \<le> 30" and "\<And>j. j < h \<Longrightarrow> 1 < tree_width (unat nTx) j"
  shows "\<exists>H. calc_height nTx h = Some H \<and> H \<le> 30 \<and> tree_width (unat nTx) H = 1 \<and> (\<forall>j<H. 1 < tree_width (unat nTx) j)"
  using assms(3,4)
proof (induction "30 - h" arbitrary: h)
  case 0
  then have h: "h = 30" by simp
  have "tree_width (unat nTx) h \<le> 1" using width_le [of "unat nTx" 1 h] assms(2) h by simp
  moreover have "0 < tree_width (unat nTx) h" by (rule tree_width_pos [OF assms(1)])
  ultimately have "tree_width (unat nTx) h = 1" by simp
  with 0 h CalcTreeWidth_conv [OF assms(2), of h] show ?case
    by (subst calc_height.simps) (auto simp: word_less_nat_alt)
next
  case (Suc k)
  then have h: "h < 30" by simp
  have test: "CalcTreeWidth nTx h > 1 \<longleftrightarrow> 1 < tree_width (unat nTx) h"
    using CalcTreeWidth_conv [OF assms(2), of h] h by (simp add: word_less_nat_alt)
  show ?case
  proof (cases "1 < tree_width (unat nTx) h")
    case True
    then have "\<exists>H. calc_height nTx (Suc h) = Some H \<and> H \<le> 30 \<and> tree_width (unat nTx) H = 1 \<and> (\<forall>j<H. 1 < tree_width (unat nTx) j)"
      using Suc.hyps Suc.prems h by (intro Suc.hyps(1)) (auto simp: less_Suc_eq)
    with True test h show ?thesis by (subst calc_height.simps) simp
  next
    case False
    moreover have "0 < tree_width (unat nTx) h" by (rule tree_width_pos [OF assms(1)])
    ultimately have "tree_width (unat nTx) h = 1" by simp
    with False test h Suc.prems show ?thesis by (subst calc_height.simps) simp
  qed
qed

lemma child_position:
  assumes "unat (pos :: u32) < tree_width n (Suc h)" and "n \<le> 2 ^ 30"
  shows "unat (pos * 2) = 2 * unat pos" and "2 * unat pos < tree_width n h" and "unat (pos * 2 + 1) = 2 * unat pos + 1"
proof -
  show lt: "2 * unat pos < tree_width n h" using assms(1) by (simp add: tree_width_Suc)
  then have b: "2 * unat pos < 2 ^ 30" using tree_width_le [of n h] assms(2) by linarith
  then show u: "unat (pos * 2) = 2 * unat pos" by (simp add: unat_word_ariths)
  then show "unat (pos * 2 + 1) = 2 * unat pos + 1" using b by (simp add: unat_word_ariths)
qed

text \<open>The test whether a node has a right child.\<close>

lemma right_child:
  assumes "unat pos < tree_width (unat nTx) (Suc h)" and "unat nTx \<le> 2 ^ 30" and "h \<le> 30"
  shows "pos * 2 + 1 < CalcTreeWidth nTx h \<longleftrightarrow> 2 * unat pos + 1 < tree_width (unat nTx) h"
  using child_position [OF assms(1,2)] CalcTreeWidth_conv [OF assms(2,3)] by (simp add: word_less_nat_alt)

lemma CalcHash_node:
  assumes "unat nTx = length vTxid" and "length vTxid \<le> 2 ^ 30"
  shows "h \<le> 30 \<Longrightarrow> unat pos < tree_width (length vTxid) h \<Longrightarrow> CalcHash nTx h pos vTxid = Some (tree_node vTxid h (unat pos))"
proof (induction h arbitrary: pos)
  case (Suc h)
  note child = child_position [OF Suc.prems(2) assms(2)]
  have right: "pos * 2 + 1 < CalcTreeWidth nTx h \<longleftrightarrow> 2 * unat pos + 1 < tree_width (length vTxid) h"
    using right_child [of pos nTx h] Suc.prems assms by simp
  have l: "CalcHash nTx h (pos * 2) vTxid = Some (tree_node vTxid h (2 * unat pos))"
    using Suc.IH [of "pos * 2"] Suc.prems child by simp
  have r: "2 * unat pos + 1 < tree_width (length vTxid) h \<Longrightarrow>
      CalcHash nTx h (pos * 2 + 1) vTxid = Some (tree_node vTxid h (2 * unat pos + 1))"
    using Suc.IH [of "pos * 2 + 1"] Suc.prems child by simp
  show ?case using l r right by simp
qed simp

section \<open>The leaves below a node\<close>

definition node_leaves :: "nat \<Rightarrow> nat \<Rightarrow> nat \<Rightarrow> nat list" where
  "node_leaves n h i = [i * 2 ^ h..<min ((i + 1) * 2 ^ h) n]"

lemma width_less: "i < tree_width n h \<Longrightarrow> i * 2 ^ h < n"
proof (rule ccontr)
  assume "i < tree_width n h" and "\<not> i * 2 ^ h < n"
  with width_le [of n i h] show False by simp
qed

lemma node_leaves_Suc:
  assumes "i < tree_width n (Suc h)"
  shows "node_leaves n (Suc h) i =
    node_leaves n h (2 * i) @ (if 2 * i + 1 < tree_width n h then node_leaves n h (2 * i + 1) else [])"
proof (cases "2 * i + 1 < tree_width n h")
  case True
  then have lt: "(2 * i + 1) * 2 ^ h < n" by (rule width_less)
  define m where "m = (2 * i + 1) * 2 ^ h"
  define e where "e = min ((2 * i + 2) * 2 ^ h) n"
  have "m \<le> e" "2 * i * 2 ^ h \<le> m" using lt by (simp_all add: m_def e_def)
  then have "[2 * i * 2 ^ h..<e] = [2 * i * 2 ^ h..<m] @ [m..<e]"
    using upt_add_eq_append [of "2 * i * 2 ^ h" m "e - m"] by simp
  moreover have "min ((2 * i + 1) * 2 ^ h) n = m" using lt by (simp add: m_def)
  ultimately show ?thesis using True by (simp add: node_leaves_def m_def e_def ac_simps)
next
  case False
  then have w: "tree_width n h \<le> 2 * i + 1" by simp
  have "n \<le> tree_width n h * 2 ^ h" by (rule width_mult)
  also have "\<dots> \<le> (2 * i + 1) * 2 ^ h" using w by (rule mult_le_mono1)
  finally have n: "n \<le> (2 * i + 1) * 2 ^ h" .
  also have "\<dots> \<le> (2 * i + 2) * 2 ^ h" by simp
  finally have "min ((2 * i + 2) * 2 ^ h) n = n" by simp
  moreover have "min ((2 * i + 1) * 2 ^ h) n = n" using n by simp
  moreover have "(i + 1) * 2 ^ Suc h = (2 * i + 2) * 2 ^ h" "i * 2 ^ Suc h = 2 * i * 2 ^ h" by simp_all
  ultimately show ?thesis using False by (simp only: node_leaves_def if_False append_Nil2)
qed

lemma parent_of_match_conv:
  "bound \<le> length vMatch \<Longrightarrow>
    parent_of_match vMatch p bound f = Some (f \<or> (\<exists>j\<in>set [p..<bound]. vMatch ! j))"
proof (induction vMatch p bound f rule: parent_of_match.induct)
  case (1 vMatch p bound f)
  show ?case
  proof (cases "p < bound")
    case True
    with 1 show ?thesis by (subst parent_of_match.simps) (auto simp: upt_conv_Cons)
  next
    case False
    then show ?thesis by (subst parent_of_match.simps) simp
  qed
qed

lemma parent_of_match_node:
  assumes "unat (pos :: u32) < tree_width (unat nTx) h" and "unat nTx \<le> 2 ^ 30" and "h \<le> 30" and "length vMatch = unat nTx"
  shows "parent_of_match vMatch (unat (push_bit h pos)) (min (unat (push_bit h (pos + 1))) (unat nTx)) False =
    Some (\<exists>j\<in>set (node_leaves (unat nTx) h (unat pos)). vMatch ! j)"
proof -
  have lt: "unat pos * 2 ^ h < unat nTx" using assms(1) by (rule width_less)
  have p: "(2::nat) ^ h \<le> 2 ^ 30" using assms(3) by (intro power_increasing) simp_all
  have hi: "(unat pos + 1) * 2 ^ h < 2 ^ 32" using lt p assms(2) by (simp add: distrib_right)
  have "unat pos < 2 ^ 30" using assms(1,2) tree_width_le [of "unat nTx" h] by linarith
  then have p1: "unat (pos + 1) = unat pos + 1" by (simp add: unat_word_ariths)
  have push: "unat (push_bit h x) = unat x * 2 ^ h" if "unat x * 2 ^ h < 2 ^ 32" for x :: u32
    using that unat_push1 [of h] assms(3) by (simp add: push_bit_eq_mult unat_word_ariths)
  have "unat (push_bit h pos) = unat pos * 2 ^ h" "unat (push_bit h (pos + 1)) = (unat pos + 1) * 2 ^ h"
    using push [of pos] push [of "pos + 1"] lt assms(2) hi p1 by simp_all
  then show ?thesis using assms(4) by (simp only: node_leaves_def) (subst parent_of_match_conv, simp_all)
qed

section \<open>Building and extracting\<close>

text \<open>Distinct siblings at every level, the check of \<^verbatim>\<open>TraverseAndExtract\<close>.\<close>

definition distinct_siblings :: "bytes list \<Rightarrow> bool" where
  "distinct_siblings xs \<longleftrightarrow>
    (\<forall>l i. 2 * i + 1 < tree_width (length xs) l \<longrightarrow> tree_node xs l (2 * i) \<noteq> tree_node xs l (2 * i + 1))"

definition matched :: "bool list \<Rightarrow> nat \<Rightarrow> nat \<Rightarrow> nat list" where
  "matched vMatch h i = filter (\<lambda>j. vMatch ! j) (node_leaves (length vMatch) h i)"

lemma matched_Nil: "\<not> (\<exists>j\<in>set (node_leaves (length ms) h i). ms ! j) \<Longrightarrow> matched ms h i = []"
  by (auto simp: matched_def)

text \<open>
  What the walk below a node records and how the extractor consumes it. \<open>bs\<close> and \<open>hs\<close> are the bits and hashes of the
  node; the extractor may find more bits and hashes behind them.
\<close>

definition walk_ok ::
  "bytes list \<Rightarrow> bool list \<Rightarrow> nat \<Rightarrow> u32 \<Rightarrow> bool list \<Rightarrow> bytes list \<Rightarrow> bool" where
  "walk_ok xs ms h pos bs hs \<longleftrightarrow>
    (\<forall>t. nTransactions t = of_nat (length xs) \<longrightarrow>
       TraverseAndBuild h pos xs ms t = Some (t\<lparr>vBits := vBits t @ bs, vHash := vHash t @ hs\<rparr>)) \<and>
    (\<forall>x B H. nTransactions (x_tree x) = of_nat (length xs) \<longrightarrow>
       drop (nBitsUsed x) (vBits (x_tree x)) = bs @ B \<longrightarrow> drop (nHashUsed x) (vHash (x_tree x)) = hs @ H \<longrightarrow>
       TraverseAndExtract h pos x =
         (tree_node xs h (unat pos),
          x\<lparr>nBitsUsed := nBitsUsed x + length bs, nHashUsed := nHashUsed x + length hs,
            x_vMatch := x_vMatch x @ map (\<lambda>j. xs ! j) (matched ms h (unat pos)),
            x_vnIndex := x_vnIndex x @ map of_nat (matched ms h (unat pos))\<rparr>)) \<and>
    length hs \<le> length (node_leaves (length xs) h (unat pos)) \<and> length hs \<le> length bs"

lemma drop_next:
  assumes "drop k xs = y # ys"
  shows "k < length xs" and "xs ! k = y" and "drop (Suc k) xs = ys"
  using assms by (metis drop_all list.distinct(1) not_le_imp_less, metis nth_via_drop,
    metis drop_Suc list.sel(3) tl_drop)

lemma walk_leaf:
  assumes len: "length ms = length xs" "length xs \<le> 2 ^ 30" and pos: "unat pos < length xs"
  shows "walk_ok xs ms 0 pos [ms ! unat pos] [xs ! unat pos]"
proof -
  define nTx :: u32 where "nTx = of_nat (length xs)"
  have n: "unat nTx = length xs" using len by (simp add: nTx_def unat_small)
  have leaves: "node_leaves (length xs) 0 (unat pos) = [unat pos]" using pos by (simp add: node_leaves_def)
  have parent: "parent_of_match ms (unat pos) (min (unat (pos + 1)) (unat nTx)) False = Some (ms ! unat pos)"
    using parent_of_match_node [of pos nTx 0 ms] len pos n leaves by simp
  have m: "matched ms 0 (unat pos) = (if ms ! unat pos then [unat pos] else [])"
    using leaves len by (simp add: matched_def)
  show ?thesis
    unfolding walk_ok_def
  proof (intro conjI allI impI)
    fix t :: CPartialMerkleTree assume "nTransactions t = of_nat (length xs)"
    then show "TraverseAndBuild 0 pos xs ms t =
        Some (t\<lparr>vBits := vBits t @ [ms ! unat pos], vHash := vHash t @ [xs ! unat pos]\<rparr>)"
      using parent pos by (simp flip: nTx_def)
  next
    fix x :: extraction and B H
    assume "drop (nBitsUsed x) (vBits (x_tree x)) = [ms ! unat pos] @ B"
      and "drop (nHashUsed x) (vHash (x_tree x)) = [xs ! unat pos] @ H"
    then show "TraverseAndExtract 0 pos x =
         (tree_node xs 0 (unat pos),
          x\<lparr>nBitsUsed := nBitsUsed x + length [ms ! unat pos], nHashUsed := nHashUsed x + length [xs ! unat pos],
            x_vMatch := x_vMatch x @ map (\<lambda>j. xs ! j) (matched ms 0 (unat pos)),
            x_vnIndex := x_vnIndex x @ map of_nat (matched ms 0 (unat pos))\<rparr>)"
      using drop_next [of "nBitsUsed x" "vBits (x_tree x)"] drop_next [of "nHashUsed x" "vHash (x_tree x)"]
      by (simp add: m extract_stored_def Let_def)
  qed (simp_all add: leaves)
qed

lemma walk_skipped:
  assumes len: "length ms = length xs" "length xs \<le> 2 ^ 30" and h: "Suc h \<le> 30"
    and pos: "unat pos < tree_width (length xs) (Suc h)"
    and none: "\<not> (\<exists>j\<in>set (node_leaves (length xs) (Suc h) (unat pos)). ms ! j)"
  shows "walk_ok xs ms (Suc h) pos [False] [tree_node xs (Suc h) (unat pos)]"
proof -
  define nTx :: u32 where "nTx = of_nat (length xs)"
  have n: "unat nTx = length xs" using len by (simp add: nTx_def unat_small)
  have parent: "parent_of_match ms (unat (push_bit (Suc h) pos)) (min (unat (push_bit (Suc h) (pos + 1))) (unat nTx)) False =
      Some False"
    using parent_of_match_node [of pos nTx "Suc h" ms] len pos n h none by simp
  have hash: "CalcHash nTx (Suc h) pos xs = Some (tree_node xs (Suc h) (unat pos))"
    using CalcHash_node [OF n len(2) h pos] .
  have m: "matched ms (Suc h) (unat pos) = []" using none len by (intro matched_Nil) simp
  have "0 < length (node_leaves (length xs) (Suc h) (unat pos))"
    using width_less [OF pos] by (simp add: node_leaves_def)
  then have l: "1 \<le> length (node_leaves (length xs) (Suc h) (unat pos))" by linarith
  show ?thesis
    unfolding walk_ok_def
  proof (intro conjI allI impI)
    fix t :: CPartialMerkleTree assume "nTransactions t = of_nat (length xs)"
    then show "TraverseAndBuild (Suc h) pos xs ms t =
        Some (t\<lparr>vBits := vBits t @ [False], vHash := vHash t @ [tree_node xs (Suc h) (unat pos)]\<rparr>)"
      using parent hash by (simp add: Let_def del: CalcHash.simps tree_node.simps flip: nTx_def)
  next
    fix x :: extraction and B H
    assume "drop (nBitsUsed x) (vBits (x_tree x)) = [False] @ B"
      and "drop (nHashUsed x) (vHash (x_tree x)) = [tree_node xs (Suc h) (unat pos)] @ H"
    then show "TraverseAndExtract (Suc h) pos x =
         (tree_node xs (Suc h) (unat pos),
          x\<lparr>nBitsUsed := nBitsUsed x + length [False], nHashUsed := nHashUsed x + length [tree_node xs (Suc h) (unat pos)],
            x_vMatch := x_vMatch x @ map (\<lambda>j. xs ! j) (matched ms (Suc h) (unat pos)),
            x_vnIndex := x_vnIndex x @ map of_nat (matched ms (Suc h) (unat pos))\<rparr>)"
      using drop_next [of "nBitsUsed x" "vBits (x_tree x)" False B] drop_next [of "nHashUsed x" "vHash (x_tree x)"]
      by (simp add: m extract_stored_def Let_def del: tree_node.simps)
  qed (use l in \<open>simp_all del: tree_node.simps\<close>)
qed

lemma walk_descend:
  assumes len: "length ms = length xs" "length xs \<le> 2 ^ 30" and h: "Suc h \<le> 30"
    and pos: "unat pos < tree_width (length xs) (Suc h)" and ne: "distinct_siblings xs"
    and some: "\<exists>j\<in>set (node_leaves (length xs) (Suc h) (unat pos)). ms ! j"
    and left: "walk_ok xs ms h (pos * 2) bl hl"
    and right: "if 2 * unat pos + 1 < tree_width (length xs) h then walk_ok xs ms h (pos * 2 + 1) br hr else br = [] \<and> hr = []"
  shows "walk_ok xs ms (Suc h) pos (True # bl @ br) (hl @ hr)"
proof -
  define nTx :: u32 where "nTx = of_nat (length xs)"
  have n: "unat nTx = length xs" using len by (simp add: nTx_def unat_small)
  note child = child_position [OF pos len(2)]
  have test: "pos * 2 + 1 < CalcTreeWidth nTx h \<longleftrightarrow> 2 * unat pos + 1 < tree_width (length xs) h"
    using right_child [of pos nTx h] pos h n len(2) by simp
  have parent: "parent_of_match ms (unat (push_bit (Suc h) pos)) (min (unat (push_bit (Suc h) (pos + 1))) (unat nTx)) False =
      Some True"
    using parent_of_match_node [of pos nTx "Suc h" ms] len pos n h some by simp
  have leaves: "node_leaves (length xs) (Suc h) (unat pos) = node_leaves (length xs) h (2 * unat pos) @
      (if 2 * unat pos + 1 < tree_width (length xs) h then node_leaves (length xs) h (2 * unat pos + 1) else [])"
    using node_leaves_Suc [OF pos] .
  have sizes: "length hl \<le> length (node_leaves (length xs) h (2 * unat pos))" "length hl \<le> length bl"
    "length hr \<le> length br" "2 * unat pos + 1 < tree_width (length xs) h \<Longrightarrow> length hr \<le> length (node_leaves (length xs) h (2 * unat pos + 1))"
    "\<not> 2 * unat pos + 1 < tree_width (length xs) h \<Longrightarrow> hr = []"
    using left right child by (auto simp: walk_ok_def split: if_splits)
  show ?thesis
    unfolding walk_ok_def
  proof (intro conjI allI impI)
    fix t :: CPartialMerkleTree assume "nTransactions t = of_nat (length xs)"
    then show "TraverseAndBuild (Suc h) pos xs ms t =
        Some (t\<lparr>vBits := vBits t @ True # bl @ br, vHash := vHash t @ hl @ hr\<rparr>)"
      using parent left right test by (auto simp: Let_def walk_ok_def nTx_def)
  next
    fix x :: extraction and B H
    assume x: "nTransactions (x_tree x) = of_nat (length xs)"
      and bits: "drop (nBitsUsed x) (vBits (x_tree x)) = (True # bl @ br) @ B"
      and hashes: "drop (nHashUsed x) (vHash (x_tree x)) = (hl @ hr) @ H"
    define x0 where "x0 = x\<lparr>nBitsUsed := Suc (nBitsUsed x)\<rparr>"
    define x1 where "x1 = x0\<lparr>nBitsUsed := nBitsUsed x0 + length bl, nHashUsed := nHashUsed x0 + length hl,
            x_vMatch := x_vMatch x0 @ map (\<lambda>j. xs ! j) (matched ms h (2 * unat pos)),
            x_vnIndex := x_vnIndex x0 @ map of_nat (matched ms h (2 * unat pos))\<rparr>"
    have 1: "TraverseAndExtract h (pos * 2) x0 = (tree_node xs h (2 * unat pos), x1)"
      using left drop_next [of "nBitsUsed x" "vBits (x_tree x)" True "bl @ br @ B"] x bits hashes child
      by (simp add: walk_ok_def x0_def x1_def)
    have "drop (nBitsUsed x1) (vBits (x_tree x1)) = br @ B" "drop (nHashUsed x1) (vHash (x_tree x1)) = hr @ H"
      using arg_cong [OF drop_next(3) [of "nBitsUsed x" "vBits (x_tree x)" True "bl @ br @ B"], of "drop (length bl)"]
        arg_cong [OF hashes, of "drop (length hl)"] bits
      by (simp_all add: x1_def x0_def add.commute)
    then have 2: "TraverseAndExtract h (pos * 2 + 1) x1 =
        (tree_node xs h (2 * unat pos + 1), x1\<lparr>nBitsUsed := nBitsUsed x1 + length br, nHashUsed := nHashUsed x1 + length hr,
            x_vMatch := x_vMatch x1 @ map (\<lambda>j. xs ! j) (matched ms h (2 * unat pos + 1)),
            x_vnIndex := x_vnIndex x1 @ map of_nat (matched ms h (2 * unat pos + 1))\<rparr>)"
      if "2 * unat pos + 1 < tree_width (length xs) h"
      using right that x child by (simp add: walk_ok_def x1_def x0_def)
    have d: "tree_node xs h (2 * unat pos + 1) \<noteq> tree_node xs h (2 * unat pos)"
      if "2 * unat pos + 1 < tree_width (length xs) h"
      using ne that unfolding distinct_siblings_def by metis
    have t1: "nTransactions (x_tree x1) = nTx" using x by (simp add: x1_def x0_def nTx_def)
    have bit: "\<not> length (vBits (x_tree x)) \<le> nBitsUsed x" "vBits (x_tree x) ! nBitsUsed x"
      using drop_next [of "nBitsUsed x" "vBits (x_tree x)" True "bl @ br @ B"] bits by simp_all
    show "TraverseAndExtract (Suc h) pos x =
         (tree_node xs (Suc h) (unat pos),
          x\<lparr>nBitsUsed := nBitsUsed x + length (True # bl @ br), nHashUsed := nHashUsed x + length (hl @ hr),
            x_vMatch := x_vMatch x @ map (\<lambda>j. xs ! j) (matched ms (Suc h) (unat pos)),
            x_vnIndex := x_vnIndex x @ map of_nat (matched ms (Suc h) (unat pos))\<rparr>)"
    proof (cases "2 * unat pos + 1 < tree_width (length xs) h")
      case True
      show ?thesis
        using bit 1 2 [OF True] d [OF True] True test t1 leaves len(1)
        by (simp add: Let_def x0_def [symmetric]) (simp add: matched_def x1_def x0_def)
    next
      case False
      show ?thesis
        using bit 1 False test t1 leaves len(1) right
        by (simp add: Let_def x0_def [symmetric]) (simp add: matched_def x1_def x0_def)
    qed
  qed (use sizes leaves in \<open>simp_all split: if_splits\<close>)
qed

lemma walk_exists:
  assumes "length ms = length xs" "length xs \<le> 2 ^ 30" and "distinct_siblings xs"
  shows "h \<le> 30 \<Longrightarrow> unat pos < tree_width (length xs) h \<Longrightarrow> \<exists>bs hs. walk_ok xs ms h pos bs hs"
proof (induction h arbitrary: pos)
  case 0
  then show ?case using walk_leaf [OF assms(1,2)] by fastforce
next
  case (Suc h)
  note child = child_position [OF Suc.prems(2) assms(2)]
  show ?case
  proof (cases "\<exists>j\<in>set (node_leaves (length xs) (Suc h) (unat pos)). ms ! j")
    case True
    obtain bl hl where l: "walk_ok xs ms h (pos * 2) bl hl" using Suc child by fastforce
    obtain br hr where r: "if 2 * unat pos + 1 < tree_width (length xs) h then walk_ok xs ms h (pos * 2 + 1) br hr
        else br = [] \<and> hr = []"
    proof (cases "2 * unat pos + 1 < tree_width (length xs) h")
      case True
      with Suc.IH [of "pos * 2 + 1"] Suc.prems child that show ?thesis by auto
    qed (use that in simp)
    show ?thesis using walk_descend [OF assms(1,2) Suc.prems assms(3) True l r] by blast
  next
    case False
    then show ?thesis using walk_skipped [OF assms(1,2) Suc.prems] by blast
  qed
qed

section \<open>The flag bits survive serialisation\<close>

lemma pack_bits_prefix:
  assumes "k \<le> length bs"
  defines "v \<equiv> fold (\<lambda>p v. v[p div 8 := v ! (p div 8) OR push_bit (p mod 8) (of_bool (bs ! p))]) [0..<k]
      (replicate ((length bs + 7) div 8) (0 :: u8))"
  shows "length v = (length bs + 7) div 8 \<and> (\<forall>i<length v. \<forall>j<8. bit (v ! i) j \<longleftrightarrow> 8 * i + j < k \<and> bs ! (8 * i + j))"
  using assms(1) unfolding v_def
proof (induction k)
  case (Suc k)
  define w where "w = fold (\<lambda>p v. v[p div 8 := v ! (p div 8) OR push_bit (p mod 8) (of_bool (bs ! p))]) [0..<k]
      (replicate ((length bs + 7) div 8) (0 :: u8))"
  have w: "length w = (length bs + 7) div 8" "\<And>i j. i < length w \<Longrightarrow> j < 8 \<Longrightarrow> bit (w ! i) j \<longleftrightarrow> 8 * i + j < k \<and> bs ! (8 * i + j)"
    using Suc by (simp_all add: w_def)
  have k: "k div 8 < length w" using Suc.prems unfolding w(1) by (simp add: div_less_iff_less_mult less_eq_div_iff_mult_less_eq) 
  have *: "bit (w[k div 8 := w ! (k div 8) OR push_bit (k mod 8) (of_bool (bs ! k))] ! i) j \<longleftrightarrow> 8 * i + j < Suc k \<and> bs ! (8 * i + j)"
    if i: "i < length w" and j: "j < 8" for i j
  proof (cases "i = k div 8")
    case True
    have "bit (push_bit (k mod 8) (of_bool (bs ! k)) :: u8) j \<longleftrightarrow> j = k mod 8 \<and> bs ! k"
      using j by (auto simp: bit_push_bit_iff bit_of_bool_iff)
    moreover have "8 * i + j = k \<longleftrightarrow> j = k mod 8" unfolding True by (metis add_left_cancel mult_div_mod_eq)
    ultimately show ?thesis using True k w(2) [OF i j] by (auto simp: bit_or_iff less_Suc_eq)
  next
    case False
    then have "8 * i + j \<noteq> k" using j by auto
    with False w(2) [OF i j] show ?thesis by (auto simp: less_Suc_eq)
  qed
  show ?case using * w(1) by (simp flip: w_def)
qed simp

lemma unpack_pack: "unpack_bits (pack_bits bs) = bs @ replicate (8 * ((length bs + 7) div 8) - length bs) False"
proof -
  note v = pack_bits_prefix [OF order_refl, of bs, folded pack_bits_def]
  have le: "length bs \<le> 8 * ((length bs + 7) div 8)" by linarith
  have test: "(pack_bits bs ! (p div 8) AND push_bit (p mod 8) 1 \<noteq> 0) \<longleftrightarrow> p < length bs \<and> bs ! p"
    if "p < 8 * ((length bs + 7) div 8)" for p
  proof -
    have "(pack_bits bs ! (p div 8) AND push_bit (p mod 8) 1 \<noteq> 0) \<longleftrightarrow> bit (pack_bits bs ! (p div 8)) (p mod 8)"
      by (simp add: push_bit_eq_mult and_exp_eq_0_iff_not_bit)
    moreover have "p div 8 < (length bs + 7) div 8" using that by linarith
    ultimately show ?thesis using v by simp
  qed
  show ?thesis
    by (rule nth_equalityI) (use v test le in \<open>auto simp: unpack_bits_def nth_append mult.commute\<close>)
qed

section \<open>Properties\<close>

lemma node_leaves_root: "tree_width n H = 1 \<Longrightarrow> node_leaves n H 0 = [0..<n]"
  using width_mult [of n H] by (simp add: node_leaves_def min_def)

lemma max_transactions: "GetMaxBlockWeight div MIN_TRANSACTION_WEIGHT = 33333"
  by (simp add: GetMaxBlockWeight_def MIN_TRANSACTION_WEIGHT_def)

text \<open>
  C31. Building a partial tree for a selection of the transactions of a block, sending it and extracting it gives the
  Merkle root of the block, the selected transaction ids in order and their positions, and leaves no bit or hash
  unused. The block has at most 33333 transactions, and no two siblings of its tree are equal.
\<close>

theorem partial_merkle_roundtrip:
  assumes "length vMatch = length vTxid" and "0 < length vTxid" and "length vTxid \<le> GetMaxBlockWeight div MIN_TRANSACTION_WEIGHT"
    and "distinct_siblings vTxid"
  shows "\<exists>t. CPartialMerkleTree_new vTxid vMatch = Some t \<and>
    ExtractMatches (pmt_reload t) vnIndex =
      Some (merkle_root vTxid, map (\<lambda>j. vTxid ! j) (filter (\<lambda>j. vMatch ! j) [0..<length vTxid]),
        vnIndex @ map of_nat (filter (\<lambda>j. vMatch ! j) [0..<length vTxid]), pmt_reload t)"
proof -
  define nTx :: u32 where "nTx = of_nat (length vTxid)"
  have n: "unat nTx = length vTxid" using assms(3) unfolding max_transactions by (simp add: nTx_def unat_small)
  have le: "length vTxid \<le> 2 ^ 30" using assms(3) unfolding max_transactions by simp
  obtain H where H: "calc_height nTx 0 = Some H" "H \<le> 30" "tree_width (length vTxid) H = 1"
      "\<forall>j<H. 1 < tree_width (length vTxid) j"
    using calc_height_correct [of nTx 0] n le assms(2) by auto
  have root: "tree_node vTxid H 0 = merkle_root vTxid" using merkle_root_node [OF H(3)] H(4) by simp
  obtain bs hs where walk: "walk_ok vTxid vMatch H 0 bs hs"
    using walk_exists [OF assms(1) le assms(4) H(2), of 0] H(3) by auto
  have m: "matched vMatch H 0 = filter (\<lambda>j. vMatch ! j) [0..<length vTxid]"
    using node_leaves_root [OF H(3)] assms(1) by (simp add: matched_def)
  define t where "t = \<lparr>nTransactions = nTx, vBits = bs, vHash = hs, fBad = False\<rparr>"
  have "CPartialMerkleTree_new vTxid vMatch = Some t"
    using walk H(1) by (simp add: CPartialMerkleTree_new_def walk_ok_def t_def nTx_def)
  moreover have sizes: "length hs \<le> length vTxid" "length hs \<le> length bs"
    using walk node_leaves_root [OF H(3)] by (simp_all add: walk_ok_def)
  define pad where "pad = replicate (8 * ((length bs + 7) div 8) - length bs) False"
  have pad: "length (bs @ pad) = 8 * ((length bs + 7) div 8)" by (simp add: pad_def)
  have t': "pmt_reload t = t\<lparr>vBits := bs @ pad\<rparr>" by (simp add: pmt_reload_def t_def unpack_pack pad_def)
  let ?x = "\<lparr>x_tree = t\<lparr>vBits := bs @ pad\<rparr>, nBitsUsed = 0, nHashUsed = 0, x_vMatch = [], x_vnIndex = vnIndex\<rparr>"
  have "TraverseAndExtract H 0 ?x = (tree_node vTxid H 0,
      ?x\<lparr>nBitsUsed := length bs, nHashUsed := length hs, x_vMatch := map (\<lambda>j. vTxid ! j) (matched vMatch H 0),
        x_vnIndex := vnIndex @ map of_nat (matched vMatch H 0)\<rparr>)"
    using walk by (simp add: walk_ok_def t_def nTx_def)
  moreover have "(length (bs @ pad) + 7) div 8 = (length bs + 7) div 8" unfolding pad by simp
  moreover have "nTx \<noteq> 0" using n assms(2) by auto
  ultimately have "ExtractMatches (pmt_reload t) vnIndex =
      Some (tree_node vTxid H 0, map (\<lambda>j. vTxid ! j) (matched vMatch H 0), vnIndex @ map of_nat (matched vMatch H 0), pmt_reload t)"
    unfolding t' using H(1) n assms(3) sizes by (simp add: ExtractMatches_def t_def)
  with \<open>CPartialMerkleTree_new vTxid vMatch = Some t\<close> show ?thesis unfolding m root by blast
qed

lemma distinct_siblings_two: "a \<noteq> b \<Longrightarrow> distinct_siblings [a, b]"
proof -
  assume "a \<noteq> b"
  have "tree_width 2 (Suc l) \<le> 1" for l using width_le [of 2 1 "Suc l"] by simp
  then have "l = 0 \<and> i = 0" if "2 * i + 1 < tree_width 2 l" for l i
    using that by (cases l) (simp, metis Suc_eq_plus1 leD less_le_trans le_add2)
  with \<open>a \<noteq> b\<close> show ?thesis by (fastforce simp: distinct_siblings_def numeral_2_eq_2)
qed

theorem partial_merkle_roundtrip_witness:
  "\<exists>t. CPartialMerkleTree_new [[1], [2]] [False, True] = Some t \<and>
    ExtractMatches (pmt_reload t) [] = Some (merkle_root [[1], [2]], [[2]], [1], pmt_reload t)"
  using partial_merkle_roundtrip [of "[False, True]" "[[1], [2]]" "[]"] distinct_siblings_two [of "[1]" "[2]"]
  by (simp add: max_transactions upt_rec)

section \<open>Soundness against forged data\<close>

text \<open>
  The pairs that are hashed: in the tree of the block, and by the extractor on its way. A forged partial tree that
  extracts to the Merkle root of a block and claims a transaction that is not in it contains a collision of the
  double SHA-256 between two of these pairs.
\<close>

definition tree_pairs :: "bytes list \<Rightarrow> (bytes \<times> bytes) set" where
  "tree_pairs xs = {(a, b). \<exists>l i. 1 < tree_width (length xs) l \<and> i < tree_width (length xs) (Suc l) \<and> a = tree_node xs l (2 * i) \<and>
     b = (if 2 * i + 1 < tree_width (length xs) l then tree_node xs l (2 * i + 1) else tree_node xs l (2 * i))}"

lemma tree_pairsI:
  "1 < tree_width (length xs) l \<Longrightarrow> i < tree_width (length xs) (Suc l) \<Longrightarrow>
    (tree_node xs l (2 * i), if 2 * i + 1 < tree_width (length xs) l then tree_node xs l (2 * i + 1) else tree_node xs l (2 * i))
      \<in> tree_pairs xs"
  unfolding tree_pairs_def by blast

primrec extract_pairs :: "nat \<Rightarrow> u32 \<Rightarrow> extraction \<Rightarrow> (bytes \<times> bytes) list" where
  "extract_pairs 0 pos x = []"
| "extract_pairs (Suc height) pos x =
    (if nBitsUsed x \<ge> length (vBits (x_tree x)) \<or> \<not> vBits (x_tree x) ! nBitsUsed x then []
     else
       (let x0 = x\<lparr>nBitsUsed := nBitsUsed x + 1\<rparr>;
            (left, x1) = TraverseAndExtract height (pos * 2) x0
        in if pos * 2 + 1 < CalcTreeWidth (nTransactions (x_tree x1)) height then
             extract_pairs height (pos * 2) x0 @ extract_pairs height (pos * 2 + 1) x1 @
               [(left, fst (TraverseAndExtract height (pos * 2 + 1) x1))]
           else extract_pairs height (pos * 2) x0 @ [(left, left)]))"

definition start_extraction :: "CPartialMerkleTree \<Rightarrow> u32 list \<Rightarrow> extraction" where
  "start_extraction t vnIndex = \<lparr>x_tree = t, nBitsUsed = 0, nHashUsed = 0, x_vMatch = [], x_vnIndex = vnIndex\<rparr>"

definition hashed_pairs :: "CPartialMerkleTree \<Rightarrow> u32 list \<Rightarrow> (bytes \<times> bytes) set" where
  "hashed_pairs t vnIndex =
    (case calc_height (nTransactions t) 0 of None \<Rightarrow> {} | Some H \<Rightarrow> set (extract_pairs H 0 (start_extraction t vnIndex)))"

text \<open>What a walk appends to the results are transactions of the block.\<close>

definition genuine :: "bytes list \<Rightarrow> extraction \<Rightarrow> extraction \<Rightarrow> bool" where
  "genuine xs x x' \<longleftrightarrow>
    (\<exists>is. x_vnIndex x' = x_vnIndex x @ is \<and> (\<forall>i\<in>set is. unat i < length xs) \<and>
       x_vMatch x' = x_vMatch x @ map (\<lambda>i. xs ! unat i) is)"

lemma genuine_refl [intro]: "x_vnIndex x' = x_vnIndex x \<Longrightarrow> x_vMatch x' = x_vMatch x \<Longrightarrow> genuine xs x x'"
  by (simp add: genuine_def)

lemma genuine_trans: "genuine xs x y \<Longrightarrow> genuine xs y z \<Longrightarrow> genuine xs x z"
  by (fastforce simp: genuine_def)

lemma results_mark_bad [simp]:
  "x_vnIndex (mark_bad x) = x_vnIndex x" "x_vMatch (mark_bad x) = x_vMatch x"
  "nTransactions (x_tree (mark_bad x)) = nTransactions (x_tree x)"
  by (simp_all add: mark_bad_def)

lemma extract_nTransactions: "nTransactions (x_tree (snd (TraverseAndExtract h pos x))) = nTransactions (x_tree x)"
proof (induction h arbitrary: pos x)
  case (Suc h)
  show ?case
    by (simp add: Let_def extract_stored_def split_beta Suc)
qed (simp add: Let_def extract_stored_def)

lemma extract_genuine:
  assumes "length xs \<le> 2 ^ 30" and inj: "inj_on (\<lambda>(a, b). Hash_pair a b) (tree_pairs xs \<union> P)"
  shows "h \<le> 30 \<Longrightarrow> unat pos < tree_width (length xs) h \<Longrightarrow> (\<And>j. j < h \<Longrightarrow> 1 < tree_width (length xs) j) \<Longrightarrow>
    nTransactions (x_tree x) = of_nat (length xs) \<Longrightarrow> set (extract_pairs h pos x) \<subseteq> P \<Longrightarrow>
    fst (TraverseAndExtract h pos x) = tree_node xs h (unat pos) \<Longrightarrow> genuine xs x (snd (TraverseAndExtract h pos x))"
proof (induction h arbitrary: pos x)
  case 0
  then show ?case
    by (auto simp: Let_def extract_stored_def genuine_def split: if_splits)
next
  case (Suc h)
  define nTx :: u32 where "nTx = of_nat (length xs)"
  have n: "unat nTx = length xs" using assms(1) by (simp add: nTx_def unat_small)
  note child = child_position [OF Suc.prems(2) assms(1)]
  show ?case
  proof (cases "nBitsUsed x \<ge> length (vBits (x_tree x)) \<or> \<not> vBits (x_tree x) ! nBitsUsed x")
    case True
    then show ?thesis by (auto simp: Let_def extract_stored_def)
  next
    case False
    define x0 where "x0 = x\<lparr>nBitsUsed := nBitsUsed x + 1\<rparr>"
    define lx where "lx = TraverseAndExtract h (pos * 2) x0"
    define rx where "rx = TraverseAndExtract h (pos * 2 + 1) (snd lx)"
    have x0: "nTransactions (x_tree x0) = nTx" "genuine xs x x0" using Suc.prems(4) by (auto simp: x0_def nTx_def)
    have lx: "nTransactions (x_tree (snd lx)) = nTx" using x0 by (simp add: lx_def extract_nTransactions)
    have test: "pos * 2 + 1 < CalcTreeWidth nTx h \<longleftrightarrow> 2 * unat pos + 1 < tree_width (length xs) h"
      using right_child [of pos nTx h] Suc.prems(1,2) n assms(1) by simp
    have w: "1 < tree_width (length xs) h" using Suc.prems(3) by simp
    define a where "a = tree_node xs h (2 * unat pos)"
    show ?thesis
    proof (cases "2 * unat pos + 1 < tree_width (length xs) h")
      case True
      define b where "b = tree_node xs h (2 * unat pos + 1)"
      have ext: "TraverseAndExtract (Suc h) pos x =
          (Hash_pair (fst lx) (fst rx), if fst rx = fst lx then mark_bad (snd rx) else snd rx)"
        using False True test lx by (simp add: Let_def split_beta rx_def lx_def x0_def)
      have P: "set (extract_pairs h (pos * 2) x0) \<subseteq> P" "set (extract_pairs h (pos * 2 + 1) (snd lx)) \<subseteq> P" "(fst lx, fst rx) \<in> P"
        using Suc.prems(5) False True test lx by (auto simp: Let_def split_beta rx_def lx_def x0_def)
      have "(a, b) \<in> tree_pairs xs" using tree_pairsI [OF w Suc.prems(2)] True by (simp add: a_def b_def)
      moreover have "Hash_pair (fst lx) (fst rx) = Hash_pair a b"
        using Suc.prems(6) ext True by (simp add: a_def b_def)
      ultimately have "(fst lx, fst rx) = (a, b)" using inj_onD [OF inj, of "(fst lx, fst rx)" "(a, b)"] P(3) by auto
      then have "fst lx = tree_node xs h (unat (pos * 2))" "fst rx = tree_node xs h (unat (pos * 2 + 1))"
        using child by (simp_all add: a_def b_def)
      then have "genuine xs x0 (snd lx)" "genuine xs (snd lx) (snd rx)"
        using Suc.IH [of "pos * 2" x0] Suc.IH [of "pos * 2 + 1" "snd lx"] Suc.prems(1,3) child True P x0 lx
        by (auto simp: lx_def rx_def nTx_def)
      then have "genuine xs x (snd rx)" using x0(2) genuine_trans by blast
      moreover have "genuine xs (snd rx) (snd (TraverseAndExtract (Suc h) pos x))" unfolding ext by auto
      ultimately show ?thesis using genuine_trans by blast
    next
      case False': False
      have ext: "TraverseAndExtract (Suc h) pos x = (Hash_pair (fst lx) (fst lx), snd lx)"
        using False False' test lx by (simp add: Let_def split_beta lx_def x0_def)
      have P: "set (extract_pairs h (pos * 2) x0) \<subseteq> P" "(fst lx, fst lx) \<in> P"
        using Suc.prems(5) False False' test lx by (auto simp: Let_def split_beta lx_def x0_def)
      have "(a, a) \<in> tree_pairs xs" using tree_pairsI [OF w Suc.prems(2)] False' by (simp add: a_def)
      moreover have "Hash_pair (fst lx) (fst lx) = Hash_pair a a"
        using Suc.prems(6) ext False' by (simp add: a_def)
      ultimately have "(fst lx, fst lx) = (a, a)" using inj_onD [OF inj, of "(fst lx, fst lx)" "(a, a)"] P(2) by auto
      then have "fst lx = tree_node xs h (unat (pos * 2))" using child by (simp add: a_def)
      then have "genuine xs x0 (snd lx)"
        using Suc.IH [of "pos * 2" x0] Suc.prems(1,3) child P x0 by (auto simp: lx_def nTx_def)
      then show ?thesis unfolding ext using x0(2) genuine_trans by auto
    qed
  qed
qed

lemma ExtractMatches_nonzero:
  assumes "ExtractMatches t vnIndex = Some (r, m, i, t')" and "r \<noteq> uint256_zero"
  obtains H x where "calc_height (nTransactions t) 0 = Some H" "nTransactions t \<noteq> 0" "unat (nTransactions t) \<le> 33333"
    "TraverseAndExtract H 0 (start_extraction t vnIndex) = (r, x)" "x_vMatch x = m" "x_vnIndex x = i"
proof -
  have c1: "nTransactions t \<noteq> 0"
    by (rule notI) (use assms in \<open>simp add: ExtractMatches_def\<close>)
  have c2: "\<not> unat (nTransactions t) > 33333"
    by (rule notI) (use assms c1 in \<open>simp add: ExtractMatches_def max_transactions\<close>)
  have c3: "\<not> length (vHash t) > unat (nTransactions t)"
    by (rule notI) (use assms c1 c2 in \<open>simp add: ExtractMatches_def max_transactions\<close>)
  have c4: "\<not> length (vBits t) < length (vHash t)"
    by (rule notI) (use assms c1 c2 c3 in \<open>simp add: ExtractMatches_def max_transactions\<close>)
  note c = c1 c2 c3 c4
  from assms(1) obtain H where H: "calc_height (nTransactions t) 0 = Some H"
    unfolding ExtractMatches_def max_transactions if_not_P [OF c(1)] if_not_P [OF c(2)] if_not_P [OF c(3)] if_not_P [OF c(4)]
    by (cases "calc_height (nTransactions t) 0") simp_all
  obtain h x where e: "TraverseAndExtract H 0 (start_extraction t vnIndex) = (h, x)" by (metis surj_pair)
  have "h = r \<and> x_vMatch x = m \<and> x_vnIndex x = i"
    using assms unfolding ExtractMatches_def max_transactions if_not_P [OF c(1)] if_not_P [OF c(2)] if_not_P [OF c(3)]
      if_not_P [OF c(4)] H option.case start_extraction_def [symmetric] e Let_def prod.case
    by (simp split: if_split_asm)
  with H c e that show thesis by auto
qed

text \<open>
  No forged proofs: whatever partial tree a peer sends, if it extracts to the nonzero Merkle root of a block with as many
  transactions, and the double SHA-256 has no collision among the pairs hashed in that block's tree and in
  this extraction, then every extracted id is the id of the block's transaction at the extracted position.
\<close>

theorem ExtractMatches_sound:
  assumes "ExtractMatches t vnIndex = Some (merkle_root vTxid, vMatch', vnIndex', t')"
    and "merkle_root vTxid \<noteq> uint256_zero" and "unat (nTransactions t) = length vTxid"
    and "inj_on (\<lambda>(a, b). Hash_pair a b) (tree_pairs vTxid \<union> hashed_pairs t vnIndex)"
  shows "\<exists>is. vnIndex' = vnIndex @ is \<and> vMatch' = map (\<lambda>i. vTxid ! unat i) is \<and> (\<forall>i\<in>set is. unat i < length vTxid)"
proof -
  obtain H x where H: "calc_height (nTransactions t) 0 = Some H"
    and n: "nTransactions t \<noteq> 0" "unat (nTransactions t) \<le> 33333"
    and out: "TraverseAndExtract H 0 (start_extraction t vnIndex) = (merkle_root vTxid, x)" "x_vMatch x = vMatch'" "x_vnIndex x = vnIndex'"
    using ExtractMatches_nonzero [OF assms(1,2)] by metis
  have pos: "0 < unat (nTransactions t)" using n(1) unat_gt_0 by blast
  have le: "length vTxid \<le> 2 ^ 30" using n(2) assms(3) by simp
  from calc_height_correct [OF pos, of 0] le H assms(3) have width: "H \<le> 30" "tree_width (length vTxid) H = 1"
    "\<forall>j<H. 1 < tree_width (length vTxid) j" by auto
  have root: "tree_node vTxid H 0 = merkle_root vTxid" using merkle_root_node [OF width(2)] width(3) by simp
  have nTx: "nTransactions t = of_nat (length vTxid)" using assms(3) by (simp flip: assms(3))
  have "genuine vTxid (start_extraction t vnIndex) (snd (TraverseAndExtract H 0 (start_extraction t vnIndex)))"
  proof (rule extract_genuine [OF le assms(4)])
    show "set (extract_pairs H 0 (start_extraction t vnIndex)) \<subseteq> hashed_pairs t vnIndex" by (simp add: hashed_pairs_def H)
  qed (use width root out nTx in \<open>simp_all add: start_extraction_def\<close>)
  then show ?thesis using out by (auto simp: genuine_def start_extraction_def)
qed

definition sample_pmt :: CPartialMerkleTree where
  "sample_pmt = \<lparr>nTransactions = 1, vBits = [True], vHash = [[7]], fBad = False\<rparr>"

lemma sample_pmt_facts:
  "calc_height 1 0 = Some 0"
  "ExtractMatches sample_pmt [] = Some (merkle_root [[7]], [[7]], [0], sample_pmt)"
  "inj_on (\<lambda>(a, b). Hash_pair a b) (tree_pairs [[7]] \<union> hashed_pairs sample_pmt [])"
  "merkle_root [[7]] \<noteq> uint256_zero"
proof -
  show h: "calc_height 1 0 = Some 0" by (simp add: calc_height.simps CalcTreeWidth_def)
  have m: "merkle_root [[7]] = [7]" by (simp add: merkle_root.simps)
  then show "merkle_root [[7]] \<noteq> uint256_zero" by (auto simp: uint256_zero_def dest: arg_cong [where f = length])
  show "ExtractMatches sample_pmt [] = Some (merkle_root [[7]], [[7]], [0], sample_pmt)"
    by (simp add: ExtractMatches_def sample_pmt_def h m max_transactions extract_stored_def Let_def)
  have "\<not> 1 < tree_width 1 l" for l using tree_width_le [of 1 l] by simp
  then have "tree_pairs [[7]] = {}" by (auto simp: tree_pairs_def)
  moreover have "hashed_pairs sample_pmt [] = {}" by (simp add: hashed_pairs_def sample_pmt_def h)
  ultimately show "inj_on (\<lambda>(a, b). Hash_pair a b) (tree_pairs [[7]] \<union> hashed_pairs sample_pmt [])" by simp
qed

theorem ExtractMatches_sound_witness:
  "\<exists>is. [0] = [] @ is \<and> [[7]] = map (\<lambda>i. [[7 :: u8]] ! unat i) is \<and> (\<forall>i\<in>set is. unat (i :: u32) < 1)"
  using ExtractMatches_sound [OF sample_pmt_facts(2,4) _ sample_pmt_facts(3)] by (simp add: sample_pmt_def)

end
