(* ===== verification/Coins.thy ===== *)
theory Coins
  imports Transactions Partial_Merkle
begin

text \<open>
  The set of unspent transaction outputs: \<^verbatim>\<open>src/coins.h\<close> and \<^verbatim>\<open>src/coins.cpp\<close> with the database view of
  \<^verbatim>\<open>src/txdb.cpp\<close> at the bottom. A \<^verbatim>\<open>CCoinsViewCache\<close> sits on any other view and reads and writes it through the virtual
  functions of \<^verbatim>\<open>CCoinsView\<close>; the model passes them as a record of functions over the state of the base.

  A thrown \<^verbatim>\<open>std::logic_error\<close> and a failed assertion are \<open>None\<close>. The hash table of a cache is a finite map; the order in
  which \<^verbatim>\<open>BatchWrite\<close> visits it is a list of its entries that the caller chooses. Flags are the set of their bits.

  Outputs that can never be spent are not stored; \<^verbatim>\<open>IsUnspendable\<close> reads the asset data of a script and is an argument. The
  asset caches that \<^verbatim>\<open>AddCoins\<close> and \<^verbatim>\<open>SpendCoin\<close> update on request are not part of the model: the operations are those for
  a null \<^verbatim>\<open>assetsCache\<close>.
\<close>

section \<open>Coins and cache entries\<close>

record Coin =
  coin_out :: CTxOut
  fCoinBase :: bool
  coin_nHeight :: "31 word"

definition Coin_of :: "CTxOut \<Rightarrow> int \<Rightarrow> bool \<Rightarrow> Coin" where
  "Coin_of outIn nHeightIn fCoinBaseIn = \<lparr>coin_out = outIn, fCoinBase = fCoinBaseIn, coin_nHeight = word_of_int nHeightIn\<rparr>"

definition Coin_Clear :: Coin where
  "Coin_Clear = \<lparr>coin_out = CTxOut_SetNull, fCoinBase = False, coin_nHeight = 0\<rparr>"

definition IsSpent :: "Coin \<Rightarrow> bool" where
  "IsSpent c \<longleftrightarrow> CTxOut_IsNull (coin_out c)"

text \<open>
  The memory that a script owns outside its object: nothing up to 28 bytes, else a block of the size of the script
  with the overhead of the allocator on a 64-bit platform.
\<close>

definition MallocUsage :: "nat \<Rightarrow> u64" where
  "MallocUsage alloc = (if alloc = 0 then 0 else push_bit 4 (drop_bit 4 (of_nat alloc + 31)))"

definition DynamicMemoryUsage :: "Coin \<Rightarrow> u64" where
  "DynamicMemoryUsage c =
    MallocUsage (if length (scriptPubKey (coin_out c)) \<le> 28 then 0 else length (scriptPubKey (coin_out c)))"

datatype cache_flag = DIRTY | FRESH

record CCoinsCacheEntry =
  coin :: Coin
  flags :: "cache_flag set"

type_synonym coins_entries = "(COutPoint \<times> CCoinsCacheEntry) list"

text \<open>The virtual functions of a view whose state is \<open>'b\<close>.\<close>

record 'b CCoinsView =
  view_GetCoin :: "'b \<Rightarrow> COutPoint \<Rightarrow> Coin option \<times> 'b"
  view_GetBestBlock :: "'b \<Rightarrow> bytes \<times> 'b"
  view_BatchWrite :: "'b \<Rightarrow> coins_entries \<Rightarrow> bytes \<Rightarrow> (bool \<times> 'b) option"

section \<open>The cache\<close>

record 'b CCoinsViewCache =
  base :: 'b
  hashBlock :: bytes
  cacheCoins :: "COutPoint \<rightharpoonup> CCoinsCacheEntry"
  cachedCoinsUsage :: u64

definition CCoinsViewCache_new :: "'b \<Rightarrow> 'b CCoinsViewCache" where
  "CCoinsViewCache_new baseIn = \<lparr>base = baseIn, hashBlock = uint256_null, cacheCoins = Map.empty, cachedCoinsUsage = 0\<rparr>"

definition FetchCoin ::
  "'b CCoinsView \<Rightarrow> 'b CCoinsViewCache \<Rightarrow> COutPoint \<Rightarrow> CCoinsCacheEntry option \<times> 'b CCoinsViewCache" where
  "FetchCoin V c outpoint =
    (case cacheCoins c outpoint of
       Some e \<Rightarrow> (Some e, c)
     | None \<Rightarrow>
         (let (r, b) = view_GetCoin V (base c) outpoint; c = c\<lparr>base := b\<rparr> in
          case r of
            None \<Rightarrow> (None, c)
          | Some tmp \<Rightarrow>
              (let e = \<lparr>coin = tmp, flags = if IsSpent tmp then {FRESH} else {}\<rparr>
               in (Some e, c\<lparr>cacheCoins := (cacheCoins c)(outpoint \<mapsto> e),
                             cachedCoinsUsage := cachedCoinsUsage c + DynamicMemoryUsage tmp\<rparr>))))"

definition GetCoin :: "'b CCoinsView \<Rightarrow> 'b CCoinsViewCache \<Rightarrow> COutPoint \<Rightarrow> Coin option \<times> 'b CCoinsViewCache" where
  "GetCoin V c outpoint =
    (case FetchCoin V c outpoint of
       (Some e, c) \<Rightarrow> (if IsSpent (coin e) then None else Some (coin e), c)
     | (None, c) \<Rightarrow> (None, c))"

definition HaveCoin :: "'b CCoinsView \<Rightarrow> 'b CCoinsViewCache \<Rightarrow> COutPoint \<Rightarrow> bool \<times> 'b CCoinsViewCache" where
  "HaveCoin V c outpoint =
    (case FetchCoin V c outpoint of (Some e, c) \<Rightarrow> (\<not> IsSpent (coin e), c) | (None, c) \<Rightarrow> (False, c))"

definition HaveCoinInCache :: "'b CCoinsViewCache \<Rightarrow> COutPoint \<Rightarrow> bool" where
  "HaveCoinInCache c outpoint =
    (case cacheCoins c outpoint of Some e \<Rightarrow> \<not> IsSpent (coin e) | None \<Rightarrow> False)"

definition AccessCoin :: "'b CCoinsView \<Rightarrow> 'b CCoinsViewCache \<Rightarrow> COutPoint \<Rightarrow> Coin \<times> 'b CCoinsViewCache" where
  "AccessCoin V c outpoint =
    (case FetchCoin V c outpoint of (Some e, c) \<Rightarrow> (coin e, c) | (None, c) \<Rightarrow> (Coin_Clear, c))"

definition AddCoin ::
  "(script \<Rightarrow> bool) \<Rightarrow> 'b CCoinsViewCache \<Rightarrow> COutPoint \<Rightarrow> Coin \<Rightarrow> bool \<Rightarrow> 'b CCoinsViewCache option" where
  "AddCoin IsUnspendable c outpoint newcoin possible_overwrite =
    (if IsSpent newcoin then None
     else if IsUnspendable (scriptPubKey (coin_out newcoin)) then Some c
     else
       (let (it, usage) = (case cacheCoins c outpoint of
              None \<Rightarrow> (\<lparr>coin = Coin_Clear, flags = {}\<rparr>, cachedCoinsUsage c)
            | Some e \<Rightarrow> (e, cachedCoinsUsage c - DynamicMemoryUsage (coin e)))
        in if \<not> possible_overwrite \<and> \<not> IsSpent (coin it) then None
           else
             (let fresh = (\<not> possible_overwrite \<and> DIRTY \<notin> flags it);
                  e = \<lparr>coin = newcoin, flags = flags it \<union> {DIRTY} \<union> (if fresh then {FRESH} else {})\<rparr>
              in Some (c\<lparr>cacheCoins := (cacheCoins c)(outpoint \<mapsto> e),
                         cachedCoinsUsage := usage + DynamicMemoryUsage newcoin\<rparr>))))"

definition SpendCoin ::
  "'b CCoinsView \<Rightarrow> 'b CCoinsViewCache \<Rightarrow> COutPoint \<Rightarrow> Coin option \<times> 'b CCoinsViewCache" where
  "SpendCoin V c outpoint =
    (case FetchCoin V c outpoint of
       (None, c) \<Rightarrow> (None, c)
     | (Some it, c) \<Rightarrow>
         (let c = c\<lparr>cachedCoinsUsage := cachedCoinsUsage c - DynamicMemoryUsage (coin it)\<rparr> in
          (Some (coin it),
           if FRESH \<in> flags it then c\<lparr>cacheCoins := (cacheCoins c)(outpoint := None)\<rparr>
           else c\<lparr>cacheCoins := (cacheCoins c)(outpoint \<mapsto> \<lparr>coin = Coin_Clear, flags = flags it \<union> {DIRTY}\<rparr>)\<rparr>)))"

definition GetBestBlock :: "'b CCoinsView \<Rightarrow> 'b CCoinsViewCache \<Rightarrow> bytes \<times> 'b CCoinsViewCache" where
  "GetBestBlock V c =
    (let c = (if hashBlock c = uint256_null then (let (h, b) = view_GetBestBlock V (base c) in c\<lparr>base := b, hashBlock := h\<rparr>) else c)
     in (hashBlock c, c))"

definition SetBestBlock :: "'b CCoinsViewCache \<Rightarrow> bytes \<Rightarrow> 'b CCoinsViewCache" where
  "SetBestBlock c hashBlockIn = c\<lparr>hashBlock := hashBlockIn\<rparr>"

definition BatchWrite_entry :: "'b CCoinsViewCache \<Rightarrow> COutPoint \<times> CCoinsCacheEntry \<Rightarrow> 'b CCoinsViewCache option" where
  "BatchWrite_entry c = (\<lambda>(k, it).
    if DIRTY \<notin> flags it then Some c
    else (case cacheCoins c k of
        None \<Rightarrow>
          if \<not> (FRESH \<in> flags it \<and> IsSpent (coin it)) then
            Some (c\<lparr>cacheCoins := (cacheCoins c)(k \<mapsto> \<lparr>coin = coin it, flags = {DIRTY} \<union> (if FRESH \<in> flags it then {FRESH} else {})\<rparr>),
                    cachedCoinsUsage := cachedCoinsUsage c + DynamicMemoryUsage (coin it)\<rparr>)
          else Some c
      | Some itUs \<Rightarrow>
          if FRESH \<in> flags it \<and> \<not> IsSpent (coin itUs) then None
          else if FRESH \<in> flags itUs \<and> IsSpent (coin it) then
            Some (c\<lparr>cachedCoinsUsage := cachedCoinsUsage c - DynamicMemoryUsage (coin itUs), cacheCoins := (cacheCoins c)(k := None)\<rparr>)
          else
            Some (c\<lparr>cachedCoinsUsage := cachedCoinsUsage c - DynamicMemoryUsage (coin itUs) + DynamicMemoryUsage (coin it),
                    cacheCoins := (cacheCoins c)(k \<mapsto> \<lparr>coin = coin it, flags = flags itUs \<union> {DIRTY}\<rparr>)\<rparr>)))"

primrec BatchWrite_loop :: "'b CCoinsViewCache \<Rightarrow> coins_entries \<Rightarrow> 'b CCoinsViewCache option" where
  "BatchWrite_loop c [] = Some c"
| "BatchWrite_loop c (it # mapCoins) =
    (case BatchWrite_entry c it of None \<Rightarrow> None | Some c \<Rightarrow> BatchWrite_loop c mapCoins)"

definition BatchWrite :: "'b CCoinsViewCache \<Rightarrow> coins_entries \<Rightarrow> bytes \<Rightarrow> (bool \<times> 'b CCoinsViewCache) option" where
  "BatchWrite c mapCoins hashBlockIn = map_option (\<lambda>c. (True, c\<lparr>hashBlock := hashBlockIn\<rparr>)) (BatchWrite_loop c mapCoins)"

text \<open>\<open>mapCoins\<close> is the cache in the order in which the base visits it.\<close>

definition Flush :: "'b CCoinsView \<Rightarrow> 'b CCoinsViewCache \<Rightarrow> coins_entries \<Rightarrow> (bool \<times> 'b CCoinsViewCache) option" where
  "Flush V c mapCoins =
    (case view_BatchWrite V (base c) mapCoins (hashBlock c) of
       None \<Rightarrow> None
     | Some (fOk, b) \<Rightarrow> Some (fOk, c\<lparr>base := b, cacheCoins := Map.empty, cachedCoinsUsage := 0\<rparr>))"

definition Uncache :: "'b CCoinsViewCache \<Rightarrow> COutPoint \<Rightarrow> 'b CCoinsViewCache" where
  "Uncache c k =
    (case cacheCoins c k of
       None \<Rightarrow> c
     | Some e \<Rightarrow>
         if flags e = {} then
           c\<lparr>cachedCoinsUsage := cachedCoinsUsage c - DynamicMemoryUsage (coin e), cacheCoins := (cacheCoins c)(k := None)\<rparr>
         else c)"

definition GetCacheSize :: "'b CCoinsViewCache \<Rightarrow> nat" where
  "GetCacheSize c = card (dom (cacheCoins c))"

definition cache_view :: "'b CCoinsView \<Rightarrow> 'b CCoinsViewCache CCoinsView" where
  "cache_view V = \<lparr>view_GetCoin = GetCoin V, view_GetBestBlock = GetBestBlock V, view_BatchWrite = BatchWrite\<rparr>"

section \<open>Transactions over a cache\<close>

primrec GetValueIn_loop :: "'b CCoinsView \<Rightarrow> 'b CCoinsViewCache \<Rightarrow> CTxIn list \<Rightarrow> int \<Rightarrow> int \<times> 'b CCoinsViewCache" where
  "GetValueIn_loop V c [] nResult = (nResult, c)"
| "GetValueIn_loop V c (txin # txins) nResult =
    (let (x, c) = AccessCoin V c (prevout txin) in GetValueIn_loop V c txins (nResult + nValue (coin_out x)))"

definition GetValueIn :: "'b CCoinsView \<Rightarrow> 'b CCoinsViewCache \<Rightarrow> CTransaction \<Rightarrow> int \<times> 'b CCoinsViewCache" where
  "GetValueIn V c tx = (if IsCoinBase tx then (0, c) else GetValueIn_loop V c (vin tx) 0)"

primrec HaveInputs_loop :: "'b CCoinsView \<Rightarrow> 'b CCoinsViewCache \<Rightarrow> CTxIn list \<Rightarrow> bool \<times> 'b CCoinsViewCache" where
  "HaveInputs_loop V c [] = (True, c)"
| "HaveInputs_loop V c (txin # txins) =
    (let (r, c) = HaveCoin V c (prevout txin) in if \<not> r then (False, c) else HaveInputs_loop V c txins)"

definition HaveInputs :: "'b CCoinsView \<Rightarrow> 'b CCoinsViewCache \<Rightarrow> CTransaction \<Rightarrow> bool \<times> 'b CCoinsViewCache" where
  "HaveInputs V c tx = (if \<not> IsCoinBase tx then HaveInputs_loop V c (vin tx) else (True, c))"

text \<open>The outputs of a transaction, from position \<open>i\<close> on.\<close>

primrec AddCoins_loop ::
  "(script \<Rightarrow> bool) \<Rightarrow> 'b CCoinsView \<Rightarrow> CTransaction \<Rightarrow> int \<Rightarrow> bool \<Rightarrow> CTxOut list \<Rightarrow> u32 \<Rightarrow> 'b CCoinsViewCache
    \<Rightarrow> 'b CCoinsViewCache option" where
  "AddCoins_loop IsUnspendable V tx height check [] i c = Some c"
| "AddCoins_loop IsUnspendable V tx height check (out # outs) i c =
    (let outpoint = \<lparr>op_hash = tx_hash tx, op_n = i\<rparr>;
         (overwrite, c) = (if check then HaveCoin V c outpoint else (IsCoinBase tx, c))
     in case AddCoin IsUnspendable c outpoint (Coin_of out height (IsCoinBase tx)) overwrite of
          None \<Rightarrow> None
        | Some c \<Rightarrow> AddCoins_loop IsUnspendable V tx height check outs (i + 1) c)"

definition AddCoins ::
  "(script \<Rightarrow> bool) \<Rightarrow> 'b CCoinsView \<Rightarrow> 'b CCoinsViewCache \<Rightarrow> CTransaction \<Rightarrow> int \<Rightarrow> bool \<Rightarrow> 'b CCoinsViewCache option" where
  "AddCoins IsUnspendable V c tx height check = AddCoins_loop IsUnspendable V tx height check (vout tx) 0 c"

definition MIN_TRANSACTION_OUTPUT_WEIGHT :: nat where
  "MIN_TRANSACTION_OUTPUT_WEIGHT = 4 * 9"

function AccessByTxid_loop :: "'b CCoinsView \<Rightarrow> 'b CCoinsViewCache \<Rightarrow> bytes \<Rightarrow> nat \<Rightarrow> Coin \<times> 'b CCoinsViewCache" where
  "AccessByTxid_loop V c txid n =
    (if n < GetMaxBlockWeight div MIN_TRANSACTION_OUTPUT_WEIGHT then
       (let (alternate, c) = AccessCoin V c \<lparr>op_hash = txid, op_n = of_nat n\<rparr>
        in if \<not> IsSpent alternate then (alternate, c) else AccessByTxid_loop V c txid (n + 1))
     else (Coin_Clear, c))"
  by pat_completeness auto
termination by (relation "measure (\<lambda>(V, c, txid, n). GetMaxBlockWeight div MIN_TRANSACTION_OUTPUT_WEIGHT - n)") auto

declare AccessByTxid_loop.simps [simp del]

definition AccessByTxid :: "'b CCoinsView \<Rightarrow> 'b CCoinsViewCache \<Rightarrow> bytes \<Rightarrow> Coin \<times> 'b CCoinsViewCache" where
  "AccessByTxid V c txid = AccessByTxid_loop V c txid 0"

section \<open>The database view\<close>

text \<open>
  The records that the view keeps in the key-value store: coins by outpoint, the hash of the best block, and during a
  write the pair of the new and the old hash. The store commits a batch of writes at once.
\<close>

record coins_db =
  db_coins :: "COutPoint \<rightharpoonup> Coin"
  db_best :: "bytes option"
  db_heads :: "bytes list option"

datatype db_write = WriteCoin COutPoint Coin | EraseCoin COutPoint | WriteBest bytes | EraseBest | WriteHeads "bytes list" | EraseHeads

primrec db_apply :: "db_write \<Rightarrow> coins_db \<Rightarrow> coins_db" where
  "db_apply (WriteCoin k c) d = d\<lparr>db_coins := (db_coins d)(k \<mapsto> c)\<rparr>"
| "db_apply (EraseCoin k) d = d\<lparr>db_coins := (db_coins d)(k := None)\<rparr>"
| "db_apply (WriteBest h) d = d\<lparr>db_best := Some h\<rparr>"
| "db_apply EraseBest d = d\<lparr>db_best := None\<rparr>"
| "db_apply (WriteHeads hs) d = d\<lparr>db_heads := Some hs\<rparr>"
| "db_apply EraseHeads d = d\<lparr>db_heads := None\<rparr>"

definition db_WriteBatch :: "db_write list \<Rightarrow> coins_db \<Rightarrow> coins_db" where
  "db_WriteBatch batch d = fold db_apply batch d"

definition db_GetCoin :: "coins_db \<Rightarrow> COutPoint \<Rightarrow> Coin option" where
  "db_GetCoin d outpoint = db_coins d outpoint"

definition db_HaveCoin :: "coins_db \<Rightarrow> COutPoint \<Rightarrow> bool" where
  "db_HaveCoin d outpoint \<longleftrightarrow> db_coins d outpoint \<noteq> None"

definition db_GetBestBlock :: "coins_db \<Rightarrow> bytes" where
  "db_GetBestBlock d = (case db_best d of None \<Rightarrow> uint256_null | Some h \<Rightarrow> h)"

definition db_GetHeadBlocks :: "coins_db \<Rightarrow> bytes list" where
  "db_GetHeadBlocks d = (case db_heads d of None \<Rightarrow> [] | Some hs \<Rightarrow> hs)"

text \<open>
  The batches that \<^verbatim>\<open>CCoinsViewDB::BatchWrite\<close> commits one after the other; \<open>full\<close> tells of a batch whether its size estimate exceeds
  \<^verbatim>\<open>-dbbatchsize\<close>.
\<close>

definition db_entry :: "COutPoint \<times> CCoinsCacheEntry \<Rightarrow> db_write list" where
  "db_entry = (\<lambda>(k, it). if DIRTY \<in> flags it then [if IsSpent (coin it) then EraseCoin k else WriteCoin k (coin it)] else [])"

primrec db_batches :: "(db_write list \<Rightarrow> bool) \<Rightarrow> db_write list \<Rightarrow> coins_entries \<Rightarrow> bytes \<Rightarrow> db_write list list" where
  "db_batches full batch [] newhash = [batch @ [EraseHeads, WriteBest newhash]]"
| "db_batches full batch (it # mapCoins) newhash =
    (let batch = batch @ db_entry it
     in if full batch then batch # db_batches full [] mapCoins newhash else db_batches full batch mapCoins newhash)"

definition db_old_tip :: "coins_db \<Rightarrow> bytes \<Rightarrow> bytes option" where
  "db_old_tip d newhash =
    (if db_GetBestBlock d = uint256_null then
       (if length (db_GetHeadBlocks d) = 2 then
          (if db_GetHeadBlocks d ! 0 = newhash then Some (db_GetHeadBlocks d ! 1) else None)
        else Some (db_GetBestBlock d))
     else Some (db_GetBestBlock d))"

definition db_BatchWrite_batches ::
  "(db_write list \<Rightarrow> bool) \<Rightarrow> coins_db \<Rightarrow> coins_entries \<Rightarrow> bytes \<Rightarrow> db_write list list option" where
  "db_BatchWrite_batches full d mapCoins newhash =
    (if newhash = uint256_null then None
     else map_option (\<lambda>old_tip. db_batches full [EraseBest, WriteHeads [newhash, old_tip]] mapCoins newhash) (db_old_tip d newhash))"

definition db_BatchWrite :: "(db_write list \<Rightarrow> bool) \<Rightarrow> coins_db \<Rightarrow> coins_entries \<Rightarrow> bytes \<Rightarrow> (bool \<times> coins_db) option" where
  "db_BatchWrite full d mapCoins newhash =
    map_option (\<lambda>batches. (True, fold db_WriteBatch batches d)) (db_BatchWrite_batches full d mapCoins newhash)"

definition db_view :: "(db_write list \<Rightarrow> bool) \<Rightarrow> coins_db CCoinsView" where
  "db_view full = \<lparr>view_GetCoin = (\<lambda>d k. (db_GetCoin d k, d)), view_GetBestBlock = (\<lambda>d. (db_GetBestBlock d, d)),
    view_BatchWrite = db_BatchWrite full\<rparr>"

end
