(* ===== verification/Connect.thy ===== *)
theory Connect
  imports Coins Pow
begin

text \<open>
  How a block changes the set of unspent coins: the amounts of \<^verbatim>\<open>src/consensus/tx_verify.cpp\<close> (\<^verbatim>\<open>CheckTxInputs\<close>), and of
  \<^verbatim>\<open>src/validation.cpp\<close> the subsidy, \<^verbatim>\<open>UpdateCoins\<close> with its undo data, the steps of \<^verbatim>\<open>ConnectBlock\<close> that move money, and
  \<^verbatim>\<open>DisconnectBlock\<close>, which reads the undo data backwards.

  The model is that of a null asset cache, which is what moves money, and without the optional address and spent indexes. The other checks of
  \<^verbatim>\<open>ConnectBlock\<close> (scripts, signature operations, time locks, asset rules) only reject blocks and are not part of it. Whether the values
  of outputs with asset scripts are counted (\<^verbatim>\<open>AreEnforcedValuesDeployed\<close>) is a field of the environment. \<open>IsUnspendable\<close> and \<open>IsAssetScript\<close> read the asset data of a script and are arguments. A validation that
  fails is \<open>Inl\<close> of its reason; a failed assertion or an exception is \<open>None\<close>.
\<close>

section \<open>Amounts\<close>

definition COINBASE_MATURITY :: int where "COINBASE_MATURITY = 100"

definition GetBlockSubsidy :: "int \<Rightarrow> Params \<Rightarrow> int" where
  "GetBlockSubsidy height params =
    (let halvings = height sdiv nSubsidyHalvingInterval params
     in if halvings \<ge> 64 then 0 else drop_bit (nat halvings) (5000 * COIN))"

text \<open>The sum of the outputs. \<open>None\<close> is the exception for a value out of range.\<close>

primrec GetValueOut_loop :: "(script \<Rightarrow> bool) \<Rightarrow> bool \<Rightarrow> CTxOut list \<Rightarrow> int \<Rightarrow> int option" where
  "GetValueOut_loop IsAssetScript fAreEnforcedValues [] nValueOut = Some nValueOut"
| "GetValueOut_loop IsAssetScript fAreEnforcedValues (tx_out # outs) nValueOut =
    (if \<not> fAreEnforcedValues \<and> IsAssetScript (scriptPubKey tx_out) then GetValueOut_loop IsAssetScript fAreEnforcedValues outs nValueOut
     else
       (let nValueOut = nValueOut + nValue tx_out
        in if \<not> MoneyRange (nValue tx_out) \<or> \<not> MoneyRange nValueOut then None
           else GetValueOut_loop IsAssetScript fAreEnforcedValues outs nValueOut))"

definition GetValueOut :: "(script \<Rightarrow> bool) \<Rightarrow> bool \<Rightarrow> CTransaction \<Rightarrow> int option" where
  "GetValueOut IsAssetScript fAreEnforcedValues tx = GetValueOut_loop IsAssetScript fAreEnforcedValues (vout tx) 0"

primrec CheckTxInputs_loop ::
  "'b CCoinsView \<Rightarrow> 'b CCoinsViewCache \<Rightarrow> int \<Rightarrow> CTxIn list \<Rightarrow> int \<Rightarrow> ((string + int) \<times> 'b CCoinsViewCache) option" where
  "CheckTxInputs_loop V c nSpendHeight [] nValueIn = Some (Inr nValueIn, c)"
| "CheckTxInputs_loop V c nSpendHeight (txin # txins) nValueIn =
    (let (x, c) = AccessCoin V c (prevout txin)
     in if IsSpent x then None
        else if fCoinBase x \<and> nSpendHeight - uint (coin_nHeight x) < COINBASE_MATURITY then
          Some (Inl ''bad-txns-premature-spend-of-coinbase'', c)
        else
          (let nValueIn = nValueIn + nValue (coin_out x)
           in if \<not> MoneyRange (nValue (coin_out x)) \<or> \<not> MoneyRange nValueIn then Some (Inl ''bad-txns-inputvalues-outofrange'', c)
              else CheckTxInputs_loop V c nSpendHeight txins nValueIn))"

definition CheckTxInputs ::
  "(script \<Rightarrow> bool) \<Rightarrow> bool \<Rightarrow> 'b CCoinsView \<Rightarrow> 'b CCoinsViewCache \<Rightarrow> CTransaction \<Rightarrow> int \<Rightarrow> ((string + int) \<times> 'b CCoinsViewCache) option" where
  "CheckTxInputs IsAssetScript fAreEnforcedValues V c tx nSpendHeight =
    (let (have, c) = HaveInputs V c tx
     in if \<not> have then Some (Inl ''bad-txns-inputs-missingorspent'', c)
        else (case CheckTxInputs_loop V c nSpendHeight (vin tx) 0 of
            None \<Rightarrow> None
          | Some (Inl reason, c) \<Rightarrow> Some (Inl reason, c)
          | Some (Inr nValueIn, c) \<Rightarrow>
              (case GetValueOut IsAssetScript fAreEnforcedValues tx of
                 None \<Rightarrow> None
               | Some value_out \<Rightarrow>
                   if nValueIn < value_out then Some (Inl ''bad-txns-in-belowout'', c)
                   else if \<not> MoneyRange (nValueIn - value_out) then Some (Inl ''bad-txns-fee-out-of-range'', c)
                   else Some (Inr (nValueIn - value_out), c))))"

section \<open>Spending and undo data\<close>

type_synonym CTxUndo = "Coin list"

primrec UpdateCoins_loop :: "'b CCoinsView \<Rightarrow> 'b CCoinsViewCache \<Rightarrow> CTxIn list \<Rightarrow> CTxUndo \<Rightarrow> (CTxUndo \<times> 'b CCoinsViewCache) option" where
  "UpdateCoins_loop V c [] vprevout = Some (vprevout, c)"
| "UpdateCoins_loop V c (txin # txins) vprevout =
    (case SpendCoin V c (prevout txin) of
       (None, c) \<Rightarrow> None
     | (Some x, c) \<Rightarrow> UpdateCoins_loop V c txins (vprevout @ [x]))"

definition UpdateCoins ::
  "(script \<Rightarrow> bool) \<Rightarrow> 'b CCoinsView \<Rightarrow> CTransaction \<Rightarrow> 'b CCoinsViewCache \<Rightarrow> int \<Rightarrow> (CTxUndo \<times> 'b CCoinsViewCache) option" where
  "UpdateCoins IsUnspendable V tx inputs height =
    (case (if \<not> IsCoinBase tx then UpdateCoins_loop V inputs (vin tx) [] else Some ([], inputs)) of
       None \<Rightarrow> None
     | Some (txundo, inputs) \<Rightarrow> map_option (Pair txundo) (AddCoins IsUnspendable V inputs tx height False))"

section \<open>Connecting a block\<close>

text \<open>
  The loop of \<^verbatim>\<open>ConnectBlock\<close> over the transactions from position \<open>i\<close> on, with the fees and the undo data so far.
\<close>

record connect_env =
  env_IsUnspendable :: "script \<Rightarrow> bool"
  env_IsAssetScript :: "script \<Rightarrow> bool"
  env_enforced :: bool

primrec ConnectBlock_loop ::
  "connect_env \<Rightarrow> 'b CCoinsView \<Rightarrow> int \<Rightarrow> CTransaction list \<Rightarrow> nat \<Rightarrow> int \<Rightarrow> CTxUndo list \<Rightarrow> 'b CCoinsViewCache
    \<Rightarrow> ((string + int \<times> CTxUndo list) \<times> 'b CCoinsViewCache) option" where
  "ConnectBlock_loop env V height [] i nFees vtxundo view = Some (Inr (nFees, vtxundo), view)"
| "ConnectBlock_loop env V height (tx # txs) i nFees vtxundo view =
    (case (if \<not> IsCoinBase tx then CheckTxInputs (env_IsAssetScript env) (env_enforced env) V view tx height else Some (Inr 0, view)) of
       None \<Rightarrow> None
     | Some (Inl reason, view) \<Rightarrow> Some (Inl reason, view)
     | Some (Inr txfee, view) \<Rightarrow>
         (let nFees = nFees + txfee
          in if \<not> IsCoinBase tx \<and> \<not> MoneyRange nFees then Some (Inl ''bad-txns-accumulated-fee-outofrange'', view)
             else (case UpdateCoins (env_IsUnspendable env) V tx view height of
                 None \<Rightarrow> None
               | Some (txundo, view) \<Rightarrow>
                   ConnectBlock_loop env V height txs (i + 1) nFees (if i > 0 then vtxundo @ [txundo] else vtxundo) view)))"

definition ConnectBlock ::
  "connect_env \<Rightarrow> Params \<Rightarrow> 'b CCoinsView \<Rightarrow> CTransaction list \<Rightarrow> int \<Rightarrow> bytes \<Rightarrow> 'b CCoinsViewCache
    \<Rightarrow> ((string + CTxUndo list) \<times> 'b CCoinsViewCache) option" where
  "ConnectBlock env params V vtx height hash view =
    (case ConnectBlock_loop env V height vtx 0 0 [] view of
       None \<Rightarrow> None
     | Some (Inl reason, view) \<Rightarrow> Some (Inl reason, view)
     | Some (Inr (nFees, vtxundo), view) \<Rightarrow>
         (let blockReward = nFees + GetBlockSubsidy height params
          in if vtx = [] then None
             else (case GetValueOut (env_IsAssetScript env) (env_enforced env) (vtx ! 0) of
                 None \<Rightarrow> None
               | Some value_out \<Rightarrow>
                   if value_out > blockReward then Some (Inl ''bad-cb-amount'', view)
                   else Some (Inr vtxundo, SetBestBlock view hash))))"

section \<open>Disconnecting a block\<close>

datatype DisconnectResult = DISCONNECT_OK | DISCONNECT_UNCLEAN | DISCONNECT_FAILED

definition ApplyTxInUndo ::
  "(script \<Rightarrow> bool) \<Rightarrow> 'b CCoinsView \<Rightarrow> Coin \<Rightarrow> 'b CCoinsViewCache \<Rightarrow> COutPoint \<Rightarrow> (DisconnectResult \<times> 'b CCoinsViewCache) option" where
  "ApplyTxInUndo IsUnspendable V undo view out =
    (let (have, view) = HaveCoin V view out;
         fClean = \<not> have;
         (undo, view) =
           (if coin_nHeight undo = 0 then
              (let (alternate, view) = AccessByTxid V view (op_hash out)
               in if \<not> IsSpent alternate then
                    (Some (undo\<lparr>coin_nHeight := coin_nHeight alternate, fCoinBase := fCoinBase alternate\<rparr>), view)
                  else (None, view))
            else (Some undo, view))
     in case undo of
          None \<Rightarrow> Some (DISCONNECT_FAILED, view)
        | Some undo \<Rightarrow>
            map_option (Pair (if fClean then DISCONNECT_OK else DISCONNECT_UNCLEAN)) (AddCoin IsUnspendable view out undo (\<not> fClean)))"

text \<open>The outputs of a transaction from position \<open>o\<close> on are removed, and compared with the block.\<close>

primrec DisconnectBlock_outputs ::
  "(script \<Rightarrow> bool) \<Rightarrow> 'b CCoinsView \<Rightarrow> int \<Rightarrow> bytes \<Rightarrow> bool \<Rightarrow> CTxOut list \<Rightarrow> u32 \<Rightarrow> bool \<Rightarrow> 'b CCoinsViewCache \<Rightarrow> bool \<times> 'b CCoinsViewCache" where
  "DisconnectBlock_outputs IsUnspendable V height hash is_coinbase [] pos fClean view = (fClean, view)"
| "DisconnectBlock_outputs IsUnspendable V height hash is_coinbase (txout # outs) pos fClean view =
    (if \<not> IsUnspendable (scriptPubKey txout) then
       (let (spent, view) = SpendCoin V view \<lparr>op_hash = hash, op_n = pos\<rparr>;
            fClean =
              (case spent of
                 None \<Rightarrow> False
               | Some x \<Rightarrow>
                   if txout \<noteq> coin_out x \<or> height \<noteq> uint (coin_nHeight x) \<or> is_coinbase \<noteq> fCoinBase x then False else fClean)
        in DisconnectBlock_outputs IsUnspendable V height hash is_coinbase outs (pos + 1) fClean view)
     else DisconnectBlock_outputs IsUnspendable V height hash is_coinbase outs (pos + 1) fClean view)"

text \<open>The inputs are restored from the last one to the first; \<open>j\<close> are left.\<close>

primrec DisconnectBlock_inputs ::
  "(script \<Rightarrow> bool) \<Rightarrow> 'b CCoinsView \<Rightarrow> CTxIn list \<Rightarrow> CTxUndo \<Rightarrow> nat \<Rightarrow> bool \<Rightarrow> 'b CCoinsViewCache
    \<Rightarrow> (bool option \<times> 'b CCoinsViewCache) option" where
  "DisconnectBlock_inputs IsUnspendable V txins vprevout 0 fClean view = Some (Some fClean, view)"
| "DisconnectBlock_inputs IsUnspendable V txins vprevout (Suc j) fClean view =
    (case ApplyTxInUndo IsUnspendable V (vprevout ! j) view (prevout (txins ! j)) of
       None \<Rightarrow> None
     | Some (res, view) \<Rightarrow>
         if res = DISCONNECT_FAILED then Some (None, view)
         else DisconnectBlock_inputs IsUnspendable V txins vprevout j (fClean \<and> res \<noteq> DISCONNECT_UNCLEAN) view)"

text \<open>The transactions are undone from the last one to the first; \<open>i\<close> are left. \<open>Some None\<close> is a failure.\<close>

primrec DisconnectBlock_loop ::
  "(script \<Rightarrow> bool) \<Rightarrow> 'b CCoinsView \<Rightarrow> int \<Rightarrow> CTransaction list \<Rightarrow> CTxUndo list \<Rightarrow> nat \<Rightarrow> bool \<Rightarrow> 'b CCoinsViewCache
    \<Rightarrow> (bool option \<times> 'b CCoinsViewCache) option" where
  "DisconnectBlock_loop IsUnspendable V height vtx vtxundo 0 fClean view = Some (Some fClean, view)"
| "DisconnectBlock_loop IsUnspendable V height vtx vtxundo (Suc i) fClean view =
    (let tx = vtx ! i;
         (fClean, view) = DisconnectBlock_outputs IsUnspendable V height (tx_hash tx) (IsCoinBase tx) (vout tx) 0 fClean view
     in if i > 0 then
          (let vprevout = vtxundo ! (i - 1)
           in if length vprevout \<noteq> length (vin tx) then Some (None, view)
              else (case DisconnectBlock_inputs IsUnspendable V (vin tx) vprevout (length (vin tx)) fClean view of
                  None \<Rightarrow> None
                | Some (None, view) \<Rightarrow> Some (None, view)
                | Some (Some fClean, view) \<Rightarrow> DisconnectBlock_loop IsUnspendable V height vtx vtxundo i fClean view))
        else DisconnectBlock_loop IsUnspendable V height vtx vtxundo i fClean view)"

text \<open>
  The undo data is what \<^verbatim>\<open>UndoReadFromDisk\<close> returns for the position of the index entry; \<open>prev_hash\<close> is the hash of the
  block before.
\<close>

definition DisconnectBlock ::
  "(script \<Rightarrow> bool) \<Rightarrow> 'b CCoinsView \<Rightarrow> CTransaction list \<Rightarrow> CTxUndo list \<Rightarrow> int \<Rightarrow> bytes \<Rightarrow> 'b CCoinsViewCache
    \<Rightarrow> (DisconnectResult \<times> 'b CCoinsViewCache) option" where
  "DisconnectBlock IsUnspendable V vtx vtxundo height prev_hash view =
    (if length vtxundo + 1 \<noteq> length vtx then Some (DISCONNECT_FAILED, view)
     else (case DisconnectBlock_loop IsUnspendable V height vtx vtxundo (length vtx) True view of
         None \<Rightarrow> None
       | Some (None, view) \<Rightarrow> Some (DISCONNECT_FAILED, view)
       | Some (Some fClean, view) \<Rightarrow>
           Some (if fClean then DISCONNECT_OK else DISCONNECT_UNCLEAN, SetBestBlock view prev_hash)))"

end
