(* ===== verification/Coins_Refine.thy ===== *)
theory Coins_Refine
  imports Coins
begin

text \<open>
  What a stack of coin views promises: it behaves like one map from outpoints to unspent coins. The locale
  \<open>coins_view\<close> is the contract of \<^verbatim>\<open>CCoinsView\<close>, which a cache relies on and which the cache gives in turn, so that
  caches can be stacked; the database view is the bottom. The flags are what makes this delicate: an entry may be
  marked \<open>FRESH\<close>, and then be dropped without a trace, only if the base has no coin there.
\<close>

section \<open>The contract of a view\<close>

type_synonym utxo_map = "COutPoint \<Rightarrow> Coin option"

definition unspent :: "Coin \<Rightarrow> Coin option" where
  "unspent c = (if IsSpent c then None else Some c)"

text \<open>The effect of a batch of entries, and the batches that may be written to a view.\<close>

definition apply_entries :: "coins_entries \<Rightarrow> utxo_map \<Rightarrow> utxo_map" where
  "apply_entries es u k =
    (case map_of es k of Some e \<Rightarrow> if DIRTY \<in> flags e then unspent (coin e) else u k | None \<Rightarrow> u k)"

definition fits :: "utxo_map \<Rightarrow> coins_entries \<Rightarrow> bool" where
  "fits u es \<longleftrightarrow> distinct (map fst es) \<and> (\<forall>(k, e)\<in>set es. FRESH \<in> flags e \<longrightarrow> u k = None)"

definition entry_ok :: "Coin option \<Rightarrow> CCoinsCacheEntry \<Rightarrow> bool" where
  "entry_ok u e \<longleftrightarrow> (FRESH \<in> flags e \<longrightarrow> u = None) \<and> (DIRTY \<notin> flags e \<longrightarrow> u = unspent (coin e))"

definition usage_of :: "(COutPoint \<rightharpoonup> CCoinsCacheEntry) \<Rightarrow> u64" where
  "usage_of m = (\<Sum>k\<in>dom m. DynamicMemoryUsage (coin (the (m k))))"

lemma IsSpent_Clear [simp]: "IsSpent Coin_Clear"
  by (simp add: IsSpent_def Coin_Clear_def CTxOut_SetNull_def CTxOut_IsNull_def)

lemma unspent_Clear [simp]: "unspent Coin_Clear = None"
  by (simp add: unspent_def)

lemma usage_Clear [simp]: "DynamicMemoryUsage Coin_Clear = 0"
  by (simp add: DynamicMemoryUsage_def Coin_Clear_def CTxOut_SetNull_def MallocUsage_def)

lemma usage_of_delete:
  "finite (dom m) \<Longrightarrow> m k = Some e \<Longrightarrow> usage_of (m(k := None)) = usage_of m - DynamicMemoryUsage (coin e)"
proof -
  assume fin: "finite (dom m)" and e: "m k = Some e"
  have "usage_of m = DynamicMemoryUsage (coin e) + (\<Sum>j\<in>dom m - {k}. DynamicMemoryUsage (coin (the (m j))))"
    unfolding usage_of_def using e sum.remove [OF fin, of k "\<lambda>j. DynamicMemoryUsage (coin (the (m j)))"] by (simp add: domIff)
  moreover have "usage_of (m(k := None)) = (\<Sum>j\<in>dom m - {k}. DynamicMemoryUsage (coin (the (m j))))"
    unfolding usage_of_def by (rule sum.cong) auto
  ultimately show ?thesis by simp
qed

lemma usage_of_insert:
  assumes "finite (dom m)"
  shows "usage_of (m(k \<mapsto> e)) =
    (case m k of None \<Rightarrow> usage_of m | Some e' \<Rightarrow> usage_of m - DynamicMemoryUsage (coin e')) + DynamicMemoryUsage (coin e)"
proof -
  have new: "usage_of (n(k \<mapsto> e)) = usage_of n + DynamicMemoryUsage (coin e)" if "finite (dom n)" "n k = None" for n
  proof -
    have "usage_of (n(k \<mapsto> e)) = DynamicMemoryUsage (coin e) + (\<Sum>j\<in>dom n. DynamicMemoryUsage (coin (the ((n(k \<mapsto> e)) j))))"
      unfolding usage_of_def using that by (simp add: domIff)
    also have "(\<Sum>j\<in>dom n. DynamicMemoryUsage (coin (the ((n(k \<mapsto> e)) j)))) = usage_of n"
      unfolding usage_of_def using that by (intro sum.cong) auto
    finally show ?thesis by (rule trans) (rule add.commute)
  qed
  show ?thesis
  proof (cases "m k")
    case None
    with new [of m] assms show ?thesis by simp
  next
    case (Some e')
    with new [of "m(k := None)"] usage_of_delete [OF assms Some] assms show ?thesis by simp
  qed
qed

locale coins_view =
  fixes V :: "'b CCoinsView"
    and utxo :: "'b \<Rightarrow> utxo_map"
    and ok :: "'b \<Rightarrow> bool"
  assumes utxo_unspent: "ok b \<Longrightarrow> utxo b k = Some x \<Longrightarrow> \<not> IsSpent x"
    and view_get: "ok b \<Longrightarrow> view_GetCoin V b k = (r, b') \<Longrightarrow> r = utxo b k \<and> utxo b' = utxo b \<and> ok b'"
    and view_best: "ok b \<Longrightarrow> view_GetBestBlock V b = (h, b') \<Longrightarrow> utxo b' = utxo b \<and> ok b'"
    and view_write: "ok b \<Longrightarrow> fits (utxo b) es \<Longrightarrow> h \<noteq> uint256_null \<Longrightarrow>
      \<exists>b'. view_BatchWrite V b es h = Some (True, b') \<and> ok b' \<and> utxo b' = apply_entries es (utxo b)"

text \<open>The map that a cache stands for, and its invariant.\<close>

definition cache_utxo :: "('b \<Rightarrow> utxo_map) \<Rightarrow> 'b CCoinsViewCache \<Rightarrow> utxo_map" where
  "cache_utxo utxo c k = (case cacheCoins c k of Some e \<Rightarrow> unspent (coin e) | None \<Rightarrow> utxo (base c) k)"

definition cache_ok :: "('b \<Rightarrow> utxo_map) \<Rightarrow> ('b \<Rightarrow> bool) \<Rightarrow> 'b CCoinsViewCache \<Rightarrow> bool" where
  "cache_ok utxo ok c \<longleftrightarrow> ok (base c) \<and> finite (dom (cacheCoins c)) \<and>
    (\<forall>k e. cacheCoins c k = Some e \<longrightarrow> entry_ok (utxo (base c) k) e) \<and>
    cachedCoinsUsage c = usage_of (cacheCoins c)"

lemma cache_okD:
  assumes "cache_ok utxo ok c"
  shows "ok (base c)" "finite (dom (cacheCoins c))" "cachedCoinsUsage c = usage_of (cacheCoins c)"
    "cacheCoins c k = Some e \<Longrightarrow> entry_ok (utxo (base c) k) e"
  using assms by (simp_all add: cache_ok_def)

text \<open>The two ways in which an operation changes the table.\<close>

lemma cache_ok_put:
  assumes "cache_ok utxo ok c" and "entry_ok (utxo (base c) k) e"
    and "c' = c\<lparr>cacheCoins := (cacheCoins c)(k \<mapsto> e), cachedCoinsUsage := usage_of ((cacheCoins c)(k \<mapsto> e))\<rparr>"
  shows "cache_ok utxo ok c'" and "cache_utxo utxo c' = (cache_utxo utxo c)(k := unspent (coin e))"
  using assms by (auto simp: cache_ok_def cache_utxo_def fun_eq_iff split: option.split)

lemma cache_ok_drop:
  assumes "cache_ok utxo ok c" and "cacheCoins c k \<noteq> None"
    and "c' = c\<lparr>cacheCoins := (cacheCoins c)(k := None), cachedCoinsUsage := usage_of ((cacheCoins c)(k := None))\<rparr>"
  shows "cache_ok utxo ok c'" and "cache_utxo utxo c' = (cache_utxo utxo c)(k := utxo (base c) k)"
  using assms by (auto simp: cache_ok_def cache_utxo_def fun_eq_iff split: option.split)

section \<open>The operations of a cache over a view\<close>

context coins_view begin

lemma fetch:
  assumes c: "cache_ok utxo ok c" and f: "FetchCoin V c k = (r, c')"
  shows "cache_ok utxo ok c' \<and> cache_utxo utxo c' = cache_utxo utxo c \<and> cacheCoins c' k = r \<and>
    (case r of None \<Rightarrow> cache_utxo utxo c k = None | Some e \<Rightarrow> unspent (coin e) = cache_utxo utxo c k)"
proof (cases "cacheCoins c k")
  case (Some e)
  with assms show ?thesis by (auto simp: FetchCoin_def cache_utxo_def split: option.split)
next
  case None
  obtain x b where g: "view_GetCoin V (base c) k = (x, b)" by (metis surj_pair)
  note get = view_get [OF cache_okD(1) [OF c] g]
  define c1 where "c1 = c\<lparr>base := b\<rparr>"
  have c1: "cache_ok utxo ok c1" "cache_utxo utxo c1 = cache_utxo utxo c"
    using c get by (simp_all add: c1_def cache_ok_def cache_utxo_def fun_eq_iff split: option.split)
  have u: "cache_utxo utxo c k = x" using None get by (simp add: cache_utxo_def)
  show ?thesis
  proof (cases x)
    case None': None
    with None g f c1 u show ?thesis by (auto simp: FetchCoin_def c1_def)
  next
    case (Some tmp)
    then have live: "\<not> IsSpent tmp" using utxo_unspent [OF cache_okD(1) [OF c], of k] get by metis
    define e where "e = \<lparr>coin = tmp, flags = {}\<rparr>"
    have "entry_ok (utxo (base c1) k) e" using Some live get by (auto simp: entry_ok_def e_def c1_def unspent_def)
    moreover have "r = Some e" and "c' = c1\<lparr>cacheCoins := (cacheCoins c1)(k \<mapsto> e), cachedCoinsUsage := usage_of ((cacheCoins c1)(k \<mapsto> e))\<rparr>"
      using f None g Some live cache_okD(2,3) [OF c]
      by (auto simp: FetchCoin_def Let_def e_def c1_def usage_of_insert)
    ultimately show ?thesis using cache_ok_put [OF c1(1), of k e c'] c1(2) u Some live
      by (auto simp: e_def unspent_def fun_eq_iff)
  qed
qed

lemma get:
  assumes c: "cache_ok utxo ok c" and f: "GetCoin V c k = (r, c')"
  shows "r = cache_utxo utxo c k \<and> cache_utxo utxo c' = cache_utxo utxo c \<and> cache_ok utxo ok c'"
proof -
  obtain x c1 where "FetchCoin V c k = (x, c1)" by (metis surj_pair)
  with fetch [OF c this] f show ?thesis by (auto simp: GetCoin_def unspent_def split: option.splits if_splits)
qed

lemma have_coin:
  assumes c: "cache_ok utxo ok c" and f: "HaveCoin V c k = (r, c')"
  shows "r = (cache_utxo utxo c k \<noteq> None) \<and> cache_utxo utxo c' = cache_utxo utxo c \<and> cache_ok utxo ok c'"
proof -
  obtain x c1 where "FetchCoin V c k = (x, c1)" by (metis surj_pair)
  with fetch [OF c this] f show ?thesis by (auto simp: HaveCoin_def unspent_def dest: sym split: option.splits if_splits)
qed

lemma access:
  assumes c: "cache_ok utxo ok c" and f: "AccessCoin V c k = (x, c')"
  shows "unspent x = cache_utxo utxo c k \<and> cache_utxo utxo c' = cache_utxo utxo c \<and> cache_ok utxo ok c'"
proof -
  obtain r c1 where "FetchCoin V c k = (r, c1)" by (metis surj_pair)
  with fetch [OF c this] f show ?thesis by (auto simp: AccessCoin_def split: option.splits)
qed

lemma best:
  assumes c: "cache_ok utxo ok c" and f: "GetBestBlock V c = (h, c')"
  shows "cache_utxo utxo c' = cache_utxo utxo c \<and> cache_ok utxo ok c'"
proof (cases "hashBlock c = uint256_null")
  case True
  obtain h' b where g: "view_GetBestBlock V (base c) = (h', b)" by (metis surj_pair)
  with view_best [OF cache_okD(1) [OF c] g] True c f show ?thesis
    by (auto simp: GetBestBlock_def cache_ok_def cache_utxo_def fun_eq_iff split: option.split)
qed (use c f in \<open>auto simp: GetBestBlock_def\<close>)

lemma add:
  assumes c: "cache_ok utxo ok c" and live: "\<not> IsSpent x" and new: "po \<or> cache_utxo utxo c k = None"
  shows "\<exists>c'. AddCoin dead c k x po = Some c' \<and> cache_ok utxo ok c' \<and>
    cache_utxo utxo c' = (if dead (scriptPubKey (coin_out x)) then cache_utxo utxo c else (cache_utxo utxo c)(k \<mapsto> x))"
proof (cases "dead (scriptPubKey (coin_out x))")
  case True
  then show ?thesis using c live by (simp add: AddCoin_def)
next
  case False
  define it where "it = (case cacheCoins c k of None \<Rightarrow> \<lparr>coin = Coin_Clear, flags = {}\<rparr> | Some e \<Rightarrow> e)"
  define e where "e = \<lparr>coin = x, flags = flags it \<union> {DIRTY} \<union> (if \<not> po \<and> DIRTY \<notin> flags it then {FRESH} else {})\<rparr>"
  define c' where "c' = c\<lparr>cacheCoins := (cacheCoins c)(k \<mapsto> e), cachedCoinsUsage := usage_of ((cacheCoins c)(k \<mapsto> e))\<rparr>"
  have spent: "IsSpent (coin it)" if "\<not> po"
    using new that by (auto simp: it_def cache_utxo_def unspent_def split: option.splits if_splits)
  have "utxo (base c) k = None" if "FRESH \<in> flags e"
  proof (cases "cacheCoins c k")
    case None
    then show ?thesis using that new by (auto simp: e_def it_def cache_utxo_def split: if_splits)
  next
    case (Some e')
    with cache_okD(4) [OF c Some] that new show ?thesis
      by (auto simp: e_def it_def entry_ok_def cache_utxo_def split: if_splits)
  qed
  then have "entry_ok (utxo (base c) k) e" by (auto simp: entry_ok_def e_def)
  note put = cache_ok_put [OF c this c'_def]
  have "AddCoin dead c k x po = Some c'"
    using False live spent cache_okD(2,3) [OF c]
    by (auto simp: AddCoin_def Let_def c'_def it_def e_def usage_of_insert split: option.splits)
  with put False live show ?thesis by (auto simp: e_def unspent_def)
qed

lemma spend:
  assumes c: "cache_ok utxo ok c" and f: "SpendCoin V c k = (r, c')"
  shows "Option.bind r unspent = cache_utxo utxo c k \<and> cache_ok utxo ok c' \<and> cache_utxo utxo c' = (cache_utxo utxo c)(k := None)"
proof -
  obtain x c1 where g: "FetchCoin V c k = (x, c1)" by (metis surj_pair)
  note fetch = fetch [OF c g]
  show ?thesis
  proof (cases x)
    case None
    with fetch f g show ?thesis by (auto simp: SpendCoin_def fun_eq_iff)
  next
    case (Some it)
    have it: "cacheCoins c1 k = Some it" and c1: "cache_ok utxo ok c1" and u: "cache_utxo utxo c1 = cache_utxo utxo c"
      and r: "unspent (coin it) = cache_utxo utxo c k" using fetch Some by auto
    note okD = cache_okD [OF c1]
    show ?thesis
    proof (cases "FRESH \<in> flags it")
      case True
      then have "utxo (base c1) k = None" using okD(4) [OF it] by (simp add: entry_ok_def)
      moreover have "c' = c1\<lparr>cacheCoins := (cacheCoins c1)(k := None), cachedCoinsUsage := usage_of ((cacheCoins c1)(k := None))\<rparr>"
        using True f g Some it okD(2,3) by (auto simp: SpendCoin_def Let_def usage_of_delete)
      ultimately show ?thesis
        using cache_ok_drop [OF c1, of k c'] it u r f g Some by (auto simp: SpendCoin_def Let_def fun_eq_iff)
    next
      case False
      define e where "e = \<lparr>coin = Coin_Clear, flags = flags it \<union> {DIRTY}\<rparr>"
      have "c' = c1\<lparr>cacheCoins := (cacheCoins c1)(k \<mapsto> e), cachedCoinsUsage := usage_of ((cacheCoins c1)(k \<mapsto> e))\<rparr>"
        using False f g Some it okD(2,3) by (auto simp: SpendCoin_def Let_def usage_of_insert e_def)
      moreover have "entry_ok (utxo (base c1) k) e" using False by (simp add: entry_ok_def e_def)
      ultimately show ?thesis
        using cache_ok_put [OF c1, of k e c'] u r f g Some by (auto simp: SpendCoin_def Let_def e_def)
    qed
  qed
qed

lemma uncache:
  assumes c: "cache_ok utxo ok c"
  shows "cache_ok utxo ok (Uncache c k) \<and> cache_utxo utxo (Uncache c k) = cache_utxo utxo c"
proof (cases "\<exists>e. cacheCoins c k = Some e \<and> flags e = {}")
  case True
  then obtain e where e: "cacheCoins c k = Some e" "flags e = {}" by blast
  have "Uncache c k = c\<lparr>cacheCoins := (cacheCoins c)(k := None), cachedCoinsUsage := usage_of ((cacheCoins c)(k := None))\<rparr>"
    using e cache_okD(2,3) [OF c] by (simp add: Uncache_def usage_of_delete)
  moreover have "utxo (base c) k = cache_utxo utxo c k"
    using cache_okD(4) [OF c e(1)] e by (simp add: entry_ok_def cache_utxo_def)
  ultimately show ?thesis using cache_ok_drop [OF c, of k "Uncache c k"] e by (auto simp: fun_eq_iff)
qed (use c in \<open>auto simp: Uncache_def split: option.splits\<close>)

lemma write_entry:
  assumes c: "cache_ok utxo ok c" and fresh: "FRESH \<in> flags it \<Longrightarrow> cache_utxo utxo c k = None"
  shows "\<exists>c'. BatchWrite_entry c (k, it) = Some c' \<and> cache_ok utxo ok c' \<and>
    cache_utxo utxo c' = (if DIRTY \<in> flags it then (cache_utxo utxo c)(k := unspent (coin it)) else cache_utxo utxo c)"
proof (cases "DIRTY \<in> flags it")
  case False
  then show ?thesis using c by (simp add: BatchWrite_entry_def)
next
  case True
  note okD = cache_okD [OF c]
  define put where "put e = c\<lparr>cacheCoins := (cacheCoins c)(k \<mapsto> e), cachedCoinsUsage := usage_of ((cacheCoins c)(k \<mapsto> e))\<rparr>" for e
  show ?thesis
  proof (cases "cacheCoins c k")
    case None
    then have u: "cache_utxo utxo c k = utxo (base c) k" by (simp add: cache_utxo_def)
    define e where "e = \<lparr>coin = coin it, flags = {DIRTY} \<union> (if FRESH \<in> flags it then {FRESH} else {})\<rparr>"
    show ?thesis
    proof (cases "FRESH \<in> flags it \<and> IsSpent (coin it)")
      case skip: True
      then show ?thesis using True None c fresh by (auto simp: BatchWrite_entry_def unspent_def fun_eq_iff)
    next
      case False
      have "entry_ok (utxo (base c) k) e" using fresh u by (auto simp: entry_ok_def e_def)
      from cache_ok_put [OF c this put_def] have "cache_ok utxo ok (put e) \<and> cache_utxo utxo (put e) = (cache_utxo utxo c)(k := unspent (coin it))"
        by (simp add: e_def)
      moreover have "BatchWrite_entry c (k, it) = Some (put e)"
        using True False None okD(2,3) by (auto simp: BatchWrite_entry_def put_def e_def usage_of_insert)
      ultimately show ?thesis using True by simp
    qed
  next
    case (Some itUs)
    then have u: "cache_utxo utxo c k = unspent (coin itUs)" by (simp add: cache_utxo_def)
    have ok_throw: "\<not> (FRESH \<in> flags it \<and> \<not> IsSpent (coin itUs))" using fresh u by (auto simp: unspent_def split: if_splits)
    show ?thesis
    proof (cases "FRESH \<in> flags itUs \<and> IsSpent (coin it)")
      case gone: True
      define c' where "c' = c\<lparr>cacheCoins := (cacheCoins c)(k := None), cachedCoinsUsage := usage_of ((cacheCoins c)(k := None))\<rparr>"
      have "utxo (base c) k = None" using okD(4) [OF Some] gone by (simp add: entry_ok_def)
      with cache_ok_drop [OF c _ c'_def] Some gone have "cache_ok utxo ok c' \<and> cache_utxo utxo c' = (cache_utxo utxo c)(k := unspent (coin it))"
        by (simp add: unspent_def)
      moreover have "BatchWrite_entry c (k, it) = Some c'"
        using True gone Some ok_throw okD(2,3) by (auto simp: BatchWrite_entry_def c'_def usage_of_delete)
      ultimately show ?thesis using True by simp
    next
      case False
      define e where "e = \<lparr>coin = coin it, flags = flags itUs \<union> {DIRTY}\<rparr>"
      have "entry_ok (utxo (base c) k) e" using okD(4) [OF Some] by (auto simp: entry_ok_def e_def)
      from cache_ok_put [OF c this put_def] have "cache_ok utxo ok (put e) \<and> cache_utxo utxo (put e) = (cache_utxo utxo c)(k := unspent (coin it))"
        by (simp add: e_def)
      moreover have "BatchWrite_entry c (k, it) = Some (put e)"
        using True False Some ok_throw okD(2,3) by (auto simp: BatchWrite_entry_def put_def e_def usage_of_insert)
      ultimately show ?thesis using True by simp
    qed
  qed
qed

lemma write_loop:
  "cache_ok utxo ok c \<Longrightarrow> fits (cache_utxo utxo c) es \<Longrightarrow>
    \<exists>c'. BatchWrite_loop c es = Some c' \<and> cache_ok utxo ok c' \<and> cache_utxo utxo c' = apply_entries es (cache_utxo utxo c)"
proof (induction es arbitrary: c)
  case Nil
  then show ?case by (simp add: apply_entries_def fun_eq_iff)
next
  case (Cons x es)
  obtain k it where x: "x = (k, it)" by (cases x)
  from Cons.prems(2) have fresh: "FRESH \<in> flags it \<Longrightarrow> cache_utxo utxo c k = None" and new: "k \<notin> fst ` set es"
    by (auto simp: fits_def x)
  from write_entry [OF Cons.prems(1) fresh] obtain c1 where c1: "BatchWrite_entry c (k, it) = Some c1" "cache_ok utxo ok c1"
    "cache_utxo utxo c1 = (if DIRTY \<in> flags it then (cache_utxo utxo c)(k := unspent (coin it)) else cache_utxo utxo c)" by blast
  have same: "j \<noteq> k \<Longrightarrow> cache_utxo utxo c1 j = cache_utxo utxo c j" for j using c1(3) by auto
  have "fits (cache_utxo utxo c1) es" using Cons.prems(2) new same unfolding fits_def x by force
  from Cons.IH [OF c1(2) this] obtain c' where c': "BatchWrite_loop c1 es = Some c'" "cache_ok utxo ok c'"
    "cache_utxo utxo c' = apply_entries es (cache_utxo utxo c1)" by blast
  have "map_of es k = None" using new by (simp add: map_of_eq_None_iff)
  then have "apply_entries es (cache_utxo utxo c1) = apply_entries (x # es) (cache_utxo utxo c)"
    using same c1(3) by (auto simp: apply_entries_def x fun_eq_iff split: option.split)
  with c1(1) c' show ?case by (simp add: x)
qed

lemma cache_write:
  assumes "cache_ok utxo ok c" and "fits (cache_utxo utxo c) es"
  shows "\<exists>c'. BatchWrite c es h = Some (True, c') \<and> cache_ok utxo ok c' \<and> cache_utxo utxo c' = apply_entries es (cache_utxo utxo c)"
proof -
  obtain c1 where c1: "BatchWrite_loop c es = Some c1" "cache_ok utxo ok c1" "cache_utxo utxo c1 = apply_entries es (cache_utxo utxo c)"
    using write_loop [OF assms] by blast
  have "cache_ok utxo ok (c1\<lparr>hashBlock := h\<rparr>)" "cache_utxo utxo (c1\<lparr>hashBlock := h\<rparr>) = cache_utxo utxo c1"
    using c1(2) by (simp_all add: cache_ok_def cache_utxo_def fun_eq_iff split: option.split)
  with c1 show ?thesis by (simp add: BatchWrite_def)
qed

text \<open>A cache over a view is a view.\<close>

lemma cache_is_view: "coins_view (cache_view V) (cache_utxo utxo) (cache_ok utxo ok)"
proof
  fix b k x assume b: "cache_ok utxo ok b" and "cache_utxo utxo b k = Some x"
  then show "\<not> IsSpent x"
    using utxo_unspent [OF cache_okD(1) [OF b]] by (auto simp: cache_utxo_def unspent_def split: option.splits if_splits)
next
  fix b k r b' assume "cache_ok utxo ok b" and "view_GetCoin (cache_view V) b k = (r, b')"
  then show "r = cache_utxo utxo b k \<and> cache_utxo utxo b' = cache_utxo utxo b \<and> cache_ok utxo ok b'"
    by (intro get) (simp_all add: cache_view_def)
next
  fix b h b' assume "cache_ok utxo ok b" and "view_GetBestBlock (cache_view V) b = (h, b')"
  then show "cache_utxo utxo b' = cache_utxo utxo b \<and> cache_ok utxo ok b'"
    by (intro best) (simp_all add: cache_view_def)
next
  fix b es h assume "cache_ok utxo ok b" and "fits (cache_utxo utxo b) es"
  from cache_write [OF this]
  show "\<exists>b'. view_BatchWrite (cache_view V) b es h = Some (True, b') \<and> cache_ok utxo ok b' \<and>
      cache_utxo utxo b' = apply_entries es (cache_utxo utxo b)"
    unfolding cache_view_def by simp
qed

lemma flush:
  assumes c: "cache_ok utxo ok c" and es: "map_of es = cacheCoins c" "distinct (map fst es)" and h: "hashBlock c \<noteq> uint256_null"
  shows "\<exists>c'. Flush V c es = Some (True, c') \<and> cache_ok utxo ok c' \<and> cache_utxo utxo c' = cache_utxo utxo c \<and>
    utxo (base c') = cache_utxo utxo c \<and> cacheCoins c' = Map.empty"
proof -
  note okD = cache_okD [OF c]
  have "fits (utxo (base c)) es"
    unfolding fits_def using es okD(4) by (auto simp: entry_ok_def map_of_eq_Some_iff [symmetric])
  from view_write [OF okD(1) this h] obtain b where b: "view_BatchWrite V (base c) es (hashBlock c) = Some (True, b)" "ok b"
    "utxo b = apply_entries es (utxo (base c))" by blast
  have "utxo b k = cache_utxo utxo c k" for k
    unfolding b(3) apply_entries_def cache_utxo_def es(1)
    using okD(4) [of k] by (auto simp: entry_ok_def split: option.split)
  then have "utxo b = cache_utxo utxo c" ..
  with b show ?thesis
    by (auto simp: Flush_def cache_ok_def usage_of_def cache_utxo_def fun_eq_iff)
qed

end

section \<open>The database as a view\<close>

definition db_ok :: "coins_db \<Rightarrow> bool" where
  "db_ok d \<longleftrightarrow> db_heads d = None \<and> (\<forall>k x. db_coins d k = Some x \<longrightarrow> \<not> IsSpent x)"

lemma db_batches_concat:
  "concat (db_batches full batch es h) = batch @ concat (map db_entry es) @ [EraseHeads, WriteBest h]"
  by (induction es arbitrary: batch) (simp_all add: Let_def)

lemma fold_WriteBatch: "fold db_WriteBatch batches d = fold db_apply (concat batches) d"
  by (induction batches arbitrary: d) (simp_all add: db_WriteBatch_def)

lemma db_coins_entry:
  "db_coins (fold db_apply (db_entry (k, e)) d) = (if DIRTY \<in> flags e then (db_coins d)(k := unspent (coin e)) else db_coins d)"
  by (auto simp: db_entry_def unspent_def)

lemma db_coins_entries:
  "distinct (map fst es) \<Longrightarrow> db_coins (fold db_apply (concat (map db_entry es)) d) = apply_entries es (db_coins d)"
proof (induction es arbitrary: d)
  case Nil
  then show ?case by (simp add: apply_entries_def fun_eq_iff)
next
  case (Cons x es)
  obtain k e where x: "x = (k, e)" by (cases x)
  have "map_of es k = None" using Cons.prems by (simp add: x map_of_eq_None_iff)
  moreover have "db_coins (fold db_apply (concat (map db_entry (x # es))) d) =
      apply_entries es (db_coins (fold db_apply (db_entry (k, e)) d))"
    using Cons by (simp add: x)
  ultimately show ?case unfolding db_coins_entry by (auto simp: apply_entries_def x fun_eq_iff split: option.split)
qed

lemma apply_entries_unspent:
  "(\<And>k x. u k = Some x \<Longrightarrow> \<not> IsSpent x) \<Longrightarrow> apply_entries es u k = Some x \<Longrightarrow> \<not> IsSpent x"
  by (auto simp: apply_entries_def unspent_def split: option.splits if_splits)

lemma db_BatchWrite_view:
  assumes d: "db_ok d" and es: "fits (db_coins d) es" and h: "h \<noteq> uint256_null"
  shows "\<exists>d'. db_BatchWrite full d es h = Some (True, d') \<and> db_ok d' \<and> db_coins d' = apply_entries es (db_coins d)"
proof -
  have tip: "db_old_tip d h = Some (db_GetBestBlock d)"
    using d by (simp add: db_old_tip_def db_GetHeadBlocks_def db_ok_def)
  define d1 where "d1 = fold db_apply [EraseBest, WriteHeads [h, db_GetBestBlock d]] d"
  define d2 where "d2 = fold db_apply (concat (map db_entry es)) d1"
  define d' where "d' = fold db_apply [EraseHeads, WriteBest h] d2"
  have "db_BatchWrite full d es h = Some (True, d')"
    using h by (simp add: db_BatchWrite_def db_BatchWrite_batches_def tip fold_WriteBatch db_batches_concat d'_def d2_def d1_def)
  moreover have coins: "db_coins d' = apply_entries es (db_coins d)"
    using db_coins_entries [of es d1] es by (simp add: d'_def d2_def d1_def fits_def)
  moreover have "db_ok d'"
    unfolding db_ok_def coins using apply_entries_unspent [of "db_coins d" es] d by (auto simp: db_ok_def d'_def)
  ultimately show ?thesis by blast
qed

interpretation db: coins_view "db_view full" db_coins db_ok for full
proof
  fix d es h assume "db_ok d" and "fits (db_coins d) es" and "h \<noteq> uint256_null"
  from db_BatchWrite_view [OF this]
  show "\<exists>b'. view_BatchWrite (db_view full) d es h = Some (True, b') \<and> db_ok b' \<and> db_coins b' = apply_entries es (db_coins d)"
    by (simp add: db_view_def)
qed (auto simp: db_view_def db_ok_def db_GetCoin_def)

interpretation tip: coins_view "cache_view (db_view full)" "cache_utxo db_coins" "cache_ok db_coins db_ok" for full
  by (rule db.cache_is_view)

section \<open>Two caches over the database\<close>

text \<open>
  The views of a node that connects a block: the cache for the block over \<^verbatim>\<open>pcoinsTip\<close> over the database. An operation on the
  upper cache or a flush of either one; the flushes take the tables in the order in which they are visited.
\<close>

type_synonym coins_stack = "coins_db CCoinsViewCache CCoinsViewCache"

datatype coins_op =
  OGet COutPoint | OHave COutPoint | OAccess COutPoint | OAdd COutPoint Coin bool | OSpend COutPoint
  | OUncache COutPoint | OSetBest bytes | OBest | OFlush coins_entries | OFlushTip coins_entries

datatype coins_result = RCoin "Coin option" | RBool bool

definition stack_view :: "(db_write list \<Rightarrow> bool) \<Rightarrow> coins_db CCoinsViewCache CCoinsView" where
  "stack_view full = cache_view (db_view full)"

primrec exec :: "(db_write list \<Rightarrow> bool) \<Rightarrow> (script \<Rightarrow> bool) \<Rightarrow> coins_op \<Rightarrow> coins_stack \<Rightarrow> (coins_result \<times> coins_stack) option" where
  "exec full dead (OGet k) s = Some (apfst RCoin (GetCoin (stack_view full) s k))"
| "exec full dead (OHave k) s = Some (apfst RBool (HaveCoin (stack_view full) s k))"
| "exec full dead (OAccess k) s = Some (apfst (RCoin \<circ> unspent) (AccessCoin (stack_view full) s k))"
| "exec full dead (OAdd k x po) s = map_option (Pair (RBool True)) (AddCoin dead s k x po)"
| "exec full dead (OSpend k) s = Some (apfst (\<lambda>r. RCoin (Option.bind r unspent)) (SpendCoin (stack_view full) s k))"
| "exec full dead (OUncache k) s = Some (RBool True, Uncache s k)"
| "exec full dead (OSetBest h) s = Some (RBool True, SetBestBlock s h)"
| "exec full dead OBest s = Some (RBool True, snd (GetBestBlock (stack_view full) s))"
| "exec full dead (OFlush es) s = map_option (apfst RBool) (Flush (stack_view full) s es)"
| "exec full dead (OFlushTip es) s =
    map_option (\<lambda>(r, b). (RBool r, s\<lparr>base := b\<rparr>)) (Flush (db_view full) (base s) es)"

text \<open>The same operations on a map of unspent coins.\<close>

fun utxo_result :: "coins_op \<Rightarrow> utxo_map \<Rightarrow> coins_result" where
  "utxo_result (OGet k) u = RCoin (u k)"
| "utxo_result (OHave k) u = RBool (u k \<noteq> None)"
| "utxo_result (OAccess k) u = RCoin (u k)"
| "utxo_result (OSpend k) u = RCoin (u k)"
| "utxo_result _ u = RBool True"

fun utxo_next :: "(script \<Rightarrow> bool) \<Rightarrow> coins_op \<Rightarrow> utxo_map \<Rightarrow> utxo_map" where
  "utxo_next dead (OAdd k x po) u = (if dead (scriptPubKey (coin_out x)) then u else u(k \<mapsto> x))"
| "utxo_next dead (OSpend k) u = u(k := None)"
| "utxo_next dead _ u = u"

text \<open>
  What a caller has to respect: only unspent coins are added, an existing one is replaced only if the caller says so, and a cache is
  flushed only when it knows a best block.
\<close>

fun legal :: "coins_op \<Rightarrow> utxo_map \<Rightarrow> coins_stack \<Rightarrow> bool" where
  "legal (OAdd k x po) u s \<longleftrightarrow> \<not> IsSpent x \<and> (po \<or> u k = None)"
| "legal (OFlush es) u s \<longleftrightarrow> map_of es = cacheCoins s \<and> distinct (map fst es) \<and> hashBlock s \<noteq> uint256_null"
| "legal (OFlushTip es) u s \<longleftrightarrow> map_of es = cacheCoins (base s) \<and> distinct (map fst es) \<and> hashBlock (base s) \<noteq> uint256_null"
| "legal _ u s \<longleftrightarrow> True"

definition stack_utxo :: "coins_stack \<Rightarrow> utxo_map" where
  "stack_utxo s = cache_utxo (cache_utxo db_coins) s"

definition stack_ok :: "coins_stack \<Rightarrow> bool" where
  "stack_ok s \<longleftrightarrow> cache_ok (cache_utxo db_coins) (cache_ok db_coins db_ok) s"

inductive coins_reach :: "(db_write list \<Rightarrow> bool) \<Rightarrow> (script \<Rightarrow> bool) \<Rightarrow> coins_stack \<Rightarrow> utxo_map \<Rightarrow> bool" for full dead where
  start: "db_ok d \<Longrightarrow> coins_reach full dead (CCoinsViewCache_new (CCoinsViewCache_new d)) (db_coins d)"
| step: "coins_reach full dead s u \<Longrightarrow> legal op u s \<Longrightarrow> exec full dead op s = Some (r, s') \<Longrightarrow>
    coins_reach full dead s' (utxo_next dead op u)"

lemma new_cache_ok:
  "ok b \<Longrightarrow> cache_ok utxo ok (CCoinsViewCache_new b) \<and> cache_utxo utxo (CCoinsViewCache_new b) = utxo b"
  by (simp add: CCoinsViewCache_new_def cache_ok_def cache_utxo_def usage_of_def fun_eq_iff)

lemma swap_base:
  assumes "cache_ok utxo ok c" and "ok b" and "utxo b = utxo (base c)"
  shows "cache_ok utxo ok (c\<lparr>base := b\<rparr>)" and "cache_utxo utxo (c\<lparr>base := b\<rparr>) = cache_utxo utxo c"
  using assms by (simp_all add: cache_ok_def cache_utxo_def fun_eq_iff split: option.split)

lemma set_best:
  "cache_ok utxo ok c \<Longrightarrow> cache_ok utxo ok (SetBestBlock c h) \<and> cache_utxo utxo (SetBestBlock c h) = cache_utxo utxo c"
  by (simp add: SetBestBlock_def cache_ok_def cache_utxo_def fun_eq_iff split: option.split)

lemma exec_refines:
  assumes ok: "stack_ok s" and legal: "legal op (stack_utxo s) s"
  shows "\<exists>s'. exec full dead op s = Some (utxo_result op (stack_utxo s), s') \<and> stack_ok s' \<and>
    stack_utxo s' = utxo_next dead op (stack_utxo s)"
proof -
  note s = ok [unfolded stack_ok_def]
  note defs = stack_ok_def stack_utxo_def stack_view_def
  show ?thesis
  proof (cases op)
    case (OGet k)
    obtain r s' where "GetCoin (cache_view (db_view full)) s k = (r, s')" by (metis surj_pair)
    with tip.get [OF s this] OGet show ?thesis by (simp add: defs)
  next
    case (OHave k)
    obtain r s' where "HaveCoin (cache_view (db_view full)) s k = (r, s')" by (metis surj_pair)
    with tip.have_coin [OF s this] OHave show ?thesis by (simp add: defs)
  next
    case (OAccess k)
    obtain r s' where "AccessCoin (cache_view (db_view full)) s k = (r, s')" by (metis surj_pair)
    with tip.access [OF s this] OAccess show ?thesis by (simp add: defs)
  next
    case (OAdd k x po)
    with tip.add [OF s, of x po k dead] legal show ?thesis by (auto simp: defs)
  next
    case (OSpend k)
    obtain r s' where "SpendCoin (cache_view (db_view full)) s k = (r, s')" by (metis surj_pair)
    with tip.spend [OF s this] OSpend show ?thesis by (simp add: defs)
  next
    case (OUncache k)
    with tip.uncache [OF s] show ?thesis by (simp add: defs)
  next
    case (OSetBest h)
    with set_best [OF s] show ?thesis by (simp add: defs)
  next
    case OBest
    obtain h s' where "GetBestBlock (cache_view (db_view full)) s = (h, s')" by (metis surj_pair)
    with tip.best [OF s this] OBest show ?thesis by (simp add: defs)
  next
    case (OFlush es)
    obtain s' where "Flush (cache_view (db_view full)) s es = Some (True, s')" "cache_ok (cache_utxo db_coins) (cache_ok db_coins db_ok) s'"
      "cache_utxo (cache_utxo db_coins) s' = cache_utxo (cache_utxo db_coins) s"
      using tip.flush [OF s, of es full] legal OFlush by auto
    with OFlush show ?thesis by (simp add: defs)
  next
    case (OFlushTip es)
    note b = cache_okD(1) [OF s]
    obtain b' where b': "Flush (db_view full) (base s) es = Some (True, b')" "cache_ok db_coins db_ok b'"
      "cache_utxo db_coins b' = cache_utxo db_coins (base s)"
      using db.flush [OF b, of es full] legal OFlushTip by auto
    with swap_base [OF s b'(2,3)] OFlushTip show ?thesis by (simp add: defs)
  qed
qed

lemma coins_reach_ok: "coins_reach full dead s u \<Longrightarrow> stack_ok s \<and> stack_utxo s = u"
proof (induction rule: coins_reach.induct)
  case (start d)
  have "cache_ok db_coins db_ok (CCoinsViewCache_new d)" "cache_utxo db_coins (CCoinsViewCache_new d) = db_coins d"
    using new_cache_ok [of db_ok d db_coins] start by simp_all
  then show ?case
    using new_cache_ok [of "cache_ok db_coins db_ok" "CCoinsViewCache_new d" "cache_utxo db_coins"]
    by (simp add: stack_ok_def stack_utxo_def)
next
  case (step s u op r s')
  with exec_refines [of s op full dead] show ?case by auto
qed


lemma coins_reach_stack [dest]:
  assumes "coins_reach full dead s u"
  shows "cache_ok (cache_utxo db_coins) (cache_ok db_coins db_ok) s" and "cache_ok db_coins db_ok (base s)"
    and "cache_utxo (cache_utxo db_coins) s = u"
  using coins_reach_ok [OF assms] cache_okD(1) by (auto simp: stack_ok_def stack_utxo_def)

text \<open>
  The comment of \<^verbatim>\<open>SpendCoin\<close> says that it has no effect on an outpoint without an unspent output. An entry that is kept as spent is
  spent again: the call reports success and marks the entry.
\<close>

lemma SpendCoin_spent_entry:
  assumes "cacheCoins c k = Some e" and "IsSpent (coin e)" and "flags e = {}"
  shows "fst (SpendCoin V c k) = Some (coin e)" and "cacheCoins (snd (SpendCoin V c k)) k = Some \<lparr>coin = Coin_Clear, flags = {DIRTY}\<rparr>"
  using assms by (simp_all add: SpendCoin_def FetchCoin_def Let_def)

section \<open>The properties\<close>

text \<open>
  C3. The block cache over the tip cache over the database is one map of unspent coins: after any sequence of reads, additions,
  spends, evictions and flushes of either cache, every further operation that its caller may issue succeeds without a logic error, returns
  what the map says (a coin, whether there is one, the coin spent) and leads to caches that stand for the updated map; flushing changes nothing.
\<close>

theorem coins_stack_refines:
  assumes "coins_reach full dead s u" and "legal op u s"
  shows "\<exists>s'. exec full dead op s = Some (utxo_result op u, s') \<and> coins_reach full dead s' (utxo_next dead op u) \<and>
    cache_utxo (cache_utxo db_coins) s' = utxo_next dead op u"
proof -
  have "stack_ok s" and u: "stack_utxo s = u" using coins_reach_ok [OF assms(1)] by simp_all
  from exec_refines [OF this(1), of op full dead] obtain s' where s': "exec full dead op s = Some (utxo_result op u, s')"
    "stack_utxo s' = utxo_next dead op u" using assms(2) u by auto
  with coins_reach.step [OF assms s'(1)] show ?thesis by (auto simp: stack_utxo_def)
qed

definition sample_db :: coins_db where
  "sample_db = \<lparr>db_coins = Map.empty, db_best = None, db_heads = None\<rparr>"

definition sample_coin :: Coin where
  "sample_coin = Coin_of \<lparr>nValue = 50, scriptPubKey = [81]\<rparr> 7 False"

definition sample_out :: COutPoint where
  "sample_out = \<lparr>op_hash = replicate 32 1, op_n = 0\<rparr>"

abbreviation sample_stack :: coins_stack where
  "sample_stack \<equiv> CCoinsViewCache_new (CCoinsViewCache_new sample_db)"

lemma sample_reach: "coins_reach (\<lambda>_. False) (\<lambda>_. False) sample_stack Map.empty"
  using coins_reach.start [of sample_db "\<lambda>_. False" "\<lambda>_. False"] by (simp add: db_ok_def sample_db_def)

lemma sample_live: "\<not> IsSpent sample_coin"
  by (simp add: IsSpent_def sample_coin_def Coin_of_def CTxOut_IsNull_def)

theorem coins_stack_refines_witness:
  "\<exists>s'. exec (\<lambda>_. False) (\<lambda>_. False) (OAdd sample_out sample_coin False) sample_stack = Some (RBool True, s') \<and>
    cache_utxo (cache_utxo db_coins) s' = [sample_out \<mapsto> sample_coin]"
  using coins_stack_refines [OF sample_reach, of "OAdd sample_out sample_coin False"] sample_live by auto

text \<open>
  C22. What the caches keep in every reachable state, at both levels: the counter of memory is the memory of the scripts they hold, an entry
  marked FRESH has no coin below, and an entry that is not DIRTY agrees with the view below, so dropping it loses nothing.
\<close>

theorem coins_cache_invariant:
  assumes "coins_reach full dead s u"
  shows "cachedCoinsUsage s = usage_of (cacheCoins s) \<and> cachedCoinsUsage (base s) = usage_of (cacheCoins (base s)) \<and>
    (\<forall>k e. cacheCoins s k = Some e \<longrightarrow>
      (FRESH \<in> flags e \<longrightarrow> cache_utxo db_coins (base s) k = None) \<and>
      (DIRTY \<notin> flags e \<longrightarrow> cache_utxo db_coins (base s) k = unspent (coin e))) \<and>
    (\<forall>k e. cacheCoins (base s) k = Some e \<longrightarrow>
      (FRESH \<in> flags e \<longrightarrow> db_coins (base (base s)) k = None) \<and>
      (DIRTY \<notin> flags e \<longrightarrow> db_coins (base (base s)) k = unspent (coin e)))"
  using cache_okD [OF coins_reach_stack(1) [OF assms]] cache_okD [OF coins_reach_stack(2) [OF assms]]
  by (simp_all add: entry_ok_def)

theorem coins_cache_invariant_witness: "cachedCoinsUsage sample_stack = usage_of (cacheCoins sample_stack)"
  using coins_cache_invariant [OF sample_reach] by simp

section \<open>Writing the database in several batches\<close>

lemma db_batches_prefix:
  "0 < n \<Longrightarrow> n < length (db_batches full batch es h) \<Longrightarrow>
    \<exists>m. concat (take n (db_batches full batch es h)) = batch @ concat (map db_entry (take m es))"
proof (induction es arbitrary: batch n)
  case Nil
  then show ?case by simp
next
  case (Cons it es)
  show ?case
  proof (cases "full (batch @ db_entry it)")
    case False
    with Cons.prems Cons.IH [of n "batch @ db_entry it"] obtain m where
      "concat (take n (db_batches full batch (it # es) h)) = batch @ db_entry it @ concat (map db_entry (take m es))"
      by (auto simp: Let_def)
    then show ?thesis by (intro exI [of _ "Suc m"]) simp
  next
    case True
    obtain n' where n: "n = Suc n'" using Cons.prems(1) by (cases n) auto
    have "\<exists>m. concat (take n' (db_batches full [] es h)) = concat (map db_entry (take m es))"
    proof (cases "n' = 0")
      case True
      then show ?thesis by (intro exI [of _ 0]) simp
    next
      case False
      with Cons.IH [of n' "[]"] Cons.prems n True show ?thesis by (simp add: Let_def)
    qed
    then obtain m where "concat (take n' (db_batches full [] es h)) = concat (map db_entry (take m es))" ..
    with True show ?thesis by (intro exI [of _ "Suc m"]) (simp add: Let_def n)
  qed
qed

lemma db_entries_tip [simp]:
  "db_best (fold db_apply (concat (map db_entry es)) d) = db_best d"
  "db_heads (fold db_apply (concat (map db_entry es)) d) = db_heads d"
  by (induction es arbitrary: d) (auto simp: db_entry_def)

lemma apply_entries_take:
  assumes "distinct (map fst es)"
  shows "apply_entries (take m es) u k \<in> {u k, apply_entries es u k}"
    and "apply_entries es (apply_entries (take m es) u) = apply_entries es u"
proof -
  have "map_of es j = Some e" if "map_of (take m es) j = Some e" for j e
    using that assms map_of_SomeD [OF that] in_set_takeD [of "(j, e)" m es] by (simp add: map_of_is_SomeI)
  then show "apply_entries (take m es) u k \<in> {u k, apply_entries es u k}"
    and "apply_entries es (apply_entries (take m es) u) = apply_entries es u"
    by (auto simp: apply_entries_def fun_eq_iff split: option.splits)
qed

text \<open>The writes after the first two records, from a state whose coins the entries complete.\<close>

lemma db_finish:
  assumes "distinct (map fst es)" and "apply_entries es (db_coins d) = u"
    and "d' = fold db_apply (concat (map db_entry es) @ [EraseHeads, WriteBest h]) d"
  shows "db_coins d' = u" and "db_heads d' = None" and "db_best d' = Some h"
  using assms db_coins_entries [OF assms(1), of d] by simp_all

lemma db_ok_entries: "db_ok d \<Longrightarrow> db_coins d' = apply_entries es (db_coins d) \<Longrightarrow> db_heads d' = None \<Longrightarrow> db_ok d'"
  using apply_entries_unspent [of "db_coins d" es] by (auto simp: db_ok_def)

text \<open>A write for the block whose write was interrupted goes on from the old block.\<close>

lemma db_BatchWrite_resume:
  assumes "distinct (map fst es)" and "h \<noteq> uint256_null" and "db_best d = None" and "db_heads d = Some [h, old]"
  shows "\<exists>d'. db_BatchWrite full d es h = Some (True, d') \<and>
    db_coins d' = apply_entries es (db_coins d) \<and> db_heads d' = None \<and> db_best d' = Some h"
proof -
  have "db_old_tip d h = Some old"
    using assms(3,4) by (simp add: db_old_tip_def db_GetBestBlock_def db_GetHeadBlocks_def)
  then have "db_BatchWrite full d es h = Some (True, fold db_apply (concat (map db_entry es) @ [EraseHeads, WriteBest h])
      (fold db_apply [EraseBest, WriteHeads [h, old]] d))"
    using assms(2) by (simp add: db_BatchWrite_def db_BatchWrite_batches_def fold_WriteBatch db_batches_concat)
  with db_finish [OF assms(1) _ refl, of "fold db_apply [EraseBest, WriteHeads [h, old]] d" _ h] show ?thesis by simp
qed

text \<open>
  C23. A write of the database that is interrupted between two of its batches leaves a state that tells so: there is no best block, the
  heads record names the new and the old block, and every coin has its old or its new value. Repeating the write from there completes it, and
  after the last batch the coins and the best block are the new ones and the heads record is gone.
\<close>

theorem db_BatchWrite_crash_safe:
  assumes d: "db_ok d" and es: "distinct (map fst es)"
    and w: "db_BatchWrite_batches full d es h = Some batches" and n: "0 < n" "n \<le> length batches"
    and d': "d' = fold db_WriteBatch (take n batches) d"
  shows "if n < length batches
    then db_GetBestBlock d' = uint256_null \<and> db_GetHeadBlocks d' = [h, db_GetBestBlock d] \<and>
      (\<forall>k. db_GetCoin d' k \<in> {db_GetCoin d k, apply_entries es (db_coins d) k}) \<and>
      (\<exists>d''. db_BatchWrite full' d' es h = Some (True, d'') \<and> db_ok d'' \<and> db_coins d'' = apply_entries es (db_coins d) \<and> db_best d'' = Some h)
    else db_ok d' \<and> db_GetBestBlock d' = h \<and> db_coins d' = apply_entries es (db_coins d)"
proof -
  define init where "init = [EraseBest, WriteHeads [h, db_GetBestBlock d]]"
  define d1 where "d1 = fold db_apply init d"
  have h: "h \<noteq> uint256_null" and batches: "batches = db_batches full init es h"
    using w d by (auto simp: db_BatchWrite_batches_def db_old_tip_def db_ok_def db_GetHeadBlocks_def init_def split: if_splits)
  have d1: "db_best d1 = None" "db_heads d1 = Some [h, db_GetBestBlock d]" "db_coins d1 = db_coins d"
    by (simp_all add: d1_def init_def)
  show ?thesis
  proof (cases "n < length batches")
    case True
    obtain m where m: "concat (take n batches) = init @ concat (map db_entry (take m es))"
      using db_batches_prefix [of n full init es h] n(1) True batches by blast
    have eq: "d' = fold db_apply (concat (map db_entry (take m es))) d1"
      by (simp add: d' fold_WriteBatch m d1_def)
    have "distinct (map fst (take m es))" using es by (simp add: take_map [symmetric])
    then have coins: "db_coins d' = apply_entries (take m es) (db_coins d)"
      using db_coins_entries [of "take m es" d1] by (simp add: eq d1)
    have tips: "db_best d' = None" "db_heads d' = Some [h, db_GetBestBlock d]" by (simp_all add: eq d1)
    from db_BatchWrite_resume [OF es h tips, of full'] obtain d'' where d'': "db_BatchWrite full' d' es h = Some (True, d'')"
      "db_coins d'' = apply_entries es (db_coins d)" "db_heads d'' = None" "db_best d'' = Some h"
      using apply_entries_take(2) [OF es] coins by auto
    then show ?thesis
      using True tips apply_entries_take(1) [OF es, of m "db_coins d"] db_ok_entries [OF d d''(2,3)]
      by (auto simp: db_GetCoin_def coins db_GetBestBlock_def db_GetHeadBlocks_def)
  next
    case False
    then have "take n batches = batches" using n by simp
    then have "d' = fold db_apply (concat (map db_entry es) @ [EraseHeads, WriteBest h]) d1"
      by (simp add: d' fold_WriteBatch batches db_batches_concat d1_def)
    note fin = db_finish [OF es _ this, of "apply_entries es (db_coins d)"]
    with False db_ok_entries [OF d] d1(3) show ?thesis by (simp add: db_GetBestBlock_def)
  qed
qed

definition sample_entries :: coins_entries where
  "sample_entries = [(sample_out, \<lparr>coin = sample_coin, flags = {DIRTY}\<rparr>)]"

theorem db_BatchWrite_crash_safe_witness:
  "db_GetBestBlock (db_WriteBatch (db_batches (\<lambda>_. True) [EraseBest, WriteHeads [replicate 32 1, uint256_null]] sample_entries (replicate 32 1) ! 0) sample_db)
    = uint256_null"
proof -
  define batches where "batches = db_batches (\<lambda>_. True) [EraseBest, WriteHeads [replicate 32 1, uint256_null]] sample_entries (replicate 32 1)"
  have "replicate 32 (1 :: byte) \<noteq> uint256_null" by (simp add: uint256_null_def)
  then have w: "db_BatchWrite_batches (\<lambda>_. True) sample_db sample_entries (replicate 32 1) = Some batches"
    by (simp add: db_BatchWrite_batches_def db_old_tip_def db_GetBestBlock_def db_GetHeadBlocks_def sample_db_def batches_def)
  have two: "length batches = 2" by (simp add: batches_def sample_entries_def)
  have "db_GetBestBlock (fold db_WriteBatch (take 1 batches) sample_db) = uint256_null"
    using db_BatchWrite_crash_safe [OF _ _ w, of 1 "fold db_WriteBatch (take 1 batches) sample_db"] two
    by (simp add: db_ok_def sample_db_def sample_entries_def)
  then show ?thesis using two by (simp add: batches_def [symmetric] take_Suc_conv_app_nth)
qed

end
