(* ===== verification/Connect_Refine.thy ===== *)
theory Connect_Refine
  imports Connect Coins_Refine
begin

text \<open>
  What connecting and disconnecting a block do to the map of unspent coins that a stack of caches stands for. The
  client of the contract \<open>coins_view\<close> is here the code of \<^verbatim>\<open>validation.cpp\<close>: every lemma is proved once for any view.
\<close>

section \<open>The effect of a transaction on a map of coins\<close>

text \<open>The outputs that a transaction adds, from position \<open>i\<close> on.\<close>

definition outs_from :: "(script \<Rightarrow> bool) \<Rightarrow> CTransaction \<Rightarrow> int \<Rightarrow> nat \<Rightarrow> CTxOut list \<Rightarrow> utxo_map" where
  "outs_from dead tx height i outs k =
    (let j = unat (op_n k) in
     if op_hash k = tx_hash tx \<and> i \<le> j \<and> j < i + length outs \<and> \<not> dead (scriptPubKey (outs ! (j - i)))
     then Some (Coin_of (outs ! (j - i)) height (IsCoinBase tx)) else None)"

definition spent_by :: "CTransaction \<Rightarrow> COutPoint set" where
  "spent_by tx = (if IsCoinBase tx then {} else prevout ` set (vin tx))"

definition tx_utxo :: "(script \<Rightarrow> bool) \<Rightarrow> int \<Rightarrow> CTransaction \<Rightarrow> utxo_map \<Rightarrow> utxo_map" where
  "tx_utxo dead height tx u = (u |` (- spent_by tx)) ++ outs_from dead tx height 0 (vout tx)"

definition tx_undo :: "utxo_map \<Rightarrow> CTransaction \<Rightarrow> CTxUndo" where
  "tx_undo u tx = (if IsCoinBase tx then [] else map (\<lambda>txin. the (u (prevout txin))) (vin tx))"

text \<open>What the checks of a transaction outside \<^verbatim>\<open>ConnectBlock\<close> guarantee, and the undo lists can restore.\<close>

definition tx_formed :: "CTransaction \<Rightarrow> bool" where
  "tx_formed tx \<longleftrightarrow> distinct (map prevout (vin tx)) \<and> length (vout tx) \<le> 2 ^ 32 \<and> (\<forall>out\<in>set (vout tx). nValue out \<noteq> - 1)"

definition utxo_stored :: "(script \<Rightarrow> bool) \<Rightarrow> utxo_map \<Rightarrow> bool" where
  "utxo_stored dead u \<longleftrightarrow> (\<forall>k x. u k = Some x \<longrightarrow> \<not> IsSpent x \<and> \<not> dead (scriptPubKey (coin_out x)) \<and> coin_nHeight x \<noteq> 0)"

lemma outs_from_Nil [simp]: "outs_from dead tx height i [] = Map.empty"
  by (auto simp: outs_from_def Let_def fun_eq_iff)

lemma outs_from_Cons:
  assumes "i < 2 ^ 32"
  shows "outs_from dead tx height i (out # outs) =
    (if dead (scriptPubKey out) then outs_from dead tx height (Suc i) outs
     else (outs_from dead tx height (Suc i) outs)(\<lparr>op_hash = tx_hash tx, op_n = of_nat i\<rparr> \<mapsto> Coin_of out height (IsCoinBase tx)))"
proof (rule ext)
  fix k :: COutPoint
  have i: "unat (of_nat i :: u32) = i" using assms by (simp add: unat_of_nat)
  have k: "k = \<lparr>op_hash = tx_hash tx, op_n = of_nat i\<rparr> \<longleftrightarrow> op_hash k = tx_hash tx \<and> unat (op_n k) = i"
    using i by (cases k) (auto simp: word_unat_eq_iff)
  consider "unat (op_n k) = i" | "unat (op_n k) < i" | j where "unat (op_n k) = Suc (i + j)"
    by (metis less_imp_Suc_add linorder_neqE_nat)
  then show "outs_from dead tx height i (out # outs) k =
    (if dead (scriptPubKey out) then outs_from dead tx height (Suc i) outs
     else (outs_from dead tx height (Suc i) outs)(\<lparr>op_hash = tx_hash tx, op_n = of_nat i\<rparr> \<mapsto> Coin_of out height (IsCoinBase tx))) k"
    by cases (simp_all add: outs_from_def Let_def k Suc_diff_le)
qed

lemma outs_from_hash: "outs_from dead tx height i outs k \<noteq> None \<Longrightarrow> op_hash k = tx_hash tx"
  by (auto simp: outs_from_def Let_def split: if_splits)

lemma outs_from_unborn: "i < 2 ^ 32 \<Longrightarrow> outs_from dead tx height (Suc i) outs \<lparr>op_hash = h, op_n = of_nat i\<rparr> = None"
  by (simp add: outs_from_def Let_def unat_of_nat)

lemma IsSpent_Coin_of [simp]: "IsSpent (Coin_of out height cb) \<longleftrightarrow> nValue out = - 1"
  by (simp add: IsSpent_def Coin_of_def CTxOut_IsNull_def)

lemma coin_out_Coin_of [simp]: "coin_out (Coin_of out height cb) = out"
  by (simp add: Coin_of_def)

section \<open>Spending inputs and adding outputs\<close>

context coins_view begin

lemma spend_unspent:
  assumes c: "cache_ok utxo ok c" and x: "cache_utxo utxo c k = Some x"
  shows "\<exists>c'. SpendCoin V c k = (Some x, c') \<and> cache_ok utxo ok c' \<and> cache_utxo utxo c' = (cache_utxo utxo c)(k := None)"
proof -
  obtain r c' where f: "SpendCoin V c k = (r, c')" by (metis surj_pair)
  note sp = spend [OF c f]
  with x have "r = Some x" by (cases r) (auto simp: unspent_def split: if_splits)
  with f sp show ?thesis by simp
qed

lemma spend_loop:
  assumes "cache_ok utxo ok c" and "distinct (map prevout txins)" and "\<forall>txin\<in>set txins. cache_utxo utxo c (prevout txin) \<noteq> None"
  shows "\<exists>c'. UpdateCoins_loop V c txins acc = Some (acc @ map (\<lambda>txin. the (cache_utxo utxo c (prevout txin))) txins, c') \<and>
    cache_ok utxo ok c' \<and> cache_utxo utxo c' = cache_utxo utxo c |` (- prevout ` set txins)"
  using assms
proof (induction txins arbitrary: c acc)
  case Nil
  then show ?case by simp
next
  case (Cons txin txins)
  obtain x where x: "cache_utxo utxo c (prevout txin) = Some x" using Cons.prems(3) by auto
  obtain c1 where c1: "SpendCoin V c (prevout txin) = (Some x, c1)" "cache_ok utxo ok c1"
    "cache_utxo utxo c1 = (cache_utxo utxo c)(prevout txin := None)"
    using spend_unspent [OF Cons.prems(1) x] by blast
  have same: "cache_utxo utxo c1 (prevout t) = cache_utxo utxo c (prevout t)" if "t \<in> set txins" for t
    using imageI [OF that, of prevout] Cons.prems(2) by (auto simp: c1(3))
  then obtain c' where c': "UpdateCoins_loop V c1 txins (acc @ [x]) =
      Some ((acc @ [x]) @ map (\<lambda>txin. the (cache_utxo utxo c1 (prevout txin))) txins, c')" "cache_ok utxo ok c'"
    "cache_utxo utxo c' = cache_utxo utxo c1 |` (- prevout ` set txins)"
    using Cons.IH [OF c1(2), of "acc @ [x]"] Cons.prems(2,3) by auto
  have "map (\<lambda>txin. the (cache_utxo utxo c1 (prevout txin))) txins = map (\<lambda>txin. the (cache_utxo utxo c (prevout txin))) txins"
    using same by simp
  moreover have "cache_utxo utxo c' = cache_utxo utxo c |` (- prevout ` set (txin # txins))"
    by (auto simp: c'(3) c1(3) restrict_map_def fun_eq_iff)
  ultimately show ?case using c1(1) c' x by simp
qed

lemma add_loop:
  assumes "cache_ok utxo ok c" and "i + length outs \<le> 2 ^ 32" and "\<forall>out\<in>set outs. nValue out \<noteq> - 1"
    and "IsCoinBase tx \<or> (\<forall>k. outs_from dead tx height i outs k \<noteq> None \<longrightarrow> cache_utxo utxo c k = None)"
  shows "\<exists>c'. AddCoins_loop dead V tx height False outs (of_nat i) c = Some c' \<and> cache_ok utxo ok c' \<and>
    cache_utxo utxo c' = cache_utxo utxo c ++ outs_from dead tx height i outs"
  using assms
proof (induction outs arbitrary: c i)
  case Nil
  then show ?case by simp
next
  case (Cons out outs)
  define k where "k = \<lparr>op_hash = tx_hash tx, op_n = of_nat i :: u32\<rparr>"
  have i: "i < 2 ^ 32" using Cons.prems(2) by simp
  note outs = outs_from_Cons [OF i, of dead tx height out outs, folded k_def]
  have unborn: "outs_from dead tx height (Suc i) outs k = None" using outs_from_unborn [OF i] by (simp add: k_def)
  have free: "IsCoinBase tx \<or> cache_utxo utxo c k = None" if "\<not> dead (scriptPubKey out)"
    using Cons.prems(4) that by (auto simp: outs)
  obtain c1 where c1: "AddCoin dead c k (Coin_of out height (IsCoinBase tx)) (IsCoinBase tx) = Some c1" "cache_ok utxo ok c1"
    "cache_utxo utxo c1 = (if dead (scriptPubKey out) then cache_utxo utxo c
      else (cache_utxo utxo c)(k \<mapsto> Coin_of out height (IsCoinBase tx)))"
  proof (cases "dead (scriptPubKey out)")
    case True
    show thesis
      by (rule that [of c]) (use True Cons.prems in \<open>simp_all add: AddCoin_def\<close>)
  next
    case False
    show thesis
      using add [OF Cons.prems(1), of "Coin_of out height (IsCoinBase tx)" "IsCoinBase tx" k dead] free [OF False] Cons.prems(3) that False
      by auto
  qed
  have "IsCoinBase tx \<or> (\<forall>j. outs_from dead tx height (Suc i) outs j \<noteq> None \<longrightarrow> cache_utxo utxo c1 j = None)"
    using Cons.prems(4) unborn by (auto simp: c1(3) outs split: if_splits)
  then obtain c' where c': "AddCoins_loop dead V tx height False outs (of_nat (Suc i)) c1 = Some c'" "cache_ok utxo ok c'"
    "cache_utxo utxo c' = cache_utxo utxo c1 ++ outs_from dead tx height (Suc i) outs"
    using Cons.IH [OF c1(2), of "Suc i"] Cons.prems(2,3) by auto
  have "of_nat (Suc i) = (of_nat i + 1 :: u32)" by simp
  then have rest: "AddCoins_loop dead V tx height False outs (of_nat i + 1) c1 = Some c'" using c'(1) by (simp only:)
  have "cache_utxo utxo c' = cache_utxo utxo c ++ outs_from dead tx height i (out # outs)"
    using unborn by (auto simp: c'(3) c1(3) outs map_add_def fun_eq_iff split: option.splits)
  then show ?case using c1(1) c'(2) rest by (simp add: Let_def k_def)
qed

lemma update_coins:
  assumes c: "cache_ok utxo ok c" and tx: "tx_formed tx" and spends: "\<forall>p\<in>spent_by tx. cache_utxo utxo c p \<noteq> None"
    and new: "IsCoinBase tx \<or> (\<forall>k. op_hash k = tx_hash tx \<longrightarrow> cache_utxo utxo c k = None)"
  shows "\<exists>c'. UpdateCoins dead V tx c height = Some (tx_undo (cache_utxo utxo c) tx, c') \<and> cache_ok utxo ok c' \<and>
    cache_utxo utxo c' = tx_utxo dead height tx (cache_utxo utxo c)"
proof -
  obtain c1 where c1: "(if \<not> IsCoinBase tx then UpdateCoins_loop V c (vin tx) [] else Some ([], c)) = Some (tx_undo (cache_utxo utxo c) tx, c1)"
    "cache_ok utxo ok c1" "cache_utxo utxo c1 = cache_utxo utxo c |` (- spent_by tx)"
  proof (cases "IsCoinBase tx")
    case True
    show thesis by (rule that [of c]) (use True c in \<open>simp_all add: tx_undo_def spent_by_def restrict_map_def\<close>)
  next
    case False
    with spend_loop [OF c, of "vin tx" "[]"] tx spends that show thesis
      by (auto simp: tx_formed_def spent_by_def tx_undo_def)
  qed
  have "IsCoinBase tx \<or> (\<forall>k. outs_from dead tx height 0 (vout tx) k \<noteq> None \<longrightarrow> cache_utxo utxo c1 k = None)"
    using new outs_from_hash [of dead tx height 0 "vout tx"] by (auto simp: c1(3) restrict_map_def)
  moreover have "0 + length (vout tx) \<le> 2 ^ 32" "\<forall>out\<in>set (vout tx). nValue out \<noteq> - 1" using tx by (simp_all add: tx_formed_def)
  ultimately obtain c' where "AddCoins_loop dead V tx height False (vout tx) (of_nat 0) c1 = Some c'" "cache_ok utxo ok c'"
    "cache_utxo utxo c' = cache_utxo utxo c1 ++ outs_from dead tx height 0 (vout tx)"
    using add_loop [OF c1(2)] by blast
  then show ?thesis using c1(1,3) by (simp add: UpdateCoins_def AddCoins_def tx_utxo_def)
qed


section \<open>Undoing outputs and inputs\<close>

lemma disconnect_outputs:
  assumes "cache_ok utxo ok c" and "i + length outs \<le> 2 ^ 32" and "0 \<le> height" and "height < 2 ^ 31"
    and "outs_from dead tx height i outs \<subseteq>\<^sub>m cache_utxo utxo c"
  shows "\<exists>c'. DisconnectBlock_outputs dead V height (tx_hash tx) (IsCoinBase tx) outs (of_nat i) fClean c = (fClean, c') \<and>
    cache_ok utxo ok c' \<and> cache_utxo utxo c' = cache_utxo utxo c |` (- dom (outs_from dead tx height i outs))"
  using assms
proof (induction outs arbitrary: c i)
  case Nil
  then show ?case by (simp add: restrict_map_def)
next
  case (Cons out outs)
  define k where "k = \<lparr>op_hash = tx_hash tx, op_n = of_nat i :: u32\<rparr>"
  define x where "x = Coin_of out height (IsCoinBase tx)"
  have i: "i < 2 ^ 32" using Cons.prems(2) by simp
  note outs = outs_from_Cons [OF i, of dead tx height out outs, folded k_def x_def]
  have unborn: "outs_from dead tx height (Suc i) outs k = None" using outs_from_unborn [OF i] by (simp add: k_def)
  have succ: "of_nat i + 1 = (of_nat (Suc i) :: u32)" by simp
  show ?case
  proof (cases "dead (scriptPubKey out)")
    case True
    with Cons.IH [OF Cons.prems(1), of "Suc i"] Cons.prems(2-5) show ?thesis by (simp add: outs succ del: of_nat_Suc)
  next
    case False
    have "outs_from dead tx height i (out # outs) k = Some x" using False by (simp add: outs)
    then have "cache_utxo utxo c k = Some x" using Cons.prems(5) by (metis domI map_le_def)
    then obtain c1 where c1: "SpendCoin V c k = (Some x, c1)" "cache_ok utxo ok c1" "cache_utxo utxo c1 = (cache_utxo utxo c)(k := None)"
      using spend_unspent [OF Cons.prems(1)] by blast
    have "uint (coin_nHeight x) = height" "fCoinBase x = IsCoinBase tx"
      using Cons.prems(3,4) by (simp_all add: x_def Coin_of_def uint_word_of_int)
    then have head: "DisconnectBlock_outputs dead V height (tx_hash tx) (IsCoinBase tx) (out # outs) (of_nat i) fClean c =
        DisconnectBlock_outputs dead V height (tx_hash tx) (IsCoinBase tx) outs (of_nat (Suc i)) fClean c1"
      using False c1(1) by (simp add: k_def [symmetric] x_def succ del: of_nat_Suc)
    have "outs_from dead tx height (Suc i) outs \<subseteq>\<^sub>m cache_utxo utxo c1"
      using Cons.prems(5) False unborn by (auto simp: outs map_le_def c1(3) domIff split: if_splits)
    then obtain c' where "DisconnectBlock_outputs dead V height (tx_hash tx) (IsCoinBase tx) outs (of_nat (Suc i)) fClean c1 = (fClean, c')"
      "cache_ok utxo ok c'" "cache_utxo utxo c' = cache_utxo utxo c1 |` (- dom (outs_from dead tx height (Suc i) outs))"
      using Cons.IH [OF c1(2), of "Suc i"] Cons.prems(2-4) by auto
    then show ?thesis using False head by (auto simp: outs c1(3) restrict_map_def fun_eq_iff)
  qed
qed

lemma apply_undo:
  assumes c: "cache_ok utxo ok c" and none: "cache_utxo utxo c k = None"
    and x: "\<not> IsSpent x" "\<not> dead (scriptPubKey (coin_out x))" "coin_nHeight x \<noteq> 0"
  shows "\<exists>c'. ApplyTxInUndo dead V x c k = Some (DISCONNECT_OK, c') \<and> cache_ok utxo ok c' \<and>
    cache_utxo utxo c' = (cache_utxo utxo c)(k \<mapsto> x)"
proof -
  obtain r c1 where f: "HaveCoin V c k = (r, c1)" by (metis surj_pair)
  note found = have_coin [OF c f]
  with add [of c1 x False k dead] none x f found show ?thesis
    by (auto simp: ApplyTxInUndo_def Let_def)
qed

lemma disconnect_inputs:
  assumes "cache_ok utxo ok c" and "j \<le> length txins" and "distinct (map prevout txins)" and stored: "utxo_stored dead u"
    and undo: "vprevout = map (\<lambda>txin. the (u (prevout txin))) txins" and "\<forall>txin\<in>set txins. u (prevout txin) \<noteq> None"
    and "\<forall>txin\<in>set (take j txins). cache_utxo utxo c (prevout txin) = None"
  shows "\<exists>c'. DisconnectBlock_inputs dead V txins vprevout j fClean c = Some (Some fClean, c') \<and> cache_ok utxo ok c' \<and>
    cache_utxo utxo c' = cache_utxo utxo c ++ (u |` (prevout ` set (take j txins)))"
  using assms(1,2,7)
proof (induction j arbitrary: c)
  case 0
  then show ?case by simp
next
  case (Suc j)
  have j: "j < length txins" using Suc.prems(2) by simp
  define p where "p = prevout (txins ! j)"
  have take: "take (Suc j) txins = take j txins @ [txins ! j]" using j by (simp add: take_Suc_conv_app_nth)
  have "u p \<noteq> None" using assms(6) nth_mem [OF j] unfolding p_def by blast
  then obtain x where x: "u p = Some x" by blast
  have "cache_utxo utxo c p = None" using Suc.prems(3) by (simp add: take p_def)
  with apply_undo [OF Suc.prems(1), of p x dead] stored x obtain c1 where c1: "ApplyTxInUndo dead V x c p = Some (DISCONNECT_OK, c1)"
    "cache_ok utxo ok c1" "cache_utxo utxo c1 = (cache_utxo utxo c)(p \<mapsto> x)" unfolding utxo_stored_def by blast
  have fresh: "p \<notin> prevout ` set (take j txins)"
    using assms(3) j nth_eq_iff_index_eq [OF assms(3)] by (fastforce simp: p_def in_set_conv_nth)
  then have "\<forall>txin\<in>set (take j txins). cache_utxo utxo c1 (prevout txin) = None"
    using Suc.prems(3) by (auto simp: take c1(3))
  then obtain c' where c': "DisconnectBlock_inputs dead V txins vprevout j fClean c1 = Some (Some fClean, c')" "cache_ok utxo ok c'"
    "cache_utxo utxo c' = cache_utxo utxo c1 ++ (u |` (prevout ` set (take j txins)))"
    using Suc.IH [OF c1(2)] Suc.prems(2) by auto
  have "vprevout ! j = x" using j x by (simp add: undo p_def)
  moreover have "cache_utxo utxo c' = cache_utxo utxo c ++ (u |` (prevout ` set (take (Suc j) txins)))"
    using fresh x by (auto simp: c'(3) c1(3) take p_def [symmetric] map_add_def restrict_map_def fun_eq_iff split: option.splits)
  ultimately show ?case using c1(1) c'(1,2) by (simp add: p_def)
qed


end

section \<open>The checks of amounts as functions of the map\<close>

primrec inputs_result :: "int \<Rightarrow> utxo_map \<Rightarrow> CTxIn list \<Rightarrow> int \<Rightarrow> (string + int) option" where
  "inputs_result height u [] acc = Some (Inr acc)"
| "inputs_result height u (txin # txins) acc =
    (case u (prevout txin) of
       None \<Rightarrow> None
     | Some x \<Rightarrow>
         if fCoinBase x \<and> height - uint (coin_nHeight x) < COINBASE_MATURITY then Some (Inl ''bad-txns-premature-spend-of-coinbase'')
         else if \<not> MoneyRange (nValue (coin_out x)) \<or> \<not> MoneyRange (acc + nValue (coin_out x)) then
           Some (Inl ''bad-txns-inputvalues-outofrange'')
         else inputs_result height u txins (acc + nValue (coin_out x)))"

definition tx_check :: "(script \<Rightarrow> bool) \<Rightarrow> bool \<Rightarrow> int \<Rightarrow> CTransaction \<Rightarrow> utxo_map \<Rightarrow> (string + int) option" where
  "tx_check asset enforced height tx u =
    (if \<not> IsCoinBase tx \<and> (\<exists>txin\<in>set (vin tx). u (prevout txin) = None) then Some (Inl ''bad-txns-inputs-missingorspent'')
     else (case inputs_result height u (vin tx) 0 of
         None \<Rightarrow> None
       | Some (Inl reason) \<Rightarrow> Some (Inl reason)
       | Some (Inr nValueIn) \<Rightarrow>
           (case GetValueOut asset enforced tx of
              None \<Rightarrow> None
            | Some value_out \<Rightarrow>
                if nValueIn < value_out then Some (Inl ''bad-txns-in-belowout'')
                else if \<not> MoneyRange (nValueIn - value_out) then Some (Inl ''bad-txns-fee-out-of-range'')
                else Some (Inr (nValueIn - value_out)))))"

context coins_view begin

lemma have_inputs_loop:
  assumes "cache_ok utxo ok c" and "HaveInputs_loop V c txins = (r, c')"
  shows "r = (\<forall>txin\<in>set txins. cache_utxo utxo c (prevout txin) \<noteq> None) \<and> cache_ok utxo ok c' \<and> cache_utxo utxo c' = cache_utxo utxo c"
  using assms
proof (induction txins arbitrary: c)
  case Nil
  then show ?case by simp
next
  case (Cons txin txins)
  obtain r1 c1 where f: "HaveCoin V c (prevout txin) = (r1, c1)" by (metis surj_pair)
  with have_coin [OF Cons.prems(1) f] Cons.IH [of c1] Cons.prems(2) show ?case by (auto split: if_splits)
qed

lemma check_inputs_loop:
  assumes "cache_ok utxo ok c"
  shows "\<exists>c'. CheckTxInputs_loop V c height txins acc = map_option (\<lambda>r. (r, c')) (inputs_result height (cache_utxo utxo c) txins acc) \<and>
    cache_ok utxo ok c' \<and> cache_utxo utxo c' = cache_utxo utxo c"
  using assms
proof (induction txins arbitrary: c acc)
  case Nil
  then show ?case by auto
next
  case (Cons txin txins)
  obtain x c1 where f: "AccessCoin V c (prevout txin) = (x, c1)" by (metis surj_pair)
  note hit = access [OF Cons.prems f]
  show ?case
  proof (cases "IsSpent x")
    case True
    then have "cache_utxo utxo c (prevout txin) = None" using hit by (auto simp: unspent_def)
    with True f hit show ?thesis by auto
  next
    case False
    then have "cache_utxo utxo c (prevout txin) = Some x" using hit by (auto simp: unspent_def)
    with False f hit Cons.IH [of c1 "acc + nValue (coin_out x)"] show ?thesis by auto
  qed
qed

lemma check_inputs:
  assumes c: "cache_ok utxo ok c"
  shows "\<exists>c'. CheckTxInputs asset enforced V c tx height = map_option (\<lambda>r. (r, c')) (tx_check asset enforced height tx (cache_utxo utxo c)) \<and>
    cache_ok utxo ok c' \<and> cache_utxo utxo c' = cache_utxo utxo c"
proof -
  obtain r c1 where f: "HaveInputs V c tx = (r, c1)" by (metis surj_pair)
  have c1: "r = (IsCoinBase tx \<or> (\<forall>txin\<in>set (vin tx). cache_utxo utxo c (prevout txin) \<noteq> None))" "cache_ok utxo ok c1"
    "cache_utxo utxo c1 = cache_utxo utxo c"
    using f c have_inputs_loop [OF c, of "vin tx" r c1] by (auto simp: HaveInputs_def split: if_splits)
  show ?thesis
  proof (cases r)
    case False
    with f c1 show ?thesis by (auto simp: CheckTxInputs_def tx_check_def)
  next
    case True
    obtain c2 where c2: "CheckTxInputs_loop V c1 height (vin tx) 0 =
        map_option (\<lambda>r. (r, c2)) (inputs_result height (cache_utxo utxo c) (vin tx) 0)"
      "cache_ok utxo ok c2" "cache_utxo utxo c2 = cache_utxo utxo c"
      using check_inputs_loop [OF c1(2), of height "vin tx" 0] c1(3) by auto
    have all: "\<not> (\<not> IsCoinBase tx \<and> (\<exists>txin\<in>set (vin tx). cache_utxo utxo c (prevout txin) = None))" using True c1(1) by auto
    have "CheckTxInputs asset enforced V c tx height = map_option (\<lambda>r. (r, c2)) (tx_check asset enforced height tx (cache_utxo utxo c))"
      unfolding tx_check_def if_not_P [OF all] using True f by (simp add: CheckTxInputs_def c2(1) split: option.split sum.split)
    with c2 show ?thesis by blast
  qed
qed


end

section \<open>A block\<close>

text \<open>The maps between the transactions, the undo data that belongs to them, and the conditions under which they are exact.\<close>

definition block_utxo :: "(script \<Rightarrow> bool) \<Rightarrow> int \<Rightarrow> CTransaction list \<Rightarrow> utxo_map \<Rightarrow> utxo_map" where
  "block_utxo dead height txs u = fold (tx_utxo dead height) txs u"

definition fresh_ids :: "utxo_map \<Rightarrow> CTransaction list \<Rightarrow> bool" where
  "fresh_ids u txs \<longleftrightarrow> distinct (map tx_hash txs) \<and> (\<forall>tx\<in>set txs. \<forall>k. op_hash k = tx_hash tx \<longrightarrow> u k = None)"

definition spends_in :: "utxo_map \<Rightarrow> CTransaction \<Rightarrow> bool" where
  "spends_in u tx \<longleftrightarrow> (\<forall>p\<in>spent_by tx. u p \<noteq> None)"

lemma block_utxo_simps [simp]:
  "block_utxo dead height [] u = u"
  "block_utxo dead height (tx # txs) u = block_utxo dead height txs (tx_utxo dead height tx u)"
  "block_utxo dead height (txs @ [tx]) u = tx_utxo dead height tx (block_utxo dead height txs u)"
  by (simp_all add: block_utxo_def)

lemma tx_utxo_other: "op_hash k \<noteq> tx_hash tx \<Longrightarrow> u k = None \<Longrightarrow> tx_utxo dead height tx u k = None"
  using outs_from_hash [of dead tx height 0 "vout tx" k]
  by (cases "outs_from dead tx height 0 (vout tx) k") (auto simp: tx_utxo_def map_add_def restrict_map_def)

lemma fresh_ids_step: "fresh_ids u (tx # txs) \<Longrightarrow> fresh_ids (tx_utxo dead height tx u) txs"
  by (auto simp: fresh_ids_def intro!: tx_utxo_other)

lemma block_utxo_fresh:
  "fresh_ids u txs \<Longrightarrow> n < length txs \<Longrightarrow> op_hash k = tx_hash (txs ! n) \<Longrightarrow> block_utxo dead height (take n txs) u k = None"
proof (induction txs arbitrary: u n)
  case (Cons tx txs)
  show ?case
  proof (cases n)
    case 0
    with Cons.prems show ?thesis by (auto simp: fresh_ids_def)
  next
    case (Suc m)
    with Cons.IH [OF fresh_ids_step [OF Cons.prems(1)], of m] Cons.prems show ?thesis by simp
  qed
qed simp

lemma tx_utxo_stored:
  assumes "utxo_stored dead u" and "tx_formed tx" and "0 < height" and "height < 2 ^ 31"
  shows "utxo_stored dead (tx_utxo dead height tx u)"
proof -
  have "(word_of_int height :: 31 word) \<noteq> 0"
    using assms(3,4) by (simp add: word_uint_eq_iff uint_word_of_int)
  moreover have "\<not> IsSpent x \<and> \<not> dead (scriptPubKey (coin_out x)) \<and> coin_nHeight x = word_of_int height"
    if "outs_from dead tx height 0 (vout tx) k = Some x" for k x
    using that assms(2) nth_mem [of "unat (op_n k)" "vout tx"]
    by (auto simp: outs_from_def Let_def tx_formed_def Coin_of_def IsSpent_def CTxOut_IsNull_def split: if_splits)
  ultimately show ?thesis
    using assms(1) by (auto simp: utxo_stored_def tx_utxo_def map_add_def restrict_map_def split: option.splits if_splits)
qed

lemma block_utxo_stored:
  "utxo_stored dead u \<Longrightarrow> list_all tx_formed txs \<Longrightarrow> 0 < height \<Longrightarrow> height < 2 ^ 31 \<Longrightarrow> utxo_stored dead (block_utxo dead height txs u)"
  by (induction txs arbitrary: u) (simp_all add: tx_utxo_stored del: power_numeral)

lemma tx_check_spends: "tx_check asset enforced height tx u = Some (Inr fee) \<Longrightarrow> \<not> IsCoinBase tx \<Longrightarrow> spends_in u tx"
  by (auto simp: tx_check_def spends_in_def spent_by_def split: if_splits)

text \<open>The fees as a function of the map, and what the loop of \<^verbatim>\<open>ConnectBlock\<close> has checked when it ends.\<close>

primrec block_checked :: "connect_env \<Rightarrow> int \<Rightarrow> CTransaction list \<Rightarrow> utxo_map \<Rightarrow> int \<Rightarrow> bool" where
  "block_checked env height [] u fees \<longleftrightarrow> fees = 0"
| "block_checked env height (tx # txs) u fees \<longleftrightarrow>
    (if IsCoinBase tx then block_checked env height txs (tx_utxo (env_IsUnspendable env) height tx u) fees
     else (\<exists>fee. tx_check (env_IsAssetScript env) (env_enforced env) height tx u = Some (Inr fee) \<and>
       block_checked env height txs (tx_utxo (env_IsUnspendable env) height tx u) (fees - fee)))"

lemma block_checked_spends:
  "block_checked env height txs u fees \<Longrightarrow> n < length txs \<Longrightarrow>
    spends_in (block_utxo (env_IsUnspendable env) height (take n txs) u) (txs ! n)"
proof (induction txs arbitrary: u n fees)
  case (Cons tx txs)
  show ?case
  proof (cases n)
    case 0
    with Cons.prems show ?thesis using tx_check_spends [of _ _ height tx u] by (auto simp: spends_in_def spent_by_def split: if_splits)
  next
    case (Suc m)
    with Cons.IH [of "tx_utxo (env_IsUnspendable env) height tx u" _ m] Cons.prems show ?thesis by (auto split: if_splits)
  qed
qed simp

definition block_undo :: "connect_env \<Rightarrow> int \<Rightarrow> CTransaction list \<Rightarrow> utxo_map \<Rightarrow> CTxUndo list" where
  "block_undo env height txs u = map (\<lambda>n. tx_undo (block_utxo (env_IsUnspendable env) height (take n txs) u) (txs ! n)) [0..<length txs]"

lemma block_undo_simps [simp]:
  "block_undo env height [] u = []"
  "block_undo env height (tx # txs) u = tx_undo u tx # block_undo env height txs (tx_utxo (env_IsUnspendable env) height tx u)"
  by (simp_all add: block_undo_def map_upt_Suc del: upt_Suc)

context coins_view begin

lemma connect_loop:
  assumes "cache_ok utxo ok c" and "ConnectBlock_loop env V height txs i fees acc c = Some (Inr (fees', undo), c')"
    and "list_all tx_formed txs" and "fresh_ids (cache_utxo utxo c) txs"
  shows "cache_ok utxo ok c' \<and> cache_utxo utxo c' = block_utxo (env_IsUnspendable env) height txs (cache_utxo utxo c) \<and>
    block_checked env height txs (cache_utxo utxo c) (fees' - fees) \<and>
    undo = acc @ (if i = 0 then tl (block_undo env height txs (cache_utxo utxo c)) else block_undo env height txs (cache_utxo utxo c))"
  using assms
proof (induction txs arbitrary: c i fees acc)
  case Nil
  then show ?case by simp
next
  case (Cons tx txs)
  define u where "u = cache_utxo utxo c"
  obtain fee c1 where c1: "(if \<not> IsCoinBase tx then CheckTxInputs (env_IsAssetScript env) (env_enforced env) V c tx height else Some (Inr 0, c)) =
      Some (Inr fee, c1)" "cache_ok utxo ok c1" "cache_utxo utxo c1 = u"
    and fee: "if IsCoinBase tx then fee = 0 else tx_check (env_IsAssetScript env) (env_enforced env) height tx u = Some (Inr fee)"
  proof (cases "IsCoinBase tx")
    case True
    show thesis by (rule that [of 0 c]) (use True Cons.prems in \<open>simp_all add: u_def\<close>)
  next
    case False
    obtain c1 where "CheckTxInputs (env_IsAssetScript env) (env_enforced env) V c tx height =
        map_option (\<lambda>r. (r, c1)) (tx_check (env_IsAssetScript env) (env_enforced env) height tx u)"
      "cache_ok utxo ok c1" "cache_utxo utxo c1 = u"
      using check_inputs [OF Cons.prems(1)] unfolding u_def by blast
    with False Cons.prems(2) that show thesis
      by (cases "tx_check (env_IsAssetScript env) (env_enforced env) height tx u") (auto split: sum.splits)
  qed
  have spends: "\<forall>p\<in>spent_by tx. cache_utxo utxo c1 p \<noteq> None"
    using fee tx_check_spends [of _ _ height tx u fee] by (auto simp: c1(3) spends_in_def spent_by_def split: if_splits)
  have new: "IsCoinBase tx \<or> (\<forall>k. op_hash k = tx_hash tx \<longrightarrow> cache_utxo utxo c1 k = None)"
    using Cons.prems(4) by (auto simp: c1(3) u_def fresh_ids_def)
  have formed: "tx_formed tx" "list_all tx_formed txs" using Cons.prems(3) by auto
  obtain c2 where c2: "UpdateCoins (env_IsUnspendable env) V tx c1 height = Some (tx_undo u tx, c2)" "cache_ok utxo ok c2"
    "cache_utxo utxo c2 = tx_utxo (env_IsUnspendable env) height tx u"
    using update_coins [OF c1(2) formed(1) spends new, of "env_IsUnspendable env" height] c1(3) by auto
  have rest: "ConnectBlock_loop env V height txs (i + 1) (fees + fee) (if i > 0 then acc @ [tx_undo u tx] else acc) c2 =
      Some (Inr (fees', undo), c')"
    using Cons.prems(2) c1(1) c2(1) by (auto simp: Let_def split: if_splits)
  have "fresh_ids (cache_utxo utxo c2) txs" using fresh_ids_step [OF Cons.prems(4)] by (simp add: c2(3) u_def)
  from Cons.IH [OF c2(2) rest formed(2) this] fee show ?case
    by (auto simp: c2(3) u_def [symmetric] algebra_simps split: if_splits)
qed


text \<open>The transactions of a block that are not the first one are no coinbases, and their inputs exist when they are connected.\<close>

lemma disconnect_loop:
  assumes stored: "utxo_stored (env_IsUnspendable env) u" and fresh: "fresh_ids u vtx" and formed: "list_all tx_formed vtx"
    and height: "0 < height" "height < 2 ^ 31"
    and coinbase: "\<forall>n<length vtx. IsCoinBase (vtx ! n) \<longleftrightarrow> n = 0"
    and spends: "\<And>n. n < length vtx \<Longrightarrow> spends_in (block_utxo (env_IsUnspendable env) height (take n vtx) u) (vtx ! n)"
    and undo: "vtxundo = tl (block_undo env height vtx u)"
    and "cache_ok utxo ok d" and "n \<le> length vtx" and "cache_utxo utxo d = block_utxo (env_IsUnspendable env) height (take n vtx) u"
  shows "\<exists>d'. DisconnectBlock_loop (env_IsUnspendable env) V height vtx vtxundo n fClean d = Some (Some fClean, d') \<and>
    cache_ok utxo ok d' \<and> cache_utxo utxo d' = u"
  using assms(9-11)
proof (induction n arbitrary: d)
  case 0
  then show ?case by simp
next
  case (Suc n)
  define dead where "dead = env_IsUnspendable env"
  define tx where "tx = vtx ! n"
  define v where "v = block_utxo dead height (take n vtx) u"
  define outs where "outs = outs_from dead tx height 0 (vout tx)"
  have n: "n < length vtx" using Suc.prems(2) by simp
  have tx: "tx_formed tx" using formed n by (simp add: tx_def list_all_length)
  have d: "cache_utxo utxo d = (v |` (- spent_by tx)) ++ outs"
    using Suc.prems(3) n by (simp add: take_Suc_conv_app_nth tx_def v_def tx_utxo_def dead_def outs_def)
  have unborn: "v k = None" if "outs k \<noteq> None" for k
    using block_utxo_fresh [OF fresh n] outs_from_hash that unfolding v_def tx_def outs_def by metis
  have take_stored: "utxo_stored dead v"
    unfolding v_def dead_def using block_utxo_stored [OF stored _ height, of "take n vtx"] formed
    by (metis append_take_drop_id list_all_append)
  have "0 + length (vout tx) \<le> 2 ^ 32" using tx by (simp add: tx_formed_def)
  moreover have "outs_from dead tx height 0 (vout tx) \<subseteq>\<^sub>m cache_utxo utxo d" by (simp add: d outs_def [symmetric])
  ultimately obtain d1 where d1: "DisconnectBlock_outputs dead V height (tx_hash tx) (IsCoinBase tx) (vout tx) (of_nat 0) fClean d = (fClean, d1)"
    "cache_ok utxo ok d1" "cache_utxo utxo d1 = cache_utxo utxo d |` (- dom outs)"
    using disconnect_outputs [OF Suc.prems(1), of 0 "vout tx" height dead tx fClean] height outs_def by force
  have w: "cache_utxo utxo d1 = v |` (- spent_by tx)"
    using unborn by (auto simp: d1(3) d restrict_map_def map_add_def fun_eq_iff domIff split: option.splits)
  show ?case
  proof (cases "n = 0")
    case True
    then have "spent_by tx = {}" using coinbase n by (simp add: spent_by_def tx_def)
    then have "cache_utxo utxo d1 = u" using w True by (simp add: v_def restrict_map_def)
    moreover have "vtx ! 0 = tx" using True by (simp add: tx_def)
    ultimately show ?thesis using d1 True by (simp add: dead_def Let_def)
  next
    case False
    then have cb: "\<not> IsCoinBase tx" using coinbase n by (simp add: tx_def)
    then have sp: "spent_by tx = prevout ` set (vin tx)" by (simp add: spent_by_def)
    have vp: "vtxundo ! (n - 1) = map (\<lambda>txin. the (v (prevout txin))) (vin tx)"
      using False n cb by (simp add: undo block_undo_def nth_tl tx_undo_def tx_def v_def dead_def)
    have have_all: "\<forall>txin\<in>set (vin tx). v (prevout txin) \<noteq> None"
      using spends [OF n] by (simp add: spends_in_def sp v_def dead_def tx_def [symmetric])
    obtain d2 where d2: "DisconnectBlock_inputs dead V (vin tx) (vtxundo ! (n - 1)) (length (vin tx)) fClean d1 = Some (Some fClean, d2)"
      "cache_ok utxo ok d2" "cache_utxo utxo d2 = cache_utxo utxo d1 ++ (v |` (prevout ` set (take (length (vin tx)) (vin tx))))"
      using disconnect_inputs [OF d1(2) order.refl _ take_stored vp have_all, of fClean] tx
      by (auto simp: tx_formed_def w sp)
    have "cache_utxo utxo d2 = v"
      by (auto simp: d2(3) w sp map_add_def restrict_map_def fun_eq_iff split: option.splits)
    then obtain d' where "DisconnectBlock_loop dead V height vtx vtxundo n fClean d2 = Some (Some fClean, d')"
      "cache_ok utxo ok d'" "cache_utxo utxo d' = u"
      using Suc.IH [OF d2(2)] n by (auto simp: v_def dead_def)
    then show ?thesis using d1(1) d2(1) False vp by (simp add: tx_def [symmetric] dead_def [symmetric] Let_def)
  qed
qed

lemma connect_accepts:
  assumes "cache_ok utxo ok c" and "list_all tx_formed vtx" and "fresh_ids (cache_utxo utxo c) vtx"
    and "ConnectBlock env params V vtx height hash c = Some (Inr vtxundo, c')"
  shows "\<exists>fees value_out. vtx \<noteq> [] \<and> cache_ok utxo ok c' \<and> hashBlock c' = hash \<and>
    cache_utxo utxo c' = block_utxo (env_IsUnspendable env) height vtx (cache_utxo utxo c) \<and>
    block_checked env height vtx (cache_utxo utxo c) fees \<and> vtxundo = tl (block_undo env height vtx (cache_utxo utxo c)) \<and>
    GetValueOut (env_IsAssetScript env) (env_enforced env) (vtx ! 0) = Some value_out \<and> value_out \<le> fees + GetBlockSubsidy height params"
proof -
  obtain fees undo c1 where loop: "ConnectBlock_loop env V height vtx 0 0 [] c = Some (Inr (fees, undo), c1)"
    and cb: "vtx \<noteq> []" "vtxundo = undo" "c' = SetBestBlock c1 hash"
      "case GetValueOut (env_IsAssetScript env) (env_enforced env) (vtx ! 0) of None \<Rightarrow> False | Some v \<Rightarrow> v \<le> fees + GetBlockSubsidy height params"
    using assms(4) by (auto simp: ConnectBlock_def Let_def split: option.splits sum.splits if_splits)
  note connect_loop [OF assms(1) loop assms(2,3)]
  moreover have "cache_ok utxo ok c' \<and> cache_utxo utxo c' = cache_utxo utxo c1" if "cache_ok utxo ok c1"
    using set_best [OF that] by (simp add: cb)
  ultimately show ?thesis
    using cb by (auto simp: SetBestBlock_def split: option.splits)
qed

text \<open>Disconnecting restores the map, from any cache that stands for the map after the block.\<close>

lemma disconnect_undoes_connect:
  assumes c: "cache_ok utxo ok c" and stored: "utxo_stored (env_IsUnspendable env) (cache_utxo utxo c)"
    and formed: "list_all tx_formed vtx" and fresh: "fresh_ids (cache_utxo utxo c) vtx"
    and height: "0 < height" "height < 2 ^ 31" and coinbase: "\<forall>n<length vtx. IsCoinBase (vtx ! n) \<longleftrightarrow> n = 0"
    and con: "ConnectBlock env params V vtx height hash c = Some (Inr vtxundo, c')"
    and d: "cache_ok utxo ok d" "cache_utxo utxo d = cache_utxo utxo c'"
  shows "\<exists>d'. DisconnectBlock (env_IsUnspendable env) V vtx vtxundo height prev d = Some (DISCONNECT_OK, d') \<and>
    cache_ok utxo ok d' \<and> cache_utxo utxo d' = cache_utxo utxo c \<and> hashBlock d' = prev"
proof -
  obtain fees where acc: "vtx \<noteq> []" "cache_utxo utxo c' = block_utxo (env_IsUnspendable env) height vtx (cache_utxo utxo c)"
    "block_checked env height vtx (cache_utxo utxo c) fees" "vtxundo = tl (block_undo env height vtx (cache_utxo utxo c))"
    using connect_accepts [OF c formed fresh con] by blast
  note spends = block_checked_spends [OF acc(3)]
  have du: "cache_utxo utxo d = block_utxo (env_IsUnspendable env) height (take (length vtx) vtx) (cache_utxo utxo c)"
    using acc(2) d(2) by simp
  obtain d1 where "DisconnectBlock_loop (env_IsUnspendable env) V height vtx vtxundo (length vtx) True d = Some (Some True, d1)"
    "cache_ok utxo ok d1" "cache_utxo utxo d1 = cache_utxo utxo c"
    using disconnect_loop [OF stored fresh formed height coinbase spends acc(4) d(1) order.refl du] by blast
  moreover have "length vtxundo + 1 = length vtx" using acc(1,4) by (simp add: block_undo_def)
  ultimately show ?thesis
    using set_best [of utxo ok d1 prev] by (simp add: DisconnectBlock_def SetBestBlock_def)
qed

end


section \<open>Disconnecting is the inverse of connecting\<close>

text \<open>
  C19. Disconnecting a block that was connected, with the undo data that connecting it produced, reports no inconsistency and restores the
  map of unspent coins exactly, from whatever caches now stand for the map after the block. The block has to be well-formed: one coinbase, the
  first transaction; no transaction spends an outpoint twice; the ids are new and the coins have heights, which fit 31 bits.
\<close>

theorem DisconnectBlock_undoes_ConnectBlock:
  assumes c: "stack_ok c" and stored: "utxo_stored (env_IsUnspendable env) (stack_utxo c)"
    and block: "list_all tx_formed vtx" "fresh_ids (stack_utxo c) vtx" "\<forall>n<length vtx. IsCoinBase (vtx ! n) \<longleftrightarrow> n = 0"
    and height: "0 < height" "height < 2 ^ 31"
    and con: "ConnectBlock env params (stack_view full) vtx height hash c = Some (Inr vtxundo, c')"
    and d: "stack_ok d" "stack_utxo d = stack_utxo c'"
  shows "\<exists>d'. DisconnectBlock (env_IsUnspendable env) (stack_view full) vtx vtxundo height prev d = Some (DISCONNECT_OK, d') \<and>
    stack_ok d' \<and> stack_utxo d' = stack_utxo c \<and> hashBlock d' = prev"
  using tip.disconnect_undoes_connect [OF c [unfolded stack_ok_def] stored [unfolded stack_utxo_def] block(1) block(2) [unfolded stack_utxo_def]
      height block(3) con [unfolded stack_view_def] d(1) [unfolded stack_ok_def] d(2) [unfolded stack_utxo_def], of prev]
  by (simp add: stack_ok_def stack_utxo_def stack_view_def)

definition sample_env :: connect_env where
  "sample_env = \<lparr>env_IsUnspendable = \<lambda>_. False, env_IsAssetScript = \<lambda>_. False, env_enforced = True\<rparr>"

definition sample_cb :: CTransaction where
  "sample_cb = \<lparr>vin = [\<lparr>prevout = \<lparr>op_hash = uint256_null, op_n = - 1\<rparr>, scriptSig = [], nSequence = 0, scriptWitness = []\<rparr>],
    vout = [\<lparr>nValue = 51, scriptPubKey = [81]\<rparr>], tx_nVersion = 1, nLockTime = 0, tx_hash = replicate 32 2\<rparr>"

definition sample_spend :: CTransaction where
  "sample_spend = \<lparr>vin = [\<lparr>prevout = sample_out, scriptSig = [], nSequence = 0, scriptWitness = []\<rparr>],
    vout = [\<lparr>nValue = 49, scriptPubKey = [81]\<rparr>], tx_nVersion = 1, nLockTime = 0, tx_hash = replicate 32 3\<rparr>"

definition sample_coins :: coins_stack where
  "sample_coins = CCoinsViewCache_new (CCoinsViewCache_new (sample_db\<lparr>db_coins := [sample_out \<mapsto> sample_coin]\<rparr>))"

lemma sample_coins_ok: "stack_ok sample_coins \<and> stack_utxo sample_coins = [sample_out \<mapsto> sample_coin]"
  using coins_reach_ok [OF coins_reach.start [of "sample_db\<lparr>db_coins := [sample_out \<mapsto> sample_coin]\<rparr>" "\<lambda>_. False" "\<lambda>_. False"]]
    sample_live by (simp add: sample_coins_def db_ok_def sample_db_def)

lemma sample_subsidy: "GetBlockSubsidy 200 sample_params = 500000000000"
  by (simp add: GetBlockSubsidy_def sample_params_def signed_divide_int_def COIN_def)

lemma sample_ids: "replicate 32 (2 :: byte) \<noteq> replicate 32 3" "replicate 32 (1 :: byte) \<noteq> replicate 32 3"
  "replicate 32 (1 :: byte) \<noteq> replicate 32 2" "uint256_null \<noteq> replicate 32 1"
  by (simp_all add: uint256_null_def)

lemma sample_block: "list_all tx_formed [sample_cb, sample_spend]" "fresh_ids [sample_out \<mapsto> sample_coin] [sample_cb, sample_spend]"
  "IsCoinBase sample_cb" "\<not> IsCoinBase sample_spend" "utxo_stored (env_IsUnspendable sample_env) [sample_out \<mapsto> sample_coin]"
  using sample_ids sample_live
  by (auto simp: tx_formed_def fresh_ids_def sample_cb_def sample_spend_def sample_out_def IsCoinBase_def COutPoint_IsNull_def
      utxo_stored_def sample_env_def sample_coin_def Coin_of_def split: if_splits simp del: replicate.simps)

lemmas connect_steps = ConnectBlock_def UpdateCoins_def AddCoins_def AddCoin_def Let_def CCoinsViewCache_new_def FetchCoin_def SpendCoin_def
  AccessCoin_def HaveInputs_def HaveCoin_def CheckTxInputs_def stack_view_def cache_view_def db_view_def GetCoin_def db_GetCoin_def
  IsSpent_def Coin_of_def CTxOut_IsNull_def MoneyRange_def MAX_MONEY_def COIN_def GetValueOut_def Coin_Clear_def CTxOut_SetNull_def
  IsCoinBase_def COutPoint_IsNull_def

lemmas sample_parts = sample_subsidy sample_cb_def sample_spend_def sample_out_def sample_coins_def sample_db_def sample_coin_def sample_ids

lemma sample_connects:
  "\<exists>undo c'. ConnectBlock sample_env sample_params (stack_view full) [sample_cb, sample_spend] 200 (replicate 32 5) sample_coins = Some (Inr undo, c')"
  by (simp add: connect_steps sample_parts sample_env_def del: replicate.simps)

theorem DisconnectBlock_undoes_ConnectBlock_witness:
  "\<exists>undo c' d'. ConnectBlock sample_env sample_params (stack_view (\<lambda>_. False)) [sample_cb, sample_spend] 200 (replicate 32 5) sample_coins
      = Some (Inr undo, c') \<and>
    DisconnectBlock (env_IsUnspendable sample_env) (stack_view (\<lambda>_. False)) [sample_cb, sample_spend] undo 200 (replicate 32 4) c'
      = Some (DISCONNECT_OK, d') \<and> stack_utxo d' = [sample_out \<mapsto> sample_coin]"
proof -
  note ok = conjunct1 [OF sample_coins_ok] and u = conjunct2 [OF sample_coins_ok]
  obtain undo c' where con: "ConnectBlock sample_env sample_params (stack_view (\<lambda>_. False)) [sample_cb, sample_spend] 200 (replicate 32 5)
      sample_coins = Some (Inr undo, c')" using sample_connects by blast
  have c': "stack_ok c'"
    using tip.connect_accepts [of sample_coins "[sample_cb, sample_spend]" sample_env sample_params "\<lambda>_. False" 200 "replicate 32 5" undo c']
      ok con sample_block(1,2) u by (auto simp: stack_ok_def stack_utxo_def stack_view_def)
  have "\<exists>d'. DisconnectBlock (env_IsUnspendable sample_env) (stack_view (\<lambda>_. False)) [sample_cb, sample_spend] undo 200 (replicate 32 4) c'
      = Some (DISCONNECT_OK, d') \<and> stack_ok d' \<and> stack_utxo d' = stack_utxo sample_coins \<and> hashBlock d' = replicate 32 4"
    by (rule DisconnectBlock_undoes_ConnectBlock [OF ok _ _ _ _ _ _ con c']) (use sample_block u in \<open>auto simp: less_Suc_eq\<close>)
  with con u show ?thesis by auto
qed

end
