(* ===== verification/Money.thy ===== *)
theory Money
  imports Connect_Refine
begin

text \<open>
  Where money comes from: the fee that \<^verbatim>\<open>CheckTxInputs\<close> computes, the balance of a block, and the subsidies of the whole
  schedule. The amount in circulation is the sum over the map of unspent coins.
\<close>

section \<open>The amount in circulation\<close>

definition coin_value :: "utxo_map \<Rightarrow> COutPoint \<Rightarrow> int" where
  "coin_value u k = (case u k of None \<Rightarrow> 0 | Some x \<Rightarrow> nValue (coin_out x))"

definition utxo_total :: "utxo_map \<Rightarrow> int" where
  "utxo_total u = (\<Sum>k\<in>dom u. coin_value u k)"

lemma utxo_total_put:
  assumes "finite (dom u)" and "u k = None"
  shows "utxo_total (u(k \<mapsto> x)) = utxo_total u + nValue (coin_out x)"
proof -
  have "utxo_total (u(k \<mapsto> x)) = nValue (coin_out x) + (\<Sum>j\<in>dom u. coin_value (u(k \<mapsto> x)) j)"
    unfolding utxo_total_def using assms by (simp add: domIff coin_value_def)
  also have "(\<Sum>j\<in>dom u. coin_value (u(k \<mapsto> x)) j) = utxo_total u"
    unfolding utxo_total_def using assms by (intro sum.cong) (auto simp: coin_value_def)
  finally show ?thesis by (rule trans) (rule add.commute)
qed

lemma utxo_total_spend:
  assumes "finite (dom u)" and "distinct (map prevout txins)"
  shows "utxo_total (u |` (- prevout ` set txins)) = utxo_total u - (\<Sum>txin\<leftarrow>txins. coin_value u (prevout txin))"
proof -
  let ?S = "prevout ` set txins"
  have "(\<Sum>txin\<leftarrow>txins. coin_value u (prevout txin)) = (\<Sum>k\<in>?S. coin_value u k)"
    using sum.distinct_set_conv_list [OF assms(2), of "coin_value u"] by (simp add: comp_def)
  also have "\<dots> = (\<Sum>k\<in>?S \<inter> dom u. coin_value u k)"
    by (rule sum.mono_neutral_right) (auto simp: coin_value_def split: option.splits)
  also have "\<dots> = utxo_total u - (\<Sum>k\<in>dom u - ?S. coin_value u k)"
    unfolding utxo_total_def using sum.Int_Diff [OF assms(1), of "coin_value u" ?S] by (simp add: Int_commute)
  also have "(\<Sum>k\<in>dom u - ?S. coin_value u k) = utxo_total (u |` (- ?S))"
    unfolding utxo_total_def by (rule sum.cong) (auto simp: coin_value_def)
  finally show ?thesis by simp
qed

lemma outs_total:
  assumes "finite (dom u)" and "i + length outs \<le> 2 ^ 32" and "\<forall>k. op_hash k = tx_hash tx \<longrightarrow> u k = None"
  shows "finite (dom (u ++ outs_from dead tx height i outs)) \<and>
    utxo_total (u ++ outs_from dead tx height i outs) \<le> utxo_total u + (\<Sum>out\<leftarrow>outs. max 0 (nValue out))"
  using assms(2)
proof (induction outs arbitrary: i)
  case Nil
  then show ?case using assms(1) by simp
next
  case (Cons out outs)
  define k where "k = \<lparr>op_hash = tx_hash tx, op_n = of_nat i :: u32\<rparr>"
  define v where "v = u ++ outs_from dead tx height (Suc i) outs"
  have i: "i < 2 ^ 32" using Cons.prems(1) by simp
  have IH: "finite (dom v)" "utxo_total v \<le> utxo_total u + (\<Sum>out\<leftarrow>outs. max 0 (nValue out))"
    using Cons.IH [of "Suc i"] Cons.prems by (auto simp: v_def)
  have "u k = None" using assms(3) by (simp add: k_def)
  then have "v k = None" using outs_from_unborn [OF i] by (simp add: v_def map_add_def k_def)
  note put = utxo_total_put [OF IH(1) this, of "Coin_of out height (IsCoinBase tx)"]
  show ?case
  proof (cases "dead (scriptPubKey out)")
    case True
    with IH show ?thesis by (auto simp: outs_from_Cons [OF i] v_def)
  next
    case False
    then have eq: "u ++ outs_from dead tx height i (out # outs) = v(k \<mapsto> Coin_of out height (IsCoinBase tx))"
      by (simp add: outs_from_Cons [OF i] v_def k_def)
    have fin: "finite (dom (v(k \<mapsto> Coin_of out height (IsCoinBase tx))))" using IH(1) by simp
    show ?thesis unfolding eq put by (intro conjI, rule fin) (use IH(2) in simp)
  qed
qed

section \<open>Transactions and blocks\<close>

text \<open>
  Without the deployment \<^verbatim>\<open>DEPLOYMENT_ENFORCE_VALUE\<close>, which the main network does not configure, \<^verbatim>\<open>GetValueOut\<close> passes over the outputs
  with an asset script. Nothing in \<^verbatim>\<open>ConnectBlock\<close> pays for what they are worth.
\<close>

definition unchecked_outs :: "(script \<Rightarrow> bool) \<Rightarrow> bool \<Rightarrow> CTxOut list \<Rightarrow> int" where
  "unchecked_outs asset enforced outs =
    (\<Sum>out\<leftarrow>outs. if \<not> enforced \<and> asset (scriptPubKey out) then max 0 (nValue out) else 0)"

definition unchecked_value :: "connect_env \<Rightarrow> CTransaction list \<Rightarrow> int" where
  "unchecked_value env txs = (\<Sum>tx\<leftarrow>txs. unchecked_outs (env_IsAssetScript env) (env_enforced env) (vout tx))"

lemma unchecked_outs_enforced [simp]: "unchecked_outs asset True outs = 0"
  by (induction outs) (simp_all add: unchecked_outs_def)

lemma GetValueOut_loop_sum:
  "GetValueOut_loop asset enforced outs acc = Some v \<Longrightarrow>
    (\<Sum>out\<leftarrow>outs. max 0 (nValue out)) = v - acc + unchecked_outs asset enforced outs"
proof (induction outs arbitrary: acc)
  case (Cons out outs)
  show ?case
  proof (cases "\<not> enforced \<and> asset (scriptPubKey out)")
    case True
    with Cons show ?thesis by (simp add: unchecked_outs_def)
  next
    case False
    then have "MoneyRange (nValue out)" and "GetValueOut_loop asset enforced outs (acc + nValue out) = Some v"
      using Cons.prems by (auto simp: Let_def split: if_splits)
    with Cons.IH [OF this(2)] False show ?thesis by (auto simp: unchecked_outs_def MoneyRange_def)
  qed
qed (simp add: unchecked_outs_def)

lemma GetValueOut_sum:
  "GetValueOut asset enforced tx = Some v \<Longrightarrow> (\<Sum>out\<leftarrow>vout tx. max 0 (nValue out)) = v + unchecked_outs asset enforced (vout tx)"
  using GetValueOut_loop_sum [of asset enforced "vout tx" 0 v] by (simp add: GetValueOut_def)

lemma inputs_result_sum:
  "inputs_result height u txins acc = Some (Inr v) \<Longrightarrow> v = acc + (\<Sum>txin\<leftarrow>txins. coin_value u (prevout txin))"
proof (induction txins arbitrary: acc)
  case (Cons txin txins)
  then obtain x where "u (prevout txin) = Some x" and "inputs_result height u txins (acc + nValue (coin_out x)) = Some (Inr v)"
    by (auto split: option.splits if_splits)
  with Cons.IH [OF this(2)] show ?case by (simp add: coin_value_def)
qed simp

lemma tx_total:
  assumes fin: "finite (dom u)" and formed: "tx_formed tx" and fresh: "fresh_ids u (tx # txs)"
    and v: "GetValueOut asset enforced tx = Some v"
  shows "finite (dom (tx_utxo dead height tx u)) \<and>
    utxo_total (tx_utxo dead height tx u) \<le>
      utxo_total u - (if IsCoinBase tx then 0 else \<Sum>txin\<leftarrow>vin tx. coin_value u (prevout txin)) + v + unchecked_outs asset enforced (vout tx)"
proof -
  define w where "w = u |` (- spent_by tx)"
  have "dom w \<subseteq> dom u" by (auto simp: w_def)
  then have w: "finite (dom w)" "\<forall>k. op_hash k = tx_hash tx \<longrightarrow> w k = None"
    using finite_subset [OF _ fin] fresh by (simp_all add: w_def fresh_ids_def restrict_map_def)
  have total: "utxo_total w = utxo_total u - (if IsCoinBase tx then 0 else \<Sum>txin\<leftarrow>vin tx. coin_value u (prevout txin))"
    using utxo_total_spend [OF fin, of "vin tx"] formed by (simp add: w_def spent_by_def tx_formed_def restrict_map_def)
  from outs_total [OF w(1) _ w(2), of 0 "vout tx" dead height] GetValueOut_sum [OF v] formed
  show ?thesis unfolding tx_utxo_def w_def [symmetric] by (simp add: tx_formed_def total)
qed

lemma tx_check_fee:
  "tx_check asset enforced height tx u = Some (Inr fee) \<Longrightarrow>
    \<exists>v. GetValueOut asset enforced tx = Some v \<and> fee = (\<Sum>txin\<leftarrow>vin tx. coin_value u (prevout txin)) - v"
  using inputs_result_sum [of height u "vin tx" 0] by (auto simp: tx_check_def split: if_splits option.splits sum.splits)

lemma block_total:
  assumes "finite (dom u)" and "list_all tx_formed txs" and "fresh_ids u txs" and "block_checked env height txs u fees"
    and "\<forall>tx\<in>set txs. \<not> IsCoinBase tx"
  shows "utxo_total (block_utxo (env_IsUnspendable env) height txs u) \<le> utxo_total u - fees + unchecked_value env txs"
  using assms
proof (induction txs arbitrary: u fees)
  case Nil
  then show ?case by (simp add: unchecked_value_def)
next
  case (Cons tx txs)
  define u' where "u' = tx_utxo (env_IsUnspendable env) height tx u"
  define extra where "extra = unchecked_outs (env_IsAssetScript env) (env_enforced env) (vout tx)"
  obtain fee where fee: "tx_check (env_IsAssetScript env) (env_enforced env) height tx u = Some (Inr fee)" "block_checked env height txs u' (fees - fee)"
    using Cons.prems(4,5) by (auto simp: u'_def)
  obtain v where v: "GetValueOut (env_IsAssetScript env) (env_enforced env) tx = Some v" "fee = (\<Sum>txin\<leftarrow>vin tx. coin_value u (prevout txin)) - v"
    using tx_check_fee [OF fee(1)] by blast
  have "finite (dom u') \<and> utxo_total u' \<le> utxo_total u - fee + extra"
    using tx_total [OF Cons.prems(1) _ Cons.prems(3) v(1), of "env_IsUnspendable env" height] Cons.prems(2,5) v(2)
    by (simp add: u'_def extra_def)
  moreover have "utxo_total (block_utxo (env_IsUnspendable env) height txs u') \<le> utxo_total u' - (fees - fee) + unchecked_value env txs"
    using Cons.IH [of u' "fees - fee"] calculation Cons.prems fee(2) fresh_ids_step [OF Cons.prems(3)] by (simp add: u'_def)
  ultimately show ?case by (simp add: u'_def unchecked_value_def extra_def)
qed

lemma unchecked_value_zero:
  assumes "env_enforced env \<or> list_all (\<lambda>tx. list_all (\<lambda>out. env_IsAssetScript env (scriptPubKey out) \<longrightarrow> nValue out = 0) (vout tx)) vtx"
  shows "unchecked_value env vtx = 0"
proof -
  have "unchecked_outs asset enforced outs = 0" if "enforced \<or> list_all (\<lambda>out. asset (scriptPubKey out) \<longrightarrow> nValue out = 0) outs"
    for asset enforced outs
    using that by (induction outs) (auto simp: unchecked_outs_def)
  with assms show ?thesis by (induction vtx) (auto simp: unchecked_value_def)
qed

text \<open>
  C20. If \<^verbatim>\<open>ConnectBlock\<close> accepts a block, the amount in circulation grows by no more than \<^verbatim>\<open>GetBlockSubsidy\<close> of its height and the
  values of its outputs with asset scripts, whatever its transactions do. The second part is zero if the values of all outputs are
  enforced, or if no asset output carries money; otherwise the code does not account for it.
\<close>

theorem ConnectBlock_creates_subsidy:
  assumes c: "stack_ok c" and fin: "finite (dom (stack_utxo c))"
    and block: "list_all tx_formed vtx" "fresh_ids (stack_utxo c) vtx" "\<forall>n<length vtx. IsCoinBase (vtx ! n) \<longleftrightarrow> n = 0"
    and con: "ConnectBlock env params (stack_view full) vtx height hash c = Some (Inr vtxundo, c')"
  shows "utxo_total (stack_utxo c') \<le> utxo_total (stack_utxo c) + GetBlockSubsidy height params + unchecked_value env vtx \<and>
    (env_enforced env \<or> list_all (\<lambda>tx. list_all (\<lambda>out. env_IsAssetScript env (scriptPubKey out) \<longrightarrow> nValue out = 0) (vout tx)) vtx \<longrightarrow>
      unchecked_value env vtx = 0)"
proof -
  define u where "u = stack_utxo c"
  obtain fees v where acc: "vtx \<noteq> []" "stack_utxo c' = block_utxo (env_IsUnspendable env) height vtx u"
    "block_checked env height vtx u fees" "GetValueOut (env_IsAssetScript env) (env_enforced env) (vtx ! 0) = Some v"
    "v \<le> fees + GetBlockSubsidy height params"
    using tip.connect_accepts [OF c [unfolded stack_ok_def] block(1) block(2) [unfolded stack_utxo_def] con [unfolded stack_view_def]]
    by (auto simp: u_def stack_utxo_def)
  obtain tx txs where vtx: "vtx = tx # txs" using acc(1) by (cases vtx) auto
  have cb: "IsCoinBase tx" "\<forall>t\<in>set txs. \<not> IsCoinBase t" using block(3) by (auto simp: vtx All_less_Suc2 in_set_conv_nth)
  define u' where "u' = tx_utxo (env_IsUnspendable env) height tx u"
  have u': "finite (dom u')"
    "utxo_total u' \<le> utxo_total u + v + unchecked_outs (env_IsAssetScript env) (env_enforced env) (vout tx)"
    using tx_total [of u tx txs "env_IsAssetScript env" "env_enforced env" v "env_IsUnspendable env" height] fin block cb(1) acc(4) by (auto simp: u'_def u_def vtx)
  have "utxo_total (block_utxo (env_IsUnspendable env) height txs u') \<le> utxo_total u' - fees + unchecked_value env txs"
    using block_total [OF u'(1), of txs env height fees] acc(3) cb block(1) fresh_ids_step [of u tx txs] block(2)
    by (simp add: u'_def u_def vtx)
  then have "utxo_total (stack_utxo c') \<le> u_bound"
    if "u_bound = utxo_total u + GetBlockSubsidy height params + unchecked_value env vtx" for u_bound
    using acc(2,5) u'(2) that by (simp add: vtx u'_def unchecked_value_def)
  then show ?thesis using unchecked_value_zero [of env vtx] by (auto simp: u_def)
qed

theorem ConnectBlock_creates_subsidy_witness:
  "\<exists>undo c'. ConnectBlock sample_env sample_params (stack_view (\<lambda>_. False)) [sample_cb, sample_spend] 200 (replicate 32 5) sample_coins
      = Some (Inr undo, c') \<and> utxo_total (stack_utxo c') \<le> 50 + 500000000000"
proof -
  note ok = conjunct1 [OF sample_coins_ok] and u = conjunct2 [OF sample_coins_ok]
  obtain undo c' where con: "ConnectBlock sample_env sample_params (stack_view (\<lambda>_. False)) [sample_cb, sample_spend] 200 (replicate 32 5)
      sample_coins = Some (Inr undo, c')" using sample_connects by blast
  have "utxo_total (stack_utxo c') \<le> utxo_total (stack_utxo sample_coins) + GetBlockSubsidy 200 sample_params"
    using ConnectBlock_creates_subsidy [OF ok _ _ _ _ con] sample_block u by (auto simp: less_Suc_eq sample_env_def)
  moreover have "utxo_total [sample_out \<mapsto> sample_coin] = 50"
    by (simp add: utxo_total_def coin_value_def sample_coin_def Coin_of_def)
  ultimately show ?thesis using con u sample_subsidy by auto
qed

text \<open>The second part is not idle: without enforcement a transaction that spends 50 units may pay any amount to an asset script.\<close>

definition reissue_env :: connect_env where
  "reissue_env = \<lparr>env_IsUnspendable = \<lambda>_. False, env_IsAssetScript = \<lambda>s. s = [82], env_enforced = False\<rparr>"

definition reissue_tx :: "int \<Rightarrow> CTransaction" where
  "reissue_tx v = sample_spend\<lparr>vout := [\<lparr>nValue = v, scriptPubKey = [82]\<rparr>]\<rparr>"

lemma reissue_creates_money:
  assumes "0 \<le> v"
  shows "\<exists>undo c'. ConnectBlock reissue_env sample_params (stack_view full) [sample_cb, reissue_tx v] 200 (replicate 32 5) sample_coins
      = Some (Inr undo, c') \<and> utxo_total (stack_utxo c') = utxo_total (stack_utxo sample_coins) + 1 + v"
proof -
  note ok = conjunct1 [OF sample_coins_ok] and u = conjunct2 [OF sample_coins_ok]
  have "\<exists>undo c'. ConnectBlock reissue_env sample_params (stack_view full) [sample_cb, reissue_tx v] 200 (replicate 32 5) sample_coins
      = Some (Inr undo, c')"
    using assms
    by (simp add: connect_steps sample_parts reissue_tx_def reissue_env_def del: replicate.simps)
  then obtain undo c' where con: "ConnectBlock reissue_env sample_params (stack_view full) [sample_cb, reissue_tx v] 200 (replicate 32 5)
      sample_coins = Some (Inr undo, c')" by blast
  have block: "list_all tx_formed [sample_cb, reissue_tx v]" "fresh_ids [sample_out \<mapsto> sample_coin] [sample_cb, reissue_tx v]"
    using sample_block(1,2) assms by (auto simp: tx_formed_def fresh_ids_def reissue_tx_def IsCoinBase_def)
  have "stack_utxo c' = block_utxo (env_IsUnspendable reissue_env) 200 [sample_cb, reissue_tx v] [sample_out \<mapsto> sample_coin]"
    using tip.connect_accepts [OF ok [unfolded stack_ok_def] block(1) _ con [unfolded stack_view_def]] block(2) u
    by (auto simp: stack_utxo_def)
  also have "\<dots> = [\<lparr>op_hash = replicate 32 2, op_n = 0\<rparr> \<mapsto> Coin_of \<lparr>nValue = 51, scriptPubKey = [81]\<rparr> 200 True,
      \<lparr>op_hash = replicate 32 3, op_n = 0\<rparr> \<mapsto> Coin_of \<lparr>nValue = v, scriptPubKey = [82]\<rparr> 200 False]"
    using sample_ids by (simp add: tx_utxo_def spent_by_def outs_from_Cons sample_cb_def sample_spend_def reissue_tx_def reissue_env_def
      IsCoinBase_def COutPoint_IsNull_def sample_out_def del: replicate.simps)
  finally have total: "utxo_total (stack_utxo c') = 51 + v"
    using sample_ids(1) by (simp add: utxo_total_def coin_value_def Coin_of_def del: replicate.simps)
  have "utxo_total (stack_utxo sample_coins) = 50" by (simp add: u utxo_total_def coin_value_def sample_coin_def Coin_of_def)
  with con total show ?thesis by simp
qed

section \<open>The fee of a transaction\<close>

lemma inputs_result_iff:
  assumes "MoneyRange acc"
  shows "inputs_result height u txins acc = Some (Inr v) \<longleftrightarrow>
    (\<forall>txin\<in>set txins. \<exists>x. u (prevout txin) = Some x \<and> MoneyRange (nValue (coin_out x)) \<and>
      (fCoinBase x \<longrightarrow> uint (coin_nHeight x) + 100 \<le> height)) \<and>
    v = acc + (\<Sum>txin\<leftarrow>txins. coin_value u (prevout txin)) \<and> v \<le> MAX_MONEY"
  using assms
proof (induction txins arbitrary: acc)
  case Nil
  then show ?case by (auto simp: MoneyRange_def)
next
  case (Cons txin txins)
  show ?case
  proof (cases "u (prevout txin)")
    case None
    then show ?thesis by simp
  next
    case (Some x)
    define z where "z = nValue (coin_out x)"
    have pos: "0 \<le> (\<Sum>t\<leftarrow>txins. coin_value u (prevout t))"
      if "\<forall>t\<in>set txins. \<exists>x. u (prevout t) = Some x \<and> MoneyRange (nValue (coin_out x)) \<and> (fCoinBase x \<longrightarrow> uint (coin_nHeight x) + 100 \<le> height)"
      using that by (intro sum_list_nonneg) (auto simp: coin_value_def MoneyRange_def)
    have val: "coin_value u (prevout txin) = z" using Some by (simp add: coin_value_def z_def)
    have mature: "(fCoinBase x \<and> height - uint (coin_nHeight x) < COINBASE_MATURITY) = (\<not> (fCoinBase x \<longrightarrow> uint (coin_nHeight x) + 100 \<le> height))"
      by (auto simp: COINBASE_MATURITY_def)
    show ?thesis
    proof (cases "(fCoinBase x \<longrightarrow> uint (coin_nHeight x) + 100 \<le> height) \<and> MoneyRange z \<and> MoneyRange (acc + z)")
      case True
      with Cons.IH [of "acc + z"] Some val show ?thesis by (auto simp: z_def [symmetric] algebra_simps COINBASE_MATURITY_def)
    next
      case False
      then have "inputs_result height u (txin # txins) acc \<noteq> Some (Inr v)"
        using Some mature by (auto simp: z_def [symmetric])
      moreover have "\<not> ((\<forall>t\<in>set (txin # txins). \<exists>x. u (prevout t) = Some x \<and> MoneyRange (nValue (coin_out x)) \<and>
          (fCoinBase x \<longrightarrow> uint (coin_nHeight x) + 100 \<le> height)) \<and>
        v = acc + (\<Sum>t\<leftarrow>txin # txins. coin_value u (prevout t)) \<and> v \<le> MAX_MONEY)"
      proof
        assume all: "(\<forall>t\<in>set (txin # txins). \<exists>x. u (prevout t) = Some x \<and> MoneyRange (nValue (coin_out x)) \<and>
            (fCoinBase x \<longrightarrow> uint (coin_nHeight x) + 100 \<le> height)) \<and>
          v = acc + (\<Sum>t\<leftarrow>txin # txins. coin_value u (prevout t)) \<and> v \<le> MAX_MONEY"
        then have "0 \<le> (\<Sum>t\<leftarrow>txins. coin_value u (prevout t))" by (intro pos) simp
        with all False Some Cons.prems val show False by (auto simp: MoneyRange_def z_def)
      qed
      ultimately show ?thesis by blast
    qed
  qed
qed

lemma inputs_result_spends: "inputs_result height u txins acc = Some (Inr v) \<Longrightarrow> \<forall>txin\<in>set txins. u (prevout txin) \<noteq> None"
  by (induction txins arbitrary: acc) (auto split: option.splits if_splits)

lemma tx_check_iff:
  "tx_check asset enforced height tx u = Some (Inr fee) \<longleftrightarrow>
    (\<exists>s v. inputs_result height u (vin tx) 0 = Some (Inr s) \<and> GetValueOut asset enforced tx = Some v \<and> fee = s - v \<and> MoneyRange fee)"
proof (cases "\<exists>s. inputs_result height u (vin tx) 0 = Some (Inr s)")
  case True
  then obtain s where s: "inputs_result height u (vin tx) 0 = Some (Inr s)" ..
  with inputs_result_spends [OF s] show ?thesis
    by (cases "GetValueOut asset enforced tx") (auto simp: tx_check_def MoneyRange_def)
qed (auto simp: tx_check_def split: option.splits sum.splits if_splits)

text \<open>
  C25. \<^verbatim>\<open>CheckTxInputs\<close> accepts a transaction with a fee exactly when every input spends an unspent coin with a valid amount, which has
  100 confirmations if it comes from a coinbase, the inputs add up to at most \<^verbatim>\<open>MAX_MONEY\<close>, the outputs have a valid sum that they cover,
  and the fee is the difference. It does not change what the caches stand for.
\<close>

theorem CheckTxInputs_accepts_iff:
  assumes c: "stack_ok c"
  shows "\<exists>r c'. CheckTxInputs asset enforced (stack_view full) c tx height = map_option (\<lambda>r. (r, c')) r \<and>
    stack_ok c' \<and> stack_utxo c' = stack_utxo c \<and>
    (r = Some (Inr fee) \<longleftrightarrow>
      (\<forall>txin\<in>set (vin tx). \<exists>x. stack_utxo c (prevout txin) = Some x \<and> MoneyRange (nValue (coin_out x)) \<and>
        (fCoinBase x \<longrightarrow> uint (coin_nHeight x) + 100 \<le> height)) \<and>
      (\<Sum>txin\<leftarrow>vin tx. coin_value (stack_utxo c) (prevout txin)) \<le> MAX_MONEY \<and>
      (\<exists>v. GetValueOut asset enforced tx = Some v \<and> 0 \<le> v \<and> 0 \<le> fee \<and>
        fee = (\<Sum>txin\<leftarrow>vin tx. coin_value (stack_utxo c) (prevout txin)) - v))"
proof -
  have out: "GetValueOut_loop asset enforced outs acc = Some v \<Longrightarrow> 0 \<le> acc \<Longrightarrow> 0 \<le> v" for outs acc v
    by (induction outs arbitrary: acc) (auto simp: Let_def MoneyRange_def split: if_splits)
  have pos: "GetValueOut asset enforced tx = Some v \<Longrightarrow> 0 \<le> v" for v using out [of "vout tx" 0 v] by (simp add: GetValueOut_def)
  have "MoneyRange 0" by (simp add: MoneyRange_def MAX_MONEY_def COIN_def)
  note iff = inputs_result_iff [OF this, of height "stack_utxo c" "vin tx"]
  have "tx_check asset enforced height tx (stack_utxo c) = Some (Inr fee) \<longleftrightarrow>
      (\<forall>txin\<in>set (vin tx). \<exists>x. stack_utxo c (prevout txin) = Some x \<and> MoneyRange (nValue (coin_out x)) \<and>
        (fCoinBase x \<longrightarrow> uint (coin_nHeight x) + 100 \<le> height)) \<and>
      (\<Sum>txin\<leftarrow>vin tx. coin_value (stack_utxo c) (prevout txin)) \<le> MAX_MONEY \<and>
      (\<exists>v. GetValueOut asset enforced tx = Some v \<and> 0 \<le> v \<and> 0 \<le> fee \<and>
        fee = (\<Sum>txin\<leftarrow>vin tx. coin_value (stack_utxo c) (prevout txin)) - v)"
    unfolding tx_check_iff iff using pos by (fastforce simp: MoneyRange_def)
  moreover obtain c' where "CheckTxInputs asset enforced (stack_view full) c tx height =
      map_option (\<lambda>r. (r, c')) (tx_check asset enforced height tx (stack_utxo c))" "stack_ok c'" "stack_utxo c' = stack_utxo c"
    using tip.check_inputs [where full = full and asset = asset and enforced = enforced and tx = tx and height = height, OF c [unfolded stack_ok_def]]
    by (auto simp: stack_ok_def stack_utxo_def stack_view_def)
  ultimately show ?thesis by blast
qed

theorem CheckTxInputs_accepts_iff_witness:
  "\<exists>c'. CheckTxInputs (\<lambda>_. False) True (stack_view (\<lambda>_. False)) sample_coins sample_spend 200 = Some (Inr 1, c')"
proof -
  have "MoneyRange 50" "(\<Sum>txin\<leftarrow>vin sample_spend. coin_value [sample_out \<mapsto> sample_coin] (prevout txin)) = 50"
    "GetValueOut (\<lambda>_. False) True sample_spend = Some 49"
    by (simp_all add: sample_spend_def coin_value_def sample_coin_def Coin_of_def GetValueOut_def MoneyRange_def MAX_MONEY_def COIN_def)
  with CheckTxInputs_accepts_iff [OF conjunct1 [OF sample_coins_ok], of "\<lambda>_. False" True "\<lambda>_. False" sample_spend 200 1] show ?thesis
    by (auto simp: sample_coins_ok sample_spend_def sample_coin_def Coin_of_def MAX_MONEY_def COIN_def)
qed

section \<open>The schedule of subsidies\<close>

lemma halving:
  assumes "0 < k" and "nSubsidyHalvingInterval params = int k"
  shows "GetBlockSubsidy (int h) params = (if h div k < 64 then drop_bit (h div k) 500000000000 else 0)"
proof -
  have "int h sdiv int k = int (h div k)" by (auto simp: signed_divide_int_def sgn_if zdiv_int)
  then show ?thesis by (simp add: GetBlockSubsidy_def assms(2) COIN_def Let_def)
qed

lemma halvings_sum: "(\<Sum>i<39. drop_bit i (500000000000 :: int)) = 999999999987"
  by (simp add: eval_nat_numeral drop_bit_Suc)

text \<open>
  C26. From height \<open>39 * k\<close> on, for a halving interval of \<open>k\<close> blocks, the subsidy is zero, and all subsidies together are exactly
  \<open>k * 999999999987\<close> units. For the interval of the main network that is nearly 21 times \<^verbatim>\<open>MAX_MONEY\<close>, which is passed within the first
  200001 blocks.
\<close>

theorem GetBlockSubsidy_total:
  assumes k: "0 < k" "nSubsidyHalvingInterval params = int k" and n: "39 * k \<le> n"
  shows "(\<Sum>h<n. GetBlockSubsidy (int h) params) = int k * 999999999987 \<and> GetBlockSubsidy (int n) params = 0"
proof -
  define f where "f i = (if i < 64 then drop_bit i (500000000000 :: int) else 0)" for i
  have zero: "f i = 0" if "39 \<le> i" for i
  proof -
    have "(500000000000 :: int) < 2 ^ 39" by simp
    also have "\<dots> \<le> 2 ^ i" using that by (rule power_increasing) simp
    finally show ?thesis by (simp add: f_def drop_bit_eq_div)
  qed
  have sub: "GetBlockSubsidy (int h) params = f (h div k)" for h using halving [OF k] by (simp add: f_def)
  have late: "f (h div k) = 0" if "39 * k \<le> h" for h
    using that k(1) by (intro zero) (simp add: less_eq_div_iff_mult_less_eq)
  have "(\<Sum>h<n. f (h div k)) = (\<Sum>h<39 * k. f (h div k))"
    using n late by (intro sum.mono_neutral_right) (auto simp: not_less)
  also have "\<dots> = (\<Sum>i<39. \<Sum>h = i * k..<i * k + k. f (h div k))"
    by (simp add: sum.nat_group)
  also have "\<dots> = (\<Sum>i<39. int k * f i)"
  proof (rule sum.cong)
    fix i
    have "(\<Sum>h = i * k..<i * k + k. f (h div k)) = (\<Sum>h = i * k..<i * k + k. f i)"
    proof (rule sum.cong)
      fix h assume "h \<in> {i * k..<i * k + k}"
      then have "h div k = i" by (intro div_nat_eqI) (auto simp: mult.commute)
      then show "f (h div k) = f i" by simp
    qed simp
    then show "(\<Sum>h = i * k..<i * k + k. f (h div k)) = int k * f i" by simp
  qed simp
  also have "\<dots> = int k * (\<Sum>i<39. drop_bit i 500000000000)"
    by (simp add: sum_distrib_left f_def)
  finally show ?thesis using late [OF n] by (simp add: sub halvings_sum)
qed

theorem GetBlockSubsidy_total_witness:
  "(\<Sum>h<81900000. GetBlockSubsidy (int h) sample_params) = 2099999999972700000 \<and> 20 * MAX_MONEY < 2099999999972700000"
  using GetBlockSubsidy_total [of 2100000 sample_params 81900000] by (simp add: sample_params_def MAX_MONEY_def COIN_def)

end
