(* ===== verification/Serialize.thy ===== *)
theory Serialize
  imports Bytes "HOL-Library.Monad_Syntax"
begin

text \<open>
  The integers of \<^verbatim>\<open>src/serialize.h\<close>: fixed little-endian words, the compact sizes of lengths and the variable-length
  integers of the databases. A stream that is written is the list of its bytes; a reader takes the bytes that are left and returns a
  value and the rest, \<open>None\<close> where the code throws. Variable-length integers are modelled for unsigned types of any width.
\<close>

section \<open>Fixed widths\<close>

definition ser_writedata8 :: "byte \<Rightarrow> bytes" where "ser_writedata8 obj = [obj]"
definition ser_writedata16 :: "16 word \<Rightarrow> bytes" where "ser_writedata16 obj = le_bytes 2 obj"
definition ser_writedata32 :: "u32 \<Rightarrow> bytes" where "ser_writedata32 obj = le_bytes 4 obj"
definition ser_writedata64 :: "u64 \<Rightarrow> bytes" where "ser_writedata64 obj = le_bytes 8 obj"

definition stream_read :: "nat \<Rightarrow> bytes \<Rightarrow> (bytes \<times> bytes) option" where
  "stream_read n s = (if length s < n then None else Some (take n s, drop n s))"

definition ser_readdata8 :: "bytes \<Rightarrow> (byte \<times> bytes) option" where
  "ser_readdata8 s = map_option (apfst hd) (stream_read 1 s)"
definition ser_readdata16 :: "bytes \<Rightarrow> (16 word \<times> bytes) option" where
  "ser_readdata16 s = map_option (apfst le_word) (stream_read 2 s)"
definition ser_readdata32 :: "bytes \<Rightarrow> (u32 \<times> bytes) option" where
  "ser_readdata32 s = map_option (apfst le_word) (stream_read 4 s)"
definition ser_readdata64 :: "bytes \<Rightarrow> (u64 \<times> bytes) option" where
  "ser_readdata64 s = map_option (apfst le_word) (stream_read 8 s)"

section \<open>Compact sizes\<close>

definition MAX_SIZE :: u32 where "MAX_SIZE = 0x02000000"

definition GetSizeOfCompactSize :: "u64 \<Rightarrow> nat" where
  "GetSizeOfCompactSize nSize =
    (if nSize < 253 then 1 else if nSize \<le> 0xFFFF then 3 else if nSize \<le> 0xFFFFFFFF then 5 else 9)"

definition WriteCompactSize :: "u64 \<Rightarrow> bytes" where
  "WriteCompactSize nSize =
    (if nSize < 253 then ser_writedata8 (ucast nSize)
     else if nSize \<le> 0xFFFF then ser_writedata8 253 @ ser_writedata16 (ucast nSize)
     else if nSize \<le> 0xFFFFFFFF then ser_writedata8 254 @ ser_writedata32 (ucast nSize)
     else ser_writedata8 255 @ ser_writedata64 nSize)"

definition ReadCompactSize :: "bytes \<Rightarrow> (u64 \<times> bytes) option" where
  "ReadCompactSize s = do {
    (chSize, s) \<leftarrow> ser_readdata8 s;
    (nSizeRet, s) \<leftarrow>
      (if chSize < 253 then Some (ucast chSize, s)
       else if chSize = 253 then do {
         (v, s) \<leftarrow> ser_readdata16 s;
         if v < 253 then None else Some (ucast v, s) }
       else if chSize = 254 then do {
         (v, s) \<leftarrow> ser_readdata32 s;
         if v < 0x10000 then None else Some (ucast v, s) }
       else do {
         (v, s) \<leftarrow> ser_readdata64 s;
         if v < 0x100000000 then None else Some (v, s) });
    if nSizeRet > ucast MAX_SIZE then None else Some (nSizeRet, s) }"

section \<open>Variable-length integers\<close>

lemma unat_drop7: "unat (drop_bit 7 n) = unat (n::'a::len word) div 128"
  using unat_drop_bit_eq [of 7 n] by (simp only: drop_bit_eq_div [where 'a = nat]) simp

lemma unat_next_digit: 
  assumes "\<not> unat (n::'a::len word) \<le> 0x7F" shows "unat (drop_bit 7 n - 1) = unat n div 128 - 1"
proof -
  have "unat (drop_bit 7 n) \<noteq> 0" using assms unfolding unat_drop7 by (simp add: div_eq_0_iff)
  then have "drop_bit 7 n \<noteq> 0" by (metis unat_0)
  from unat_minus_one [OF this] show ?thesis by (simp only: unat_drop7)
qed

lemma bit_and_7F: "bit (w AND 0x7F) j \<longleftrightarrow> bit (w :: 'a::len word) j \<and> j < 7"
proof -
  have "w AND 0x7F = take_bit 7 w" by (simp add: take_bit_eq_mask mask_eq_exp_minus_1)
  then show ?thesis by (auto simp: bit_take_bit_iff)
qed

lemma top_bits:
  assumes "n \<le> drop_bit 7 (- 1 :: 'a::len word)" and "bit n j"
  shows "j + 7 < LENGTH('a)"
proof -
  have n: "unat n \<le> unat (- 1 :: 'a word) div 128"
    using assms(1) by (simp only: word_le_nat_alt unat_drop7)
  have "odd (unat n div 2 ^ j)"
    using assms(2) by (simp add: bit_iff_odd [symmetric] bit_unsigned_iff bit_imp_le_length)
  then have "unat n div 2 ^ j \<noteq> 0" by (metis even_zero)
  then have "2 ^ j \<le> unat n" by (simp add: div_eq_0_iff)
  with n have "2 ^ j \<le> unat (- 1 :: 'a word) div 128" by (rule le_trans [rotated])
  then have "2 ^ (j + 7) \<le> unat (- 1 :: 'a word)" by (simp add: less_eq_div_iff_mult_less_eq power_add)
  also have "\<dots> < 2 ^ LENGTH('a)" by simp
  finally show ?thesis by (simp only: power_strict_increasing_iff one_less_numeral_iff semiring_norm)
qed
lemma bit_low7: "bit (ucast ((b :: byte) AND 0x7F) :: 'a::len word) j \<longleftrightarrow> j < LENGTH('a) \<and> j < 7 \<and> bit b j"
  by (auto simp: bit_unsigned_iff bit_and_7F)
lemma split7: "push_bit 7 (drop_bit 7 n) OR ucast (ucast (n AND 0x7F) AND (0x7F :: byte)) = (n :: 'a::len word)"
proof (rule word_bits_eqI)
  fix j assume j: "j < LENGTH('a)"
  show "bit (push_bit 7 (drop_bit 7 n) OR ucast (ucast (n AND 0x7F) AND (0x7F :: byte))) j = bit n j"
    by (cases "j < 7") (use j in \<open>auto simp: bit_or_iff bit_low7 bit_push_bit_iff bit_drop_bit_eq bit_unsigned_iff bit_and_7F\<close>)
qed
lemma join7:
  assumes "n \<le> drop_bit 7 (- 1 :: 'a::len word)" and "7 < LENGTH('a)"
  shows "drop_bit 7 (push_bit 7 n OR ucast ((b :: byte) AND 0x7F)) = n" and "ucast ((push_bit 7 n OR ucast (b AND 0x7F)) AND 0x7F) = b AND 0x7F"
proof -
  show "drop_bit 7 (push_bit 7 n OR ucast (b AND 0x7F)) = n"
    using top_bits [OF assms(1)] by (intro word_bits_eqI) (auto simp: bit_drop_bit_eq bit_or_iff bit_low7 bit_push_bit_iff add.commute)
  show "ucast ((push_bit 7 n OR ucast (b AND 0x7F)) AND 0x7F) = b AND 0x7F"
    using assms(2) by (intro word_bits_eqI) (auto simp: bit_or_iff bit_low7 bit_push_bit_iff bit_unsigned_iff bit_and_7F)
qed
text \<open>The digits are collected least significant first and written in reverse.\<close>

function WriteVarInt_loop :: "'a::len word \<Rightarrow> bytes \<Rightarrow> bytes" where
  "WriteVarInt_loop n tmp =
    (let tmp = tmp @ [ucast (n AND 0x7F) OR (if tmp \<noteq> [] then 0x80 else 0)]
     in if unat n \<le> 0x7F then rev tmp else WriteVarInt_loop (drop_bit 7 n - 1) tmp)"
  by pat_completeness auto
termination by (relation "measure (\<lambda>(n, tmp). unat n)") (auto simp: unat_next_digit)

declare WriteVarInt_loop.simps [simp del]

definition WriteVarInt :: "'a::len word \<Rightarrow> bytes" where
  "WriteVarInt n = WriteVarInt_loop n []"

function GetSizeOfVarInt_loop :: "'a::len word \<Rightarrow> nat \<Rightarrow> nat" where
  "GetSizeOfVarInt_loop n nRet =
    (let nRet = nRet + 1 in if unat n \<le> 0x7F then nRet else GetSizeOfVarInt_loop (drop_bit 7 n - 1) nRet)"
  by pat_completeness auto
termination by (relation "measure (\<lambda>(n, nRet). unat n)") (auto simp: unat_next_digit)

declare GetSizeOfVarInt_loop.simps [simp del]

definition GetSizeOfVarInt :: "'a::len word \<Rightarrow> nat" where
  "GetSizeOfVarInt n = GetSizeOfVarInt_loop n 0"

fun ReadVarInt_loop :: "'a::len word \<Rightarrow> bytes \<Rightarrow> ('a word \<times> bytes) option" where
  "ReadVarInt_loop n [] = None"
| "ReadVarInt_loop n (chData # s) =
    (if n > drop_bit 7 (- 1) then None
     else
       (let n = push_bit 7 n OR ucast (chData AND 0x7F)
        in if chData AND 0x80 \<noteq> 0 then if n = - 1 then None else ReadVarInt_loop (n + 1) s
           else Some (n, s)))"

definition ReadVarInt :: "bytes \<Rightarrow> ('a::len word \<times> bytes) option" where
  "ReadVarInt s = ReadVarInt_loop 0 s"

text \<open>The bytes of a number in the order in which they are written, with or without the flag on the last one.\<close>

function varint_bytes :: "'a::len word \<Rightarrow> bool \<Rightarrow> bytes" where
  "varint_bytes n more =
    (if unat n \<le> 0x7F then [] else varint_bytes (drop_bit 7 n - 1) True) @ [ucast (n AND 0x7F) OR (if more then 0x80 else 0)]"
  by pat_completeness auto
termination by (relation "measure (\<lambda>(n, more). unat n)") (auto simp: unat_next_digit)

declare varint_bytes.simps [simp del]

lemma WriteVarInt_loop_bytes: "WriteVarInt_loop n tmp = varint_bytes n (tmp \<noteq> []) @ rev tmp"
proof (induction n tmp rule: WriteVarInt_loop.induct)
  case (1 n tmp)
  then show ?case by (subst WriteVarInt_loop.simps, subst varint_bytes.simps) (simp add: Let_def)
qed

lemma WriteVarInt_bytes: "WriteVarInt n = varint_bytes n False"
  by (simp add: WriteVarInt_def WriteVarInt_loop_bytes)

lemma flag7: "(b :: byte) AND 0x80 \<noteq> 0 \<longleftrightarrow> bit b 7"
  using and_exp_eq_0_iff_not_bit [of b 7] by simp

lemma join_flag: "(b AND 0x7F) OR (if bit b 7 then 0x80 else 0) = (b :: byte)"
proof (rule word_bits_eqI)
  fix j assume "j < LENGTH(8)"
  then show "bit ((b AND 0x7F) OR (if bit b 7 then 0x80 else 0)) j = bit b j"
    by (auto simp: bit_simps less_Suc_eq numeral_eq_Suc)
qed

lemma bit_80: "bit (0x80 :: byte) j \<longleftrightarrow> j = 7"
  using bit_exp_iff [where 'a = byte, of 7 j] by (auto dest: bit_imp_le_length)

lemma varint_byte:
  "bit (ucast (n AND 0x7F) OR 0x80 :: byte) 7" "\<not> bit (ucast (n AND 0x7F) :: byte) 7"
  "(ucast (n AND 0x7F) OR 0x80) AND (0x7F :: byte) = ucast (n AND 0x7F) AND 0x7F"
proof -
  show "bit (ucast (n AND 0x7F) OR 0x80 :: byte) 7" "\<not> bit (ucast (n AND 0x7F) :: byte) 7"
    by (simp_all only: bit_or_iff bit_80 bit_unsigned_iff bit_and_7F) simp_all
  show "(ucast (n AND 0x7F) OR 0x80) AND (0x7F :: byte) = ucast (n AND 0x7F) AND 0x7F"
    by (intro word_bits_eqI) (simp only: bit_or_iff bit_80 bit_and_7F, auto)
qed

lemma drop7_top: "\<not> drop_bit 7 (- 1 :: 'a::len word) < drop_bit 7 n"
  by (simp only: not_less word_le_nat_alt unat_drop7)
    (rule div_le_mono, simp only: word_le_nat_alt [symmetric] word_order.extremum)

lemma small_digit:
  assumes "unat (n :: 'a::len word) \<le> 0x7F"
  shows "push_bit 7 0 OR ucast (ucast (n AND 0x7F) AND (0x7F :: byte)) = n" and "0 \<le> drop_bit 7 (- 1 :: 'a word)"
proof -
  have "unat (drop_bit 7 n) = 0" unfolding unat_drop7 using assms by simp
  then have "drop_bit 7 n = 0" by (simp only: unat_eq_zero)
  with split7 [of n] show "push_bit 7 0 OR ucast (ucast (n AND 0x7F) AND (0x7F :: byte)) = n" by simp
qed simp

lemma read_digits:
  assumes "n \<noteq> - 1"
  shows "ReadVarInt_loop 0 (varint_bytes n True @ s) = ReadVarInt_loop (n + 1 :: 'a::len word) s"
  using assms
proof (induction n "True" arbitrary: s rule: varint_bytes.induct)
  case (1 n)
  show ?case
  proof (cases "unat n \<le> 0x7F")
    case True
    with 1 show ?thesis
      using varint_byte [of n] small_digit [OF True] by (subst varint_bytes.simps) (simp add: flag7 Let_def not_less)
  next
    case False
    have "drop_bit 7 n - 1 \<noteq> - 1"
    proof
      assume "drop_bit 7 n - 1 = - 1"
      then have "unat (drop_bit 7 n) = 0" by simp
      with False show False by (simp only: unat_drop7)
    qed
    note IH = 1(1) [OF False this]
    have "ReadVarInt_loop 0 (varint_bytes n True @ s) = ReadVarInt_loop (drop_bit 7 n) ((ucast (n AND 0x7F) OR 0x80) # s)"
      by (subst varint_bytes.simps) (simp add: False IH)
    then show ?thesis
      using 1(2) varint_byte [of n] split7 [of n] drop7_top [of n] by (simp add: flag7 Let_def)
  qed
qed

lemma read_number: "7 < LENGTH('a) \<Longrightarrow> ReadVarInt_loop 0 (varint_bytes n False @ s) = Some (n :: 'a::len word, s)"
proof (cases "unat n \<le> 0x7F")
  case True
  then show ?thesis
    using varint_byte [of n] small_digit [OF True] by (subst varint_bytes.simps) (simp add: flag7 Let_def not_less)
next
  case False
  have "drop_bit 7 n - 1 \<noteq> - 1"
  proof
    assume "drop_bit 7 n - 1 = - 1"
    then have "unat (drop_bit 7 n) = 0" by simp
    with False show False by (simp only: unat_drop7)
  qed
  note IH = read_digits [OF this]
  have "ReadVarInt_loop 0 (varint_bytes n False @ s) = ReadVarInt_loop (drop_bit 7 n) (ucast (n AND 0x7F) # s)"
    by (subst varint_bytes.simps) (simp add: False IH)
  then show ?thesis
    using varint_byte [of n] split7 [of n] drop7_top [of n] by (simp add: flag7 Let_def)
qed

lemma varint_bytes_digit:
  assumes "drop_bit 7 m = acc"
  shows "varint_bytes m more = (if acc = 0 then [] else varint_bytes (acc - 1) True) @ [ucast (m AND 0x7F) OR (if more then 0x80 else 0)]"
proof -
  have "unat acc = unat m div 128" using assms unat_drop7 [of m] by simp
  then have "acc = 0 \<longleftrightarrow> unat m div 128 = 0" by (metis unat_eq_zero)
  then have "acc = 0 \<longleftrightarrow> unat m \<le> 127" by (auto simp: div_eq_0_iff)
  then show ?thesis by (subst varint_bytes.simps) (simp add: assms)
qed

lemma digits_of_read:
  assumes "7 < LENGTH('a)"
  shows "ReadVarInt_loop (acc :: 'a::len word) s = Some (n, rest) \<Longrightarrow>
    (if acc = 0 then [] else varint_bytes (acc - 1) True) @ s = varint_bytes n False @ rest"
proof (induction s arbitrary: acc)
  case Nil
  then show ?case by simp
next
  case (Cons b s)
  define m where "m = push_bit 7 acc OR ucast (b AND 0x7F)"
  have acc: "acc \<le> drop_bit 7 (- 1)" using Cons.prems by (auto simp: not_less split: if_splits)
  have m: "drop_bit 7 m = acc" "ucast (m AND 0x7F) = b AND 0x7F" using join7 [OF acc assms] by (simp_all add: m_def)
  note digit = varint_bytes_digit [OF m(1)]
  show ?case
  proof (cases "bit b 7")
    case True
    then have "m \<noteq> - 1" and rest: "ReadVarInt_loop (m + 1) s = Some (n, rest)"
      using Cons.prems acc by (auto simp: flag7 m_def [symmetric] Let_def not_less split: if_splits)
    then have "m + 1 \<noteq> 0" by (metis add.right_neutral add_diff_cancel_right' diff_0)
    then have "varint_bytes m True @ s = varint_bytes n False @ rest" using Cons.IH [OF rest] by simp
    moreover have "varint_bytes m True = (if acc = 0 then [] else varint_bytes (acc - 1) True) @ [b]"
      using digit [of True] join_flag [of b] True by (simp add: m(2))
    ultimately show ?thesis by simp
  next
    case False
    then have "n = m" "rest = s" using Cons.prems acc by (auto simp: flag7 m_def [symmetric] Let_def not_less split: if_splits)
    moreover have "varint_bytes m False = (if acc = 0 then [] else varint_bytes (acc - 1) True) @ [b]"
      using digit [of False] join_flag [of b] False by (simp add: m(2))
    ultimately show ?thesis by simp
  qed
qed

lemma length_varint_bytes: "unat n < 2 ^ (7 * Suc k) \<Longrightarrow> length (varint_bytes n more) \<le> Suc k"
proof (induction k arbitrary: n more)
  case 0
  then show ?case by (subst varint_bytes.simps) simp
next
  case (Suc k)
  show ?case
  proof (cases "unat n \<le> 0x7F")
    case True
    then show ?thesis by (subst varint_bytes.simps) simp
  next
    case False
    have "unat n < 128 * 2 ^ (7 * Suc k)" using Suc.prems by (simp add: power_add)
    then have "unat n div 128 < 2 ^ (7 * Suc k)" by (simp add: less_mult_imp_div_less mult.commute)
    then have "length (varint_bytes (drop_bit 7 n - 1) True) \<le> Suc k"
      using unat_next_digit [OF False] by (intro Suc.IH) simp
    then show ?thesis by (subst varint_bytes.simps) simp
  qed
qed

lemma GetSizeOfVarInt_loop_length: "GetSizeOfVarInt_loop n k = k + length (varint_bytes n more)"
proof (induction n k arbitrary: more rule: GetSizeOfVarInt_loop.induct)
  case (1 n k)
  show ?case
  proof (cases "unat n \<le> 0x7F")
    case True
    then show ?thesis by (subst GetSizeOfVarInt_loop.simps, subst varint_bytes.simps) simp
  next
    case False
    with 1 [of "k + 1" True] show ?thesis by (subst GetSizeOfVarInt_loop.simps, subst varint_bytes.simps) simp
  qed
qed

section \<open>The properties\<close>

text \<open>
  C30. Variable-length integers of any unsigned type of more than seven bits are a bijection: a number is read from a stream exactly when the
  stream starts with the bytes that writing the number produces, so every number is read back and no number has a second encoding. The
  size is the one that \<^verbatim>\<open>GetSizeOfVarInt\<close> computes and fits the buffer of the writer.
\<close>

theorem VarInt_bijective:
  assumes "7 < LENGTH('a)"
  shows "(ReadVarInt s = Some (n :: 'a::len word, rest) \<longleftrightarrow> s = WriteVarInt n @ rest) \<and>
    length (WriteVarInt n) = GetSizeOfVarInt n \<and> GetSizeOfVarInt n \<le> (LENGTH('a) + 6) div 7"
proof -
  define k where "k = (LENGTH('a) + 6) div 7 - 1"
  have k: "(LENGTH('a) + 6) div 7 = Suc k" using assms by (simp add: k_def)
  have "LENGTH('a) \<le> 7 * Suc k" unfolding k [symmetric] by presburger
  then have "unat n < 2 ^ (7 * Suc k)" by (rule order_less_le_trans [OF unsigned_less power_increasing]) simp
  then show ?thesis
    using read_number [OF assms, of n rest] digits_of_read [OF assms, of 0 s n rest] length_varint_bytes [of n k False]
      GetSizeOfVarInt_loop_length [of n 0 False]
    unfolding k by (auto simp: ReadVarInt_def WriteVarInt_bytes GetSizeOfVarInt_def)
qed

theorem VarInt_bijective_witness: "ReadVarInt [0x81, 0x00, 0x07] = Some (256 :: u32, [0x07])"
proof -
  have "WriteVarInt (256 :: u32) = [0x81, 0x00]"
    by (simp add: WriteVarInt_def WriteVarInt_loop.simps drop_bit_eq_div)
  then show ?thesis using VarInt_bijective [of "[0x81, 0x00, 0x07]" "256 :: u32" "[0x07]"] by simp
qed

lemma stream_read_iff: "stream_read n s = Some (bs, r) \<longleftrightarrow> s = bs @ r \<and> length bs = n"
  by (auto simp: stream_read_def)

lemma ser_read_iff:
  "ser_readdata8 s = Some (b, r) \<longleftrightarrow> s = b # r"
  "ser_readdata16 s = Some (v, r) \<longleftrightarrow> s = ser_writedata16 v @ r"
  "ser_readdata32 s = Some (w, r) \<longleftrightarrow> s = ser_writedata32 w @ r"
  "ser_readdata64 s = Some (x, r) \<longleftrightarrow> s = ser_writedata64 x @ r"
proof -
  show "ser_readdata8 s = Some (b, r) \<longleftrightarrow> s = b # r"
    by (cases s) (auto simp: ser_readdata8_def stream_read_def)
  have word: "(map_option (apfst le_word) (stream_read k s) = Some (u, r)) \<longleftrightarrow> s = le_bytes k u @ r"
    if "8 * k = LENGTH('a)" for k and u :: "'a::len word"
  proof
    assume "map_option (apfst le_word) (stream_read k s) = Some (u, r)"
    then obtain bs where "stream_read k s = Some (bs, r)" and "u = le_word bs" by (auto simp: apfst_def map_prod_def)
    then show "s = le_bytes k u @ r" using le_bytes_word [of bs, where 'a = 'a] that by (auto simp: stream_read_iff)
  next
    assume "s = le_bytes k u @ r"
    then show "map_option (apfst le_word) (stream_read k s) = Some (u, r)"
      using le_word_bytes [OF that, of u] by (simp add: stream_read_def)
  qed
  show "ser_readdata16 s = Some (v, r) \<longleftrightarrow> s = ser_writedata16 v @ r"
    "ser_readdata32 s = Some (w, r) \<longleftrightarrow> s = ser_writedata32 w @ r"
    "ser_readdata64 s = Some (x, r) \<longleftrightarrow> s = ser_writedata64 x @ r"
    using word [of 2 v] word [of 4 w] word [of 8 x]
    by (simp_all add: ser_readdata16_def ser_readdata32_def ser_readdata64_def ser_writedata16_def ser_writedata32_def ser_writedata64_def)
qed

text \<open>A byte string is determined by the form of the size: the cases of the reader and of the writer are the same.\<close>

lemma compact_cases:
  "ReadCompactSize s = Some (n, rest) \<longleftrightarrow>
    (n \<le> ucast MAX_SIZE \<and>
     ((\<exists>b. b < 253 \<and> n = ucast b \<and> s = b # rest) \<or>
      (\<exists>v. 253 \<le> v \<and> n = ucast v \<and> s = 253 # ser_writedata16 v @ rest) \<or>
      (\<exists>w. 0x10000 \<le> w \<and> n = ucast w \<and> s = 254 # ser_writedata32 w @ rest) \<or>
      (0x100000000 \<le> n \<and> s = 255 # ser_writedata64 n @ rest)))"
proof -
  have top: "b < 253 \<or> b = 253 \<or> b = 254 \<or> b = 255" for b :: byte
  proof -
    have "unat b < 256" using unsigned_less [of b, where 'a = nat] by simp
    then show ?thesis by (auto simp: word_less_nat_alt word_unat_eq_iff)
  qed
  have neq: "(255 :: byte) \<noteq> 253" "(255 :: byte) \<noteq> 254" "(254 :: byte) \<noteq> 253" "\<not> (253 :: byte) < 253" "\<not> (254 :: byte) < 253" "\<not> (255 :: byte) < 253"
    by simp_all
  show ?thesis
  proof (cases s)
    case Nil
    then show ?thesis by (simp add: ReadCompactSize_def ser_readdata8_def stream_read_def)
  next
    case (Cons b s')
    have "ser_readdata8 s = Some (b, s')" using Cons ser_read_iff(1) by simp
    with Cons top [of b] neq show ?thesis
      by (elim disjE) (auto simp: ReadCompactSize_def Option.bind_eq_Some_conv ser_read_iff not_less split: if_splits)
  qed
qed

lemma compact_up:
  "unat (ucast (b :: byte) :: u64) = unat b" "unat (ucast (v :: 16 word) :: u64) = unat v" "unat (ucast (w :: u32) :: u64) = unat w"
  using unsigned_less [of b, where 'a = nat] unsigned_less [of v, where 'a = nat] unsigned_less [of w, where 'a = nat]
  by (simp_all add: unsigned_ucast_eq take_bit_eq_mod)

lemma compact_down:
  "unat (n :: u64) < 256 \<Longrightarrow> ucast (ucast n :: byte) = n" "unat n < 65536 \<Longrightarrow> ucast (ucast n :: 16 word) = n"
  "unat n < 4294967296 \<Longrightarrow> ucast (ucast n :: u32) = n"
  by (simp_all add: word_unat_eq_iff compact_up) (simp_all add: unsigned_ucast_eq take_bit_eq_mod)

lemma compact_same: "ucast (ucast (b :: byte) :: u64) = b" "ucast (ucast (v :: 16 word) :: u64) = v" "ucast (ucast (w :: u32) :: u64) = w"
  by (rule word_bits_eqI, simp add: bit_unsigned_iff)+

lemma compact_bound: "unat (v :: 16 word) \<le> 65535" "unat (w :: u32) \<le> 4294967295" "unat v \<le> 4294967295"
  using unsigned_less [of v, where 'a = nat] unsigned_less [of w, where 'a = nat] by simp_all

lemmas compact_order = word_less_nat_alt word_le_nat_alt

text \<open>The four forms of a size that is written.\<close>

lemma WriteCompactSize_cases:
  obtains b where "unat n < 253" and "n = ucast b" and "b < 253" and "WriteCompactSize n = [b]"
  | v where "253 \<le> unat n" and "253 \<le> v" and "n = ucast v" and "WriteCompactSize n = 253 # ser_writedata16 v"
  | w where "0xFFFF < unat n" and "0x10000 \<le> w" and "n = ucast w" and "WriteCompactSize n = 254 # ser_writedata32 w"
  | "0xFFFFFFFF < unat n" and "0x100000000 \<le> n" and "WriteCompactSize n = 255 # ser_writedata64 n"
proof -
  consider "unat n < 253" | "253 \<le> unat n" "unat n \<le> 0xFFFF" | "0xFFFF < unat n" "unat n \<le> 0xFFFFFFFF" | "0xFFFFFFFF < unat n" by linarith
  then show thesis
  proof cases
    case 1
    with compact_down(1) [of n] show thesis
      by (intro that(1) [of "ucast n"]) (auto simp: WriteCompactSize_def ser_writedata8_def compact_order unsigned_ucast_eq take_bit_eq_mod)
  next
    case 2
    with compact_down(2) [of n] show thesis
      by (intro that(2) [of "ucast n"]) (auto simp: WriteCompactSize_def ser_writedata8_def compact_order unsigned_ucast_eq take_bit_eq_mod)
  next
    case 3
    with compact_down(3) [of n] show thesis
      by (intro that(3) [of "ucast n"]) (auto simp: WriteCompactSize_def ser_writedata8_def compact_order unsigned_ucast_eq take_bit_eq_mod)
  next
    case 4
    then show thesis by (intro that(4)) (auto simp: WriteCompactSize_def ser_writedata8_def compact_order)
  qed
qed

text \<open>
  Compact sizes, the lengths in front of every vector: a size is read exactly when the stream starts with its one canonical encoding
  and it is at most \<^verbatim>\<open>MAX_SIZE\<close>.
\<close>

lemma CompactSize_canonical: "ReadCompactSize s = Some (n, rest) \<longleftrightarrow> s = WriteCompactSize n @ rest \<and> n \<le> ucast MAX_SIZE"
  unfolding compact_cases
proof (intro iffI conjI; (elim conjE)?)
  assume "(\<exists>b. b < 253 \<and> n = ucast b \<and> s = b # rest) \<or>
    (\<exists>v. 253 \<le> v \<and> n = ucast v \<and> s = 253 # ser_writedata16 v @ rest) \<or>
    (\<exists>w. 0x10000 \<le> w \<and> n = ucast w \<and> s = 254 # ser_writedata32 w @ rest) \<or>
    (0x100000000 \<le> n \<and> s = 255 # ser_writedata64 n @ rest)"
  then show "s = WriteCompactSize n @ rest"
    by (elim disjE exE) (auto simp: WriteCompactSize_def ser_writedata8_def compact_order compact_up compact_same compact_bound)
next
  assume "s = WriteCompactSize n @ rest"
  then show "(\<exists>b. b < 253 \<and> n = ucast b \<and> s = b # rest) \<or>
    (\<exists>v. 253 \<le> v \<and> n = ucast v \<and> s = 253 # ser_writedata16 v @ rest) \<or>
    (\<exists>w. 0x10000 \<le> w \<and> n = ucast w \<and> s = 254 # ser_writedata32 w @ rest) \<or>
    (0x100000000 \<le> n \<and> s = 255 # ser_writedata64 n @ rest)"
    by (cases n rule: WriteCompactSize_cases) auto
qed

lemma length_WriteCompactSize: "length (WriteCompactSize n) = GetSizeOfCompactSize n"
  by (simp add: WriteCompactSize_def GetSizeOfCompactSize_def ser_writedata8_def ser_writedata16_def ser_writedata32_def ser_writedata64_def)

lemma ReadCompactSize_too_large:
  assumes "n > ucast MAX_SIZE"
  shows "ReadCompactSize (WriteCompactSize n @ rest) = None"
proof -
  have n: "0x02000000 < unat n" using assms by (simp add: MAX_SIZE_def compact_order compact_up)
  have first: "ser_readdata8 (b # s) = Some (b, s)" "ser_readdata16 (ser_writedata16 v @ s) = Some (v, s)"
    "ser_readdata32 (ser_writedata32 w @ s) = Some (w, s)" "ser_readdata64 (ser_writedata64 x @ s) = Some (x, s)" for b v w x s
    by (simp_all add: ser_read_iff)
  show ?thesis
  proof (cases n rule: WriteCompactSize_cases)
    case (1 b)
    then show ?thesis using n by simp
  next
    case (2 v)
    then show ?thesis using n compact_bound(1) [of v] by (simp add: compact_up)
  next
    case (3 w)
    with assms show ?thesis by (simp add: ReadCompactSize_def first not_less)
  next
    case 4
    with assms show ?thesis by (simp add: ReadCompactSize_def first not_less)
  qed
qed

end
