(* ===== verification/Script_Num.thy ===== *)
theory Script_Num
  imports Bytes
begin

text \<open>
  The numbers of scripts: \<^verbatim>\<open>CScriptNum\<close> of \<^verbatim>\<open>src/script/script.h\<close>, with the error codes of \<^verbatim>\<open>src/script/script_error.h\<close>. A number is
  a little-endian magnitude whose top bit is the sign. Operands have at most four bytes (five for lock times), results may be longer.

  Evaluation of scripts can end in four ways beside a value: the code returns an error, a \<^verbatim>\<open>scriptnum_error\<close> or the exception of an
  access outside the stack is thrown (\<^verbatim>\<open>EvalScript\<close> catches both), or an assertion fails or a signed integer overflows.
\<close>

section \<open>Results\<close>

datatype ScriptError =
  SCRIPT_ERR_OK | SCRIPT_ERR_UNKNOWN_ERROR | SCRIPT_ERR_EVAL_FALSE | SCRIPT_ERR_OP_RETURN
  | SCRIPT_ERR_SCRIPT_SIZE | SCRIPT_ERR_PUSH_SIZE | SCRIPT_ERR_OP_COUNT | SCRIPT_ERR_STACK_SIZE | SCRIPT_ERR_SIG_COUNT | SCRIPT_ERR_PUBKEY_COUNT
  | SCRIPT_ERR_VERIFY | SCRIPT_ERR_EQUALVERIFY | SCRIPT_ERR_CHECKMULTISIGVERIFY | SCRIPT_ERR_CHECKSIGVERIFY | SCRIPT_ERR_NUMEQUALVERIFY
  | SCRIPT_ERR_BAD_OPCODE | SCRIPT_ERR_DISABLED_OPCODE | SCRIPT_ERR_INVALID_STACK_OPERATION | SCRIPT_ERR_INVALID_ALTSTACK_OPERATION
  | SCRIPT_ERR_UNBALANCED_CONDITIONAL
  | SCRIPT_ERR_NEGATIVE_LOCKTIME | SCRIPT_ERR_UNSATISFIED_LOCKTIME
  | SCRIPT_ERR_SIG_HASHTYPE | SCRIPT_ERR_SIG_DER | SCRIPT_ERR_MINIMALDATA | SCRIPT_ERR_SIG_PUSHONLY | SCRIPT_ERR_SIG_HIGH_S
  | SCRIPT_ERR_SIG_NULLDUMMY | SCRIPT_ERR_PUBKEYTYPE | SCRIPT_ERR_CLEANSTACK | SCRIPT_ERR_MINIMALIF | SCRIPT_ERR_SIG_NULLFAIL
  | SCRIPT_ERR_DISCOURAGE_UPGRADABLE_NOPS | SCRIPT_ERR_DISCOURAGE_UPGRADABLE_WITNESS_PROGRAM
  | SCRIPT_ERR_WITNESS_PROGRAM_WRONG_LENGTH | SCRIPT_ERR_WITNESS_PROGRAM_WITNESS_EMPTY | SCRIPT_ERR_WITNESS_PROGRAM_MISMATCH
  | SCRIPT_ERR_WITNESS_MALLEATED | SCRIPT_ERR_WITNESS_MALLEATED_P2SH | SCRIPT_ERR_WITNESS_UNEXPECTED | SCRIPT_ERR_WITNESS_PUBKEYTYPE

datatype halt = Error ScriptError | Num_Error | Out_Of_Range | Undefined

type_synonym 'a exec = "halt + 'a"

definition exec_bind :: "'a exec \<Rightarrow> ('a \<Rightarrow> 'b exec) \<Rightarrow> 'b exec" where
  "exec_bind m k = (case m of Inl h \<Rightarrow> Inl h | Inr x \<Rightarrow> k x)"

lemma exec_bind_simps [simp]: "exec_bind (Inl h) k = Inl h" "exec_bind (Inr x) k = k x"
  by (simp_all add: exec_bind_def)

lemma exec_bind_Inr_iff: "exec_bind m k = Inr y \<longleftrightarrow> (\<exists>x. m = Inr x \<and> k x = Inr y)"
  by (cases m) simp_all

section \<open>Numbers\<close>

definition nDefaultMaxNumSize :: nat where "nDefaultMaxNumSize = 4"

definition set_vch :: "bytes \<Rightarrow> int" where
  "set_vch vch =
    (if vch = [] then 0
     else
       (let result = fold (\<lambda>i r. r OR push_bit (8 * i) (ucast (vch ! i))) [0..<length vch] (0 :: u64)
        in if last vch AND 0x80 \<noteq> 0 then - sint (result AND NOT (push_bit (8 * (length vch - 1)) 0x80))
           else sint result))"

definition CScriptNum :: "bytes \<Rightarrow> bool \<Rightarrow> nat \<Rightarrow> int exec" where
  "CScriptNum vch fRequireMinimal nMaxNumSize =
    (if length vch > nMaxNumSize then Inl Num_Error
     else if fRequireMinimal \<and> length vch > 0 \<and> last vch AND 0x7f = 0 \<and>
         (length vch \<le> 1 \<or> vch ! (length vch - 2) AND 0x80 = 0) then Inl Num_Error
     else Inr (set_vch vch))"

function serialize_loop :: "u64 \<Rightarrow> bytes \<Rightarrow> bytes" where
  "serialize_loop absvalue result =
    (if absvalue = 0 then result else serialize_loop (drop_bit 8 absvalue) (result @ [ucast (absvalue AND 0xff)]))"
  by pat_completeness auto
termination
proof (relation "measure (\<lambda>(absvalue, result). unat absvalue)")
  fix absvalue :: u64
  assume "absvalue \<noteq> 0"
  then have "0 < unat absvalue" by (simp add: unat_gt_0)
  moreover have "unat (drop_bit 8 absvalue) = unat absvalue div 256" by (simp add: drop_bit_eq_div unat_div_distrib)
  ultimately show "((drop_bit 8 absvalue, result), (absvalue, result')) \<in> measure (\<lambda>(absvalue, result). unat absvalue)" for result result' :: bytes
    by simp
qed simp

declare serialize_loop.simps [simp del]

text \<open>The magnitude of the most negative value is the unsigned word that its negation wraps to.\<close>

definition CScriptNum_serialize :: "int \<Rightarrow> bytes" where
  "CScriptNum_serialize value =
    (if value = 0 then []
     else
       (let neg = value < 0; result = serialize_loop (word_of_int \<bar>value\<bar>) []
        in if last result AND 0x80 \<noteq> 0 then result @ [if neg then 0x80 else 0]
           else if neg then butlast result @ [last result OR 0x80]
           else result))"

definition CScriptNum_getint :: "int \<Rightarrow> int" where
  "CScriptNum_getint m_value = (if m_value > 2147483647 then 2147483647 else if m_value < - 2147483648 then - 2147483648 else m_value)"

definition is_int64 :: "int \<Rightarrow> bool" where
  "is_int64 v \<longleftrightarrow> - (2 ^ 63) \<le> v \<and> v < 2 ^ 63"

definition CScriptNum_add :: "int \<Rightarrow> int \<Rightarrow> int exec" where
  "CScriptNum_add a b = (if is_int64 (a + b) then Inr (a + b) else Inl Undefined)"

definition CScriptNum_sub :: "int \<Rightarrow> int \<Rightarrow> int exec" where
  "CScriptNum_sub a b = (if is_int64 (a - b) then Inr (a - b) else Inl Undefined)"

definition CScriptNum_neg :: "int \<Rightarrow> int exec" where
  "CScriptNum_neg a = (if a = - (2 ^ 63) then Inl Undefined else Inr (- a))"

section \<open>Magnitudes\<close>

primrec le_nat :: "bytes \<Rightarrow> nat" where
  "le_nat [] = 0"
| "le_nat (b # bs) = unat b + 256 * le_nat bs"

fun nat_bytes :: "nat \<Rightarrow> bytes" where
  "nat_bytes n = (if n = 0 then [] else of_nat (n mod 256) # nat_bytes (n div 256))"

declare nat_bytes.simps [simp del]

lemma byte_bound: "unat (b :: byte) < 256"
  using unsigned_less [of b, where 'a = nat] by simp

lemma le_nat_bound: "le_nat bs < 256 ^ length bs"
proof (induction bs)
  case (Cons b bs)
  then show ?case using byte_bound [of b] by simp
qed simp

lemma le_nat_append: "le_nat (as @ bs) = le_nat as + 256 ^ length as * le_nat bs"
  by (induction as) (simp_all add: algebra_simps)

lemma le_nat_nat_bytes [simp]: "le_nat (nat_bytes n) = n"
proof (induction n rule: nat_bytes.induct)
  case (1 n)
  then show ?case by (subst nat_bytes.simps) (simp add: unat_of_nat)
qed

lemma nat_bytes_le_nat: "bs = [] \<or> last bs \<noteq> 0 \<Longrightarrow> nat_bytes (le_nat bs) = bs"
proof (induction bs)
  case Nil
  then show ?case by (simp add: nat_bytes.simps)
next
  case (Cons b bs)
  have IH: "nat_bytes (le_nat bs) = bs" using Cons by (auto split: if_splits)
  have "unat b + 256 * le_nat bs \<noteq> 0"
  proof
    assume 0: "unat b + 256 * le_nat bs = 0"
    then have "bs = []" using IH by (simp add: nat_bytes.simps)
    with Cons.prems 0 show False by (simp add: unat_eq_zero)
  qed
  moreover have "(unat b + 256 * le_nat bs) mod 256 = unat b" "(unat b + 256 * le_nat bs) div 256 = le_nat bs"
    using byte_bound [of b] by simp_all
  ultimately show ?case using IH by (subst nat_bytes.simps) simp
qed

lemma nat_bytes_last: "n \<noteq> 0 \<Longrightarrow> nat_bytes n \<noteq> [] \<and> last (nat_bytes n) \<noteq> 0"
proof (induction n rule: nat_bytes.induct)
  case (1 n)
  show ?case
  proof (cases "n div 256 = 0")
    case True
    then have "n < 256" by (simp add: div_eq_0_iff)
    with 1(2) True show ?thesis by (subst (1 2) nat_bytes.simps) (simp add: nat_bytes.simps word_unat_eq_iff unat_of_nat)
  next
    case False
    with 1 show ?thesis by (subst (1 2) nat_bytes.simps) simp
  qed
qed

lemma length_nat_bytes: "length (nat_bytes n) \<le> k \<longleftrightarrow> n < 256 ^ k"
proof (induction k arbitrary: n)
  case 0
  then show ?case by (simp add: nat_bytes.simps)
next
  case (Suc k)
  show ?case
  proof (cases "n = 0")
    case False
    then have "length (nat_bytes n) \<le> Suc k \<longleftrightarrow> n div 256 < 256 ^ k" by (subst nat_bytes.simps) (simp add: Suc)
    then show ?thesis by (simp add: div_less_iff_less_mult mult.commute)
  qed (simp add: nat_bytes.simps)
qed

lemma serialize_loop_bytes: "serialize_loop w bs = bs @ nat_bytes (unat w)"
proof (induction w bs rule: serialize_loop.induct)
  case (1 w bs)
  show ?case
  proof (cases "w = 0")
    case True
    then show ?thesis by (simp add: serialize_loop.simps nat_bytes.simps)
  next
    case False
    have "unat (drop_bit 8 w) = unat w div 256" by (simp add: drop_bit_eq_div unat_div_distrib)
    moreover have "(ucast (w AND 0xff) :: byte) = of_nat (unat w mod 256)"
    proof -
      have "w AND 0xff = take_bit 8 w" by (simp add: take_bit_eq_mask mask_eq_exp_minus_1)
      then have "unat (w AND 0xff) = unat w mod 256" by (simp add: unsigned_take_bit_eq take_bit_eq_mod [where 'a = nat])
      then show ?thesis by (simp add: word_unat_eq_iff unsigned_ucast_eq unat_of_nat take_bit_eq_mod [where 'a = nat])
    qed
    moreover have "unat w \<noteq> 0" using False by (simp add: unat_eq_zero)
    ultimately show ?thesis using 1 [OF False] False
      by (subst serialize_loop.simps, subst nat_bytes.simps) simp
  qed
qed


section \<open>Decoding\<close>

lemma unat_le_word: "length bs \<le> 8 \<Longrightarrow> unat (le_word bs :: u64) = le_nat bs"
proof (induction bs)
  case (Cons b bs)
  define X where "X = (le_word bs :: u64)"
  have X: "unat X = le_nat bs" using Cons by (simp add: X_def)
  have "le_nat bs < 256 ^ length bs" by (rule le_nat_bound)
  also have "\<dots> \<le> (256 :: nat) ^ 7" using Cons.prems by (intro power_increasing) simp_all
  finally have small: "le_nat bs < 72057594037927936" by simp
  have "\<not> (bit (ucast b :: u64) j \<and> bit (push_bit 8 X) j)" for j
    by (auto simp: bit_unsigned_iff bit_push_bit_iff dest: bit_imp_le_length)
  then have "ucast b OR push_bit 8 X = ucast b + push_bit 8 X" by (intro disjunctive_add [symmetric]) blast
  moreover have "unat (push_bit 8 X) = 256 * le_nat bs"
    using small by (simp add: push_bit_eq_mult unat_word_ariths X mult.commute)
  moreover have "unat (ucast b :: u64) = unat b" using byte_bound [of b] by (simp add: unsigned_ucast_eq take_bit_eq_mod)
  ultimately show ?case using small byte_bound [of b] by (simp add: X_def [symmetric] unat_word_ariths)
qed simp

lemma set_vch_word:
  "fold (\<lambda>i r. r OR push_bit (8 * i) (ucast (vch ! i))) [0..<length vch] (0 :: u64) = le_word vch"
proof -
  have "bit (fold (\<lambda>i r. r OR push_bit (8 * i) (ucast (vch ! i))) [0..<k] (0 :: u64)) j \<longleftrightarrow> j < 64 \<and> j div 8 < k \<and> bit (vch ! (j div 8)) (j mod 8)"
    for k j
  proof (induction k)
    case (Suc k)
    have new: "bit (push_bit (8 * k) (ucast (vch ! k)) :: u64) j \<longleftrightarrow> j < 64 \<and> j div 8 = k \<and> bit (vch ! k) (j mod 8)"
    proof -
      have "8 * k \<le> j \<and> j - 8 * k < 8 \<longleftrightarrow> j div 8 = k" by auto
      moreover have "j - 8 * k = j mod 8" if "j div 8 = k" using that by (metis minus_mult_div_eq_mod)
      ultimately show ?thesis by (auto simp: bit_push_bit_iff bit_unsigned_iff dest: bit_imp_le_length)
    qed
    show ?case by (auto simp: bit_or_iff Suc new less_Suc_eq)
  qed simp
  then show ?thesis by (intro word_bits_eqI) (simp add: bit_le_word)
qed

lemma le_word_clear_top:
  assumes "vch \<noteq> []" and "length vch \<le> 8"
  shows "(le_word vch :: u64) AND NOT (push_bit (8 * (length vch - 1)) 0x80) = le_word (butlast vch @ [last vch AND 0x7f])"
proof (rule word_bits_eqI)
  fix j assume "j < LENGTH(64)"
  define n where "n = length vch - 1"
  have n: "length vch = Suc n" using assms(1) by (simp add: n_def)
  have top: "vch ! n = last vch" using assms(1) by (simp add: n_def last_conv_nth)
  have "push_bit (8 * n) (0x80 :: u64) = push_bit (8 * n + 7) 1" by (simp add: push_bit_eq_mult power_add)
  then have p: "bit (push_bit (8 * n) (0x80 :: u64)) j \<longleftrightarrow> j = 8 * n + 7"
    using assms(2) n bit_exp_iff [where 'a = u64, of "8 * n + 7" j] \<open>j < LENGTH(64)\<close> by auto
  have m7: "bit (0x7f :: byte) i \<longleftrightarrow> i < 7" for i
  proof -
    have "(0x7f :: byte) = mask 7" by (simp add: mask_eq_exp_minus_1)
    moreover have "bit (mask 7 :: byte) i \<longleftrightarrow> i < 7" by (auto simp only: bit_mask_iff) simp_all
    ultimately show ?thesis by (simp only:)
  qed
  note p
  moreover define q r where "q = j div 8" and "r = j mod 8"
  then have j: "j = 8 * q + r" "r < 8" by simp_all
  moreover have "(8 * q + r = 8 * n + 7) = (q = n \<and> r = 7)" using j(2) by presburger
  moreover have "r \<noteq> 7 \<longleftrightarrow> r < 7" using j(2) by linarith
  moreover have "8 * q + r < 64" using \<open>j < LENGTH(64)\<close> j(1) by simp
  moreover have "length (butlast vch) = n" by (simp add: n)
  ultimately show "bit ((le_word vch :: u64) AND NOT (push_bit (8 * (length vch - 1)) 0x80)) j =
      bit (le_word (butlast vch @ [last vch AND 0x7f]) :: u64) j"
    unfolding n_def [symmetric] bit_le_word bit_and_iff bit_not_iff q_def [symmetric] r_def [symmetric]
    by (cases "q < n"; cases "q = n") (simp_all add: n nth_append nth_butlast top bit_and_iff m7 del: bit_numeral_word_iff)
qed

text \<open>Sign and magnitude of an encoded number.\<close>

definition vch_neg :: "bytes \<Rightarrow> bool" where "vch_neg vch \<longleftrightarrow> bit (last vch) 7"
definition vch_mag :: "bytes \<Rightarrow> nat" where "vch_mag vch = le_nat (butlast vch @ [last vch AND 0x7f])"

lemma byte_top: "(b :: byte) AND 0x80 \<noteq> 0 \<longleftrightarrow> bit b 7"
  using and_exp_eq_0_iff_not_bit [of b 7] by simp

lemma byte_low: "unat ((b :: byte) AND 0x7f) < 128" "\<not> bit b 7 \<Longrightarrow> b AND 0x7f = b"
proof -
  have m: "(0x7f :: byte) = mask 7" by (simp add: mask_eq_exp_minus_1)
  have "unat (b AND mask 7) = unat b mod 2 ^ 7" by (simp only: take_bit_eq_mask [symmetric] unsigned_take_bit_eq take_bit_eq_mod [where 'a = nat])
  then show "unat (b AND 0x7f) < 128" by (simp add: m)
  show "\<not> bit b 7 \<Longrightarrow> b AND 0x7f = b"
  proof (rule word_bits_eqI)
    fix j assume "\<not> bit b 7" and "j < LENGTH(8)"
    then show "bit (b AND 0x7f) j = bit b j"
      by (cases "j = 7") (auto simp: m bit_and_iff bit_mask_iff)
  qed
qed

lemma vch_mag_bound: "vch \<noteq> [] \<Longrightarrow> vch_mag vch < 128 * 256 ^ (length vch - 1)"
proof -
  assume "vch \<noteq> []"
  have "le_nat (butlast vch) < 256 ^ (length vch - 1)" using le_nat_bound [of "butlast vch"] by simp
  moreover have "unat (last vch AND 0x7f) + 1 \<le> 128" using byte_low(1) [of "last vch"] by simp
  then have "256 ^ (length vch - 1) * (unat (last vch AND 0x7f) + 1) \<le> 256 ^ (length vch - 1) * 128" by (rule mult_le_mono2)
  then have "256 ^ (length vch - 1) * unat (last vch AND 0x7f) + 256 ^ (length vch - 1) \<le> 128 * 256 ^ (length vch - 1)"
    by (simp add: algebra_simps)
  ultimately have "le_nat (butlast vch) + 256 ^ (length vch - 1) * unat (last vch AND 0x7f) < 128 * 256 ^ (length vch - 1)" by linarith
  then show ?thesis by (simp add: vch_mag_def le_nat_append)
qed

lemma set_vch_value:
  assumes "vch \<noteq> []" and "length vch \<le> 8"
  shows "set_vch vch = (if vch_neg vch then - int (vch_mag vch) else int (vch_mag vch))"
proof -
  define W where "W = (le_word (butlast vch @ [last vch AND 0x7f]) :: u64)"
  have W: "unat W = vch_mag vch" using assms by (simp add: W_def vch_mag_def unat_le_word)
  have "vch_mag vch < 128 * 256 ^ (length vch - 1)" by (rule vch_mag_bound [OF assms(1)])
  also have "\<dots> \<le> 128 * (256 :: nat) ^ 7" using assms(2) by (intro mult_le_mono2 power_increasing) simp_all
  finally have "uint W < 2 ^ 63" using W by (simp flip: nat_uint_eq) 
  moreover have "- (2 ^ 63) \<le> uint W" by (rule order_trans [OF _ uint_ge_0]) simp
  ultimately have "sint W = uint W" by (simp add: sint_uint signed_take_bit_int_eq_self_iff)
  also have "\<dots> = int (vch_mag vch)" using W by (metis uint_nat)
  finally have sint: "sint W = int (vch_mag vch)" .
  show ?thesis
  proof (cases "bit (last vch) 7")
    case True
    then show ?thesis using assms(1) le_word_clear_top [OF assms] sint
      by (simp add: set_vch_def set_vch_word byte_top vch_neg_def W_def Let_def)
  next
    case False
    then have "butlast vch @ [last vch AND 0x7f] = vch" using assms(1) byte_low(2) by simp
    with False show ?thesis using assms(1) sint by (simp add: set_vch_def set_vch_word byte_top vch_neg_def W_def Let_def)
  qed
qed

section \<open>The encoding is canonical\<close>

definition num_minimal :: "bytes \<Rightarrow> bool" where
  "num_minimal vch \<longleftrightarrow> vch = [] \<or> last vch AND 0x7f \<noteq> 0 \<or> (length vch > 1 \<and> vch ! (length vch - 2) AND 0x80 \<noteq> 0)"

lemma CScriptNum_Inr_iff:
  "CScriptNum vch m k = Inr v \<longleftrightarrow> length vch \<le> k \<and> (m \<longrightarrow> num_minimal vch) \<and> v = set_vch vch"
  by (auto simp: CScriptNum_def num_minimal_def not_less)

lemma vch_mag_Cons_top: "vch \<noteq> [] \<Longrightarrow> bit (last vch) 7 \<Longrightarrow> 128 * 256 ^ (length vch - 1) \<le> le_nat vch"
proof -
  assume vch: "vch \<noteq> []" and top: "bit (last vch) 7"
  have "bit (unat (last vch)) 7" using top by (simp only: bit_unsigned_iff) simp
  then have "odd (unat (last vch) div 2 ^ 7)" unfolding bit_iff_odd .
  then obtain k where "unat (last vch) div 2 ^ 7 = 2 * k + 1" by (elim oddE)
  then have "\<not> unat (last vch) < 128" using div_less [of "unat (last vch)" "2 ^ 7"] by auto
  then have "128 \<le> unat (last vch)" by simp
  then have "128 * 256 ^ (length vch - 1) \<le> unat (last vch) * 256 ^ (length vch - 1)" by (rule mult_le_mono1)
  also have "\<dots> \<le> le_nat (butlast vch @ [last vch])" by (simp only: le_nat_append) simp
  finally show ?thesis using vch by simp
qed

lemma serialize_digits:
  assumes "\<bar>v\<bar> < 2 ^ 63"
  shows "serialize_loop (word_of_int \<bar>v\<bar>) [] = nat_bytes (nat \<bar>v\<bar>)"
proof -
  have "uint (word_of_int \<bar>v\<bar> :: u64) = \<bar>v\<bar>" using assms by (simp add: uint_word_of_int)
  then have "unat (word_of_int \<bar>v\<bar> :: u64) = nat \<bar>v\<bar>" by (metis nat_uint_eq)
  then show ?thesis by (simp add: serialize_loop_bytes)
qed

lemma byte_or_top: "\<not> bit (b :: byte) 7 \<Longrightarrow> (b OR 0x80) AND 0x7f = b" "bit (b OR 0x80 :: byte) 7" "(b AND 0x7f) OR (if bit b 7 then 0x80 else 0) = b"
proof -
  have m: "(0x7f :: byte) = mask 7" by (simp add: mask_eq_exp_minus_1)
  have m7: "bit (0x7f :: byte) j \<longleftrightarrow> j < 7" for j unfolding m by (auto simp only: bit_mask_iff) simp_all
  have t: "bit (0x80 :: byte) j \<longleftrightarrow> j = 7" for j using bit_exp_iff [where 'a = byte, of 7 j] by (auto dest: bit_imp_le_length)
  show "bit (b OR 0x80 :: byte) 7" by (simp only: bit_or_iff t) simp
  show "(b AND 0x7f) OR (if bit b 7 then 0x80 else 0) = b"
  proof (rule word_bits_eqI)
    fix j assume "j < LENGTH(8)"
    then show "bit ((b AND 0x7f) OR (if bit b 7 then 0x80 else 0)) j = bit b j"
      by (cases "j = 7"; cases "bit b 7") (auto simp only: bit_or_iff bit_and_iff m7 t bit_0_eq if_True if_False bot_apply, auto)
  qed
  show "(b OR 0x80) AND 0x7f = b" if "\<not> bit b 7"
  proof (rule word_bits_eqI)
    fix j assume "j < LENGTH(8)"
    with that show "bit ((b OR 0x80) AND 0x7f) j = bit b j"
      by (cases "j = 7") (auto simp only: bit_or_iff bit_and_iff m7 t, auto)
  qed
qed

text \<open>What is written is minimal, has the sign and the magnitude of the number and at most eight bytes.\<close>

lemma serialize_fields:
  assumes "v \<noteq> 0" and "\<bar>v\<bar> < 2 ^ 63"
  shows "CScriptNum_serialize v \<noteq> [] \<and> length (CScriptNum_serialize v) \<le> 8 \<and> num_minimal (CScriptNum_serialize v) \<and>
    vch_mag (CScriptNum_serialize v) = nat \<bar>v\<bar> \<and> (vch_neg (CScriptNum_serialize v) \<longleftrightarrow> v < 0)"
proof -
  define ds where "ds = nat_bytes (nat \<bar>v\<bar>)"
  have ds: "ds \<noteq> []" "last ds \<noteq> 0" "le_nat ds = nat \<bar>v\<bar>" using nat_bytes_last [of "nat \<bar>v\<bar>"] assms(1) by (simp_all add: ds_def)
  have m: "nat \<bar>v\<bar> < 2 ^ 63" using assms(2) by simp
  have code: "CScriptNum_serialize v = (if bit (last ds) 7 then ds @ [if v < 0 then 0x80 else 0]
      else if v < 0 then butlast ds @ [last ds OR 0x80] else ds)"
    using assms(1) by (simp add: CScriptNum_serialize_def serialize_digits [OF assms(2)] ds_def [symmetric] byte_top Let_def)
  show ?thesis
  proof (cases "bit (last ds) 7")
    case True
    have "length ds \<le> 7"
    proof (rule ccontr)
      assume "\<not> length ds \<le> 7"
      then have "(256 :: nat) ^ 7 \<le> 256 ^ (length ds - 1)" by (intro power_increasing) simp_all
      then have "128 * 256 ^ 7 \<le> le_nat ds" using vch_mag_Cons_top [OF ds(1) True] by linarith
      with m ds(3) show False by simp
    qed
    moreover have "le_nat (ds @ [0]) = le_nat ds" by (simp add: le_nat_append)
    moreover have "(ds @ [x]) ! (length ds - Suc 0) = last ds" for x using ds(1) by (simp add: nth_append last_conv_nth)
    ultimately show ?thesis using True ds byte_or_top(2) [of 0]
      by (auto simp: code num_minimal_def vch_mag_def vch_neg_def byte_top)
  next
    case False
    have "length ds \<le> 8"
      unfolding ds_def length_nat_bytes using m by simp
    then show ?thesis using False ds byte_or_top(1,2) [of "last ds"] byte_low(2) [OF False]
      by (auto simp: code num_minimal_def vch_mag_def vch_neg_def)
  qed
qed

text \<open>A minimal encoding is what writing its number produces.\<close>

lemma serialize_set_vch:
  assumes "vch \<noteq> []" and "length vch \<le> 8" and "num_minimal vch"
  shows "CScriptNum_serialize (set_vch vch) = vch" and "set_vch vch \<noteq> 0" and "\<bar>set_vch vch\<bar> < 2 ^ 63"
proof -
  define low where "low = last vch AND 0x7f"
  define m where "m = vch_mag vch"
  have val: "set_vch vch = (if vch_neg vch then - int m else int m)" using set_vch_value [OF assms(1,2)] by (simp add: m_def)
  have "m < 128 * 256 ^ (length vch - 1)" using vch_mag_bound [OF assms(1)] by (simp add: m_def)
  also have "\<dots> \<le> 128 * (256 :: nat) ^ 7" using assms(2) by (intro mult_le_mono2 power_increasing) simp_all
  finally have m63: "m < 2 ^ 63" by simp
  then show bound: "\<bar>set_vch vch\<bar> < 2 ^ 63" by (simp add: val)
  have top: "low OR (if bit (last vch) 7 then 0x80 else 0) = last vch" unfolding low_def by (rule byte_or_top(3))
  have notop: "\<not> bit low 7"
  proof -
    have "unat low < 2 ^ 7" using byte_low(1) [of "last vch"] by (simp add: low_def)
    then have "low = take_bit 7 low" by (simp add: word_unat_eq_iff unsigned_take_bit_eq take_bit_nat_eq_self)
    then show ?thesis by (metis bit_take_bit_iff less_irrefl)
  qed
  define ds where "ds = (if low = 0 then butlast vch else butlast vch @ [low])"
  have last_b: "last (butlast vch) = vch ! (length vch - 2)" if "length vch > 1"
  proof -
    have "butlast vch \<noteq> []" using that by (simp flip: length_0_conv)
    then show ?thesis using that by (simp add: last_conv_nth nth_butlast numeral_2_eq_2)
  qed
  have ds: "ds \<noteq> []" "last ds \<noteq> 0" "le_nat ds = m" "low = 0 \<Longrightarrow> bit (last ds) 7"
  proof -
    show "le_nat ds = m" by (simp add: ds_def m_def vch_mag_def low_def le_nat_append)
    have "length vch > 1 \<and> bit (last (butlast vch)) 7" if "low = 0"
      using assms(1,3) that last_b by (auto simp: num_minimal_def low_def byte_top)
    then show "low = 0 \<Longrightarrow> bit (last ds) 7" "ds \<noteq> []" "last ds \<noteq> 0"
      by (auto simp: ds_def butlast_conv_take)
  qed
  have "nat_bytes m = ds" using nat_bytes_le_nat [of ds] ds by simp
  moreover have "m \<noteq> 0"
  proof
    assume "m = 0"
    with calculation ds(1) show False by (simp add: nat_bytes.simps)
  qed
  ultimately show "set_vch vch \<noteq> 0" and "CScriptNum_serialize (set_vch vch) = vch"
  proof -
    show nz: "set_vch vch \<noteq> 0" using \<open>m \<noteq> 0\<close> by (simp add: val)
    have mag: "nat \<bar>set_vch vch\<bar> = m" and neg: "set_vch vch < 0 \<longleftrightarrow> bit (last vch) 7"
      using \<open>m \<noteq> 0\<close> by (auto simp: val vch_neg_def)
    have split: "vch = butlast vch @ [last vch]" using assms(1) by simp
    show "CScriptNum_serialize (set_vch vch) = vch"
    proof (cases "low = 0")
      case True
      with top have "last vch = (if bit (last vch) 7 then 0x80 else 0)" by simp
      with True ds(4) nz split show ?thesis
        by (simp add: CScriptNum_serialize_def serialize_digits [OF bound] mag neg \<open>nat_bytes m = ds\<close> byte_top Let_def ds_def split: if_splits)
    next
      case False
      with notop nz split top show ?thesis
        by (auto simp: CScriptNum_serialize_def serialize_digits [OF bound] mag neg \<open>nat_bytes m = ds\<close> byte_top Let_def ds_def)
    qed
  qed
qed

text \<open>
  C18. With the check for minimal encodings the decoder accepts exactly the strings that the encoder writes: a string of at most \<open>k \<le> 8\<close> bytes
  is read as a number exactly if it is the encoding of that number, so no number has two accepted encodings.
\<close>

theorem CScriptNum_canonical:
  assumes "k \<le> 8"
  shows "CScriptNum vch True k = Inr v \<longleftrightarrow> vch = CScriptNum_serialize v \<and> length vch \<le> k \<and> \<bar>v\<bar> < 2 ^ 63"
proof
  assume "CScriptNum vch True k = Inr v"
  then have *: "length vch \<le> k" "num_minimal vch" "v = set_vch vch" by (simp_all add: CScriptNum_Inr_iff)
  show "vch = CScriptNum_serialize v \<and> length vch \<le> k \<and> \<bar>v\<bar> < 2 ^ 63"
  proof (cases "vch = []")
    case True
    then show ?thesis using * by (simp add: set_vch_def CScriptNum_serialize_def)
  next
    case False
    then show ?thesis using serialize_set_vch [of vch] * assms by simp
  qed
next
  assume *: "vch = CScriptNum_serialize v \<and> length vch \<le> k \<and> \<bar>v\<bar> < 2 ^ 63"
  show "CScriptNum vch True k = Inr v"
  proof (cases "v = 0")
    case True
    then show ?thesis using * by (simp add: CScriptNum_Inr_iff num_minimal_def set_vch_def CScriptNum_serialize_def)
  next
    case False
    with * have f: "vch \<noteq> []" "length vch \<le> 8" "num_minimal vch" "vch_mag vch = nat \<bar>v\<bar>" "vch_neg vch \<longleftrightarrow> v < 0"
      using serialize_fields [of v] by auto
    then have "set_vch vch = v" using set_vch_value [OF f(1,2)] by auto
    with * f(3) show ?thesis unfolding CScriptNum_Inr_iff by auto
  qed
qed

theorem CScriptNum_canonical_witness:
  "CScriptNum [0xff, 0x80] True 4 = Inr (- 255) \<and> CScriptNum_serialize (- 255) = [0xff, 0x80] \<and> CScriptNum [0x01, 0x00] True 4 \<noteq> Inr 1"
proof -
  have "CScriptNum_serialize (- 255) = [0xff, 0x80]" "CScriptNum_serialize 1 = [0x01]" by code_simp+
  then show ?thesis using CScriptNum_canonical [of 4 "[0xff, 0x80]" "- 255"] CScriptNum_canonical [of 4 "[0x01, 0x00]" 1] by simp
qed

end
