(* ===== verification/Script.thy ===== *)
theory Script
  imports Script_Num Transactions
begin

text \<open>
  Scripts: the opcodes, the reader and the writers of \<^verbatim>\<open>src/script/script.h\<close>, and the classification, counting and deletion
  functions of \<^verbatim>\<open>src/script/script.cpp\<close>. A script is the list of its bytes; an iterator is an index.

  Every loop of these functions moves its iterator with \<^verbatim>\<open>GetOp2\<close>, which always advances (\<open>GetOp2_progress\<close>), so all of them end.
\<close>

section \<open>Opcodes\<close>

named_theorems opcode \<open>the numbers of the opcodes\<close>

definition OP_0 :: byte where "OP_0 = 0x00"
definition OP_FALSE :: byte where "OP_FALSE = OP_0"
definition OP_PUSHDATA1 :: byte where "OP_PUSHDATA1 = 0x4c"
definition OP_PUSHDATA2 :: byte where "OP_PUSHDATA2 = 0x4d"
definition OP_PUSHDATA4 :: byte where "OP_PUSHDATA4 = 0x4e"
definition OP_1NEGATE :: byte where "OP_1NEGATE = 0x4f"
definition OP_RESERVED :: byte where "OP_RESERVED = 0x50"
definition OP_1 :: byte where "OP_1 = 0x51"
definition OP_TRUE :: byte where "OP_TRUE = OP_1"
definition OP_2 :: byte where "OP_2 = 0x52"
definition OP_3 :: byte where "OP_3 = 0x53"
definition OP_4 :: byte where "OP_4 = 0x54"
definition OP_5 :: byte where "OP_5 = 0x55"
definition OP_6 :: byte where "OP_6 = 0x56"
definition OP_7 :: byte where "OP_7 = 0x57"
definition OP_8 :: byte where "OP_8 = 0x58"
definition OP_9 :: byte where "OP_9 = 0x59"
definition OP_10 :: byte where "OP_10 = 0x5a"
definition OP_11 :: byte where "OP_11 = 0x5b"
definition OP_12 :: byte where "OP_12 = 0x5c"
definition OP_13 :: byte where "OP_13 = 0x5d"
definition OP_14 :: byte where "OP_14 = 0x5e"
definition OP_15 :: byte where "OP_15 = 0x5f"
definition OP_16 :: byte where "OP_16 = 0x60"
definition OP_NOP :: byte where "OP_NOP = 0x61"
definition OP_VER :: byte where "OP_VER = 0x62"
definition OP_IF :: byte where "OP_IF = 0x63"
definition OP_NOTIF :: byte where "OP_NOTIF = 0x64"
definition OP_VERIF :: byte where "OP_VERIF = 0x65"
definition OP_VERNOTIF :: byte where "OP_VERNOTIF = 0x66"
definition OP_ELSE :: byte where "OP_ELSE = 0x67"
definition OP_ENDIF :: byte where "OP_ENDIF = 0x68"
definition OP_VERIFY :: byte where "OP_VERIFY = 0x69"
definition OP_RETURN :: byte where "OP_RETURN = 0x6a"
definition OP_TOALTSTACK :: byte where "OP_TOALTSTACK = 0x6b"
definition OP_FROMALTSTACK :: byte where "OP_FROMALTSTACK = 0x6c"
definition OP_2DROP :: byte where "OP_2DROP = 0x6d"
definition OP_2DUP :: byte where "OP_2DUP = 0x6e"
definition OP_3DUP :: byte where "OP_3DUP = 0x6f"
definition OP_2OVER :: byte where "OP_2OVER = 0x70"
definition OP_2ROT :: byte where "OP_2ROT = 0x71"
definition OP_2SWAP :: byte where "OP_2SWAP = 0x72"
definition OP_IFDUP :: byte where "OP_IFDUP = 0x73"
definition OP_DEPTH :: byte where "OP_DEPTH = 0x74"
definition OP_DROP :: byte where "OP_DROP = 0x75"
definition OP_DUP :: byte where "OP_DUP = 0x76"
definition OP_NIP :: byte where "OP_NIP = 0x77"
definition OP_OVER :: byte where "OP_OVER = 0x78"
definition OP_PICK :: byte where "OP_PICK = 0x79"
definition OP_ROLL :: byte where "OP_ROLL = 0x7a"
definition OP_ROT :: byte where "OP_ROT = 0x7b"
definition OP_SWAP :: byte where "OP_SWAP = 0x7c"
definition OP_TUCK :: byte where "OP_TUCK = 0x7d"
definition OP_CAT :: byte where "OP_CAT = 0x7e"
definition OP_SUBSTR :: byte where "OP_SUBSTR = 0x7f"
definition OP_LEFT :: byte where "OP_LEFT = 0x80"
definition OP_RIGHT :: byte where "OP_RIGHT = 0x81"
definition OP_SIZE :: byte where "OP_SIZE = 0x82"
definition OP_INVERT :: byte where "OP_INVERT = 0x83"
definition OP_AND :: byte where "OP_AND = 0x84"
definition OP_OR :: byte where "OP_OR = 0x85"
definition OP_XOR :: byte where "OP_XOR = 0x86"
definition OP_EQUAL :: byte where "OP_EQUAL = 0x87"
definition OP_EQUALVERIFY :: byte where "OP_EQUALVERIFY = 0x88"
definition OP_RESERVED1 :: byte where "OP_RESERVED1 = 0x89"
definition OP_RESERVED2 :: byte where "OP_RESERVED2 = 0x8a"
definition OP_1ADD :: byte where "OP_1ADD = 0x8b"
definition OP_1SUB :: byte where "OP_1SUB = 0x8c"
definition OP_2MUL :: byte where "OP_2MUL = 0x8d"
definition OP_2DIV :: byte where "OP_2DIV = 0x8e"
definition OP_NEGATE :: byte where "OP_NEGATE = 0x8f"
definition OP_ABS :: byte where "OP_ABS = 0x90"
definition OP_NOT :: byte where "OP_NOT = 0x91"
definition OP_0NOTEQUAL :: byte where "OP_0NOTEQUAL = 0x92"
definition OP_ADD :: byte where "OP_ADD = 0x93"
definition OP_SUB :: byte where "OP_SUB = 0x94"
definition OP_MUL :: byte where "OP_MUL = 0x95"
definition OP_DIV :: byte where "OP_DIV = 0x96"
definition OP_MOD :: byte where "OP_MOD = 0x97"
definition OP_LSHIFT :: byte where "OP_LSHIFT = 0x98"
definition OP_RSHIFT :: byte where "OP_RSHIFT = 0x99"
definition OP_BOOLAND :: byte where "OP_BOOLAND = 0x9a"
definition OP_BOOLOR :: byte where "OP_BOOLOR = 0x9b"
definition OP_NUMEQUAL :: byte where "OP_NUMEQUAL = 0x9c"
definition OP_NUMEQUALVERIFY :: byte where "OP_NUMEQUALVERIFY = 0x9d"
definition OP_NUMNOTEQUAL :: byte where "OP_NUMNOTEQUAL = 0x9e"
definition OP_LESSTHAN :: byte where "OP_LESSTHAN = 0x9f"
definition OP_GREATERTHAN :: byte where "OP_GREATERTHAN = 0xa0"
definition OP_LESSTHANOREQUAL :: byte where "OP_LESSTHANOREQUAL = 0xa1"
definition OP_GREATERTHANOREQUAL :: byte where "OP_GREATERTHANOREQUAL = 0xa2"
definition OP_MIN :: byte where "OP_MIN = 0xa3"
definition OP_MAX :: byte where "OP_MAX = 0xa4"
definition OP_WITHIN :: byte where "OP_WITHIN = 0xa5"
definition OP_RIPEMD160 :: byte where "OP_RIPEMD160 = 0xa6"
definition OP_SHA1 :: byte where "OP_SHA1 = 0xa7"
definition OP_SHA256 :: byte where "OP_SHA256 = 0xa8"
definition OP_HASH160 :: byte where "OP_HASH160 = 0xa9"
definition OP_HASH256 :: byte where "OP_HASH256 = 0xaa"
definition OP_CODESEPARATOR :: byte where "OP_CODESEPARATOR = 0xab"
definition OP_CHECKSIG :: byte where "OP_CHECKSIG = 0xac"
definition OP_CHECKSIGVERIFY :: byte where "OP_CHECKSIGVERIFY = 0xad"
definition OP_CHECKMULTISIG :: byte where "OP_CHECKMULTISIG = 0xae"
definition OP_CHECKMULTISIGVERIFY :: byte where "OP_CHECKMULTISIGVERIFY = 0xaf"
definition OP_NOP1 :: byte where "OP_NOP1 = 0xb0"
definition OP_CHECKLOCKTIMEVERIFY :: byte where "OP_CHECKLOCKTIMEVERIFY = 0xb1"
definition OP_NOP2 :: byte where "OP_NOP2 = OP_CHECKLOCKTIMEVERIFY"
definition OP_CHECKSEQUENCEVERIFY :: byte where "OP_CHECKSEQUENCEVERIFY = 0xb2"
definition OP_NOP3 :: byte where "OP_NOP3 = OP_CHECKSEQUENCEVERIFY"
definition OP_NOP4 :: byte where "OP_NOP4 = 0xb3"
definition OP_NOP5 :: byte where "OP_NOP5 = 0xb4"
definition OP_NOP6 :: byte where "OP_NOP6 = 0xb5"
definition OP_NOP7 :: byte where "OP_NOP7 = 0xb6"
definition OP_NOP8 :: byte where "OP_NOP8 = 0xb7"
definition OP_NOP9 :: byte where "OP_NOP9 = 0xb8"
definition OP_NOP10 :: byte where "OP_NOP10 = 0xb9"
definition OP_UNEMP_ASSET :: byte where "OP_UNEMP_ASSET = 0xc0"
definition OP_SMALLINTEGER :: byte where "OP_SMALLINTEGER = 0xfa"
definition OP_PUBKEYS :: byte where "OP_PUBKEYS = 0xfb"
definition OP_PUBKEYHASH :: byte where "OP_PUBKEYHASH = 0xfd"
definition OP_PUBKEY :: byte where "OP_PUBKEY = 0xfe"
definition OP_INVALIDOPCODE :: byte where "OP_INVALIDOPCODE = 0xff"

lemmas opcode_defs [opcode] =
  OP_0_def OP_FALSE_def OP_PUSHDATA1_def OP_PUSHDATA2_def OP_PUSHDATA4_def OP_1NEGATE_def OP_RESERVED_def OP_1_def OP_TRUE_def OP_2_def
  OP_3_def OP_4_def OP_5_def OP_6_def OP_7_def OP_8_def OP_9_def OP_10_def OP_11_def OP_12_def OP_13_def OP_14_def OP_15_def OP_16_def
  OP_NOP_def OP_VER_def OP_IF_def OP_NOTIF_def OP_VERIF_def OP_VERNOTIF_def OP_ELSE_def OP_ENDIF_def OP_VERIFY_def OP_RETURN_def
  OP_TOALTSTACK_def OP_FROMALTSTACK_def OP_2DROP_def OP_2DUP_def OP_3DUP_def OP_2OVER_def OP_2ROT_def OP_2SWAP_def OP_IFDUP_def
  OP_DEPTH_def OP_DROP_def OP_DUP_def OP_NIP_def OP_OVER_def OP_PICK_def OP_ROLL_def OP_ROT_def OP_SWAP_def OP_TUCK_def OP_CAT_def
  OP_SUBSTR_def OP_LEFT_def OP_RIGHT_def OP_SIZE_def OP_INVERT_def OP_AND_def OP_OR_def OP_XOR_def OP_EQUAL_def OP_EQUALVERIFY_def
  OP_RESERVED1_def OP_RESERVED2_def OP_1ADD_def OP_1SUB_def OP_2MUL_def OP_2DIV_def OP_NEGATE_def OP_ABS_def OP_NOT_def OP_0NOTEQUAL_def
  OP_ADD_def OP_SUB_def OP_MUL_def OP_DIV_def OP_MOD_def OP_LSHIFT_def OP_RSHIFT_def OP_BOOLAND_def OP_BOOLOR_def OP_NUMEQUAL_def
  OP_NUMEQUALVERIFY_def OP_NUMNOTEQUAL_def OP_LESSTHAN_def OP_GREATERTHAN_def OP_LESSTHANOREQUAL_def OP_GREATERTHANOREQUAL_def OP_MIN_def
  OP_MAX_def OP_WITHIN_def OP_RIPEMD160_def OP_SHA1_def OP_SHA256_def OP_HASH160_def OP_HASH256_def OP_CODESEPARATOR_def OP_CHECKSIG_def
  OP_CHECKSIGVERIFY_def OP_CHECKMULTISIG_def OP_CHECKMULTISIGVERIFY_def OP_NOP1_def OP_CHECKLOCKTIMEVERIFY_def OP_NOP2_def
  OP_CHECKSEQUENCEVERIFY_def OP_NOP3_def OP_NOP4_def OP_NOP5_def OP_NOP6_def OP_NOP7_def OP_NOP8_def OP_NOP9_def OP_NOP10_def
  OP_UNEMP_ASSET_def OP_SMALLINTEGER_def OP_PUBKEYS_def OP_PUBKEYHASH_def OP_PUBKEY_def OP_INVALIDOPCODE_def

definition MAX_OPCODE :: byte where "MAX_OPCODE = OP_NOP10"

definition MAX_SCRIPT_ELEMENT_SIZE :: nat where "MAX_SCRIPT_ELEMENT_SIZE = 520"
definition MAX_OPS_PER_SCRIPT :: int where "MAX_OPS_PER_SCRIPT = 201"
definition MAX_PUBKEYS_PER_MULTISIG :: nat where "MAX_PUBKEYS_PER_MULTISIG = 20"
definition MAX_SCRIPT_SIZE :: nat where "MAX_SCRIPT_SIZE = 10000"
definition MAX_STACK_SIZE :: nat where "MAX_STACK_SIZE = 1000"

section \<open>Reading an operation\<close>

text \<open>
  The size of the immediate operand of a push and where it starts, or where the reader stands when the script ends within the size.
  The size and the rest of the script are compared as unsigned 32-bit integers.
\<close>

definition GetOp2_size :: "script \<Rightarrow> byte \<Rightarrow> nat \<Rightarrow> nat + u32 \<times> nat" where
  "GetOp2_size script opcode pc =
    (if opcode < OP_PUSHDATA1 then Inr (ucast opcode, pc)
     else if opcode = OP_PUSHDATA1 then
       if length script - pc < 1 then Inl pc else Inr (ucast (script ! pc), pc + 1)
     else if opcode = OP_PUSHDATA2 then
       if length script - pc < 2 then Inl pc else Inr (ucast (ReadLE16 (drop pc script)), pc + 2)
     else if opcode = OP_PUSHDATA4 then
       if length script - pc < 4 then Inl pc else Inr (ReadLE32 (drop pc script), pc + 4)
     else Inr (0, pc))"

text \<open>Success, the new iterator, the opcode and the data; the asset opcode takes the rest of the script as its data.\<close>

definition GetOp2 :: "script \<Rightarrow> nat \<Rightarrow> bool \<times> nat \<times> byte \<times> bytes" where
  "GetOp2 script pc =
    (if pc \<ge> length script then (False, pc, OP_INVALIDOPCODE, [])
     else
       (let opcode = script ! pc; pc = pc + 1
        in if opcode \<le> OP_PUSHDATA4 then
             (case GetOp2_size script opcode pc of
                Inl pc \<Rightarrow> (False, pc, OP_INVALIDOPCODE, [])
              | Inr (nSize, pc) \<Rightarrow>
                  if (of_nat (length script - pc) :: u32) < nSize then (False, pc, OP_INVALIDOPCODE, [])
                  else (True, pc + unat nSize, opcode, take (unat nSize) (drop pc script)))
           else if opcode = OP_UNEMP_ASSET then
             (let nSize = (of_nat (length script - pc) :: u32)
              in (True, pc + unat nSize, opcode, take (unat nSize) (drop pc script)))
           else (True, pc, opcode, [])))"

lemma unat_rest: "unat (of_nat n :: u32) \<le> n"
  by (simp add: unat_of_nat)

lemma rest_not_less: "\<not> (of_nat n :: u32) < w \<Longrightarrow> unat w \<le> n"
  using unat_rest [of n] by (simp add: word_less_nat_alt not_less)

lemma GetOp2_size_pc:
  "GetOp2_size script opcode pc = Inl pc' \<Longrightarrow> pc' = pc"
  "GetOp2_size script opcode pc = Inr (nSize, pc') \<Longrightarrow> pc \<le> length script \<Longrightarrow> pc \<le> pc' \<and> pc' \<le> length script"
  by (auto simp: GetOp2_size_def not_less split: if_splits)

lemma GetOp2_progress:
  assumes "pc < length script" and "GetOp2 script pc = (ok, pc', opcode, vch)"
  shows "pc < pc' \<and> pc' \<le> length script"
proof -
  have "Suc pc \<le> length script" using assms(1) by simp
  then show ?thesis
    using assms GetOp2_size_pc [of script "script ! pc" "Suc pc"] unat_rest [of "length script - Suc pc"]
    by (auto simp: GetOp2_def Let_def not_le simp del: of_nat_diff split: if_splits sum.splits dest!: rest_not_less)
qed

lemma GetOp2_end: "length script \<le> pc \<Longrightarrow> GetOp2 script pc = (False, pc, OP_INVALIDOPCODE, [])"
  by (simp add: GetOp2_def)

lemma GetOp2_True: "GetOp2 script pc = (True, pc', opcode, vch) \<Longrightarrow> pc < pc' \<and> pc' \<le> length script"
  using GetOp2_end [of script pc] GetOp2_progress [of pc script] by (cases "pc < length script") auto

lemma GetOp2_data: "GetOp2 script pc = (True, pc', opcode, vch) \<Longrightarrow> vch \<noteq> [] \<Longrightarrow> opcode \<le> OP_PUSHDATA4 \<or> opcode = OP_UNEMP_ASSET"
  by (auto simp: GetOp2_def Let_def split: if_splits sum.splits)

section \<open>Writing\<close>

definition push_opcode :: "script \<Rightarrow> byte \<Rightarrow> script" where
  "push_opcode s opcode = s @ [opcode]"

definition push_data :: "script \<Rightarrow> bytes \<Rightarrow> script" where
  "push_data s b =
    (if length b < unat OP_PUSHDATA1 then s @ [of_nat (length b)]
     else if length b \<le> 0xff then s @ [OP_PUSHDATA1, of_nat (length b)]
     else if length b \<le> 0xffff then s @ OP_PUSHDATA2 # WriteLE16 (of_nat (length b))
     else s @ OP_PUSHDATA4 # WriteLE32 (of_nat (length b))) @ b"

definition push_int64 :: "script \<Rightarrow> int \<Rightarrow> script" where
  "push_int64 s n =
    (if n = - 1 \<or> (n \<ge> 1 \<and> n \<le> 16) then s @ [word_of_int (n + (uint OP_1 - 1))]
     else if n = 0 then s @ [OP_0]
     else push_data s (CScriptNum_serialize n))"

definition push_num :: "script \<Rightarrow> int \<Rightarrow> script" where
  "push_num s n = push_data s (CScriptNum_serialize n)"

text \<open>The assertions of the two functions are the halts.\<close>

definition DecodeOP_N :: "byte \<Rightarrow> int exec" where
  "DecodeOP_N opcode =
    (if opcode = OP_0 then Inr 0
     else if opcode \<ge> OP_1 \<and> opcode \<le> OP_16 then Inr (uint opcode - (uint OP_1 - 1)) else Inl Undefined)"

definition EncodeOP_N :: "int \<Rightarrow> byte exec" where
  "EncodeOP_N n =
    (if \<not> (n \<ge> 0 \<and> n \<le> 16) then Inl Undefined else if n = 0 then Inr OP_0 else Inr (word_of_int (uint OP_1 + n - 1)))"

section \<open>Deleting\<close>

text \<open>The inner loop of \<^verbatim>\<open>FindAndDelete\<close> skips occurrences of \<open>b\<close>, which is not empty.\<close>

function skip_matches :: "script \<Rightarrow> script \<Rightarrow> nat \<Rightarrow> nat \<Rightarrow> nat \<times> nat" where
  "skip_matches script b pc nFound =
    (if b \<noteq> [] \<and> length script - pc \<ge> length b \<and> take (length b) (drop pc script) = b then
       skip_matches script b (pc + length b) (nFound + 1)
     else (pc, nFound))"
  by pat_completeness auto
termination
  by (relation "measure (\<lambda>(script, b, pc, n). length script - pc)") (auto simp: neq_Nil_conv)

declare skip_matches.simps [simp del]

lemma skip_matches_progress:
  "skip_matches script b pc n = (pc', n') \<Longrightarrow> pc \<le> pc' \<and> n \<le> n' \<and> pc' = pc + (n' - n) * length b \<and> (pc \<le> length script \<longrightarrow> pc' \<le> length script)"
proof (induction script b pc n arbitrary: pc' n' rule: skip_matches.induct)
  case (1 script b pc n)
  show ?case
  proof (cases "b \<noteq> [] \<and> length script - pc \<ge> length b \<and> take (length b) (drop pc script) = b")
    case True
    have "skip_matches script b (pc + length b) (n + 1) = (pc', n')" using 1(2) True by (simp add: skip_matches.simps [of script b pc n])
    from 1(1) [OF True this] show ?thesis
      using True by (auto simp: Suc_diff_Suc [symmetric] Suc_le_eq simp flip: add_mult_distrib)
  next
    case False
    then have "(pc', n') = (pc, n)" using 1(2) by (simp only: skip_matches.simps [of script b pc n] if_False)
    then show ?thesis by simp
  qed
qed

function FindAndDelete_loop :: "script \<Rightarrow> script \<Rightarrow> nat \<Rightarrow> nat \<Rightarrow> script \<Rightarrow> nat \<Rightarrow> script \<times> nat \<times> nat" where
  "FindAndDelete_loop script b pc pc2 result nFound =
    (let result = result @ take (pc - pc2) (drop pc2 script);
         (pc, nFound) = skip_matches script b pc nFound;
         pc2 = pc;
         (ok, pc, opcode, vch) = GetOp2 script pc
     in if ok then FindAndDelete_loop script b pc pc2 result nFound else (result, pc2, nFound))"
  by pat_completeness auto
termination
proof (relation "measure (\<lambda>(script, b, pc, pc2, result, n). length script - pc)", goal_cases)
  case (2 script b pc pc2 result n result' skip pc' n' pc2' op ok rest pc'' rest2 opcode vch)
  then have "GetOp2 script pc' = (True, pc'', opcode, vch)" and "skip_matches script b pc n = (pc', n')" by simp_all
  then show ?case using GetOp2_True [of script pc' pc''] skip_matches_progress [of script b pc n pc' n'] by auto
qed simp

declare FindAndDelete_loop.simps [simp del]

text \<open>The new script and the number of occurrences.\<close>

definition FindAndDelete :: "script \<Rightarrow> script \<Rightarrow> script \<times> nat" where
  "FindAndDelete script b =
    (if b = [] then (script, 0)
     else
       (let (result, pc2, nFound) = FindAndDelete_loop script b 0 0 [] 0
        in (if nFound > 0 then result @ drop pc2 script else script, nFound)))"

section \<open>Classification\<close>

definition IsPayToPublicKeyHash :: "script \<Rightarrow> bool" where
  "IsPayToPublicKeyHash s \<longleftrightarrow>
    length s = 25 \<and> s ! 0 = OP_DUP \<and> s ! 1 = OP_HASH160 \<and> s ! 2 = 0x14 \<and> s ! 23 = OP_EQUALVERIFY \<and> s ! 24 = OP_CHECKSIG"

definition IsPayToScriptHash :: "script \<Rightarrow> bool" where
  "IsPayToScriptHash s \<longleftrightarrow> length s = 23 \<and> s ! 0 = OP_HASH160 \<and> s ! 1 = 0x14 \<and> s ! 22 = OP_EQUAL"

definition IsPayToWitnessScriptHash :: "script \<Rightarrow> bool" where
  "IsPayToWitnessScriptHash s \<longleftrightarrow> length s = 34 \<and> s ! 0 = OP_0 \<and> s ! 1 = 0x20"

definition IsPayToPublicKey :: "script \<Rightarrow> bool" where
  "IsPayToPublicKey s \<longleftrightarrow>
    (if length s = 35 then (s ! 1 = 0x02 \<or> s ! 1 = 0x03) \<and> s ! 34 = OP_CHECKSIG
     else if length s = 67 then s ! 1 = 0x04 \<and> s ! 66 = OP_CHECKSIG
     else False)"

text \<open>The version and the program, or \<open>None\<close> for false.\<close>

definition IsWitnessProgram :: "script \<Rightarrow> (int \<times> bytes) option exec" where
  "IsWitnessProgram s =
    (if length s < 4 \<or> length s > 42 then Inr None
     else if s ! 0 \<noteq> OP_0 \<and> (s ! 0 < OP_1 \<or> s ! 0 > OP_16) then Inr None
     else if unat (s ! 1) + 2 = length s then
       exec_bind (DecodeOP_N (s ! 0)) (\<lambda>version. Inr (Some (version, drop 2 s)))
     else Inr None)"

datatype txnouttype =
  TX_NONSTANDARD | TX_PUBKEY | TX_PUBKEYHASH | TX_SCRIPTHASH | TX_MULTISIG | TX_NULL_DATA
  | TX_WITNESS_V0_SCRIPTHASH | TX_WITNESS_V0_KEYHASH
  | TX_NEW_ASSET | TX_REISSUE_ASSET | TX_TRANSFER_ASSET | TX_RESTRICTED_ASSET_DATA

definition UNEMP_R :: byte where "UNEMP_R = 114"
definition UNEMP_V :: byte where "UNEMP_V = 118"
definition UNEMP_N :: byte where "UNEMP_N = 110"
definition UNEMP_Q :: byte where "UNEMP_Q = 113"
definition UNEMP_T :: byte where "UNEMP_T = 116"
definition UNEMP_O :: byte where "UNEMP_O = 111"

text \<open>The kind of an asset script, whether it is an owner script, and where the asset data starts.\<close>

definition IsAssetScript :: "script \<Rightarrow> (txnouttype \<times> bool \<times> nat) option" where
  "IsAssetScript s =
    (if length s > 31 \<and> s ! 25 = OP_UNEMP_ASSET then
       (let index =
          (if s ! 27 = UNEMP_R then
             (if s ! 28 = UNEMP_V \<and> s ! 29 = UNEMP_N then Some 30 else None)
           else if s ! 28 = UNEMP_R \<and> s ! 29 = UNEMP_V \<and> s ! 30 = UNEMP_N then Some 31 else None)
        in case index of
             None \<Rightarrow> None
           | Some index \<Rightarrow>
               if s ! index = UNEMP_T then Some (TX_TRANSFER_ASSET, False, index + 1)
               else if s ! index = UNEMP_Q \<and> length s > 39 then Some (TX_NEW_ASSET, False, index + 1)
               else if s ! index = UNEMP_O then Some (TX_NEW_ASSET, True, index + 1)
               else if s ! index = UNEMP_R then Some (TX_REISSUE_ASSET, False, index + 1)
               else None)
     else None)"

definition IsNewAsset :: "script \<Rightarrow> bool" where
  "IsNewAsset s = (case IsAssetScript s of Some (nType, fIsOwner, _) \<Rightarrow> \<not> fIsOwner \<and> nType = TX_NEW_ASSET | None \<Rightarrow> False)"

definition IsOwnerAsset :: "script \<Rightarrow> bool" where
  "IsOwnerAsset s = (case IsAssetScript s of Some (nType, fIsOwner, _) \<Rightarrow> fIsOwner \<and> nType = TX_NEW_ASSET | None \<Rightarrow> False)"

definition IsReissueAsset :: "script \<Rightarrow> bool" where
  "IsReissueAsset s = (case IsAssetScript s of Some (nType, fIsOwner, _) \<Rightarrow> nType = TX_REISSUE_ASSET | None \<Rightarrow> False)"

definition IsTransferAsset :: "script \<Rightarrow> bool" where
  "IsTransferAsset s = (case IsAssetScript s of Some (nType, fIsOwner, _) \<Rightarrow> nType = TX_TRANSFER_ASSET | None \<Rightarrow> False)"

definition IsNullAssetTxDataScript :: "script \<Rightarrow> bool" where
  "IsNullAssetTxDataScript s \<longleftrightarrow> length s > 23 \<and> s ! 0 = OP_UNEMP_ASSET \<and> s ! 1 = 0x14"

definition IsNullGlobalRestrictionAssetTxDataScript :: "script \<Rightarrow> bool" where
  "IsNullGlobalRestrictionAssetTxDataScript s \<longleftrightarrow> length s > 6 \<and> s ! 0 = OP_UNEMP_ASSET \<and> s ! 1 = OP_RESERVED \<and> s ! 2 = OP_RESERVED"

definition IsNullAssetVerifierTxDataScript :: "script \<Rightarrow> bool" where
  "IsNullAssetVerifierTxDataScript s \<longleftrightarrow> length s > 3 \<and> s ! 0 = OP_UNEMP_ASSET \<and> s ! 1 = OP_RESERVED \<and> s ! 2 \<noteq> OP_RESERVED"

definition IsNullAsset :: "script \<Rightarrow> bool" where
  "IsNullAsset s \<longleftrightarrow> IsNullAssetTxDataScript s \<or> IsNullGlobalRestrictionAssetTxDataScript s \<or> IsNullAssetVerifierTxDataScript s"

text \<open>
  The amount of an asset script. The readers of the three kinds of asset data are arguments: they get the bytes from the start of the
  data and return the amount, or \<open>None\<close> when reading throws.
\<close>

record asset_readers =
  read_new_asset :: "bytes \<Rightarrow> int option"
  read_transfer :: "bytes \<Rightarrow> int option"
  read_reissue :: "bytes \<Rightarrow> int option"

definition OWNER_ASSET_AMOUNT :: int where "OWNER_ASSET_AMOUNT = 1 * COIN"

definition AmountFromNewAssetScript :: "asset_readers \<Rightarrow> script \<Rightarrow> int option" where
  "AmountFromNewAssetScript R s =
    (case IsAssetScript s of
       Some (nType, fIsOwner, start) \<Rightarrow> if nType = TX_NEW_ASSET \<and> \<not> fIsOwner then read_new_asset R (drop start s) else None
     | None \<Rightarrow> None)"

definition AmountFromTransferScript :: "asset_readers \<Rightarrow> script \<Rightarrow> int option" where
  "AmountFromTransferScript R s =
    (case IsAssetScript s of
       Some (nType, fIsOwner, start) \<Rightarrow> if nType = TX_TRANSFER_ASSET then read_transfer R (drop start s) else None
     | None \<Rightarrow> None)"

definition AmountFromReissueScript :: "asset_readers \<Rightarrow> script \<Rightarrow> int option" where
  "AmountFromReissueScript R s =
    (case IsAssetScript s of
       Some (nType, fIsOwner, start) \<Rightarrow> if nType = TX_REISSUE_ASSET then read_reissue R (drop start s) else None
     | None \<Rightarrow> None)"

definition GetAssetAmountFromScript :: "asset_readers \<Rightarrow> script \<Rightarrow> int option" where
  "GetAssetAmountFromScript R s =
    (case IsAssetScript s of
       None \<Rightarrow> None
     | Some (type, fIsOwner, _) \<Rightarrow>
         if type = TX_NEW_ASSET \<and> \<not> fIsOwner then AmountFromNewAssetScript R s
         else if type = TX_TRANSFER_ASSET then AmountFromTransferScript R s
         else if type = TX_NEW_ASSET \<and> fIsOwner then Some OWNER_ASSET_AMOUNT
         else if type = TX_REISSUE_ASSET then AmountFromReissueScript R s
         else None)"

definition IsUnspendable :: "asset_readers \<Rightarrow> script \<Rightarrow> bool" where
  "IsUnspendable R s \<longleftrightarrow>
    (length s > 0 \<and> s ! 0 = OP_RETURN) \<or> (length s > 0 \<and> s ! 0 = OP_UNEMP_ASSET) \<or> length s > MAX_SCRIPT_SIZE \<or>
    GetAssetAmountFromScript R s = Some 0"

section \<open>Loops over the operations\<close>

function IsPushOnly_from :: "script \<Rightarrow> nat \<Rightarrow> bool" where
  "IsPushOnly_from script pc =
    (if pc < length script then
       (let (ok, pc, opcode, vch) = GetOp2 script pc
        in if \<not> ok then False else if opcode > OP_16 then False else IsPushOnly_from script pc)
     else True)"
  by pat_completeness auto
termination
  by (relation "measure (\<lambda>(script, pc). length script - pc)") (auto dest!: GetOp2_True [OF sym])

definition IsPushOnly :: "script \<Rightarrow> bool" where "IsPushOnly script = IsPushOnly_from script 0"

function HasValidOps_from :: "script \<Rightarrow> nat \<Rightarrow> bool" where
  "HasValidOps_from script pc =
    (if pc < length script then
       (let (ok, pc, opcode, item) = GetOp2 script pc
        in if \<not> ok \<or> opcode > MAX_OPCODE \<or> length item > MAX_SCRIPT_ELEMENT_SIZE then False else HasValidOps_from script pc)
     else True)"
  by pat_completeness auto
termination
  by (relation "measure (\<lambda>(script, pc). length script - pc)") (auto dest!: GetOp2_True [OF sym])

definition HasValidOps :: "script \<Rightarrow> bool" where "HasValidOps script = HasValidOps_from script 0"

function Find_from :: "script \<Rightarrow> byte \<Rightarrow> nat \<Rightarrow> nat \<Rightarrow> nat" where
  "Find_from script op pc nFound =
    (let (ok, pc, opcode, vch) = GetOp2 script pc
     in if ok then Find_from script op pc (if opcode = op then nFound + 1 else nFound) else nFound)"
  by pat_completeness auto
termination
  by (relation "measure (\<lambda>(script, op, pc, n). length script - pc)") (auto dest!: GetOp2_True [OF sym])

definition Find :: "script \<Rightarrow> byte \<Rightarrow> nat" where "Find script op = Find_from script op 0 0"

text \<open>The counter is an unsigned 32-bit integer; the assertion of \<^verbatim>\<open>DecodeOP_N\<close> cannot fail after the test before it.\<close>

function GetSigOpCount_from :: "script \<Rightarrow> bool \<Rightarrow> nat \<Rightarrow> byte \<Rightarrow> u32 \<Rightarrow> u32" where
  "GetSigOpCount_from script fAccurate pc lastOpcode n =
    (if pc < length script then
       (let (ok, pc, opcode, vch) = GetOp2 script pc
        in if \<not> ok then n
           else
             (let n =
                (if opcode = OP_CHECKSIG \<or> opcode = OP_CHECKSIGVERIFY then n + 1
                 else if opcode = OP_CHECKMULTISIG \<or> opcode = OP_CHECKMULTISIGVERIFY then
                   (if fAccurate \<and> lastOpcode \<ge> OP_1 \<and> lastOpcode \<le> OP_16 then
                      (case DecodeOP_N lastOpcode of Inr k \<Rightarrow> n + word_of_int k | Inl _ \<Rightarrow> n)
                    else n + of_nat MAX_PUBKEYS_PER_MULTISIG)
                 else n)
              in GetSigOpCount_from script fAccurate pc opcode n))
     else n)"
  by pat_completeness auto
termination
  by (relation "measure (\<lambda>(script, a, pc, l, n). length script - pc)") (auto dest!: GetOp2_True [OF sym])

definition GetSigOpCount :: "script \<Rightarrow> bool \<Rightarrow> u32" where
  "GetSigOpCount script fAccurate = GetSigOpCount_from script fAccurate 0 OP_INVALIDOPCODE 0"

text \<open>The last item that a script of pushes puts on the stack, or \<open>None\<close> if it is not one.\<close>

function last_push :: "script \<Rightarrow> nat \<Rightarrow> bytes \<Rightarrow> bytes option" where
  "last_push script_sig pc vData =
    (if pc < length script_sig then
       (let (ok, pc, opcode, vData) = GetOp2 script_sig pc
        in if \<not> ok then None else if opcode > OP_16 then None else last_push script_sig pc vData)
     else Some vData)"
  by pat_completeness auto
termination
  by (relation "measure (\<lambda>(script, pc, v). length script - pc)") (auto dest!: GetOp2_True [OF sym])

definition GetSigOpCount_P2SH :: "script \<Rightarrow> script \<Rightarrow> u32" where
  "GetSigOpCount_P2SH script script_sig =
    (if \<not> IsPayToScriptHash script then GetSigOpCount script True
     else
       (case last_push script_sig 0 [] of
          None \<Rightarrow> 0
        | Some vData \<Rightarrow> GetSigOpCount vData True))"

declare IsPushOnly_from.simps [simp del] HasValidOps_from.simps [simp del] Find_from.simps [simp del]
  GetSigOpCount_from.simps [simp del] last_push.simps [simp del]

section \<open>Reading what was written\<close>

lemma unat_rest_small: "n < 2 ^ 32 \<Longrightarrow> unat (of_nat n :: u32) = n"
  by (simp add: unat_of_nat)

lemma GetOp2_push:
  assumes "length s < 2 ^ 32" and "pc < length s" and "s ! pc \<le> OP_PUSHDATA4"
    and "GetOp2_size s (s ! pc) (pc + 1) = Inr (of_nat (length b), pc')" and "pc' \<le> length s"
    and "drop pc' s = b @ rest"
  shows "GetOp2 s pc = (True, pc' + length b, s ! pc, b)"
proof -
  have len: "length s - pc' = length b + length rest" using assms(6) by (metis length_append length_drop)
  then have small: "length b < 2 ^ 32" "length s - pc' < 2 ^ 32" using assms(1) by simp_all
  then have "\<not> (of_nat (length s - pc') :: u32) < of_nat (length b)"
    using len by (simp add: word_less_nat_alt unat_rest_small del: of_nat_diff of_nat_add)
  then show ?thesis using assms(2-4,6) small by (simp add: GetOp2_def Let_def unat_rest_small del: of_nat_diff)
qed

lemma ReadLE16_WriteLE16: "ReadLE16 (WriteLE16 x @ bs) = x"
  using le_word_bytes [where 'a = 16, of 2 x] by (simp add: ReadLE16_def WriteLE16_def)

lemma ReadLE32_WriteLE32: "ReadLE32 (WriteLE32 x @ bs) = x"
  using le_word_bytes [where 'a = 32, of 4 x] by (simp add: ReadLE32_def WriteLE32_def)

lemma length_WriteLE [simp]: "length (WriteLE16 x) = 2" "length (WriteLE32 y) = 4"
  by (simp_all add: WriteLE16_def WriteLE32_def)

text \<open>
  What \<^verbatim>\<open>operator<<\<close> pushes is read back as one push operation: the reader at the position of the push returns the data and stands behind
  it, for every size of data.
\<close>

theorem GetOp2_push_data:
  assumes "length (push_data s b @ rest) < 2 ^ 32"
  shows "\<exists>opcode\<le>OP_PUSHDATA4. GetOp2 (push_data s b @ rest) (length s) = (True, length (push_data s b), opcode, b)"
proof -
  note [simp] = opcode
  define t where "t = push_data s b @ rest"
  have t: "length t < 2 ^ 32" using assms by (simp add: t_def)
  consider (direct) "length b < 76" | (one) "76 \<le> length b" "length b \<le> 255" | (two) "255 < length b" "length b \<le> 65535" | (four) "65535 < length b"
    by linarith
  then show ?thesis
  proof cases
    case direct
    then have td: "t = s @ [of_nat (length b)] @ b @ rest" by (simp add: t_def push_data_def)
    have u: "unat (of_nat (length b) :: byte) = length b" using direct by (simp add: unat_of_nat)
    have op: "(of_nat (length b) :: byte) < 76" using direct u by (simp add: word_less_nat_alt)
    then have "GetOp2_size t (t ! length s) (length s + 1) = Inr (of_nat (length b), length s + 1)"
      using direct u by (simp add: GetOp2_size_def td nth_append unsigned_ucast_eq word_unat_eq_iff unat_of_nat take_bit_nat_eq_self)
    then have "GetOp2 t (length s) = (True, length s + 1 + length b, t ! length s, b)"
      using op by (intro GetOp2_push [OF t]) (auto simp: td nth_append word_le_nat_alt word_less_nat_alt)
    moreover have "(of_nat (length b) :: byte) \<le> 78" using op by (simp add: word_le_nat_alt word_less_nat_alt)
    ultimately show ?thesis using direct unfolding t_def [symmetric] by (simp add: push_data_def td nth_append)
  next
    case one
    then have td: "t = s @ [0x4c, of_nat (length b)] @ b @ rest" by (simp add: t_def push_data_def)
    have "GetOp2_size t (t ! length s) (length s + 1) = Inr (of_nat (length b), length s + 2)"
      using one by (simp add: GetOp2_size_def td nth_append word_unat_eq_iff unsigned_ucast_eq unat_of_nat take_bit_nat_eq_self)
    then have "GetOp2 t (length s) = (True, length s + 2 + length b, t ! length s, b)"
      by (intro GetOp2_push [OF t]) (auto simp: td nth_append)
    then show ?thesis using one unfolding t_def [symmetric] by (simp add: push_data_def td nth_append)
  next
    case two
    then have td: "t = s @ [0x4d] @ WriteLE16 (of_nat (length b)) @ b @ rest" by (simp add: t_def push_data_def)
    have "GetOp2_size t (t ! length s) (length s + 1) = Inr (of_nat (length b), length s + 3)"
      using two by (simp add: GetOp2_size_def td nth_append ReadLE16_WriteLE16 word_unat_eq_iff unsigned_ucast_eq unat_of_nat take_bit_nat_eq_self)
    then have "GetOp2 t (length s) = (True, length s + 3 + length b, t ! length s, b)"
      by (intro GetOp2_push [OF t]) (auto simp: td nth_append)
    then show ?thesis using two unfolding t_def [symmetric] by (simp add: push_data_def td nth_append)
  next
    case four
    then have td: "t = s @ [0x4e] @ WriteLE32 (of_nat (length b)) @ b @ rest" by (simp add: t_def push_data_def)
    have "GetOp2_size t (t ! length s) (length s + 1) = Inr (of_nat (length b), length s + 5)"
      by (simp add: GetOp2_size_def td nth_append ReadLE32_WriteLE32)
    then have "GetOp2 t (length s) = (True, length s + 5 + length b, t ! length s, b)"
      by (intro GetOp2_push [OF t]) (auto simp: td nth_append)
    then show ?thesis using four unfolding t_def [symmetric] by (simp add: push_data_def td nth_append)
  qed
qed

theorem GetOp2_push_data_witness:
  "length (push_data [OP_DUP] [7, 7] @ [OP_EQUAL]) < 2 ^ 32 \<and>
   (\<exists>opcode\<le>OP_PUSHDATA4. GetOp2 (push_data [OP_DUP] [7, 7] @ [OP_EQUAL]) (length [OP_DUP]) = (True, length (push_data [OP_DUP] [7, 7]), opcode, [7, 7]))"
proof -
  have "length (push_data [OP_DUP] [7, 7] @ [OP_EQUAL]) < 2 ^ 32" by (simp add: push_data_def opcode)
  from GetOp2_push_data [OF this] this show ?thesis by blast
qed

section \<open>The forms of scripts\<close>

lemma nth_take_drop_split: "n < length s \<Longrightarrow> s = take n s @ s ! n # drop (Suc n) s"
  by (rule id_take_nth_drop)

lemma list_first2: "2 \<le> length s \<Longrightarrow> s = s ! 0 # s ! 1 # drop 2 s"
  by (cases s rule: list.exhaust; cases "tl s" rule: list.exhaust) auto

lemma IsPayToScriptHash_iff:
  "IsPayToScriptHash s \<longleftrightarrow> (\<exists>h. length h = 20 \<and> s = [OP_HASH160, 0x14] @ h @ [OP_EQUAL])"
proof
  assume *: "IsPayToScriptHash s"
  then have len: "length s = 23" by (simp add: IsPayToScriptHash_def)
  have "s = s ! 0 # s ! 1 # drop 2 s" using list_first2 [of s] len by simp
  moreover have "drop 2 s = take 20 (drop 2 s) @ [s ! 22]"
    using nth_take_drop_split [of 20 "drop 2 s"] len by simp
  ultimately have "s = [OP_HASH160, 0x14] @ take 20 (drop 2 s) @ [OP_EQUAL]"
    using * by (metis IsPayToScriptHash_def append.simps)
  then show "\<exists>h. length h = 20 \<and> s = [OP_HASH160, 0x14] @ h @ [OP_EQUAL]" using len by (intro exI [of _ "take 20 (drop 2 s)"]) simp
qed (auto simp: IsPayToScriptHash_def nth_append)

definition witness_opcode :: "nat \<Rightarrow> byte" where
  "witness_opcode v = (if v = 0 then OP_0 else OP_1 + of_nat (v - 1))"

lemma small_int_opcodes:
  "list_all (\<lambda>v. DecodeOP_N (witness_opcode v) = Inr (int v) \<and>
     (witness_opcode v = OP_0 \<or> (OP_1 \<le> witness_opcode v \<and> witness_opcode v \<le> OP_16))) [0..<17]"
  by code_simp

lemma DecodeOP_N_witness_opcode: "v \<le> 16 \<Longrightarrow> DecodeOP_N (witness_opcode v) = Inr (int v)"
  and witness_opcode_range: "v \<le> 16 \<Longrightarrow> witness_opcode v = OP_0 \<or> (OP_1 \<le> witness_opcode v \<and> witness_opcode v \<le> OP_16)"
  using small_int_opcodes unfolding list_all_iff by auto

lemma witness_opcode_cases:
  assumes "opcode = OP_0 \<or> (OP_1 \<le> opcode \<and> opcode \<le> OP_16)"
  obtains v where "v \<le> 16" and "opcode = witness_opcode v"
proof (cases "opcode = OP_0")
  case True
  show ?thesis by (rule that [of 0]) (simp_all add: True witness_opcode_def)
next
  case False
  with assms have r: "81 \<le> unat opcode" "unat opcode \<le> 96" by (simp_all add: opcode word_le_nat_alt)
  show ?thesis
  proof (rule that)
    show "unat opcode - 80 \<le> 16" using r by simp
    have "0x51 + (of_nat (unat opcode - 81) :: byte) = of_nat (81 + (unat opcode - 81))" by simp
    also have "\<dots> = opcode" using r by simp
    finally show "opcode = witness_opcode (unat opcode - 80)" using r by (simp add: witness_opcode_def opcode)
  qed
qed

lemma witness_first_opcode:
  assumes "\<not> (s ! 0 \<noteq> OP_0 \<and> (s ! 0 < OP_1 \<or> s ! 0 > OP_16))"
  shows "\<exists>k. k \<le> 16 \<and> s ! 0 = witness_opcode k \<and> DecodeOP_N (s ! 0) = Inr (int k)"
proof -
  obtain k where "k \<le> 16" "s ! 0 = witness_opcode k" using witness_opcode_cases [of "s ! 0"] assms by (auto simp: not_less)
  then show ?thesis using DecodeOP_N_witness_opcode by auto
qed

lemma IsWitnessProgram_total: "\<exists>r. IsWitnessProgram s = Inr r"
  using witness_first_opcode [of s] by (auto simp: IsWitnessProgram_def)

text \<open>
  \<^verbatim>\<open>IsWitnessProgram\<close> recognises exactly the scripts that push a number from 0 to 16 and then between 2 and 40 bytes directly,
  and returns both.
\<close>

theorem IsWitnessProgram_iff:
  "IsWitnessProgram s = Inr (Some (v, prog)) \<longleftrightarrow>
    0 \<le> v \<and> v \<le> 16 \<and> 2 \<le> length prog \<and> length prog \<le> 40 \<and> s = [witness_opcode (nat v), of_nat (length prog)] @ prog"
proof -
  show "IsWitnessProgram s = Inr (Some (v, prog)) \<longleftrightarrow>
    0 \<le> v \<and> v \<le> 16 \<and> 2 \<le> length prog \<and> length prog \<le> 40 \<and> s = [witness_opcode (nat v), of_nat (length prog)] @ prog"
  proof
    assume *: "IsWitnessProgram s = Inr (Some (v, prog))"
    then have len: "4 \<le> length s" "length s \<le> 42" and op: "\<not> (s ! 0 \<noteq> OP_0 \<and> (s ! 0 < OP_1 \<or> s ! 0 > OP_16))"
      and size: "unat (s ! 1) + 2 = length s"
      by (auto simp: IsWitnessProgram_def split: if_splits)
    obtain k where k: "k \<le> 16" "s ! 0 = witness_opcode k" "DecodeOP_N (s ! 0) = Inr (int k)" using witness_first_opcode [OF op] by blast
    then have vp: "v = int k" "prog = drop 2 s" using * len op size by (auto simp: IsWitnessProgram_def)
    have "s = s ! 0 # s ! 1 # drop 2 s" using list_first2 [of s] len by simp
    moreover have "s ! 1 = of_nat (length prog)" 
    proof -
      have "unat (s ! 1) = length prog" using size len vp(2) by simp
      moreover have "s ! 1 = of_nat (unat (s ! 1))" by simp
      ultimately show ?thesis by (simp only:)
    qed
    ultimately have "s = [witness_opcode (nat v), of_nat (length prog)] @ prog" using k vp by simp
    then show "0 \<le> v \<and> v \<le> 16 \<and> 2 \<le> length prog \<and> length prog \<le> 40 \<and> s = [witness_opcode (nat v), of_nat (length prog)] @ prog"
    proof -
      have "0 \<le> v" "v \<le> 16" "2 \<le> length prog" "length prog \<le> 40" using vp k(1) len by simp_all
      then show ?thesis using \<open>s = [witness_opcode (nat v), of_nat (length prog)] @ prog\<close> by blast
    qed
  next
    assume *: "0 \<le> v \<and> v \<le> 16 \<and> 2 \<le> length prog \<and> length prog \<le> 40 \<and> s = [witness_opcode (nat v), of_nat (length prog)] @ prog"
    then have "nat v \<le> 16" by linarith
    have len: "unat (of_nat (length prog) :: byte) = length prog" using * by (simp add: unat_of_nat)
    from DecodeOP_N_witness_opcode [OF \<open>nat v \<le> 16\<close>] witness_opcode_range [OF \<open>nat v \<le> 16\<close>] show "IsWitnessProgram s = Inr (Some (v, prog))"
      using * len by (auto simp: IsWitnessProgram_def not_less)
  qed
qed

section \<open>Single operations\<close>

lemma GetOp2_plain:
  "pc < length s \<Longrightarrow> s ! pc = opcode \<Longrightarrow> OP_PUSHDATA4 < opcode \<Longrightarrow> opcode \<noteq> OP_UNEMP_ASSET \<Longrightarrow> GetOp2 s pc = (True, pc + 1, opcode, [])"
  by (auto simp: GetOp2_def dest: leD)

lemma GetOp2_direct:
  assumes "length s < 2 ^ 32" and "pc < length s" and "s ! pc = opcode" and "opcode < OP_PUSHDATA1" and "unat opcode < length s - pc"
  shows "GetOp2 s pc = (True, pc + 1 + unat opcode, opcode, take (unat opcode) (drop (pc + 1) s))"
proof -
  have "\<not> (of_nat (length s - Suc pc) :: u32) < ucast opcode"
    using assms(1,5) by (simp add: word_less_nat_alt unsigned_ucast_eq unat_rest_small take_bit_nat_eq_self del: of_nat_diff)
  moreover have "opcode \<le> OP_PUSHDATA4" using assms(4) by (simp add: opcode word_le_nat_alt word_less_nat_alt)
  moreover have "unat opcode < 2 ^ 32" using assms(1,5) by linarith
  ultimately show ?thesis using assms(2-4) by (simp add: GetOp2_def GetOp2_size_def unsigned_ucast_eq take_bit_nat_eq_self del: of_nat_diff)
qed

lemma GetOp2_asset:
  "length s < 2 ^ 32 \<Longrightarrow> pc < length s \<Longrightarrow> s ! pc = OP_UNEMP_ASSET \<Longrightarrow> GetOp2 s pc = (True, length s, OP_UNEMP_ASSET, drop (pc + 1) s)"
  by (simp add: GetOp2_def opcode unat_rest_small del: of_nat_diff)

section \<open>What is deleted\<close>

definition with_copies :: "script \<Rightarrow> (script \<times> nat) list \<Rightarrow> script" where
  "with_copies b ps = concat (map (\<lambda>(x, k). x @ concat (replicate k b)) ps)"

lemma skip_matches_copies:
  "skip_matches script b pc n = (pc', n') \<Longrightarrow> take pc' script = take pc script @ concat (replicate (n' - n) b)"
proof (induction script b pc n arbitrary: pc' n' rule: skip_matches.induct)
  case (1 script b pc n)
  show ?case
  proof (cases "b \<noteq> [] \<and> length script - pc \<ge> length b \<and> take (length b) (drop pc script) = b")
    case True
    have rec: "skip_matches script b (pc + length b) (n + 1) = (pc', n')" using 1(2) True by (simp add: skip_matches.simps [of script b pc n])
    have "Suc n \<le> n'" using skip_matches_progress [OF rec] by simp
    then have "Suc (n' - Suc n) = n' - n" by simp
    moreover have "take (pc + length b) script = take pc script @ b" using True by (simp add: take_add)
    ultimately show ?thesis using 1(1) [OF True rec] by (metis Suc_eq_plus1 append.assoc concat.simps(2) replicate_Suc)
  next
    case False
    then have "(pc', n') = (pc, n)" using 1(2) by (simp only: skip_matches.simps [of script b pc n] if_False)
    then show ?thesis by simp
  qed
qed

lemma FindAndDelete_loop_copies:
  assumes "FindAndDelete_loop s b pc pc2 result n = (result', pc2', n')" and "pc2 \<le> pc" and "pc \<le> length s"
    and "take pc2 s = with_copies b ps" and "result = concat (map fst ps)" and "n = sum_list (map snd ps)"
  shows "\<exists>ps. pc2' \<le> length s \<and> take pc2' s = with_copies b ps \<and> result' = concat (map fst ps) \<and> n' = sum_list (map snd ps)"
  using assms
proof (induction s b pc pc2 result n arbitrary: ps result' pc2' n' rule: FindAndDelete_loop.induct)
  case (1 s b pc pc2 result n)
  define x where "x = take (pc - pc2) (drop pc2 s)"
  obtain pc1 n1 where skip: "skip_matches s b pc n = (pc1, n1)" by force
  obtain ok pc'' op vch where get: "GetOp2 s pc1 = (ok, pc'', op, vch)" by (metis prod_cases4)
  define ps1 where "ps1 = ps @ [(x, n1 - n)]"
  have prog: "pc \<le> pc1" "n \<le> n1" "pc1 \<le> length s" using skip_matches_progress [OF skip] 1(4) by auto
  have "take pc s = take pc2 s @ x" using 1(3) by (simp add: x_def take_add [symmetric])
  then have "take pc1 s = take pc2 s @ x @ concat (replicate (n1 - n) b)" using skip_matches_copies [OF skip] by simp
  then have inv: "take pc1 s = with_copies b ps1" "result @ x = concat (map fst ps1)" "n1 = sum_list (map snd ps1)"
    using 1(5-7) prog by (simp_all add: ps1_def with_copies_def)
  show ?case
  proof (cases ok)
    case True
    have rec: "FindAndDelete_loop s b pc'' pc1 (result @ x) n1 = (result', pc2', n')"
      using 1(2) True by (simp add: FindAndDelete_loop.simps [of s b pc pc2 result n] skip get x_def)
    have "pc1 \<le> pc''" "pc'' \<le> length s" using GetOp2_True [of s pc1] get True by auto
    from 1(1) [OF refl refl skip [symmetric] refl refl get [symmetric] refl refl True rec [unfolded x_def] this inv(1) inv(2) [unfolded x_def] inv(3)]
    show ?thesis .
  next
    case False
    then have "(result', pc2', n') = (result @ x, pc1, n1)"
      using 1(2) by (simp add: FindAndDelete_loop.simps [of s b pc pc2 result n] skip get x_def)
    then show ?thesis using inv prog by blast
  qed
qed

text \<open>
  \<^verbatim>\<open>FindAndDelete\<close> removes copies of its argument and nothing else: the script is cut into pieces with runs of copies between them,
  the result is the pieces, and the number returned is the number of copies removed. It ends on every script, parsable or not.
\<close>

theorem FindAndDelete_copies:
  "\<exists>ps. s = with_copies b ps \<and> fst (FindAndDelete s b) = concat (map fst ps) \<and> snd (FindAndDelete s b) = sum_list (map snd ps)"
proof -
  have whole: "s = with_copies b [(s, 0)]" by (simp add: with_copies_def)
  obtain result pc2 n where loop: "FindAndDelete_loop s b 0 0 [] 0 = (result, pc2, n)" by (metis prod_cases3)
  have "\<exists>ps. pc2 \<le> length s \<and> take pc2 s = with_copies b ps \<and> result = concat (map fst ps) \<and> n = sum_list (map snd ps)"
    by (rule FindAndDelete_loop_copies [OF loop, of "[]"]) (simp_all add: with_copies_def)
  then obtain ps where ps: "take pc2 s = with_copies b ps" "result = concat (map fst ps)" "n = sum_list (map snd ps)" by blast
  show ?thesis
  proof (cases "b = [] \<or> n = 0")
    case True
    then have "FindAndDelete s b = (s, 0)" by (auto simp: FindAndDelete_def loop)
    with whole show ?thesis by (intro exI [of _ "[(s, 0)]"]) simp
  next
    case False
    then have result: "FindAndDelete s b = (result @ drop pc2 s, n)" by (simp add: FindAndDelete_def loop)
    have "s = take pc2 s @ drop pc2 s" by simp
    then have "s = with_copies b (ps @ [(drop pc2 s, 0)])" using ps(1) by (simp add: with_copies_def)
    with ps show ?thesis by (intro exI [of _ "ps @ [(drop pc2 s, 0)]"]) (simp add: result)
  qed
qed

section \<open>Counting signature operations\<close>

lemma sigop_weights: "unat (witness_opcode k) < 256" "k \<le> 16 \<Longrightarrow> unat ((word_of_int (int k)) :: u32) = k"
  using unsigned_less [of "witness_opcode k", where 'a = nat] by (simp_all add: unat_of_nat)

lemma GetSigOpCount_from_bounds:
  assumes "unat n1 \<le> unat n2" and "unat n2 + 20 * (length s - pc) < 2 ^ 32"
  shows "unat (GetSigOpCount_from s True pc l n1) \<le> unat (GetSigOpCount_from s False pc l n2) \<and>
    unat (GetSigOpCount_from s False pc l n2) \<le> unat n2 + 20 * (length s - pc)"
  using assms
proof (induction "length s - pc" arbitrary: pc l n1 n2 rule: less_induct)
  case (less pc l n1 n2)
  obtain ok pc' opcode vch where get: "GetOp2 s pc = (ok, pc', opcode, vch)" by (metis prod_cases4)
  show ?case
  proof (cases "pc < length s \<and> ok")
    case False
    then show ?thesis using less(2,3) get by (auto simp: GetSigOpCount_from.simps [of s _ pc l])
  next
    case True
    then have p: "pc < pc'" "pc' \<le> length s" using GetOp2_True [of s pc] get by auto
    define w where "w b = (if opcode = OP_CHECKSIG \<or> opcode = OP_CHECKSIGVERIFY then 1
      else if opcode = OP_CHECKMULTISIG \<or> opcode = OP_CHECKMULTISIGVERIFY then
        (if b \<and> l \<ge> OP_1 \<and> l \<le> OP_16 then nat (uint l - 0x50) else 20) else 0 :: nat)" for b
    have lr: "uint l - 0x50 \<le> 16" "0 \<le> uint l - 0x50" if "l \<ge> OP_1" "l \<le> OP_16"
      using that by (simp_all add: opcode word_le_def)
    have w: "w True \<le> w False" "w False \<le> 20" using lr by (auto simp: w_def)
    define step where "step b n = (if opcode = OP_CHECKSIG \<or> opcode = OP_CHECKSIGVERIFY then n + 1
      else if opcode = OP_CHECKMULTISIG \<or> opcode = OP_CHECKMULTISIGVERIFY then
        (if b \<and> l \<ge> OP_1 \<and> l \<le> OP_16 then (case DecodeOP_N l of Inr k \<Rightarrow> n + word_of_int k | Inl _ \<Rightarrow> n)
         else n + of_nat MAX_PUBKEYS_PER_MULTISIG) else n :: u32)" for b n
    have wrap: "unat (n + of_nat k :: u32) = unat n + k" if "unat n + k < 2 ^ 32" for n :: u32 and k
      using that by (simp add: unat_word_ariths unat_of_nat)
    have step_eq: "step b n = n + of_nat (w b)" for b n
    proof -
      have "DecodeOP_N l = Inr (uint l - 0x50)" if "l \<ge> OP_1" "l \<le> OP_16"
        using that by (auto simp: DecodeOP_N_def opcode word_le_def)
      then show ?thesis using lr by (auto simp: step_def w_def MAX_PUBKEYS_PER_MULTISIG_def)
    qed
    have room: "unat n2 + w False + 20 * (length s - pc') < 2 ^ 32" using less(3) w p by linarith
    have u: "unat (step False n2) = unat n2 + w False" "unat (step True n1) = unat n1 + w True"
      using room w less(2) by (simp_all add: step_eq wrap)
    have eq: "GetSigOpCount_from s b pc l n = GetSigOpCount_from s b pc' opcode (step b n)" for b n
      using True get by (simp add: GetSigOpCount_from.simps [of s b pc l n] step_def Let_def)
    have le: "unat (step True n1) \<le> unat (step False n2)" "unat (step False n2) + 20 * (length s - pc') < 2 ^ 32"
      using u w less(2) room by simp_all
    have "unat (GetSigOpCount_from s True pc' opcode (step True n1)) \<le> unat (GetSigOpCount_from s False pc' opcode (step False n2)) \<and>
      unat (GetSigOpCount_from s False pc' opcode (step False n2)) \<le> unat (step False n2) + 20 * (length s - pc')"
      by (rule less(1) [OF _ le]) (use p in simp)
    then show ?thesis unfolding eq using u w p by linarith
  qed
qed

text \<open>
  The accurate count of signature operations is never above the old one, which is at most twenty for each byte; for scripts below
  the size where the 32-bit counter could wrap.
\<close>

theorem GetSigOpCount_bounds:
  assumes "20 * length s < 2 ^ 32"
  shows "unat (GetSigOpCount s True) \<le> unat (GetSigOpCount s False) \<and> unat (GetSigOpCount s False) \<le> 20 * length s"
  using GetSigOpCount_from_bounds [of 0 0 s 0 OP_INVALIDOPCODE] assms by (simp add: GetSigOpCount_def)

theorem GetSigOpCount_bounds_witness:
  "20 * length [OP_2, OP_CHECKMULTISIG] < 2 ^ 32 \<and> unat (GetSigOpCount [OP_2, OP_CHECKMULTISIG] True) \<le> unat (GetSigOpCount [OP_2, OP_CHECKMULTISIG] False) \<and>
   unat (GetSigOpCount [OP_2, OP_CHECKMULTISIG] False) \<le> 20 * length [OP_2, OP_CHECKMULTISIG]"
  using GetSigOpCount_bounds [of "[OP_2, OP_CHECKMULTISIG]"] by simp

section \<open>Asset scripts\<close>

text \<open>
  The output script of every asset transfer fails \<^verbatim>\<open>HasValidOps\<close>, since the asset opcode is above the maximum the test compares with.
\<close>

theorem HasValidOps_asset_script:
  assumes "length h = 20" and "length data < 2 ^ 31"
  shows "\<not> HasValidOps ([OP_DUP, OP_HASH160, 0x14] @ h @ [OP_EQUALVERIFY, OP_CHECKSIG] @ OP_UNEMP_ASSET # data)"
proof -
  define s where "s = [OP_DUP, OP_HASH160, 0x14] @ h @ [OP_EQUALVERIFY, OP_CHECKSIG] @ OP_UNEMP_ASSET # data"
  have len: "length s = 26 + length data" "length s < 2 ^ 32" using assms by (simp_all add: s_def)
  have n: "s ! 0 = OP_DUP" "s ! 1 = OP_HASH160" "s ! 2 = 0x14" "s ! 23 = OP_EQUALVERIFY" "s ! 24 = OP_CHECKSIG" "s ! 25 = OP_UNEMP_ASSET"
    using assms(1) by (simp_all add: s_def nth_append)
  have g: "GetOp2 s 0 = (True, 1, OP_DUP, [])" "GetOp2 s 1 = (True, 2, OP_HASH160, [])" "GetOp2 s 23 = (True, 24, OP_EQUALVERIFY, [])"
    "GetOp2 s 24 = (True, 25, OP_CHECKSIG, [])"
    using GetOp2_plain [of 0 s] GetOp2_plain [of 1 s] GetOp2_plain [of 23 s] GetOp2_plain [of 24 s] len n by (simp_all add: opcode)
  have push: "GetOp2 s 2 = (True, 23, 0x14, take 20 (drop 3 s))" using GetOp2_direct [of s 2 "0x14"] len n by (simp add: opcode)
  have asset: "GetOp2 s 25 = (True, length s, OP_UNEMP_ASSET, drop 26 s)" using GetOp2_asset [of s 25] len n by simp
  have "\<not> HasValidOps_from s 25" using len by (simp add: HasValidOps_from.simps [of s 25] asset MAX_OPCODE_def opcode)
  then have "\<not> HasValidOps_from s 24" using len by (simp add: HasValidOps_from.simps [of s 24] g)
  then have "\<not> HasValidOps_from s 23" using len by (simp add: HasValidOps_from.simps [of s 23] g)
  then have "\<not> HasValidOps_from s 2" using len by (simp add: HasValidOps_from.simps [of s 2] push)
  then have "\<not> HasValidOps_from s 1" using len by (simp add: HasValidOps_from.simps [of s 1] g MAX_OPCODE_def opcode del: One_nat_def)
  then have "\<not> HasValidOps_from s 0" using len by (simp add: HasValidOps_from.simps [of s 0] g del: One_nat_def)
  then show ?thesis by (simp add: HasValidOps_def s_def)
qed

end
