(* ===== verification/Compressor.thy ===== *)
theory Compressor
  imports Coins Serialize Script
begin

text \<open>
  The disk form of unspent coins and undo data: \<^verbatim>\<open>src/compressor.h/.cpp\<close>, the serializers of \<^verbatim>\<open>Coin\<close> in \<^verbatim>\<open>src/coins.h\<close>
  and of \<^verbatim>\<open>src/undo.h\<close>. Amounts are divided by powers of ten, the common scripts are replaced by a number and a hash.

  Public keys are checked and expanded by secp256k1, a library: \<open>parse\<close> gives the point of an encoded key, \<open>encode\<close> its
  uncompressed encoding. A public key object is the byte string it holds; an invalid one holds \<open>[0xFF]\<close>.
\<close>

section \<open>Amounts\<close>

function CompressAmount_loop :: "u64 \<Rightarrow> nat \<Rightarrow> u64 \<times> nat" where
  "CompressAmount_loop n e = (if n mod 10 = 0 \<and> e < 9 then CompressAmount_loop (n div 10) (e + 1) else (n, e))"
  by pat_completeness auto
termination by (relation "measure (\<lambda>(n, e). 10 - e)") auto

declare CompressAmount_loop.simps [simp del]

text \<open>\<open>None\<close> is the failed assertion on the last digit.\<close>

definition CompressAmount :: "u64 \<Rightarrow> u64 option" where
  "CompressAmount n =
    (if n = 0 then Some 0
     else
       (let (n, e) = CompressAmount_loop n 0
        in if e < 9 then
             (let d = n mod 10
              in if d \<ge> 1 \<and> d \<le> 9 then Some (1 + (n div 10 * 9 + d - 1) * 10 + of_nat e) else None)
           else Some (1 + (n - 1) * 10 + 9)))"

primrec DecompressAmount_loop :: "u64 \<Rightarrow> nat \<Rightarrow> u64" where
  "DecompressAmount_loop n 0 = n"
| "DecompressAmount_loop n (Suc e) = DecompressAmount_loop (n * 10) e"

definition DecompressAmount :: "u64 \<Rightarrow> u64" where
  "DecompressAmount x =
    (if x = 0 then 0
     else
       (let x = x - 1; e = unat (x mod 10); x = x div 10;
            n = (if e < 9 then (let d = x mod 9 + 1; x = x div 9 in x * 10 + d) else x + 1)
        in DecompressAmount_loop n e))"

section \<open>Scripts\<close>

definition CPubKey_GetLen :: "byte \<Rightarrow> nat" where
  "CPubKey_GetLen chHeader =
    (if chHeader = 2 \<or> chHeader = 3 then 33 else if chHeader = 4 \<or> chHeader = 6 \<or> chHeader = 7 then 65 else 0)"

definition CPubKey_Set :: "bytes \<Rightarrow> bytes" where
  "CPubKey_Set p = (let len = (if p = [] then 0 else CPubKey_GetLen (p ! 0)) in if len \<noteq> 0 \<and> len = length p then p else [0xFF])"

definition CPubKey_size :: "bytes \<Rightarrow> nat" where
  "CPubKey_size vch = CPubKey_GetLen (vch ! 0)"

record 'k secp256k1 =
  ec_parse :: "bytes \<Rightarrow> 'k option"
  ec_uncompressed :: "'k \<Rightarrow> bytes"

definition IsFullyValid :: "'k secp256k1 \<Rightarrow> bytes \<Rightarrow> bool" where
  "IsFullyValid secp vch \<longleftrightarrow> CPubKey_size vch > 0 \<and> ec_parse secp vch \<noteq> None"

definition CPubKey_Decompress :: "'k secp256k1 \<Rightarrow> bytes \<Rightarrow> bytes option" where
  "CPubKey_Decompress secp vch =
    (if CPubKey_size vch = 0 then None
     else map_option (\<lambda>pubkey. CPubKey_Set (ec_uncompressed secp pubkey)) (ec_parse secp vch))"

definition IsToKeyID :: "script \<Rightarrow> bytes option" where
  "IsToKeyID s =
    (if length s = 25 \<and> s ! 0 = OP_DUP \<and> s ! 1 = OP_HASH160 \<and> s ! 2 = 20 \<and> s ! 23 = OP_EQUALVERIFY \<and> s ! 24 = OP_CHECKSIG
     then Some (take 20 (drop 3 s)) else None)"

definition IsToScriptID :: "script \<Rightarrow> bytes option" where
  "IsToScriptID s =
    (if length s = 23 \<and> s ! 0 = OP_HASH160 \<and> s ! 1 = 20 \<and> s ! 22 = OP_EQUAL then Some (take 20 (drop 2 s)) else None)"

definition IsToPubKey :: "'k secp256k1 \<Rightarrow> script \<Rightarrow> bytes option" where
  "IsToPubKey secp s =
    (if length s = 35 \<and> s ! 0 = 33 \<and> s ! 34 = OP_CHECKSIG \<and> (s ! 1 = 2 \<or> s ! 1 = 3) then Some (CPubKey_Set (take 33 (drop 1 s)))
     else if length s = 67 \<and> s ! 0 = 65 \<and> s ! 66 = OP_CHECKSIG \<and> s ! 1 = 4 then
       (let pubkey = CPubKey_Set (take 65 (drop 1 s)) in if IsFullyValid secp pubkey then Some pubkey else None)
     else None)"

definition Compress :: "'k secp256k1 \<Rightarrow> script \<Rightarrow> bytes option" where
  "Compress secp s =
    (case IsToKeyID s of
       Some keyID \<Rightarrow> Some (0 # keyID)
     | None \<Rightarrow>
         (case IsToScriptID s of
            Some scriptID \<Rightarrow> Some (1 # scriptID)
          | None \<Rightarrow>
              (case IsToPubKey secp s of
                 Some pubkey \<Rightarrow>
                   if pubkey ! 0 = 2 \<or> pubkey ! 0 = 3 then Some (pubkey ! 0 # take 32 (drop 1 pubkey))
                   else if pubkey ! 0 = 4 then Some ((4 OR (pubkey ! 64 AND 1)) # take 32 (drop 1 pubkey))
                   else None
               | None \<Rightarrow> None)))"

definition GetSpecialSize :: "u32 \<Rightarrow> nat" where
  "GetSpecialSize nSize = (if nSize = 0 \<or> nSize = 1 then 20 else if nSize = 2 \<or> nSize = 3 \<or> nSize = 4 \<or> nSize = 5 then 32 else 0)"

text \<open>The result of the call and the script; \<open>None\<close> is the failed assertion on the size of the expanded key.\<close>

definition Decompress :: "'k secp256k1 \<Rightarrow> u32 \<Rightarrow> bytes \<Rightarrow> script \<Rightarrow> (bool \<times> script) option" where
  "Decompress secp nSize in_data s =
    (if nSize = 0 then Some (True, [OP_DUP, OP_HASH160, 20] @ take 20 in_data @ [OP_EQUALVERIFY, OP_CHECKSIG])
     else if nSize = 1 then Some (True, [OP_HASH160, 20] @ take 20 in_data @ [OP_EQUAL])
     else if nSize = 2 \<or> nSize = 3 then Some (True, [33, ucast nSize] @ take 32 in_data @ [OP_CHECKSIG])
     else if nSize = 4 \<or> nSize = 5 then
       (case CPubKey_Decompress secp (CPubKey_Set (ucast (nSize - 2) # take 32 in_data)) of
          None \<Rightarrow> Some (False, s)
        | Some pubkey \<Rightarrow> if CPubKey_size pubkey \<noteq> 65 then None else Some (True, [65] @ pubkey @ [OP_CHECKSIG]))
     else Some (False, s))"

definition nSpecialScripts :: u32 where "nSpecialScripts = 6"

definition CScriptCompressor_Serialize :: "'k secp256k1 \<Rightarrow> script \<Rightarrow> bytes" where
  "CScriptCompressor_Serialize secp s =
    (case Compress secp s of
       Some compr \<Rightarrow> compr
     | None \<Rightarrow> WriteVarInt (of_nat (length s) + nSpecialScripts :: u32) @ s)"

definition CScriptCompressor_Unserialize :: "'k secp256k1 \<Rightarrow> script \<Rightarrow> bytes \<Rightarrow> (script \<times> bytes) option" where
  "CScriptCompressor_Unserialize secp old s = do {
    (nSize :: u32, s) \<leftarrow> ReadVarInt s;
    if nSize < nSpecialScripts then do {
      (vch, s) \<leftarrow> stream_read (GetSpecialSize nSize) s;
      (r, script) \<leftarrow> Decompress secp nSize vch old;
      Some (script, s) }
    else do {
      let nSize = nSize - nSpecialScripts;
      if unat nSize > MAX_SCRIPT_SIZE then
        if bit nSize 31 then None
        else do {
          (vch, s) \<leftarrow> stream_read (unat nSize) s;
          Some (old @ [OP_RETURN], s) }
      else stream_read (unat nSize) s } }"

section \<open>Outputs, coins and undo data\<close>

text \<open>\<^verbatim>\<open>CTxOutCompressor\<close>; the amount is a signed 64-bit integer.\<close>

definition CTxOut_write :: "'k secp256k1 \<Rightarrow> CTxOut \<Rightarrow> bytes option" where
  "CTxOut_write secp txout =
    map_option (\<lambda>nVal. WriteVarInt nVal @ CScriptCompressor_Serialize secp (scriptPubKey txout)) (CompressAmount (word_of_int (nValue txout)))"

definition CTxOut_read :: "'k secp256k1 \<Rightarrow> bytes \<Rightarrow> (CTxOut \<times> bytes) option" where
  "CTxOut_read secp s = do {
    (nVal, s) \<leftarrow> ReadVarInt s;
    (script, s) \<leftarrow> CScriptCompressor_Unserialize secp [] s;
    Some (\<lparr>nValue = sint (DecompressAmount nVal), scriptPubKey = script\<rparr>, s) }"

text \<open>
  The height is a bit-field of 31 bits, so it is promoted to \<^verbatim>\<open>int\<close> and \<^verbatim>\<open>nHeight * 2\<close> is a signed product: its overflow, from height
  \<open>2 ^ 30\<close> on, is undefined and here \<open>None\<close>. For a coin the result becomes a \<^verbatim>\<open>uint32_t\<close>; for undo data it is written as an \<^verbatim>\<open>int\<close>, which
  gives the same bytes for a value that is not negative.
\<close>

definition Coin_code :: "Coin \<Rightarrow> u32 option" where
  "Coin_code c =
    (let twice = uint (coin_nHeight c) * 2
     in if twice \<ge> 2 ^ 31 then None else Some (word_of_int (twice + (if fCoinBase c then 1 else 0))))"

definition Coin_Serialize :: "'k secp256k1 \<Rightarrow> Coin \<Rightarrow> bytes option" where
  "Coin_Serialize secp c =
    (if IsSpent c then None else do {
       code \<leftarrow> Coin_code c;
       out \<leftarrow> CTxOut_write secp (coin_out c);
       Some (WriteVarInt code @ out) })"

definition Coin_Unserialize :: "'k secp256k1 \<Rightarrow> bytes \<Rightarrow> (Coin \<times> bytes) option" where
  "Coin_Unserialize secp s = do {
    (code :: u32, s) \<leftarrow> ReadVarInt s;
    (txout, s) \<leftarrow> CTxOut_read secp s;
    Some (\<lparr>coin_out = txout, fCoinBase = (code AND 1 \<noteq> 0), coin_nHeight = ucast (drop_bit 1 code)\<rparr>, s) }"

definition TxInUndo_Serialize :: "'k secp256k1 \<Rightarrow> Coin \<Rightarrow> bytes option" where
  "TxInUndo_Serialize secp txout = do {
    code \<leftarrow> Coin_code txout;
    out \<leftarrow> CTxOut_write secp (coin_out txout);
    Some (WriteVarInt code @ (if coin_nHeight txout > 0 then [0] else []) @ out) }"

text \<open>The dummy version is an \<^verbatim>\<open>int\<close>, whose non-negative values are the words of 31 bits.\<close>

definition TxInUndo_Unserialize :: "'k secp256k1 \<Rightarrow> bytes \<Rightarrow> (Coin \<times> bytes) option" where
  "TxInUndo_Unserialize secp s = do {
    (nCode :: u32, s) \<leftarrow> ReadVarInt s;
    (nVersionDummy :: 31 word, s) \<leftarrow> (if (ucast (nCode div 2) :: 31 word) > 0 then ReadVarInt s else Some (0, s));
    (txout, s) \<leftarrow> CTxOut_read secp s;
    Some (\<lparr>coin_out = txout, fCoinBase = (nCode AND 1 \<noteq> 0), coin_nHeight = ucast (nCode div 2)\<rparr>, s) }"

primrec CTxUndo_write_loop :: "'k secp256k1 \<Rightarrow> Coin list \<Rightarrow> bytes option" where
  "CTxUndo_write_loop secp [] = Some []"
| "CTxUndo_write_loop secp (x # xs) = do {
    a \<leftarrow> TxInUndo_Serialize secp x;
    b \<leftarrow> CTxUndo_write_loop secp xs;
    Some (a @ b) }"

definition CTxUndo_Serialize :: "'k secp256k1 \<Rightarrow> Coin list \<Rightarrow> bytes option" where
  "CTxUndo_Serialize secp vprevout =
    map_option (\<lambda>b. WriteCompactSize (of_nat (length vprevout)) @ b) (CTxUndo_write_loop secp vprevout)"

definition MIN_TRANSACTION_INPUT_WEIGHT :: nat where "MIN_TRANSACTION_INPUT_WEIGHT = 4 * 41"
definition MAX_BLOCK_WEIGHT :: nat where "MAX_BLOCK_WEIGHT = 4000000"
definition MAX_BLOCK_WEIGHT_RIP2 :: nat where "MAX_BLOCK_WEIGHT_RIP2 = 8000000"

primrec CTxUndo_read_loop :: "'k secp256k1 \<Rightarrow> nat \<Rightarrow> bytes \<Rightarrow> (Coin list \<times> bytes) option" where
  "CTxUndo_read_loop secp 0 s = Some ([], s)"
| "CTxUndo_read_loop secp (Suc k) s = do {
    (x, s) \<leftarrow> TxInUndo_Unserialize secp s;
    (xs, s) \<leftarrow> CTxUndo_read_loop secp k s;
    Some (x # xs, s) }"

definition CTxUndo_Unserialize :: "'k secp256k1 \<Rightarrow> bool \<Rightarrow> bytes \<Rightarrow> (Coin list \<times> bytes) option" where
  "CTxUndo_Unserialize secp fAssetsIsActive s = do {
    (nCount, s) \<leftarrow> ReadCompactSize s;
    if fAssetsIsActive then
      if unat nCount > MAX_BLOCK_WEIGHT_RIP2 div MIN_TRANSACTION_INPUT_WEIGHT then None else CTxUndo_read_loop secp (unat nCount) s
    else
      if unat nCount > MAX_BLOCK_WEIGHT div MIN_TRANSACTION_INPUT_WEIGHT then None else CTxUndo_read_loop secp (unat nCount) s }"

end
