(* ===== verification/Compress_Round.thy ===== *)
theory Compress_Round
  imports Compressor
begin

text \<open>
  What is stored is read back: amounts, scripts, coins and undo data survive their compressed form.
\<close>

section \<open>Amounts\<close>

lemma u64_div_mod:
  assumes "a < 2 ^ 64" and "b < 2 ^ 64"
  shows "(of_nat a :: u64) div of_nat b = of_nat (a div b)" and "(of_nat a :: u64) mod of_nat b = of_nat (a mod b)"
proof -
  have "a div b < 2 ^ 64" "a mod b < 2 ^ 64" using assms(1) div_le_dividend [of a b] mod_less_eq_dividend [of a b] by linarith+
  then show "(of_nat a :: u64) div of_nat b = of_nat (a div b)" "(of_nat a :: u64) mod of_nat b = of_nat (a mod b)"
    using assms by (simp_all add: word_unat_eq_iff unat_div_distrib unat_mod_distrib unat_of_nat)
qed

lemma u64_div_mod_numeral:
  assumes "a < 2 ^ 64" and "numeral k < (2 ^ 64 :: nat)"
  shows "(of_nat a :: u64) div numeral k = of_nat (a div numeral k)" and "(of_nat a :: u64) mod numeral k = of_nat (a mod numeral k)"
  using u64_div_mod [OF assms] by simp_all

text \<open>The two functions on natural numbers: the mantissa \<open>m\<close> and the exponent \<open>e\<close> of the amount.\<close>

definition amount_code :: "nat \<Rightarrow> nat \<Rightarrow> nat" where
  "amount_code m e = (if e < 9 then 1 + (m div 10 * 9 + (m mod 10 - 1)) * 10 + e else 1 + (m - 1) * 10 + 9)"

lemma CompressAmount_loop_parts:
  assumes "CompressAmount_loop n e = (n', e')" and "n \<noteq> 0" and "e \<le> 9"
  shows "unat n = unat n' * 10 ^ (e' - e) \<and> e \<le> e' \<and> e' \<le> 9 \<and> (e' < 9 \<longrightarrow> unat n' mod 10 \<noteq> 0)"
  using assms
proof (induction n e rule: CompressAmount_loop.induct)
  case (1 n e)
  have mod: "unat (n mod 10) = unat n mod 10" and div: "unat (n div 10) = unat n div 10"
    by (simp_all add: unat_mod_distrib unat_div_distrib)
  show ?case
  proof (cases "n mod 10 = 0 \<and> e < 9")
    case True
    then have m: "unat n mod 10 = 0" using mod by simp
    have "n div 10 \<noteq> 0"
    proof
      assume "n div 10 = 0"
      then have "unat n div 10 = 0" using div by simp
      with m have "unat n = 0" by (metis div_mult_mod_eq add.right_neutral mult_0)
      with 1(3) show False by (simp add: unat_eq_zero)
    qed
    with 1(1) [OF True] 1(2,4) True have IH: "unat n div 10 = unat n' * 10 ^ (e' - (e + 1))" "e + 1 \<le> e'" "e' \<le> 9"
      "e' < 9 \<longrightarrow> unat n' mod 10 \<noteq> 0"
      by (auto simp: div CompressAmount_loop.simps [of n e])
    have "unat n = unat n div 10 * 10" using m by (metis div_mult_mod_eq add.right_neutral)
    also have "\<dots> = unat n' * (10 * 10 ^ (e' - (e + 1)))" by (simp add: IH(1))
    also have "10 * 10 ^ (e' - (e + 1)) = (10 :: nat) ^ (e' - e)"
      using IH(2) by (metis Suc_diff_Suc Suc_eq_plus1 Suc_le_lessD power_Suc)
    finally show ?thesis using IH by simp
  next
    case False
    then have "n' = n" "e' = e" using 1(2) by (auto simp: CompressAmount_loop.simps [of n e])
    with False 1(4) mod show ?thesis by (auto simp: unat_eq_zero [symmetric])
  qed
qed

lemma CompressAmount_parts:
  assumes "n \<noteq> 0"
  obtains m e where "unat n = m * 10 ^ e" and "e \<le> 9" and "m \<noteq> 0" and "e < 9 \<longrightarrow> m mod 10 \<noteq> 0"
    and "CompressAmount n = Some (of_nat (amount_code m e))"
proof -
  obtain n' e where loop: "CompressAmount_loop n 0 = (n', e)" by (metis surj_pair)
  define m where "m = unat n'"
  have parts: "unat n = m * 10 ^ e" "e \<le> 9" "e < 9 \<longrightarrow> m mod 10 \<noteq> 0"
    using CompressAmount_loop_parts [OF loop assms] by (simp_all add: m_def)
  have m0: "m \<noteq> 0" using parts(1) assms by (metis mult_0 unat_eq_zero)
  have m: "m < 2 ^ 64" and n': "n' = of_nat m" using unsigned_less [of n', where 'a = nat] by (simp_all add: m_def)
  have "CompressAmount n = Some (of_nat (amount_code m e))"
  proof (cases "e < 9")
    case True
    define d where "d = m mod 10"
    have d: "1 \<le> d" "d < 10" using parts(3) True by (simp_all add: d_def Suc_leI)
    have "(of_nat d :: u64) \<ge> 1 \<and> (of_nat d :: u64) \<le> 9"
      using d by (simp add: word_le_nat_alt unat_of_nat)
    then show ?thesis
      using assms loop True d(1) u64_div_mod_numeral [OF m, of "num.Bit0 (num.Bit1 (num.Bit0 num.One))"]
      by (simp add: CompressAmount_def n' amount_code_def d_def [symmetric] of_nat_diff algebra_simps)
  next
    case False
    then show ?thesis using assms loop m0 by (simp add: CompressAmount_def n' amount_code_def of_nat_diff)
  qed
  with parts m0 that show ?thesis by blast
qed

lemma DecompressAmount_loop_power: "DecompressAmount_loop n e = n * 10 ^ e"
  by (induction e arbitrary: n) simp_all

lemma DecompressAmount_code:
  assumes "amount_code m e < 2 ^ 64" and "e \<le> 9" and "m \<noteq> 0" and "e < 9 \<longrightarrow> m mod 10 \<noteq> 0"
  shows "DecompressAmount (of_nat (amount_code m e)) = of_nat m * 10 ^ e"
proof -
  define y where "y = amount_code m e - 1"
  have code: "amount_code m e = Suc y" by (simp add: y_def amount_code_def)
  have y: "y < 2 ^ 64" "y div 10 < 2 ^ 64" using assms(1) code div_le_dividend [of y 10] by linarith+
  have nz: "(of_nat (amount_code m e) :: u64) \<noteq> 0" using assms(1) code by (simp add: word_unat_eq_iff unat_of_nat del: of_nat_Suc)
  have pred: "(of_nat (amount_code m e) :: u64) - 1 = of_nat y" by (simp add: code)
  have dm: "(of_nat y :: u64) mod 10 = of_nat (y mod 10)" "(of_nat y :: u64) div 10 = of_nat (y div 10)"
    "(of_nat (y div 10) :: u64) mod 9 = of_nat (y div 10 mod 9)" "(of_nat (y div 10) :: u64) div 9 = of_nat (y div 10 div 9)"
    using u64_div_mod_numeral [OF y(1)] u64_div_mod_numeral [OF y(2)] by simp_all
  have ye: "y mod 10 = e"
  proof (cases "e < 9")
    case True
    define k where "k = m div 10 * 9 + (m mod 10 - 1)"
    have "y = k * 10 + e" using True by (simp add: y_def amount_code_def k_def)
    with True show ?thesis by simp
  next
    case False
    then have "y = (m - 1) * 10 + 9" by (simp add: y_def amount_code_def)
    with False assms(2) show ?thesis by simp
  qed
  have ue: "unat (of_nat e :: u64) = e" using assms(2) by (simp add: unat_of_nat)
  have lo: "y div 10 div 9 * 10 + (y div 10 mod 9 + 1) = m" if "e < 9"
  proof -
    define q d where "q = m div 10" and "d = m mod 10 - 1"
    have m: "m = q * 10 + Suc d" "d < 9" using assms(4) that by (simp_all add: q_def d_def)
    have "y = (q * 9 + d) * 10 + e" using that by (simp add: y_def amount_code_def q_def d_def)
    then have "y div 10 = q * 9 + d" using that by simp
    with m show ?thesis by simp
  qed
  have hi: "y div 10 + 1 = m" if "\<not> e < 9"
  proof -
    have "y = (m - 1) * 10 + 9" using that by (simp add: y_def amount_code_def)
    then show ?thesis using assms(3) by simp
  qed
  show ?thesis
  proof (cases "e < 9")
    case True
    have "DecompressAmount (of_nat (amount_code m e)) = DecompressAmount_loop (of_nat (y div 10 div 9) * 10 + (of_nat (y div 10 mod 9) + 1)) e"
      unfolding DecompressAmount_def Let_def pred by (simp only: nz dm ye ue True if_True if_False)
    also have "of_nat (y div 10 div 9) * 10 + (of_nat (y div 10 mod 9) + 1) = (of_nat (y div 10 div 9 * 10 + (y div 10 mod 9 + 1)) :: u64)"
      by (simp only: of_nat_add of_nat_mult of_nat_numeral of_nat_1)
    finally show ?thesis by (simp only: lo [OF True] DecompressAmount_loop_power)
  next
    case False
    have "DecompressAmount (of_nat (amount_code m e)) = DecompressAmount_loop (of_nat (y div 10) + 1) e"
      unfolding DecompressAmount_def Let_def pred by (simp only: nz dm ye ue False if_True if_False)
    also have "of_nat (y div 10) + 1 = (of_nat (y div 10 + 1) :: u64)" by (simp only: of_nat_add of_nat_1)
    finally show ?thesis by (simp only: hi [OF False] DecompressAmount_loop_power)
  qed
qed

lemma amount_code_bound:
  assumes "m \<noteq> 0" and "e < 9 \<longrightarrow> m mod 10 \<noteq> 0" and "e \<le> 9"
  shows "amount_code m e \<le> 9 * (m * 10 ^ e)"
proof (cases "e < 9")
  case True
  have "e + 9 \<le> 9 * 10 ^ e" for e :: nat
    by (induction e) auto
  then have e: "e \<le> 9 * (10 ^ e - 1)" by (simp add: diff_mult_distrib2 le_diff_conv2)
  define q d where "q = m div 10" and "d = m mod 10 - 1"
  have m: "m = q * 10 + Suc d" "m mod 10 = Suc d" using assms(2) True by (simp_all add: q_def d_def)
  have "amount_code m e = 1 + (q * 9 + d) * 10 + e" using True by (simp add: amount_code_def q_def d_def)
  also have "\<dots> = 9 * m + m mod 10 - 9 + e" unfolding m(2) by (simp add: m(1))
  finally have "amount_code m e = 9 * m + m mod 10 - 9 + e" .
  also have "\<dots> \<le> 9 * m + 9 * (10 ^ e - 1)"
  proof -
    have "m mod 10 \<le> 9" by simp
    with e show ?thesis by linarith
  qed
  also have "\<dots> \<le> 9 * m + 9 * m * (10 ^ e - 1)" using assms(1) by simp
  also have "\<dots> = 9 * (m * 10 ^ e)" by (simp add: algebra_simps diff_mult_distrib2)
  finally show ?thesis .
next
  case False
  then have "e = 9" using assms(3) by simp
  then show ?thesis using assms(1) by (simp add: amount_code_def)
qed

text \<open>
  Every amount up to one ninth of the range of 64 bits, which is twenty times \<^verbatim>\<open>MAX_MONEY\<close>, is compressed without overflow or failed
  assertion, to a number of at most nine times its size, and decompressed to itself.
\<close>

lemma CompressAmount_roundtrip:
  assumes "9 * unat n < 2 ^ 64"
  shows "\<exists>x. CompressAmount n = Some x \<and> DecompressAmount x = n \<and> unat x \<le> 9 * unat n"
proof (cases "n = 0")
  case True
  then show ?thesis by (simp add: CompressAmount_def DecompressAmount_def)
next
  case False
  obtain m e where p: "unat n = m * 10 ^ e" "e \<le> 9" "m \<noteq> 0" "e < 9 \<longrightarrow> m mod 10 \<noteq> 0" "CompressAmount n = Some (of_nat (amount_code m e))"
    using CompressAmount_parts [OF False] .
  have b: "amount_code m e \<le> 9 * unat n" using amount_code_bound [OF p(3,4,2)] p(1) by simp
  then have lt: "amount_code m e < 2 ^ 64" using assms by linarith
  have "DecompressAmount (of_nat (amount_code m e)) = of_nat m * 10 ^ e" by (rule DecompressAmount_code [OF lt p(2-4)])
  also have "\<dots> = of_nat (unat n)" by (simp add: p(1))
  finally show ?thesis using p(5) b lt by (simp add: unat_of_nat)
qed

section \<open>Scripts\<close>

lemma ReadVarInt_WriteVarInt: "7 < LENGTH('a) \<Longrightarrow> ReadVarInt (WriteVarInt n @ s) = Some (n :: 'a::len word, s)"
  by (simp add: ReadVarInt_def WriteVarInt_bytes read_number)

lemma ReadVarInt_small: "b \<in> {0, 1, 2, 3, 4, 5} \<Longrightarrow> ReadVarInt ((b :: byte) # s) = Some (ucast b :: u32, s)"
  by (auto simp: ReadVarInt_def)

lemma list_split3: "length s = a + n + b \<Longrightarrow> s = take a s @ take n (drop a s) @ drop (a + n) s"
  by (metis append_take_drop_id drop_drop add.commute)

lemma stream_read_append: "length a = n \<Longrightarrow> stream_read n (a @ b) = Some (a, b)"
  by (auto simp: stream_read_def)

lemma IsToKeyID_script:
  assumes "IsToKeyID s = Some keyID"
  shows "s = [OP_DUP, OP_HASH160, 20] @ keyID @ [OP_EQUALVERIFY, OP_CHECKSIG]" and "length keyID = 20"
proof -
  have len: "length s = 25" and id: "keyID = take 20 (drop 3 s)"
    and ops: "s ! 0 = OP_DUP" "s ! 1 = OP_HASH160" "s ! 2 = 20" "s ! 23 = OP_EQUALVERIFY" "s ! 24 = OP_CHECKSIG"
    using assms by (auto simp: IsToKeyID_def split: if_splits)
  have "take 3 s = [s ! 0, s ! 1, s ! 2]" "drop 23 s = [s ! 23, s ! 24]"
    using len by (auto simp: list_eq_iff_nth_eq nth_Cons less_Suc_eq numeral_eq_Suc split: nat.split)
  with list_split3 [of s 3 20 2] len id ops show "s = [OP_DUP, OP_HASH160, 20] @ keyID @ [OP_EQUALVERIFY, OP_CHECKSIG]" "length keyID = 20"
    by simp_all
qed

lemma IsToScriptID_script:
  assumes "IsToScriptID s = Some scriptID"
  shows "s = [OP_HASH160, 20] @ scriptID @ [OP_EQUAL]" and "length scriptID = 20"
proof -
  have len: "length s = 23" and id: "scriptID = take 20 (drop 2 s)"
    and ops: "s ! 0 = OP_HASH160" "s ! 1 = 20" "s ! 22 = OP_EQUAL"
    using assms by (auto simp: IsToScriptID_def split: if_splits)
  have "take 2 s = [s ! 0, s ! 1]" "drop 22 s = [s ! 22]"
    using len by (auto simp: list_eq_iff_nth_eq nth_Cons less_Suc_eq numeral_eq_Suc split: nat.split)
  with list_split3 [of s 2 20 1] len id ops show "s = [OP_HASH160, 20] @ scriptID @ [OP_EQUAL]" "length scriptID = 20" by simp_all
qed

text \<open>A script that pushes a key of \<open>n\<close> bytes after a length byte and ends with an operation.\<close>

lemma key_script_shape:
  assumes "length s = Suc (Suc (Suc n))"
  shows "s = [s ! 0] @ (s ! 1 # take n (drop 2 s)) @ [s ! (n + 2)]" and "take (Suc n) (drop 1 s) = s ! 1 # take n (drop 2 s)"
proof -
  obtain a b t where s: "s = a # b # t" and t: "length t = Suc n" using assms by (auto simp: length_Suc_conv)
  have "t = take n t @ [t ! n]" using take_Suc_conv_app_nth [of n t] t by simp
  then show "s = [s ! 0] @ (s ! 1 # take n (drop 2 s)) @ [s ! (n + 2)]" by (simp add: s)
  show "take (Suc n) (drop 1 s) = s ! 1 # take n (drop 2 s)" by (simp add: s)
qed

lemma CPubKey_Set_valid: "CPubKey_GetLen h = Suc (length k) \<Longrightarrow> CPubKey_Set (h # k) = h # k"
  by (simp add: CPubKey_Set_def)

lemma IsToPubKey_script:
  assumes "IsToPubKey secp s = Some pubkey"
  obtains h k where "pubkey = h # k" and "h = 2 \<or> h = 3" and "length k = 32" and "s = [33] @ pubkey @ [OP_CHECKSIG]"
  | k where "pubkey = 4 # k" and "length k = 64" and "s = [65] @ pubkey @ [OP_CHECKSIG]" and "ec_parse secp pubkey \<noteq> None"
proof -
  consider "length s = 35" "s ! 0 = 33" "s ! 34 = OP_CHECKSIG" "s ! 1 = 2 \<or> s ! 1 = 3" "pubkey = CPubKey_Set (take 33 (drop 1 s))"
    | "length s = 67" "s ! 0 = 65" "s ! 66 = OP_CHECKSIG" "s ! 1 = 4" "pubkey = CPubKey_Set (take 65 (drop 1 s))" "ec_parse secp pubkey \<noteq> None"
    using assms by (auto simp: IsToPubKey_def IsFullyValid_def Let_def split: if_splits)
  then show thesis
  proof cases
    case 1
    define k where "k = take 32 (drop 2 s)"
    have k: "length k = 32" using 1(1) by (simp add: k_def)
    have t: "take 33 (drop 1 s) = s ! 1 # k" and "s = [s ! 0] @ (s ! 1 # k) @ [s ! 34]"
      using key_script_shape [of s 32] 1(1) by (simp_all add: k_def)
    then have s: "s = [33] @ (s ! 1 # k) @ [OP_CHECKSIG]" by (simp only: 1(2,3))
    have "CPubKey_Set (s ! 1 # k) = s ! 1 # k" using 1(4) k by (intro CPubKey_Set_valid) (auto simp: CPubKey_GetLen_def)
    then have pk: "pubkey = s ! 1 # k" by (simp only: 1(5) t)
    show thesis by (rule that(1) [OF pk 1(4) k]) (use s in \<open>simp only: pk\<close>)
  next
    case 2
    define k where "k = take 64 (drop 2 s)"
    have k: "length k = 64" using 2(1) by (simp add: k_def)
    have t: "take 65 (drop 1 s) = s ! 1 # k" and "s = [s ! 0] @ (s ! 1 # k) @ [s ! 66]"
      using key_script_shape [of s 64] 2(1) by (simp_all add: k_def)
    then have s: "s = [65] @ (4 # k) @ [OP_CHECKSIG]" by (simp only: 2(2,3,4))
    have "CPubKey_Set (4 # k) = 4 # k" using k by (intro CPubKey_Set_valid) (simp add: CPubKey_GetLen_def)
    then have pk: "pubkey = 4 # k" by (simp only: 2(4,5) t)
    show thesis by (rule that(2) [OF pk k _ 2(6)]) (use s in \<open>simp only: pk\<close>)
  qed
qed

text \<open>
  What the code relies on in secp256k1: a key of 65 bytes that the library accepts is the uncompressed encoding of its point, and the
  compressed encoding, the parity of the last byte with the first coordinate, stands for the same point.
\<close>

definition secp_laws :: "'k secp256k1 \<Rightarrow> bool" where
  "secp_laws secp \<longleftrightarrow>
    (\<forall>key k. length key = 64 \<longrightarrow> ec_parse secp (4 # key) = Some k \<longrightarrow>
      ec_uncompressed secp k = 4 # key \<and> ec_parse secp ((2 + (key ! 63 AND 1)) # take 32 key) = Some k)"

lemma and_1_cases: "(b :: byte) AND 1 = 0 \<or> b AND 1 = 1"
  by (simp add: and_one_eq mod2_eq_if)

lemma CScriptCompressor_roundtrip:
  assumes laws: "secp_laws secp" and len: "length s \<le> MAX_SCRIPT_SIZE"
  shows "CScriptCompressor_Unserialize secp old (CScriptCompressor_Serialize secp s @ rest) = Some (s, rest)"
proof -
  note [simp] = CScriptCompressor_Serialize_def CScriptCompressor_Unserialize_def Compress_def nSpecialScripts_def
    GetSpecialSize_def Decompress_def ReadVarInt_small stream_read_append
  show ?thesis
  proof (cases "IsToKeyID s")
    case k: (Some keyID)
    from IsToKeyID_script [OF k] k show ?thesis by simp
  next
    case noKey: None
    show ?thesis
    proof (cases "IsToScriptID s")
      case k: (Some scriptID)
      from IsToScriptID_script [OF k] noKey k show ?thesis by simp
    next
      case noScript: None
      show ?thesis
      proof (cases "IsToPubKey secp s")
        case k: (Some pubkey)
        from k show ?thesis
        proof (cases rule: IsToPubKey_script)
          case (1 h key)
          then show ?thesis by (elim disjE) (use noKey noScript k in \<open>simp_all\<close>)
        next
          case (2 key)
          then obtain x where "ec_parse secp (4 # key) = Some x" by auto
          with laws 2(2) have x: "ec_uncompressed secp x = 4 # key" "ec_parse secp ((2 + (key ! 63 AND 1)) # take 32 key) = Some x"
            by (auto simp: secp_laws_def)
          from and_1_cases [of "key ! 63"] show ?thesis
            by (elim disjE) (use 2 x noKey noScript k in \<open>simp_all add: CPubKey_Decompress_def CPubKey_size_def CPubKey_Set_def CPubKey_GetLen_def\<close>)
        qed
      next
        case None
        have "length s < 2 ^ 31" using len by (simp add: MAX_SCRIPT_SIZE_def)
        then have "unat (of_nat (length s) + 6 :: u32) = length s + 6" "unat (of_nat (length s) :: u32) = length s"
          by (simp_all add: unat_word_ariths unat_of_nat)
        with None noKey noScript len show ?thesis
          by (simp add: ReadVarInt_WriteVarInt word_less_nat_alt MAX_SCRIPT_SIZE_def)
      qed
    qed
  qed
qed


section \<open>Coins\<close>

lemma Coin_code_overflow: "Coin_code c = None \<longleftrightarrow> 2 ^ 30 \<le> uint (coin_nHeight c)"
  by (simp add: Coin_code_def Let_def)

lemma Coin_code_fields:
  assumes "Coin_code c = Some code"
  shows "code AND 1 \<noteq> 0 \<longleftrightarrow> fCoinBase c" and "ucast (drop_bit 1 code) = coin_nHeight c" and "ucast (code div 2) = coin_nHeight c"
proof -
  define h where "h = unat (coin_nHeight c)"
  have u: "uint (coin_nHeight c) = int h" by (simp add: h_def)
  have h: "h < 2 ^ 30" "code = word_of_int (int h * 2 + (if fCoinBase c then 1 else 0))"
    using assms by (simp_all add: Coin_code_def Let_def u split: if_splits)
  have eq: "code = of_nat (h * 2 + (if fCoinBase c then 1 else 0))" unfolding h(2) by simp
  have less: "h * 2 + (if fCoinBase c then 1 else 0) < 2 ^ 32" using h(1) by simp
  have code: "unat code = h * 2 + (if fCoinBase c then 1 else 0)" unfolding eq unat_of_nat using less by simp
  have "unat (code AND 1) = unat code mod 2" by (simp add: and_one_eq unat_mod_distrib)
  also have "\<dots> = (if fCoinBase c then 1 else 0)" by (simp add: code)
  finally have "unat (code AND 1) = (if fCoinBase c then 1 else 0)" .
  moreover have "code AND 1 = 0 \<longleftrightarrow> unat (code AND 1) = 0" by (simp only: unat_eq_zero)
  ultimately show "code AND 1 \<noteq> 0 \<longleftrightarrow> fCoinBase c" by simp
  have half: "unat (code div 2) = unat (coin_nHeight c)" by (simp add: unat_div_distrib code h_def)
  then show "ucast (code div 2) = coin_nHeight c"
    using h(1) by (simp add: word_unat_eq_iff unsigned_ucast_eq take_bit_eq_mod h_def)
  moreover have "drop_bit 1 code = code div 2" by (simp add: drop_bit_eq_div)
  ultimately show "ucast (drop_bit 1 code) = coin_nHeight c" by simp
qed

definition stored_coin :: "Coin \<Rightarrow> bool" where
  "stored_coin c \<longleftrightarrow> MoneyRange (nValue (coin_out c)) \<and> length (scriptPubKey (coin_out c)) \<le> MAX_SCRIPT_SIZE \<and> uint (coin_nHeight c) < 2 ^ 30"

lemma MoneyRange_word:
  assumes "MoneyRange v"
  shows "9 * unat (word_of_int v :: u64) < 2 ^ 64" and "sint (word_of_int v :: u64) = v"
proof -
  have v: "0 \<le> v" "v \<le> 100000000000000000" using assms by (simp_all add: MoneyRange_def MAX_MONEY_def COIN_def)
  then have "uint (word_of_int v :: u64) = v" by (simp add: uint_word_of_int)
  then show "9 * unat (word_of_int v :: u64) < 2 ^ 64" using v by (simp flip: nat_uint_eq) 
  show "sint (word_of_int v :: u64) = v" using v by (simp add: sint_uint signed_take_bit_int_eq_self_iff uint_word_of_int) 
qed

lemma CTxOut_roundtrip:
  assumes "secp_laws secp" and "MoneyRange (nValue out)" and "length (scriptPubKey out) \<le> MAX_SCRIPT_SIZE"
  obtains b where "CTxOut_write secp out = Some b" and "\<And>rest. CTxOut_read secp (b @ rest) = Some (out, rest)"
proof -
  from CompressAmount_roundtrip [OF MoneyRange_word(1) [OF assms(2)]] obtain x
    where x: "CompressAmount (word_of_int (nValue out)) = Some x" "DecompressAmount x = word_of_int (nValue out)" by blast
  show thesis
    by (rule that [of "WriteVarInt x @ CScriptCompressor_Serialize secp (scriptPubKey out)"])
      (simp_all add: CTxOut_write_def CTxOut_read_def x ReadVarInt_WriteVarInt CScriptCompressor_roundtrip assms MoneyRange_word)
qed

text \<open>
  C28. Every unspent coin with an amount in range, a script of at most 10,000 bytes and a height below \<open>2 ^ 30\<close> is written without a
  failed assertion, and what follows it in the stream is untouched when it is read back: amount, script, height and coinbase mark are the
  same, whichever of the special forms of scripts was used. From height \<open>2 ^ 30\<close> on, which the 31 bits of the field allow, the code of
  the height overflows and writing the coin is undefined.
\<close>

theorem Coin_roundtrip:
  assumes "secp_laws secp" and "MoneyRange (nValue (coin_out c))" and "length (scriptPubKey (coin_out c)) \<le> MAX_SCRIPT_SIZE"
  shows "if uint (coin_nHeight c) < 2 ^ 30
    then \<exists>b. Coin_Serialize secp c = Some b \<and> (\<forall>rest. Coin_Unserialize secp (b @ rest) = Some (c, rest))
    else Coin_Serialize secp c = None"
proof -
  obtain b where b: "CTxOut_write secp (coin_out c) = Some b" "\<And>rest. CTxOut_read secp (b @ rest) = Some (coin_out c, rest)"
    using CTxOut_roundtrip [OF assms] by blast
  have "\<not> IsSpent c" using assms(2) by (auto simp: IsSpent_def CTxOut_IsNull_def MoneyRange_def)
  then show ?thesis using Coin_code_fields [of c] Coin_code_overflow [of c]
    by (cases "Coin_code c") (auto simp: Coin_Serialize_def Coin_Unserialize_def b ReadVarInt_WriteVarInt)
qed

section \<open>Undo data\<close>

lemma TxInUndo_roundtrip:
  assumes "secp_laws secp" and "stored_coin c"
  obtains b where "TxInUndo_Serialize secp c = Some b" and "\<And>rest. TxInUndo_Unserialize secp (b @ rest) = Some (c, rest)"
proof -
  obtain b where b: "CTxOut_write secp (coin_out c) = Some b" "\<And>rest. CTxOut_read secp (b @ rest) = Some (coin_out c, rest)"
    using CTxOut_roundtrip [OF assms(1)] assms(2) unfolding stored_coin_def by blast
  have "ReadVarInt (0 # s) = Some (0 :: 31 word, s)" for s by (simp add: ReadVarInt_def)
  then show thesis
    using that Coin_code_fields [of c] Coin_code_overflow [of c] assms(2)
    by (cases "Coin_code c") (auto simp: stored_coin_def TxInUndo_Serialize_def TxInUndo_Unserialize_def b ReadVarInt_WriteVarInt)
qed

lemma CTxUndo_loop_roundtrip:
  assumes "secp_laws secp" and "\<forall>c\<in>set cs. stored_coin c"
  shows "\<exists>b. CTxUndo_write_loop secp cs = Some b \<and> (\<forall>rest. CTxUndo_read_loop secp (length cs) (b @ rest) = Some (cs, rest))"
  using assms(2)
proof (induction cs)
  case Nil
  then show ?case by simp
next
  case (Cons c cs)
  then obtain d where d: "CTxUndo_write_loop secp cs = Some d" "\<And>rest. CTxUndo_read_loop secp (length cs) (d @ rest) = Some (cs, rest)" by auto
  obtain b where "TxInUndo_Serialize secp c = Some b" "\<And>rest. TxInUndo_Unserialize secp (b @ rest) = Some (c, rest)"
    using TxInUndo_roundtrip [OF assms(1)] Cons.prems by auto
  with d show ?case by simp
qed

lemma CTxUndo_loop_overflow: "\<exists>c\<in>set cs. 2 ^ 30 \<le> uint (coin_nHeight c) \<Longrightarrow> CTxUndo_write_loop secp cs = None"
proof (induction cs)
  case (Cons c cs)
  show ?case
  proof (cases "2 ^ 30 \<le> uint (coin_nHeight c)")
    case True
    then have "Coin_code c = None" by (simp only: Coin_code_overflow)
    then show ?thesis by (simp add: TxInUndo_Serialize_def)
  next
    case False
    with Cons show ?thesis by (cases "TxInUndo_Serialize secp c") auto
  qed
qed simp

text \<open>
  C29. The undo data of a transaction, the coins it spent, is written if all their heights are below \<open>2 ^ 30\<close>, and it is then read back
  exactly when the number of its inputs is within the limit of the reader: 24,390 before the asset rules are active and 48,780 after. Larger
  undo data is rejected. With a greater height the code of the height overflows and the write is undefined.
\<close>

theorem CTxUndo_roundtrip:
  assumes "secp_laws secp" and "\<forall>c\<in>set vprevout. MoneyRange (nValue (coin_out c)) \<and> length (scriptPubKey (coin_out c)) \<le> MAX_SCRIPT_SIZE"
    and "length vprevout < 2 ^ 64"
  shows "if \<forall>c\<in>set vprevout. uint (coin_nHeight c) < 2 ^ 30
    then \<exists>b. CTxUndo_Serialize secp vprevout = Some b \<and>
      (\<forall>rest. CTxUndo_Unserialize secp fAssetsIsActive (b @ rest) =
        (if length vprevout \<le> (if fAssetsIsActive then 48780 else 24390) then Some (vprevout, rest) else None))
    else CTxUndo_Serialize secp vprevout = None"
proof (cases "\<forall>c\<in>set vprevout. uint (coin_nHeight c) < 2 ^ 30")
  case False
  then show ?thesis using CTxUndo_loop_overflow [of vprevout secp] by (auto simp: CTxUndo_Serialize_def not_less)
next
  case True
  define count :: u64 where "count = of_nat (length vprevout)"
  have count: "unat count = length vprevout" using assms(3) by (simp add: count_def unat_of_nat)
  obtain b where b: "CTxUndo_write_loop secp vprevout = Some b" "\<And>rest. CTxUndo_read_loop secp (length vprevout) (b @ rest) = Some (vprevout, rest)"
    using CTxUndo_loop_roundtrip [OF assms(1), of vprevout] assms(2) True by (auto simp: stored_coin_def)
  have "ReadCompactSize (WriteCompactSize count @ b @ rest) = (if length vprevout \<le> 33554432 then Some (count, b @ rest) else None)" for rest
    using CompactSize_canonical [of "WriteCompactSize count @ b @ rest" count "b @ rest"] ReadCompactSize_too_large [of count "b @ rest"]
    by (simp add: MAX_SIZE_def word_less_nat_alt word_le_nat_alt count not_le)
  then show ?thesis using True
    by (simp add: CTxUndo_Serialize_def CTxUndo_Unserialize_def b count_def [symmetric] count
      MAX_BLOCK_WEIGHT_def MAX_BLOCK_WEIGHT_RIP2_def MIN_TRANSACTION_INPUT_WEIGHT_def)
qed

section \<open>An example\<close>

text \<open>A library that knows one key, the generator of the curve.\<close>

definition generator_y :: bytes where
  "generator_y = [0x48, 0x3A, 0xDA, 0x77, 0x26, 0xA3, 0xC4, 0x65, 0x5D, 0xA4, 0xFB, 0xFC, 0x0E, 0x11, 0x08, 0xA8,
    0xFD, 0x17, 0xB4, 0x48, 0xA6, 0x85, 0x54, 0x19, 0x9C, 0x47, 0xD0, 0x8F, 0xFB, 0x10, 0xD4, 0xB8]"

definition generator_x :: bytes where
  "generator_x = [0x79, 0xBE, 0x66, 0x7E, 0xF9, 0xDC, 0xBB, 0xAC, 0x55, 0xA0, 0x62, 0x95, 0xCE, 0x87, 0x0B, 0x07,
    0x02, 0x9B, 0xFC, 0xDB, 0x2D, 0xCE, 0x28, 0xD9, 0x59, 0xF2, 0x81, 0x5B, 0x16, 0xF8, 0x17, 0x98]"

definition one_key :: "unit secp256k1" where
  "one_key = \<lparr>ec_parse = (\<lambda>p. if p = 4 # generator_x @ generator_y \<or> p = 2 # generator_x then Some () else None),
    ec_uncompressed = (\<lambda>_. 4 # generator_x @ generator_y)\<rparr>"

lemma one_key_laws: "secp_laws one_key"
  by (simp add: secp_laws_def one_key_def) (simp add: generator_x_def generator_y_def)

definition key_coin :: Coin where
  "key_coin = \<lparr>coin_out = \<lparr>nValue = 5000000000, scriptPubKey = [65] @ (4 # generator_x @ generator_y) @ [OP_CHECKSIG]\<rparr>,
    fCoinBase = True, coin_nHeight = 1\<rparr>"

lemma key_coin_stored: "MoneyRange (nValue (coin_out key_coin)) \<and> length (scriptPubKey (coin_out key_coin)) \<le> MAX_SCRIPT_SIZE"
  by (simp add: key_coin_def MoneyRange_def MAX_MONEY_def COIN_def MAX_SCRIPT_SIZE_def generator_x_def generator_y_def)

theorem Coin_roundtrip_witness:
  "(\<exists>b. Coin_Serialize one_key key_coin = Some b \<and> Coin_Unserialize one_key (b @ [7]) = Some (key_coin, [7])) \<and>
   Coin_Serialize one_key (key_coin\<lparr>coin_nHeight := 2 ^ 30\<rparr>) = None"
proof -
  have "uint (coin_nHeight key_coin) < 2 ^ 30" by (simp add: key_coin_def)
  then show ?thesis
    using Coin_roundtrip [OF one_key_laws, of key_coin] Coin_roundtrip [OF one_key_laws, of "key_coin\<lparr>coin_nHeight := 2 ^ 30\<rparr>"]
      key_coin_stored by auto
qed

theorem CTxUndo_roundtrip_witness:
  "\<exists>b. CTxUndo_Serialize one_key [key_coin, key_coin] = Some b \<and>
    CTxUndo_Unserialize one_key False (b @ [7]) = Some ([key_coin, key_coin], [7])"
  using CTxUndo_roundtrip [OF one_key_laws, of "[key_coin, key_coin]" False] key_coin_stored
  by (elim meta_impE) (auto simp: key_coin_def)

end
