(* ===== verification/Md_Hash.thy ===== *)
theory Md_Hash
  imports Sha256
begin

text \<open>
  The hasher objects of \<^verbatim>\<open>src/crypto/sha1.cpp\<close>, \<^verbatim>\<open>ripemd160.cpp\<close> and \<^verbatim>\<open>sha512.cpp\<close> are the same program around different
  transformations: a chaining state, a buffer of one block and a counter of bytes. Their common text is modelled here with the block size
  and the transformation as arguments; the theories of the hash functions instantiate it. The locale \<open>md_hash\<close> is the contract of a
  transformation, and its lemmas say that a hasher holds the message it was given.
\<close>

section \<open>The program\<close>

record 'w hasher =
  hs_s :: "'w list"
  hs_buf :: bytes
  hs_bytes :: u64

definition hasher_new :: "'w list \<Rightarrow> bytes \<Rightarrow> 'w hasher" where
  "hasher_new iv buf = \<lparr>hs_s = iv, hs_buf = buf, hs_bytes = 0\<rparr>"

definition hasher_Reset :: "'w list \<Rightarrow> 'w hasher \<Rightarrow> 'w hasher" where
  "hasher_Reset iv h = h\<lparr>hs_bytes := 0, hs_s := iv\<rparr>"

text \<open>The loop over the full chunks in the input; it returns the bytes that are left.\<close>

function hasher_chunks :: "nat \<Rightarrow> ('w list \<Rightarrow> bytes \<Rightarrow> 'w list) \<Rightarrow> 'w hasher \<Rightarrow> bytes \<Rightarrow> 'w hasher \<times> bytes" where
  "hasher_chunks n Transform h data =
    (if 0 < n \<and> length data \<ge> n then
       hasher_chunks n Transform (h\<lparr>hs_s := Transform (hs_s h) data, hs_bytes := hs_bytes h + of_nat n\<rparr>) (drop n data)
     else (h, data))"
  by pat_completeness auto
termination by (relation "measure (\<lambda>(n, T, h, data). length data)") auto

declare hasher_chunks.simps [simp del]

definition hasher_Write :: "nat \<Rightarrow> ('w list \<Rightarrow> bytes \<Rightarrow> 'w list) \<Rightarrow> 'w hasher \<Rightarrow> bytes \<Rightarrow> 'w hasher" where
  "hasher_Write n Transform h data =
    (let bufsize = unat (hs_bytes h) mod n;
         (h, data, bufsize) =
           (if bufsize \<noteq> 0 \<and> bufsize + length data \<ge> n then
              (let buf = memcpy (hs_buf h) bufsize (take (n - bufsize) data)
               in (h\<lparr>hs_buf := buf, hs_bytes := hs_bytes h + of_nat (n - bufsize), hs_s := Transform (hs_s h) buf\<rparr>,
                   drop (n - bufsize) data, 0))
            else (h, data, bufsize));
         (h, data) = hasher_chunks n Transform h data
     in if length data > 0 then
          h\<lparr>hs_buf := memcpy (hs_buf h) bufsize data, hs_bytes := hs_bytes h + of_nat (length data)\<rparr>
        else h)"

section \<open>The contract\<close>

locale md_hash =
  fixes n :: nat
    and Transform :: "'w list \<Rightarrow> bytes \<Rightarrow> 'w list"
  assumes n_pos: "0 < n"
    and n_dvd: "n dvd 2 ^ 64"
    and Transform_block: "n \<le> length data \<Longrightarrow> Transform s (take n data) = Transform s data"
begin

definition hasher_holds :: "'w list \<Rightarrow> bytes \<Rightarrow> 'w hasher \<Rightarrow> bool" where
  "hasher_holds iv m h \<longleftrightarrow>
    represents n (\<lambda>b s. Transform s b) iv m (hs_buf h, length m mod n, hs_s h) \<and> hs_bytes h = of_nat (length m)"

lemma holds_new: "length buf = n \<Longrightarrow> hasher_holds iv [] (hasher_new iv buf)"
  by (simp add: hasher_holds_def hasher_new_def represents_init)

lemma holds_Reset: "hasher_holds iv m h \<Longrightarrow> hasher_holds iv [] (hasher_Reset iv h)"
  by (simp add: hasher_holds_def hasher_Reset_def represents_def absorb_blocks_def rest_of_def)

lemma holds_bufsize: "hasher_holds iv m h \<Longrightarrow> unat (hs_bytes h) mod n = length m mod n"
  using n_dvd by (simp add: hasher_holds_def unat_of_nat mod_mod_cancel)

lemma holds_state: "hasher_holds iv m h \<Longrightarrow> hs_s h = absorb_blocks n (\<lambda>b s. Transform s b) m iv"
  by (simp add: hasher_holds_def represents_def)

lemma holds_block:
  assumes "hasher_holds iv m h" and "length m mod n = 0" and "n \<le> length data"
  shows "hasher_holds iv (m @ take n data) (h\<lparr>hs_s := Transform (hs_s h) data, hs_bytes := hs_bytes h + of_nat n\<rparr>)"
    and "length (m @ take n data) mod n = 0"
proof -
  have len: "length m mod n + length (take n data) = n" using assms(2,3) by simp
  have "length (rest_of n m) = 0" by (simp only: length_rest_of assms(2))
  then have "rest_of n m = []" by (simp only: length_0_conv)
  then show "hasher_holds iv (m @ take n data) (h\<lparr>hs_s := Transform (hs_s h) data, hs_bytes := hs_bytes h + of_nat n\<rparr>)"
    using absorb_blocks_full(1) [OF n_pos len, of "\<lambda>b s. Transform s b" iv] absorb_blocks_full(2,3) [OF n_pos len] assms len Transform_block [OF assms(3)]
    by (simp add: hasher_holds_def represents_def)
  show "length (m @ take n data) mod n = 0" using absorb_blocks_full(3) [OF n_pos len] .
qed

lemma holds_chunks:
  assumes "hasher_holds iv m h" and "length m mod n = 0 \<or> length data < n"
  obtains k h' where "hasher_chunks n Transform h data = (h', drop k data)" and "hasher_holds iv (m @ take k data) h'"
    and "length (drop k data) < n" and "k = 0 \<or> length (m @ take k data) mod n = 0" and "length m mod n = 0 \<or> k = 0"
proof -
  have "\<exists>k h'. hasher_chunks n Transform h data = (h', drop k data) \<and> hasher_holds iv (m @ take k data) h' \<and>
      length (drop k data) < n \<and> (k = 0 \<or> length (m @ take k data) mod n = 0) \<and> (length m mod n = 0 \<or> k = 0)"
    using assms
  proof (induction "length data" arbitrary: m h data rule: less_induct)
    case less
    show ?case
    proof (cases "n \<le> length data")
      case False
      then show ?thesis using less.prems(1) by (intro exI [of _ 0] exI [of _ h]) (simp add: hasher_chunks.simps [of n Transform h])
    next
      case True
      with less.prems(2) have m: "length m mod n = 0" by simp
      note block = holds_block [OF less.prems(1) m True]
      have "length (drop n data) < length data" using True n_pos by simp
      from less.hyps [OF this block(1) disjI1 [OF block(2)]] obtain k h' where
        IH: "hasher_chunks n Transform (h\<lparr>hs_s := Transform (hs_s h) data, hs_bytes := hs_bytes h + of_nat n\<rparr>) (drop n data) = (h', drop k (drop n data))"
          "hasher_holds iv ((m @ take n data) @ take k (drop n data)) h'" "length (drop k (drop n data)) < n"
          "k = 0 \<or> length ((m @ take n data) @ take k (drop n data)) mod n = 0"
        by (elim exE conjE, intro that)
      have "(m @ take n data) @ take k (drop n data) = m @ take (n + k) data" by (simp add: take_add)
      moreover have "length (m @ take (n + k) data) mod n = 0"
        using IH(4) block(2) unfolding \<open>(m @ take n data) @ take k (drop n data) = m @ take (n + k) data\<close> by (elim disjE) simp_all
      ultimately show ?thesis using IH(1-3) m True n_pos
        by (intro exI [of _ "n + k"] exI [of _ h']) (simp add: hasher_chunks.simps [of n Transform h] add.commute)
    qed
  qed
  then show thesis by (elim exE conjE) (intro that)
qed

lemma holds_rest:
  assumes "hasher_holds iv m h" and "length m mod n + length d < n"
  shows "hasher_holds iv (m @ d)
    (if length d > 0 then h\<lparr>hs_buf := memcpy (hs_buf h) (length m mod n) d, hs_bytes := hs_bytes h + of_nat (length d)\<rparr> else h)"
  using assms represents_append [of n "\<lambda>b s. Transform s b" iv m "hs_buf h" "length m mod n" "hs_s h" d] n_pos
    absorb_blocks_short(3) [OF assms(2)]
  by (simp add: hasher_holds_def)

lemma holds_tail:
  assumes "hasher_holds iv m h" and "length m mod n = 0 \<or> length m mod n + length data < n"
  shows "hasher_holds iv (m @ data)
    (let (h, data) = hasher_chunks n Transform h data
     in if length data > 0 then
          h\<lparr>hs_buf := memcpy (hs_buf h) (length m mod n) data, hs_bytes := hs_bytes h + of_nat (length data)\<rparr>
        else h)"
proof -
  have "length m mod n = 0 \<or> length data < n" using assms(2) by auto
  from holds_chunks [OF assms(1) this] obtain k h' where
    k: "hasher_chunks n Transform h data = (h', drop k data)" "hasher_holds iv (m @ take k data) h'" "length (drop k data) < n"
      "k = 0 \<or> length (m @ take k data) mod n = 0" "length m mod n = 0 \<or> k = 0" .
  have same: "length (m @ take k data) mod n = length m mod n" using k(4,5) by (elim disjE) simp_all
  have "length (m @ take k data) mod n + length (drop k data) < n" using assms(2) k(3,5) unfolding same by auto
  from holds_rest [OF k(2) this] show ?thesis unfolding same k(1) Let_def prod.case by simp
qed

lemma holds_fill:
  assumes "hasher_holds iv m h" and "k = n - length m mod n" and "k \<le> length data" and "length m mod n \<noteq> 0"
    and "buf = memcpy (hs_buf h) (length m mod n) (take k data)"
  shows "hasher_holds iv (m @ take k data) (h\<lparr>hs_buf := buf, hs_bytes := hs_bytes h + of_nat k, hs_s := Transform (hs_s h) buf\<rparr>)"
    and "length (m @ take k data) mod n = 0"
proof -
  have "length m mod n < n" using n_pos by simp
  then have k: "length m mod n + k = n" "length (take k data) = k" using assms(2,3) by simp_all
  show 0: "length (m @ take k data) mod n = 0" using absorb_blocks_full(3) [OF n_pos, of m "take k data"] k by simp
  show "hasher_holds iv (m @ take k data) (h\<lparr>hs_buf := buf, hs_bytes := hs_bytes h + of_nat k, hs_s := Transform (hs_s h) buf\<rparr>)"
    using represents_append [of n "\<lambda>b s. Transform s b" iv m "hs_buf h" "length m mod n" "hs_s h" "take k data"]
      assms(1,5) k 0 assms(3) n_pos
    by (simp add: hasher_holds_def)
qed

text \<open>Every \<^verbatim>\<open>Write\<close> appends its bytes to the message.\<close>

lemma holds_Write:
  assumes "hasher_holds iv m h"
  shows "hasher_holds iv (m @ data) (hasher_Write n Transform h data)"
proof (cases "length m mod n \<noteq> 0 \<and> length m mod n + length data \<ge> n")
  case True
  define k where "k = n - length m mod n"
  have k: "k \<le> length data" using True unfolding k_def by arith
  note fill = holds_fill [OF assms k_def k conjunct1 [OF True] refl]
  have "length (m @ take k data) mod n = 0 \<or> length (m @ take k data) mod n + length (drop k data) < n" using fill(2) ..
  note tail = holds_tail [OF fill(1) this, unfolded fill(2)]
  show ?thesis
    unfolding hasher_Write_def Let_def holds_bufsize [OF assms] if_P [OF True] k_def [symmetric] prod.case
    using tail unfolding Let_def append_assoc append_take_drop_id .
next
  case False
  then have "length m mod n = 0 \<or> length m mod n + length data < n" by arith
  note tail = holds_tail [OF assms this]
  show ?thesis
    unfolding hasher_Write_def Let_def holds_bufsize [OF assms] if_not_P [OF False] prod.case
    using tail unfolding Let_def .
qed

lemma holds_run: "hasher_holds iv m h \<Longrightarrow> hasher_holds iv (m @ concat ds) (fold (\<lambda>d h. hasher_Write n Transform h d) ds h)"
  by (induction ds arbitrary: m h) (use holds_Write in force)+

end

section \<open>Padding\<close>

text \<open>The first bytes of the constant that pads: one bit and zeros, up to \<open>L\<close> bytes below a multiple of the block size.\<close>

definition pad_bytes :: "nat \<Rightarrow> nat \<Rightarrow> nat \<Rightarrow> bytes" where
  "pad_bytes n L len = 0x80 # replicate ((2 * n - 1 - L - len mod n) mod n) 0"

lemma take_pad:
  assumes "0 < n" shows "take (1 + k mod n) (0x80 # replicate (n - 1) 0) = 0x80 # replicate (k mod n) (0 :: byte)"
proof -
  have "k mod n \<le> n - 1" using mod_less_divisor [OF assms, of k] by linarith
  then show ?thesis by (simp add: min_def)
qed

lemma pad_fills_block:
  assumes "L < n" shows "(len + length (pad_bytes n L len) + L) mod n = 0"
proof -
  define r where "r = len mod n"
  have r: "r < n" using assms by (simp add: r_def)
  have "(len + length (pad_bytes n L len) + L) mod n = (len + (1 + (2 * n - 1 - L - r) mod n + L)) mod n"
    by (simp add: pad_bytes_def r_def add.assoc)
  also have "\<dots> = (r + (1 + (2 * n - 1 - L - r) mod n + L)) mod n" unfolding r_def by (rule mod_add_left_eq [symmetric])
  also have "\<dots> = (r + 1 + L + (2 * n - 1 - L - r)) mod n"
    by (metis (no_types, opaque_lifting) add.assoc add.commute mod_add_right_eq)
  also have "r + 1 + L + (2 * n - 1 - L - r) = 2 * n" using r assms by simp
  finally show ?thesis by simp
qed

end
