(* ===== verification/Sha1.thy ===== *)
theory Sha1
  imports Md_Hash
begin

text \<open>
  SHA-1: \<^verbatim>\<open>src/crypto/sha1.cpp\<close>. The transformation is written out in five groups of sixteen rounds in which the five registers
  rotate by renaming, one step per round, so a group hands its registers over in the order in which the next group names them. The second
  to fifth group differ in the logical function and the constant of each round, which are an argument here (the last three words of the
  last group are not stored any more in the code; nothing reads them). The reference is FIPS 180-4.
\<close>

section \<open>The transformation\<close>

type_synonym sha1_regs = "u32 \<times> u32 \<times> u32 \<times> u32 \<times> u32"

text \<open>The new values of the two registers that a round assigns, \<^verbatim>\<open>b\<close> and \<^verbatim>\<open>e\<close>.\<close>

definition sha1_Round :: "u32 \<Rightarrow> u32 \<Rightarrow> u32 \<Rightarrow> u32 \<Rightarrow> u32 \<Rightarrow> u32 \<Rightarrow> u32 \<Rightarrow> u32 \<Rightarrow> u32 \<times> u32" where
  "sha1_Round a b c d e f k w =
    (push_bit 30 b OR drop_bit 2 b, e + ((push_bit 5 a OR drop_bit 27 a) + f + k + w))"

definition sha1_f1 :: "u32 \<Rightarrow> u32 \<Rightarrow> u32 \<Rightarrow> u32" where "sha1_f1 b c d = d XOR (b AND (c XOR d))"
definition sha1_f2 :: "u32 \<Rightarrow> u32 \<Rightarrow> u32 \<Rightarrow> u32" where "sha1_f2 b c d = b XOR c XOR d"
definition sha1_f3 :: "u32 \<Rightarrow> u32 \<Rightarrow> u32 \<Rightarrow> u32" where "sha1_f3 b c d = (b AND c) OR (d AND (b OR c))"

definition sha1_left :: "u32 \<Rightarrow> u32" where "sha1_left x = push_bit 1 x OR drop_bit 31 x"

definition sha1_Initialize :: "u32 list" where
  "sha1_Initialize = [0x67452301, 0xEFCDAB89, 0x98BADCFE, 0x10325476, 0xC3D2E1F0]"

definition sha1_k1 :: u32 where "sha1_k1 = 0x5A827999"
definition sha1_k2 :: u32 where "sha1_k2 = 0x6ED9EBA1"
definition sha1_k3 :: u32 where "sha1_k3 = 0x8F1BBCDC"
definition sha1_k4 :: u32 where "sha1_k4 = 0xCA62C1D6"

text \<open>The function and the constant of every round.\<close>

definition sha1_fk :: "nat \<Rightarrow> (u32 \<Rightarrow> u32 \<Rightarrow> u32 \<Rightarrow> u32) \<times> u32" where
  "sha1_fk t =
    (if t < 20 then (sha1_f1, sha1_k1) else if t < 40 then (sha1_f2, sha1_k2)
     else if t < 60 then (sha1_f3, sha1_k3) else (sha1_f2, sha1_k4))"

definition sha1_rounds_0 :: "bytes \<Rightarrow> sha1_regs \<Rightarrow> sha1_regs \<times> u32 list" where
  "sha1_rounds_0 blk = (\<lambda>(a, b, c, d, e).
    let
      w0 = ReadBE32 (drop 0 blk);
      (b, e) = sha1_Round a b c d e (fst (sha1_fk 0) b c d) (snd (sha1_fk 0)) w0;
      w1 = ReadBE32 (drop 4 blk);
      (a, d) = sha1_Round e a b c d (fst (sha1_fk 1) a b c) (snd (sha1_fk 1)) w1;
      w2 = ReadBE32 (drop 8 blk);
      (e, c) = sha1_Round d e a b c (fst (sha1_fk 2) e a b) (snd (sha1_fk 2)) w2;
      w3 = ReadBE32 (drop 12 blk);
      (d, b) = sha1_Round c d e a b (fst (sha1_fk 3) d e a) (snd (sha1_fk 3)) w3;
      w4 = ReadBE32 (drop 16 blk);
      (c, a) = sha1_Round b c d e a (fst (sha1_fk 4) c d e) (snd (sha1_fk 4)) w4;
      w5 = ReadBE32 (drop 20 blk);
      (b, e) = sha1_Round a b c d e (fst (sha1_fk 5) b c d) (snd (sha1_fk 5)) w5;
      w6 = ReadBE32 (drop 24 blk);
      (a, d) = sha1_Round e a b c d (fst (sha1_fk 6) a b c) (snd (sha1_fk 6)) w6;
      w7 = ReadBE32 (drop 28 blk);
      (e, c) = sha1_Round d e a b c (fst (sha1_fk 7) e a b) (snd (sha1_fk 7)) w7;
      w8 = ReadBE32 (drop 32 blk);
      (d, b) = sha1_Round c d e a b (fst (sha1_fk 8) d e a) (snd (sha1_fk 8)) w8;
      w9 = ReadBE32 (drop 36 blk);
      (c, a) = sha1_Round b c d e a (fst (sha1_fk 9) c d e) (snd (sha1_fk 9)) w9;
      w10 = ReadBE32 (drop 40 blk);
      (b, e) = sha1_Round a b c d e (fst (sha1_fk 10) b c d) (snd (sha1_fk 10)) w10;
      w11 = ReadBE32 (drop 44 blk);
      (a, d) = sha1_Round e a b c d (fst (sha1_fk 11) a b c) (snd (sha1_fk 11)) w11;
      w12 = ReadBE32 (drop 48 blk);
      (e, c) = sha1_Round d e a b c (fst (sha1_fk 12) e a b) (snd (sha1_fk 12)) w12;
      w13 = ReadBE32 (drop 52 blk);
      (d, b) = sha1_Round c d e a b (fst (sha1_fk 13) d e a) (snd (sha1_fk 13)) w13;
      w14 = ReadBE32 (drop 56 blk);
      (c, a) = sha1_Round b c d e a (fst (sha1_fk 14) c d e) (snd (sha1_fk 14)) w14;
      w15 = ReadBE32 (drop 60 blk);
      (b, e) = sha1_Round a b c d e (fst (sha1_fk 15) b c d) (snd (sha1_fk 15)) w15
    in ((e, a, b, c, d), [w0, w1, w2, w3, w4, w5, w6, w7, w8, w9, w10, w11, w12, w13, w14, w15]))"

definition sha1_rounds :: "(nat \<Rightarrow> (u32 \<Rightarrow> u32 \<Rightarrow> u32 \<Rightarrow> u32) \<times> u32) \<Rightarrow> sha1_regs \<times> u32 list \<Rightarrow> sha1_regs \<times> u32 list" where
  "sha1_rounds fk = (\<lambda>((a, b, c, d, e), w).
    let
      w0 = w ! 0; w1 = w ! 1; w2 = w ! 2; w3 = w ! 3; w4 = w ! 4; w5 = w ! 5; w6 = w ! 6; w7 = w ! 7;
      w8 = w ! 8; w9 = w ! 9; w10 = w ! 10; w11 = w ! 11; w12 = w ! 12; w13 = w ! 13; w14 = w ! 14; w15 = w ! 15;
      w0 = sha1_left (w0 XOR w13 XOR w8 XOR w2);
      (b, e) = sha1_Round a b c d e (fst (fk 0) b c d) (snd (fk 0)) w0;
      w1 = sha1_left (w1 XOR w14 XOR w9 XOR w3);
      (a, d) = sha1_Round e a b c d (fst (fk 1) a b c) (snd (fk 1)) w1;
      w2 = sha1_left (w2 XOR w15 XOR w10 XOR w4);
      (e, c) = sha1_Round d e a b c (fst (fk 2) e a b) (snd (fk 2)) w2;
      w3 = sha1_left (w3 XOR w0 XOR w11 XOR w5);
      (d, b) = sha1_Round c d e a b (fst (fk 3) d e a) (snd (fk 3)) w3;
      w4 = sha1_left (w4 XOR w1 XOR w12 XOR w6);
      (c, a) = sha1_Round b c d e a (fst (fk 4) c d e) (snd (fk 4)) w4;
      w5 = sha1_left (w5 XOR w2 XOR w13 XOR w7);
      (b, e) = sha1_Round a b c d e (fst (fk 5) b c d) (snd (fk 5)) w5;
      w6 = sha1_left (w6 XOR w3 XOR w14 XOR w8);
      (a, d) = sha1_Round e a b c d (fst (fk 6) a b c) (snd (fk 6)) w6;
      w7 = sha1_left (w7 XOR w4 XOR w15 XOR w9);
      (e, c) = sha1_Round d e a b c (fst (fk 7) e a b) (snd (fk 7)) w7;
      w8 = sha1_left (w8 XOR w5 XOR w0 XOR w10);
      (d, b) = sha1_Round c d e a b (fst (fk 8) d e a) (snd (fk 8)) w8;
      w9 = sha1_left (w9 XOR w6 XOR w1 XOR w11);
      (c, a) = sha1_Round b c d e a (fst (fk 9) c d e) (snd (fk 9)) w9;
      w10 = sha1_left (w10 XOR w7 XOR w2 XOR w12);
      (b, e) = sha1_Round a b c d e (fst (fk 10) b c d) (snd (fk 10)) w10;
      w11 = sha1_left (w11 XOR w8 XOR w3 XOR w13);
      (a, d) = sha1_Round e a b c d (fst (fk 11) a b c) (snd (fk 11)) w11;
      w12 = sha1_left (w12 XOR w9 XOR w4 XOR w14);
      (e, c) = sha1_Round d e a b c (fst (fk 12) e a b) (snd (fk 12)) w12;
      w13 = sha1_left (w13 XOR w10 XOR w5 XOR w15);
      (d, b) = sha1_Round c d e a b (fst (fk 13) d e a) (snd (fk 13)) w13;
      w14 = sha1_left (w14 XOR w11 XOR w6 XOR w0);
      (c, a) = sha1_Round b c d e a (fst (fk 14) c d e) (snd (fk 14)) w14;
      w15 = sha1_left (w15 XOR w12 XOR w7 XOR w1);
      (b, e) = sha1_Round a b c d e (fst (fk 15) b c d) (snd (fk 15)) w15
    in ((e, a, b, c, d), [w0, w1, w2, w3, w4, w5, w6, w7, w8, w9, w10, w11, w12, w13, w14, w15]))"

definition sha1_Transform :: "u32 list \<Rightarrow> bytes \<Rightarrow> u32 list" where
  "sha1_Transform s blk =
    (let st = sha1_rounds_0 blk (s ! 0, s ! 1, s ! 2, s ! 3, s ! 4);
         st = sha1_rounds (\<lambda>i. sha1_fk (16 + i)) st;
         st = sha1_rounds (\<lambda>i. sha1_fk (32 + i)) st;
         st = sha1_rounds (\<lambda>i. sha1_fk (48 + i)) st;
         ((a, b, c, d, e), _) = sha1_rounds (\<lambda>i. sha1_fk (64 + i)) st
     in [s ! 0 + a, s ! 1 + b, s ! 2 + c, s ! 3 + d, s ! 4 + e])"

section \<open>The hasher\<close>

definition CSHA1_new :: "bytes \<Rightarrow> u32 hasher" where "CSHA1_new buf = hasher_new sha1_Initialize buf"

definition CSHA1_Write :: "u32 hasher \<Rightarrow> bytes \<Rightarrow> u32 hasher" where
  "CSHA1_Write h data = hasher_Write 64 sha1_Transform h data"

definition CSHA1_Finalize :: "u32 hasher \<Rightarrow> u32 hasher \<times> bytes" where
  "CSHA1_Finalize h =
    (let pad = 0x80 # replicate 63 0;
         sizedesc = WriteBE64 (push_bit 3 (hs_bytes h));
         h = CSHA1_Write h (take (1 + (119 - unat (hs_bytes h) mod 64) mod 64) pad);
         h = CSHA1_Write h sizedesc
     in (h, concat (map (\<lambda>i. WriteBE32 (hs_s h ! i)) [0..<5])))"

definition CSHA1_Reset :: "u32 hasher \<Rightarrow> u32 hasher" where
  "CSHA1_Reset h = hasher_Reset sha1_Initialize h"

section \<open>FIPS 180-4\<close>

definition fips_sha1_f :: "nat \<Rightarrow> u32 \<Rightarrow> u32 \<Rightarrow> u32 \<Rightarrow> u32" where
  "fips_sha1_f t x y z =
    (if t < 20 then (x AND y) XOR (NOT x AND z)
     else if t < 40 then x XOR y XOR z
     else if t < 60 then (x AND y) XOR (x AND z) XOR (y AND z)
     else x XOR y XOR z)"

definition fips_sha1_K :: "nat \<Rightarrow> u32" where
  "fips_sha1_K t = (if t < 20 then 0x5a827999 else if t < 40 then 0x6ed9eba1 else if t < 60 then 0x8f1bbcdc else 0xca62c1d6)"

fun fips_sha1_W :: "(nat \<Rightarrow> u32) \<Rightarrow> nat \<Rightarrow> u32" where
  "fips_sha1_W M t =
    (if t < 16 then M t
     else word_rotl 1 (fips_sha1_W M (t - 3) XOR fips_sha1_W M (t - 8) XOR fips_sha1_W M (t - 14) XOR fips_sha1_W M (t - 16)))"

declare fips_sha1_W.simps [simp del]

definition fips_sha1_round :: "(u32 \<Rightarrow> u32 \<Rightarrow> u32 \<Rightarrow> u32) \<times> u32 \<Rightarrow> u32 \<Rightarrow> sha1_regs \<Rightarrow> sha1_regs" where
  "fips_sha1_round fk w = (\<lambda>(a, b, c, d, e). (word_rotl 5 a + fst fk b c d + e + snd fk + w, a, word_rotl 30 b, c, d))"

definition fips_sha1_compress :: "bytes \<Rightarrow> u32 list \<Rightarrow> u32 list" where
  "fips_sha1_compress blk H =
    (let (a, b, c, d, e) =
           fold (\<lambda>t. fips_sha1_round (fips_sha1_f t, fips_sha1_K t) (fips_sha1_W (block_word blk) t)) [0..<80]
             (H ! 0, H ! 1, H ! 2, H ! 3, H ! 4)
     in [a + H ! 0, b + H ! 1, c + H ! 2, d + H ! 3, e + H ! 4])"

definition fips_sha1 :: "bytes \<Rightarrow> bytes" where
  "fips_sha1 m = concat (map (be_bytes 4) (absorb_blocks 64 fips_sha1_compress (fips_pad m) sha1_Initialize))"

section \<open>The transformation is the compression function\<close>

lemma push_drop_rotl32: "0 < n \<Longrightarrow> n < 32 \<Longrightarrow> push_bit n x OR drop_bit (32 - n) x = word_rotl n (x :: u32)"
  using SPH_ROT_conv(1) [of n x] by (simp add: SPH_ROTL32_def)

lemma sha1_left_rotl: "sha1_left x = word_rotl 1 x"
  unfolding sha1_left_def using push_drop_rotl32 [of 1 x] by simp

lemma sha1_fk_fips: "sha1_fk t = (fips_sha1_f t, fips_sha1_K t)"
proof -
  have "sha1_f1 = (\<lambda>x y z. (x AND y) XOR (NOT x AND z))"
    using sha256_Ch_fips by (simp add: fun_eq_iff sha1_f1_def sha256_Ch_def)
  moreover have "sha1_f3 = (\<lambda>x y z. (x AND y) XOR (x AND z) XOR (y AND z))"
    using sha256_Maj_fips by (simp add: fun_eq_iff sha1_f3_def sha256_Maj_def)
  moreover have "sha1_f2 = (\<lambda>x y z. x XOR y XOR z)" by (simp add: fun_eq_iff sha1_f2_def)
  ultimately show ?thesis
    by (simp add: sha1_fk_def fips_sha1_f_def [abs_def] fips_sha1_K_def sha1_k1_def sha1_k2_def sha1_k3_def sha1_k4_def)
qed

lemma sha1_round_eqI:
  assumes "\<And>b' e'. fips_sha1_round fk w (a, b, c, d, e) = (e', a, b', c, d) \<Longrightarrow> F b' e' = Z"
  shows "(let (b', e') = sha1_Round a b c d e (fst fk b c d) (snd fk) w in F b' e') = Z"
  using assms push_drop_rotl32 [of 5 a] push_drop_rotl32 [of 30 b] by (simp add: sha1_Round_def fips_sha1_round_def ac_simps)

lemma sha1_rounds_run:
  assumes g: "\<And>i. i < 16 \<Longrightarrow> g (i + 16) = sha1_left (g i XOR g (i + 13) XOR g (i + 8) XOR g (i + 2))"
  shows "sha1_rounds fk (st, map g [0..<16]) = (fold (\<lambda>i. fips_sha1_round (fk i) (g (i + 16))) [0..<16] st, map g [16..<32])"
proof -
  obtain a b c d e where st: "st = (a, b, c, d, e)" by (metis surj_pair)
  note One_nat_def [simp del]
  note num = add_0 one_plus_numeral numeral_plus_numeral add_num_simps numeral_less_iff zero_less_numeral one_less_numeral_iff
    less_num_simps le_num_simps simp_thms True_implies_equals
  note r =
    g [of 0, simplified num, symmetric] g [of 1, simplified num, symmetric] g [of 2, simplified num, symmetric]
    g [of 3, simplified num, symmetric] g [of 4, simplified num, symmetric] g [of 5, simplified num, symmetric]
    g [of 6, simplified num, symmetric] g [of 7, simplified num, symmetric] g [of 8, simplified num, symmetric]
    g [of 9, simplified num, symmetric] g [of 10, simplified num, symmetric] g [of 11, simplified num, symmetric]
    g [of 12, simplified num, symmetric] g [of 13, simplified num, symmetric] g [of 14, simplified num, symmetric]
    g [of 15, simplified num, symmetric]
  show ?thesis
    unfolding st fold16 upt16 upt16_32 list.map sha1_rounds_def prod.case
    by (((rule let_eqI, rule nth16 r) | rule sha1_round_eqI)+, simp)
qed

lemma ReadBE32_block: "n mod 4 = 0 \<Longrightarrow> ReadBE32 (drop n blk) = block_word blk (n div 4)"
  using mult_div_mod_eq [of 4 n] by (simp add: block_word_def ReadBE32_def)

lemma sha1_rounds_0_run:
  "sha1_rounds_0 blk st = (fold (\<lambda>i. fips_sha1_round (sha1_fk i) (block_word blk i)) [0..<16] st, map (block_word blk) [0..<16])"
proof -
  obtain a b c d e where st: "st = (a, b, c, d, e)" by (metis surj_pair)
  note One_nat_def [simp del]
  note r = ReadBE32_block [where blk = blk]
  note rs = r [of 0, simplified] r [of 4, simplified] r [of 8, simplified] r [of 12, simplified] r [of 16, simplified]
    r [of 20, simplified] r [of 24, simplified] r [of 28, simplified] r [of 32, simplified] r [of 36, simplified]
    r [of 40, simplified] r [of 44, simplified] r [of 48, simplified] r [of 52, simplified] r [of 56, simplified]
    r [of 60, simplified]
  show ?thesis
    unfolding st fold16 upt16 list.map sha1_rounds_0_def prod.case drop_0
    by (((rule let_eqI, rule rs) | rule sha1_round_eqI)+, simp)
qed

lemma fips_sha1_W_next:
  "fips_sha1_W M (n + 16) = sha1_left (fips_sha1_W M n XOR fips_sha1_W M (n + 13) XOR fips_sha1_W M (n + 8) XOR fips_sha1_W M (n + 2))"
  by (subst fips_sha1_W.simps) (simp add: sha1_left_rotl ac_simps)

lemma sha1_group:
  "sha1_rounds (\<lambda>i. sha1_fk (n + 16 + i)) (st, map (\<lambda>i. fips_sha1_W M (n + i)) [0..<16]) =
    (fold (\<lambda>t. fips_sha1_round (sha1_fk t) (fips_sha1_W M t)) [n + 16..<n + 32] st, map (\<lambda>i. fips_sha1_W M (n + 16 + i)) [0..<16])"
proof -
  have "sha1_rounds (\<lambda>i. sha1_fk (n + 16 + i)) (st, map (\<lambda>i. fips_sha1_W M (n + i)) [0..<16]) =
    (fold (\<lambda>i. fips_sha1_round (sha1_fk (n + 16 + i)) (fips_sha1_W M (n + (i + 16)))) [0..<16] st,
     map (\<lambda>i. fips_sha1_W M (n + i)) [16..<32])"
    by (rule sha1_rounds_run) (use fips_sha1_W_next [of M "n + _"] in \<open>simp add: ac_simps\<close>)
  also have "map (\<lambda>i. fips_sha1_W M (n + i)) [16..<32] = map (\<lambda>i. fips_sha1_W M (n + 16 + i)) [0..<16]"
    by (simp add: upt16 upt16_32 ac_simps)
  also have "fold (\<lambda>i. fips_sha1_round (sha1_fk (n + 16 + i)) (fips_sha1_W M (n + (i + 16)))) [0..<16] st =
    fold (\<lambda>t. fips_sha1_round (sha1_fk t) (fips_sha1_W M t)) [n + 16..<n + 16 + 16] st"
    unfolding fold_upt_shift by (intro fold_cong) (simp_all add: ac_simps)
  finally show ?thesis by (simp add: ac_simps)
qed

lemma sha1_Transform_fips: "sha1_Transform s blk = fips_sha1_compress blk s"
proof -
  define M where "M = block_word blk"
  define F where "F = (\<lambda>t. fips_sha1_round (sha1_fk t) (fips_sha1_W M t))"
  define st where "st = (s ! 0, s ! 1, s ! 2, s ! 3, s ! 4)"
  have W0: "fips_sha1_W M i = M i" if "i < 16" for i using that by (simp add: fips_sha1_W.simps)
  have g0: "sha1_rounds_0 blk st = (fold F [0..<16] st, map (\<lambda>i. fips_sha1_W M (0 + i)) [0..<16])"
    unfolding sha1_rounds_0_run F_def by (intro arg_cong2 [where f = Pair] fold_cong) (simp_all add: M_def [symmetric] W0)
  note num = add_0 numeral_plus_numeral add_num_simps
  note G = sha1_group [of _ _ M, folded F_def]
  have g1: "sha1_rounds (\<lambda>i. sha1_fk (16 + i)) (x, map (\<lambda>i. fips_sha1_W M (0 + i)) [0..<16]) =
      (fold F [16..<32] x, map (\<lambda>i. fips_sha1_W M (16 + i)) [0..<16])" for x using G [of 0 x] by (simp only: num)
  have g2: "sha1_rounds (\<lambda>i. sha1_fk (32 + i)) (x, map (\<lambda>i. fips_sha1_W M (16 + i)) [0..<16]) =
      (fold F [32..<48] x, map (\<lambda>i. fips_sha1_W M (32 + i)) [0..<16])" for x using G [of 16 x] by (simp only: num)
  have g3: "sha1_rounds (\<lambda>i. sha1_fk (48 + i)) (x, map (\<lambda>i. fips_sha1_W M (32 + i)) [0..<16]) =
      (fold F [48..<64] x, map (\<lambda>i. fips_sha1_W M (48 + i)) [0..<16])" for x using G [of 32 x] by (simp only: num)
  have g4: "sha1_rounds (\<lambda>i. sha1_fk (64 + i)) (x, map (\<lambda>i. fips_sha1_W M (48 + i)) [0..<16]) =
      (fold F [64..<80] x, map (\<lambda>i. fips_sha1_W M (64 + i)) [0..<16])" for x using G [of 48 x] by (simp only: num)
  have "[0..<80] = [0..<16] @ [16..<32] @ [32..<48] @ [48..<64] @ [64..<80 :: nat]"
    by (simp add: upt_rec)
  then have all: "fold F [64..<80] (fold F [48..<64] (fold F [32..<48] (fold F [16..<32] (fold F [0..<16] st)))) = fold F [0..<80] st"
    by (simp only: fold_append comp_apply)
  show ?thesis
    unfolding sha1_Transform_def fips_sha1_compress_def Let_def sha1_fk_fips [symmetric] M_def [symmetric] F_def [symmetric]
      st_def [symmetric] g0 g1 g2 g3 g4 all
    by (cases "fold F [0..<80] st" rule: prod_cases5) (auto simp: add.commute)
qed

interpretation sha1: md_hash 64 sha1_Transform
proof
  show "sha1_Transform s (take 64 data) = sha1_Transform s data" if "64 \<le> length data" for s data
  proof -
    have "block_word (take 64 data) t = block_word data t" if "t < 16" for t
      using that by (simp add: block_word_def drop_take)
    then have "fips_sha1_W (block_word (take 64 data)) t = fips_sha1_W (block_word data) t" for t
      by (induction t rule: less_induct) (subst (1 2) fips_sha1_W.simps, simp)
    then show ?thesis unfolding sha1_Transform_fips fips_sha1_compress_def by (simp only:)
  qed
qed simp_all

text \<open>
  Feeding a message to a new \<^verbatim>\<open>CSHA1\<close> in any pieces and finalising it gives the SHA-1 digest of the concatenated pieces as
  FIPS 180-4 defines it.
\<close>

theorem CSHA1_refines_fips:
  assumes "length buf = 64"
  shows "snd (CSHA1_Finalize (fold (\<lambda>d h. CSHA1_Write h d) ds (CSHA1_new buf))) = fips_sha1 (concat ds)"
proof -
  define h where "h = fold (\<lambda>d h. CSHA1_Write h d) ds (CSHA1_new buf)"
  define m where "m = concat ds"
  have h: "sha1.hasher_holds sha1_Initialize m h"
    using sha1.holds_run [OF sha1.holds_new [OF assms], of sha1_Initialize ds] by (simp add: h_def m_def CSHA1_Write_def CSHA1_new_def)
  have pad: "take (1 + (119 - length m mod 64) mod 64) (0x80 # replicate 63 0) = pad_bytes 64 8 (length m)"
    using take_pad [of 64 "119 - length m mod 64"] by (simp add: pad_bytes_def)
  have size: "WriteBE64 (push_bit 3 (hs_bytes h)) = be_bytes 8 (of_nat (8 * length m) :: u64)"
    using h by (simp add: sha1.hasher_holds_def WriteBE64_def push_bit_eq_mult mult.commute)
  define h' where "h' = fst (CSHA1_Finalize h)"
  have "sha1.hasher_holds sha1_Initialize (fips_pad m) h'"
    using sha1.holds_Write [OF sha1.holds_Write [OF h], of "pad_bytes 64 8 (length m)"]
    unfolding h'_def CSHA1_Finalize_def CSHA1_Write_def Let_def sha1.holds_bufsize [OF h] pad size
    by (simp add: fips_pad_def pad_bytes_def)
  from sha1.holds_state [OF this] have s: "hs_s h' = absorb_blocks 64 fips_sha1_compress (fips_pad m) sha1_Initialize"
    by (simp add: sha1_Transform_fips)
  have "length (fold fips_sha1_compress bs st) = 5" if "length st = 5" for bs st
    using that by (induction bs arbitrary: st) (simp_all add: fips_sha1_compress_def Let_def split_beta)
  then have "length (hs_s h') = 5" unfolding s by (simp add: absorb_blocks_def sha1_Initialize_def)
  then have "map (\<lambda>i. WriteBE32 (hs_s h' ! i)) [0..<5] = map (be_bytes 4) (hs_s h')"
    by (intro nth_equalityI) (simp_all add: WriteBE32_def)
  then show ?thesis
    unfolding fips_sha1_def m_def [symmetric] s [symmetric] h_def [symmetric] by (simp add: h'_def CSHA1_Finalize_def Let_def)
qed

theorem CSHA1_refines_fips_witness:
  "snd (CSHA1_Finalize (fold (\<lambda>d h. CSHA1_Write h d) [[97, 98], [], [99]] (CSHA1_new (replicate 64 7)))) = fips_sha1 [97, 98, 99]"
  using CSHA1_refines_fips [of "replicate 64 7" "[[97, 98], [], [99]]"] by simp

end
