(* ===== verification/Ripemd160.thy ===== *)
theory Ripemd160
  imports Sha1
begin

text \<open>
  RIPEMD-160: \<^verbatim>\<open>src/crypto/ripemd160.cpp\<close>, and \<^verbatim>\<open>CHash160\<close> of \<^verbatim>\<open>src/hash.h\<close>, RIPEMD-160 of SHA-256, which makes addresses of
  public keys and scripts. The transformation is written out as five groups of sixteen rounds on two lines in turn, in which the five registers of
  each line rotate by renaming, one step per round. The reference is the definition of RIPEMD-160 by Dobbertin, Bosselaers and Preneel:
  the order of the words is generated by the permutations \<open>rho\<close> and \<open>pi\<close>.
\<close>

section \<open>The transformation\<close>

type_synonym rmd_regs = "u32 \<times> u32 \<times> u32 \<times> u32 \<times> u32"

definition rmd_f1 :: "u32 \<Rightarrow> u32 \<Rightarrow> u32 \<Rightarrow> u32" where "rmd_f1 x y z = x XOR y XOR z"
definition rmd_f2 :: "u32 \<Rightarrow> u32 \<Rightarrow> u32 \<Rightarrow> u32" where "rmd_f2 x y z = (x AND y) OR (NOT x AND z)"
definition rmd_f3 :: "u32 \<Rightarrow> u32 \<Rightarrow> u32 \<Rightarrow> u32" where "rmd_f3 x y z = (x OR NOT y) XOR z"
definition rmd_f4 :: "u32 \<Rightarrow> u32 \<Rightarrow> u32 \<Rightarrow> u32" where "rmd_f4 x y z = (x AND z) OR (y AND NOT z)"
definition rmd_f5 :: "u32 \<Rightarrow> u32 \<Rightarrow> u32 \<Rightarrow> u32" where "rmd_f5 x y z = x XOR (y OR NOT z)"

definition rmd_Initialize :: "u32 list" where
  "rmd_Initialize = [0x67452301, 0xEFCDAB89, 0x98BADCFE, 0x10325476, 0xC3D2E1F0]"

definition rmd_rol :: "u32 \<Rightarrow> nat \<Rightarrow> u32" where "rmd_rol x i = push_bit i x OR drop_bit (32 - i) x"

text \<open>The new values of the two registers that a round assigns, \<^verbatim>\<open>a\<close> and \<^verbatim>\<open>c\<close>.\<close>

definition rmd_Round :: "u32 \<Rightarrow> u32 \<Rightarrow> u32 \<Rightarrow> u32 \<Rightarrow> u32 \<Rightarrow> u32 \<Rightarrow> u32 \<Rightarrow> u32 \<Rightarrow> nat \<Rightarrow> u32 \<times> u32" where
  "rmd_Round a b c d e f x k r = (rmd_rol (a + f + x + k) r + e, rmd_rol c 10)"

definition rmd_R11 :: "u32 \<Rightarrow> u32 \<Rightarrow> u32 \<Rightarrow> u32 \<Rightarrow> u32 \<Rightarrow> u32 \<Rightarrow> nat \<Rightarrow> u32 \<times> u32" where
  "rmd_R11 a b c d e x r = rmd_Round a b c d e (rmd_f1 b c d) x 0 r"

definition rmd_R12 :: "u32 \<Rightarrow> u32 \<Rightarrow> u32 \<Rightarrow> u32 \<Rightarrow> u32 \<Rightarrow> u32 \<Rightarrow> nat \<Rightarrow> u32 \<times> u32" where
  "rmd_R12 a b c d e x r = rmd_Round a b c d e (rmd_f5 b c d) x 0x50A28BE6 r"

definition rmd_R21 :: "u32 \<Rightarrow> u32 \<Rightarrow> u32 \<Rightarrow> u32 \<Rightarrow> u32 \<Rightarrow> u32 \<Rightarrow> nat \<Rightarrow> u32 \<times> u32" where
  "rmd_R21 a b c d e x r = rmd_Round a b c d e (rmd_f2 b c d) x 0x5A827999 r"

definition rmd_R22 :: "u32 \<Rightarrow> u32 \<Rightarrow> u32 \<Rightarrow> u32 \<Rightarrow> u32 \<Rightarrow> u32 \<Rightarrow> nat \<Rightarrow> u32 \<times> u32" where
  "rmd_R22 a b c d e x r = rmd_Round a b c d e (rmd_f4 b c d) x 0x5C4DD124 r"

definition rmd_R31 :: "u32 \<Rightarrow> u32 \<Rightarrow> u32 \<Rightarrow> u32 \<Rightarrow> u32 \<Rightarrow> u32 \<Rightarrow> nat \<Rightarrow> u32 \<times> u32" where
  "rmd_R31 a b c d e x r = rmd_Round a b c d e (rmd_f3 b c d) x 0x6ED9EBA1 r"

definition rmd_R32 :: "u32 \<Rightarrow> u32 \<Rightarrow> u32 \<Rightarrow> u32 \<Rightarrow> u32 \<Rightarrow> u32 \<Rightarrow> nat \<Rightarrow> u32 \<times> u32" where
  "rmd_R32 a b c d e x r = rmd_Round a b c d e (rmd_f3 b c d) x 0x6D703EF3 r"

definition rmd_R41 :: "u32 \<Rightarrow> u32 \<Rightarrow> u32 \<Rightarrow> u32 \<Rightarrow> u32 \<Rightarrow> u32 \<Rightarrow> nat \<Rightarrow> u32 \<times> u32" where
  "rmd_R41 a b c d e x r = rmd_Round a b c d e (rmd_f4 b c d) x 0x8F1BBCDC r"

definition rmd_R42 :: "u32 \<Rightarrow> u32 \<Rightarrow> u32 \<Rightarrow> u32 \<Rightarrow> u32 \<Rightarrow> u32 \<Rightarrow> nat \<Rightarrow> u32 \<times> u32" where
  "rmd_R42 a b c d e x r = rmd_Round a b c d e (rmd_f2 b c d) x 0x7A6D76E9 r"

definition rmd_R51 :: "u32 \<Rightarrow> u32 \<Rightarrow> u32 \<Rightarrow> u32 \<Rightarrow> u32 \<Rightarrow> u32 \<Rightarrow> nat \<Rightarrow> u32 \<times> u32" where
  "rmd_R51 a b c d e x r = rmd_Round a b c d e (rmd_f5 b c d) x 0xA953FD4E r"

definition rmd_R52 :: "u32 \<Rightarrow> u32 \<Rightarrow> u32 \<Rightarrow> u32 \<Rightarrow> u32 \<Rightarrow> u32 \<Rightarrow> nat \<Rightarrow> u32 \<times> u32" where
  "rmd_R52 a b c d e x r = rmd_Round a b c d e (rmd_f1 b c d) x 0 r"

definition rmd_rounds_1 :: "u32 list \<Rightarrow> rmd_regs \<times> rmd_regs \<Rightarrow> rmd_regs \<times> rmd_regs" where
  "rmd_rounds_1 w = (\<lambda>((a1, b1, c1, d1, e1), (a2, b2, c2, d2, e2)).
    let
      (a1, c1) = rmd_R11 a1 b1 c1 d1 e1 (w ! 0) 11;
      (a2, c2) = rmd_R12 a2 b2 c2 d2 e2 (w ! 5) 8;
      (e1, b1) = rmd_R11 e1 a1 b1 c1 d1 (w ! 1) 14;
      (e2, b2) = rmd_R12 e2 a2 b2 c2 d2 (w ! 14) 9;
      (d1, a1) = rmd_R11 d1 e1 a1 b1 c1 (w ! 2) 15;
      (d2, a2) = rmd_R12 d2 e2 a2 b2 c2 (w ! 7) 9;
      (c1, e1) = rmd_R11 c1 d1 e1 a1 b1 (w ! 3) 12;
      (c2, e2) = rmd_R12 c2 d2 e2 a2 b2 (w ! 0) 11;
      (b1, d1) = rmd_R11 b1 c1 d1 e1 a1 (w ! 4) 5;
      (b2, d2) = rmd_R12 b2 c2 d2 e2 a2 (w ! 9) 13;
      (a1, c1) = rmd_R11 a1 b1 c1 d1 e1 (w ! 5) 8;
      (a2, c2) = rmd_R12 a2 b2 c2 d2 e2 (w ! 2) 15;
      (e1, b1) = rmd_R11 e1 a1 b1 c1 d1 (w ! 6) 7;
      (e2, b2) = rmd_R12 e2 a2 b2 c2 d2 (w ! 11) 15;
      (d1, a1) = rmd_R11 d1 e1 a1 b1 c1 (w ! 7) 9;
      (d2, a2) = rmd_R12 d2 e2 a2 b2 c2 (w ! 4) 5;
      (c1, e1) = rmd_R11 c1 d1 e1 a1 b1 (w ! 8) 11;
      (c2, e2) = rmd_R12 c2 d2 e2 a2 b2 (w ! 13) 7;
      (b1, d1) = rmd_R11 b1 c1 d1 e1 a1 (w ! 9) 13;
      (b2, d2) = rmd_R12 b2 c2 d2 e2 a2 (w ! 6) 7;
      (a1, c1) = rmd_R11 a1 b1 c1 d1 e1 (w ! 10) 14;
      (a2, c2) = rmd_R12 a2 b2 c2 d2 e2 (w ! 15) 8;
      (e1, b1) = rmd_R11 e1 a1 b1 c1 d1 (w ! 11) 15;
      (e2, b2) = rmd_R12 e2 a2 b2 c2 d2 (w ! 8) 11;
      (d1, a1) = rmd_R11 d1 e1 a1 b1 c1 (w ! 12) 6;
      (d2, a2) = rmd_R12 d2 e2 a2 b2 c2 (w ! 1) 14;
      (c1, e1) = rmd_R11 c1 d1 e1 a1 b1 (w ! 13) 7;
      (c2, e2) = rmd_R12 c2 d2 e2 a2 b2 (w ! 10) 14;
      (b1, d1) = rmd_R11 b1 c1 d1 e1 a1 (w ! 14) 9;
      (b2, d2) = rmd_R12 b2 c2 d2 e2 a2 (w ! 3) 12;
      (a1, c1) = rmd_R11 a1 b1 c1 d1 e1 (w ! 15) 8;
      (a2, c2) = rmd_R12 a2 b2 c2 d2 e2 (w ! 12) 6
    in ((e1, a1, b1, c1, d1), (e2, a2, b2, c2, d2)))"

definition rmd_rounds_2 :: "u32 list \<Rightarrow> rmd_regs \<times> rmd_regs \<Rightarrow> rmd_regs \<times> rmd_regs" where
  "rmd_rounds_2 w = (\<lambda>((a1, b1, c1, d1, e1), (a2, b2, c2, d2, e2)).
    let
      (a1, c1) = rmd_R21 a1 b1 c1 d1 e1 (w ! 7) 7;
      (a2, c2) = rmd_R22 a2 b2 c2 d2 e2 (w ! 6) 9;
      (e1, b1) = rmd_R21 e1 a1 b1 c1 d1 (w ! 4) 6;
      (e2, b2) = rmd_R22 e2 a2 b2 c2 d2 (w ! 11) 13;
      (d1, a1) = rmd_R21 d1 e1 a1 b1 c1 (w ! 13) 8;
      (d2, a2) = rmd_R22 d2 e2 a2 b2 c2 (w ! 3) 15;
      (c1, e1) = rmd_R21 c1 d1 e1 a1 b1 (w ! 1) 13;
      (c2, e2) = rmd_R22 c2 d2 e2 a2 b2 (w ! 7) 7;
      (b1, d1) = rmd_R21 b1 c1 d1 e1 a1 (w ! 10) 11;
      (b2, d2) = rmd_R22 b2 c2 d2 e2 a2 (w ! 0) 12;
      (a1, c1) = rmd_R21 a1 b1 c1 d1 e1 (w ! 6) 9;
      (a2, c2) = rmd_R22 a2 b2 c2 d2 e2 (w ! 13) 8;
      (e1, b1) = rmd_R21 e1 a1 b1 c1 d1 (w ! 15) 7;
      (e2, b2) = rmd_R22 e2 a2 b2 c2 d2 (w ! 5) 9;
      (d1, a1) = rmd_R21 d1 e1 a1 b1 c1 (w ! 3) 15;
      (d2, a2) = rmd_R22 d2 e2 a2 b2 c2 (w ! 10) 11;
      (c1, e1) = rmd_R21 c1 d1 e1 a1 b1 (w ! 12) 7;
      (c2, e2) = rmd_R22 c2 d2 e2 a2 b2 (w ! 14) 7;
      (b1, d1) = rmd_R21 b1 c1 d1 e1 a1 (w ! 0) 12;
      (b2, d2) = rmd_R22 b2 c2 d2 e2 a2 (w ! 15) 7;
      (a1, c1) = rmd_R21 a1 b1 c1 d1 e1 (w ! 9) 15;
      (a2, c2) = rmd_R22 a2 b2 c2 d2 e2 (w ! 8) 12;
      (e1, b1) = rmd_R21 e1 a1 b1 c1 d1 (w ! 5) 9;
      (e2, b2) = rmd_R22 e2 a2 b2 c2 d2 (w ! 12) 7;
      (d1, a1) = rmd_R21 d1 e1 a1 b1 c1 (w ! 2) 11;
      (d2, a2) = rmd_R22 d2 e2 a2 b2 c2 (w ! 4) 6;
      (c1, e1) = rmd_R21 c1 d1 e1 a1 b1 (w ! 14) 7;
      (c2, e2) = rmd_R22 c2 d2 e2 a2 b2 (w ! 9) 15;
      (b1, d1) = rmd_R21 b1 c1 d1 e1 a1 (w ! 11) 13;
      (b2, d2) = rmd_R22 b2 c2 d2 e2 a2 (w ! 1) 13;
      (a1, c1) = rmd_R21 a1 b1 c1 d1 e1 (w ! 8) 12;
      (a2, c2) = rmd_R22 a2 b2 c2 d2 e2 (w ! 2) 11
    in ((e1, a1, b1, c1, d1), (e2, a2, b2, c2, d2)))"

definition rmd_rounds_3 :: "u32 list \<Rightarrow> rmd_regs \<times> rmd_regs \<Rightarrow> rmd_regs \<times> rmd_regs" where
  "rmd_rounds_3 w = (\<lambda>((a1, b1, c1, d1, e1), (a2, b2, c2, d2, e2)).
    let
      (a1, c1) = rmd_R31 a1 b1 c1 d1 e1 (w ! 3) 11;
      (a2, c2) = rmd_R32 a2 b2 c2 d2 e2 (w ! 15) 9;
      (e1, b1) = rmd_R31 e1 a1 b1 c1 d1 (w ! 10) 13;
      (e2, b2) = rmd_R32 e2 a2 b2 c2 d2 (w ! 5) 7;
      (d1, a1) = rmd_R31 d1 e1 a1 b1 c1 (w ! 14) 6;
      (d2, a2) = rmd_R32 d2 e2 a2 b2 c2 (w ! 1) 15;
      (c1, e1) = rmd_R31 c1 d1 e1 a1 b1 (w ! 4) 7;
      (c2, e2) = rmd_R32 c2 d2 e2 a2 b2 (w ! 3) 11;
      (b1, d1) = rmd_R31 b1 c1 d1 e1 a1 (w ! 9) 14;
      (b2, d2) = rmd_R32 b2 c2 d2 e2 a2 (w ! 7) 8;
      (a1, c1) = rmd_R31 a1 b1 c1 d1 e1 (w ! 15) 9;
      (a2, c2) = rmd_R32 a2 b2 c2 d2 e2 (w ! 14) 6;
      (e1, b1) = rmd_R31 e1 a1 b1 c1 d1 (w ! 8) 13;
      (e2, b2) = rmd_R32 e2 a2 b2 c2 d2 (w ! 6) 6;
      (d1, a1) = rmd_R31 d1 e1 a1 b1 c1 (w ! 1) 15;
      (d2, a2) = rmd_R32 d2 e2 a2 b2 c2 (w ! 9) 14;
      (c1, e1) = rmd_R31 c1 d1 e1 a1 b1 (w ! 2) 14;
      (c2, e2) = rmd_R32 c2 d2 e2 a2 b2 (w ! 11) 12;
      (b1, d1) = rmd_R31 b1 c1 d1 e1 a1 (w ! 7) 8;
      (b2, d2) = rmd_R32 b2 c2 d2 e2 a2 (w ! 8) 13;
      (a1, c1) = rmd_R31 a1 b1 c1 d1 e1 (w ! 0) 13;
      (a2, c2) = rmd_R32 a2 b2 c2 d2 e2 (w ! 12) 5;
      (e1, b1) = rmd_R31 e1 a1 b1 c1 d1 (w ! 6) 6;
      (e2, b2) = rmd_R32 e2 a2 b2 c2 d2 (w ! 2) 14;
      (d1, a1) = rmd_R31 d1 e1 a1 b1 c1 (w ! 13) 5;
      (d2, a2) = rmd_R32 d2 e2 a2 b2 c2 (w ! 10) 13;
      (c1, e1) = rmd_R31 c1 d1 e1 a1 b1 (w ! 11) 12;
      (c2, e2) = rmd_R32 c2 d2 e2 a2 b2 (w ! 0) 13;
      (b1, d1) = rmd_R31 b1 c1 d1 e1 a1 (w ! 5) 7;
      (b2, d2) = rmd_R32 b2 c2 d2 e2 a2 (w ! 4) 7;
      (a1, c1) = rmd_R31 a1 b1 c1 d1 e1 (w ! 12) 5;
      (a2, c2) = rmd_R32 a2 b2 c2 d2 e2 (w ! 13) 5
    in ((e1, a1, b1, c1, d1), (e2, a2, b2, c2, d2)))"

definition rmd_rounds_4 :: "u32 list \<Rightarrow> rmd_regs \<times> rmd_regs \<Rightarrow> rmd_regs \<times> rmd_regs" where
  "rmd_rounds_4 w = (\<lambda>((a1, b1, c1, d1, e1), (a2, b2, c2, d2, e2)).
    let
      (a1, c1) = rmd_R41 a1 b1 c1 d1 e1 (w ! 1) 11;
      (a2, c2) = rmd_R42 a2 b2 c2 d2 e2 (w ! 8) 15;
      (e1, b1) = rmd_R41 e1 a1 b1 c1 d1 (w ! 9) 12;
      (e2, b2) = rmd_R42 e2 a2 b2 c2 d2 (w ! 6) 5;
      (d1, a1) = rmd_R41 d1 e1 a1 b1 c1 (w ! 11) 14;
      (d2, a2) = rmd_R42 d2 e2 a2 b2 c2 (w ! 4) 8;
      (c1, e1) = rmd_R41 c1 d1 e1 a1 b1 (w ! 10) 15;
      (c2, e2) = rmd_R42 c2 d2 e2 a2 b2 (w ! 1) 11;
      (b1, d1) = rmd_R41 b1 c1 d1 e1 a1 (w ! 0) 14;
      (b2, d2) = rmd_R42 b2 c2 d2 e2 a2 (w ! 3) 14;
      (a1, c1) = rmd_R41 a1 b1 c1 d1 e1 (w ! 8) 15;
      (a2, c2) = rmd_R42 a2 b2 c2 d2 e2 (w ! 11) 14;
      (e1, b1) = rmd_R41 e1 a1 b1 c1 d1 (w ! 12) 9;
      (e2, b2) = rmd_R42 e2 a2 b2 c2 d2 (w ! 15) 6;
      (d1, a1) = rmd_R41 d1 e1 a1 b1 c1 (w ! 4) 8;
      (d2, a2) = rmd_R42 d2 e2 a2 b2 c2 (w ! 0) 14;
      (c1, e1) = rmd_R41 c1 d1 e1 a1 b1 (w ! 13) 9;
      (c2, e2) = rmd_R42 c2 d2 e2 a2 b2 (w ! 5) 6;
      (b1, d1) = rmd_R41 b1 c1 d1 e1 a1 (w ! 3) 14;
      (b2, d2) = rmd_R42 b2 c2 d2 e2 a2 (w ! 12) 9;
      (a1, c1) = rmd_R41 a1 b1 c1 d1 e1 (w ! 7) 5;
      (a2, c2) = rmd_R42 a2 b2 c2 d2 e2 (w ! 2) 12;
      (e1, b1) = rmd_R41 e1 a1 b1 c1 d1 (w ! 15) 6;
      (e2, b2) = rmd_R42 e2 a2 b2 c2 d2 (w ! 13) 9;
      (d1, a1) = rmd_R41 d1 e1 a1 b1 c1 (w ! 14) 8;
      (d2, a2) = rmd_R42 d2 e2 a2 b2 c2 (w ! 9) 12;
      (c1, e1) = rmd_R41 c1 d1 e1 a1 b1 (w ! 5) 6;
      (c2, e2) = rmd_R42 c2 d2 e2 a2 b2 (w ! 7) 5;
      (b1, d1) = rmd_R41 b1 c1 d1 e1 a1 (w ! 6) 5;
      (b2, d2) = rmd_R42 b2 c2 d2 e2 a2 (w ! 10) 15;
      (a1, c1) = rmd_R41 a1 b1 c1 d1 e1 (w ! 2) 12;
      (a2, c2) = rmd_R42 a2 b2 c2 d2 e2 (w ! 14) 8
    in ((e1, a1, b1, c1, d1), (e2, a2, b2, c2, d2)))"

definition rmd_rounds_5 :: "u32 list \<Rightarrow> rmd_regs \<times> rmd_regs \<Rightarrow> rmd_regs \<times> rmd_regs" where
  "rmd_rounds_5 w = (\<lambda>((a1, b1, c1, d1, e1), (a2, b2, c2, d2, e2)).
    let
      (a1, c1) = rmd_R51 a1 b1 c1 d1 e1 (w ! 4) 9;
      (a2, c2) = rmd_R52 a2 b2 c2 d2 e2 (w ! 12) 8;
      (e1, b1) = rmd_R51 e1 a1 b1 c1 d1 (w ! 0) 15;
      (e2, b2) = rmd_R52 e2 a2 b2 c2 d2 (w ! 15) 5;
      (d1, a1) = rmd_R51 d1 e1 a1 b1 c1 (w ! 5) 5;
      (d2, a2) = rmd_R52 d2 e2 a2 b2 c2 (w ! 10) 12;
      (c1, e1) = rmd_R51 c1 d1 e1 a1 b1 (w ! 9) 11;
      (c2, e2) = rmd_R52 c2 d2 e2 a2 b2 (w ! 4) 9;
      (b1, d1) = rmd_R51 b1 c1 d1 e1 a1 (w ! 7) 6;
      (b2, d2) = rmd_R52 b2 c2 d2 e2 a2 (w ! 1) 12;
      (a1, c1) = rmd_R51 a1 b1 c1 d1 e1 (w ! 12) 8;
      (a2, c2) = rmd_R52 a2 b2 c2 d2 e2 (w ! 5) 5;
      (e1, b1) = rmd_R51 e1 a1 b1 c1 d1 (w ! 2) 13;
      (e2, b2) = rmd_R52 e2 a2 b2 c2 d2 (w ! 8) 14;
      (d1, a1) = rmd_R51 d1 e1 a1 b1 c1 (w ! 10) 12;
      (d2, a2) = rmd_R52 d2 e2 a2 b2 c2 (w ! 7) 6;
      (c1, e1) = rmd_R51 c1 d1 e1 a1 b1 (w ! 14) 5;
      (c2, e2) = rmd_R52 c2 d2 e2 a2 b2 (w ! 6) 8;
      (b1, d1) = rmd_R51 b1 c1 d1 e1 a1 (w ! 1) 12;
      (b2, d2) = rmd_R52 b2 c2 d2 e2 a2 (w ! 2) 13;
      (a1, c1) = rmd_R51 a1 b1 c1 d1 e1 (w ! 3) 13;
      (a2, c2) = rmd_R52 a2 b2 c2 d2 e2 (w ! 13) 6;
      (e1, b1) = rmd_R51 e1 a1 b1 c1 d1 (w ! 8) 14;
      (e2, b2) = rmd_R52 e2 a2 b2 c2 d2 (w ! 14) 5;
      (d1, a1) = rmd_R51 d1 e1 a1 b1 c1 (w ! 11) 11;
      (d2, a2) = rmd_R52 d2 e2 a2 b2 c2 (w ! 0) 15;
      (c1, e1) = rmd_R51 c1 d1 e1 a1 b1 (w ! 6) 8;
      (c2, e2) = rmd_R52 c2 d2 e2 a2 b2 (w ! 3) 13;
      (b1, d1) = rmd_R51 b1 c1 d1 e1 a1 (w ! 15) 5;
      (b2, d2) = rmd_R52 b2 c2 d2 e2 a2 (w ! 9) 11;
      (a1, c1) = rmd_R51 a1 b1 c1 d1 e1 (w ! 13) 6;
      (a2, c2) = rmd_R52 a2 b2 c2 d2 e2 (w ! 11) 11
    in ((e1, a1, b1, c1, d1), (e2, a2, b2, c2, d2)))"

definition rmd_Transform :: "u32 list \<Rightarrow> bytes \<Rightarrow> u32 list" where
  "rmd_Transform s blk =
    (let w = map (\<lambda>i. ReadLE32 (drop (4 * i) blk)) [0..<16];
         st = (s ! 0, s ! 1, s ! 2, s ! 3, s ! 4);
         ((a1, b1, c1, d1, e1), (a2, b2, c2, d2, e2)) =
           rmd_rounds_5 w (rmd_rounds_4 w (rmd_rounds_3 w (rmd_rounds_2 w (rmd_rounds_1 w (st, st)))))
     in [s ! 1 + c1 + d2, s ! 2 + d1 + e2, s ! 3 + e1 + a2, s ! 4 + a1 + b2, s ! 0 + b1 + c2])"

section \<open>The hasher\<close>

definition CRIPEMD160_new :: "bytes \<Rightarrow> u32 hasher" where "CRIPEMD160_new buf = hasher_new rmd_Initialize buf"

definition CRIPEMD160_Write :: "u32 hasher \<Rightarrow> bytes \<Rightarrow> u32 hasher" where
  "CRIPEMD160_Write h data = hasher_Write 64 rmd_Transform h data"

definition CRIPEMD160_Finalize :: "u32 hasher \<Rightarrow> u32 hasher \<times> bytes" where
  "CRIPEMD160_Finalize h =
    (let pad = 0x80 # replicate 63 0;
         sizedesc = WriteLE64 (push_bit 3 (hs_bytes h));
         h = CRIPEMD160_Write h (take (1 + (119 - unat (hs_bytes h) mod 64) mod 64) pad);
         h = CRIPEMD160_Write h sizedesc
     in (h, concat (map (\<lambda>i. WriteLE32 (hs_s h ! i)) [0..<5])))"

definition CRIPEMD160_Reset :: "u32 hasher \<Rightarrow> u32 hasher" where
  "CRIPEMD160_Reset h = hasher_Reset rmd_Initialize h"

text \<open>\<^verbatim>\<open>CHash160\<close> wraps a SHA-256 hasher; \<open>buf\<close> is the memory of the RIPEMD-160 hasher on the stack.\<close>

definition CHash160_Write :: "CSHA256 \<Rightarrow> bytes \<Rightarrow> CSHA256" where "CHash160_Write sha data = CSHA256_Write sha data"
definition CHash160_Reset :: "CSHA256 \<Rightarrow> CSHA256" where "CHash160_Reset sha = CSHA256_Reset sha"

definition CHash160_Finalize :: "bytes \<Rightarrow> CSHA256 \<Rightarrow> CSHA256 \<times> bytes" where
  "CHash160_Finalize stk sha =
    (let (sha, buf) = CSHA256_Finalize sha
     in (sha, snd (CRIPEMD160_Finalize (CRIPEMD160_Write (CRIPEMD160_new stk) buf))))"

section \<open>The standard\<close>

definition rho :: "nat \<Rightarrow> nat" where "rho i = [7, 4, 13, 1, 10, 6, 15, 3, 12, 0, 9, 5, 2, 14, 11, 8] ! i"
definition rmd_pi :: "nat \<Rightarrow> nat" where "rmd_pi i = (9 * i + 5) mod 16"

text \<open>The word, the shift, the constant and the function of round \<open>t\<close> on the left and the right line.\<close>

definition rmd_r :: "nat \<Rightarrow> nat" where "rmd_r t = (rho ^^ (t div 16)) (t mod 16)"
definition rmd_r' :: "nat \<Rightarrow> nat" where "rmd_r' t = (rho ^^ (t div 16)) (rmd_pi (t mod 16))"

definition rmd_s :: "nat \<Rightarrow> nat" where
  "rmd_s t =
    [11, 14, 15, 12, 5, 8, 7, 9, 11, 13, 14, 15, 6, 7, 9, 8,
     7, 6, 8, 13, 11, 9, 7, 15, 7, 12, 15, 9, 11, 7, 13, 12,
     11, 13, 6, 7, 14, 9, 13, 15, 14, 8, 13, 6, 5, 12, 7, 5,
     11, 12, 14, 15, 14, 15, 9, 8, 9, 14, 5, 6, 8, 6, 5, 12,
     9, 15, 5, 11, 6, 8, 13, 12, 5, 12, 13, 14, 11, 8, 5, 6] ! t"

definition rmd_s' :: "nat \<Rightarrow> nat" where
  "rmd_s' t =
    [8, 9, 9, 11, 13, 15, 15, 5, 7, 7, 8, 11, 14, 14, 12, 6,
     9, 13, 15, 7, 12, 8, 9, 11, 7, 7, 12, 7, 6, 15, 13, 11,
     9, 7, 15, 11, 8, 6, 6, 14, 12, 13, 5, 14, 13, 13, 7, 5,
     15, 5, 8, 11, 14, 14, 6, 14, 6, 9, 12, 9, 12, 5, 15, 8,
     8, 5, 12, 9, 12, 5, 14, 6, 8, 13, 6, 5, 15, 13, 11, 11] ! t"

definition rmd_K :: "nat \<Rightarrow> u32" where "rmd_K t = [0, 0x5A827999, 0x6ED9EBA1, 0x8F1BBCDC, 0xA953FD4E] ! (t div 16)"
definition rmd_K' :: "nat \<Rightarrow> u32" where "rmd_K' t = [0x50A28BE6, 0x5C4DD124, 0x6D703EF3, 0x7A6D76E9, 0] ! (t div 16)"

definition rmd_f :: "nat \<Rightarrow> u32 \<Rightarrow> u32 \<Rightarrow> u32 \<Rightarrow> u32" where
  "rmd_f t = [rmd_f1, rmd_f2, rmd_f3, rmd_f4, rmd_f5] ! (t div 16)"

definition rmd_step :: "(u32 \<Rightarrow> u32 \<Rightarrow> u32 \<Rightarrow> u32) \<Rightarrow> u32 \<Rightarrow> u32 \<Rightarrow> nat \<Rightarrow> rmd_regs \<Rightarrow> rmd_regs" where
  "rmd_step f x k r = (\<lambda>(a, b, c, d, e). (e, word_rotl r (a + f b c d + x + k) + e, b, word_rotl 10 c, d))"

definition rmd_left :: "u32 list \<Rightarrow> nat \<Rightarrow> rmd_regs \<Rightarrow> rmd_regs" where
  "rmd_left w t = rmd_step (rmd_f t) (w ! rmd_r t) (rmd_K t) (rmd_s t)"

definition rmd_right :: "u32 list \<Rightarrow> nat \<Rightarrow> rmd_regs \<Rightarrow> rmd_regs" where
  "rmd_right w t = rmd_step (rmd_f (79 - t)) (w ! rmd_r' t) (rmd_K' t) (rmd_s' t)"

definition rmd_compress :: "bytes \<Rightarrow> u32 list \<Rightarrow> u32 list" where
  "rmd_compress blk H =
    (let w = map (\<lambda>i. le_word (take 4 (drop (4 * i) blk))) [0..<16];
         st = (H ! 0, H ! 1, H ! 2, H ! 3, H ! 4);
         (a, b, c, d, e) = fold (rmd_left w) [0..<80] st;
         (a', b', c', d', e') = fold (rmd_right w) [0..<80] st
     in [H ! 1 + c + d', H ! 2 + d + e', H ! 3 + e + a', H ! 4 + a + b', H ! 0 + b + c'])"

definition rmd_pad :: "bytes \<Rightarrow> bytes" where
  "rmd_pad m = m @ pad_bytes 64 8 (length m) @ le_bytes 8 (of_nat (8 * length m) :: u64)"

definition ripemd160 :: "bytes \<Rightarrow> bytes" where
  "ripemd160 m = concat (map (le_bytes 4) (absorb_blocks 64 rmd_compress (rmd_pad m) rmd_Initialize))"

definition hash160 :: "bytes \<Rightarrow> bytes" where
  "hash160 m = ripemd160 (fips_sha256 m)"

section \<open>The transformation is the compression function\<close>

lemma rmd_Round_step:
  assumes "0 < r" and "r < 32"
  shows "rmd_Round a b c d e (f b c d) x k r = (a', c') \<longleftrightarrow> rmd_step f x k r (a, b, c, d, e) = (e, a', b, c', d)"
  using push_drop_rotl32 [OF assms, of "a + f b c d + x + k"] push_drop_rotl32 [of 10 c]
  by (simp add: rmd_Round_def rmd_step_def rmd_rol_def)

text \<open>Sixteen rounds of both lines.\<close>

definition rmd_group :: "nat \<Rightarrow> u32 list \<Rightarrow> rmd_regs \<times> rmd_regs \<Rightarrow> rmd_regs \<times> rmd_regs" where
  "rmd_group g w = (\<lambda>(st, st'). (fold (rmd_left w) [16 * g..<16 * g + 16] st, fold (rmd_right w) [16 * g..<16 * g + 16] st'))"

lemma rmd_let_eqI:
  assumes "0 < r" and "r < 32" and "\<And>a' c'. rmd_step f x k r (a, b, c, d, e) = (e, a', b, c', d) \<Longrightarrow> F a' c' = Z"
  shows "(let (a', c') = rmd_Round a b c d e (f b c d) x k r in F a' c') = Z"
proof -
  obtain a' c' where R: "rmd_Round a b c d e (f b c d) x k r = (a', c')" by (metis surj_pair)
  then have "rmd_step f x k r (a, b, c, d, e) = (e, a', b, c', d)" by (simp only: rmd_Round_step [OF assms(1,2)])
  from assms(3) [OF this] show ?thesis by (simp only: R Let_def prod.case)
qed

lemma rmd_R11_eqI:
  assumes "0 < r" and "r < 32" and "\<And>a' c'. rmd_step rmd_f1 x 0 r (a, b, c, d, e) = (e, a', b, c', d) \<Longrightarrow> F a' c' = Z"
  shows "(let (a', c') = rmd_R11 a b c d e x r in F a' c') = Z"
  unfolding rmd_R11_def by (rule rmd_let_eqI [OF assms])

lemma rmd_R12_eqI:
  assumes "0 < r" and "r < 32" and "\<And>a' c'. rmd_step rmd_f5 x 0x50A28BE6 r (a, b, c, d, e) = (e, a', b, c', d) \<Longrightarrow> F a' c' = Z"
  shows "(let (a', c') = rmd_R12 a b c d e x r in F a' c') = Z"
  unfolding rmd_R12_def by (rule rmd_let_eqI [OF assms])

lemma rmd_R21_eqI:
  assumes "0 < r" and "r < 32" and "\<And>a' c'. rmd_step rmd_f2 x 0x5A827999 r (a, b, c, d, e) = (e, a', b, c', d) \<Longrightarrow> F a' c' = Z"
  shows "(let (a', c') = rmd_R21 a b c d e x r in F a' c') = Z"
  unfolding rmd_R21_def by (rule rmd_let_eqI [OF assms])

lemma rmd_R22_eqI:
  assumes "0 < r" and "r < 32" and "\<And>a' c'. rmd_step rmd_f4 x 0x5C4DD124 r (a, b, c, d, e) = (e, a', b, c', d) \<Longrightarrow> F a' c' = Z"
  shows "(let (a', c') = rmd_R22 a b c d e x r in F a' c') = Z"
  unfolding rmd_R22_def by (rule rmd_let_eqI [OF assms])

lemma rmd_R31_eqI:
  assumes "0 < r" and "r < 32" and "\<And>a' c'. rmd_step rmd_f3 x 0x6ED9EBA1 r (a, b, c, d, e) = (e, a', b, c', d) \<Longrightarrow> F a' c' = Z"
  shows "(let (a', c') = rmd_R31 a b c d e x r in F a' c') = Z"
  unfolding rmd_R31_def by (rule rmd_let_eqI [OF assms])

lemma rmd_R32_eqI:
  assumes "0 < r" and "r < 32" and "\<And>a' c'. rmd_step rmd_f3 x 0x6D703EF3 r (a, b, c, d, e) = (e, a', b, c', d) \<Longrightarrow> F a' c' = Z"
  shows "(let (a', c') = rmd_R32 a b c d e x r in F a' c') = Z"
  unfolding rmd_R32_def by (rule rmd_let_eqI [OF assms])

lemma rmd_R41_eqI:
  assumes "0 < r" and "r < 32" and "\<And>a' c'. rmd_step rmd_f4 x 0x8F1BBCDC r (a, b, c, d, e) = (e, a', b, c', d) \<Longrightarrow> F a' c' = Z"
  shows "(let (a', c') = rmd_R41 a b c d e x r in F a' c') = Z"
  unfolding rmd_R41_def by (rule rmd_let_eqI [OF assms])

lemma rmd_R42_eqI:
  assumes "0 < r" and "r < 32" and "\<And>a' c'. rmd_step rmd_f2 x 0x7A6D76E9 r (a, b, c, d, e) = (e, a', b, c', d) \<Longrightarrow> F a' c' = Z"
  shows "(let (a', c') = rmd_R42 a b c d e x r in F a' c') = Z"
  unfolding rmd_R42_def by (rule rmd_let_eqI [OF assms])

lemma rmd_R51_eqI:
  assumes "0 < r" and "r < 32" and "\<And>a' c'. rmd_step rmd_f5 x 0xA953FD4E r (a, b, c, d, e) = (e, a', b, c', d) \<Longrightarrow> F a' c' = Z"
  shows "(let (a', c') = rmd_R51 a b c d e x r in F a' c') = Z"
  unfolding rmd_R51_def by (rule rmd_let_eqI [OF assms])

lemma rmd_R52_eqI:
  assumes "0 < r" and "r < 32" and "\<And>a' c'. rmd_step rmd_f1 x 0 r (a, b, c, d, e) = (e, a', b, c', d) \<Longrightarrow> F a' c' = Z"
  shows "(let (a', c') = rmd_R52 a b c d e x r in F a' c') = Z"
  unfolding rmd_R52_def by (rule rmd_let_eqI [OF assms])

lemmas rmd_R_eqI =
  rmd_R11_eqI rmd_R12_eqI
  rmd_R21_eqI rmd_R22_eqI
  rmd_R31_eqI rmd_R32_eqI
  rmd_R41_eqI rmd_R42_eqI
  rmd_R51_eqI rmd_R52_eqI

lemma rho_powers: "(rho ^^ 2) i = rho (rho i)" "(rho ^^ 3) i = rho (rho (rho i))" "(rho ^^ 4) i = rho (rho (rho (rho i)))"
  by (simp_all add: numeral_eq_Suc)

lemma rmd_tables_1:
    "rmd_r 0 = 0" "rmd_r 1 = 1" "rmd_r 2 = 2" "rmd_r 3 = 3" "rmd_r 4 = 4" "rmd_r 5 = 5" "rmd_r 6 = 6" "rmd_r 7 = 7"
    "rmd_r 8 = 8" "rmd_r 9 = 9" "rmd_r 10 = 10" "rmd_r 11 = 11" "rmd_r 12 = 12" "rmd_r 13 = 13" "rmd_r 14 = 14" "rmd_r 15 = 15"
    "rmd_r' 0 = 5" "rmd_r' 1 = 14" "rmd_r' 2 = 7" "rmd_r' 3 = 0" "rmd_r' 4 = 9" "rmd_r' 5 = 2" "rmd_r' 6 = 11" "rmd_r' 7 = 4"
    "rmd_r' 8 = 13" "rmd_r' 9 = 6" "rmd_r' 10 = 15" "rmd_r' 11 = 8" "rmd_r' 12 = 1" "rmd_r' 13 = 10" "rmd_r' 14 = 3" "rmd_r' 15 = 12"
    "rmd_s 0 = 11" "rmd_s 1 = 14" "rmd_s 2 = 15" "rmd_s 3 = 12" "rmd_s 4 = 5" "rmd_s 5 = 8" "rmd_s 6 = 7" "rmd_s 7 = 9"
    "rmd_s 8 = 11" "rmd_s 9 = 13" "rmd_s 10 = 14" "rmd_s 11 = 15" "rmd_s 12 = 6" "rmd_s 13 = 7" "rmd_s 14 = 9" "rmd_s 15 = 8"
    "rmd_s' 0 = 8" "rmd_s' 1 = 9" "rmd_s' 2 = 9" "rmd_s' 3 = 11" "rmd_s' 4 = 13" "rmd_s' 5 = 15" "rmd_s' 6 = 15" "rmd_s' 7 = 5"
    "rmd_s' 8 = 7" "rmd_s' 9 = 7" "rmd_s' 10 = 8" "rmd_s' 11 = 11" "rmd_s' 12 = 14" "rmd_s' 13 = 14" "rmd_s' 14 = 12" "rmd_s' 15 = 6"
    "rmd_K 0 = 0" "rmd_K 1 = 0" "rmd_K 2 = 0" "rmd_K 3 = 0" "rmd_K 4 = 0" "rmd_K 5 = 0" "rmd_K 6 = 0" "rmd_K 7 = 0"
    "rmd_K 8 = 0" "rmd_K 9 = 0" "rmd_K 10 = 0" "rmd_K 11 = 0" "rmd_K 12 = 0" "rmd_K 13 = 0" "rmd_K 14 = 0" "rmd_K 15 = 0"
    "rmd_K' 0 = 0x50A28BE6" "rmd_K' 1 = 0x50A28BE6" "rmd_K' 2 = 0x50A28BE6" "rmd_K' 3 = 0x50A28BE6" "rmd_K' 4 = 0x50A28BE6" "rmd_K' 5 = 0x50A28BE6" "rmd_K' 6 = 0x50A28BE6" "rmd_K' 7 = 0x50A28BE6"
    "rmd_K' 8 = 0x50A28BE6" "rmd_K' 9 = 0x50A28BE6" "rmd_K' 10 = 0x50A28BE6" "rmd_K' 11 = 0x50A28BE6" "rmd_K' 12 = 0x50A28BE6" "rmd_K' 13 = 0x50A28BE6" "rmd_K' 14 = 0x50A28BE6" "rmd_K' 15 = 0x50A28BE6"
    "rmd_f 0 = rmd_f1" "rmd_f 1 = rmd_f1" "rmd_f 2 = rmd_f1" "rmd_f 3 = rmd_f1" "rmd_f 4 = rmd_f1" "rmd_f 5 = rmd_f1" "rmd_f 6 = rmd_f1" "rmd_f 7 = rmd_f1"
    "rmd_f 8 = rmd_f1" "rmd_f 9 = rmd_f1" "rmd_f 10 = rmd_f1" "rmd_f 11 = rmd_f1" "rmd_f 12 = rmd_f1" "rmd_f 13 = rmd_f1" "rmd_f 14 = rmd_f1" "rmd_f 15 = rmd_f1"
  by (simp_all add: rmd_r_def rmd_r'_def rmd_pi_def rho_powers rho_def rmd_s_def rmd_s'_def rmd_K_def rmd_K'_def rmd_f_def)

lemma rmd_tables_2:
    "rmd_r 16 = 7" "rmd_r 17 = 4" "rmd_r 18 = 13" "rmd_r 19 = 1" "rmd_r 20 = 10" "rmd_r 21 = 6" "rmd_r 22 = 15" "rmd_r 23 = 3"
    "rmd_r 24 = 12" "rmd_r 25 = 0" "rmd_r 26 = 9" "rmd_r 27 = 5" "rmd_r 28 = 2" "rmd_r 29 = 14" "rmd_r 30 = 11" "rmd_r 31 = 8"
    "rmd_r' 16 = 6" "rmd_r' 17 = 11" "rmd_r' 18 = 3" "rmd_r' 19 = 7" "rmd_r' 20 = 0" "rmd_r' 21 = 13" "rmd_r' 22 = 5" "rmd_r' 23 = 10"
    "rmd_r' 24 = 14" "rmd_r' 25 = 15" "rmd_r' 26 = 8" "rmd_r' 27 = 12" "rmd_r' 28 = 4" "rmd_r' 29 = 9" "rmd_r' 30 = 1" "rmd_r' 31 = 2"
    "rmd_s 16 = 7" "rmd_s 17 = 6" "rmd_s 18 = 8" "rmd_s 19 = 13" "rmd_s 20 = 11" "rmd_s 21 = 9" "rmd_s 22 = 7" "rmd_s 23 = 15"
    "rmd_s 24 = 7" "rmd_s 25 = 12" "rmd_s 26 = 15" "rmd_s 27 = 9" "rmd_s 28 = 11" "rmd_s 29 = 7" "rmd_s 30 = 13" "rmd_s 31 = 12"
    "rmd_s' 16 = 9" "rmd_s' 17 = 13" "rmd_s' 18 = 15" "rmd_s' 19 = 7" "rmd_s' 20 = 12" "rmd_s' 21 = 8" "rmd_s' 22 = 9" "rmd_s' 23 = 11"
    "rmd_s' 24 = 7" "rmd_s' 25 = 7" "rmd_s' 26 = 12" "rmd_s' 27 = 7" "rmd_s' 28 = 6" "rmd_s' 29 = 15" "rmd_s' 30 = 13" "rmd_s' 31 = 11"
    "rmd_K 16 = 0x5A827999" "rmd_K 17 = 0x5A827999" "rmd_K 18 = 0x5A827999" "rmd_K 19 = 0x5A827999" "rmd_K 20 = 0x5A827999" "rmd_K 21 = 0x5A827999" "rmd_K 22 = 0x5A827999" "rmd_K 23 = 0x5A827999"
    "rmd_K 24 = 0x5A827999" "rmd_K 25 = 0x5A827999" "rmd_K 26 = 0x5A827999" "rmd_K 27 = 0x5A827999" "rmd_K 28 = 0x5A827999" "rmd_K 29 = 0x5A827999" "rmd_K 30 = 0x5A827999" "rmd_K 31 = 0x5A827999"
    "rmd_K' 16 = 0x5C4DD124" "rmd_K' 17 = 0x5C4DD124" "rmd_K' 18 = 0x5C4DD124" "rmd_K' 19 = 0x5C4DD124" "rmd_K' 20 = 0x5C4DD124" "rmd_K' 21 = 0x5C4DD124" "rmd_K' 22 = 0x5C4DD124" "rmd_K' 23 = 0x5C4DD124"
    "rmd_K' 24 = 0x5C4DD124" "rmd_K' 25 = 0x5C4DD124" "rmd_K' 26 = 0x5C4DD124" "rmd_K' 27 = 0x5C4DD124" "rmd_K' 28 = 0x5C4DD124" "rmd_K' 29 = 0x5C4DD124" "rmd_K' 30 = 0x5C4DD124" "rmd_K' 31 = 0x5C4DD124"
    "rmd_f 16 = rmd_f2" "rmd_f 17 = rmd_f2" "rmd_f 18 = rmd_f2" "rmd_f 19 = rmd_f2" "rmd_f 20 = rmd_f2" "rmd_f 21 = rmd_f2" "rmd_f 22 = rmd_f2" "rmd_f 23 = rmd_f2"
    "rmd_f 24 = rmd_f2" "rmd_f 25 = rmd_f2" "rmd_f 26 = rmd_f2" "rmd_f 27 = rmd_f2" "rmd_f 28 = rmd_f2" "rmd_f 29 = rmd_f2" "rmd_f 30 = rmd_f2" "rmd_f 31 = rmd_f2"
  by (simp_all add: rmd_r_def rmd_r'_def rmd_pi_def rho_powers rho_def rmd_s_def rmd_s'_def rmd_K_def rmd_K'_def rmd_f_def)

lemma rmd_tables_3:
    "rmd_r 32 = 3" "rmd_r 33 = 10" "rmd_r 34 = 14" "rmd_r 35 = 4" "rmd_r 36 = 9" "rmd_r 37 = 15" "rmd_r 38 = 8" "rmd_r 39 = 1"
    "rmd_r 40 = 2" "rmd_r 41 = 7" "rmd_r 42 = 0" "rmd_r 43 = 6" "rmd_r 44 = 13" "rmd_r 45 = 11" "rmd_r 46 = 5" "rmd_r 47 = 12"
    "rmd_r' 32 = 15" "rmd_r' 33 = 5" "rmd_r' 34 = 1" "rmd_r' 35 = 3" "rmd_r' 36 = 7" "rmd_r' 37 = 14" "rmd_r' 38 = 6" "rmd_r' 39 = 9"
    "rmd_r' 40 = 11" "rmd_r' 41 = 8" "rmd_r' 42 = 12" "rmd_r' 43 = 2" "rmd_r' 44 = 10" "rmd_r' 45 = 0" "rmd_r' 46 = 4" "rmd_r' 47 = 13"
    "rmd_s 32 = 11" "rmd_s 33 = 13" "rmd_s 34 = 6" "rmd_s 35 = 7" "rmd_s 36 = 14" "rmd_s 37 = 9" "rmd_s 38 = 13" "rmd_s 39 = 15"
    "rmd_s 40 = 14" "rmd_s 41 = 8" "rmd_s 42 = 13" "rmd_s 43 = 6" "rmd_s 44 = 5" "rmd_s 45 = 12" "rmd_s 46 = 7" "rmd_s 47 = 5"
    "rmd_s' 32 = 9" "rmd_s' 33 = 7" "rmd_s' 34 = 15" "rmd_s' 35 = 11" "rmd_s' 36 = 8" "rmd_s' 37 = 6" "rmd_s' 38 = 6" "rmd_s' 39 = 14"
    "rmd_s' 40 = 12" "rmd_s' 41 = 13" "rmd_s' 42 = 5" "rmd_s' 43 = 14" "rmd_s' 44 = 13" "rmd_s' 45 = 13" "rmd_s' 46 = 7" "rmd_s' 47 = 5"
    "rmd_K 32 = 0x6ED9EBA1" "rmd_K 33 = 0x6ED9EBA1" "rmd_K 34 = 0x6ED9EBA1" "rmd_K 35 = 0x6ED9EBA1" "rmd_K 36 = 0x6ED9EBA1" "rmd_K 37 = 0x6ED9EBA1" "rmd_K 38 = 0x6ED9EBA1" "rmd_K 39 = 0x6ED9EBA1"
    "rmd_K 40 = 0x6ED9EBA1" "rmd_K 41 = 0x6ED9EBA1" "rmd_K 42 = 0x6ED9EBA1" "rmd_K 43 = 0x6ED9EBA1" "rmd_K 44 = 0x6ED9EBA1" "rmd_K 45 = 0x6ED9EBA1" "rmd_K 46 = 0x6ED9EBA1" "rmd_K 47 = 0x6ED9EBA1"
    "rmd_K' 32 = 0x6D703EF3" "rmd_K' 33 = 0x6D703EF3" "rmd_K' 34 = 0x6D703EF3" "rmd_K' 35 = 0x6D703EF3" "rmd_K' 36 = 0x6D703EF3" "rmd_K' 37 = 0x6D703EF3" "rmd_K' 38 = 0x6D703EF3" "rmd_K' 39 = 0x6D703EF3"
    "rmd_K' 40 = 0x6D703EF3" "rmd_K' 41 = 0x6D703EF3" "rmd_K' 42 = 0x6D703EF3" "rmd_K' 43 = 0x6D703EF3" "rmd_K' 44 = 0x6D703EF3" "rmd_K' 45 = 0x6D703EF3" "rmd_K' 46 = 0x6D703EF3" "rmd_K' 47 = 0x6D703EF3"
    "rmd_f 32 = rmd_f3" "rmd_f 33 = rmd_f3" "rmd_f 34 = rmd_f3" "rmd_f 35 = rmd_f3" "rmd_f 36 = rmd_f3" "rmd_f 37 = rmd_f3" "rmd_f 38 = rmd_f3" "rmd_f 39 = rmd_f3"
    "rmd_f 40 = rmd_f3" "rmd_f 41 = rmd_f3" "rmd_f 42 = rmd_f3" "rmd_f 43 = rmd_f3" "rmd_f 44 = rmd_f3" "rmd_f 45 = rmd_f3" "rmd_f 46 = rmd_f3" "rmd_f 47 = rmd_f3"
  by (simp_all add: rmd_r_def rmd_r'_def rmd_pi_def rho_powers rho_def rmd_s_def rmd_s'_def rmd_K_def rmd_K'_def rmd_f_def)

lemma rmd_tables_4:
    "rmd_r 48 = 1" "rmd_r 49 = 9" "rmd_r 50 = 11" "rmd_r 51 = 10" "rmd_r 52 = 0" "rmd_r 53 = 8" "rmd_r 54 = 12" "rmd_r 55 = 4"
    "rmd_r 56 = 13" "rmd_r 57 = 3" "rmd_r 58 = 7" "rmd_r 59 = 15" "rmd_r 60 = 14" "rmd_r 61 = 5" "rmd_r 62 = 6" "rmd_r 63 = 2"
    "rmd_r' 48 = 8" "rmd_r' 49 = 6" "rmd_r' 50 = 4" "rmd_r' 51 = 1" "rmd_r' 52 = 3" "rmd_r' 53 = 11" "rmd_r' 54 = 15" "rmd_r' 55 = 0"
    "rmd_r' 56 = 5" "rmd_r' 57 = 12" "rmd_r' 58 = 2" "rmd_r' 59 = 13" "rmd_r' 60 = 9" "rmd_r' 61 = 7" "rmd_r' 62 = 10" "rmd_r' 63 = 14"
    "rmd_s 48 = 11" "rmd_s 49 = 12" "rmd_s 50 = 14" "rmd_s 51 = 15" "rmd_s 52 = 14" "rmd_s 53 = 15" "rmd_s 54 = 9" "rmd_s 55 = 8"
    "rmd_s 56 = 9" "rmd_s 57 = 14" "rmd_s 58 = 5" "rmd_s 59 = 6" "rmd_s 60 = 8" "rmd_s 61 = 6" "rmd_s 62 = 5" "rmd_s 63 = 12"
    "rmd_s' 48 = 15" "rmd_s' 49 = 5" "rmd_s' 50 = 8" "rmd_s' 51 = 11" "rmd_s' 52 = 14" "rmd_s' 53 = 14" "rmd_s' 54 = 6" "rmd_s' 55 = 14"
    "rmd_s' 56 = 6" "rmd_s' 57 = 9" "rmd_s' 58 = 12" "rmd_s' 59 = 9" "rmd_s' 60 = 12" "rmd_s' 61 = 5" "rmd_s' 62 = 15" "rmd_s' 63 = 8"
    "rmd_K 48 = 0x8F1BBCDC" "rmd_K 49 = 0x8F1BBCDC" "rmd_K 50 = 0x8F1BBCDC" "rmd_K 51 = 0x8F1BBCDC" "rmd_K 52 = 0x8F1BBCDC" "rmd_K 53 = 0x8F1BBCDC" "rmd_K 54 = 0x8F1BBCDC" "rmd_K 55 = 0x8F1BBCDC"
    "rmd_K 56 = 0x8F1BBCDC" "rmd_K 57 = 0x8F1BBCDC" "rmd_K 58 = 0x8F1BBCDC" "rmd_K 59 = 0x8F1BBCDC" "rmd_K 60 = 0x8F1BBCDC" "rmd_K 61 = 0x8F1BBCDC" "rmd_K 62 = 0x8F1BBCDC" "rmd_K 63 = 0x8F1BBCDC"
    "rmd_K' 48 = 0x7A6D76E9" "rmd_K' 49 = 0x7A6D76E9" "rmd_K' 50 = 0x7A6D76E9" "rmd_K' 51 = 0x7A6D76E9" "rmd_K' 52 = 0x7A6D76E9" "rmd_K' 53 = 0x7A6D76E9" "rmd_K' 54 = 0x7A6D76E9" "rmd_K' 55 = 0x7A6D76E9"
    "rmd_K' 56 = 0x7A6D76E9" "rmd_K' 57 = 0x7A6D76E9" "rmd_K' 58 = 0x7A6D76E9" "rmd_K' 59 = 0x7A6D76E9" "rmd_K' 60 = 0x7A6D76E9" "rmd_K' 61 = 0x7A6D76E9" "rmd_K' 62 = 0x7A6D76E9" "rmd_K' 63 = 0x7A6D76E9"
    "rmd_f 48 = rmd_f4" "rmd_f 49 = rmd_f4" "rmd_f 50 = rmd_f4" "rmd_f 51 = rmd_f4" "rmd_f 52 = rmd_f4" "rmd_f 53 = rmd_f4" "rmd_f 54 = rmd_f4" "rmd_f 55 = rmd_f4"
    "rmd_f 56 = rmd_f4" "rmd_f 57 = rmd_f4" "rmd_f 58 = rmd_f4" "rmd_f 59 = rmd_f4" "rmd_f 60 = rmd_f4" "rmd_f 61 = rmd_f4" "rmd_f 62 = rmd_f4" "rmd_f 63 = rmd_f4"
  by (simp_all add: rmd_r_def rmd_r'_def rmd_pi_def rho_powers rho_def rmd_s_def rmd_s'_def rmd_K_def rmd_K'_def rmd_f_def)

lemma rmd_tables_5:
    "rmd_r 64 = 4" "rmd_r 65 = 0" "rmd_r 66 = 5" "rmd_r 67 = 9" "rmd_r 68 = 7" "rmd_r 69 = 12" "rmd_r 70 = 2" "rmd_r 71 = 10"
    "rmd_r 72 = 14" "rmd_r 73 = 1" "rmd_r 74 = 3" "rmd_r 75 = 8" "rmd_r 76 = 11" "rmd_r 77 = 6" "rmd_r 78 = 15" "rmd_r 79 = 13"
    "rmd_r' 64 = 12" "rmd_r' 65 = 15" "rmd_r' 66 = 10" "rmd_r' 67 = 4" "rmd_r' 68 = 1" "rmd_r' 69 = 5" "rmd_r' 70 = 8" "rmd_r' 71 = 7"
    "rmd_r' 72 = 6" "rmd_r' 73 = 2" "rmd_r' 74 = 13" "rmd_r' 75 = 14" "rmd_r' 76 = 0" "rmd_r' 77 = 3" "rmd_r' 78 = 9" "rmd_r' 79 = 11"
    "rmd_s 64 = 9" "rmd_s 65 = 15" "rmd_s 66 = 5" "rmd_s 67 = 11" "rmd_s 68 = 6" "rmd_s 69 = 8" "rmd_s 70 = 13" "rmd_s 71 = 12"
    "rmd_s 72 = 5" "rmd_s 73 = 12" "rmd_s 74 = 13" "rmd_s 75 = 14" "rmd_s 76 = 11" "rmd_s 77 = 8" "rmd_s 78 = 5" "rmd_s 79 = 6"
    "rmd_s' 64 = 8" "rmd_s' 65 = 5" "rmd_s' 66 = 12" "rmd_s' 67 = 9" "rmd_s' 68 = 12" "rmd_s' 69 = 5" "rmd_s' 70 = 14" "rmd_s' 71 = 6"
    "rmd_s' 72 = 8" "rmd_s' 73 = 13" "rmd_s' 74 = 6" "rmd_s' 75 = 5" "rmd_s' 76 = 15" "rmd_s' 77 = 13" "rmd_s' 78 = 11" "rmd_s' 79 = 11"
    "rmd_K 64 = 0xA953FD4E" "rmd_K 65 = 0xA953FD4E" "rmd_K 66 = 0xA953FD4E" "rmd_K 67 = 0xA953FD4E" "rmd_K 68 = 0xA953FD4E" "rmd_K 69 = 0xA953FD4E" "rmd_K 70 = 0xA953FD4E" "rmd_K 71 = 0xA953FD4E"
    "rmd_K 72 = 0xA953FD4E" "rmd_K 73 = 0xA953FD4E" "rmd_K 74 = 0xA953FD4E" "rmd_K 75 = 0xA953FD4E" "rmd_K 76 = 0xA953FD4E" "rmd_K 77 = 0xA953FD4E" "rmd_K 78 = 0xA953FD4E" "rmd_K 79 = 0xA953FD4E"
    "rmd_K' 64 = 0" "rmd_K' 65 = 0" "rmd_K' 66 = 0" "rmd_K' 67 = 0" "rmd_K' 68 = 0" "rmd_K' 69 = 0" "rmd_K' 70 = 0" "rmd_K' 71 = 0"
    "rmd_K' 72 = 0" "rmd_K' 73 = 0" "rmd_K' 74 = 0" "rmd_K' 75 = 0" "rmd_K' 76 = 0" "rmd_K' 77 = 0" "rmd_K' 78 = 0" "rmd_K' 79 = 0"
    "rmd_f 64 = rmd_f5" "rmd_f 65 = rmd_f5" "rmd_f 66 = rmd_f5" "rmd_f 67 = rmd_f5" "rmd_f 68 = rmd_f5" "rmd_f 69 = rmd_f5" "rmd_f 70 = rmd_f5" "rmd_f 71 = rmd_f5"
    "rmd_f 72 = rmd_f5" "rmd_f 73 = rmd_f5" "rmd_f 74 = rmd_f5" "rmd_f 75 = rmd_f5" "rmd_f 76 = rmd_f5" "rmd_f 77 = rmd_f5" "rmd_f 78 = rmd_f5" "rmd_f 79 = rmd_f5"
  by (simp_all add: rmd_r_def rmd_r'_def rmd_pi_def rho_powers rho_def rmd_s_def rmd_s'_def rmd_K_def rmd_K'_def rmd_f_def)

lemma rmd_rounds_1_run:
  "rmd_rounds_1 w (st, st') = rmd_group 0 w (st, st')"
proof -
  obtain a b c d e where st: "st = (a, b, c, d, e)" by (metis surj_pair)
  obtain a' b' c' d' e' where st': "st' = (a', b', c', d', e')" by (metis surj_pair)
  note One_nat_def [simp del]
  show ?thesis
    unfolding st st' rmd_rounds_1_def prod.case
    by ((rule rmd_R_eqI, simp, simp)+, simp add: rmd_group_def upt16 rmd_left_def rmd_right_def rmd_tables_1 rmd_tables_5(97-112) rmd_tables_1(98) [unfolded One_nat_def])
qed

lemma rmd_rounds_2_run:
  "rmd_rounds_2 w (st, st') = rmd_group 1 w (st, st')"
proof -
  obtain a b c d e where st: "st = (a, b, c, d, e)" by (metis surj_pair)
  obtain a' b' c' d' e' where st': "st' = (a', b', c', d', e')" by (metis surj_pair)
  note One_nat_def [simp del]
  show ?thesis
    unfolding st st' rmd_rounds_2_def prod.case
    by ((rule rmd_R_eqI, simp, simp)+, simp add: rmd_group_def upt16 rmd_left_def rmd_right_def rmd_tables_2 rmd_tables_4(97-112) rmd_tables_1(98) [unfolded One_nat_def])
qed

lemma rmd_rounds_3_run:
  "rmd_rounds_3 w (st, st') = rmd_group 2 w (st, st')"
proof -
  obtain a b c d e where st: "st = (a, b, c, d, e)" by (metis surj_pair)
  obtain a' b' c' d' e' where st': "st' = (a', b', c', d', e')" by (metis surj_pair)
  note One_nat_def [simp del]
  show ?thesis
    unfolding st st' rmd_rounds_3_def prod.case
    by ((rule rmd_R_eqI, simp, simp)+, simp add: rmd_group_def upt16 rmd_left_def rmd_right_def rmd_tables_3 rmd_tables_3(97-112) rmd_tables_1(98) [unfolded One_nat_def])
qed

lemma rmd_rounds_4_run:
  "rmd_rounds_4 w (st, st') = rmd_group 3 w (st, st')"
proof -
  obtain a b c d e where st: "st = (a, b, c, d, e)" by (metis surj_pair)
  obtain a' b' c' d' e' where st': "st' = (a', b', c', d', e')" by (metis surj_pair)
  note One_nat_def [simp del]
  show ?thesis
    unfolding st st' rmd_rounds_4_def prod.case
    by ((rule rmd_R_eqI, simp, simp)+, simp add: rmd_group_def upt16 rmd_left_def rmd_right_def rmd_tables_4 rmd_tables_2(97-112) rmd_tables_1(98) [unfolded One_nat_def])
qed

lemma rmd_rounds_5_run:
  "rmd_rounds_5 w (st, st') = rmd_group 4 w (st, st')"
proof -
  obtain a b c d e where st: "st = (a, b, c, d, e)" by (metis surj_pair)
  obtain a' b' c' d' e' where st': "st' = (a', b', c', d', e')" by (metis surj_pair)
  note One_nat_def [simp del]
  show ?thesis
    unfolding st st' rmd_rounds_5_def prod.case
    by ((rule rmd_R_eqI, simp, simp)+, simp add: rmd_group_def upt16 rmd_left_def rmd_right_def rmd_tables_5 rmd_tables_1(97-112) rmd_tables_1(98) [unfolded One_nat_def])
qed


lemma rmd_Transform_compress: "rmd_Transform s blk = rmd_compress blk s"
proof -
  define w where "w = map (\<lambda>i. le_word (take 4 (drop (4 * i) blk)) :: u32) [0..<16]"
  have w: "map (\<lambda>i. ReadLE32 (drop (4 * i) blk)) [0..<16] = w" by (simp add: w_def ReadLE32_def)
  define st where "st = (s ! 0, s ! 1, s ! 2, s ! 3, s ! 4)"
  note run = rmd_rounds_1_run rmd_rounds_2_run rmd_rounds_3_run rmd_rounds_4_run rmd_rounds_5_run
  have "[0..<80] = [0..<16] @ [16..<32] @ [32..<48] @ [48..<64] @ [64..<80 :: nat]" by (simp add: upt_rec)
  then have all: "fold F [64..<80] (fold F [48..<64] (fold F [32..<48] (fold F [16..<32] (fold F [0..<16] x)))) = fold F [0..<80] x"
    for F :: "nat \<Rightarrow> rmd_regs \<Rightarrow> rmd_regs" and x by (simp only: fold_append comp_apply)
  have "rmd_rounds_5 w (rmd_rounds_4 w (rmd_rounds_3 w (rmd_rounds_2 w (rmd_rounds_1 w (st, st))))) =
      (fold (rmd_left w) [0..<80] st, fold (rmd_right w) [0..<80] st)"
    unfolding all [symmetric] by (simp add: run rmd_group_def)
  then show ?thesis
    unfolding rmd_Transform_def rmd_compress_def Let_def w w_def [symmetric] st_def [symmetric]
    by (cases "fold (rmd_left w) [0..<80] st" rule: prod_cases5, cases "fold (rmd_right w) [0..<80] st" rule: prod_cases5) simp
qed

interpretation rmd: md_hash 64 rmd_Transform
proof
  show "rmd_Transform s (take 64 data) = rmd_Transform s data" if "64 \<le> length data" for s data
  proof -
    have "map (\<lambda>i. le_word (take 4 (drop (4 * i) (take 64 data))) :: u32) [0..<16] =
        map (\<lambda>i. le_word (take 4 (drop (4 * i) data))) [0..<16]"
      by (intro map_cong) (simp_all add: drop_take)
    then show ?thesis unfolding rmd_Transform_compress rmd_compress_def by (simp only:)
  qed
qed simp_all

lemma CRIPEMD160_Finalize_holds:
  assumes h: "rmd.hasher_holds rmd_Initialize m h"
  shows "snd (CRIPEMD160_Finalize h) = ripemd160 m"
proof -
  have pad: "take (1 + (119 - length m mod 64) mod 64) (0x80 # replicate 63 0) = pad_bytes 64 8 (length m)"
    using take_pad [of 64 "119 - length m mod 64"] by (simp add: pad_bytes_def)
  have size: "WriteLE64 (push_bit 3 (hs_bytes h)) = le_bytes 8 (of_nat (8 * length m) :: u64)"
    using h by (simp add: rmd.hasher_holds_def WriteLE64_def push_bit_eq_mult mult.commute)
  define h' where "h' = fst (CRIPEMD160_Finalize h)"
  have "rmd.hasher_holds rmd_Initialize (rmd_pad m) h'"
    using rmd.holds_Write [OF rmd.holds_Write [OF h], of "pad_bytes 64 8 (length m)"]
    unfolding h'_def CRIPEMD160_Finalize_def CRIPEMD160_Write_def Let_def rmd.holds_bufsize [OF h] pad size
    by (simp add: rmd_pad_def)
  from rmd.holds_state [OF this] have s: "hs_s h' = absorb_blocks 64 rmd_compress (rmd_pad m) rmd_Initialize"
    by (simp add: rmd_Transform_compress)
  have "length (fold rmd_compress bs st) = 5" if "length st = 5" for bs st
    using that by (induction bs arbitrary: st) (simp_all add: rmd_compress_def Let_def split_beta)
  then have "length (hs_s h') = 5" unfolding s by (simp add: absorb_blocks_def rmd_Initialize_def)
  then have "map (\<lambda>i. WriteLE32 (hs_s h' ! i)) [0..<5] = map (le_bytes 4) (hs_s h')"
    by (intro nth_equalityI) (simp_all add: WriteLE32_def)
  then show ?thesis
    unfolding ripemd160_def s [symmetric] by (simp add: h'_def CRIPEMD160_Finalize_def Let_def)
qed

lemma CRIPEMD160_digest:
  assumes "length buf = 64"
  shows "snd (CRIPEMD160_Finalize (fold (\<lambda>d h. CRIPEMD160_Write h d) ds (CRIPEMD160_new buf))) = ripemd160 (concat ds)"
  using CRIPEMD160_Finalize_holds [OF rmd.holds_run [OF rmd.holds_new [OF assms], of rmd_Initialize ds, simplified]]
  by (simp add: CRIPEMD160_Write_def CRIPEMD160_new_def)

lemma CHash160_digest:
  assumes "length buf = 64" and "length stk = 64"
  shows "snd (CHash160_Finalize stk (fold (\<lambda>d sha. CHash160_Write sha d) ds (CSHA256_new buf))) = hash160 (concat ds)"
proof -
  define sha where "sha = fold (\<lambda>d sha. CSHA256_Write sha d) ds (CSHA256_new buf)"
  have "sha_holds (concat ds) sha" using sha_holds_run [OF sha_holds_new [OF assms(1)]] by (simp add: sha_def)
  from CSHA256_Finalize_holds(2) [OF this] CRIPEMD160_digest [OF assms(2), of "[fips_sha256 (concat ds)]"] show ?thesis
    unfolding CHash160_Write_def sha_def [symmetric] CHash160_Finalize_def
    by (cases "CSHA256_Finalize sha") (simp add: hash160_def)
qed

text \<open>
  C40. Feeding a message to a new \<^verbatim>\<open>CHash160\<close> in any pieces gives RIPEMD-160 of the SHA-256 digest of the concatenated pieces, as
  the two standards define them, whatever the buffers held.
\<close>

theorem CHash160_refines:
  assumes "length buf = 64" and "length stk = 64"
  shows "snd (CHash160_Finalize stk (fold (\<lambda>d sha. CHash160_Write sha d) ds (CSHA256_new buf))) = hash160 (concat ds)"
  by (rule CHash160_digest [OF assms])

theorem CHash160_refines_witness:
  "snd (CHash160_Finalize (replicate 64 1) (fold (\<lambda>d sha. CHash160_Write sha d) [[2], [3, 4]] (CSHA256_new (replicate 64 0)))) =
    hash160 [2, 3, 4]"
  using CHash160_refines [of "replicate 64 0" "replicate 64 1" "[[2], [3, 4]]"] by simp

end
