(* ===== verification/Interpreter.thy ===== *)
theory Interpreter
  imports Script Sha1 Ripemd160
begin

text \<open>
  The script interpreter, \<^verbatim>\<open>EvalScript\<close> of \<^verbatim>\<open>src/script/interpreter.cpp\<close>, with the checks of the encodings of signatures and keys.

  A stack is the list of its elements with the top first, so \<^verbatim>\<open>stacktop(-i)\<close> is element \<open>i - 1\<close>; the stack of conditions is kept the same
  way. \<^verbatim>\<open>stack.at\<close> and \<^verbatim>\<open>popstack\<close> throw, which is \<open>Out_Of_Range\<close>; erasing or inserting outside a vector is \<open>Undefined\<close>. The virtual
  functions of a signature checker are a record, and whether a signature has a low S value is a function of the environment, since it is
  decided by secp256k1. \<^verbatim>\<open>EvalScript\<close> returns the final stack, or the error it sets.
\<close>

section \<open>Flags, versions and checkers\<close>

definition SIGHASH_ALL :: byte where "SIGHASH_ALL = 1"
definition SIGHASH_NONE :: byte where "SIGHASH_NONE = 2"
definition SIGHASH_SINGLE :: byte where "SIGHASH_SINGLE = 3"
definition SIGHASH_ANYONECANPAY :: byte where "SIGHASH_ANYONECANPAY = 0x80"

definition SCRIPT_VERIFY_NONE :: u32 where "SCRIPT_VERIFY_NONE = 0"
definition SCRIPT_VERIFY_P2SH :: u32 where "SCRIPT_VERIFY_P2SH = push_bit 0 1"
definition SCRIPT_VERIFY_STRICTENC :: u32 where "SCRIPT_VERIFY_STRICTENC = push_bit 1 1"
definition SCRIPT_VERIFY_DERSIG :: u32 where "SCRIPT_VERIFY_DERSIG = push_bit 2 1"
definition SCRIPT_VERIFY_LOW_S :: u32 where "SCRIPT_VERIFY_LOW_S = push_bit 3 1"
definition SCRIPT_VERIFY_NULLDUMMY :: u32 where "SCRIPT_VERIFY_NULLDUMMY = push_bit 4 1"
definition SCRIPT_VERIFY_SIGPUSHONLY :: u32 where "SCRIPT_VERIFY_SIGPUSHONLY = push_bit 5 1"
definition SCRIPT_VERIFY_MINIMALDATA :: u32 where "SCRIPT_VERIFY_MINIMALDATA = push_bit 6 1"
definition SCRIPT_VERIFY_DISCOURAGE_UPGRADABLE_NOPS :: u32 where "SCRIPT_VERIFY_DISCOURAGE_UPGRADABLE_NOPS = push_bit 7 1"
definition SCRIPT_VERIFY_CLEANSTACK :: u32 where "SCRIPT_VERIFY_CLEANSTACK = push_bit 8 1"
definition SCRIPT_VERIFY_CHECKLOCKTIMEVERIFY :: u32 where "SCRIPT_VERIFY_CHECKLOCKTIMEVERIFY = push_bit 9 1"
definition SCRIPT_VERIFY_CHECKSEQUENCEVERIFY :: u32 where "SCRIPT_VERIFY_CHECKSEQUENCEVERIFY = push_bit 10 1"
definition SCRIPT_VERIFY_WITNESS :: u32 where "SCRIPT_VERIFY_WITNESS = push_bit 11 1"
definition SCRIPT_VERIFY_DISCOURAGE_UPGRADABLE_WITNESS_PROGRAM :: u32 where
  "SCRIPT_VERIFY_DISCOURAGE_UPGRADABLE_WITNESS_PROGRAM = push_bit 12 1"
definition SCRIPT_VERIFY_MINIMALIF :: u32 where "SCRIPT_VERIFY_MINIMALIF = push_bit 13 1"
definition SCRIPT_VERIFY_NULLFAIL :: u32 where "SCRIPT_VERIFY_NULLFAIL = push_bit 14 1"
definition SCRIPT_VERIFY_WITNESS_PUBKEYTYPE :: u32 where "SCRIPT_VERIFY_WITNESS_PUBKEYTYPE = push_bit 15 1"

datatype SigVersion = SIGVERSION_BASE | SIGVERSION_WITNESS_V0

record BaseSignatureChecker =
  CheckSig :: "bytes \<Rightarrow> bytes \<Rightarrow> script \<Rightarrow> SigVersion \<Rightarrow> bool exec"
  CheckLockTime :: "int \<Rightarrow> bool exec"
  CheckSequence :: "int \<Rightarrow> bool exec"

text \<open>The base class refuses everything.\<close>

definition base_checker :: BaseSignatureChecker where
  "base_checker = \<lparr>CheckSig = \<lambda>sig key code v. Inr False, CheckLockTime = \<lambda>n. Inr False, CheckSequence = \<lambda>n. Inr False\<rparr>"

record eval_env =
  ev_script :: script
  ev_flags :: u32
  ev_checker :: BaseSignatureChecker
  ev_sigversion :: SigVersion
  ev_CheckLowS :: "bytes \<Rightarrow> bool"

definition flag :: "u32 \<Rightarrow> u32 \<Rightarrow> bool" where "flag f F \<longleftrightarrow> f AND F \<noteq> 0"

definition set_error :: "ScriptError \<Rightarrow> 'a exec" where "set_error e = Inl (Error e)"

section \<open>Values\<close>

primrec CastToBool :: "bytes \<Rightarrow> bool" where
  "CastToBool [] = False"
| "CastToBool (b # vch) = (if b \<noteq> 0 then (if vch = [] \<and> b = 0x80 then False else True) else CastToBool vch)"

definition vchFalse :: bytes where "vchFalse = []"
definition vchTrue :: bytes where "vchTrue = [1]"

section \<open>Encodings of keys and signatures\<close>

definition IsCompressedOrUncompressedPubKey :: "bytes \<Rightarrow> bool" where
  "IsCompressedOrUncompressedPubKey k =
    (if length k < 33 then False
     else if k ! 0 = 0x04 then length k = 65
     else if k ! 0 = 0x02 \<or> k ! 0 = 0x03 then length k = 33
     else False)"

definition IsCompressedPubKey :: "bytes \<Rightarrow> bool" where
  "IsCompressedPubKey k = (if length k \<noteq> 33 then False else if k ! 0 \<noteq> 0x02 \<and> k ! 0 \<noteq> 0x03 then False else True)"

definition IsValidSignatureEncoding :: "bytes \<Rightarrow> bool" where
  "IsValidSignatureEncoding sig =
    (if length sig < 9 then False
     else if length sig > 73 then False
     else if sig ! 0 \<noteq> 0x30 then False
     else if unat (sig ! 1) \<noteq> length sig - 3 then False
     else
       (let lenR = unat (sig ! 3)
        in if 5 + lenR \<ge> length sig then False
           else
             (let lenS = unat (sig ! (5 + lenR))
              in if lenR + lenS + 7 \<noteq> length sig then False
                 else if sig ! 2 \<noteq> 0x02 then False
                 else if lenR = 0 then False
                 else if sig ! 4 AND 0x80 \<noteq> 0 then False
                 else if lenR > 1 \<and> sig ! 4 = 0x00 \<and> sig ! 5 AND 0x80 = 0 then False
                 else if sig ! (lenR + 4) \<noteq> 0x02 then False
                 else if lenS = 0 then False
                 else if sig ! (lenR + 6) AND 0x80 \<noteq> 0 then False
                 else if lenS > 1 \<and> sig ! (lenR + 6) = 0x00 \<and> sig ! (lenR + 7) AND 0x80 = 0 then False
                 else True)))"

definition IsLowDERSignature :: "(bytes \<Rightarrow> bool) \<Rightarrow> bytes \<Rightarrow> unit exec" where
  "IsLowDERSignature CheckLowS sig =
    (if \<not> IsValidSignatureEncoding sig then set_error SCRIPT_ERR_SIG_DER
     else if \<not> CheckLowS (take (length sig - 1) sig) then set_error SCRIPT_ERR_SIG_HIGH_S
     else Inr ())"

definition IsDefinedHashtypeSignature :: "bytes \<Rightarrow> bool" where
  "IsDefinedHashtypeSignature sig =
    (if length sig = 0 then False
     else
       (let nHashType = sig ! (length sig - 1) AND NOT SIGHASH_ANYONECANPAY
        in if nHashType < SIGHASH_ALL \<or> nHashType > SIGHASH_SINGLE then False else True))"

definition CheckSignatureEncoding :: "(bytes \<Rightarrow> bool) \<Rightarrow> bytes \<Rightarrow> u32 \<Rightarrow> unit exec" where
  "CheckSignatureEncoding CheckLowS sig flags =
    (if length sig = 0 then Inr ()
     else if flag flags (SCRIPT_VERIFY_DERSIG OR SCRIPT_VERIFY_LOW_S OR SCRIPT_VERIFY_STRICTENC) \<and> \<not> IsValidSignatureEncoding sig then
       set_error SCRIPT_ERR_SIG_DER
     else if flag flags SCRIPT_VERIFY_LOW_S \<and> IsLowDERSignature CheckLowS sig \<noteq> Inr () then IsLowDERSignature CheckLowS sig
     else if flag flags SCRIPT_VERIFY_STRICTENC \<and> \<not> IsDefinedHashtypeSignature sig then set_error SCRIPT_ERR_SIG_HASHTYPE
     else Inr ())"

definition CheckPubKeyEncoding :: "bytes \<Rightarrow> u32 \<Rightarrow> SigVersion \<Rightarrow> unit exec" where
  "CheckPubKeyEncoding k flags sigversion =
    (if flag flags SCRIPT_VERIFY_STRICTENC \<and> \<not> IsCompressedOrUncompressedPubKey k then set_error SCRIPT_ERR_PUBKEYTYPE
     else if flag flags SCRIPT_VERIFY_WITNESS_PUBKEYTYPE \<and> sigversion = SIGVERSION_WITNESS_V0 \<and> \<not> IsCompressedPubKey k then
       set_error SCRIPT_ERR_WITNESS_PUBKEYTYPE
     else Inr ())"

definition CheckMinimalPush :: "bytes \<Rightarrow> byte \<Rightarrow> bool" where
  "CheckMinimalPush data opcode =
    (if length data = 0 then opcode = OP_0
     else if length data = 1 \<and> data ! 0 \<ge> 1 \<and> data ! 0 \<le> 16 then uint opcode = uint OP_1 + (uint (data ! 0) - 1)
     else if length data = 1 \<and> data ! 0 = 0x81 then opcode = OP_1NEGATE
     else if length data \<le> 75 then unat opcode = length data
     else if length data \<le> 255 then opcode = OP_PUSHDATA1
     else if length data \<le> 65535 then opcode = OP_PUSHDATA2
     else True)"

section \<open>Access to a stack\<close>

definition stacktop :: "bytes list \<Rightarrow> nat \<Rightarrow> bytes exec" where
  "stacktop st i = (if 1 \<le> i \<and> i \<le> length st then Inr (st ! (i - 1)) else Inl Out_Of_Range)"

definition popstack :: "bytes list \<Rightarrow> bytes list exec" where
  "popstack st = (if st = [] then Inl Out_Of_Range else Inr (tl st))"

text \<open>\<open>stack_erase st i\<close> erases the element \<^verbatim>\<open>stack.end() - i\<close>, \<open>stack_insert st i vch\<close> inserts before it.\<close>

definition stack_erase :: "bytes list \<Rightarrow> nat \<Rightarrow> bytes list exec" where
  "stack_erase st i = (if 1 \<le> i \<and> i \<le> length st then Inr (take (i - 1) st @ drop i st) else Inl Undefined)"

definition stack_insert :: "bytes list \<Rightarrow> nat \<Rightarrow> bytes \<Rightarrow> bytes list exec" where
  "stack_insert st i vch = (if i \<le> length st then Inr (take i st @ vch # drop i st) else Inl Undefined)"

definition stack_swap :: "bytes list \<Rightarrow> nat \<Rightarrow> nat \<Rightarrow> bytes list exec" where
  "stack_swap st i j =
    exec_bind (stacktop st i) (\<lambda>x. exec_bind (stacktop st j) (\<lambda>y. Inr (st[i - 1 := y, j - 1 := x])))"

definition need :: "nat \<Rightarrow> bytes list \<Rightarrow> 'a exec \<Rightarrow> 'a exec" where
  "need n st k = (if length st < n then set_error SCRIPT_ERR_INVALID_STACK_OPERATION else k)"

section \<open>Operations on the main stack\<close>

definition op_push_small :: "byte \<Rightarrow> bytes list \<Rightarrow> bytes list exec" where
  "op_push_small opcode st = Inr (CScriptNum_serialize (uint opcode - (uint OP_1 - 1)) # st)"

definition op_CHECKLOCKTIMEVERIFY :: "eval_env \<Rightarrow> bytes list \<Rightarrow> bytes list exec" where
  "op_CHECKLOCKTIMEVERIFY env st =
    (if \<not> flag (ev_flags env) SCRIPT_VERIFY_CHECKLOCKTIMEVERIFY then
       if flag (ev_flags env) SCRIPT_VERIFY_DISCOURAGE_UPGRADABLE_NOPS then set_error SCRIPT_ERR_DISCOURAGE_UPGRADABLE_NOPS else Inr st
     else need 1 st
       (exec_bind (stacktop st 1) (\<lambda>vch.
        exec_bind (CScriptNum vch (flag (ev_flags env) SCRIPT_VERIFY_MINIMALDATA) 5) (\<lambda>nLockTime.
          if nLockTime < 0 then set_error SCRIPT_ERR_NEGATIVE_LOCKTIME
          else exec_bind (CheckLockTime (ev_checker env) nLockTime) (\<lambda>ok.
            if \<not> ok then set_error SCRIPT_ERR_UNSATISFIED_LOCKTIME else Inr st)))))"

definition op_CHECKSEQUENCEVERIFY :: "eval_env \<Rightarrow> bytes list \<Rightarrow> bytes list exec" where
  "op_CHECKSEQUENCEVERIFY env st =
    (if \<not> flag (ev_flags env) SCRIPT_VERIFY_CHECKSEQUENCEVERIFY then
       if flag (ev_flags env) SCRIPT_VERIFY_DISCOURAGE_UPGRADABLE_NOPS then set_error SCRIPT_ERR_DISCOURAGE_UPGRADABLE_NOPS else Inr st
     else need 1 st
       (exec_bind (stacktop st 1) (\<lambda>vch.
        exec_bind (CScriptNum vch (flag (ev_flags env) SCRIPT_VERIFY_MINIMALDATA) 5) (\<lambda>nSequence.
          if nSequence < 0 then set_error SCRIPT_ERR_NEGATIVE_LOCKTIME
          else if nSequence AND uint SEQUENCE_LOCKTIME_DISABLE_FLAG \<noteq> 0 then Inr st
          else exec_bind (CheckSequence (ev_checker env) nSequence) (\<lambda>ok.
            if \<not> ok then set_error SCRIPT_ERR_UNSATISFIED_LOCKTIME else Inr st)))))"

definition op_NOP_upgradable :: "eval_env \<Rightarrow> bytes list \<Rightarrow> bytes list exec" where
  "op_NOP_upgradable env st =
    (if flag (ev_flags env) SCRIPT_VERIFY_DISCOURAGE_UPGRADABLE_NOPS then set_error SCRIPT_ERR_DISCOURAGE_UPGRADABLE_NOPS else Inr st)"

definition op_VERIFY :: "bytes list \<Rightarrow> bytes list exec" where
  "op_VERIFY st = need 1 st (exec_bind (stacktop st 1) (\<lambda>vch. if CastToBool vch then popstack st else set_error SCRIPT_ERR_VERIFY))"

definition op_2DROP :: "bytes list \<Rightarrow> bytes list exec" where
  "op_2DROP st = need 2 st (exec_bind (popstack st) popstack)"

definition op_2DUP :: "bytes list \<Rightarrow> bytes list exec" where
  "op_2DUP st = need 2 st
    (exec_bind (stacktop st 2) (\<lambda>vch1. exec_bind (stacktop st 1) (\<lambda>vch2. Inr (vch2 # vch1 # st))))"

definition op_3DUP :: "bytes list \<Rightarrow> bytes list exec" where
  "op_3DUP st = need 3 st
    (exec_bind (stacktop st 3) (\<lambda>vch1. exec_bind (stacktop st 2) (\<lambda>vch2. exec_bind (stacktop st 1) (\<lambda>vch3.
     Inr (vch3 # vch2 # vch1 # st)))))"

definition op_2OVER :: "bytes list \<Rightarrow> bytes list exec" where
  "op_2OVER st = need 4 st
    (exec_bind (stacktop st 4) (\<lambda>vch1. exec_bind (stacktop st 3) (\<lambda>vch2. Inr (vch2 # vch1 # st))))"

text \<open>Erasing from \<^verbatim>\<open>end() - 6\<close> up to \<^verbatim>\<open>end() - 4\<close> erases the sixth and then what has become the fifth element.\<close>

definition op_2ROT :: "bytes list \<Rightarrow> bytes list exec" where
  "op_2ROT st = need 6 st
    (exec_bind (stacktop st 6) (\<lambda>vch1. exec_bind (stacktop st 5) (\<lambda>vch2.
     exec_bind (exec_bind (stack_erase st 6) (\<lambda>st. stack_erase st 5)) (\<lambda>st. Inr (vch2 # vch1 # st)))))"

definition op_2SWAP :: "bytes list \<Rightarrow> bytes list exec" where
  "op_2SWAP st = need 4 st (exec_bind (stack_swap st 4 2) (\<lambda>st. stack_swap st 3 1))"

definition op_IFDUP :: "bytes list \<Rightarrow> bytes list exec" where
  "op_IFDUP st = need 1 st (exec_bind (stacktop st 1) (\<lambda>vch. Inr (if CastToBool vch then vch # st else st)))"

definition op_DEPTH :: "bytes list \<Rightarrow> bytes list exec" where
  "op_DEPTH st = Inr (CScriptNum_serialize (int (length st)) # st)"

definition op_DROP :: "bytes list \<Rightarrow> bytes list exec" where "op_DROP st = need 1 st (popstack st)"

definition op_DUP :: "bytes list \<Rightarrow> bytes list exec" where
  "op_DUP st = need 1 st (exec_bind (stacktop st 1) (\<lambda>vch. Inr (vch # st)))"

definition op_NIP :: "bytes list \<Rightarrow> bytes list exec" where "op_NIP st = need 2 st (stack_erase st 2)"

definition op_OVER :: "bytes list \<Rightarrow> bytes list exec" where
  "op_OVER st = need 2 st (exec_bind (stacktop st 2) (\<lambda>vch. Inr (vch # st)))"

definition op_PICK_ROLL :: "bool \<Rightarrow> byte \<Rightarrow> bytes list \<Rightarrow> bytes list exec" where
  "op_PICK_ROLL fRequireMinimal opcode st = need 2 st
    (exec_bind (stacktop st 1) (\<lambda>vch. exec_bind (CScriptNum vch fRequireMinimal nDefaultMaxNumSize) (\<lambda>bn.
     let n = CScriptNum_getint bn
     in exec_bind (popstack st) (\<lambda>st.
        if n < 0 \<or> n \<ge> int (length st) then set_error SCRIPT_ERR_INVALID_STACK_OPERATION
        else exec_bind (stacktop st (nat n + 1)) (\<lambda>vch.
          exec_bind (if opcode = OP_ROLL then stack_erase st (nat n + 1) else Inr st) (\<lambda>st. Inr (vch # st)))))))"

definition op_ROT :: "bytes list \<Rightarrow> bytes list exec" where
  "op_ROT st = need 3 st (exec_bind (stack_swap st 3 2) (\<lambda>st. stack_swap st 2 1))"

definition op_SWAP :: "bytes list \<Rightarrow> bytes list exec" where "op_SWAP st = need 2 st (stack_swap st 2 1)"

definition op_TUCK :: "bytes list \<Rightarrow> bytes list exec" where
  "op_TUCK st = need 2 st (exec_bind (stacktop st 1) (\<lambda>vch. stack_insert st 2 vch))"

definition op_SIZE :: "bytes list \<Rightarrow> bytes list exec" where
  "op_SIZE st = need 1 st (exec_bind (stacktop st 1) (\<lambda>vch. Inr (CScriptNum_serialize (int (length vch)) # st)))"

definition op_EQUAL :: "byte \<Rightarrow> bytes list \<Rightarrow> bytes list exec" where
  "op_EQUAL opcode st = need 2 st
    (exec_bind (stacktop st 2) (\<lambda>vch1. exec_bind (stacktop st 1) (\<lambda>vch2.
     let fEqual = (vch1 = vch2)
     in exec_bind (popstack st) (\<lambda>st. exec_bind (popstack st) (\<lambda>st.
        let st = (if fEqual then vchTrue else vchFalse) # st
        in if opcode = OP_EQUALVERIFY then (if fEqual then popstack st else set_error SCRIPT_ERR_EQUALVERIFY) else Inr st)))))"

definition unary_result :: "byte \<Rightarrow> int \<Rightarrow> int exec" where
  "unary_result opcode bn =
    (if opcode = OP_1ADD then CScriptNum_add bn 1
     else if opcode = OP_1SUB then CScriptNum_sub bn 1
     else if opcode = OP_NEGATE then CScriptNum_neg bn
     else if opcode = OP_ABS then if bn < 0 then CScriptNum_neg bn else Inr bn
     else if opcode = OP_NOT then Inr (of_bool (bn = 0))
     else if opcode = OP_0NOTEQUAL then Inr (of_bool (bn \<noteq> 0))
     else Inl Undefined)"

definition op_unary :: "bool \<Rightarrow> byte \<Rightarrow> bytes list \<Rightarrow> bytes list exec" where
  "op_unary fRequireMinimal opcode st = need 1 st
    (exec_bind (stacktop st 1) (\<lambda>vch. exec_bind (CScriptNum vch fRequireMinimal nDefaultMaxNumSize) (\<lambda>bn.
     exec_bind (unary_result opcode bn) (\<lambda>bn. exec_bind (popstack st) (\<lambda>st. Inr (CScriptNum_serialize bn # st))))))"

definition binary_result :: "byte \<Rightarrow> int \<Rightarrow> int \<Rightarrow> int exec" where
  "binary_result opcode bn1 bn2 =
    (if opcode = OP_ADD then CScriptNum_add bn1 bn2
     else if opcode = OP_SUB then CScriptNum_sub bn1 bn2
     else if opcode = OP_BOOLAND then Inr (of_bool (bn1 \<noteq> 0 \<and> bn2 \<noteq> 0))
     else if opcode = OP_BOOLOR then Inr (of_bool (bn1 \<noteq> 0 \<or> bn2 \<noteq> 0))
     else if opcode = OP_NUMEQUAL then Inr (of_bool (bn1 = bn2))
     else if opcode = OP_NUMEQUALVERIFY then Inr (of_bool (bn1 = bn2))
     else if opcode = OP_NUMNOTEQUAL then Inr (of_bool (bn1 \<noteq> bn2))
     else if opcode = OP_LESSTHAN then Inr (of_bool (bn1 < bn2))
     else if opcode = OP_GREATERTHAN then Inr (of_bool (bn1 > bn2))
     else if opcode = OP_LESSTHANOREQUAL then Inr (of_bool (bn1 \<le> bn2))
     else if opcode = OP_GREATERTHANOREQUAL then Inr (of_bool (bn1 \<ge> bn2))
     else if opcode = OP_MIN then Inr (if bn1 < bn2 then bn1 else bn2)
     else if opcode = OP_MAX then Inr (if bn1 > bn2 then bn1 else bn2)
     else Inl Undefined)"

definition op_binary :: "bool \<Rightarrow> byte \<Rightarrow> bytes list \<Rightarrow> bytes list exec" where
  "op_binary fRequireMinimal opcode st = need 2 st
    (exec_bind (stacktop st 2) (\<lambda>vch1. exec_bind (CScriptNum vch1 fRequireMinimal nDefaultMaxNumSize) (\<lambda>bn1.
     exec_bind (stacktop st 1) (\<lambda>vch2. exec_bind (CScriptNum vch2 fRequireMinimal nDefaultMaxNumSize) (\<lambda>bn2.
     exec_bind (binary_result opcode bn1 bn2) (\<lambda>bn.
     exec_bind (popstack st) (\<lambda>st. exec_bind (popstack st) (\<lambda>st.
     let st = CScriptNum_serialize bn # st
     in if opcode = OP_NUMEQUALVERIFY then
          exec_bind (stacktop st 1) (\<lambda>vch. if CastToBool vch then popstack st else set_error SCRIPT_ERR_NUMEQUALVERIFY)
        else Inr st))))))))"

definition op_WITHIN :: "bool \<Rightarrow> bytes list \<Rightarrow> bytes list exec" where
  "op_WITHIN fRequireMinimal st = need 3 st
    (exec_bind (stacktop st 3) (\<lambda>vch1. exec_bind (CScriptNum vch1 fRequireMinimal nDefaultMaxNumSize) (\<lambda>bn1.
     exec_bind (stacktop st 2) (\<lambda>vch2. exec_bind (CScriptNum vch2 fRequireMinimal nDefaultMaxNumSize) (\<lambda>bn2.
     exec_bind (stacktop st 1) (\<lambda>vch3. exec_bind (CScriptNum vch3 fRequireMinimal nDefaultMaxNumSize) (\<lambda>bn3.
     let fValue = (bn2 \<le> bn1 \<and> bn1 < bn3)
     in exec_bind (popstack st) (\<lambda>st. exec_bind (popstack st) (\<lambda>st. exec_bind (popstack st) (\<lambda>st.
        Inr ((if fValue then vchTrue else vchFalse) # st)))))))))))"

text \<open>The constructors leave the buffers of the hashers as they are in memory; the digests do not depend on it.\<close>

definition script_hash :: "byte \<Rightarrow> bytes \<Rightarrow> bytes" where
  "script_hash opcode vch =
    (let buf = replicate 64 0
     in if opcode = OP_RIPEMD160 then snd (CRIPEMD160_Finalize (CRIPEMD160_Write (CRIPEMD160_new buf) vch))
        else if opcode = OP_SHA1 then snd (CSHA1_Finalize (CSHA1_Write (CSHA1_new buf) vch))
        else if opcode = OP_SHA256 then snd (CSHA256_Finalize (CSHA256_Write (CSHA256_new buf) vch))
        else if opcode = OP_HASH160 then snd (CHash160_Finalize buf (CHash160_Write (CSHA256_new buf) vch))
        else snd (CHash256_Finalize (CHash256_Write (CSHA256_new buf) vch)))"

definition op_hash_function :: "byte \<Rightarrow> bytes list \<Rightarrow> bytes list exec" where
  "op_hash_function opcode st = need 1 st
    (exec_bind (stacktop st 1) (\<lambda>vch. exec_bind (popstack st) (\<lambda>st. Inr (script_hash opcode vch # st))))"

text \<open>
  The cases of the switch that only act on the main stack. Cases are told apart by their numbers, so their order does not matter.
\<close>

definition main_op :: "eval_env \<Rightarrow> byte \<Rightarrow> (bytes list \<Rightarrow> bytes list exec) option" where
  "main_op env opcode =
    (let fRequireMinimal = flag (ev_flags env) SCRIPT_VERIFY_MINIMALDATA
     in if opcode = OP_1NEGATE \<or> (OP_1 \<le> opcode \<and> opcode \<le> OP_16) then Some (op_push_small opcode)
        else if opcode = OP_NOP then Some Inr
        else if opcode = OP_CHECKLOCKTIMEVERIFY then Some (op_CHECKLOCKTIMEVERIFY env)
        else if opcode = OP_CHECKSEQUENCEVERIFY then Some (op_CHECKSEQUENCEVERIFY env)
        else if opcode = OP_NOP1 \<or> (OP_NOP4 \<le> opcode \<and> opcode \<le> OP_NOP10) then Some (op_NOP_upgradable env)
        else if opcode = OP_VERIFY then Some op_VERIFY
        else if opcode = OP_RETURN then Some (\<lambda>st. set_error SCRIPT_ERR_OP_RETURN)
        else if opcode = OP_2DROP then Some op_2DROP
        else if opcode = OP_2DUP then Some op_2DUP
        else if opcode = OP_3DUP then Some op_3DUP
        else if opcode = OP_2OVER then Some op_2OVER
        else if opcode = OP_2ROT then Some op_2ROT
        else if opcode = OP_2SWAP then Some op_2SWAP
        else if opcode = OP_IFDUP then Some op_IFDUP
        else if opcode = OP_DEPTH then Some op_DEPTH
        else if opcode = OP_DROP then Some op_DROP
        else if opcode = OP_DUP then Some op_DUP
        else if opcode = OP_NIP then Some op_NIP
        else if opcode = OP_OVER then Some op_OVER
        else if opcode = OP_PICK \<or> opcode = OP_ROLL then Some (op_PICK_ROLL fRequireMinimal opcode)
        else if opcode = OP_ROT then Some op_ROT
        else if opcode = OP_SWAP then Some op_SWAP
        else if opcode = OP_TUCK then Some op_TUCK
        else if opcode = OP_SIZE then Some op_SIZE
        else if opcode = OP_EQUAL \<or> opcode = OP_EQUALVERIFY then Some (op_EQUAL opcode)
        else if opcode = OP_1ADD \<or> opcode = OP_1SUB \<or> opcode = OP_NEGATE \<or> opcode = OP_ABS \<or> opcode = OP_NOT \<or> opcode = OP_0NOTEQUAL then
          Some (op_unary fRequireMinimal opcode)
        else if opcode = OP_ADD \<or> opcode = OP_SUB \<or> (OP_BOOLAND \<le> opcode \<and> opcode \<le> OP_MAX) then Some (op_binary fRequireMinimal opcode)
        else if opcode = OP_WITHIN then Some (op_WITHIN fRequireMinimal)
        else if opcode = OP_RIPEMD160 \<or> opcode = OP_SHA1 \<or> opcode = OP_SHA256 \<or> opcode = OP_HASH160 \<or> opcode = OP_HASH256 then
          Some (op_hash_function opcode)
        else if opcode = OP_UNEMP_ASSET then Some Inr
        else None)"

section \<open>Signatures\<close>

text \<open>The script that signatures commit to, from the last separator on; before segregated witness the signature is deleted from it.\<close>

definition script_code :: "eval_env \<Rightarrow> nat \<Rightarrow> bytes list \<Rightarrow> script" where
  "script_code env codehash sigs =
    fold (\<lambda>sig code. if ev_sigversion env = SIGVERSION_BASE then fst (FindAndDelete code (push_data [] sig)) else code)
      sigs (drop codehash (ev_script env))"

definition op_CHECKSIG :: "eval_env \<Rightarrow> byte \<Rightarrow> nat \<Rightarrow> bytes list \<Rightarrow> bytes list exec" where
  "op_CHECKSIG env opcode codehash st = need 2 st
    (exec_bind (stacktop st 2) (\<lambda>sig. exec_bind (stacktop st 1) (\<lambda>pubkey.
     let code = script_code env codehash [sig]
     in exec_bind (CheckSignatureEncoding (ev_CheckLowS env) sig (ev_flags env)) (\<lambda>_.
        exec_bind (CheckPubKeyEncoding pubkey (ev_flags env) (ev_sigversion env)) (\<lambda>_.
        exec_bind (CheckSig (ev_checker env) sig pubkey code (ev_sigversion env)) (\<lambda>fSuccess.
          if \<not> fSuccess \<and> flag (ev_flags env) SCRIPT_VERIFY_NULLFAIL \<and> length sig \<noteq> 0 then set_error SCRIPT_ERR_SIG_NULLFAIL
          else exec_bind (popstack st) (\<lambda>st. exec_bind (popstack st) (\<lambda>st.
            let st = (if fSuccess then vchTrue else vchFalse) # st
            in if opcode = OP_CHECKSIGVERIFY then (if fSuccess then popstack st else set_error SCRIPT_ERR_CHECKSIGVERIFY)
               else Inr st))))))))"

text \<open>The loop that walks through the signatures and the keys; it returns \<^verbatim>\<open>fSuccess\<close>.\<close>

function multisig_loop :: "eval_env \<Rightarrow> script \<Rightarrow> bytes list \<Rightarrow> nat \<Rightarrow> int \<Rightarrow> nat \<Rightarrow> int \<Rightarrow> bool exec" where
  "multisig_loop env code st isig nSigsCount ikey nKeysCount =
    (if nSigsCount > 0 then
       exec_bind (stacktop st isig) (\<lambda>sig. exec_bind (stacktop st ikey) (\<lambda>pubkey.
       exec_bind (CheckSignatureEncoding (ev_CheckLowS env) sig (ev_flags env)) (\<lambda>_.
       exec_bind (CheckPubKeyEncoding pubkey (ev_flags env) (ev_sigversion env)) (\<lambda>_.
       exec_bind (CheckSig (ev_checker env) sig pubkey code (ev_sigversion env)) (\<lambda>fOk.
       let isig = (if fOk then isig + 1 else isig); nSigsCount = (if fOk then nSigsCount - 1 else nSigsCount);
           ikey = ikey + 1; nKeysCount = nKeysCount - 1
       in if nSigsCount > nKeysCount then Inr False
          else multisig_loop env code st isig nSigsCount ikey nKeysCount)))))
     else Inr True)"
  by pat_completeness auto
termination
  by (relation "measure (\<lambda>(env, code, st, isig, nSigs, ikey, nKeys). nat nKeys)") (auto split: if_splits)

declare multisig_loop.simps [simp del]

text \<open>The removal of the arguments: \<open>n\<close> rounds, where \<open>ikey2\<close> of them pass the keys.\<close>

primrec multisig_cleanup :: "eval_env \<Rightarrow> bool \<Rightarrow> nat \<Rightarrow> nat \<Rightarrow> bytes list \<Rightarrow> bytes list exec" where
  "multisig_cleanup env fSuccess 0 ikey2 st = Inr st"
| "multisig_cleanup env fSuccess (Suc n) ikey2 st =
    exec_bind (if \<not> fSuccess \<and> flag (ev_flags env) SCRIPT_VERIFY_NULLFAIL \<and> ikey2 = 0 then stacktop st 1 else Inr []) (\<lambda>vch.
      if length vch \<noteq> 0 then set_error SCRIPT_ERR_SIG_NULLFAIL
      else exec_bind (popstack st) (multisig_cleanup env fSuccess n (if ikey2 > 0 then ikey2 - 1 else ikey2)))"

text \<open>The elements \<^verbatim>\<open>stacktop(-isig - k)\<close> for \<open>k < n\<close>.\<close>

primrec stack_range :: "bytes list \<Rightarrow> nat \<Rightarrow> nat \<Rightarrow> bytes list exec" where
  "stack_range st isig 0 = Inr []"
| "stack_range st isig (Suc n) =
    exec_bind (stacktop st isig) (\<lambda>sig. exec_bind (stack_range st (isig + 1) n) (\<lambda>sigs. Inr (sig # sigs)))"

text \<open>The clean-up, the extra element and the result.\<close>

definition multisig_finish :: "eval_env \<Rightarrow> byte \<Rightarrow> bool \<Rightarrow> nat \<Rightarrow> nat \<Rightarrow> bytes list \<Rightarrow> bytes list exec" where
  "multisig_finish env opcode fSuccess n ikey2 st =
    exec_bind (multisig_cleanup env fSuccess n ikey2 st) (\<lambda>st. need 1 st
      (exec_bind (if flag (ev_flags env) SCRIPT_VERIFY_NULLDUMMY then stacktop st 1 else Inr []) (\<lambda>vch.
       if length vch \<noteq> 0 then set_error SCRIPT_ERR_SIG_NULLDUMMY
       else exec_bind (popstack st) (\<lambda>st.
         let st = (if fSuccess then vchTrue else vchFalse) # st
         in if opcode = OP_CHECKMULTISIGVERIFY then
              (if fSuccess then popstack st else set_error SCRIPT_ERR_CHECKMULTISIGVERIFY)
            else Inr st))))"

text \<open>The counts are known; the signatures start at \<open>isig\<close>, the keys at \<open>ikey\<close>.\<close>

definition multisig_verify :: "eval_env \<Rightarrow> byte \<Rightarrow> nat \<Rightarrow> nat \<Rightarrow> int \<Rightarrow> nat \<Rightarrow> int \<Rightarrow> nat \<Rightarrow> bytes list \<Rightarrow> bytes list exec" where
  "multisig_verify env opcode codehash isig nSigsCount ikey nKeysCount ikey2 st =
    (let i = isig + nat nSigsCount
     in need i st
       (exec_bind (stack_range st isig (nat nSigsCount)) (\<lambda>sigs.
        exec_bind (multisig_loop env (script_code env codehash sigs) st isig nSigsCount ikey nKeysCount) (\<lambda>fSuccess.
        multisig_finish env opcode fSuccess (i - 1) ikey2 st))))"

text \<open>The new count of operations and the new stack.\<close>

definition op_CHECKMULTISIG :: "eval_env \<Rightarrow> byte \<Rightarrow> nat \<Rightarrow> int \<Rightarrow> bytes list \<Rightarrow> (int \<times> bytes list) exec" where
  "op_CHECKMULTISIG env opcode codehash nOpCount st =
    (let fRequireMinimal = flag (ev_flags env) SCRIPT_VERIFY_MINIMALDATA; i = 1
     in need i st
       (exec_bind (stacktop st i) (\<lambda>vch. exec_bind (CScriptNum vch fRequireMinimal nDefaultMaxNumSize) (\<lambda>bn.
        let nKeysCount = CScriptNum_getint bn
        in if nKeysCount < 0 \<or> nKeysCount > int MAX_PUBKEYS_PER_MULTISIG then set_error SCRIPT_ERR_PUBKEY_COUNT
           else
             (let nOpCount = nOpCount + nKeysCount
              in if nOpCount > MAX_OPS_PER_SCRIPT then set_error SCRIPT_ERR_OP_COUNT
                 else
                   (let i = i + 1; ikey = i; ikey2 = nat nKeysCount + 2; i = i + nat nKeysCount
                    in need i st
                      (exec_bind (stacktop st i) (\<lambda>vch. exec_bind (CScriptNum vch fRequireMinimal nDefaultMaxNumSize) (\<lambda>bn.
                       let nSigsCount = CScriptNum_getint bn
                       in if nSigsCount < 0 \<or> nSigsCount > nKeysCount then set_error SCRIPT_ERR_SIG_COUNT
                          else
                            (let i = i + 1; isig = i
                             in exec_bind (multisig_verify env opcode codehash isig nSigsCount ikey nKeysCount ikey2 st)
                                  (\<lambda>st. Inr (nOpCount, st))))))))))))"

section \<open>The machine\<close>

record eval_state =
  es_stack :: "bytes list"
  es_altstack :: "bytes list"
  es_vfExec :: "bool list"
  es_codehash :: nat
  es_nOpCount :: int

definition op_IF :: "eval_env \<Rightarrow> byte \<Rightarrow> bool \<Rightarrow> eval_state \<Rightarrow> eval_state exec" where
  "op_IF env opcode fExec s =
    exec_bind
      (if fExec then
         (if length (es_stack s) < 1 then set_error SCRIPT_ERR_UNBALANCED_CONDITIONAL
          else exec_bind (stacktop (es_stack s) 1) (\<lambda>vch.
            if ev_sigversion env = SIGVERSION_WITNESS_V0 \<and> flag (ev_flags env) SCRIPT_VERIFY_MINIMALIF \<and>
               (length vch > 1 \<or> length vch = 1 \<and> vch ! 0 \<noteq> 1) then set_error SCRIPT_ERR_MINIMALIF
            else
              (let fValue = CastToBool vch; fValue = (if opcode = OP_NOTIF then \<not> fValue else fValue)
               in exec_bind (popstack (es_stack s)) (\<lambda>st. Inr (fValue, st)))))
       else Inr (False, es_stack s))
      (\<lambda>(fValue, st). Inr (s\<lparr>es_stack := st, es_vfExec := fValue # es_vfExec s\<rparr>))"

definition op_ELSE :: "eval_state \<Rightarrow> eval_state exec" where
  "op_ELSE s =
    (case es_vfExec s of
       [] \<Rightarrow> set_error SCRIPT_ERR_UNBALANCED_CONDITIONAL
     | b # bs \<Rightarrow> Inr (s\<lparr>es_vfExec := (\<not> b) # bs\<rparr>))"

definition op_ENDIF :: "eval_state \<Rightarrow> eval_state exec" where
  "op_ENDIF s =
    (case es_vfExec s of
       [] \<Rightarrow> set_error SCRIPT_ERR_UNBALANCED_CONDITIONAL
     | b # bs \<Rightarrow> Inr (s\<lparr>es_vfExec := bs\<rparr>))"

definition op_TOALTSTACK :: "eval_state \<Rightarrow> eval_state exec" where
  "op_TOALTSTACK s = need 1 (es_stack s)
    (exec_bind (stacktop (es_stack s) 1) (\<lambda>vch. exec_bind (popstack (es_stack s)) (\<lambda>st.
     Inr (s\<lparr>es_stack := st, es_altstack := vch # es_altstack s\<rparr>))))"

definition op_FROMALTSTACK :: "eval_state \<Rightarrow> eval_state exec" where
  "op_FROMALTSTACK s =
    (if length (es_altstack s) < 1 then set_error SCRIPT_ERR_INVALID_ALTSTACK_OPERATION
     else exec_bind (stacktop (es_altstack s) 1) (\<lambda>vch. exec_bind (popstack (es_altstack s)) (\<lambda>alt.
       Inr (s\<lparr>es_stack := vch # es_stack s, es_altstack := alt\<rparr>))))"

text \<open>The switch; \<open>pc\<close> is the position behind the operation.\<close>

definition eval_switch :: "eval_env \<Rightarrow> nat \<Rightarrow> byte \<Rightarrow> bool \<Rightarrow> eval_state \<Rightarrow> eval_state exec" where
  "eval_switch env pc opcode fExec s =
    (if opcode = OP_IF \<or> opcode = OP_NOTIF then op_IF env opcode fExec s
     else if opcode = OP_ELSE then op_ELSE s
     else if opcode = OP_ENDIF then op_ENDIF s
     else if opcode = OP_TOALTSTACK then op_TOALTSTACK s
     else if opcode = OP_FROMALTSTACK then op_FROMALTSTACK s
     else if opcode = OP_CODESEPARATOR then Inr (s\<lparr>es_codehash := pc\<rparr>)
     else if opcode = OP_CHECKSIG \<or> opcode = OP_CHECKSIGVERIFY then
       exec_bind (op_CHECKSIG env opcode (es_codehash s) (es_stack s)) (\<lambda>st. Inr (s\<lparr>es_stack := st\<rparr>))
     else if opcode = OP_CHECKMULTISIG \<or> opcode = OP_CHECKMULTISIGVERIFY then
       exec_bind (op_CHECKMULTISIG env opcode (es_codehash s) (es_nOpCount s) (es_stack s)) (\<lambda>(nOpCount, st).
         Inr (s\<lparr>es_nOpCount := nOpCount, es_stack := st\<rparr>))
     else
       (case main_op env opcode of
          Some f \<Rightarrow> exec_bind (f (es_stack s)) (\<lambda>st. Inr (s\<lparr>es_stack := st\<rparr>))
        | None \<Rightarrow> set_error SCRIPT_ERR_BAD_OPCODE))"

definition disabled_opcodes :: "byte list" where
  "disabled_opcodes =
    [OP_CAT, OP_SUBSTR, OP_LEFT, OP_RIGHT, OP_INVERT, OP_AND, OP_OR, OP_XOR, OP_2MUL, OP_2DIV, OP_MUL, OP_DIV, OP_MOD, OP_LSHIFT, OP_RSHIFT]"

text \<open>One round of the loop for an operation that has been read.\<close>

definition eval_step :: "eval_env \<Rightarrow> nat \<Rightarrow> byte \<Rightarrow> bytes \<Rightarrow> eval_state \<Rightarrow> eval_state exec" where
  "eval_step env pc opcode vch s =
    (let fExec = list_all id (es_vfExec s)
     in if length vch > MAX_SCRIPT_ELEMENT_SIZE then set_error SCRIPT_ERR_PUSH_SIZE
        else
          (let s = (if opcode > OP_16 then s\<lparr>es_nOpCount := es_nOpCount s + 1\<rparr> else s)
           in if opcode > OP_16 \<and> es_nOpCount s > MAX_OPS_PER_SCRIPT then set_error SCRIPT_ERR_OP_COUNT
              else if opcode \<in> set disabled_opcodes then set_error SCRIPT_ERR_DISABLED_OPCODE
              else
                exec_bind
                  (if fExec \<and> opcode \<le> OP_PUSHDATA4 then
                     (if flag (ev_flags env) SCRIPT_VERIFY_MINIMALDATA \<and> \<not> CheckMinimalPush vch opcode then
                        set_error SCRIPT_ERR_MINIMALDATA
                      else Inr (s\<lparr>es_stack := vch # es_stack s\<rparr>))
                   else if fExec \<or> (OP_IF \<le> opcode \<and> opcode \<le> OP_ENDIF) then eval_switch env pc opcode fExec s
                   else Inr s)
                  (\<lambda>s. if length (es_stack s) + length (es_altstack s) > MAX_STACK_SIZE then set_error SCRIPT_ERR_STACK_SIZE
                       else Inr s)))"

function EvalScript_loop :: "eval_env \<Rightarrow> nat \<Rightarrow> eval_state \<Rightarrow> eval_state exec" where
  "EvalScript_loop env pc s =
    (if pc < length (ev_script env) then
       (let (ok, pc, opcode, vch) = GetOp2 (ev_script env) pc
        in if \<not> ok then set_error SCRIPT_ERR_BAD_OPCODE
           else exec_bind (eval_step env pc opcode vch s) (EvalScript_loop env pc))
     else Inr s)"
  by pat_completeness auto
termination
  by (relation "measure (\<lambda>(env, pc, s). length (ev_script env) - pc)") (auto dest!: GetOp2_True [OF sym])

declare EvalScript_loop.simps [simp del]

definition eval_init :: "bytes list \<Rightarrow> eval_state" where
  "eval_init stack = \<lparr>es_stack = stack, es_altstack = [], es_vfExec = [], es_codehash = 0, es_nOpCount = 0\<rparr>"

text \<open>The handler catches exceptions, but neither failed assertions nor undefined behaviour.\<close>

definition catch_all :: "'a exec \<Rightarrow> 'a exec" where
  "catch_all m =
    (case m of
       Inl Num_Error \<Rightarrow> set_error SCRIPT_ERR_UNKNOWN_ERROR
     | Inl Out_Of_Range \<Rightarrow> set_error SCRIPT_ERR_UNKNOWN_ERROR
     | m \<Rightarrow> m)"

definition EvalScript :: "eval_env \<Rightarrow> bytes list \<Rightarrow> bytes list exec" where
  "EvalScript env stack =
    (if length (ev_script env) > MAX_SCRIPT_SIZE then set_error SCRIPT_ERR_SCRIPT_SIZE
     else exec_bind (catch_all (EvalScript_loop env 0 (eval_init stack))) (\<lambda>s.
       if es_vfExec s \<noteq> [] then set_error SCRIPT_ERR_UNBALANCED_CONDITIONAL else Inr (es_stack s)))"

end
