(* ===== verification/Interp_Safe.thy ===== *)
theory Interp_Safe
  imports Interpreter
begin

text \<open>
  The script machine does not fault and keeps its limits. \<open>post m P\<close> says that a computation neither accesses a vector outside its bounds
  nor fails an assertion, and that its value has \<open>P\<close>; errors and the exceptions of number decoding are allowed. Its equations turn a claim
  about an operation into facts about lists. The reachable states of the machine are an inductive predicate.
\<close>

section \<open>Postconditions\<close>

definition post :: "'a exec \<Rightarrow> ('a \<Rightarrow> bool) \<Rightarrow> bool" where
  "post m P \<longleftrightarrow> (case m of Inr x \<Rightarrow> P x | Inl h \<Rightarrow> h \<noteq> Out_Of_Range \<and> h \<noteq> Undefined)"

named_theorems post_simps \<open>postconditions of the building blocks\<close>

lemma post_basic [post_simps]:
  "post (Inr x) P \<longleftrightarrow> P x"
  "post (set_error e) P"
  "post (Inl Num_Error) P"
  "post (exec_bind m k) P \<longleftrightarrow> post m (\<lambda>x. post (k x) P)"
  "post (need n st k') Q \<longleftrightarrow> (n \<le> length st \<longrightarrow> post k' Q)"
  "post (stacktop st i) R \<longleftrightarrow> 1 \<le> i \<and> i \<le> length st \<and> R (st ! (i - 1))"
  "post (popstack st) T \<longleftrightarrow> st \<noteq> [] \<and> T (tl st)"
  "post (stack_erase st i) T \<longleftrightarrow> 1 \<le> i \<and> i \<le> length st \<and> T (take (i - 1) st @ drop i st)"
  "post (stack_insert st i v) T \<longleftrightarrow> i \<le> length st \<and> T (take i st @ v # drop i st)"
  "post (stack_swap st i j) T \<longleftrightarrow> 1 \<le> i \<and> i \<le> length st \<and> 1 \<le> j \<and> j \<le> length st \<and> T (st[i - 1 := st ! (j - 1), j - 1 := st ! (i - 1)])"
  by (auto simp: post_def set_error_def exec_bind_def need_def stacktop_def popstack_def stack_erase_def stack_insert_def stack_swap_def
      split: sum.splits)

lemma post_if [post_simps]: "post (if c then a else b) P \<longleftrightarrow> (c \<longrightarrow> post a P) \<and> (\<not> c \<longrightarrow> post b P)"
  by simp

lemma post_mono: "post m P \<Longrightarrow> (\<And>x. P x \<Longrightarrow> Q x) \<Longrightarrow> post m Q"
  by (auto simp: post_def split: sum.splits)

lemma post_Inr: "post m P \<Longrightarrow> m = Inr x \<Longrightarrow> P x"
  by (simp add: post_def)

lemma post_no_fault: "post m P \<Longrightarrow> m \<noteq> Inl Out_Of_Range \<and> m \<noteq> Inl Undefined"
  by (auto simp: post_def)

lemma set_vch_bound: "length vch \<le> k \<Longrightarrow> k \<le> 5 \<Longrightarrow> \<bar>set_vch vch\<bar> < 128 * 256 ^ 4"
proof (cases "vch = []")
  case False
  assume len: "length vch \<le> k" "k \<le> 5"
  have "vch_mag vch < 128 * 256 ^ (length vch - 1)" by (rule vch_mag_bound [OF False])
  also have "\<dots> \<le> 128 * (256 :: nat) ^ 4" using len by (intro mult_le_mono2 power_increasing) simp_all
  finally show ?thesis using set_vch_value [OF False] len by simp
qed (simp add: set_vch_def)

lemma post_CScriptNum: "k \<le> 5 \<Longrightarrow> (\<And>v. \<bar>v\<bar> < 128 * 256 ^ 4 \<Longrightarrow> P v) \<Longrightarrow> post (CScriptNum vch m k) P"
  using set_vch_bound [of vch k] by (auto simp: CScriptNum_def post_def)

lemma length_CScriptNum_serialize: "length (CScriptNum_serialize v) \<le> 9"
proof -
  define r where "r = serialize_loop (word_of_int \<bar>v\<bar>) []"
  have "length r \<le> 8"
    using unsigned_less [of "word_of_int \<bar>v\<bar> :: u64", where 'a = nat] by (simp add: r_def serialize_loop_bytes length_nat_bytes)
  then have "length r \<le> 9" "length (r @ [b]) \<le> 9" "length (butlast r @ [b]) \<le> 9" for b by simp_all
  then show ?thesis unfolding CScriptNum_serialize_def Let_def r_def [symmetric] by auto
qed

section \<open>The operations\<close>

definition elements_ok :: "bytes list \<Rightarrow> bool" where
  "elements_ok st \<longleftrightarrow> (\<forall>x\<in>set st. length x \<le> MAX_SCRIPT_ELEMENT_SIZE)"

definition checker_ok :: "BaseSignatureChecker \<Rightarrow> bool" where
  "checker_ok c \<longleftrightarrow>
    (\<forall>sig key code v. post (CheckSig c sig key code v) (\<lambda>_. True)) \<and>
    (\<forall>n. post (CheckLockTime c n) (\<lambda>_. True)) \<and> (\<forall>n. post (CheckSequence c n) (\<lambda>_. True))"

lemma elements_ok_simps [simp]:
  "elements_ok []" "elements_ok (x # st) \<longleftrightarrow> length x \<le> MAX_SCRIPT_ELEMENT_SIZE \<and> elements_ok st"
  "elements_ok (as @ bs) \<longleftrightarrow> elements_ok as \<and> elements_ok bs"
  by (auto simp: elements_ok_def)

lemma elements_ok_tl [simp]: "elements_ok st \<Longrightarrow> elements_ok (tl st)"
  by (cases st) simp_all

lemma elements_ok_parts [simp]:
  "elements_ok st \<Longrightarrow> elements_ok (take n st)" "elements_ok st \<Longrightarrow> elements_ok (drop n st)"
  by (auto simp: elements_ok_def dest: in_set_takeD in_set_dropD)

lemma elements_ok_update [simp]: "elements_ok st \<Longrightarrow> length x \<le> MAX_SCRIPT_ELEMENT_SIZE \<Longrightarrow> elements_ok (st[i := x])"
  using set_update_subset_insert [of st i x] by (auto simp: elements_ok_def)

lemma elements_ok_nth [simp]: "elements_ok st \<Longrightarrow> i < length st \<Longrightarrow> length (st ! i) \<le> MAX_SCRIPT_ELEMENT_SIZE"
  by (auto simp: elements_ok_def)

lemma serialize_element [simp]: "length (CScriptNum_serialize v) \<le> MAX_SCRIPT_ELEMENT_SIZE"
  using length_CScriptNum_serialize [of v] by (simp add: MAX_SCRIPT_ELEMENT_SIZE_def)

lemma bool_elements [simp]: "length vchTrue \<le> MAX_SCRIPT_ELEMENT_SIZE" "length vchFalse \<le> MAX_SCRIPT_ELEMENT_SIZE"
  by (simp_all add: vchTrue_def vchFalse_def MAX_SCRIPT_ELEMENT_SIZE_def)

lemma length_concat_uniform: "(\<And>i. i < k \<Longrightarrow> length (f i) = n) \<Longrightarrow> length (concat (map f [0..<k])) = k * n"
  by (induction k) simp_all

lemma script_hash_element [simp]: "length (script_hash opcode vch) \<le> MAX_SCRIPT_ELEMENT_SIZE"
  by (auto simp: script_hash_def Let_def CRIPEMD160_Finalize_def CSHA1_Finalize_def CSHA256_Finalize_def CHash160_Finalize_def
      CHash256_Finalize_def WriteBE32_def split_beta length_concat_uniform [of _ _ 4] MAX_SCRIPT_ELEMENT_SIZE_def)

lemma elements_hd [simp]: "elements_ok st \<Longrightarrow> st \<noteq> [] \<Longrightarrow> length (st ! 0) \<le> MAX_SCRIPT_ELEMENT_SIZE"
  by (rule elements_ok_nth) simp_all

lemma tl_nonempty [simp]: "tl st = [] \<longleftrightarrow> length st < 2" "tl (tl st) = [] \<longleftrightarrow> length st < 3"
  by (auto simp flip: length_0_conv)

lemma long_nonempty [simp]: "Suc 0 \<le> length st \<Longrightarrow> st \<noteq> []" "2 \<le> length st \<Longrightarrow> st \<noteq> []" "3 \<le> length st \<Longrightarrow> st \<noteq> []" "4 \<le> length st \<Longrightarrow> st \<noteq> []" "6 \<le> length st \<Longrightarrow> st \<noteq> []"
  by auto

text \<open>A handler for the main stack keeps the bound on the size of elements and does not fault.\<close>

definition op_safe :: "(bytes list \<Rightarrow> bytes list exec) \<Rightarrow> bool" where
  "op_safe f \<longleftrightarrow> (\<forall>st. elements_ok st \<longrightarrow> post (f st) elements_ok)"

lemma op_safeI: "(\<And>st. elements_ok st \<Longrightarrow> post (f st) elements_ok) \<Longrightarrow> op_safe f"
  by (simp add: op_safe_def)

lemma stack_ops_safe:
  "op_safe op_VERIFY" "op_safe op_2DROP" "op_safe op_2DUP" "op_safe op_3DUP" "op_safe op_2OVER" "op_safe op_2ROT" "op_safe op_2SWAP"
  "op_safe op_IFDUP" "op_safe op_DEPTH" "op_safe op_DROP" "op_safe op_DUP" "op_safe op_NIP" "op_safe op_OVER" "op_safe op_ROT"
  "op_safe op_SWAP" "op_safe op_TUCK" "op_safe op_SIZE" "op_safe (op_EQUAL opcode)" "op_safe (op_push_small opcode)"
  "op_safe (op_hash_function opcode)" "op_safe (op_NOP_upgradable env)" "op_safe Inr" "op_safe (\<lambda>st. set_error e)"
  by (rule op_safeI, simp add: post_simps Let_def op_VERIFY_def op_2DROP_def op_2DUP_def op_3DUP_def op_2OVER_def op_2ROT_def op_2SWAP_def
      op_IFDUP_def op_DEPTH_def op_DROP_def op_DUP_def op_NIP_def op_OVER_def op_ROT_def op_SWAP_def op_TUCK_def op_SIZE_def op_EQUAL_def
      op_push_small_def op_hash_function_def op_NOP_upgradable_def, (fastforce split: if_splits)?)+

lemma post_arith [post_simps]:
  "post (CScriptNum_add a b) P \<longleftrightarrow> is_int64 (a + b) \<and> P (a + b)"
  "post (CScriptNum_sub a b) P \<longleftrightarrow> is_int64 (a - b) \<and> P (a - b)"
  "post (CScriptNum_neg a) P \<longleftrightarrow> a \<noteq> - (2 ^ 63) \<and> P (- a)"
  by (auto simp: post_def CScriptNum_add_def CScriptNum_sub_def CScriptNum_neg_def)

lemma unary_result_safe:
  assumes "opcode \<in> {OP_1ADD, OP_1SUB, OP_NEGATE, OP_ABS, OP_NOT, OP_0NOTEQUAL}" and "\<bar>bn\<bar> < 128 * 256 ^ 4"
  shows "post (unary_result opcode bn) (\<lambda>_. True)"
proof -
  have "is_int64 (bn + 1)" "is_int64 (bn - 1)" "bn \<noteq> - (2 ^ 63)" using assms(2) by (auto simp: is_int64_def abs_less_iff)
  then show ?thesis using assms(1) by (elim insertE emptyE; simp add: unary_result_def post_simps opcode)
qed

lemma binary_result_safe:
  assumes "opcode \<in> {OP_ADD, OP_SUB} \<or> (OP_BOOLAND \<le> opcode \<and> opcode \<le> OP_MAX)" and "\<bar>bn1\<bar> < 128 * 256 ^ 4" and "\<bar>bn2\<bar> < 128 * 256 ^ 4"
  shows "post (binary_result opcode bn1 bn2) (\<lambda>_. True)"
proof -
  have "opcode = OP_BOOLAND \<or> opcode = OP_BOOLOR \<or> opcode = OP_NUMEQUAL \<or> opcode = OP_NUMEQUALVERIFY \<or> opcode = OP_NUMNOTEQUAL \<or>
      opcode = OP_LESSTHAN \<or> opcode = OP_GREATERTHAN \<or> opcode = OP_LESSTHANOREQUAL \<or> opcode = OP_GREATERTHANOREQUAL \<or>
      opcode = OP_MIN \<or> opcode = OP_MAX" if "OP_BOOLAND \<le> opcode" "opcode \<le> OP_MAX"
  proof -
    have "154 \<le> unat opcode" "unat opcode \<le> 164" using that by (simp_all add: opcode word_le_nat_alt)
    then show ?thesis by (simp add: opcode word_unat_eq_iff) presburger
  qed
  moreover have "is_int64 (bn1 + bn2)" "is_int64 (bn1 - bn2)" using assms(2,3) by (auto simp: is_int64_def abs_less_iff)
  ultimately show ?thesis using assms(1) unfolding binary_result_def post_simps by auto
qed

lemma flag_ops_safe:
  assumes "checker_ok (ev_checker env)"
  shows "op_safe (op_CHECKLOCKTIMEVERIFY env)" and "op_safe (op_CHECKSEQUENCEVERIFY env)" and "op_safe (op_PICK_ROLL m opcode)"
    and "op_safe (op_WITHIN m)"
proof -
  have c: "post (CheckLockTime (ev_checker env) n) P" "post (CheckSequence (ev_checker env) n) P" if "\<And>ok. P ok" for n P
    using assms that by (auto simp: checker_ok_def intro: post_mono [of _ "\<lambda>_. True" P])
  show "op_safe (op_CHECKLOCKTIMEVERIFY env)"
    by (rule op_safeI, simp add: op_CHECKLOCKTIMEVERIFY_def post_simps, intro impI conjI post_CScriptNum c; simp)
  show "op_safe (op_CHECKSEQUENCEVERIFY env)"
    by (rule op_safeI, simp add: op_CHECKSEQUENCEVERIFY_def post_simps, intro impI conjI post_CScriptNum c; simp)
  show "op_safe (op_PICK_ROLL m opcode)"
    by (rule op_safeI, simp add: op_PICK_ROLL_def post_simps Let_def nDefaultMaxNumSize_def, intro impI conjI post_CScriptNum; auto)
  show "op_safe (op_WITHIN m)"
    by (rule op_safeI, simp add: op_WITHIN_def post_simps Let_def nDefaultMaxNumSize_def, intro impI conjI post_CScriptNum; simp)
qed

lemma number_ops_safe:
  "opcode \<in> {OP_1ADD, OP_1SUB, OP_NEGATE, OP_ABS, OP_NOT, OP_0NOTEQUAL} \<Longrightarrow> op_safe (op_unary m opcode)"
  "opcode \<in> {OP_ADD, OP_SUB} \<or> (OP_BOOLAND \<le> opcode \<and> opcode \<le> OP_MAX) \<Longrightarrow> op_safe (op_binary m opcode)"
proof -
  show "op_safe (op_unary m opcode)" if "opcode \<in> {OP_1ADD, OP_1SUB, OP_NEGATE, OP_ABS, OP_NOT, OP_0NOTEQUAL}"
    by (rule op_safeI, simp add: op_unary_def post_simps nDefaultMaxNumSize_def,
      intro impI post_CScriptNum post_mono [OF unary_result_safe [OF that]]; simp)
  show "op_safe (op_binary m opcode)" if "opcode \<in> {OP_ADD, OP_SUB} \<or> (OP_BOOLAND \<le> opcode \<and> opcode \<le> OP_MAX)"
    by (rule op_safeI, simp add: op_binary_def post_simps nDefaultMaxNumSize_def Let_def,
      intro impI post_CScriptNum post_mono [OF binary_result_safe [OF that]]; simp)
qed

lemma if_SomeE: "(if c then Some g else r) = Some f \<Longrightarrow> (c \<Longrightarrow> op_safe g) \<Longrightarrow> (r = Some f \<Longrightarrow> op_safe f) \<Longrightarrow> op_safe f"
  by (simp split: if_splits)

lemma main_op_safe:
  assumes "checker_ok (ev_checker env)" and "main_op env opcode = Some f"
  shows "op_safe f"
  using assms(2) unfolding main_op_def Let_def
  by (elim if_SomeE; (intro stack_ops_safe flag_ops_safe [OF assms(1)] number_ops_safe)?; simp)

section \<open>Signature checks\<close>

lemma encodings_safe:
  "(\<And>u. P u) \<Longrightarrow> post (CheckSignatureEncoding low sig f) P"
  "(\<And>u. P u) \<Longrightarrow> post (CheckPubKeyEncoding key f v) P"
  by (auto simp: CheckSignatureEncoding_def IsLowDERSignature_def CheckPubKeyEncoding_def post_simps)

lemma CheckSig_safe: "checker_ok c \<Longrightarrow> (\<And>ok. P ok) \<Longrightarrow> post (CheckSig c sig key code v) P"
  by (auto simp: checker_ok_def intro: post_mono [of _ "\<lambda>_. True" P])

lemma op_CHECKSIG_safe: "checker_ok (ev_checker env) \<Longrightarrow> op_safe (op_CHECKSIG env opcode codehash)"
  by (rule op_safeI, simp add: op_CHECKSIG_def post_simps Let_def, intro impI encodings_safe CheckSig_safe; simp)

lemma stack_range_eq: "1 \<le> isig \<Longrightarrow> isig + n \<le> length st + 1 \<Longrightarrow> stack_range st isig n = Inr (take n (drop (isig - 1) st))"
proof (induction n arbitrary: isig)
  case (Suc n)
  then have "drop (isig - 1) st = st ! (isig - 1) # drop isig st" using Cons_nth_drop_Suc [of "isig - 1" st] by simp
  with Suc show ?case by (simp add: stacktop_def)
qed simp

lemma multisig_loop_safe:
  assumes "checker_ok (ev_checker env)" and "0 \<le> nSigs" and "nSigs \<le> nKeys"
    and "1 \<le> isig" and "int isig + nSigs \<le> int (length st) + 1" and "1 \<le> ikey" and "int ikey + nKeys \<le> int (length st) + 1"
  shows "post (multisig_loop env code st isig nSigs ikey nKeys) (\<lambda>_. True)"
  using assms(2-)
proof (induction "nat nKeys" arbitrary: nSigs nKeys isig ikey rule: less_induct)
  case less
  show ?case
  proof (cases "nSigs > 0")
    case True
    have "post (multisig_loop env code st (if ok then isig + 1 else isig) (if ok then nSigs - 1 else nSigs) (ikey + 1) (nKeys - 1)) (\<lambda>_. True)"
      if "\<not> (if ok then nSigs - 1 else nSigs) > nKeys - 1" for ok
      by (rule less(1)) (use that True less(2-) in \<open>auto split: if_splits\<close>)
    then show ?thesis using True less(2-)
      by (subst multisig_loop.simps) (auto simp: post_simps Let_def intro!: encodings_safe CheckSig_safe [OF assms(1)] split: if_splits)
  qed (simp add: multisig_loop.simps post_simps)
qed

lemma multisig_cleanup_safe: "n \<le> length st \<Longrightarrow> post (multisig_cleanup env fSuccess n ikey2 st) (\<lambda>st'. st' = drop n st)"
proof (induction n arbitrary: ikey2 st)
  case (Suc n)
  then obtain x xs where "st = x # xs" by (cases st) auto
  with Suc show ?case by (simp add: post_simps)
qed (simp add: post_simps)

lemma multisig_finish_safe:
  assumes "elements_ok st" and "n < length st"
  shows "post (multisig_finish env opcode fSuccess n ikey2 st) elements_ok"
  unfolding multisig_finish_def Let_def post_simps
  by (rule post_mono [OF multisig_cleanup_safe]) (use assms in \<open>auto simp: post_simps\<close>)

lemma multisig_verify_safe:
  assumes "checker_ok (ev_checker env)" and "elements_ok st" and "0 \<le> nSigs" and "nSigs \<le> nKeys"
  shows "post (multisig_verify env opcode codehash (3 + nat nKeys) nSigs 2 nKeys ikey2 st) elements_ok"
proof -
  have loop: "post (multisig_loop env code st (3 + nat nKeys) nSigs 2 nKeys) P"
    if "3 + nat nKeys + nat nSigs \<le> length st" "\<And>b. P b" for code P
    using multisig_loop_safe [OF assms(1), of nSigs nKeys "3 + nat nKeys" st 2] that assms(3,4)
    by (auto intro: post_mono [of _ "\<lambda>_. True" P])
  show ?thesis
    unfolding multisig_verify_def Let_def post_simps
    by (intro impI) (simp add: stack_range_eq post_simps loop multisig_finish_safe assms(2))
qed

lemma op_CHECKMULTISIG_safe:
  assumes "checker_ok (ev_checker env)" and "elements_ok st"
  shows "post (op_CHECKMULTISIG env opcode codehash nOpCount st)
    (\<lambda>(n, st'). elements_ok st' \<and> nOpCount \<le> n \<and> n \<le> MAX_OPS_PER_SCRIPT)"
proof -
  have verify: "post (multisig_verify env opcode codehash (Suc (Suc (Suc (nat k)))) n (Suc (Suc 0)) k ikey2 st) elements_ok" if "0 \<le> n" "n \<le> k" for n k ikey2
    using multisig_verify_safe [OF assms that] by (simp add: numeral_eq_Suc)
  show ?thesis
    unfolding op_CHECKMULTISIG_def Let_def post_simps
    by (simp add: post_simps) (auto intro!: post_CScriptNum verify simp: not_less nDefaultMaxNumSize_def)
qed

section \<open>The reachable states\<close>

text \<open>
  \<open>eval_reach env stack pc s\<close>: evaluation of the script of \<open>env\<close> on \<open>stack\<close> comes to the beginning of the loop at position \<open>pc\<close> with
  state \<open>s\<close>.
\<close>

inductive eval_reach :: "eval_env \<Rightarrow> bytes list \<Rightarrow> nat \<Rightarrow> eval_state \<Rightarrow> bool" for env stack where
  init: "eval_reach env stack 0 (eval_init stack)"
| step: "eval_reach env stack pc s \<Longrightarrow> pc < length (ev_script env) \<Longrightarrow> GetOp2 (ev_script env) pc = (True, pc', opcode, vch) \<Longrightarrow>
    eval_step env pc' opcode vch s = Inr s' \<Longrightarrow> eval_reach env stack pc' s'"

definition eval_ok :: "eval_state \<Rightarrow> bool" where
  "eval_ok s \<longleftrightarrow>
    length (es_stack s) + length (es_altstack s) \<le> MAX_STACK_SIZE \<and> elements_ok (es_stack s) \<and> elements_ok (es_altstack s) \<and>
    int (length (es_vfExec s)) \<le> es_nOpCount s \<and> es_nOpCount s \<le> MAX_OPS_PER_SCRIPT"

definition parts_ok :: "eval_state \<Rightarrow> bool" where
  "parts_ok s \<longleftrightarrow> elements_ok (es_stack s) \<and> elements_ok (es_altstack s) \<and>
    int (length (es_vfExec s)) \<le> es_nOpCount s \<and> es_nOpCount s \<le> MAX_OPS_PER_SCRIPT"

lemma eval_switch_safe:
  assumes "checker_ok (ev_checker env)" and "elements_ok (es_stack s)" and "elements_ok (es_altstack s)"
    and "int (length (es_vfExec s)) + of_bool (opcode > OP_16) \<le> es_nOpCount s" and "es_nOpCount s \<le> MAX_OPS_PER_SCRIPT"
  shows "post (eval_switch env pc opcode fExec s) parts_ok"
proof -
  note ok = assms(2,3,5)
  have count: "int (length (es_vfExec s)) \<le> es_nOpCount s" using assms(4) by (simp add: of_bool_def split: if_splits)
  have step: "post (f (es_stack s)) (\<lambda>st. parts_ok (s\<lparr>es_stack := st\<rparr>))" if "op_safe f" for f
    using that ok count by (auto simp: op_safe_def parts_ok_def intro: post_mono)
  consider (IF) "opcode = OP_IF \<or> opcode = OP_NOTIF" | (ELSE) "opcode = OP_ELSE" | (ENDIF) "opcode = OP_ENDIF" | (TO) "opcode = OP_TOALTSTACK"
    | (FROM) "opcode = OP_FROMALTSTACK" | (SEP) "opcode = OP_CODESEPARATOR" | (SIG) "opcode = OP_CHECKSIG \<or> opcode = OP_CHECKSIGVERIFY"
    | (MULTI) "opcode = OP_CHECKMULTISIG \<or> opcode = OP_CHECKMULTISIGVERIFY"
    | (other) "eval_switch env pc opcode fExec s =
       (case main_op env opcode of
          Some f \<Rightarrow> exec_bind (f (es_stack s)) (\<lambda>st. Inr (s\<lparr>es_stack := st\<rparr>))
        | None \<Rightarrow> set_error SCRIPT_ERR_BAD_OPCODE)"
    unfolding eval_switch_def by argo
  then show ?thesis
  proof cases
    case IF
    then have "int (length (es_vfExec s)) + 1 \<le> es_nOpCount s" using assms(4) by (auto simp: opcode)
    then show ?thesis using IF ok
      by (simp add: eval_switch_def op_IF_def post_simps Let_def parts_ok_def Suc_le_eq)
  next
    case MULTI
    then show ?thesis
      by (auto simp: eval_switch_def opcode post_simps parts_ok_def ok split_beta
          intro!: post_mono [OF op_CHECKMULTISIG_safe [OF assms(1) ok(1)]] order_trans [OF count])
  next
    case SIG
    then show ?thesis
      using step [OF op_CHECKSIG_safe [OF assms(1)]] by (auto simp: eval_switch_def opcode post_simps)
  next
    case other
    then show ?thesis
      using step [OF main_op_safe [OF assms(1)]] by (auto simp: post_simps split: option.splits)
  qed (use ok count in \<open>auto simp: eval_switch_def opcode op_ELSE_def op_ENDIF_def op_TOALTSTACK_def op_FROMALTSTACK_def post_simps parts_ok_def
      Let_def Suc_le_eq split: list.splits\<close>)
qed

lemma eval_step_safe:
  assumes "checker_ok (ev_checker env)" and "parts_ok s"
  shows "post (eval_step env pc opcode vch s) eval_ok"
proof -
  define s1 where "s1 = (if opcode > OP_16 then s\<lparr>es_nOpCount := es_nOpCount s + 1\<rparr> else s)"
  have s1: "elements_ok (es_stack s1)" "elements_ok (es_altstack s1)" "int (length (es_vfExec s1)) + of_bool (opcode > OP_16) \<le> es_nOpCount s1"
    using assms(2) by (simp_all add: s1_def parts_ok_def)
  have finish: "eval_ok s'" if "parts_ok s'" "\<not> MAX_STACK_SIZE < length (es_stack s') + length (es_altstack s')" for s'
    using that by (simp add: parts_ok_def eval_ok_def)
  show ?thesis
  proof (cases "length vch \<le> MAX_SCRIPT_ELEMENT_SIZE \<and> es_nOpCount s1 \<le> MAX_OPS_PER_SCRIPT")
    case True
    then have switch: "post (eval_switch env pc opcode fExec s1) parts_ok" for fExec
      by (intro eval_switch_safe [OF assms(1) s1]) simp
    have "parts_ok s1" "parts_ok (s1\<lparr>es_stack := vch # es_stack s1\<rparr>)"
      using s1 True by (auto simp: parts_ok_def of_bool_def split: if_splits)
    then show ?thesis using True
      unfolding eval_step_def Let_def s1_def [symmetric] post_simps
      by (auto simp: finish post_simps intro!: post_mono [OF switch])
  next
    case False
    moreover have "opcode > OP_16" if "\<not> es_nOpCount s1 \<le> MAX_OPS_PER_SCRIPT"
      using that assms(2) by (auto simp: s1_def parts_ok_def split: if_splits)
    ultimately show ?thesis unfolding eval_step_def Let_def s1_def [symmetric] by (auto simp: post_simps)
  qed
qed

lemma eval_ok_parts: "eval_ok s \<Longrightarrow> parts_ok s"
  by (simp add: eval_ok_def parts_ok_def)

lemma parts_ok_init: "elements_ok stack \<Longrightarrow> parts_ok (eval_init stack)"
  by (simp add: parts_ok_def eval_init_def MAX_OPS_PER_SCRIPT_def)

lemma eval_reach_ok:
  assumes "checker_ok (ev_checker env)" and "elements_ok stack" and "length stack \<le> MAX_STACK_SIZE" and "eval_reach env stack pc s"
  shows "eval_ok s"
  using assms(4)
proof (induction rule: eval_reach.induct)
  case init
  show ?case using assms(2,3) by (simp add: eval_ok_def eval_init_def MAX_OPS_PER_SCRIPT_def)
next
  case (step pc s pc' opcode vch s')
  show ?case by (rule post_Inr [OF eval_step_safe [OF assms(1) eval_ok_parts [OF step.IH]] step.hyps(4)])
qed

text \<open>
  C6. In every state the interpreter reaches, the two stacks together hold at most 1000 elements of at most 520 bytes, at most 201 operations
  have been counted, and every open conditional is one of them; and the next operation neither accesses a stack outside its bounds nor
  fails an assertion nor overflows a number.
\<close>

theorem eval_reach_invariant:
  assumes "checker_ok (ev_checker env)" and "elements_ok stack" and "length stack \<le> MAX_STACK_SIZE" and "eval_reach env stack pc s"
  shows "eval_ok s \<and> (\<forall>pc' opcode vch. eval_step env pc' opcode vch s \<noteq> Inl Out_Of_Range \<and> eval_step env pc' opcode vch s \<noteq> Inl Undefined)"
  using eval_reach_ok [OF assms] post_no_fault [OF eval_step_safe [OF assms(1) eval_ok_parts [OF eval_reach_ok [OF assms]]]] by blast

definition script_env :: "script \<Rightarrow> u32 \<Rightarrow> eval_env" where
  "script_env script verify_flags =
    \<lparr>ev_script = script, ev_flags = verify_flags, ev_checker = base_checker, ev_sigversion = SIGVERSION_BASE, ev_CheckLowS = \<lambda>_. True\<rparr>"

lemma base_checker_ok: "checker_ok base_checker"
  by (simp add: checker_ok_def base_checker_def post_simps)

theorem eval_reach_invariant_witness:
  "eval_reach (script_env [OP_1, OP_DUP] 0) [] 1 ((eval_init [])\<lparr>es_stack := [[1]]\<rparr>) \<and> eval_ok ((eval_init [])\<lparr>es_stack := [[1]]\<rparr>)"
proof -
  have "GetOp2 [OP_1, OP_DUP] 0 = (True, 1, OP_1, [])" by code_simp
  moreover have "eval_step (script_env [OP_1, OP_DUP] 0) 1 OP_1 [] (eval_init []) = Inr ((eval_init [])\<lparr>es_stack := [[1]]\<rparr>)" by code_simp
  ultimately have reach: "eval_reach (script_env [OP_1, OP_DUP] 0) [] 1 ((eval_init [])\<lparr>es_stack := [[1]]\<rparr>)"
    by (intro eval_reach.step [OF eval_reach.init]) (simp_all add: script_env_def)
  from eval_reach_invariant [OF _ _ _ this] reach base_checker_ok show ?thesis by (simp add: script_env_def)
qed

section \<open>The whole evaluation\<close>

lemma EvalScript_loop_safe:
  assumes "checker_ok (ev_checker env)" and "parts_ok s"
  shows "post (EvalScript_loop env pc s) (\<lambda>s'. parts_ok s' \<and> (pc < length (ev_script env) \<longrightarrow> eval_ok s'))"
  using assms(2)
proof (induction "length (ev_script env) - pc" arbitrary: pc s rule: less_induct)
  case less
  obtain ok pc' opcode vch where get: "GetOp2 (ev_script env) pc = (ok, pc', opcode, vch)" by (metis prod_cases4)
  show ?case
  proof (cases "pc < length (ev_script env) \<and> ok")
    case True
    then have "pc < pc'" using GetOp2_True [of _ pc] get by auto
    then have "post (EvalScript_loop env pc' s') eval_ok" if "eval_ok s'" for s'
    proof (cases "pc' < length (ev_script env)")
      case True
      have shorter: "length (ev_script env) - pc' < length (ev_script env) - pc" using True \<open>pc < pc'\<close> by linarith
      show ?thesis by (rule post_mono [OF less(1) [OF shorter eval_ok_parts [OF that]]]) (simp add: True)
    next
      case False
      then show ?thesis using that by (simp add: EvalScript_loop.simps post_simps)
    qed
    then have "post (exec_bind (eval_step env pc' opcode vch s) (EvalScript_loop env pc')) eval_ok"
      unfolding post_simps by (intro post_mono [OF eval_step_safe [OF assms(1) less(2)]])
    then have "post (EvalScript_loop env pc s) eval_ok" using True get by (simp add: EvalScript_loop.simps [of env pc s])
    then show ?thesis by (rule post_mono) (simp add: eval_ok_parts)
  next
    case False
    then show ?thesis using less(2) get by (auto simp: EvalScript_loop.simps [of env pc s] post_simps)
  qed
qed

lemma EvalScript_post:
  assumes "checker_ok (ev_checker env)" and "elements_ok stack"
  shows "post (EvalScript env stack) (\<lambda>st. elements_ok st \<and> (ev_script env = [] \<and> st = stack \<or> length st \<le> MAX_STACK_SIZE))"
    and "EvalScript env stack \<noteq> Inl Num_Error"
proof -
  define m where "m = EvalScript_loop env 0 (eval_init stack)"
  have "post m (\<lambda>s'. parts_ok s' \<and> (0 < length (ev_script env) \<longrightarrow> eval_ok s'))"
    unfolding m_def by (rule EvalScript_loop_safe [OF assms(1) parts_ok_init [OF assms(2)]])
  moreover have "m = Inr (eval_init stack)" if "ev_script env = []" using that by (simp add: m_def EvalScript_loop.simps)
  ultimately show "post (EvalScript env stack) (\<lambda>st. elements_ok st \<and> (ev_script env = [] \<and> st = stack \<or> length st \<le> MAX_STACK_SIZE))"
    and "EvalScript env stack \<noteq> Inl Num_Error"
    unfolding EvalScript_def m_def [symmetric]
    by (cases m rule: sum.exhaust;
        auto simp: post_def catch_all_def set_error_def eval_ok_def parts_ok_def eval_init_def split: halt.splits if_splits)+
qed

text \<open>
  C5. Evaluation never reads or pops outside a stack, never fails an assertion and never overflows a number: the only exception its handler
  has to catch is a badly encoded number. The stack it returns has elements of at most 520 bytes, and at most 1000 if there was
  anything to evaluate.
\<close>

theorem EvalScript_safe:
  assumes "checker_ok (ev_checker env)" and "elements_ok stack"
  shows "EvalScript_loop env 0 (eval_init stack) \<noteq> Inl Out_Of_Range \<and> (\<forall>h. EvalScript env stack = Inl h \<longrightarrow> (\<exists>e. h = Error e)) \<and>
    (\<forall>st. EvalScript env stack = Inr st \<longrightarrow> elements_ok st \<and> (ev_script env = [] \<and> st = stack \<or> length st \<le> MAX_STACK_SIZE))"
proof -
  have "post (EvalScript_loop env 0 (eval_init stack)) (\<lambda>_. True)"
    by (rule post_mono [OF EvalScript_loop_safe [OF assms(1) parts_ok_init [OF assms(2)]]]) simp
  moreover have "\<exists>e. h = Error e" if "EvalScript env stack = Inl h" for h
    using EvalScript_post [OF assms] that by (cases h) (auto simp: post_def)
  ultimately show ?thesis using EvalScript_post(1) [OF assms] by (auto simp: post_def)
qed

theorem EvalScript_safe_witness:
  "EvalScript (script_env [OP_1, OP_DUP] 0) [] = Inr [[1], [1]] \<and> elements_ok [[1], [1]]"
proof -
  have run: "EvalScript (script_env [OP_1, OP_DUP] 0) [] = Inr [[1], [1]]" by code_simp
  have "checker_ok (ev_checker (script_env [OP_1, OP_DUP] 0))" by (simp add: script_env_def base_checker_ok)
  from EvalScript_safe [OF this, of "[]"] run show ?thesis by simp
qed

end
