(* ===== verification/Interp_Softfork.thy ===== *)
theory Interp_Softfork
  imports Interpreter
begin

text \<open>
  The flags of \<^verbatim>\<open>src/script/interpreter.h\<close> are called soft fork safe: setting more of them only rejects more scripts. \<open>accepts_as m2 m1\<close>
  says that whatever value the first computation returns, the second returns as well. The one exception is the flag that discourages
  the opcodes reserved for upgrades, which also rejects the opcodes of the lock times as long as their own flags are not set.
\<close>

section \<open>Accepting as much\<close>

definition accepts_as :: "'a exec \<Rightarrow> 'a exec \<Rightarrow> bool" where
  "accepts_as m2 m1 \<longleftrightarrow> (\<forall>x. m2 = Inr x \<longrightarrow> m1 = Inr x)"

named_theorems accepts \<open>compositional rules for acceptance\<close>

lemma accepts_as_basic [accepts]:
  "accepts_as m m"
  "accepts_as (set_error e) m"
  "accepts_as m2 m1 \<Longrightarrow> (\<And>x. m2 = Inr x \<Longrightarrow> accepts_as (k2 x) (k1 x)) \<Longrightarrow> accepts_as (exec_bind m2 k2) (exec_bind m1 k1)"
  "(n \<le> length st \<Longrightarrow> accepts_as r2 r1) \<Longrightarrow> accepts_as (need n st r2) (need n st r1)"
  by (auto simp: accepts_as_def set_error_def need_def exec_bind_Inr_iff split: if_splits)

lemma accepts_as_if:
  "(c \<Longrightarrow> accepts_as a2 a1) \<Longrightarrow> (\<not> c \<Longrightarrow> accepts_as b2 b1) \<Longrightarrow> accepts_as (if c then a2 else b2) (if c then a1 else b1)"
  "(c1 \<Longrightarrow> c2) \<Longrightarrow> (\<not> c2 \<Longrightarrow> accepts_as b2 b1) \<Longrightarrow> accepts_as (if c2 then set_error e else b2) (if c1 then set_error e' else b1)"
  by (auto simp: accepts_as_def set_error_def split: if_splits)

lemma accepts_as_trans: "accepts_as m3 m2 \<Longrightarrow> accepts_as m2 m1 \<Longrightarrow> accepts_as m3 m1"
  by (simp add: accepts_as_def)

lemma accepts_as_Inr: "accepts_as m2 m1 \<Longrightarrow> m2 = Inr x \<Longrightarrow> m1 = Inr x"
  by (simp add: accepts_as_def)

section \<open>Flags\<close>

definition flags_le :: "u32 \<Rightarrow> u32 \<Rightarrow> bool" where "flags_le f1 f2 \<longleftrightarrow> f1 AND f2 = f1"

lemma flag_mono: "flags_le f1 f2 \<Longrightarrow> flag f1 F \<Longrightarrow> flag f2 F"
proof -
  assume "flags_le f1 f2" and "flag f1 F"
  then have "f1 AND (f2 AND F) \<noteq> 0" by (simp add: flags_le_def flag_def and.assoc [symmetric])
  then show "flag f2 F" by (auto simp: flag_def)
qed

text \<open>The environment with fewer flags.\<close>

definition softer :: "eval_env \<Rightarrow> u32 \<Rightarrow> bool" where
  "softer env f1 \<longleftrightarrow> flags_le f1 (ev_flags env) \<and> \<not> flag f1 SCRIPT_VERIFY_DISCOURAGE_UPGRADABLE_NOPS"

abbreviation with_flags :: "eval_env \<Rightarrow> u32 \<Rightarrow> eval_env" where "with_flags env f1 \<equiv> env\<lparr>ev_flags := f1\<rparr>"

lemma with_flags_simps:
  "ev_flags (with_flags env f1) = f1" "ev_script (with_flags env f1) = ev_script env" "ev_checker (with_flags env f1) = ev_checker env"
  "ev_sigversion (with_flags env f1) = ev_sigversion env" "ev_CheckLowS (with_flags env f1) = ev_CheckLowS env"
  by simp_all

lemma softer_flag: "softer env f1 \<Longrightarrow> flag f1 F \<Longrightarrow> flag (ev_flags env) F"
  by (auto simp: softer_def intro: flag_mono)

section \<open>Operations\<close>

lemma accepts_CScriptNum [accepts]: "(m1 \<Longrightarrow> m2) \<Longrightarrow> accepts_as (CScriptNum vch m2 k) (CScriptNum vch m1 k)"
  by (auto simp: accepts_as_def CScriptNum_def)

lemma accepts_encodings [accepts]:
  "flags_le f1 f2 \<Longrightarrow> accepts_as (CheckSignatureEncoding low sig f2) (CheckSignatureEncoding low sig f1)"
  "flags_le f1 f2 \<Longrightarrow> accepts_as (CheckPubKeyEncoding key f2 v) (CheckPubKeyEncoding key f1 v)"
  using flag_mono [of f1 f2]
  by (auto simp: accepts_as_def CheckSignatureEncoding_def CheckPubKeyEncoding_def IsLowDERSignature_def set_error_def split: if_splits)

lemma accepts_lock_ops:
  assumes "softer env f1"
  shows "accepts_as (op_CHECKLOCKTIMEVERIFY env st) (op_CHECKLOCKTIMEVERIFY (with_flags env f1) st)"
    and "accepts_as (op_CHECKSEQUENCEVERIFY env st) (op_CHECKSEQUENCEVERIFY (with_flags env f1) st)"
    and "accepts_as (op_NOP_upgradable env st) (op_NOP_upgradable (with_flags env f1) st)"
proof -
  note flag = softer_flag [OF assms]
  have off: "\<not> flag f1 SCRIPT_VERIFY_DISCOURAGE_UPGRADABLE_NOPS" using assms by (simp add: softer_def)
  show "accepts_as (op_CHECKLOCKTIMEVERIFY env st) (op_CHECKLOCKTIMEVERIFY (with_flags env f1) st)"
  proof (cases "flag f1 SCRIPT_VERIFY_CHECKLOCKTIMEVERIFY")
    case True
    then have "flag (ev_flags env) SCRIPT_VERIFY_CHECKLOCKTIMEVERIFY" by (rule flag)
    with True show ?thesis
      by (simp add: op_CHECKLOCKTIMEVERIFY_def cong: if_cong) (intro accepts_as_basic(4,3,1) accepts_CScriptNum flag)
  next
    case False
    then show ?thesis using off
      by (auto simp: op_CHECKLOCKTIMEVERIFY_def accepts_as_def need_def set_error_def exec_bind_Inr_iff split: if_splits)
  qed
  show "accepts_as (op_CHECKSEQUENCEVERIFY env st) (op_CHECKSEQUENCEVERIFY (with_flags env f1) st)"
  proof (cases "flag f1 SCRIPT_VERIFY_CHECKSEQUENCEVERIFY")
    case True
    then have "flag (ev_flags env) SCRIPT_VERIFY_CHECKSEQUENCEVERIFY" by (rule flag)
    with True show ?thesis
      by (simp add: op_CHECKSEQUENCEVERIFY_def cong: if_cong) (intro accepts_as_basic(4,3,1) accepts_CScriptNum flag)
  next
    case False
    then show ?thesis using off
      by (auto simp: op_CHECKSEQUENCEVERIFY_def accepts_as_def need_def set_error_def exec_bind_Inr_iff split: if_splits)
  qed
  show "accepts_as (op_NOP_upgradable env st) (op_NOP_upgradable (with_flags env f1) st)"
    using off by (simp add: op_NOP_upgradable_def accepts)
qed

lemma accepts_number_ops:
  assumes "m1 \<Longrightarrow> m2"
  shows "accepts_as (op_PICK_ROLL m2 opcode st) (op_PICK_ROLL m1 opcode st)"
    and "accepts_as (op_unary m2 opcode st) (op_unary m1 opcode st)"
    and "accepts_as (op_binary m2 opcode st) (op_binary m1 opcode st)"
    and "accepts_as (op_WITHIN m2 st) (op_WITHIN m1 st)"
proof -
  note num = accepts_CScriptNum [of m1 m2, OF assms]
  show "accepts_as (op_PICK_ROLL m2 opcode st) (op_PICK_ROLL m1 opcode st)"
    unfolding op_PICK_ROLL_def by (intro accepts_as_basic(4,3,1) num)
  show "accepts_as (op_unary m2 opcode st) (op_unary m1 opcode st)"
    unfolding op_unary_def by (intro accepts_as_basic(4,3,1) num)
  show "accepts_as (op_binary m2 opcode st) (op_binary m1 opcode st)"
    unfolding op_binary_def by (intro accepts_as_basic(4,3,1) num)
  show "accepts_as (op_WITHIN m2 st) (op_WITHIN m1 st)"
    unfolding op_WITHIN_def by (intro accepts_as_basic(4,3,1) num)
qed

lemma accepts_main_op:
  assumes "softer env f1" and "main_op env opcode = Some f2"
  shows "\<exists>f1'. main_op (with_flags env f1) opcode = Some f1' \<and> (\<forall>st. accepts_as (f2 st) (f1' st))"
proof -
  have m: "flag f1 SCRIPT_VERIFY_MINIMALDATA \<Longrightarrow> flag (ev_flags env) SCRIPT_VERIFY_MINIMALDATA" by (rule softer_flag [OF assms(1)])
  have if_eq: "\<exists>f1'. (if c then Some g1 else r1) = Some f1' \<and> (\<forall>st. accepts_as (f2 st) (f1' st))"
    if "(if c then Some g2 else r2) = Some f2" "c \<Longrightarrow> (\<And>st. accepts_as (g2 st) (g1 st))"
      "\<not> c \<Longrightarrow> r2 = Some f2 \<Longrightarrow> \<exists>f1'. r1 = Some f1' \<and> (\<forall>st. accepts_as (f2 st) (f1' st))" for c g1 g2 r1 r2
    using that by (cases c) auto
  show ?thesis
    using assms(2) unfolding main_op_def Let_def with_flags_simps
    by (elim if_eq) (simp_all add: accepts accepts_lock_ops [OF assms(1)] accepts_number_ops [OF m])
qed

section \<open>Signature checks\<close>

lemma script_code_flags [simp]: "script_code (with_flags env f1) = script_code env"
  by (simp add: script_code_def fun_eq_iff)

lemma accepts_CHECKSIG:
  assumes "softer env f1"
  shows "accepts_as (op_CHECKSIG env opcode codehash st) (op_CHECKSIG (with_flags env f1) opcode codehash st)"
proof -
  have le: "flags_le f1 (ev_flags env)" using assms by (simp add: softer_def)
  show ?thesis
    unfolding op_CHECKSIG_def Let_def script_code_flags with_flags_simps
    by (intro accepts accepts_as_if le) (use softer_flag [OF assms] in blast)+
qed

lemma accepts_multisig_loop:
  assumes "softer env f1"
  shows "accepts_as (multisig_loop env code st isig nSigs ikey nKeys) (multisig_loop (with_flags env f1) code st isig nSigs ikey nKeys)"
proof (induction "nat nKeys" arbitrary: isig nSigs ikey nKeys rule: less_induct)
  case less
  have le: "flags_le f1 (ev_flags env)" using assms by (simp add: softer_def)
  have rec: "accepts_as
      (if (if ok then nSigs - 1 else nSigs) > nKeys - 1 then Inr False
       else multisig_loop env code st (if ok then isig + 1 else isig) (if ok then nSigs - 1 else nSigs) (ikey + 1) (nKeys - 1))
      (if (if ok then nSigs - 1 else nSigs) > nKeys - 1 then Inr False
       else multisig_loop (with_flags env f1) code st (if ok then isig + 1 else isig) (if ok then nSigs - 1 else nSigs) (ikey + 1) (nKeys - 1))"
    if "nSigs > 0" for ok
    by (rule accepts_as_if(1) [OF accepts_as_basic(1) less]) (use that in \<open>auto split: if_splits\<close>)
  show ?case
  proof (cases "nSigs > 0")
    case True
    show ?thesis
      unfolding multisig_loop.simps [of env code st isig nSigs ikey nKeys] multisig_loop.simps [of "with_flags env f1" code st isig nSigs ikey nKeys]
        Let_def with_flags_simps if_P [OF True]
      by (intro accepts_as_basic(1,3) accepts_encodings le rec True)
  qed (simp add: multisig_loop.simps accepts)
qed

lemma accepts_multisig_cleanup:
  assumes "softer env f1"
  shows "accepts_as (multisig_cleanup env fSuccess n ikey2 st) (multisig_cleanup (with_flags env f1) fSuccess n ikey2 st)"
proof (induction n arbitrary: ikey2 st)
  case (Suc n)
  have pop: "accepts_as (exec_bind (popstack st) (multisig_cleanup env fSuccess n i)) (exec_bind (popstack st) (multisig_cleanup (with_flags env f1) fSuccess n i))" for i
    by (intro accepts Suc)
  show ?case
    using pop softer_flag [OF assms, of SCRIPT_VERIFY_NULLFAIL]
    by (auto simp: accepts_as_def exec_bind_Inr_iff set_error_def split: if_splits)
qed (simp add: accepts)

lemma accepts_multisig_finish:
  assumes "softer env f1"
  shows "accepts_as (multisig_finish env opcode fSuccess n ikey2 st) (multisig_finish (with_flags env f1) opcode fSuccess n ikey2 st)"
  unfolding multisig_finish_def
proof (rule accepts_as_basic(3) [OF accepts_multisig_cleanup [OF assms]], rule accepts_as_basic(4))
  fix x
  let ?k = "\<lambda>vch. if length vch \<noteq> 0 then set_error SCRIPT_ERR_SIG_NULLDUMMY
       else exec_bind (popstack x) (\<lambda>st.
         let st = (if fSuccess then vchTrue else vchFalse) # st
         in if opcode = OP_CHECKMULTISIGVERIFY then
              (if fSuccess then popstack st else set_error SCRIPT_ERR_CHECKMULTISIGVERIFY)
            else Inr st)"
  show "accepts_as (exec_bind (if flag (ev_flags env) SCRIPT_VERIFY_NULLDUMMY then stacktop x 1 else Inr []) ?k)
     (exec_bind (if flag (ev_flags (with_flags env f1)) SCRIPT_VERIFY_NULLDUMMY then stacktop x 1 else Inr []) ?k)"
    using softer_flag [OF assms, of SCRIPT_VERIFY_NULLDUMMY]
    by (auto simp: accepts_as_def exec_bind_Inr_iff set_error_def split: if_splits)
qed

lemma accepts_CHECKMULTISIG:
  assumes "softer env f1"
  shows "accepts_as (op_CHECKMULTISIG env opcode codehash nOpCount st) (op_CHECKMULTISIG (with_flags env f1) opcode codehash nOpCount st)"
  unfolding op_CHECKMULTISIG_def multisig_verify_def Let_def script_code_flags with_flags_simps
  by (intro accepts accepts_as_if(1) accepts_multisig_loop accepts_multisig_finish assms softer_flag [OF assms]) assumption+

section \<open>The machine\<close>

lemma accepts_IF:
  assumes "softer env f1"
  shows "accepts_as (op_IF env opcode fExec s) (op_IF (with_flags env f1) opcode fExec s)"
  unfolding op_IF_def Let_def with_flags_simps
  by (intro accepts accepts_as_if) (use softer_flag [OF assms] in blast)+

lemma accepts_switch:
  assumes "softer env f1"
  shows "accepts_as (eval_switch env pc opcode fExec s) (eval_switch (with_flags env f1) pc opcode fExec s)"
proof -
  have other: "accepts_as
     (case main_op env opcode of
        Some f \<Rightarrow> exec_bind (f (es_stack s)) (\<lambda>st. Inr (s\<lparr>es_stack := st\<rparr>)) | None \<Rightarrow> set_error SCRIPT_ERR_BAD_OPCODE)
     (case main_op (with_flags env f1) opcode of
        Some f \<Rightarrow> exec_bind (f (es_stack s)) (\<lambda>st. Inr (s\<lparr>es_stack := st\<rparr>)) | None \<Rightarrow> set_error SCRIPT_ERR_BAD_OPCODE)"
  proof (cases "main_op env opcode")
    case (Some f2)
    from accepts_main_op [OF assms this] Some show ?thesis by (auto intro!: accepts_as_basic(3) accepts_as_basic(1))
  qed (simp add: accepts)
  show ?thesis
    unfolding eval_switch_def
    by (intro accepts_as_if(1) other accepts_IF accepts_as_basic(1,3) accepts_CHECKSIG accepts_CHECKMULTISIG assms)
qed

lemma accepts_step:
  assumes "softer env f1"
  shows "accepts_as (eval_step env pc opcode vch s) (eval_step (with_flags env f1) pc opcode vch s)"
  unfolding eval_step_def Let_def with_flags_simps
  by (intro accepts_as_basic(1,2,3) accepts_as_if(1) accepts_switch assms accepts_as_if(2)) (use softer_flag [OF assms] in blast)+

lemma accepts_loop:
  assumes "softer env f1"
  shows "accepts_as (EvalScript_loop env pc s) (EvalScript_loop (with_flags env f1) pc s)"
proof (induction "length (ev_script env) - pc" arbitrary: pc s rule: less_induct)
  case less
  obtain ok pc' opcode vch where get: "GetOp2 (ev_script env) pc = (ok, pc', opcode, vch)" by (metis prod_cases4)
  show ?case
  proof (cases "pc < length (ev_script env) \<and> ok")
    case True
    then have "length (ev_script env) - pc' < length (ev_script env) - pc" using GetOp2_True [of _ pc] get by (simp add: diff_less_mono2)
    then have "accepts_as (exec_bind (eval_step env pc' opcode vch s) (EvalScript_loop env pc'))
        (exec_bind (eval_step (with_flags env f1) pc' opcode vch s) (EvalScript_loop (with_flags env f1) pc'))"
      by (intro accepts accepts_step [OF assms] less)
    then show ?thesis using True get by (simp add: EvalScript_loop.simps [of _ pc s])
  next
    case False
    then show ?thesis using get by (auto simp: EvalScript_loop.simps [of _ pc s] accepts)
  qed
qed

lemma accepts_EvalScript:
  assumes "softer env f1"
  shows "accepts_as (EvalScript env stack) (EvalScript (with_flags env f1) stack)"
proof -
  have "accepts_as (catch_all m2) (catch_all m1)" if "accepts_as m2 m1" for m1 m2 :: "eval_state exec"
    using that by (auto simp: accepts_as_def catch_all_def set_error_def split: sum.splits halt.splits)
  from this [OF accepts_loop [OF assms]] show ?thesis
    unfolding EvalScript_def with_flags_simps by (intro accepts accepts_as_if(1))
qed

end
