(* ===== verification/Verify_Script.thy ===== *)
theory Verify_Script
  imports Interp_Safe Interp_Softfork
begin

text \<open>
  \<^verbatim>\<open>VerifyScript\<close> and \<^verbatim>\<open>VerifyWitnessProgram\<close> of \<^verbatim>\<open>src/script/interpreter.cpp\<close>, which decide whether an input may spend an output, and the
  count of signature operations in witnesses. A witness is a vector, so its last element is the top of the stack it becomes; a null witness
  is the empty one. An assertion that fails is \<open>Undefined\<close>.
\<close>

section \<open>The program\<close>

record verify_ctx =
  vc_flags :: u32
  vc_checker :: BaseSignatureChecker
  vc_CheckLowS :: "bytes \<Rightarrow> bool"

definition eval_with :: "verify_ctx \<Rightarrow> SigVersion \<Rightarrow> script \<Rightarrow> eval_env" where
  "eval_with C sigversion script =
    \<lparr>ev_script = script, ev_flags = vc_flags C, ev_checker = vc_checker C, ev_sigversion = sigversion, ev_CheckLowS = vc_CheckLowS C\<rparr>"

definition witness_script :: "bytes list \<Rightarrow> bytes \<Rightarrow> (bytes list \<times> script) exec" where
  "witness_script witness program =
    (if length program = 32 then
       (if length witness = 0 then set_error SCRIPT_ERR_WITNESS_PROGRAM_WITNESS_EMPTY
        else
          (let scriptPubKey = last witness; stack = rev (butlast witness);
               hashScriptPubKey = snd (CSHA256_Finalize (CSHA256_Write (CSHA256_new (replicate 64 0)) scriptPubKey))
           in if hashScriptPubKey \<noteq> program then set_error SCRIPT_ERR_WITNESS_PROGRAM_MISMATCH
              else Inr (stack, scriptPubKey)))
     else if length program = 20 then
       (if length witness \<noteq> 2 then set_error SCRIPT_ERR_WITNESS_PROGRAM_MISMATCH
        else
          (let scriptPubKey = push_opcode (push_opcode (push_data (push_opcode (push_opcode [] OP_DUP) OP_HASH160) program) OP_EQUALVERIFY) OP_CHECKSIG
           in Inr (rev witness, scriptPubKey)))
     else set_error SCRIPT_ERR_WITNESS_PROGRAM_WRONG_LENGTH)"

definition VerifyWitnessProgram :: "verify_ctx \<Rightarrow> bytes list \<Rightarrow> int \<Rightarrow> bytes \<Rightarrow> unit exec" where
  "VerifyWitnessProgram C witness witversion program =
    (if witversion = 0 then
       exec_bind (witness_script witness program) (\<lambda>(stack, scriptPubKey).
         if \<not> list_all (\<lambda>x. length x \<le> MAX_SCRIPT_ELEMENT_SIZE) stack then set_error SCRIPT_ERR_PUSH_SIZE
         else exec_bind (EvalScript (eval_with C SIGVERSION_WITNESS_V0 scriptPubKey) stack) (\<lambda>stack.
           if length stack \<noteq> 1 then set_error SCRIPT_ERR_EVAL_FALSE
           else if \<not> CastToBool (hd stack) then set_error SCRIPT_ERR_EVAL_FALSE
           else Inr ()))
     else if flag (vc_flags C) SCRIPT_VERIFY_DISCOURAGE_UPGRADABLE_WITNESS_PROGRAM then
       set_error SCRIPT_ERR_DISCOURAGE_UPGRADABLE_WITNESS_PROGRAM
     else Inr ())"

text \<open>\<^verbatim>\<open>stack.resize(1)\<close> keeps the bottom element.\<close>

definition resize1 :: "bytes list \<Rightarrow> bytes list" where
  "resize1 st = (if st = [] then [[]] else [last st])"

text \<open>The stages of \<^verbatim>\<open>VerifyScript\<close>: bare witness programs, scripts behind a hash, the final checks.\<close>

definition verify_bare :: "verify_ctx \<Rightarrow> script \<Rightarrow> script \<Rightarrow> bytes list \<Rightarrow> bytes list \<Rightarrow> (bool \<times> bytes list) exec" where
  "verify_bare C script_sig script_pubkey witness stack =
    (if flag (vc_flags C) SCRIPT_VERIFY_WITNESS then
       exec_bind (IsWitnessProgram script_pubkey) (\<lambda>wp.
         case wp of
           None \<Rightarrow> Inr (False, stack)
         | Some (witnessversion, witnessprogram) \<Rightarrow>
             if length script_sig \<noteq> 0 then set_error SCRIPT_ERR_WITNESS_MALLEATED
             else exec_bind (VerifyWitnessProgram C witness witnessversion witnessprogram) (\<lambda>_. Inr (True, resize1 stack)))
     else Inr (False, stack))"

definition verify_P2SH_witness :: "verify_ctx \<Rightarrow> script \<Rightarrow> script \<Rightarrow> bytes list \<Rightarrow> bool \<Rightarrow> bytes list \<Rightarrow> (bool \<times> bytes list) exec" where
  "verify_P2SH_witness C script_sig pubKey2 witness hadWitness stack =
    (if flag (vc_flags C) SCRIPT_VERIFY_WITNESS then
       exec_bind (IsWitnessProgram pubKey2) (\<lambda>wp.
         case wp of
           None \<Rightarrow> Inr (hadWitness, stack)
         | Some (witnessversion, witnessprogram) \<Rightarrow>
             if script_sig \<noteq> push_data [] pubKey2 then set_error SCRIPT_ERR_WITNESS_MALLEATED_P2SH
             else exec_bind (VerifyWitnessProgram C witness witnessversion witnessprogram) (\<lambda>_. Inr (True, resize1 stack)))
     else Inr (hadWitness, stack))"

definition verify_P2SH ::
  "verify_ctx \<Rightarrow> script \<Rightarrow> script \<Rightarrow> bytes list \<Rightarrow> bytes list \<Rightarrow> bool \<Rightarrow> bytes list \<Rightarrow> (bool \<times> bytes list) exec" where
  "verify_P2SH C script_sig script_pubkey witness stackCopy hadWitness stack =
    (if flag (vc_flags C) SCRIPT_VERIFY_P2SH \<and> IsPayToScriptHash script_pubkey then
       (if \<not> IsPushOnly script_sig then set_error SCRIPT_ERR_SIG_PUSHONLY
        else if stackCopy = [] then Inl Undefined
        else
          (let pubKey2 = hd stackCopy
           in exec_bind (popstack stackCopy) (\<lambda>stack.
              exec_bind (EvalScript (eval_with C SIGVERSION_BASE pubKey2) stack) (\<lambda>stack.
                if stack = [] then set_error SCRIPT_ERR_EVAL_FALSE
                else if \<not> CastToBool (hd stack) then set_error SCRIPT_ERR_EVAL_FALSE
                else verify_P2SH_witness C script_sig pubKey2 witness hadWitness stack))))
     else Inr (hadWitness, stack))"

definition verify_finish :: "verify_ctx \<Rightarrow> bytes list \<Rightarrow> bool \<Rightarrow> bytes list \<Rightarrow> unit exec" where
  "verify_finish C witness hadWitness stack =
    exec_bind
      (if flag (vc_flags C) SCRIPT_VERIFY_CLEANSTACK then
         (if \<not> flag (vc_flags C) SCRIPT_VERIFY_P2SH then Inl Undefined
          else if \<not> flag (vc_flags C) SCRIPT_VERIFY_WITNESS then Inl Undefined
          else if length stack \<noteq> 1 then set_error SCRIPT_ERR_CLEANSTACK
          else Inr ())
       else Inr ())
      (\<lambda>_.
       if flag (vc_flags C) SCRIPT_VERIFY_WITNESS then
         (if \<not> flag (vc_flags C) SCRIPT_VERIFY_P2SH then Inl Undefined
          else if \<not> hadWitness \<and> witness \<noteq> [] then set_error SCRIPT_ERR_WITNESS_UNEXPECTED
          else Inr ())
       else Inr ())"

definition VerifyScript :: "verify_ctx \<Rightarrow> script \<Rightarrow> script \<Rightarrow> bytes list \<Rightarrow> unit exec" where
  "VerifyScript C script_sig script_pubkey witness =
    (if flag (vc_flags C) SCRIPT_VERIFY_SIGPUSHONLY \<and> \<not> IsPushOnly script_sig then set_error SCRIPT_ERR_SIG_PUSHONLY
     else
       exec_bind (EvalScript (eval_with C SIGVERSION_BASE script_sig) []) (\<lambda>stack.
       let stackCopy = (if flag (vc_flags C) SCRIPT_VERIFY_P2SH then stack else [])
       in exec_bind (EvalScript (eval_with C SIGVERSION_BASE script_pubkey) stack) (\<lambda>stack.
          if stack = [] then set_error SCRIPT_ERR_EVAL_FALSE
          else if CastToBool (hd stack) = False then set_error SCRIPT_ERR_EVAL_FALSE
          else
            exec_bind (verify_bare C script_sig script_pubkey witness stack) (\<lambda>(hadWitness, stack).
            exec_bind (verify_P2SH C script_sig script_pubkey witness stackCopy hadWitness stack) (\<lambda>(hadWitness, stack).
            verify_finish C witness hadWitness stack)))))"

definition WitnessSigOps :: "int \<Rightarrow> bytes \<Rightarrow> bytes list \<Rightarrow> nat" where
  "WitnessSigOps witversion witprogram witness =
    (if witversion = 0 then
       (if length witprogram = 20 then 1
        else if length witprogram = 32 \<and> length witness > 0 then unat (GetSigOpCount (last witness) True)
        else 0)
     else 0)"

text \<open>The loop over the pushes of a script; the result of \<^verbatim>\<open>GetOp\<close> is ignored, and every call advances.\<close>

function last_data :: "script \<Rightarrow> nat \<Rightarrow> bytes \<Rightarrow> bytes" where
  "last_data script_sig pc data =
    (if pc < length script_sig then (let (ok, pc, opcode, data) = GetOp2 script_sig pc in last_data script_sig pc data) else data)"
  by pat_completeness auto
termination
proof (relation "measure (\<lambda>(s, pc, d). length s - pc)", goal_cases)
  case (2 s pc d x ok y pc' z opcode data)
  then have "GetOp2 s pc = (ok, pc', opcode, data)" by simp
  from GetOp2_progress [OF _ this] 2 show ?case by auto
qed simp

declare last_data.simps [simp del]

definition CountWitnessSigOps :: "script \<Rightarrow> script \<Rightarrow> bytes list \<Rightarrow> u32 \<Rightarrow> nat exec" where
  "CountWitnessSigOps script_sig script_pubkey witness verify_flags =
    (if \<not> flag verify_flags SCRIPT_VERIFY_WITNESS then Inr 0
     else if \<not> flag verify_flags SCRIPT_VERIFY_P2SH then Inl Undefined
     else
       exec_bind (IsWitnessProgram script_pubkey) (\<lambda>wp.
         case wp of
           Some (witnessversion, witnessprogram) \<Rightarrow> Inr (WitnessSigOps witnessversion witnessprogram witness)
         | None \<Rightarrow>
             if IsPayToScriptHash script_pubkey \<and> IsPushOnly script_sig then
               exec_bind (IsWitnessProgram (last_data script_sig 0 [])) (\<lambda>wp.
                 case wp of
                   Some (witnessversion, witnessprogram) \<Rightarrow> Inr (WitnessSigOps witnessversion witnessprogram witness)
                 | None \<Rightarrow> Inr 0)
             else Inr 0))"

section \<open>A script behind a hash needs a stack\<close>

lemma EvalScript_first_error:
  assumes "GetOp2 (ev_script env) 0 = (True, pc', opcode, vch)" and "eval_step env pc' opcode vch (eval_init stack) = set_error e"
  shows "\<exists>e. EvalScript env stack = set_error e"
proof -
  have "ev_script env \<noteq> []" using assms(1) by (auto simp: GetOp2_def)
  then have "EvalScript_loop env 0 (eval_init stack) = set_error e"
    using assms by (simp add: EvalScript_loop.simps [of env 0] set_error_def)
  then show ?thesis by (auto simp: EvalScript_def catch_all_def set_error_def)
qed

lemma P2SH_empty_stack:
  assumes "IsPayToScriptHash (ev_script env)"
  shows "\<exists>e. EvalScript env [] = set_error e"
proof (rule EvalScript_first_error)
  obtain h where s: "ev_script env = [OP_HASH160, 0x14] @ h @ [OP_EQUAL]" using assms IsPayToScriptHash_iff by blast
  show "GetOp2 (ev_script env) 0 = (True, 1, OP_HASH160, [])"
    using GetOp2_plain [of 0 "ev_script env" OP_HASH160] by (simp add: s opcode)
  have "main_op env OP_HASH160 = Some (op_hash_function OP_HASH160)" by (simp add: main_op_def opcode)
  then have "eval_switch env 1 OP_HASH160 True s' = exec_bind (op_hash_function OP_HASH160 (es_stack s')) (\<lambda>st. Inr (s'\<lparr>es_stack := st\<rparr>))" for s'
    by (simp add: eval_switch_def opcode)
  then have "eval_switch env 1 OP_HASH160 True (eval_init []\<lparr>es_nOpCount := 1\<rparr>) = set_error SCRIPT_ERR_INVALID_STACK_OPERATION"
    by (simp add: op_hash_function_def need_def eval_init_def set_error_def)
  moreover have "\<not> OP_HASH160 \<le> OP_PUSHDATA4" "OP_16 < OP_HASH160" "OP_HASH160 \<notin> set disabled_opcodes"
    by (simp_all add: opcode disabled_opcodes_def)
  ultimately show "eval_step env 1 OP_HASH160 [] (eval_init []) = set_error SCRIPT_ERR_INVALID_STACK_OPERATION"
    by (simp add: eval_step_def Let_def eval_init_def MAX_OPS_PER_SCRIPT_def set_error_def)
qed

section \<open>No assertion fails\<close>

definition flags_consistent :: "u32 \<Rightarrow> bool" where
  "flags_consistent f \<longleftrightarrow>
    (flag f SCRIPT_VERIFY_CLEANSTACK \<longrightarrow> flag f SCRIPT_VERIFY_WITNESS) \<and> (flag f SCRIPT_VERIFY_WITNESS \<longrightarrow> flag f SCRIPT_VERIFY_P2SH)"

lemma eval_with_simps [simp]:
  "ev_script (eval_with C v s) = s" "ev_flags (eval_with C v s) = vc_flags C" "ev_checker (eval_with C v s) = vc_checker C"
  by (simp_all add: eval_with_def)

text \<open>\<open>settled m\<close>: the computation returns true or an error code.\<close>

definition settled :: "'a exec \<Rightarrow> ('a \<Rightarrow> bool) \<Rightarrow> bool" where
  "settled m P \<longleftrightarrow> (case m of Inr x \<Rightarrow> P x | Inl h \<Rightarrow> \<exists>e. h = Error e)"

lemma settled_simps [simp]:
  "settled (Inr x) P \<longleftrightarrow> P x" "settled (set_error e) P" "settled (exec_bind m k) Q \<longleftrightarrow> settled m (\<lambda>x. settled (k x) Q)"
  "settled (popstack st) R \<longleftrightarrow> st \<noteq> [] \<and> R (tl st)"
  by (auto simp: settled_def set_error_def exec_bind_def popstack_def split: sum.splits)

lemma settled_if [simp]: "settled (if c then a else b) P \<longleftrightarrow> (c \<longrightarrow> settled a P) \<and> (\<not> c \<longrightarrow> settled b P)"
  by simp

lemma settled_mono: "settled m P \<Longrightarrow> (\<And>x. m = Inr x \<Longrightarrow> P x \<Longrightarrow> Q x) \<Longrightarrow> settled m Q"
  by (auto simp: settled_def split: sum.splits)

lemma settled_EvalScript:
  assumes "checker_ok (ev_checker env)" and "elements_ok stack"
  shows "settled (EvalScript env stack) elements_ok"
  using EvalScript_post [OF assms] by (auto simp: settled_def post_def split: sum.splits) (metis halt.exhaust)

lemma settled_IsWitnessProgram: "(\<And>wp. P wp) \<Longrightarrow> settled (IsWitnessProgram s) P"
  using IsWitnessProgram_total [of s] by (auto simp: settled_def)

lemma settled_witness_script: "settled (witness_script witness program) (\<lambda>_. True)"
  by (simp add: witness_script_def Let_def)

lemma settled_VerifyWitnessProgram:
  assumes "checker_ok (vc_checker C)"
  shows "settled (VerifyWitnessProgram C witness v program) (\<lambda>_. True)"
proof -
  have eval: "settled (EvalScript (eval_with C SIGVERSION_WITNESS_V0 s) stack) P"
    if "list_all (\<lambda>x. length x \<le> MAX_SCRIPT_ELEMENT_SIZE) stack" "\<And>st. P st" for s stack P
    by (rule settled_mono [OF settled_EvalScript]) (use that assms in \<open>simp_all add: elements_ok_def list_all_iff\<close>)
  show ?thesis
    unfolding VerifyWitnessProgram_def
    by (auto simp: split_beta intro!: settled_mono [OF settled_witness_script] eval)
qed

lemma VerifyScript_settled:
  assumes "checker_ok (vc_checker C)" and "flags_consistent (vc_flags C)"
  shows "settled (VerifyScript C script_sig script_pubkey witness) (\<lambda>_. True)"
proof -
  have eval: "settled (EvalScript (eval_with C SIGVERSION_BASE s) stack) elements_ok" if "elements_ok stack" for s stack
    by (rule settled_EvalScript) (simp_all add: assms(1) that)
  have witness: "settled (VerifyWitnessProgram C witness v program) P" if "\<And>u. P u" for v program P
    by (rule settled_mono [OF settled_VerifyWitnessProgram [OF assms(1)]]) (use that in simp)
  have bare: "settled (verify_bare C script_sig script_pubkey witness st) P" if "\<And>r. P r" for st P
    unfolding verify_bare_def by (auto simp: that split: option.splits intro!: settled_IsWitnessProgram witness)
  have p2sh_witness: "settled (verify_P2SH_witness C script_sig key witness had st) P" if "\<And>r. P r" for key had st P
    unfolding verify_P2SH_witness_def by (auto simp: that split: option.splits intro!: settled_IsWitnessProgram witness)
  have p2sh: "settled (verify_P2SH C script_sig script_pubkey witness stack had st') P"
    if "elements_ok stack" "EvalScript (eval_with C SIGVERSION_BASE script_pubkey) stack = Inr st" "\<And>r. P r" for stack st st' had P
  proof (cases "flag (vc_flags C) SCRIPT_VERIFY_P2SH \<and> IsPayToScriptHash script_pubkey")
    case True
    then have "stack \<noteq> []" using P2SH_empty_stack [of "eval_with C SIGVERSION_BASE script_pubkey"] that(2) by (auto simp: set_error_def)
    with True that(1,3) show ?thesis
      by (auto simp: verify_P2SH_def Let_def intro!: settled_mono [OF eval] p2sh_witness)
  qed (auto simp: verify_P2SH_def that(3))
  have off: "verify_P2SH C script_sig script_pubkey witness [] had st = Inr (had, st)" if "\<not> flag (vc_flags C) SCRIPT_VERIFY_P2SH" for had st
    using that by (simp add: verify_P2SH_def)
  have finish: "settled (verify_finish C witness had st) P" if "\<And>u. P u" for had st P
    using assms(2) that by (auto simp: verify_finish_def flags_consistent_def)
  show ?thesis
    unfolding VerifyScript_def Let_def
  proof (simp add: split_beta, intro impI settled_mono [OF eval] conjI; (simp add: bare p2sh finish off)?)
  qed
qed

text \<open>
  C7. With flags that respect the dependencies the program asserts, verification returns true or an error code for all scripts and
  witnesses: no assertion fails, in particular not the one that the stack of a spend to a script hash is not empty.
\<close>

theorem VerifyScript_no_assertion:
  assumes "checker_ok (vc_checker C)" and "flags_consistent (vc_flags C)"
  shows "VerifyScript C script_sig script_pubkey witness = Inr () \<or> (\<exists>e. VerifyScript C script_sig script_pubkey witness = Inl (Error e))"
  using VerifyScript_settled [OF assms, of script_sig script_pubkey witness] by (auto simp: settled_def split: sum.splits)

definition sample_ctx :: "u32 \<Rightarrow> verify_ctx" where
  "sample_ctx verify_flags = \<lparr>vc_flags = verify_flags, vc_checker = base_checker, vc_CheckLowS = \<lambda>_. True\<rparr>"

theorem VerifyScript_no_assertion_witness:
  "flags_consistent SCRIPT_VERIFY_P2SH \<and>
   (VerifyScript (sample_ctx SCRIPT_VERIFY_P2SH) [OP_1] [OP_VERIFY] [] = Inr () \<or>
    (\<exists>e. VerifyScript (sample_ctx SCRIPT_VERIFY_P2SH) [OP_1] [OP_VERIFY] [] = Inl (Error e)))"
proof -
  have "flags_consistent SCRIPT_VERIFY_P2SH" by code_simp
  moreover have "checker_ok (vc_checker (sample_ctx SCRIPT_VERIFY_P2SH))" by (simp add: sample_ctx_def base_checker_ok)
  ultimately show ?thesis using VerifyScript_no_assertion [of "sample_ctx SCRIPT_VERIFY_P2SH" "[OP_1]" "[OP_VERIFY]" "[]"] by (simp add: sample_ctx_def)
qed

section \<open>More flags accept less\<close>

abbreviation ctx_flags :: "verify_ctx \<Rightarrow> u32 \<Rightarrow> verify_ctx" where "ctx_flags C f1 \<equiv> C\<lparr>vc_flags := f1\<rparr>"

lemma accepts_eval_with:
  assumes "flags_le f1 (vc_flags C)" and "\<not> flag f1 SCRIPT_VERIFY_DISCOURAGE_UPGRADABLE_NOPS"
  shows "accepts_as (EvalScript (eval_with C v s) stack) (EvalScript (eval_with (ctx_flags C f1) v s) stack)"
proof -
  have "softer (eval_with C v s) f1" using assms by (simp add: softer_def)
  moreover have "with_flags (eval_with C v s) f1 = eval_with (ctx_flags C f1) v s" by (simp add: eval_with_def)
  ultimately show ?thesis using accepts_EvalScript by metis
qed

lemma accepts_VerifyWitnessProgram:
  assumes "flags_le f1 (vc_flags C)" and "\<not> flag f1 SCRIPT_VERIFY_DISCOURAGE_UPGRADABLE_NOPS"
  shows "accepts_as (VerifyWitnessProgram C witness v program) (VerifyWitnessProgram (ctx_flags C f1) witness v program)"
proof (cases "v = 0")
  case True
  then show ?thesis unfolding VerifyWitnessProgram_def split_beta if_P [OF True]
    by (intro accepts_as_basic(1,3) accepts_as_if(1) accepts_eval_with assms)
next
  case False
  then show ?thesis using flag_mono [OF assms(1)] by (auto simp: VerifyWitnessProgram_def accepts_as_def set_error_def split: if_splits)
qed

lemma P2SH_not_witness: "IsPayToScriptHash s \<Longrightarrow> IsWitnessProgram s = Inr None"
proof -
  assume "IsPayToScriptHash s"
  then have "s ! 0 = OP_HASH160" by (simp add: IsPayToScriptHash_def)
  then have "s ! 0 \<noteq> OP_0 \<and> (s ! 0 < OP_1 \<or> s ! 0 > OP_16)" by (simp add: opcode)
  then show ?thesis by (simp add: IsWitnessProgram_def)
qed

lemma VerifyScript_Inr_iff:
  "VerifyScript C script_sig script_pubkey witness = Inr u \<longleftrightarrow>
    (flag (vc_flags C) SCRIPT_VERIFY_SIGPUSHONLY \<longrightarrow> IsPushOnly script_sig) \<and>
    (\<exists>stack stack' had sb had' sp. EvalScript (eval_with C SIGVERSION_BASE script_sig) [] = Inr stack \<and>
      EvalScript (eval_with C SIGVERSION_BASE script_pubkey) stack = Inr stack' \<and> stack' \<noteq> [] \<and> CastToBool (hd stack') \<and>
      verify_bare C script_sig script_pubkey witness stack' = Inr (had, sb) \<and>
      verify_P2SH C script_sig script_pubkey witness (if flag (vc_flags C) SCRIPT_VERIFY_P2SH then stack else []) had sb = Inr (had', sp) \<and>
      verify_finish C witness had' sp = Inr u)"
  by (auto simp: VerifyScript_def exec_bind_Inr_iff set_error_def Let_def split_beta split: if_splits) fastforce+

lemma verify_P2SH_eval:
  assumes "verify_P2SH C script_sig script_pubkey witness stack had sb = Inr r" and "flag (vc_flags C) SCRIPT_VERIFY_P2SH"
    and "IsPayToScriptHash script_pubkey"
  obtains st where "IsPushOnly script_sig" and "stack \<noteq> []"
    and "EvalScript (eval_with C SIGVERSION_BASE (hd stack)) (tl stack) = Inr st" and "st \<noteq> []" and "CastToBool (hd st)"
    and "verify_P2SH_witness C script_sig (hd stack) witness had st = Inr r"
  using assms by (auto simp: verify_P2SH_def set_error_def exec_bind_Inr_iff Let_def popstack_def split: if_splits)

lemma verify_P2SH_run:
  assumes "IsPayToScriptHash script_pubkey" and "IsPushOnly script_sig" and "stack \<noteq> []"
    and "EvalScript (eval_with C SIGVERSION_BASE (hd stack)) (tl stack) = Inr st" and "st \<noteq> []" and "CastToBool (hd st)"
  shows "verify_P2SH C script_sig script_pubkey witness stack had sb =
    (if flag (vc_flags C) SCRIPT_VERIFY_P2SH then verify_P2SH_witness C script_sig (hd stack) witness had st else Inr (had, sb))"
  using assms by (simp add: verify_P2SH_def Let_def popstack_def)

text \<open>
  C8. Soft forks: a spend accepted with some flags is accepted with any subset of them, as long as the subset respects the dependencies
  of the flags and does not discourage the opcodes reserved for upgrades.
\<close>

theorem VerifyScript_softfork:
  assumes "VerifyScript C script_sig script_pubkey witness = Inr ()" and "flags_le f1 (vc_flags C)" and "flags_consistent f1"
    and "\<not> flag f1 SCRIPT_VERIFY_DISCOURAGE_UPGRADABLE_NOPS"
  shows "VerifyScript (ctx_flags C f1) script_sig script_pubkey witness = Inr ()"
proof -
  note mono = flag_mono [OF assms(2)]
  note eval = accepts_as_Inr [OF accepts_eval_with [OF assms(2,4)]]
  note prog = accepts_as_Inr [OF accepts_VerifyWitnessProgram [OF assms(2,4)]]
  obtain stack stack' had sb had' sp where run:
    "EvalScript (eval_with C SIGVERSION_BASE script_sig) [] = Inr stack"
    "EvalScript (eval_with C SIGVERSION_BASE script_pubkey) stack = Inr stack'" "stack' \<noteq> []" "CastToBool (hd stack')"
    and bare: "verify_bare C script_sig script_pubkey witness stack' = Inr (had, sb)"
    and p2sh: "verify_P2SH C script_sig script_pubkey witness (if flag (vc_flags C) SCRIPT_VERIFY_P2SH then stack else []) had sb = Inr (had', sp)"
    and finish: "verify_finish C witness had' sp = Inr ()"
    and push: "flag (vc_flags C) SCRIPT_VERIFY_SIGPUSHONLY \<longrightarrow> IsPushOnly script_sig"
    using assms(1) unfolding VerifyScript_Inr_iff by blast
  note run1 = eval [OF run(1)] eval [OF run(2)] run(3,4)
  have push1: "flag f1 SCRIPT_VERIFY_SIGPUSHONLY \<longrightarrow> IsPushOnly script_sig" using push mono by blast
  show ?thesis
  proof (cases "flag f1 SCRIPT_VERIFY_WITNESS")
    case False
    then have clean: "\<not> flag f1 SCRIPT_VERIFY_CLEANSTACK" using assms(3) by (auto simp: flags_consistent_def)
    then have finish1: "verify_finish (ctx_flags C f1) witness h st = Inr ()" for h st using False by (simp add: verify_finish_def)
    have bare1: "verify_bare (ctx_flags C f1) script_sig script_pubkey witness stack' = Inr (False, stack')"
      using False by (simp add: verify_bare_def)
    have "\<exists>r. verify_P2SH (ctx_flags C f1) script_sig script_pubkey witness (if flag f1 SCRIPT_VERIFY_P2SH then stack else []) False stack' = Inr r"
    proof (cases "flag f1 SCRIPT_VERIFY_P2SH \<and> IsPayToScriptHash script_pubkey")
      case True
      then have "flag (vc_flags C) SCRIPT_VERIFY_P2SH" using mono by blast
      with p2sh True obtain st where *: "IsPushOnly script_sig" "stack \<noteq> []"
        "EvalScript (eval_with C SIGVERSION_BASE (hd stack)) (tl stack) = Inr st" "st \<noteq> []" "CastToBool (hd st)"
        by (elim verify_P2SH_eval) auto
      show ?thesis using True verify_P2SH_run [OF _ *(1,2) eval [OF *(3)] *(4,5)] False by (auto simp: verify_P2SH_witness_def)
    qed (auto simp: verify_P2SH_def)
    then show ?thesis unfolding VerifyScript_Inr_iff using run1 push1 bare1 finish1 by fastforce
  next
    case True
    then have p: "flag f1 SCRIPT_VERIFY_P2SH" using assms(3) by (auto simp: flags_consistent_def)
    have w2: "flag (vc_flags C) SCRIPT_VERIFY_WITNESS" "flag (vc_flags C) SCRIPT_VERIFY_P2SH" using mono True p by blast+
    have bare1: "verify_bare (ctx_flags C f1) script_sig script_pubkey witness stack' = Inr (had, sb)"
      using bare prog w2 True by (auto simp: verify_bare_def exec_bind_Inr_iff set_error_def split: option.splits if_splits)
    have p2shw: "verify_P2SH_witness (ctx_flags C f1) script_sig k witness h st = Inr r"
      if "verify_P2SH_witness C script_sig k witness h st = Inr r" for k h st r
      using that prog w2 True by (auto simp: verify_P2SH_witness_def exec_bind_Inr_iff set_error_def split: option.splits if_splits)
    have "verify_P2SH (ctx_flags C f1) script_sig script_pubkey witness stack had sb = Inr (had', sp)"
    proof (cases "IsPayToScriptHash script_pubkey")
      case True
      with p2sh w2 obtain st where *: "IsPushOnly script_sig" "stack \<noteq> []"
        "EvalScript (eval_with C SIGVERSION_BASE (hd stack)) (tl stack) = Inr st" "st \<noteq> []" "CastToBool (hd st)"
        "verify_P2SH_witness C script_sig (hd stack) witness had st = Inr (had', sp)"
        by (elim verify_P2SH_eval) auto
      show ?thesis using verify_P2SH_run [OF True *(1,2) eval [OF *(3)] *(4,5)] p2shw [OF *(6)] p by simp
    qed (use p2sh in \<open>simp add: verify_P2SH_def\<close>)
    moreover have "verify_finish (ctx_flags C f1) witness had' sp = Inr ()"
      using finish mono True p by (auto simp: verify_finish_def exec_bind_Inr_iff set_error_def split: if_splits)
    ultimately show ?thesis unfolding VerifyScript_Inr_iff using run1 push1 bare1 p by fastforce
  qed
qed

theorem VerifyScript_softfork_witness:
  "VerifyScript (sample_ctx (SCRIPT_VERIFY_P2SH OR SCRIPT_VERIFY_MINIMALDATA)) [OP_1, OP_1] [OP_EQUAL] [] = Inr () \<and>
   VerifyScript (sample_ctx 0) [OP_1, OP_1] [OP_EQUAL] [] = Inr ()"
proof -
  have run: "VerifyScript (sample_ctx (SCRIPT_VERIFY_P2SH OR SCRIPT_VERIFY_MINIMALDATA)) [OP_1, OP_1] [OP_EQUAL] [] = Inr ()" by code_simp
  have c: "flags_consistent 0" "\<not> flag 0 SCRIPT_VERIFY_DISCOURAGE_UPGRADABLE_NOPS" by code_simp+
  have "flags_le 0 (vc_flags (sample_ctx (SCRIPT_VERIFY_P2SH OR SCRIPT_VERIFY_MINIMALDATA)))" by (simp add: flags_le_def)
  from VerifyScript_softfork [OF run this c] have "VerifyScript (sample_ctx 0) [OP_1, OP_1] [OP_EQUAL] [] = Inr ()" by (simp add: sample_ctx_def)
  with run show ?thesis by blast
qed

end
