(* ===== verification/Spend.thy ===== *)
theory Spend
  imports Verify_Script
begin

text \<open>
  What the interpreter makes of the scripts in use: the grammar of signatures, payments to a public key hash, and outputs that are taken to
  be unspendable.
\<close>

section \<open>The grammar of signatures\<close>

text \<open>A positive integer in the shortest encoding.\<close>

definition der_int :: "bytes \<Rightarrow> bool" where
  "der_int R \<longleftrightarrow> R \<noteq> [] \<and> R ! 0 AND 0x80 = 0 \<and> (length R > 1 \<and> R ! 0 = 0 \<longrightarrow> R ! 1 AND 0x80 \<noteq> 0)"

definition der_signature :: "bytes \<Rightarrow> bytes \<Rightarrow> byte \<Rightarrow> bytes" where
  "der_signature R S hashtype =
    [0x30, of_nat (length R + length S + 4), 0x02, of_nat (length R)] @ R @ [0x02, of_nat (length S)] @ S @ [hashtype]"

lemma byte_of_nat: "n < 256 \<Longrightarrow> unat (of_nat n :: byte) = n"
  by (simp add: unat_of_nat)

lemma list_take_two: "i + 2 \<le> length xs \<Longrightarrow> drop i xs = xs ! i # xs ! (i + 1) # drop (i + 2) xs"
  using Cons_nth_drop_Suc [of i xs] Cons_nth_drop_Suc [of "Suc i" xs] by simp

text \<open>
  A byte string passes \<^verbatim>\<open>IsValidSignatureEncoding\<close> exactly if it is the DER form of two positive integers in shortest encoding followed by
  a byte for the hash type, at most 73 bytes in all.
\<close>

theorem IsValidSignatureEncoding_iff:
  "IsValidSignatureEncoding sig \<longleftrightarrow>
    (\<exists>R S hashtype. der_int R \<and> der_int S \<and> length R + length S + 7 \<le> 73 \<and> sig = der_signature R S hashtype)"
proof
  assume *: "IsValidSignatureEncoding sig"
  define lenR lenS where "lenR = unat (sig ! 3)" and "lenS = unat (sig ! (5 + lenR))"
  have c: "9 \<le> length sig" "length sig \<le> 73" "sig ! 0 = 0x30" "unat (sig ! 1) = length sig - 3" "lenR + lenS + 7 = length sig"
    "sig ! 2 = 0x02" "lenR \<noteq> 0" "sig ! 4 AND 0x80 = 0" "\<not> (lenR > 1 \<and> sig ! 4 = 0x00 \<and> sig ! 5 AND 0x80 = 0)" "sig ! (lenR + 4) = 0x02"
    "lenS \<noteq> 0" "sig ! (lenR + 6) AND 0x80 = 0" "\<not> (lenS > 1 \<and> sig ! (lenR + 6) = 0x00 \<and> sig ! (lenR + 7) AND 0x80 = 0)"
    using * by (auto simp: IsValidSignatureEncoding_def Let_def lenR_def lenS_def not_less split: if_splits)
  define R S where "R = take lenR (drop 4 sig)" and "S = take lenS (drop (lenR + 6) sig)"
  have len: "length R = lenR" "length S = lenS" using c(5) by (simp_all add: R_def S_def)
  have nth: "R ! i = sig ! (4 + i)" if "i < lenR" for i using that c(5) by (simp add: R_def)
  have nthS: "S ! i = sig ! (lenR + 6 + i)" if "i < lenS" for i using that c(5) by (simp add: S_def)
  have R: "der_int R" using c(7-9) nth [of 0] nth [of 1] len by (auto simp: der_int_def)
  have S: "der_int S" using c(11-13) nthS [of 0] nthS [of 1] len by (auto simp: der_int_def add.commute [of "length R" 7])
  have "sig = [sig ! 0, sig ! 1, sig ! 2, sig ! 3] @ drop 4 sig"
    using list_take_two [of 0 sig] list_take_two [of 2 sig] c(1) by (simp add: numeral_eq_Suc)
  also have "drop 4 sig = R @ drop (lenR + 4) sig" by (simp add: R_def add.commute flip: drop_drop)
  also have "drop (lenR + 4) sig = [sig ! (lenR + 4), sig ! (5 + lenR)] @ drop (lenR + 6) sig"
    using list_take_two [of "lenR + 4" sig] c(5,11) by (simp add: add.commute)
  also have "drop (lenR + 6) sig = S @ drop lenS (drop (lenR + 6) sig)" unfolding S_def by (rule append_take_drop_id [symmetric])
  also have "drop lenS (drop (lenR + 6) sig) = drop (lenR + lenS + 6) sig" by (simp add: ac_simps)
  also have "drop (lenR + lenS + 6) sig = [last sig]"
  proof -
    have "length sig - 1 = lenR + lenS + 6" "sig \<noteq> []" using c(5) by auto
    then have "last sig = sig ! (lenR + lenS + 6)" by (simp add: last_conv_nth)
    then show ?thesis using c(5) Cons_nth_drop_Suc [of "lenR + lenS + 6" sig] by simp
  qed
  finally have sig: "sig = [sig ! 0, sig ! 1, sig ! 2, sig ! 3] @ R @ [sig ! (lenR + 4), sig ! (5 + lenR)] @ S @ [last sig]" by simp
  have of_byte: "x = of_nat n" if "unat x = n" for x :: byte and n
  proof -
    have "x = of_nat (unat x)" by simp
    with that show ?thesis by (simp only:)
  qed
  have "sig ! 1 = of_nat (lenR + lenS + 4)" "sig ! 3 = of_nat lenR" "sig ! (5 + lenR) = of_nat lenS"
    by (rule of_byte, use c(4,5) in \<open>simp add: lenR_def lenS_def\<close>)+
  then have "sig = der_signature R S (last sig)" using sig c(3,6,10) len unfolding der_signature_def by metis
  with R S c(2,5) len show "\<exists>R S hashtype. der_int R \<and> der_int S \<and> length R + length S + 7 \<le> 73 \<and> sig = der_signature R S hashtype" by metis
next
  assume "\<exists>R S hashtype. der_int R \<and> der_int S \<and> length R + length S + 7 \<le> 73 \<and> sig = der_signature R S hashtype"
  then obtain R S t where R: "der_int R" and S: "der_int S" and len: "length R + length S + 7 \<le> 73" and sig: "sig = der_signature R S t" by blast
  have pos: "0 < length R" "0 < length S" using R S by (simp_all add: der_int_def)
  have size: "length sig = length R + length S + 7" by (simp add: sig der_signature_def)
  have n: "sig ! 0 = 0x30" "sig ! 1 = of_nat (length R + length S + 4)" "sig ! 2 = 0x02" "sig ! 3 = of_nat (length R)"
    by (simp_all add: sig der_signature_def numeral_eq_Suc)
  have r: "sig ! (4 + i) = R ! i" if "i < length R" for i using that by (simp add: sig der_signature_def nth_append numeral_eq_Suc)
  have s: "sig ! (length R + 4) = 0x02" "sig ! (5 + length R) = of_nat (length S)"
    by (simp_all add: sig der_signature_def nth_append nth_Cons' numeral_eq_Suc)
  have s': "sig ! (length R + 6 + i) = S ! i" if "i < length S" for i
    using that by (simp add: sig der_signature_def nth_append nth_Cons' numeral_eq_Suc)
  have u: "unat (sig ! 3) = length R" "unat (sig ! (5 + length R)) = length S" "unat (sig ! 1) = length sig - 3"
    using len size by (simp_all only: n s) (simp_all add: byte_of_nat del: of_nat_add)
  have "sig ! 4 = R ! 0" "1 < length R \<longrightarrow> sig ! 5 = R ! 1" "sig ! (length R + 6) = S ! 0" "1 < length S \<longrightarrow> sig ! (length R + 7) = S ! 1"
    using r [of 0] r [of 1] s' [of 0] s' [of 1] pos by (simp_all add: numeral_eq_Suc)
  moreover have "\<not> length sig < 9" "\<not> length sig > 73" "\<not> 5 + length R \<ge> length sig" "length R + length S + 7 = length sig"
    using size len pos by linarith+
  moreover have "R \<noteq> []" "S \<noteq> []" using pos by simp_all
  ultimately show "IsValidSignatureEncoding sig"
    using R S n(1,3) s(1) unfolding IsValidSignatureEncoding_def Let_def u der_int_def by simp
qed


section \<open>Running a script\<close>

lemma EvalScript_loop_step:
  "pc < length (ev_script env) \<Longrightarrow> GetOp2 (ev_script env) pc = (True, pc', opcode, vch) \<Longrightarrow>
    EvalScript_loop env pc s = exec_bind (eval_step env pc' opcode vch s) (EvalScript_loop env pc')"
  by (simp add: EvalScript_loop.simps [of env pc s])

lemma EvalScript_loop_end: "length (ev_script env) \<le> pc \<Longrightarrow> EvalScript_loop env pc s = Inr s"
  by (simp add: EvalScript_loop.simps)

text \<open>An operation of the main stack in a state without conditionals and without an alternative stack.\<close>

lemma eval_step_main:
  assumes "main_op env opcode = Some f" and "opcode > OP_16" and "opcode \<notin> set disabled_opcodes"
    and "opcode \<notin> {OP_IF, OP_NOTIF, OP_ELSE, OP_ENDIF, OP_TOALTSTACK, OP_FROMALTSTACK, OP_CODESEPARATOR, OP_CHECKSIG, OP_CHECKSIGVERIFY,
      OP_CHECKMULTISIG, OP_CHECKMULTISIGVERIFY}"
    and "f st = Inr st'" and "length st' \<le> MAX_STACK_SIZE" and "n < MAX_OPS_PER_SCRIPT" and "length vch \<le> MAX_SCRIPT_ELEMENT_SIZE"
  shows "eval_step env pc opcode vch \<lparr>es_stack = st, es_altstack = [], es_vfExec = [], es_codehash = c, es_nOpCount = n\<rparr> =
    Inr \<lparr>es_stack = st', es_altstack = [], es_vfExec = [], es_codehash = c, es_nOpCount = n + 1\<rparr>"
proof -
  have "\<not> opcode \<le> OP_PUSHDATA4" using assms(2) by (simp add: opcode word_le_nat_alt word_less_nat_alt)
  then show ?thesis using assms by (simp add: eval_step_def Let_def eval_switch_def)
qed

lemma eval_step_main_error:
  assumes "main_op env opcode = Some f" and "opcode > OP_16" and "opcode \<notin> set disabled_opcodes"
    and "opcode \<notin> {OP_IF, OP_NOTIF, OP_ELSE, OP_ENDIF, OP_TOALTSTACK, OP_FROMALTSTACK, OP_CODESEPARATOR, OP_CHECKSIG, OP_CHECKSIGVERIFY,
      OP_CHECKMULTISIG, OP_CHECKMULTISIGVERIFY}"
    and "f st = set_error e" and "n < MAX_OPS_PER_SCRIPT" and "length vch \<le> MAX_SCRIPT_ELEMENT_SIZE"
  shows "eval_step env pc opcode vch \<lparr>es_stack = st, es_altstack = [], es_vfExec = [], es_codehash = c, es_nOpCount = n\<rparr> = set_error e"
proof -
  have "\<not> opcode \<le> OP_PUSHDATA4" using assms(2) by (simp add: opcode word_le_nat_alt word_less_nat_alt)
  then show ?thesis using assms by (simp add: eval_step_def Let_def eval_switch_def set_error_def)
qed

lemma eval_step_push:
  assumes "opcode \<le> OP_PUSHDATA4" and "length vch \<le> MAX_SCRIPT_ELEMENT_SIZE" and "CheckMinimalPush vch opcode"
    and "length st < MAX_STACK_SIZE"
  shows "eval_step env pc opcode vch \<lparr>es_stack = st, es_altstack = [], es_vfExec = [], es_codehash = c, es_nOpCount = n\<rparr> =
    Inr \<lparr>es_stack = vch # st, es_altstack = [], es_vfExec = [], es_codehash = c, es_nOpCount = n\<rparr>"
proof -
  have "\<not> opcode > OP_16" "opcode \<notin> set disabled_opcodes"
    using assms(1) by (auto simp: opcode disabled_opcodes_def word_le_nat_alt word_less_nat_alt)
  then show ?thesis using assms by (simp add: eval_step_def Let_def)
qed

section \<open>Payment to a public key hash\<close>

definition p2pkh :: "bytes \<Rightarrow> script" where
  "p2pkh h = [OP_DUP, OP_HASH160, 0x14] @ h @ [OP_EQUALVERIFY, OP_CHECKSIG]"

lemma p2pkh_forms:
  assumes "length h = 20"
  shows "p2pkh h = push_opcode (push_opcode (push_data (push_opcode (push_opcode [] OP_DUP) OP_HASH160) h) OP_EQUALVERIFY) OP_CHECKSIG"
    and "IsPayToPublicKeyHash (p2pkh h)"
  using assms by (simp_all add: p2pkh_def push_opcode_def push_data_def opcode IsPayToPublicKeyHash_def nth_append)

lemma p2pkh_ops:
  assumes "length h = 20"
  shows "GetOp2 (p2pkh h) 0 = (True, 1, OP_DUP, [])" and "GetOp2 (p2pkh h) 1 = (True, 2, OP_HASH160, [])"
    and "GetOp2 (p2pkh h) 2 = (True, 23, 0x14, h)" and "GetOp2 (p2pkh h) 23 = (True, 24, OP_EQUALVERIFY, [])"
    and "GetOp2 (p2pkh h) 24 = (True, 25, OP_CHECKSIG, [])" and "length (p2pkh h) = 25"
proof -
  show len: "length (p2pkh h) = 25" using assms by (simp add: p2pkh_def)
  have n: "p2pkh h ! 0 = OP_DUP" "p2pkh h ! 1 = OP_HASH160" "p2pkh h ! 2 = 0x14" "p2pkh h ! 23 = OP_EQUALVERIFY" "p2pkh h ! 24 = OP_CHECKSIG"
    using assms by (simp_all add: p2pkh_def nth_append)
  show "GetOp2 (p2pkh h) 0 = (True, 1, OP_DUP, [])" "GetOp2 (p2pkh h) 1 = (True, 2, OP_HASH160, [])"
    "GetOp2 (p2pkh h) 23 = (True, 24, OP_EQUALVERIFY, [])" "GetOp2 (p2pkh h) 24 = (True, 25, OP_CHECKSIG, [])"
    using GetOp2_plain [of 0 "p2pkh h"] GetOp2_plain [of 1 "p2pkh h"] GetOp2_plain [of 23 "p2pkh h"] GetOp2_plain [of 24 "p2pkh h"] len n
    by (simp_all add: opcode)
  have "take 20 (drop 3 (p2pkh h)) = h" using assms by (simp add: p2pkh_def)
  then show "GetOp2 (p2pkh h) 2 = (True, 23, 0x14, h)" using GetOp2_direct [of "p2pkh h" 2 "0x14"] len n by (simp add: opcode)
qed

lemma main_op_p2pkh:
  "main_op env OP_DUP = Some op_DUP" "main_op env OP_HASH160 = Some (op_hash_function OP_HASH160)"
  "main_op env OP_EQUALVERIFY = Some (op_EQUAL OP_EQUALVERIFY)"
  by (simp_all add: main_op_def opcode)

text \<open>Up to the check of the signature.\<close>

lemma p2pkh_run:
  assumes "ev_script env = p2pkh h" and "length h = 20" and "length st \<le> 996" and "st = pubkey # sig # rest"
  shows "EvalScript_loop env 0 (eval_init st) =
    (if script_hash OP_HASH160 pubkey = h then
       exec_bind (eval_step env 25 OP_CHECKSIG [] \<lparr>es_stack = st, es_altstack = [], es_vfExec = [], es_codehash = 0, es_nOpCount = 3\<rparr>) Inr
     else set_error SCRIPT_ERR_EQUALVERIFY)"
proof -
  note ops = p2pkh_ops [OF assms(2)]
  note step = EvalScript_loop_step [of _ env, unfolded assms(1) ops(6)]
  let ?s = "\<lambda>st n. \<lparr>es_stack = st, es_altstack = [], es_vfExec = [], es_codehash = 0, es_nOpCount = n\<rparr>"
  have lim: "length st + 2 \<le> MAX_STACK_SIZE" using assms(3) by (simp add: MAX_STACK_SIZE_def)
  have 1: "eval_step env 1 OP_DUP [] (?s st 0) = Inr (?s (pubkey # st) 1)"
    using eval_step_main [OF main_op_p2pkh(1), of st "pubkey # st" 0 "[]" env 1 0] lim assms(4)
    by (simp add: opcode disabled_opcodes_def op_DUP_def need_def stacktop_def MAX_OPS_PER_SCRIPT_def)
  have 2: "eval_step env 2 OP_HASH160 [] (?s (pubkey # st) 1) = Inr (?s (script_hash OP_HASH160 pubkey # st) 2)"
    using eval_step_main [OF main_op_p2pkh(2), of "pubkey # st" "script_hash OP_HASH160 pubkey # st" 1 "[]" env 2 0] lim
    by (simp add: opcode disabled_opcodes_def op_hash_function_def need_def stacktop_def popstack_def MAX_OPS_PER_SCRIPT_def)
  have 3: "eval_step env 23 0x14 h (?s (script_hash OP_HASH160 pubkey # st) 2) = Inr (?s (h # script_hash OP_HASH160 pubkey # st) 2)"
    using lim assms(2) by (intro eval_step_push) (simp_all add: opcode MAX_SCRIPT_ELEMENT_SIZE_def CheckMinimalPush_def)
  have 4: "eval_step env 24 OP_EQUALVERIFY [] (?s (h # script_hash OP_HASH160 pubkey # st) 2) =
      (if script_hash OP_HASH160 pubkey = h then Inr (?s st 3) else set_error SCRIPT_ERR_EQUALVERIFY)"
  proof (cases "script_hash OP_HASH160 pubkey = h")
    case True
    then show ?thesis
      using eval_step_main [OF main_op_p2pkh(3), of "h # script_hash OP_HASH160 pubkey # st" st 2 "[]" env 24 0] lim
      by (simp add: opcode disabled_opcodes_def op_EQUAL_def need_def stacktop_def popstack_def MAX_OPS_PER_SCRIPT_def)
  next
    case False
    then show ?thesis
      using eval_step_main_error [OF main_op_p2pkh(3), of "h # script_hash OP_HASH160 pubkey # st" SCRIPT_ERR_EQUALVERIFY 2 "[]" env 24 0]
      by (simp add: opcode disabled_opcodes_def op_EQUAL_def need_def stacktop_def popstack_def MAX_OPS_PER_SCRIPT_def)
  qed
  have e: "EvalScript_loop env 25 = Inr" by (rule ext) (simp add: EvalScript_loop_end assms(1) ops(6))
  show ?thesis
    using step [OF _ ops(1)] step [OF _ ops(2)] step [OF _ ops(3)] step [OF _ ops(4)] step [OF _ ops(5)]
    by (simp add: eval_init_def 1 2 3 4 e set_error_def del: One_nat_def)
qed

lemma script_hash160: "script_hash OP_HASH160 vch = hash160 vch"
proof -
  have "snd (CHash160_Finalize (replicate 64 0) (fold (\<lambda>d sha. CHash160_Write sha d) [vch] (CSHA256_new (replicate 64 0)))) = hash160 (concat [vch])"
    by (rule CHash160_digest) simp_all
  then show ?thesis by (simp add: script_hash_def Let_def opcode)
qed

lemma op_CHECKSIG_True_iff:
  "op_CHECKSIG env OP_CHECKSIG 0 (pubkey # sig # rest) = Inr (vchTrue # rest) \<longleftrightarrow>
    CheckSignatureEncoding (ev_CheckLowS env) sig (ev_flags env) = Inr () \<and> CheckPubKeyEncoding pubkey (ev_flags env) (ev_sigversion env) = Inr () \<and>
    CheckSig (ev_checker env) sig pubkey (script_code env 0 [sig]) (ev_sigversion env) = Inr True"
proof -
  have "OP_CHECKSIG \<noteq> OP_CHECKSIGVERIFY" by (simp add: opcode)
  moreover have "vchTrue \<noteq> vchFalse" by (simp add: vchTrue_def vchFalse_def)
  ultimately show ?thesis
    by (auto simp: op_CHECKSIG_def need_def stacktop_def popstack_def exec_bind_Inr_iff Let_def set_error_def split: if_splits)
qed

lemma op_CHECKSIG_stack:
  "op_CHECKSIG env OP_CHECKSIG 0 (pubkey # sig # rest) = Inr st \<Longrightarrow> st = vchTrue # rest \<or> st = vchFalse # rest"
proof -
  have "OP_CHECKSIG \<noteq> OP_CHECKSIGVERIFY" by (simp add: opcode)
  then show "op_CHECKSIG env OP_CHECKSIG 0 (pubkey # sig # rest) = Inr st \<Longrightarrow> st = vchTrue # rest \<or> st = vchFalse # rest"
    by (auto simp: op_CHECKSIG_def need_def stacktop_def popstack_def exec_bind_Inr_iff Let_def set_error_def split: if_splits)
qed

lemma eval_step_CHECKSIG:
  assumes "length rest < MAX_STACK_SIZE"
  shows "eval_step env pc OP_CHECKSIG [] \<lparr>es_stack = pubkey # sig # rest, es_altstack = [], es_vfExec = [], es_codehash = 0, es_nOpCount = 3\<rparr> =
    exec_bind (op_CHECKSIG env OP_CHECKSIG 0 (pubkey # sig # rest)) (\<lambda>st.
      Inr \<lparr>es_stack = st, es_altstack = [], es_vfExec = [], es_codehash = 0, es_nOpCount = 4\<rparr>)"
proof -
  have c: "\<not> OP_CHECKSIG \<le> OP_PUSHDATA4" "OP_CHECKSIG > OP_16" "OP_CHECKSIG \<notin> set disabled_opcodes"
    "OP_CHECKSIG \<notin> {OP_IF, OP_NOTIF, OP_ELSE, OP_ENDIF, OP_TOALTSTACK, OP_FROMALTSTACK, OP_CODESEPARATOR}"
    by (simp_all add: opcode disabled_opcodes_def)
  show ?thesis
  proof (cases "op_CHECKSIG env OP_CHECKSIG 0 (pubkey # sig # rest)")
    case (Inl h)
    then show ?thesis using c by (simp add: eval_step_def Let_def eval_switch_def MAX_OPS_PER_SCRIPT_def)
  next
    case (Inr st)
    then have "length st \<le> MAX_STACK_SIZE" using op_CHECKSIG_stack [OF Inr] assms by auto
    with Inr show ?thesis using c by (simp add: eval_step_def Let_def eval_switch_def MAX_OPS_PER_SCRIPT_def)
  qed
qed

lemma EvalScript_p2pkh:
  assumes "ev_script env = p2pkh h" and "length h = 20" and "length rest \<le> 994"
  shows "EvalScript env (pubkey # sig # rest) =
    (if hash160 pubkey = h then catch_all (op_CHECKSIG env OP_CHECKSIG 0 (pubkey # sig # rest)) else set_error SCRIPT_ERR_EQUALVERIFY)"
proof -
  have "\<not> length (ev_script env) > MAX_SCRIPT_SIZE" using p2pkh_ops(6) [OF assms(2)] assms(1) by (simp add: MAX_SCRIPT_SIZE_def)
  moreover have "length rest < MAX_STACK_SIZE" using assms(3) by (simp add: MAX_STACK_SIZE_def)
  moreover have "EvalScript_loop env 0 (eval_init (pubkey # sig # rest)) =
    (if hash160 pubkey = h then
       exec_bind (eval_step env 25 OP_CHECKSIG [] \<lparr>es_stack = pubkey # sig # rest, es_altstack = [], es_vfExec = [], es_codehash = 0, es_nOpCount = 3\<rparr>) Inr
     else set_error SCRIPT_ERR_EQUALVERIFY)"
    using p2pkh_run [OF assms(1,2) _ refl, of pubkey sig rest] assms(3) by (simp add: script_hash160)
  ultimately show ?thesis
  proof (cases "op_CHECKSIG env OP_CHECKSIG 0 (pubkey # sig # rest)")
    case (Inl e)
    then show ?thesis using \<open>\<not> length _ > _\<close> \<open>length rest < _\<close> \<open>EvalScript_loop _ _ _ = _\<close>
      by (cases e) (simp_all add: EvalScript_def eval_step_CHECKSIG catch_all_def set_error_def)
  next
    case (Inr st)
    then show ?thesis using \<open>\<not> length _ > _\<close> \<open>length rest < _\<close> \<open>EvalScript_loop _ _ _ = _\<close>
      by (simp add: EvalScript_def eval_step_CHECKSIG catch_all_def set_error_def)
  qed
qed

text \<open>The input script pushes the signature and the key.\<close>

definition direct :: "bytes \<Rightarrow> bool" where "direct b \<longleftrightarrow> 2 \<le> length b \<and> length b \<le> 75"

lemma direct_push: "direct b \<Longrightarrow> push_data s b = s @ of_nat (length b) # b"
  by (simp add: push_data_def opcode direct_def)

lemma direct_opcode:
  assumes "direct b"
  shows "unat (of_nat (length b) :: byte) = length b" and "(of_nat (length b) :: byte) < OP_PUSHDATA1" and "(of_nat (length b) :: byte) \<le> OP_PUSHDATA4"
    and "\<not> (of_nat (length b) :: byte) > OP_16" and "CheckMinimalPush b (of_nat (length b))"
proof -
  have len: "2 \<le> length b" "length b \<le> 75" using assms by (simp_all add: direct_def)
  show u: "unat (of_nat (length b) :: byte) = length b" using len by (simp add: byte_of_nat)
  show "(of_nat (length b) :: byte) < OP_PUSHDATA1" "(of_nat (length b) :: byte) \<le> OP_PUSHDATA4" "\<not> (of_nat (length b) :: byte) > OP_16"
    using len u by (simp_all add: opcode word_less_nat_alt word_le_nat_alt)
  show "CheckMinimalPush b (of_nat (length b))" using len u by (auto simp: CheckMinimalPush_def)
qed

lemma two_pushes:
  assumes "direct a" and "direct b" and "s = push_data (push_data [] a) b"
  shows "GetOp2 s 0 = (True, 1 + length a, of_nat (length a), a)"
    and "GetOp2 s (1 + length a) = (True, length s, of_nat (length b), b)" and "length s = 2 + length a + length b"
proof -
  have s: "s = of_nat (length a) # a @ of_nat (length b) # b" using assms by (simp add: direct_push)
  show len: "length s = 2 + length a + length b" by (simp add: s)
  have small: "length s < 2 ^ 32" using assms(1,2) len by (simp add: direct_def)
  show "GetOp2 s 0 = (True, 1 + length a, of_nat (length a), a)"
    using GetOp2_direct [OF small, of 0 "of_nat (length a)"] direct_opcode [OF assms(1)] len by (simp add: s)
  show "GetOp2 s (1 + length a) = (True, length s, of_nat (length b), b)"
    using GetOp2_direct [OF small, of "1 + length a" "of_nat (length b)"] direct_opcode [OF assms(2)] len by (simp add: s nth_append)
qed

lemma two_pushes_run:
  assumes "direct a" and "direct b" and "ev_script env = push_data (push_data [] a) b"
  shows "EvalScript env [] = Inr [b, a]"
proof -
  note ops = two_pushes [OF assms]
  let ?s = "\<lambda>st. \<lparr>es_stack = st, es_altstack = [], es_vfExec = [], es_codehash = 0, es_nOpCount = 0\<rparr>"
  have "eval_step env (1 + length a) (of_nat (length a)) a (?s []) = Inr (?s [a])"
    "eval_step env (length (ev_script env)) (of_nat (length b)) b (?s [a]) = Inr (?s [b, a])"
    using direct_opcode [OF assms(1)] direct_opcode [OF assms(2)] assms(1,2)
    by (auto intro!: eval_step_push simp: direct_def MAX_SCRIPT_ELEMENT_SIZE_def MAX_STACK_SIZE_def)
  then have "EvalScript_loop env 0 (eval_init []) = Inr (?s [b, a])"
    using EvalScript_loop_step [OF _ ops(1)] EvalScript_loop_step [OF _ ops(2)] ops(3)
    by (simp add: eval_init_def EvalScript_loop_end)
  moreover have "\<not> length (ev_script env) > MAX_SCRIPT_SIZE" using ops(3) assms(1,2) by (simp add: direct_def MAX_SCRIPT_SIZE_def)
  ultimately show ?thesis by (simp add: EvalScript_def catch_all_def)
qed

lemma two_pushes_IsPushOnly:
  assumes "direct a" and "direct b"
  shows "IsPushOnly (push_data (push_data [] a) b)"
proof -
  define s where "s = push_data (push_data [] a) b"
  note ops = two_pushes [OF assms s_def]
  have "IsPushOnly_from s (length s)" by (simp add: IsPushOnly_from.simps)
  then have "IsPushOnly_from s (1 + length a)"
    using ops direct_opcode(4) [OF assms(2)] by (subst IsPushOnly_from.simps) simp
  then have "IsPushOnly_from s 0"
    using ops direct_opcode(4) [OF assms(1)] by (subst IsPushOnly_from.simps) simp
  then show ?thesis by (simp add: IsPushOnly_def s_def)
qed

text \<open>
  C12. An output to a public key hash is spent by a signature and a key exactly if the key hashes to the hash of the output, both encodings
  pass the checks that the flags ask for, and the checker accepts the signature for the output script, from which a push of the
  signature is deleted. This holds under every consistent set of flags.
\<close>

theorem VerifyScript_p2pkh:
  assumes "length h = 20" and "direct sig" and "direct pubkey" and "flags_consistent (vc_flags C)"
  shows "VerifyScript C (push_data (push_data [] sig) pubkey) (p2pkh h) [] = Inr () \<longleftrightarrow>
    hash160 pubkey = h \<and> CheckSignatureEncoding (vc_CheckLowS C) sig (vc_flags C) = Inr () \<and>
    CheckPubKeyEncoding pubkey (vc_flags C) SIGVERSION_BASE = Inr () \<and>
    CheckSig (vc_checker C) sig pubkey (fst (FindAndDelete (p2pkh h) (push_data [] sig))) SIGVERSION_BASE = Inr True"
proof -
  define env where "env = eval_with C SIGVERSION_BASE (p2pkh h)"
  have run1: "EvalScript (eval_with C SIGVERSION_BASE (push_data (push_data [] sig) pubkey)) [] = Inr [pubkey, sig]"
    by (rule two_pushes_run [OF assms(2,3)]) simp
  have run2: "EvalScript env [pubkey, sig] =
    (if hash160 pubkey = h then catch_all (op_CHECKSIG env OP_CHECKSIG 0 [pubkey, sig]) else set_error SCRIPT_ERR_EQUALVERIFY)"
    by (rule EvalScript_p2pkh) (simp_all add: env_def assms(1))
  have first: "p2pkh h ! 0 = OP_DUP" by (simp add: p2pkh_def)
  have "IsWitnessProgram (p2pkh h) = Inr None" using first by (simp add: IsWitnessProgram_def opcode)
  then have bare: "verify_bare C s (p2pkh h) [] st = Inr (False, st)" for s st by (simp add: verify_bare_def)
  have "\<not> IsPayToScriptHash (p2pkh h)" using first by (simp add: IsPayToScriptHash_def opcode)
  then have p2sh: "verify_P2SH C s (p2pkh h) [] copy had st = Inr (had, st)" for s copy had st by (simp add: verify_P2SH_def)
  have finish: "verify_finish C [] had [x] = Inr ()" for had x using assms(4) by (auto simp: verify_finish_def flags_consistent_def)
  have cast: "CastToBool vchTrue" "\<not> CastToBool vchFalse" by (simp_all add: vchTrue_def vchFalse_def)
  have env: "ev_flags env = vc_flags C" "ev_checker env = vc_checker C" "ev_CheckLowS env = vc_CheckLowS C" "ev_sigversion env = SIGVERSION_BASE"
    "script_code env 0 [sig] = fst (FindAndDelete (p2pkh h) (push_data [] sig))"
    by (simp_all add: env_def eval_with_def script_code_def)
  have catch: "catch_all m = Inr x \<longleftrightarrow> m = Inr x" for m :: "bytes list exec" and x
    by (auto simp: catch_all_def set_error_def split: sum.splits halt.splits)
  have "VerifyScript C (push_data (push_data [] sig) pubkey) (p2pkh h) [] = Inr () \<longleftrightarrow>
      (\<exists>st. EvalScript env [pubkey, sig] = Inr st \<and> st \<noteq> [] \<and> CastToBool (hd st) \<and> verify_finish C [] False st = Inr ())"
    unfolding VerifyScript_Inr_iff run1 env_def [symmetric] bare p2sh using two_pushes_IsPushOnly [OF assms(2,3)] by auto
  also have "\<dots> \<longleftrightarrow> EvalScript env [pubkey, sig] = Inr [vchTrue]"
    using op_CHECKSIG_stack [of env pubkey sig "[]"] cast finish by (auto simp: run2 catch set_error_def split: if_splits)
  also have "\<dots> \<longleftrightarrow> hash160 pubkey = h \<and> op_CHECKSIG env OP_CHECKSIG 0 [pubkey, sig] = Inr [vchTrue]"
    by (auto simp: run2 catch set_error_def)
  finally show ?thesis unfolding op_CHECKSIG_True_iff env by blast
qed

definition trusting_ctx :: "u32 \<Rightarrow> verify_ctx" where
  "trusting_ctx f = \<lparr>vc_flags = f, vc_checker = base_checker\<lparr>CheckSig := \<lambda>sig key code v. Inr True\<rparr>, vc_CheckLowS = \<lambda>_. True\<rparr>"

lemma length_hash160: "length (hash160 m) = 20"
proof -
  have "length (fold rmd_compress bs st) = 5" if "length st = 5" for bs st
    using that by (induction bs arbitrary: st) (simp_all add: rmd_compress_def Let_def split_beta)
  then have "length (absorb_blocks 64 rmd_compress x rmd_Initialize) = 5" for x by (simp add: absorb_blocks_def rmd_Initialize_def)
  then show ?thesis by (simp add: hash160_def ripemd160_def length_concat comp_def sum_list_triv)
qed

theorem VerifyScript_p2pkh_witness:
  "VerifyScript (trusting_ctx SCRIPT_VERIFY_P2SH) (push_data (push_data [] [0x30, 0x01]) (replicate 33 0x02)) (p2pkh (hash160 (replicate 33 0x02))) [] = Inr () \<and>
   VerifyScript (trusting_ctx SCRIPT_VERIFY_DERSIG) (push_data (push_data [] [0x30, 0x01]) (replicate 33 0x02)) (p2pkh (hash160 (replicate 33 0x02))) [] \<noteq> Inr ()"
proof -
  have d: "direct [0x30, 0x01]" "direct (replicate 33 0x02)" by (simp_all add: direct_def)
  have f: "flags_consistent (vc_flags (trusting_ctx SCRIPT_VERIFY_P2SH))" "flags_consistent (vc_flags (trusting_ctx SCRIPT_VERIFY_DERSIG))" by code_simp+
  have "CheckSignatureEncoding (vc_CheckLowS (trusting_ctx SCRIPT_VERIFY_P2SH)) [0x30, 0x01] (vc_flags (trusting_ctx SCRIPT_VERIFY_P2SH)) = Inr ()"
    "CheckPubKeyEncoding (replicate 33 0x02) (vc_flags (trusting_ctx SCRIPT_VERIFY_P2SH)) SIGVERSION_BASE = Inr ()"
    "CheckSignatureEncoding (vc_CheckLowS (trusting_ctx SCRIPT_VERIFY_DERSIG)) [0x30, 0x01] (vc_flags (trusting_ctx SCRIPT_VERIFY_DERSIG)) \<noteq> Inr ()"
    by code_simp+
  then show ?thesis using VerifyScript_p2pkh [OF length_hash160 d f(1)] VerifyScript_p2pkh [OF length_hash160 d f(2)]
    by (simp add: trusting_ctx_def)
qed

section \<open>Outputs taken to be unspendable\<close>

text \<open>A script that is too long or begins with \<^verbatim>\<open>OP_RETURN\<close> fails on every stack, so no spend of it is accepted.\<close>

lemma EvalScript_unspendable:
  assumes "length s > MAX_SCRIPT_SIZE \<or> (s \<noteq> [] \<and> s ! 0 = OP_RETURN)"
  shows "\<exists>e. EvalScript (eval_with C v s) st = set_error e"
proof (cases "length s > MAX_SCRIPT_SIZE")
  case True
  then show ?thesis by (auto simp: EvalScript_def)
next
  case False
  with assms have s: "s \<noteq> []" "s ! 0 = OP_RETURN" by auto
  have op: "GetOp2 s 0 = (True, 1, OP_RETURN, [])" using GetOp2_plain [of 0 s OP_RETURN] s by (simp add: opcode)
  have "main_op env OP_RETURN = Some (\<lambda>st. set_error SCRIPT_ERR_OP_RETURN)" for env by (simp add: main_op_def opcode)
  then have "eval_step (eval_with C v s) 1 OP_RETURN [] (eval_init st) = set_error SCRIPT_ERR_OP_RETURN"
    unfolding eval_init_def
    by (rule eval_step_main_error) (simp_all add: opcode disabled_opcodes_def MAX_OPS_PER_SCRIPT_def)
  then show ?thesis using EvalScript_first_error [of "eval_with C v s" 1 OP_RETURN "[]" st] op by simp
qed

lemma VerifyScript_unspendable:
  assumes "length s > MAX_SCRIPT_SIZE \<or> (s \<noteq> [] \<and> s ! 0 = OP_RETURN)"
  shows "VerifyScript C script_sig s witness \<noteq> Inr ()"
proof
  assume "VerifyScript C script_sig s witness = Inr ()"
  then obtain stack stack' where "EvalScript (eval_with C SIGVERSION_BASE s) stack = Inr stack'" unfolding VerifyScript_Inr_iff by blast
  with EvalScript_unspendable [OF assms] show False by (metis set_error_def sum.distinct(1))
qed

lemma EvalScript_OP_1: "ev_script env = [OP_1] \<Longrightarrow> EvalScript env [] = Inr [[1]]"
proof -
  assume s: "ev_script env = [OP_1]"
  have "GetOp2 [OP_1] 0 = (True, 1, OP_1, [])" using GetOp2_plain [of 0 "[OP_1]" OP_1] by (simp add: opcode)
  moreover have "main_op env OP_1 = Some (op_push_small OP_1)" by (simp add: main_op_def opcode)
  moreover have "op_push_small OP_1 st = Inr ([1] # st)" for st
  proof -
    have "CScriptNum_serialize 1 = [1]" by code_simp
    then show ?thesis by (simp add: op_push_small_def)
  qed
  moreover have "\<not> OP_1 \<le> OP_PUSHDATA4" "\<not> OP_1 > OP_16" "OP_1 \<notin> set disabled_opcodes" by (simp_all add: opcode disabled_opcodes_def)
  ultimately have "EvalScript_loop env 0 (eval_init []) = Inr (eval_init [[1]])"
    using s by (subst EvalScript_loop_step [of _ _ 1 OP_1 "[]"])
      (simp_all add: eval_step_def eval_init_def eval_switch_def Let_def MAX_STACK_SIZE_def EvalScript_loop_end opcode)
  then show ?thesis by (simp add: EvalScript_def s catch_all_def eval_init_def MAX_SCRIPT_SIZE_def)
qed

lemma EvalScript_asset_data:
  assumes "ev_script env = OP_UNEMP_ASSET # data" and "length data \<le> 520" and "length st \<le> MAX_STACK_SIZE"
  shows "EvalScript env st = Inr st"
proof -
  have op: "GetOp2 (OP_UNEMP_ASSET # data) 0 = (True, Suc (length data), OP_UNEMP_ASSET, data)"
    using GetOp2_asset [of "OP_UNEMP_ASSET # data" 0] assms(2) by simp
  have "main_op env OP_UNEMP_ASSET = Some Inr" by (simp add: main_op_def opcode)
  then have step: "eval_step env (Suc (length data)) OP_UNEMP_ASSET data (eval_init st) = Inr (eval_init st\<lparr>es_nOpCount := 1\<rparr>)"
    using assms(2,3) unfolding eval_init_def
    by (subst eval_step_main) (simp_all add: opcode disabled_opcodes_def MAX_OPS_PER_SCRIPT_def MAX_SCRIPT_ELEMENT_SIZE_def)
  have "EvalScript_loop env 0 (eval_init st) =
      exec_bind (eval_step env (Suc (length data)) OP_UNEMP_ASSET data (eval_init st)) (EvalScript_loop env (Suc (length data)))"
    by (rule EvalScript_loop_step) (simp_all add: assms(1) op)
  then have "EvalScript_loop env 0 (eval_init st) = Inr (eval_init st\<lparr>es_nOpCount := 1\<rparr>)"
    by (simp only: step exec_bind_simps) (simp add: EvalScript_loop_end assms(1))
  then show ?thesis using assms(2) by (simp add: EvalScript_def assms(1) catch_all_def eval_init_def MAX_SCRIPT_SIZE_def)
qed

text \<open>
  C17. An output script that begins with the asset opcode counts as unspendable, and yet, as long as it carries at most 520 bytes, the input
  script \<^verbatim>\<open>OP_1\<close> spends it under every consistent set of flags: the opcode itself does nothing.
\<close>

theorem IsUnspendable_asset_spent:
  assumes "length data \<le> 520" and "flags_consistent (vc_flags C)"
  shows "IsUnspendable R (OP_UNEMP_ASSET # data) \<and> VerifyScript C [OP_1] (OP_UNEMP_ASSET # data) [] = Inr ()"
proof
  show "IsUnspendable R (OP_UNEMP_ASSET # data)" by (simp add: IsUnspendable_def)
  let ?s = "OP_UNEMP_ASSET # data"
  have "IsPushOnly [OP_1]" by code_simp
  moreover have "EvalScript (eval_with C SIGVERSION_BASE [OP_1]) [] = Inr [[1]]" by (rule EvalScript_OP_1) simp
  moreover have "EvalScript (eval_with C SIGVERSION_BASE ?s) [[1]] = Inr [[1]]"
    by (rule EvalScript_asset_data [of _ data]) (simp_all only: eval_with_simps assms(1), simp add: MAX_STACK_SIZE_def)
  moreover have "CastToBool [1]" by code_simp
  moreover have "IsWitnessProgram ?s = Inr None" by (simp add: IsWitnessProgram_def opcode)
  then have "verify_bare C [OP_1] ?s [] st = Inr (False, st)" for st by (simp add: verify_bare_def)
  moreover have "\<not> IsPayToScriptHash ?s" by (simp add: IsPayToScriptHash_def opcode)
  then have "verify_P2SH C [OP_1] ?s [] copy had st = Inr (had, st)" for copy had st by (simp add: verify_P2SH_def)
  moreover have "verify_finish C [] had [x] = Inr ()" for had x using assms(2) by (auto simp: verify_finish_def flags_consistent_def)
  ultimately show "VerifyScript C [OP_1] ?s [] = Inr ()" unfolding VerifyScript_Inr_iff by auto
qed

theorem IsUnspendable_asset_spent_witness:
  "(\<forall>R. IsUnspendable R [OP_UNEMP_ASSET, OP_RESERVED, OP_RESERVED, 7]) \<and>
   VerifyScript (sample_ctx (SCRIPT_VERIFY_P2SH OR SCRIPT_VERIFY_WITNESS OR SCRIPT_VERIFY_CLEANSTACK)) [OP_1]
     [OP_UNEMP_ASSET, OP_RESERVED, OP_RESERVED, 7] [] = Inr ()"
proof -
  have "flags_consistent (vc_flags (sample_ctx (SCRIPT_VERIFY_P2SH OR SCRIPT_VERIFY_WITNESS OR SCRIPT_VERIFY_CLEANSTACK)))" by code_simp
  from IsUnspendable_asset_spent [OF _ this, of "[OP_RESERVED, OP_RESERVED, 7]"] show ?thesis by simp
qed

end
