(* ===== verification/Sighash.thy ===== *)
theory Sighash
  imports Verify_Script Compressor
begin

unbundle bit_operations_syntax

text \<open>
  What signatures commit to and how an input is checked against its transaction: the hashes of \<^verbatim>\<open>SignatureHash\<close> and the class
  \<^verbatim>\<open>TransactionSignatureChecker\<close> of \<^verbatim>\<open>src/script/interpreter.cpp\<close>, with the public keys of \<^verbatim>\<open>src/pubkey.h\<close>. Every object written to a
  hashing stream is one write of its serialization; how the bytes are cut into writes does not matter to the hash. The verification of a
  signature itself is a parameter. Access beyond the inputs and a failed assertion are \<open>Undefined\<close>.
\<close>

section \<open>Serialization\<close>

definition ser_COutPoint :: "COutPoint \<Rightarrow> bytes" where
  "ser_COutPoint p = op_hash p @ ser_writedata32 (op_n p)"

definition ser_CScript :: "script \<Rightarrow> bytes" where
  "ser_CScript s = WriteCompactSize (of_nat (length s)) @ s"

definition ser_CTxOut :: "CTxOut \<Rightarrow> bytes" where
  "ser_CTxOut txout = ser_writedata64 (word_of_int (nValue txout)) @ ser_CScript (scriptPubKey txout)"

definition CHashWriter_new :: CSHA256 where
  "CHashWriter_new = CSHA256_new (replicate 64 0)"

definition CHashWriter_GetHash :: "CSHA256 \<Rightarrow> bytes" where
  "CHashWriter_GetHash ss = snd (CHash256_Finalize ss)"

section \<open>The part of a transaction that is signed\<close>

text \<open>The first loop over the script counts the separators, the second writes what lies between them.\<close>

function count_separators :: "script \<Rightarrow> nat \<Rightarrow> u32 \<Rightarrow> u32" where
  "count_separators code pc nCodeSeparators =
    (let (ok, pc', opcode, data) = GetOp2 code pc
     in if \<not> ok then nCodeSeparators
        else count_separators code pc' (if opcode = OP_CODESEPARATOR then nCodeSeparators + 1 else nCodeSeparators))"
  by pat_completeness auto
termination
  by (relation "measure (\<lambda>(code, pc, n). length code - pc)") (auto dest!: GetOp2_True [OF sym])

declare count_separators.simps [simp del]

definition slice :: "script \<Rightarrow> nat \<Rightarrow> nat \<Rightarrow> bytes" where
  "slice code a b = take (b - a) (drop a code)"

text \<open>The iterator, the start of the part not yet written, and what has been written.\<close>

function write_parts :: "script \<Rightarrow> nat \<Rightarrow> nat \<Rightarrow> bytes \<Rightarrow> nat \<times> nat \<times> bytes" where
  "write_parts code it itBegin out =
    (let (ok, it', opcode, data) = GetOp2 code it
     in if \<not> ok then (it', itBegin, out)
        else if opcode = OP_CODESEPARATOR then write_parts code it' it' (out @ slice code itBegin (it' - 1))
        else write_parts code it' itBegin out)"
  by pat_completeness auto
termination
  by (relation "measure (\<lambda>(code, it, itBegin, out). length code - it)") (auto dest!: GetOp2_True [OF sym])

declare write_parts.simps [simp del]

definition SerializeScriptCode :: "script \<Rightarrow> bytes" where
  "SerializeScriptCode code =
    (let nCodeSeparators = count_separators code 0 0; (it, itBegin, out) = write_parts code 0 0 []
     in WriteCompactSize (ucast (of_nat (length code) - nCodeSeparators :: u32)) @ out @
        (if itBegin \<noteq> length code then slice code itBegin it else []))"

record sig_serializer =
  ss_txTo :: CTransaction
  ss_scriptCode :: script
  ss_nIn :: nat
  ss_fAnyoneCanPay :: bool
  ss_fHashSingle :: bool
  ss_fHashNone :: bool

definition CTransactionSignatureSerializer :: "CTransaction \<Rightarrow> script \<Rightarrow> nat \<Rightarrow> u32 \<Rightarrow> sig_serializer" where
  "CTransactionSignatureSerializer txTo scriptCode nIn nHashType =
    \<lparr>ss_txTo = txTo, ss_scriptCode = scriptCode, ss_nIn = nIn, ss_fAnyoneCanPay = (nHashType AND ucast SIGHASH_ANYONECANPAY \<noteq> 0),
     ss_fHashSingle = (nHashType AND 0x1f = ucast SIGHASH_SINGLE), ss_fHashNone = (nHashType AND 0x1f = ucast SIGHASH_NONE)\<rparr>"

definition SerializeInput :: "sig_serializer \<Rightarrow> nat \<Rightarrow> bytes" where
  "SerializeInput S nInput =
    (let nInput = (if ss_fAnyoneCanPay S then ss_nIn S else nInput); txin = vin (ss_txTo S) ! nInput
     in ser_COutPoint (prevout txin) @
        (if nInput \<noteq> ss_nIn S then ser_CScript [] else SerializeScriptCode (ss_scriptCode S)) @
        (if nInput \<noteq> ss_nIn S \<and> (ss_fHashSingle S \<or> ss_fHashNone S) then ser_writedata32 0 else ser_writedata32 (nSequence txin)))"

definition SerializeOutput :: "sig_serializer \<Rightarrow> nat \<Rightarrow> bytes" where
  "SerializeOutput S nOutput =
    (if ss_fHashSingle S \<and> nOutput \<noteq> ss_nIn S then ser_CTxOut CTxOut_SetNull else ser_CTxOut (vout (ss_txTo S) ! nOutput))"

definition sig_Serialize :: "sig_serializer \<Rightarrow> bytes" where
  "sig_Serialize S =
    (let nInputs = (if ss_fAnyoneCanPay S then 1 else length (vin (ss_txTo S)));
         nOutputs = (if ss_fHashNone S then 0 else if ss_fHashSingle S then ss_nIn S + 1 else length (vout (ss_txTo S)))
     in ser_writedata32 (tx_nVersion (ss_txTo S)) @
        WriteCompactSize (of_nat nInputs) @ concat (map (SerializeInput S) [0..<nInputs]) @
        WriteCompactSize (of_nat nOutputs) @ concat (map (SerializeOutput S) [0..<nOutputs]) @
        ser_writedata32 (nLockTime (ss_txTo S)))"

definition GetPrevoutHash :: "CTransaction \<Rightarrow> bytes" where
  "GetPrevoutHash txTo = CHashWriter_GetHash (fold (\<lambda>txin ss. CHash256_Write ss (ser_COutPoint (prevout txin))) (vin txTo) CHashWriter_new)"

definition GetSequenceHash :: "CTransaction \<Rightarrow> bytes" where
  "GetSequenceHash txTo = CHashWriter_GetHash (fold (\<lambda>txin ss. CHash256_Write ss (ser_writedata32 (nSequence txin))) (vin txTo) CHashWriter_new)"

definition GetOutputsHash :: "CTransaction \<Rightarrow> bytes" where
  "GetOutputsHash txTo = CHashWriter_GetHash (fold (\<lambda>txout ss. CHash256_Write ss (ser_CTxOut txout)) (vout txTo) CHashWriter_new)"

record PrecomputedTransactionData =
  ptd_hashPrevouts :: bytes
  ptd_hashSequence :: bytes
  ptd_hashOutputs :: bytes
  ptd_ready :: bool

definition Precomputed :: "CTransaction \<Rightarrow> PrecomputedTransactionData" where
  "Precomputed txTo =
    (if HasWitness txTo then
       \<lparr>ptd_hashPrevouts = GetPrevoutHash txTo, ptd_hashSequence = GetSequenceHash txTo, ptd_hashOutputs = GetOutputsHash txTo, ptd_ready = True\<rparr>
     else \<lparr>ptd_hashPrevouts = uint256_null, ptd_hashSequence = uint256_null, ptd_hashOutputs = uint256_null, ptd_ready = False\<rparr>)"

text \<open>The fields that a witness signature hashes, in the order they are written.\<close>

definition witness_preimage ::
  "script \<Rightarrow> CTransaction \<Rightarrow> nat \<Rightarrow> u32 \<Rightarrow> int \<Rightarrow> PrecomputedTransactionData option \<Rightarrow> bytes list" where
  "witness_preimage scriptCode txTo nIn nHashType amount cache =
    (let cacheready = (case cache of None \<Rightarrow> False | Some c \<Rightarrow> ptd_ready c);
         acp = (nHashType AND ucast SIGHASH_ANYONECANPAY \<noteq> 0);
         single = (nHashType AND 0x1f = ucast SIGHASH_SINGLE); none = (nHashType AND 0x1f = ucast SIGHASH_NONE);
         hashPrevouts = (if \<not> acp then (if cacheready then ptd_hashPrevouts (the cache) else GetPrevoutHash txTo) else uint256_null);
         hashSequence = (if \<not> acp \<and> \<not> single \<and> \<not> none then (if cacheready then ptd_hashSequence (the cache) else GetSequenceHash txTo)
                         else uint256_null);
         hashOutputs = (if \<not> single \<and> \<not> none then (if cacheready then ptd_hashOutputs (the cache) else GetOutputsHash txTo)
                        else if single \<and> nIn < length (vout txTo) then
                          CHashWriter_GetHash (CHash256_Write CHashWriter_new (ser_CTxOut (vout txTo ! nIn)))
                        else uint256_null)
     in [ser_writedata32 (tx_nVersion txTo), hashPrevouts, hashSequence, ser_COutPoint (prevout (vin txTo ! nIn)), ser_CScript scriptCode,
         ser_writedata64 (word_of_int amount), ser_writedata32 (nSequence (vin txTo ! nIn)), hashOutputs, ser_writedata32 (nLockTime txTo),
         ser_writedata32 nHashType])"

definition SignatureHash ::
  "script \<Rightarrow> CTransaction \<Rightarrow> nat \<Rightarrow> u32 \<Rightarrow> int \<Rightarrow> SigVersion \<Rightarrow> PrecomputedTransactionData option \<Rightarrow> bytes exec" where
  "SignatureHash scriptCode txTo nIn nHashType amount sigversion cache =
    (if \<not> nIn < length (vin txTo) then Inl Undefined
     else if sigversion = SIGVERSION_WITNESS_V0 then
       Inr (CHashWriter_GetHash (fold (\<lambda>b ss. CHash256_Write ss b) (witness_preimage scriptCode txTo nIn nHashType amount cache) CHashWriter_new))
     else if nHashType AND 0x1f = ucast SIGHASH_SINGLE \<and> nIn \<ge> length (vout txTo) then Inr (1 # replicate 31 0)
     else
       (let txTmp = CTransactionSignatureSerializer txTo scriptCode nIn nHashType
        in Inr (CHashWriter_GetHash (CHash256_Write (CHash256_Write CHashWriter_new (sig_Serialize txTmp)) (ser_writedata32 nHashType)))))"

section \<open>The checker of an input\<close>

definition CPubKey_IsValid :: "bytes \<Rightarrow> bool" where "CPubKey_IsValid vch \<longleftrightarrow> CPubKey_size vch > 0"

text \<open>\<open>Verify key hash sig\<close> is the verification of a signature with the serialized key, done by the elliptic curve library.\<close>

record tx_checker =
  tc_txTo :: CTransaction
  tc_nIn :: nat
  tc_amount :: int
  tc_txdata :: "PrecomputedTransactionData option"
  tc_Verify :: "bytes \<Rightarrow> bytes \<Rightarrow> bytes \<Rightarrow> bool"

definition VerifySignature :: "tx_checker \<Rightarrow> bytes \<Rightarrow> bytes \<Rightarrow> bytes \<Rightarrow> bool" where
  "VerifySignature T vchSig pubkey sighash = tc_Verify T (take (CPubKey_size pubkey) pubkey) sighash vchSig"

definition tx_CheckSig :: "tx_checker \<Rightarrow> bytes \<Rightarrow> bytes \<Rightarrow> script \<Rightarrow> SigVersion \<Rightarrow> bool exec" where
  "tx_CheckSig T vchSigIn vchPubKey scriptCode sigversion =
    (let pubkey = CPubKey_Set vchPubKey
     in if \<not> CPubKey_IsValid pubkey then Inr False
        else if vchSigIn = [] then Inr False
        else
          (let nHashType = ucast (last vchSigIn); vchSig = butlast vchSigIn
           in exec_bind (SignatureHash scriptCode (tc_txTo T) (tc_nIn T) nHashType (tc_amount T) sigversion (tc_txdata T)) (\<lambda>sighash.
              if \<not> VerifySignature T vchSig pubkey sighash then Inr False else Inr True)))"

definition tx_CheckLockTime :: "tx_checker \<Rightarrow> int \<Rightarrow> bool exec" where
  "tx_CheckLockTime T n =
    (if \<not> ((uint (nLockTime (tc_txTo T)) < LOCKTIME_THRESHOLD \<and> n < LOCKTIME_THRESHOLD) \<or>
           (uint (nLockTime (tc_txTo T)) \<ge> LOCKTIME_THRESHOLD \<and> n \<ge> LOCKTIME_THRESHOLD)) then Inr False
     else if n > uint (nLockTime (tc_txTo T)) then Inr False
     else if \<not> tc_nIn T < length (vin (tc_txTo T)) then Inl Undefined
     else if SEQUENCE_FINAL = nSequence (vin (tc_txTo T) ! tc_nIn T) then Inr False
     else Inr True)"

definition tx_CheckSequence :: "tx_checker \<Rightarrow> int \<Rightarrow> bool exec" where
  "tx_CheckSequence T n =
    (if \<not> tc_nIn T < length (vin (tc_txTo T)) then Inl Undefined
     else
       (let txToSequence = uint (nSequence (vin (tc_txTo T) ! tc_nIn T))
        in if tx_nVersion (tc_txTo T) < 2 then Inr False
           else if txToSequence AND uint SEQUENCE_LOCKTIME_DISABLE_FLAG \<noteq> 0 then Inr False
           else
             (let nLockTimeMask = uint (SEQUENCE_LOCKTIME_TYPE_FLAG OR SEQUENCE_LOCKTIME_MASK);
                  txToSequenceMasked = txToSequence AND nLockTimeMask; nSequenceMasked = n AND nLockTimeMask
              in if \<not> ((txToSequenceMasked < uint SEQUENCE_LOCKTIME_TYPE_FLAG \<and> nSequenceMasked < uint SEQUENCE_LOCKTIME_TYPE_FLAG) \<or>
                       (txToSequenceMasked \<ge> uint SEQUENCE_LOCKTIME_TYPE_FLAG \<and> nSequenceMasked \<ge> uint SEQUENCE_LOCKTIME_TYPE_FLAG)) then Inr False
                 else if nSequenceMasked > txToSequenceMasked then Inr False
                 else Inr True)))"

definition TransactionSignatureChecker :: "tx_checker \<Rightarrow> BaseSignatureChecker" where
  "TransactionSignatureChecker T =
    \<lparr>CheckSig = tx_CheckSig T, CheckLockTime = tx_CheckLockTime T, CheckSequence = tx_CheckSequence T\<rparr>"

section \<open>The hashes\<close>

definition dsha :: "bytes \<Rightarrow> bytes" where "dsha m = fips_sha256 (fips_sha256 m)"

lemma CHashWriter_digest: "CHashWriter_GetHash (fold (\<lambda>x ss. CHash256_Write ss (e x)) xs CHashWriter_new) = dsha (concat (map e xs))"
proof -
  have "snd (CHash256_Finalize (fold (\<lambda>d sha. CHash256_Write sha d) (map e xs) (CSHA256_new (replicate 64 0)))) =
      fips_sha256 (fips_sha256 (concat (map e xs)))"
    by (rule CHash256_double) simp
  then show ?thesis by (simp add: CHashWriter_GetHash_def CHashWriter_new_def dsha_def fold_map comp_def)
qed

text \<open>The digest of BIP 143, and the older one of the serialized part of the transaction with the hash type.\<close>

abbreviation hash_acp :: "u32 \<Rightarrow> bool" where "hash_acp ht \<equiv> ht AND ucast SIGHASH_ANYONECANPAY \<noteq> 0"
abbreviation hash_single :: "u32 \<Rightarrow> bool" where "hash_single ht \<equiv> ht AND 0x1f = ucast SIGHASH_SINGLE"
abbreviation hash_none :: "u32 \<Rightarrow> bool" where "hash_none ht \<equiv> ht AND 0x1f = ucast SIGHASH_NONE"

definition bip143_digest :: "script \<Rightarrow> CTransaction \<Rightarrow> nat \<Rightarrow> u32 \<Rightarrow> int \<Rightarrow> bytes" where
  "bip143_digest code tx nIn ht amount =
    (let prevouts = (if hash_acp ht then replicate 32 0 else dsha (concat (map (ser_COutPoint \<circ> prevout) (vin tx))));
         sequences = (if hash_acp ht \<or> hash_single ht \<or> hash_none ht then replicate 32 0
                      else dsha (concat (map (le_bytes 4 \<circ> nSequence) (vin tx))));
         outputs = (if hash_none ht \<or> (hash_single ht \<and> length (vout tx) \<le> nIn) then replicate 32 0
                    else if hash_single ht then dsha (ser_CTxOut (vout tx ! nIn))
                    else dsha (concat (map ser_CTxOut (vout tx))))
     in dsha (le_bytes 4 (tx_nVersion tx) @ prevouts @ sequences @ ser_COutPoint (prevout (vin tx ! nIn)) @ ser_CScript code @
        le_bytes 8 (word_of_int amount :: u64) @ le_bytes 4 (nSequence (vin tx ! nIn)) @ outputs @ le_bytes 4 (nLockTime tx) @ le_bytes 4 ht))"

lemma hash_kinds: "\<not> (hash_single ht \<and> hash_none ht)"
  by (auto simp: SIGHASH_SINGLE_def SIGHASH_NONE_def)

text \<open>
  C10. For an input of the transaction the code computes the digest of BIP 143, or the double hash of the signed part and the hash type,
  or the number one for a missing output, and the hashes precomputed for the transaction do not change the result.
\<close>

theorem SignatureHash_digest:
  assumes "cache = None \<or> cache = Some (Precomputed tx)" and "nIn < length (vin tx)"
  shows "SignatureHash code tx nIn ht amount v cache = Inr
    (if v = SIGVERSION_WITNESS_V0 then bip143_digest code tx nIn ht amount
     else if hash_single ht \<and> length (vout tx) \<le> nIn then 1 # replicate 31 0
     else dsha (sig_Serialize (CTransactionSignatureSerializer tx code nIn ht) @ le_bytes 4 ht))"
proof -
  have prevouts: "GetPrevoutHash tx = dsha (concat (map (ser_COutPoint \<circ> prevout) (vin tx)))"
    using CHashWriter_digest [of "ser_COutPoint \<circ> prevout" "vin tx"] by (simp add: GetPrevoutHash_def)
  have seqs: "GetSequenceHash tx = dsha (concat (map (le_bytes 4 \<circ> nSequence) (vin tx)))"
    using CHashWriter_digest [of "ser_writedata32 \<circ> nSequence" "vin tx"] by (simp add: GetSequenceHash_def ser_writedata32_def comp_def)
  have outs: "GetOutputsHash tx = dsha (concat (map ser_CTxOut (vout tx)))"
    using CHashWriter_digest [of ser_CTxOut "vout tx"] by (simp add: GetOutputsHash_def)
  have one: "CHashWriter_GetHash (CHash256_Write CHashWriter_new b) = dsha b" for b
    using CHashWriter_digest [of id "[b]"] by simp
  have two: "CHashWriter_GetHash (CHash256_Write (CHash256_Write CHashWriter_new a) b) = dsha (a @ b)" for a b
    using CHashWriter_digest [of id "[a, b]"] by simp
  have cached: "witness_preimage code tx nIn ht amount cache = witness_preimage code tx nIn ht amount None"
    using assms(1) by (auto simp: witness_preimage_def Precomputed_def Let_def)
  have "CHashWriter_GetHash (fold (\<lambda>b ss. CHash256_Write ss b) (witness_preimage code tx nIn ht amount None) CHashWriter_new) =
      dsha (concat (witness_preimage code tx nIn ht amount None))"
    using CHashWriter_digest [of id "witness_preimage code tx nIn ht amount None"] by simp
  also have "\<dots> = bip143_digest code tx nIn ht amount"
    by (simp add: SIGHASH_SINGLE_def SIGHASH_NONE_def witness_preimage_def bip143_digest_def Let_def prevouts seqs outs one ser_writedata32_def ser_writedata64_def uint256_null_def not_less)
  finally show ?thesis
    using assms(2) by (cases v) (simp_all add: SignatureHash_def cached Let_def two ser_writedata32_def not_le)
qed

definition spend_tx :: "script \<Rightarrow> CTransaction" where
  "spend_tx script_sig =
    \<lparr>vin = [\<lparr>prevout = \<lparr>op_hash = replicate 32 3, op_n = 0\<rparr>, scriptSig = script_sig, nSequence = 5, scriptWitness = []\<rparr>],
     vout = [\<lparr>nValue = 7, scriptPubKey = [OP_1]\<rparr>], tx_nVersion = 2, nLockTime = 600, tx_hash = replicate 32 4\<rparr>"

theorem SignatureHash_digest_witness:
  "SignatureHash [OP_1] (spend_tx []) 0 1 7 SIGVERSION_WITNESS_V0 (Some (Precomputed (spend_tx []))) = Inr (bip143_digest [OP_1] (spend_tx []) 0 1 7) \<and>
   SignatureHash [OP_1] (spend_tx []\<lparr>vout := []\<rparr>) 0 3 7 SIGVERSION_BASE None = Inr (1 # replicate 31 0)"
proof -
  have "0 < length (vin (spend_tx []))" "0 < length (vin (spend_tx []\<lparr>vout := []\<rparr>))" "hash_single 3" "vout (spend_tx []\<lparr>vout := []\<rparr>) = []"
    by (simp_all add: spend_tx_def SIGHASH_SINGLE_def)
  then show ?thesis
    using SignatureHash_digest [of "Some (Precomputed (spend_tx []))" "spend_tx []" 0 "[OP_1]" 1 7 SIGVERSION_WITNESS_V0]
      SignatureHash_digest [of None "spend_tx []\<lparr>vout := []\<rparr>" 0 "[OP_1]" 3 7 SIGVERSION_BASE] by simp
qed

section \<open>What a signature covers\<close>

definition tx_wf :: "CTransaction \<Rightarrow> bool" where
  "tx_wf tx \<longleftrightarrow> length (vin tx) \<le> unat MAX_SIZE \<and> length (vout tx) \<le> unat MAX_SIZE \<and> (\<forall>i\<in>set (vin tx). length (op_hash (prevout i)) = 32) \<and>
    (\<forall>out\<in>set (vout tx). is_int64 (nValue out) \<and> length (scriptPubKey out) \<le> unat MAX_SIZE)"

definition signed_outputs :: "nat \<Rightarrow> u32 \<Rightarrow> CTransaction \<Rightarrow> CTxOut list" where
  "signed_outputs nIn ht tx =
    (if hash_none ht then [] else if hash_single ht then replicate nIn CTxOut_SetNull @ [vout tx ! nIn] else vout tx)"

text \<open>The outpoints and sequence numbers that are covered.\<close>

definition signed_inputs :: "nat \<Rightarrow> u32 \<Rightarrow> CTransaction \<Rightarrow> (COutPoint \<times> u32) list" where
  "signed_inputs nIn ht tx =
    (if hash_acp ht then [(prevout (vin tx ! nIn), nSequence (vin tx ! nIn))]
     else map (\<lambda>i. (prevout (vin tx ! i), if i \<noteq> nIn \<and> (hash_single ht \<or> hash_none ht) then 0 else nSequence (vin tx ! i))) [0..<length (vin tx)])"

definition signed_alike :: "nat \<Rightarrow> u32 \<Rightarrow> CTransaction \<Rightarrow> CTransaction \<Rightarrow> bool" where
  "signed_alike nIn ht tx tx' \<longleftrightarrow> tx_nVersion tx = tx_nVersion tx' \<and> nLockTime tx = nLockTime tx' \<and>
    signed_inputs nIn ht tx = signed_inputs nIn ht tx' \<and> signed_outputs nIn ht tx = signed_outputs nIn ht tx'"

lemma le_bytes4_inject [simp]: "le_bytes 4 (a :: u32) = le_bytes 4 b \<longleftrightarrow> a = b"
proof
  assume "le_bytes 4 a = le_bytes 4 b"
  then have "(le_word (le_bytes 4 a) :: u32) = le_word (le_bytes 4 b)" by (rule arg_cong)
  then show "a = b" by (simp add: le_word_bytes)
qed simp

lemma le_bytes8_inject: "le_bytes 8 (a :: u64) = le_bytes 8 b \<longleftrightarrow> a = b"
proof
  assume "le_bytes 8 a = le_bytes 8 b"
  then have "(le_word (le_bytes 8 a) :: u64) = le_word (le_bytes 8 b)" by (rule arg_cong)
  then show "a = b" by (simp add: le_word_bytes)
qed simp

lemma ser_COutPoint_inject:
  assumes "length (op_hash p) = 32" and "length (op_hash q) = 32"
  shows "ser_COutPoint p = ser_COutPoint q \<longleftrightarrow> p = q" and "length (ser_COutPoint p) = 36"
  using assms by (auto simp: ser_COutPoint_def ser_writedata32_def intro: COutPoint.equality)

lemma WriteCompactSize_inject:
  assumes "WriteCompactSize m @ r = WriteCompactSize n @ r'" and "m \<le> ucast MAX_SIZE" and "n \<le> ucast MAX_SIZE"
  shows "m = n \<and> r = r'"
  using assms CompactSize_canonical [of "WriteCompactSize m @ r" m r] CompactSize_canonical [of "WriteCompactSize m @ r" n r'] by simp

lemma compact_count:
  assumes "n \<le> unat MAX_SIZE"
  shows "(of_nat n :: u64) \<le> ucast MAX_SIZE" and "unat (of_nat n :: u64) = n"
  using assms by (simp_all add: MAX_SIZE_def word_le_nat_alt unat_of_nat)

lemma WriteCompactSize_length_inject:
  assumes "WriteCompactSize (of_nat m) @ r = WriteCompactSize (of_nat n) @ r'" and "m \<le> unat MAX_SIZE" and "n \<le> unat MAX_SIZE"
  shows "m = n \<and> r = r'"
  using WriteCompactSize_inject [OF assms(1) compact_count(1) [OF assms(2)] compact_count(1) [OF assms(3)]]
    compact_count(2) [OF assms(2)] compact_count(2) [OF assms(3)] by metis

definition out_ok :: "CTxOut \<Rightarrow> bool" where
  "out_ok out \<longleftrightarrow> is_int64 (nValue out) \<and> length (scriptPubKey out) \<le> unat MAX_SIZE"

lemma int64_inject: "is_int64 a \<Longrightarrow> is_int64 b \<Longrightarrow> (word_of_int a :: u64) = word_of_int b \<Longrightarrow> a = b"
proof -
  assume *: "is_int64 a" "is_int64 b" "(word_of_int a :: u64) = word_of_int b"
  have "sint (word_of_int x :: u64) = x" if "is_int64 x" for x
    using that by (simp add: is_int64_def sint_sbintrunc' signed_take_bit_int_eq_self_iff)
  with * show "a = b" by metis
qed

lemma ser_CTxOut_inject:
  assumes "ser_CTxOut a @ r = ser_CTxOut b @ r'" and "out_ok a" and "out_ok b"
  shows "a = b \<and> r = r'"
proof -
  have eq: "le_bytes 8 (word_of_int (nValue a) :: u64) @ WriteCompactSize (of_nat (length (scriptPubKey a))) @ scriptPubKey a @ r =
      le_bytes 8 (word_of_int (nValue b) :: u64) @ WriteCompactSize (of_nat (length (scriptPubKey b))) @ scriptPubKey b @ r'"
    using assms(1) by (simp add: ser_CTxOut_def ser_CScript_def ser_writedata64_def)
  then have "nValue a = nValue b"
    using int64_inject [of "nValue a" "nValue b"] assms(2,3) by (simp add: out_ok_def le_bytes8_inject)
  moreover have "length (scriptPubKey a) = length (scriptPubKey b) \<and> scriptPubKey a @ r = scriptPubKey b @ r'"
    using eq WriteCompactSize_length_inject [of "length (scriptPubKey a)" "scriptPubKey a @ r" "length (scriptPubKey b)" "scriptPubKey b @ r'"]
      assms(2,3) by (simp add: out_ok_def)
  ultimately show ?thesis by (auto intro: CTxOut.equality)
qed

lemma ser_outputs_inject:
  assumes "concat (map ser_CTxOut as) @ r = concat (map ser_CTxOut bs) @ r'" and "length as = length bs"
    and "\<forall>out\<in>set as \<union> set bs. out_ok out"
  shows "as = bs \<and> r = r'"
  using assms
proof (induction as arbitrary: bs)
  case (Cons a as)
  then obtain b bs' where bs: "bs = b # bs'" by (cases bs) auto
  have "a = b \<and> concat (map ser_CTxOut as) @ r = concat (map ser_CTxOut bs') @ r'"
    using Cons.prems by (intro ser_CTxOut_inject) (auto simp: bs)
  with Cons show ?case by (auto simp: bs)
qed simp

text \<open>The serialized parts are images of the covered lists.\<close>

definition ser_signed_input :: "script \<Rightarrow> nat \<Rightarrow> nat \<times> COutPoint \<times> u32 \<Rightarrow> bytes" where
  "ser_signed_input code nIn x = (case x of (i, p, n) \<Rightarrow>
    ser_COutPoint p @ (if i \<noteq> nIn then ser_CScript [] else SerializeScriptCode code) @ le_bytes 4 n)"

definition input_numbers :: "nat \<Rightarrow> u32 \<Rightarrow> CTransaction \<Rightarrow> nat list" where
  "input_numbers nIn ht tx = (if hash_acp ht then [nIn] else [0..<length (vin tx)])"

lemma sig_Serialize_lists:
  "sig_Serialize (CTransactionSignatureSerializer tx code nIn ht) =
    le_bytes 4 (tx_nVersion tx) @ WriteCompactSize (of_nat (length (signed_inputs nIn ht tx))) @
    concat (map (ser_signed_input code nIn) (zip (input_numbers nIn ht tx) (signed_inputs nIn ht tx))) @
    WriteCompactSize (of_nat (length (signed_outputs nIn ht tx))) @ concat (map ser_CTxOut (signed_outputs nIn ht tx)) @
    le_bytes 4 (nLockTime tx)"
proof -
  define S where "S = CTransactionSignatureSerializer tx code nIn ht"
  have S: "ss_txTo S = tx" "ss_scriptCode S = code" "ss_nIn S = nIn" "ss_fAnyoneCanPay S = hash_acp ht" "ss_fHashSingle S = hash_single ht"
    "ss_fHashNone S = hash_none ht"
    by (simp_all add: S_def CTransactionSignatureSerializer_def)
  define nI nO where "nI = (if hash_acp ht then 1 else length (vin tx))"
    and "nO = (if hash_none ht then 0 else if hash_single ht then nIn + 1 else length (vout tx))"
  have I: "length (signed_inputs nIn ht tx) = nI" "length (signed_outputs nIn ht tx) = nO"
    using hash_kinds [of ht] by (auto simp: nI_def nO_def signed_inputs_def signed_outputs_def)
  have ins: "map (SerializeInput S) [0..<nI] = map (ser_signed_input code nIn) (zip (input_numbers nIn ht tx) (signed_inputs nIn ht tx))"
    by (rule nth_equalityI)
      (auto simp: nI_def I input_numbers_def signed_inputs_def ser_signed_input_def SerializeInput_def Let_def S ser_writedata32_def)
  have outs: "map (SerializeOutput S) [0..<nO] = map ser_CTxOut (signed_outputs nIn ht tx)"
    using hash_kinds [of ht]
    by (intro nth_equalityI) (auto simp: nO_def I signed_outputs_def SerializeOutput_def S nth_append less_Suc_eq)
  show ?thesis
    unfolding S_def [symmetric] sig_Serialize_def Let_def S I nI_def [symmetric] nO_def [symmetric] ins outs by (simp add: ser_writedata32_def)
qed

lemma signed_outputs_ok:
  assumes "tx_wf tx" and "nIn < length (vin tx)" and "hash_single ht \<Longrightarrow> nIn < length (vout tx)"
  shows "\<forall>out\<in>set (signed_outputs nIn ht tx). out_ok out" and "length (signed_outputs nIn ht tx) \<le> unat MAX_SIZE"
    and "length (signed_inputs nIn ht tx) \<le> unat MAX_SIZE" and "\<forall>(p, n)\<in>set (signed_inputs nIn ht tx). length (op_hash p) = 32"
proof -
  have null: "out_ok CTxOut_SetNull" by (simp add: out_ok_def CTxOut_SetNull_def is_int64_def)
  show "\<forall>out\<in>set (signed_outputs nIn ht tx). out_ok out"
    using assms null by (auto simp: signed_outputs_def tx_wf_def out_ok_def)
  show "length (signed_outputs nIn ht tx) \<le> unat MAX_SIZE"
    using assms by (auto simp: signed_outputs_def tx_wf_def)
  show "length (signed_inputs nIn ht tx) \<le> unat MAX_SIZE"
    using assms by (simp add: signed_inputs_def tx_wf_def MAX_SIZE_def)
  show "\<forall>(p, n)\<in>set (signed_inputs nIn ht tx). length (op_hash p) = 32"
    using assms by (auto simp: signed_inputs_def tx_wf_def)
qed

lemma ser_input_inject:
  assumes "length (op_hash p) = 32" and "length (op_hash q) = 32"
    and "ser_signed_input code nIn (i, p, n) @ a = ser_signed_input code nIn (i, q, k) @ b"
  shows "p = q \<and> n = k \<and> a = b"
  using assms(3) ser_COutPoint_inject(1) [OF assms(1,2)] ser_COutPoint_inject(2) [OF assms(1,2)] ser_COutPoint_inject(2) [OF assms(2,1)]
  by (auto simp: ser_signed_input_def)

lemma ser_inputs_inject:
  assumes "length ps = length is" and "length qs = length is" and "\<forall>(p, n)\<in>set ps \<union> set qs. length (op_hash p) = 32"
    and "concat (map (ser_signed_input code nIn) (zip is ps)) @ r = concat (map (ser_signed_input code nIn) (zip is qs)) @ r'"
  shows "ps = qs \<and> r = r'"
  using assms
proof (induction "is" arbitrary: ps qs)
  case (Cons i "is")
  then obtain x ps' y qs' where "ps = x # ps'" and "qs = y # qs'" by (auto simp: length_Suc_conv)
  then obtain p n q k where ps: "ps = (p, n) # ps'" and qs: "qs = (q, k) # qs'" by (cases x; cases y) blast
  have h: "length (op_hash p) = 32" "length (op_hash q) = 32" using Cons.prems(3) by (auto simp: ps qs)
  have "p = q \<and> n = k \<and> concat (map (ser_signed_input code nIn) (zip is ps')) @ r = concat (map (ser_signed_input code nIn) (zip is qs')) @ r'"
    using Cons.prems(4) by (intro ser_input_inject [OF h]) (simp add: ps qs)
  with Cons show ?case by (auto simp: ps qs)
qed simp

text \<open>
  C9. Signing the same input of two transactions for the same script and hash type, what is hashed before segregated witness is the same
  exactly if the transactions agree on what the hash type names: on version and lock time, on the outpoints of all inputs, or only of the
  signed one, on the sequence numbers of all inputs or of the signed one, and on all outputs, on the one with the number of the input, or
  on none. In particular input scripts and witnesses are not covered, and nothing that is covered can be altered.
\<close>

theorem sig_Serialize_covers:
  assumes "tx_wf tx" and "tx_wf tx'" and "nIn < length (vin tx)" and "nIn < length (vin tx')"
    and "hash_single ht \<Longrightarrow> nIn < length (vout tx) \<and> nIn < length (vout tx')"
  shows "sig_Serialize (CTransactionSignatureSerializer tx code nIn ht) = sig_Serialize (CTransactionSignatureSerializer tx' code nIn ht)
    \<longleftrightarrow> signed_alike nIn ht tx tx'"
proof
  note ok = signed_outputs_ok [OF assms(1,3), of ht] and ok' = signed_outputs_ok [OF assms(2,4), of ht]
  have numbers: "length (input_numbers nIn ht t) = length (signed_inputs nIn ht t)" for t
    by (simp add: input_numbers_def signed_inputs_def)
  have same: "input_numbers nIn ht tx = input_numbers nIn ht tx'" if "length (signed_inputs nIn ht tx) = length (signed_inputs nIn ht tx')"
    using that by (simp add: input_numbers_def signed_inputs_def split: if_splits)
  show "signed_alike nIn ht tx tx'" if eq: "sig_Serialize (CTransactionSignatureSerializer tx code nIn ht) =
    sig_Serialize (CTransactionSignatureSerializer tx' code nIn ht)"
  proof -
    let ?ins = "\<lambda>t. concat (map (ser_signed_input code nIn) (zip (input_numbers nIn ht t) (signed_inputs nIn ht t)))"
    let ?outs = "\<lambda>t. WriteCompactSize (of_nat (length (signed_outputs nIn ht t))) @ concat (map ser_CTxOut (signed_outputs nIn ht t)) @ le_bytes 4 (nLockTime t)"
    have v: "tx_nVersion tx = tx_nVersion tx'"
      and c: "WriteCompactSize (of_nat (length (signed_inputs nIn ht tx))) @ ?ins tx @ ?outs tx =
        WriteCompactSize (of_nat (length (signed_inputs nIn ht tx'))) @ ?ins tx' @ ?outs tx'"
      using eq unfolding sig_Serialize_lists by simp_all
    note n = WriteCompactSize_length_inject [OF c] 
    have nI: "length (signed_inputs nIn ht tx) = length (signed_inputs nIn ht tx')" and r: "?ins tx @ ?outs tx = ?ins tx' @ ?outs tx'"
      using n ok(3) ok'(3) assms(5) by blast+
    have hashes: "\<forall>(p, n)\<in>set (signed_inputs nIn ht tx) \<union> set (signed_inputs nIn ht tx'). length (op_hash p) = 32"
      using ok(4) ok'(4) assms(5) by blast
    have "signed_inputs nIn ht tx = signed_inputs nIn ht tx' \<and> ?outs tx = ?outs tx'"
      by (rule ser_inputs_inject [OF _ _ hashes r [folded same [OF nI]]]) (simp_all only: numbers nI)
    then have ins: "signed_inputs nIn ht tx = signed_inputs nIn ht tx'" and outs: "?outs tx = ?outs tx'" by blast+
    have nO: "length (signed_outputs nIn ht tx) = length (signed_outputs nIn ht tx')"
      and o: "concat (map ser_CTxOut (signed_outputs nIn ht tx)) @ le_bytes 4 (nLockTime tx) =
        concat (map ser_CTxOut (signed_outputs nIn ht tx')) @ le_bytes 4 (nLockTime tx')"
      using WriteCompactSize_length_inject [OF outs] ok(2) ok'(2) assms(5) by blast+
    have "\<forall>out\<in>set (signed_outputs nIn ht tx) \<union> set (signed_outputs nIn ht tx'). out_ok out"
      using ok(1) ok'(1) assms(5) by blast
    with ser_outputs_inject [OF o nO] v ins show ?thesis by (simp add: signed_alike_def)
  qed
  show "sig_Serialize (CTransactionSignatureSerializer tx code nIn ht) = sig_Serialize (CTransactionSignatureSerializer tx' code nIn ht)"
    if "signed_alike nIn ht tx tx'"
    using that same unfolding sig_Serialize_lists by (simp add: signed_alike_def)
qed

theorem sig_Serialize_covers_witness:
  "sig_Serialize (CTransactionSignatureSerializer (spend_tx [1]) [OP_1] 0 3) =
     sig_Serialize (CTransactionSignatureSerializer (spend_tx [2, 3]) [OP_1] 0 3) \<and>
   sig_Serialize (CTransactionSignatureSerializer (spend_tx [1]) [OP_1] 0 1) \<noteq>
     sig_Serialize (CTransactionSignatureSerializer (spend_tx [1]\<lparr>nLockTime := 0\<rparr>) [OP_1] 0 1)"
proof -
  have wf: "tx_wf (spend_tx s)" "tx_wf (spend_tx s\<lparr>nLockTime := 0\<rparr>)" for s
    by (simp_all add: tx_wf_def spend_tx_def MAX_SIZE_def is_int64_def)
  have len: "0 < length (vin (spend_tx s))" "0 < length (vout (spend_tx s))" for s by (simp_all add: spend_tx_def)
  have "signed_alike 0 3 (spend_tx [1]) (spend_tx [2, 3])"
    "\<not> signed_alike 0 1 (spend_tx [1]) (spend_tx [1]\<lparr>nLockTime := 0\<rparr>)"
    by (simp_all add: signed_alike_def signed_inputs_def signed_outputs_def spend_tx_def)
  then show ?thesis
    using sig_Serialize_covers [OF wf(1) wf(1) len(1) len(1), of 3 "[1]" "[2, 3]" "[OP_1]"]
      sig_Serialize_covers [OF wf(1) wf(2), of 0 "[1]" "[1]" 1 "[OP_1]"] len by simp
qed

section \<open>The interface of checkers\<close>

lemma checker_ok_tx: "tc_nIn T < length (vin (tc_txTo T)) \<Longrightarrow> checker_ok (TransactionSignatureChecker T)"
  by (auto simp: checker_ok_def TransactionSignatureChecker_def tx_CheckSig_def tx_CheckLockTime_def tx_CheckSequence_def SignatureHash_def
      Let_def post_simps)

text \<open>
  What the interpreter relies on in a subclass of \<^verbatim>\<open>BaseSignatureChecker\<close>: its three functions return. Then evaluation and verification
  end with a result or an error code. The base class keeps this contract, and so does the checker of every input of a transaction.
\<close>

locale signature_checker =
  fixes c :: BaseSignatureChecker
  assumes returns: "checker_ok c"
begin

lemma eval_settled: "ev_checker env = c \<Longrightarrow> elements_ok stack \<Longrightarrow> settled (EvalScript env stack) elements_ok"
  using settled_EvalScript returns by simp

lemma verify_settled: "vc_checker C = c \<Longrightarrow> flags_consistent (vc_flags C) \<Longrightarrow> settled (VerifyScript C script_sig script_pubkey witness) (\<lambda>_. True)"
  using VerifyScript_settled returns by simp

end

locale input_checker =
  fixes T :: tx_checker
  assumes input: "tc_nIn T < length (vin (tc_txTo T))"

sublocale input_checker \<subseteq> signature_checker "TransactionSignatureChecker T"
  by unfold_locales (rule checker_ok_tx [OF input])

interpretation base: signature_checker base_checker
  by unfold_locales (rule base_checker_ok)

section \<open>Time locks in scripts\<close>

lemma op_CHECKLOCKTIMEVERIFY_checked:
  assumes "op_CHECKLOCKTIMEVERIFY env (vch # st) = Inr st'" and "flag (ev_flags env) SCRIPT_VERIFY_CHECKLOCKTIMEVERIFY"
  shows "st' = vch # st" and "length vch \<le> 5" and "0 \<le> set_vch vch" and "CheckLockTime (ev_checker env) (set_vch vch) = Inr True"
  using assms by (auto simp: op_CHECKLOCKTIMEVERIFY_def need_def stacktop_def exec_bind_Inr_iff CScriptNum_Inr_iff set_error_def split: if_splits)

text \<open>
  C13. An input that passes \<^verbatim>\<open>OP_CHECKLOCKTIMEVERIFY\<close> with the number \<open>n\<close> on the stack belongs to a transaction that is final only in blocks
  beyond height \<open>n\<close>, or with times beyond \<open>n\<close>, depending on which kind of lock \<open>n\<close> is.
\<close>

theorem CHECKLOCKTIMEVERIFY_waits:
  assumes "op_CHECKLOCKTIMEVERIFY env (vch # st) = Inr st'" and "flag (ev_flags env) SCRIPT_VERIFY_CHECKLOCKTIMEVERIFY"
    and "ev_checker env = TransactionSignatureChecker T" and "IsFinalTx (tc_txTo T) height time" and "0 < height"
  shows "0 \<le> set_vch vch \<and> set_vch vch < (if set_vch vch < LOCKTIME_THRESHOLD then height else time)"
proof -
  note c = op_CHECKLOCKTIMEVERIFY_checked [OF assms(1,2)]
  define L where "L = uint (nLockTime (tc_txTo T))"
  have t: "(L < LOCKTIME_THRESHOLD \<longleftrightarrow> set_vch vch < LOCKTIME_THRESHOLD) \<and> set_vch vch \<le> L \<and> tc_nIn T < length (vin (tc_txTo T)) \<and>
      nSequence (vin (tc_txTo T) ! tc_nIn T) \<noteq> SEQUENCE_FINAL"
    using c(4) unfolding assms(3) by (auto simp: TransactionSignatureChecker_def tx_CheckLockTime_def L_def split: if_splits)
  then have "\<not> list_all (\<lambda>txin. nSequence txin = SEQUENCE_FINAL) (vin (tc_txTo T))" by (auto simp: list_all_iff)
  then consider "nLockTime (tc_txTo T) = 0" | "L < (if L < LOCKTIME_THRESHOLD then height else time)"
    using assms(4) by (auto simp: IsFinalTx_def L_def split: if_splits)
  then show ?thesis
  proof cases
    case 1
    then have "L = 0" by (simp add: L_def)
    with t c(3) assms(5) show ?thesis by (simp add: LOCKTIME_THRESHOLD_def)
  next
    case 2
    with t c(3) show ?thesis by (auto split: if_splits)
  qed
qed

definition spend_checker :: tx_checker where
  "spend_checker = \<lparr>tc_txTo = spend_tx [], tc_nIn = 0, tc_amount = 7, tc_txdata = None, tc_Verify = \<lambda>key hash sig. False\<rparr>"

interpretation spend: input_checker spend_checker
  by unfold_locales (simp add: spend_checker_def spend_tx_def)

definition lock_env :: eval_env where
  "lock_env = \<lparr>ev_script = [], ev_flags = SCRIPT_VERIFY_CHECKLOCKTIMEVERIFY OR SCRIPT_VERIFY_CHECKSEQUENCEVERIFY,
    ev_checker = TransactionSignatureChecker spend_checker, ev_sigversion = SIGVERSION_BASE, ev_CheckLowS = \<lambda>_. True\<rparr>"

theorem CHECKLOCKTIMEVERIFY_waits_witness:
  "op_CHECKLOCKTIMEVERIFY lock_env [[0x58, 0x02]] = Inr [[0x58, 0x02]] \<and> IsFinalTx (spend_tx []) 601 0 \<and> set_vch [0x58, 0x02] = 600 \<and>
   set_vch [0x58, 0x02] < 601"
proof -
  have run: "op_CHECKLOCKTIMEVERIFY lock_env [[0x58, 0x02]] = Inr [[0x58, 0x02]]" by code_simp
  have f: "flag (ev_flags lock_env) SCRIPT_VERIFY_CHECKLOCKTIMEVERIFY" by code_simp
  have final: "IsFinalTx (tc_txTo spend_checker) 601 0" by code_simp
  have c: "ev_checker lock_env = TransactionSignatureChecker spend_checker" by (simp add: lock_env_def)
  have v: "set_vch [0x58, 0x02] = 600" by code_simp
  show ?thesis
    using CHECKLOCKTIMEVERIFY_waits [OF run f c final] run final v by (simp add: LOCKTIME_THRESHOLD_def spend_checker_def)
qed

text \<open>The age that a number asks for, in blocks or in units of 512 seconds of median time.\<close>

definition age_reached :: "block_store \<Rightarrow> block_ref \<Rightarrow> int \<Rightarrow> int \<Rightarrow> bool" where
  "age_reached st block n h \<longleftrightarrow>
    (\<exists>b q. st block = Some b \<and> pprev b = Some q \<and>
      (if bit n 22 then
         \<exists>a ta tq. GetAncestor st block (max (h - 1) 0) = Some (Some a) \<and> GetMedianTimePast st a = Some ta \<and>
           GetMedianTimePast st q = Some tq \<and> ta + n mod 2 ^ 16 * 512 \<le> tq
       else h + n mod 2 ^ 16 \<le> nHeight b))"

lemma locktime_masked:
  "(x :: int) AND uint (SEQUENCE_LOCKTIME_TYPE_FLAG OR SEQUENCE_LOCKTIME_MASK) = (if bit x 22 then 2 ^ 22 else 0) + x mod 2 ^ 16"
proof -
  have m: "uint (SEQUENCE_LOCKTIME_TYPE_FLAG OR SEQUENCE_LOCKTIME_MASK) = 2 ^ 22 OR mask 16"
    by (simp add: SEQUENCE_LOCKTIME_TYPE_FLAG_def SEQUENCE_LOCKTIME_MASK_def mask_eq_exp_minus_1 push_bit_eq_mult)
  have "x AND (2 ^ 22 OR mask 16) = (x AND 2 ^ 22) OR (x AND mask 16)" by (rule bit.conj_disj_distrib)
  also have "x AND 2 ^ 22 = (if bit x 22 then 2 ^ 22 else 0)"
  proof (rule bit_eqI)
    fix j
    have "bit (2 ^ 22 :: int) j \<longleftrightarrow> j = 22" unfolding bit_exp_iff by auto
    then show "bit (x AND 2 ^ 22) j = bit (if bit x 22 then 2 ^ 22 else 0 :: int) j" unfolding bit_and_iff by (auto simp only: bit_0_eq if_True if_False split: if_splits)
  qed
  also have "x AND mask 16 = take_bit 16 x" by (simp only: take_bit_eq_mask)
  also have "(if bit x 22 then 2 ^ 22 else 0) OR take_bit 16 x = (if bit x 22 then 2 ^ 22 else 0) + take_bit 16 x"
  proof (rule disjunctive_add [symmetric])
    fix j
    have "bit (2 ^ 22 :: int) j \<longleftrightarrow> j = 22" unfolding bit_exp_iff by auto
    then show "\<not> bit (if bit x 22 then 2 ^ 22 else 0 :: int) j \<or> \<not> bit (take_bit 16 x) j" unfolding bit_take_bit_iff by (auto split: if_splits)
  qed
  finally show ?thesis unfolding m by (simp only: take_bit_eq_mod)
qed

lemma op_CHECKSEQUENCEVERIFY_checked:
  assumes "op_CHECKSEQUENCEVERIFY env (vch # st) = Inr st'" and "flag (ev_flags env) SCRIPT_VERIFY_CHECKSEQUENCEVERIFY"
  shows "0 \<le> set_vch vch" and "bit (set_vch vch) 31 \<or> CheckSequence (ev_checker env) (set_vch vch) = Inr True"
proof -
  have "bit x 31 \<longleftrightarrow> x AND uint SEQUENCE_LOCKTIME_DISABLE_FLAG \<noteq> 0" for x
    by (simp add: SEQUENCE_LOCKTIME_DISABLE_FLAG_def push_bit_eq_mult) (use and_exp_eq_0_iff_not_bit [of x 31] in simp)
  then show "0 \<le> set_vch vch" and "bit (set_vch vch) 31 \<or> CheckSequence (ev_checker env) (set_vch vch) = Inr True"
    using assms by (auto simp: op_CHECKSEQUENCEVERIFY_def need_def stacktop_def exec_bind_Inr_iff CScriptNum_Inr_iff set_error_def split: if_splits)
qed

text \<open>
  C14. An input that passes \<^verbatim>\<open>OP_CHECKSEQUENCEVERIFY\<close> with the number \<open>n\<close> on the stack, and whose relative lock has passed in a block, spends a
  coin that has the age \<open>n\<close> asks for there, unless \<open>n\<close> switches the check off.
\<close>

theorem CHECKSEQUENCEVERIFY_ages:
  assumes "op_CHECKSEQUENCEVERIFY env (vch # st) = Inr st'" and "flag (ev_flags env) SCRIPT_VERIFY_CHECKSEQUENCEVERIFY"
    and "ev_checker env = TransactionSignatureChecker T" and "lock_passed index block (vin (tc_txTo T) ! tc_nIn T) h"
  shows "0 \<le> set_vch vch \<and> (bit (set_vch vch) 31 \<or> age_reached index block (set_vch vch) h)"
proof -
  note c = op_CHECKSEQUENCEVERIFY_checked [OF assms(1,2)]
  define w n where "w = nSequence (vin (tc_txTo T) ! tc_nIn T)" and "n = set_vch vch"
  have "age_reached index block n h" if on: "\<not> bit n 31"
  proof -
    define m where "m x = (if bit x 22 then 2 ^ 22 else 0) + x mod 2 ^ 16" for x :: int
    have mask: "x AND uint (SEQUENCE_LOCKTIME_TYPE_FLAG OR SEQUENCE_LOCKTIME_MASK) = m x" for x unfolding m_def by (rule locktime_masked)
    have tf: "uint SEQUENCE_LOCKTIME_TYPE_FLAG = 2 ^ 22" by (simp add: SEQUENCE_LOCKTIME_TYPE_FLAG_def push_bit_eq_mult)
    have "CheckSequence (ev_checker env) n = Inr True" using c(2) on by (simp add: n_def)
    then have disable: "uint w AND uint SEQUENCE_LOCKTIME_DISABLE_FLAG = 0"
      and kind: "m (uint w) < 2 ^ 22 \<longleftrightarrow> m n < 2 ^ 22" and le: "m n \<le> m (uint w)"
      unfolding assms(3) by (auto simp: TransactionSignatureChecker_def tx_CheckSequence_def Let_def w_def [symmetric] mask tf split: if_splits)
    have m16: "0 \<le> x mod 65536" "x mod 65536 < 65536" for x :: int by simp_all
    have type: "m x < 2 ^ 22 \<longleftrightarrow> \<not> bit x 22" for x using m16(1) [of x] order_less_trans [OF m16(2) [of x], of 4194304] by (simp add: m_def not_less)
    have b22: "bit (uint w) 22 \<longleftrightarrow> bit n 22" using kind unfolding type by blast
    then have units: "n mod 2 ^ 16 \<le> uint w mod 2 ^ 16" using le by (cases "bit n 22") (simp_all add: m_def)
    then have "n mod 2 ^ 16 * 512 \<le> uint w mod 2 ^ 16 * 512" by simp
    have "uint (w AND SEQUENCE_LOCKTIME_DISABLE_FLAG) = 0" using disable by (simp flip: uint_and)
    then have "w AND SEQUENCE_LOCKTIME_DISABLE_FLAG = 0" by (metis uint_0_iff)
    then have b31: "\<not> bit w 31" using flag_bit [of w 31] by (simp add: SEQUENCE_LOCKTIME_DISABLE_FLAG_def)
    have w22: "bit w 22 \<longleftrightarrow> bit n 22" using b22 by (simp add: bit_uint_iff)
    have u: "int (unat w mod 2 ^ 16) = uint w mod 2 ^ 16" by (simp add: zmod_int)
    show ?thesis
      using assms(4) b31 units \<open>_ * 512 \<le> _\<close> unfolding lock_passed_def age_reached_def w_def [symmetric] Let_def w22 u
      by (cases "bit n 22") fastforce+
  qed
  with c(1) show ?thesis by (auto simp: n_def)
qed

definition lock_index :: block_store where
  "lock_index = [1 \<mapsto> CBlockIndex_SetNull\<lparr>pprev := Some 0, nHeight := 10\<rparr>]"

theorem CHECKSEQUENCEVERIFY_ages_witness:
  "op_CHECKSEQUENCEVERIFY lock_env [[0x03]] = Inr [[0x03]] \<and> lock_passed lock_index 1 (vin (spend_tx []) ! 0) 5 \<and>
   age_reached lock_index 1 3 5"
proof -
  have run: "op_CHECKSEQUENCEVERIFY lock_env [[0x03]] = Inr [[0x03]]" by code_simp
  have f: "flag (ev_flags lock_env) SCRIPT_VERIFY_CHECKSEQUENCEVERIFY" by code_simp
  have c: "ev_checker lock_env = TransactionSignatureChecker spend_checker" by (simp add: lock_env_def)
  have lock: "lock_passed lock_index 1 (vin (tc_txTo spend_checker) ! tc_nIn spend_checker) 5"
    by (simp add: lock_passed_def spend_checker_def spend_tx_def lock_index_def bit_iff_odd)
  have v: "set_vch [0x03] = 3" "\<not> bit (3 :: int) 31" by code_simp+
  show ?thesis
    using CHECKSEQUENCEVERIFY_ages [OF run f c lock] run lock v by (simp add: spend_checker_def)
qed

end
