(* ===== verification/Standard.thy ===== *)
theory Standard
  imports Spend Sighash
begin

text \<open>
  Standard scripts: \<^verbatim>\<open>Solver\<close>, which recognises the forms of output scripts, and the destinations they pay to
  (\<^verbatim>\<open>src/script/standard.cpp\<close>). A result of \<open>None\<close> is the answer false of a function that leaves its outputs alone; the length checks of
  the hash types are assertions.
\<close>

section \<open>The program\<close>

datatype CTxDestination = CNoDestination | CKeyID bytes | CScriptID bytes

definition IsValidDestination :: "CTxDestination \<Rightarrow> bool" where
  "IsValidDestination dest \<longleftrightarrow> dest \<noteq> CNoDestination"

definition ASSET_TRANSFER_STRING :: string where "ASSET_TRANSFER_STRING = ''transfer_asset''"
definition ASSET_NEW_STRING :: string where "ASSET_NEW_STRING = ''new_asset''"
definition ASSET_REISSUE_STRING :: string where "ASSET_REISSUE_STRING = ''reissue_asset''"

fun GetTxnOutputType :: "txnouttype \<Rightarrow> string" where
  "GetTxnOutputType TX_NONSTANDARD = ''nonstandard''"
| "GetTxnOutputType TX_PUBKEY = ''pubkey''"
| "GetTxnOutputType TX_PUBKEYHASH = ''pubkeyhash''"
| "GetTxnOutputType TX_SCRIPTHASH = ''scripthash''"
| "GetTxnOutputType TX_MULTISIG = ''multisig''"
| "GetTxnOutputType TX_NULL_DATA = ''nulldata''"
| "GetTxnOutputType TX_RESTRICTED_ASSET_DATA = ''nullassetdata''"
| "GetTxnOutputType TX_WITNESS_V0_KEYHASH = ''witness_v0_keyhash''"
| "GetTxnOutputType TX_WITNESS_V0_SCRIPTHASH = ''witness_v0_scripthash''"
| "GetTxnOutputType TX_NEW_ASSET = ASSET_NEW_STRING"
| "GetTxnOutputType TX_TRANSFER_ASSET = ASSET_TRANSFER_STRING"
| "GetTxnOutputType TX_REISSUE_ASSET = ASSET_REISSUE_STRING"

text \<open>The templates in the order in which the multimap is traversed.\<close>

definition mTemplates :: "(txnouttype \<times> script) list" where
  "mTemplates =
    [(TX_PUBKEY, push_opcode (push_opcode [] OP_PUBKEY) OP_CHECKSIG),
     (TX_PUBKEYHASH, push_opcode (push_opcode (push_opcode (push_opcode (push_opcode [] OP_DUP) OP_HASH160) OP_PUBKEYHASH) OP_EQUALVERIFY) OP_CHECKSIG),
     (TX_MULTISIG, push_opcode (push_opcode (push_opcode (push_opcode [] OP_SMALLINTEGER) OP_PUBKEYS) OP_SMALLINTEGER) OP_CHECKMULTISIG)]"

text \<open>The loop that collects keys; it ends with the first operation that does not push one.\<close>

function collect_keys :: "script \<Rightarrow> nat \<Rightarrow> byte \<Rightarrow> bytes \<Rightarrow> bytes list \<Rightarrow> nat \<times> byte \<times> bytes \<times> bytes list" where
  "collect_keys script1 pc1 opcode1 vch1 sols =
    (if length vch1 \<ge> 33 \<and> length vch1 \<le> 65 then
       (let sols = sols @ [vch1]; (ok, pc1', opcode1, vch1) = GetOp2 script1 pc1
        in if \<not> ok then (pc1', opcode1, vch1, sols) else collect_keys script1 pc1' opcode1 vch1 sols)
     else (pc1, opcode1, vch1, sols))"
  by pat_completeness auto
termination
  by (relation "measure (\<lambda>(script1, pc1, opcode1, vch1, sols). length script1 - pc1)") (auto dest!: GetOp2_True [OF sym])

declare collect_keys.simps [simp del]

text \<open>One operation of the template against one of the script: the solutions, or \<open>None\<close> if they differ.\<close>

definition match_op :: "byte \<Rightarrow> bytes \<Rightarrow> byte \<Rightarrow> bytes \<Rightarrow> bytes list \<Rightarrow> bytes list option exec" where
  "match_op opcode1 vch1 opcode2 vch2 sols =
    (if opcode2 = OP_PUBKEY then
       (if length vch1 < 33 \<or> length vch1 > 65 then Inr None else Inr (Some (sols @ [vch1])))
     else if opcode2 = OP_PUBKEYHASH then
       (if length vch1 \<noteq> 20 then Inr None else Inr (Some (sols @ [vch1])))
     else if opcode2 = OP_SMALLINTEGER then
       (if opcode1 = OP_0 \<or> (opcode1 \<ge> OP_1 \<and> opcode1 \<le> OP_16) then
          exec_bind (DecodeOP_N opcode1) (\<lambda>n. Inr (Some (sols @ [replicate 1 (word_of_int n)])))
        else Inr None)
     else if opcode1 \<noteq> opcode2 \<or> vch1 \<noteq> vch2 then Inr None
     else Inr (Some sols))"

function match_template :: "script \<Rightarrow> script \<Rightarrow> nat \<Rightarrow> nat \<Rightarrow> bytes list \<Rightarrow> bytes list option exec" where
  "match_template script1 script2 pc1 pc2 sols =
    (if pc1 = length script1 \<and> pc2 = length script2 then Inr (Some sols)
     else
       (let (ok1, pc1, opcode1, vch1) = GetOp2 script1 pc1; (ok2, pc2, opcode2, vch2) = GetOp2 script2 pc2
        in if \<not> ok1 then Inr None
           else if \<not> ok2 then Inr None
           else if opcode2 = OP_PUBKEYS then
             (let (pc1, opcode1, vch1, sols) = collect_keys script1 pc1 opcode1 vch1 sols; (ok2', pc2, opcode2, vch2) = GetOp2 script2 pc2
              in if \<not> ok2' then Inr None
                 else exec_bind (match_op opcode1 vch1 opcode2 vch2 sols) (\<lambda>r.
                   case r of None \<Rightarrow> Inr None | Some sols \<Rightarrow> match_template script1 script2 pc1 pc2 sols))
           else exec_bind (match_op opcode1 vch1 opcode2 vch2 sols) (\<lambda>r.
                   case r of None \<Rightarrow> Inr None | Some sols \<Rightarrow> match_template script1 script2 pc1 pc2 sols)))"
  by pat_completeness auto
termination
  by (relation "measure (\<lambda>(script1, script2, pc1, pc2, sols). length script2 - pc2)") (auto dest!: GetOp2_True [OF sym])

declare match_template.simps [simp del]

text \<open>The results are the answer, the type and the solutions.\<close>

primrec scan_templates :: "script \<Rightarrow> (txnouttype \<times> script) list \<Rightarrow> (bool \<times> txnouttype \<times> bytes list) exec" where
  "scan_templates script1 [] = Inr (False, TX_NONSTANDARD, [])"
| "scan_templates script1 (tplate # tplates) =
    exec_bind (match_template script1 (snd tplate) 0 0 []) (\<lambda>r.
      case r of
        None \<Rightarrow> scan_templates script1 tplates
      | Some sols \<Rightarrow>
          if fst tplate = TX_MULTISIG then
            (let m = hd sols ! 0; n = last sols ! 0
             in if m < 1 \<or> n < 1 \<or> m > n \<or> length sols - 2 \<noteq> unat n then Inr (False, fst tplate, sols) else Inr (True, fst tplate, sols))
          else Inr (True, fst tplate, sols))"

definition Solver :: "script \<Rightarrow> txnouttype \<Rightarrow> (bool \<times> txnouttype \<times> bytes list) exec" where
  "Solver s typeRet =
    (if IsPayToScriptHash s then Inr (True, TX_SCRIPTHASH, [take 20 (drop 2 s)])
     else case IsAssetScript s of
       Some (nType, fIsOwner, _) \<Rightarrow> Inr (True, nType, [take 20 (drop 3 s)])
     | None \<Rightarrow>
         exec_bind (IsWitnessProgram s) (\<lambda>wp. case wp of
           Some (witnessversion, witnessprogram) \<Rightarrow>
             if witnessversion = 0 \<and> length witnessprogram = 20 then Inr (True, TX_WITNESS_V0_KEYHASH, [witnessprogram])
             else if witnessversion = 0 \<and> length witnessprogram = 32 then Inr (True, TX_WITNESS_V0_SCRIPTHASH, [witnessprogram])
             else Inr (False, typeRet, [])
         | None \<Rightarrow>
             if length s \<ge> 1 \<and> s ! 0 = OP_RETURN \<and> IsPushOnly_from s 1 then Inr (True, TX_NULL_DATA, [])
             else if length s \<ge> 1 \<and> s ! 0 = OP_UNEMP_ASSET \<and> IsPushOnly_from s 1 then
               Inr (True, TX_RESTRICTED_ASSET_DATA, if length s \<ge> 23 \<and> s ! 1 \<noteq> OP_RESERVED then [take 20 (drop 2 s)] else [])
             else scan_templates s mTemplates))"

definition uint160_of :: "bytes \<Rightarrow> bytes exec" where
  "uint160_of vch = (if length vch = 20 then Inr vch else Inl Undefined)"

definition CPubKey_GetID :: "bytes \<Rightarrow> bytes" where
  "CPubKey_GetID vch =
    (let buf = replicate 64 0 in snd (CHash160_Finalize buf (CHash160_Write (CSHA256_new buf) (take (CPubKey_size vch) vch))))"

definition ExtractDestination :: "script \<Rightarrow> CTxDestination option exec" where
  "ExtractDestination s =
    exec_bind (Solver s TX_NONSTANDARD) (\<lambda>(ok, whichType, vSolutions).
      if \<not> ok then Inr None
      else if whichType = TX_PUBKEY then
        (let pubKey = CPubKey_Set (vSolutions ! 0)
         in if \<not> CPubKey_IsValid pubKey then Inr None else Inr (Some (CKeyID (CPubKey_GetID pubKey))))
      else if whichType = TX_PUBKEYHASH then exec_bind (uint160_of (vSolutions ! 0)) (\<lambda>h. Inr (Some (CKeyID h)))
      else if whichType = TX_SCRIPTHASH then exec_bind (uint160_of (vSolutions ! 0)) (\<lambda>h. Inr (Some (CScriptID h)))
      else if whichType = TX_NEW_ASSET \<or> whichType = TX_REISSUE_ASSET \<or> whichType = TX_TRANSFER_ASSET then
        exec_bind (uint160_of (vSolutions ! 0)) (\<lambda>h. Inr (Some (CKeyID h)))
      else if whichType = TX_RESTRICTED_ASSET_DATA \<and> length vSolutions \<noteq> 0 then
        exec_bind (uint160_of (vSolutions ! 0)) (\<lambda>h. Inr (Some (CKeyID h)))
      else Inr None)"

text \<open>The type, the addresses and the number of signatures that are required, or \<open>None\<close> for false.\<close>

definition ExtractDestinations :: "script \<Rightarrow> (txnouttype \<times> CTxDestination list \<times> int) option exec" where
  "ExtractDestinations s =
    exec_bind (Solver s TX_NONSTANDARD) (\<lambda>(ok, typeRet, vSolutions).
      if \<not> ok then Inr None
      else if typeRet = TX_NULL_DATA then Inr None
      else if typeRet = TX_MULTISIG then
        (let nRequiredRet = uint (hd vSolutions ! 0);
             keys = filter CPubKey_IsValid (map CPubKey_Set (butlast (tl vSolutions)));
             addressRet = map (CKeyID \<circ> CPubKey_GetID) keys
         in if addressRet = [] then Inr None else Inr (Some (typeRet, addressRet, nRequiredRet)))
      else
        exec_bind (ExtractDestination s) (\<lambda>r.
          case r of None \<Rightarrow> Inr None | Some address \<Rightarrow> Inr (Some (typeRet, [address], 1))))"

fun GetScriptForDestination :: "CTxDestination \<Rightarrow> script" where
  "GetScriptForDestination CNoDestination = []"
| "GetScriptForDestination (CKeyID keyID) =
    push_opcode (push_opcode (push_data (push_opcode (push_opcode [] OP_DUP) OP_HASH160) keyID) OP_EQUALVERIFY) OP_CHECKSIG"
| "GetScriptForDestination (CScriptID scriptID) = push_opcode (push_data (push_opcode [] OP_HASH160) scriptID) OP_EQUAL"

fun GetScriptForNullAssetDataDestination :: "CTxDestination \<Rightarrow> script" where
  "GetScriptForNullAssetDataDestination CNoDestination = []"
| "GetScriptForNullAssetDataDestination (CKeyID keyID) = push_data (push_opcode [] OP_UNEMP_ASSET) keyID"
| "GetScriptForNullAssetDataDestination (CScriptID scriptID) = push_data (push_opcode [] OP_UNEMP_ASSET) scriptID"

definition GetScriptForRawPubKey :: "bytes \<Rightarrow> script" where
  "GetScriptForRawPubKey pubKey = push_opcode (push_data [] (take (CPubKey_size pubKey) pubKey)) OP_CHECKSIG"

definition GetScriptForMultisig :: "int \<Rightarrow> bytes list \<Rightarrow> script exec" where
  "GetScriptForMultisig nRequired keys =
    exec_bind (EncodeOP_N nRequired) (\<lambda>m. exec_bind (EncodeOP_N (int (length keys))) (\<lambda>n.
      Inr (push_opcode (push_opcode
        (fold (\<lambda>key script. push_data script (take (CPubKey_size key) key)) keys (push_opcode [] m)) n) OP_CHECKMULTISIG)))"

definition GetScriptForWitness :: "script \<Rightarrow> script exec" where
  "GetScriptForWitness redeemscript =
    exec_bind (Solver redeemscript TX_NONSTANDARD) (\<lambda>(ok, typ, vSolutions).
      let buf = replicate 64 0; ret = push_opcode [] OP_0
      in if ok \<and> typ = TX_PUBKEY then Inr (push_data ret (snd (CHash160_Finalize buf (CHash160_Write (CSHA256_new buf) (vSolutions ! 0)))))
         else if ok \<and> typ = TX_PUBKEYHASH then Inr (push_data ret (vSolutions ! 0))
         else Inr (push_data ret (snd (CSHA256_Finalize (CSHA256_Write (CSHA256_new buf) redeemscript)))))"

section \<open>Matching\<close>

text \<open>\<open>match_ok m P\<close>: no assertion fails, and the solutions of a match have \<open>P\<close>.\<close>

definition match_ok :: "bytes list option exec \<Rightarrow> (bytes list \<Rightarrow> bool) \<Rightarrow> bool" where
  "match_ok m P \<longleftrightarrow> (\<exists>r. m = Inr r \<and> (\<forall>sols. r = Some sols \<longrightarrow> P sols))"

abbreviation key_size :: "bytes \<Rightarrow> bool" where "key_size k \<equiv> 33 \<le> length k \<and> length k \<le> 65"

lemma matched_op:
  "match_ok (match_op o1 v1 OP_PUBKEY v2 sols) P \<longleftrightarrow> (key_size v1 \<longrightarrow> P (sols @ [v1]))"
  "match_ok (match_op o1 v1 OP_PUBKEYHASH v2 sols) P \<longleftrightarrow> (length v1 = 20 \<longrightarrow> P (sols @ [v1]))"
  "op2 \<notin> {OP_PUBKEY, OP_PUBKEYHASH, OP_SMALLINTEGER} \<Longrightarrow> match_ok (match_op o1 v1 op2 v2 sols) P \<longleftrightarrow> (o1 = op2 \<and> v1 = v2 \<longrightarrow> P sols)"
  by (auto simp: match_ok_def match_op_def not_less) (simp_all add: opcode)

lemma matched_small: "(\<And>n. P (sols @ [[n]])) \<Longrightarrow> match_ok (match_op o1 v1 OP_SMALLINTEGER v2 sols) P"
  by (auto simp: match_ok_def match_op_def DecodeOP_N_def) (simp_all add: opcode)

lemma match_bind:
  "match_ok m (\<lambda>sols. match_ok (k sols) P) \<Longrightarrow> match_ok (exec_bind m (\<lambda>r. case r of None \<Rightarrow> Inr None | Some sols \<Rightarrow> k sols)) P"
  by (auto simp: match_ok_def split: option.splits)

lemma match_end:
  "pc2 = length t \<Longrightarrow> match_template s t pc1 pc2 sols = Inr (if pc1 = length s then Some sols else None)"
  by (subst match_template.simps) (simp add: GetOp2_end split_beta Let_def)

lemma match_next:
  assumes "GetOp2 t pc2 = (True, pc2', op2, v2)" and "op2 \<noteq> OP_PUBKEYS"
  shows "match_template s t pc1 pc2 sols =
    (let (ok1, pc1', o1, v1) = GetOp2 s pc1
     in if \<not> ok1 then Inr None
        else exec_bind (match_op o1 v1 op2 v2 sols) (\<lambda>r. case r of None \<Rightarrow> Inr None | Some sols \<Rightarrow> match_template s t pc1' pc2' sols))"
proof -
  have "pc2 \<noteq> length t" using assms(1) GetOp2_end [of t pc2] by auto
  then show ?thesis using assms by (simp add: match_template.simps [of s t pc1 pc2] split_beta)
qed

lemma match_keys:
  assumes "GetOp2 t pc2 = (True, pc2', OP_PUBKEYS, v2)" and "GetOp2 t pc2' = (True, pc2'', op2, v2')"
  shows "match_template s t pc1 pc2 sols =
    (let (ok1, pc1', o1, v1) = GetOp2 s pc1
     in if \<not> ok1 then Inr None
        else let (pc1', o1, v1, sols) = collect_keys s pc1' o1 v1 sols
        in exec_bind (match_op o1 v1 op2 v2' sols) (\<lambda>r. case r of None \<Rightarrow> Inr None | Some sols \<Rightarrow> match_template s t pc1' pc2'' sols))"
proof -
  have "pc2 \<noteq> length t" using assms(1) GetOp2_end [of t pc2] by auto
  then show ?thesis using assms by (simp add: match_template.simps [of s t pc1 pc2] split_beta)
qed

lemma matched_next:
  assumes "GetOp2 t pc2 = (True, pc2', op2, v2)" and "op2 \<noteq> OP_PUBKEYS"
    and "\<And>o1 v1 pc1'. match_ok (match_op o1 v1 op2 v2 sols) (\<lambda>sols. match_ok (match_template s t pc1' pc2' sols) P)"
  shows "match_ok (match_template s t pc1 pc2 sols) P"
  using assms(3) by (auto simp: match_next [OF assms(1,2)] Let_def split_beta match_ok_def [of "Inr None"] intro!: match_bind)

lemma collect_keys_sols:
  "collect_keys s pc op v sols = (pc', op', v', sols') \<Longrightarrow> \<exists>ks. sols' = sols @ ks \<and> list_all key_size ks"
proof (induction s pc op v sols arbitrary: pc' op' v' sols' rule: collect_keys.induct)
  case (1 s pc op v sols)
  show ?case
  proof (cases "key_size v")
    case False
    then have "(pc, op, v, sols) = (pc', op', v', sols')" using 1(2) by (simp only: collect_keys.simps [of s pc op v sols] if_False)
    then show ?thesis by simp
  next
    case True
    obtain ok pc1 op1 v1 where g: "GetOp2 s pc = (ok, pc1, op1, v1)" by (metis prod_cases4)
    show ?thesis
    proof (cases ok)
      case False
      then show ?thesis using 1(2) True g by (auto simp: collect_keys.simps [of s pc])
    next
      case ok: True
      have "collect_keys s pc1 op1 v1 (sols @ [v]) = (pc', op', v', sols')"
        using 1(2) True g ok by (simp add: collect_keys.simps [of s pc])
      from 1(1) [OF _ refl g [symmetric] refl refl refl _ this] True ok obtain ks where "sols' = (sols @ [v]) @ ks" "list_all key_size ks"
        by auto
      with True show ?thesis by (intro exI [of _ "v # ks"]) simp
    qed
  qed
qed

lemma matched_keys:
  assumes "GetOp2 t pc2 = (True, pc2', OP_PUBKEYS, v2)" and "GetOp2 t pc2' = (True, pc2'', op2, v2')"
    and "\<And>o1 v1 pc1' ks. list_all key_size ks \<Longrightarrow>
      match_ok (match_op o1 v1 op2 v2' (sols @ ks)) (\<lambda>sols. match_ok (match_template s t pc1' pc2'' sols) P)"
  shows "match_ok (match_template s t pc1 pc2 sols) P"
proof -
  obtain ok1 pc1' o1 v1 where g: "GetOp2 s pc1 = (ok1, pc1', o1, v1)" by (metis prod_cases4)
  obtain pc' o' v' sols' where c: "collect_keys s pc1' o1 v1 sols = (pc', o', v', sols')" by (metis prod_cases4)
  from collect_keys_sols [OF c] obtain ks where "sols' = sols @ ks" "list_all key_size ks" by blast
  then show ?thesis
    using assms(3) by (auto simp: match_keys [OF assms(1,2)] g c match_ok_def [of "Inr None"] intro!: match_bind)
qed

text \<open>The templates.\<close>

abbreviation "tpl_pubkey \<equiv> [OP_PUBKEY, OP_CHECKSIG]"
abbreviation "tpl_pubkeyhash \<equiv> [OP_DUP, OP_HASH160, OP_PUBKEYHASH, OP_EQUALVERIFY, OP_CHECKSIG]"
abbreviation "tpl_multisig \<equiv> [OP_SMALLINTEGER, OP_PUBKEYS, OP_SMALLINTEGER, OP_CHECKMULTISIG]"

lemma templates: "mTemplates = [(TX_PUBKEY, tpl_pubkey), (TX_PUBKEYHASH, tpl_pubkeyhash), (TX_MULTISIG, tpl_multisig)]"
  by (simp add: mTemplates_def push_opcode_def)

lemma template_ops:
  "GetOp2 tpl_pubkey 0 = (True, 1, OP_PUBKEY, [])" "GetOp2 tpl_pubkey 1 = (True, 2, OP_CHECKSIG, [])"
  "GetOp2 tpl_pubkeyhash 0 = (True, 1, OP_DUP, [])" "GetOp2 tpl_pubkeyhash 1 = (True, 2, OP_HASH160, [])"
  "GetOp2 tpl_pubkeyhash 2 = (True, 3, OP_PUBKEYHASH, [])" "GetOp2 tpl_pubkeyhash 3 = (True, 4, OP_EQUALVERIFY, [])"
  "GetOp2 tpl_pubkeyhash 4 = (True, 5, OP_CHECKSIG, [])"
  "GetOp2 tpl_multisig 0 = (True, 1, OP_SMALLINTEGER, [])" "GetOp2 tpl_multisig 1 = (True, 2, OP_PUBKEYS, [])"
  "GetOp2 tpl_multisig 2 = (True, 3, OP_SMALLINTEGER, [])" "GetOp2 tpl_multisig 3 = (True, 4, OP_CHECKMULTISIG, [])"
  by code_simp+

lemma template_kinds:
  "OP_PUBKEY \<noteq> OP_PUBKEYS" "OP_PUBKEYHASH \<noteq> OP_PUBKEYS" "OP_SMALLINTEGER \<noteq> OP_PUBKEYS"
  "op \<in> {OP_DUP, OP_HASH160, OP_EQUALVERIFY, OP_CHECKSIG, OP_CHECKMULTISIG} \<Longrightarrow>
    op \<noteq> OP_PUBKEYS \<and> op \<notin> {OP_PUBKEY, OP_PUBKEYHASH, OP_SMALLINTEGER}"
  by (auto simp: opcode)

lemma matched_exact:
  assumes "GetOp2 t pc2 = (True, pc2', op2, [])" and "op2 \<in> {OP_DUP, OP_HASH160, OP_EQUALVERIFY, OP_CHECKSIG, OP_CHECKMULTISIG}"
    and "\<And>pc1'. match_ok (match_template s t pc1' pc2' sols) P"
  shows "match_ok (match_template s t pc1 pc2 sols) P"
  using template_kinds(4) [OF assms(2)] assms(3) by (intro matched_next [OF assms(1)]) (simp_all add: matched_op)

lemma matched_end: "pc2 = length t \<Longrightarrow> P sols \<Longrightarrow> match_ok (match_template s t pc1 pc2 sols) P"
  by (simp add: match_end match_ok_def)

lemma matched_pubkey: "match_ok (match_template s tpl_pubkey 0 0 []) (\<lambda>sols. \<exists>k. sols = [k] \<and> key_size k)"
proof (rule matched_next [OF template_ops(1) template_kinds(1)])
  fix o1 v1 pc1'
  have "match_ok (match_template s tpl_pubkey pc1' 1 [v1]) (\<lambda>sols. \<exists>k. sols = [k] \<and> key_size k)" if "key_size v1"
    by (rule matched_exact [OF template_ops(2)], simp, rule matched_end) (simp_all add: that)
  then show "match_ok (match_op o1 v1 OP_PUBKEY [] [])
      (\<lambda>sols. match_ok (match_template s tpl_pubkey pc1' 1 sols) (\<lambda>sols. \<exists>k. sols = [k] \<and> key_size k))"
    unfolding matched_op by simp
qed

lemma matched_pubkeyhash: "match_ok (match_template s tpl_pubkeyhash 0 0 []) (\<lambda>sols. \<exists>h. sols = [h] \<and> length h = 20)"
proof (rule matched_exact [OF template_ops(3)], simp, rule matched_exact [OF template_ops(4)], simp,
    rule matched_next [OF template_ops(5) template_kinds(2)])
  fix o1 v1 pc1'
  have "match_ok (match_template s tpl_pubkeyhash pc1' 3 [v1]) (\<lambda>sols. \<exists>h. sols = [h] \<and> length h = 20)" if "length v1 = 20"
    by (rule matched_exact [OF template_ops(6)], simp, rule matched_exact [OF template_ops(7)], simp, rule matched_end) (simp_all add: that)
  then show "match_ok (match_op o1 v1 OP_PUBKEYHASH [] [])
      (\<lambda>sols. match_ok (match_template s tpl_pubkeyhash pc1' 3 sols) (\<lambda>sols. \<exists>h. sols = [h] \<and> length h = 20))"
    unfolding matched_op by simp
qed

definition multisig_sols :: "bytes list \<Rightarrow> bool" where
  "multisig_sols sols \<longleftrightarrow> (\<exists>m keys n. sols = [m] # keys @ [[n]] \<and> list_all key_size keys)"

lemma matched_multisig: "match_ok (match_template s tpl_multisig 0 0 []) multisig_sols"
proof -
  have last_ops: "match_ok (match_template s tpl_multisig pc1 3 ([m] # keys @ [[n]])) multisig_sols" if "list_all key_size keys" for pc1 m keys n
    by (rule matched_exact [OF template_ops(11)], simp, rule matched_end) (use that in \<open>auto simp: multisig_sols_def\<close>)
  have "match_ok (match_template s tpl_multisig pc1 1 [[m]]) multisig_sols" for pc1 m
    by (rule matched_keys [OF template_ops(9,10)], rule matched_small) (simp add: last_ops)
  then show ?thesis
    by (intro matched_next [OF template_ops(8) template_kinds(3)] matched_small) simp
qed

text \<open>What the solutions of each type are.\<close>

fun solutions_ok :: "txnouttype \<Rightarrow> bytes list \<Rightarrow> bool" where
  "solutions_ok TX_PUBKEY sols \<longleftrightarrow> (\<exists>k. sols = [k] \<and> key_size k)"
| "solutions_ok TX_MULTISIG sols \<longleftrightarrow>
    (\<exists>m keys n. sols = [m] # keys @ [[n]] \<and> list_all key_size keys \<and> 1 \<le> m \<and> m \<le> n \<and> length keys = unat n)"
| "solutions_ok TX_NULL_DATA sols \<longleftrightarrow> sols = []"
| "solutions_ok TX_RESTRICTED_ASSET_DATA sols \<longleftrightarrow> sols = [] \<or> (\<exists>h. sols = [h] \<and> length h = 20)"
| "solutions_ok TX_WITNESS_V0_SCRIPTHASH sols \<longleftrightarrow> (\<exists>h. sols = [h] \<and> length h = 32)"
| "solutions_ok TX_NONSTANDARD sols \<longleftrightarrow> False"
| "solutions_ok _ sols \<longleftrightarrow> (\<exists>h. sols = [h] \<and> length h = 20)"

lemma IsAssetScript_types:
  "IsAssetScript s = Some (t, own, start) \<Longrightarrow> 31 < length s \<and> t \<in> {TX_NEW_ASSET, TX_REISSUE_ASSET, TX_TRANSFER_ASSET}"
  by (auto simp: IsAssetScript_def Let_def split: if_splits option.splits)

definition solver_ok :: "(bool \<times> txnouttype \<times> bytes list) exec \<Rightarrow> bool" where
  "solver_ok m \<longleftrightarrow> (case m of Inl h \<Rightarrow> False | Inr (ok, t, sols) \<Rightarrow> if ok then solutions_ok t sols else True)"

lemma solver_ok_Inr [simp]: "solver_ok (Inr (True, t, sols)) \<longleftrightarrow> solutions_ok t sols" "solver_ok (Inr (False, t, sols))"
  by (simp_all add: solver_ok_def)

lemma matched_cases:
  assumes "match_ok m P"
  obtains "m = Inr None" | sols where "m = Inr (Some sols)" and "P sols"
  using assms unfolding match_ok_def by (metis not_Some_eq)

lemma scan_templates_ok: "solver_ok (scan_templates s mTemplates)"
proof (cases rule: matched_cases [OF matched_pubkey [of s]])
  case none1: 1
  show ?thesis
  proof (cases rule: matched_cases [OF matched_pubkeyhash [of s]])
    case none2: 1
    show ?thesis
    proof (cases rule: matched_cases [OF matched_multisig [of s]])
      case 1
      then show ?thesis using none1 none2 by (simp add: templates)
    next
      case (2 sols)
      then obtain m keys n where sols: "sols = [m] # keys @ [[n]]" "list_all key_size keys" by (auto simp: multisig_sols_def)
      have "scan_templates s mTemplates =
          Inr (\<not> (m < 1 \<or> n < 1 \<or> m > n \<or> length keys \<noteq> unat n), TX_MULTISIG, sols)"
        using none1 none2 2(1) by (simp add: templates Let_def sols(1))
      moreover have "1 \<le> m" if "m \<noteq> 0" using that by (simp add: word_le_nat_alt Suc_le_eq unat_gt_0)
      ultimately show ?thesis using sols by (auto simp: solver_ok_def not_less)
    qed
  next
    case (2 sols)
    then show ?thesis using none1 by (auto simp: templates)
  qed
next
  case (2 sols)
  then show ?thesis by (auto simp: templates)
qed

lemma Solver_shape: "solver_ok (Solver s t0)"
proof (cases "IsPayToScriptHash s")
  case True
  then show ?thesis by (simp add: Solver_def IsPayToScriptHash_def)
next
  case nsh: False
  show ?thesis
  proof (cases "IsAssetScript s")
    case (Some r)
    then obtain t own start where r: "IsAssetScript s = Some (t, own, start)" by (cases r) auto
    from IsAssetScript_types [OF r] nsh r show ?thesis by (auto simp: Solver_def)
  next
    case None
    obtain wp where wp: "IsWitnessProgram s = Inr wp" using IsWitnessProgram_total [of s] by auto
    show ?thesis
    proof (cases wp)
      case w: None
      show ?thesis using scan_templates_ok [of s] unfolding Solver_def wp w None exec_bind_simps
        by (auto simp: nsh min_def)
    next
      case (Some p)
      then show ?thesis using nsh None wp by (cases p) (simp add: Solver_def)
    qed
  qed
qed

text \<open>
  C15. \<^verbatim>\<open>Solver\<close> ends without a failed assertion, and when it recognises a script the solutions are those of the type: a key, a hash of 20 or
  32 bytes, nothing for data, and for a multisignature script the two numbers around as many keys as the second says, of which the first,
  at least one, is at most the second.
\<close>

theorem Solver_solutions: "solver_ok (Solver s t0)"
  by (rule Solver_shape)

lemma ExtractDestination_total: "\<exists>r. ExtractDestination s = Inr r"
proof -
  obtain ok t sols where r: "Solver s TX_NONSTANDARD = Inr (ok, t, sols)" "solver_ok (Inr (ok, t, sols))"
    using Solver_shape [of s TX_NONSTANDARD] by (cases "Solver s TX_NONSTANDARD") (auto simp: solver_ok_def)
  show ?thesis
  proof (cases ok)
    case True
    then show ?thesis using r by (cases t) (auto simp: ExtractDestination_def uint160_of_def Let_def)
  qed (use r in \<open>simp add: ExtractDestination_def\<close>)
qed

section \<open>Destinations\<close>

lemma match_op_eqs:
  "match_op o1 v1 OP_PUBKEY v2 sols = Inr (if key_size v1 then Some (sols @ [v1]) else None)"
  "match_op o1 v1 OP_PUBKEYHASH v2 sols = Inr (if length v1 = 20 then Some (sols @ [v1]) else None)"
  "op2 \<in> {OP_DUP, OP_HASH160, OP_EQUALVERIFY, OP_CHECKSIG, OP_CHECKMULTISIG} \<Longrightarrow>
    match_op o1 v1 op2 v2 sols = Inr (if o1 = op2 \<and> v1 = v2 then Some sols else None)"
proof -
  show "match_op o1 v1 OP_PUBKEY v2 sols = Inr (if key_size v1 then Some (sols @ [v1]) else None)" by (auto simp: match_op_def)
  show "match_op o1 v1 OP_PUBKEYHASH v2 sols = Inr (if length v1 = 20 then Some (sols @ [v1]) else None)"
    by (simp add: match_op_def) (simp add: opcode)
  show "match_op o1 v1 op2 v2 sols = Inr (if o1 = op2 \<and> v1 = v2 then Some sols else None)"
    if "op2 \<in> {OP_DUP, OP_HASH160, OP_EQUALVERIFY, OP_CHECKSIG, OP_CHECKMULTISIG}"
    using template_kinds(4) [OF that] by (simp add: match_op_def)
qed

lemma match_pubkeyhash:
  assumes "length h = 20"
  shows "match_template (p2pkh h) tpl_pubkey 0 0 [] = Inr None" and "match_template (p2pkh h) tpl_pubkeyhash 0 0 [] = Inr (Some [h])"
proof -
  note ops = p2pkh_ops [OF assms]
  note k = template_kinds(4)
  show "match_template (p2pkh h) tpl_pubkey 0 0 [] = Inr None"
    by (simp add: match_next [OF template_ops(1) template_kinds(1)] ops match_op_eqs)
  have 4: "match_template (p2pkh h) tpl_pubkeyhash 24 4 [h] = Inr (Some [h])"
    by (simp add: match_next [OF template_ops(7)] k ops match_op_eqs match_end)
  have 3: "match_template (p2pkh h) tpl_pubkeyhash 23 3 [h] = Inr (Some [h])"
    by (simp add: match_next [OF template_ops(6)] k ops match_op_eqs 4)
  have 2: "match_template (p2pkh h) tpl_pubkeyhash 2 2 [] = Inr (Some [h])"
    by (simp add: match_next [OF template_ops(5) template_kinds(2)] ops match_op_eqs assms 3)
  have 1: "match_template (p2pkh h) tpl_pubkeyhash 1 1 [] = Inr (Some [h])"
    using 2 by (simp add: match_next [OF template_ops(4)] k ops(2) match_op_eqs del: One_nat_def)
  show "match_template (p2pkh h) tpl_pubkeyhash 0 0 [] = Inr (Some [h])"
    using 1 by (simp add: match_next [OF template_ops(3)] k ops(1) match_op_eqs del: One_nat_def)
qed

lemma Solver_p2pkh:
  assumes "length h = 20"
  shows "Solver (p2pkh h) t0 = Inr (True, TX_PUBKEYHASH, [h])"
proof -
  have len: "length (p2pkh h) = 25" by (rule p2pkh_ops(6) [OF assms])
  have first: "p2pkh h ! 0 = OP_DUP" by (simp add: p2pkh_def)
  have "\<not> IsPayToScriptHash (p2pkh h)" "IsAssetScript (p2pkh h) = None" "IsWitnessProgram (p2pkh h) = Inr None"
    using len first by (simp_all add: IsPayToScriptHash_def IsAssetScript_def IsWitnessProgram_def opcode)
  moreover have "p2pkh h ! 0 \<noteq> OP_RETURN" "p2pkh h ! 0 \<noteq> OP_UNEMP_ASSET" by (simp_all only: first) (simp_all add: opcode)
  ultimately show ?thesis by (simp add: Solver_def templates match_pubkeyhash [OF assms])
qed

text \<open>The destination of the script that pays to a destination is that destination, for all keys and scripts by their hashes.\<close>

theorem ExtractDestination_roundtrip:
  assumes "dest = CKeyID h \<or> dest = CScriptID h" and "length h = 20"
  shows "ExtractDestination (GetScriptForDestination dest) = Inr (Some dest)"
  using assms(1)
proof
  assume "dest = CKeyID h"
  then show ?thesis
    using Solver_p2pkh [OF assms(2)] p2pkh_forms(1) [OF assms(2)] by (simp add: ExtractDestination_def uint160_of_def assms(2))
next
  assume dest: "dest = CScriptID h"
  have s: "GetScriptForDestination dest = [OP_HASH160, 0x14] @ h @ [OP_EQUAL]"
    using assms(2) by (simp add: dest push_opcode_def push_data_def opcode)
  then have "IsPayToScriptHash (GetScriptForDestination dest)" using assms(2) by (simp add: IsPayToScriptHash_def nth_append nth_Cons')
  moreover have "take 20 (drop 2 (GetScriptForDestination dest)) = h" using assms(2) by (simp add: s)
  ultimately show ?thesis by (simp add: ExtractDestination_def Solver_def uint160_of_def assms(2)) (simp add: dest)
qed

theorem ExtractDestination_roundtrip_witness:
  "ExtractDestination (GetScriptForDestination (CScriptID (replicate 20 7))) = Inr (Some (CScriptID (replicate 20 7))) \<and>
   ExtractDestination (GetScriptForDestination (CKeyID (replicate 20 8))) = Inr (Some (CKeyID (replicate 20 8)))"
  using ExtractDestination_roundtrip [of "CScriptID (replicate 20 7)" "replicate 20 7"]
    ExtractDestination_roundtrip [of "CKeyID (replicate 20 8)" "replicate 20 8"] by simp

section \<open>Asset scripts without a key\<close>

text \<open>
  C16. The form of an asset script is not checked before the asset opcode: a script that pushes 24 bytes around a hash in place of a payment
  to the hash, followed by asset data, has the key with this hash as its destination, and yet an empty input script spends it under every
  consistent set of flags.
\<close>

theorem ExtractDestination_asset_unguarded:
  assumes "length h = 20" and "length data \<le> 520" and "s = [0x18, 1, 1] @ h @ [1, 1, OP_UNEMP_ASSET] @ data"
    and "IsAssetScript s \<noteq> None" and "flags_consistent (vc_flags C)"
  shows "ExtractDestination s = Inr (Some (CKeyID h)) \<and> VerifyScript C [] s [] = Inr ()"
proof
  obtain t own start where a: "IsAssetScript s = Some (t, own, start)" using assms(4) by (cases "IsAssetScript s") auto
  have n: "s ! 0 = 0x18" "length s = 26 + length data" using assms(1) by (simp_all add: assms(3))
  have "IsWitnessProgram s = Inr None" "\<not> IsPayToScriptHash s" using n(1) by (simp_all add: IsWitnessProgram_def IsPayToScriptHash_def opcode)
  note forms = this
  have "take 20 (drop 3 s) = h" using assms(1) by (simp add: assms(3))
  then show "ExtractDestination s = Inr (Some (CKeyID h))"
    using IsAssetScript_types [OF a] a forms(2) assms(1) by (auto simp: ExtractDestination_def Solver_def uint160_of_def)
  define env where "env = eval_with C SIGVERSION_BASE s"
  define push where "push = [1, 1] @ h @ [1, 1 :: byte]"
  have push: "length push = 24" "take 24 (drop 1 s) = push" using assms(1) by (simp_all add: push_def assms(3))
  have small: "length s < 2 ^ 32" using n(2) assms(2) by simp
  have 1: "GetOp2 s 0 = (True, 25, 0x18, push)"
    using GetOp2_direct [OF small, of 0 "0x18"] n push by (simp add: opcode)
  have "s ! 25 = OP_UNEMP_ASSET" "drop 26 s = data" using assms(1) by (simp_all add: assms(3) nth_append nth_Cons')
  then have 2: "GetOp2 s 25 = (True, length s, OP_UNEMP_ASSET, data)" using GetOp2_asset [OF small, of 25] n(2) by simp
  let ?s = "\<lambda>st n. \<lparr>es_stack = st, es_altstack = [], es_vfExec = [], es_codehash = 0, es_nOpCount = n\<rparr>"
  have s1: "eval_step env 25 0x18 push (?s [] 0) = Inr (?s [push] 0)"
    using push(1) by (intro eval_step_push) (simp_all add: opcode MAX_SCRIPT_ELEMENT_SIZE_def CheckMinimalPush_def MAX_STACK_SIZE_def)
  have "main_op env OP_UNEMP_ASSET = Some Inr" by (simp add: main_op_def opcode)
  then have s2: "eval_step env (length s) OP_UNEMP_ASSET data (?s [push] 0) = Inr (?s [push] 1)"
    using assms(2) by (subst eval_step_main)
      (simp_all add: opcode disabled_opcodes_def MAX_OPS_PER_SCRIPT_def MAX_SCRIPT_ELEMENT_SIZE_def MAX_STACK_SIZE_def)
  have env: "ev_script env = s" by (simp add: env_def)
  have l1: "EvalScript_loop env 0 (?s [] 0) = exec_bind (eval_step env 25 0x18 push (?s [] 0)) (EvalScript_loop env 25)"
    by (rule EvalScript_loop_step) (use n env 1 in simp_all)
  have l2: "EvalScript_loop env 25 (?s [push] 0) = exec_bind (eval_step env (length s) OP_UNEMP_ASSET data (?s [push] 0)) (EvalScript_loop env (length s))"
    by (rule EvalScript_loop_step) (use n env 2 in simp_all)
  have "EvalScript_loop env 0 (?s [] 0) = Inr (?s [push] 1)"
    by (simp only: l1 l2 s1 s2 exec_bind_simps) (simp add: EvalScript_loop_end env)
  then have "EvalScript env [] = Inr [push]"
    using n(2) assms(2) by (simp add: EvalScript_def env catch_all_def eval_init_def MAX_SCRIPT_SIZE_def)
  moreover have "EvalScript (eval_with C SIGVERSION_BASE []) [] = Inr []"
    by (simp add: EvalScript_def EvalScript_loop_end catch_all_def eval_init_def)
  moreover have "CastToBool push"
    by (simp add: push_def)
  moreover have "IsPushOnly []" by code_simp
  moreover have "verify_bare C [] s [] st = Inr (False, st)" for st by (simp add: verify_bare_def forms(1))
  moreover have "verify_P2SH C [] s [] copy had st = Inr (had, st)" for copy had st by (simp add: verify_P2SH_def forms(2))
  moreover have "verify_finish C [] had [x] = Inr ()" for had x using assms(5) by (auto simp: verify_finish_def flags_consistent_def)
  ultimately show "VerifyScript C [] s [] = Inr ()" unfolding VerifyScript_Inr_iff env_def by auto
qed

theorem ExtractDestination_asset_unguarded_witness:
  "(let s = [0x18, 1, 1] @ replicate 20 9 @ [1, 1, OP_UNEMP_ASSET] @ [6, UNEMP_R, UNEMP_V, UNEMP_N, UNEMP_T, 0] in
    ExtractDestination s = Inr (Some (CKeyID (replicate 20 9))) \<and> VerifyScript (sample_ctx SCRIPT_VERIFY_P2SH) [] s [] = Inr ())"
proof -
  have f: "flags_consistent (vc_flags (sample_ctx SCRIPT_VERIFY_P2SH))" by code_simp
  have "IsAssetScript ([0x18, 1, 1] @ replicate 20 9 @ [1, 1, OP_UNEMP_ASSET] @ [6, UNEMP_R, UNEMP_V, UNEMP_N, UNEMP_T, 0]) \<noteq> None" by code_simp
  from ExtractDestination_asset_unguarded [OF _ _ refl this f] show ?thesis by simp
qed

end
