(* ===== verification/Multisig.thy ===== *)
theory Multisig
  imports Interpreter "HOL-Library.Sublist"
begin

text \<open>
  What \<^verbatim>\<open>OP_CHECKMULTISIG\<close> decides. The code walks through signatures and keys once, from the top of the stack, and gives each signature
  the first key left that it fits. The specification asks for any choice of keys in the order of the signatures.
\<close>

section \<open>The specification\<close>

definition sigs_match :: "(bytes \<Rightarrow> bytes \<Rightarrow> bool) \<Rightarrow> bytes list \<Rightarrow> bytes list \<Rightarrow> bool" where
  "sigs_match ok sigs keys \<longleftrightarrow> (\<exists>ks. subseq ks keys \<and> list_all2 ok sigs ks)"

lemma sigs_match_Nil [simp]: "sigs_match ok [] keys"
  by (auto simp: sigs_match_def intro: exI [of _ "[]"])

lemma sigs_match_length: "sigs_match ok sigs keys \<Longrightarrow> length sigs \<le> length keys"
  unfolding sigs_match_def by (metis list_all2_lengthD list_emb_length)

text \<open>Taking the first key that fits loses nothing.\<close>

lemma sigs_match_Cons:
  "sigs_match ok (s # ss) (k # ks) \<longleftrightarrow> (if ok s k then sigs_match ok ss ks else sigs_match ok (s # ss) ks)"
proof (cases "ok s k")
  case True
  have "sigs_match ok ss ks" if "sigs_match ok (s # ss) (k # ks)"
  proof -
    from that obtain ks' k' where "subseq (k' # ks') (k # ks)" "list_all2 ok ss ks'" by (auto simp: sigs_match_def list_all2_Cons1)
    moreover have "subseq ks' ks" using calculation(1) by (auto split: if_splits dest: subseq_Cons')
    ultimately show ?thesis by (auto simp: sigs_match_def)
  qed
  moreover have "sigs_match ok (s # ss) (k # ks)" if match: "sigs_match ok ss ks"
  proof -
    from match obtain ks' where "subseq ks' ks" "list_all2 ok ss ks'" by (auto simp: sigs_match_def)
    with True have "subseq (k # ks') (k # ks) \<and> list_all2 ok (s # ss) (k # ks')" by simp
    then show ?thesis unfolding sigs_match_def by blast
  qed
  ultimately show ?thesis using True by auto
next
  case False
  have "sigs_match ok (s # ss) ks" if match: "sigs_match ok (s # ss) (k # ks)"
  proof -
    from match obtain ks' k' where sub: "subseq (k' # ks') (k # ks)" and all: "list_all2 ok (s # ss) (k' # ks')"
      by (auto simp: sigs_match_def list_all2_Cons1)
    with False have "k' \<noteq> k" by auto
    with sub have "subseq (k' # ks') ks" by (simp add: subseq_Cons2_neq)
    with all show ?thesis unfolding sigs_match_def by blast
  qed
  moreover have "sigs_match ok (s # ss) (k # ks)" if "sigs_match ok (s # ss) ks"
    using that by (auto simp: sigs_match_def)
  ultimately show ?thesis using False by auto
qed

section \<open>The loop\<close>

lemma stacktop_range:
  "take (Suc n) (drop (i - 1) st) = x # xs \<Longrightarrow> 1 \<le> i \<Longrightarrow> stacktop st i = Inr x"
  "take (Suc n) (drop (i - 1) st) = x # xs \<Longrightarrow> 1 \<le> i \<Longrightarrow> take n (drop i st) = xs"
proof -
  assume *: "take (Suc n) (drop (i - 1) st) = x # xs" "1 \<le> i"
  then have "drop (i - 1) st \<noteq> []" by auto
  then have "i - 1 < length st" by (simp only: drop_eq_Nil not_le)
  then have "drop (i - 1) st = st ! (i - 1) # drop i st" using Cons_nth_drop_Suc [of "i - 1" st] *(2) by simp
  then show "stacktop st i = Inr x" "take n (drop i st) = xs" using * \<open>i - 1 < length st\<close> by (simp_all add: stacktop_def)
qed

lemma multisig_loop_match:
  assumes "take (length ss) (drop (isig - 1) st) = ss" and "take (length ks) (drop (ikey - 1) st) = ks" and "1 \<le> isig" and "1 \<le> ikey"
    and "length ss \<le> length ks"
    and "\<forall>s\<in>set ss. CheckSignatureEncoding (ev_CheckLowS env) s (ev_flags env) = Inr ()"
    and "\<forall>k\<in>set ks. CheckPubKeyEncoding k (ev_flags env) (ev_sigversion env) = Inr ()"
    and "\<forall>s\<in>set ss. \<forall>k\<in>set ks. CheckSig (ev_checker env) s k code (ev_sigversion env) = Inr (ok s k)"
  shows "multisig_loop env code st isig (int (length ss)) ikey (int (length ks)) = Inr (sigs_match ok ss ks)"
  using assms
proof (induction ks arbitrary: ss isig ikey)
  case Nil
  then show ?case by (simp add: multisig_loop.simps)
next
  case (Cons k ks)
  show ?case
  proof (cases ss)
    case Nil
    then show ?thesis by (simp add: multisig_loop.simps)
  next
    case (Cons s ss')
    have key: "stacktop st ikey = Inr k" "take (length ks) (drop ikey st) = ks"
      using stacktop_range [of "length ks" ikey st k ks] Cons.prems(2,4) by simp_all
    have sig: "stacktop st isig = Inr s" "take (length ss') (drop isig st) = ss'"
      using stacktop_range [of "length ss'" isig st s ss'] Cons.prems(1,3) Cons by simp_all
    have step: "multisig_loop env code st isig (int (length ss)) ikey (int (length (k # ks))) =
      (let n = (if ok s k then int (length ss') else int (length ss))
       in if n > int (length ks) then Inr False
          else multisig_loop env code st (if ok s k then isig + 1 else isig) n (ikey + 1) (int (length ks)))"
      using Cons.prems(6-8) unfolding Cons
      by (simp add: multisig_loop.simps [of env code st isig "1 + int (length ss')" ikey "1 + int (length ks)"] key sig Let_def)
    show ?thesis
    proof (cases "ok s k")
      case True
      have "multisig_loop env code st (isig + 1) (int (length ss')) (ikey + 1) (int (length ks)) = Inr (sigs_match ok ss' ks)"
        using Cons.prems Cons by (intro Cons.IH) (simp_all add: key sig)
      moreover have "length ss' \<le> length ks" using Cons.prems(5) Cons by simp
      ultimately show ?thesis using True unfolding step by (simp add: Cons sigs_match_Cons)
    next
      case False
      show ?thesis
      proof (cases "length ss \<le> length ks")
        case True
        then have "multisig_loop env code st isig (int (length ss)) (ikey + 1) (int (length ks)) = Inr (sigs_match ok ss ks)"
          using Cons.prems by (intro Cons.IH) (simp_all add: key)
        with True False show ?thesis unfolding step by (simp add: Cons sigs_match_Cons)
      next
        case short: False
        then have "\<not> sigs_match ok ss ks" using sigs_match_length by blast
        with short False show ?thesis unfolding step by (simp add: Cons sigs_match_Cons)
      qed
    qed
  qed
qed

lemma multisig_cleanup_drop:
  assumes "n \<le> length st" and "fSuccess \<or> \<not> flag (ev_flags env) SCRIPT_VERIFY_NULLFAIL \<or> (\<forall>i<n. ikey2 \<le> i \<longrightarrow> st ! i = [])"
  shows "multisig_cleanup env fSuccess n ikey2 st = Inr (drop n st)"
  using assms
proof (induction n arbitrary: ikey2 st)
  case (Suc n)
  then obtain x xs where st: "st = x # xs" by (cases st) auto
  have "ikey2 = 0 \<Longrightarrow> x = []" if "\<not> fSuccess" "flag (ev_flags env) SCRIPT_VERIFY_NULLFAIL" using Suc.prems(2) that by (auto simp: st)
  moreover have "multisig_cleanup env fSuccess n (if ikey2 > 0 then ikey2 - 1 else ikey2) xs = Inr (drop n xs)"
  proof (rule Suc.IH)
    show "n \<le> length xs" using Suc.prems(1) st by simp
    show "fSuccess \<or> \<not> flag (ev_flags env) SCRIPT_VERIFY_NULLFAIL \<or> (\<forall>i<n. (if ikey2 > 0 then ikey2 - 1 else ikey2) \<le> i \<longrightarrow> xs ! i = [])"
      using Suc.prems(2) unfolding st by (auto simp: nth_Cons' dest: spec [of _ "Suc _"])
  qed
  ultimately show ?case by (cases fSuccess) (auto simp: st stacktop_def popstack_def)
qed simp

section \<open>The operation\<close>

lemma small_numbers: "list_all (\<lambda>n. \<forall>m\<in>{True, False}. CScriptNum (CScriptNum_serialize (int n)) m 4 = Inr (int n)) [0..<21]"
  by code_simp

lemma CScriptNum_small: "n \<le> 20 \<Longrightarrow> CScriptNum (CScriptNum_serialize (int n)) m nDefaultMaxNumSize = Inr (int n)"
  using small_numbers by (cases m) (auto simp: list_all_iff nDefaultMaxNumSize_def)

text \<open>
  C11. \<^verbatim>\<open>OP_CHECKMULTISIG\<close> with \<open>m\<close> signatures and \<open>n\<close> keys on the stack removes them and the extra element and pushes true exactly if some
  \<open>m\<close> of the keys, in their order, fit the signatures; for encodings that pass the checks, and where the flags against malleability hold.
\<close>

theorem CHECKMULTISIG_matches:
  assumes "length keys \<le> 20" and "length sigs \<le> length keys" and "nOpCount + int (length keys) \<le> MAX_OPS_PER_SCRIPT"
    and "\<forall>s\<in>set sigs. CheckSignatureEncoding (ev_CheckLowS env) s (ev_flags env) = Inr ()"
    and "\<forall>k\<in>set keys. CheckPubKeyEncoding k (ev_flags env) (ev_sigversion env) = Inr ()"
    and "\<forall>s\<in>set sigs. \<forall>k\<in>set keys. CheckSig (ev_checker env) s k (script_code env codehash sigs) (ev_sigversion env) = Inr (ok s k)"
    and "flag (ev_flags env) SCRIPT_VERIFY_NULLFAIL \<longrightarrow> sigs_match ok sigs keys \<or> (\<forall>s\<in>set sigs. s = [])"
    and "flag (ev_flags env) SCRIPT_VERIFY_NULLDUMMY \<longrightarrow> dummy = []"
  shows "op_CHECKMULTISIG env OP_CHECKMULTISIG codehash nOpCount
      (CScriptNum_serialize (int (length keys)) # keys @ CScriptNum_serialize (int (length sigs)) # sigs @ dummy # rest) =
    Inr (nOpCount + int (length keys), (if sigs_match ok sigs keys then vchTrue else vchFalse) # rest)"
proof -
  define n m where "n = length keys" and "m = length sigs"
  define st where "st = CScriptNum_serialize (int n) # keys @ CScriptNum_serialize (int m) # sigs @ dummy # rest"
  have len: "length st = 3 + n + m + length rest" by (simp add: st_def n_def m_def)
  have top: "stacktop st 1 = Inr (CScriptNum_serialize (int n))" "stacktop st (2 + n) = Inr (CScriptNum_serialize (int m))"
    by (simp_all add: stacktop_def st_def n_def nth_append nth_Cons')
  have sigs: "take m (drop (3 + n - 1) st) = sigs" and keys: "take n (drop (2 - 1) st) = keys"
    by (simp_all add: st_def n_def m_def)
  have range: "stack_range st (3 + n) m = Inr sigs"
  proof -
    have "stack_range st i k = Inr (take k (drop (i - 1) st))" if "1 \<le> i" "i + k \<le> length st + 1" for i k
      using that
    proof (induction k arbitrary: i)
      case (Suc k)
      then have "drop (i - 1) st = st ! (i - 1) # drop i st" using Cons_nth_drop_Suc [of "i - 1" st] by simp
      with Suc show ?case by (simp add: stacktop_def)
    qed simp
    then show ?thesis using sigs len by simp
  qed
  have loop: "multisig_loop env (script_code env codehash sigs) st (3 + n) (int m) 2 (int n) = Inr (sigs_match ok sigs keys)"
    using multisig_loop_match [of sigs "3 + n" st keys 2 env "script_code env codehash sigs" ok] sigs keys assms(2,4-6) by (simp add: n_def m_def)
  have cleanup: "multisig_cleanup env (sigs_match ok sigs keys) (2 + n + m) (n + 2) st = Inr (dummy # rest)"
  proof -
    have "st ! i = []" if "i < 2 + n + m" "n + 2 \<le> i" "\<forall>s\<in>set sigs. s = []" for i
    proof -
      have "st ! i = sigs ! (i - (n + 2))" using that(1,2) by (auto simp: st_def n_def m_def nth_append nth_Cons')
      then show ?thesis using that by (auto simp: m_def)
    qed
    then have "multisig_cleanup env (sigs_match ok sigs keys) (2 + n + m) (n + 2) st = Inr (drop (2 + n + m) st)"
      using assms(7) len by (intro multisig_cleanup_drop) auto
    then show ?thesis by (simp add: st_def n_def m_def)
  qed
  have finish: "multisig_finish env OP_CHECKMULTISIG (sigs_match ok sigs keys) (2 + n + m) (n + 2) st =
      Inr ((if sigs_match ok sigs keys then vchTrue else vchFalse) # rest)"
    using assms(8) unfolding multisig_finish_def cleanup by (auto simp: need_def stacktop_def popstack_def opcode)
  have "multisig_verify env OP_CHECKMULTISIG codehash (3 + n) (int m) 2 (int n) (n + 2) st =
      Inr ((if sigs_match ok sigs keys then vchTrue else vchFalse) # rest)"
    using finish by (simp add: multisig_verify_def need_def len range loop)
  then have "multisig_verify env OP_CHECKMULTISIG codehash (Suc (Suc (Suc n))) (int m) (Suc (Suc 0)) (int n) (Suc (Suc n)) st =
      Inr ((if sigs_match ok sigs keys then vchTrue else vchFalse) # rest)"
    by (simp add: numeral_eq_Suc)
  moreover have "CScriptNum_getint (int k) = int k" if "k \<le> 20" for k using that by (simp add: CScriptNum_getint_def)
  ultimately show ?thesis
    using assms(1-3) top len CScriptNum_small [of n] CScriptNum_small [of m] unfolding st_def [symmetric] n_def [symmetric] m_def [symmetric]
    by (simp add: op_CHECKMULTISIG_def need_def MAX_PUBKEYS_PER_MULTISIG_def Let_def)
qed

definition multisig_sample :: eval_env where
  "multisig_sample =
    \<lparr>ev_script = [OP_CHECKMULTISIG], ev_flags = 0, ev_checker = base_checker\<lparr>CheckSig := \<lambda>sig key code v. Inr (sig = key)\<rparr>,
     ev_sigversion = SIGVERSION_WITNESS_V0, ev_CheckLowS = \<lambda>_. True\<rparr>"

theorem CHECKMULTISIG_matches_witness:
  "op_CHECKMULTISIG multisig_sample OP_CHECKMULTISIG 0 1 [[3], [5], [6], [7], [2], [5], [7], [], [9]] = Inr (4, [[1], [9]])"
proof -
  have f: "ev_flags multisig_sample = 0" "ev_checker multisig_sample = base_checker\<lparr>CheckSig := \<lambda>sig key code v. Inr (sig = key)\<rparr>"
    by (simp_all add: multisig_sample_def)
  have nums: "CScriptNum_serialize 3 = [3]" "CScriptNum_serialize 2 = [2]" by code_simp+
  have "subseq [[5], [7]] [[5], [6], [7 :: byte]]" by simp
  then have match: "sigs_match (=) [[5], [7]] [[5], [6], [7]]"
    unfolding sigs_match_def by (intro exI [of _ "[[5], [7]]"]) simp
  have "op_CHECKMULTISIG multisig_sample OP_CHECKMULTISIG 0 1
      (CScriptNum_serialize (int (length [[5], [6], [7 :: byte]])) # [[5], [6], [7]] @ CScriptNum_serialize (int (length [[5], [7 :: byte]])) # [[5], [7]] @ [] # [[9]]) =
    Inr (1 + int (length [[5], [6], [7 :: byte]]), (if sigs_match (=) [[5], [7]] [[5], [6], [7]] then vchTrue else vchFalse) # [[9]])"
    by (rule CHECKMULTISIG_matches) (simp_all add: f match MAX_OPS_PER_SCRIPT_def CheckSignatureEncoding_def CheckPubKeyEncoding_def flag_def)
  then show ?thesis by (simp add: nums match vchTrue_def)
qed

end
