(* ===== verification/Sha512.thy ===== *)
theory Sha512
  imports Md_Hash
begin

text \<open>
  SHA-512: \<^verbatim>\<open>src/crypto/sha512.cpp\<close>, and \<^verbatim>\<open>hmac_sha512.cpp\<close>, which derives the keys of a wallet. The transformation is written
  out like that of SHA-256, with 64-bit words and five groups of sixteen rounds. The references are FIPS 180-4 and RFC 2104. The code
  counts bytes in 64 bits and writes the upper half of the 128-bit length as zero; the padding below does the same.
\<close>

section \<open>The transformation\<close>

type_synonym sha512_regs = "u64 \<times> u64 \<times> u64 \<times> u64 \<times> u64 \<times> u64 \<times> u64 \<times> u64"

definition ReadBE64 :: "bytes \<Rightarrow> u64" where "ReadBE64 ptr = be_word (take 8 ptr)"

definition sha512_Ch :: "u64 \<Rightarrow> u64 \<Rightarrow> u64 \<Rightarrow> u64" where "sha512_Ch x y z = z XOR (x AND (y XOR z))"
definition sha512_Maj :: "u64 \<Rightarrow> u64 \<Rightarrow> u64 \<Rightarrow> u64" where "sha512_Maj x y z = (x AND y) OR (z AND (x OR y))"

definition sha512_Sigma0 :: "u64 \<Rightarrow> u64" where
  "sha512_Sigma0 x = (drop_bit 28 x OR push_bit 36 x) XOR (drop_bit 34 x OR push_bit 30 x) XOR (drop_bit 39 x OR push_bit 25 x)"
definition sha512_Sigma1 :: "u64 \<Rightarrow> u64" where
  "sha512_Sigma1 x = (drop_bit 14 x OR push_bit 50 x) XOR (drop_bit 18 x OR push_bit 46 x) XOR (drop_bit 41 x OR push_bit 23 x)"
definition sha512_sigma0 :: "u64 \<Rightarrow> u64" where
  "sha512_sigma0 x = (drop_bit 1 x OR push_bit 63 x) XOR (drop_bit 8 x OR push_bit 56 x) XOR drop_bit 7 x"
definition sha512_sigma1 :: "u64 \<Rightarrow> u64" where
  "sha512_sigma1 x = (drop_bit 19 x OR push_bit 45 x) XOR (drop_bit 61 x OR push_bit 3 x) XOR drop_bit 6 x"

text \<open>The new values of the two registers that a round assigns, \<^verbatim>\<open>d\<close> and \<^verbatim>\<open>h\<close>.\<close>

definition sha512_Round ::
  "u64 \<Rightarrow> u64 \<Rightarrow> u64 \<Rightarrow> u64 \<Rightarrow> u64 \<Rightarrow> u64 \<Rightarrow> u64 \<Rightarrow> u64 \<Rightarrow> u64 \<Rightarrow> u64 \<Rightarrow> u64 \<times> u64" where
  "sha512_Round a b c d e f g h k w =
    (let t1 = h + sha512_Sigma1 e + sha512_Ch e f g + k + w;
         t2 = sha512_Sigma0 a + sha512_Maj a b c
     in (d + t1, t1 + t2))"

definition sha512_Initialize :: "u64 list" where
  "sha512_Initialize =
    [0x6a09e667f3bcc908, 0xbb67ae8584caa73b, 0x3c6ef372fe94f82b, 0xa54ff53a5f1d36f1,
     0x510e527fade682d1, 0x9b05688c2b3e6c1f, 0x1f83d9abfb41bd6b, 0x5be0cd19137e2179]"

text \<open>The constants in the order of the rounds; the names of the registers come back to their places after every eight rounds.\<close>

definition sha512_K :: "u64 list" where
  "sha512_K = concat
    [[0x428a2f98d728ae22, 0x7137449123ef65cd, 0xb5c0fbcfec4d3b2f, 0xe9b5dba58189dbbc,
      0x3956c25bf348b538, 0x59f111f1b605d019, 0x923f82a4af194f9b, 0xab1c5ed5da6d8118],
     [0xd807aa98a3030242, 0x12835b0145706fbe, 0x243185be4ee4b28c, 0x550c7dc3d5ffb4e2,
      0x72be5d74f27b896f, 0x80deb1fe3b1696b1, 0x9bdc06a725c71235, 0xc19bf174cf692694],
     [0xe49b69c19ef14ad2, 0xefbe4786384f25e3, 0x0fc19dc68b8cd5b5, 0x240ca1cc77ac9c65,
      0x2de92c6f592b0275, 0x4a7484aa6ea6e483, 0x5cb0a9dcbd41fbd4, 0x76f988da831153b5],
     [0x983e5152ee66dfab, 0xa831c66d2db43210, 0xb00327c898fb213f, 0xbf597fc7beef0ee4,
      0xc6e00bf33da88fc2, 0xd5a79147930aa725, 0x06ca6351e003826f, 0x142929670a0e6e70],
     [0x27b70a8546d22ffc, 0x2e1b21385c26c926, 0x4d2c6dfc5ac42aed, 0x53380d139d95b3df,
      0x650a73548baf63de, 0x766a0abb3c77b2a8, 0x81c2c92e47edaee6, 0x92722c851482353b],
     [0xa2bfe8a14cf10364, 0xa81a664bbc423001, 0xc24b8b70d0f89791, 0xc76c51a30654be30,
      0xd192e819d6ef5218, 0xd69906245565a910, 0xf40e35855771202a, 0x106aa07032bbd1b8],
     [0x19a4c116b8d2d0c8, 0x1e376c085141ab53, 0x2748774cdf8eeb99, 0x34b0bcb5e19b48a8,
      0x391c0cb3c5c95a63, 0x4ed8aa4ae3418acb, 0x5b9cca4f7763e373, 0x682e6ff3d6b2b8a3],
     [0x748f82ee5defb2fc, 0x78a5636f43172f60, 0x84c87814a1f0ab72, 0x8cc702081a6439ec,
      0x90befffa23631e28, 0xa4506cebde82bde9, 0xbef9a3f7b2c67915, 0xc67178f2e372532b],
     [0xca273eceea26619c, 0xd186b8c721c0c207, 0xeada7dd6cde0eb1e, 0xf57d4f7fee6ed178,
      0x06f067aa72176fba, 0x0a637dc5a2c898a6, 0x113f9804bef90dae, 0x1b710b35131c471b],
     [0x28db77f523047d84, 0x32caab7b40c72493, 0x3c9ebe0a15c9bebc, 0x431d67c49c100d4c,
      0x4cc5d4becb3e42b6, 0x597f299cfc657e2a, 0x5fcb6fab3ad6faec, 0x6c44198c4a475817]]"

definition sha512_rounds_0 :: "bytes \<Rightarrow> sha512_regs \<Rightarrow> sha512_regs \<times> u64 list" where
  "sha512_rounds_0 blk = (\<lambda>(a, b, c, d, e, f, g, h).
    let
      w0 = ReadBE64 (drop 0 blk);
      (d, h) = sha512_Round a b c d e f g h 0x428a2f98d728ae22 w0;
      w1 = ReadBE64 (drop 8 blk);
      (c, g) = sha512_Round h a b c d e f g 0x7137449123ef65cd w1;
      w2 = ReadBE64 (drop 16 blk);
      (b, f) = sha512_Round g h a b c d e f 0xb5c0fbcfec4d3b2f w2;
      w3 = ReadBE64 (drop 24 blk);
      (a, e) = sha512_Round f g h a b c d e 0xe9b5dba58189dbbc w3;
      w4 = ReadBE64 (drop 32 blk);
      (h, d) = sha512_Round e f g h a b c d 0x3956c25bf348b538 w4;
      w5 = ReadBE64 (drop 40 blk);
      (g, c) = sha512_Round d e f g h a b c 0x59f111f1b605d019 w5;
      w6 = ReadBE64 (drop 48 blk);
      (f, b) = sha512_Round c d e f g h a b 0x923f82a4af194f9b w6;
      w7 = ReadBE64 (drop 56 blk);
      (e, a) = sha512_Round b c d e f g h a 0xab1c5ed5da6d8118 w7;
      w8 = ReadBE64 (drop 64 blk);
      (d, h) = sha512_Round a b c d e f g h 0xd807aa98a3030242 w8;
      w9 = ReadBE64 (drop 72 blk);
      (c, g) = sha512_Round h a b c d e f g 0x12835b0145706fbe w9;
      w10 = ReadBE64 (drop 80 blk);
      (b, f) = sha512_Round g h a b c d e f 0x243185be4ee4b28c w10;
      w11 = ReadBE64 (drop 88 blk);
      (a, e) = sha512_Round f g h a b c d e 0x550c7dc3d5ffb4e2 w11;
      w12 = ReadBE64 (drop 96 blk);
      (h, d) = sha512_Round e f g h a b c d 0x72be5d74f27b896f w12;
      w13 = ReadBE64 (drop 104 blk);
      (g, c) = sha512_Round d e f g h a b c 0x80deb1fe3b1696b1 w13;
      w14 = ReadBE64 (drop 112 blk);
      (f, b) = sha512_Round c d e f g h a b 0x9bdc06a725c71235 w14;
      w15 = ReadBE64 (drop 120 blk);
      (e, a) = sha512_Round b c d e f g h a 0xc19bf174cf692694 w15
    in ((a, b, c, d, e, f, g, h), [w0, w1, w2, w3, w4, w5, w6, w7, w8, w9, w10, w11, w12, w13, w14, w15]))"

definition sha512_rounds :: "u64 list \<Rightarrow> sha512_regs \<times> u64 list \<Rightarrow> sha512_regs \<times> u64 list" where
  "sha512_rounds ks = (\<lambda>((a, b, c, d, e, f, g, h), w).
    let
      w0 = w ! 0; w1 = w ! 1; w2 = w ! 2; w3 = w ! 3; w4 = w ! 4; w5 = w ! 5; w6 = w ! 6; w7 = w ! 7;
      w8 = w ! 8; w9 = w ! 9; w10 = w ! 10; w11 = w ! 11; w12 = w ! 12; w13 = w ! 13; w14 = w ! 14; w15 = w ! 15;
      w0 = w0 + (sha512_sigma1 w14 + w9 + sha512_sigma0 w1);
      (d, h) = sha512_Round a b c d e f g h (ks ! 0) w0;
      w1 = w1 + (sha512_sigma1 w15 + w10 + sha512_sigma0 w2);
      (c, g) = sha512_Round h a b c d e f g (ks ! 1) w1;
      w2 = w2 + (sha512_sigma1 w0 + w11 + sha512_sigma0 w3);
      (b, f) = sha512_Round g h a b c d e f (ks ! 2) w2;
      w3 = w3 + (sha512_sigma1 w1 + w12 + sha512_sigma0 w4);
      (a, e) = sha512_Round f g h a b c d e (ks ! 3) w3;
      w4 = w4 + (sha512_sigma1 w2 + w13 + sha512_sigma0 w5);
      (h, d) = sha512_Round e f g h a b c d (ks ! 4) w4;
      w5 = w5 + (sha512_sigma1 w3 + w14 + sha512_sigma0 w6);
      (g, c) = sha512_Round d e f g h a b c (ks ! 5) w5;
      w6 = w6 + (sha512_sigma1 w4 + w15 + sha512_sigma0 w7);
      (f, b) = sha512_Round c d e f g h a b (ks ! 6) w6;
      w7 = w7 + (sha512_sigma1 w5 + w0 + sha512_sigma0 w8);
      (e, a) = sha512_Round b c d e f g h a (ks ! 7) w7;
      w8 = w8 + (sha512_sigma1 w6 + w1 + sha512_sigma0 w9);
      (d, h) = sha512_Round a b c d e f g h (ks ! 8) w8;
      w9 = w9 + (sha512_sigma1 w7 + w2 + sha512_sigma0 w10);
      (c, g) = sha512_Round h a b c d e f g (ks ! 9) w9;
      w10 = w10 + (sha512_sigma1 w8 + w3 + sha512_sigma0 w11);
      (b, f) = sha512_Round g h a b c d e f (ks ! 10) w10;
      w11 = w11 + (sha512_sigma1 w9 + w4 + sha512_sigma0 w12);
      (a, e) = sha512_Round f g h a b c d e (ks ! 11) w11;
      w12 = w12 + (sha512_sigma1 w10 + w5 + sha512_sigma0 w13);
      (h, d) = sha512_Round e f g h a b c d (ks ! 12) w12;
      w13 = w13 + (sha512_sigma1 w11 + w6 + sha512_sigma0 w14);
      (g, c) = sha512_Round d e f g h a b c (ks ! 13) w13;
      w14 = w14 + (sha512_sigma1 w12 + w7 + sha512_sigma0 w15);
      (f, b) = sha512_Round c d e f g h a b (ks ! 14) w14;
      w15 = w15 + (sha512_sigma1 w13 + w8 + sha512_sigma0 w0);
      (e, a) = sha512_Round b c d e f g h a (ks ! 15) w15
    in ((a, b, c, d, e, f, g, h), [w0, w1, w2, w3, w4, w5, w6, w7, w8, w9, w10, w11, w12, w13, w14, w15]))"

definition sha512_Transform :: "u64 list \<Rightarrow> bytes \<Rightarrow> u64 list" where
  "sha512_Transform s blk =
    (let st = sha512_rounds_0 blk (s ! 0, s ! 1, s ! 2, s ! 3, s ! 4, s ! 5, s ! 6, s ! 7);
         st = sha512_rounds (take 16 (drop 16 sha512_K)) st;
         st = sha512_rounds (take 16 (drop 32 sha512_K)) st;
         st = sha512_rounds (take 16 (drop 48 sha512_K)) st;
         ((a, b, c, d, e, f, g, h), _) = sha512_rounds (take 16 (drop 64 sha512_K)) st
     in [s ! 0 + a, s ! 1 + b, s ! 2 + c, s ! 3 + d, s ! 4 + e, s ! 5 + f, s ! 6 + g, s ! 7 + h])"

section \<open>The hasher\<close>

definition CSHA512_new :: "bytes \<Rightarrow> u64 hasher" where "CSHA512_new buf = hasher_new sha512_Initialize buf"

definition CSHA512_Write :: "u64 hasher \<Rightarrow> bytes \<Rightarrow> u64 hasher" where
  "CSHA512_Write h data = hasher_Write 128 sha512_Transform h data"

definition CSHA512_Finalize :: "u64 hasher \<Rightarrow> u64 hasher \<times> bytes" where
  "CSHA512_Finalize h =
    (let pad = 0x80 # replicate 127 0;
         sizedesc = replicate 8 0 @ WriteBE64 (push_bit 3 (hs_bytes h));
         h = CSHA512_Write h (take (1 + (239 - unat (hs_bytes h) mod 128) mod 128) pad);
         h = CSHA512_Write h sizedesc
     in (h, concat (map (\<lambda>i. WriteBE64 (hs_s h ! i)) [0..<8])))"

definition CSHA512_Reset :: "u64 hasher \<Rightarrow> u64 hasher" where
  "CSHA512_Reset h = hasher_Reset sha512_Initialize h"

section \<open>HMAC\<close>

record CHMAC_SHA512 =
  hmac_outer :: "u64 hasher"
  hmac_inner :: "u64 hasher"

text \<open>The arguments \<open>b1\<close> to \<open>b3\<close> are what the buffers of the new hashers hold before their first use.\<close>

definition CHMAC_SHA512_new :: "bytes \<Rightarrow> bytes \<Rightarrow> bytes \<Rightarrow> bytes \<Rightarrow> CHMAC_SHA512" where
  "CHMAC_SHA512_new b1 b2 b3 key =
    (let rkey = (if length key \<le> 128 then key @ replicate (128 - length key) 0
                 else snd (CSHA512_Finalize (CSHA512_Write (CSHA512_new b1) key)) @ replicate 64 0);
         rkey = map (\<lambda>x. x XOR 0x5c) rkey;
         outer = CSHA512_Write (CSHA512_new b2) rkey;
         rkey = map (\<lambda>x. x XOR (0x5c XOR 0x36)) rkey;
         inner = CSHA512_Write (CSHA512_new b3) rkey
     in \<lparr>hmac_outer = outer, hmac_inner = inner\<rparr>)"

definition CHMAC_SHA512_Write :: "CHMAC_SHA512 \<Rightarrow> bytes \<Rightarrow> CHMAC_SHA512" where
  "CHMAC_SHA512_Write hm data = hm\<lparr>hmac_inner := CSHA512_Write (hmac_inner hm) data\<rparr>"

definition CHMAC_SHA512_Finalize :: "CHMAC_SHA512 \<Rightarrow> bytes" where
  "CHMAC_SHA512_Finalize hm =
    (let (inner, temp) = CSHA512_Finalize (hmac_inner hm)
     in snd (CSHA512_Finalize (CSHA512_Write (hmac_outer hm) temp)))"

section \<open>FIPS 180-4 and RFC 2104\<close>

definition fips512_round :: "u64 \<Rightarrow> u64 \<Rightarrow> sha512_regs \<Rightarrow> sha512_regs" where
  "fips512_round k w = (\<lambda>(a, b, c, d, e, f, g, h).
    let T1 = h + (word_rotr 14 e XOR word_rotr 18 e XOR word_rotr 41 e) + ((e AND f) XOR (NOT e AND g)) + k + w;
        T2 = (word_rotr 28 a XOR word_rotr 34 a XOR word_rotr 39 a) + ((a AND b) XOR (a AND c) XOR (b AND c))
    in (T1 + T2, a, b, c, d + T1, e, f, g))"

fun fips512_W :: "(nat \<Rightarrow> u64) \<Rightarrow> nat \<Rightarrow> u64" where
  "fips512_W M t =
    (if t < 16 then M t
     else (word_rotr 19 (fips512_W M (t - 2)) XOR word_rotr 61 (fips512_W M (t - 2)) XOR drop_bit 6 (fips512_W M (t - 2)))
       + fips512_W M (t - 7)
       + (word_rotr 1 (fips512_W M (t - 15)) XOR word_rotr 8 (fips512_W M (t - 15)) XOR drop_bit 7 (fips512_W M (t - 15)))
       + fips512_W M (t - 16))"

declare fips512_W.simps [simp del]

definition block_word64 :: "bytes \<Rightarrow> nat \<Rightarrow> u64" where
  "block_word64 blk t = be_word (take 8 (drop (8 * t) blk))"

definition fips512_compress :: "bytes \<Rightarrow> u64 list \<Rightarrow> u64 list" where
  "fips512_compress blk H =
    (let (a, b, c, d, e, f, g, h) =
           fold (\<lambda>t. fips512_round (sha512_K ! t) (fips512_W (block_word64 blk) t)) [0..<80]
             (H ! 0, H ! 1, H ! 2, H ! 3, H ! 4, H ! 5, H ! 6, H ! 7)
     in [a + H ! 0, b + H ! 1, c + H ! 2, d + H ! 3, e + H ! 4, f + H ! 5, g + H ! 6, h + H ! 7])"

definition fips512_pad :: "bytes \<Rightarrow> bytes" where
  "fips512_pad m = m @ pad_bytes 128 16 (length m) @ replicate 8 0 @ be_bytes 8 (of_nat (8 * length m) :: u64)"

definition fips_sha512 :: "bytes \<Rightarrow> bytes" where
  "fips_sha512 m = concat (map (be_bytes 8) (absorb_blocks 128 fips512_compress (fips512_pad m) sha512_Initialize))"

text \<open>The key of the length of a block, and the two hashes.\<close>

definition rfc_hmac :: "(bytes \<Rightarrow> bytes) \<Rightarrow> nat \<Rightarrow> bytes \<Rightarrow> bytes \<Rightarrow> bytes" where
  "rfc_hmac H B K text =
    (let K0 = (if length K \<le> B then K else H K); K0 = K0 @ replicate (B - length K0) 0
     in H (map (\<lambda>x. x XOR 0x5c) K0 @ H (map (\<lambda>x. x XOR 0x36) K0 @ text)))"

section \<open>The transformation is the compression function\<close>

lemma rotr64: "0 < n \<Longrightarrow> n < 64 \<Longrightarrow> drop_bit n x OR push_bit (64 - n) x = word_rotr n (x :: u64)"
  using SPH_ROTR_conv(2) [of n x] by (simp add: SPH_ROTR64_def SPH_ROTL64_def or.commute)

lemma sha512_Sigma_fips:
  "sha512_Sigma0 x = word_rotr 28 x XOR word_rotr 34 x XOR word_rotr 39 x"
  "sha512_Sigma1 x = word_rotr 14 x XOR word_rotr 18 x XOR word_rotr 41 x"
  "sha512_sigma0 x = word_rotr 1 x XOR word_rotr 8 x XOR drop_bit 7 x"
  "sha512_sigma1 x = word_rotr 19 x XOR word_rotr 61 x XOR drop_bit 6 x"
  using rotr64 [of 28 x] rotr64 [of 34 x] rotr64 [of 39 x] rotr64 [of 14 x] rotr64 [of 18 x] rotr64 [of 41 x]
    rotr64 [of 1 x] rotr64 [of 8 x] rotr64 [of 19 x] rotr64 [of 61 x]
  by (simp_all add: sha512_Sigma0_def sha512_Sigma1_def sha512_sigma0_def sha512_sigma1_def)

lemma sha512_Ch_fips: "sha512_Ch x y z = (x AND y) XOR (NOT x AND z)"
  by (rule word_bits_eqI) (auto simp: sha512_Ch_def bit_and_iff bit_xor_iff bit_not_iff)

lemma sha512_Maj_fips: "sha512_Maj x y z = (x AND y) XOR (x AND z) XOR (y AND z)"
  by (rule word_bits_eqI) (auto simp: sha512_Maj_def bit_and_iff bit_or_iff bit_xor_iff)

lemma round512_eqI:
  assumes "\<And>d' h'. fips512_round k w (a, b, c, d, e, f, g, h) = (h', a, b, c, d', e, f, g) \<Longrightarrow> F d' h' = Z"
  shows "(let (d', h') = sha512_Round a b c d e f g h k w in F d' h') = Z"
  using assms by (simp add: sha512_Round_def fips512_round_def Let_def sha512_Sigma_fips sha512_Ch_fips sha512_Maj_fips)

lemma sha512_rounds_run:
  assumes g: "\<And>i. i < 16 \<Longrightarrow> g (i + 16) = g i + (sha512_sigma1 (g (i + 14)) + g (i + 9) + sha512_sigma0 (g (i + 1)))"
  shows "sha512_rounds ks (st, map g [0..<16]) =
    (fold (\<lambda>i. fips512_round (ks ! i) (g (i + 16))) [0..<16] st, map g [16..<32])"
proof -
  obtain a b c d e f' g' h where st: "st = (a, b, c, d, e, f', g', h)" by (metis surj_pair)
  note One_nat_def [simp del]
  note num = add_0 one_plus_numeral numeral_plus_numeral add_num_simps numeral_less_iff zero_less_numeral one_less_numeral_iff
    less_num_simps le_num_simps simp_thms True_implies_equals one_add_one numeral_plus_one
  note r =
    g [of 0, simplified num, symmetric] g [of 1, simplified num, symmetric] g [of 2, simplified num, symmetric]
    g [of 3, simplified num, symmetric] g [of 4, simplified num, symmetric] g [of 5, simplified num, symmetric]
    g [of 6, simplified num, symmetric] g [of 7, simplified num, symmetric] g [of 8, simplified num, symmetric]
    g [of 9, simplified num, symmetric] g [of 10, simplified num, symmetric] g [of 11, simplified num, symmetric]
    g [of 12, simplified num, symmetric] g [of 13, simplified num, symmetric] g [of 14, simplified num, symmetric]
    g [of 15, simplified num, symmetric]
  show ?thesis
    unfolding st fold16 upt16 upt16_32 list.map sha512_rounds_def prod.case
    by (((rule let_eqI, rule nth16 r) | rule round512_eqI)+, simp)
qed

lemma sha512_rounds_0_run:
  "sha512_rounds_0 blk st =
    (fold (\<lambda>i. fips512_round (sha512_K ! i) (block_word64 blk i)) [0..<16] st, map (block_word64 blk) [0..<16])"
proof -
  obtain a b c d e f g h where st: "st = (a, b, c, d, e, f, g, h)" by (metis surj_pair)
  have K: "sha512_K ! 0 = 0x428a2f98d728ae22" "sha512_K ! 1 = 0x7137449123ef65cd" "sha512_K ! 2 = 0xb5c0fbcfec4d3b2f" "sha512_K ! 3 = 0xe9b5dba58189dbbc"
    "sha512_K ! 4 = 0x3956c25bf348b538" "sha512_K ! 5 = 0x59f111f1b605d019" "sha512_K ! 6 = 0x923f82a4af194f9b" "sha512_K ! 7 = 0xab1c5ed5da6d8118"
    "sha512_K ! 8 = 0xd807aa98a3030242" "sha512_K ! 9 = 0x12835b0145706fbe" "sha512_K ! 10 = 0x243185be4ee4b28c" "sha512_K ! 11 = 0x550c7dc3d5ffb4e2"
    "sha512_K ! 12 = 0x72be5d74f27b896f" "sha512_K ! 13 = 0x80deb1fe3b1696b1" "sha512_K ! 14 = 0x9bdc06a725c71235" "sha512_K ! 15 = 0xc19bf174cf692694"
    by (simp_all add: sha512_K_def)
  have r: "ReadBE64 (drop n blk) = block_word64 blk (n div 8)" if "n mod 8 = 0" for n
    using mult_div_mod_eq [of 8 n] that by (simp add: block_word64_def ReadBE64_def)
  note One_nat_def [simp del]
  note rs =
    r [of 0, simplified] r [of 8, simplified] r [of 16, simplified] r [of 24, simplified]
    r [of 32, simplified] r [of 40, simplified] r [of 48, simplified] r [of 56, simplified]
    r [of 64, simplified] r [of 72, simplified] r [of 80, simplified] r [of 88, simplified]
    r [of 96, simplified] r [of 104, simplified] r [of 112, simplified] r [of 120, simplified]
  show ?thesis
    unfolding st fold16 upt16 list.map sha512_rounds_0_def prod.case drop_0
    by (((rule let_eqI, rule rs) | rule round512_eqI)+, simp add: K)
qed

lemma fips512_W_next:
  "fips512_W M (n + 16) =
    fips512_W M n + (sha512_sigma1 (fips512_W M (n + 14)) + fips512_W M (n + 9) + sha512_sigma0 (fips512_W M (n + 1)))"
  by (subst fips512_W.simps) (simp add: sha512_Sigma_fips ac_simps)

lemma sha512_group:
  assumes "n + 32 \<le> 80"
  shows "sha512_rounds (take 16 (drop (n + 16) sha512_K)) (st, map (\<lambda>i. fips512_W M (n + i)) [0..<16]) =
    (fold (\<lambda>t. fips512_round (sha512_K ! t) (fips512_W M t)) [n + 16..<n + 32] st,
     map (\<lambda>i. fips512_W M (n + 16 + i)) [0..<16])"
proof -
  have K: "take 16 (drop (n + 16) sha512_K) ! i = sha512_K ! (n + 16 + i)" if "i < 16" for i
    using that assms by (simp add: sha512_K_def)
  have "sha512_rounds (take 16 (drop (n + 16) sha512_K)) (st, map (\<lambda>i. fips512_W M (n + i)) [0..<16]) =
    (fold (\<lambda>i. fips512_round (take 16 (drop (n + 16) sha512_K) ! i) (fips512_W M (n + (i + 16)))) [0..<16] st,
     map (\<lambda>i. fips512_W M (n + i)) [16..<32])"
    by (rule sha512_rounds_run) (use fips512_W_next [of M "n + _"] in \<open>simp add: ac_simps\<close>)
  also have "map (\<lambda>i. fips512_W M (n + i)) [16..<32] = map (\<lambda>i. fips512_W M (n + 16 + i)) [0..<16]"
    by (simp add: upt16 upt16_32 ac_simps)
  also have "fold (\<lambda>i. fips512_round (take 16 (drop (n + 16) sha512_K) ! i) (fips512_W M (n + (i + 16)))) [0..<16] st =
    fold (\<lambda>t. fips512_round (sha512_K ! t) (fips512_W M t)) [n + 16..<n + 16 + 16] st"
    unfolding fold_upt_shift by (intro fold_cong) (simp_all add: K ac_simps del: nth_take)
  finally show ?thesis by (simp add: ac_simps)
qed

lemma sha512_Transform_fips: "sha512_Transform s blk = fips512_compress blk s"
proof -
  define M where "M = block_word64 blk"
  define F where "F = (\<lambda>t. fips512_round (sha512_K ! t) (fips512_W M t))"
  define st where "st = (s ! 0, s ! 1, s ! 2, s ! 3, s ! 4, s ! 5, s ! 6, s ! 7)"
  have W0: "fips512_W M i = M i" if "i < 16" for i using that by (simp add: fips512_W.simps)
  have g0: "sha512_rounds_0 blk st = (fold F [0..<16] st, map (\<lambda>i. fips512_W M (0 + i)) [0..<16])"
    unfolding sha512_rounds_0_run F_def by (intro arg_cong2 [where f = Pair] fold_cong) (simp_all add: M_def [symmetric] W0)
  note num = add_0 numeral_plus_numeral add_num_simps Num.numeral_le_iff le_num_simps less_num_simps simp_thms True_implies_equals
  note G = sha512_group [of _ _ M, folded F_def]
  have g1: "sha512_rounds (take 16 (drop 16 sha512_K)) (x, map (\<lambda>i. fips512_W M (0 + i)) [0..<16]) =
      (fold F [16..<32] x, map (\<lambda>i. fips512_W M (16 + i)) [0..<16])" for x using G [of 0 x] by (simp only: num)
  have g2: "sha512_rounds (take 16 (drop 32 sha512_K)) (x, map (\<lambda>i. fips512_W M (16 + i)) [0..<16]) =
      (fold F [32..<48] x, map (\<lambda>i. fips512_W M (32 + i)) [0..<16])" for x using G [of 16 x] by (simp only: num)
  have g3: "sha512_rounds (take 16 (drop 48 sha512_K)) (x, map (\<lambda>i. fips512_W M (32 + i)) [0..<16]) =
      (fold F [48..<64] x, map (\<lambda>i. fips512_W M (48 + i)) [0..<16])" for x using G [of 32 x] by (simp only: num)
  have g4: "sha512_rounds (take 16 (drop 64 sha512_K)) (x, map (\<lambda>i. fips512_W M (48 + i)) [0..<16]) =
      (fold F [64..<80] x, map (\<lambda>i. fips512_W M (64 + i)) [0..<16])" for x using G [of 48 x] by (simp only: num)
  have "[0..<80] = [0..<16] @ [16..<32] @ [32..<48] @ [48..<64] @ [64..<80 :: nat]"
    by (simp add: upt_rec)
  then have all: "fold F [64..<80] (fold F [48..<64] (fold F [32..<48] (fold F [16..<32] (fold F [0..<16] st)))) = fold F [0..<80] st"
    by (simp only: fold_append comp_apply)
  show ?thesis
    unfolding sha512_Transform_def fips512_compress_def Let_def M_def [symmetric] F_def [symmetric] st_def [symmetric] g0 g1 g2 g3 g4 all
    by (cases "fold F [0..<80] st" rule: prod_cases7) (auto simp: add.commute split: prod.split)
qed

interpretation sha512: md_hash 128 sha512_Transform
proof
  show "sha512_Transform s (take 128 data) = sha512_Transform s data" if "128 \<le> length data" for s data
  proof -
    have "block_word64 (take 128 data) t = block_word64 data t" if "t < 16" for t
      using that by (simp add: block_word64_def drop_take)
    then have "fips512_W (block_word64 (take 128 data)) t = fips512_W (block_word64 data) t" for t
      by (induction t rule: less_induct) (subst (1 2) fips512_W.simps, simp)
    then show ?thesis unfolding sha512_Transform_fips fips512_compress_def by (simp only:)
  qed
qed simp_all

text \<open>The hasher holds a message; writing appends; finalising gives the digest.\<close>

abbreviation "sha512_holds \<equiv> sha512.hasher_holds sha512_Initialize"

lemma CSHA512_new_holds: "length buf = 128 \<Longrightarrow> sha512_holds [] (CSHA512_new buf)"
  unfolding CSHA512_new_def by (rule sha512.holds_new)

lemma CSHA512_Write_holds: "sha512_holds m h \<Longrightarrow> sha512_holds (m @ data) (CSHA512_Write h data)"
  unfolding CSHA512_Write_def by (rule sha512.holds_Write)

lemma length_fips_sha512: "length (fips_sha512 m) = 64"
proof -
  have "length (fold fips512_compress bs st) = 8" if "length st = 8" for bs st
    using that by (induction bs arbitrary: st) (simp_all add: fips512_compress_def Let_def split_beta)
  then have "length (absorb_blocks 128 fips512_compress (fips512_pad m) sha512_Initialize) = 8"
    by (simp add: absorb_blocks_def sha512_Initialize_def)
  moreover have "length (concat (map (be_bytes 8) ws)) = 8 * length ws" for ws :: "u64 list"
    by (induction ws) simp_all
  ultimately show ?thesis by (simp add: fips_sha512_def)
qed

lemma CSHA512_Finalize_holds:
  assumes h: "sha512_holds m h"
  shows "snd (CSHA512_Finalize h) = fips_sha512 m"
proof -
  have pad: "take (1 + (239 - length m mod 128) mod 128) (0x80 # replicate 127 0) = pad_bytes 128 16 (length m)"
    using take_pad [of 128 "239 - length m mod 128"] by (simp add: pad_bytes_def)
  have size: "WriteBE64 (push_bit 3 (hs_bytes h)) = be_bytes 8 (of_nat (8 * length m) :: u64)"
    using h by (simp add: sha512.hasher_holds_def WriteBE64_def push_bit_eq_mult mult.commute)
  define h' where "h' = fst (CSHA512_Finalize h)"
  have "sha512_holds (fips512_pad m) h'"
    using CSHA512_Write_holds [OF CSHA512_Write_holds [OF h], of "pad_bytes 128 16 (length m)"]
    unfolding h'_def CSHA512_Finalize_def Let_def sha512.holds_bufsize [OF h] pad size
    by (simp add: fips512_pad_def)
  from sha512.holds_state [OF this] have s: "hs_s h' = absorb_blocks 128 fips512_compress (fips512_pad m) sha512_Initialize"
    by (simp add: sha512_Transform_fips)
  have "length (fold fips512_compress bs st) = 8" if "length st = 8" for bs st
    using that by (induction bs arbitrary: st) (simp_all add: fips512_compress_def Let_def split_beta)
  then have "length (hs_s h') = 8" unfolding s by (simp add: absorb_blocks_def sha512_Initialize_def)
  then have "map (\<lambda>i. WriteBE64 (hs_s h' ! i)) [0..<8] = map (be_bytes 8) (hs_s h')"
    by (intro nth_equalityI) (simp_all add: WriteBE64_def)
  then show ?thesis
    unfolding fips_sha512_def s [symmetric] by (simp add: h'_def CSHA512_Finalize_def Let_def)
qed

text \<open>
  The message authentication code of \<^verbatim>\<open>CHMAC_SHA512\<close> for a message written in any pieces is HMAC of RFC 2104 with SHA-512 of
  FIPS 180-4, for keys of every length, whatever the buffers held.
\<close>

theorem CHMAC_SHA512_rfc2104:
  assumes "length b1 = 128" and "length b2 = 128" and "length b3 = 128"
  shows "CHMAC_SHA512_Finalize (fold (\<lambda>d hm. CHMAC_SHA512_Write hm d) ds (CHMAC_SHA512_new b1 b2 b3 key)) =
    rfc_hmac fips_sha512 128 key (concat ds)"
proof -
  define K0 where "K0 = (if length key \<le> 128 then key @ replicate (128 - length key) 0 else fips_sha512 key @ replicate 64 0)"
  have key: "snd (CSHA512_Finalize (CSHA512_Write (CSHA512_new b1) key)) = fips_sha512 key"
    using CSHA512_Finalize_holds [OF CSHA512_Write_holds [OF CSHA512_new_holds [OF assms(1)]]] by simp
  have xor: "(x XOR 0x5c) XOR (0x5c XOR 0x36) = (x :: byte) XOR 0x36" for x by (simp add: xor.assoc)
  define hm where "hm = CHMAC_SHA512_new b1 b2 b3 key"
  have hm: "hm = \<lparr>hmac_outer = CSHA512_Write (CSHA512_new b2) (map (\<lambda>x. x XOR 0x5c) K0),
      hmac_inner = CSHA512_Write (CSHA512_new b3) (map (\<lambda>x. x XOR 0x36) K0)\<rparr>"
    unfolding hm_def CHMAC_SHA512_new_def key K0_def [symmetric] Let_def by (simp only: map_map comp_def xor)
  have outer: "sha512_holds (map (\<lambda>x. x XOR 0x5c) K0) (hmac_outer hm)"
    and inner: "sha512_holds (map (\<lambda>x. x XOR 0x36) K0) (hmac_inner hm)"
    using CSHA512_Write_holds [OF CSHA512_new_holds [OF assms(2)], of "map (\<lambda>x. x XOR 0x5c) K0"]
      CSHA512_Write_holds [OF CSHA512_new_holds [OF assms(3)], of "map (\<lambda>x. x XOR 0x36) K0"] by (simp_all add: hm)
  have run_outer: "hmac_outer (fold (\<lambda>d hm. CHMAC_SHA512_Write hm d) ds h) = hmac_outer h" for h
    by (induction ds arbitrary: h) (simp_all add: CHMAC_SHA512_Write_def)
  have run_inner: "sha512_holds (m @ concat ds) (hmac_inner (fold (\<lambda>d hm. CHMAC_SHA512_Write hm d) ds h))"
    if "sha512_holds m (hmac_inner h)" for m h
    using that
  proof (induction ds arbitrary: m h)
    case (Cons d ds)
    have "sha512_holds (m @ d) (hmac_inner (CHMAC_SHA512_Write h d))"
      using CSHA512_Write_holds [OF Cons.prems, of d] by (simp add: CHMAC_SHA512_Write_def)
    from Cons.IH [OF this] show ?case by simp
  qed simp
  define h' where "h' = fold (\<lambda>d hm. CHMAC_SHA512_Write hm d) ds hm"
  have o': "sha512_holds (map (\<lambda>x. x XOR 0x5c) K0) (hmac_outer h')"
    and i': "sha512_holds (map (\<lambda>x. x XOR 0x36) K0 @ concat ds) (hmac_inner h')"
    using run_outer [of hm] run_inner [OF inner] outer by (simp_all add: h'_def)
  have K: "K0 = (let K = (if length key \<le> 128 then key else fips_sha512 key) in K @ replicate (128 - length K) 0)"
    by (simp add: K0_def Let_def length_fips_sha512)
  show ?thesis
    using CSHA512_Finalize_holds [OF i'] CSHA512_Finalize_holds [OF CSHA512_Write_holds [OF o']]
    unfolding hm_def [symmetric] h'_def [symmetric]
    by (cases "CSHA512_Finalize (hmac_inner h')") (simp add: CHMAC_SHA512_Finalize_def rfc_hmac_def K Let_def)
qed

theorem CHMAC_SHA512_rfc2104_witness:
  "CHMAC_SHA512_Finalize (fold (\<lambda>d hm. CHMAC_SHA512_Write hm d) [[1], [], [2, 3]]
      (CHMAC_SHA512_new (replicate 128 0) (replicate 128 1) (replicate 128 2) [5])) = rfc_hmac fips_sha512 128 [5] [1, 2, 3]"
  using CHMAC_SHA512_rfc2104 [of "replicate 128 0" "replicate 128 1" "replicate 128 2" "[[1], [], [2, 3]]" "[5]"] by simp

end
