(* ===== verification/Ctaes.thy ===== *)
theory Ctaes
  imports Prelude
begin

text \<open>
  The constant-time AES of \<^verbatim>\<open>src/src/crypto/ctaes/ctaes.c\<close>, which encrypts the wallet. The
  sixteen bytes of an AES state are kept in bit-sliced form: eight 16-bit words, where bit
  \<open>4 * r + c\<close> of slice \<open>b\<close> is bit \<open>b\<close> of the byte in row \<open>r\<close> and column \<open>c\<close>.
\<close>

section \<open>The bit-sliced state\<close>

record AES_state =
  slice :: "u16 list"

definition wf_state :: "AES_state \<Rightarrow> bool" where
  "wf_state s \<longleftrightarrow> length (slice s) = 8"

definition zero_state :: AES_state where
  "zero_state = \<lparr>slice = replicate 8 0\<rparr>"

text \<open>\<^verbatim>\<open>LoadByte\<close>: the loop variable \<^verbatim>\<open>byte\<close> is shifted right once per slice.\<close>

definition LoadByte :: "AES_state \<Rightarrow> u8 \<Rightarrow> nat \<Rightarrow> nat \<Rightarrow> AES_state" where
  "LoadByte s byte r c = fst (fold
     (\<lambda>i (s, byte).
        (s\<lparr>slice := (slice s)[i := slice s ! i OR push_bit (r * 4 + c) (ucast (byte AND 1))]\<rparr>,
         drop_bit 1 byte))
     [0..<8] (s, byte))"

text \<open>\<^verbatim>\<open>LoadBytes\<close>: the second component is the read position \<^verbatim>\<open>data16++\<close>.\<close>

definition LoadBytes :: "AES_state \<Rightarrow> bytes \<Rightarrow> AES_state" where
  "LoadBytes s data16 = fst (fold
     (\<lambda>c. fold (\<lambda>r (s, k). (LoadByte s (data16 ! k) r c, Suc k)) [0..<4])
     [0..<4] (s, 0))"

definition SaveByte :: "AES_state \<Rightarrow> nat \<Rightarrow> nat \<Rightarrow> u8" where
  "SaveByte s r c = fold
     (\<lambda>b v. v OR push_bit b (ucast (drop_bit (r * 4 + c) (slice s ! b) AND 1)))
     [0..<8] 0"

definition SaveBytes :: "AES_state \<Rightarrow> bytes" where
  "SaveBytes s = concat (map (\<lambda>c. map (\<lambda>r. SaveByte s r c) [0..<4]) [0..<4])"

subsection \<open>Reading and writing single bits\<close>

lemma wf_zero_state [simp]: "wf_state zero_state"
  by (simp add: wf_state_def zero_state_def)

lemma wf_state_update [simp]: "wf_state (s\<lparr>slice := xs\<rparr>) \<longleftrightarrow> length xs = 8"
  by (simp add: wf_state_def)

lemma ucast_and_one: "(ucast (x AND 1 :: 'a::len word) :: 'b::len word) = of_bool (bit x 0)"
  by (simp add: and_one_eq odd_iff_mod_2_eq_one bit_0)

lemma drop_bit_and_one: "drop_bit n (x :: 'a::len word) AND 1 = of_bool (bit x n)"
  by (simp add: and_one_eq bit_iff_odd_drop_bit mod_2_eq_odd)

lemma bit_push_of_bool:
  "bit (push_bit k (of_bool P) :: 'a::len word) n \<longleftrightarrow> P \<and> n = k \<and> n < LENGTH('a)"
  by (auto simp: bit_push_bit_iff bit_of_bool_iff)

lemma slice_LoadByte:
  assumes "wf_state s"
  shows "slice (LoadByte s byte r c) =
    map (\<lambda>i. slice s ! i OR push_bit (r * 4 + c) (of_bool (bit byte i))) [0..<8]"
proof -
  obtain a0 a1 a2 a3 a4 a5 a6 a7 where s: "slice s = [a0, a1, a2, a3, a4, a5, a6, a7]"
    using assms length8_cases unfolding wf_state_def by metis
  define p :: "bool \<Rightarrow> u16" where "p P = push_bit (r * 4 + c) (of_bool P)" for P
  have "slice (LoadByte s byte r c) = map (\<lambda>i. slice s ! i OR p (bit byte i)) [0..<8]"
    unfolding LoadByte_def upt8 s ucast_and_one p_def [symmetric]
    by (simp add: s bit_drop_bit_eq numeral_eq_Suc)
  then show ?thesis by (simp only: p_def)
qed

lemma wf_LoadByte [simp]: "wf_state s \<Longrightarrow> wf_state (LoadByte s byte r c)"
  by (simp add: wf_state_def [of "LoadByte s byte r c"] slice_LoadByte)

lemma bit_LoadByte:
  assumes "wf_state s" and "i < 8" and "n < 16"
  shows "bit (slice (LoadByte s byte r c) ! i) n \<longleftrightarrow>
    bit (slice s ! i) n \<or> n = r * 4 + c \<and> bit byte i"
  using assms by (auto simp: slice_LoadByte bit_pointwise bit_push_of_bool)

lemma bit_SaveByte:
  assumes "b < 8"
  shows "bit (SaveByte s r c) b \<longleftrightarrow> bit (slice s ! b) (r * 4 + c)"
proof -
  have "bit (fold (\<lambda>b v. v OR push_bit b (ucast (drop_bit (r * 4 + c) (slice s ! b) AND 1)))
      [0..<m] (0 :: u8)) b \<longleftrightarrow> b < m \<and> bit (slice s ! b) (r * 4 + c)" for m
    using assms
    by (induction m) (auto simp: ucast_and_one bit_pointwise bit_push_of_bool bit_drop_bit_eq
        less_Suc_eq)
  from this [of 8] assms show ?thesis by (simp add: SaveByte_def)
qed

lemma SaveBytes_unfold:
  "SaveBytes s =
    [SaveByte s 0 0, SaveByte s 1 0, SaveByte s 2 0, SaveByte s 3 0,
     SaveByte s 0 1, SaveByte s 1 1, SaveByte s 2 1, SaveByte s 3 1,
     SaveByte s 0 2, SaveByte s 1 2, SaveByte s 2 2, SaveByte s 3 2,
     SaveByte s 0 3, SaveByte s 1 3, SaveByte s 2 3, SaveByte s 3 3]"
  by (simp add: SaveBytes_def upt4)

lemma length_SaveBytes [simp]: "length (SaveBytes s) = 16"
  by (simp add: SaveBytes_unfold)

lemma less16_cases: "(n::nat) < 16 \<longleftrightarrow> n \<in> {0, 1, 2, 3, 4, 5, 6, 7, 8, 9, 10, 11, 12, 13, 14, 15}"
proof -
  have "n < 16 \<longleftrightarrow> n \<in> set [0..<16]" by auto
  also have "[0..<16] = [0, 1, 2, 3, 4, 5, 6, 7, 8, 9, 10, 11, 12, 13, 14, 15::nat]"
    by (simp add: upt_rec)
  finally show ?thesis by simp
qed

text \<open>The position of byte \<open>k\<close> of a block inside a slice; it is its own inverse.\<close>

definition cell_pos :: "nat \<Rightarrow> nat" where
  "cell_pos k = 4 * (k mod 4) + k div 4"

lemma cell_pos_less [simp]: "k < 16 \<Longrightarrow> cell_pos k < 16"
  by (auto simp: less16_cases cell_pos_def)

lemma cell_pos_cell_pos [simp]: "k < 16 \<Longrightarrow> cell_pos (cell_pos k) = k"
  by (auto simp: less16_cases cell_pos_def)

lemma SaveBytes_nth: "k < 16 \<Longrightarrow> SaveBytes s ! k = SaveByte s (k mod 4) (k div 4)"
  by (auto simp: SaveBytes_unfold less16_cases)

lemma bit_SaveBytes:
  "k < 16 \<Longrightarrow> b < 8 \<Longrightarrow> bit (SaveBytes s ! k) b \<longleftrightarrow> bit (slice s ! b) (cell_pos k)"
  by (simp add: SaveBytes_nth bit_SaveByte cell_pos_def mult.commute)

lemma LoadBytes_foldl:
  "LoadBytes s d = foldl (\<lambda>s k. LoadByte s (d ! k) (k mod 4) (k div 4)) s [0..<16]"
  by (simp add: LoadBytes_def upt4 upt_rec numeral_2_eq_2 [symmetric])

lemma wf_foldl_LoadByte:
  "wf_state s \<Longrightarrow> wf_state (foldl (\<lambda>s k. LoadByte s (d ! k) (f k) (g k)) s ks)"
  by (induction ks arbitrary: s) simp_all

lemma bit_foldl_LoadByte:
  assumes "i < 8" and "n < 16"
  shows "wf_state s \<Longrightarrow> bit (slice (foldl (\<lambda>s k. LoadByte s (d ! k) (k mod 4) (k div 4)) s ks) ! i) n
    \<longleftrightarrow> bit (slice s ! i) n \<or> (\<exists>k \<in> set ks. n = cell_pos k \<and> bit (d ! k) i)"
  by (induction ks arbitrary: s) (auto simp: assms bit_LoadByte cell_pos_def mult.commute)

lemma bit_LoadBytes:
  assumes "wf_state s" and "i < 8" and "n < 16"
  shows "bit (slice (LoadBytes s d) ! i) n \<longleftrightarrow> bit (slice s ! i) n \<or> bit (d ! cell_pos n) i"
proof -
  have "(\<exists>k \<in> set [0..<16]. n = cell_pos k \<and> bit (d ! k) i) \<longleftrightarrow> bit (d ! cell_pos n) i"
    using assms(3) by (auto intro: bexI [of _ "cell_pos n"])
  then show ?thesis
    by (simp only: LoadBytes_foldl bit_foldl_LoadByte [OF assms(2,3,1)])
qed

lemma wf_LoadBytes [simp]: "wf_state s \<Longrightarrow> wf_state (LoadBytes s d)"
  by (simp add: LoadBytes_foldl wf_foldl_LoadByte)

lemma state_eqI:
  assumes "wf_state s" and "wf_state t"
    and "\<And>i n. i < 8 \<Longrightarrow> n < 16 \<Longrightarrow> bit (slice s ! i) n \<longleftrightarrow> bit (slice t ! i) n"
  shows "s = t"
proof -
  have "slice s = slice t"
    using assms by (auto simp: wf_state_def intro!: nth_equalityI word_bits_eqI)
  then show ?thesis by simp
qed

lemma zero_slice_bit [simp]: "i < 8 \<Longrightarrow> \<not> bit (slice zero_state ! i) n"
  by (simp add: zero_state_def)

text \<open>
  \<^verbatim>\<open>LoadBytes\<close> into a cleared state and \<^verbatim>\<open>SaveBytes\<close> are inverse: the bit-sliced states are
  exactly another notation for the sixteen-byte blocks.
\<close>

lemma SaveBytes_LoadBytes:
  assumes "length d = 16"
  shows "SaveBytes (LoadBytes zero_state d) = d"
proof (rule nth_equalityI)
  fix k assume "k < length (SaveBytes (LoadBytes zero_state d))"
  then have "k < 16" by simp
  then show "SaveBytes (LoadBytes zero_state d) ! k = d ! k"
    by (intro word_bits_eqI) (simp add: bit_SaveBytes bit_LoadBytes)
qed (simp add: assms)

lemma LoadBytes_SaveBytes:
  assumes "wf_state s"
  shows "LoadBytes zero_state (SaveBytes s) = s"
  by (rule state_eqI) (simp_all add: assms bit_SaveBytes bit_LoadBytes)

section \<open>SubBytes\<close>

text \<open>
  The S-box circuit, gate by gate. The definitions are polymorphic in the word length: the C
  code runs the circuit on 16 lanes at once (\<^verbatim>\<open>uint16_t\<close>), and the same gates can be run on any
  other number of lanes. The C function is one body with two branches on \<^verbatim>\<open>inv\<close>; here each
  branch, and the non-linear part both share, is one definition.
\<close>

type_synonym 'a sub_T =
  "'a word \<times> 'a word \<times> 'a word \<times> 'a word \<times> 'a word \<times> 'a word \<times> 'a word \<times> 'a word \<times> 'a word \<times>
   'a word \<times> 'a word \<times> 'a word \<times> 'a word \<times> 'a word \<times> 'a word \<times> 'a word \<times> 'a word \<times> 'a word \<times>
   'a word \<times> 'a word \<times> 'a word \<times> 'a word"
type_synonym 'a sub_M =
  "'a word \<times> 'a word \<times> 'a word \<times> 'a word \<times> 'a word \<times> 'a word \<times> 'a word \<times> 'a word \<times> 'a word \<times>
   'a word \<times> 'a word \<times> 'a word \<times> 'a word \<times> 'a word \<times> 'a word \<times> 'a word \<times> 'a word \<times> 'a word"

definition SubBytes_pre_inv :: "'a::len word list \<Rightarrow> 'a sub_T" where
  "SubBytes_pre_inv s =
    (let U0 = s ! 7; U1 = s ! 6; U2 = s ! 5; U3 = s ! 4;
         U4 = s ! 3; U5 = s ! 2; U6 = s ! 1; U7 = s ! 0;
         T23 = U0 XOR U3;
         T22 = NOT (U1 XOR U3);
         T2 = NOT (U0 XOR U1);
         T1 = U3 XOR U4;
         T24 = NOT (U4 XOR U7);
         R5 = U6 XOR U7;
         T8 = NOT (U1 XOR T23);
         T19 = T22 XOR R5;
         T9 = NOT (U7 XOR T1);
         T10 = T2 XOR T24;
         T13 = T2 XOR R5;
         T3 = T1 XOR R5;
         T25 = NOT (U2 XOR T1);
         R13 = U1 XOR U6;
         T17 = NOT (U2 XOR T19);
         T20 = T24 XOR R13;
         T4 = U4 XOR T8;
         R17 = NOT (U2 XOR U5);
         R18 = NOT (U5 XOR U6);
         R19 = NOT (U2 XOR U4);
         D = U0 XOR R17;
         T6 = T22 XOR R17;
         T16 = R13 XOR R19;
         T27 = T1 XOR R18;
         T15 = T10 XOR T27;
         T14 = T10 XOR R18;
         T26 = T3 XOR T16
     in (T1, T2, T3, T4, T6, T8, T9, T10, T13, T14, T15, T16, T17, T19, T20, T22, T23, T24,
      T25, T26, T27, D))"

definition SubBytes_pre :: "'a::len word list \<Rightarrow> 'a sub_T" where
  "SubBytes_pre s =
    (let U0 = s ! 7; U1 = s ! 6; U2 = s ! 5; U3 = s ! 4;
         U4 = s ! 3; U5 = s ! 2; U6 = s ! 1; U7 = s ! 0;
         T1 = U0 XOR U3;
         T2 = U0 XOR U5;
         T3 = U0 XOR U6;
         T4 = U3 XOR U5;
         T5 = U4 XOR U6;
         T6 = T1 XOR T5;
         T7 = U1 XOR U2;
         T8 = U7 XOR T6;
         T9 = U7 XOR T7;
         T10 = T6 XOR T7;
         T11 = U1 XOR U5;
         T12 = U2 XOR U5;
         T13 = T3 XOR T4;
         T14 = T6 XOR T11;
         T15 = T5 XOR T11;
         T16 = T5 XOR T12;
         T17 = T9 XOR T16;
         T18 = U3 XOR U7;
         T19 = T7 XOR T18;
         T20 = T1 XOR T19;
         T21 = U6 XOR U7;
         T22 = T7 XOR T21;
         T23 = T2 XOR T22;
         T24 = T2 XOR T10;
         T25 = T20 XOR T17;
         T26 = T3 XOR T16;
         T27 = T1 XOR T12;
         D = U7
     in (T1, T2, T3, T4, T6, T8, T9, T10, T13, T14, T15, T16, T17, T19, T20, T22, T23, T24,
      T25, T26, T27, D))"

definition SubBytes_nonlinear :: "'a::len sub_T \<Rightarrow> 'a sub_M" where
  "SubBytes_nonlinear = (\<lambda>(T1, T2, T3, T4, T6, T8, T9, T10, T13, T14, T15, T16, T17, T19, T20, T22, T23, T24,
      T25, T26, T27, D).
     let M1 = T13 AND T6;
         M6 = T3 AND T16;
         M11 = T1 AND T15;
         M13 = (T4 AND T27) XOR M11;
         M15 = (T2 AND T10) XOR M11;
         M20 = T14 XOR M1 XOR (T23 AND T8) XOR M13;
         M21 = (T19 AND D) XOR M1 XOR T24 XOR M15;
         M22 = T26 XOR M6 XOR (T22 AND T9) XOR M13;
         M23 = (T20 AND T17) XOR M6 XOR M15 XOR T25;
         M25 = M22 AND M20;
         M37 = M21 XOR ((M20 XOR M21) AND (M23 XOR M25));
         M38 = M20 XOR M25 XOR (M21 OR (M20 AND M23));
         M39 = M23 XOR ((M22 XOR M23) AND (M21 XOR M25));
         M40 = M22 XOR M25 XOR (M23 OR (M21 AND M22));
         M41 = M38 XOR M40;
         M42 = M37 XOR M39;
         M43 = M37 XOR M38;
         M44 = M39 XOR M40;
         M45 = M42 XOR M41;
         M46 = M44 AND T6;
         M47 = M40 AND T8;
         M48 = M39 AND D;
         M49 = M43 AND T16;
         M50 = M38 AND T9;
         M51 = M37 AND T17;
         M52 = M42 AND T15;
         M53 = M45 AND T27;
         M54 = M41 AND T10;
         M55 = M44 AND T13;
         M56 = M40 AND T23;
         M57 = M39 AND T19;
         M58 = M43 AND T3;
         M59 = M38 AND T22;
         M60 = M37 AND T20;
         M61 = M42 AND T1;
         M62 = M45 AND T4;
         M63 = M41 AND T2
     in (M46, M47, M48, M49, M50, M51, M52, M53, M54, M55, M56, M57, M58, M59, M60, M61, M62,
      M63))"

definition SubBytes_post_inv :: "'a::len sub_M \<Rightarrow> 'a word list" where
  "SubBytes_post_inv = (\<lambda>(M46, M47, M48, M49, M50, M51, M52, M53, M54, M55, M56, M57, M58, M59, M60, M61, M62,
      M63).
     let P0 = M52 XOR M61;
         P1 = M58 XOR M59;
         P2 = M54 XOR M62;
         P3 = M47 XOR M50;
         P4 = M48 XOR M56;
         P5 = M46 XOR M51;
         P6 = M49 XOR M60;
         P7 = P0 XOR P1;
         P8 = M50 XOR M53;
         P9 = M55 XOR M63;
         P10 = M57 XOR P4;
         P11 = P0 XOR P3;
         P12 = M46 XOR M48;
         P13 = M49 XOR M51;
         P14 = M49 XOR M62;
         P15 = M54 XOR M59;
         P16 = M57 XOR M61;
         P17 = M58 XOR P2;
         P18 = M63 XOR P5;
         P19 = P2 XOR P3;
         P20 = P4 XOR P6;
         P22 = P2 XOR P7;
         P23 = P7 XOR P8;
         P24 = P5 XOR P7;
         P25 = P6 XOR P10;
         P26 = P9 XOR P11;
         P27 = P10 XOR P18;
         P28 = P11 XOR P25;
         P29 = P15 XOR P20
     in [P9 XOR P16,
         P14 XOR P23,
         P19 XOR P24,
         P23 XOR P27,
         P12 XOR P22,
         P17 XOR P28,
         P26 XOR P29,
         P13 XOR P22])"

definition SubBytes_post :: "'a::len sub_M \<Rightarrow> 'a word list" where
  "SubBytes_post = (\<lambda>(M46, M47, M48, M49, M50, M51, M52, M53, M54, M55, M56, M57, M58, M59, M60, M61, M62,
      M63).
     let L0 = M61 XOR M62;
         L1 = M50 XOR M56;
         L2 = M46 XOR M48;
         L3 = M47 XOR M55;
         L4 = M54 XOR M58;
         L5 = M49 XOR M61;
         L6 = M62 XOR L5;
         L7 = M46 XOR L3;
         L8 = M51 XOR M59;
         L9 = M52 XOR M53;
         L10 = M53 XOR L4;
         L11 = M60 XOR L2;
         L12 = M48 XOR M51;
         L13 = M50 XOR L0;
         L14 = M52 XOR M61;
         L15 = M55 XOR L1;
         L16 = M56 XOR L0;
         L17 = M57 XOR L1;
         L18 = M58 XOR L8;
         L19 = M63 XOR L4;
         L20 = L0 XOR L1;
         L21 = L1 XOR L7;
         L22 = L3 XOR L12;
         L23 = L18 XOR L2;
         L24 = L15 XOR L9;
         L25 = L6 XOR L10;
         L26 = L7 XOR L9;
         L27 = L8 XOR L10;
         L28 = L11 XOR L14;
         L29 = L11 XOR L17
     in [NOT (L6 XOR L23),
         NOT (L13 XOR L27),
         L25 XOR L29,
         L20 XOR L22,
         L6 XOR L21,
         NOT (L19 XOR L28),
         NOT (L16 XOR L26),
         L6 XOR L24])"

definition SubBytes_gates :: "bool \<Rightarrow> 'a::len word list \<Rightarrow> 'a word list" where
  "SubBytes_gates inv' s =
    (if inv' then SubBytes_post_inv (SubBytes_nonlinear (SubBytes_pre_inv s))
     else SubBytes_post (SubBytes_nonlinear (SubBytes_pre s)))"

definition SubBytes :: "AES_state \<Rightarrow> bool \<Rightarrow> AES_state" where
  "SubBytes s inv' = s\<lparr>slice := SubBytes_gates inv' (slice s)\<rparr>"

subsection \<open>The circuit is lane-wise\<close>

abbreviation rel_M :: "('a \<Rightarrow> 'b \<Rightarrow> bool) \<Rightarrow> _" where
  "rel_M L \<equiv> rel_prod L (rel_prod L (rel_prod L (rel_prod L (rel_prod L (rel_prod L (rel_prod L (rel_prod L (rel_prod L (rel_prod L (rel_prod L (rel_prod L (rel_prod L (rel_prod L (rel_prod L (rel_prod L (rel_prod L L))))))))))))))))"

abbreviation rel_T :: "('a \<Rightarrow> 'b \<Rightarrow> bool) \<Rightarrow> _" where
  "rel_T L \<equiv> rel_prod L (rel_prod L (rel_prod L (rel_prod L (rel_prod L (rel_prod L (rel_prod L (rel_prod L (rel_prod L (rel_prod L (rel_prod L (rel_prod L (rel_prod L (rel_prod L (rel_prod L (rel_prod L (rel_prod L (rel_prod L (rel_prod L (rel_prod L (rel_prod L L))))))))))))))))))))"

lemma SubBytes_pre_lane:
  assumes "\<And>i. i < 8 \<Longrightarrow> lane n m (s ! i) (t ! i)"
  shows "rel_T (lane n m) (SubBytes_pre s) (SubBytes_pre t)"
  unfolding SubBytes_pre_def Let_def rel_prod_inject
  by (intro conjI lane_rules assms) simp_all

lemma SubBytes_pre_inv_lane:
  assumes "\<And>i. i < 8 \<Longrightarrow> lane n m (s ! i) (t ! i)"
  shows "rel_T (lane n m) (SubBytes_pre_inv s) (SubBytes_pre_inv t)"
  unfolding SubBytes_pre_inv_def Let_def rel_prod_inject
  by (intro conjI lane_rules assms) simp_all

lemma SubBytes_nonlinear_lane:
  assumes "rel_T (lane n m) x y"
  shows "rel_M (lane n m) (SubBytes_nonlinear x) (SubBytes_nonlinear y)"
  using assms unfolding SubBytes_nonlinear_def
  by (elim rel_prod.cases, hypsubst)
    (unfold prod.case, (rule lane_Let_prod, (intro lane_rules; assumption))+,
      unfold rel_prod_inject, (intro conjI; assumption))

lemma SubBytes_post_lane:
  assumes "rel_M (lane n m) x y"
  shows "list_all2 (lane n m) (SubBytes_post x) (SubBytes_post y)"
  using assms unfolding SubBytes_post_def
  by (elim rel_prod.cases, hypsubst)
    (unfold prod.case, (rule lane_Let_list, (intro lane_rules; assumption))+,
      (intro list.rel_intros lane_rules; assumption))

lemma SubBytes_post_inv_lane:
  assumes "rel_M (lane n m) x y"
  shows "list_all2 (lane n m) (SubBytes_post_inv x) (SubBytes_post_inv y)"
  using assms unfolding SubBytes_post_inv_def
  by (elim rel_prod.cases, hypsubst)
    (unfold prod.case, (rule lane_Let_list, (intro lane_rules; assumption))+,
      (intro list.rel_intros lane_rules; assumption))

section \<open>The linear layers\<close>

definition BIT_RANGE :: "nat \<Rightarrow> nat \<Rightarrow> u16" where
  "BIT_RANGE from to = push_bit from (push_bit (to - from) 1 - 1)"

definition BIT_RANGE_LEFT :: "u16 \<Rightarrow> nat \<Rightarrow> nat \<Rightarrow> nat \<Rightarrow> u16" where
  "BIT_RANGE_LEFT x from to shift = push_bit shift (x AND BIT_RANGE from to)"

definition BIT_RANGE_RIGHT :: "u16 \<Rightarrow> nat \<Rightarrow> nat \<Rightarrow> nat \<Rightarrow> u16" where
  "BIT_RANGE_RIGHT x from to shift = drop_bit shift (x AND BIT_RANGE from to)"

definition ShiftRows :: "AES_state \<Rightarrow> AES_state" where
  "ShiftRows s = s\<lparr>slice := map (\<lambda>v.
     (v AND BIT_RANGE 0 4) OR
     BIT_RANGE_LEFT v 4 5 3 OR BIT_RANGE_RIGHT v 5 8 1 OR
     BIT_RANGE_LEFT v 8 10 2 OR BIT_RANGE_RIGHT v 10 12 2 OR
     BIT_RANGE_LEFT v 12 15 1 OR BIT_RANGE_RIGHT v 15 16 3) (slice s)\<rparr>"

definition InvShiftRows :: "AES_state \<Rightarrow> AES_state" where
  "InvShiftRows s = s\<lparr>slice := map (\<lambda>v.
     (v AND BIT_RANGE 0 4) OR
     BIT_RANGE_LEFT v 4 7 1 OR BIT_RANGE_RIGHT v 7 8 3 OR
     BIT_RANGE_LEFT v 8 10 2 OR BIT_RANGE_RIGHT v 10 12 2 OR
     BIT_RANGE_LEFT v 12 13 3 OR BIT_RANGE_RIGHT v 13 16 1) (slice s)\<rparr>"

definition ROT :: "u16 \<Rightarrow> nat \<Rightarrow> u16" where
  "ROT x b = drop_bit (b * 4) x OR push_bit ((4 - b) * 4) x"

text \<open>\<^verbatim>\<open>MixColumns\<close>: the part both directions share, then the extra factor of the inverse.\<close>

definition MixColumns_fwd :: "u16 list \<Rightarrow> u16 list" where
  "MixColumns_fwd s =
    (let s0 = s ! 0; s1 = s ! 1; s2 = s ! 2; s3 = s ! 3;
         s4 = s ! 4; s5 = s ! 5; s6 = s ! 6; s7 = s ! 7;
         s0_01 = s0 XOR ROT s0 1; s0_123 = ROT s0_01 1 XOR ROT s0 3;
         s1_01 = s1 XOR ROT s1 1; s1_123 = ROT s1_01 1 XOR ROT s1 3;
         s2_01 = s2 XOR ROT s2 1; s2_123 = ROT s2_01 1 XOR ROT s2 3;
         s3_01 = s3 XOR ROT s3 1; s3_123 = ROT s3_01 1 XOR ROT s3 3;
         s4_01 = s4 XOR ROT s4 1; s4_123 = ROT s4_01 1 XOR ROT s4 3;
         s5_01 = s5 XOR ROT s5 1; s5_123 = ROT s5_01 1 XOR ROT s5 3;
         s6_01 = s6 XOR ROT s6 1; s6_123 = ROT s6_01 1 XOR ROT s6 3;
         s7_01 = s7 XOR ROT s7 1; s7_123 = ROT s7_01 1 XOR ROT s7 3
     in [s7_01 XOR s0_123,
         s7_01 XOR s0_01 XOR s1_123,
         s1_01 XOR s2_123,
         s7_01 XOR s2_01 XOR s3_123,
         s7_01 XOR s3_01 XOR s4_123,
         s4_01 XOR s5_123,
         s5_01 XOR s6_123,
         s6_01 XOR s7_123])"

definition MixColumns_extra :: "u16 list \<Rightarrow> u16 list" where
  "MixColumns_extra s =
    (let u0 = s ! 0; u1 = s ! 1; u2 = s ! 2; u3 = s ! 3;
         u4 = s ! 4; u5 = s ! 5; u6 = s ! 6; u7 = s ! 7;
         t0_02 = u0 XOR ROT u0 2;
         t1_02 = u1 XOR ROT u1 2;
         t2_02 = u2 XOR ROT u2 2;
         t3_02 = u3 XOR ROT u3 2;
         t4_02 = u4 XOR ROT u4 2;
         t5_02 = u5 XOR ROT u5 2;
         t6_02 = u6 XOR ROT u6 2;
         t7_02 = u7 XOR ROT u7 2
     in [u0 XOR t6_02,
         u1 XOR (t6_02 XOR t7_02),
         u2 XOR (t0_02 XOR t7_02),
         u3 XOR (t1_02 XOR t6_02),
         u4 XOR (t2_02 XOR t6_02 XOR t7_02),
         u5 XOR (t3_02 XOR t7_02),
         u6 XOR t4_02,
         u7 XOR t5_02])"

definition MixColumns :: "AES_state \<Rightarrow> bool \<Rightarrow> AES_state" where
  "MixColumns s inv' =
    (let s = s\<lparr>slice := MixColumns_fwd (slice s)\<rparr>
     in if inv' then s\<lparr>slice := MixColumns_extra (slice s)\<rparr> else s)"

definition AddRoundKey :: "AES_state \<Rightarrow> AES_state \<Rightarrow> AES_state" where
  "AddRoundKey s round =
    s\<lparr>slice := map (\<lambda>b. slice s ! b XOR slice round ! b) [0..<8]\<rparr>"

section \<open>The key schedule\<close>

definition GetOneColumn :: "AES_state \<Rightarrow> AES_state \<Rightarrow> nat \<Rightarrow> AES_state" where
  "GetOneColumn s a c = s\<lparr>slice := map (\<lambda>b. drop_bit c (slice a ! b) AND 0x1111) [0..<8]\<rparr>"

text \<open>\<^verbatim>\<open>KeySetupColumnMix\<close> writes both \<^verbatim>\<open>s\<close> and \<^verbatim>\<open>r\<close>; the model returns the two.\<close>

definition KeySetupColumnMix ::
  "AES_state \<Rightarrow> AES_state \<Rightarrow> AES_state \<Rightarrow> nat \<Rightarrow> nat \<Rightarrow> AES_state \<times> AES_state" where
  "KeySetupColumnMix s r a c1 c2 =
    (let s' = map (\<lambda>b. slice s ! b XOR (drop_bit c2 (slice a ! b) AND 0x1111)) [0..<8];
         r' = map (\<lambda>b. slice r ! b OR push_bit c1 (s' ! b AND 0x1111)) [0..<8]
     in (s\<lparr>slice := s'\<rparr>, r\<lparr>slice := r'\<rparr>))"

definition KeySetupTransform :: "AES_state \<Rightarrow> AES_state \<Rightarrow> AES_state" where
  "KeySetupTransform s r =
    s\<lparr>slice := map (\<lambda>b. (drop_bit 4 (slice s ! b) OR push_bit 12 (slice s ! b)) XOR slice r ! b) [0..<8]\<rparr>"

definition MultX :: "AES_state \<Rightarrow> AES_state" where
  "MultX s =
    (let top = slice s ! 7
     in s\<lparr>slice := [top, slice s ! 0 XOR top, slice s ! 1, slice s ! 2 XOR top,
                   slice s ! 3 XOR top, slice s ! 4, slice s ! 5, slice s ! 6]\<rparr>)"

text \<open>
  The body of the second loop of \<^verbatim>\<open>AES_setup\<close>, for column \<open>i\<close>, on the loop state: the round
  keys written so far, the round constant, \<^verbatim>\<open>pos\<close> and the current column.
\<close>

definition AES_setup_step ::
  "nat \<Rightarrow> nat \<Rightarrow> AES_state list \<times> AES_state \<times> nat \<times> AES_state
    \<Rightarrow> AES_state list \<times> AES_state \<times> nat \<times> AES_state" where
  "AES_setup_step nkeywords i = (\<lambda>(rounds, rcon, pos, column).
    (let (column, rcon) =
           (if pos = 0 then (KeySetupTransform (SubBytes column False) rcon, MultX rcon)
            else if nkeywords > 6 \<and> pos = 4 then (SubBytes column False, rcon)
            else (column, rcon));
         pos = (if pos + 1 = nkeywords then 0 else pos + 1);
         (column, r) = KeySetupColumnMix column (rounds ! (i div 4))
           (rounds ! ((i - nkeywords) div 4)) (i mod 4) ((i - nkeywords) mod 4)
     in (rounds[i div 4 := r], rcon, pos, column)))"

definition AES_setup_load :: "bytes \<Rightarrow> nat \<Rightarrow> nat \<Rightarrow> AES_state list" where
  "AES_setup_load key nkeywords nrounds =
    fold (\<lambda>i. fold (\<lambda>r rounds.
        rounds[i div 4 := LoadByte (rounds ! (i div 4)) (key ! (4 * i + r)) r (i mod 4)]) [0..<4])
      [0..<nkeywords] (replicate (nrounds + 1) zero_state)"

definition AES_setup :: "bytes \<Rightarrow> nat \<Rightarrow> nat \<Rightarrow> AES_state list" where
  "AES_setup key nkeywords nrounds =
    (let rcon = \<lparr>slice = [1, 0, 0, 0, 0, 0, 0, 0]\<rparr>;
         rounds = AES_setup_load key nkeywords nrounds;
         column = GetOneColumn zero_state (rounds ! ((nkeywords - 1) div 4)) ((nkeywords - 1) mod 4)
     in fst (fold (AES_setup_step nkeywords) [nkeywords..<4 * (nrounds + 1)] (rounds, rcon, 0, column)))"

section \<open>Encryption and decryption\<close>

definition AES_encrypt :: "AES_state list \<Rightarrow> nat \<Rightarrow> bytes \<Rightarrow> bytes" where
  "AES_encrypt rounds nrounds plain16 =
    (let s = LoadBytes zero_state plain16;
         s = AddRoundKey s (rounds ! 0);
         s = fold (\<lambda>round s. AddRoundKey (MixColumns (ShiftRows (SubBytes s False)) False) (rounds ! round))
               [1..<nrounds] s;
         s = AddRoundKey (ShiftRows (SubBytes s False)) (rounds ! nrounds)
     in SaveBytes s)"

definition AES_decrypt :: "AES_state list \<Rightarrow> nat \<Rightarrow> bytes \<Rightarrow> bytes" where
  "AES_decrypt rounds nrounds cipher16 =
    (let s = LoadBytes zero_state cipher16;
         s = AddRoundKey s (rounds ! nrounds);
         s = fold (\<lambda>round s.
               MixColumns (AddRoundKey (SubBytes (InvShiftRows s) True) (rounds ! (nrounds - round))) True)
               [1..<nrounds] s;
         s = AddRoundKey (SubBytes (InvShiftRows s) True) (rounds ! 0)
     in SaveBytes s)"

record AES128_ctx = rk128 :: "AES_state list"
record AES192_ctx = rk192 :: "AES_state list"
record AES256_ctx = rk256 :: "AES_state list"

definition AES128_init :: "bytes \<Rightarrow> AES128_ctx" where
  "AES128_init key16 = \<lparr>rk128 = AES_setup key16 4 10\<rparr>"

definition AES192_init :: "bytes \<Rightarrow> AES192_ctx" where
  "AES192_init key24 = \<lparr>rk192 = AES_setup key24 6 12\<rparr>"

definition AES256_init :: "bytes \<Rightarrow> AES256_ctx" where
  "AES256_init key32 = \<lparr>rk256 = AES_setup key32 8 14\<rparr>"

primrec AES128_encrypt :: "AES128_ctx \<Rightarrow> nat \<Rightarrow> bytes \<Rightarrow> bytes" where
  "AES128_encrypt ctx 0 plain16 = []"
| "AES128_encrypt ctx (Suc blocks) plain16 =
    AES_encrypt (rk128 ctx) 10 (take 16 plain16) @ AES128_encrypt ctx blocks (drop 16 plain16)"

primrec AES128_decrypt :: "AES128_ctx \<Rightarrow> nat \<Rightarrow> bytes \<Rightarrow> bytes" where
  "AES128_decrypt ctx 0 cipher16 = []"
| "AES128_decrypt ctx (Suc blocks) cipher16 =
    AES_decrypt (rk128 ctx) 10 (take 16 cipher16) @ AES128_decrypt ctx blocks (drop 16 cipher16)"

primrec AES192_encrypt :: "AES192_ctx \<Rightarrow> nat \<Rightarrow> bytes \<Rightarrow> bytes" where
  "AES192_encrypt ctx 0 plain16 = []"
| "AES192_encrypt ctx (Suc blocks) plain16 =
    AES_encrypt (rk192 ctx) 12 (take 16 plain16) @ AES192_encrypt ctx blocks (drop 16 plain16)"

primrec AES192_decrypt :: "AES192_ctx \<Rightarrow> nat \<Rightarrow> bytes \<Rightarrow> bytes" where
  "AES192_decrypt ctx 0 cipher16 = []"
| "AES192_decrypt ctx (Suc blocks) cipher16 =
    AES_decrypt (rk192 ctx) 12 (take 16 cipher16) @ AES192_decrypt ctx blocks (drop 16 cipher16)"

primrec AES256_encrypt :: "AES256_ctx \<Rightarrow> nat \<Rightarrow> bytes \<Rightarrow> bytes" where
  "AES256_encrypt ctx 0 plain16 = []"
| "AES256_encrypt ctx (Suc blocks) plain16 =
    AES_encrypt (rk256 ctx) 14 (take 16 plain16) @ AES256_encrypt ctx blocks (drop 16 plain16)"

primrec AES256_decrypt :: "AES256_ctx \<Rightarrow> nat \<Rightarrow> bytes \<Rightarrow> bytes" where
  "AES256_decrypt ctx 0 cipher16 = []"
| "AES256_decrypt ctx (Suc blocks) cipher16 =
    AES_decrypt (rk256 ctx) 14 (take 16 cipher16) @ AES256_decrypt ctx blocks (drop 16 cipher16)"

end
