(* ===== verification/Gf256.thy ===== *)
theory Gf256
  imports Prelude
begin

text \<open>
  The finite field of AES as a reference: multiplication of bytes as polynomials over GF(2)
  modulo \<open>x\<^sup>8 + x\<^sup>4 + x\<^sup>3 + x + 1\<close>, inversion as the 254th power, and the S-box of FIPS-197 as the
  affine image of the inverse. Each operation also has a bit-sliced form on lists of eight
  words, where word \<open>j\<close> holds bit \<open>j\<close> of one byte per lane; the lemmas relate the two forms.
\<close>

section \<open>The field on bytes\<close>

definition xtime :: "u8 \<Rightarrow> u8" where
  "xtime x = push_bit 1 x XOR (if bit x 7 then 0x1b else 0)"

fun gf_mul_bits :: "u8 \<Rightarrow> bool list \<Rightarrow> u8" where
  "gf_mul_bits a [] = 0"
| "gf_mul_bits a (b # bs) = (if b then a else 0) XOR gf_mul_bits (xtime a) bs"

definition gf_mul :: "u8 \<Rightarrow> u8 \<Rightarrow> u8" where
  "gf_mul a b = gf_mul_bits a (map (bit b) [0..<8])"

definition gf_inv :: "u8 \<Rightarrow> u8" where
  "gf_inv x =
    (let x2 = gf_mul x x; x4 = gf_mul x2 x2; x8 = gf_mul x4 x4; x16 = gf_mul x8 x8;
         x32 = gf_mul x16 x16; x64 = gf_mul x32 x32; x128 = gf_mul x64 x64
     in gf_mul x2 (gf_mul x4 (gf_mul x8 (gf_mul x16 (gf_mul x32 (gf_mul x64 x128))))))"

definition aes_affine :: "u8 \<Rightarrow> u8" where
  "aes_affine y = y XOR word_rotl 1 y XOR word_rotl 2 y XOR word_rotl 3 y XOR word_rotl 4 y XOR 0x63"

definition aes_inv_affine :: "u8 \<Rightarrow> u8" where
  "aes_inv_affine y = word_rotl 1 y XOR word_rotl 3 y XOR word_rotl 6 y XOR 0x05"

definition aes_sbox :: "u8 \<Rightarrow> u8" where
  "aes_sbox x = aes_affine (gf_inv x)"

definition aes_inv_sbox :: "u8 \<Rightarrow> u8" where
  "aes_inv_sbox y = gf_inv (aes_inv_affine y)"

section \<open>The field on bit slices\<close>

fun xtime_slices :: "'a::len word list \<Rightarrow> 'a word list" where
  "xtime_slices [a0, a1, a2, a3, a4, a5, a6, a7] =
    [a7, a0 XOR a7, a1, a2 XOR a7, a3 XOR a7, a4, a5, a6]"
| "xtime_slices _ = []"

fun mul_slices :: "'a::len word list \<Rightarrow> 'a word list \<Rightarrow> 'a word list" where
  "mul_slices a [] = [0, 0, 0, 0, 0, 0, 0, 0]"
| "mul_slices a (b # bs) = map2 (\<lambda>x y. (x AND b) XOR y) a (mul_slices (xtime_slices a) bs)"

definition inv_slices :: "'a::len word list \<Rightarrow> 'a word list" where
  "inv_slices x =
    (let x2 = mul_slices x x; x4 = mul_slices x2 x2; x8 = mul_slices x4 x4;
         x16 = mul_slices x8 x8; x32 = mul_slices x16 x16; x64 = mul_slices x32 x32;
         x128 = mul_slices x64 x64
     in mul_slices x2 (mul_slices x4 (mul_slices x8 (mul_slices x16 (mul_slices x32 (mul_slices x64 x128))))))"

fun affine_slices :: "'a::len word list \<Rightarrow> 'a word list" where
  "affine_slices [a0, a1, a2, a3, a4, a5, a6, a7] =
    [NOT (a0 XOR a7 XOR a6 XOR a5 XOR a4), NOT (a1 XOR a0 XOR a7 XOR a6 XOR a5),
     a2 XOR a1 XOR a0 XOR a7 XOR a6, a3 XOR a2 XOR a1 XOR a0 XOR a7,
     a4 XOR a3 XOR a2 XOR a1 XOR a0, NOT (a5 XOR a4 XOR a3 XOR a2 XOR a1),
     NOT (a6 XOR a5 XOR a4 XOR a3 XOR a2), a7 XOR a6 XOR a5 XOR a4 XOR a3]"
| "affine_slices _ = []"

fun inv_affine_slices :: "'a::len word list \<Rightarrow> 'a word list" where
  "inv_affine_slices [a0, a1, a2, a3, a4, a5, a6, a7] =
    [NOT (a7 XOR a5 XOR a2), a0 XOR a6 XOR a3, NOT (a1 XOR a7 XOR a4), a2 XOR a0 XOR a5,
     a3 XOR a1 XOR a6, a4 XOR a2 XOR a7, a5 XOR a3 XOR a0, a6 XOR a4 XOR a1]"
| "inv_affine_slices _ = []"

text \<open>\<open>sliced n s x\<close>: lane \<open>n\<close> of the slices \<open>s\<close> holds the byte \<open>x\<close>.\<close>

definition sliced :: "nat \<Rightarrow> 'a::len word list \<Rightarrow> u8 \<Rightarrow> bool" where
  "sliced n s x \<longleftrightarrow> n < LENGTH('a) \<and> length s = 8 \<and> (\<forall>j<8. bit (s ! j) n \<longleftrightarrow> bit x j)"

lemma all_less_8: "(\<forall>j<8. P (j::nat)) \<longleftrightarrow> P 0 \<and> P 1 \<and> P 2 \<and> P 3 \<and> P 4 \<and> P 5 \<and> P 6 \<and> P 7"
  unfolding less8_cases by (auto simp only: insert_iff empty_iff)

lemma sliced_list8:
  assumes "sliced n s x"
  obtains a0 a1 a2 a3 a4 a5 a6 a7 where "s = [a0, a1, a2, a3, a4, a5, a6, a7]"
  using assms by (auto simp: sliced_def elim: length8_cases)

lemma sliced_Cons8:
  "sliced n [a0, a1, a2, a3, a4, a5, a6, a7 :: 'a::len word] x \<longleftrightarrow> n < LENGTH('a) \<and>
    (bit a0 n \<longleftrightarrow> bit x 0) \<and> (bit a1 n \<longleftrightarrow> bit x 1) \<and> (bit a2 n \<longleftrightarrow> bit x 2) \<and> (bit a3 n \<longleftrightarrow> bit x 3) \<and>
    (bit a4 n \<longleftrightarrow> bit x 4) \<and> (bit a5 n \<longleftrightarrow> bit x 5) \<and> (bit a6 n \<longleftrightarrow> bit x 6) \<and> (bit a7 n \<longleftrightarrow> bit x 7)"
  unfolding sliced_def all_less_8 nth8 by simp

lemma sliced_unique: "sliced n s x \<Longrightarrow> sliced n s y \<Longrightarrow> x = y"
  by (auto simp: sliced_def intro: word_bits_eqI)

lemma sliced_zero: "n < LENGTH('a) \<Longrightarrow> sliced n [0, 0, 0, 0, 0, 0, 0, 0 :: 'a::len word] 0"
  by (simp add: sliced_Cons8)

lemma bit_push_one: "bit (push_bit 1 (x :: 'a::len word)) n \<longleftrightarrow> 0 < n \<and> n < LENGTH('a) \<and> bit x (n - 1)"
  unfolding bit_push_bit_iff by auto

lemma bit_xtime:
  "bit (xtime x) 0 \<longleftrightarrow> bit x 7" "bit (xtime x) 1 \<longleftrightarrow> bit x 0 \<noteq> bit x 7"
  "bit (xtime x) 2 \<longleftrightarrow> bit x 1" "bit (xtime x) 3 \<longleftrightarrow> bit x 2 \<noteq> bit x 7"
  "bit (xtime x) 4 \<longleftrightarrow> bit x 3 \<noteq> bit x 7" "bit (xtime x) 5 \<longleftrightarrow> bit x 4"
  "bit (xtime x) 6 \<longleftrightarrow> bit x 5" "bit (xtime x) 7 \<longleftrightarrow> bit x 6"
  unfolding xtime_def bit_xor_iff bit_push_one by auto

lemma sliced_xtime:
  assumes "sliced n s x"
  shows "sliced n (xtime_slices s) (xtime x)"
proof -
  obtain a0 a1 a2 a3 a4 a5 a6 a7 where s: "s = [a0, a1, a2, a3, a4, a5, a6, a7]"
    using assms by (rule sliced_list8)
  show ?thesis
    using assms unfolding s xtime_slices.simps sliced_Cons8 bit_xtime bit_xor_iff by blast
qed

lemma sliced_mul_step:
  assumes "sliced n s x" and "sliced n t y" and "bit b n \<longleftrightarrow> P"
  shows "sliced n (map2 (\<lambda>x y. (x AND b) XOR y) s t) ((if P then x else 0) XOR y)"
  using assms by (auto simp: sliced_def bit_pointwise)

lemma sliced_mul_bits:
  assumes "list_all2 (\<lambda>b P. bit b n \<longleftrightarrow> P) bs Ps" and "sliced n (s :: 'a::len word list) x"
  shows "sliced n (mul_slices s bs) (gf_mul_bits x Ps)"
  using assms
proof (induction bs Ps arbitrary: s x rule: list_all2_induct)
  case Nil
  then have "n < LENGTH('a)" by (simp add: sliced_def)
  then show ?case by (simp add: sliced_zero)
next
  case (Cons b bs P Ps)
  then show ?case by (simp only: mul_slices.simps gf_mul_bits.simps sliced_mul_step sliced_xtime)
qed

lemma sliced_mul:
  assumes "sliced n s x" and "sliced n t y"
  shows "sliced n (mul_slices s t) (gf_mul x y)"
proof -
  have "list_all2 (\<lambda>b P. bit b n \<longleftrightarrow> P) t (map (bit y) [0..<8])"
    using assms(2) by (auto simp: sliced_def list_all2_conv_all_nth)
  with assms(1) show ?thesis unfolding gf_mul_def by (blast intro: sliced_mul_bits)
qed

lemma sliced_inv: "sliced n s x \<Longrightarrow> sliced n (inv_slices s) (gf_inv x)"
  unfolding inv_slices_def gf_inv_def Let_def by (intro sliced_mul)

lemma bit_rotl_byte:
  "n < 8 \<Longrightarrow> bit (word_rotl k (x :: u8)) n \<longleftrightarrow> bit x ((n + (8 - k mod 8)) mod 8)"
  by (simp add: bit_word_rotl_iff)

lemma bit_aes_affine:
  "bit (aes_affine x) 0 \<longleftrightarrow> \<not> (bit x 0 \<noteq> (bit x 7 \<noteq> (bit x 6 \<noteq> (bit x 5 \<noteq> bit x 4))))"
  "bit (aes_affine x) 1 \<longleftrightarrow> \<not> (bit x 1 \<noteq> (bit x 0 \<noteq> (bit x 7 \<noteq> (bit x 6 \<noteq> bit x 5))))"
  "bit (aes_affine x) 2 \<longleftrightarrow> (bit x 2 \<noteq> (bit x 1 \<noteq> (bit x 0 \<noteq> (bit x 7 \<noteq> bit x 6))))"
  "bit (aes_affine x) 3 \<longleftrightarrow> (bit x 3 \<noteq> (bit x 2 \<noteq> (bit x 1 \<noteq> (bit x 0 \<noteq> bit x 7))))"
  "bit (aes_affine x) 4 \<longleftrightarrow> (bit x 4 \<noteq> (bit x 3 \<noteq> (bit x 2 \<noteq> (bit x 1 \<noteq> bit x 0))))"
  "bit (aes_affine x) 5 \<longleftrightarrow> \<not> (bit x 5 \<noteq> (bit x 4 \<noteq> (bit x 3 \<noteq> (bit x 2 \<noteq> bit x 1))))"
  "bit (aes_affine x) 6 \<longleftrightarrow> \<not> (bit x 6 \<noteq> (bit x 5 \<noteq> (bit x 4 \<noteq> (bit x 3 \<noteq> bit x 2))))"
  "bit (aes_affine x) 7 \<longleftrightarrow> (bit x 7 \<noteq> (bit x 6 \<noteq> (bit x 5 \<noteq> (bit x 4 \<noteq> bit x 3))))"
  by (simp_all add: aes_affine_def bit_xor_iff bit_rotl_byte)

lemma bit_aes_inv_affine:
  "bit (aes_inv_affine x) 0 \<longleftrightarrow> \<not> (bit x 7 \<noteq> (bit x 5 \<noteq> bit x 2))"
  "bit (aes_inv_affine x) 1 \<longleftrightarrow> (bit x 0 \<noteq> (bit x 6 \<noteq> bit x 3))"
  "bit (aes_inv_affine x) 2 \<longleftrightarrow> \<not> (bit x 1 \<noteq> (bit x 7 \<noteq> bit x 4))"
  "bit (aes_inv_affine x) 3 \<longleftrightarrow> (bit x 2 \<noteq> (bit x 0 \<noteq> bit x 5))"
  "bit (aes_inv_affine x) 4 \<longleftrightarrow> (bit x 3 \<noteq> (bit x 1 \<noteq> bit x 6))"
  "bit (aes_inv_affine x) 5 \<longleftrightarrow> (bit x 4 \<noteq> (bit x 2 \<noteq> bit x 7))"
  "bit (aes_inv_affine x) 6 \<longleftrightarrow> (bit x 5 \<noteq> (bit x 3 \<noteq> bit x 0))"
  "bit (aes_inv_affine x) 7 \<longleftrightarrow> (bit x 6 \<noteq> (bit x 4 \<noteq> bit x 1))"
  by (simp_all add: aes_inv_affine_def bit_xor_iff bit_rotl_byte numeral_2_eq_2 [symmetric])

lemma sliced_affine:
  assumes "sliced n s x"
  shows "sliced n (affine_slices s) (aes_affine x)"
proof -
  obtain a0 a1 a2 a3 a4 a5 a6 a7 where s: "s = [a0, a1, a2, a3, a4, a5, a6, a7]"
    using assms by (rule sliced_list8)
  from assms show ?thesis
    unfolding s affine_slices.simps sliced_Cons8 bit_aes_affine
    by (elim conjE, intro conjI) (simp_all only: bit_pointwise)
qed

lemma sliced_inv_affine:
  assumes "sliced n s x"
  shows "sliced n (inv_affine_slices s) (aes_inv_affine x)"
proof -
  obtain a0 a1 a2 a3 a4 a5 a6 a7 where s: "s = [a0, a1, a2, a3, a4, a5, a6, a7]"
    using assms by (rule sliced_list8)
  from assms show ?thesis
    unfolding s inv_affine_slices.simps sliced_Cons8 bit_aes_inv_affine
    by (elim conjE, intro conjI) (simp_all only: bit_pointwise)
qed

lemma sliced_sbox: "sliced n s x \<Longrightarrow> sliced n (affine_slices (inv_slices s)) (aes_sbox x)"
  unfolding aes_sbox_def by (intro sliced_affine sliced_inv)

lemma sliced_inv_sbox: "sliced n s x \<Longrightarrow> sliced n (inv_slices (inv_affine_slices s)) (aes_inv_sbox x)"
  unfolding aes_inv_sbox_def by (intro sliced_inv sliced_inv_affine)

end
