(* ===== verification/Ctaes_Sbox.thy ===== *)
theory Ctaes_Sbox
  imports Ctaes Gf256
begin

text \<open>
  The S-box circuit of \<^verbatim>\<open>ctaes.c\<close> computes the S-box of FIPS-197. The circuit is run once on 256
  lanes that hold the 256 byte values; since it acts lane by lane, that run decides its
  behaviour on every state.
\<close>

section \<open>The run on all byte values\<close>

definition all_bytes :: "256 word list" where
  "all_bytes =
    [0xaaaaaaaaaaaaaaaaaaaaaaaaaaaaaaaaaaaaaaaaaaaaaaaaaaaaaaaaaaaaaaaa,
     0xcccccccccccccccccccccccccccccccccccccccccccccccccccccccccccccccc,
     0xf0f0f0f0f0f0f0f0f0f0f0f0f0f0f0f0f0f0f0f0f0f0f0f0f0f0f0f0f0f0f0f0,
     0xff00ff00ff00ff00ff00ff00ff00ff00ff00ff00ff00ff00ff00ff00ff00ff00,
     0xffff0000ffff0000ffff0000ffff0000ffff0000ffff0000ffff0000ffff0000,
     0xffffffff00000000ffffffff00000000ffffffff00000000ffffffff00000000,
     0xffffffffffffffff0000000000000000ffffffffffffffff0000000000000000,
     0xffffffffffffffffffffffffffffffff00000000000000000000000000000000]"

lemma not_256 [word_eval]: "NOT (x :: 256 word) = x XOR 0xffffffffffffffffffffffffffffffffffffffffffffffffffffffffffffffff"
proof -
  have "0xffffffffffffffffffffffffffffffffffffffffffffffffffffffffffffffff = (-1 :: 256 word)" by simp
  then show ?thesis by (simp only:) simp
qed

lemmas SubBytes_pre_apply =
  SubBytes_pre_def [of "[a0, a1, a2, a3, a4, a5, a6, a7]" for a0 a1 a2 a3 a4 a5 a6 a7, unfolded nth8]
lemmas SubBytes_pre_inv_apply =
  SubBytes_pre_inv_def [of "[a0, a1, a2, a3, a4, a5, a6, a7]" for a0 a1 a2 a3 a4 a5 a6 a7, unfolded nth8]
lemmas SubBytes_nonlinear_apply =
  SubBytes_nonlinear_def [THEN fun_cong,
    of "(T1, T2, T3, T4, T6, T8, T9, T10, T13, T14, T15, T16, T17, T19, T20, T22, T23, T24, T25,
      T26, T27, D)"
    for T1 T2 T3 T4 T6 T8 T9 T10 T13 T14 T15 T16 T17 T19 T20 T22 T23 T24 T25 T26 T27 D,
    unfolded prod.case]
lemmas SubBytes_post_apply =
  SubBytes_post_def [THEN fun_cong,
    of "(M46, M47, M48, M49, M50, M51, M52, M53, M54, M55, M56, M57, M58, M59, M60, M61, M62, M63)"
    for M46 M47 M48 M49 M50 M51 M52 M53 M54 M55 M56 M57 M58 M59 M60 M61 M62 M63,
    unfolded prod.case]
lemmas SubBytes_post_inv_apply =
  SubBytes_post_inv_def [THEN fun_cong,
    of "(M46, M47, M48, M49, M50, M51, M52, M53, M54, M55, M56, M57, M58, M59, M60, M61, M62, M63)"
    for M46 M47 M48 M49 M50 M51 M52 M53 M54 M55 M56 M57 M58 M59 M60 M61 M62 M63,
    unfolded prod.case]

lemmas gates_eval =
  SubBytes_gates_def if_True if_False SubBytes_pre_apply SubBytes_pre_inv_apply
  SubBytes_nonlinear_apply SubBytes_post_apply SubBytes_post_inv_apply Let_def word_eval

lemma map2_eval: "map2 f [] [] = []" "map2 f (x # xs) (y # ys) = f x y # map2 f xs ys"
  by simp_all

lemmas field_eval =
  inv_slices_def affine_slices.simps inv_affine_slices.simps mul_slices.simps xtime_slices.simps
  map2_eval Let_def word_eval

lemma gates_all_bytes:
  "SubBytes_gates False all_bytes = affine_slices (inv_slices all_bytes)"
  unfolding all_bytes_def
  by (simp only: gates_eval field_eval cong: let_weak_cong)

lemma gates_inv_all_bytes:
  "SubBytes_gates True all_bytes = inv_slices (inv_affine_slices all_bytes)"
  unfolding all_bytes_def
  by (simp only: gates_eval field_eval cong: let_weak_cong)

lemma gates_inv_gates_all_bytes:
  "SubBytes_gates True (SubBytes_gates False all_bytes) = all_bytes"
  unfolding all_bytes_def
  by (simp only: gates_eval cong: let_weak_cong)

lemma upt256: "[0..<256] = 0 # 1 # [2..<256::nat]"
  by (simp add: upt_rec [of 0] upt_rec [of "Suc 0"] numeral_2_eq_2)

lemma all_bytes_bit0:
  "list_all (\<lambda>v. bit (0xaaaaaaaaaaaaaaaaaaaaaaaaaaaaaaaaaaaaaaaaaaaaaaaaaaaaaaaaaaaaaaaa :: 256 word) v \<longleftrightarrow> bit v 0) [0..<256]"
  by (simp add: upt256 bit_0)

lemma all_bytes_bit1:
  "list_all (\<lambda>v. bit (0xcccccccccccccccccccccccccccccccccccccccccccccccccccccccccccccccc :: 256 word) v \<longleftrightarrow> bit v 1) [0..<256]"
  by (simp add: upt256 bit_0)

lemma all_bytes_bit2:
  "list_all (\<lambda>v. bit (0xf0f0f0f0f0f0f0f0f0f0f0f0f0f0f0f0f0f0f0f0f0f0f0f0f0f0f0f0f0f0f0f0 :: 256 word) v \<longleftrightarrow> bit v 2) [0..<256]"
  by (simp add: upt256 bit_0)

lemma all_bytes_bit3:
  "list_all (\<lambda>v. bit (0xff00ff00ff00ff00ff00ff00ff00ff00ff00ff00ff00ff00ff00ff00ff00ff00 :: 256 word) v \<longleftrightarrow> bit v 3) [0..<256]"
  by (simp add: upt256 bit_0)

lemma all_bytes_bit4:
  "list_all (\<lambda>v. bit (0xffff0000ffff0000ffff0000ffff0000ffff0000ffff0000ffff0000ffff0000 :: 256 word) v \<longleftrightarrow> bit v 4) [0..<256]"
  by (simp add: upt256 bit_0)

lemma all_bytes_bit5:
  "list_all (\<lambda>v. bit (0xffffffff00000000ffffffff00000000ffffffff00000000ffffffff00000000 :: 256 word) v \<longleftrightarrow> bit v 5) [0..<256]"
  by (simp add: upt256 bit_0)

lemma all_bytes_bit6:
  "list_all (\<lambda>v. bit (0xffffffffffffffff0000000000000000ffffffffffffffff0000000000000000 :: 256 word) v \<longleftrightarrow> bit v 6) [0..<256]"
  by (simp add: upt256 bit_0)

lemma all_bytes_bit7:
  "list_all (\<lambda>v. bit (0xffffffffffffffffffffffffffffffff00000000000000000000000000000000 :: 256 word) v \<longleftrightarrow> bit v 7) [0..<256]"
  by (simp add: upt256 bit_0)

lemma sliced_all_bytes: "sliced (unat x) all_bytes x"
proof -
  have v: "unat x < 256" using unsigned_less [of x, where ?'a = nat] by simp
  have "bit x j \<longleftrightarrow> bit (unat x) j" if "j < 8" for j
    using that by (simp add: bit_unsigned_iff)
  with v show ?thesis
    unfolding all_bytes_def sliced_Cons8
    using all_bytes_bit0 all_bytes_bit1 all_bytes_bit2 all_bytes_bit3
      all_bytes_bit4 all_bytes_bit5 all_bytes_bit6 all_bytes_bit7
    by (simp add: list_all_iff)
qed

section \<open>The circuit on any state\<close>

lemma length_SubBytes_gates [simp]: "length (SubBytes_gates inv' s) = 8"
  unfolding SubBytes_gates_def SubBytes_post_def SubBytes_post_inv_def Let_def
  by (simp split: prod.split)

lemma sliced_lane:
  "sliced n s x \<Longrightarrow> i < 8 \<Longrightarrow> lane n (unat x) (s ! i) (all_bytes ! i)"
  using sliced_all_bytes [of x] by (simp add: sliced_def lane_def)

lemma gates_lane:
  assumes "sliced n s x"
  shows "list_all2 (lane n (unat x)) (SubBytes_gates inv' s) (SubBytes_gates inv' all_bytes)"
  unfolding SubBytes_gates_def using sliced_lane [OF assms]
  by (auto intro: SubBytes_post_lane SubBytes_post_inv_lane SubBytes_nonlinear_lane
      SubBytes_pre_lane SubBytes_pre_inv_lane)

lemma sliced_transfer:
  assumes "list_all2 (lane n m) s t" and "sliced m t x"
  shows "sliced n s x"
proof -
  from assms have len: "length s = 8" by (simp add: sliced_def list_all2_lengthD)
  with assms have "\<forall>i<8. lane n m (s ! i) (t ! i)" by (simp add: list_all2_conv_all_nth)
  moreover from this have "lane n m (s ! 0) (t ! 0)" by simp
  ultimately show ?thesis using assms(2) len by (simp add: sliced_def lane_def)
qed

lemma gates_sbox:
  "sliced n s x \<Longrightarrow> sliced n (SubBytes_gates False s) (aes_sbox x)"
  using sliced_transfer [OF gates_lane] sliced_sbox [OF sliced_all_bytes, folded gates_all_bytes]
  by blast

lemma gates_inv_sbox:
  "sliced n s x \<Longrightarrow> sliced n (SubBytes_gates True s) (aes_inv_sbox x)"
  using sliced_transfer [OF gates_lane] sliced_inv_sbox [OF sliced_all_bytes, folded gates_inv_all_bytes]
  by blast

lemma aes_inv_sbox_sbox [simp]: "aes_inv_sbox (aes_sbox x) = x"
proof -
  have "sliced (unat x) (SubBytes_gates True (SubBytes_gates False all_bytes)) (aes_inv_sbox (aes_sbox x))"
    by (intro gates_inv_sbox gates_sbox sliced_all_bytes)
  then have "sliced (unat x) all_bytes (aes_inv_sbox (aes_sbox x))"
    by (simp only: gates_inv_gates_all_bytes)
  then show ?thesis by (rule sliced_unique [OF _ sliced_all_bytes])
qed

lemma wf_SubBytes [simp]: "wf_state (SubBytes s inv')"
  by (simp add: SubBytes_def)

lemma sliced_SaveBytes: "wf_state s \<Longrightarrow> k < 16 \<Longrightarrow> sliced (cell_pos k) (slice s) (SaveBytes s ! k)"
  by (simp add: sliced_def wf_state_def bit_SaveBytes)

lemma sliced_SaveBytes_unique:
  "wf_state s \<Longrightarrow> k < 16 \<Longrightarrow> sliced (cell_pos k) (slice s) x \<Longrightarrow> SaveBytes s ! k = x"
  by (blast intro: sliced_unique sliced_SaveBytes)

theorem SaveBytes_SubBytes:
  assumes "wf_state s"
  shows "SaveBytes (SubBytes s False) = map aes_sbox (SaveBytes s)"
proof (rule nth_equalityI)
  fix k assume "k < length (SaveBytes (SubBytes s False))"
  then have "k < 16" by simp
  with assms show "SaveBytes (SubBytes s False) ! k = map aes_sbox (SaveBytes s) ! k"
    by (auto intro: sliced_SaveBytes_unique simp: SubBytes_def gates_sbox sliced_SaveBytes)
qed simp

theorem SaveBytes_SubBytes_inv:
  assumes "wf_state s"
  shows "SaveBytes (SubBytes s True) = map aes_inv_sbox (SaveBytes s)"
proof (rule nth_equalityI)
  fix k assume "k < length (SaveBytes (SubBytes s True))"
  then have "k < 16" by simp
  with assms show "SaveBytes (SubBytes s True) ! k = map aes_inv_sbox (SaveBytes s) ! k"
    by (auto intro: sliced_SaveBytes_unique simp: SubBytes_def gates_inv_sbox sliced_SaveBytes)
qed simp

section \<open>Properties of the S-box circuit\<close>

text \<open>
  The gates of \<^verbatim>\<open>SubBytes\<close> compute the FIPS-197 S-box (inversion in GF(256) and the affine
  map) or its inverse on each of the sixteen bytes of a well-formed state.
\<close>

theorem aes_subbytes_circuit:
  assumes "wf_state s"
  shows "SaveBytes (SubBytes s False) = map aes_sbox (SaveBytes s)
    \<and> SaveBytes (SubBytes s True) = map aes_inv_sbox (SaveBytes s)"
  using assms by (simp add: SaveBytes_SubBytes SaveBytes_SubBytes_inv)

theorem aes_subbytes_circuit_witness:
  "SaveBytes (SubBytes zero_state False) = map aes_sbox (SaveBytes zero_state)"
  using aes_subbytes_circuit [of zero_state] by (simp add: wf_state_def zero_state_def)

end
