(* ===== verification/Ctaes_Cipher.thy ===== *)
theory Ctaes_Cipher
  imports Ctaes_Sbox
begin

text \<open>
  The cipher of \<^verbatim>\<open>ctaes.c\<close> against FIPS-197. The reference works on blocks of sixteen bytes in
  the order of the standard (byte \<open>4 * c + r\<close> is row \<open>r\<close>, column \<open>c\<close>). \<^const>\<open>SaveBytes\<close> maps a
  bit-sliced state to its block, every layer of the C code is shown to implement the layer of
  the standard under that map, and decryption undoes encryption.
\<close>

section \<open>The reference cipher\<close>

definition aes_shift_rows :: "bytes \<Rightarrow> bytes" where
  "aes_shift_rows b = map (\<lambda>k. b ! ((k + 4 * (k mod 4)) mod 16)) [0..<16]"

definition aes_inv_shift_rows :: "bytes \<Rightarrow> bytes" where
  "aes_inv_shift_rows b = map (\<lambda>k. b ! ((k + 12 * (k mod 4)) mod 16)) [0..<16]"

definition aes_column :: "(u8 \<Rightarrow> u8 \<Rightarrow> u8 \<Rightarrow> u8 \<Rightarrow> u8) \<Rightarrow> bytes \<Rightarrow> bytes" where
  "aes_column f b = map (\<lambda>k. f (b ! k) (b ! (4 * (k div 4) + (k + 1) mod 4))
     (b ! (4 * (k div 4) + (k + 2) mod 4)) (b ! (4 * (k div 4) + (k + 3) mod 4))) [0..<16]"

definition aes_mix :: "u8 \<Rightarrow> u8 \<Rightarrow> u8 \<Rightarrow> u8 \<Rightarrow> u8" where
  "aes_mix a b c d = gf_mul a 2 XOR gf_mul b 3 XOR c XOR d"

definition aes_inv_mix :: "u8 \<Rightarrow> u8 \<Rightarrow> u8 \<Rightarrow> u8 \<Rightarrow> u8" where
  "aes_inv_mix a b c d = gf_mul a 14 XOR gf_mul b 11 XOR gf_mul c 13 XOR gf_mul d 9"

definition aes_round :: "bytes list \<Rightarrow> nat \<Rightarrow> bytes \<Rightarrow> bytes" where
  "aes_round ks r s = map2 (XOR) (aes_column aes_mix (aes_shift_rows (map aes_sbox s))) (ks ! r)"

definition aes_cipher :: "bytes list \<Rightarrow> nat \<Rightarrow> bytes \<Rightarrow> bytes" where
  "aes_cipher ks nr p =
    map2 (XOR) (aes_shift_rows (map aes_sbox (fold (aes_round ks) [1..<nr] (map2 (XOR) p (ks ! 0)))))
      (ks ! nr)"

definition aes_inv_round :: "bytes list \<Rightarrow> nat \<Rightarrow> bytes \<Rightarrow> bytes" where
  "aes_inv_round ks r s =
    aes_column aes_inv_mix (map2 (XOR) (map aes_inv_sbox (aes_inv_shift_rows s)) (ks ! r))"

definition aes_inv_cipher :: "bytes list \<Rightarrow> nat \<Rightarrow> bytes \<Rightarrow> bytes" where
  "aes_inv_cipher ks nr c =
    map2 (XOR) (map aes_inv_sbox (aes_inv_shift_rows
      (fold (\<lambda>r. aes_inv_round ks (nr - r)) [1..<nr] (map2 (XOR) c (ks ! nr))))) (ks ! 0)"

lemma length_layers [simp]:
  "length (aes_shift_rows b) = 16" "length (aes_inv_shift_rows b) = 16" "length (aes_column f b) = 16"
  by (simp_all add: aes_shift_rows_def aes_inv_shift_rows_def aes_column_def)

section \<open>ShiftRows\<close>

lemma BIT_RANGE_values:
  "BIT_RANGE 0 4 = 0x000f" "BIT_RANGE 4 5 = 0x0010" "BIT_RANGE 5 8 = 0x00e0"
  "BIT_RANGE 8 10 = 0x0300" "BIT_RANGE 10 12 = 0x0c00" "BIT_RANGE 12 15 = 0x7000"
  "BIT_RANGE 15 16 = 0x8000" "BIT_RANGE 4 7 = 0x0070" "BIT_RANGE 7 8 = 0x0080"
  "BIT_RANGE 12 13 = 0x1000" "BIT_RANGE 13 16 = 0xe000"
  by (simp_all add: BIT_RANGE_def)

definition shift_rows_word :: "u16 \<Rightarrow> u16" where
  "shift_rows_word v =
     (v AND BIT_RANGE 0 4) OR
     BIT_RANGE_LEFT v 4 5 3 OR BIT_RANGE_RIGHT v 5 8 1 OR
     BIT_RANGE_LEFT v 8 10 2 OR BIT_RANGE_RIGHT v 10 12 2 OR
     BIT_RANGE_LEFT v 12 15 1 OR BIT_RANGE_RIGHT v 15 16 3"

definition inv_shift_rows_word :: "u16 \<Rightarrow> u16" where
  "inv_shift_rows_word v =
     (v AND BIT_RANGE 0 4) OR
     BIT_RANGE_LEFT v 4 7 1 OR BIT_RANGE_RIGHT v 7 8 3 OR
     BIT_RANGE_LEFT v 8 10 2 OR BIT_RANGE_RIGHT v 10 12 2 OR
     BIT_RANGE_LEFT v 12 13 3 OR BIT_RANGE_RIGHT v 13 16 1"

lemma bit_shift_rows_word:
  "n < 16 \<Longrightarrow> bit (shift_rows_word v) n \<longleftrightarrow> bit v (4 * (n div 4) + (n + n div 4) mod 4)"
  unfolding shift_rows_word_def BIT_RANGE_LEFT_def BIT_RANGE_RIGHT_def BIT_RANGE_values less16_cases
  by (elim insertE emptyE; hypsubst)
    (simp_all add: bit_or_iff bit_and_iff bit_push_bit_iff bit_drop_bit_eq
      numeral_2_eq_2 [symmetric] del: push_bit_Suc)

lemma bit_inv_shift_rows_word:
  "n < 16 \<Longrightarrow> bit (inv_shift_rows_word v) n \<longleftrightarrow> bit v (4 * (n div 4) + (n + 3 * (n div 4)) mod 4)"
  unfolding inv_shift_rows_word_def BIT_RANGE_LEFT_def BIT_RANGE_RIGHT_def BIT_RANGE_values less16_cases
  by (elim insertE emptyE; hypsubst)
    (simp_all add: bit_or_iff bit_and_iff bit_push_bit_iff bit_drop_bit_eq
      numeral_2_eq_2 [symmetric] del: push_bit_Suc)

lemma slice_ShiftRows [simp]:
  "slice (ShiftRows s) = map shift_rows_word (slice s)"
  "slice (InvShiftRows s) = map inv_shift_rows_word (slice s)"
  by (simp_all add: ShiftRows_def InvShiftRows_def shift_rows_word_def inv_shift_rows_word_def)

lemma wf_ShiftRows [simp]: "wf_state s \<Longrightarrow> wf_state (ShiftRows s)" "wf_state s \<Longrightarrow> wf_state (InvShiftRows s)"
  by (simp_all add: wf_state_def)

lemma SaveBytes_eqI:
  assumes "length xs = 16"
    and "\<And>k b. k < 16 \<Longrightarrow> b < 8 \<Longrightarrow> bit (slice s ! b) (cell_pos k) \<longleftrightarrow> bit (xs ! k) b"
  shows "SaveBytes s = xs"
  using assms by (auto intro!: nth_equalityI word_bits_eqI simp: bit_SaveBytes)

lemma shift_rows_pos:
  assumes "k < 16"
  shows "cell_pos ((k + 4 * (k mod 4)) mod 16) = 4 * (cell_pos k div 4) + (cell_pos k + cell_pos k div 4) mod 4"
    and "cell_pos ((k + 12 * (k mod 4)) mod 16) = 4 * (cell_pos k div 4) + (cell_pos k + 3 * (cell_pos k div 4)) mod 4"
  using assms unfolding less16_cases by (auto simp: cell_pos_def)

lemma SaveBytes_ShiftRows:
  assumes "wf_state s"
  shows "SaveBytes (ShiftRows s) = aes_shift_rows (SaveBytes s)"
  using assms
  by (intro SaveBytes_eqI)
    (simp_all add: aes_shift_rows_def wf_state_def bit_shift_rows_word bit_SaveBytes shift_rows_pos)

lemma SaveBytes_InvShiftRows:
  assumes "wf_state s"
  shows "SaveBytes (InvShiftRows s) = aes_inv_shift_rows (SaveBytes s)"
  using assms
  by (intro SaveBytes_eqI)
    (simp_all add: aes_inv_shift_rows_def wf_state_def bit_inv_shift_rows_word bit_SaveBytes shift_rows_pos)

section \<open>MixColumns\<close>

lemma bit_ROT:
  assumes "n < 16" and "b \<in> {1, 2, 3}"
  shows "bit (ROT x b) n \<longleftrightarrow> bit x ((n + 4 * b) mod 16)"
proof -
  from assms have b: "b \<le> 3" by auto
  have "(n + 4 * b) mod 16 = (if b * 4 + n < 16 then b * 4 + n else n - (4 - b) * 4)"
    using assms(1) b by (simp add: le_mod_geq) arith
  moreover have "bit x (b * 4 + n) \<Longrightarrow> b * 4 + n < 16"
    using bit_imp_le_length [of x "b * 4 + n"] by simp
  moreover have "(4 - b) * 4 \<le> n \<longleftrightarrow> \<not> b * 4 + n < 16"
    using assms(1) b by auto
  ultimately show ?thesis
    using assms(1) by (auto simp: ROT_def bit_or_iff bit_drop_bit_eq bit_push_bit_iff)
qed

lemma gf_mul_small:
  "gf_mul x 2 = xtime x" "gf_mul x 3 = x XOR xtime x"
  "gf_mul x 9 = x XOR xtime (xtime (xtime x))"
  "gf_mul x 11 = x XOR xtime x XOR xtime (xtime (xtime x))"
  "gf_mul x 13 = x XOR xtime (xtime x) XOR xtime (xtime (xtime x))"
  "gf_mul x 14 = xtime x XOR xtime (xtime x) XOR xtime (xtime (xtime x))"
  by (simp_all add: gf_mul_def upt8 bit_0)

lemma xtime_xor: "xtime (x XOR y) = xtime x XOR xtime y"
  by (rule word_bits_eqI) (auto simp: xtime_def bit_pointwise push_bit_xor)

lemma wf_MixColumns [simp]: "wf_state (MixColumns s inv')"
  by (simp add: MixColumns_def MixColumns_fwd_def MixColumns_extra_def Let_def)

lemma mod16_steps:
  fixes p :: nat
  shows "((p + 4) mod 16 + 4) mod 16 = (p + 8) mod 16" "((p + 8) mod 16 + 4) mod 16 = (p + 12) mod 16"
    "p < 16 \<Longrightarrow> ((p + 8) mod 16 + 8) mod 16 = p" "((p + 8) mod 16 + 12) mod 16 = (p + 4) mod 16"
  unfolding mod_add_left_eq add.assoc using mod_add_self2 [of "p + 4" 16] by (simp_all add: add.commute)

lemma sliced_MixColumns_fwd:
  assumes "sliced n s a" and "sliced ((n + 4) mod 16) s b" and "sliced ((n + 8) mod 16) s c"
    and "sliced ((n + 12) mod 16) s d"
  shows "sliced n (MixColumns_fwd s) (aes_mix a b c d)"
proof -
  obtain s0 s1 s2 s3 s4 s5 s6 s7 where s: "s = [s0, s1, s2, s3, s4, s5, s6, s7]"
    using assms(1) by (rule sliced_list8)
  from assms(1) have n: "n < 16" by (simp add: sliced_def)
  then have rot: "bit (ROT x 1) n \<longleftrightarrow> bit x ((n + 4) mod 16)"
    "bit (ROT x 1) ((n + 4) mod 16) \<longleftrightarrow> bit x ((n + 8) mod 16)"
    "bit (ROT x 3) n \<longleftrightarrow> bit x ((n + 12) mod 16)" for x
    by (simp_all add: bit_ROT mod16_steps)
  have rx: "ROT (x XOR y) 1 = ROT x 1 XOR ROT y 1" for x y
    by (rule word_bits_eqI) (simp add: bit_ROT bit_pointwise)
  note lanes = assms [unfolded s sliced_Cons8]
  show ?thesis
    unfolding s MixColumns_fwd_def Let_def nth8 sliced_Cons8 aes_mix_def gf_mul_small rx
      bit_xor_bxor rot bit_xtime bxor_def [symmetric]
    by (intro conjI) (simp_all only: lanes bxor_ac bxor_cancel)
qed

lemma sliced_MixColumns_extra:
  assumes "sliced n s a" and "sliced ((n + 8) mod 16) s c"
  shows "sliced n (MixColumns_extra s) (a XOR xtime (xtime (a XOR c)))"
proof -
  obtain s0 s1 s2 s3 s4 s5 s6 s7 where s: "s = [s0, s1, s2, s3, s4, s5, s6, s7]"
    using assms(1) by (rule sliced_list8)
  from assms(1) have n: "n < 16" by (simp add: sliced_def)
  then have rot: "bit (ROT x 2) n \<longleftrightarrow> bit x ((n + 8) mod 16)" for x
    by (simp add: bit_ROT)
  note lanes = assms [unfolded s sliced_Cons8]
  show ?thesis
    unfolding s MixColumns_extra_def Let_def nth8 sliced_Cons8 bit_xor_bxor rot
      bit_xtime bxor_def [symmetric]
    by (intro conjI) (simp_all only: lanes bxor_ac bxor_cancel)
qed

lemma aes_inv_mix_decompose:
  "aes_inv_mix a b c d =
    (let a' = aes_mix a b c d; c' = aes_mix c d a b in a' XOR xtime (xtime (a' XOR c')))"
  unfolding aes_inv_mix_def aes_mix_def gf_mul_small Let_def xtime_xor
  by (simp add: ac_simps)

lemma column_pos:
  assumes "k < 16"
  shows "cell_pos (4 * (k div 4) + (k + 1) mod 4) = (cell_pos k + 4) mod 16"
    and "cell_pos (4 * (k div 4) + (k + 2) mod 4) = (cell_pos k + 8) mod 16"
    and "cell_pos (4 * (k div 4) + (k + 3) mod 4) = (cell_pos k + 12) mod 16"
    and "4 * (k div 4) + (k + 1) mod 4 < 16" and "4 * (k div 4) + (k + 2) mod 4 < 16"
    and "4 * (k div 4) + (k + 3) mod 4 < 16"
  using assms unfolding less16_cases by (auto simp: cell_pos_def)

lemma sliced_column:
  assumes "wf_state s" and "k < 16"
  shows "sliced (cell_pos k) (slice s) (SaveBytes s ! k)"
    and "sliced ((cell_pos k + 4) mod 16) (slice s) (SaveBytes s ! (4 * (k div 4) + (k + 1) mod 4))"
    and "sliced ((cell_pos k + 8) mod 16) (slice s) (SaveBytes s ! (4 * (k div 4) + (k + 2) mod 4))"
    and "sliced ((cell_pos k + 12) mod 16) (slice s) (SaveBytes s ! (4 * (k div 4) + (k + 3) mod 4))"
  using assms by (simp_all only: sliced_SaveBytes flip: column_pos(1-3) add: column_pos(4-6))

lemma SaveBytes_MixColumns:
  assumes "wf_state s"
  shows "SaveBytes (MixColumns s False) = aes_column aes_mix (SaveBytes s)"
proof (rule nth_equalityI)
  fix k assume "k < length (SaveBytes (MixColumns s False))"
  then have k: "k < 16" by simp
  show "SaveBytes (MixColumns s False) ! k = aes_column aes_mix (SaveBytes s) ! k"
    using sliced_MixColumns_fwd [OF sliced_column [OF assms k]] k
    by (intro sliced_SaveBytes_unique wf_MixColumns) (simp_all add: aes_column_def MixColumns_def)
qed simp

lemma SaveBytes_MixColumns_inv:
  assumes "wf_state s"
  shows "SaveBytes (MixColumns s True) = aes_column aes_inv_mix (SaveBytes s)"
proof (rule nth_equalityI)
  fix k assume "k < length (SaveBytes (MixColumns s True))"
  then have k: "k < 16" by simp
  let ?p = "cell_pos k" and ?b = "SaveBytes s" and ?i = "\<lambda>j. 4 * (k div 4) + (k + j) mod 4"
  note sl = sliced_column [OF assms k]
  have m: "((?p + 8) mod 16 + 4) mod 16 = (?p + 12) mod 16" "((?p + 8) mod 16 + 8) mod 16 = ?p"
    "((?p + 8) mod 16 + 12) mod 16 = (?p + 4) mod 16"
    using cell_pos_less [OF k] by (simp_all only: mod16_steps)
  have fwd: "sliced ?p (MixColumns_fwd (slice s)) (aes_mix (?b ! k) (?b ! ?i 1) (?b ! ?i 2) (?b ! ?i 3))"
    by (rule sliced_MixColumns_fwd [OF sl])
  have "sliced ((?p + 8) mod 16) (MixColumns_fwd (slice s))
      (aes_mix (?b ! ?i 2) (?b ! ?i 3) (?b ! k) (?b ! ?i 1))"
    by (rule sliced_MixColumns_fwd) (use sl in \<open>simp_all only: m\<close>)
  from sliced_MixColumns_extra [OF fwd this] k
  show "SaveBytes (MixColumns s True) ! k = aes_column aes_inv_mix ?b ! k"
    by (intro sliced_SaveBytes_unique wf_MixColumns)
      (simp_all add: aes_column_def aes_inv_mix_decompose MixColumns_def Let_def)
qed simp

section \<open>The cipher\<close>

lemma wf_AddRoundKey [simp]: "wf_state (AddRoundKey s k)"
  by (simp add: AddRoundKey_def)

lemma SaveBytes_AddRoundKey:
  "SaveBytes (AddRoundKey s k) = map2 (XOR) (SaveBytes s) (SaveBytes k)"
  by (rule SaveBytes_eqI) (simp_all add: AddRoundKey_def bit_xor_iff bit_SaveBytes)

lemmas SaveBytes_layers =
  SaveBytes_SubBytes SaveBytes_SubBytes_inv SaveBytes_ShiftRows SaveBytes_InvShiftRows
  SaveBytes_MixColumns SaveBytes_MixColumns_inv SaveBytes_AddRoundKey

lemma fold_refines:
  assumes "\<And>r s. r \<in> set rs \<Longrightarrow> wf_state s \<Longrightarrow> wf_state (f r s) \<and> SaveBytes (f r s) = g r (SaveBytes s)"
    and "wf_state s"
  shows "wf_state (fold f rs s) \<and> SaveBytes (fold f rs s) = fold g rs (SaveBytes s)"
  using assms by (induction rs arbitrary: s) simp_all

lemma AES_encrypt_refines:
  assumes "length rounds = nrounds + 1" and "length plain16 = 16"
  shows "AES_encrypt rounds nrounds plain16 = aes_cipher (map SaveBytes rounds) nrounds plain16"
proof -
  let ?s = "AddRoundKey (LoadBytes zero_state plain16) (rounds ! 0)"
  let ?f = "\<lambda>round s. AddRoundKey (MixColumns (ShiftRows (SubBytes s False)) False) (rounds ! round)"
  have "wf_state (fold ?f [1..<nrounds] ?s) \<and>
      SaveBytes (fold ?f [1..<nrounds] ?s) = fold (aes_round (map SaveBytes rounds)) [1..<nrounds] (SaveBytes ?s)"
    by (rule fold_refines) (auto simp: SaveBytes_layers aes_round_def assms)
  with assms show ?thesis
    by (simp add: AES_encrypt_def aes_cipher_def Let_def SaveBytes_layers SaveBytes_LoadBytes)
qed

lemma AES_decrypt_refines:
  assumes "length rounds = nrounds + 1" and "length cipher16 = 16"
  shows "AES_decrypt rounds nrounds cipher16 = aes_inv_cipher (map SaveBytes rounds) nrounds cipher16"
proof -
  let ?s = "AddRoundKey (LoadBytes zero_state cipher16) (rounds ! nrounds)"
  let ?f = "\<lambda>round s. MixColumns (AddRoundKey (SubBytes (InvShiftRows s) True) (rounds ! (nrounds - round))) True"
  have "wf_state (fold ?f [1..<nrounds] ?s) \<and>
      SaveBytes (fold ?f [1..<nrounds] ?s) =
      fold (\<lambda>r. aes_inv_round (map SaveBytes rounds) (nrounds - r)) [1..<nrounds] (SaveBytes ?s)"
    by (rule fold_refines) (auto simp: SaveBytes_layers aes_inv_round_def assms)
  with assms show ?thesis
    by (simp add: AES_decrypt_def aes_inv_cipher_def Let_def SaveBytes_layers SaveBytes_LoadBytes)
qed

section \<open>Decryption undoes encryption\<close>

lemma aes_inv_shift_rows_shift_rows:
  assumes "length b = 16"
  shows "aes_inv_shift_rows (aes_shift_rows b) = b"
proof (rule nth_equalityI)
  fix k assume "k < length (aes_inv_shift_rows (aes_shift_rows b))"
  then have "k < 16" by simp
  then show "aes_inv_shift_rows (aes_shift_rows b) ! k = b ! k"
    unfolding less16_cases
    by (elim insertE emptyE; hypsubst) (simp_all add: aes_shift_rows_def aes_inv_shift_rows_def)
qed (simp add: assms)

lemma aes_inv_mix_mix:
  "aes_inv_mix (aes_mix a b c d) (aes_mix b c d a) (aes_mix c d a b) (aes_mix d a b c) = a"
  unfolding aes_inv_mix_def aes_mix_def gf_mul_small xtime_xor by (simp add: ac_simps)

lemma aes_inv_mix_columns_mix_columns:
  assumes "length b = 16"
  shows "aes_column aes_inv_mix (aes_column aes_mix b) = b"
proof (rule nth_equalityI)
  fix k assume "k < length (aes_column aes_inv_mix (aes_column aes_mix b))"
  then have k: "k < 16" by simp
  then show "aes_column aes_inv_mix (aes_column aes_mix b) ! k = b ! k"
    unfolding less16_cases
    by (elim insertE emptyE; hypsubst) (simp_all add: aes_column_def aes_inv_mix_mix numeral_2_eq_2 [symmetric])
qed (simp add: assms)

lemma map2_xor_twice:
  "length xs = length (ys :: 'a::len word list) \<Longrightarrow> map2 (XOR) (map2 (XOR) xs ys) ys = xs"
  by (rule nth_equalityI) (simp_all add: xor.assoc)

text \<open>\<open>aes_before_last\<close> is the block right before the last round key is added.\<close>

definition aes_before_last :: "bytes list \<Rightarrow> nat \<Rightarrow> bytes \<Rightarrow> bytes" where
  "aes_before_last ks nr p = aes_shift_rows (map aes_sbox (fold (aes_round ks) [1..<nr] (map2 (XOR) p (ks ! 0))))"

lemma length_fold_aes_round:
  assumes "\<And>r. r \<in> set rs \<Longrightarrow> length (ks ! r) = 16" and "length p = 16"
  shows "length (fold (aes_round ks) rs p) = 16"
  using assms by (induction rs arbitrary: p) (simp_all add: aes_round_def)

lemma aes_inv_round_step:
  assumes "\<And>r. r \<le> Suc nr \<Longrightarrow> length (ks ! r) = 16" and "length p = 16" and "1 \<le> nr"
  shows "aes_inv_round ks nr (aes_before_last ks (Suc nr) p) = aes_before_last ks nr p"
proof -
  let ?x = "fold (aes_round ks) [1..<nr] (map2 (XOR) p (ks ! 0))"
  have "length ?x = 16" using assms by (intro length_fold_aes_round) auto
  with assms have "map aes_inv_sbox (aes_inv_shift_rows (aes_before_last ks (Suc nr) p)) =
      map2 (XOR) (aes_column aes_mix (aes_shift_rows (map aes_sbox ?x))) (ks ! nr)"
    by (simp add: aes_before_last_def aes_inv_shift_rows_shift_rows aes_round_def comp_def)
  then show ?thesis
    using assms(1) [of nr]
    by (simp add: aes_inv_round_def map2_xor_twice aes_inv_mix_columns_mix_columns aes_before_last_def)
qed

lemma aes_inv_rounds:
  assumes "\<And>r. r \<le> nr \<Longrightarrow> length (ks ! r) = 16" and "length p = 16" and "m < nr"
  shows "fold (\<lambda>r. aes_inv_round ks (nr - r)) [1..<Suc m] (aes_before_last ks nr p) =
    aes_before_last ks (nr - m) p"
  using assms(3)
proof (induction m)
  case 0
  then show ?case by simp
next
  case (Suc m)
  have "aes_inv_round ks (nr - Suc m) (aes_before_last ks (Suc (nr - Suc m)) p) =
      aes_before_last ks (nr - Suc m) p"
    using Suc.prems assms(1,2) by (intro aes_inv_round_step) auto
  moreover have "Suc (nr - Suc m) = nr - m" using Suc.prems by simp
  ultimately show ?case using Suc by simp
qed

lemma aes_inv_cipher_cipher:
  assumes keys: "\<And>r. r \<le> nr \<Longrightarrow> length (ks ! r) = 16" and p: "length p = 16" and nr: "1 \<le> nr"
  shows "aes_inv_cipher ks nr (aes_cipher ks nr p) = p"
proof -
  have "length (aes_before_last ks nr p) = 16" by (simp add: aes_before_last_def)
  then have "map2 (XOR) (aes_cipher ks nr p) (ks ! nr) = aes_before_last ks nr p"
    using keys [of nr] by (simp add: aes_cipher_def map2_xor_twice aes_before_last_def)
  moreover have "fold (\<lambda>r. aes_inv_round ks (nr - r)) [1..<nr] (aes_before_last ks nr p) =
      aes_before_last ks 1 p"
    using aes_inv_rounds [of nr ks p "nr - 1"] keys p nr by simp
  ultimately show ?thesis
    using keys [of 0] p
    by (simp add: aes_inv_cipher_def aes_before_last_def aes_inv_shift_rows_shift_rows
        map2_xor_twice comp_def)
qed

lemma length_AES_encrypt [simp]: "length (AES_encrypt rounds nrounds p) = 16"
  by (simp add: AES_encrypt_def Let_def)

lemma AES_decrypt_encrypt:
  assumes "length rounds = nrounds + 1" and "1 \<le> nrounds" and "length plain16 = 16"
  shows "AES_decrypt rounds nrounds (AES_encrypt rounds nrounds plain16) = plain16"
  using assms by (simp add: AES_decrypt_refines AES_encrypt_refines [symmetric])
    (simp add: AES_encrypt_refines aes_inv_cipher_cipher)

end
