(* ===== verification/Ctaes_Keys.thy ===== *)
theory Ctaes_Keys
  imports Ctaes_Cipher
begin

text \<open>
  The key schedule of \<^verbatim>\<open>ctaes.c\<close>: \<^const>\<open>AES_setup\<close> produces the round keys of the key expansion
  of FIPS-197, in bit-sliced form.
\<close>

section \<open>The reference key expansion\<close>

definition aes_rcon :: "nat \<Rightarrow> u8" where
  "aes_rcon k = (xtime ^^ k) 1"

function key_word :: "bytes \<Rightarrow> nat \<Rightarrow> nat \<Rightarrow> bytes" where
  "key_word key nk i =
    (if i < nk \<or> nk = 0 then map (\<lambda>r. key ! (4 * i + r)) [0..<4]
     else
       (let temp = key_word key nk (i - 1);
            temp = (if i mod nk = 0
                    then map2 (XOR) (map aes_sbox (rotate1 temp)) [aes_rcon (i div nk - 1), 0, 0, 0]
                    else if nk > 6 \<and> i mod nk = 4 then map aes_sbox temp
                    else temp)
        in map2 (XOR) temp (key_word key nk (i - nk))))"
  by pat_completeness auto
termination
  by (relation "measure (\<lambda>(key, nk, i). i)") auto

declare key_word.simps [simp del]

definition key_expansion :: "bytes \<Rightarrow> nat \<Rightarrow> nat \<Rightarrow> bytes list" where
  "key_expansion key nk nr =
    map (\<lambda>r. concat (map (\<lambda>c. key_word key nk (4 * r + c)) [0..<4])) [0..<nr + 1]"

lemma length_key_word [simp]: "length (key_word key nk i) = 4"
proof (induction key nk i rule: key_word.induct)
  case (1 key nk i)
  show ?case
  proof (cases "i < nk \<or> nk = 0")
    case False
    with 1 show ?thesis by (subst key_word.simps) (simp add: Let_def)
  qed (subst key_word.simps, simp)
qed

section \<open>Columns of the bit-sliced states\<close>

lemma bit_mask_1111:
  "n < 16 \<Longrightarrow> bit (x AND 0x1111 :: u16) n \<longleftrightarrow> n mod 4 = 0 \<and> bit x n"
  unfolding less16_cases bit_and_iff by (elim insertE emptyE; hypsubst) (simp_all add: bit_0)

text \<open>\<open>column_of s w\<close>: column 0 of the state holds the four bytes \<open>w\<close>.\<close>

definition column_of :: "AES_state \<Rightarrow> bytes \<Rightarrow> bool" where
  "column_of s w \<longleftrightarrow> wf_state s \<and> length w = 4 \<and> (\<forall>r<4. sliced (4 * r) (slice s) (w ! r))"

lemma column_of_SubBytes: "column_of s w \<Longrightarrow> column_of (SubBytes s False) (map aes_sbox w)"
  by (simp add: column_of_def SubBytes_def gates_sbox)

lemma bit_rotate_rows:
  "n < 16 \<Longrightarrow> bit (drop_bit 4 x OR push_bit 12 (x :: u16)) n \<longleftrightarrow> bit x ((n + 4) mod 16)"
  using bit_ROT [of n 1 x] by (simp add: ROT_def)

lemma column_of_Transform:
  assumes "column_of s w" and "column_of rc v"
  shows "column_of (KeySetupTransform s rc) (map2 (XOR) (rotate1 w) v)"
proof -
  have "sliced (4 * r) (slice (KeySetupTransform s rc)) (map2 (XOR) (rotate1 w) v ! r)" if r: "r < 4" for r
  proof -
    have "rotate1 w ! r = w ! (Suc r mod 4)"
      using assms(1) r by (simp add: column_of_def nth_rotate1)
    moreover have "(4 * r + 4) mod 16 = 4 * (Suc r mod 4)"
      using r by (auto simp: less4_cases)
    ultimately show ?thesis
      using assms r by (simp add: column_of_def sliced_def KeySetupTransform_def bit_xor_iff bit_rotate_rows)
  qed
  with assms show ?thesis by (simp add: column_of_def KeySetupTransform_def)
qed

lemma column_of_MultX:
  assumes "column_of s w"
  shows "column_of (MultX s) (map xtime w)"
proof -
  have "slice (MultX s) = xtime_slices (slice s)"
    using assms by (auto simp: column_of_def wf_state_def MultX_def Let_def elim: length8_cases)
  moreover have "wf_state (MultX s)" by (simp add: MultX_def Let_def)
  ultimately show ?thesis using assms by (simp add: column_of_def sliced_xtime)
qed

text \<open>
  \<open>holds_columns W N rounds\<close>: the columns \<open>j < N\<close> of the round keys hold the words \<open>W j\<close>, the
  others are zero.
\<close>

definition holds_columns :: "(nat \<Rightarrow> bytes) \<Rightarrow> nat \<Rightarrow> AES_state list \<Rightarrow> bool" where
  "holds_columns W N rounds \<longleftrightarrow> (\<forall>s \<in> set rounds. wf_state s) \<and>
    (\<forall>J < length rounds. \<forall>c<4. \<forall>r<4. \<forall>b<8.
      bit (slice (rounds ! J) ! b) (4 * r + c) \<longleftrightarrow> 4 * J + c < N \<and> bit (W (4 * J + c) ! r) b)"

lemma holds_columnsD:
  assumes "holds_columns W N rounds" and "j div 4 < length rounds" and "r < 4" and "b < 8"
  shows "bit (slice (rounds ! (j div 4)) ! b) (j mod 4 + 4 * r) \<longleftrightarrow> j < N \<and> bit (W j ! r) b"
proof -
  have "4 * (j div 4) + j mod 4 = j" "j mod 4 < 4" by simp_all
  with assms show ?thesis unfolding holds_columns_def by (metis add.commute)
qed

lemma column_of_GetOneColumn:
  assumes "holds_columns W N rounds" and "j < N" and "j div 4 < length rounds" and "length (W j) = 4"
  shows "column_of (GetOneColumn s (rounds ! (j div 4)) (j mod 4)) (W j)"
  using assms
  by (auto simp: column_of_def sliced_def GetOneColumn_def bit_mask_1111 bit_drop_bit_eq
      holds_columnsD [OF assms(1,3)])

lemma column_of_Mix:
  assumes "column_of s w" and "holds_columns W N rounds" and "j < N" and "j div 4 < length rounds"
    and "length (W j) = 4"
  shows "column_of (fst (KeySetupColumnMix s r (rounds ! (j div 4)) c1 (j mod 4))) (map2 (XOR) w (W j))"
  using assms
  by (auto simp: column_of_def sliced_def KeySetupColumnMix_def Let_def bit_xor_iff bit_mask_1111
      bit_drop_bit_eq holds_columnsD [OF assms(2,4)])

lemma column_shift_pos:
  assumes "c < 4" and "c1 < (4::nat)"
  shows "c1 \<le> 4 * r + c \<and> (4 * r + c - c1) mod 4 = 0 \<longleftrightarrow> c = c1"
  using assms unfolding less4_cases by (elim insertE emptyE; hypsubst; presburger)

lemma holds_columns_Mix:
  assumes cols: "holds_columns W i rounds" and i: "i div 4 < length rounds"
    and col: "column_of (fst (KeySetupColumnMix s (rounds ! (i div 4)) a (i mod 4) c2)) (W i)"
  shows "holds_columns W (Suc i)
    (rounds[i div 4 := snd (KeySetupColumnMix s (rounds ! (i div 4)) a (i mod 4) c2)])"
proof -
  let ?R = "rounds ! (i div 4)" and ?s' = "fst (KeySetupColumnMix s (rounds ! (i div 4)) a (i mod 4) c2)"
  let ?r' = "snd (KeySetupColumnMix s (rounds ! (i div 4)) a (i mod 4) c2)"
  have new: "bit (slice ?r' ! b) (4 * r + c) \<longleftrightarrow> bit (slice ?R ! b) (4 * r + c) \<or> c = i mod 4 \<and> bit (W i ! r) b"
    if "b < 8" "r < 4" "c < 4" for b r c
  proof -
    have "slice ?r' ! b = slice ?R ! b OR push_bit (i mod 4) (slice ?s' ! b AND 0x1111)"
      using that by (simp add: KeySetupColumnMix_def Let_def)
    then have "bit (slice ?r' ! b) (4 * r + c) \<longleftrightarrow> bit (slice ?R ! b) (4 * r + c) \<or>
        (i mod 4 \<le> 4 * r + c \<and> (4 * r + c - i mod 4) mod 4 = 0) \<and> bit (slice ?s' ! b) (4 * r + c - i mod 4)"
      using that by (simp only: bit_or_iff bit_push_bit_iff) (auto simp: bit_mask_1111)
    moreover have "bit (slice ?s' ! b) (4 * r) \<longleftrightarrow> bit (W i ! r) b"
      using col that by (simp add: column_of_def sliced_def)
    ultimately show ?thesis
      using column_shift_pos [OF that(3), of "i mod 4" r] by auto
  qed
  have old: "bit (slice (rounds ! J) ! b) (4 * r + c) \<longleftrightarrow> 4 * J + c < i \<and> bit (W (4 * J + c) ! r) b"
    if "J < length rounds" "c < 4" "r < 4" "b < 8" for J c r b
    using cols that by (simp add: holds_columns_def)
  have "bit (slice (rounds[i div 4 := ?r'] ! J) ! b) (4 * r + c) \<longleftrightarrow>
      4 * J + c < Suc i \<and> bit (W (4 * J + c) ! r) b"
    if "J < length rounds" "c < 4" "r < 4" "b < 8" for J c r b
  proof -
    have "4 * J + c = i \<longleftrightarrow> J = i div 4 \<and> c = i mod 4" using that(2) by auto
    then show ?thesis using that i by (cases "J = i div 4") (auto simp: new old less_Suc_eq)
  qed
  moreover have "wf_state ?r'" by (simp add: KeySetupColumnMix_def Let_def)
  ultimately show ?thesis
    using cols by (auto simp: holds_columns_def dest!: set_update_subset_insert [THEN subsetD])
qed

section \<open>Loading the key\<close>

text \<open>\<open>holds_bytes key M rounds\<close>: the first \<open>M\<close> bytes of the key are loaded, the rest is zero.\<close>

definition holds_bytes :: "bytes \<Rightarrow> nat \<Rightarrow> AES_state list \<Rightarrow> bool" where
  "holds_bytes key M rounds \<longleftrightarrow> (\<forall>s \<in> set rounds. wf_state s) \<and>
    (\<forall>J < length rounds. \<forall>c<4. \<forall>r<4. \<forall>b<8. bit (slice (rounds ! J) ! b) (4 * r + c) \<longleftrightarrow>
      4 * (4 * J + c) + r < M \<and> bit (key ! (4 * (4 * J + c) + r)) b)"

lemma base4_eq: "a < 4 \<Longrightarrow> b < 4 \<Longrightarrow> 4 * x + a = 4 * y + b \<longleftrightarrow> x = y \<and> a = (b::nat)"
  by arith

lemma holds_bytes_step:
  assumes "holds_bytes key (4 * i + q) rounds" and "q < 4" and i: "i div 4 < length rounds"
  shows "holds_bytes key (4 * i + Suc q)
    (rounds[i div 4 := LoadByte (rounds ! (i div 4)) (key ! (4 * i + q)) q (i mod 4)])"
proof -
  let ?R = "rounds ! (i div 4)" let ?r' = "LoadByte ?R (key ! (4 * i + q)) q (i mod 4)"
  have wf: "wf_state ?R" using assms by (simp add: holds_bytes_def)
  have "bit (slice (rounds[i div 4 := ?r'] ! J) ! b) (4 * r + c) \<longleftrightarrow>
      4 * (4 * J + c) + r < 4 * i + Suc q \<and> bit (key ! (4 * (4 * J + c) + r)) b"
    if J: "J < length rounds" "c < 4" "r < 4" "b < 8" for J c r b
  proof -
    have old: "bit (slice (rounds ! J) ! b) (4 * r + c) \<longleftrightarrow>
        4 * (4 * J + c) + r < 4 * i + q \<and> bit (key ! (4 * (4 * J + c) + r)) b"
      using assms(1) J by (simp add: holds_bytes_def)
    have pos: "4 * (4 * J + c) + r = 4 * i + q \<longleftrightarrow> J = i div 4 \<and> 4 * r + c = q * 4 + i mod 4"
    proof -
      have "4 * (4 * J + c) + r = 4 * i + q \<longleftrightarrow> 4 * J + c = 4 * (i div 4) + i mod 4 \<and> r = q"
        unfolding mult_div_mod_eq using J(3) assms(2) by (rule base4_eq)
      also have "\<dots> \<longleftrightarrow> J = i div 4 \<and> 4 * r + c = 4 * q + i mod 4"
        using J by (subst (1 2) base4_eq) auto
      finally show ?thesis by (simp add: mult.commute)
    qed
    show ?thesis
    proof (cases "J = i div 4")
      case True
      then show ?thesis
        using J i wf pos old by (auto simp: bit_LoadByte less_Suc_eq)
    next
      case False
      with pos old i show ?thesis by (auto simp: less_Suc_eq)
    qed
  qed
  then show ?thesis
    using assms(1) wf by (auto simp: holds_bytes_def dest!: set_update_subset_insert [THEN subsetD])
qed

lemma holds_bytes_load:
  assumes "nk \<le> 4 * (nr + 1)"
  shows "holds_bytes key (4 * nk) (AES_setup_load key nk nr) \<and> length (AES_setup_load key nk nr) = nr + 1"
proof -
  let ?P = "\<lambda>M rounds. holds_bytes key M rounds \<and> length rounds = nr + 1"
  let ?f = "\<lambda>i r rounds. rounds[i div 4 := LoadByte (rounds ! (i div 4)) (key ! (4 * i + r)) r (i mod 4)]"
  have "?P (4 * nk) (fold (\<lambda>i. fold (?f i) [0..<4]) [0..<nk] (replicate (nr + 1) zero_state))"
  proof (rule fold_upt_invariant [where P = "\<lambda>i. ?P (4 * i)"])
    show "?P (4 * 0) (replicate (nr + 1) zero_state)"
      by (auto simp: holds_bytes_def simp del: replicate.simps)
  next
    fix i y assume i: "i < nk" and y: "?P (4 * i) y"
    have "?P (4 * i + 4) (fold (?f i) [0..<4] y)"
    proof (rule fold_upt_invariant [where P = "\<lambda>r. ?P (4 * i + r)"])
      fix q z assume "q < 4" and z: "?P (4 * i + q) z"
      moreover from z i assms have "i div 4 < length z" by simp
      ultimately show "?P (4 * i + Suc q) (?f i q z)"
        using holds_bytes_step by simp
    qed (use y in simp_all)
    then show "?P (4 * Suc i) (fold (?f i) [0..<4] y)" by (simp add: add.commute)
  qed simp
  then show ?thesis by (simp add: AES_setup_load_def)
qed

section \<open>The expansion loop\<close>

definition setup_inv :: "bytes \<Rightarrow> nat \<Rightarrow> nat \<Rightarrow> nat \<Rightarrow> AES_state list \<times> AES_state \<times> nat \<times> AES_state \<Rightarrow> bool" where
  "setup_inv key nk nr i = (\<lambda>(rounds, rcon, pos, column).
    length rounds = nr + 1 \<and> holds_columns (key_word key nk) i rounds \<and>
    column_of rcon [aes_rcon ((i - 1) div nk), 0, 0, 0] \<and> pos = i mod nk \<and>
    column_of column (key_word key nk (i - 1)))"

lemma xtime_zero [simp]: "xtime 0 = 0"
  by (simp add: xtime_def)

lemma aes_rcon_Suc: "xtime (aes_rcon k) = aes_rcon (Suc k)"
  by (simp add: aes_rcon_def)

text \<open>One transformation of the column, as the reference does it.\<close>

definition key_temp :: "nat \<Rightarrow> nat \<Rightarrow> bytes \<Rightarrow> bytes" where
  "key_temp nk i temp =
    (if i mod nk = 0 then map2 (XOR) (map aes_sbox (rotate1 temp)) [aes_rcon (i div nk - 1), 0, 0, 0]
     else if nk > 6 \<and> i mod nk = 4 then map aes_sbox temp
     else temp)"

lemma key_word_step:
  "0 < nk \<Longrightarrow> nk \<le> i \<Longrightarrow>
    key_word key nk i = map2 (XOR) (key_temp nk i (key_word key nk (i - 1))) (key_word key nk (i - nk))"
  by (subst key_word.simps) (simp add: key_temp_def Let_def)

lemma pred_div_mod:
  fixes i nk :: nat
  assumes "0 < nk" and "0 < i"
  shows "(if i mod nk = 0 then Suc ((i - 1) div nk) else (i - 1) div nk) = i div nk"
    and "(if Suc (i mod nk) = nk then 0 else Suc (i mod nk)) = Suc i mod nk"
proof -
  obtain k where i: "i = Suc k" using assms(2) by (cases i) auto
  show "(if i mod nk = 0 then Suc ((i - 1) div nk) else (i - 1) div nk) = i div nk"
    unfolding i by (simp add: div_Suc)
  show "(if Suc (i mod nk) = nk then 0 else Suc (i mod nk)) = Suc i mod nk"
    by (simp add: mod_Suc)
qed

lemma setup_transform:
  assumes "column_of column temp" and "column_of rcon [aes_rcon ((i - 1) div nk), 0, 0, 0]"
    and "0 < nk" and "0 < i"
  shows "(case (if i mod nk = 0 then (KeySetupTransform (SubBytes column False) rcon, MultX rcon)
            else if nk > 6 \<and> i mod nk = 4 then (SubBytes column False, rcon) else (column, rcon))
          of (column', rcon') \<Rightarrow>
            column_of column' (key_temp nk i temp) \<and> column_of rcon' [aes_rcon (i div nk), 0, 0, 0])"
proof -
  have div: "(if i mod nk = 0 then Suc ((i - 1) div nk) else (i - 1) div nk) = i div nk"
    using assms(3,4) by (rule pred_div_mod(1))
  then have pred: "i mod nk = 0 \<Longrightarrow> i div nk - 1 = (i - 1) div nk" by simp
  have rot: "rotate1 (map aes_sbox temp) = map aes_sbox (rotate1 temp)" by (rule rotate1_map)
  show ?thesis
    using assms(1,2) div pred column_of_MultX [OF assms(2)]
      column_of_Transform [OF column_of_SubBytes [OF assms(1)] assms(2)] column_of_SubBytes [OF assms(1)]
    by (auto simp: key_temp_def rot aes_rcon_Suc split: if_splits)
qed

lemma setup_step:
  assumes inv: "setup_inv key nk nr i st" and nk: "4 \<le> nk" "nk \<le> i" and i: "i < 4 * (nr + 1)"
  shows "setup_inv key nk nr (Suc i) (AES_setup_step nk i st)"
proof -
  obtain rounds rcon pos column where st: "st = (rounds, rcon, pos, column)" by (cases st)
  let ?W = "key_word key nk"
  have len: "length rounds = nr + 1" and cols: "holds_columns ?W i rounds"
    and rc: "column_of rcon [aes_rcon ((i - 1) div nk), 0, 0, 0]" and pos: "pos = i mod nk"
    and col: "column_of column (?W (i - 1))"
    using inv by (auto simp: st setup_inv_def)
  define cr where "cr = (if i mod nk = 0 then (KeySetupTransform (SubBytes column False) rcon, MultX rcon)
      else if nk > 6 \<and> i mod nk = 4 then (SubBytes column False, rcon) else (column, rcon))"
  obtain column' rcon' where cr': "cr = (column', rcon')" by (cases cr)
  have new: "column_of column' (key_temp nk i (?W (i - 1)))" "column_of rcon' [aes_rcon (i div nk), 0, 0, 0]"
    using setup_transform [OF col rc] nk by (simp_all add: cr' flip: cr_def)
  let ?mix = "KeySetupColumnMix column' (rounds ! (i div 4)) (rounds ! ((i - nk) div 4)) (i mod 4) ((i - nk) mod 4)"
  have "column_of (fst ?mix) (map2 (XOR) (key_temp nk i (?W (i - 1))) (?W (i - nk)))"
    using nk i len by (intro column_of_Mix [OF new(1) cols]) auto
  then have c: "column_of (fst ?mix) (?W i)" using nk by (simp add: key_word_step [of nk i])
  then have "holds_columns ?W (Suc i) (rounds[i div 4 := snd ?mix])"
    using i len by (intro holds_columns_Mix [OF cols]) auto
  moreover have "AES_setup_step nk i st =
      (rounds[i div 4 := snd ?mix], rcon', (if pos + 1 = nk then 0 else pos + 1), fst ?mix)"
    unfolding AES_setup_step_def st prod.case pos cr_def [symmetric] cr' Let_def by (simp split: prod.split)
  ultimately show ?thesis
    using len c new(2) pred_div_mod(2) [of nk i] nk by (simp add: setup_inv_def pos split: if_splits)
qed

lemma setup_inv_start:
  assumes "4 \<le> nk" and "nk \<le> 4 * (nr + 1)"
  shows "setup_inv key nk nr nk (AES_setup_load key nk nr, \<lparr>slice = [1, 0, 0, 0, 0, 0, 0, 0]\<rparr>, 0,
    GetOneColumn zero_state (AES_setup_load key nk nr ! ((nk - 1) div 4)) ((nk - 1) mod 4))"
proof -
  let ?rounds = "AES_setup_load key nk nr"
  have len: "length ?rounds = nr + 1" and bytes: "holds_bytes key (4 * nk) ?rounds"
    using holds_bytes_load [OF assms(2)] by simp_all
  have low: "key_word key nk i ! r = key ! (4 * i + r)" if "i < nk" "r < 4" for i r
    using that by (subst key_word.simps) simp
  have cols: "holds_columns (key_word key nk) nk ?rounds"
    unfolding holds_columns_def
  proof (intro conjI allI impI)
    show "\<forall>s\<in>set ?rounds. wf_state s" using bytes by (simp add: holds_bytes_def)
  next
    fix J c r b :: nat assume J: "J < length ?rounds" "c < 4" "r < 4" "b < 8"
    have "4 * (4 * J + c) + r < 4 * nk \<longleftrightarrow> 4 * J + c < nk" using J by arith
    with bytes J show "bit (slice (?rounds ! J) ! b) (4 * r + c) \<longleftrightarrow>
        4 * J + c < nk \<and> bit (key_word key nk (4 * J + c) ! r) b"
      by (auto simp: holds_bytes_def low)
  qed
  moreover have "column_of \<lparr>slice = [1, 0, 0, 0, 0, 0, 0, 0]\<rparr> [aes_rcon ((nk - 1) div nk), 0, 0, 0]"
    using assms(1) by (auto simp: column_of_def wf_state_def aes_rcon_def sliced_Cons8 less4_cases bit_1_iff)
  moreover have "column_of (GetOneColumn zero_state (?rounds ! ((nk - 1) div 4)) ((nk - 1) mod 4))
      (key_word key nk (nk - 1))"
    using assms len by (intro column_of_GetOneColumn [OF cols]) auto
  ultimately show ?thesis using len by (simp add: setup_inv_def)
qed

lemma AES_setup_inv:
  assumes "4 \<le> nk" and "nk \<le> 4 * (nr + 1)"
  shows "length (AES_setup key nk nr) = nr + 1"
    and "holds_columns (key_word key nk) (4 * (nr + 1)) (AES_setup key nk nr)"
proof -
  have "setup_inv key nk nr (4 * (nr + 1)) (fold (AES_setup_step nk) [nk..<4 * (nr + 1)]
      (AES_setup_load key nk nr, \<lparr>slice = [1, 0, 0, 0, 0, 0, 0, 0]\<rparr>, 0,
       GetOneColumn zero_state (AES_setup_load key nk nr ! ((nk - 1) div 4)) ((nk - 1) mod 4)))"
    using setup_inv_start [OF assms] assms(2)
    by (rule fold_upt_invariant) (use assms(1) in \<open>auto intro: setup_step\<close>)
  then show "length (AES_setup key nk nr) = nr + 1"
    and "holds_columns (key_word key nk) (4 * (nr + 1)) (AES_setup key nk nr)"
    unfolding AES_setup_def Let_def by (auto simp: setup_inv_def split: prod.splits)
qed

lemma AES_setup_expansion:
  assumes "4 \<le> nk" and "nk \<le> 4 * (nr + 1)"
  shows "map SaveBytes (AES_setup key nk nr) = key_expansion key nk nr"
proof (rule nth_equalityI)
  show "length (map SaveBytes (AES_setup key nk nr)) = length (key_expansion key nk nr)"
    using AES_setup_inv(1) [OF assms] by (simp add: key_expansion_def)
next
  let ?W = "key_word key nk" and ?ks = "AES_setup key nk nr"
  fix J assume "J < length (map SaveBytes ?ks)"
  then have J: "J < nr + 1" "J < length ?ks" using AES_setup_inv(1) [OF assms] by simp_all
  have byte: "SaveByte (?ks ! J) r c = ?W (4 * J + c) ! r" if "c < 4" "r < 4" for r c
  proof (rule word_bits_eqI)
    fix b assume b: "b < LENGTH(8)"
    have "4 * J + c < 4 * (nr + 1)" using J that by simp
    with AES_setup_inv(2) [OF assms] J that b
    show "bit (SaveByte (?ks ! J) r c) b \<longleftrightarrow> bit (?W (4 * J + c) ! r) b"
      by (simp add: bit_SaveByte holds_columns_def mult.commute)
  qed
  have "map (\<lambda>r. SaveByte (?ks ! J) r c) [0..<4] = ?W (4 * J + c)" if "c < 4" for c
    using that byte by (intro nth_equalityI) simp_all
  then have "SaveBytes (?ks ! J) = concat (map (\<lambda>c. ?W (4 * J + c)) [0..<4])"
    unfolding SaveBytes_def by (intro arg_cong [of _ _ concat] map_cong) simp_all
  then show "map SaveBytes ?ks ! J = key_expansion key nk nr ! J"
    using J by (simp add: key_expansion_def del: upt_Suc)
qed

section \<open>The interface of ctaes.h\<close>

lemma length_AES_decrypt [simp]: "length (AES_decrypt rounds nrounds c) = 16"
  by (simp add: AES_decrypt_def Let_def)

lemma AES_encrypt_setup:
  assumes "4 \<le> nk" and "nk \<le> 4 * (nr + 1)" and "length p = 16"
  shows "AES_encrypt (AES_setup key nk nr) nr p = aes_cipher (key_expansion key nk nr) nr p"
  using assms by (simp add: AES_encrypt_refines AES_setup_inv(1) flip: AES_setup_expansion)

lemma AES_decrypt_setup:
  assumes "4 \<le> nk" and "nk \<le> 4 * (nr + 1)" and "1 \<le> nr" and "length p = 16"
  shows "AES_decrypt (AES_setup key nk nr) nr (AES_encrypt (AES_setup key nk nr) nr p) = p"
  using assms by (intro AES_decrypt_encrypt) (simp_all add: AES_setup_inv(1))

text \<open>The multi-block loops of the three key sizes, as one recursion over an abstract block function.\<close>

primrec block_map :: "(bytes \<Rightarrow> bytes) \<Rightarrow> nat \<Rightarrow> bytes \<Rightarrow> bytes" where
  "block_map f 0 p = []"
| "block_map f (Suc n) p = f (take 16 p) @ block_map f n (drop 16 p)"

lemma AES_blocks:
  "AES128_encrypt c1 n p = block_map (AES_encrypt (rk128 c1) 10) n p"
  "AES128_decrypt c1 n p = block_map (AES_decrypt (rk128 c1) 10) n p"
  "AES192_encrypt c2 n p = block_map (AES_encrypt (rk192 c2) 12) n p"
  "AES192_decrypt c2 n p = block_map (AES_decrypt (rk192 c2) 12) n p"
  "AES256_encrypt c3 n p = block_map (AES_encrypt (rk256 c3) 14) n p"
  "AES256_decrypt c3 n p = block_map (AES_decrypt (rk256 c3) 14) n p"
  by (induction n arbitrary: p) simp_all

lemma block_map_inverse:
  assumes "\<And>b. length b = 16 \<Longrightarrow> g (f b) = b" and "\<And>b. length (f b) = 16" and "length p = 16 * n"
  shows "block_map g n (block_map f n p) = p"
  using assms(3) by (induction n arbitrary: p) (simp_all add: assms(1,2))

section \<open>Properties of the cipher\<close>

text \<open>
  C38. Decryption inverts encryption for every key and any number of blocks, for the three key
  sizes of \<^verbatim>\<open>ctaes.c\<close>.
\<close>

theorem aes_roundtrip:
  assumes "length p = 16 * n"
  shows "AES128_decrypt (AES128_init key) n (AES128_encrypt (AES128_init key) n p) = p
    \<and> AES192_decrypt (AES192_init key) n (AES192_encrypt (AES192_init key) n p) = p
    \<and> AES256_decrypt (AES256_init key) n (AES256_encrypt (AES256_init key) n p) = p"
  unfolding AES_blocks AES128_init_def AES192_init_def AES256_init_def
  by (intro conjI block_map_inverse assms) (simp_all add: AES_decrypt_setup)

theorem aes_roundtrip_witness:
  "AES256_decrypt (AES256_init (replicate 32 7)) 2 (AES256_encrypt (AES256_init (replicate 32 7)) 2 (replicate 32 5))
    = replicate 32 5"
  using aes_roundtrip [of "replicate 32 5" 2 "replicate 32 7"] by simp

text \<open>
  The bit-sliced encryption under the expanded key computes the FIPS-197 cipher with the
  FIPS-197 key expansion, for the three key sizes.
\<close>

theorem aes_encrypt_fips197:
  assumes "length p = 16"
  shows "AES128_encrypt (AES128_init key) 1 p = aes_cipher (key_expansion key 4 10) 10 p
    \<and> AES192_encrypt (AES192_init key) 1 p = aes_cipher (key_expansion key 6 12) 12 p
    \<and> AES256_encrypt (AES256_init key) 1 p = aes_cipher (key_expansion key 8 14) 14 p"
  using assms
  by (simp add: AES_blocks AES128_init_def AES192_init_def AES256_init_def AES_encrypt_setup)

theorem aes_encrypt_fips197_witness:
  "AES128_encrypt (AES128_init (replicate 16 1)) 1 (replicate 16 2) =
    aes_cipher (key_expansion (replicate 16 1) 4 10) 10 (replicate 16 2)"
  using aes_encrypt_fips197 [of "replicate 16 2" "replicate 16 1"] by simp

text \<open>
  \<^verbatim>\<open>AES_setup\<close> writes the round keys of the FIPS-197 key expansion, for every key length in
  words from 4 on and every number of rounds that needs all of the key.
\<close>

theorem aes_setup_fips197:
  assumes "4 \<le> nk" and "nk \<le> 4 * (nr + 1)"
  shows "map SaveBytes (AES_setup key nk nr) = key_expansion key nk nr"
  using assms by (rule AES_setup_expansion)

theorem aes_setup_fips197_witness:
  "map SaveBytes (AES_setup (replicate 32 9) 8 14) = key_expansion (replicate 32 9) 8 14"
  using aes_setup_fips197 [of 8 14 "replicate 32 9"] by simp

end
