(* ===== verification/Aes_Cbc.thy ===== *)
theory Aes_Cbc
  imports Ctaes_Keys
begin

text \<open>
  \<^verbatim>\<open>src/crypto/aes.cpp\<close>: cipher block chaining over the block ciphers of \<^verbatim>\<open>ctaes.c\<close>. The template
  parameter of \<^verbatim>\<open>CBCEncrypt\<close> and \<^verbatim>\<open>CBCDecrypt\<close> is the block function \<open>enc\<close> or \<open>dec\<close>; a pointer
  that may be null is an option; \<^verbatim>\<open>out\<close> is the caller's buffer, distinct from \<^verbatim>\<open>data\<close>, returned
  updated next to the number of bytes written. Sizes are natural numbers: the callers pass the
  size of a vector, far below \<^verbatim>\<open>INT_MAX\<close>.

  The locale \<open>block_cipher\<close> is the contract the chaining mode relies on; it is interpreted on
  AES-128 and AES-256 with an arbitrary key.
\<close>

section \<open>The chaining mode\<close>

function CBCEncrypt_loop ::
  "(bytes \<Rightarrow> bytes) \<Rightarrow> nat \<Rightarrow> bytes \<Rightarrow> bytes \<Rightarrow> nat \<Rightarrow> bytes \<Rightarrow> bytes \<times> bytes \<times> nat \<times> bytes" where
  "CBCEncrypt_loop enc sz data mixed written out =
    (if written + 16 \<le> sz then
       (let mixed = map (\<lambda>i. mixed ! i XOR data ! i) [0..<16];
            out = memcpy out written (enc mixed);
            mixed = take 16 (drop written out)
        in CBCEncrypt_loop enc sz (drop 16 data) mixed (written + 16) out)
     else (data, mixed, written, out))"
  by pat_completeness auto
termination by (relation "measure (\<lambda>(enc, sz, data, mixed, written, out). sz - written)") auto

declare CBCEncrypt_loop.simps [simp del]

definition CBCEncrypt ::
  "(bytes \<Rightarrow> bytes) \<Rightarrow> bytes \<Rightarrow> bytes option \<Rightarrow> nat \<Rightarrow> bool \<Rightarrow> bytes option \<Rightarrow> nat \<times> bytes option" where
  "CBCEncrypt enc iv data sz pad out =
    (case (data, out) of
       (Some data, Some out) \<Rightarrow>
         let padsize = sz mod 16
         in if sz = 0 then (0, Some out)
            else if \<not> pad \<and> padsize \<noteq> 0 then (0, Some out)
            else
              (let (data, mixed, written, out) = CBCEncrypt_loop enc sz data (take 16 iv) 0 out
               in if pad then
                    (let mixed = fold (\<lambda>i m. m[i := m ! i XOR data ! i]) [0..<padsize] mixed;
                         mixed = fold (\<lambda>i m. m[i := m ! i XOR of_nat (16 - padsize)]) [padsize..<16] mixed
                     in (written + 16, Some (memcpy out written (enc mixed))))
                  else (written, Some out))
     | _ \<Rightarrow> (0, out))"

function CBCDecrypt_loop ::
  "(bytes \<Rightarrow> bytes) \<Rightarrow> bytes \<Rightarrow> nat \<Rightarrow> bytes \<Rightarrow> nat \<Rightarrow> bytes \<Rightarrow> nat \<times> bytes" where
  "CBCDecrypt_loop dec data sz prev written out =
    (if written < sz then
       (let out = memcpy out written (dec (take 16 (drop written data)));
            out = fold (\<lambda>i out. out[written + i := out ! (written + i) XOR prev ! i]) [0..<16] out
        in CBCDecrypt_loop dec data sz (drop written data) (written + 16) out)
     else (written, out))"
  by pat_completeness auto
termination by (relation "measure (\<lambda>(dec, data, sz, prev, written, out). sz - written)") auto

declare CBCDecrypt_loop.simps [simp del]

definition CBCDecrypt_padding :: "bytes \<Rightarrow> nat \<Rightarrow> nat \<times> bool" where
  "CBCDecrypt_padding out written =
    (let p = written - 1;
         padsize = out ! p;
         fail = (padsize = 0 \<or> padsize > 16);
         padsize = padsize * (if fail then 0 else 1);
         (fail, _) = fold (\<lambda>i (fail, p). (fail \<or> (i > 16 - unat padsize \<and> out ! p \<noteq> padsize), p - 1))
           (rev [1..<17]) (fail, p)
     in (written - unat padsize, fail))"

definition CBCDecrypt ::
  "(bytes \<Rightarrow> bytes) \<Rightarrow> bytes \<Rightarrow> bytes option \<Rightarrow> nat \<Rightarrow> bool \<Rightarrow> bytes option \<Rightarrow> nat \<times> bytes option" where
  "CBCDecrypt dec iv data sz pad out =
    (case (data, out) of
       (Some data, Some out) \<Rightarrow>
         if sz = 0 then (0, Some out)
         else if sz mod 16 \<noteq> 0 then (0, Some out)
         else
           (let (written, out) = CBCDecrypt_loop dec data sz iv 0 out;
                (written, fail) = (if pad then CBCDecrypt_padding out written else (written, False))
            in (written * (if fail then 0 else 1), Some out))
     | _ \<Rightarrow> (0, out))"

section \<open>The classes over AES-128 and AES-256\<close>

record AES256CBC =
  ctx256 :: AES256_ctx
  iv256 :: bytes
  pad256 :: bool

record AES128CBC =
  ctx128 :: AES128_ctx
  iv128 :: bytes
  pad128 :: bool

definition AES256_Encrypt :: "AES256_ctx \<Rightarrow> bytes \<Rightarrow> bytes" where
  "AES256_Encrypt ctx plaintext = AES256_encrypt ctx 1 plaintext"

definition AES256_Decrypt :: "AES256_ctx \<Rightarrow> bytes \<Rightarrow> bytes" where
  "AES256_Decrypt ctx ciphertext = AES256_decrypt ctx 1 ciphertext"

definition AES128_Encrypt :: "AES128_ctx \<Rightarrow> bytes \<Rightarrow> bytes" where
  "AES128_Encrypt ctx plaintext = AES128_encrypt ctx 1 plaintext"

definition AES128_Decrypt :: "AES128_ctx \<Rightarrow> bytes \<Rightarrow> bytes" where
  "AES128_Decrypt ctx ciphertext = AES128_decrypt ctx 1 ciphertext"

definition AES256CBC_new :: "bytes \<Rightarrow> bytes \<Rightarrow> bool \<Rightarrow> AES256CBC" where
  "AES256CBC_new key ivIn padIn = \<lparr>ctx256 = AES256_init key, iv256 = take 16 ivIn, pad256 = padIn\<rparr>"

definition AES128CBC_new :: "bytes \<Rightarrow> bytes \<Rightarrow> bool \<Rightarrow> AES128CBC" where
  "AES128CBC_new key ivIn padIn = \<lparr>ctx128 = AES128_init key, iv128 = take 16 ivIn, pad128 = padIn\<rparr>"

definition AES256CBCEncrypt :: "AES256CBC \<Rightarrow> bytes option \<Rightarrow> nat \<Rightarrow> bytes option \<Rightarrow> nat \<times> bytes option" where
  "AES256CBCEncrypt this data sz out =
    CBCEncrypt (AES256_Encrypt (ctx256 this)) (iv256 this) data sz (pad256 this) out"

definition AES256CBCDecrypt :: "AES256CBC \<Rightarrow> bytes option \<Rightarrow> nat \<Rightarrow> bytes option \<Rightarrow> nat \<times> bytes option" where
  "AES256CBCDecrypt this data sz out =
    CBCDecrypt (AES256_Decrypt (ctx256 this)) (iv256 this) data sz (pad256 this) out"

definition AES128CBCEncrypt :: "AES128CBC \<Rightarrow> bytes option \<Rightarrow> nat \<Rightarrow> bytes option \<Rightarrow> nat \<times> bytes option" where
  "AES128CBCEncrypt this data sz out =
    CBCEncrypt (AES128_Encrypt (ctx128 this)) (iv128 this) data sz (pad128 this) out"

definition AES128CBCDecrypt :: "AES128CBC \<Rightarrow> bytes option \<Rightarrow> nat \<Rightarrow> bytes option \<Rightarrow> nat \<times> bytes option" where
  "AES128CBCDecrypt this data sz out =
    CBCDecrypt (AES128_Decrypt (ctx128 this)) (iv128 this) data sz (pad128 this) out"

section \<open>Specification: CBC over whole blocks, PKCS \#7 padding\<close>

definition xor_block :: "bytes \<Rightarrow> bytes \<Rightarrow> bytes" where
  "xor_block a b = map (\<lambda>i. a ! i XOR b ! i) [0..<16]"

primrec cbc_enc :: "(bytes \<Rightarrow> bytes) \<Rightarrow> nat \<Rightarrow> bytes \<Rightarrow> bytes \<Rightarrow> bytes" where
  "cbc_enc enc 0 prev m = []"
| "cbc_enc enc (Suc n) prev m =
    (let c = enc (xor_block prev m) in c @ cbc_enc enc n c (drop 16 m))"

primrec cbc_dec :: "(bytes \<Rightarrow> bytes) \<Rightarrow> nat \<Rightarrow> bytes \<Rightarrow> bytes \<Rightarrow> bytes" where
  "cbc_dec dec 0 prev c = []"
| "cbc_dec dec (Suc n) prev c =
    xor_block (dec (take 16 c)) prev @ cbc_dec dec n c (drop 16 c)"

definition pkcs7 :: "bytes \<Rightarrow> bytes" where
  "pkcs7 m = m @ replicate (16 - length m mod 16) (of_nat (16 - length m mod 16))"

lemma length_xor_block [simp]: "length (xor_block a b) = 16"
  by (simp add: xor_block_def)

lemma nth_xor_block [simp]: "i < 16 \<Longrightarrow> xor_block a b ! i = a ! i XOR b ! i"
  by (simp add: xor_block_def)

lemma xor_block_take [simp]: "xor_block (take 16 a) b = xor_block a b" "xor_block a (take 16 b) = xor_block a b"
  by (simp_all add: xor_block_def)

lemma xor_block_append [simp]:
  "length a = 16 \<Longrightarrow> xor_block (a @ a') b = xor_block a b"
  "length b = 16 \<Longrightarrow> xor_block a (b @ b') = xor_block a b"
  by (simp_all add: xor_block_def nth_append)

lemma xor_block_cancel [simp]: "xor_block (xor_block a b) a = take 16 b" if "16 \<le> length b"
  using that by (intro nth_equalityI) (simp_all add: xor.commute xor.left_commute)

lemma length_cbc_dec [simp]: "length (cbc_dec dec n prev c) = 16 * n"
  by (induction n arbitrary: prev c) simp_all

lemma cbc_dec_take: "cbc_dec dec n prev c = cbc_dec dec n prev (take (16 * n) c)"
proof (induction n arbitrary: prev c)
  case (Suc n)
  have "cbc_dec dec n c d = cbc_dec dec n (take (16 * Suc n) c) d" for d
    by (cases n) (simp_all add: xor_block_def)
  then show ?case using Suc.IH [of _ "drop 16 c"] by (simp add: min_def drop_take)
qed simp

lemma length_pkcs7: "length (pkcs7 m) = 16 * (length m div 16 + 1)"
  unfolding pkcs7_def length_append length_replicate by presburger

subsection \<open>Buffers\<close>

lemma memcpy_memcpy_append:
  "length out \<ge> off + length a + length b \<Longrightarrow>
    memcpy (memcpy out off a) (off + length a) b = memcpy out off (a @ b)"
  by (simp add: memcpy_def ac_simps)

lemma memcpy_nil [simp]: "memcpy out off [] = out"
  by (simp add: memcpy_def)

lemma take_drop_memcpy:
  "off + length a \<le> length out \<Longrightarrow> take (length a) (drop off (memcpy out off a)) = a"
  by (simp add: memcpy_def)

lemma take_memcpy_0: "length a = n \<Longrightarrow> take n (memcpy out 0 a) = a"
  by (simp add: memcpy_def)

text \<open>A loop that rewrites a range of cells one by one.\<close>

lemma fold_update_range:
  assumes "n \<le> m" and "off + m \<le> length xs"
  shows "fold (\<lambda>i xs. xs[off + i := f i (xs ! (off + i))]) [n..<m] xs =
    map (\<lambda>j. if off + n \<le> j \<and> j < off + m then f (j - off) (xs ! j) else xs ! j) [0..<length xs]"
  using assms
proof (induction m rule: nat_induct_at_least)
  case base
  have "map (\<lambda>j. if off + n \<le> j \<and> j < off + n then f (j - off) (xs ! j) else xs ! j) [0..<length xs]
      = map ((!) xs) [0..<length xs]"
    by (intro map_cong) auto
  then show ?case by (simp add: map_nth)
next
  case (Suc m)
  then show ?case by (intro nth_equalityI) (auto simp: nth_list_update less_Suc_eq)
qed

lemma fold_xor_tail:
  assumes "q < 16" and "length mixed = 16" and "length d = q"
  shows "fold (\<lambda>i m. m[i := m ! i XOR v]) [q..<16] (fold (\<lambda>i m. m[i := m ! i XOR d ! i]) [0..<q] mixed) =
    xor_block mixed (d @ replicate (16 - q) v)"
proof (rule nth_equalityI)
  have first: "fold (\<lambda>i m. m[i := m ! i XOR d ! i]) [0..<q] mixed =
      map (\<lambda>j. if j < q then mixed ! j XOR d ! j else mixed ! j) [0..<16]"
    using fold_update_range [of 0 q 0 mixed "\<lambda>i x. x XOR d ! i"] assms by simp
  have second: "fold (\<lambda>i m. m[i := m ! i XOR v]) [q..<16] xs =
      map (\<lambda>j. if q \<le> j \<and> j < 16 then xs ! j XOR v else xs ! j) [0..<16]" if "length xs = 16" for xs
    using fold_update_range [of q 16 0 xs "\<lambda>i x. x XOR v"] assms that by simp
  have both: "fold (\<lambda>i m. m[i := m ! i XOR v]) [q..<16] (fold (\<lambda>i m. m[i := m ! i XOR d ! i]) [0..<q] mixed) =
      map (\<lambda>j. if j < q then mixed ! j XOR d ! j else mixed ! j XOR v) [0..<16]"
    unfolding first by (subst second) auto
  show "length (fold (\<lambda>i m. m[i := m ! i XOR v]) [q..<16] (fold (\<lambda>i m. m[i := m ! i XOR d ! i]) [0..<q] mixed)) =
      length (xor_block mixed (d @ replicate (16 - q) v))"
    unfolding both by simp
  show "fold (\<lambda>i m. m[i := m ! i XOR v]) [q..<16] (fold (\<lambda>i m. m[i := m ! i XOR d ! i]) [0..<q] mixed) ! j =
      xor_block mixed (d @ replicate (16 - q) v) ! j"
    if "j < length (fold (\<lambda>i m. m[i := m ! i XOR v]) [q..<16] (fold (\<lambda>i m. m[i := m ! i XOR d ! i]) [0..<q] mixed))" for j
    using that assms unfolding both by (simp add: nth_append)
qed

lemma fold_xor_block:
  assumes "w + 16 \<le> length out" and "length d = 16"
  shows "fold (\<lambda>i out. out[w + i := out ! (w + i) XOR prev ! i]) [0..<16] (memcpy out w d) =
    memcpy out w (xor_block d prev)"
proof -
  have "fold (\<lambda>i out. out[w + i := out ! (w + i) XOR prev ! i]) [0..<16] (memcpy out w d) =
      map (\<lambda>j. if w + 0 \<le> j \<and> j < w + 16 then memcpy out w d ! j XOR prev ! (j - w) else memcpy out w d ! j)
        [0..<length out]"
    using fold_update_range [of 0 16 w "memcpy out w d" "\<lambda>i x. x XOR prev ! i"] assms by simp
  also have "\<dots> = memcpy out w (xor_block d prev)"
    using assms by (intro nth_equalityI) (auto simp: memcpy_def nth_append)
  finally show ?thesis .
qed

lemma decrypt_loop:
  assumes "sz = 16 * (w + n)" and "16 * (w + n) \<le> length data" and "16 * (w + n) \<le> length out"
    and len: "\<And>b. length (dec b) = 16"
  shows "CBCDecrypt_loop dec data sz prev (16 * w) out =
    (sz, memcpy out (16 * w) (cbc_dec dec n prev (drop (16 * w) data)))"
  using assms(1-3)
proof (induction n arbitrary: w out prev)
  case 0
  then show ?case by (simp add: CBCDecrypt_loop.simps)
next
  case (Suc n)
  define p where "p = xor_block (dec (take 16 (drop (16 * w) data))) prev"
  have "CBCDecrypt_loop dec data sz prev (16 * w) out =
      CBCDecrypt_loop dec data sz (drop (16 * w) data) (16 * Suc w) (memcpy out (16 * w) p)"
  proof -
    have "fold (\<lambda>i out. out[16 * w + i := out ! (16 * w + i) XOR prev ! i]) [0..<16]
        (memcpy out (16 * w) (dec (take 16 (drop (16 * w) data)))) = memcpy out (16 * w) p"
      unfolding p_def using Suc.prems len by (intro fold_xor_block) simp_all
    moreover have "16 * w < sz" and "16 * w + 16 = 16 * Suc w" using Suc.prems by simp_all
    ultimately show ?thesis by (subst CBCDecrypt_loop.simps) (simp only: Let_def if_True)
  qed
  also have "\<dots> = (sz, memcpy (memcpy out (16 * w) p) (16 * Suc w)
      (cbc_dec dec n (drop (16 * w) data) (drop (16 * Suc w) data)))"
    using Suc.prems by (intro Suc.IH) (simp_all add: p_def)
  also have "memcpy (memcpy out (16 * w) p) (16 * Suc w)
      (cbc_dec dec n (drop (16 * w) data) (drop (16 * Suc w) data)) =
      memcpy out (16 * w) (p @ cbc_dec dec n (drop (16 * w) data) (drop (16 * Suc w) data))"
    using memcpy_memcpy_append [of "16 * w" p "cbc_dec dec n (drop (16 * w) data) (drop (16 * Suc w) data)" out]
      Suc.prems by (simp add: p_def ac_simps)
  finally show ?case by (simp add: p_def add.commute)
qed

subsection \<open>Checking the padding\<close>

definition pkcs7_unpad :: "bytes \<Rightarrow> bytes option" where
  "pkcs7_unpad p =
    (let k = unat (last p)
     in if 1 \<le> k \<and> k \<le> 16 \<and> drop (length p - k) p = replicate k (last p)
        then Some (take (length p - k) p) else None)"

lemma pkcs7_unpad_pad [simp]: "pkcs7_unpad (pkcs7 m) = Some m"
proof -
  define k where "k = 16 - length m mod 16"
  have k: "1 \<le> k" "k \<le> 16" unfolding k_def by simp_all
  then have "unat (of_nat k :: u8) = k" by (simp add: unat_of_nat)
  with k show ?thesis
    unfolding pkcs7_unpad_def pkcs7_def k_def [symmetric] by (simp add: Let_def)
qed

lemma pkcs7_unpad_Some:
  assumes "pkcs7_unpad p = Some m" and "length p mod 16 = 0" and "p \<noteq> []"
  shows "p = pkcs7 m"
proof -
  define k where "k = unat (last p)"
  from assms(1) have k: "1 \<le> k" "k \<le> 16" and tail: "drop (length p - k) p = replicate k (last p)"
    and m: "m = take (length p - k) p"
    by (auto simp: pkcs7_unpad_def Let_def k_def split: if_splits)
  have "16 \<le> length p" using assms(2,3) by (auto simp: dvd_imp_le simp flip: dvd_eq_mod_eq_0)
  obtain q where "length p = 16 * Suc q"
    using assms(2) \<open>16 \<le> length p\<close> by (metis dvd_eq_mod_eq_0 dvdE not0_implies_Suc mult_0_right not_numeral_le_zero)
  with k m have "length m = 16 * q + (16 - k)" by simp
  then have "length m mod 16 = (16 - k) mod 16" by simp
  with k have "16 - length m mod 16 = k" by (cases "k = 16") simp_all
  moreover have "of_nat k = last p" by (simp add: k_def)
  ultimately have "pkcs7 m = m @ replicate k (last p)" by (simp add: pkcs7_def)
  then show ?thesis using tail m by (metis append_take_drop_id)
qed

lemma unpad_length_iff:
  assumes "length p mod 16 = 0" and "p \<noteq> []"
  shows "x = (case pkcs7_unpad p of None \<Rightarrow> 0 | Some m \<Rightarrow> length m) \<longleftrightarrow>
    (\<forall>m. p = pkcs7 m \<longrightarrow> x = length m) \<and> ((\<nexists>m. p = pkcs7 m) \<longrightarrow> x = 0)"
proof (cases "pkcs7_unpad p")
  case None
  then have "p \<noteq> pkcs7 m" for m by auto
  with None show ?thesis by simp
next
  case (Some m)
  have "p = pkcs7 m' \<longleftrightarrow> m' = m" for m'
    using Some pkcs7_unpad_Some [OF Some assms] by (metis option.inject pkcs7_unpad_pad)
  then show ?thesis unfolding Some by simp
qed

lemma fold_check_down:
  "fold (\<lambda>i (fail, p). (fail \<or> Q i p, p - 1)) (rev [1..<Suc n]) (f, p :: nat) =
    (f \<or> (\<exists>j<n. Q (n - j) (p - j)), p - n)"
proof (induction n arbitrary: f p)
  case (Suc n)
  have "(\<exists>j<Suc n. Q (Suc n - j) (p - j)) \<longleftrightarrow> Q (Suc n) p \<or> (\<exists>j<n. Q (n - j) (p - 1 - j))"
    by (subst Ex_less_Suc2) simp
  with Suc show ?case by auto
qed simp

lemma CBCDecrypt_padding_correct:
  assumes "length p mod 16 = 0" and "p \<noteq> []"
  shows "(let (written, fail) = CBCDecrypt_padding (p @ r) (length p) in written * (if fail then 0 else 1)) =
    (case pkcs7_unpad p of None \<Rightarrow> 0 | Some m \<Rightarrow> length m)"
proof -
  define v where "v = last p"
  define k where "k = unat v"
  have 16: "16 \<le> length p" using assms by (auto simp: dvd_imp_le simp flip: dvd_eq_mod_eq_0)
  have v: "(p @ r) ! (length p - 1) = v" using assms(2) by (simp add: v_def nth_append last_conv_nth)
  have good: "v \<noteq> 0 \<and> \<not> v > 16 \<longleftrightarrow> 1 \<le> k \<and> k \<le> 16"
    by (simp add: k_def word_less_nat_alt word_le_nat_alt unat_eq_0 Suc_le_eq not_less unat_gt_0)
  have tail: "drop (length p - k) p = replicate k v \<longleftrightarrow> (\<forall>j<16. 16 - j > 16 - k \<longrightarrow> p ! (length p - 1 - j) = v)"
    if "1 \<le> k" "k \<le> 16"
  proof
    assume eq: "drop (length p - k) p = replicate k v"
    show "\<forall>j<16. 16 - j > 16 - k \<longrightarrow> p ! (length p - 1 - j) = v"
    proof (intro allI impI)
      fix j :: nat assume "j < 16" "16 - j > 16 - k"
      then have "p ! (length p - 1 - j) = drop (length p - k) p ! (k - 1 - j)" using that 16 by simp
      also have "\<dots> = v" using \<open>16 - j > 16 - k\<close> that unfolding eq by simp
      finally show "p ! (length p - 1 - j) = v" .
    qed
  next
    assume all: "\<forall>j<16. 16 - j > 16 - k \<longrightarrow> p ! (length p - 1 - j) = v"
    show "drop (length p - k) p = replicate k v"
    proof (rule nth_equalityI)
      fix i assume "i < length (drop (length p - k) p)"
      with all [rule_format, of "k - 1 - i"] that 16 show "drop (length p - k) p ! i = replicate k v ! i" by simp
    qed (use that 16 in simp)
  qed
  have nth: "(p @ r) ! (length p - 1 - j) = p ! (length p - 1 - j)" for j
    using assms(2) by (simp add: nth_append)
  have check: "fold (\<lambda>i (fail, q). (fail \<or> (i > 16 - unat x \<and> (p @ r) ! q \<noteq> x), q - 1)) (rev [1..<17]) (f, length p - 1) =
      (f \<or> (\<exists>j<16. 16 - j > 16 - unat x \<and> p ! (length p - 1 - j) \<noteq> x), length p - 1 - 16)" for x f
    using fold_check_down [of "\<lambda>i q. i > 16 - unat x \<and> (p @ r) ! q \<noteq> x" 16 f "length p - 1"] nth by simp
  show ?thesis
  proof (cases "1 \<le> k \<and> k \<le> 16")
    case True
    then have "\<not> (v = 0 \<or> v > 16)" using good by blast
    then show ?thesis
      using True tail unfolding CBCDecrypt_padding_def v Let_def check
      by (auto simp: pkcs7_unpad_def Let_def k_def simp flip: v_def)
  next
    case False
    then have "v = 0 \<or> v > 16" using good by blast
    then show ?thesis
      using False unfolding CBCDecrypt_padding_def v Let_def check
      by (auto simp: pkcs7_unpad_def Let_def k_def simp flip: v_def)
  qed
qed

section \<open>The contract of a block cipher\<close>

locale block_cipher =
  fixes enc dec :: "bytes \<Rightarrow> bytes"
  assumes length_enc [simp]: "length (enc b) = 16"
    and length_dec [simp]: "length (dec b) = 16"
    and dec_enc [simp]: "length b = 16 \<Longrightarrow> dec (enc b) = b"
begin

lemma length_cbc_enc [simp]: "length (cbc_enc enc n prev m) = 16 * n"
  by (induction n arbitrary: prev m) (simp_all add: Let_def)

lemma cbc_dec_enc:
  "16 * n \<le> length m \<Longrightarrow> cbc_dec dec n prev (cbc_enc enc n prev m) = take (16 * n) m"
proof (induction n arbitrary: prev m)
  case (Suc n)
  have prev: "cbc_dec dec n (c @ x) y = cbc_dec dec n c y" if "length c = 16" for c x y
    using that by (cases n) simp_all
  from Suc show ?case by (simp add: Let_def prev flip: take_add)
qed simp

lemma encrypt_loop:
  assumes "sz div 16 = w + n" and "16 * n \<le> length m" and "16 * (w + n) \<le> length out" and "length prev = 16"
  shows "\<exists>mixed. CBCEncrypt_loop enc sz m prev (16 * w) out =
      (drop (16 * n) m, mixed, 16 * (w + n), memcpy out (16 * w) (cbc_enc enc n prev m)) \<and>
      length mixed = 16 \<and>
      (\<forall>x. cbc_enc enc (Suc n) prev (m @ x) = cbc_enc enc n prev m @ enc (xor_block mixed (drop (16 * n) m @ x)))"
  using assms
proof (induction n arbitrary: w m out prev)
  case 0
  then have "\<not> 16 * w + 16 \<le> sz" by presburger
  with 0 show ?case by (simp add: CBCEncrypt_loop.simps Let_def)
next
  case (Suc n)
  define c where "c = enc (xor_block prev m)"
  have c: "length c = 16" by (simp add: c_def)
  have take: "take 16 (drop (16 * w) (memcpy out (16 * w) c)) = c"
    using take_drop_memcpy [of "16 * w" c out] Suc.prems(3) c by simp
  have "16 * w + 16 \<le> sz" using Suc.prems(1) by presburger
  then have step: "CBCEncrypt_loop enc sz m prev (16 * w) out =
      CBCEncrypt_loop enc sz (drop 16 m) c (16 * Suc w) (memcpy out (16 * w) c)"
    by (subst CBCEncrypt_loop.simps) (simp add: Let_def take add.commute flip: xor_block_def c_def)
  have "memcpy (memcpy out (16 * w) c) (16 * Suc w) r = memcpy out (16 * w) (c @ r)"
    if "length r = 16 * n" for r
    using memcpy_memcpy_append [of "16 * w" c r out] Suc.prems(3) that c by (simp add: ac_simps)
  then have "memcpy (memcpy out (16 * w) c) (16 * Suc w) (cbc_enc enc n c (drop 16 m)) =
      memcpy out (16 * w) (cbc_enc enc (Suc n) prev m)"
    by (simp add: Let_def flip: c_def)
  moreover obtain mixed where "CBCEncrypt_loop enc sz (drop 16 m) c (16 * Suc w) (memcpy out (16 * w) c) =
      (drop (16 * n) (drop 16 m), mixed, 16 * (Suc w + n),
       memcpy (memcpy out (16 * w) c) (16 * Suc w) (cbc_enc enc n c (drop 16 m)))"
    and "length mixed = 16"
    and "\<forall>x. cbc_enc enc (Suc n) c (drop 16 m @ x) =
      cbc_enc enc n c (drop 16 m) @ enc (xor_block mixed (drop (16 * n) (drop 16 m) @ x))"
  proof -
    have "\<exists>mixed. CBCEncrypt_loop enc sz (drop 16 m) c (16 * Suc w) (memcpy out (16 * w) c) =
        (drop (16 * n) (drop 16 m), mixed, 16 * (Suc w + n),
         memcpy (memcpy out (16 * w) c) (16 * Suc w) (cbc_enc enc n c (drop 16 m))) \<and>
        length mixed = 16 \<and>
        (\<forall>x. cbc_enc enc (Suc n) c (drop 16 m @ x) =
          cbc_enc enc n c (drop 16 m) @ enc (xor_block mixed (drop (16 * n) (drop 16 m) @ x)))"
      using Suc.prems c by (intro Suc.IH) simp_all
    then show ?thesis using that by blast
  qed
  moreover have "xor_block prev (m @ x) = xor_block prev m" for x
    using Suc.prems(2) by (intro nth_equalityI) (simp_all add: nth_append)
  ultimately show ?case
    using Suc.prems(2) unfolding step by (intro exI [of _ mixed]) (simp add: Let_def add.commute flip: c_def)
qed

lemmas encrypt_loop_start = encrypt_loop [of _ 0, unfolded mult_0_right add_0]

lemma CBCEncrypt_nopad:
  assumes "sz = 16 * n" and "0 < n" and "sz \<le> length data" and "sz \<le> length out" and "length iv = 16"
  shows "CBCEncrypt enc iv (Some data) sz False (Some out) = (sz, Some (memcpy out 0 (cbc_enc enc n iv data)))"
  using encrypt_loop_start [of sz n data out iv] assms by (auto simp: CBCEncrypt_def Let_def)

lemma CBCEncrypt_pad:
  assumes "0 < length data" and "16 * (length data div 16 + 1) \<le> length out" and "length iv = 16"
  shows "CBCEncrypt enc iv (Some data) (length data) True (Some out) =
    (length (pkcs7 data), Some (memcpy out 0 (cbc_enc enc (length data div 16 + 1) iv (pkcs7 data))))"
proof -
  define n where "n = length data div 16"
  define q where "q = length data mod 16"
  have q: "length data = 16 * n + q" "q < 16" by (simp_all add: n_def q_def)
  obtain mixed where loop: "CBCEncrypt_loop enc (length data) data iv 0 out =
      (drop (16 * n) data, mixed, 16 * n, memcpy out 0 (cbc_enc enc n iv data))"
    and mixed: "length mixed = 16"
    and last: "\<And>x. cbc_enc enc (Suc n) iv (data @ x) =
      cbc_enc enc n iv data @ enc (xor_block mixed (drop (16 * n) data @ x))"
    using encrypt_loop_start [OF n_def [symmetric] _ _ assms(3)] assms(2) q(1) unfolding n_def [symmetric] by force
  have "fold (\<lambda>i m. m[i := m ! i XOR of_nat (16 - q)]) [q..<16]
      (fold (\<lambda>i m. m[i := m ! i XOR drop (16 * n) data ! i]) [0..<q] mixed) =
      xor_block mixed (drop (16 * n) data @ replicate (16 - q) (of_nat (16 - q)))"
    using fold_xor_tail [of q mixed "drop (16 * n) data" "of_nat (16 - q)"] q mixed by simp
  moreover have "memcpy (memcpy out 0 (cbc_enc enc n iv data)) (16 * n) b =
      memcpy out 0 (cbc_enc enc n iv data @ b)" if "length b = 16" for b
    using memcpy_memcpy_append [of 0 "cbc_enc enc n iv data" b out] assms(2) that by (simp flip: n_def)
  moreover have "pkcs7 data = data @ replicate (16 - q) (of_nat (16 - q))"
    unfolding pkcs7_def q_def ..
  ultimately show ?thesis
    using assms loop last [of "replicate (16 - q) (of_nat (16 - q))"] length_pkcs7 [of data]
    by (simp add: CBCEncrypt_def Let_def flip: q_def n_def del: cbc_enc.simps)
qed

lemma CBCDecrypt_outcome:
  assumes "sz = 16 * n" and "0 < n" and "sz \<le> length data" and "sz \<le> length out"
  shows "CBCDecrypt dec iv (Some data) sz pad (Some out) =
    (if pad then (case pkcs7_unpad (cbc_dec dec n iv data) of None \<Rightarrow> 0 | Some m \<Rightarrow> length m) else sz,
     Some (memcpy out 0 (cbc_dec dec n iv data)))"
proof -
  have loop: "CBCDecrypt_loop dec data sz iv 0 out = (sz, memcpy out 0 (cbc_dec dec n iv data))"
    using decrypt_loop [of sz 0 n data out dec iv] assms by simp
  have "cbc_dec dec n iv data \<noteq> []" using assms(2) by (metis length_cbc_dec list.size(3) mult_is_0 not_gr0 zero_neq_numeral)
  then show ?thesis
    using CBCDecrypt_padding_correct [of "cbc_dec dec n iv data" "drop sz out"] assms(1,2)
    by (cases pad) (auto simp: CBCDecrypt_def loop [unfolded assms(1)] memcpy_def Let_def split: prod.splits)
qed

end

section \<open>AES as a block cipher\<close>

interpretation aes256: block_cipher "AES256_Encrypt (AES256_init key)" "AES256_Decrypt (AES256_init key)" for key
  by unfold_locales
    (simp_all add: AES256_Encrypt_def AES256_Decrypt_def AES_blocks AES256_init_def AES_decrypt_setup)

interpretation aes128: block_cipher "AES128_Encrypt (AES128_init key)" "AES128_Decrypt (AES128_init key)" for key
  by unfold_locales
    (simp_all add: AES128_Encrypt_def AES128_Decrypt_def AES_blocks AES128_init_def AES_decrypt_setup)

section \<open>Properties of the chaining mode\<close>

text \<open>
  Encrypting a non-empty message with AES-256 in CBC mode with padding and decrypting the
  result under the same key and initialisation vector returns the message and its length.
\<close>

theorem aes256_cbc_roundtrip:
  assumes "0 < length data" and "length iv = 16"
    and "length data + 16 \<le> length out" and "length data + 16 \<le> length out'"
    and "AES256CBCEncrypt (AES256CBC_new key iv True) (Some data) (length data) (Some out) = (n, Some c)"
  shows "n = 16 * (length data div 16 + 1) \<and>
    (\<exists>p. AES256CBCDecrypt (AES256CBC_new key iv True) (Some c) n (Some out') = (length data, Some p) \<and>
         take (length data) p = data)"
proof -
  let ?n = "length data div 16 + 1"
  let ?e = "cbc_enc (AES256_Encrypt (AES256_init key)) ?n iv (pkcs7 data)"
  have room: "16 * ?n \<le> length data + 16" by simp
  have n: "n = 16 * ?n" and c: "c = memcpy out 0 ?e"
    using assms room aes256.CBCEncrypt_pad [of data out iv key]
    by (simp_all add: AES256CBCEncrypt_def AES256CBC_new_def length_pkcs7)
  have "cbc_dec (AES256_Decrypt (AES256_init key)) ?n iv c =
      cbc_dec (AES256_Decrypt (AES256_init key)) ?n iv (take (16 * ?n) c)"
    by (rule cbc_dec_take)
  also have "take (16 * ?n) c = ?e" unfolding c by (rule take_memcpy_0) (rule aes256.length_cbc_enc)
  also have "cbc_dec (AES256_Decrypt (AES256_init key)) ?n iv ?e = pkcs7 data"
    using aes256.cbc_dec_enc [of ?n "pkcs7 data" key iv] by (simp add: length_pkcs7)
  finally have dec: "cbc_dec (AES256_Decrypt (AES256_init key)) ?n iv c = pkcs7 data" .
  have "CBCDecrypt (AES256_Decrypt (AES256_init key)) iv (Some c) n True (Some out') =
      (length data, Some (memcpy out' 0 (pkcs7 data)))"
  proof -
    have "n \<le> length c" and "n \<le> length out'" using n room assms(3,4) aes256.length_cbc_enc [of key ?n iv "pkcs7 data"]
      unfolding c memcpy_def by (simp_all del: cbc_enc.simps)
    then show ?thesis using aes256.CBCDecrypt_outcome [OF n, of c out' key iv True] dec by simp
  qed
  then show ?thesis
    using n assms(2) by (simp add: AES256CBCDecrypt_def AES256CBC_new_def memcpy_def pkcs7_def)
qed

theorem aes256_cbc_roundtrip_witness:
  "\<exists>n c p. AES256CBCEncrypt (AES256CBC_new (replicate 32 1) (replicate 16 2) True) (Some [1, 2, 3]) 3
      (Some (replicate 19 0)) = (n, Some c) \<and>
    AES256CBCDecrypt (AES256CBC_new (replicate 32 1) (replicate 16 2) True) (Some c) n
      (Some (replicate 19 0)) = (3, Some p) \<and> take 3 p = [1, 2, 3]"
proof -
  obtain n c where e: "AES256CBCEncrypt (AES256CBC_new (replicate 32 1) (replicate 16 2) True) (Some [1, 2, 3])
      (length [1, 2, 3 :: u8]) (Some (replicate 19 0)) = (n, Some c)"
    using aes256.CBCEncrypt_pad [of "[1, 2, 3]" "replicate 19 0" "replicate 16 2" "replicate 32 1"]
    by (simp add: AES256CBCEncrypt_def AES256CBC_new_def)
  have 3: "length [1, 2, 3 :: u8] = 3" by simp
  from aes256_cbc_roundtrip [OF _ _ _ _ e, of "replicate 19 0"] e show ?thesis unfolding 3 by auto
qed

text \<open>
  Decryption with AES-128 or AES-256 of a whole number of blocks, with padding, returns the
  length of the message whose padded form the decrypted blocks are, and 0 when the blocks are no
  padded message; the constant-time scan of the last block decides exactly that.
\<close>

theorem aes_cbc_decrypt_padding:
  assumes "sz = 16 * n" and "0 < n" and "sz \<le> length data" and "sz \<le> length out" and "length iv = 16"
    and "p256 = cbc_dec (AES256_Decrypt (AES256_init key)) n iv data"
    and "p128 = cbc_dec (AES128_Decrypt (AES128_init key)) n iv data"
  shows "(\<forall>m. p256 = pkcs7 m \<longrightarrow>
        fst (AES256CBCDecrypt (AES256CBC_new key iv True) (Some data) sz (Some out)) = length m)
    \<and> ((\<nexists>m. p256 = pkcs7 m) \<longrightarrow>
        fst (AES256CBCDecrypt (AES256CBC_new key iv True) (Some data) sz (Some out)) = 0)
    \<and> (\<forall>m. p128 = pkcs7 m \<longrightarrow>
        fst (AES128CBCDecrypt (AES128CBC_new key iv True) (Some data) sz (Some out)) = length m)
    \<and> ((\<nexists>m. p128 = pkcs7 m) \<longrightarrow>
        fst (AES128CBCDecrypt (AES128CBC_new key iv True) (Some data) sz (Some out)) = 0)"
proof -
  have p: "length p256 mod 16 = 0" "p256 \<noteq> []" "length p128 mod 16 = 0" "p128 \<noteq> []"
    using assms by (auto simp flip: length_greater_0_conv)
  have "fst (AES256CBCDecrypt (AES256CBC_new key iv True) (Some data) sz (Some out)) =
      (case pkcs7_unpad p256 of None \<Rightarrow> 0 | Some m \<Rightarrow> length m)"
    using aes256.CBCDecrypt_outcome [OF assms(1-4), of key iv True] assms(5,6)
    by (simp add: AES256CBCDecrypt_def AES256CBC_new_def)
  moreover have "fst (AES128CBCDecrypt (AES128CBC_new key iv True) (Some data) sz (Some out)) =
      (case pkcs7_unpad p128 of None \<Rightarrow> 0 | Some m \<Rightarrow> length m)"
    using aes128.CBCDecrypt_outcome [OF assms(1-4), of key iv True] assms(5,7)
    by (simp add: AES128CBCDecrypt_def AES128CBC_new_def)
  ultimately show ?thesis
    unfolding unpad_length_iff [OF p(1,2)] unpad_length_iff [OF p(3,4)] by simp
qed

theorem aes_cbc_decrypt_padding_witness:
  "fst (AES128CBCDecrypt (AES128CBC_new (replicate 16 1) (replicate 16 2) True)
     (Some (cbc_enc (AES128_Encrypt (AES128_init (replicate 16 1))) 1 (replicate 16 2) (pkcs7 [1, 2, 3]))) 16
     (Some (replicate 16 0))) = 3"
proof -
  have "cbc_dec (AES128_Decrypt (AES128_init (replicate 16 1))) 1 (replicate 16 2)
      (cbc_enc (AES128_Encrypt (AES128_init (replicate 16 1))) 1 (replicate 16 2) (pkcs7 [1, 2, 3])) = pkcs7 [1, 2, 3]"
    using aes128.cbc_dec_enc [of 1 "pkcs7 [1, 2, 3]" "replicate 16 1" "replicate 16 2"] by (simp add: length_pkcs7)
  then show ?thesis
    using aes_cbc_decrypt_padding [of 16 1 "cbc_enc (AES128_Encrypt (AES128_init (replicate 16 1))) 1 (replicate 16 2)
      (pkcs7 [1, 2, 3])" "replicate 16 0" "replicate 16 2", OF _ _ _ _ _ refl refl, of "replicate 16 1"]
    by (simp del: cbc_dec.simps)
qed

end
