(* ===== verification/Keccakf.thy ===== *)
theory Keccakf
  imports Prelude
begin

text \<open>
  The Keccak permutations of \<^verbatim>\<open>src/crypto/ethash/lib/keccak\<close>: \<^verbatim>\<open>keccakf1600.c\<close> (64-bit lanes,
  24 rounds) and \<^verbatim>\<open>keccakf800.c\<close> (32-bit lanes, 22 rounds). The C code unrolls two rounds per loop
  iteration over fifty local variables \<^verbatim>\<open>Axx\<close>, \<^verbatim>\<open>Exx\<close>; each of the two halves of the loop body is
  one definition, the 25 variables of one name family are the list it takes and returns, in the
  order in which the code loads them from and stores them to \<^verbatim>\<open>state\<close>.

  The specification is the round function of FIPS 202 on lanes of any width: \<open>theta\<close>, \<open>rho\<close>, \<open>pi\<close>,
  \<open>chi\<close>, \<open>iota\<close>, with the rotation offsets and the round constants given by their generating
  procedures and not by tables.
\<close>

section \<open>The permutations of ethash\<close>

definition rol64 :: "u64 \<Rightarrow> nat \<Rightarrow> u64" where
  "rol64 x s = push_bit s x OR drop_bit (64 - s) x"

definition round_constants64 :: "u64 list" where
  "round_constants64 =
    [0x1, 0x8082, 0x800000000000808a, 0x8000000080008000,
     0x808b, 0x80000001, 0x8000000080008081, 0x8000000000008009,
     0x8a, 0x88, 0x80008009, 0x8000000a,
     0x8000808b, 0x800000000000008b, 0x8000000000008089, 0x8000000000008003,
     0x8000000000008002, 0x8000000000000080, 0x800a, 0x800000008000000a,
     0x8000000080008081, 0x8000000000008080, 0x80000001, 0x8000000080008008]"

definition ethash_keccakf1600_AE :: "nat \<Rightarrow> u64 list \<Rightarrow> u64 list" where
  "ethash_keccakf1600_AE r state =
    (let Aba = state ! 0; Abe = state ! 1; Abi = state ! 2; Abo = state ! 3; Abu = state ! 4;
         Aga = state ! 5; Age = state ! 6; Agi = state ! 7; Ago = state ! 8; Agu = state ! 9;
         Aka = state ! 10; Ake = state ! 11; Aki = state ! 12; Ako = state ! 13; Aku = state ! 14;
         Ama = state ! 15; Ame = state ! 16; Ami = state ! 17; Amo = state ! 18; Amu = state ! 19;
         Asa = state ! 20; Ase = state ! 21; Asi = state ! 22; Aso = state ! 23; Asu = state ! 24;
         Ba = Aba XOR Aga XOR Aka XOR Ama XOR Asa;
         Be = Abe XOR Age XOR Ake XOR Ame XOR Ase;
         Bi = Abi XOR Agi XOR Aki XOR Ami XOR Asi;
         Bo = Abo XOR Ago XOR Ako XOR Amo XOR Aso;
         Bu = Abu XOR Agu XOR Aku XOR Amu XOR Asu;
         Da = Bu XOR rol64 Be 1;
         De = Ba XOR rol64 Bi 1;
         Di = Be XOR rol64 Bo 1;
         Do = Bi XOR rol64 Bu 1;
         Du = Bo XOR rol64 Ba 1;
         Ba = Aba XOR Da;
         Be = rol64 (Age XOR De) 44;
         Bi = rol64 (Aki XOR Di) 43;
         Bo = rol64 (Amo XOR Do) 21;
         Bu = rol64 (Asu XOR Du) 14;
         Eba = Ba XOR (NOT Be AND Bi) XOR round_constants64 ! r;
         Ebe = Be XOR (NOT Bi AND Bo);
         Ebi = Bi XOR (NOT Bo AND Bu);
         Ebo = Bo XOR (NOT Bu AND Ba);
         Ebu = Bu XOR (NOT Ba AND Be);
         Ba = rol64 (Abo XOR Do) 28;
         Be = rol64 (Agu XOR Du) 20;
         Bi = rol64 (Aka XOR Da) 3;
         Bo = rol64 (Ame XOR De) 45;
         Bu = rol64 (Asi XOR Di) 61;
         Ega = Ba XOR (NOT Be AND Bi);
         Ege = Be XOR (NOT Bi AND Bo);
         Egi = Bi XOR (NOT Bo AND Bu);
         Ego = Bo XOR (NOT Bu AND Ba);
         Egu = Bu XOR (NOT Ba AND Be);
         Ba = rol64 (Abe XOR De) 1;
         Be = rol64 (Agi XOR Di) 6;
         Bi = rol64 (Ako XOR Do) 25;
         Bo = rol64 (Amu XOR Du) 8;
         Bu = rol64 (Asa XOR Da) 18;
         Eka = Ba XOR (NOT Be AND Bi);
         Eke = Be XOR (NOT Bi AND Bo);
         Eki = Bi XOR (NOT Bo AND Bu);
         Eko = Bo XOR (NOT Bu AND Ba);
         Eku = Bu XOR (NOT Ba AND Be);
         Ba = rol64 (Abu XOR Du) 27;
         Be = rol64 (Aga XOR Da) 36;
         Bi = rol64 (Ake XOR De) 10;
         Bo = rol64 (Ami XOR Di) 15;
         Bu = rol64 (Aso XOR Do) 56;
         Ema = Ba XOR (NOT Be AND Bi);
         Eme = Be XOR (NOT Bi AND Bo);
         Emi = Bi XOR (NOT Bo AND Bu);
         Emo = Bo XOR (NOT Bu AND Ba);
         Emu = Bu XOR (NOT Ba AND Be);
         Ba = rol64 (Abi XOR Di) 62;
         Be = rol64 (Ago XOR Do) 55;
         Bi = rol64 (Aku XOR Du) 39;
         Bo = rol64 (Ama XOR Da) 41;
         Bu = rol64 (Ase XOR De) 2;
         Esa = Ba XOR (NOT Be AND Bi);
         Ese = Be XOR (NOT Bi AND Bo);
         Esi = Bi XOR (NOT Bo AND Bu);
         Eso = Bo XOR (NOT Bu AND Ba);
         Esu = Bu XOR (NOT Ba AND Be)
     in [Eba, Ebe, Ebi, Ebo, Ebu,
         Ega, Ege, Egi, Ego, Egu,
         Eka, Eke, Eki, Eko, Eku,
         Ema, Eme, Emi, Emo, Emu,
         Esa, Ese, Esi, Eso, Esu])"

definition ethash_keccakf1600_EA :: "nat \<Rightarrow> u64 list \<Rightarrow> u64 list" where
  "ethash_keccakf1600_EA r state =
    (let Eba = state ! 0; Ebe = state ! 1; Ebi = state ! 2; Ebo = state ! 3; Ebu = state ! 4;
         Ega = state ! 5; Ege = state ! 6; Egi = state ! 7; Ego = state ! 8; Egu = state ! 9;
         Eka = state ! 10; Eke = state ! 11; Eki = state ! 12; Eko = state ! 13; Eku = state ! 14;
         Ema = state ! 15; Eme = state ! 16; Emi = state ! 17; Emo = state ! 18; Emu = state ! 19;
         Esa = state ! 20; Ese = state ! 21; Esi = state ! 22; Eso = state ! 23; Esu = state ! 24;
         Ba = Eba XOR Ega XOR Eka XOR Ema XOR Esa;
         Be = Ebe XOR Ege XOR Eke XOR Eme XOR Ese;
         Bi = Ebi XOR Egi XOR Eki XOR Emi XOR Esi;
         Bo = Ebo XOR Ego XOR Eko XOR Emo XOR Eso;
         Bu = Ebu XOR Egu XOR Eku XOR Emu XOR Esu;
         Da = Bu XOR rol64 Be 1;
         De = Ba XOR rol64 Bi 1;
         Di = Be XOR rol64 Bo 1;
         Do = Bi XOR rol64 Bu 1;
         Du = Bo XOR rol64 Ba 1;
         Ba = Eba XOR Da;
         Be = rol64 (Ege XOR De) 44;
         Bi = rol64 (Eki XOR Di) 43;
         Bo = rol64 (Emo XOR Do) 21;
         Bu = rol64 (Esu XOR Du) 14;
         Aba = Ba XOR (NOT Be AND Bi) XOR round_constants64 ! (r + 1);
         Abe = Be XOR (NOT Bi AND Bo);
         Abi = Bi XOR (NOT Bo AND Bu);
         Abo = Bo XOR (NOT Bu AND Ba);
         Abu = Bu XOR (NOT Ba AND Be);
         Ba = rol64 (Ebo XOR Do) 28;
         Be = rol64 (Egu XOR Du) 20;
         Bi = rol64 (Eka XOR Da) 3;
         Bo = rol64 (Eme XOR De) 45;
         Bu = rol64 (Esi XOR Di) 61;
         Aga = Ba XOR (NOT Be AND Bi);
         Age = Be XOR (NOT Bi AND Bo);
         Agi = Bi XOR (NOT Bo AND Bu);
         Ago = Bo XOR (NOT Bu AND Ba);
         Agu = Bu XOR (NOT Ba AND Be);
         Ba = rol64 (Ebe XOR De) 1;
         Be = rol64 (Egi XOR Di) 6;
         Bi = rol64 (Eko XOR Do) 25;
         Bo = rol64 (Emu XOR Du) 8;
         Bu = rol64 (Esa XOR Da) 18;
         Aka = Ba XOR (NOT Be AND Bi);
         Ake = Be XOR (NOT Bi AND Bo);
         Aki = Bi XOR (NOT Bo AND Bu);
         Ako = Bo XOR (NOT Bu AND Ba);
         Aku = Bu XOR (NOT Ba AND Be);
         Ba = rol64 (Ebu XOR Du) 27;
         Be = rol64 (Ega XOR Da) 36;
         Bi = rol64 (Eke XOR De) 10;
         Bo = rol64 (Emi XOR Di) 15;
         Bu = rol64 (Eso XOR Do) 56;
         Ama = Ba XOR (NOT Be AND Bi);
         Ame = Be XOR (NOT Bi AND Bo);
         Ami = Bi XOR (NOT Bo AND Bu);
         Amo = Bo XOR (NOT Bu AND Ba);
         Amu = Bu XOR (NOT Ba AND Be);
         Ba = rol64 (Ebi XOR Di) 62;
         Be = rol64 (Ego XOR Do) 55;
         Bi = rol64 (Eku XOR Du) 39;
         Bo = rol64 (Ema XOR Da) 41;
         Bu = rol64 (Ese XOR De) 2;
         Asa = Ba XOR (NOT Be AND Bi);
         Ase = Be XOR (NOT Bi AND Bo);
         Asi = Bi XOR (NOT Bo AND Bu);
         Aso = Bo XOR (NOT Bu AND Ba);
         Asu = Bu XOR (NOT Ba AND Be)
     in [Aba, Abe, Abi, Abo, Abu,
         Aga, Age, Agi, Ago, Agu,
         Aka, Ake, Aki, Ako, Aku,
         Ama, Ame, Ami, Amo, Amu,
         Asa, Ase, Asi, Aso, Asu])"

definition ethash_keccakf1600 :: "u64 list \<Rightarrow> u64 list" where
  "ethash_keccakf1600 state =
    fold (\<lambda>k A. ethash_keccakf1600_EA (2 * k) (ethash_keccakf1600_AE (2 * k) A)) [0..<12] state"

definition rol32 :: "u32 \<Rightarrow> nat \<Rightarrow> u32" where
  "rol32 x s = push_bit s x OR drop_bit (32 - s) x"

definition round_constants32 :: "u32 list" where
  "round_constants32 =
    [0x1, 0x8082, 0x808a, 0x80008000,
     0x808b, 0x80000001, 0x80008081, 0x8009,
     0x8a, 0x88, 0x80008009, 0x8000000a,
     0x8000808b, 0x8b, 0x8089, 0x8003,
     0x8002, 0x80, 0x800a, 0x8000000a,
     0x80008081, 0x8080]"

definition ethash_keccakf800_AE :: "nat \<Rightarrow> u32 list \<Rightarrow> u32 list" where
  "ethash_keccakf800_AE r state =
    (let Aba = state ! 0; Abe = state ! 1; Abi = state ! 2; Abo = state ! 3; Abu = state ! 4;
         Aga = state ! 5; Age = state ! 6; Agi = state ! 7; Ago = state ! 8; Agu = state ! 9;
         Aka = state ! 10; Ake = state ! 11; Aki = state ! 12; Ako = state ! 13; Aku = state ! 14;
         Ama = state ! 15; Ame = state ! 16; Ami = state ! 17; Amo = state ! 18; Amu = state ! 19;
         Asa = state ! 20; Ase = state ! 21; Asi = state ! 22; Aso = state ! 23; Asu = state ! 24;
         Ba = Aba XOR Aga XOR Aka XOR Ama XOR Asa;
         Be = Abe XOR Age XOR Ake XOR Ame XOR Ase;
         Bi = Abi XOR Agi XOR Aki XOR Ami XOR Asi;
         Bo = Abo XOR Ago XOR Ako XOR Amo XOR Aso;
         Bu = Abu XOR Agu XOR Aku XOR Amu XOR Asu;
         Da = Bu XOR rol32 Be 1;
         De = Ba XOR rol32 Bi 1;
         Di = Be XOR rol32 Bo 1;
         Do = Bi XOR rol32 Bu 1;
         Du = Bo XOR rol32 Ba 1;
         Ba = Aba XOR Da;
         Be = rol32 (Age XOR De) 12;
         Bi = rol32 (Aki XOR Di) 11;
         Bo = rol32 (Amo XOR Do) 21;
         Bu = rol32 (Asu XOR Du) 14;
         Eba = Ba XOR (NOT Be AND Bi) XOR round_constants32 ! r;
         Ebe = Be XOR (NOT Bi AND Bo);
         Ebi = Bi XOR (NOT Bo AND Bu);
         Ebo = Bo XOR (NOT Bu AND Ba);
         Ebu = Bu XOR (NOT Ba AND Be);
         Ba = rol32 (Abo XOR Do) 28;
         Be = rol32 (Agu XOR Du) 20;
         Bi = rol32 (Aka XOR Da) 3;
         Bo = rol32 (Ame XOR De) 13;
         Bu = rol32 (Asi XOR Di) 29;
         Ega = Ba XOR (NOT Be AND Bi);
         Ege = Be XOR (NOT Bi AND Bo);
         Egi = Bi XOR (NOT Bo AND Bu);
         Ego = Bo XOR (NOT Bu AND Ba);
         Egu = Bu XOR (NOT Ba AND Be);
         Ba = rol32 (Abe XOR De) 1;
         Be = rol32 (Agi XOR Di) 6;
         Bi = rol32 (Ako XOR Do) 25;
         Bo = rol32 (Amu XOR Du) 8;
         Bu = rol32 (Asa XOR Da) 18;
         Eka = Ba XOR (NOT Be AND Bi);
         Eke = Be XOR (NOT Bi AND Bo);
         Eki = Bi XOR (NOT Bo AND Bu);
         Eko = Bo XOR (NOT Bu AND Ba);
         Eku = Bu XOR (NOT Ba AND Be);
         Ba = rol32 (Abu XOR Du) 27;
         Be = rol32 (Aga XOR Da) 4;
         Bi = rol32 (Ake XOR De) 10;
         Bo = rol32 (Ami XOR Di) 15;
         Bu = rol32 (Aso XOR Do) 24;
         Ema = Ba XOR (NOT Be AND Bi);
         Eme = Be XOR (NOT Bi AND Bo);
         Emi = Bi XOR (NOT Bo AND Bu);
         Emo = Bo XOR (NOT Bu AND Ba);
         Emu = Bu XOR (NOT Ba AND Be);
         Ba = rol32 (Abi XOR Di) 30;
         Be = rol32 (Ago XOR Do) 23;
         Bi = rol32 (Aku XOR Du) 7;
         Bo = rol32 (Ama XOR Da) 9;
         Bu = rol32 (Ase XOR De) 2;
         Esa = Ba XOR (NOT Be AND Bi);
         Ese = Be XOR (NOT Bi AND Bo);
         Esi = Bi XOR (NOT Bo AND Bu);
         Eso = Bo XOR (NOT Bu AND Ba);
         Esu = Bu XOR (NOT Ba AND Be)
     in [Eba, Ebe, Ebi, Ebo, Ebu,
         Ega, Ege, Egi, Ego, Egu,
         Eka, Eke, Eki, Eko, Eku,
         Ema, Eme, Emi, Emo, Emu,
         Esa, Ese, Esi, Eso, Esu])"

definition ethash_keccakf800_EA :: "nat \<Rightarrow> u32 list \<Rightarrow> u32 list" where
  "ethash_keccakf800_EA r state =
    (let Eba = state ! 0; Ebe = state ! 1; Ebi = state ! 2; Ebo = state ! 3; Ebu = state ! 4;
         Ega = state ! 5; Ege = state ! 6; Egi = state ! 7; Ego = state ! 8; Egu = state ! 9;
         Eka = state ! 10; Eke = state ! 11; Eki = state ! 12; Eko = state ! 13; Eku = state ! 14;
         Ema = state ! 15; Eme = state ! 16; Emi = state ! 17; Emo = state ! 18; Emu = state ! 19;
         Esa = state ! 20; Ese = state ! 21; Esi = state ! 22; Eso = state ! 23; Esu = state ! 24;
         Ba = Eba XOR Ega XOR Eka XOR Ema XOR Esa;
         Be = Ebe XOR Ege XOR Eke XOR Eme XOR Ese;
         Bi = Ebi XOR Egi XOR Eki XOR Emi XOR Esi;
         Bo = Ebo XOR Ego XOR Eko XOR Emo XOR Eso;
         Bu = Ebu XOR Egu XOR Eku XOR Emu XOR Esu;
         Da = Bu XOR rol32 Be 1;
         De = Ba XOR rol32 Bi 1;
         Di = Be XOR rol32 Bo 1;
         Do = Bi XOR rol32 Bu 1;
         Du = Bo XOR rol32 Ba 1;
         Ba = Eba XOR Da;
         Be = rol32 (Ege XOR De) 12;
         Bi = rol32 (Eki XOR Di) 11;
         Bo = rol32 (Emo XOR Do) 21;
         Bu = rol32 (Esu XOR Du) 14;
         Aba = Ba XOR (NOT Be AND Bi) XOR round_constants32 ! (r + 1);
         Abe = Be XOR (NOT Bi AND Bo);
         Abi = Bi XOR (NOT Bo AND Bu);
         Abo = Bo XOR (NOT Bu AND Ba);
         Abu = Bu XOR (NOT Ba AND Be);
         Ba = rol32 (Ebo XOR Do) 28;
         Be = rol32 (Egu XOR Du) 20;
         Bi = rol32 (Eka XOR Da) 3;
         Bo = rol32 (Eme XOR De) 13;
         Bu = rol32 (Esi XOR Di) 29;
         Aga = Ba XOR (NOT Be AND Bi);
         Age = Be XOR (NOT Bi AND Bo);
         Agi = Bi XOR (NOT Bo AND Bu);
         Ago = Bo XOR (NOT Bu AND Ba);
         Agu = Bu XOR (NOT Ba AND Be);
         Ba = rol32 (Ebe XOR De) 1;
         Be = rol32 (Egi XOR Di) 6;
         Bi = rol32 (Eko XOR Do) 25;
         Bo = rol32 (Emu XOR Du) 8;
         Bu = rol32 (Esa XOR Da) 18;
         Aka = Ba XOR (NOT Be AND Bi);
         Ake = Be XOR (NOT Bi AND Bo);
         Aki = Bi XOR (NOT Bo AND Bu);
         Ako = Bo XOR (NOT Bu AND Ba);
         Aku = Bu XOR (NOT Ba AND Be);
         Ba = rol32 (Ebu XOR Du) 27;
         Be = rol32 (Ega XOR Da) 4;
         Bi = rol32 (Eke XOR De) 10;
         Bo = rol32 (Emi XOR Di) 15;
         Bu = rol32 (Eso XOR Do) 24;
         Ama = Ba XOR (NOT Be AND Bi);
         Ame = Be XOR (NOT Bi AND Bo);
         Ami = Bi XOR (NOT Bo AND Bu);
         Amo = Bo XOR (NOT Bu AND Ba);
         Amu = Bu XOR (NOT Ba AND Be);
         Ba = rol32 (Ebi XOR Di) 30;
         Be = rol32 (Ego XOR Do) 23;
         Bi = rol32 (Eku XOR Du) 7;
         Bo = rol32 (Ema XOR Da) 9;
         Bu = rol32 (Ese XOR De) 2;
         Asa = Ba XOR (NOT Be AND Bi);
         Ase = Be XOR (NOT Bi AND Bo);
         Asi = Bi XOR (NOT Bo AND Bu);
         Aso = Bo XOR (NOT Bu AND Ba);
         Asu = Bu XOR (NOT Ba AND Be)
     in [Aba, Abe, Abi, Abo, Abu,
         Aga, Age, Agi, Ago, Agu,
         Aka, Ake, Aki, Ako, Aku,
         Ama, Ame, Ami, Amo, Amu,
         Asa, Ase, Asi, Aso, Asu])"

definition ethash_keccakf800 :: "u32 list \<Rightarrow> u32 list" where
  "ethash_keccakf800 state =
    fold (\<lambda>k A. ethash_keccakf800_EA (2 * k) (ethash_keccakf800_AE (2 * k) A)) [0..<11] state"

section \<open>The specification: Keccak-f on lanes of any width\<close>

definition lane_at :: "'a::len word list \<Rightarrow> nat \<Rightarrow> nat \<Rightarrow> 'a word" where
  "lane_at A x y = A ! (x mod 5 + 5 * (y mod 5))"

definition plane_map :: "(nat \<Rightarrow> nat \<Rightarrow> 'a) \<Rightarrow> 'a list" where
  "plane_map f = map (\<lambda>i. f (i mod 5) (i div 5)) [0..<25]"

definition theta_c :: "'a::len word list \<Rightarrow> nat \<Rightarrow> 'a word" where
  "theta_c A x = lane_at A x 0 XOR lane_at A x 1 XOR lane_at A x 2 XOR lane_at A x 3 XOR lane_at A x 4"

definition theta :: "'a::len word list \<Rightarrow> 'a word list" where
  "theta A = plane_map (\<lambda>x y. lane_at A x y XOR (theta_c A (x + 4) XOR word_rotl 1 (theta_c A (x + 1))))"

text \<open>The walk of FIPS 202, algorithm 2: the lane visited at step \<open>t\<close> is rotated by \<open>(t + 1) (t + 2) / 2\<close>.\<close>

primrec rho_walk :: "nat \<Rightarrow> nat \<times> nat" where
  "rho_walk 0 = (1, 0)"
| "rho_walk (Suc t) = (case rho_walk t of (x, y) \<Rightarrow> (y, (2 * x + 3 * y) mod 5))"

definition rho_offset :: "nat \<Rightarrow> nat \<Rightarrow> nat" where
  "rho_offset x y =
    (case filter (\<lambda>t. rho_walk t = (x, y)) [0..<24] of [] \<Rightarrow> 0 | t # _ \<Rightarrow> (t + 1) * (t + 2) div 2)"

definition rho :: "'a::len word list \<Rightarrow> 'a word list" where
  "rho A = plane_map (\<lambda>x y. word_rotl (rho_offset x y mod LENGTH('a)) (lane_at A x y))"

definition keccak_pi :: "'a::len word list \<Rightarrow> 'a word list" where
  "keccak_pi A = plane_map (\<lambda>x y. lane_at A (x + 3 * y) x)"

definition chi :: "'a::len word list \<Rightarrow> 'a word list" where
  "chi A = plane_map (\<lambda>x y. lane_at A x y XOR (NOT (lane_at A (x + 1) y) AND lane_at A (x + 2) y))"

text \<open>The linear feedback shift register of FIPS 202, algorithm 5, on the register as a byte.\<close>

definition rc_step :: "u8 \<Rightarrow> u8" where
  "rc_step R = (if bit R 7 then push_bit 1 R XOR 0x71 else push_bit 1 R)"

definition rc_bit :: "nat \<Rightarrow> bool" where
  "rc_bit t = bit ((rc_step ^^ t) 1) 0"

definition iota_const :: "nat \<Rightarrow> 'a::len word" where
  "iota_const r = fold (\<lambda>j w. if rc_bit (j + 7 * r) then w OR push_bit (2 ^ j - 1) 1 else w) [0..<7] 0"

definition keccak_round :: "nat \<Rightarrow> 'a::len word list \<Rightarrow> 'a word list" where
  "keccak_round r A = (let B = chi (keccak_pi (rho (theta A))) in B[0 := B ! 0 XOR iota_const r])"

definition keccak_f :: "nat \<Rightarrow> 'a::len word list \<Rightarrow> 'a word list" where
  "keccak_f nr A = fold keccak_round [0..<nr] A"

section \<open>The unrolled rounds compute the specification\<close>

lemma upt25: "[0..<25] = [0, 1, 2, 3, 4, 5, 6, 7, 8, 9, 10, 11, 12, 13, 14, 15, 16, 17, 18, 19, 20, 21, 22, 23, 24::nat]"
  by (simp add: upt_rec)

lemma length_plane_map [simp]: "length (plane_map f) = 25"
  by (simp add: plane_map_def)

lemma lane_at_plane_map [simp]: "lane_at (plane_map f) x y = f (x mod 5) (y mod 5)"
proof -
  have "x mod 5 + 5 * (y mod 5) < 25" by presburger
  then show ?thesis by (simp add: lane_at_def plane_map_def)
qed

primrec rc_regs :: "nat \<Rightarrow> u8 \<Rightarrow> u8 list" where
  "rc_regs 0 R = []"
| "rc_regs (Suc n) R = R # rc_regs n (rc_step R)"

lemma rc_regs_eq: "rc_regs n R = map (\<lambda>t. (rc_step ^^ t) R) [0..<n]"
proof (induction n arbitrary: R)
  case (Suc n)
  have "map (\<lambda>t. (rc_step ^^ t) R) [0..<Suc n] = R # map (\<lambda>t. (rc_step ^^ Suc t) R) [0..<n]"
    by (simp add: upt_conv_Cons map_Suc_upt [symmetric] del: upt_Suc)
  with Suc show ?case by (simp add: funpow_swap1)
qed simp

lemma rc_bits_eval:
  "map (\<lambda>R. bit R 0) (rc_regs 168 1) =
    [ True, False, False, False, False, False, False, False, True, False, True, True, False, False,
      False, True, True, True, True, False, True, False, False, False, False, True, True, True,
      True, True, True, True, True, False, False, True, False, False, False, False, True, False,
      True, False, False, True, True, True, True, True, False, True, False, True, False, True,
      False, True, True, True, False, False, False, False, False, True, True, False, False, False,
      True, False, True, False, True, True, False, False, True, True, False, False, True, False,
      True, True, True, True, True, True, False, True, True, True, True, False, False, True,
      True, False, True, True, True, False, True, True, True, False, False, True, False, True,
      False, True, False, False, True, False, True, False, False, False, True, False, False, True,
      False, True, True, False, True, False, False, False, True, True, False, False, True, True,
      True, False, False, True, True, True, True, False, False, False, True, True, False, True,
      True, False, False, False, False, True, False, False, False, True, False, True, True, True]"
  by code_simp

lemma rc_bits: "map rc_bit [0..<168] =
    [ True, False, False, False, False, False, False, False, True, False, True, True, False, False,
      False, True, True, True, True, False, True, False, False, False, False, True, True, True,
      True, True, True, True, True, False, False, True, False, False, False, False, True, False,
      True, False, False, True, True, True, True, True, False, True, False, True, False, True,
      False, True, True, True, False, False, False, False, False, True, True, False, False, False,
      True, False, True, False, True, True, False, False, True, True, False, False, True, False,
      True, True, True, True, True, True, False, True, True, True, True, False, False, True,
      True, False, True, True, True, False, True, True, True, False, False, True, False, True,
      False, True, False, False, True, False, True, False, False, False, True, False, False, True,
      False, True, True, False, True, False, False, False, True, True, False, False, True, True,
      True, False, False, True, True, True, True, False, False, False, True, True, False, True,
      True, False, False, False, False, True, False, False, False, True, False, True, True, True]"
proof -
  have "rc_bit = (\<lambda>R. bit R 0) \<circ> (\<lambda>t. (rc_step ^^ t) 1)" by (simp add: rc_bit_def fun_eq_iff)
  then show ?thesis using rc_bits_eval by (simp only: rc_regs_eq list.map_comp)
qed

lemma rc_bit_nth: "t < 168 \<Longrightarrow> rc_bit t = (map rc_bit [0..<168]) ! t"
  by simp

lemma upt7: "[0..<7] = [0, 1, 2, 3, 4, 5, 6::nat]"
  by (simp add: upt_rec)

lemma less24_cases:
  "(r::nat) < 24 \<longleftrightarrow> r \<in> {0, 1, 2, 3, 4, 5, 6, 7, 8, 9, 10, 11, 12, 13, 14, 15, 16, 17, 18, 19, 20, 21, 22, 23}"
proof -
  have "r < 24 \<longleftrightarrow> r \<in> set [0..<24]" by simp
  also have "[0..<24] = [0, 1, 2, 3, 4, 5, 6, 7, 8, 9, 10, 11, 12, 13, 14, 15, 16, 17, 18, 19, 20, 21, 22, 23::nat]"
    by (simp add: upt_rec)
  finally show ?thesis by (simp only: list.set)
qed

lemma round_constants64_nth: "r < 24 \<Longrightarrow> round_constants64 ! r = iota_const r"
  unfolding less24_cases iota_const_def upt7 round_constants64_def
  by (elim insertE emptyE; hypsubst) (simp_all add: rc_bit_nth [unfolded rc_bits])

lemma round_constants32_nth: "r < 22 \<Longrightarrow> round_constants32 ! r = iota_const r"
proof -
  assume r: "r < 22"
  then have "r < 24" by simp
  then show ?thesis
    using r unfolding less24_cases iota_const_def upt7 round_constants32_def
    by (elim insertE emptyE; hypsubst) (simp_all add: rc_bit_nth [unfolded rc_bits])
qed

lemma rho_offset_table:
  "map (\<lambda>i. rho_offset (i mod 5) (i div 5)) [0..<25] =
    [0, 1, 190, 28, 91, 36, 300, 6, 55, 276, 3, 10, 171, 153, 231, 105, 45, 15, 21, 136, 210, 66, 253, 120, 78]"
  by code_simp
lemma rho_offsets:
  "rho_offset 0 0 = 0" "rho_offset 1 0 = 1" "rho_offset 2 0 = 190" "rho_offset 3 0 = 28" "rho_offset 4 0 = 91"
  "rho_offset 0 1 = 36" "rho_offset 1 1 = 300" "rho_offset 2 1 = 6" "rho_offset 3 1 = 55" "rho_offset 4 1 = 276"
  "rho_offset 0 2 = 3" "rho_offset 1 2 = 10" "rho_offset 2 2 = 171" "rho_offset 3 2 = 153" "rho_offset 4 2 = 231"
  "rho_offset 0 3 = 105" "rho_offset 1 3 = 45" "rho_offset 2 3 = 15" "rho_offset 3 3 = 21" "rho_offset 4 3 = 136"
  "rho_offset 0 4 = 210" "rho_offset 1 4 = 66" "rho_offset 2 4 = 253" "rho_offset 3 4 = 120" "rho_offset 4 4 = 78"
  using rho_offset_table by (simp_all add: upt25)

lemmas rho_offset_values = rho_offsets rho_offsets [unfolded One_nat_def]

lemma rotl64: "0 < s \<Longrightarrow> s < 64 \<Longrightarrow> word_rotl s x = rol64 x s"
  using word_rotl_alt [where 'a = 64, of s x] by (simp add: rol64_def)

lemma rotl32: "0 < s \<Longrightarrow> s < 32 \<Longrightarrow> word_rotl s x = rol32 x s"
  using word_rotl_alt [where 'a = 32, of s x] by (simp add: rol32_def)

lemma theta_c_mod [simp]: "theta_c A (x mod 5 + k) = theta_c A (x + k)"
  by (simp add: theta_c_def lane_at_def mod_add_left_eq)

lemma theta_c_mod_0 [simp]: "theta_c A (x mod 5) = theta_c A x"
  using theta_c_mod [of A x 0] by simp

lemma keccak_layers:
  "chi (keccak_pi (rho (theta (A :: 'a::len word list)))) = plane_map (\<lambda>x y.
     (let b = (\<lambda>x. word_rotl (rho_offset ((x + 3 * y) mod 5) (x mod 5) mod LENGTH('a))
       (lane_at A (x + 3 * y) x XOR (theta_c A (x + 3 * y + 4) XOR word_rotl 1 (theta_c A (x + 3 * y + 1)))))
      in b x XOR (NOT (b (x + 1)) AND b (x + 2))))"
proof -
  have pi: "lane_at (keccak_pi (rho (theta A))) x y =
      word_rotl (rho_offset ((x + 3 * y) mod 5) (x mod 5) mod LENGTH('a))
       (lane_at A (x + 3 * y) x XOR (theta_c A (x + 3 * y + 4) XOR word_rotl 1 (theta_c A (x + 3 * y + 1))))" for x y
  proof -
    have idx: "(x mod 5 + 3 * (y mod 5)) mod 5 = (x + 3 * y) mod 5"
      by (rule mod_add_cong) (rule mod_mod_trivial, rule mod_mult_right_eq)
    have lane: "lane_at A (a mod 5) (b mod 5) = lane_at A a b" for a b by (simp add: lane_at_def)
    show ?thesis
      unfolding keccak_pi_def rho_def theta_def lane_at_plane_map idx mod_mod_trivial
      by (simp only: theta_c_mod lane)
  qed
  show ?thesis unfolding chi_def pi Let_def ..
qed

lemma ethash_keccakf1600_AE_round: "r < 24 \<Longrightarrow> ethash_keccakf1600_AE r A = keccak_round r A"
  unfolding ethash_keccakf1600_AE_def keccak_round_def keccak_layers plane_map_def upt25 list.map
  by (simp add: lane_at_def theta_c_def rho_offset_values Let_def numeral_2_eq_2 [symmetric] xor.assoc rotl64 round_constants64_nth)

lemma ethash_keccakf1600_EA_round: "r + 1 < 24 \<Longrightarrow> ethash_keccakf1600_EA r A = keccak_round (r + 1) A"
  unfolding ethash_keccakf1600_EA_def keccak_round_def keccak_layers plane_map_def upt25 list.map
  by (simp add: lane_at_def theta_c_def rho_offset_values Let_def numeral_2_eq_2 [symmetric] xor.assoc rotl64 round_constants64_nth)

lemma ethash_keccakf800_AE_round: "r < 22 \<Longrightarrow> ethash_keccakf800_AE r A = keccak_round r A"
  unfolding ethash_keccakf800_AE_def keccak_round_def keccak_layers plane_map_def upt25 list.map
  by (simp add: lane_at_def theta_c_def rho_offset_values Let_def numeral_2_eq_2 [symmetric] xor.assoc rotl32 round_constants32_nth)

lemma ethash_keccakf800_EA_round: "r + 1 < 22 \<Longrightarrow> ethash_keccakf800_EA r A = keccak_round (r + 1) A"
  unfolding ethash_keccakf800_EA_def keccak_round_def keccak_layers plane_map_def upt25 list.map
  by (simp add: lane_at_def theta_c_def rho_offset_values Let_def numeral_2_eq_2 [symmetric] xor.assoc rotl32 round_constants32_nth)

text \<open>A loop that does two rounds per iteration does all the rounds.\<close>

lemma fold_pairs:
  assumes "\<And>k A. k < n \<Longrightarrow> g k A = f (2 * k + 1) (f (2 * k) A)"
  shows "fold g [0..<n] A = fold f [0..<2 * n] A"
  using assms by (induction n arbitrary: A) (simp_all add: numeral_2_eq_2)

lemma ethash_keccakf1600_spec: "ethash_keccakf1600 A = keccak_f 24 A"
  unfolding ethash_keccakf1600_def keccak_f_def
  by (subst fold_pairs [where f = keccak_round])
    (simp_all add: ethash_keccakf1600_AE_round ethash_keccakf1600_EA_round)

lemma ethash_keccakf800_spec: "ethash_keccakf800 A = keccak_f 22 A"
  unfolding ethash_keccakf800_def keccak_f_def
  by (subst fold_pairs [where f = keccak_round])
    (simp_all add: ethash_keccakf800_AE_round ethash_keccakf800_EA_round)

lemma length_keccak_round [simp]: "length (keccak_round r A) = 25"
  by (simp add: keccak_round_def chi_def Let_def)

lemma length_keccak_f: "length A = 25 \<Longrightarrow> length (keccak_f nr A) = 25"
  unfolding keccak_f_def by (induction nr) simp_all

section \<open>Properties of the permutations\<close>

text \<open>
  The two-rounds-per-iteration loops of \<^verbatim>\<open>ethash_keccakf1600\<close> and \<^verbatim>\<open>ethash_keccakf800\<close> compute
  the permutation of FIPS 202 for lanes of 64 bits with 24 rounds and of 32 bits with 22 rounds,
  rotation offsets and round constants included.
\<close>

theorem keccakf_fips202:
  "ethash_keccakf1600 A = keccak_f 24 A \<and> ethash_keccakf800 B = keccak_f 22 B"
  by (simp add: ethash_keccakf1600_spec ethash_keccakf800_spec)

end
