(* ===== verification/Ethash_Keccak.thy ===== *)
theory Ethash_Keccak
  imports Keccakf Bytes
begin

text \<open>
  \<^verbatim>\<open>src/crypto/ethash/lib/keccak/keccak.c\<close>: the Keccak hash functions of ethash with digests of 256 and
  512 bits. Input pointer and size are a byte list and a number, advanced the way the code advances
  them; \<^verbatim>\<open>last_word\<close> is the eight bytes the code fills through \<^verbatim>\<open>last_word_iter\<close>. The digest is the
  array \<^verbatim>\<open>word64s\<close> of the result union, on a little-endian host (\<^verbatim>\<open>to_le64\<close> is the identity).

  The specification \<open>keccak_digest\<close> is the sponge construction with the multi-rate padding over the
  permutation of FIPS 202.
\<close>

section \<open>The sponge of ethash\<close>

definition load_le :: "bytes \<Rightarrow> u64" where
  "load_le data = le_word (take 8 data)"

definition keccak_xor_words :: "nat \<Rightarrow> u64 list \<Rightarrow> bytes \<Rightarrow> u64 list \<times> bytes" where
  "keccak_xor_words n state data =
    fold (\<lambda>i (state, data). (state[i := state ! i XOR load_le data], drop 8 data)) [0..<n] (state, data)"

text \<open>The loop over whole blocks; \<^verbatim>\<open>block_size\<close> is 136 or 72 in the code and never 0.\<close>

function keccak_blocks :: "nat \<Rightarrow> u64 list \<Rightarrow> bytes \<Rightarrow> nat \<Rightarrow> u64 list \<times> bytes \<times> nat" where
  "keccak_blocks block_size state data sz =
    (if sz \<ge> block_size \<and> block_size \<noteq> 0 then
       (let (state, data) = keccak_xor_words (block_size div 8) state data;
            state = ethash_keccakf1600 state
        in keccak_blocks block_size state data (sz - block_size))
     else (state, data, sz))"
  by pat_completeness auto
termination by (relation "measure (\<lambda>(block_size, state, data, sz). sz)") auto

function keccak_words :: "u64 list \<Rightarrow> nat \<Rightarrow> bytes \<Rightarrow> nat \<Rightarrow> u64 list \<times> nat \<times> bytes \<times> nat" where
  "keccak_words state state_iter data sz =
    (if sz \<ge> 8 then
       keccak_words (state[state_iter := state ! state_iter XOR load_le data]) (state_iter + 1) (drop 8 data) (sz - 8)
     else (state, state_iter, data, sz))"
  by pat_completeness auto
termination by (relation "measure (\<lambda>(state, state_iter, data, sz). sz)") auto

fun keccak_last_bytes :: "bytes \<Rightarrow> nat \<Rightarrow> bytes \<Rightarrow> nat \<Rightarrow> bytes \<times> nat" where
  "keccak_last_bytes last_word last_word_iter data sz =
    (if sz > 0 then keccak_last_bytes (last_word[last_word_iter := data ! 0]) (last_word_iter + 1) (drop 1 data) (sz - 1)
     else (last_word, last_word_iter))"

declare keccak_blocks.simps [simp del] keccak_words.simps [simp del] keccak_last_bytes.simps [simp del]

definition keccak :: "nat \<Rightarrow> bytes \<Rightarrow> nat \<Rightarrow> u64 list" where
  "keccak bits data sz =
    (let word_size = 8;
         hash_size = bits div 8;
         block_size = (1600 - bits * 2) div 8;
         (state, data, sz) = keccak_blocks block_size (replicate 25 0) data sz;
         (state, state_iter, data, sz) = keccak_words state 0 data sz;
         (last_word, last_word_iter) = keccak_last_bytes (replicate 8 0) 0 data sz;
         last_word = last_word[last_word_iter := 1];
         state = state[state_iter := state ! state_iter XOR le_word last_word];
         top = block_size div word_size - 1;
         state = state[top := state ! top XOR 0x8000000000000000];
         state = ethash_keccakf1600 state
     in map (\<lambda>i. state ! i) [0..<hash_size div word_size])"

definition ethash_keccak256 :: "bytes \<Rightarrow> nat \<Rightarrow> u64 list" where
  "ethash_keccak256 data sz = keccak 256 data sz"

definition ethash_keccak256_32 :: "bytes \<Rightarrow> u64 list" where
  "ethash_keccak256_32 data = keccak 256 data 32"

definition ethash_keccak512 :: "bytes \<Rightarrow> nat \<Rightarrow> u64 list" where
  "ethash_keccak512 data sz = keccak 512 data sz"

definition ethash_keccak512_64 :: "bytes \<Rightarrow> u64 list" where
  "ethash_keccak512_64 data = keccak 512 data 64"

section \<open>The specification: sponge with multi-rate padding\<close>

definition absorb :: "u64 list \<Rightarrow> bytes \<Rightarrow> u64 list" where
  "absorb st b = map (\<lambda>i. if i < length b div 8 then st ! i XOR le_word (take 8 (drop (8 * i) b)) else st ! i)
    [0..<length st]"

definition keccak_step :: "bytes \<Rightarrow> u64 list \<Rightarrow> u64 list" where
  "keccak_step b st = keccak_f 24 (absorb st b)"

text \<open>The padded last block: a byte 1, zeros, and the top bit of the last byte flipped.\<close>

definition pad_last :: "nat \<Rightarrow> bytes \<Rightarrow> bytes" where
  "pad_last rate d =
    (let p = d @ [1] @ replicate (rate - length d - 1) 0 in p[rate - 1 := p ! (rate - 1) XOR 0x80])"

definition sponge_blocks :: "nat \<Rightarrow> bytes \<Rightarrow> bytes list" where
  "sponge_blocks rate m =
    map (\<lambda>i. chunk rate i m) [0..<length m div rate] @ [pad_last rate (drop (rate * (length m div rate)) m)]"

definition keccak_state :: "nat \<Rightarrow> bytes \<Rightarrow> u64 list" where
  "keccak_state rate m = fold keccak_step (sponge_blocks rate m) (replicate 25 0)"

definition keccak_digest :: "nat \<Rightarrow> bytes \<Rightarrow> bytes" where
  "keccak_digest bits m = take (bits div 8) (concat (map (le_bytes 8) (keccak_state (200 - bits div 4) m)))"

section \<open>The loops compute the sponge\<close>

lemma length_absorb [simp]: "length (absorb st b) = length st"
  by (simp add: absorb_def)

lemma nth_absorb:
  "i < length st \<Longrightarrow>
    absorb st b ! i = (if i < length b div 8 then st ! i XOR le_word (take 8 (drop (8 * i) b)) else st ! i)"
  by (simp add: absorb_def)

text \<open>Both loops of the code over state words add successive words of the input to a range of the state.\<close>

definition xor_words :: "nat \<Rightarrow> nat \<Rightarrow> u64 list \<Rightarrow> bytes \<Rightarrow> u64 list" where
  "xor_words k n st d =
    map (\<lambda>i. if k \<le> i \<and> i < k + n then st ! i XOR le_word (take 8 (drop (8 * (i - k)) d)) else st ! i)
      [0..<length st]"

lemma length_xor_words [simp]: "length (xor_words k n st d) = length st"
  by (simp add: xor_words_def)

lemma xor_words_0 [simp]: "xor_words k 0 st d = st"
  by (rule nth_equalityI) (auto simp: xor_words_def)

lemma xor_words_Suc:
  "xor_words k (Suc n) st d = xor_words (Suc k) n (st[k := st ! k XOR load_le d]) (drop 8 d)"
proof (rule nth_equalityI)
  fix i assume "i < length (xor_words k (Suc n) st d)"
  then have i: "i < length st" by simp
  consider "i < k" | "i = k" | "k < i" by linarith
  then show "xor_words k (Suc n) st d ! i = xor_words (Suc k) n (st[k := st ! k XOR load_le d]) (drop 8 d) ! i"
  proof cases
    case 3
    then have "8 * (i - Suc k) + 8 = 8 * (i - k)" by simp
    with 3 i show ?thesis by (simp add: xor_words_def)
  qed (use i in \<open>simp_all add: xor_words_def load_le_def\<close>)
qed simp

lemma xor_words_absorb:
  assumes "8 * n \<le> length d"
  shows "xor_words 0 n st d = absorb st (take (8 * n) d)"
proof (rule nth_equalityI)
  fix i assume "i < length (xor_words 0 n st d)"
  moreover have "take 8 (drop (8 * i) (take (8 * n) d)) = take 8 (drop (8 * i) d)" if "i < n"
    using that by (simp add: drop_take min_def)
  ultimately show "xor_words 0 n st d ! i = absorb st (take (8 * n) d) ! i"
    using assms by (simp add: xor_words_def nth_absorb min_def)
qed simp

lemma fold_xor_words:
  "fold (\<lambda>i (state, data). (state[i := state ! i XOR load_le data], drop 8 data)) [k..<k + n] (st, d) =
    (xor_words k n st d, drop (8 * n) d)"
proof (induction n arbitrary: k st d)
  case (Suc n)
  have "[k..<k + Suc n] = k # [Suc k..<Suc k + n]" by (simp add: upt_conv_Cons del: upt_Suc)
  then show ?case
    using Suc.IH [of "Suc k" "st[k := st ! k XOR load_le d]" "drop 8 d"]
    by (simp add: xor_words_Suc add.commute del: upt_Suc)
qed simp

lemma keccak_xor_words_absorb:
  "8 * n \<le> length d \<Longrightarrow> keccak_xor_words n st d = (absorb st (take (8 * n) d), drop (8 * n) d)"
  using fold_xor_words [of 0 n st d] by (simp add: keccak_xor_words_def xor_words_absorb)

lemma keccak_words_state:
  "keccak_words st k d sz = (xor_words k (sz div 8) st d, k + sz div 8, drop (8 * (sz div 8)) d, sz mod 8)"
proof (induction st k d sz rule: keccak_words.induct)
  case (1 st k d sz)
  show ?case
  proof (cases "8 \<le> sz")
    case True
    then have "sz div 8 = Suc ((sz - 8) div 8)" and "sz mod 8 = (sz - 8) mod 8"
      by (simp_all add: div_if mod_if)
    with 1 True show ?thesis by (simp add: keccak_words.simps [of st k d sz] xor_words_Suc add.commute)
  qed (simp add: keccak_words.simps)
qed

lemma keccak_last_bytes_state:
  "sz \<le> length d \<Longrightarrow> p + sz \<le> length l \<Longrightarrow>
    keccak_last_bytes l p d sz = (memcpy l p (take sz d), p + sz)"
proof (induction l p d sz rule: keccak_last_bytes.induct)
  case (1 l p d sz)
  show ?case
  proof (cases sz)
    case 0
    then show ?thesis by (simp add: keccak_last_bytes.simps memcpy_def)
  next
    case (Suc n)
    with 1 obtain x xs where d: "d = x # xs" by (cases d) auto
    have "take (Suc p) (l[p := x]) = take p l @ [x]" using 1 Suc by (simp add: take_Suc_conv_app_nth)
    moreover have "drop (Suc p + m) (l[p := x]) = drop (Suc p + m) l" for m by simp
    moreover have "keccak_last_bytes l p d sz = keccak_last_bytes (l[p := x]) (p + 1) xs n"
      using Suc d by (subst keccak_last_bytes.simps) simp
    ultimately show ?thesis using 1 Suc d by (simp add: memcpy_def)
  qed
qed

lemma keccak_blocks_state:
  assumes "rate = 8 * w" and "0 < w" and "sz = length d"
  shows "keccak_blocks rate st d sz =
    (fold keccak_step (map (\<lambda>i. chunk rate i d) [0..<sz div rate]) st, drop (rate * (sz div rate)) d, sz mod rate)"
  using assms
proof (induction rate st d sz rule: keccak_blocks.induct)
  case (1 rate st d sz)
  show ?case
  proof (cases "rate \<le> sz")
    case True
    then have q: "sz div rate = Suc ((sz - rate) div rate)" "sz mod rate = (sz - rate) mod rate"
      using 1 by (simp_all add: le_div_geq le_mod_geq)
    have "chunk rate (Suc i) d = chunk rate i (drop rate d)" for i by (simp add: chunk_def add.commute)
    then have "map (\<lambda>i. chunk rate i d) [0..<sz div rate] =
        take rate d # map (\<lambda>i. chunk rate i (drop rate d)) [0..<(sz - rate) div rate]"
      unfolding q by (simp add: upt_conv_Cons chunk_def map_Suc_upt [symmetric] del: upt_Suc)
    moreover have "keccak_blocks rate st d sz =
        keccak_blocks rate (keccak_step (take rate d) st) (drop rate d) (sz - rate)"
      using True 1 by (subst keccak_blocks.simps)
        (simp add: keccak_xor_words_absorb keccak_step_def ethash_keccakf1600_spec)
    ultimately show ?thesis
      using 1 True q keccak_xor_words_absorb [of w d st]
      by (simp add: keccak_step_def ethash_keccakf1600_spec add.commute)
  qed (use 1 in \<open>simp add: keccak_blocks.simps\<close>)
qed

subsection \<open>The last block\<close>

lemma length_pad_last [simp]: "length d < rate \<Longrightarrow> length (pad_last rate d) = rate"
  by (simp add: pad_last_def Let_def)

lemma top_bit_word: "le_word (replicate 7 0 @ [0x80]) = (0x8000000000000000 :: u64)"
proof -
  have "replicate 7 (0::u8) = [0, 0, 0, 0, 0, 0, 0]" by (simp add: numeral_eq_Suc)
  then show ?thesis by (simp add: push_bit_push_bit)
qed

lemma pad_last_xor:
  assumes "length d < rate"
  shows "pad_last rate d =
    map2 (XOR) (d @ [1] @ replicate (rate - length d - 1) 0) (replicate (rate - 1) 0 @ [0x80])"
proof -
  have "length (d @ [1] @ replicate (rate - length d - 1) 0) = rate" using assms by simp
  moreover have "p[rate - 1 := p ! (rate - 1) XOR 0x80] = map2 (XOR) p (replicate (rate - 1) 0 @ [0x80])"
    if "length p = rate" for p :: bytes
    using that assms by (intro nth_equalityI) (auto simp: nth_append nth_list_update)
  ultimately show ?thesis unfolding pad_last_def Let_def by blast
qed

lemma slice_map2:
  "take k (drop n (map2 f xs ys)) = map2 f (take k (drop n xs)) (take k (drop n ys))"
  by (simp add: take_map drop_map take_zip drop_zip)

lemma word_of_last_block:
  assumes "length d < 8 * w" and "i < w"
  shows "le_word (take 8 (drop (8 * i) (d @ [1] @ replicate (8 * w - length d - 1) 0))) =
    (if i < length d div 8 then le_word (take 8 (drop (8 * i) d))
     else if i = length d div 8 then le_word (drop (8 * i) d @ [1])
     else (0 :: u64))"
proof -
  consider "i < length d div 8" | "i = length d div 8" | "length d div 8 < i" by linarith
  then show ?thesis
  proof cases
    case 1
    then have "8 * i + 8 \<le> length d" by linarith
    with 1 show ?thesis by simp
  next
    case 2
    then have "length (drop (8 * i) d @ [1 :: u8]) \<le> 8" and len: "8 * i \<le> length d" by simp_all
    moreover from len have "drop (8 * i) (d @ [1] @ replicate (8 * w - length d - 1) 0) =
        (drop (8 * i) d @ [1]) @ replicate (8 * w - length d - 1) 0" by simp
    ultimately have "take 8 (drop (8 * i) (d @ [1] @ replicate (8 * w - length d - 1) 0)) =
        (drop (8 * i) d @ [1]) @ replicate (min (8 - length (drop (8 * i) d @ [1 :: u8])) (8 * w - length d - 1)) 0"
      using take_append [of 8 "drop (8 * i) d @ [1]"] by (simp only: take_all take_replicate)
    then have "le_word (take 8 (drop (8 * i) (d @ [1] @ replicate (8 * w - length d - 1) 0))) =
        (le_word (drop (8 * i) d @ [1]) :: u64)"
      by (simp only: le_word_append_zeros)
    with 2 show ?thesis by simp
  next
    case 3
    then have "length d < 8 * i" by linarith
    then have "take 8 (drop (8 * i) (d @ [1] @ replicate (8 * w - length d - 1) 0)) = replicate (min 8 (8 * w - 8 * i)) 0"
      by (simp add: drop_Cons' min_def)
    with 3 show ?thesis by (simp only: le_word_zeros) simp
  qed
qed

lemma word_of_top_bit:
  assumes "i < w"
  shows "le_word (take 8 (drop (8 * i) (replicate (8 * w - 1) 0 @ [0x80]))) =
    (if i = w - 1 then 0x8000000000000000 else (0 :: u64))"
proof (cases "i = w - 1")
  case True
  with assms have "8 * w - 1 - 8 * i = 7" by simp
  with True assms top_bit_word show ?thesis by simp
next
  case False
  with assms have "8 * i + 8 \<le> 8 * w - 1" by simp
  with False show ?thesis by (simp add: le_word_zeros)
qed

lemma absorb_pad_last:
  assumes "length d < 8 * w" and "w \<le> length st"
  shows "absorb st (pad_last (8 * w) d) =
    (let st' = xor_words 0 (length d div 8) st d;
         k = length d div 8;
         st' = st'[k := st' ! k XOR le_word (drop (8 * k) d @ [1])]
     in st'[w - 1 := st' ! (w - 1) XOR 0x8000000000000000])"
proof (rule nth_equalityI)
  fix i assume "i < length (absorb st (pad_last (8 * w) d))"
  then have i: "i < length st" by simp
  have "length d div 8 < w" using assms(1) by linarith
  moreover have "le_word (take 8 (drop (8 * i) (pad_last (8 * w) d))) =
      le_word (take 8 (drop (8 * i) (d @ [1] @ replicate (8 * w - length d - 1) 0))) XOR
      (le_word (take 8 (drop (8 * i) (replicate (8 * w - 1) 0 @ [0x80]))) :: u64)"
  proof -
    have "length (d @ [1] @ replicate (8 * w - length d - 1) (0 :: u8)) = 8 * w"
      and "length (replicate (8 * w - 1) (0 :: u8) @ [0x80]) = 8 * w" using assms(1) by simp_all
    then show ?thesis
      unfolding pad_last_xor [OF assms(1)] slice_map2 by (intro le_word_xor) (simp only: length_take length_drop)
  qed
  ultimately show "absorb st (pad_last (8 * w) d) ! i =
    (let st' = xor_words 0 (length d div 8) st d;
         k = length d div 8;
         st' = st'[k := st' ! k XOR le_word (drop (8 * k) d @ [1])]
     in st'[w - 1 := st' ! (w - 1) XOR 0x8000000000000000]) ! i"
    using assms i word_of_last_block [OF assms(1), of i] word_of_top_bit [of i w]
    by (auto simp: nth_absorb xor_words_def nth_list_update Let_def xor.assoc)
qed (simp add: Let_def)

subsection \<open>The digest\<close>

lemma length_keccak_step [simp]: "length (keccak_step b st) = 25" if "length st = 25"
  using that by (simp add: keccak_step_def length_keccak_f)

lemma length_fold_step: "length st = 25 \<Longrightarrow> length (fold keccak_step bs st) = 25"
  by (induction bs arbitrary: st) simp_all

lemma keccak_sponge:
  assumes "bits * 2 + 8 \<le> 1600" and "bits mod 32 = 0" and "sz = length data"
  shows "keccak bits data sz = take (bits div 64) (keccak_state (200 - bits div 4) data)"
proof -
  from assms(2) obtain b where b: "bits = 32 * b" by (metis dvdE dvd_eq_mod_eq_0)
  define w where "w = 25 - b"
  have rate: "(1600 - bits * 2) div 8 = 8 * w" "200 - bits div 4 = 8 * w" and w: "0 < w" "w \<le> 25"
    and hash: "bits div 8 div 8 = bits div 64"
    using assms(1) unfolding w_def b by (simp_all flip: div_mult2_eq)
  define m where "m = drop (8 * w * (sz div (8 * w))) data"
  define st where "st = fold keccak_step (map (\<lambda>i. chunk (8 * w) i data) [0..<sz div (8 * w)]) (replicate 25 0)"
  have m: "length m = sz mod (8 * w)" using assms(3) by (simp add: m_def minus_mult_div_eq_mod)
  have blocks: "keccak_blocks (8 * w) (replicate 25 0) data sz = (st, m, sz mod (8 * w))"
    using keccak_blocks_state [of "8 * w" w sz data "replicate 25 0"] w assms(3) by (simp add: st_def m_def)
  have st: "length st = 25" unfolding st_def by (rule length_fold_step) simp
  define k where "k = length m div 8"
  have last: "keccak_last_bytes (replicate 8 0) 0 (drop (8 * k) m) (length m mod 8) =
      (drop (8 * k) m @ replicate (8 - length m mod 8) 0, length m mod 8)"
  proof -
    have "length m mod 8 = length (drop (8 * k) m)" by (simp add: k_def minus_mult_div_eq_mod)
    then show ?thesis by (simp add: keccak_last_bytes_state memcpy_def)
  qed
  have len: "length (drop (8 * k) m) = length m mod 8" by (simp add: k_def minus_mult_div_eq_mod)
  have "(drop (8 * k) m @ replicate (8 - length m mod 8) 0)[length m mod 8 := 1] =
      (drop (8 * k) m @ [1]) @ replicate (7 - length m mod 8) 0"
  proof -
    have "8 - length m mod 8 = Suc (7 - length m mod 8)" by (simp add: Suc_diff_le)
    then show ?thesis using len by (simp add: list_update_append)
  qed
  then have word: "le_word ((drop (8 * k) m @ replicate (8 - length m mod 8) 0)[length m mod 8 := 1]) =
      (le_word (drop (8 * k) m @ [1]) :: u64)"
    by (simp only: le_word_append_zeros)
  have lt: "length m < 8 * w" using m w by simp
  have "keccak bits data sz = map (\<lambda>i. keccak_f 24 (absorb st (pad_last (8 * w) m)) ! i) [0..<bits div 64]"
  proof -
    have "w \<le> length st" using st w by simp
    note ab = absorb_pad_last [OF lt this, unfolded Let_def, folded k_def]
    have w8: "8 * w div 8 = w" by simp
    show ?thesis
      unfolding keccak_def Let_def rate blocks prod.case m [symmetric] keccak_words_state add_0
        k_def [symmetric] last word ethash_keccakf1600_spec hash w8 ab ..
  qed
  also have "\<dots> = take (bits div 64) (keccak_step (pad_last (8 * w) m) st)"
  proof (rule nth_equalityI)
    have "bits div 64 \<le> 25" using assms(1) by simp
    then show "length (map (\<lambda>i. keccak_f 24 (absorb st (pad_last (8 * w) m)) ! i) [0..<bits div 64]) =
        length (take (bits div 64) (keccak_step (pad_last (8 * w) m) st))" using st by simp
  qed (simp add: keccak_step_def)
  also have "keccak_step (pad_last (8 * w) m) st = keccak_state (200 - bits div 4) data"
    unfolding keccak_state_def sponge_blocks_def rate(2) st_def m_def assms(3) by simp
  finally show ?thesis .
qed

lemma take_concat_words:
  "take (8 * n) (concat (map (le_bytes 8) ws)) = concat (map (le_bytes 8) (take n ws))"
proof (induction ws arbitrary: n)
  case (Cons w ws)
  then show ?case by (cases n) simp_all
qed simp

section \<open>Properties of the ethash digests\<close>

text \<open>
  C37. For every message, the words that \<^verbatim>\<open>ethash_keccak256\<close> and \<^verbatim>\<open>ethash_keccak512\<close> return, read as
  bytes, are the sponge digest of 256 or 512 bits: the loops over blocks, words and the last bytes
  absorb the padded message and nothing else.
\<close>

theorem ethash_keccak_digest:
  "concat (map (le_bytes 8) (ethash_keccak256 m (length m))) = keccak_digest 256 m
    \<and> concat (map (le_bytes 8) (ethash_keccak512 m (length m))) = keccak_digest 512 m"
  using keccak_sponge [of 256 "length m" m] keccak_sponge [of 512 "length m" m]
    take_concat_words [of 4 "keccak_state 136 m"] take_concat_words [of 8 "keccak_state 72 m"]
  by (simp add: ethash_keccak256_def ethash_keccak512_def keccak_digest_def)

end
