(* ===== verification/Ethash_Primes.thy ===== *)
theory Ethash_Primes
  imports Main
begin

text \<open>
  \<^verbatim>\<open>src/crypto/ethash/lib/ethash/primes.c\<close>: the search for the largest prime below a bound that fixes
  the number of items of the ethash caches. C \<^verbatim>\<open>int\<close> values are integers: the products \<^verbatim>\<open>d * d\<close> are taken in 64 bits
  and \<open>d\<close> stays below the square root of the argument plus 2, so nothing wraps around.
\<close>

section \<open>The search\<close>

function is_odd_prime_loop :: "int \<Rightarrow> int \<Rightarrow> bool" where
  "is_odd_prime_loop number d =
    (if d * d \<le> number then (if number mod d = 0 then False else is_odd_prime_loop number (d + 2))
     else True)"
  by pat_completeness auto
termination
proof (relation "measure (\<lambda>(number, d). nat (number + 1 - d))")
  fix number d :: int
  assume "d * d \<le> number"
  moreover have "d \<le> d * d" by (cases "d \<le> 0") (auto simp: mult_le_cancel_left1 intro: order_trans [of d 0])
  ultimately show "((number, d + 2), number, d) \<in> measure (\<lambda>(number, d). nat (number + 1 - d))" by simp
qed simp

declare is_odd_prime_loop.simps [simp del]

definition is_odd_prime :: "int \<Rightarrow> bool" where
  "is_odd_prime number = is_odd_prime_loop number 3"

lemma is_odd_prime_small: "n < 9 \<Longrightarrow> is_odd_prime n"
  by (simp add: is_odd_prime_def is_odd_prime_loop.simps)

function find_largest_prime_loop :: "int \<Rightarrow> int" where
  "find_largest_prime_loop n = (if \<not> is_odd_prime n then find_largest_prime_loop (n - 2) else n)"
  by pat_completeness auto
termination
  by (relation "measure nat") (use is_odd_prime_small in \<open>force simp: not_less\<close>)+

declare find_largest_prime_loop.simps [simp del]

definition ethash_find_largest_prime :: "int \<Rightarrow> int" where
  "ethash_find_largest_prime upper_bound =
    (let n = upper_bound
     in if n < 2 then 0
        else if n = 2 then 2
        else (let n = (if n mod 2 = 0 then n - 1 else n) in find_largest_prime_loop n))"

section \<open>Primality\<close>

definition prime_number :: "int \<Rightarrow> bool" where
  "prime_number n \<longleftrightarrow> 1 < n \<and> (\<forall>d>0. d dvd n \<longrightarrow> d = 1 \<or> d = n)"

lemma is_odd_prime_loop_iff:
  "0 < d \<Longrightarrow> is_odd_prime_loop number d \<longleftrightarrow> (\<forall>k. d \<le> k \<and> even (k - d) \<and> k * k \<le> number \<longrightarrow> \<not> k dvd number)"
proof (induction number d rule: is_odd_prime_loop.induct)
  case (1 number d)
  show ?case
  proof (cases "d * d \<le> number")
    case True
    have next_odd: "k = d \<or> d + 2 \<le> k \<and> even (k - (d + 2)) \<longleftrightarrow> d \<le> k \<and> even (k - d)" for k :: int
      by presburger
    show ?thesis
    proof (cases "number mod d = 0")
      case True
      with \<open>d * d \<le> number\<close> show ?thesis by (auto simp: is_odd_prime_loop.simps [of number d])
    next
      case False
      with 1 True have "is_odd_prime_loop number d \<longleftrightarrow>
          (\<forall>k. d + 2 \<le> k \<and> even (k - (d + 2)) \<and> k * k \<le> number \<longrightarrow> \<not> k dvd number)"
        by (simp add: is_odd_prime_loop.simps [of number d])
      also have "\<dots> \<longleftrightarrow> (\<forall>k. d \<le> k \<and> even (k - d) \<and> k * k \<le> number \<longrightarrow> \<not> k dvd number)"
        using next_odd False by (metis dvd_imp_mod_0)
      finally show ?thesis .
    qed
  next
    case False
    then have "\<not> k * k \<le> number" if "d \<le> k" for k
      using that 1(2) mult_mono [of d k d k] by simp
    with False show ?thesis by (auto simp: is_odd_prime_loop.simps [of number d])
  qed
qed

lemma is_odd_prime_iff:
  assumes "2 < n" and "odd n"
  shows "is_odd_prime n \<longleftrightarrow> prime_number n"
proof
  assume "is_odd_prime n"
  then have no_factor: "\<not> k dvd n" if "3 \<le> k" "odd k" "k * k \<le> n" for k
    using that is_odd_prime_loop_iff [of 3 n] by (simp add: is_odd_prime_def)
  have large: "n < k * k" if "1 < k" "k dvd n" for k
  proof -
    have "odd k" using that(2) assms(2) dvd_trans by blast
    with that(1) have "3 \<le> k" by presburger
    with no_factor that \<open>odd k\<close> show ?thesis by force
  qed
  have "d = 1 \<or> d = n" if d: "0 < d" "d dvd n" for d
  proof (rule ccontr)
    assume neq: "\<not> (d = 1 \<or> d = n)"
    from d obtain e where e: "n = d * e" by (auto elim: dvdE)
    have "1 < d" using d neq by simp
    moreover have "1 < e"
    proof -
      have "0 < d * e" using e assms(1) by simp
      then have "0 < e" using d(1) by (simp add: zero_less_mult_iff)
      moreover have "e \<noteq> 1" using e neq by auto
      ultimately show ?thesis by simp
    qed
    ultimately have "n < d * d" and "n < e * e" using large e by simp_all
    then have "e < d" and "d < e" using e \<open>1 < d\<close> \<open>1 < e\<close> by simp_all
    then show False by simp
  qed
  then show "prime_number n" using assms(1) by (simp add: prime_number_def)
next
  assume prime: "prime_number n"
  have "\<not> k dvd n" if "3 \<le> k" "k * k \<le> n" for k
  proof
    assume "k dvd n"
    moreover have "0 < k" using that(1) by simp
    ultimately have "k = 1 \<or> k = n" using prime unfolding prime_number_def by blast
    then have "k = n" using that(1) by simp
    with that show False using mult_strict_left_mono [of 1 k k] by simp
  qed
  then show "is_odd_prime n" using is_odd_prime_loop_iff [of 3 n] by (simp add: is_odd_prime_def)
qed

lemma find_largest_prime_loop_correct:
  "2 < n \<Longrightarrow> odd n \<Longrightarrow>
    prime_number (find_largest_prime_loop n) \<and> find_largest_prime_loop n \<le> n \<and> 2 < find_largest_prime_loop n \<and>
    (\<forall>q. prime_number q \<and> odd q \<and> q \<le> n \<longrightarrow> q \<le> find_largest_prime_loop n)"
proof (induction n rule: find_largest_prime_loop.induct)
  case (1 n)
  show ?case
  proof (cases "is_odd_prime n")
    case True
    with 1 show ?thesis by (simp add: find_largest_prime_loop.simps is_odd_prime_iff)
  next
    case False
    then have "9 \<le> n" using is_odd_prime_small [of n] by force
    have skip: "q \<le> n - 2" if "prime_number q" "odd q" "q \<le> n" for q
    proof -
      have "q \<noteq> n" using that False 1 is_odd_prime_iff by blast
      with that(2,3) 1(3) show ?thesis by presburger
    qed
    have "find_largest_prime_loop n = find_largest_prime_loop (n - 2)"
      using False by (subst find_largest_prime_loop.simps) simp
    with 1 False \<open>9 \<le> n\<close> skip show ?thesis by auto
  qed
qed

lemma even_prime: "prime_number q \<Longrightarrow> even q \<Longrightarrow> q = 2"
  unfolding prime_number_def by (drule conjunct2, drule spec [of _ 2]) simp

lemma prime_number_2: "prime_number 2"
proof -
  have "d = 1 \<or> d = 2" if "0 < d" "d dvd 2" for d :: int
    using that zdvd_imp_le [of d 2] by auto
  then show ?thesis by (simp add: prime_number_def)
qed

section \<open>Properties of the search\<close>

text \<open>
  \<^verbatim>\<open>ethash_find_largest_prime\<close> returns 0 below 2 and otherwise the largest prime that is not greater
  than its argument; both loops end on every argument.
\<close>

theorem ethash_find_largest_prime_correct:
  "(n < 2 \<longrightarrow> ethash_find_largest_prime n = 0) \<and>
   (2 \<le> n \<longrightarrow> prime_number (ethash_find_largest_prime n) \<and> ethash_find_largest_prime n \<le> n \<and>
      (\<forall>q. prime_number q \<and> q \<le> n \<longrightarrow> q \<le> ethash_find_largest_prime n))"
proof (cases "n \<le> 2")
  case True
  then show ?thesis by (auto simp: ethash_find_largest_prime_def prime_number_2)
next
  case False
  define m where "m = (if n mod 2 = 0 then n - 1 else n)"
  have m: "2 < m" "odd m" "m \<le> n" using False unfolding m_def by presburger+
  have "q \<le> m \<or> q = 2" if "prime_number q" "q \<le> n" for q
    using that even_prime [of q] m_def by (cases "even q") (auto, presburger)
  moreover have "odd q \<or> q = 2" if "prime_number q" for q
    using that even_prime [of q] by blast
  moreover have "ethash_find_largest_prime n = find_largest_prime_loop m"
    using False by (simp add: ethash_find_largest_prime_def m_def)
  moreover note largest = find_largest_prime_loop_correct [OF m(1,2)]
  moreover have "q \<le> find_largest_prime_loop m" if "prime_number q" "q \<le> n" for q
  proof (cases "q = 2")
    case True
    then show ?thesis using largest by simp
  next
    case False
    with that calculation have "odd q" and "q \<le> m" by blast+
    with that largest show ?thesis by blast
  qed
  ultimately show ?thesis using False m(3) by simp
qed

theorem ethash_find_largest_prime_correct_witness:
  "ethash_find_largest_prime 20 = 19 \<and> prime_number 19 \<and> ethash_find_largest_prime 1 = 0"
proof -
  have "ethash_find_largest_prime 20 = 19" by code_simp
  then show ?thesis
    using ethash_find_largest_prime_correct [of 20] ethash_find_largest_prime_correct [of 1] by simp
qed

end
