(* ===== verification/Sph_Cubehash.thy ===== *)
theory Sph_Cubehash
  imports Sph_Buffer
begin

text \<open>
  \<^verbatim>\<open>src/algo/cubehash.c\<close>: CubeHash with digests of 224, 256, 384 and 512 bits, in the fully unrolled
  configuration (\<^verbatim>\<open>SPH_CUBEHASH_UNROLL\<close> 0, local copies of the state). The 32 local variables
  \<^verbatim>\<open>x0\<close> to \<^verbatim>\<open>xv\<close> are the list they are read from and written back to; the macros over them are functions
  on that list. The context is a record with the fields of \<^verbatim>\<open>sph_cubehash_context\<close>.

  The specification is the round function of the CubeHash submission: ten steps over the words
  \<open>x[ijklm]\<close> indexed by five bits, with real swaps where the C code renames variables.
\<close>

section \<open>Initial values and rounds\<close>

definition IV224 :: "u32 list" where
  "IV224 =
    [0xB0FC8217, 0x1BEE1A90, 0x829E1A22, 0x6362C342, 0x24D91C30, 0x03A7AA24, 0xA63721C8, 0x85B0E2EF,
     0xF35D13F3, 0x41DA807D, 0x21A70CA6, 0x1F4E9774, 0xB3E1C932, 0xEB0A79A8, 0xCDDAAA66, 0xE2F6ECAA,
     0x0A713362, 0xAA3080E0, 0xD8F23A32, 0xCEF15E28, 0xDB086314, 0x7F709DF7, 0xACD228A4, 0x704D6ECE,
     0xAA3EC95F, 0xE387C214, 0x3A6445FF, 0x9CAB81C3, 0xC73D4B98, 0xD277AEBE, 0xFD20151C, 0x00CB573E]"

definition IV256 :: "u32 list" where
  "IV256 =
    [0xEA2BD4B4, 0xCCD6F29F, 0x63117E71, 0x35481EAE, 0x22512D5B, 0xE5D94E63, 0x7E624131, 0xF4CC12BE,
     0xC2D0B696, 0x42AF2070, 0xD0720C35, 0x3361DA8C, 0x28CCECA4, 0x8EF8AD83, 0x4680AC00, 0x40E5FBAB,
     0xD89041C3, 0x6107FBD5, 0x6C859D41, 0xF0B26679, 0x09392549, 0x5FA25603, 0x65C892FD, 0x93CB6285,
     0x2AF2B5AE, 0x9E4B4E60, 0x774ABFDD, 0x85254725, 0x15815AEB, 0x4AB6AAD6, 0x9CDAF8AF, 0xD6032C0A]"

definition IV384 :: "u32 list" where
  "IV384 =
    [0xE623087E, 0x04C00C87, 0x5EF46453, 0x69524B13, 0x1A05C7A9, 0x3528DF88, 0x6BDD01B5, 0x5057B792,
     0x6AA7A922, 0x649C7EEE, 0xF426309F, 0xCB629052, 0xFC8E20ED, 0xB3482BAB, 0xF89E5E7E, 0xD83D4DE4,
     0x44BFC10D, 0x5FC1E63D, 0x2104E6CB, 0x17958F7F, 0xDBEAEF70, 0xB4B97E1E, 0x32C195F6, 0x6184A8E4,
     0x796C2543, 0x23DE176D, 0xD33BBAEC, 0x0C12E5D2, 0x4EB95A7B, 0x2D18BA01, 0x04EE475F, 0x1FC5F22E]"

definition IV512 :: "u32 list" where
  "IV512 =
    [0x2AEA2A61, 0x50F494D4, 0x2D538B8B, 0x4167D83E, 0x3FEE2313, 0xC701CF8C, 0xCC39968E, 0x50AC5695,
     0x4D42C787, 0xA647A8B3, 0x97CF0BEF, 0x825B4537, 0xEEF864D2, 0xF22090C4, 0xD0E5CD33, 0xA23911AE,
     0xFCD398D9, 0x148FE485, 0x1B017BEF, 0xB6444532, 0x6A536159, 0x2FF5781C, 0x91FA7934, 0x0DBADEA9,
     0xD65C8A2B, 0xA5A70E75, 0xB1C62456, 0xBC796576, 0x1921C8F7, 0xE7989AF1, 0x7795D246, 0xD43E3B44]"

definition ROUND_EVEN :: "u32 list \<Rightarrow> u32 list" where
  "ROUND_EVEN x =
    (let x0 = x ! 0; x1 = x ! 1; x2 = x ! 2; x3 = x ! 3;
         x4 = x ! 4; x5 = x ! 5; x6 = x ! 6; x7 = x ! 7;
         x8 = x ! 8; x9 = x ! 9; xa = x ! 10; xb = x ! 11;
         xc = x ! 12; xd = x ! 13; xe = x ! 14; xf = x ! 15;
         xg = x ! 16; xh = x ! 17; xi = x ! 18; xj = x ! 19;
         xk = x ! 20; xl = x ! 21; xm = x ! 22; xn = x ! 23;
         xo = x ! 24; xp = x ! 25; xq = x ! 26; xr = x ! 27;
         xs = x ! 28; xt = x ! 29; xu = x ! 30; xv = x ! 31;
         xg = SPH_T32 (x0 + xg); x0 = SPH_ROTL32 x0 7;
         xh = SPH_T32 (x1 + xh); x1 = SPH_ROTL32 x1 7;
         xi = SPH_T32 (x2 + xi); x2 = SPH_ROTL32 x2 7;
         xj = SPH_T32 (x3 + xj); x3 = SPH_ROTL32 x3 7;
         xk = SPH_T32 (x4 + xk); x4 = SPH_ROTL32 x4 7;
         xl = SPH_T32 (x5 + xl); x5 = SPH_ROTL32 x5 7;
         xm = SPH_T32 (x6 + xm); x6 = SPH_ROTL32 x6 7;
         xn = SPH_T32 (x7 + xn); x7 = SPH_ROTL32 x7 7;
         xo = SPH_T32 (x8 + xo); x8 = SPH_ROTL32 x8 7;
         xp = SPH_T32 (x9 + xp); x9 = SPH_ROTL32 x9 7;
         xq = SPH_T32 (xa + xq); xa = SPH_ROTL32 xa 7;
         xr = SPH_T32 (xb + xr); xb = SPH_ROTL32 xb 7;
         xs = SPH_T32 (xc + xs); xc = SPH_ROTL32 xc 7;
         xt = SPH_T32 (xd + xt); xd = SPH_ROTL32 xd 7;
         xu = SPH_T32 (xe + xu); xe = SPH_ROTL32 xe 7;
         xv = SPH_T32 (xf + xv); xf = SPH_ROTL32 xf 7;
         x8 = x8 XOR xg; x9 = x9 XOR xh;
         xa = xa XOR xi; xb = xb XOR xj;
         xc = xc XOR xk; xd = xd XOR xl;
         xe = xe XOR xm; xf = xf XOR xn;
         x0 = x0 XOR xo; x1 = x1 XOR xp;
         x2 = x2 XOR xq; x3 = x3 XOR xr;
         x4 = x4 XOR xs; x5 = x5 XOR xt;
         x6 = x6 XOR xu; x7 = x7 XOR xv;
         xi = SPH_T32 (x8 + xi); x8 = SPH_ROTL32 x8 11;
         xj = SPH_T32 (x9 + xj); x9 = SPH_ROTL32 x9 11;
         xg = SPH_T32 (xa + xg); xa = SPH_ROTL32 xa 11;
         xh = SPH_T32 (xb + xh); xb = SPH_ROTL32 xb 11;
         xm = SPH_T32 (xc + xm); xc = SPH_ROTL32 xc 11;
         xn = SPH_T32 (xd + xn); xd = SPH_ROTL32 xd 11;
         xk = SPH_T32 (xe + xk); xe = SPH_ROTL32 xe 11;
         xl = SPH_T32 (xf + xl); xf = SPH_ROTL32 xf 11;
         xq = SPH_T32 (x0 + xq); x0 = SPH_ROTL32 x0 11;
         xr = SPH_T32 (x1 + xr); x1 = SPH_ROTL32 x1 11;
         xo = SPH_T32 (x2 + xo); x2 = SPH_ROTL32 x2 11;
         xp = SPH_T32 (x3 + xp); x3 = SPH_ROTL32 x3 11;
         xu = SPH_T32 (x4 + xu); x4 = SPH_ROTL32 x4 11;
         xv = SPH_T32 (x5 + xv); x5 = SPH_ROTL32 x5 11;
         xs = SPH_T32 (x6 + xs); x6 = SPH_ROTL32 x6 11;
         xt = SPH_T32 (x7 + xt); x7 = SPH_ROTL32 x7 11;
         xc = xc XOR xi; xd = xd XOR xj;
         xe = xe XOR xg; xf = xf XOR xh;
         x8 = x8 XOR xm; x9 = x9 XOR xn;
         xa = xa XOR xk; xb = xb XOR xl;
         x4 = x4 XOR xq; x5 = x5 XOR xr;
         x6 = x6 XOR xo; x7 = x7 XOR xp;
         x0 = x0 XOR xu; x1 = x1 XOR xv;
         x2 = x2 XOR xs; x3 = x3 XOR xt
     in [x0, x1, x2, x3, x4, x5, x6, x7,
         x8, x9, xa, xb, xc, xd, xe, xf,
         xg, xh, xi, xj, xk, xl, xm, xn,
         xo, xp, xq, xr, xs, xt, xu, xv])"

definition ROUND_ODD :: "u32 list \<Rightarrow> u32 list" where
  "ROUND_ODD x =
    (let x0 = x ! 0; x1 = x ! 1; x2 = x ! 2; x3 = x ! 3;
         x4 = x ! 4; x5 = x ! 5; x6 = x ! 6; x7 = x ! 7;
         x8 = x ! 8; x9 = x ! 9; xa = x ! 10; xb = x ! 11;
         xc = x ! 12; xd = x ! 13; xe = x ! 14; xf = x ! 15;
         xg = x ! 16; xh = x ! 17; xi = x ! 18; xj = x ! 19;
         xk = x ! 20; xl = x ! 21; xm = x ! 22; xn = x ! 23;
         xo = x ! 24; xp = x ! 25; xq = x ! 26; xr = x ! 27;
         xs = x ! 28; xt = x ! 29; xu = x ! 30; xv = x ! 31;
         xj = SPH_T32 (xc + xj); xc = SPH_ROTL32 xc 7;
         xi = SPH_T32 (xd + xi); xd = SPH_ROTL32 xd 7;
         xh = SPH_T32 (xe + xh); xe = SPH_ROTL32 xe 7;
         xg = SPH_T32 (xf + xg); xf = SPH_ROTL32 xf 7;
         xn = SPH_T32 (x8 + xn); x8 = SPH_ROTL32 x8 7;
         xm = SPH_T32 (x9 + xm); x9 = SPH_ROTL32 x9 7;
         xl = SPH_T32 (xa + xl); xa = SPH_ROTL32 xa 7;
         xk = SPH_T32 (xb + xk); xb = SPH_ROTL32 xb 7;
         xr = SPH_T32 (x4 + xr); x4 = SPH_ROTL32 x4 7;
         xq = SPH_T32 (x5 + xq); x5 = SPH_ROTL32 x5 7;
         xp = SPH_T32 (x6 + xp); x6 = SPH_ROTL32 x6 7;
         xo = SPH_T32 (x7 + xo); x7 = SPH_ROTL32 x7 7;
         xv = SPH_T32 (x0 + xv); x0 = SPH_ROTL32 x0 7;
         xu = SPH_T32 (x1 + xu); x1 = SPH_ROTL32 x1 7;
         xt = SPH_T32 (x2 + xt); x2 = SPH_ROTL32 x2 7;
         xs = SPH_T32 (x3 + xs); x3 = SPH_ROTL32 x3 7;
         x4 = x4 XOR xj; x5 = x5 XOR xi;
         x6 = x6 XOR xh; x7 = x7 XOR xg;
         x0 = x0 XOR xn; x1 = x1 XOR xm;
         x2 = x2 XOR xl; x3 = x3 XOR xk;
         xc = xc XOR xr; xd = xd XOR xq;
         xe = xe XOR xp; xf = xf XOR xo;
         x8 = x8 XOR xv; x9 = x9 XOR xu;
         xa = xa XOR xt; xb = xb XOR xs;
         xh = SPH_T32 (x4 + xh); x4 = SPH_ROTL32 x4 11;
         xg = SPH_T32 (x5 + xg); x5 = SPH_ROTL32 x5 11;
         xj = SPH_T32 (x6 + xj); x6 = SPH_ROTL32 x6 11;
         xi = SPH_T32 (x7 + xi); x7 = SPH_ROTL32 x7 11;
         xl = SPH_T32 (x0 + xl); x0 = SPH_ROTL32 x0 11;
         xk = SPH_T32 (x1 + xk); x1 = SPH_ROTL32 x1 11;
         xn = SPH_T32 (x2 + xn); x2 = SPH_ROTL32 x2 11;
         xm = SPH_T32 (x3 + xm); x3 = SPH_ROTL32 x3 11;
         xp = SPH_T32 (xc + xp); xc = SPH_ROTL32 xc 11;
         xo = SPH_T32 (xd + xo); xd = SPH_ROTL32 xd 11;
         xr = SPH_T32 (xe + xr); xe = SPH_ROTL32 xe 11;
         xq = SPH_T32 (xf + xq); xf = SPH_ROTL32 xf 11;
         xt = SPH_T32 (x8 + xt); x8 = SPH_ROTL32 x8 11;
         xs = SPH_T32 (x9 + xs); x9 = SPH_ROTL32 x9 11;
         xv = SPH_T32 (xa + xv); xa = SPH_ROTL32 xa 11;
         xu = SPH_T32 (xb + xu); xb = SPH_ROTL32 xb 11;
         x0 = x0 XOR xh; x1 = x1 XOR xg;
         x2 = x2 XOR xj; x3 = x3 XOR xi;
         x4 = x4 XOR xl; x5 = x5 XOR xk;
         x6 = x6 XOR xn; x7 = x7 XOR xm;
         x8 = x8 XOR xp; x9 = x9 XOR xo;
         xa = xa XOR xr; xb = xb XOR xq;
         xc = xc XOR xt; xd = xd XOR xs;
         xe = xe XOR xv; xf = xf XOR xu
     in [x0, x1, x2, x3, x4, x5, x6, x7,
         x8, x9, xa, xb, xc, xd, xe, xf,
         xg, xh, xi, xj, xk, xl, xm, xn,
         xo, xp, xq, xr, xs, xt, xu, xv])"

definition INPUT_BLOCK :: "bytes \<Rightarrow> u32 list \<Rightarrow> u32 list" where
  "INPUT_BLOCK buf x = x
    [0 := x ! 0 XOR sph_dec32le buf,
     1 := x ! 1 XOR sph_dec32le (drop 4 buf),
     2 := x ! 2 XOR sph_dec32le (drop 8 buf),
     3 := x ! 3 XOR sph_dec32le (drop 12 buf),
     4 := x ! 4 XOR sph_dec32le (drop 16 buf),
     5 := x ! 5 XOR sph_dec32le (drop 20 buf),
     6 := x ! 6 XOR sph_dec32le (drop 24 buf),
     7 := x ! 7 XOR sph_dec32le (drop 28 buf)]"

definition SIXTEEN_ROUNDS :: "u32 list \<Rightarrow> u32 list" where
  "SIXTEEN_ROUNDS x =
    ROUND_ODD (ROUND_EVEN (ROUND_ODD (ROUND_EVEN (ROUND_ODD (ROUND_EVEN (ROUND_ODD (ROUND_EVEN
    (ROUND_ODD (ROUND_EVEN (ROUND_ODD (ROUND_EVEN (ROUND_ODD (ROUND_EVEN (ROUND_ODD (ROUND_EVEN x)))))))))))))))"

section \<open>The context and its operations\<close>

record sph_cubehash_context =
  cube_buf :: bytes
  cube_ptr :: nat
  cube_state :: "u32 list"

definition cubehash_init :: "sph_cubehash_context \<Rightarrow> u32 list \<Rightarrow> sph_cubehash_context" where
  "cubehash_init sc iv = sc\<lparr>cube_state := iv, cube_ptr := 0\<rparr>"

definition cubehash_core :: "sph_cubehash_context \<Rightarrow> bytes \<Rightarrow> nat \<Rightarrow> sph_cubehash_context" where
  "cubehash_core sc data len =
    (let buf = cube_buf sc; ptr = cube_ptr sc
     in if len < 32 - ptr then sc\<lparr>cube_buf := memcpy buf ptr (take len data), cube_ptr := ptr + len\<rparr>
        else
          (let (buf, ptr, x) = core_loop 32 (\<lambda>buf x. SIXTEEN_ROUNDS (INPUT_BLOCK buf x)) buf ptr (cube_state sc) data len
           in sc\<lparr>cube_buf := buf, cube_state := x, cube_ptr := ptr\<rparr>))"

text \<open>The last byte of the message: the \<open>n\<close> upper bits of \<^verbatim>\<open>ub\<close>, a bit 1, zeros.\<close>

definition last_byte :: "u32 \<Rightarrow> nat \<Rightarrow> u8" where
  "last_byte ub n = (let z = drop_bit n 0x80 in ucast (((ub AND - z) OR z) AND 0xFF))"

definition cubehash_close :: "sph_cubehash_context \<Rightarrow> u32 \<Rightarrow> nat \<Rightarrow> nat \<Rightarrow> sph_cubehash_context \<times> bytes" where
  "cubehash_close sc ub n out_size_w32 =
    (let ptr = cube_ptr sc;
         buf = (cube_buf sc)[ptr := last_byte ub n];
         ptr = ptr + 1;
         buf = memcpy buf ptr (replicate (32 - ptr) 0);
         x = INPUT_BLOCK buf (cube_state sc);
         x = fold (\<lambda>i x. let x = SIXTEEN_ROUNDS x in if i = 0 then x[31 := x ! 31 XOR 1] else x) [0..<11] x;
         sc = sc\<lparr>cube_buf := buf, cube_state := x\<rparr>
     in (sc, concat (map (\<lambda>z. sph_enc32le (x ! z)) [0..<out_size_w32])))"

definition sph_cubehash224_init :: "sph_cubehash_context \<Rightarrow> sph_cubehash_context" where
  "sph_cubehash224_init cc = cubehash_init cc IV224"

definition sph_cubehash224 :: "sph_cubehash_context \<Rightarrow> bytes \<Rightarrow> nat \<Rightarrow> sph_cubehash_context" where
  "sph_cubehash224 cc data len = cubehash_core cc data len"

definition sph_cubehash224_addbits_and_close :: "sph_cubehash_context \<Rightarrow> u32 \<Rightarrow> nat \<Rightarrow> sph_cubehash_context \<times> bytes" where
  "sph_cubehash224_addbits_and_close cc ub n =
    (let (cc, dst) = cubehash_close cc ub n 7 in (sph_cubehash224_init cc, dst))"

definition sph_cubehash224_close :: "sph_cubehash_context \<Rightarrow> sph_cubehash_context \<times> bytes" where
  "sph_cubehash224_close cc = sph_cubehash224_addbits_and_close cc 0 0"

definition sph_cubehash256_init :: "sph_cubehash_context \<Rightarrow> sph_cubehash_context" where
  "sph_cubehash256_init cc = cubehash_init cc IV256"

definition sph_cubehash256 :: "sph_cubehash_context \<Rightarrow> bytes \<Rightarrow> nat \<Rightarrow> sph_cubehash_context" where
  "sph_cubehash256 cc data len = cubehash_core cc data len"

definition sph_cubehash256_addbits_and_close :: "sph_cubehash_context \<Rightarrow> u32 \<Rightarrow> nat \<Rightarrow> sph_cubehash_context \<times> bytes" where
  "sph_cubehash256_addbits_and_close cc ub n =
    (let (cc, dst) = cubehash_close cc ub n 8 in (sph_cubehash256_init cc, dst))"

definition sph_cubehash256_close :: "sph_cubehash_context \<Rightarrow> sph_cubehash_context \<times> bytes" where
  "sph_cubehash256_close cc = sph_cubehash256_addbits_and_close cc 0 0"

definition sph_cubehash384_init :: "sph_cubehash_context \<Rightarrow> sph_cubehash_context" where
  "sph_cubehash384_init cc = cubehash_init cc IV384"

definition sph_cubehash384 :: "sph_cubehash_context \<Rightarrow> bytes \<Rightarrow> nat \<Rightarrow> sph_cubehash_context" where
  "sph_cubehash384 cc data len = cubehash_core cc data len"

definition sph_cubehash384_addbits_and_close :: "sph_cubehash_context \<Rightarrow> u32 \<Rightarrow> nat \<Rightarrow> sph_cubehash_context \<times> bytes" where
  "sph_cubehash384_addbits_and_close cc ub n =
    (let (cc, dst) = cubehash_close cc ub n 12 in (sph_cubehash384_init cc, dst))"

definition sph_cubehash384_close :: "sph_cubehash_context \<Rightarrow> sph_cubehash_context \<times> bytes" where
  "sph_cubehash384_close cc = sph_cubehash384_addbits_and_close cc 0 0"

definition sph_cubehash512_init :: "sph_cubehash_context \<Rightarrow> sph_cubehash_context" where
  "sph_cubehash512_init cc = cubehash_init cc IV512"

definition sph_cubehash512 :: "sph_cubehash_context \<Rightarrow> bytes \<Rightarrow> nat \<Rightarrow> sph_cubehash_context" where
  "sph_cubehash512 cc data len = cubehash_core cc data len"

definition sph_cubehash512_addbits_and_close :: "sph_cubehash_context \<Rightarrow> u32 \<Rightarrow> nat \<Rightarrow> sph_cubehash_context \<times> bytes" where
  "sph_cubehash512_addbits_and_close cc ub n =
    (let (cc, dst) = cubehash_close cc ub n 16 in (sph_cubehash512_init cc, dst))"

definition sph_cubehash512_close :: "sph_cubehash_context \<Rightarrow> sph_cubehash_context \<times> bytes" where
  "sph_cubehash512_close cc = sph_cubehash512_addbits_and_close cc 0 0"

section \<open>The specification\<close>

text \<open>The index that differs from \<open>i\<close> in the bit of weight \<open>d\<close>.\<close>

definition flip :: "nat \<Rightarrow> nat \<Rightarrow> nat" where
  "flip d i = (if even (i div d) then i + d else i - d)"

definition swap_words :: "nat \<Rightarrow> (nat \<Rightarrow> bool) \<Rightarrow> u32 list \<Rightarrow> u32 list" where
  "swap_words d sel x = map (\<lambda>i. if sel i then x ! flip d i else x ! i) [0..<32]"

definition cubehash_half :: "nat \<Rightarrow> nat \<Rightarrow> nat \<Rightarrow> u32 list \<Rightarrow> u32 list" where
  "cubehash_half r d e x =
    (let x = map (\<lambda>i. if i < 16 then x ! i else x ! i + x ! (i - 16)) [0..<32];
         x = map (\<lambda>i. if i < 16 then word_rotl r (x ! i) else x ! i) [0..<32];
         x = swap_words d (\<lambda>i. i < 16) x;
         x = map (\<lambda>i. if i < 16 then x ! i XOR x ! (i + 16) else x ! i) [0..<32]
     in swap_words e (\<lambda>i. 16 \<le> i) x)"

text \<open>
  The index of \<open>x[ijklm]\<close> has \<open>i\<close> as its most significant bit: steps 1 to 5 swap along \<open>j\<close> and \<open>l\<close>,
  steps 6 to 10 along \<open>k\<close> and \<open>m\<close>.
\<close>

definition cubehash_round :: "u32 list \<Rightarrow> u32 list" where
  "cubehash_round x = cubehash_half 11 4 1 (cubehash_half 7 8 2 x)"

section \<open>The unrolled rounds compute the specification\<close>

text \<open>
  An unrolled even round leaves the words under other names: \<open>rename_words\<close> is that renaming. An odd
  round reads them there and restores the order.
\<close>

lemma upt32: "[0..<32] = [0, 1, 2, 3, 4, 5, 6, 7, 8, 9, 10, 11, 12, 13, 14, 15,
    16, 17, 18, 19, 20, 21, 22, 23, 24, 25, 26, 27, 28, 29, 30, 31::nat]"
  by (simp add: upt_rec)

definition half_word :: "nat \<Rightarrow> nat \<Rightarrow> nat \<Rightarrow> u32 list \<Rightarrow> nat \<Rightarrow> u32" where
  "half_word r d e x i =
    (if i < 16 then word_rotl r (x ! flip d i) XOR (x ! (i + 16) + x ! i)
     else x ! flip e i + x ! (flip e i - 16))"

lemma flip_bounds:
  "i < 16 \<Longrightarrow> flip 8 i < 16" "i < 16 \<Longrightarrow> flip 4 i < 16"
  "16 \<le> i \<Longrightarrow> i < 32 \<Longrightarrow> 16 \<le> flip 2 i \<and> flip 2 i < 32" "16 \<le> i \<Longrightarrow> i < 32 \<Longrightarrow> 16 \<le> flip 1 i \<and> flip 1 i < 32"
proof -
  have 1: "\<forall>i \<in> set [0..<16]. flip 8 i < 16 \<and> flip 4 i < 16" by code_simp
  have 2: "\<forall>i \<in> set [16..<32]. 16 \<le> flip 2 i \<and> flip 2 i < 32 \<and> 16 \<le> flip 1 i \<and> flip 1 i < 32"
    by code_simp
  show "i < 16 \<Longrightarrow> flip 8 i < 16" "i < 16 \<Longrightarrow> flip 4 i < 16"
    using bspec [OF 1, of i, unfolded set_upt atLeastLessThan_iff] by simp_all
  show "16 \<le> i \<Longrightarrow> i < 32 \<Longrightarrow> 16 \<le> flip 2 i \<and> flip 2 i < 32" "16 \<le> i \<Longrightarrow> i < 32 \<Longrightarrow> 16 \<le> flip 1 i \<and> flip 1 i < 32"
    using bspec [OF 2, of i, unfolded set_upt atLeastLessThan_iff] by simp_all
qed

lemma half_words_general:
  assumes "\<And>i. i < 16 \<Longrightarrow> flip d i < 16" and "\<And>i. 16 \<le> i \<Longrightarrow> i < 32 \<Longrightarrow> 16 \<le> flip e i \<and> flip e i < 32"
  shows "cubehash_half r d e x = map (half_word r d e x) [0..<32]"
proof (rule nth_equalityI)
  fix i assume "i < length (cubehash_half r d e x)"
  then have i: "i < 32" by (simp add: cubehash_half_def swap_words_def Let_def)
  show "cubehash_half r d e x ! i = map (half_word r d e x) [0..<32] ! i"
  proof (cases "i < 16")
    case True
    with assms(1) [OF True] show ?thesis
      by (simp add: cubehash_half_def half_word_def swap_words_def Let_def)
  next
    case False
    with i assms(2) [of i] show ?thesis
      by (simp add: cubehash_half_def half_word_def swap_words_def Let_def)
  qed
qed (simp add: cubehash_half_def swap_words_def Let_def)

definition rename_words :: "u32 list \<Rightarrow> u32 list" where
  "rename_words x = map (\<lambda>i. if i < 16 then x ! flip 8 (flip 4 i) else x ! flip 1 (flip 2 i)) [0..<32]"

lemma round_words: "cubehash_round x = map (half_word 11 4 1 (map (half_word 7 8 2 x) [0..<32])) [0..<32]"
  unfolding cubehash_round_def by (simp only: half_words_general flip_bounds)

lemma ROUND_EVEN_round: "ROUND_EVEN x = rename_words (cubehash_round x)"
  unfolding ROUND_EVEN_def round_words rename_words_def
  by (simp add: half_word_def Let_def SPH_ROT_conv upt32 flip_def) (simp add: ac_simps)

lemma ROUND_ODD_round: "ROUND_ODD x = cubehash_round (rename_words x)"
  unfolding ROUND_ODD_def round_words rename_words_def
  by (simp add: half_word_def Let_def SPH_ROT_conv upt32 flip_def) (simp add: ac_simps)

lemma length_cubehash_round [simp]: "length (cubehash_round x) = 32"
  by (simp add: round_words)

lemma rename_words_twice: "length x = 32 \<Longrightarrow> rename_words (rename_words x) = x"
proof -
  assume "length x = 32"
  then have "map ((!) x) [0..<32] = x" by (metis map_nth)
  moreover have "rename_words (rename_words x) = map ((!) x) [0..<32]"
    by (simp add: rename_words_def upt32 flip_def)
  ultimately show ?thesis by simp
qed

lemma two_rounds: "ROUND_ODD (ROUND_EVEN x) = cubehash_round (cubehash_round x)"
  by (simp add: ROUND_ODD_round ROUND_EVEN_round rename_words_twice)

lemma SIXTEEN_ROUNDS_rounds: "SIXTEEN_ROUNDS x = (cubehash_round ^^ 16) x"
  unfolding SIXTEEN_ROUNDS_def two_rounds by (simp add: numeral_eq_Suc)

lemma length_SIXTEEN_ROUNDS [simp]: "length (SIXTEEN_ROUNDS x) = 32"
  unfolding SIXTEEN_ROUNDS_def two_rounds by simp


section \<open>The digest\<close>

definition cubehash_block :: "bytes \<Rightarrow> u32 list \<Rightarrow> u32 list" where
  "cubehash_block b x = (cubehash_round ^^ 16)
    (map (\<lambda>i. if i < 8 then x ! i XOR le_word (take 4 (drop (4 * i) b)) else x ! i) [0..<32])"

text \<open>
  The digest of \<open>w\<close> words: the message, padded with the byte \<open>b\<close> and zeros, absorbed in blocks of 32
  bytes; then the last word is changed by 1 and 160 rounds follow.
\<close>

definition cubehash_digest :: "u32 list \<Rightarrow> nat \<Rightarrow> bytes \<Rightarrow> u8 \<Rightarrow> bytes" where
  "cubehash_digest iv w m b =
    (let x = absorb_blocks 32 cubehash_block (m @ b # replicate (31 - length m mod 32) 0) iv;
         x = (cubehash_round ^^ 160) (x[31 := x ! 31 XOR 1])
     in concat (map (le_bytes 4) (take w x)))"

lemma INPUT_BLOCK_words:
  assumes "length buf = 32" and "length x = 32"
  shows "INPUT_BLOCK buf x =
    map (\<lambda>i. if i < 8 then x ! i XOR le_word (take 4 (drop (4 * i) buf)) else x ! i) [0..<32]"
  unfolding INPUT_BLOCK_def
  by (rule nth_equalityI) (use assms in \<open>auto simp: nth_list_update sph_dec32_conv less8_cases\<close>)

lemma cubehash_block_step:
  assumes "length buf = 32" and "length x = 32"
  shows "SIXTEEN_ROUNDS (INPUT_BLOCK buf x) = cubehash_block buf x"
  by (simp add: INPUT_BLOCK_words [OF assms] SIXTEEN_ROUNDS_rounds cubehash_block_def)

abbreviation cubehash_view :: "sph_cubehash_context \<Rightarrow> bytes \<times> nat \<times> u32 list" where
  "cubehash_view sc \<equiv> (cube_buf sc, cube_ptr sc, cube_state sc)"

interpretation cube: buffered_hash 32 "\<lambda>buf x. SIXTEEN_ROUNDS (INPUT_BLOCK buf x)" cubehash_view cubehash_core
  by unfold_locales (auto simp: cubehash_core_def core_update_def Let_def split: prod.split)

lemma length_funpow_round [simp]: "length ((cubehash_round ^^ n) x) = (if n = 0 then length x else 32)"
  by (cases n) simp_all

lemma length_cubehash_block [simp]: "length (cubehash_block b x) = 32"
  by (simp add: cubehash_block_def)

lemma absorb_cubehash_block:
  assumes "length iv = 32"
  shows "absorb_blocks 32 (\<lambda>buf x. SIXTEEN_ROUNDS (INPUT_BLOCK buf x)) m iv = absorb_blocks 32 cubehash_block m iv
    \<and> length (absorb_blocks 32 cubehash_block m iv) = 32"
proof -
  have "fold (\<lambda>buf x. SIXTEEN_ROUNDS (INPUT_BLOCK buf x)) bs x = fold cubehash_block bs x
      \<and> length (fold cubehash_block bs x) = 32" if "\<forall>b \<in> set bs. length b = 32" "length x = 32" for bs x
    using that by (induction bs arbitrary: x) (simp_all add: cubehash_block_step)
  moreover have "\<forall>b \<in> set (map (\<lambda>i. chunk 32 i m) [0..<length m div 32]). length b = 32"
  proof -
    have "32 * i + 32 \<le> length m" if "i < length m div 32" for i using that by linarith
    then show ?thesis by (simp add: chunk_def) 
  qed
  ultimately show ?thesis using assms unfolding absorb_blocks_def by blast
qed

lemma cubehash_finish:
  "fold (\<lambda>i x. let x = SIXTEEN_ROUNDS x in if i = 0 then x[31 := x ! 31 XOR 1] else x) [0..<11] x =
    (cubehash_round ^^ 160) ((SIXTEEN_ROUNDS x)[31 := SIXTEEN_ROUNDS x ! 31 XOR 1])"
proof -
  have "fold (\<lambda>i x. let x = SIXTEEN_ROUNDS x in if i = 0 then x[31 := x ! 31 XOR 1] else x) [1..<Suc n] x =
      (cubehash_round ^^ (16 * n)) x" for n x
    by (induction n) (simp_all add: SIXTEEN_ROUNDS_rounds funpow_add)
  from this [of 10] have rest: "fold (\<lambda>i x. let x = SIXTEEN_ROUNDS x in if i = 0 then x[31 := x ! 31 XOR 1] else x) [1..<11] x =
      (cubehash_round ^^ 160) x" for x by simp
  have "[0..<11] = (0::nat) # [1..<11]" by (simp add: upt_conv_Cons)
  then show ?thesis using rest by (simp only: fold_simps o_def id_def Let_def simp_thms if_True)
qed

lemma cubehash_close_digest:
  assumes "cube.holds iv m sc" and "length iv = 32" and "w \<le> 32"
  shows "snd (cubehash_close sc ub n w) = cubehash_digest iv w m (last_byte ub n)"
proof -
  define b where "b = last_byte ub n"
  define d where "d = b # replicate (31 - length m mod 32) 0"
  obtain buf ptr x where sc: "cubehash_view sc = (buf, ptr, x)" by simp
  have rep: "length buf = 32" "ptr = length m mod 32" "take ptr buf = rest_of 32 m"
    "x = absorb_blocks 32 cubehash_block m iv"
    using assms(1,2) sc unfolding cube.holds_def represents_def by (auto simp: absorb_cubehash_block)
  have "ptr < 32" using rep(2) by simp
  have buf: "memcpy (buf[ptr := b]) (ptr + 1) (replicate (32 - (ptr + 1)) 0) = rest_of 32 m @ d"
    using rep(1,3) \<open>ptr < 32\<close> by (simp add: memcpy_def d_def take_Suc_conv_app_nth flip: rep(2))
  have x: "length x = 32" using rep(4) absorb_cubehash_block [OF assms(2)] by simp
  have full: "length m mod 32 + length d = 32" by (simp add: d_def Suc_diff_le) 
  have "SIXTEEN_ROUNDS (INPUT_BLOCK (rest_of 32 m @ d) x) = absorb_blocks 32 cubehash_block (m @ d) iv"
    using full rep(4) x by (simp add: cubehash_block_step absorb_blocks_full(1))
  then show ?thesis
    using sc buf assms(3) unfolding cubehash_close_def cubehash_digest_def Let_def cubehash_finish [unfolded Let_def]
    by (auto simp: b_def [symmetric] d_def [symmetric] sph_enc32_conv simp del: fold_simps
        intro!: arg_cong [where f = concat] nth_equalityI)
qed

lemma cubehash_hash:
  assumes "length (cube_buf c) = 32" and "length iv = 32" and "w \<le> 32"
    and c': "c' = fold (\<lambda>d c. cubehash_core c d (length d)) ds (cubehash_init c iv)"
  shows "snd (cubehash_close c' ub n w) = cubehash_digest iv w (concat ds) (last_byte ub n)"
    and "length (cube_buf (fst (cubehash_close c' ub n w))) = 32"
proof -
  have "cube.holds iv [] (cubehash_init c iv)"
    using assms(1) by (simp add: cube.holds_def cubehash_init_def represents_init)
  from cube.holds_run [OF this, of ds] have holds: "cube.holds iv (concat ds) c'" by (simp add: c')
  show "snd (cubehash_close c' ub n w) = cubehash_digest iv w (concat ds) (last_byte ub n)"
    by (rule cubehash_close_digest [OF holds assms(2,3)])
  have "cube_ptr c' < 32" "length (cube_buf c') = 32" using cube.holds_bound [OF holds] by auto
  then show "length (cube_buf (fst (cubehash_close c' ub n w))) = 32"
    by (simp add: cubehash_close_def Let_def)
qed

lemma last_byte_0: "last_byte 0 0 = 0x80"
  by (simp add: last_byte_def)

lemma length_IV: "length IV224 = 32" "length IV256 = 32" "length IV384 = 32" "length IV512 = 32"
  by (simp_all add: IV224_def IV256_def IV384_def IV512_def)

lemmas sph_cubehash_defs =
  sph_cubehash224_init_def sph_cubehash224_def sph_cubehash224_close_def sph_cubehash224_addbits_and_close_def
  sph_cubehash256_init_def sph_cubehash256_def sph_cubehash256_close_def sph_cubehash256_addbits_and_close_def
  sph_cubehash384_init_def sph_cubehash384_def sph_cubehash384_close_def sph_cubehash384_addbits_and_close_def
  sph_cubehash512_init_def sph_cubehash512_def sph_cubehash512_close_def sph_cubehash512_addbits_and_close_def

section \<open>Properties of CubeHash\<close>

text \<open>
  The sixteen unrolled rounds, in which the swaps of words are renamings of variables, compute
  sixteen rounds of the CubeHash specification.
\<close>

theorem cubehash_unrolled_rounds: "SIXTEEN_ROUNDS x = (cubehash_round ^^ 16) x"
  by (rule SIXTEEN_ROUNDS_rounds)

text \<open>
  C39. Whatever way a message is cut into the inputs of successive calls, initialising a context,
  passing the inputs to \<^verbatim>\<open>sph_cubehash512\<close> and closing it returns the CubeHash-512 digest of the whole
  message, and the same for the other three digest sizes.
\<close>

theorem sph_cubehash_streaming:
  assumes "length (cube_buf c) = 32"
  shows "snd (sph_cubehash512_close (fold (\<lambda>d c. sph_cubehash512 c d (length d)) ds (sph_cubehash512_init c))) =
      cubehash_digest IV512 16 (concat ds) 0x80
    \<and> snd (sph_cubehash384_close (fold (\<lambda>d c. sph_cubehash384 c d (length d)) ds (sph_cubehash384_init c))) =
      cubehash_digest IV384 12 (concat ds) 0x80
    \<and> snd (sph_cubehash256_close (fold (\<lambda>d c. sph_cubehash256 c d (length d)) ds (sph_cubehash256_init c))) =
      cubehash_digest IV256 8 (concat ds) 0x80
    \<and> snd (sph_cubehash224_close (fold (\<lambda>d c. sph_cubehash224 c d (length d)) ds (sph_cubehash224_init c))) =
      cubehash_digest IV224 7 (concat ds) 0x80"
  using cubehash_hash(1) [OF assms length_IV(1) _ refl, of 7 ds 0 0] cubehash_hash(1) [OF assms length_IV(2) _ refl, of 8 ds 0 0]
    cubehash_hash(1) [OF assms length_IV(3) _ refl, of 12 ds 0 0] cubehash_hash(1) [OF assms length_IV(4) _ refl, of 16 ds 0 0]
  by (simp add: sph_cubehash_defs last_byte_0 case_prod_beta)

theorem sph_cubehash_streaming_witness:
  "snd (sph_cubehash512_close (sph_cubehash512 (sph_cubehash512 (sph_cubehash512_init
      \<lparr>cube_buf = replicate 32 9, cube_ptr = 5, cube_state = []\<rparr>) [1, 2] 2) [3] 1)) =
    cubehash_digest IV512 16 [1, 2, 3] 0x80"
  using sph_cubehash_streaming [of "\<lparr>cube_buf = replicate 32 9, cube_ptr = 5, cube_state = []\<rparr>" "[[1, 2], [3]]"]
  by (simp add: numeral_2_eq_2)

end
