(* ===== verification/Spec2Isabelle.thy ===== *)
theory Spec2Isabelle
  imports Versionbits Money Compress_Round Standard Multisig Sha512 Aes_Cbc Ethash_Keccak Ethash_Primes Sph_Cubehash
begin

text \<open>
  A verification library for the core of UnemployCoin (a descendant of Bitcoin Core). All paths are below \<^verbatim>\<open>src/\<close>.

  \<^bold>\<open>The parts and how they interact.\<close>
  A node receives block headers, puts them into its index of blocks (\<^verbatim>\<open>validation.cpp\<close>, \<^verbatim>\<open>chain.h\<close>, \<^verbatim>\<open>chain.cpp\<close>), computes
  the accumulated work of every branch with 256-bit arithmetic (\<^verbatim>\<open>arith_uint256.h\<close>) and follows the branch of most work as
  its active chain (\<^verbatim>\<open>CChain\<close>). Before a header is accepted, \<^verbatim>\<open>pow.cpp\<close> computes the target it has to meet from its
  ancestors and checks its hash; \<^verbatim>\<open>versionbits.cpp\<close> derives from the version bits of the ancestors which soft forks are in
  force. The transactions of a block are bound to its header by a Merkle tree (\<^verbatim>\<open>consensus/merkle.cpp\<close>) of double SHA-256
  hashes (\<^verbatim>\<open>crypto/sha256.cpp\<close>, \<^verbatim>\<open>hash.h\<close>), and light clients receive parts of that tree (\<^verbatim>\<open>merkleblock.cpp\<close>).
  Connecting a block checks the amounts and time locks of its transactions (\<^verbatim>\<open>consensus/tx_verify.cpp\<close>) and moves coins in a stack
  of caches (\<^verbatim>\<open>coins.cpp\<close>) over the database (\<^verbatim>\<open>txdb.cpp\<close>); the spent coins become undo data with which a reorganisation
  disconnects the block. Whether an input may spend a coin is decided by running the script of the input and the script of the coin on a
  stack machine (\<^verbatim>\<open>script/interpreter.cpp\<close>, \<^verbatim>\<open>script/script.h\<close>), which checks signatures against a hash of the transaction and time
  locks against its lock time and sequence numbers; \<^verbatim>\<open>script/standard.cpp\<close> recognises the usual forms of scripts. Coins and undo data are stored in a compressed form (\<^verbatim>\<open>compressor.cpp\<close>, \<^verbatim>\<open>undo.h\<close>,
  \<^verbatim>\<open>serialize.h\<close>). Mining uses the hash functions of \<^verbatim>\<open>algo/\<close> and the Keccak permutations of \<^verbatim>\<open>crypto/ethash\<close>;
  addresses are RIPEMD-160 hashes, the keys of a wallet are derived with HMAC-SHA-512 and encrypted with the AES of \<^verbatim>\<open>crypto/aes.cpp\<close>.

  \<^bold>\<open>The theories.\<close>
  \<^item> \<open>Prelude\<close>: machine integers, facts on bits and lists, \<open>lane\<close> (bit-sliced circuits), \<open>memcpy\<close>.
  \<^item> \<open>Arith_Uint256\<close> (\<^verbatim>\<open>arith_uint256.h/.cpp\<close>): numbers as lists of eight limbs, least significant first. Every loop over the
    limbs is a fold or a recursion; the lemmas relate each operator to the value \<open>uval\<close> modulo \<open>2 ^ 256\<close>. Operands are values,
    except for the product in place of an object with itself, which the code clears (\<open>uint_mul_self\<close>). \<open>SetCompact\<close>
    and \<open>GetCompact\<close> are the floating-point form of targets.
  \<^item> \<open>Block_Index\<close>: \<^verbatim>\<open>CBlockIndex\<close> and its members as a record; pointers are references into a store
    \<open>block_store\<close>, a null pointer is \<open>None\<close>, and an operation that dereferences a dangling or null pointer or fails an
    assertion returns \<open>None\<close>. \<open>AddToBlockIndex\<close> is the whole insertion. \<open>Block_Tree\<close>: the states reachable by insertions,
    their invariant \<open>index_inv\<close> by rule induction, that one genesis header gives one tree, and what follows for ancestors, common ancestors, median times and the order of tips.
  \<^item> \<open>Chain_Vector\<close> (\<^verbatim>\<open>CChain\<close>): the vector of references indexed by height, over the same store.
  \<^item> \<open>Pow\<close> (\<^verbatim>\<open>pow.cpp\<close>): both retargeting rules and the check of a hash. Global variables that the rules read
    (\<^verbatim>\<open>nKAWPOWActivationTime\<close>) are a record \<open>pow_globals\<close>.
  \<^item> \<open>Versionbits\<close>: the threshold state machine with its cache, a map from references of period ends to states.
  \<^item> \<open>Transactions\<close> (\<^verbatim>\<open>primitives/transaction.h\<close>, \<^verbatim>\<open>amount.h\<close>, \<^verbatim>\<open>consensus/tx_verify.cpp\<close>): the data of transactions, absolute
    and relative time locks over the block index.
  \<^item> \<open>Coins\<close>: \<^verbatim>\<open>CCoinsViewCache\<close> over any base view, given by a record of its virtual functions, and the database with its batches.
    \<open>Coins_Refine\<close>: the locale \<open>coins_view\<close> is the contract of a base (it holds a map of coins, and a flush updates it); it is
    interpreted with the database (\<open>db\<close>) and with a cache over the database (\<open>tip\<close>), so the whole stack of the node behaves as one map.
  \<^item> \<open>Connect\<close>: subsidies, the checks of amounts, \<^verbatim>\<open>UpdateCoins\<close> and the loops of \<^verbatim>\<open>ConnectBlock\<close> and \<^verbatim>\<open>DisconnectBlock\<close> that move
    coins. \<open>Connect_Refine\<close>: disconnecting undoes connecting. \<open>Money\<close>: what blocks do to the amount in
    circulation, and that outputs with asset scripts escape this while the values of all outputs are not enforced.
  \<^item> \<open>Serialize\<close>: fixed-width, compact and variable-length integers. \<open>Compressor\<close>, \<open>Compress_Round\<close>: the disk form of amounts,
    scripts, coins and undo data, and that it is read back; the code of a height is computed in
    \<^verbatim>\<open>int\<close> and overflows from \<open>2 ^ 30\<close> on. The library secp256k1 is here a record of two functions with the law \<open>secp_laws\<close>.
  \<^item> \<open>Script_Num\<close>, \<open>Script\<close> (\<^verbatim>\<open>script/script.h\<close>, \<^verbatim>\<open>script/script.cpp\<close>): the numbers of scripts, the opcodes (each a definition, unfolded by
    the collection \<open>opcode\<close>), reading and writing of operations, and the classification of scripts. A computation that may fail has the type
    \<open>'a exec\<close>: a value, an error code of the program, an exception, or undefined behaviour.
  \<^item> \<open>Interpreter\<close> (\<^verbatim>\<open>EvalScript\<close>): one definition per opcode on the stack, whose head is its top, \<open>main_op\<close> and \<open>eval_switch\<close> for the switch,
    \<open>eval_step\<close> for a round of the loop. The caller's checker of signatures and time locks is a record of functions. \<open>Interp_Safe\<close>: the
    calculus \<open>post\<close>, the reachable states \<open>eval_reach\<close> and their invariant \<open>eval_ok\<close>. \<open>Interp_Softfork\<close>: a run that is accepted with
    more flags is the same run with fewer. \<open>Multisig\<close>: what the loop of \<^verbatim>\<open>OP_CHECKMULTISIG\<close> decides.
  \<^item> \<open>Verify_Script\<close>: \<^verbatim>\<open>VerifyScript\<close> in the stages of the code. \<open>Spend\<close>: the grammar of signatures, payments to a key hash, outputs taken to
    be unspendable. \<open>Sighash\<close>: the two hashes that are signed, and the checker of an input; the locale \<open>signature_checker\<close> is the contract of
    checkers, kept by the base class and by \<open>input_checker\<close>. \<open>Standard\<close> (\<^verbatim>\<open>script/standard.cpp\<close>): the templates of \<^verbatim>\<open>Solver\<close> and destinations.
  \<^item> \<open>Bytes\<close>, \<open>Sph_Buffer\<close>: byte encodings of words, and the buffer of streaming hash functions; the locale
    \<open>buffered_hash\<close> is the contract of their input functions.
  \<^item> \<open>Sha256\<close>: the unrolled transformation is the compression function of FIPS 180-4, and \<^verbatim>\<open>CSHA256\<close> hashes a stream.
    \<open>Md_Hash\<close>: the hasher that SHA-1, RIPEMD-160 and SHA-512 share; the locale \<open>md_hash\<close> is the contract of a transformation, interpreted
    in \<open>Sha1\<close>, \<open>Ripemd160\<close> (with \<^verbatim>\<open>CHash160\<close>) and \<open>Sha512\<close> (with \<^verbatim>\<open>CHMAC_SHA512\<close>).
  \<^item> \<open>Merkle\<close>: \<^verbatim>\<open>MerkleComputation\<close> with its 32-bit counter and its array of 32 hashes against the tree built level by level.
  \<^item> \<open>Partial_Merkle\<close>: \<^verbatim>\<open>CPartialMerkleTree\<close>, building and extracting, and that forged proofs need a collision.
  \<^item> \<open>Ctaes\<close>, \<open>Gf256\<close>, \<open>Ctaes_Sbox\<close>, \<open>Ctaes_Cipher\<close>, \<open>Ctaes_Keys\<close>: the bit-sliced AES of \<^verbatim>\<open>crypto/ctaes\<close> against FIPS-197.
    \<open>Aes_Cbc\<close>: the modes of \<^verbatim>\<open>crypto/aes.cpp\<close> over the locale \<open>block_cipher\<close>, interpreted with AES-128 and AES-256.
  \<^item> \<open>Keccakf\<close>, \<open>Ethash_Keccak\<close>, \<open>Ethash_Primes\<close>: \<^verbatim>\<open>crypto/ethash/lib\<close>. \<open>Sph_Cubehash\<close>: \<^verbatim>\<open>algo/cubehash.c\<close>, which
    interprets \<open>buffered_hash\<close>.

  \<^bold>\<open>Conventions.\<close>
  Unsigned integers keep their width as words where they can wrap (\<open>uint32_t\<close>, \<open>uint64_t\<close>, limbs, flags, positions in Merkle
  trees). Heights and times, which the code stores in \<open>int\<close> and \<open>int64_t\<close> and which stay far from the limits, and amounts are \<open>int\<close>;
  division of possibly negative numbers is \<open>sdiv\<close> and \<open>smod\<close>, rounding towards zero. A throw, a failed assertion and
  undefined behaviour are \<open>None\<close>, or a constructor of a result type where callers distinguish them. Streams are lists of bytes; a
  reader returns the value and the rest. Sizes of stacks and scripts are natural numbers; the code compares them as \<open>int\<close> or
  \<open>size_t\<close>, which hold them, and the sizes that scripts themselves write are words.

  \<^bold>\<open>Loops and bounds.\<close>
  Loops over levels, limbs, digits and buffers are total functions with a measure, and so are the loops over the operations of a script,
  because reading an operation advances. The walks along parent links (\<open>walk_back\<close>, \<open>SetTip_loop\<close>
  and others) are \<open>partial_function (option)\<close>, and the theorems prove that they return on every reachable index. The level of a Merkle
  computation is bounded by 32, where the shift of the counter would be undefined; \<open>2 ^ 31\<close> leaves are the bound up to which this is never
  reached. Partial trees are limited to 33333 transactions by the code itself.

  \<^bold>\<open>Not modelled.\<close>
  Of scripts, the elliptic curve (the verification of a signature and the test for a low S value are functions that the model takes as
  arguments, without any assumption on them), the readers of asset data, building signatures, the cache of verified signatures, the names
  of opcodes and the relay policy. The memory pool, assets and their caches, the wallet, networking, user interfaces and start-up are not part of this library, nor are the
  remaining hash functions of \<^verbatim>\<open>algo/\<close>. Of connecting blocks, the asset side, script checks in threads, the optional indexes,
  the disk files and the choice of the best chain are left out. Vendored libraries are not the program's own code. Hexadecimal and
  floating-point conversions of 256-bit numbers, the disk form of index entries and \<^verbatim>\<open>CMerkleBlock\<close> are left out of the components above.
\<close>

end
